(* ===== verification/Prelude.thy ===== *)
theory Prelude
  imports Main "HOL-Library.Word" "HOL-Library.List_Lexorder"
begin

text \<open>
  Types and generic lemmas shared by every component: bytes and byte buffers, Rust's
  fixed-width big- and little-endian integer encodings, and the interface of a byte codec
  (an encoder together with a decoder that hands back the unread rest of its input).
  Unsigned counters and positions are natural numbers with the wrap-around written out;
  bytes and the integers whose bits are manipulated are words.
\<close>

unbundle bit_operations_syntax

named_theorems codec_simps \<open>unfolding facts of encoders and decoders\<close>
named_theorems result_splits \<open>case splits used on error-valued results\<close>

type_synonym byte = "8 word"
type_synonym bytes = "byte list"
type_synonym u32w = "32 word"
type_synonym u64w = "64 word"

lemmas [result_splits] = option.splits sum.splits if_splits prod.splits

definition u64_max :: nat where
  "u64_max = 2 ^ 64 - 1"

text \<open>The bytes of a string literal; Rust strings are byte sequences in UTF-8.\<close>

definition str :: "string \<Rightarrow> bytes" where
  "str s = map of_char s"

section \<open>Big-endian and little-endian integers\<close>

fun be_bytes :: "nat \<Rightarrow> nat \<Rightarrow> bytes" where
  "be_bytes 0 n = []"
| "be_bytes (Suc k) n = be_bytes k (n div 256) @ [word_of_nat (n mod 256)]"

definition le_bytes :: "nat \<Rightarrow> nat \<Rightarrow> bytes" where
  "le_bytes k n = rev (be_bytes k n)"

definition of_be :: "bytes \<Rightarrow> nat" where
  "of_be bs = foldl (\<lambda>a b. a * 256 + unat b) 0 bs"

text \<open>\<open>to_be_bytes\<close> of a \<open>u32\<close> (after an \<open>as u32\<close> cast) and of a \<open>u64\<close>.\<close>

abbreviation be32 :: "nat \<Rightarrow> bytes" where
  "be32 n \<equiv> be_bytes 4 n"

abbreviation be64 :: "nat \<Rightarrow> bytes" where
  "be64 n \<equiv> be_bytes 8 n"

lemma length_be_bytes [simp]: "length (be_bytes k n) = k"
  by (induction k arbitrary: n) auto

lemma length_le_bytes [simp]: "length (le_bytes k n) = k"
  by (simp add: le_bytes_def)

lemma of_be_Nil [simp]: "of_be [] = 0"
  by (simp add: of_be_def)

lemma of_be_snoc: "of_be (bs @ [b]) = of_be bs * 256 + unat b"
  by (simp add: of_be_def)

lemma unat_byte_of_nat: "unat (word_of_nat (n mod 256) :: byte) = n mod 256"
  by (simp add: unat_of_nat)

lemma of_be_be_bytes: "of_be (be_bytes k n) = n mod 256 ^ k"
proof (induction k arbitrary: n)
  case 0
  then show ?case by simp
next
  case (Suc k)
  have "of_be (be_bytes (Suc k) n) = (n div 256) mod 256 ^ k * 256 + n mod 256"
    by (simp add: of_be_snoc Suc.IH unat_byte_of_nat)
  also have "\<dots> = n mod 256 ^ Suc k"
    using mod_mult2_eq [of n 256 "256 ^ k"] by simp
  finally show ?case .
qed

lemma of_be_less: "of_be bs < 256 ^ length bs"
proof (induction bs rule: rev_induct)
  case Nil
  then show ?case by simp
next
  case (snoc b bs)
  have b: "unat b < 256" using unsigned_less [of b] by simp
  with snoc have "of_be bs * 256 + unat b < (of_be bs + 1) * 256" by simp
  also have "\<dots> \<le> 256 ^ length bs * 256"
    using snoc by (intro mult_le_mono1) simp
  finally show ?case by (simp add: of_be_snoc)
qed

lemma of_be32 [codec_simps]: "n < 2 ^ 32 \<Longrightarrow> of_be (be32 n) = n"
  by (simp add: of_be_be_bytes)

lemma of_be64 [codec_simps]: "n < 2 ^ 64 \<Longrightarrow> of_be (be64 n) = n"
  by (simp add: of_be_be_bytes)

lemma be_bytes_inj: "m < 256 ^ k \<Longrightarrow> n < 256 ^ k \<Longrightarrow> be_bytes k m = be_bytes k n \<Longrightarrow> m = n"
  by (metis mod_less of_be_be_bytes)

section \<open>Slices\<close>

text \<open>\<open>buf[i..j]\<close> for bounds already checked.\<close>

definition slice :: "nat \<Rightarrow> nat \<Rightarrow> 'a list \<Rightarrow> 'a list" where
  "slice i j xs = take (j - i) (drop i xs)"

lemma length_slice [simp]: "j \<le> length xs \<Longrightarrow> length (slice i j xs) = j - i"
  by (simp add: slice_def)

lemma slice_append_right:
  "length xs = i \<Longrightarrow> i \<le> j \<Longrightarrow> slice i j (xs @ ys) = take (j - i) ys"
  by (simp add: slice_def)

lemma slice_middle:
  "i = length xs \<Longrightarrow> j = length xs + length ys \<Longrightarrow> slice i j (xs @ ys @ zs) = ys"
  by (simp add: slice_def)

lemma take_prefix_slice: "j \<le> n \<Longrightarrow> slice i j (take n xs) = slice i j xs"
  by (simp add: slice_def drop_take min_def)

lemma slice_extend: "j \<le> length xs \<Longrightarrow> slice i j (xs @ ys) = slice i j xs"
  by (simp add: slice_def)

lemma slice_shift: "slice (length pre + i) (length pre + j) (pre @ b) = slice i j b"
  by (simp add: slice_def)

lemma slice_past:
  "length xs \<le> i \<Longrightarrow> slice i j (xs @ ys) = slice (i - length xs) (j - length xs) ys"
  by (simp add: slice_def)

lemma slice_here: "length xs = n \<Longrightarrow> slice 0 n (xs @ ys) = xs"
  by (simp add: slice_def)

section \<open>The interface of a byte codec\<close>

text \<open>
  A codec for the values that satisfy \<open>ok\<close>: decoding what was encoded, whatever
  follows it in the buffer, gives the value back and leaves exactly what follows.
\<close>

locale byte_codec =
  fixes enc :: "'a \<Rightarrow> bytes"
    and dec :: "bytes \<Rightarrow> ('a \<times> bytes) option"
    and ok :: "'a \<Rightarrow> bool"
  assumes dec_enc: "ok x \<Longrightarrow> dec (enc x @ rest) = Some (x, rest)"
begin

lemma enc_inj: "ok x \<Longrightarrow> ok y \<Longrightarrow> enc x = enc y \<Longrightarrow> x = y"
  by (metis Pair_inject dec_enc option.inject)

text \<open>No encoding is a proper prefix of another: the code is uniquely decodable.\<close>

lemma prefix_free: "ok x \<Longrightarrow> ok y \<Longrightarrow> enc x @ r = enc y @ s \<Longrightarrow> x = y \<and> r = s"
  by (metis Pair_inject dec_enc option.inject)

lemma concat_enc_inj:
  "\<lbrakk>\<forall>x\<in>set xs. ok x; \<forall>y\<in>set ys. ok y; length xs = length ys;
    concat (map enc xs) @ r = concat (map enc ys) @ s\<rbrakk> \<Longrightarrow> xs = ys \<and> r = s"
proof (induction xs arbitrary: ys)
  case Nil
  then show ?case by simp
next
  case (Cons x xs)
  then obtain y ys' where ys: "ys = y # ys'" by (cases ys) auto
  with Cons.prems have "enc x @ (concat (map enc xs) @ r) = enc y @ (concat (map enc ys') @ s)"
    by simp
  moreover have "ok x" "ok y" using Cons.prems ys by auto
  ultimately have "x = y \<and> concat (map enc xs) @ r = concat (map enc ys') @ s"
    using prefix_free by blast
  moreover have "xs = ys' \<and> r = s"
    using Cons.IH [of ys'] Cons.prems ys calculation by simp
  ultimately show ?case using ys by simp
qed

end

fun dec_n :: "(bytes \<Rightarrow> ('a \<times> bytes) option) \<Rightarrow> nat \<Rightarrow> bytes \<Rightarrow> ('a list \<times> bytes) option" where
  "dec_n d 0 bs = Some ([], bs)"
| "dec_n d (Suc n) bs =
     (case d bs of None \<Rightarrow> None
      | Some (x, bs') \<Rightarrow>
          (case dec_n d n bs' of None \<Rightarrow> None | Some (xs, r) \<Rightarrow> Some (x # xs, r)))"

context byte_codec
begin

lemma dec_n_enc:
  "\<forall>x\<in>set xs. ok x \<Longrightarrow> dec_n dec (length xs) (concat (map enc xs) @ rest) = Some (xs, rest)"
  by (induction xs) (auto simp: dec_enc)

end

section \<open>Fixed-width little-endian fields\<close>

text \<open>The layout the bincode crate documents for \<open>u64\<close> fields, and fields in sequence.\<close>

definition le64 :: "nat \<Rightarrow> bytes" where
  "le64 n = le_bytes 8 n"

definition read_le64 :: "bytes \<Rightarrow> (nat \<times> bytes) option" where
  "read_le64 bs = (if length bs < 8 then None else Some (of_be (rev (take 8 bs)), drop 8 bs))"

interpretation le64: byte_codec le64 read_le64 "\<lambda>n. n < 2 ^ 64"
  by unfold_locales (simp add: le64_def read_le64_def le_bytes_def of_be_be_bytes)

fun seq_codec :: "(bytes \<Rightarrow> ('a \<times> bytes) option) \<Rightarrow> (bytes \<Rightarrow> ('b \<times> bytes) option) \<Rightarrow> bytes \<Rightarrow> (('a \<times> 'b) \<times> bytes) option" where
  "seq_codec d1 d2 bs =
     (case d1 bs of None \<Rightarrow> None
      | Some (x, r) \<Rightarrow> (case d2 r of None \<Rightarrow> None | Some (y, r') \<Rightarrow> Some ((x, y), r')))"

section \<open>The interface of a positional parser\<close>

text \<open>
  A parser that reads one item at a position of a buffer and returns it with the position
  just past it. In a torn buffer, one that ends inside the item, it finds nothing.
\<close>

fun parse_n :: "(bytes \<Rightarrow> nat \<Rightarrow> ('b \<times> nat) option) \<Rightarrow> nat \<Rightarrow> bytes \<Rightarrow> nat \<Rightarrow> ('b list \<times> nat) option" where
  "parse_n p 0 buf pos = Some ([], pos)"
| "parse_n p (Suc n) buf pos =
     (case p buf pos of None \<Rightarrow> None
      | Some (x, next) \<Rightarrow>
          (case parse_n p n buf next of None \<Rightarrow> None | Some (xs, q) \<Rightarrow> Some (x # xs, q)))"

lemma parse_n_first_None: "0 < n \<Longrightarrow> p buf pos = None \<Longrightarrow> parse_n p n buf pos = None"
  by (cases n) auto

locale framed_codec =
  fixes enc :: "'a \<Rightarrow> bytes"
    and parse :: "bytes \<Rightarrow> nat \<Rightarrow> ('b \<times> nat) option"
    and out :: "'a \<Rightarrow> 'b"
    and ok :: "'a \<Rightarrow> bool"
  assumes parse_enc:
    "ok x \<Longrightarrow> parse (pre @ enc x @ rest) (length pre) = Some (out x, length pre + length (enc x))"
begin

lemma parse_n_enc:
  "\<forall>x\<in>set xs. ok x \<Longrightarrow>
   parse_n parse (length xs) (pre @ concat (map enc xs) @ rest) (length pre)
     = Some (map out xs, length pre + length (concat (map enc xs)))"
proof (induction xs arbitrary: pre)
  case Nil
  then show ?case by simp
next
  case (Cons x xs)
  then have "parse_n parse (length xs) ((pre @ enc x) @ concat (map enc xs) @ rest) (length (pre @ enc x))
     = Some (map out xs, length (pre @ enc x) + length (concat (map enc xs)))"
    by (intro Cons.IH) simp
  with Cons.prems show ?case by (simp add: parse_enc)
qed

end

text \<open>A parser that stays within its buffer and does not look at what follows an item.\<close>

locale torn_codec = framed_codec +
  assumes parse_extend:
    "parse buf pos = Some (y, q) \<Longrightarrow> q \<le> length buf \<and> parse (buf @ ext) pos = Some (y, q)"
begin

lemma parse_torn:
  assumes "ok x" and "n < length (enc x)"
  shows "parse (pre @ take n (enc x)) (length pre) = None"
proof (cases "parse (pre @ take n (enc x)) (length pre)")
  case (Some yq)
  obtain y q where yq: "yq = (y, q)" by (cases yq)
  with Some parse_extend [of "pre @ take n (enc x)" "length pre" y q "drop n (enc x)"]
  have q: "q \<le> length pre + n" and p: "parse (pre @ enc x) (length pre) = Some (y, q)"
    by (auto split: if_splits)
  from parse_enc [OF assms(1), of pre "[]"] p have "q = length pre + length (enc x)" by simp
  with q assms(2) show ?thesis by simp
qed

lemma parse_n_torn:
  "\<forall>x\<in>set xs. ok x \<Longrightarrow> n < length (concat (map enc xs)) \<Longrightarrow>
   parse_n parse (length xs) (pre @ take n (concat (map enc xs))) (length pre) = None"
proof (induction xs arbitrary: pre n)
  case Nil
  then show ?case by simp
next
  case (Cons x xs)
  show ?case
  proof (cases "n < length (enc x)")
    case True
    with Cons.prems show ?thesis by (simp add: parse_torn)
  next
    case False
    with Cons have "parse_n parse (length xs)
        ((pre @ enc x) @ take (n - length (enc x)) (concat (map enc xs))) (length (pre @ enc x)) = None"
      by (intro Cons.IH) auto
    with False Cons.prems show ?thesis by (simp add: parse_enc)
  qed
qed

end

section \<open>Generic list lemmas\<close>

lemma last_filter_append:
  "filter P ys \<noteq> [] \<Longrightarrow> last (filter P (xs @ ys)) = last (filter P ys)"
  by simp

lemma find_append:
  "find P (xs @ ys) = (case find P xs of None \<Rightarrow> find P ys | Some x \<Rightarrow> Some x)"
  by (induction xs) auto

lemma find_None_filter: "find P xs = None \<longleftrightarrow> filter P xs = []"
  by (induction xs) auto

end
