(* ===== verification/Rust_Std.thy ===== *)
theory Rust_Std
  imports Prelude
begin

text \<open>
  The parts of Rust's standard library the modelled code uses: \<open>std::cmp::Ordering\<close>,
  the ordered map \<open>BTreeMap\<close> (a strictly sorted association list), the formatting
  of integers (\<open>{:020}\<close>, \<open>{:02x}\<close>), \<open>String::from_utf8_lossy\<close> over byte
  buffers, and \<open>slice::partition_point\<close> / \<open>binary_search_by\<close>.
\<close>

section \<open>Orderings\<close>

datatype ordering = Less | Equal | Greater

definition cmp :: "'a::linorder \<Rightarrow> 'a \<Rightarrow> ordering" where
  "cmp a b = (if a < b then Less else if a = b then Equal else Greater)"

definition then_with :: "ordering \<Rightarrow> ordering \<Rightarrow> ordering" where
  "then_with o1 o2 = (case o1 of Equal \<Rightarrow> o2 | _ \<Rightarrow> o1)"

lemma cmp_Less [simp]: "cmp a b = Less \<longleftrightarrow> a < b"
  and cmp_Equal [simp]: "cmp a b = Equal \<longleftrightarrow> a = b"
  and cmp_Greater [simp]: "cmp a b = Greater \<longleftrightarrow> b < a"
  by (auto simp: cmp_def)

section \<open>Results\<close>

text \<open>\<open>r?\<close> followed by \<open>f\<close>: an error returns early.\<close>

definition attempt :: "'e + 'a \<Rightarrow> ('a \<Rightarrow> 'e + 'b) \<Rightarrow> 'e + 'b" where
  "attempt r f = (case r of Inl e \<Rightarrow> Inl e | Inr x \<Rightarrow> f x)"

lemma attempt_simps [simp]: "attempt (Inl e) f = Inl e" "attempt (Inr x) f = f x"
  by (simp_all add: attempt_def)

lemma attempt_cong [fundef_cong]: "r = r' \<Longrightarrow> (\<And>x. r' = Inr x \<Longrightarrow> f x = f' x) \<Longrightarrow> attempt r f = attempt r' f'"
  by (auto simp: attempt_def split: sum.splits)

lemma attempt_Inr_iff: "attempt r f = Inr y \<longleftrightarrow> (\<exists>x. r = Inr x \<and> f x = Inr y)"
  by (auto simp: attempt_def split: sum.splits)

section \<open>BTreeMap\<close>

fun bt_insert :: "'k::linorder \<Rightarrow> 'v \<Rightarrow> ('k \<times> 'v) list \<Rightarrow> ('k \<times> 'v) list" where
  "bt_insert k v [] = [(k, v)]"
| "bt_insert k v (e # m) =
     (if fst e < k then e # bt_insert k v m
      else if fst e = k then (k, v) # m
      else (k, v) # e # m)"

definition bt_get :: "('k \<times> 'v) list \<Rightarrow> 'k \<Rightarrow> 'v option" where
  "bt_get m k = map_of m k"

definition bt_remove :: "'k \<Rightarrow> ('k \<times> 'v) list \<Rightarrow> ('k \<times> 'v) list" where
  "bt_remove k m = filter (\<lambda>e. fst e \<noteq> k) m"

definition bt_wf :: "('k::linorder \<times> 'v) list \<Rightarrow> bool" where
  "bt_wf m \<longleftrightarrow> sorted_wrt (<) (map fst m)"

lemma bt_wf_Nil [simp]: "bt_wf []"
  by (simp add: bt_wf_def)

lemma bt_wf_Cons: "bt_wf (e # m) \<longleftrightarrow> (\<forall>x\<in>set m. fst e < fst x) \<and> bt_wf m"
  by (auto simp: bt_wf_def)

lemma bt_wf_distinct: "bt_wf m \<Longrightarrow> distinct (map fst m)"
  by (simp add: bt_wf_def strict_sorted_iff)

lemma set_bt_insert_subset: "set (bt_insert k v m) \<subseteq> insert (k, v) (set m)"
  by (induction m) auto

lemma bt_insert_mem: "(k, v) \<in> set (bt_insert k v m)"
  by (induction m) auto

lemma fst_set_bt_insert: "fst ` set (bt_insert k v m) = insert k (fst ` set m)"
  by (induction m) auto

lemma bt_wf_insert: "bt_wf m \<Longrightarrow> bt_wf (bt_insert k v m)"
proof (induction m)
  case Nil
  then show ?case by (simp add: bt_wf_Cons)
next
  case (Cons e m)
  have "\<forall>x\<in>set (bt_insert k v m). fst e < fst x" if "fst e < k"
  proof
    fix x assume "x \<in> set (bt_insert k v m)"
    then have "x = (k, v) \<or> x \<in> set m" using set_bt_insert_subset by fastforce
    then show "fst e < fst x" using that Cons.prems by (auto simp: bt_wf_Cons)
  qed
  with Cons show ?case by (auto simp: bt_wf_Cons)
qed

lemma bt_get_Nil [simp]: "bt_get [] k = None"
  by (simp add: bt_get_def)

lemma bt_get_insert: "bt_get (bt_insert k v m) = (bt_get m)(k \<mapsto> v)"
proof (induction m)
  case Nil
  then show ?case by (auto simp: bt_get_def fun_eq_iff)
next
  case (Cons e m)
  then show ?case by (cases e) (auto simp: bt_get_def fun_eq_iff)
qed

lemma bt_get_remove: "bt_get (bt_remove k m) = (bt_get m)(k := None)"
  by (induction m) (auto simp: bt_get_def bt_remove_def fun_eq_iff)

lemma filter_keys_bt_insert:
  "\<not> P k \<Longrightarrow> filter P (map fst (bt_insert k v m)) = filter P (map fst m)"
  by (induction m) auto

lemma filter_keys_bt_remove:
  "\<not> P k \<Longrightarrow> filter P (map fst (bt_remove k m)) = filter P (map fst m)"
  by (induction m) (auto simp: bt_remove_def)

lemma bt_wf_remove: "bt_wf m \<Longrightarrow> bt_wf (bt_remove k m)"
  by (induction m) (auto simp: bt_wf_Cons bt_remove_def)

lemma set_bt_remove: "set (bt_remove k m) = {e \<in> set m. fst e \<noteq> k}"
  by (auto simp: bt_remove_def)

lemma set_bt_insert:
  "bt_wf m \<Longrightarrow> set (bt_insert k v m) = insert (k, v) {e \<in> set m. fst e \<noteq> k}"
proof (induction m)
  case Nil
  then show ?case by simp
next
  case (Cons e m)
  then show ?case by (cases e) (auto simp: bt_wf_Cons)
qed

lemma bt_get_Some_iff: "bt_wf m \<Longrightarrow> bt_get m k = Some v \<longleftrightarrow> (k, v) \<in> set m"
  by (simp add: bt_get_def bt_wf_distinct)

lemma bt_wf_eqI: "bt_wf m \<Longrightarrow> bt_wf n \<Longrightarrow> set m = set n \<Longrightarrow> m = n"
proof (induction m arbitrary: n)
  case Nil
  then show ?case by simp
next
  case (Cons e m)
  then obtain f n' where n: "n = f # n'" by (cases n) auto
  have ef: "e = f"
  proof (rule ccontr)
    assume ne: "e \<noteq> f"
    have "e \<in> set n'" "f \<in> set m" using Cons.prems ne n by auto
    then have "fst f < fst e" "fst e < fst f"
      using Cons.prems n by (auto simp: bt_wf_Cons)
    then show False by simp
  qed
  have "e \<notin> set m" "e \<notin> set n'" using Cons.prems n ef by (auto simp: bt_wf_Cons)
  then have "set m = set n'" using Cons.prems n ef by auto
  with Cons n ef show ?case by (simp add: bt_wf_Cons)
qed

section \<open>Formatting\<close>

text \<open>Decimal digits, zero padding (\<open>{:020}\<close>) and two-digit hex (\<open>{:02x}\<close>).\<close>

fun dec_digits :: "nat \<Rightarrow> bytes" where
  "dec_digits n =
     (if n < 10 then [word_of_nat (48 + n)]
      else dec_digits (n div 10) @ [word_of_nat (48 + n mod 10)])"

declare dec_digits.simps [simp del]

lemma length_dec_digits: "n < 10 ^ Suc k \<Longrightarrow> length (dec_digits n) \<le> Suc k"
proof (induction k arbitrary: n)
  case 0
  then show ?case by (subst dec_digits.simps) simp
next
  case (Suc k)
  have "n div 10 < 10 ^ Suc k" using Suc.prems by (simp add: div_less_iff_less_mult)
  from Suc.IH [OF this] show ?case by (subst dec_digits.simps) simp
qed

definition pad0 :: "nat \<Rightarrow> bytes \<Rightarrow> bytes" where
  "pad0 w ds = replicate (w - length ds) 48 @ ds"

definition hex_digit :: "nat \<Rightarrow> byte" where
  "hex_digit d = word_of_nat (if d < 10 then 48 + d else 87 + d)"

definition hex2 :: "byte \<Rightarrow> bytes" where
  "hex2 b = [hex_digit (unat b div 16), hex_digit (unat b mod 16)]"

lemma unat_small_byte: "n < 256 \<Longrightarrow> unat (word_of_nat n :: byte) = n"
  by (simp add: unat_of_nat)

lemma hex_digit_inj: "d < 16 \<Longrightarrow> e < 16 \<Longrightarrow> hex_digit d = hex_digit e \<Longrightarrow> d = e"
proof -
  assume d: "d < 16" and e: "e < 16" and eq: "hex_digit d = hex_digit e"
  have u: "unat (hex_digit x) = (if x < 10 then 48 + x else 87 + x)" if "x < 16" for x
    unfolding hex_digit_def by (rule unat_small_byte) (use that in auto)
  have "(if d < 10 then 48 + d else 87 + d) = (if e < 10 then 48 + e else 87 + e)"
    using u [OF d] u [OF e] unfolding eq by simp
  then show "d = e" by (simp split: if_splits)
qed

lemma hex2_inj: "hex2 a = hex2 b \<Longrightarrow> a = b"
proof -
  assume "hex2 a = hex2 b"
  moreover have "unat a < 256" "unat b < 256"
    using unsigned_less [of a] unsigned_less [of b] by simp_all
  ultimately have "unat a div 16 = unat b div 16" "unat a mod 16 = unat b mod 16"
    by (auto simp: hex2_def intro: hex_digit_inj)
  then have "unat a = unat b" by (metis div_mult_mod_eq)
  then show "a = b" by (metis word_unat_eq_iff)
qed

lemma concat_hex2_inj: "concat (map hex2 xs) = concat (map hex2 ys) \<Longrightarrow> xs = ys"
proof (induction xs arbitrary: ys)
  case Nil
  then show ?case by (cases ys) (auto simp: hex2_def)
next
  case (Cons x xs)
  then obtain y ys' where ys: "ys = y # ys'" by (cases ys) (auto simp: hex2_def)
  have "length (hex2 x) = length (hex2 y)" by (simp add: hex2_def)
  with Cons.prems ys have "hex2 x = hex2 y" "concat (map hex2 xs) = concat (map hex2 ys')"
    by auto
  with Cons.IH ys show ?case by (auto dest: hex2_inj)
qed

section \<open>UTF-8\<close>

definition is_cont :: "byte \<Rightarrow> bool" where
  "is_cont b \<longleftrightarrow> b AND 192 = 128"

definition utf8_width :: "byte \<Rightarrow> nat" where
  "utf8_width b =
     (if b < 128 then 1
      else if 194 \<le> b \<and> b \<le> 223 then 2
      else if 224 \<le> b \<and> b \<le> 239 then 3
      else if 240 \<le> b \<and> b \<le> 244 then 4
      else 0)"

definition second_ok :: "byte \<Rightarrow> byte \<Rightarrow> bool" where
  "second_ok b c =
     (if b = 224 then 160 \<le> c \<and> c \<le> 191
      else if b = 237 then 128 \<le> c \<and> c \<le> 159
      else if b = 240 then 144 \<le> c \<and> c \<le> 191
      else if b = 244 then 128 \<le> c \<and> c \<le> 143
      else 128 \<le> c \<and> c \<le> 191)"

definition get0 :: "bytes \<Rightarrow> nat \<Rightarrow> byte" where
  "get0 bs i = (if i < length bs then bs ! i else 0)"

text \<open>
  One step of the decoder at first byte \<open>b\<close> with \<open>bs\<close> following: whether a whole
  scalar value is there, and how many bytes it, or the maximal invalid prefix, takes.
\<close>

definition utf8_step :: "byte \<Rightarrow> bytes \<Rightarrow> bool \<times> nat" where
  "utf8_step b bs =
     (if utf8_width b = 1 then (True, 1)
      else if utf8_width b = 2 then
        (if is_cont (get0 bs 0) then (True, 2) else (False, 1))
      else if utf8_width b = 3 then
        (if \<not> second_ok b (get0 bs 0) then (False, 1)
         else if is_cont (get0 bs 1) then (True, 3) else (False, 2))
      else if utf8_width b = 4 then
        (if \<not> second_ok b (get0 bs 0) then (False, 1)
         else if \<not> is_cont (get0 bs 1) then (False, 2)
         else if is_cont (get0 bs 2) then (True, 4) else (False, 3))
      else (False, 1))"

lemma utf8_step_pos: "0 < snd (utf8_step b bs)"
  by (auto simp: utf8_step_def)

function from_utf8_lossy :: "bytes \<Rightarrow> bytes" where
  "from_utf8_lossy [] = []"
| "from_utf8_lossy (b # bs) =
     (if fst (utf8_step b bs) then take (snd (utf8_step b bs)) (b # bs) else [239, 191, 189])
     @ from_utf8_lossy (drop (snd (utf8_step b bs)) (b # bs))"
  by pat_completeness auto
termination
  by (relation "measure length") (use utf8_step_pos in \<open>auto simp: diff_less\<close>)

function valid_utf8 :: "bytes \<Rightarrow> bool" where
  "valid_utf8 [] = True"
| "valid_utf8 (b # bs) =
     (fst (utf8_step b bs) \<and> valid_utf8 (drop (snd (utf8_step b bs)) (b # bs)))"
  by pat_completeness auto
termination
  by (relation "measure length") (use utf8_step_pos in \<open>auto simp: diff_less\<close>)

lemma from_utf8_lossy_valid: "valid_utf8 bs \<Longrightarrow> from_utf8_lossy bs = bs"
  by (induction bs rule: valid_utf8.induct) auto

lemma get0_append: "i < length xs \<Longrightarrow> get0 (xs @ ys) i = get0 xs i"
  by (simp add: get0_def nth_append)

text \<open>ASCII text is valid UTF-8.\<close>

lemma valid_utf8_ascii: "\<forall>b\<in>set bs. b < 128 \<Longrightarrow> valid_utf8 bs"
proof (induction bs)
  case Nil
  then show ?case by simp
next
  case (Cons b bs)
  then have "utf8_step b bs = (True, 1)" by (simp add: utf8_step_def utf8_width_def)
  with Cons show ?case by simp
qed

section \<open>Searching slices\<close>

text \<open>
  \<open>partition_point p\<close> on a slice partitioned by \<open>p\<close> is the length of the prefix
  that satisfies it; the binary search returns exactly that index.
\<close>

definition partition_point :: "('a \<Rightarrow> bool) \<Rightarrow> 'a list \<Rightarrow> nat" where
  "partition_point p xs = length (takeWhile p xs)"

lemma partition_point_le: "partition_point p xs \<le> length xs"
  by (simp add: partition_point_def length_takeWhile_le)

lemma partition_point_get:
  "(if partition_point p xs < length xs then Some (xs ! partition_point p xs) else None)
   = find (\<lambda>x. \<not> p x) xs"
  by (induction xs) (auto simp: partition_point_def)

end
