(* ===== verification/Audit_Log.thy ===== *)
theory Audit_Log
  imports Rust_Std
begin

text \<open>
  The audit spine (\<open>crates/tpt-pantheon-spine-audit-log/src/lib.rs\<close>): audit events and
  their builder, the in-memory sink, and the hash chain layered over it
  (\<open>chain_hash\<close>, \<open>verify_chain\<close>, \<open>HashChainSink\<close>). SHA-256 is the parameter
  \<open>sha\<close>; the clock is the argument \<open>now\<close> of the builder.
\<close>

section \<open>Events and their builder\<close>

datatype audit_outcome = Allow | Deny | Error

record audit_event =
  ev_id :: bytes
  ev_ts :: nat
  ev_actor :: bytes
  ev_action :: bytes
  ev_target :: bytes
  ev_outcome :: audit_outcome
  ev_meta :: "(bytes \<times> bytes) list"

record audit_event_builder =
  eb_id :: "bytes option"
  eb_ts :: nat
  eb_actor :: bytes
  eb_action :: bytes
  eb_target :: bytes
  eb_outcome :: audit_outcome
  eb_meta :: "(bytes \<times> bytes) list"

definition event_builder :: "nat \<Rightarrow> bytes \<Rightarrow> bytes \<Rightarrow> audit_event_builder" where
  "event_builder now action actor =
     \<lparr>eb_id = None, eb_ts = now, eb_actor = actor, eb_action = action, eb_target = [],
      eb_outcome = Allow, eb_meta = []\<rparr>"

definition builder_target :: "bytes \<Rightarrow> audit_event_builder \<Rightarrow> audit_event_builder" where
  "builder_target t b = b\<lparr>eb_target := t\<rparr>"

definition builder_outcome :: "audit_outcome \<Rightarrow> audit_event_builder \<Rightarrow> audit_event_builder" where
  "builder_outcome oc b = b\<lparr>eb_outcome := oc\<rparr>"

definition builder_meta :: "bytes \<Rightarrow> bytes \<Rightarrow> audit_event_builder \<Rightarrow> audit_event_builder" where
  "builder_meta k v b = b\<lparr>eb_meta := bt_insert k v (eb_meta b)\<rparr>"

definition build :: "audit_event_builder \<Rightarrow> audit_event" where
  "build b =
     \<lparr>ev_id = (case eb_id b of
         Some i \<Rightarrow> i
       | None \<Rightarrow> pad0 20 (dec_digits (eb_ts b)) @ str ''-'' @ eb_action b),
      ev_ts = eb_ts b, ev_actor = eb_actor b, ev_action = eb_action b,
      ev_target = eb_target b, ev_outcome = eb_outcome b, ev_meta = eb_meta b\<rparr>"

section \<open>The in-memory sink\<close>

datatype audit_error = Backend bytes | Rejected bytes

record in_memory_audit_sink =
  im_inner :: "audit_event list"

definition in_memory_new :: in_memory_audit_sink where
  "in_memory_new = \<lparr>im_inner = []\<rparr>"

definition in_memory_events :: "in_memory_audit_sink \<Rightarrow> audit_event list" where
  "in_memory_events s = im_inner s"

definition in_memory_append ::
  "in_memory_audit_sink \<Rightarrow> audit_event \<Rightarrow> audit_error + in_memory_audit_sink" where
  "in_memory_append s e =
     (if ev_action e = [] then Inl (Rejected (str ''action must not be empty''))
      else Inr (s\<lparr>im_inner := im_inner s @ [e]\<rparr>))"

section \<open>The hash chain\<close>

definition CHAIN_HASH_KEY :: bytes where
  "CHAIN_HASH_KEY = str ''_chain_hash''"

definition CHAIN_PREV_KEY :: bytes where
  "CHAIN_PREV_KEY = str ''_chain_prev''"

definition GENESIS_PREV :: bytes where
  "GENESIS_PREV = str ''0''"

datatype chain_error =
    MissingHash bytes
  | HashMismatch bytes bytes bytes
  | BrokenLink bytes bytes bytes

fun outcome_code :: "audit_outcome \<Rightarrow> nat" where
  "outcome_code Allow = 0"
| "outcome_code Deny = 1"
| "outcome_code Error = 2"

text \<open>The byte stream fed to the hasher, in the order of the \<open>update\<close> calls.\<close>

definition chain_keys :: "audit_event \<Rightarrow> bytes list" where
  "chain_keys e =
     sort (filter (\<lambda>k. k \<noteq> CHAIN_HASH_KEY \<and> k \<noteq> CHAIN_PREV_KEY) (map fst (ev_meta e)))"

definition chain_preimage :: "bytes \<Rightarrow> audit_event \<Rightarrow> bytes" where
  "chain_preimage prev e =
     prev @ ev_id e @ le_bytes 8 (ev_ts e) @ ev_actor e @ ev_action e @ ev_target e
     @ le_bytes 4 (outcome_code (ev_outcome e))
     @ concat (map (\<lambda>k. k @ the (bt_get (ev_meta e) k)) (chain_keys e))"

definition chain_hash :: "(bytes \<Rightarrow> bytes) \<Rightarrow> bytes \<Rightarrow> audit_event \<Rightarrow> bytes" where
  "chain_hash sha prev e = concat (map hex2 (sha (chain_preimage prev e)))"

definition stored_prev :: "audit_event \<Rightarrow> bytes" where
  "stored_prev e = (case bt_get (ev_meta e) CHAIN_PREV_KEY of Some p \<Rightarrow> p | None \<Rightarrow> GENESIS_PREV)"

fun verify_from :: "(bytes \<Rightarrow> bytes) \<Rightarrow> bytes \<Rightarrow> audit_event list \<Rightarrow> chain_error + unit" where
  "verify_from sha prev [] = Inr ()"
| "verify_from sha prev (e # es) =
     (case bt_get (ev_meta e) CHAIN_HASH_KEY of
        None \<Rightarrow> Inl (MissingHash (ev_id e))
      | Some stored \<Rightarrow>
          if stored_prev e \<noteq> prev then Inl (BrokenLink (ev_id e) prev (stored_prev e))
          else if chain_hash sha (stored_prev e) e \<noteq> stored
          then Inl (HashMismatch (ev_id e) (chain_hash sha (stored_prev e) e) stored)
          else verify_from sha stored es)"

definition verify_chain :: "(bytes \<Rightarrow> bytes) \<Rightarrow> audit_event list \<Rightarrow> chain_error + unit" where
  "verify_chain sha es = verify_from sha GENESIS_PREV es"

record hash_chain_sink =
  hc_inner :: in_memory_audit_sink

definition hash_chain_new :: hash_chain_sink where
  "hash_chain_new = \<lparr>hc_inner = in_memory_new\<rparr>"

definition hash_chain_events :: "hash_chain_sink \<Rightarrow> audit_event list" where
  "hash_chain_events s = in_memory_events (hc_inner s)"

definition hash_chain_verify :: "(bytes \<Rightarrow> bytes) \<Rightarrow> hash_chain_sink \<Rightarrow> chain_error + unit" where
  "hash_chain_verify sha s = verify_chain sha (in_memory_events (hc_inner s))"

definition chain_tip :: "audit_event list \<Rightarrow> bytes" where
  "chain_tip es =
     (if es = [] then GENESIS_PREV
      else (case bt_get (ev_meta (last es)) CHAIN_HASH_KEY of Some h \<Rightarrow> h | None \<Rightarrow> GENESIS_PREV))"

definition hash_chain_append ::
  "(bytes \<Rightarrow> bytes) \<Rightarrow> hash_chain_sink \<Rightarrow> audit_event \<Rightarrow> audit_error + hash_chain_sink" where
  "hash_chain_append sha s ev =
     (let prev = chain_tip (in_memory_events (hc_inner s));
          e1 = ev\<lparr>ev_meta := bt_remove CHAIN_HASH_KEY (bt_remove CHAIN_PREV_KEY (ev_meta ev))\<rparr>;
          h = chain_hash sha prev e1;
          e2 = e1\<lparr>ev_meta :=
                 bt_insert CHAIN_HASH_KEY h (bt_insert CHAIN_PREV_KEY prev (ev_meta e1))\<rparr>
      in case in_memory_append (hc_inner s) e2 of
           Inl err \<Rightarrow> Inl err
         | Inr i \<Rightarrow> Inr (s\<lparr>hc_inner := i\<rparr>))"

text \<open>A client that appends a list of events and goes on after a rejected one.\<close>

fun run_appends :: "('s \<Rightarrow> audit_event \<Rightarrow> audit_error + 's) \<Rightarrow> 's \<Rightarrow> audit_event list \<Rightarrow> 's" where
  "run_appends app s [] = s"
| "run_appends app s (e # es) =
     (case app s e of Inl _ \<Rightarrow> run_appends app s es | Inr s' \<Rightarrow> run_appends app s' es)"

section \<open>The contract of a sink\<close>

text \<open>Everything of a record but its metadata.\<close>

definition content :: "audit_event \<Rightarrow> audit_event" where
  "content e = e\<lparr>ev_meta := []\<rparr>"

text \<open>
  What every \<open>AuditSink\<close> promises its callers: an event without an action is refused
  and leaves the log alone; any other event is added at the end with its content kept,
  and no earlier record changes.
\<close>

locale audit_sink =
  fixes app :: "'s \<Rightarrow> audit_event \<Rightarrow> audit_error + 's"
    and log :: "'s \<Rightarrow> audit_event list"
  assumes refuse: "ev_action e = [] \<Longrightarrow> \<exists>m. app s e = Inl (Rejected m)"
    and accept: "ev_action e \<noteq> [] \<Longrightarrow>
      \<exists>s' e'. app s e = Inr s' \<and> log s' = log s @ [e'] \<and> content e' = content e"
begin

lemma run_contents:
  "map content (log (run_appends app s es)) =
     map content (log s) @ map content (filter (\<lambda>e. ev_action e \<noteq> []) es)"
proof (induction es arbitrary: s)
  case Nil
  then show ?case by simp
next
  case (Cons e es)
  show ?case
  proof (cases "ev_action e = []")
    case True
    then obtain m where "app s e = Inl (Rejected m)" using refuse by blast
    with True Cons show ?thesis by simp
  next
    case False
    then obtain s' e' where "app s e = Inr s'" "log s' = log s @ [e']" "content e' = content e"
      using accept by blast
    with False Cons show ?thesis by simp
  qed
qed

lemma run_prefix: "take (length (log s)) (log (run_appends app s es)) = log s"
proof (induction es arbitrary: s)
  case Nil
  then show ?case by simp
next
  case (Cons e es)
  show ?case
  proof (cases "ev_action e = []")
    case True
    then obtain m where "app s e = Inl (Rejected m)" using refuse by blast
    with Cons show ?thesis by simp
  next
    case False
    then obtain s' e' where s': "app s e = Inr s'" "log s' = log s @ [e']"
      using accept by blast
    have "take (length (log s)) (take (length (log s')) (log (run_appends app s' es)))
        = take (length (log s)) (log s')"
      by (simp add: Cons.IH)
    then show ?thesis using s' by (simp add: min_def)
  qed
qed

end

interpretation mem_sink: audit_sink in_memory_append in_memory_events
  by unfold_locales (auto simp: in_memory_append_def in_memory_events_def)

interpretation chain_sink: audit_sink "hash_chain_append sha" hash_chain_events
  for sha
  by unfold_locales
    (auto simp: hash_chain_append_def hash_chain_events_def in_memory_append_def
      in_memory_events_def content_def Let_def)

section \<open>Lemmas on the chain\<close>

lemma chain_keys_distinct [simp]:
  "CHAIN_HASH_KEY \<noteq> CHAIN_PREV_KEY" "CHAIN_PREV_KEY \<noteq> CHAIN_HASH_KEY"
  by (simp_all add: CHAIN_HASH_KEY_def CHAIN_PREV_KEY_def str_def)

text \<open>The chain keys do not contribute to the hash: storing them leaves it unchanged.\<close>

lemma chain_keys_meta:
  assumes "k = CHAIN_HASH_KEY \<or> k = CHAIN_PREV_KEY"
  shows "chain_keys (e\<lparr>ev_meta := bt_insert k v m\<rparr>) = chain_keys (e\<lparr>ev_meta := m\<rparr>)"
    and "chain_keys (e\<lparr>ev_meta := bt_remove k m\<rparr>) = chain_keys (e\<lparr>ev_meta := m\<rparr>)"
  using assms by (auto simp: chain_keys_def filter_keys_bt_insert filter_keys_bt_remove)

lemma chain_keys_not_chain:
  "k \<in> set (chain_keys e) \<Longrightarrow> k \<noteq> CHAIN_HASH_KEY \<and> k \<noteq> CHAIN_PREV_KEY"
  by (simp add: chain_keys_def)

lemma chain_preimage_insert:
  assumes "k = CHAIN_HASH_KEY \<or> k = CHAIN_PREV_KEY"
  shows "chain_preimage p (e\<lparr>ev_meta := bt_insert k v m\<rparr>) = chain_preimage p (e\<lparr>ev_meta := m\<rparr>)"
proof -
  have "map (\<lambda>x. x @ the (bt_get (bt_insert k v m) x)) (chain_keys (e\<lparr>ev_meta := m\<rparr>))
      = map (\<lambda>x. x @ the (bt_get m x)) (chain_keys (e\<lparr>ev_meta := m\<rparr>))"
    using assms by (intro map_cong) (auto simp: bt_get_insert dest: chain_keys_not_chain)
  then have "concat (map (\<lambda>x. x @ the (bt_get (bt_insert k v m) x)) (chain_keys (e\<lparr>ev_meta := m\<rparr>)))
      = concat (map (\<lambda>x. x @ the (bt_get m x)) (chain_keys (e\<lparr>ev_meta := m\<rparr>)))"
    by (rule arg_cong)
  then show ?thesis using assms by (simp add: chain_preimage_def chain_keys_meta)
qed

lemma verify_from_append:
  "verify_from sha p (xs @ ys) = Inr () \<longleftrightarrow>
     verify_from sha p xs = Inr () \<and>
     verify_from sha (if xs = [] then p else the (bt_get (ev_meta (last xs)) CHAIN_HASH_KEY)) ys
       = Inr ()"
proof (induction xs arbitrary: p)
  case Nil
  then show ?case by simp
next
  case (Cons a xs)
  then show ?case by (auto split: option.splits)
qed

lemma verify_from_append_Inl:
  "verify_from sha p xs = Inr () \<Longrightarrow>
     verify_from sha (if xs = [] then p else the (bt_get (ev_meta (last xs)) CHAIN_HASH_KEY)) ys
       = Inl x \<Longrightarrow> verify_from sha p (xs @ ys) = Inl x"
proof (induction xs arbitrary: p)
  case Nil
  then show ?case by simp
next
  case (Cons a xs)
  then show ?case by (auto split: option.splits if_splits)
qed

lemma verify_from_Inr_Cons:
  "verify_from sha p (e # es) = Inr () \<longleftrightarrow>
     (\<exists>h. bt_get (ev_meta e) CHAIN_HASH_KEY = Some h \<and> stored_prev e = p
        \<and> chain_hash sha p e = h \<and> verify_from sha h es = Inr ())"
  by (auto split: option.splits if_splits)

declare verify_from.simps(2) [simp del]

lemma verify_chain_snoc:
  "verify_chain sha (es @ [e]) = Inr () \<longleftrightarrow>
     verify_chain sha es = Inr () \<and> verify_from sha (chain_tip es) [e] = Inr ()"
proof (cases es rule: rev_cases)
  case Nil
  then show ?thesis by (simp add: verify_chain_def chain_tip_def)
next
  case (snoc ys y)
  then show ?thesis
    by (auto simp: verify_chain_def verify_from_append chain_tip_def verify_from_Inr_Cons)
qed

lemma chain_tip_snoc:
  "verify_chain sha (es @ [e]) = Inr () \<Longrightarrow>
     chain_tip (es @ [e]) = chain_hash sha (chain_tip es) e \<and> stored_prev e = chain_tip es"
  unfolding verify_chain_snoc by (auto simp: verify_from_Inr_Cons chain_tip_def [of "es @ [e]"])

lemma length_concat_hex2: "length (concat (map hex2 bs)) = 2 * length bs"
  by (induction bs) (auto simp: hex2_def)

lemma chain_tip_length:
  assumes "verify_chain sha es = Inr ()" and "\<And>x. length (sha x) = 32" and "es \<noteq> []"
  shows "length (chain_tip es) = 64"
proof -
  obtain ys y where es: "es = ys @ [y]" using assms(3) by (cases es rule: rev_cases) auto
  with assms(1) have "chain_tip es = chain_hash sha (chain_tip ys) y" by (simp add: chain_tip_snoc)
  then show ?thesis by (simp add: chain_hash_def length_concat_hex2 assms(2))
qed

abbreviation hashed :: "audit_event \<Rightarrow> bytes" where
  "hashed e \<equiv> chain_preimage (stored_prev e) e"

definition collide_at :: "(bytes \<Rightarrow> bytes) \<Rightarrow> audit_event list \<Rightarrow> audit_event list \<Rightarrow> nat \<Rightarrow> bool" where
  "collide_at sha xs ys i \<longleftrightarrow>
     i < length xs \<and> i < length ys \<and> hashed (xs ! i) \<noteq> hashed (ys ! i) \<and> sha (hashed (xs ! i)) = sha (hashed (ys ! i))"

lemma collide_at_snoc: "collide_at sha xs ys i \<Longrightarrow> collide_at sha (xs @ [x]) (ys @ [y]) i"
  by (auto simp: collide_at_def nth_append)

lemma chain_logs_agree:
  assumes len: "\<And>x. length (sha x) = 32"
  shows "\<lbrakk>verify_chain sha xs = Inr (); verify_chain sha ys = Inr (); length xs = length ys;
      chain_tip xs = chain_tip ys\<rbrakk>
    \<Longrightarrow> map hashed xs = map hashed ys \<or> (\<exists>i. collide_at sha xs ys i)"
proof (induction xs arbitrary: ys rule: rev_induct)
  case Nil
  then show ?case by simp
next
  case (snoc x xs)
  then obtain zs z where ys: "ys = zs @ [z]" by (cases ys rule: rev_cases) auto
  have vx: "verify_chain sha xs = Inr ()" and vz: "verify_chain sha zs = Inr ()"
    using snoc.prems ys by (simp_all add: verify_chain_snoc)
  have links: "stored_prev x = chain_tip xs" "stored_prev z = chain_tip zs"
    using snoc.prems ys by (simp_all add: chain_tip_snoc)
  have "chain_hash sha (chain_tip xs) x = chain_hash sha (chain_tip zs) z"
    using snoc.prems ys by (simp add: chain_tip_snoc)
  then have same: "sha (hashed x) = sha (hashed z)"
    using links by (auto simp: chain_hash_def dest!: concat_hex2_inj)
  show ?case
  proof (cases "hashed x = hashed z")
    case False
    then have "collide_at sha (xs @ [x]) (zs @ [z]) (length xs)"
      using same snoc.prems(3) ys by (simp add: collide_at_def nth_append)
    then show ?thesis using ys by blast
  next
    case True
    have "length (chain_tip xs) = length (chain_tip zs)"
    proof (cases "xs = []")
      case True
      then show ?thesis using snoc.prems ys by (simp add: chain_tip_def)
    next
      case False
      moreover have "zs \<noteq> []" using False snoc.prems ys by auto
      ultimately show ?thesis using chain_tip_length vx vz len by simp
    qed
    then have "chain_tip xs = chain_tip zs" using True links by (simp add: chain_preimage_def)
    then have "map hashed xs = map hashed zs \<or> (\<exists>i. collide_at sha xs zs i)"
      using snoc.IH [OF vx vz] snoc.prems ys by simp
    then show ?thesis
    proof (elim disjE exE)
      fix i
      assume "collide_at sha xs zs i"
      then show ?thesis using collide_at_snoc [of sha xs zs i x z] ys by blast
    qed (use True ys in simp)
  qed
qed

lemma chained_event_verifies:
  assumes "e1 = ev\<lparr>ev_meta := m\<rparr>"
    and "e2 = e1\<lparr>ev_meta := bt_insert CHAIN_HASH_KEY (chain_hash sha p e1)
                 (bt_insert CHAIN_PREV_KEY p m)\<rparr>"
  shows "verify_from sha p [e2] = Inr ()"
  using assms
  by (simp add: verify_from_Inr_Cons bt_get_insert stored_prev_def chain_hash_def
      chain_preimage_insert)

lemma hash_chain_append_verifies:
  assumes "hash_chain_verify sha s = Inr ()" and "hash_chain_append sha s e = Inr s'"
  shows "hash_chain_verify sha s' = Inr ()"
proof -
  let ?es = "in_memory_events (hc_inner s)"
  let ?e1 = "e\<lparr>ev_meta := bt_remove CHAIN_HASH_KEY (bt_remove CHAIN_PREV_KEY (ev_meta e))\<rparr>"
  let ?e2 = "?e1\<lparr>ev_meta := bt_insert CHAIN_HASH_KEY (chain_hash sha (chain_tip ?es) ?e1)
               (bt_insert CHAIN_PREV_KEY (chain_tip ?es) (ev_meta ?e1))\<rparr>"
  have "in_memory_events (hc_inner s') = ?es @ [?e2]"
    using assms(2)
    by (auto simp: hash_chain_append_def in_memory_append_def in_memory_events_def Let_def
        split: if_splits)
  moreover have "verify_from sha (chain_tip ?es) [?e2] = Inr ()"
    using chained_event_verifies [where ev = e and p = "chain_tip ?es" and sha = sha] by simp
  ultimately show ?thesis
    using assms(1) by (simp add: hash_chain_verify_def verify_chain_snoc)
qed

lemma hash_chain_run_verifies:
  "hash_chain_verify sha s = Inr () \<Longrightarrow>
     hash_chain_verify sha (run_appends (hash_chain_append sha) s es) = Inr ()"
proof (induction es arbitrary: s)
  case Nil
  then show ?case by simp
next
  case (Cons e es)
  then show ?case by (auto split: sum.splits dest: hash_chain_append_verifies)
qed

lemma hash_chain_new_verifies: "hash_chain_verify sha hash_chain_new = Inr ()"
  by (simp add: hash_chain_verify_def hash_chain_new_def in_memory_new_def
      in_memory_events_def verify_chain_def)

section \<open>Properties\<close>

text \<open>the log a hash-chain sink accumulates always verifies: whatever events are appended
  to a new sink (with forged chain metadata or without an action included), and whatever the
  hash function, \<open>HashChainSink::verify\<close> answers \<open>Ok\<close>.\<close>

theorem hash_chain_always_verifies:
  "hash_chain_verify sha (run_appends (hash_chain_append sha) hash_chain_new es) = Inr ()"
  by (rule hash_chain_run_verifies [OF hash_chain_new_verifies])

text \<open>an accepted log is exactly the events with an action, in order, with their content
  kept, and appending never rewrites what was there.\<close>

theorem hash_chain_log_append_only:
  "map content (hash_chain_events (run_appends (hash_chain_append sha) s es))
     = map content (hash_chain_events s) @ map content (filter (\<lambda>e. ev_action e \<noteq> []) es)
   \<and> take (length (hash_chain_events s))
       (hash_chain_events (run_appends (hash_chain_append sha) s es)) = hash_chain_events s"
  using chain_sink.run_contents chain_sink.run_prefix by blast

text \<open>C32: tamper evidence. Two logs of the same length that both verify and end in the same hash agree record
  by record on the hashed content, or the logs themselves exhibit a collision of the hash function (whose digests are
  32 bytes): at some position they hold different hashed content with the same digest.\<close>

theorem chain_tamper_evident:
  assumes "\<And>x. length (sha x) = 32"
    and "verify_chain sha xs = Inr ()" and "verify_chain sha ys = Inr ()"
    and "length xs = length ys" and "chain_tip xs = chain_tip ys"
  shows "map hashed xs = map hashed ys
    \<or> (\<exists>i<length xs. hashed (xs ! i) \<noteq> hashed (ys ! i) \<and> sha (hashed (xs ! i)) = sha (hashed (ys ! i)))"
  using chain_logs_agree [OF assms] by (auto simp: collide_at_def)

text \<open>changing a record in place while keeping its stored hash and link is reported as a
  \<open>HashMismatch\<close> of that record, naming the recomputed and the stored hash, unless the
  changed record hashes to the same value.\<close>

theorem chain_detects_edit:
  assumes "verify_chain sha (xs @ e # zs) = Inr ()"
    and "bt_get (ev_meta e') CHAIN_HASH_KEY = bt_get (ev_meta e) CHAIN_HASH_KEY"
    and "stored_prev e' = stored_prev e"
    and "sha (chain_preimage (stored_prev e) e') \<noteq> sha (chain_preimage (stored_prev e) e)"
  shows "\<exists>stored. bt_get (ev_meta e) CHAIN_HASH_KEY = Some stored \<and>
     verify_chain sha (xs @ e' # zs)
       = Inl (HashMismatch (ev_id e') (chain_hash sha (stored_prev e) e') stored)"
proof -
  let ?p = "if xs = [] then GENESIS_PREV else the (bt_get (ev_meta (last xs)) CHAIN_HASH_KEY)"
  obtain h where h: "bt_get (ev_meta e) CHAIN_HASH_KEY = Some h" "stored_prev e = ?p"
      "chain_hash sha ?p e = h" and vx: "verify_from sha GENESIS_PREV xs = Inr ()"
    using assms(1) unfolding verify_chain_def verify_from_append verify_from_Inr_Cons by blast
  have "chain_hash sha ?p e' \<noteq> h"
    using assms(4) h(2,3) by (auto simp: chain_hash_def dest: concat_hex2_inj)
  then have "verify_from sha ?p (e' # zs) = Inl (HashMismatch (ev_id e') (chain_hash sha ?p e') h)"
    using assms(2,3) h by (simp add: verify_from.simps)
  then show ?thesis
    using h vx verify_from_append_Inl by (fastforce simp: verify_chain_def)
qed

text \<open>the hashed byte stream has no field boundaries, so moving the first byte of the
  action to the end of the actor of a record leaves the log verifying, for every hash function.
  The documentation of the chain promises that any corruption is detected.\<close>

theorem chain_misses_field_shift:
  assumes "verify_chain sha (xs @ e # zs) = Inr ()" and "ev_action e = c # act"
  shows "verify_chain sha (xs @ e\<lparr>ev_actor := ev_actor e @ [c], ev_action := act\<rparr> # zs) = Inr ()"
  using assms
  by (simp add: verify_chain_def verify_from_append verify_from_Inr_Cons stored_prev_def
      chain_hash_def chain_preimage_def chain_keys_def)

section \<open>Witnesses\<close>

text \<open>A log of one record, chained with a given hash function.\<close>

definition sample_event :: audit_event where
  "sample_event = build (builder_target (str ''t'') (event_builder 7 (str ''put'') (str ''ann'')))"

definition sample_log :: "(bytes \<Rightarrow> bytes) \<Rightarrow> audit_event list" where
  "sample_log sha =
     hash_chain_events (run_appends (hash_chain_append sha) hash_chain_new [sample_event])"

definition sample_record :: "(bytes \<Rightarrow> bytes) \<Rightarrow> audit_event" where
  "sample_record sha =
     (let e = sample_event; h = chain_hash sha GENESIS_PREV e
      in e\<lparr>ev_meta := bt_insert CHAIN_HASH_KEY h (bt_insert CHAIN_PREV_KEY GENESIS_PREV [])\<rparr>)"

lemma sample_log_verifies: "verify_chain sha (sample_log sha) = Inr ()"
  using hash_chain_run_verifies [OF hash_chain_new_verifies, of sha "[sample_event]"]
  by (simp add: sample_log_def hash_chain_verify_def hash_chain_events_def)

lemma sample_event_fields [simp]:
  "ev_meta sample_event = []" "ev_action sample_event = str ''put''" "ev_actor sample_event = str ''ann''"
  "ev_target sample_event = str ''t''"
  by (simp_all add: sample_event_def build_def event_builder_def builder_target_def)

lemma sample_event_meta_idem: "sample_event\<lparr>ev_meta := []\<rparr> = sample_event"
  by (cases sample_event) (use sample_event_fields(1) in auto)

lemma sample_log_record: "sample_log sha = [sample_record sha]"
  by (simp add: sample_log_def sample_record_def hash_chain_append_def in_memory_append_def
      hash_chain_new_def hash_chain_events_def in_memory_new_def in_memory_events_def
      chain_tip_def bt_remove_def str_def sample_event_meta_idem Let_def)

lemma sample_record_verifies: "verify_chain sha [sample_record sha] = Inr ()"
  using sample_log_verifies by (simp add: sample_log_record)

theorem chain_tamper_evident_witness:
  "map hashed [sample_record (\<lambda>_. replicate 32 1)] = map hashed [sample_record (\<lambda>_. replicate 32 1)]
   \<or> (\<exists>i<length [sample_record (\<lambda>_. replicate 32 1)]. hashed ([sample_record (\<lambda>_. replicate 32 1)] ! i) \<noteq> hashed ([sample_record (\<lambda>_. replicate 32 1)] ! i)
        \<and> (\<lambda>_::bytes. replicate 32 (1::byte)) (hashed ([sample_record (\<lambda>_. replicate 32 1)] ! i))
          = (\<lambda>_. replicate 32 1) (hashed ([sample_record (\<lambda>_. replicate 32 1)] ! i)))"
  by (rule chain_tamper_evident) (simp_all add: sample_record_verifies)

theorem chain_detects_edit_witness:
  "\<exists>stored. bt_get (ev_meta (sample_record id)) CHAIN_HASH_KEY = Some stored \<and>
     verify_chain id ([] @ (sample_record id)\<lparr>ev_target := str ''u''\<rparr> # [])
       = Inl (HashMismatch (ev_id (sample_record id))
           (chain_hash id (stored_prev (sample_record id)) ((sample_record id)\<lparr>ev_target := str ''u''\<rparr>))
           stored)"
proof -
  let ?e = "sample_record id" and ?f = "(sample_record id)\<lparr>ev_target := str ''u''\<rparr>"
  have "chain_preimage p ?f \<noteq> chain_preimage p ?e" for p
    by (simp add: chain_preimage_def chain_keys_def sample_record_def str_def Let_def)
  then have "id (chain_preimage (stored_prev ?e) ?f) \<noteq> id (chain_preimage (stored_prev ?e) ?e)"
    by simp
  from chain_detects_edit [of id "[]" ?e "[]" ?f, OF _ _ _ this]
  show ?thesis using sample_record_verifies [of id] by (simp add: stored_prev_def)
qed

theorem chain_misses_field_shift_witness:
  "verify_chain id ([] @ (sample_record id)\<lparr>ev_actor := ev_actor (sample_record id) @ str ''p'',
      ev_action := str ''ut''\<rparr> # []) = Inr ()"
  using chain_misses_field_shift [of id "[]" "sample_record id" "[]" "of_char CHR ''p''" "str ''ut''"]
    sample_record_verifies [of id]
  by (simp add: sample_record_def str_def Let_def)

end
