(* ===== verification/Compress.thy ===== *)
theory Compress
  imports Rust_Std
begin

text \<open>
  The Chronos compression codecs (\<open>storage/compress.rs\<close>): zigzag and varint integers,
  delta-of-delta encoding of timestamps, dictionary encoding, the MSB-first bit writer and
  reader, and the Gorilla XOR encoding of floats. Integers are words of their width with the
  release profile's arithmetic: additions wrap and shift amounts are masked. A float is its
  64-bit pattern (\<open>to_bits\<close> and \<open>from_bits\<close> are inverse), and a read position is the
  unread rest of the buffer.
\<close>

section \<open>Zigzag and varint\<close>

definition zigzag_encode :: "u64w \<Rightarrow> u64w" where
  "zigzag_encode v = push_bit 1 v XOR signed_drop_bit 63 v"

definition zigzag_decode :: "u64w \<Rightarrow> u64w" where
  "zigzag_decode v = drop_bit 1 v XOR - (v AND 1)"

lemma unat_drop_bit7_less: "drop_bit 7 v \<noteq> 0 \<Longrightarrow> unat (drop_bit 7 v) < unat (v :: u64w)"
proof -
  assume "drop_bit 7 v \<noteq> 0"
  then have "unat v \<noteq> 0" by (metis drop_bit_of_0 unat_eq_zero)
  then show ?thesis by (simp add: drop_bit_eq_div unat_div)
qed

function write_varint :: "u64w \<Rightarrow> bytes" where
  "write_varint v =
     (let byte = ucast (v AND 127) :: byte; v' = drop_bit 7 v
      in if v' = 0 then [byte] else (byte OR 128) # write_varint v')"
  by pat_completeness auto
termination
  by (relation "measure unat") (use unat_drop_bit7_less in auto)

declare write_varint.simps [simp del]

fun read_varint_loop :: "bytes \<Rightarrow> u64w \<Rightarrow> nat \<Rightarrow> (u64w \<times> bytes) option" where
  "read_varint_loop [] v shift = None"
| "read_varint_loop (b # bs) v shift =
     (let v' = v OR push_bit (shift mod 64) (ucast (b AND 127))
      in if b AND 128 = 0 then Some (v', bs) else read_varint_loop bs v' (shift + 7))"

definition read_varint :: "bytes \<Rightarrow> (u64w \<times> bytes) option" where
  "read_varint bs = read_varint_loop bs 0 0"

section \<open>Delta of delta\<close>

fun delta_delta_tail :: "u64w \<Rightarrow> u64w \<Rightarrow> u64w list \<Rightarrow> bytes" where
  "delta_delta_tail prev prev_delta [] = []"
| "delta_delta_tail prev prev_delta (v # vs) =
     (let delta = v - prev; dd = delta - prev_delta
      in write_varint (zigzag_encode dd) @ delta_delta_tail v delta vs)"

definition delta_delta_encode :: "u64w list \<Rightarrow> bytes" where
  "delta_delta_encode values =
     write_varint (word_of_nat (length values)) @
     (case values of
        [] \<Rightarrow> []
      | v0 # rest \<Rightarrow>
          write_varint (zigzag_encode v0) @
          (case rest of
             [] \<Rightarrow> []
           | v1 # vs \<Rightarrow>
               (let prev_delta = v1 - v0
                in write_varint (zigzag_encode prev_delta) @ delta_delta_tail v1 prev_delta vs)))"

fun delta_delta_read :: "nat \<Rightarrow> bytes \<Rightarrow> u64w \<Rightarrow> u64w \<Rightarrow> u64w list" where
  "delta_delta_read 0 data prev prev_delta = []"
| "delta_delta_read (Suc n) data prev prev_delta =
     (case read_varint data of
        None \<Rightarrow> []
      | Some (dd_raw, data') \<Rightarrow>
          (let delta = prev_delta + zigzag_decode dd_raw; v = prev + delta
           in v # delta_delta_read n data' v delta))"

definition delta_delta_decode :: "bytes \<Rightarrow> u64w list" where
  "delta_delta_decode data =
     (case read_varint data of
        None \<Rightarrow> []
      | Some (count, d1) \<Rightarrow>
          if count = 0 then []
          else (case read_varint d1 of
                  None \<Rightarrow> []
                | Some (r0, d2) \<Rightarrow>
                    (let first = zigzag_decode r0
                     in if count = 1 then [first]
                        else (case read_varint d2 of
                                None \<Rightarrow> [first]
                              | Some (d0, d3) \<Rightarrow>
                                  (let prev_delta = zigzag_decode d0; prev = first + prev_delta
                                   in first # prev
                                        # delta_delta_read (unat count - 2) d3 prev prev_delta)))))"

section \<open>Dictionary encoding\<close>

fun dictionary_loop ::
  "bytes list \<Rightarrow> (bytes \<rightharpoonup> u32w) \<Rightarrow> u32w list \<Rightarrow> bytes list \<Rightarrow> bytes list \<times> u32w list" where
  "dictionary_loop dict index codes [] = (dict, codes)"
| "dictionary_loop dict index codes (v # vs) =
     (case index v of
        Some code \<Rightarrow> dictionary_loop dict index (codes @ [code]) vs
      | None \<Rightarrow>
          (let dict' = dict @ [v]; code = word_of_nat (length dict' - 1)
           in dictionary_loop dict' (index(v \<mapsto> code)) (codes @ [code]) vs))"

definition dictionary_encode :: "bytes list \<Rightarrow> bytes list \<times> u32w list" where
  "dictionary_encode values = dictionary_loop [] Map.empty [] values"

section \<open>Bit writer and bit reader\<close>

record bit_writer =
  bw_buf :: bytes
  bw_cur :: byte
  bw_nbits :: nat

definition bw_new :: bit_writer where
  "bw_new = \<lparr>bw_buf = [], bw_cur = 0, bw_nbits = 0\<rparr>"

definition write_bit :: "bit_writer \<Rightarrow> bool \<Rightarrow> bit_writer" where
  "write_bit w b =
     (let cur = push_bit 1 (bw_cur w) OR of_bool b; n = bw_nbits w + 1
      in if n = 8 then w\<lparr>bw_buf := bw_buf w @ [cur], bw_cur := 0, bw_nbits := 0\<rparr>
         else w\<lparr>bw_cur := cur, bw_nbits := n\<rparr>)"

definition write_bits :: "bit_writer \<Rightarrow> u64w \<Rightarrow> nat \<Rightarrow> bit_writer" where
  "write_bits w value count =
     fold (\<lambda>i w. write_bit w (drop_bit i value AND 1 = 1)) (rev [0..<count]) w"

definition bw_finish :: "bit_writer \<Rightarrow> bytes \<times> nat" where
  "bw_finish w =
     (if bw_nbits w > 0 then (bw_buf w @ [push_bit (8 - bw_nbits w) (bw_cur w)], bw_nbits w)
      else (bw_buf w, bw_nbits w))"

record bit_reader =
  br_buf :: bytes
  br_byte_pos :: nat
  br_bit_pos :: nat

definition br_new :: "bytes \<Rightarrow> bit_reader" where
  "br_new buf = \<lparr>br_buf = buf, br_byte_pos = 0, br_bit_pos = 0\<rparr>"

definition read_bit :: "bit_reader \<Rightarrow> (bool \<times> bit_reader) option" where
  "read_bit r =
     (if br_byte_pos r < length (br_buf r) then
        (let b = br_buf r ! br_byte_pos r;
             bt = (drop_bit (7 - br_bit_pos r) b AND 1 = 1);
             p = br_bit_pos r + 1
         in Some (bt, if p = 8 then r\<lparr>br_bit_pos := 0, br_byte_pos := br_byte_pos r + 1\<rparr>
                      else r\<lparr>br_bit_pos := p\<rparr>))
      else None)"

fun read_bits_loop :: "nat \<Rightarrow> u64w \<Rightarrow> bit_reader \<Rightarrow> u64w option \<times> bit_reader" where
  "read_bits_loop 0 v r = (Some v, r)"
| "read_bits_loop (Suc n) v r =
     (case read_bit r of
        None \<Rightarrow> (None, r)
      | Some (b, r') \<Rightarrow> read_bits_loop n (push_bit 1 v OR of_bool b) r')"

definition read_bits :: "bit_reader \<Rightarrow> nat \<Rightarrow> u64w option \<times> bit_reader" where
  "read_bits r count = read_bits_loop count 0 r"

section \<open>Gorilla\<close>

definition leading_zeros :: "u64w \<Rightarrow> nat" where
  "leading_zeros x = length (takeWhile (\<lambda>i. \<not> bit x i) (rev [0..<64]))"

definition trailing_zeros :: "u64w \<Rightarrow> nat" where
  "trailing_zeros x = length (takeWhile (\<lambda>i. \<not> bit x i) [0..<64])"

fun gorilla_enc_loop :: "bit_writer \<Rightarrow> u64w \<Rightarrow> nat \<Rightarrow> nat \<Rightarrow> u64w list \<Rightarrow> bit_writer" where
  "gorilla_enc_loop w prev pl pt [] = w"
| "gorilla_enc_loop w prev pl pt (bits # vs) =
     (let x = bits XOR prev
      in if x = 0 then gorilla_enc_loop (write_bit w False) bits pl pt vs
         else
           (let w1 = write_bit w True; leading = leading_zeros x; trailing = trailing_zeros x
            in if pl \<noteq> 65 \<and> pl \<le> leading \<and> pt \<le> trailing
               then gorilla_enc_loop
                      (write_bits (write_bit w1 False) (drop_bit pt x) (64 - pl - pt))
                      bits pl pt vs
               else
                 (let meaningful = 64 - leading - trailing;
                      w2 = write_bits (write_bit w1 True) (word_of_nat leading) 6;
                      w3 = write_bits w2 (word_of_nat meaningful) 6
                  in gorilla_enc_loop (write_bits w3 (drop_bit trailing x) meaningful)
                       bits leading trailing vs)))"

definition gorilla_encode :: "u64w list \<Rightarrow> bytes" where
  "gorilla_encode values =
     (case values of
        [] \<Rightarrow> []
      | v0 # vs \<Rightarrow>
          (let w = gorilla_enc_loop (write_bits bw_new v0 64) v0 65 0 vs;
               (bs, valid_last_bits) = bw_finish w
           in be32 (length values) @ [word_of_nat valid_last_bits] @ bs))"

text \<open>\<open>u8\<close> subtraction wraps modulo 256; \<open>unwrap_or(0)\<close> on a short read gives 0.\<close>

definition sub_u8 :: "nat \<Rightarrow> nat \<Rightarrow> nat" where
  "sub_u8 a b = (a + 256 - b) mod 256"

definition read_bits_or0 :: "bit_reader \<Rightarrow> nat \<Rightarrow> u64w \<times> bit_reader" where
  "read_bits_or0 r n = (case read_bits r n of (Some v, r') \<Rightarrow> (v, r') | (None, r') \<Rightarrow> (0, r'))"

fun gorilla_dec_loop :: "nat \<Rightarrow> bit_reader \<Rightarrow> u64w \<Rightarrow> nat \<Rightarrow> nat \<Rightarrow> u64w list" where
  "gorilla_dec_loop 0 r prev pl pt = []"
| "gorilla_dec_loop (Suc n) r prev pl pt =
     (case read_bit r of
        None \<Rightarrow> []
      | Some (control, r1) \<Rightarrow>
          if \<not> control then prev # gorilla_dec_loop n r1 prev pl pt
          else
            (case read_bit r1 of
               None \<Rightarrow> []
             | Some (new_window, r2) \<Rightarrow>
                 (let (leading, trailing, r3) =
                        (if new_window then
                           (let (l, ra) = read_bits_or0 r2 6;
                                (m, rb) = read_bits_or0 ra 6;
                                leading = unat l mod 256;
                                meaningful = (if unat m mod 256 = 0 then 64 else unat m mod 256)
                            in (leading, sub_u8 (sub_u8 64 leading) meaningful, rb))
                         else (pl, pt, r2));
                      meaningful = sub_u8 (sub_u8 64 leading) trailing;
                      (bits, r4) = read_bits_or0 r3 meaningful;
                      cur = prev XOR push_bit (trailing mod 64) bits
                  in cur # gorilla_dec_loop n r4 cur leading trailing)))"

definition gorilla_decode :: "bytes \<Rightarrow> u64w list" where
  "gorilla_decode data =
     (if length data < 5 then []
      else
        (let count = of_be (take 4 data)
         in if count = 0 then []
            else
              (let (first, r) = read_bits_or0 (br_new (drop 5 data)) 64
               in first # gorilla_dec_loop (count - 1) r first 65 0)))"

section \<open>Lemmas on zigzag, varint and delta of delta\<close>

lemma and_127 [simp]: "v AND 127 = take_bit 7 (v :: 'a::len word)"
  by (simp add: take_bit_eq_mask mask_eq_exp_minus_1)

lemma and_128_eq_0: "v AND 128 = 0 \<longleftrightarrow> \<not> bit (v :: 'a::len word) 7"
  using and_exp_eq_0_iff_not_bit [of v 7] by simp

lemma zigzag_bit:
  "n < 64 \<Longrightarrow> bit (zigzag_encode v) n = ((0 < n \<and> bit v (n - 1)) \<noteq> bit v 63)"
  unfolding zigzag_encode_def
  by (cases n) (auto simp: bit_xor_iff bit_push_bit_iff bit_signed_drop_bit_iff simp del: push_bit_Suc)

lemma zigzag_roundtrip: "zigzag_decode (zigzag_encode v) = v"
proof (rule bit_word_eqI)
  fix n assume "n < LENGTH(64)"
  then have n: "n < 64" by simp
  have one: "zigzag_encode v AND 1 = of_bool (bit v 63)"
    by (rule bit_word_eqI) (auto simp: bit_and_iff bit_1_iff bit_of_bool_iff zigzag_bit)
  have m: "bit (- of_bool b :: u64w) n = b" for b using n by (cases b) (auto simp: bit_simps)
  have "bit (drop_bit 1 (zigzag_encode v)) n = (bit v n \<noteq> bit v 63)"
  proof (cases "n = 63")
    case True
    then show ?thesis using bit_imp_le_length [of "zigzag_encode v" 64]
      by (auto simp: bit_drop_bit_eq)
  next
    case False
    then show ?thesis using n by (simp add: bit_drop_bit_eq zigzag_bit)
  qed
  then show "bit (zigzag_decode (zigzag_encode v)) n = bit v n"
    unfolding zigzag_decode_def one by (auto simp: bit_xor_iff m)
qed

lemma bit_128: "bit (128 :: byte) n \<longleftrightarrow> n = 7"
  using bit_exp_iff [of 7 n, where 'a = byte] by auto

lemma varint_split:
  "push_bit s (take_bit 7 v) OR push_bit (s + 7) (drop_bit 7 v) = push_bit s (v :: u64w)"
proof (rule bit_word_eqI)
  fix n
  show "bit (push_bit s (take_bit 7 v) OR push_bit (s + 7) (drop_bit 7 v)) n = bit (push_bit s v) n"
    by (cases "n - s < 7") (auto simp: bit_simps)
qed

lemma ucast_take7: "(ucast (take_bit 7 (ucast (take_bit 7 v) :: byte)) :: u64w) = take_bit 7 v"
  by (rule bit_word_eqI) (auto simp: bit_simps)

lemma ucast_take7_or: "(ucast (take_bit 7 ((ucast (take_bit 7 v) :: byte) OR 128)) :: u64w) = take_bit 7 v"
  by (rule bit_word_eqI) (auto simp: bit_simps bit_128)

lemma drop7_bound:
  assumes "unat (v :: u64w) < 2 ^ (64 - s)" "s < 64" "drop_bit 7 v \<noteq> 0"
  shows "s + 7 < 64 \<and> unat (drop_bit 7 v) < 2 ^ (64 - (s + 7))"
proof -
  have u: "unat (drop_bit 7 v) = unat v div 128" by (simp add: drop_bit_eq_div unat_div)
  have "unat (drop_bit 7 v) \<noteq> 0" using assms(3) by (simp add: unat_eq_zero)
  then have "128 \<le> unat v" using u by (metis div_less linorder_not_less)
  then have "(2::nat) ^ 7 < 2 ^ (64 - s)" using assms(1) by simp
  then have s: "7 < 64 - s" using power_less_imp_less_exp [of "2::nat" 7 "64 - s"] by simp
  then have "64 - s = 7 + (64 - (s + 7))" by simp
  then have "(2::nat) ^ (64 - s) = 2 ^ 7 * 2 ^ (64 - (s + 7))" by (metis power_add)
  then have "unat v div 128 < 2 ^ (64 - (s + 7))" using assms(1) by (simp add: less_mult_imp_div_less mult.commute)
  with s u show ?thesis by simp
qed

lemma read_varint_loop_cont:
  "bit c 7 \<Longrightarrow> s < 64 \<Longrightarrow> read_varint_loop (c # bs) acc s
     = read_varint_loop bs (acc OR push_bit s (ucast (take_bit 7 c))) (s + 7)"
  using and_128_eq_0 [of c] by simp

lemma read_varint_loop_stop:
  "\<not> bit c 7 \<Longrightarrow> s < 64 \<Longrightarrow> read_varint_loop (c # bs) acc s
     = Some (acc OR push_bit s (ucast (take_bit 7 c)), bs)"
  using and_128_eq_0 [of c] by simp

lemma read_varint_loop_write:
  assumes "unat v < 2 ^ (64 - s)" "s < 64"
  shows "read_varint_loop (write_varint v @ rest) acc s = Some (acc OR push_bit s v, rest)"
  using assms
proof (induction v arbitrary: acc s rule: write_varint.induct)
  case (1 v)
  show ?case
  proof (cases "drop_bit 7 v = 0")
    case True
    then have "take_bit 7 v = v" by (metis add.left_neutral bits_ident push_bit_of_0)
    moreover have "\<not> bit (ucast (take_bit 7 v) :: byte) 7" by (simp add: bit_simps)
    ultimately show ?thesis
      using True 1(3) ucast_take7 [of v]
      by (simp add: write_varint.simps [of v] read_varint_loop_stop del: read_varint_loop.simps)
  next
    case False
    note bd = drop7_bound [OF 1(2,3) False]
    have "bit ((ucast (take_bit 7 v) :: byte) OR 128) 7" by (simp add: bit_simps bit_128)
    then show ?thesis
      using False 1(3) 1(1) [OF refl refl False bd [THEN conjunct2] bd [THEN conjunct1]]
        varint_split [of s v]
      by (simp add: write_varint.simps [of v] read_varint_loop_cont ucast_take7 or.assoc
          del: read_varint_loop.simps)
  qed
qed

lemma read_write_varint: "read_varint (write_varint v @ rest) = Some (v, rest)"
proof -
  have "unat v < 2 ^ 64" using unsigned_less [of v] by simp
  then show ?thesis using read_varint_loop_write [of v 0] by (simp add: read_varint_def)
qed

interpretation varint: byte_codec write_varint read_varint "\<lambda>_. True"
  by unfold_locales (rule read_write_varint)

interpretation zigzag: byte_codec "\<lambda>v. write_varint (zigzag_encode v)"
  "\<lambda>bs. map_option (map_prod zigzag_decode id) (read_varint bs)" "\<lambda>_. True"
  by unfold_locales (simp add: varint.dec_enc zigzag_roundtrip)

lemma delta_delta_read_tail:
  "delta_delta_read (length vs) (delta_delta_tail prev pd vs @ rest) prev pd = vs"
  by (induction vs arbitrary: prev pd) (auto simp: varint.dec_enc zigzag_roundtrip Let_def)

definition first_seen :: "bytes list \<Rightarrow> bytes list \<Rightarrow> bytes list" where
  "first_seen dict vs = fold (\<lambda>v d. if v \<in> set d then d else d @ [v]) vs dict"

lemma first_seen_props:
  "set (first_seen dict vs) = set dict \<union> set vs \<and> (distinct dict \<longrightarrow> distinct (first_seen dict vs))
    \<and> (\<exists>e. first_seen dict vs = dict @ e)"
  unfolding first_seen_def
proof (induction vs arbitrary: dict)
  case Nil
  then show ?case by simp
next
  case (Cons v vs)
  show ?case using Cons.IH [of dict] Cons.IH [of "dict @ [v]"] by auto
qed

definition index_ok :: "bytes list \<Rightarrow> (bytes \<rightharpoonup> u32w) \<Rightarrow> bool" where
  "index_ok dict index \<longleftrightarrow>
     (\<forall>v. index v = None \<longleftrightarrow> v \<notin> set dict) \<and>
     (\<forall>v c. index v = Some c \<longrightarrow> unat c < length dict \<and> dict ! unat c = v)"

lemma index_ok_push:
  assumes "index_ok dict index" "index v = None" "length dict < 2 ^ 32"
  shows "index_ok (dict @ [v]) (index(v \<mapsto> word_of_nat (length dict)))"
  using assms by (auto simp: index_ok_def unat_of_nat nth_append intro: less_SucI)

lemma dictionary_loop_spec:
  assumes "index_ok dict index" "length dict + length vs < 2 ^ 32"
    and "\<forall>c\<in>set codes. unat c < length dict"
  shows "\<exists>cs. dictionary_loop dict index codes vs = (first_seen dict vs, codes @ cs)
     \<and> (\<forall>c\<in>set cs. unat c < length (first_seen dict vs))
     \<and> map (\<lambda>c. first_seen dict vs ! unat c) cs = vs"
  using assms
proof (induction vs arbitrary: dict index codes)
  case Nil
  then show ?case by (simp add: first_seen_def)
next
  case (Cons v vs)
  show ?case
  proof (cases "index v")
    case None
    let ?c = "word_of_nat (length dict) :: u32w"
    have v: "v \<notin> set dict" using Cons.prems(1) None by (simp add: index_ok_def)
    have c: "unat ?c = length dict" using Cons.prems(2) by (simp add: unat_of_nat)
    have "\<forall>x\<in>set (codes @ [?c]). unat x < length (dict @ [v])" using Cons.prems(3) c by auto
    then obtain cs where cs: "dictionary_loop (dict @ [v]) (index(v \<mapsto> ?c)) (codes @ [?c]) vs
          = (first_seen (dict @ [v]) vs, (codes @ [?c]) @ cs)"
        "\<forall>x\<in>set cs. unat x < length (first_seen (dict @ [v]) vs)"
        "map (\<lambda>x. first_seen (dict @ [v]) vs ! unat x) cs = vs"
      using Cons.IH [OF index_ok_push [OF Cons.prems(1) None]] Cons.prems(2) by fastforce
    obtain e where e: "first_seen (dict @ [v]) vs = (dict @ [v]) @ e" using first_seen_props by blast
    have fs: "first_seen dict (v # vs) = first_seen (dict @ [v]) vs" using v by (simp add: first_seen_def)
    show ?thesis
      using cs c None unfolding fs by (intro exI [of _ "?c # cs"]) (simp add: e nth_append)
  next
    case (Some c)
    have v: "unat c < length dict" "dict ! unat c = v"
      using Cons.prems(1) Some by (auto simp: index_ok_def)
    then have fs: "first_seen dict (v # vs) = first_seen dict vs"
      by (auto simp: first_seen_def)
    obtain e where e: "first_seen dict vs = dict @ e" using first_seen_props by blast
    have "\<forall>x\<in>set (codes @ [c]). unat x < length dict" using Cons.prems(3) v by auto
    then obtain cs where "dictionary_loop dict index (codes @ [c]) vs = (first_seen dict vs, (codes @ [c]) @ cs)"
        "\<forall>x\<in>set cs. unat x < length (first_seen dict vs)"
        "map (\<lambda>x. first_seen dict vs ! unat x) cs = vs"
      using Cons.IH [OF Cons.prems(1)] Cons.prems(2) by fastforce
    then show ?thesis
      using v Some unfolding fs by (intro exI [of _ "c # cs"]) (simp add: e nth_append)
  qed
qed



section \<open>Lemmas on the bit stream\<close>

text \<open>The abstraction of writer and reader: the bits written so far and the bits still to be
  read, most significant bit of each byte first.\<close>

definition msb_bits :: "nat \<Rightarrow> 'a::len word \<Rightarrow> bool list" where
  "msb_bits n v = map (bit v) (rev [0..<n])"

lemma length_msb_bits [simp]: "length (msb_bits n v) = n"
  by (simp add: msb_bits_def)

lemma msb_bits_0 [simp]: "msb_bits 0 v = []"
  by (simp add: msb_bits_def)

lemma msb_bits_Suc: "msb_bits (Suc n) v = bit v n # msb_bits n v"
  by (simp add: msb_bits_def)

lemma msb_bits_shift:
  assumes "Suc n \<le> LENGTH('a)"
  shows "msb_bits (Suc n) (push_bit 1 (c :: 'a::len word) OR of_bool b) = msb_bits n c @ [b]"
proof -
  have "[0..<Suc n] = 0 # map Suc [0..<n]" by (simp add: map_Suc_upt upt_conv_Cons del: upt_Suc)
  moreover have "bit (push_bit 1 c OR of_bool b) 0 = b"
    by (simp add: bit_or_iff bit_push_bit_iff bit_of_bool_iff del: push_bit_Suc)
  moreover have "bit (push_bit 1 c OR of_bool b) (Suc i) = bit c i" if "i < n" for i
    using that assms by (simp add: bit_or_iff bit_push_bit_iff bit_of_bool_iff del: push_bit_Suc)
  ultimately show ?thesis
    by (auto simp: msb_bits_def rev_map simp del: upt_Suc)
qed

definition bw_bits :: "bit_writer \<Rightarrow> bool list" where
  "bw_bits w = concat (map (msb_bits 8) (bw_buf w)) @ msb_bits (bw_nbits w) (bw_cur w)"

definition bw_ok :: "bit_writer \<Rightarrow> bool" where
  "bw_ok w \<longleftrightarrow> bw_nbits w < 8"

lemma bw_new_ok: "bw_ok bw_new" "bw_bits bw_new = []"
  by (simp_all add: bw_ok_def bw_bits_def bw_new_def)

lemma write_bit_spec:
  assumes "bw_ok w"
  shows "bw_ok (write_bit w b) \<and> bw_bits (write_bit w b) = bw_bits w @ [b]"
proof -
  have "msb_bits (Suc (bw_nbits w)) (push_bit 1 (bw_cur w) OR of_bool b)
      = msb_bits (bw_nbits w) (bw_cur w) @ [b]"
    using assms by (intro msb_bits_shift) (simp add: bw_ok_def)
  then show ?thesis using assms by (auto simp: bw_ok_def bw_bits_def write_bit_def Let_def)
qed

lemma write_bits_spec:
  assumes "bw_ok w"
  shows "bw_ok (write_bits w v n) \<and> bw_bits (write_bits w v n) = bw_bits w @ msb_bits n v"
proof -
  have "bw_ok (fold (\<lambda>i w. write_bit w (drop_bit i v AND 1 = 1)) is w) \<and>
      bw_bits (fold (\<lambda>i w. write_bit w (drop_bit i v AND 1 = 1)) is w) = bw_bits w @ map (bit v) is" for "is"
    using assms
    by (induction "is" arbitrary: w) (auto simp: write_bit_spec bit_iff_and_drop_bit_eq_1)
  then show ?thesis by (simp add: write_bits_def msb_bits_def)
qed

lemma msb_bits_pad:
  "n < 8 \<Longrightarrow> msb_bits 8 (push_bit (8 - n) (c :: byte)) = msb_bits n c @ replicate (8 - n) False"
  by (rule nth_equalityI)
    (auto simp: msb_bits_def nth_append rev_nth bit_push_bit_iff)

lemma bw_finish_bits:
  assumes "bw_ok w" and "bw_finish w = (bs, k)"
  shows "\<exists>pad. concat (map (msb_bits 8) bs) = bw_bits w @ pad"
  using assms by (auto simp: bw_finish_def bw_bits_def bw_ok_def msb_bits_pad split: if_splits)

definition br_bits :: "bit_reader \<Rightarrow> bool list" where
  "br_bits r = drop (8 * br_byte_pos r + br_bit_pos r) (concat (map (msb_bits 8) (br_buf r)))"

definition br_ok :: "bit_reader \<Rightarrow> bool" where
  "br_ok r \<longleftrightarrow> br_bit_pos r < 8"

lemma concat_msb8_nth:
  "k < length bs \<Longrightarrow> j < 8 \<Longrightarrow> concat (map (msb_bits 8) bs) ! (8 * k + j) = bit (bs ! k :: byte) (7 - j)"
proof (induction bs arbitrary: k)
  case Nil
  then show ?case by simp
next
  case (Cons b bs)
  then show ?case by (cases k) (auto simp: nth_append msb_bits_def rev_nth)
qed

lemma length_concat_msb8: "length (concat (map (msb_bits 8) bs)) = 8 * length bs"
  by (induction bs) auto

lemma read_bit_Cons:
  assumes "br_ok r" and "br_bits r = b # rest"
  shows "\<exists>r'. read_bit r = Some (b, r') \<and> br_ok r' \<and> br_bits r' = rest"
proof -
  let ?bs = "concat (map (msb_bits 8) (br_buf r))" and ?p = "8 * br_byte_pos r + br_bit_pos r"
  have len: "?p < length ?bs" using assms(2) by (metis br_bits_def drop_all leI list.distinct(1))
  then have k: "br_byte_pos r < length (br_buf r)" by (simp add: length_concat_msb8)
  have drp: "drop ?p ?bs = ?bs ! ?p # drop (Suc ?p) ?bs" using len by (rule Cons_nth_drop_Suc [symmetric])
  have b: "b = bit (br_buf r ! br_byte_pos r) (7 - br_bit_pos r)" and rest: "rest = drop (Suc ?p) ?bs"
    using assms drp concat_msb8_nth [OF k, of "br_bit_pos r"] by (simp_all add: br_bits_def br_ok_def)
  show ?thesis
    using k assms(1)
    by (auto simp: read_bit_def Let_def b rest br_bits_def br_ok_def bit_iff_and_drop_bit_eq_1)
qed

lemma read_bits_loop_spec:
  assumes "br_ok r" and "br_bits r = msb_bits n v @ rest" and "n \<le> 64"
  shows "\<exists>r'. read_bits_loop n acc r = (Some (push_bit n acc OR take_bit n v), r')
    \<and> br_ok r' \<and> br_bits r' = rest"
  using assms
proof (induction n arbitrary: r acc)
  case 0
  then show ?case by simp
next
  case (Suc n)
  obtain r1 where r1: "read_bit r = Some (bit v n, r1)" "br_ok r1" "br_bits r1 = msb_bits n v @ rest"
    using read_bit_Cons [of r] Suc.prems by (auto simp: msb_bits_Suc)
  have eq: "push_bit n (push_bit 1 acc OR of_bool (bit v n)) OR take_bit n v
      = push_bit (Suc n) acc OR take_bit (Suc n) v"
    by (rule bit_word_eqI)
      (auto simp: bit_or_iff bit_push_bit_iff bit_take_bit_iff bit_of_bool_iff less_Suc_eq
        simp del: push_bit_Suc)
  from Suc.IH [OF r1(2,3), of "push_bit 1 acc OR of_bool (bit v n)"] Suc.prems(3)
  show ?case by (simp only: read_bits_loop.simps r1 option.case prod.case eq)
qed

lemma read_bits_or0_spec:
  assumes "br_ok r" and "br_bits r = msb_bits n v @ rest" and "n \<le> 64"
  shows "\<exists>r'. read_bits_or0 r n = (take_bit n v, r') \<and> br_ok r' \<and> br_bits r' = rest"
  using read_bits_loop_spec [OF assms, of 0] by (auto simp: read_bits_or0_def read_bits_def)


lemma takeWhile_prefix_bound:
  "x \<in> set (takeWhile P xs) \<Longrightarrow> P x"
  by (rule set_takeWhileD [THEN conjunct2])

lemma trailing_zeros_bits: "i < trailing_zeros x \<Longrightarrow> \<not> bit x i"
proof -
  assume i: "i < trailing_zeros x"
  have le: "trailing_zeros x \<le> 64"
    using length_takeWhile_le [of "\<lambda>i. \<not> bit x i" "[0..<64]"] by (simp add: trailing_zeros_def)
  have "takeWhile (\<lambda>i. \<not> bit x i) [0..<64] ! i = i"
    using i le by (simp add: trailing_zeros_def takeWhile_nth)
  then show ?thesis
    using i nth_mem [of i "takeWhile (\<lambda>i. \<not> bit x i) [0..<64]"]
    by (metis set_takeWhileD trailing_zeros_def)
qed

lemma leading_zeros_bits: "64 - leading_zeros x \<le> i \<Longrightarrow> \<not> bit x i"
proof (cases "i < 64")
  case False
  then show ?thesis using bit_imp_le_length [of x i] by auto
next
  case True
  assume i: "64 - leading_zeros x \<le> i"
  let ?t = "takeWhile (\<lambda>i. \<not> bit x i) (rev [0..<64])"
  have le: "length ?t \<le> 64" using length_takeWhile_le [of "\<lambda>i. \<not> bit x i" "rev [0..<64]"] by simp
  have j: "63 - i < length ?t" using i True le by (simp add: leading_zeros_def)
  then have "?t ! (63 - i) = i" using True le by (simp add: takeWhile_nth rev_nth)
  then show ?thesis using j by (metis nth_mem set_takeWhileD)
qed

lemma zeros_bound:
  assumes "x \<noteq> 0"
  shows "leading_zeros x + trailing_zeros x < 64"
proof -
  obtain i where i: "bit x i" using assms bit_eq_iff [of x 0] by auto
  have "i < 64" using bit_imp_le_length [OF i] by simp
  moreover have "trailing_zeros x \<le> i" using trailing_zeros_bits i by (meson leI)
  moreover have "i < 64 - leading_zeros x" using leading_zeros_bits i by (meson leI)
  ultimately show ?thesis by simp
qed

text \<open>The bits outside the window are zero, so cutting them off and shifting back loses nothing.\<close>

lemma window_restore:
  assumes "l \<le> leading_zeros x" and "t \<le> trailing_zeros x" and "l + t \<le> 64"
  shows "push_bit t (take_bit (64 - l - t) (drop_bit t x)) = x"
proof (rule bit_word_eqI)
  fix n assume "n < LENGTH(64)"
  then have n: "n < 64" by simp
  show "bit (push_bit t (take_bit (64 - l - t) (drop_bit t x))) n = bit x n"
  proof (cases "t \<le> n \<and> n < 64 - l")
    case True
    then show ?thesis using n by (auto simp: bit_push_bit_iff bit_take_bit_iff bit_drop_bit_eq)
  next
    case False
    then have "n < trailing_zeros x \<or> 64 - leading_zeros x \<le> n" using assms by linarith
    then have "\<not> bit x n" using trailing_zeros_bits leading_zeros_bits by blast
    then show ?thesis using False n by (auto simp: bit_push_bit_iff bit_take_bit_iff bit_drop_bit_eq)
  qed
qed

fun gorilla_bits :: "u64w \<Rightarrow> nat \<Rightarrow> nat \<Rightarrow> u64w list \<Rightarrow> bool list" where
  "gorilla_bits prev pl pt [] = []"
| "gorilla_bits prev pl pt (v # vs) =
     (let x = v XOR prev; l = leading_zeros x; t = trailing_zeros x
      in if x = 0 then False # gorilla_bits v pl pt vs
         else if pl \<noteq> 65 \<and> pl \<le> l \<and> pt \<le> t
         then True # False # msb_bits (64 - pl - pt) (drop_bit pt x) @ gorilla_bits v pl pt vs
         else True # True # msb_bits 6 (word_of_nat l :: u64w) @ msb_bits 6 (word_of_nat (64 - l - t) :: u64w)
                @ msb_bits (64 - l - t) (drop_bit t x) @ gorilla_bits v l t vs)"

lemma gorilla_enc_loop_bits:
  "bw_ok w \<Longrightarrow> bw_ok (gorilla_enc_loop w prev pl pt vs) \<and>
     bw_bits (gorilla_enc_loop w prev pl pt vs) = bw_bits w @ gorilla_bits prev pl pt vs"
  by (induction w prev pl pt vs rule: gorilla_enc_loop.induct)
    (simp_all add: Let_def write_bit_spec write_bits_spec)

definition window_ok :: "nat \<Rightarrow> nat \<Rightarrow> bool" where
  "window_ok pl pt \<longleftrightarrow> pl = 65 \<or> pl + pt < 64"

lemma sub_u8_exact: "b \<le> a \<Longrightarrow> a < 256 \<Longrightarrow> sub_u8 a b = a - b"
proof -
  assume "b \<le> a" "a < 256"
  then have "a + 256 - b = (a - b) + 256" "a - b < 256" by simp_all
  then show ?thesis by (simp only: sub_u8_def mod_add_self2) simp
qed

lemma take6_exact: "n < 64 \<Longrightarrow> unat (take_bit 6 (word_of_nat n :: u64w)) = n"
  by (simp add: take_bit_eq_mod unat_mod unat_of_nat)

lemma take6_meaningful:
  "0 < m \<Longrightarrow> m \<le> 64 \<Longrightarrow>
   (if unat (take_bit 6 (word_of_nat m :: u64w)) mod 256 = 0 then 64
    else unat (take_bit 6 (word_of_nat m :: u64w)) mod 256) = m"
  by (cases "m = 64") (simp_all add: take_bit_eq_mod unat_mod unat_of_nat)

lemma gorilla_dec_loop_bits:
  assumes "br_ok r" and "br_bits r = gorilla_bits prev pl pt vs @ rest" and "window_ok pl pt"
  shows "gorilla_dec_loop (length vs) r prev pl pt = vs"
  using assms
proof (induction vs arbitrary: r prev pl pt)
  case Nil
  then show ?case by simp
next
  case (Cons v vs)
  let ?x = "v XOR prev"
  let ?l = "leading_zeros ?x" and ?t = "trailing_zeros ?x"
  have vx: "prev XOR ?x = v" by (metis xor.commute xor.left_commute xor_self_eq xor.right_neutral)
  consider (same) "?x = 0" | (reuse) "?x \<noteq> 0" "pl \<noteq> 65 \<and> pl \<le> ?l \<and> pt \<le> ?t"
    | (fresh) "?x \<noteq> 0" "\<not> (pl \<noteq> 65 \<and> pl \<le> ?l \<and> pt \<le> ?t)" by blast
  then show ?case
  proof cases
    case same
    then have "v = prev" using vx by simp
    then obtain r1 where "read_bit r = Some (False, r1)" "br_ok r1" "br_bits r1 = gorilla_bits v pl pt vs @ rest"
      using read_bit_Cons [OF Cons.prems(1)] Cons.prems(2) by auto
    with Cons.IH Cons.prems(3) \<open>v = prev\<close> show ?thesis by simp
  next
    case reuse
    let ?m = "64 - pl - pt"
    have b: "br_bits r = True # False # msb_bits ?m (drop_bit pt ?x) @ (gorilla_bits v pl pt vs @ rest)"
      using Cons.prems(2) reuse by (simp add: Let_def)
    obtain r1 r2 where r12: "read_bit r = Some (True, r1)" "read_bit r1 = Some (False, r2)" "br_ok r2"
        "br_bits r2 = msb_bits ?m (drop_bit pt ?x) @ (gorilla_bits v pl pt vs @ rest)"
      using read_bit_Cons [OF Cons.prems(1) b] read_bit_Cons by meson
    obtain r3 where r3: "read_bits_or0 r2 ?m = (take_bit ?m (drop_bit pt ?x), r3)" "br_ok r3"
        "br_bits r3 = gorilla_bits v pl pt vs @ rest"
      using read_bits_or0_spec [OF r12(3,4)] by auto
    have w: "pl + pt < 64" using Cons.prems(3) reuse by (simp add: window_ok_def)
    have "push_bit pt (take_bit ?m (drop_bit pt ?x)) = ?x" using reuse w by (intro window_restore) auto
    moreover have "sub_u8 (sub_u8 64 pl) pt = ?m" using w by (simp add: sub_u8_exact)
    ultimately show ?thesis
      using r12 r3 w Cons.IH [OF r3(2,3) Cons.prems(3)] by (simp add: vx)
  next
    case fresh
    let ?m = "64 - ?l - ?t"
    note zb = zeros_bound [OF fresh(1)]
    have b: "br_bits r = True # True # msb_bits 6 (word_of_nat ?l :: u64w) @ (msb_bits 6 (word_of_nat ?m :: u64w)
         @ (msb_bits ?m (drop_bit ?t ?x) @ (gorilla_bits v ?l ?t vs @ rest)))"
      using Cons.prems(2) fresh by (simp add: Let_def)
    obtain r1 r2 where r12: "read_bit r = Some (True, r1)" "read_bit r1 = Some (True, r2)" "br_ok r2"
        "br_bits r2 = msb_bits 6 (word_of_nat ?l :: u64w) @ (msb_bits 6 (word_of_nat ?m :: u64w)
         @ (msb_bits ?m (drop_bit ?t ?x) @ (gorilla_bits v ?l ?t vs @ rest)))"
      using read_bit_Cons [OF Cons.prems(1) b] read_bit_Cons by meson
    obtain ra where ra: "read_bits_or0 r2 6 = (take_bit 6 (word_of_nat ?l), ra)" "br_ok ra"
        "br_bits ra = msb_bits 6 (word_of_nat ?m :: u64w) @ (msb_bits ?m (drop_bit ?t ?x) @ (gorilla_bits v ?l ?t vs @ rest))"
      using read_bits_or0_spec [OF r12(3,4)] by auto
    obtain rb where rb: "read_bits_or0 ra 6 = (take_bit 6 (word_of_nat ?m), rb)" "br_ok rb"
        "br_bits rb = msb_bits ?m (drop_bit ?t ?x) @ (gorilla_bits v ?l ?t vs @ rest)"
      using read_bits_or0_spec [OF ra(2,3)] by auto
    obtain rc where rc: "read_bits_or0 rb ?m = (take_bit ?m (drop_bit ?t ?x), rc)" "br_ok rc"
        "br_bits rc = gorilla_bits v ?l ?t vs @ rest"
      using read_bits_or0_spec [OF rb(2,3)] by auto
    have l: "unat (take_bit 6 (word_of_nat ?l :: u64w)) mod 256 = ?l" using zb by (simp add: take6_exact)
    have m: "(if unat (take_bit 6 (word_of_nat ?m :: u64w)) mod 256 = 0 then 64
        else unat (take_bit 6 (word_of_nat ?m :: u64w)) mod 256) = ?m"
      using zb by (intro take6_meaningful) auto
    have s1: "sub_u8 (sub_u8 64 ?l) ?m = ?t" and s2: "sub_u8 (sub_u8 64 ?l) ?t = ?m"
      using zb by (simp_all add: sub_u8_exact)
    have "push_bit ?t (take_bit ?m (drop_bit ?t ?x)) = ?x" using zb by (intro window_restore) auto
    moreover have "?t mod 64 = ?t" using zb by simp
    moreover have "gorilla_dec_loop (length vs) rc v ?l ?t = vs"
      using rc zb by (intro Cons.IH) (auto simp: window_ok_def)
    ultimately show ?thesis
      by (simp only: list.size gorilla_dec_loop.simps r12 ra rb rc l m s1 s2 Let_def option.case
          prod.case if_True not_True_eq_False if_False vx plus_1_eq_Suc add_0_right One_nat_def add_Suc_right)
  qed
qed



section \<open>Properties\<close>

text \<open>C33: Gorilla encoding is lossless: any list of fewer than 2^32 floats (as bit patterns, so
  NaNs and signed zeros included) decodes to itself.\<close>

theorem gorilla_roundtrip:
  assumes "length vs < 2 ^ 32"
  shows "gorilla_decode (gorilla_encode vs) = vs"
proof (cases vs)
  case Nil
  then show ?thesis by (simp add: gorilla_encode_def gorilla_decode_def)
next
  case (Cons v ws)
  define w where "w = gorilla_enc_loop (write_bits bw_new v 64) v 65 0 ws"
  have w: "bw_ok w \<and> bw_bits w = msb_bits 64 v @ gorilla_bits v 65 0 ws"
    unfolding w_def using write_bits_spec [OF bw_new_ok(1), of v 64] bw_new_ok(2)
    by (simp add: gorilla_enc_loop_bits)
  obtain bs k where f: "bw_finish w = (bs, k)" by fastforce
  obtain pad where pad: "concat (map (msb_bits 8) bs) = bw_bits w @ pad"
    using bw_finish_bits f w by blast
  have enc: "gorilla_encode vs = be32 (length vs) @ [word_of_nat k] @ bs"
    by (simp add: gorilla_encode_def Cons w_def [symmetric] f)
  have "br_ok (br_new bs)" "br_bits (br_new bs) = msb_bits 64 v @ (gorilla_bits v 65 0 ws @ pad)"
    using pad w by (simp_all add: br_ok_def br_new_def br_bits_def)
  then obtain r where r: "read_bits_or0 (br_new bs) 64 = (v, r)" "br_ok r" "br_bits r = gorilla_bits v 65 0 ws @ pad"
    using read_bits_or0_spec [of "br_new bs" 64 v] by (auto simp: take_bit_word_eq_self)
  have "gorilla_dec_loop (length ws) r v 65 0 = ws"
    using gorilla_dec_loop_bits r by (simp add: window_ok_def)
  moreover have "of_be (be32 (length vs)) = length vs" using assms by (rule of_be32)
  ultimately show ?thesis
    using r unfolding gorilla_decode_def enc by (simp add: Cons del: be_bytes.simps)
qed

text \<open>delta-of-delta encoding is lossless for every list of 64-bit integers, also where the
  differences wrap around.\<close>

theorem delta_delta_roundtrip:
  assumes "length xs < 2 ^ 64"
  shows "delta_delta_decode (delta_delta_encode xs) = xs"
proof -
  have u: "unat (word_of_nat (length xs) :: u64w) = length xs"
    using assms by (simp add: unat_of_nat)
  consider "xs = []" | a where "xs = [a]" | a b vs where "xs = a # b # vs"
    by (metis neq_Nil_conv)
  then show ?thesis
  proof cases
    case 1
    then show ?thesis
      using varint.dec_enc [of 0 "[]"] by (simp add: delta_delta_encode_def delta_delta_decode_def)
  next
    case (2 a)
    then show ?thesis
      using varint.dec_enc [of "zigzag_encode a" "[]"]
      by (simp add: delta_delta_encode_def delta_delta_decode_def varint.dec_enc zigzag_roundtrip)
  next
    case (3 a b vs)
    define c where "c = (word_of_nat (length xs) :: u64w)"
    have c: "unat c = length vs + 2" using u 3 by (simp add: c_def)
    then have c01: "c \<noteq> 0" "c \<noteq> 1" by auto
    have "delta_delta_encode xs = write_varint c @ write_varint (zigzag_encode a)
        @ write_varint (zigzag_encode (b - a)) @ delta_delta_tail b (b - a) vs @ []"
      unfolding delta_delta_encode_def c_def by (simp add: 3 Let_def)
    then show ?thesis
      using 3 c c01 delta_delta_read_tail [of vs b "b - a" "[]"]
      by (simp add: delta_delta_decode_def varint.dec_enc zigzag_roundtrip Let_def)
  qed
qed

text \<open>dictionary encoding: the codes index the dictionary and give the input back, the
  dictionary holds each distinct value once, in first-seen order.\<close>

theorem dictionary_roundtrip:
  assumes "length vals < 2 ^ 32" and "dictionary_encode vals = (dict, codes)"
  shows "map (\<lambda>c. dict ! unat c) codes = vals \<and> distinct dict \<and> set dict = set vals
     \<and> (\<forall>c\<in>set codes. unat c < length dict) \<and> dict = first_seen [] vals"
proof -
  have "index_ok [] Map.empty" by (simp add: index_ok_def)
  from dictionary_loop_spec [OF this, of vals "[]"] assms first_seen_props [of "[]" vals]
  show ?thesis by (auto simp: dictionary_encode_def)
qed

section \<open>Witnesses\<close>

theorem gorilla_roundtrip_witness:
  "gorilla_decode (gorilla_encode [0x3FF0000000000000, 0x3FF0000000000000, 0x4000000000000000, 0])
     = [0x3FF0000000000000, 0x3FF0000000000000, 0x4000000000000000, 0]"
  by (rule gorilla_roundtrip) simp

theorem delta_delta_roundtrip_witness:
  "delta_delta_decode (delta_delta_encode [1000, 2000, 3000, -7, 2 ^ 63]) = [1000, 2000, 3000, -7, 2 ^ 63]"
  by (rule delta_delta_roundtrip) simp

theorem dictionary_roundtrip_witness:
  "map (\<lambda>c. [[1], [2]] ! unat c) [0, 1, 0 :: u32w] = [[1], [2], [1 :: byte]]
   \<and> distinct [[1], [2 :: byte]] \<and> set [[1], [2]] = set [[1], [2], [1 :: byte]]
   \<and> [[1], [2]] = first_seen [] [[1], [2], [1 :: byte]]"
proof -
  have enc: "dictionary_encode [[1], [2], [1 :: byte]] = ([[1], [2]], [0, 1, 0])"
    by (simp add: dictionary_encode_def)
  have len: "length [[1], [2], [1 :: byte]] < 2 ^ 32" by simp
  note r = dictionary_roundtrip [OF len enc]
  show ?thesis
    by (intro conjI) (rule r [THEN conjunct1] r [THEN conjunct2, THEN conjunct1]
        r [THEN conjunct2, THEN conjunct2, THEN conjunct1]
        r [THEN conjunct2, THEN conjunct2, THEN conjunct2, THEN conjunct2])+
qed

end
