(* ===== verification/Internal_Key.thy ===== *)
theory Internal_Key
  imports Rust_Std
begin

text \<open>
  Versioned keys (\<open>storage/internal_key.rs\<close>): a user key with a commit sequence
  number and a put/delete tag, ordered by user key, then newest first, then tag. The type is
  an instance of the library's linear orders, so sorted maps over it are the maps of
  \<open>Rust_Std\<close>. The section on visibility states what every reader of versions computes:
  the newest version of a key at or below a snapshot.
\<close>

definition PUT_TAG :: byte where
  "PUT_TAG = 0"

definition DELETE_TAG :: byte where
  "DELETE_TAG = 2"

datatype internal_key = InternalKey (user_key: bytes) (seq: nat) (tag: byte)

definition ik_seek :: "bytes \<Rightarrow> nat \<Rightarrow> internal_key" where
  "ik_seek k snapshot_seq = InternalKey k snapshot_seq PUT_TAG"

definition is_delete :: "internal_key \<Rightarrow> bool" where
  "is_delete ik \<longleftrightarrow> tag ik = DELETE_TAG"

definition ik_cmp :: "internal_key \<Rightarrow> internal_key \<Rightarrow> ordering" where
  "ik_cmp a b =
     then_with (then_with (cmp (user_key a) (user_key b)) (cmp (seq b) (seq a)))
       (cmp (tag a) (tag b))"

lemma ik_cmp_Less:
  "ik_cmp a b = Less \<longleftrightarrow>
     user_key a < user_key b \<or> user_key a = user_key b \<and> (seq b < seq a
       \<or> seq a = seq b \<and> tag a < tag b)"
  by (auto simp: ik_cmp_def then_with_def cmp_def)

lemma ik_cmp_Equal: "ik_cmp a b = Equal \<longleftrightarrow> a = b"
  by (cases a; cases b) (auto simp: ik_cmp_def then_with_def cmp_def)

lemma ik_cmp_Greater: "ik_cmp a b = Greater \<longleftrightarrow> ik_cmp b a = Less"
  by (auto simp: ik_cmp_def then_with_def cmp_def)

instantiation internal_key :: linorder
begin

definition less_internal_key :: "internal_key \<Rightarrow> internal_key \<Rightarrow> bool" where
  "less_internal_key a b \<longleftrightarrow> ik_cmp a b = Less"

definition less_eq_internal_key :: "internal_key \<Rightarrow> internal_key \<Rightarrow> bool" where
  "less_eq_internal_key a b \<longleftrightarrow> ik_cmp a b \<noteq> Greater"

instance
proof
  fix x y z :: internal_key
  show "x < y \<longleftrightarrow> x \<le> y \<and> \<not> y \<le> x"
    by (auto simp: less_internal_key_def less_eq_internal_key_def ik_cmp_Greater ik_cmp_Less)
  show "x \<le> x"
    by (auto simp: less_eq_internal_key_def ik_cmp_Greater ik_cmp_Less)
  show "x \<le> y \<Longrightarrow> y \<le> z \<Longrightarrow> x \<le> z"
    by (auto simp: less_eq_internal_key_def ik_cmp_Greater ik_cmp_Less)
  show "x \<le> y \<Longrightarrow> y \<le> x \<Longrightarrow> x = y"
    by (cases x; cases y) (auto simp: less_eq_internal_key_def ik_cmp_Greater ik_cmp_Less)
  show "x \<le> y \<or> y \<le> x"
    by (auto simp: less_eq_internal_key_def ik_cmp_Greater ik_cmp_Less)
qed

end

lemma ik_less_iff:
  "a < b \<longleftrightarrow> user_key a < user_key b \<or> user_key a = user_key b \<and> (seq b < seq a
     \<or> seq a = seq b \<and> tag a < tag b)"
  by (simp add: less_internal_key_def ik_cmp_Less)

lemma ik_le_iff:
  "a \<le> b \<longleftrightarrow> user_key a < user_key b \<or> user_key a = user_key b \<and> (seq b < seq a
     \<or> seq a = seq b \<and> tag a \<le> tag b)"
  by (cases a; cases b) (auto simp: le_less ik_less_iff)

section \<open>Visibility\<close>

text \<open>A version's key belongs to user key \<open>k\<close> and is not newer than the snapshot.\<close>

definition visible_to :: "bytes \<Rightarrow> nat \<Rightarrow> internal_key \<Rightarrow> bool" where
  "visible_to k s ik \<longleftrightarrow> user_key ik = k \<and> seq ik \<le> s"

text \<open>
  \<open>newest_visible V k s e\<close>: \<open>e\<close> is the first, in key order, of the versions of
  \<open>k\<close> in \<open>V\<close> that \<open>s\<close> may see. This is the specification of a versioned read.
\<close>

definition newest_visible :: "(internal_key \<times> 'v) set \<Rightarrow> bytes \<Rightarrow> nat \<Rightarrow> internal_key \<times> 'v \<Rightarrow> bool" where
  "newest_visible V k s e \<longleftrightarrow>
     e \<in> V \<and> visible_to k s (fst e) \<and> (\<forall>e'\<in>V. visible_to k s (fst e') \<longrightarrow> fst e \<le> fst e')"

text \<open>The value a version stands for: \<open>None\<close> for a tombstone.\<close>

definition version_value :: "internal_key \<times> 'v \<Rightarrow> 'v option" where
  "version_value e = (if is_delete (fst e) then None else Some (snd e))"

text \<open>The versioned read as a function of a key-ordered list of versions.\<close>

definition visible_in :: "(internal_key \<times> 'v) list \<Rightarrow> bytes \<Rightarrow> nat \<Rightarrow> (internal_key \<times> 'v) option" where
  "visible_in es k s = find (\<lambda>e. visible_to k s (fst e)) es"

lemma seek_le_iff:
  "ik_seek k s \<le> ik \<longleftrightarrow> k < user_key ik \<or> user_key ik = k \<and> seq ik \<le> s"
  by (auto simp: ik_le_iff ik_seek_def PUT_TAG_def)

lemma seek_le_visible: "visible_to k s ik \<longleftrightarrow> user_key ik = k \<and> ik_seek k s \<le> ik"
  by (auto simp: visible_to_def seek_le_iff)

lemma find_Some_sorted:
  assumes "bt_wf es" and "find P es = Some e"
  shows "e \<in> set es \<and> P e \<and> (\<forall>e'\<in>set es. P e' \<longrightarrow> fst e \<le> fst e')"
  using assms by (induction es) (auto simp: bt_wf_Cons split: if_splits dest: order.strict_implies_order)

text \<open>
  Seeking to \<open>ik_seek k s\<close> in key order and checking the user key of what is found
  is the versioned read.
\<close>

lemma find_seek:
  "bt_wf es \<Longrightarrow>
   (case find (\<lambda>e. ik_seek k s \<le> fst e) es of
      None \<Rightarrow> None | Some e \<Rightarrow> (if user_key (fst e) = k then Some e else None))
   = visible_in es k s"
proof (induction es)
  case Nil
  then show ?case by (simp add: visible_in_def)
next
  case (Cons e es)
  show ?case
  proof (cases "ik_seek k s \<le> fst e")
    case True
    show ?thesis
    proof (cases "user_key (fst e) = k")
      case True
      with \<open>ik_seek k s \<le> fst e\<close> show ?thesis by (simp add: visible_in_def seek_le_visible)
    next
      case False
      with \<open>ik_seek k s \<le> fst e\<close> have "k < user_key (fst e)" by (simp add: seek_le_iff)
      then have none: "\<forall>x\<in>set (e # es). user_key (fst x) \<noteq> k"
        using Cons.prems by (fastforce simp: bt_wf_Cons ik_less_iff)
      then have "visible_in (e # es) k s = None"
        unfolding visible_in_def find_None_iff by (auto simp: visible_to_def)
      with True False show ?thesis by simp
    qed
  next
    case False
    with Cons show ?thesis by (simp add: bt_wf_Cons visible_in_def seek_le_visible)
  qed
qed

lemma visible_in_newest:
  "bt_wf es \<Longrightarrow> visible_in es k s = Some e \<longleftrightarrow> newest_visible (set es) k s e"
proof
  assume wf: "bt_wf es"
  show "visible_in es k s = Some e \<Longrightarrow> newest_visible (set es) k s e"
    using find_Some_sorted [OF wf] unfolding visible_in_def newest_visible_def by blast
  assume n: "newest_visible (set es) k s e"
  then have "visible_in es k s \<noteq> None"
    unfolding visible_in_def find_None_iff newest_visible_def by blast
  then obtain e' where e': "visible_in es k s = Some e'" by blast
  with find_Some_sorted [OF wf, of "\<lambda>e. visible_to k s (fst e)" e'] n
  have "e' \<in> set es" "fst e = fst e'"
    unfolding visible_in_def newest_visible_def by (auto intro: order.antisym)
  with n wf have "e = e'"
    unfolding newest_visible_def by (metis bt_get_Some_iff option.inject prod.collapse)
  with e' show "visible_in es k s = Some e" by simp
qed

lemma visible_in_None:
  "visible_in es k s = None \<longleftrightarrow> (\<forall>e\<in>set es. \<not> visible_to k s (fst e))"
  by (auto simp: visible_in_def find_None_iff)

lemma newest_visible_unique:
  "newest_visible V k s e \<Longrightarrow> newest_visible V k s e' \<Longrightarrow> fst e = fst e'"
  by (auto simp: newest_visible_def intro: order.antisym)

end
