(* ===== verification/Object_Store.thy ===== *)
theory Object_Store
  imports Rust_Std
begin

text \<open>
  The storage-backend seam (\<open>storage/objectstore.rs\<close>): the operations of the
  \<open>ObjectStore\<close> trait as a record of state-passing functions, the contract its
  clients rely on as a locale, and the local file-system backend, which satisfies it. SHA-256
  is a parameter; every file-system call consults a schedule of faults, so that any operation
  may fail at any point. Temporary files (whose names carry a random suffix and are never
  object keys) are not represented; \<open>list\<close>, which no modelled client calls, is not
  modelled.
\<close>

section \<open>The trait\<close>

record object_meta =
  etag :: bytes
  obj_size :: nat

text \<open>The errors an \<open>anyhow::Error\<close> stands for in the modelled backends.\<close>

datatype store_error = IoError | RequestShed

datatype cas_error = Conflict (current_etag: "bytes option") | Other store_error

record 's object_store =
  os_get :: "bytes \<Rightarrow> 's \<Rightarrow> 's \<times> (store_error + (bytes \<times> object_meta) option)"
  os_put :: "bytes \<Rightarrow> bytes \<Rightarrow> 's \<Rightarrow> 's \<times> (store_error + object_meta)"
  os_put_if_match :: "bytes \<Rightarrow> bytes \<Rightarrow> bytes option \<Rightarrow> 's \<Rightarrow> 's \<times> (cas_error + object_meta)"
  os_delete :: "bytes \<Rightarrow> 's \<Rightarrow> 's \<times> (store_error + unit)"

text \<open>\<open>key.replace('\', "/")\<close>: the path, relative to the root, that holds an object.\<close>

definition path_for :: "bytes \<Rightarrow> bytes" where
  "path_for key = map (\<lambda>c. if c = 92 then 47 else c) key"

lemma path_for_id [simp]: "92 \<notin> set key \<Longrightarrow> path_for key = key"
  by (auto simp: path_for_def intro: map_idI)

definition meta_of :: "(bytes \<Rightarrow> bytes) \<Rightarrow> bytes \<Rightarrow> object_meta" where
  "meta_of tag_of data = \<lparr>etag = tag_of data, obj_size = length data\<rparr>"

lemma etag_meta_of [simp]: "etag (meta_of f d) = f d"
  by (simp add: meta_of_def)

section \<open>The contract\<close>

text \<open>
  \<open>contents\<close> is what the store durably holds, by path. A failing operation changes
  nothing; a conditional write compares the entity tag of what is held with the expected one.
\<close>

locale object_store_laws =
  fixes os :: "'s object_store"
    and contents :: "'s \<Rightarrow> bytes \<Rightarrow> bytes option"
    and inv :: "'s \<Rightarrow> bool"
    and tag_of :: "bytes \<Rightarrow> bytes"
  assumes get_ok:
    "inv s \<Longrightarrow> os_get os k s = (s', rg) \<Longrightarrow> inv s' \<and> contents s' = contents s \<and>
       (isl rg \<or> rg = Inr (map_option (\<lambda>d. (d, meta_of tag_of d)) (contents s (path_for k))))"
    and put_ok:
    "inv s \<Longrightarrow> os_put os k d s = (s', rp) \<Longrightarrow> inv s' \<and>
       (isl rp \<and> contents s' = contents s
        \<or> rp = Inr (meta_of tag_of d) \<and> contents s' = (contents s)(path_for k \<mapsto> d))"
    and cas_ok:
    "inv s \<Longrightarrow> os_put_if_match os k d expected s = (s', rc) \<Longrightarrow> inv s' \<and>
       (if expected = map_option tag_of (contents s (path_for k))
        then (\<exists>e. rc = Inl (Other e)) \<and> contents s' = contents s
          \<or> rc = Inr (meta_of tag_of d) \<and> contents s' = (contents s)(path_for k \<mapsto> d)
        else contents s' = contents s
          \<and> ((\<exists>e. rc = Inl (Other e)) \<or> rc = Inl (Conflict (map_option tag_of (contents s (path_for k))))))"
    and delete_ok:
    "inv s \<Longrightarrow> os_delete os k s = (s', rd) \<Longrightarrow> inv s' \<and>
       (isl rd \<and> contents s' = contents s \<or> rd = Inr () \<and> contents s' = (contents s)(path_for k := None))"
begin

lemma get_value:
  assumes "inv s" and "os_get os k s = (s', Inr v)"
  shows "v = map_option (\<lambda>d. (d, meta_of tag_of d)) (contents s (path_for k))
    \<and> contents s' = contents s \<and> inv s'"
  using get_ok [OF assms] by auto

lemma get_frame:
  assumes "inv s" and "os_get os k s = (s', r)"
  shows "contents s' = contents s \<and> inv s'"
  using get_ok [OF assms] by auto

text \<open>A conditional write that succeeded found the tag it expected and wrote its data.\<close>

lemma cas_success:
  assumes "inv s" and "os_put_if_match os k d expected s = (s', Inr m)"
  shows "expected = map_option tag_of (contents s (path_for k)) \<and> m = meta_of tag_of d
    \<and> contents s' = (contents s)(path_for k \<mapsto> d) \<and> inv s'"
  using cas_ok [OF assms] by (auto split: if_splits)

lemma cas_failure:
  assumes "inv s" and "os_put_if_match os k d expected s = (s', Inl e)"
  shows "contents s' = contents s \<and> inv s'"
  using cas_ok [OF assms] by (auto split: if_splits)

lemma cas_frame:
  assumes "inv s" and "os_put_if_match os k d expected s = (s', r)" and "path_for k \<noteq> p"
  shows "contents s' p = contents s p \<and> inv s'"
  using cas_ok [OF assms(1,2)] assms(3) by (auto split: if_splits)

text \<open>
  Of two writers that expect the same tag, the second is refused once the first wrote
  anything with another tag.
\<close>

lemma cas_second_refused:
  assumes "inv s" and "os_put_if_match os k d1 expected s = (s1, Inr m1)"
    and "expected \<noteq> Some (tag_of d1)" and "os_put_if_match os k d2 expected s1 = (s2, r2)"
  shows "isl r2 \<and> contents s2 (path_for k) = Some d1"
proof -
  from cas_success [OF assms(1,2)] have "inv s1" "contents s1 (path_for k) = Some d1" by auto
  with cas_ok [OF _ assms(4)] assms(3) show ?thesis by (auto split: if_splits)
qed

end

section \<open>The local file system\<close>

text \<open>
  \<open>objects\<close> maps paths to file contents; \<open>faults\<close> is consulted once per
  file-system action, \<open>True\<close> making it fail; when it is used up nothing fails.
\<close>

record local_fs =
  objects :: "bytes \<Rightarrow> bytes option"
  faults :: "bool list"

definition sha256_hex :: "(bytes \<Rightarrow> bytes) \<Rightarrow> bytes \<Rightarrow> bytes" where
  "sha256_hex sha256 data = concat (map hex2 (sha256 data))"

definition local_open :: "bool list \<Rightarrow> local_fs" where
  "local_open fs = \<lparr>objects = Map.empty, faults = fs\<rparr>"

definition io_fault :: "local_fs \<Rightarrow> bool" where
  "io_fault s = (case faults s of [] \<Rightarrow> False | f # _ \<Rightarrow> f)"

definition io_next :: "local_fs \<Rightarrow> local_fs" where
  "io_next s = s\<lparr>faults := tl (faults s)\<rparr>"

definition local_get ::
  "(bytes \<Rightarrow> bytes) \<Rightarrow> bytes \<Rightarrow> local_fs \<Rightarrow> local_fs \<times> (store_error + (bytes \<times> object_meta) option)" where
  "local_get sha256 key s =
     (if io_fault s then (io_next s, Inl IoError)
      else (io_next s,
        (case objects s (path_for key) of
           Some data \<Rightarrow> Inr (Some (data, \<lparr>etag = sha256_hex sha256 data, obj_size = length data\<rparr>))
         | None \<Rightarrow> Inr None)))"

definition local_put ::
  "(bytes \<Rightarrow> bytes) \<Rightarrow> bytes \<Rightarrow> bytes \<Rightarrow> local_fs \<Rightarrow> local_fs \<times> (store_error + object_meta)" where
  "local_put sha256 key data s =
     (if io_fault s then (io_next s, Inl IoError)
      else ((io_next s)\<lparr>objects := (objects s)(path_for key \<mapsto> data)\<rparr>,
        Inr \<lparr>etag = sha256_hex sha256 data, obj_size = length data\<rparr>))"

definition local_put_if_match ::
  "(bytes \<Rightarrow> bytes) \<Rightarrow> bytes \<Rightarrow> bytes \<Rightarrow> bytes option \<Rightarrow> local_fs
    \<Rightarrow> local_fs \<times> (cas_error + object_meta)" where
  "local_put_if_match sha256 key data expected s =
     (case local_get sha256 key s of
        (s1, Inl e) \<Rightarrow> (s1, Inl (Other e))
      | (s1, Inr current) \<Rightarrow>
          (let cur = map_option (\<lambda>(_, m). etag m) current;
               matches = (case (expected, cur) of
                 (None, None) \<Rightarrow> True | (Some x, Some c) \<Rightarrow> x = c | _ \<Rightarrow> False)
           in if \<not> matches then (s1, Inl (Conflict cur))
              else (case local_put sha256 key data s1 of
                      (s2, Inl e) \<Rightarrow> (s2, Inl (Other e))
                    | (s2, Inr m) \<Rightarrow> (s2, Inr m))))"

definition local_delete :: "bytes \<Rightarrow> local_fs \<Rightarrow> local_fs \<times> (store_error + unit)" where
  "local_delete key s =
     (if io_fault s then (io_next s, Inl IoError)
      else ((io_next s)\<lparr>objects := (objects s)(path_for key := None)\<rparr>, Inr ()))"

definition local_fs_store :: "(bytes \<Rightarrow> bytes) \<Rightarrow> local_fs object_store" where
  "local_fs_store sha256 = \<lparr>os_get = local_get sha256, os_put = local_put sha256,
     os_put_if_match = local_put_if_match sha256, os_delete = local_delete\<rparr>"

lemma objects_io_next [simp]: "objects (io_next s) = objects s"
  by (simp add: io_next_def)

interpretation local: object_store_laws "local_fs_store sha256" objects "\<lambda>_. True" "sha256_hex sha256"
  for sha256
proof
  fix s s' k and r :: "store_error + (bytes \<times> object_meta) option"
  show "os_get (local_fs_store sha256) k s = (s', r) \<Longrightarrow> True \<and> objects s' = objects s \<and>
     (isl r \<or> r = Inr (map_option (\<lambda>d. (d, meta_of (sha256_hex sha256) d)) (objects s (path_for k))))"
    by (auto simp: local_fs_store_def local_get_def meta_of_def split: if_splits option.splits)
next
  fix s s' k d and r :: "store_error + object_meta"
  show "os_put (local_fs_store sha256) k d s = (s', r) \<Longrightarrow> True \<and>
     (isl r \<and> objects s' = objects s
      \<or> r = Inr (meta_of (sha256_hex sha256) d) \<and> objects s' = (objects s)(path_for k \<mapsto> d))"
    by (auto simp: local_fs_store_def local_put_def meta_of_def split: if_splits)
next
  fix s s' k d expected r
  show "os_put_if_match (local_fs_store sha256) k d expected s = (s', r) \<Longrightarrow> True \<and>
     (if expected = map_option (sha256_hex sha256) (objects s (path_for k))
      then (\<exists>e. r = Inl (Other e)) \<and> objects s' = objects s
        \<or> r = Inr (meta_of (sha256_hex sha256) d) \<and> objects s' = (objects s)(path_for k \<mapsto> d)
      else objects s' = objects s
        \<and> ((\<exists>e. r = Inl (Other e))
           \<or> r = Inl (Conflict (map_option (sha256_hex sha256) (objects s (path_for k))))))"
    by (auto simp: local_fs_store_def local_put_if_match_def local_put_def local_get_def meta_of_def Let_def
        split: if_splits option.splits)
next
  fix s s' k and r :: "store_error + unit"
  show "os_delete (local_fs_store sha256) k s = (s', r) \<Longrightarrow> True \<and>
     (isl r \<and> objects s' = objects s \<or> r = Inr () \<and> objects s' = (objects s)(path_for k := None))"
    by (auto simp: local_fs_store_def local_delete_def split: if_splits)
qed

text \<open>Without faults no operation of the backend fails.\<close>

lemma local_no_faults:
  assumes "faults s = []"
  shows "local_get sha256 k s =
      (s, Inr (map_option (\<lambda>d. (d, meta_of (sha256_hex sha256) d)) (objects s (path_for k))))"
    "local_put sha256 k d s =
      (s\<lparr>objects := (objects s)(path_for k \<mapsto> d)\<rparr>, Inr (meta_of (sha256_hex sha256) d))"
    "local_delete k s = (s\<lparr>objects := (objects s)(path_for k := None)\<rparr>, Inr ())"
  using assms
  by (cases s; auto simp: local_get_def local_put_def local_delete_def io_fault_def io_next_def meta_of_def
      split: option.splits)+

section \<open>Properties\<close>

text \<open>compare-and-swap on the file-system backend: of two conditional writes that expect the
  same state of a key, the second fails and leaves the first one's data in place, unless the
  first wrote an object with the very tag it expected (a hash collision or the same bytes).\<close>

theorem local_cas_one_winner:
  assumes "local_put_if_match sha256 k d1 expected s = (s1, Inr m1)"
    and "expected \<noteq> Some (sha256_hex sha256 d1)"
    and "local_put_if_match sha256 k d2 expected s1 = (s2, r2)"
  shows "isl r2 \<and> objects s2 (path_for k) = Some d1"
  using local.cas_second_refused [where s = s and k = k and expected = expected and ?d1.0 = d1 and ?d2.0 = d2] assms
  by (simp add: local_fs_store_def)

theorem local_cas_one_winner_witness:
  "isl (snd (local_put_if_match id [109] [2] None
      (fst (local_put_if_match id [109] [1] None (local_open [])))))
   \<and> objects (fst (local_put_if_match id [109] [2] None
      (fst (local_put_if_match id [109] [1] None (local_open []))))) [109] = Some [1]"
proof -
  let ?s1 = "local_put_if_match id [109] [1] None (local_open [])"
  have 1: "?s1 = (fst ?s1, Inr (meta_of (sha256_hex id) [1]))"
    by (simp add: local_put_if_match_def local_get_def local_put_def local_open_def io_fault_def io_next_def
        meta_of_def)
  have 2: "local_put_if_match id [109] [2] None (fst ?s1)
      = (fst (local_put_if_match id [109] [2] None (fst ?s1)), snd (local_put_if_match id [109] [2] None (fst ?s1)))"
    by simp
  from local_cas_one_winner [OF 1 _ 2] show ?thesis by auto
qed

end
