(* ===== verification/SSTable.thy ===== *)
theory SSTable
  imports Internal_Key Object_Store
begin

text \<open>
  Sorted string tables (\<open>storage/sstable.rs\<close>): the binary format
  (data, index, bloom filter, footer), its decoder, the versioned read by binary search over
  the index, and the enumeration of all versions. The bloom filter is a third-party crate: its
  operations are a parameter, and \<open>bloom_filter\<close> states the documented behaviour the
  table relies on (no false negatives, and a filter rebuilt from its own parts answers the
  same). Positions are 64-bit: a position near the end of the address space makes Rust's
  bounds-checked slicing panic, which is an error value here.
\<close>

section \<open>The bloom filter\<close>

type_synonym sip_keys = "(nat \<times> nat) \<times> (nat \<times> nat)"

record 'b bloom_ops =
  bloom_new :: "nat \<Rightarrow> 'b"
  bloom_set :: "bytes \<Rightarrow> 'b \<Rightarrow> 'b"
  bloom_check :: "'b \<Rightarrow> bytes \<Rightarrow> bool"
  bloom_bitmap :: "'b \<Rightarrow> bytes"
  bloom_bits :: "'b \<Rightarrow> nat"
  bloom_hashes :: "'b \<Rightarrow> nat"
  bloom_sips :: "'b \<Rightarrow> sip_keys"
  bloom_from_existing :: "bytes \<Rightarrow> nat \<Rightarrow> nat \<Rightarrow> sip_keys \<Rightarrow> 'b"

locale bloom_filter =
  fixes bl :: "'b bloom_ops"
  assumes check_set: "bloom_check bl (bloom_set bl k b) k"
    and check_mono: "bloom_check bl b k \<Longrightarrow> bloom_check bl (bloom_set bl k' b) k"
    and check_rebuilt:
      "bloom_check bl (bloom_from_existing bl (bloom_bitmap bl b) (bloom_bits bl b) (bloom_hashes bl b)
         (bloom_sips bl b)) k = bloom_check bl b k"
    and part_sizes: "length (bloom_bitmap bl b) < 2 ^ 32" "bloom_bits bl b < 2 ^ 64"
      "bloom_hashes bl b < 2 ^ 32" "fst (fst (bloom_sips bl b)) < 2 ^ 64" "snd (fst (bloom_sips bl b)) < 2 ^ 64"
      "fst (snd (bloom_sips bl b)) < 2 ^ 64" "snd (snd (bloom_sips bl b)) < 2 ^ 64"
begin

lemma check_foldl: "bloom_check bl b k \<or> k \<in> set ks \<Longrightarrow> bloom_check bl (foldl (\<lambda>b k. bloom_set bl k b) b ks) k"
  by (induction ks arbitrary: b) (auto simp: check_mono check_set)

end

section \<open>Data\<close>

record index_entry =
  ie_key :: bytes
  ie_seq :: nat
  ie_tag :: byte
  ie_offset :: nat
  ie_value_len :: nat

record 'b sstable =
  sst_key :: bytes
  sst_id :: nat
  sst_index :: "index_entry list"
  sst_bloom :: 'b
  sst_data :: bytes

datatype sst_error = SstTruncated | SstTooSmall | SstPanic | SstStore store_error | SstNotFound

section \<open>Reading fields\<close>

definition read_u32 :: "bytes \<Rightarrow> nat \<Rightarrow> sst_error + nat" where
  "read_u32 buf pos =
     (if length buf < pos + 4 then (if 2 ^ 64 \<le> pos + 4 then Inl SstPanic else Inl SstTruncated)
      else Inr (of_be (slice pos (pos + 4) buf)))"

definition read_u64 :: "bytes \<Rightarrow> nat \<Rightarrow> sst_error + nat" where
  "read_u64 buf pos =
     (if length buf < pos + 8 then (if 2 ^ 64 \<le> pos + 8 then Inl SstPanic else Inl SstTruncated)
      else Inr (of_be (slice pos (pos + 8) buf)))"

definition read_value_at :: "bytes \<Rightarrow> index_entry \<Rightarrow> sst_error + bytes" where
  "read_value_at buf entry =
     attempt (read_u32 buf (ie_offset entry)) (\<lambda>key_len.
       let pos = ie_offset entry + (4 + key_len) in
       attempt (read_u32 buf pos) (\<lambda>value_len.
         if length buf < pos + 4 + value_len then Inl SstTruncated
         else Inr (slice (pos + 4) (pos + 4 + value_len) buf)))"

section \<open>Encoding\<close>

type_synonym entry = "internal_key \<times> bytes"

definition data_record :: "entry \<Rightarrow> bytes" where
  "data_record e =
     be32 (length (user_key (fst e))) @ user_key (fst e) @ be32 (length (snd e)) @ snd e"

definition build_step ::
  "'b bloom_ops \<Rightarrow> index_entry list \<times> 'b \<times> bytes \<Rightarrow> entry \<Rightarrow> index_entry list \<times> 'b \<times> bytes" where
  "build_step bl st e =
     (case st of (index, bloom, data_buf) \<Rightarrow>
        let ikey = fst e; bloom' = bloom_set bl (user_key ikey) bloom; off = length data_buf in
        if tag ikey = DELETE_TAG then
          (index @ [\<lparr>ie_key = user_key ikey, ie_seq = seq ikey, ie_tag = tag ikey, ie_offset = off,
             ie_value_len = 0\<rparr>], bloom', data_buf)
        else
          (index @ [\<lparr>ie_key = user_key ikey, ie_seq = seq ikey, ie_tag = tag ikey, ie_offset = off,
             ie_value_len = length (snd e) mod 2 ^ 32\<rparr>], bloom', data_buf @ data_record e))"

definition index_bytes :: "index_entry \<Rightarrow> bytes" where
  "index_bytes x =
     be32 (length (ie_key x)) @ ie_key x @ be64 (ie_seq x) @ [ie_tag x] @ be64 (ie_offset x)
       @ be32 (ie_value_len x)"

definition sip_bytes :: "sip_keys \<Rightarrow> bytes" where
  "sip_bytes ks = be64 (fst (fst ks)) @ be64 (snd (fst ks)) @ be64 (fst (snd ks)) @ be64 (snd (snd ks))"

definition bloom_bytes :: "'b bloom_ops \<Rightarrow> 'b \<Rightarrow> bytes" where
  "bloom_bytes bl b =
     be32 (length (bloom_bitmap bl b)) @ bloom_bitmap bl b @ be64 (bloom_bits bl b)
       @ be32 (bloom_hashes bl b) @ sip_bytes (bloom_sips bl b)"

definition build_bytes :: "'b bloom_ops \<Rightarrow> entry list \<Rightarrow> bytes" where
  "build_bytes bl entries =
     (case foldl (build_step bl) ([], bloom_new bl (max (length entries) 1), []) entries of
        (index, bloom, data_buf) \<Rightarrow>
          let index_offset = length data_buf;
              buf = data_buf @ be32 (length index) @ concat (map index_bytes index);
              bloom_offset = length buf
          in buf @ bloom_bytes bl bloom @ be64 0 @ be64 index_offset @ be64 bloom_offset)"

section \<open>Decoding\<close>

definition parse_index_entry :: "bytes \<Rightarrow> nat \<Rightarrow> sst_error + (index_entry \<times> nat)" where
  "parse_index_entry buf pos0 =
     attempt (read_u32 buf pos0) (\<lambda>key_len.
       let pos = pos0 + 4; fin = pos + key_len in
       if length buf < fin then Inl SstTruncated
       else let entry_key = slice pos fin buf in
       attempt (read_u64 buf fin) (\<lambda>q.
         let pos = fin + 8 in
         if length buf \<le> pos then Inl SstTruncated
         else let tg = buf ! pos; pos = pos + 1 in
         attempt (read_u64 buf pos) (\<lambda>off.
           let pos = pos + 8 in
           attempt (read_u32 buf pos) (\<lambda>value_len.
             Inr (\<lparr>ie_key = entry_key, ie_seq = q, ie_tag = tg, ie_offset = off, ie_value_len = value_len\<rparr>,
               pos + 4)))))"

fun index_loop :: "nat \<Rightarrow> bytes \<Rightarrow> nat \<Rightarrow> sst_error + index_entry list" where
  "index_loop 0 buf pos = Inr []"
| "index_loop (Suc n) buf pos =
     attempt (parse_index_entry buf pos) (\<lambda>(x, next).
       attempt (index_loop n buf next) (\<lambda>xs. Inr (x # xs)))"

definition parse_bloom :: "'b bloom_ops \<Rightarrow> bytes \<Rightarrow> nat \<Rightarrow> sst_error + 'b" where
  "parse_bloom bl buf pos0 =
     attempt (read_u32 buf pos0) (\<lambda>bits_len.
       let pos = pos0 + 4; bits_end = pos + bits_len in
       if length buf < bits_end then Inl SstTruncated
       else let bits = slice pos bits_end buf in
       attempt (read_u64 buf bits_end) (\<lambda>num_bits.
       attempt (read_u32 buf (bits_end + 8)) (\<lambda>num_hashes.
       attempt (read_u64 buf (bits_end + 12)) (\<lambda>k0.
       attempt (read_u64 buf (bits_end + 20)) (\<lambda>k1.
       attempt (read_u64 buf (bits_end + 28)) (\<lambda>l0.
       attempt (read_u64 buf (bits_end + 36)) (\<lambda>l1.
         Inr (bloom_from_existing bl bits num_bits num_hashes ((k0, k1), (l0, l1))))))))))"

definition sst_decode :: "'b bloom_ops \<Rightarrow> bytes \<Rightarrow> nat \<Rightarrow> bytes \<Rightarrow> sst_error + 'b sstable" where
  "sst_decode bl key ident buf =
     (if length buf < 24 then Inl SstTooSmall
      else
        let footer_start = length buf - 24 in
        attempt (read_u64 buf (footer_start + 8)) (\<lambda>index_offset.
        attempt (read_u64 buf (footer_start + 16)) (\<lambda>bloom_offset.
        attempt (read_u32 buf index_offset) (\<lambda>count.
        attempt (index_loop count buf (index_offset + 4)) (\<lambda>index.
        attempt (parse_bloom bl buf bloom_offset) (\<lambda>bloom.
          Inr \<lparr>sst_key = key, sst_id = ident, sst_index = index, sst_bloom = bloom, sst_data = buf\<rparr>))))))"

section \<open>The operations\<close>

definition create_in_store ::
  "'b bloom_ops \<Rightarrow> 's object_store \<Rightarrow> bytes \<Rightarrow> nat \<Rightarrow> entry list \<Rightarrow> 's \<Rightarrow> 's \<times> (sst_error + 'b sstable)" where
  "create_in_store bl os key ident entries s =
     (let byts = build_bytes bl entries in
      case os_put os key byts s of
        (s', Inl e) \<Rightarrow> (s', Inl (SstStore e))
      | (s', Inr _) \<Rightarrow> (s', sst_decode bl key ident byts))"

definition open_from_store ::
  "'b bloom_ops \<Rightarrow> 's object_store \<Rightarrow> bytes \<Rightarrow> nat \<Rightarrow> 's \<Rightarrow> 's \<times> (sst_error + 'b sstable)" where
  "open_from_store bl os key ident s =
     (case os_get os key s of
        (s', Inl e) \<Rightarrow> (s', Inl (SstStore e))
      | (s', Inr None) \<Rightarrow> (s', Inl SstNotFound)
      | (s', Inr (Some (byts, _))) \<Rightarrow> (s', sst_decode bl key ident byts))"

definition sst_read_at :: "'b bloom_ops \<Rightarrow> 'b sstable \<Rightarrow> bytes \<Rightarrow> nat \<Rightarrow> sst_error + bytes option option" where
  "sst_read_at bl t key snapshot_seq =
     (if \<not> bloom_check bl (sst_bloom t) key then Inr None
      else
        let idx = partition_point (\<lambda>e. case cmp (ie_key e) key of
                    Less \<Rightarrow> True | Equal \<Rightarrow> snapshot_seq < ie_seq e | Greater \<Rightarrow> False) (sst_index t)
        in if idx < length (sst_index t) then
             (let entry = sst_index t ! idx in
              if ie_key entry \<noteq> key then Inr None
              else if ie_tag entry = DELETE_TAG then Inr (Some None)
              else attempt (read_value_at (sst_data t) entry) (\<lambda>v. Inr (Some (Some v))))
           else Inr None)"

definition sst_max_seq :: "'b sstable \<Rightarrow> nat" where
  "sst_max_seq t = foldl max 0 (map ie_seq (sst_index t))"

type_synonym version = "bytes \<times> nat \<times> byte \<times> bytes option"

definition scan_entry :: "bytes \<Rightarrow> index_entry \<Rightarrow> sst_error + version" where
  "scan_entry buf x =
     (if ie_tag x = DELETE_TAG then Inr (ie_key x, ie_seq x, ie_tag x, None)
      else attempt (read_value_at buf x) (\<lambda>v. Inr (ie_key x, ie_seq x, ie_tag x, Some v)))"

fun scan_entries :: "bytes \<Rightarrow> index_entry list \<Rightarrow> sst_error + version list" where
  "scan_entries buf [] = Inr []"
| "scan_entries buf (x # xs) =
     attempt (scan_entry buf x) (\<lambda>v. attempt (scan_entries buf xs) (\<lambda>vs. Inr (v # vs)))"

definition scan_all_versions :: "'b sstable \<Rightarrow> sst_error + version list" where
  "scan_all_versions t = scan_entries (sst_data t) (sst_index t)"

definition blob_size :: "'b sstable \<Rightarrow> nat" where
  "blob_size t = length (sst_data t)"

section \<open>The format determines the table\<close>

text \<open>The index and the data section that building produces, as functions of the entries.\<close>

definition stored_data :: "entry \<Rightarrow> bytes" where
  "stored_data e = (if tag (fst e) = DELETE_TAG then [] else data_record e)"

fun index_of :: "nat \<Rightarrow> entry list \<Rightarrow> index_entry list" where
  "index_of off [] = []"
| "index_of off (e # es) =
     \<lparr>ie_key = user_key (fst e), ie_seq = seq (fst e), ie_tag = tag (fst e), ie_offset = off,
       ie_value_len = (if tag (fst e) = DELETE_TAG then 0 else length (snd e) mod 2 ^ 32)\<rparr>
     # index_of (off + length (stored_data e)) es"

definition bloom_of :: "'b bloom_ops \<Rightarrow> entry list \<Rightarrow> 'b" where
  "bloom_of bl es =
     foldl (\<lambda>b k. bloom_set bl k b) (bloom_new bl (max (length es) 1)) (map (\<lambda>e. user_key (fst e)) es)"

lemma build_foldl:
  "foldl (build_step bl) (idx, b, d) es =
    (idx @ index_of (length d) es, foldl (\<lambda>b k. bloom_set bl k b) b (map (\<lambda>e. user_key (fst e)) es),
     d @ concat (map stored_data es))"
  by (induction es arbitrary: idx b d) (simp_all add: build_step_def stored_data_def Let_def)

lemma build_bytes_eq:
  "build_bytes bl es =
     concat (map stored_data es) @ be32 (length es) @ concat (map index_bytes (index_of 0 es))
     @ bloom_bytes bl (bloom_of bl es)
     @ be64 0 @ be64 (length (concat (map stored_data es)))
     @ be64 (length (concat (map stored_data es)) + 4 + length (concat (map index_bytes (index_of 0 es))))"
proof -
  have "length (index_of off es) = length es" for off by (induction es arbitrary: off) simp_all
  then show ?thesis by (simp add: build_bytes_def build_foldl bloom_of_def Let_def add.assoc)
qed

definition sst_ok :: "'b bloom_ops \<Rightarrow> entry list \<Rightarrow> bool" where
  "sst_ok bl es \<longleftrightarrow> bt_wf es \<and> length es < 2 ^ 32 \<and> length (build_bytes bl es) < 2 ^ 64
     \<and> list_all (\<lambda>e. length (user_key (fst e)) < 2 ^ 32 \<and> length (snd e) < 2 ^ 32 \<and> seq (fst e) < 2 ^ 64) es"

lemma read_u32I:
  "buf = pre @ be32 n @ rest \<Longrightarrow> pos = length pre \<Longrightarrow> n < 2 ^ 32 \<Longrightarrow> read_u32 buf pos = Inr n"
  by (simp add: read_u32_def slice_append_right of_be_be_bytes)

lemma read_u64I:
  "buf = pre @ be64 n @ rest \<Longrightarrow> pos = length pre \<Longrightarrow> n < 2 ^ 64 \<Longrightarrow> read_u64 buf pos = Inr n"
  by (simp add: read_u64_def slice_append_right of_be_be_bytes)

definition index_ok :: "index_entry \<Rightarrow> bool" where
  "index_ok x \<longleftrightarrow> length (ie_key x) < 2 ^ 32 \<and> ie_seq x < 2 ^ 64 \<and> ie_offset x < 2 ^ 64
     \<and> ie_value_len x < 2 ^ 32"

lemma parse_index_entry_enc:
  assumes "index_ok x"
  shows "parse_index_entry (pre @ index_bytes x @ rest) (length pre) = Inr (x, length pre + length (index_bytes x))"
proof -
  let ?buf = "pre @ index_bytes x @ rest" and ?p = "length pre" and ?k = "length (ie_key x)"
  have k: "read_u32 ?buf ?p = Inr ?k"
    by (rule read_u32I [where pre = pre]) (use assms in \<open>simp_all add: index_bytes_def index_ok_def\<close>)
  have q: "read_u64 ?buf (?p + 4 + ?k) = Inr (ie_seq x)"
    by (rule read_u64I [where pre = "pre @ be32 ?k @ ie_key x"])
      (use assms in \<open>simp_all add: index_bytes_def index_ok_def\<close>)
  have o: "read_u64 ?buf (?p + 4 + ?k + 8 + 1) = Inr (ie_offset x)"
    by (rule read_u64I [where pre = "pre @ be32 ?k @ ie_key x @ be64 (ie_seq x) @ [ie_tag x]"])
      (use assms in \<open>simp_all add: index_bytes_def index_ok_def\<close>)
  have v: "read_u32 ?buf (?p + 4 + ?k + 8 + 1 + 8) = Inr (ie_value_len x)"
    by (rule read_u32I [where pre = "pre @ be32 ?k @ ie_key x @ be64 (ie_seq x) @ [ie_tag x]
          @ be64 (ie_offset x)"])
      (use assms in \<open>simp_all add: index_bytes_def index_ok_def\<close>)
  have key: "slice (?p + 4) (?p + 4 + ?k) ?buf = ie_key x"
    using slice_middle [of "?p + 4" "pre @ be32 ?k" "?p + 4 + ?k" "ie_key x"] by (simp add: index_bytes_def)
  have tg: "?buf ! (?p + 4 + ?k + 8) = ie_tag x"
    by (simp add: index_bytes_def nth_append)
  have len: "length (index_bytes x) = 4 + ?k + 8 + 1 + 8 + 4" by (simp add: index_bytes_def)
  show ?thesis
    unfolding parse_index_entry_def Let_def
    by (simp only: k q o v key tg attempt_simps) (simp add: len)
qed

definition parse_index_opt :: "bytes \<Rightarrow> nat \<Rightarrow> (index_entry \<times> nat) option" where
  "parse_index_opt buf pos = (case parse_index_entry buf pos of Inl _ \<Rightarrow> None | Inr r \<Rightarrow> Some r)"

interpretation idx: framed_codec index_bytes parse_index_opt id index_ok
  by unfold_locales (simp add: parse_index_opt_def parse_index_entry_enc)

lemma index_loop_parse_n:
  "parse_n parse_index_opt n buf pos = Some (xs, q) \<Longrightarrow> index_loop n buf pos = Inr xs"
  by (induction n arbitrary: pos xs) (auto simp: parse_index_opt_def split: option.splits sum.splits)

lemma index_loop_enc:
  assumes "\<forall>x\<in>set xs. index_ok x" and "buf = pre @ concat (map index_bytes xs) @ rest" and "pos = length pre"
    and "n = length xs"
  shows "index_loop n buf pos = Inr xs"
  using idx.parse_n_enc [OF assms(1), of pre rest] assms(2-) by (auto intro: index_loop_parse_n)

lemma read_value_at_here:
  assumes "buf = pre @ data_record e @ rest" and "ie_offset x = length pre"
    and "length (user_key (fst e)) < 2 ^ 32" and "length (snd e) < 2 ^ 32"
  shows "read_value_at buf x = Inr (snd e)"
proof -
  let ?k = "user_key (fst e)" and ?v = "snd e"
  have 1: "read_u32 buf (length pre) = Inr (length ?k)"
    by (rule read_u32I [where pre = pre]) (use assms in \<open>simp_all add: data_record_def\<close>)
  have 2: "read_u32 buf (length pre + (4 + length ?k)) = Inr (length ?v)"
    by (rule read_u32I [where pre = "pre @ be32 (length ?k) @ ?k"]) (use assms in \<open>simp_all add: data_record_def\<close>)
  have 3: "slice (length pre + (4 + length ?k) + 4) (length pre + (4 + length ?k) + 4 + length ?v) buf = ?v"
    using slice_middle [of "length pre + (4 + length ?k) + 4" "pre @ be32 (length ?k) @ ?k @ be32 (length ?v)"
        "length pre + (4 + length ?k) + 4 + length ?v" ?v rest]
    by (simp add: assms(1) data_record_def)
  show ?thesis
    unfolding read_value_at_def Let_def assms(2) 1 2 attempt_simps 3
    using assms(1) by (simp add: data_record_def)
qed

text \<open>An index entry describes an entry of the table over a data blob.\<close>

definition describes :: "bytes \<Rightarrow> index_entry \<Rightarrow> entry \<Rightarrow> bool" where
  "describes buf x e \<longleftrightarrow> ie_key x = user_key (fst e) \<and> ie_seq x = seq (fst e) \<and> ie_tag x = tag (fst e)
     \<and> (tag (fst e) \<noteq> DELETE_TAG \<longrightarrow> read_value_at buf x = Inr (snd e))"

definition sst_repr :: "'b bloom_ops \<Rightarrow> 'b sstable \<Rightarrow> entry list \<Rightarrow> bool" where
  "sst_repr bl t es \<longleftrightarrow> list_all2 (describes (sst_data t)) (sst_index t) es
     \<and> list_all (\<lambda>e. bloom_check bl (sst_bloom t) (user_key (fst e))) es"

lemma index_of_describes:
  assumes "buf = pre @ concat (map stored_data es) @ rest"
    and "list_all (\<lambda>e. length (user_key (fst e)) < 2 ^ 32 \<and> length (snd e) < 2 ^ 32 \<and> seq (fst e) < 2 ^ 64) es"
  shows "list_all2 (describes buf) (index_of (length pre) es) es"
  using assms
proof (induction es arbitrary: pre)
  case Nil
  then show ?case by simp
next
  case (Cons e es)
  let ?x = "\<lparr>ie_key = user_key (fst e), ie_seq = seq (fst e), ie_tag = tag (fst e), ie_offset = length pre,
       ie_value_len = (if tag (fst e) = DELETE_TAG then 0 else length (snd e) mod 2 ^ 32)\<rparr>"
  have "tag (fst e) \<noteq> DELETE_TAG \<Longrightarrow> read_value_at buf ?x = Inr (snd e)"
    by (rule read_value_at_here [where pre = pre and rest = "concat (map stored_data es) @ rest"])
      (use Cons.prems in \<open>auto simp: stored_data_def [of e]\<close>)
  then have "describes buf ?x e" by (simp add: describes_def)
  moreover have "list_all2 (describes buf) (index_of (length (pre @ stored_data e)) es) es"
    by (rule Cons.IH) (use Cons.prems in auto)
  ultimately show ?case by simp
qed

lemma index_of_ok:
  assumes "list_all (\<lambda>e. length (user_key (fst e)) < 2 ^ 32 \<and> length (snd e) < 2 ^ 32 \<and> seq (fst e) < 2 ^ 64) es"
    and "off + length (concat (map stored_data es)) < 2 ^ 64"
  shows "\<forall>x\<in>set (index_of off es). index_ok x"
  using assms
proof (induction es arbitrary: off)
  case Nil
  then show ?case by simp
next
  case (Cons e es)
  then have "\<forall>x\<in>set (index_of (off + length (stored_data e)) es). index_ok x"
    by (intro Cons.IH) auto
  with Cons.prems show ?case by (auto simp: index_ok_def)
qed

context bloom_filter
begin

lemma parse_bloom_enc:
  assumes "buf = pre @ bloom_bytes bl b @ rest" and "pos = length pre"
  shows "parse_bloom bl buf pos =
    Inr (bloom_from_existing bl (bloom_bitmap bl b) (bloom_bits bl b) (bloom_hashes bl b) (bloom_sips bl b))"
proof -
  let ?n = "length (bloom_bitmap bl b)" and ?p = "length pre"
  let ?h = "pre @ be32 ?n @ bloom_bitmap bl b"
  obtain k0 k1 l0 l1 where sip: "bloom_sips bl b = ((k0, k1), (l0, l1))" by (metis surj_pair)
  have sz: "k0 < 2 ^ 64" "k1 < 2 ^ 64" "l0 < 2 ^ 64" "l1 < 2 ^ 64" using part_sizes [of b] sip by auto
  note d = bloom_bytes_def sip_bytes_def sip
  have 1: "read_u32 buf ?p = Inr ?n"
    by (rule read_u32I [where pre = pre]) (use part_sizes in \<open>simp_all add: assms d\<close>)
  have 2: "slice (?p + 4) (?p + 4 + ?n) buf = bloom_bitmap bl b"
    using slice_middle [of "?p + 4" "pre @ be32 ?n" "?p + 4 + ?n" "bloom_bitmap bl b"] by (simp add: assms d)
  have 3: "read_u64 buf (?p + 4 + ?n) = Inr (bloom_bits bl b)"
    by (rule read_u64I [where pre = ?h]) (use part_sizes in \<open>simp_all add: assms d\<close>)
  have 4: "read_u32 buf (?p + 4 + ?n + 8) = Inr (bloom_hashes bl b)"
    by (rule read_u32I [where pre = "?h @ be64 (bloom_bits bl b)"]) (use part_sizes in \<open>simp_all add: assms d\<close>)
  let ?g = "?h @ be64 (bloom_bits bl b) @ be32 (bloom_hashes bl b)"
  have 5: "read_u64 buf (?p + 4 + ?n + 12) = Inr k0"
    by (rule read_u64I [where pre = ?g]) (use sz in \<open>simp_all add: assms d\<close>)
  have 6: "read_u64 buf (?p + 4 + ?n + 20) = Inr k1"
    by (rule read_u64I [where pre = "?g @ be64 k0"]) (use sz in \<open>simp_all add: assms d\<close>)
  have 7: "read_u64 buf (?p + 4 + ?n + 28) = Inr l0"
    by (rule read_u64I [where pre = "?g @ be64 k0 @ be64 k1"]) (use sz in \<open>simp_all add: assms d\<close>)
  have 8: "read_u64 buf (?p + 4 + ?n + 36) = Inr l1"
    by (rule read_u64I [where pre = "?g @ be64 k0 @ be64 k1 @ be64 l0"]) (use sz in \<open>simp_all add: assms d\<close>)
  show ?thesis
    unfolding parse_bloom_def Let_def assms(2) 1 attempt_simps
    by (simp only: 2 3 4 5 6 7 8 attempt_simps sip) (simp add: assms(1) d)
qed

lemma decode_build:
  assumes ok: "sst_ok bl es"
  shows "\<exists>t. sst_decode bl key ident (build_bytes bl es) = Inr t \<and> sst_repr bl t es
    \<and> sst_key t = key \<and> sst_id t = ident \<and> sst_data t = build_bytes bl es
    \<and> sst_index t = index_of 0 es"
proof -
  let ?buf = "build_bytes bl es"
  let ?D = "concat (map stored_data es)" and ?I = "concat (map index_bytes (index_of 0 es))"
  let ?B = "bloom_bytes bl (bloom_of bl es)"
  let ?io = "length ?D" and ?bo = "length ?D + 4 + length ?I"
  have bounds: "list_all (\<lambda>e. length (user_key (fst e)) < 2 ^ 32 \<and> length (snd e) < 2 ^ 32 \<and> seq (fst e) < 2 ^ 64) es"
    and n: "length es < 2 ^ 32" using ok by (simp_all add: sst_ok_def)
  have buf: "?buf = ?D @ be32 (length es) @ ?I @ ?B @ be64 0 @ be64 ?io @ be64 ?bo"
    by (rule build_bytes_eq)
  have len: "length ?buf = ?bo + length ?B + 24" unfolding buf by simp
  have big: "length ?buf < 2 ^ 64" using ok by (simp add: sst_ok_def)
  have 1: "read_u64 ?buf (length ?buf - 24 + 8) = Inr ?io"
    by (rule read_u64I [where pre = "?D @ be32 (length es) @ ?I @ ?B @ be64 0"])
      (use len big in \<open>simp_all add: buf\<close>)
  have 2: "read_u64 ?buf (length ?buf - 24 + 16) = Inr ?bo"
    by (rule read_u64I [where pre = "?D @ be32 (length es) @ ?I @ ?B @ be64 0 @ be64 ?io"])
      (use len big in \<open>simp_all add: buf\<close>)
  have 3: "read_u32 ?buf ?io = Inr (length es)"
    by (rule read_u32I [where pre = ?D]) (use n in \<open>simp_all add: buf\<close>)
  have "\<forall>x\<in>set (index_of 0 es). index_ok x"
    by (rule index_of_ok [OF bounds]) (use len big in simp)
  then have 4: "index_loop (length es) ?buf (?io + 4) = Inr (index_of 0 es)"
    by (rule index_loop_enc [where pre = "?D @ be32 (length es)"])
      (simp_all add: buf list_all2_lengthD [OF index_of_describes [OF _ bounds, of _ "[]" "[]", simplified]])
  have 5: "parse_bloom bl ?buf ?bo = Inr (bloom_from_existing bl (bloom_bitmap bl (bloom_of bl es))
      (bloom_bits bl (bloom_of bl es)) (bloom_hashes bl (bloom_of bl es)) (bloom_sips bl (bloom_of bl es)))"
    by (rule parse_bloom_enc [where pre = "?D @ be32 (length es) @ ?I"]) (simp_all add: buf)
  have desc: "list_all2 (describes ?buf) (index_of 0 es) es"
    using index_of_describes [OF _ bounds, of ?buf "[]"] buf by simp
  have chk: "list_all (\<lambda>e. bloom_check bl (bloom_of bl es) (user_key (fst e))) es"
    unfolding list_all_iff bloom_of_def by (intro ballI check_foldl disjI2) simp
  have "\<not> length ?buf < 24" using len by simp
  then show ?thesis
    unfolding sst_decode_def Let_def 1 2 attempt_simps 3 4 5
    using desc chk by (simp add: sst_repr_def check_rebuilt)
qed

end

section \<open>Reading a table\<close>

lemma find_list_all2:
  "list_all2 R xs ys \<Longrightarrow> (\<And>x y. R x y \<Longrightarrow> P x = Q y) \<Longrightarrow> rel_option R (find P xs) (find Q ys)"
  by (induction rule: list_all2_induct) auto

lemma sst_repr_read_at:
  assumes r: "sst_repr bl t es" and wf: "bt_wf es"
  shows "sst_read_at bl t k s = Inr (map_option version_value (visible_in es k s))"
proof (cases "bloom_check bl (sst_bloom t) k")
  case False
  with r have "visible_in es k s = None"
    by (auto simp: visible_in_None sst_repr_def list_all_iff visible_to_def)
  with False show ?thesis by (simp add: sst_read_at_def)
next
  case True
  let ?p = "\<lambda>e. case cmp (ie_key e) k of Less \<Rightarrow> True | Equal \<Rightarrow> s < ie_seq e | Greater \<Rightarrow> False"
  have "rel_option (describes (sst_data t)) (find (\<lambda>x. \<not> ?p x) (sst_index t))
      (find (\<lambda>e. ik_seek k s \<le> fst e) es)"
    by (rule find_list_all2) (use r in \<open>auto simp: sst_repr_def describes_def cmp_def seek_le_iff\<close>)
  then show ?thesis
    unfolding find_seek [OF wf, symmetric] partition_point_get [symmetric]
    using True
    by (auto simp: sst_read_at_def Let_def describes_def version_value_def is_delete_def
        split: if_splits elim!: option.rel_cases)
qed

lemma sst_repr_scan:
  assumes r: "sst_repr bl t es"
  shows "scan_all_versions t
    = Inr (map (\<lambda>e. (user_key (fst e), seq (fst e), tag (fst e), version_value e)) es)"
proof -
  have "list_all2 (describes d) xs es \<Longrightarrow>
    scan_entries d xs = Inr (map (\<lambda>e. (user_key (fst e), seq (fst e), tag (fst e), version_value e)) es)"
    for d xs and es :: "entry list"
    by (induction rule: list_all2_induct)
      (auto simp: scan_entry_def describes_def version_value_def is_delete_def)
  with r show ?thesis by (auto simp: scan_all_versions_def sst_repr_def)
qed

lemma sst_repr_max_seq:
  assumes r: "sst_repr bl t es"
  shows "sst_max_seq t = foldl max 0 (map (\<lambda>e. seq (fst e)) es)"
proof -
  have "map ie_seq xs = map (\<lambda>e. seq (fst e)) es" if "list_all2 (describes d) xs es"
    for d xs and es :: "entry list"
    using that by (induction rule: list_all2_induct) (auto simp: describes_def)
  with r show ?thesis by (auto simp: sst_max_seq_def sst_repr_def)
qed

section \<open>Properties\<close>

text \<open>a table built from entries in key order and read back answers every versioned read with
  the newest version of the key at or below the snapshot, a tombstone included, and
  \<open>None\<close> exactly when it holds no such version, whatever the bloom filter's false
  positives.\<close>

theorem sst_read_at_correct:
  assumes "bloom_filter bl" and "sst_ok bl es"
    and "sst_decode bl key ident (build_bytes bl es) = Inr t"
  shows "(\<exists>r. sst_read_at bl t k s = Inr r)
    \<and> (sst_read_at bl t k s = Inr None \<longleftrightarrow> (\<forall>e\<in>set es. \<not> visible_to k s (fst e)))
    \<and> (\<forall>v. sst_read_at bl t k s = Inr (Some v) \<longleftrightarrow> (\<exists>e. newest_visible (set es) k s e \<and> v = version_value e))"
proof -
  from bloom_filter.decode_build [OF assms(1,2), of key ident] assms(3)
  have "sst_repr bl t es" by auto
  moreover have wf: "bt_wf es" using assms(2) by (simp add: sst_ok_def)
  ultimately have "sst_read_at bl t k s = Inr (map_option version_value (visible_in es k s))"
    by (rule sst_repr_read_at)
  then show ?thesis
    using visible_in_None [of es k s] visible_in_newest [OF wf, of k s] by auto
qed

text \<open>the table format round-trips: decoding what was built succeeds, enumerates exactly the
  entries (tombstones without a value) in order, and reports their highest sequence number.\<close>

theorem sst_roundtrip:
  assumes "bloom_filter bl" and "sst_ok bl es"
  shows "\<exists>t. sst_decode bl key ident (build_bytes bl es) = Inr t \<and> sst_key t = key \<and> sst_id t = ident
    \<and> scan_all_versions t = Inr (map (\<lambda>e. (user_key (fst e), seq (fst e), tag (fst e), version_value e)) es)
    \<and> sst_max_seq t = foldl max 0 (map (\<lambda>e. seq (fst e)) es)"
  using bloom_filter.decode_build [OF assms, of key ident] sst_repr_scan sst_repr_max_seq by blast

section \<open>A concrete filter\<close>

text \<open>A 64-bit filter with two hash functions, which satisfies the contract.\<close>

definition bloom_hash :: "nat \<Rightarrow> bytes \<Rightarrow> nat" where
  "bloom_hash i k = (of_be k * (2 * i + 1) + length k) mod 64"

definition word_bloom :: "u64w bloom_ops" where
  "word_bloom = \<lparr>bloom_new = (\<lambda>_. 0),
     bloom_set = (\<lambda>k b. Bit_Operations.set_bit (bloom_hash 0 k) (Bit_Operations.set_bit (bloom_hash 1 k) b)),
     bloom_check = (\<lambda>b k. bit b (bloom_hash 0 k) \<and> bit b (bloom_hash 1 k)),
     bloom_bitmap = (\<lambda>b. be64 (unat b)), bloom_bits = (\<lambda>_. 64), bloom_hashes = (\<lambda>_. 2),
     bloom_sips = (\<lambda>_. ((1, 2), (3, 4))),
     bloom_from_existing = (\<lambda>bits _ _ _. word_of_nat (of_be bits))\<rparr>"

interpretation wb: bloom_filter word_bloom
proof
  have lt: "bloom_hash i k < 64" for i k by (simp add: bloom_hash_def)
  fix k k' :: bytes and b :: u64w
  show "bloom_check word_bloom (bloom_set word_bloom k b) k"
    using lt by (simp add: word_bloom_def bit_set_bit_iff)
  show "bloom_check word_bloom b k \<Longrightarrow> bloom_check word_bloom (bloom_set word_bloom k' b) k"
    by (auto simp: word_bloom_def bit_set_bit_iff bit_imp_possible_bit)
  have "unat b < 2 ^ 64" using unsigned_less [of b] by simp
  then have "of_be (be64 (unat b)) = unat b" by (rule of_be64)
  then show "bloom_check word_bloom (bloom_from_existing word_bloom (bloom_bitmap word_bloom b)
      (bloom_bits word_bloom b) (bloom_hashes word_bloom b) (bloom_sips word_bloom b)) k
    = bloom_check word_bloom b k"
    by (simp add: word_bloom_def)
qed (simp_all add: word_bloom_def)

definition sample_entries :: "entry list" where
  "sample_entries = [(InternalKey [97] 5 2, []), (InternalKey [97] 3 0, [7, 8]), (InternalKey [98] 4 0, [])]"

lemma sample_entries_ok: "sst_ok word_bloom sample_entries"
  by (simp add: sst_ok_def sample_entries_def bt_wf_Cons ik_less_iff build_bytes_eq word_bloom_def
      stored_data_def data_record_def DELETE_TAG_def index_bytes_def bloom_bytes_def sip_bytes_def)

theorem sst_read_at_correct_witness:
  "sst_read_at word_bloom
     (projr (sst_decode word_bloom [1] 9 (build_bytes word_bloom sample_entries))) [97] 4
   = Inr (Some (Some [7, 8]))"
proof -
  from bloom_filter.decode_build [OF wb.bloom_filter_axioms sample_entries_ok, of "[1]" 9]
  obtain t where t: "sst_decode word_bloom [1] 9 (build_bytes word_bloom sample_entries) = Inr t"
    by blast
  have "newest_visible (set sample_entries) [97] 4 (InternalKey [97] 3 0, [7, 8])"
    by (simp add: newest_visible_def sample_entries_def visible_to_def ik_le_iff)
  moreover have "Some [7, 8] = version_value (InternalKey [97] 3 0, [7 :: byte, 8])"
    by (simp add: version_value_def is_delete_def DELETE_TAG_def)
  ultimately have "sst_read_at word_bloom t [97] 4 = Inr (Some (Some [7, 8]))"
    using sst_read_at_correct [OF wb.bloom_filter_axioms sample_entries_ok t, of "[97]" 4] by blast
  with t show ?thesis by simp
qed

theorem sst_roundtrip_witness:
  "scan_all_versions (projr (sst_decode word_bloom [1] 9 (build_bytes word_bloom sample_entries)))
   = Inr [([97], 5, 2, None), ([97], 3, 0, Some [7, 8]), ([98], 4, 0, Some [])]"
  using sst_roundtrip [OF wb.bloom_filter_axioms sample_entries_ok, of "[1]" 9]
  by (auto simp: sample_entries_def version_value_def is_delete_def DELETE_TAG_def)

end
