(* ===== verification/Mem_Table.thy ===== *)
theory Mem_Table
  imports SSTable
begin

text \<open>
  The in-memory write buffer and the reduction of a source to what a snapshot sees
  (\<open>storage/lsm.rs\<close>, \<open>MemTable\<close> and \<open>first_visible_per_key\<close>). The concurrent
  skip list is a third-party crate: its operations are a parameter with the contract
  \<open>skip_map\<close>, an ordered map whose range query returns the first entry at or after a
  key. \<open>version_source\<close> is the interface the engine reads through; memory tables and
  sorted string tables both provide it.
\<close>

section \<open>The skip list\<close>

record 'm skip_map_ops =
  sm_new :: 'm
  sm_insert :: "internal_key \<Rightarrow> bytes \<Rightarrow> 'm \<Rightarrow> 'm"
  sm_range_next :: "internal_key \<Rightarrow> 'm \<Rightarrow> entry option"
  sm_iter :: "'m \<Rightarrow> entry list"

locale skip_map =
  fixes sm :: "'m skip_map_ops"
  assumes iter_new: "sm_iter sm (sm_new sm) = []"
    and iter_insert: "sm_iter sm (sm_insert sm k v m) = bt_insert k v (sm_iter sm m)"
    and iter_wf: "bt_wf (sm_iter sm m)"
    and range_next: "sm_range_next sm k m = find (\<lambda>e. k \<le> fst e) (sm_iter sm m)"

section \<open>The memory table\<close>

record 'm mem_table =
  mt_data :: 'm
  mt_size_bytes :: nat
  mt_max_size :: nat

definition mt_new :: "'m skip_map_ops \<Rightarrow> nat \<Rightarrow> 'm mem_table" where
  "mt_new sm max_size = \<lparr>mt_data = sm_new sm, mt_size_bytes = 0, mt_max_size = max_size\<rparr>"

definition mt_insert ::
  "'m skip_map_ops \<Rightarrow> bytes \<Rightarrow> nat \<Rightarrow> bytes \<Rightarrow> byte \<Rightarrow> 'm mem_table \<Rightarrow> 'm mem_table" where
  "mt_insert sm k q val tg mt =
     (let entry_size = length k + length val + 8 + 1 in
      mt\<lparr>mt_size_bytes := (mt_size_bytes mt + entry_size) mod 2 ^ 64,
         mt_data := sm_insert sm (InternalKey k q tg) val (mt_data mt)\<rparr>)"

definition mt_get_at :: "'m skip_map_ops \<Rightarrow> 'm mem_table \<Rightarrow> bytes \<Rightarrow> nat \<Rightarrow> bytes option option" where
  "mt_get_at sm mt key snapshot_seq =
     (case sm_range_next sm (ik_seek key snapshot_seq) (mt_data mt) of
        None \<Rightarrow> None
      | Some e \<Rightarrow>
          if user_key (fst e) \<noteq> key then None
          else if is_delete (fst e) then Some None
          else Some (Some (snd e)))"

definition mt_is_full :: "'m mem_table \<Rightarrow> bool" where
  "mt_is_full mt \<longleftrightarrow> mt_max_size mt \<le> mt_size_bytes mt"

definition mt_to_entries :: "'m skip_map_ops \<Rightarrow> 'm mem_table \<Rightarrow> entry list" where
  "mt_to_entries sm mt = sm_iter sm (mt_data mt)"

definition mt_len :: "'m skip_map_ops \<Rightarrow> 'm mem_table \<Rightarrow> nat" where
  "mt_len sm mt = length (sm_iter sm (mt_data mt))"

definition mt_iter_versions :: "'m skip_map_ops \<Rightarrow> 'm mem_table \<Rightarrow> version list" where
  "mt_iter_versions sm mt =
     map (\<lambda>e. (user_key (fst e), seq (fst e), tag (fst e),
       if is_delete (fst e) then None else Some (snd e))) (sm_iter sm (mt_data mt))"

section \<open>Resolving a source at a snapshot\<close>

fun first_visible_loop :: "bytes option \<Rightarrow> version list \<Rightarrow> nat \<Rightarrow> (bytes \<times> bytes option) list" where
  "first_visible_loop resolved [] snapshot_seq = []"
| "first_visible_loop resolved ((key, q, _, val) # es) snapshot_seq =
     (if resolved = Some key then first_visible_loop resolved es snapshot_seq
      else if q \<le> snapshot_seq then (key, val) # first_visible_loop (Some key) es snapshot_seq
      else first_visible_loop resolved es snapshot_seq)"

definition first_visible_per_key :: "version list \<Rightarrow> nat \<Rightarrow> (bytes \<times> bytes option) list" where
  "first_visible_per_key es snapshot_seq = first_visible_loop None es snapshot_seq"

section \<open>The interface of a source of versions\<close>

definition version_of :: "entry \<Rightarrow> version" where
  "version_of e = (user_key (fst e), seq (fst e), tag (fst e), version_value e)"

locale version_source =
  fixes entries :: "'src \<Rightarrow> entry list"
    and get_at :: "'src \<Rightarrow> bytes \<Rightarrow> nat \<Rightarrow> bytes option option"
    and versions :: "'src \<Rightarrow> version list"
    and valid :: "'src \<Rightarrow> bool"
  assumes entries_wf: "valid t \<Longrightarrow> bt_wf (entries t)"
    and get_at_visible: "valid t \<Longrightarrow> get_at t k s = map_option version_value (visible_in (entries t) k s)"
    and versions_eq: "valid t \<Longrightarrow> versions t = map version_of (entries t)"

lemma first_visible_loop_version:
  "first_visible_loop resolved (version_of e # vs) s =
     (if resolved = Some (user_key (fst e)) then first_visible_loop resolved vs s
      else if seq (fst e) \<le> s then (user_key (fst e), version_value e) # first_visible_loop (Some (user_key (fst e))) vs s
      else first_visible_loop resolved vs s)"
  by (simp add: version_of_def)

text \<open>Once a key is resolved, its older versions are skipped.\<close>

lemma first_visible_resolved:
  "first_visible_loop (Some k) (map version_of es) s
    = first_visible_loop None (map version_of (filter (\<lambda>e. user_key (fst e) \<noteq> k) es)) s"
  if "bt_wf es" "\<forall>e\<in>set es. k \<le> user_key (fst e)" for es
  using that
proof (induction es)
  case Nil
  then show ?case by simp
next
  case (Cons e es)
  have r: "first_visible_loop (Some k) (map version_of es) s
      = first_visible_loop None (map version_of (filter (\<lambda>e. user_key (fst e) \<noteq> k) es)) s"
    using Cons by (auto simp: bt_wf_Cons)
  show ?case
  proof (cases "user_key (fst e) = k")
    case True
    with r show ?thesis by (simp add: first_visible_loop_version)
  next
    case False
    with Cons.prems have "k < user_key (fst e)" by (simp add: order.not_eq_order_implies_strict)
    with Cons.prems have "filter (\<lambda>e. user_key (fst e) \<noteq> k) es = es"
      by (intro filter_True) (fastforce simp: bt_wf_Cons ik_less_iff)
    with False r show ?thesis by (simp add: first_visible_loop_version)
  qed
qed

text \<open>The reduction of a key-ordered source: each key once, in order, with what its read gives.\<close>

lemma first_visible_per_key_spec:
  assumes "bt_wf es"
  shows "map_of (first_visible_per_key (map version_of es) s) k
      = map_option version_value (visible_in es k s)
    \<and> bt_wf (first_visible_per_key (map version_of es) s)
    \<and> fst ` set (first_visible_per_key (map version_of es) s) \<subseteq> (\<lambda>e. user_key (fst e)) ` set es"
  using assms
proof (induction es rule: length_induct)
  case (1 es)
  show ?case
  proof (cases es)
    case Nil
    then show ?thesis by (simp add: first_visible_per_key_def visible_in_def)
  next
    case (Cons e es')
    have wf: "bt_wf es'" using 1(2) Cons by (simp add: bt_wf_Cons)
    have ge: "\<forall>x\<in>set es'. user_key (fst e) \<le> user_key (fst x)"
      using 1(2) Cons by (fastforce simp: bt_wf_Cons ik_less_iff)
    show ?thesis
    proof (cases "seq (fst e) \<le> s")
      case False
      then have "first_visible_per_key (map version_of es) s = first_visible_per_key (map version_of es') s"
        by (simp add: Cons first_visible_per_key_def first_visible_loop_version)
      moreover have "visible_in es k s = visible_in es' k s"
        using False by (simp add: Cons visible_in_def visible_to_def)
      moreover have "length es' < length es" by (simp add: Cons)
      ultimately show ?thesis using 1(1) [rule_format, of es'] wf Cons by auto
    next
      case True
      let ?f = "filter (\<lambda>x. user_key (fst x) \<noteq> user_key (fst e)) es'"
      have len: "length ?f < length es" by (simp add: Cons le_imp_less_Suc)
      have wff: "bt_wf ?f" using wf by (simp add: bt_wf_def sorted_wrt_map sorted_wrt_filter)
      note IH = 1(1) [rule_format, OF len wff]
      have red: "first_visible_per_key (map version_of es) s
          = (user_key (fst e), version_value e) # first_visible_per_key (map version_of ?f) s"
        using True first_visible_resolved [OF wf ge]
        by (simp add: Cons first_visible_per_key_def first_visible_loop_version)
      have vis: "visible_in es k s = (if user_key (fst e) = k then Some e else visible_in ?f k s)"
      proof -
        have "visible_in ?f k s = visible_in es' k s" if "user_key (fst e) \<noteq> k"
          using that by (induction es') (auto simp: visible_in_def visible_to_def)
        with True show ?thesis by (simp add: Cons visible_in_def visible_to_def)
      qed
      have "\<forall>x\<in>set (first_visible_per_key (map version_of ?f) s). user_key (fst e) < fst x"
      proof
        fix x assume "x \<in> set (first_visible_per_key (map version_of ?f) s)"
        then have "fst x \<in> (\<lambda>e. user_key (fst e)) ` set ?f" using IH by blast
        then obtain y where "y \<in> set es'" "user_key (fst y) \<noteq> user_key (fst e)" "fst x = user_key (fst y)" by auto
        with ge show "user_key (fst e) < fst x" by (simp add: order.not_eq_order_implies_strict)
      qed
      with IH red vis Cons show ?thesis by (auto simp: bt_wf_Cons)
    qed
  qed
qed

context version_source
begin

lemma scan_agrees_with_get:
  assumes "valid t"
  shows "map_of (first_visible_per_key (versions t) s) k = get_at t k s"
    and "bt_wf (first_visible_per_key (versions t) s)"
  using first_visible_per_key_spec [OF entries_wf [OF assms]] assms
  by (simp_all add: versions_eq get_at_visible)

end

context skip_map
begin

lemma mt_get_at_visible:
  "mt_get_at sm mt k s = map_option version_value (visible_in (mt_to_entries sm mt) k s)"
  unfolding mt_to_entries_def find_seek [OF iter_wf, symmetric]
  by (auto simp: mt_get_at_def range_next version_value_def split: option.splits)

lemma mt_to_entries_new [simp]: "mt_to_entries sm (mt_new sm n) = []"
  by (simp add: mt_to_entries_def mt_new_def iter_new)

lemma mt_to_entries_insert [simp]:
  "mt_to_entries sm (mt_insert sm k q v tg mt) = bt_insert (InternalKey k q tg) v (mt_to_entries sm mt)"
  by (simp add: mt_to_entries_def mt_insert_def Let_def iter_insert)

lemma mt_to_entries_wf: "bt_wf (mt_to_entries sm mt)"
  by (simp add: mt_to_entries_def iter_wf)

lemma mt_iter_versions_eq: "mt_iter_versions sm mt = map version_of (mt_to_entries sm mt)"
  by (simp add: mt_iter_versions_def mt_to_entries_def version_of_def version_value_def)

end

text \<open>Memory tables over any skip list that keeps its contract are sources of versions.\<close>

sublocale skip_map \<subseteq> mem: version_source "mt_to_entries sm" "mt_get_at sm" "mt_iter_versions sm" "\<lambda>_. True"
  by unfold_locales (simp_all add: mt_to_entries_wf mt_get_at_visible mt_iter_versions_eq)

section \<open>A skip list as a sorted list\<close>

definition checked :: "entry list \<Rightarrow> entry list" where
  "checked m = (if bt_wf m then m else [])"

definition list_skip_map :: "entry list skip_map_ops" where
  "list_skip_map = \<lparr>sm_new = [], sm_insert = (\<lambda>k v m. bt_insert k v (checked m)),
     sm_range_next = (\<lambda>k m. find (\<lambda>e. k \<le> fst e) (checked m)), sm_iter = checked\<rparr>"

interpretation lskip: skip_map list_skip_map
  by unfold_locales (simp_all add: list_skip_map_def checked_def bt_wf_insert)

end
