(* ===== verification/Wal.thy ===== *)
theory Wal
  imports Rust_Std
begin

text \<open>
  The write-ahead log (\<open>storage/wal.rs\<close>) over the portable file backend
  (\<open>storage/io_backend.rs\<close>, \<open>StdWalIo\<close>): batches of records framed by a
  marker, a commit sequence number and a count, appended with one positional write, and the
  replay that accepts a batch in full or not at all. What the operating system does to an
  append is an argument: the write completes, or it fails after some prefix of the buffer
  reached the file. Paths are dropped (there is one file); the file is its bytes.
\<close>

section \<open>The file backend\<close>

datatype io_outcome = Done | Fail nat

datatype wal_error = WalIo

record std_wal_io =
  io_file :: bytes
  offset :: nat

definition write_at :: "nat \<Rightarrow> bytes \<Rightarrow> bytes \<Rightarrow> bytes" where
  "write_at off buf f =
     take off f @ replicate (off - length f) 0 @ buf @ drop (off + length buf) f"

definition std_wal_io_new :: "bytes \<Rightarrow> nat \<Rightarrow> std_wal_io" where
  "std_wal_io_new f initial_len = \<lparr>io_file = f, offset = initial_len\<rparr>"

text \<open>
  \<open>Fail n\<close>: an error is returned after \<open>n\<close> bytes of the buffer were written;
  the tracked offset does not move.
\<close>

definition io_append :: "io_outcome \<Rightarrow> bytes \<Rightarrow> std_wal_io \<Rightarrow> std_wal_io \<times> (wal_error + unit)" where
  "io_append out buf io =
     (case out of
        Done \<Rightarrow> (\<lparr>io_file = write_at (offset io) buf (io_file io), offset = offset io + length buf\<rparr>, Inr ())
      | Fail n \<Rightarrow> (io\<lparr>io_file := write_at (offset io) (take n buf) (io_file io)\<rparr>, Inl WalIo))"

definition io_truncate :: "std_wal_io \<Rightarrow> std_wal_io" where
  "io_truncate io = \<lparr>io_file = [], offset = 0\<rparr>"

definition io_len :: "std_wal_io \<Rightarrow> nat" where
  "io_len io = offset io"

section \<open>The log\<close>

definition BATCH_MARKER :: byte where
  "BATCH_MARKER = 0xFF"

type_synonym wal_entry = "bytes \<times> bytes \<times> bytes \<times> byte"

datatype wal_record =
  WalRecord (wr_seq: nat) (wr_table: bytes) (wr_key: bytes) (wr_value: bytes) (wr_type: byte)

record wal =
  wal_io :: std_wal_io
  bytes_written :: nat

definition wal_open :: "bytes \<Rightarrow> wal" where
  "wal_open f = \<lparr>wal_io = std_wal_io_new f (length f), bytes_written = length f\<rparr>"

fun record_bytes :: "wal_entry \<Rightarrow> bytes" where
  "record_bytes (table, key, val, record_type) =
     be32 (length table) @ table @ be32 (length key) @ key @ be32 (length val) @ val @ [record_type]"

definition batch_bytes :: "nat \<Rightarrow> wal_entry list \<Rightarrow> bytes" where
  "batch_bytes commit_seq entries =
     [BATCH_MARKER] @ be64 commit_seq @ be32 (length entries) @ concat (map record_bytes entries)"

fun entry_record :: "nat \<Rightarrow> wal_entry \<Rightarrow> wal_record" where
  "entry_record commit_seq (table, key, val, record_type) =
     WalRecord commit_seq table key val record_type"

definition append_batch ::
  "io_outcome \<Rightarrow> nat \<Rightarrow> wal_entry list \<Rightarrow> wal \<Rightarrow> wal \<times> (wal_error + wal_record list)" where
  "append_batch out commit_seq entries w =
     (let buf = batch_bytes commit_seq entries;
          records = map (entry_record commit_seq) entries
      in case io_append out buf (wal_io w) of
           (io', Inl e) \<Rightarrow> (w\<lparr>wal_io := io'\<rparr>, Inl e)
         | (io', Inr _) \<Rightarrow>
             (\<lparr>wal_io = io', bytes_written = bytes_written w + length buf\<rparr>, Inr records))"

definition read_u32_at :: "bytes \<Rightarrow> nat \<Rightarrow> nat" where
  "read_u32_at buf pos = of_be (slice pos (pos + 4) buf)"

definition read_u64_at :: "bytes \<Rightarrow> nat \<Rightarrow> nat" where
  "read_u64_at buf pos = of_be (slice pos (pos + 8) buf)"

definition parse_record :: "bytes \<Rightarrow> nat \<Rightarrow> nat \<Rightarrow> (wal_record \<times> nat) option" where
  "parse_record buf pos0 seq =
     (if length buf < pos0 + 4 then None
      else let table_len = read_u32_at buf pos0; pos1 = pos0 + 4 in
      if length buf < pos1 + table_len then None
      else let table = from_utf8_lossy (slice pos1 (pos1 + table_len) buf); pos2 = pos1 + table_len in
      if length buf < pos2 + 4 then None
      else let key_len = read_u32_at buf pos2; pos3 = pos2 + 4 in
      if length buf < pos3 + key_len then None
      else let key = slice pos3 (pos3 + key_len) buf; pos4 = pos3 + key_len in
      if length buf < pos4 + 4 then None
      else let value_len = read_u32_at buf pos4; pos5 = pos4 + 4 in
      if length buf < pos5 + value_len + 1 then None
      else let val = slice pos5 (pos5 + value_len) buf; pos6 = pos5 + value_len in
      Some (WalRecord seq table key val (buf ! pos6), pos6 + 1))"

lemma parse_record_pos: "parse_record buf pos q = Some (r, next) \<Longrightarrow> pos < next"
  by (auto simp: parse_record_def Let_def split: if_splits)

lemma parse_n_pos:
  "parse_n (\<lambda>b p. parse_record b p q) n buf pos = Some (rs, next) \<Longrightarrow> pos \<le> next"
  by (induction n arbitrary: pos rs)
    (fastforce split: option.splits prod.splits dest: parse_record_pos)+

text \<open>
  The replay loop at position \<open>pos\<close>: the records handed to the callback, in order, and
  the highest commit sequence number of any batch header seen.
\<close>

function replay_from :: "bytes \<Rightarrow> nat \<Rightarrow> nat \<Rightarrow> wal_record list \<times> nat" where
  "replay_from buf pos max_seq =
     (if length buf \<le> pos then ([], max_seq)
      else if length buf < pos + 1 + 8 + 4 \<or> buf ! pos \<noteq> BATCH_MARKER then ([], max_seq)
      else
        (let commit_seq = read_u64_at buf (pos + 1);
             count = read_u32_at buf (pos + 9);
             max_seq' = max max_seq commit_seq
         in case parse_n (\<lambda>b p. parse_record b p commit_seq) count buf (pos + 13) of
              None \<Rightarrow> ([], max_seq')
            | Some (records, cursor) \<Rightarrow>
                (case replay_from buf cursor max_seq' of (rs, m) \<Rightarrow> (records @ rs, m))))"
  by pat_completeness auto
termination
  by (relation "measure (\<lambda>(buf, pos, _). length buf - pos)") (auto dest!: parse_n_pos)

declare replay_from.simps [simp del]

definition replay :: "wal \<Rightarrow> wal_record list \<times> nat" where
  "replay w = replay_from (io_file (wal_io w)) 0 0"

definition read_all_bytes :: "wal \<Rightarrow> bytes" where
  "read_all_bytes w = io_file (wal_io w)"

definition wal_truncate :: "wal \<Rightarrow> wal" where
  "wal_truncate w = \<lparr>wal_io = io_truncate (wal_io w), bytes_written = 0\<rparr>"

section \<open>Parsing what was appended\<close>

definition entry_ok :: "wal_entry \<Rightarrow> bool" where
  "entry_ok e \<longleftrightarrow>
     (case e of (table, key, val, _) \<Rightarrow>
        valid_utf8 table \<and> length table < 2 ^ 32 \<and> length key < 2 ^ 32 \<and> length val < 2 ^ 32)"

lemma read_at_extend:
  "pos + 4 \<le> length buf \<Longrightarrow> read_u32_at (buf @ ext) pos = read_u32_at buf pos"
  "pos + 8 \<le> length buf \<Longrightarrow> read_u64_at (buf @ ext) pos = read_u64_at buf pos"
  by (simp_all add: read_u32_at_def read_u64_at_def slice_extend)

lemma read_at_shift:
  "read_u32_at (pre @ b) (length pre + i) = read_u32_at b i"
  "read_u64_at (pre @ b) (length pre + i) = read_u64_at b i"
  using slice_shift [of pre i "i + 4" b] slice_shift [of pre i "i + 8" b]
  by (simp_all add: read_u32_at_def read_u64_at_def add.assoc)

lemma read_at_past:
  "length xs \<le> i \<Longrightarrow> read_u32_at (xs @ ys) i = read_u32_at ys (i - length xs)"
  "length xs \<le> i \<Longrightarrow> read_u64_at (xs @ ys) i = read_u64_at ys (i - length xs)"
  by (simp_all add: read_u32_at_def read_u64_at_def slice_def)

lemma read_at_Cons:
  "0 < i \<Longrightarrow> read_u32_at (x # ys) i = read_u32_at ys (i - 1)"
  "0 < i \<Longrightarrow> read_u64_at (x # ys) i = read_u64_at ys (i - 1)"
  using read_at_past [of "[x]" i ys] by simp_all

lemma read_at_here:
  "n < 2 ^ 32 \<Longrightarrow> read_u32_at (be32 n @ ys) 0 = n"
  "n < 2 ^ 64 \<Longrightarrow> read_u64_at (be64 n @ ys) 0 = n"
  by (simp_all only: read_u32_at_def read_u64_at_def slice_here length_be_bytes of_be32 of_be64 add_0)

lemma parse_record_shift:
  "parse_record (pre @ b) (length pre) q = map_option (apsnd (\<lambda>p. length pre + p)) (parse_record b 0 q)"
proof -
  have s: "slice (length pre + i) (length pre + j) (pre @ b) = slice i j b" for i j
    by (rule slice_shift)
  have n: "(pre @ b) ! (length pre + i) = b ! i" for i by simp
  show ?thesis
    unfolding parse_record_def Let_def
    using read_at_shift(1) [of pre b 0]
    by (simp add: read_at_shift s n add.assoc)
qed

lemma parse_record_here:
  assumes "entry_ok e"
  shows "parse_record (record_bytes e @ rest) 0 q = Some (entry_record q e, length (record_bytes e))"
proof -
  obtain t k v y where e: "e = (t, k, v, y)" by (cases e) auto
  with assms have ok: "length t < 4294967296" "length k < 4294967296" "length v < 4294967296"
    and u: "from_utf8_lossy t = t"
    by (auto simp: entry_ok_def from_utf8_lossy_valid)
  show ?thesis
    using ok u
    by (simp add: e parse_record_def Let_def read_at_here read_at_past slice_past slice_here nth_append)
qed

interpretation rec: torn_codec record_bytes "\<lambda>b p. parse_record b p q" "entry_record q" entry_ok
  for q
proof
  fix e pre rest
  assume "entry_ok e"
  then show "parse_record (pre @ record_bytes e @ rest) (length pre) q
      = Some (entry_record q e, length pre + length (record_bytes e))"
    by (simp add: parse_record_shift parse_record_here)
next
  fix buf pos y p ext
  assume "parse_record buf pos q = Some (y, p)"
  then show "p \<le> length buf \<and> parse_record (buf @ ext) pos q = Some (y, p)"
    by (auto simp: parse_record_def Let_def read_at_extend slice_extend nth_append split: if_splits)
qed

section \<open>Replaying batches\<close>

type_synonym batch = "nat \<times> wal_entry list"

definition batch_ok :: "batch \<Rightarrow> bool" where
  "batch_ok b \<longleftrightarrow>
     fst b < 2 ^ 64 \<and> length (snd b) < 2 ^ 32 \<and> (\<forall>e\<in>set (snd b). entry_ok e)"

definition log_bytes :: "batch list \<Rightarrow> bytes" where
  "log_bytes bs = concat (map (\<lambda>b. batch_bytes (fst b) (snd b)) bs)"

definition log_records :: "batch list \<Rightarrow> wal_record list" where
  "log_records bs = concat (map (\<lambda>b. map (entry_record (fst b)) (snd b)) bs)"

definition log_max :: "batch list \<Rightarrow> nat" where
  "log_max bs = foldl max 0 (map fst bs)"

lemma log_bytes_simps [simp]:
  "log_bytes [] = []"
  "log_bytes (b # bs) = batch_bytes (fst b) (snd b) @ log_bytes bs"
  "log_bytes (bs @ bs') = log_bytes bs @ log_bytes bs'"
  by (simp_all add: log_bytes_def)

lemma log_records_simps [simp]:
  "log_records [] = []"
  "log_records (b # bs) = map (entry_record (fst b)) (snd b) @ log_records bs"
  "log_records (bs @ bs') = log_records bs @ log_records bs'"
  by (simp_all add: log_records_def)

lemma length_batch_bytes:
  "length (batch_bytes q es) = 13 + length (concat (map record_bytes es))"
  by (simp add: batch_bytes_def)

text \<open>The header at the front of a buffer that holds at least thirteen bytes of a batch.\<close>

lemma header_at:
  assumes "q < 2 ^ 64" and "length es < 2 ^ 32"
    and buf: "buf = pre @ ([BATCH_MARKER] @ be64 q @ be32 (length es)) @ rest"
  shows "buf ! length pre = BATCH_MARKER" "read_u64_at buf (length pre + 1) = q"
    "read_u32_at buf (length pre + 9) = length es" "length pre + 13 \<le> length buf"
  using assms(1,2) unfolding buf
  by (simp_all add: nth_append read_at_shift read_at_Cons read_at_past read_at_here)

lemma replay_from_header:
  assumes "q < 2 ^ 64" and "length es < 2 ^ 32"
    and buf: "buf = pre @ ([BATCH_MARKER] @ be64 q @ be32 (length es)) @ rest"
  shows "replay_from buf (length pre) m =
    (case parse_n (\<lambda>b p. parse_record b p q) (length es) buf (length pre + 13) of
       None \<Rightarrow> ([], max m q)
     | Some (records, cursor) \<Rightarrow>
         (case replay_from buf cursor (max m q) of (rs, m') \<Rightarrow> (records @ rs, m')))"
  using header_at [OF assms] by (subst replay_from.simps) (simp add: Let_def)

lemma replay_from_batch:
  assumes "batch_ok b" and buf: "buf = pre @ batch_bytes (fst b) (snd b) @ rest"
  shows "replay_from buf (length pre) m =
    (case replay_from buf (length pre + length (batch_bytes (fst b) (snd b))) (max m (fst b)) of
       (rs, m') \<Rightarrow> (map (entry_record (fst b)) (snd b) @ rs, m'))"
proof -
  let ?hdr = "[BATCH_MARKER] @ be64 (fst b) @ be32 (length (snd b))"
  have "parse_n (\<lambda>b' p. parse_record b' p (fst b)) (length (snd b))
      ((pre @ ?hdr) @ concat (map record_bytes (snd b)) @ rest) (length (pre @ ?hdr))
    = Some (map (entry_record (fst b)) (snd b),
        length (pre @ ?hdr) + length (concat (map record_bytes (snd b))))"
    by (rule rec.parse_n_enc) (use assms(1) in \<open>simp add: batch_ok_def\<close>)
  moreover have "buf = pre @ ?hdr @ (concat (map record_bytes (snd b)) @ rest)"
    by (simp add: buf batch_bytes_def)
  moreover have "fst b < 2 ^ 64" "length (snd b) < 2 ^ 32" using assms(1) by (simp_all add: batch_ok_def)
  ultimately show ?thesis
    using replay_from_header [of "fst b" "snd b" buf pre "concat (map record_bytes (snd b)) @ rest" m]
    by (simp add: length_batch_bytes add.assoc)
qed

lemma replay_from_log:
  assumes "\<forall>b\<in>set bs. batch_ok b" and "buf = pre @ log_bytes bs @ rest"
  shows "replay_from buf (length pre) m =
    (case replay_from buf (length pre + length (log_bytes bs)) (foldl max m (map fst bs)) of
       (rs, m') \<Rightarrow> (log_records bs @ rs, m'))"
  using assms
proof (induction bs arbitrary: pre m)
  case Nil
  then show ?case by simp
next
  case (Cons b bs)
  let ?pre = "pre @ batch_bytes (fst b) (snd b)"
  have "replay_from buf (length ?pre) (max m (fst b)) =
    (case replay_from buf (length ?pre + length (log_bytes bs)) (foldl max (max m (fst b)) (map fst bs)) of
       (rs, m') \<Rightarrow> (log_records bs @ rs, m'))"
    by (rule Cons.IH) (use Cons.prems in auto)
  with replay_from_batch [of b buf pre "log_bytes bs @ rest" m] Cons.prems
  show ?case by (simp add: add.assoc split: prod.splits)
qed

text \<open>A batch cut short contributes no record; its header, when complete, its number.\<close>

lemma replay_from_torn:
  assumes ok: "batch_ok (q, es)" and n: "n < length (batch_bytes q es)"
  shows "replay_from (pre @ take n (batch_bytes q es)) (length pre) m = ([], if 13 \<le> n then max m q else m)"
proof (cases "13 \<le> n")
  case False
  then show ?thesis by (subst replay_from.simps) auto
next
  case True
  let ?hdr = "[BATCH_MARKER] @ be64 q @ be32 (length es)"
  let ?cut = "take (n - 13) (concat (map record_bytes es))"
  have buf: "pre @ take n (batch_bytes q es) = pre @ ?hdr @ ?cut"
    using True by (simp add: batch_bytes_def take_Cons')
  have "parse_n (\<lambda>b p. parse_record b p q) (length es) ((pre @ ?hdr) @ ?cut) (length (pre @ ?hdr)) = None"
    by (rule rec.parse_n_torn) (use ok n True in \<open>auto simp: batch_ok_def length_batch_bytes\<close>)
  with replay_from_header [OF _ _ buf] ok True show ?thesis by (simp add: batch_ok_def buf)
qed

section \<open>Logs written through the backend\<close>

definition append_all :: "batch list \<Rightarrow> wal \<Rightarrow> wal" where
  "append_all bs w = foldl (\<lambda>w b. fst (append_batch Done (fst b) (snd b) w)) w bs"

definition wal_wf :: "wal \<Rightarrow> bool" where
  "wal_wf w \<longleftrightarrow> io_len (wal_io w) = length (io_file (wal_io w)) \<and> bytes_written w = io_len (wal_io w)"

lemma wal_wf_open: "wal_wf (wal_open f)"
  by (simp add: wal_wf_def wal_open_def std_wal_io_new_def io_len_def)

lemma wal_wf_truncate: "wal_wf (wal_truncate w)"
  by (simp add: wal_wf_def wal_truncate_def io_truncate_def io_len_def)

lemma append_batch_Done:
  assumes "wal_wf w"
  shows "io_file (wal_io (fst (append_batch Done q es w))) = io_file (wal_io w) @ batch_bytes q es"
    "wal_wf (fst (append_batch Done q es w))"
    "snd (append_batch Done q es w) = Inr (map (entry_record q) es)"
  using assms by (simp_all add: append_batch_def io_append_def Let_def wal_wf_def write_at_def io_len_def)

lemma append_batch_Fail:
  assumes "wal_wf w"
  shows "io_file (wal_io (fst (append_batch (Fail n) q es w)))
      = io_file (wal_io w) @ take n (batch_bytes q es)"
    "snd (append_batch (Fail n) q es w) = Inl WalIo"
  using assms by (simp_all add: append_batch_def io_append_def Let_def wal_wf_def write_at_def io_len_def)

lemma append_all_file:
  "wal_wf w \<Longrightarrow> wal_wf (append_all bs w)
     \<and> io_file (wal_io (append_all bs w)) = io_file (wal_io w) @ log_bytes bs"
  by (induction bs arbitrary: w) (simp_all add: append_all_def append_batch_Done)

lemma replay_log:
  "\<forall>b\<in>set bs. batch_ok b \<Longrightarrow> replay_from (log_bytes bs @ rest) 0 0 =
    (case replay_from (log_bytes bs @ rest) (length (log_bytes bs)) (log_max bs) of
       (rs, m') \<Rightarrow> (log_records bs @ rs, m'))"
  using replay_from_log [of bs "log_bytes bs @ rest" "[]" rest 0] by (simp add: log_max_def)

lemma replay_log_bytes:
  assumes "\<forall>b\<in>set bs. batch_ok b"
  shows "replay_from (log_bytes bs) 0 0 = (log_records bs, log_max bs)"
  using replay_log [OF assms, of "[]"] replay_from.simps [of "log_bytes bs" "length (log_bytes bs)"] by simp

lemma replay_log_torn:
  assumes "\<forall>b\<in>set bs. batch_ok b" and "batch_ok (q, es)" and "n < length (batch_bytes q es)"
  shows "replay_from (log_bytes bs @ take n (batch_bytes q es)) 0 0
    = (log_records bs, if 13 \<le> n then max (log_max bs) q else log_max bs)"
  using replay_log [OF assms(1), of "take n (batch_bytes q es)"]
    replay_from_torn [OF assms(2,3), of "log_bytes bs" "log_max bs"] by simp

section \<open>What the log guarantees\<close>

text \<open>a log of acknowledged batches replays to exactly their records, in order, each with its
  batch's commit sequence number, and reports the highest of these numbers.\<close>

theorem wal_replay_roundtrip:
  assumes "\<forall>b\<in>set bs. batch_ok b"
  shows "replay (append_all bs (wal_open [])) = (log_records bs, log_max bs)"
  using append_all_file [OF wal_wf_open, of bs "[]"] replay_log_bytes [OF assms]
  by (simp add: replay_def wal_open_def std_wal_io_new_def)

text \<open>whatever prefix of a batch reached the file before a crash, none of its records is
  replayed and every earlier batch is replayed in full; the interrupted batch's number still
  counts for the watermark once its thirteen-byte header is complete.\<close>

theorem wal_torn_batch_all_or_nothing:
  assumes "\<forall>b\<in>set bs. batch_ok b" and "batch_ok (q, es)" and "n < length (batch_bytes q es)"
  shows "replay (fst (append_batch (Fail n) q es (append_all bs (wal_open []))))
    = (log_records bs, if 13 \<le> n then max (log_max bs) q else log_max bs)"
  using append_all_file [OF wal_wf_open, of bs "[]"] replay_log_torn [OF assms]
  by (simp add: replay_def append_batch_Fail) (simp add: wal_open_def std_wal_io_new_def)

lemma read_u32_at_marker:
  assumes "2 \<le> length rest" and "pos = length pre"
  shows "4278190080 \<le> read_u32_at (pre @ BATCH_MARKER # be64 q @ rest) pos"
proof -
  let ?b = "BATCH_MARKER # take 3 (be64 q)"
  have "slice pos (pos + 4) (pre @ BATCH_MARKER # be64 q @ rest) = ?b"
    using assms by (simp add: slice_def take_Cons')
  moreover have "of_be (x # xs) = unat x * 256 ^ length xs + of_be xs" for x :: byte and xs
    by (induction xs rule: rev_induct) (simp_all add: of_be_snoc flip: append_Cons, simp add: of_be_def)
  ultimately show ?thesis by (simp add: read_u32_at_def BATCH_MARKER_def)
qed

text \<open>a torn tail is not removed when the log is opened again, and new batches are appended
  behind it. When a crash left just the header of a batch with records, every batch
  acknowledged after the restart (up to 4,278,190,080 bytes of them) is lost at the next
  replay: it sees the old batches and stops at the torn header.\<close>

theorem wal_torn_tail_hides_later_batches:
  assumes bs: "\<forall>b\<in>set bs. batch_ok b" and ok: "batch_ok (q, es)" and ne: "es \<noteq> []"
    and size: "length (log_bytes later) < 4278190080"
  shows "replay (append_all later (wal_open (read_all_bytes
        (fst (append_batch (Fail 13) q es (append_all bs (wal_open []))))))) =
      (log_records bs, max (log_max bs) q)"
    (is "replay (append_all later ?reopened) = _")
proof -
  let ?hdr = "[BATCH_MARKER] @ be64 q @ be32 (length es)"
  let ?pre = "log_bytes bs @ ?hdr"
  have len: "13 \<le> length (batch_bytes q es)" by (simp add: length_batch_bytes)
  have "take 13 (batch_bytes q es) = ?hdr" by (simp add: batch_bytes_def take_Cons')
  then have fl: "io_file (wal_io (append_all later ?reopened)) = log_bytes bs @ ?hdr @ log_bytes later"
    using append_all_file [OF wal_wf_open, of bs "[]"] append_all_file [OF wal_wf_open, of later]
    by (simp add: read_all_bytes_def append_batch_Fail)
      (simp add: wal_open_def std_wal_io_new_def)
  have none: "parse_record (?pre @ log_bytes later) (length ?pre) q = None"
  proof (cases later)
    case Nil
    then show ?thesis by (simp add: parse_record_def)
  next
    case (Cons b bs')
    have "4278190080 \<le> read_u32_at (?pre @ BATCH_MARKER # be64 (fst b)
        @ (be32 (length (snd b)) @ concat (map record_bytes (snd b)) @ log_bytes bs')) (length ?pre)"
      by (rule read_u32_at_marker) simp_all
    then have "4278190080 \<le> read_u32_at (?pre @ log_bytes later) (length ?pre)"
      by (simp add: Cons batch_bytes_def)
    with size show ?thesis by (simp add: parse_record_def Let_def)
  qed
  have "parse_n (\<lambda>b p. parse_record b p q) (length es) (?pre @ log_bytes later) (length ?pre) = None"
    by (rule parse_n_first_None) (use none ne in simp_all)
  then have "replay_from (log_bytes bs @ ?hdr @ log_bytes later) (length (log_bytes bs)) (log_max bs)
      = ([], max (log_max bs) q)"
    using replay_from_header [of q es _ "log_bytes bs" "log_bytes later" "log_max bs"] ok
    by (simp add: batch_ok_def)
  with replay_log [OF bs, of "?hdr @ log_bytes later"] fl show ?thesis
    by (simp add: replay_def)
qed

section \<open>Witnesses\<close>

lemmas batch_ok_simps = batch_ok_def entry_ok_def utf8_step_def utf8_width_def

theorem wal_replay_roundtrip_witness:
  "replay (append_all [(7, [([116], [107], [1, 2], 0), ([116], [108], [], 2)]), (9, [])] (wal_open []))
    = ([WalRecord 7 [116] [107] [1, 2] 0, WalRecord 7 [116] [108] [] 2], 9)"
  using wal_replay_roundtrip [of "[(7, [([116], [107], [1, 2], 0), ([116], [108], [], 2)]), (9, [])]"]
  by (simp add: batch_ok_simps log_max_def)

theorem wal_torn_batch_all_or_nothing_witness:
  "replay (fst (append_batch (Fail 40) 2 [([116], [98], [50], 0), ([116], [99], [51], 0)]
      (append_all [(1, [([116], [97], [49], 0)])] (wal_open []))))
    = ([WalRecord 1 [116] [97] [49] 0], 2)"
  using wal_torn_batch_all_or_nothing
    [of "[(1, [([116], [97], [49], 0)])]" 2 "[([116], [98], [50], 0), ([116], [99], [51], 0)]" 40]
  by (simp add: batch_ok_simps log_max_def batch_bytes_def)

theorem wal_torn_tail_hides_later_batches_witness:
  "replay (append_all [(3, [([116], [99], [51], 0)])] (wal_open (read_all_bytes
      (fst (append_batch (Fail 13) 2 [([116], [98], [50], 0)]
        (append_all [(1, [([116], [97], [49], 0)])] (wal_open [])))))))
    = ([WalRecord 1 [116] [97] [49] 0], 2)"
  using wal_torn_tail_hides_later_batches
    [of "[(1, [([116], [97], [49], 0)])]" 2 "[([116], [98], [50], 0)]" "[(3, [([116], [99], [51], 0)])]"]
  by (simp add: batch_ok_simps log_max_def batch_bytes_def)

end
