(* ===== verification/Manifest.thy ===== *)
theory Manifest
  imports Object_Store
begin

text \<open>
  The manifest (\<open>storage/manifest.rs\<close>): the object that says which tables make up the
  database, saved by compare-and-swap and loaded with a fallback for the older layout. The
  serialiser (bincode) is a parameter with the contract \<open>manifest_codec\<close>; the fixed-width
  little-endian layout that crate documents satisfies it.
\<close>

record manifest =
  sstable_ids :: "nat list"
  wal_segment_seq :: nat
  writer_fencing_token :: nat
  max_commit_seq :: nat

record manifest_v0 =
  v0_sstable_ids :: "nat list"
  v0_wal_segment_seq :: nat
  v0_writer_fencing_token :: nat

definition from_v0 :: "manifest_v0 \<Rightarrow> manifest" where
  "from_v0 v = \<lparr>sstable_ids = v0_sstable_ids v, wal_segment_seq = v0_wal_segment_seq v,
     writer_fencing_token = v0_writer_fencing_token v, max_commit_seq = 0\<rparr>"

definition manifest_default :: manifest where
  "manifest_default = \<lparr>sstable_ids = [], wal_segment_seq = 0, writer_fencing_token = 0, max_commit_seq = 0\<rparr>"

record bincode_manifest =
  mf_ser :: "manifest \<Rightarrow> bytes"
  mf_de :: "bytes \<Rightarrow> manifest option"
  mf_de_v0 :: "bytes \<Rightarrow> manifest_v0 option"

definition manifest_ok :: "manifest \<Rightarrow> bool" where
  "manifest_ok m \<longleftrightarrow> length (sstable_ids m) < 2 ^ 64 \<and> list_all (\<lambda>i. i < 2 ^ 64) (sstable_ids m)
     \<and> wal_segment_seq m < 2 ^ 64 \<and> writer_fencing_token m < 2 ^ 64 \<and> max_commit_seq m < 2 ^ 64"

locale manifest_codec =
  fixes mc :: bincode_manifest
  assumes de_ser: "manifest_ok m \<Longrightarrow> mf_de mc (mf_ser mc m) = Some m"

datatype manifest_error = ManifestStore store_error | ManifestDecode

definition MANIFEST_KEY :: bytes where
  "MANIFEST_KEY = str ''manifest.bin''"

definition manifest_decode :: "bincode_manifest \<Rightarrow> bytes \<Rightarrow> manifest option" where
  "manifest_decode mc byts =
     (case mf_de mc byts of Some m \<Rightarrow> Some m | None \<Rightarrow> map_option from_v0 (mf_de_v0 mc byts))"

definition manifest_load ::
  "bincode_manifest \<Rightarrow> 's object_store \<Rightarrow> 's \<Rightarrow> 's \<times> (manifest_error + (manifest \<times> bytes) option)" where
  "manifest_load mc os s =
     (case os_get os MANIFEST_KEY s of
        (s', Inl e) \<Rightarrow> (s', Inl (ManifestStore e))
      | (s', Inr None) \<Rightarrow> (s', Inr None)
      | (s', Inr (Some (byts, meta))) \<Rightarrow>
          (s', case manifest_decode mc byts of
                 Some m \<Rightarrow> Inr (Some (m, etag meta)) | None \<Rightarrow> Inl ManifestDecode))"

definition save_cas ::
  "bincode_manifest \<Rightarrow> 's object_store \<Rightarrow> manifest \<Rightarrow> bytes option \<Rightarrow> 's \<Rightarrow> 's \<times> (cas_error + bytes)" where
  "save_cas mc os m expected s =
     (case os_put_if_match os MANIFEST_KEY (mf_ser mc m) expected s of
        (s', Inl e) \<Rightarrow> (s', Inl e)
      | (s', Inr meta) \<Rightarrow> (s', Inr (etag meta)))"

lemma path_for_manifest [simp]: "path_for MANIFEST_KEY = MANIFEST_KEY"
  by (rule path_for_id) (simp add: MANIFEST_KEY_def str_def of_char_def)

section \<open>The documented layout\<close>

definition read_ids :: "bytes \<Rightarrow> (nat list \<times> bytes) option" where
  "read_ids bs = (case read_le64 bs of None \<Rightarrow> None | Some (n, r) \<Rightarrow> dec_n read_le64 n r)"

definition layout_ser :: "manifest \<Rightarrow> bytes" where
  "layout_ser m = le64 (length (sstable_ids m)) @ concat (map le64 (sstable_ids m))
     @ le64 (wal_segment_seq m) @ le64 (writer_fencing_token m) @ le64 (max_commit_seq m)"

definition layout_ser_v0 :: "manifest_v0 \<Rightarrow> bytes" where
  "layout_ser_v0 v = le64 (length (v0_sstable_ids v)) @ concat (map le64 (v0_sstable_ids v))
     @ le64 (v0_wal_segment_seq v) @ le64 (v0_writer_fencing_token v)"

definition bincode_layout :: bincode_manifest where
  "bincode_layout = \<lparr>mf_ser = layout_ser,
     mf_de = (\<lambda>bs. map_option (\<lambda>((ids, w, f, c), _).
        \<lparr>sstable_ids = ids, wal_segment_seq = w, writer_fencing_token = f, max_commit_seq = c\<rparr>)
        (seq_codec read_ids (seq_codec read_le64 (seq_codec read_le64 read_le64)) bs)),
     mf_de_v0 = (\<lambda>bs. map_option (\<lambda>((ids, w, f), _).
        \<lparr>v0_sstable_ids = ids, v0_wal_segment_seq = w, v0_writer_fencing_token = f\<rparr>)
        (seq_codec read_ids (seq_codec read_le64 read_le64) bs))\<rparr>"

lemma read_ids_enc:
  "length ids < 2 ^ 64 \<Longrightarrow> list_all (\<lambda>i. i < 2 ^ 64) ids \<Longrightarrow>
   read_ids (le64 (length ids) @ concat (map le64 ids) @ rest) = Some (ids, rest)"
  by (simp add: read_ids_def le64.dec_enc le64.dec_n_enc list_all_iff)

interpretation layout: manifest_codec bincode_layout
proof
  fix m
  assume "manifest_ok m"
  then show "mf_de bincode_layout (mf_ser bincode_layout m) = Some m"
    using read_ids_enc [of "sstable_ids m"] le64.dec_enc [of _ "[]"]
    by (simp add: bincode_layout_def layout_ser_def manifest_ok_def le64.dec_enc)
qed

section \<open>Properties\<close>

text \<open>a manifest revision that was saved is the one loaded next, with the tag the save
  returned, and no failing save changes what is loaded; this holds for every backend that
  satisfies the store's contract, whenever the load itself succeeds.\<close>

theorem manifest_save_load:
  assumes laws: "object_store_laws os contents ok tag_of" and mc: "manifest_codec mc"
    and ok: "ok s" and m: "manifest_ok m" and save: "save_cas mc os m expected s = (s1, r)"
    and load: "manifest_load mc os s1 = (s2, Inr loaded)"
  shows "(\<forall>t. r = Inr t \<longrightarrow> loaded = Some (m, t)) \<and> (isl r \<longrightarrow> contents s1 = contents s)"
proof (cases "os_put_if_match os MANIFEST_KEY (mf_ser mc m) expected s")
  case (Pair s' q)
  show ?thesis
  proof (cases q)
    case (Inl e)
    with Pair save have "s1 = s'" "isl r" by (auto simp: save_cas_def)
    with Pair Inl object_store_laws.cas_failure [OF laws ok, of MANIFEST_KEY "mf_ser mc m" expected s' e]
    show ?thesis by (auto simp: isl_def)
  next
    case (Inr meta)
    with Pair save have r: "s1 = s'" "r = Inr (etag meta)" by (auto simp: save_cas_def)
    from object_store_laws.cas_success [OF laws ok Pair [unfolded Inr]]
    have c: "contents s1 MANIFEST_KEY = Some (mf_ser mc m)" "meta = meta_of tag_of (mf_ser mc m)" "ok s1"
      using r by auto
    obtain v where v: "os_get os MANIFEST_KEY s1 = (s2, Inr v)"
      using load by (auto simp: manifest_load_def split: prod.splits sum.splits option.splits)
    with object_store_laws.get_value [OF laws c(3) v] c have "v = Some (mf_ser mc m, meta)" by simp
    with v load r show ?thesis
      by (simp add: manifest_load_def manifest_decode_def manifest_codec.de_ser [OF mc m])
  qed
qed

text \<open>a manifest written before the commit-sequence field existed still loads: the current
  layout's decoder rejects it and the fallback reads it, with a sequence number of zero.\<close>

theorem manifest_v0_loads:
  assumes "length (v0_sstable_ids v) < 2 ^ 64" "list_all (\<lambda>i. i < 2 ^ 64) (v0_sstable_ids v)"
    "v0_wal_segment_seq v < 2 ^ 64" "v0_writer_fencing_token v < 2 ^ 64"
  shows "manifest_decode bincode_layout (layout_ser_v0 v) = Some (from_v0 v)"
proof -
  have "read_le64 [] = None" by (simp add: read_le64_def)
  with assms show ?thesis
    using read_ids_enc [of "v0_sstable_ids v"] le64.dec_enc [of _ "[]"]
    by (simp add: manifest_decode_def bincode_layout_def layout_ser_v0_def le64.dec_enc from_v0_def)
qed

section \<open>Witnesses\<close>

definition sample_manifest :: manifest where
  "sample_manifest = \<lparr>sstable_ids = [1, 4], wal_segment_seq = 2, writer_fencing_token = 1, max_commit_seq = 17\<rparr>"

theorem manifest_save_load_witness:
  "snd (manifest_load bincode_layout (local_fs_store id)
      (fst (save_cas bincode_layout (local_fs_store id) sample_manifest None (local_open []))))
    = Inr (Some (sample_manifest, sha256_hex id (layout_ser sample_manifest)))"
proof -
  let ?os = "local_fs_store id" and ?c = bincode_layout and ?m = sample_manifest
  let ?r1 = "save_cas ?c ?os ?m None (local_open [])"
  have save: "?r1 = (fst ?r1, Inr (sha256_hex id (layout_ser ?m)))"
    by (simp add: save_cas_def local_fs_store_def local_put_if_match_def local_no_faults local_open_def
        bincode_layout_def)
  have nf: "faults (fst ?r1) = []"
    by (simp add: save_cas_def local_fs_store_def local_put_if_match_def local_no_faults local_open_def)
  have ok: "manifest_ok ?m" by (simp add: manifest_ok_def sample_manifest_def)
  obtain l where load: "manifest_load ?c ?os (fst ?r1) = (fst ?r1, Inr l)"
    using nf ok layout.de_ser [of ?m]
    by (simp add: manifest_load_def manifest_decode_def local_fs_store_def local_no_faults
        save_cas_def local_put_if_match_def local_open_def)
  from manifest_save_load [OF local.object_store_laws_axioms layout.manifest_codec_axioms TrueI ok save load]
  show ?thesis using load by simp
qed

theorem manifest_v0_loads_witness:
  "manifest_decode bincode_layout
     (layout_ser_v0 \<lparr>v0_sstable_ids = [3], v0_wal_segment_seq = 5, v0_writer_fencing_token = 2\<rparr>)
   = Some \<lparr>sstable_ids = [3], wal_segment_seq = 5, writer_fencing_token = 2, max_commit_seq = 0\<rparr>"
  using manifest_v0_loads [of "\<lparr>v0_sstable_ids = [3], v0_wal_segment_seq = 5, v0_writer_fencing_token = 2\<rparr>"]
  by (simp add: from_v0_def)

end
