(* ===== verification/Lease.thy ===== *)
theory Lease
  imports Object_Store
begin

text \<open>
  The write lease (\<open>storage/lease.rs\<close>): acquiring and renewing a lease object by
  compare-and-swap, with a fencing token. The clock readings are arguments, the serialiser
  (bincode) a parameter with the contract \<open>lease_codec\<close>. An acquisition is two accesses
  to the store with other nodes free to act in between, so it is split into the decision on
  what was read and the conditional write; \<open>try_acquire\<close> composes them. The transition
  system at the end interleaves any number of nodes at that granularity.
\<close>

record lease =
  holder_id :: bytes
  fencing_token :: nat
  expires_at_ms :: nat

record lease_handle =
  lh_token :: nat
  lh_valid :: bool

record lease_manager =
  lm_key :: bytes
  lm_holder :: bytes
  lm_ttl :: nat
  lm_handle :: lease_handle
  lm_etag :: "bytes option"

record bincode_lease =
  ls_ser :: "lease \<Rightarrow> bytes"
  ls_de :: "bytes \<Rightarrow> lease option"

locale lease_codec =
  fixes lc :: bincode_lease
  assumes de_ser: "fencing_token l < 2 ^ 64 \<Longrightarrow> expires_at_ms l < 2 ^ 64 \<Longrightarrow> length (holder_id l) < 2 ^ 64
    \<Longrightarrow> ls_de lc (ls_ser lc l) = Some l"

datatype lease_error = LeaseStore store_error | LeaseDecode | LeaseHeld lease | LeaseCas cas_error

definition lease_manager_new :: "bytes \<Rightarrow> bytes \<Rightarrow> nat \<Rightarrow> lease_manager" where
  "lease_manager_new keyspace holder ttl = \<lparr>lm_key = str ''_lease/'' @ keyspace, lm_holder = holder,
     lm_ttl = ttl, lm_handle = \<lparr>lh_token = 0, lh_valid = False\<rparr>, lm_etag = None\<rparr>"

definition set_valid :: "bool \<Rightarrow> lease_manager \<Rightarrow> lease_manager" where
  "set_valid b mgr = mgr\<lparr>lm_handle := (lm_handle mgr)\<lparr>lh_valid := b\<rparr>\<rparr>"

text \<open>The decision on the object read: the tag to expect and the token to write.\<close>

definition acquire_plan ::
  "bincode_lease \<Rightarrow> nat \<Rightarrow> lease_manager \<Rightarrow> (bytes \<times> object_meta) option
    \<Rightarrow> lease_manager \<times> (lease_error + (bytes option \<times> nat))" where
  "acquire_plan lc now mgr current =
     (case current of
        None \<Rightarrow> (mgr, Inr (None, 1))
      | Some (byts, meta) \<Rightarrow>
          (case ls_de lc byts of
             None \<Rightarrow> (mgr, Inl LeaseDecode)
           | Some existing \<Rightarrow>
               (let expired = expires_at_ms existing < now;
                    ours_already = holder_id existing = lm_holder mgr
                in if \<not> expired \<and> \<not> ours_already
                   then (set_valid False mgr, Inl (LeaseHeld existing))
                   else (mgr, Inr (Some (etag meta), (fencing_token existing + 1) mod 2 ^ 64)))))"

definition acquire_commit ::
  "bincode_lease \<Rightarrow> 's object_store \<Rightarrow> nat \<Rightarrow> bytes option \<times> nat \<Rightarrow> lease_manager \<Rightarrow> 's
    \<Rightarrow> lease_manager \<times> 's \<times> (lease_error + unit)" where
  "acquire_commit lc os now plan mgr s =
     (case plan of (expected, next_token) \<Rightarrow>
        let new_lease = \<lparr>holder_id = lm_holder mgr, fencing_token = next_token,
              expires_at_ms = (now + lm_ttl mgr) mod 2 ^ 64\<rparr>
        in case os_put_if_match os (lm_key mgr) (ls_ser lc new_lease) expected s of
             (s', Inr meta) \<Rightarrow>
               (mgr\<lparr>lm_etag := Some (etag meta), lm_handle := \<lparr>lh_token = next_token, lh_valid = True\<rparr>\<rparr>, s', Inr ())
           | (s', Inl e) \<Rightarrow> (set_valid False mgr, s', Inl (LeaseCas e)))"

definition try_acquire ::
  "bincode_lease \<Rightarrow> 's object_store \<Rightarrow> nat \<Rightarrow> nat \<Rightarrow> lease_manager \<Rightarrow> 's
    \<Rightarrow> lease_manager \<times> 's \<times> (lease_error + unit)" where
  "try_acquire lc os now1 now2 mgr s =
     (case os_get os (lm_key mgr) s of
        (s1, Inl e) \<Rightarrow> (mgr, s1, Inl (LeaseStore e))
      | (s1, Inr current) \<Rightarrow>
          (case acquire_plan lc now1 mgr current of
             (mgr', Inl e) \<Rightarrow> (mgr', s1, Inl e)
           | (mgr', Inr plan) \<Rightarrow> acquire_commit lc os now2 plan mgr' s1))"

definition renew ::
  "bincode_lease \<Rightarrow> 's object_store \<Rightarrow> nat \<Rightarrow> nat \<Rightarrow> lease_manager \<Rightarrow> 's
    \<Rightarrow> lease_manager \<times> 's \<times> (lease_error + unit)" where
  "renew lc os now1 now2 mgr s =
     (case lm_etag mgr of
        None \<Rightarrow> try_acquire lc os now1 now2 mgr s
      | Some expected \<Rightarrow>
          (let new_lease = \<lparr>holder_id = lm_holder mgr, fencing_token = lh_token (lm_handle mgr),
                 expires_at_ms = (now1 + lm_ttl mgr) mod 2 ^ 64\<rparr>
           in case os_put_if_match os (lm_key mgr) (ls_ser lc new_lease) (Some expected) s of
                (s', Inr meta) \<Rightarrow> (mgr\<lparr>lm_etag := Some (etag meta)\<rparr>, s', Inr ())
              | (s', Inl e) \<Rightarrow> (set_valid False mgr, s', Inl (LeaseCas e))))"

text \<open>
  The background task: a renewal at every tick, its error logged and dropped.
\<close>

definition renewal_task ::
  "bincode_lease \<Rightarrow> 's object_store \<Rightarrow> (nat \<times> nat) list \<Rightarrow> lease_manager \<times> 's \<Rightarrow> lease_manager \<times> 's" where
  "renewal_task lc os ticks st =
     foldl (\<lambda>(mgr, s) (n1, n2). case renew lc os n1 n2 mgr s of (mgr', s', _) \<Rightarrow> (mgr', s')) st ticks"

section \<open>Nodes sharing a lease\<close>

text \<open>
  Any number of nodes, named by \<open>'n\<close>, over one store. A node may read the lease and
  decide (\<open>plan\<close>), write what it decided (\<open>commit\<close>), or renew; the clocks read are
  arbitrary. \<open>granted\<close> records the successful acquisitions, oldest first.
\<close>

record ('n, 's) lease_system =
  sys_store :: 's
  managers :: "'n \<Rightarrow> lease_manager"
  plans :: "'n \<Rightarrow> (bytes option \<times> nat) option"
  granted :: "('n \<times> nat) list"

inductive lease_step ::
  "bincode_lease \<Rightarrow> 's object_store \<Rightarrow> ('n, 's) lease_system \<Rightarrow> ('n, 's) lease_system \<Rightarrow> bool"
  for lc :: bincode_lease and os :: "'s object_store" where
  plan: "\<lbrakk>os_get os (lm_key (managers sys n)) (sys_store sys) = (s', Inr current);
     acquire_plan lc now (managers sys n) current = (mgr', r)\<rbrakk> \<Longrightarrow>
     lease_step lc os sys (sys\<lparr>sys_store := s', managers := (managers sys)(n := mgr'),
       plans := (plans sys)(n := case r of Inl _ \<Rightarrow> None | Inr p \<Rightarrow> Some p)\<rparr>)"
| commit: "\<lbrakk>plans sys n = Some p;
     acquire_commit lc os now p (managers sys n) (sys_store sys) = (mgr', s', r)\<rbrakk> \<Longrightarrow>
     lease_step lc os sys (sys\<lparr>sys_store := s', managers := (managers sys)(n := mgr'),
       plans := (plans sys)(n := None),
       granted := granted sys @ (case r of Inl _ \<Rightarrow> [] | Inr _ \<Rightarrow> [(n, snd p)])\<rparr>)"
| renew: "\<lbrakk>lm_etag (managers sys n) = Some e;
     renew lc os now now' (managers sys n) (sys_store sys) = (mgr', s', r)\<rbrakk> \<Longrightarrow>
     lease_step lc os sys (sys\<lparr>sys_store := s', managers := (managers sys)(n := mgr')\<rparr>)"

inductive_cases lease_stepE: "lease_step lc os sys sys'"

definition lease_wf :: "lease \<Rightarrow> bool" where
  "lease_wf l \<longleftrightarrow> fencing_token l < 2 ^ 64 \<and> expires_at_ms l < 2 ^ 64 \<and> length (holder_id l) < 2 ^ 64"

text \<open>No two well-formed leases have the same entity tag.\<close>

definition tags_distinct :: "bincode_lease \<Rightarrow> (bytes \<Rightarrow> bytes) \<Rightarrow> bool" where
  "tags_distinct lc tag_of \<longleftrightarrow>
     (\<forall>l l'. lease_wf l \<longrightarrow> lease_wf l' \<longrightarrow> tag_of (ls_ser lc l) = tag_of (ls_ser lc l') \<longrightarrow> l = l')"

definition token_of_store :: "bincode_lease \<Rightarrow> bytes option \<Rightarrow> nat \<Rightarrow> bool" where
  "token_of_store lc c t \<longleftrightarrow> (case c of None \<Rightarrow> t = 0
     | Some b \<Rightarrow> \<exists>l. b = ls_ser lc l \<and> lease_wf l \<and> fencing_token l = t)"

definition manager_inv :: "bincode_lease \<Rightarrow> (bytes \<Rightarrow> bytes) \<Rightarrow> bytes \<Rightarrow> lease_manager \<Rightarrow> bool" where
  "manager_inv lc tag_of key mgr \<longleftrightarrow> lm_key mgr = key \<and> length (lm_holder mgr) < 2 ^ 64
     \<and> (\<forall>e. lm_etag mgr = Some e \<longrightarrow>
          (\<exists>l. e = tag_of (ls_ser lc l) \<and> lease_wf l \<and> fencing_token l = lh_token (lm_handle mgr)))"

definition plan_inv :: "bincode_lease \<Rightarrow> (bytes \<Rightarrow> bytes) \<Rightarrow> bytes option \<times> nat \<Rightarrow> bool" where
  "plan_inv lc tag_of p \<longleftrightarrow> p = (None, 1) \<or>
     (\<exists>l. lease_wf l \<and> p = (Some (tag_of (ls_ser lc l)), (fencing_token l + 1) mod 2 ^ 64))"

definition lease_inv ::
  "bincode_lease \<Rightarrow> ('s \<Rightarrow> bytes \<Rightarrow> bytes option) \<Rightarrow> ('s \<Rightarrow> bool) \<Rightarrow> (bytes \<Rightarrow> bytes) \<Rightarrow> bytes
    \<Rightarrow> ('n, 's) lease_system \<Rightarrow> bool" where
  "lease_inv lc contents ok tag_of key sys \<longleftrightarrow>
     ok (sys_store sys)
     \<and> token_of_store lc (contents (sys_store sys) (path_for key)) (length (granted sys))
     \<and> map snd (granted sys) = [1..<Suc (length (granted sys))]
     \<and> (\<forall>n. manager_inv lc tag_of key (managers sys n))
     \<and> (\<forall>n p. plans sys n = Some p \<longrightarrow> plan_inv lc tag_of p)"

lemma lease_invD:
  assumes "lease_inv lc contents ok tag_of key sys"
  shows "ok (sys_store sys)" "token_of_store lc (contents (sys_store sys) (path_for key)) (length (granted sys))"
    "manager_inv lc tag_of key (managers sys n)" "plans sys n = Some p \<Longrightarrow> plan_inv lc tag_of p"
  using assms unfolding lease_inv_def by blast+

lemma set_valid_simps [simp]:
  "lm_key (set_valid b mgr) = lm_key mgr" "lm_holder (set_valid b mgr) = lm_holder mgr"
  "lm_etag (set_valid b mgr) = lm_etag mgr" "lh_token (lm_handle (set_valid b mgr)) = lh_token (lm_handle mgr)"
  "lh_valid (lm_handle (set_valid b mgr)) = b"
  by (simp_all add: set_valid_def)

lemma manager_inv_set_valid [simp]:
  "manager_inv lc tag_of key (set_valid b mgr) = manager_inv lc tag_of key mgr"
  by (simp add: manager_inv_def)

lemma acquire_plan_keeps: "acquire_plan lc now mgr current = (mgr', r) \<Longrightarrow> mgr' = mgr \<or> mgr' = set_valid False mgr"
  by (auto simp: acquire_plan_def Let_def split: option.splits prod.splits if_splits)

locale lease_nodes = object_store_laws os contents ok tag_of + lease_codec lc
  for os :: "'s object_store" and contents ok tag_of lc +
  assumes distinct_tags: "tags_distinct lc tag_of"
begin

lemma tag_eqD:
  "lease_wf l \<Longrightarrow> lease_wf l' \<Longrightarrow> tag_of (ls_ser lc l) = tag_of (ls_ser lc l') \<Longrightarrow> l = l'"
  using distinct_tags unfolding tags_distinct_def by blast

lemma plan_inv_acquire:
  assumes c: "token_of_store lc c t" and cur: "current = map_option (\<lambda>d. (d, meta_of tag_of d)) c"
    and r: "acquire_plan lc now mgr current = (mgr', Inr p)"
  shows "plan_inv lc tag_of p"
proof (cases c)
  case None
  with cur r show ?thesis by (simp add: acquire_plan_def plan_inv_def)
next
  case (Some b)
  with c obtain l where l: "b = ls_ser lc l" "lease_wf l" by (auto simp: token_of_store_def)
  then have "ls_de lc b = Some l" using de_ser by (simp add: lease_wf_def)
  with cur r Some l show ?thesis
    by (auto simp: acquire_plan_def plan_inv_def Let_def split: if_splits)
qed

text \<open>A conditional write that expects a lease's tag succeeds only over that lease.\<close>

lemma expected_lease:
  assumes "token_of_store lc c t" and "lease_wf l" and "Some (tag_of (ls_ser lc l)) = map_option tag_of c"
  shows "fencing_token l = t"
  using assms tag_eqD by (auto simp: token_of_store_def split: option.splits)

lemma commit_token:
  assumes c: "token_of_store lc c t" and p: "plan_inv lc tag_of p" and m: "fst p = map_option tag_of c"
    and t: "t + 1 < 2 ^ 64"
  shows "snd p = t + 1"
  using p unfolding plan_inv_def
proof
  assume "p = (None, 1)"
  with c m show ?thesis by (auto simp: token_of_store_def split: option.splits)
next
  assume "\<exists>l. lease_wf l \<and> p = (Some (tag_of (ls_ser lc l)), (fencing_token l + 1) mod 2 ^ 64)"
  then obtain l where "lease_wf l" "p = (Some (tag_of (ls_ser lc l)), (fencing_token l + 1) mod 2 ^ 64)" by blast
  with expected_lease [OF c, of l] m t show ?thesis by simp
qed

lemma step_plan:
  assumes inv: "lease_inv lc contents ok tag_of key sys"
    and get: "os_get os (lm_key (managers sys n)) (sys_store sys) = (s', Inr current)"
    and pl: "acquire_plan lc now (managers sys n) current = (mgr', r)"
  shows "lease_inv lc contents ok tag_of key
    (sys\<lparr>sys_store := s', managers := (managers sys)(n := mgr'),
       plans := (plans sys)(n := case r of Inl _ \<Rightarrow> None | Inr p \<Rightarrow> Some p)\<rparr>)"
proof -
  have k: "lm_key (managers sys n) = key" and o: "ok (sys_store sys)"
    using inv by (auto simp: lease_inv_def manager_inv_def)
  from get_value [OF o get] k
  have v: "current = map_option (\<lambda>d. (d, meta_of tag_of d)) (contents (sys_store sys) (path_for key))"
    "contents s' = contents (sys_store sys)" "ok s'" by auto
  have "r = Inr p \<Longrightarrow> plan_inv lc tag_of p" for p
    using plan_inv_acquire [OF lease_invD(2) [OF inv] v(1)] pl by blast
  with inv v acquire_plan_keeps [OF pl] show ?thesis
    by (auto simp: lease_inv_def split: sum.splits)
qed

lemma step_commit:
  assumes inv: "lease_inv lc contents ok tag_of key sys" and p: "plans sys n = Some p"
    and c: "acquire_commit lc os now p (managers sys n) (sys_store sys) = (mgr', s', r)"
    and small: "length (granted sys @ (case r of Inl _ \<Rightarrow> [] | Inr _ \<Rightarrow> [(n, snd p)])) < 2 ^ 64"
  shows "lease_inv lc contents ok tag_of key
    (sys\<lparr>sys_store := s', managers := (managers sys)(n := mgr'), plans := (plans sys)(n := None),
       granted := granted sys @ (case r of Inl _ \<Rightarrow> [] | Inr _ \<Rightarrow> [(n, snd p)])\<rparr>)"
proof -
  let ?mgr = "managers sys n"
  let ?l = "\<lparr>holder_id = lm_holder ?mgr, fencing_token = snd p, expires_at_ms = (now + lm_ttl ?mgr) mod 2 ^ 64\<rparr>"
  have k: "lm_key ?mgr = key" "length (lm_holder ?mgr) < 2 ^ 64" and o: "ok (sys_store sys)"
    and pi: "plan_inv lc tag_of p"
    and st: "token_of_store lc (contents (sys_store sys) (path_for key)) (length (granted sys))"
    using lease_invD [OF inv] p unfolding manager_inv_def by blast+
  obtain q where cas: "os_put_if_match os key (ls_ser lc ?l) (fst p) (sys_store sys) = (s', q)"
    and q: "case q of Inr meta \<Rightarrow> mgr' = ?mgr\<lparr>lm_etag := Some (etag meta),
        lm_handle := \<lparr>lh_token = snd p, lh_valid = True\<rparr>\<rparr> \<and> r = Inr ()
      | Inl e \<Rightarrow> mgr' = set_valid False ?mgr \<and> isl r"
    using c k by (auto simp: acquire_commit_def Let_def split: prod.splits sum.splits)
  show ?thesis
  proof (cases q)
    case (Inl e)
    with cas_failure [OF o cas [unfolded Inl]] q inv show ?thesis
      by (auto simp: lease_inv_def isl_def)
  next
    case (Inr meta)
    from cas_success [OF o cas [unfolded Inr]] have
      s: "fst p = map_option tag_of (contents (sys_store sys) (path_for key))" "meta = meta_of tag_of (ls_ser lc ?l)"
      "contents s' = (contents (sys_store sys))(path_for key \<mapsto> ls_ser lc ?l)" "ok s'" by auto
    from small q Inr have "length (granted sys) + 1 < 2 ^ 64" by simp
    with commit_token [OF st pi s(1)] have t: "snd p = length (granted sys) + 1" by simp
    with small q Inr have wf: "lease_wf ?l" using k by (simp add: lease_wf_def)
    show ?thesis
      using inv q Inr s t wf
      by (auto simp: lease_inv_def manager_inv_def token_of_store_def)
  qed
qed

lemma step_renew:
  assumes inv: "lease_inv lc contents ok tag_of key sys" and e: "lm_etag (managers sys n) = Some e"
    and rn: "renew lc os now now' (managers sys n) (sys_store sys) = (mgr', s', r)"
  shows "lease_inv lc contents ok tag_of key (sys\<lparr>sys_store := s', managers := (managers sys)(n := mgr')\<rparr>)"
proof -
  let ?mgr = "managers sys n"
  let ?l = "\<lparr>holder_id = lm_holder ?mgr, fencing_token = lh_token (lm_handle ?mgr),
      expires_at_ms = (now + lm_ttl ?mgr) mod 2 ^ 64\<rparr>"
  have k: "lm_key ?mgr = key" "length (lm_holder ?mgr) < 2 ^ 64" and o: "ok (sys_store sys)"
    and st: "token_of_store lc (contents (sys_store sys) (path_for key)) (length (granted sys))"
    using inv by (auto simp: lease_inv_def manager_inv_def)
  obtain l where l: "e = tag_of (ls_ser lc l)" "lease_wf l" "fencing_token l = lh_token (lm_handle ?mgr)"
    using inv e by (auto simp: lease_inv_def manager_inv_def)
  obtain q where cas: "os_put_if_match os key (ls_ser lc ?l) (Some e) (sys_store sys) = (s', q)"
    and q: "case q of Inr meta \<Rightarrow> mgr' = ?mgr\<lparr>lm_etag := Some (etag meta)\<rparr> | Inl e \<Rightarrow> mgr' = set_valid False ?mgr"
    using rn k e by (auto simp: renew_def Let_def split: prod.splits sum.splits)
  show ?thesis
  proof (cases q)
    case (Inl x)
    with cas_failure [OF o cas [unfolded Inl]] q inv show ?thesis by (auto simp: lease_inv_def)
  next
    case (Inr meta)
    from cas_success [OF o cas [unfolded Inr]] have
      s: "Some e = map_option tag_of (contents (sys_store sys) (path_for key))" "meta = meta_of tag_of (ls_ser lc ?l)"
      "contents s' = (contents (sys_store sys))(path_for key \<mapsto> ls_ser lc ?l)" "ok s'" by auto
    have t: "fencing_token l = length (granted sys)" using expected_lease [OF st l(2)] l(1) s(1) by simp
    have wf: "lease_wf ?l" using l k by (simp add: lease_wf_def)
    show ?thesis
      using inv q Inr s t wf l
      by (auto simp: lease_inv_def manager_inv_def token_of_store_def)
  qed
qed

lemma step_granted: "lease_step lc os sys sys' \<Longrightarrow> length (granted sys) \<le> length (granted sys')"
  by (erule lease_stepE) auto

lemma step_inv:
  assumes "lease_step lc os sys sys'" and "lease_inv lc contents ok tag_of key sys" and "length (granted sys') < 2 ^ 64"
  shows "lease_inv lc contents ok tag_of key sys'"
  using assms by (elim lease_stepE) (auto intro!: step_plan step_commit step_renew)

lemma reachable_inv:
  assumes "(lease_step lc os)\<^sup>*\<^sup>* sys sys'" and "lease_inv lc contents ok tag_of key sys"
    and "length (granted sys') < 2 ^ 64"
  shows "lease_inv lc contents ok tag_of key sys'"
  using assms by (induction rule: rtranclp_induct) (use step_granted step_inv le_less_trans in blast)+

end

section \<open>The documented layout of a lease\<close>

definition lease_ser :: "lease \<Rightarrow> bytes" where
  "lease_ser l = le64 (length (holder_id l)) @ holder_id l @ le64 (fencing_token l) @ le64 (expires_at_ms l)"

definition read_string :: "bytes \<Rightarrow> (bytes \<times> bytes) option" where
  "read_string bs = (case read_le64 bs of None \<Rightarrow> None
     | Some (n, r) \<Rightarrow> (if length r < n then None else Some (take n r, drop n r)))"

definition lease_layout :: bincode_lease where
  "lease_layout = \<lparr>ls_ser = lease_ser,
     ls_de = (\<lambda>bs. map_option (\<lambda>((h, f, x), _). \<lparr>holder_id = h, fencing_token = f, expires_at_ms = x\<rparr>)
        (seq_codec read_string (seq_codec read_le64 read_le64) bs))\<rparr>"

interpretation lease_layout: lease_codec lease_layout
  by unfold_locales (use le64.dec_enc [of _ "[]"] in
      \<open>simp add: lease_layout_def lease_ser_def read_string_def le64.dec_enc\<close>)

lemma sha256_hex_id_inj: "sha256_hex id x = sha256_hex id y \<Longrightarrow> x = y"
  by (simp add: sha256_hex_def concat_hex2_inj)

lemma lease_layout_distinct: "tags_distinct lease_layout (sha256_hex id)"
  unfolding tags_distinct_def
  by (metis lease_layout.de_ser lease_wf_def option.inject sha256_hex_id_inj)

interpretation nodes: lease_nodes "local_fs_store id" objects "\<lambda>_. True" "sha256_hex id" lease_layout
  by unfold_locales (rule lease_layout_distinct)

section \<open>Properties\<close>

text \<open>An initial system: no lease object, no node has acquired, planned or renewed.\<close>

definition lease_init ::
  "('s \<Rightarrow> bytes \<Rightarrow> bytes option) \<Rightarrow> ('s \<Rightarrow> bool) \<Rightarrow> bytes \<Rightarrow> ('n, 's) lease_system \<Rightarrow> bool" where
  "lease_init contents ok key sys \<longleftrightarrow> ok (sys_store sys) \<and> contents (sys_store sys) (path_for key) = None
     \<and> granted sys = [] \<and> (\<forall>n. lm_key (managers sys n) = key \<and> lm_etag (managers sys n) = None
       \<and> length (lm_holder (managers sys n)) < 2 ^ 64 \<and> plans sys n = None)"

lemma lease_init_inv:
  "lease_init contents ok key sys \<Longrightarrow> lease_inv lc contents ok tag_of key sys"
  by (simp add: lease_init_def lease_inv_def token_of_store_def manager_inv_def)

text \<open>C34: fencing tokens: however any number of nodes interleave their reads, conditional writes and
  renewals over a shared store, with any clocks and any failing operations, the tokens of
  successive acquisitions are 1, 2, 3, ...: every new holder's token exceeds all earlier ones.\<close>

theorem fencing_tokens_increase:
  assumes "object_store_laws os contents ok tag_of" and "lease_codec lc" and "tags_distinct lc tag_of"
    and "lease_init contents ok key sys0" and "(lease_step lc os)\<^sup>*\<^sup>* sys0 sys" and "length (granted sys) < 2 ^ 64"
  shows "map snd (granted sys) = [1..<Suc (length (granted sys))]"
proof -
  have "lease_nodes os contents ok tag_of lc"
    by (intro lease_nodes.intro lease_nodes_axioms.intro assms(1-3))
  from lease_nodes.reachable_inv [OF this assms(5) lease_init_inv [OF assms(4)] assms(6)]
  show ?thesis unfolding lease_inv_def by blast
qed

text \<open>a successful acquisition found no lease, an expired one, or the node's own; it takes the
  next token, stores the new lease and marks the handle valid. While another node's lease is
  current the acquisition is refused, the lease object is untouched and the handle invalid.\<close>

theorem try_acquire_spec:
  assumes laws: "object_store_laws os contents ok tag_of" and ok: "ok s"
    and acq: "try_acquire lc os now1 now2 mgr s = (mgr', s', r)"
  shows "(r = Inr () \<longrightarrow>
      lh_valid (lm_handle mgr') \<and>
      (case contents s (path_for (lm_key mgr)) of
         None \<Rightarrow> lh_token (lm_handle mgr') = 1
       | Some b \<Rightarrow> \<exists>l. ls_de lc b = Some l \<and> (expires_at_ms l < now1 \<or> holder_id l = lm_holder mgr)
           \<and> lh_token (lm_handle mgr') = (fencing_token l + 1) mod 2 ^ 64) \<and>
      contents s' = (contents s)(path_for (lm_key mgr) \<mapsto> ls_ser lc \<lparr>holder_id = lm_holder mgr,
         fencing_token = lh_token (lm_handle mgr'), expires_at_ms = (now2 + lm_ttl mgr) mod 2 ^ 64\<rparr>))
    \<and> (\<forall>l. r = Inl (LeaseHeld l) \<longrightarrow> now1 \<le> expires_at_ms l \<and> holder_id l \<noteq> lm_holder mgr
        \<and> contents s' = contents s \<and> \<not> lh_valid (lm_handle mgr'))"
proof -
  obtain s1 q where get: "os_get os (lm_key mgr) s = (s1, q)" by (cases "os_get os (lm_key mgr) s")
  show ?thesis
  proof (cases q)
    case (Inl e)
    with get acq show ?thesis by (auto simp: try_acquire_def)
  next
    case (Inr current)
    note get = get [unfolded Inr]
    from object_store_laws.get_value [OF laws ok get] have
      cur: "current = map_option (\<lambda>d. (d, meta_of tag_of d)) (contents s (path_for (lm_key mgr)))"
      and s1: "contents s1 = contents s" "ok s1" by auto
    obtain m1 pr where pl: "acquire_plan lc now1 mgr current = (m1, pr)"
      by (cases "acquire_plan lc now1 mgr current")
    show ?thesis
    proof (cases pr)
      case (Inl e)
      with get pl acq s1 show ?thesis
        by (auto simp: try_acquire_def acquire_plan_def Let_def split: option.splits prod.splits if_splits)
    next
      case (Inr plan)
      obtain x n where plan: "plan = (x, n)" by (cases plan)
      have m1: "m1 = mgr"
        using pl Inr by (auto simp: acquire_plan_def Let_def split: option.splits prod.splits if_splits)
      let ?l = "\<lparr>holder_id = lm_holder mgr, fencing_token = n, expires_at_ms = (now2 + lm_ttl mgr) mod 2 ^ 64\<rparr>"
      obtain c where cas: "os_put_if_match os (lm_key mgr) (ls_ser lc ?l) x s1 = (s', c)"
        and c: "case c of Inr meta \<Rightarrow> mgr' = mgr\<lparr>lm_etag := Some (etag meta),
            lm_handle := \<lparr>lh_token = n, lh_valid = True\<rparr>\<rparr> \<and> r = Inr () | Inl e \<Rightarrow> r = Inl (LeaseCas e)"
        using acq get pl Inr plan m1
        by (auto simp: try_acquire_def acquire_commit_def Let_def split: prod.splits sum.splits)
      show ?thesis
      proof (cases c)
        case (Inl e)
        with c show ?thesis by auto
      next
        case ok': (Inr meta)
        from object_store_laws.cas_success [OF laws s1(2) cas [unfolded ok']] s1
        have "contents s' = (contents s)(path_for (lm_key mgr) \<mapsto> ls_ser lc ?l)" by auto
        with c ok' pl Inr plan cur show ?thesis
          by (auto simp: acquire_plan_def Let_def split: option.splits if_splits)
      qed
    qed
  qed
qed

text \<open>a node whose lease was taken over cannot renew: the renewal fails, the new holder's lease
  object stays as it is, and the node is demoted.\<close>

theorem stale_renewal_demotes:
  assumes laws: "object_store_laws os contents ok tag_of" and ok: "ok s"
    and e: "lm_etag mgr = Some e" and stale: "map_option tag_of (contents s (path_for (lm_key mgr))) \<noteq> Some e"
    and rn: "renew lc os now1 now2 mgr s = (mgr', s', r)"
  shows "isl r \<and> \<not> lh_valid (lm_handle mgr') \<and> contents s' = contents s"
proof -
  let ?l = "\<lparr>holder_id = lm_holder mgr, fencing_token = lh_token (lm_handle mgr),
      expires_at_ms = (now1 + lm_ttl mgr) mod 2 ^ 64\<rparr>"
  obtain q where cas: "os_put_if_match os (lm_key mgr) (ls_ser lc ?l) (Some e) s = (s', q)"
    and q: "case q of Inr meta \<Rightarrow> True | Inl e \<Rightarrow> mgr' = set_valid False mgr \<and> isl r"
    using rn e by (auto simp: renew_def Let_def split: prod.splits sum.splits)
  show ?thesis
  proof (cases q)
    case (Inl x)
    with q object_store_laws.cas_failure [OF laws ok cas [unfolded Inl]] show ?thesis by simp
  next
    case (Inr m)
    from object_store_laws.cas_success [OF laws ok cas [unfolded Inr]] stale show ?thesis by simp
  qed
qed

lemma renew_keeps_demotion:
  assumes "renew lc os now1 now2 mgr s = (mgr', s', r)" and "lm_etag mgr \<noteq> None" and "\<not> lh_valid (lm_handle mgr)"
  shows "lm_etag mgr' \<noteq> None \<and> \<not> lh_valid (lm_handle mgr')"
  using assms by (auto simp: renew_def Let_def split: prod.splits sum.splits option.splits)

text \<open>a demotion is permanent. Once a renewal has failed, for instance because the store was
  unreachable for a moment, no later renewal by the background task makes the handle valid
  again, although those renewals succeed and keep every other node from acquiring.\<close>

theorem demotion_is_permanent:
  assumes "lm_etag mgr \<noteq> None" and "\<not> lh_valid (lm_handle mgr)"
  shows "\<not> lh_valid (lm_handle (fst (renewal_task lc os ticks (mgr, s))))"
proof -
  have "lm_etag (fst (renewal_task lc os ticks st)) \<noteq> None
      \<and> \<not> lh_valid (lm_handle (fst (renewal_task lc os ticks st)))"
    if "lm_etag (fst st) \<noteq> None" "\<not> lh_valid (lm_handle (fst st))" for st
    using that
  proof (induction ticks arbitrary: st)
    case Nil
    then show ?case by (simp add: renewal_task_def)
  next
    case (Cons t ticks)
    obtain m s where st: "st = (m, s)" by (cases st)
    obtain n1 n2 where t: "t = (n1, n2)" by (cases t)
    obtain m' s' r where rn: "renew lc os n1 n2 m s = (m', s', r)" by (metis prod_cases3)
    with renew_keeps_demotion [OF rn] Cons.prems st have "lm_etag m' \<noteq> None" "\<not> lh_valid (lm_handle m')" by auto
    with Cons.IH [of "(m', s')"] show ?case by (simp add: renewal_task_def st t rn)
  qed
  from this [of "(mgr, s)"] assms show ?thesis by simp
qed

section \<open>Witnesses\<close>

definition demo_mgr :: "bytes \<Rightarrow> lease_manager" where
  "demo_mgr h = \<lparr>lm_key = [108], lm_holder = h, lm_ttl = 30, lm_handle = \<lparr>lh_token = 0, lh_valid = False\<rparr>,
     lm_etag = None\<rparr>"

definition demo_sys :: "(bool, local_fs) lease_system" where
  "demo_sys = \<lparr>sys_store = local_open [], managers = (\<lambda>n. demo_mgr [if n then 97 else 98]),
     plans = (\<lambda>_. None), granted = []\<rparr>"

lemma local_no_faults_cas:
  assumes "faults s = []"
  shows "local_put_if_match sha256 k d expected s =
    (if expected = map_option (sha256_hex sha256) (objects s (path_for k))
     then (s\<lparr>objects := (objects s)(path_for k \<mapsto> d)\<rparr>, Inr (meta_of (sha256_hex sha256) d))
     else (s, Inl (Conflict (map_option (sha256_hex sha256) (objects s (path_for k))))))"
  using assms by (auto simp: local_put_if_match_def local_no_faults Let_def split: option.splits)

lemmas lease_eval = local_fs_store_def local_no_faults local_no_faults_cas local_open_def demo_sys_def demo_mgr_def
  acquire_plan_def acquire_commit_def Let_def

theorem fencing_tokens_increase_witness:
  "\<exists>sys. (lease_step lease_layout (local_fs_store id))\<^sup>*\<^sup>* demo_sys sys
     \<and> granted sys = [(True, 1)] \<and> map snd (granted sys) = [1..<Suc (length (granted sys))]"
proof -
  let ?os = "local_fs_store id"
  let ?s1 = "demo_sys\<lparr>plans := (plans demo_sys)(True := Some (None, 1))\<rparr>"
  have "lease_step lease_layout ?os demo_sys (demo_sys\<lparr>sys_store := local_open [],
      managers := (managers demo_sys)(True := demo_mgr [97]),
      plans := (plans demo_sys)(True := case (Inr (None, 1) :: lease_error + (bytes option \<times> nat)) of Inl _ \<Rightarrow> None | Inr p \<Rightarrow> Some p)\<rparr>)"
    by (rule lease_step.plan [where sys = demo_sys and n = True and r = "Inr (None, 1)" and current = None and now = 5])
      (simp_all add: lease_eval)
  moreover have "(managers demo_sys)(True := demo_mgr [97]) = managers demo_sys" by (simp add: demo_sys_def fun_eq_iff)
  ultimately have step1: "lease_step lease_layout ?os demo_sys ?s1"
    by (simp add: demo_sys_def)
  obtain m' s' where c: "acquire_commit lease_layout ?os 5 (None, 1) (managers ?s1 True) (sys_store ?s1) = (m', s', Inr ())"
    by (simp add: lease_eval)
  let ?s2 = "?s1\<lparr>sys_store := s', managers := (managers ?s1)(True := m'), plans := (plans ?s1)(True := None),
      granted := granted ?s1 @ (case (Inr () :: lease_error + unit) of Inl _ \<Rightarrow> []
        | Inr _ \<Rightarrow> [(True, snd (None :: bytes option, 1))])\<rparr>"
  have "lease_step lease_layout ?os ?s1 ?s2" by (rule lease_step.commit [OF _ c]) simp
  with step1 have run: "(lease_step lease_layout ?os)\<^sup>*\<^sup>* demo_sys ?s2" by (meson converse_rtranclp_into_rtranclp r_into_rtranclp)
  have g: "granted ?s2 = [(True, 1)]" by (simp add: demo_sys_def)
  have init: "lease_init objects (\<lambda>_. True) [108] demo_sys" by (simp add: lease_init_def demo_sys_def demo_mgr_def local_open_def)
  have "length (granted ?s2) < 2 ^ 64" using g by simp
  from fencing_tokens_increase [OF local.object_store_laws_axioms lease_layout.lease_codec_axioms
      lease_layout_distinct init run this] run g
  show ?thesis by blast
qed

definition demo_held :: local_fs where
  "demo_held = fst (snd (try_acquire lease_layout (local_fs_store id) 5 5 (demo_mgr [97]) (local_open [])))"

lemma demo_held_eq:
  "demo_held = \<lparr>objects = [[108] \<mapsto> lease_ser \<lparr>holder_id = [97], fencing_token = 1, expires_at_ms = 35\<rparr>], faults = []\<rparr>"
  by (simp add: demo_held_def try_acquire_def lease_eval lease_layout_def)

lemma demo_held_decode:
  "ls_de lease_layout (lease_ser \<lparr>holder_id = [97], fencing_token = 1, expires_at_ms = 35\<rparr>)
    = Some \<lparr>holder_id = [97], fencing_token = 1, expires_at_ms = 35\<rparr>"
  using lease_layout.de_ser [of "\<lparr>holder_id = [97], fencing_token = 1, expires_at_ms = 35\<rparr>"]
  by (simp add: lease_layout_def)

theorem try_acquire_spec_witness:
  "lh_token (lm_handle (fst (try_acquire lease_layout (local_fs_store id) 36 36 (demo_mgr [98]) demo_held))) = 2
   \<and> snd (snd (try_acquire lease_layout (local_fs_store id) 20 20 (demo_mgr [98]) demo_held))
     = Inl (LeaseHeld \<lparr>holder_id = [97], fencing_token = 1, expires_at_ms = 35\<rparr>)
   \<and> \<not> lh_valid (lm_handle (fst (try_acquire lease_layout (local_fs_store id) 20 20 (demo_mgr [98]) demo_held)))"
proof -
  let ?os = "local_fs_store id"
  let ?a = "try_acquire lease_layout ?os 36 36 (demo_mgr [98]) demo_held"
  let ?b = "try_acquire lease_layout ?os 20 20 (demo_mgr [98]) demo_held"
  note ev = try_acquire_def lease_eval demo_held_eq demo_held_decode [simplified]
  have a: "?a = (fst ?a, fst (snd ?a), Inr ())" by (simp add: ev)
  have b: "?b = (fst ?b, fst (snd ?b), Inl (LeaseHeld \<lparr>holder_id = [97], fencing_token = 1, expires_at_ms = 35\<rparr>))"
    by (simp add: ev)
  note A = try_acquire_spec [OF local.object_store_laws_axioms TrueI a]
  note B = try_acquire_spec [OF local.object_store_laws_axioms TrueI b]
  have "lh_token (lm_handle (fst ?a)) = 2"
    using A by (simp add: demo_held_eq demo_mgr_def demo_held_decode [simplified])
  moreover have "\<not> lh_valid (lm_handle (fst ?b))" using B by blast
  ultimately show ?thesis using b by (metis snd_conv)
qed

theorem stale_renewal_demotes_witness:
  "isl (snd (snd (renew lease_layout (local_fs_store id) 9 9 ((demo_mgr [98])\<lparr>lm_etag := Some []\<rparr>) demo_held)))"
proof -
  let ?m = "(demo_mgr [98])\<lparr>lm_etag := Some []\<rparr>"
  let ?r = "renew lease_layout (local_fs_store id) 9 9 ?m demo_held"
  have r: "?r = (fst ?r, fst (snd ?r), snd (snd ?r))" by simp
  have "map_option (sha256_hex id) (objects demo_held (path_for (lm_key ?m))) \<noteq> Some []"
  proof -
    have "0 < length (lease_ser l)" for l by (simp add: lease_ser_def le64_def)
    then have "sha256_hex id (lease_ser l) \<noteq> []" for l
      by (cases "lease_ser l") (auto simp: sha256_hex_def hex2_def)
    then show ?thesis by (simp add: demo_held_eq demo_mgr_def)
  qed
  from stale_renewal_demotes [OF local.object_store_laws_axioms TrueI _ this r] show ?thesis by simp
qed

theorem demotion_is_permanent_witness:
  "\<not> lh_valid (lm_handle (fst (renewal_task lease_layout (local_fs_store id) [(6, 6), (16, 16), (26, 26)]
      ((demo_mgr [97])\<lparr>lm_etag := Some (sha256_hex id (lease_ser \<lparr>holder_id = [97], fencing_token = 0,
         expires_at_ms = 35\<rparr>))\<rparr>, demo_held))))"
  by (rule demotion_is_permanent) (simp_all add: demo_mgr_def)

end
