(* ===== verification/Lsm.thy ===== *)
theory Lsm
  imports Mem_Table Wal Manifest Lease
begin

text \<open>
  The LSM engine (\<open>storage/lsm.rs\<close>). The two mutexes delimit the atomic steps: every
  public method that takes the write lock is one function on the engine's state, and a flush
  or a compaction is three of them (begin, finish without any lock, commit), between which
  other methods may run. The parameters of the environment are the crates the engine calls
  (bloom filter, skip list, object store, serialiser) and the two environment variables. The
  lease handle is shared with the lease manager: the engine only reads it. Reading and
  truncating the local log file is taken not to fail.
\<close>

definition MEMTABLE_MAX_SIZE :: nat where
  "MEMTABLE_MAX_SIZE = 4 * 1024 * 1024"

definition DEFAULT_SST_SHARD_COUNT :: nat where
  "DEFAULT_SST_SHARD_COUNT = 256"

definition DEFAULT_COMPACTION_SSTABLE_THRESHOLD :: nat where
  "DEFAULT_COMPACTION_SSTABLE_THRESHOLD = 4"

record ('b, 'm, 's) lsm_env =
  env_bloom :: "'b bloom_ops"
  env_skip :: "'m skip_map_ops"
  env_store :: "'s object_store"
  env_manifest :: bincode_manifest
  env_shard_count :: "nat option"
  env_threshold :: "nat option"

section \<open>Object keys\<close>

fun hex_digits :: "nat \<Rightarrow> bytes" where
  "hex_digits n = (if n < 16 then [hex_digit n] else hex_digits (n div 16) @ [hex_digit (n mod 16)])"

declare hex_digits.simps [simp del]

text \<open>
  \<open>floor (log10 x) + 1\<close> is the number of decimal digits of \<open>x\<close>.
\<close>

definition sst_shard :: "nat option \<Rightarrow> nat \<Rightarrow> bytes" where
  "sst_shard shard_count ident =
     (let n = (case shard_count of Some c \<Rightarrow> c | None \<Rightarrow> DEFAULT_SST_SHARD_COUNT) in
      if n \<le> 1 then []
      else let width = length (dec_digits (max (n - 1) 1));
               shard = (ident mod n) mod 2 ^ 32
           in pad0 width (hex_digits shard) @ str ''/'')"

definition sstable_key :: "nat option \<Rightarrow> nat \<Rightarrow> bytes" where
  "sstable_key shard_count ident = str ''sst/'' @ sst_shard shard_count ident @ pad0 20 (dec_digits ident)"

definition wal_segment_key :: "nat option \<Rightarrow> nat \<Rightarrow> bytes" where
  "wal_segment_key shard_count ident =
     str ''wal/'' @ sst_shard shard_count ident @ str ''seg_'' @ pad0 20 (dec_digits ident)"

definition compaction_sstable_threshold :: "nat option \<Rightarrow> nat" where
  "compaction_sstable_threshold t = (case t of Some n \<Rightarrow> n | None \<Rightarrow> DEFAULT_COMPACTION_SSTABLE_THRESHOLD)"

section \<open>State\<close>

record pending_flush =
  pf_entries :: "entry list"
  pf_sstable_id :: nat
  pf_sst_key :: bytes

record 'b pending_compaction =
  pc_sstables :: "'b sstable list"
  pc_watermark :: nat
  pc_new_id :: nat
  pc_new_key :: bytes

record write_state =
  ws_wal :: wal
  ws_sstable_id :: nat
  ws_wal_seg_id :: nat
  ws_manifest_etag :: "bytes option"
  ws_committed_wal_segment_seq :: nat
  ws_next_commit_seq :: nat
  ws_open_snapshots :: "(nat \<times> nat) list"

record ('b, 'm) engine_view =
  ev_memtable :: "'m mem_table"
  ev_immutable :: "'m mem_table option"
  ev_sstables :: "'b sstable list"

record ('b, 'm, 's) lsm_engine =
  lsm_write :: write_state
  lsm_view :: "('b, 'm) engine_view"
  lsm_store :: 's
  lsm_lease :: lease_handle

datatype lsm_error =
    LsmFenced
  | LsmWal wal_error
  | LsmSst sst_error
  | LsmStore store_error
  | LsmManifest manifest_error
  | LsmCas cas_error

text \<open>\<open>u64\<close> increment and decrement.\<close>

definition inc64 :: "nat \<Rightarrow> nat" where
  "inc64 n = (n + 1) mod 2 ^ 64"

definition dec64 :: "nat \<Rightarrow> nat" where
  "dec64 n = (n + (2 ^ 64 - 1)) mod 2 ^ 64"

section \<open>Opening\<close>

definition replay_insert :: "'m skip_map_ops \<Rightarrow> 'm mem_table \<Rightarrow> wal_record \<Rightarrow> 'm mem_table" where
  "replay_insert sm mt r = mt_insert sm (wr_key r) (wr_seq r) (wr_value r) (wr_type r) mt"

text \<open>The loop over the manifest's table ids; a table that fails to load is skipped.\<close>

fun load_sstables ::
  "('b, 'm, 's) lsm_env \<Rightarrow> nat list \<Rightarrow> 's \<Rightarrow> 's \<times> 'b sstable list \<times> nat" where
  "load_sstables env [] s = (s, [], 0)"
| "load_sstables env (i # ids) s =
     (case open_from_store (env_bloom env) (env_store env) (sstable_key (env_shard_count env) i) i s of
        (s', Inl _) \<Rightarrow> load_sstables env ids s'
      | (s', Inr sst) \<Rightarrow>
          (case load_sstables env ids s' of (s'', ssts, m) \<Rightarrow> (s'', sst # ssts, max (sst_max_seq sst) m)))"

definition lsm_open ::
  "('b, 'm, 's) lsm_env \<Rightarrow> bytes \<Rightarrow> 's \<Rightarrow> lease_handle \<Rightarrow> 's \<times> (lsm_error + ('b, 'm, 's) lsm_engine)" where
  "lsm_open env wal_file s lease =
     (let w = wal_open wal_file;
          memtable0 = mt_new (env_skip env) MEMTABLE_MAX_SIZE
      in case replay w of (records, wal_max_seq) \<Rightarrow>
        let memtable = foldl (replay_insert (env_skip env)) memtable0 records in
        (case manifest_load (env_manifest env) (env_store env) s of
           (s1, Inl e) \<Rightarrow> (s1, Inl (LsmManifest e))
         | (s1, Inr loaded) \<Rightarrow>
             (let m = (case loaded of Some (m, _) \<Rightarrow> m | None \<Rightarrow> manifest_default);
                  manifest_etag = map_option snd loaded
              in case load_sstables env (sstable_ids m) s1 of (s2, ssts, sstable_max_seq) \<Rightarrow>
                (s2, Inr \<lparr>lsm_write = \<lparr>ws_wal = w,
                     ws_sstable_id = (if sstable_ids m = [] then 1 else inc64 (Max (set (sstable_ids m)))),
                     ws_wal_seg_id = inc64 (wal_segment_seq m),
                     ws_manifest_etag = manifest_etag,
                     ws_committed_wal_segment_seq = wal_segment_seq m,
                     ws_next_commit_seq = inc64 (max (max wal_max_seq sstable_max_seq) (max_commit_seq m)),
                     ws_open_snapshots = []\<rparr>,
                   lsm_view = \<lparr>ev_memtable = memtable, ev_immutable = None,
                     ev_sstables = sort_key sst_id ssts\<rparr>,
                   lsm_store = s2, lsm_lease = lease\<rparr>))))"

section \<open>Snapshots\<close>

definition current_seq :: "('b, 'm, 's) lsm_engine \<Rightarrow> nat" where
  "current_seq eng = dec64 (ws_next_commit_seq (lsm_write eng))"

definition count_snapshot :: "nat \<Rightarrow> (nat \<times> nat) list \<Rightarrow> (nat \<times> nat) list" where
  "count_snapshot q snaps =
     bt_insert q (((case bt_get snaps q of Some c \<Rightarrow> c | None \<Rightarrow> 0) + 1) mod 2 ^ 32) snaps"

definition register_snapshot :: "nat \<Rightarrow> ('b, 'm, 's) lsm_engine \<Rightarrow> ('b, 'm, 's) lsm_engine" where
  "register_snapshot q eng =
     eng\<lparr>lsm_write := (lsm_write eng)\<lparr>ws_open_snapshots :=
       count_snapshot q (ws_open_snapshots (lsm_write eng))\<rparr>\<rparr>"

definition snapshot_now :: "('b, 'm, 's) lsm_engine \<Rightarrow> ('b, 'm, 's) lsm_engine \<times> nat" where
  "snapshot_now eng =
     (let q = dec64 (ws_next_commit_seq (lsm_write eng)) in (register_snapshot q eng, q))"

text \<open>The count is a \<open>u32\<close>: taking one from 0 wraps around.\<close>

definition dec32 :: "nat \<Rightarrow> nat" where
  "dec32 n = (if n = 0 then 2 ^ 32 - 1 else n - 1)"

definition release_snapshot :: "nat \<Rightarrow> ('b, 'm, 's) lsm_engine \<Rightarrow> ('b, 'm, 's) lsm_engine" where
  "release_snapshot q eng =
     (let snaps = ws_open_snapshots (lsm_write eng) in
      case bt_get snaps q of
        None \<Rightarrow> eng
      | Some c \<Rightarrow>
          eng\<lparr>lsm_write := (lsm_write eng)\<lparr>ws_open_snapshots :=
            (if dec32 c = 0 then bt_remove q snaps else bt_insert q (dec32 c) snaps)\<rparr>\<rparr>)"

section \<open>Flushing\<close>

definition begin_flush ::
  "('b, 'm, 's) lsm_env \<Rightarrow> ('b, 'm, 's) lsm_engine \<Rightarrow> ('b, 'm, 's) lsm_engine \<times> (lsm_error + pending_flush option)" where
  "begin_flush env eng =
     (if \<not> lh_valid (lsm_lease eng) then (eng, Inl LsmFenced)
      else
        let old_view = lsm_view eng;
            eng1 = eng\<lparr>lsm_view := \<lparr>ev_memtable = mt_new (env_skip env) MEMTABLE_MAX_SIZE,
               ev_immutable = Some (ev_memtable old_view), ev_sstables = ev_sstables old_view\<rparr>\<rparr>;
            entries = mt_to_entries (env_skip env) (ev_memtable old_view)
        in if entries = [] then (eng1, Inr None)
           else
             let i = ws_sstable_id (lsm_write eng1) in
             (eng1\<lparr>lsm_write := (lsm_write eng1)\<lparr>ws_sstable_id := inc64 i\<rparr>\<rparr>,
              Inr (Some \<lparr>pf_entries = entries, pf_sstable_id = i,
                pf_sst_key = sstable_key (env_shard_count env) i\<rparr>)))"

definition finish_flush ::
  "('b, 'm, 's) lsm_env \<Rightarrow> pending_flush \<Rightarrow> ('b, 'm, 's) lsm_engine
    \<Rightarrow> ('b, 'm, 's) lsm_engine \<times> (lsm_error + 'b sstable)" where
  "finish_flush env p eng =
     (case create_in_store (env_bloom env) (env_store env) (pf_sst_key p) (pf_sstable_id p) (pf_entries p)
             (lsm_store eng) of
        (s', Inl e) \<Rightarrow> (eng\<lparr>lsm_store := s'\<rparr>, Inl (LsmSst e))
      | (s', Inr sst) \<Rightarrow> (eng\<lparr>lsm_store := s'\<rparr>, Inr sst))"

definition begin_compact ::
  "('b, 'm, 's) lsm_env \<Rightarrow> ('b, 'm, 's) lsm_engine
    \<Rightarrow> ('b, 'm, 's) lsm_engine \<times> (lsm_error + 'b pending_compaction option)" where
  "begin_compact env eng =
     (let view = lsm_view eng in
      if length (ev_sstables view) < 2 then (eng, Inr None)
      else if \<not> lh_valid (lsm_lease eng) then (eng, Inl LsmFenced)
      else
        let ws = lsm_write eng;
            watermark = (case ws_open_snapshots ws of [] \<Rightarrow> u64_max | (q, _) # _ \<Rightarrow> q);
            new_id = ws_sstable_id ws
        in (eng\<lparr>lsm_write := ws\<lparr>ws_sstable_id := inc64 new_id\<rparr>\<rparr>,
            Inr (Some \<lparr>pc_sstables = ev_sstables view, pc_watermark = watermark, pc_new_id = new_id,
              pc_new_key = sstable_key (env_shard_count env) new_id\<rparr>)))"

text \<open>
  The three effects of a commit before the view changes: ship the log segment, then save the
  manifest by compare-and-swap; each may fail.
\<close>

definition commit_flush ::
  "('b, 'm, 's) lsm_env \<Rightarrow> pending_flush \<Rightarrow> 'b sstable \<Rightarrow> ('b, 'm, 's) lsm_engine
    \<Rightarrow> ('b, 'm, 's) lsm_engine \<times> (lsm_error + 'b pending_compaction option)" where
  "commit_flush env p sst eng =
     (let ws = lsm_write eng;
          wal_bytes = read_all_bytes (ws_wal ws);
          (s1, shipped) =
            (if wal_bytes = [] then (lsm_store eng, Inr ())
             else case os_put (env_store env) (wal_segment_key (env_shard_count env) (ws_wal_seg_id ws)) wal_bytes
                         (lsm_store eng) of
                    (s', Inl e) \<Rightarrow> (s', Inl e) | (s', Inr _) \<Rightarrow> (s', Inr ()))
      in case shipped of
           Inl e \<Rightarrow> (eng\<lparr>lsm_store := s1\<rparr>, Inl (LsmStore e))
         | Inr _ \<Rightarrow>
             (let current_view = lsm_view eng;
                  new_manifest = \<lparr>sstable_ids = map sst_id (ev_sstables current_view) @ [pf_sstable_id p],
                    wal_segment_seq = ws_wal_seg_id ws, writer_fencing_token = lh_token (lsm_lease eng),
                    max_commit_seq = dec64 (ws_next_commit_seq ws)\<rparr>
              in case save_cas (env_manifest env) (env_store env) new_manifest (ws_manifest_etag ws) s1 of
                   (s2, Inl e) \<Rightarrow> (eng\<lparr>lsm_store := s2\<rparr>, Inl (LsmCas e))
                 | (s2, Inr new_etag) \<Rightarrow>
                     (let new_sstables = ev_sstables current_view @ [sst];
                          eng1 = eng\<lparr>lsm_store := s2,
                            lsm_view := current_view\<lparr>ev_immutable := None, ev_sstables := new_sstables\<rparr>,
                            lsm_write := ws\<lparr>ws_manifest_etag := Some new_etag,
                              ws_committed_wal_segment_seq := ws_wal_seg_id ws,
                              ws_wal_seg_id := inc64 (ws_wal_seg_id ws),
                              ws_wal := wal_truncate (ws_wal ws)\<rparr>\<rparr>
                      in if compaction_sstable_threshold (env_threshold env) \<le> length new_sstables
                         then begin_compact env eng1
                         else (eng1, Inr None))))"

section \<open>Compacting\<close>

definition group_version ::
  "(bytes \<times> (nat \<times> byte \<times> bytes option) list) list \<Rightarrow> version
    \<Rightarrow> (bytes \<times> (nat \<times> byte \<times> bytes option) list) list" where
  "group_version by_key v =
     (case v of (key, q, tg, val) \<Rightarrow>
        bt_insert key ((case bt_get by_key key of Some vs \<Rightarrow> vs | None \<Rightarrow> []) @ [(q, tg, val)]) by_key)"

fun group_sstables ::
  "'b sstable list \<Rightarrow> (bytes \<times> (nat \<times> byte \<times> bytes option) list) list
    \<Rightarrow> sst_error + (bytes \<times> (nat \<times> byte \<times> bytes option) list) list" where
  "group_sstables [] by_key = Inr by_key"
| "group_sstables (sst # ssts) by_key =
     attempt (scan_all_versions sst) (\<lambda>vs. group_sstables ssts (foldl group_version by_key vs))"

fun retain_versions :: "nat \<Rightarrow> bytes \<Rightarrow> (nat \<times> byte \<times> bytes option) list \<Rightarrow> entry list" where
  "retain_versions watermark key [] = []"
| "retain_versions watermark key ((q, tg, val) # vs) =
     (if watermark \<le> q then
        (InternalKey key q tg, case val of Some v \<Rightarrow> v | None \<Rightarrow> []) # retain_versions watermark key vs
      else if \<not> (watermark = u64_max \<and> tg = DELETE_TAG) then
        [(InternalKey key q tg, case val of Some v \<Rightarrow> v | None \<Rightarrow> [])]
      else [])"

definition compact_entries :: "nat \<Rightarrow> (bytes \<times> (nat \<times> byte \<times> bytes option) list) list \<Rightarrow> entry list" where
  "compact_entries watermark by_key =
     sort_key fst (concat (map (\<lambda>(key, vs). retain_versions watermark key (sort_key (\<lambda>v. - int (fst v)) vs)) by_key))"

definition finish_compact ::
  "('b, 'm, 's) lsm_env \<Rightarrow> 'b pending_compaction \<Rightarrow> ('b, 'm, 's) lsm_engine
    \<Rightarrow> ('b, 'm, 's) lsm_engine \<times> (lsm_error + 'b sstable)" where
  "finish_compact env pc eng =
     (case group_sstables (pc_sstables pc) [] of
        Inl e \<Rightarrow> (eng, Inl (LsmSst e))
      | Inr by_key \<Rightarrow>
          (case create_in_store (env_bloom env) (env_store env) (pc_new_key pc) (pc_new_id pc)
                  (compact_entries (pc_watermark pc) by_key) (lsm_store eng) of
             (s', Inl e) \<Rightarrow> (eng\<lparr>lsm_store := s'\<rparr>, Inl (LsmSst e))
           | (s', Inr sst) \<Rightarrow> (eng\<lparr>lsm_store := s'\<rparr>, Inr sst)))"

definition delete_objects :: "'s object_store \<Rightarrow> bytes list \<Rightarrow> 's \<Rightarrow> 's" where
  "delete_objects os ks s = foldl (\<lambda>s k. fst (os_delete os k s)) s ks"

definition commit_compact ::
  "('b, 'm, 's) lsm_env \<Rightarrow> 'b pending_compaction \<Rightarrow> 'b sstable \<Rightarrow> ('b, 'm, 's) lsm_engine
    \<Rightarrow> ('b, 'm, 's) lsm_engine \<times> (lsm_error + unit)" where
  "commit_compact env pc new_sst eng =
     (let ws = lsm_write eng;
          consumed_ids = map sst_id (pc_sstables pc);
          current_view = lsm_view eng;
          new_sstables = filter (\<lambda>t. sst_id t \<notin> set consumed_ids) (ev_sstables current_view) @ [new_sst];
          new_manifest = \<lparr>sstable_ids = map sst_id new_sstables,
            wal_segment_seq = ws_committed_wal_segment_seq ws, writer_fencing_token = lh_token (lsm_lease eng),
            max_commit_seq = dec64 (ws_next_commit_seq ws)\<rparr>
      in case save_cas (env_manifest env) (env_store env) new_manifest (ws_manifest_etag ws) (lsm_store eng) of
           (s1, Inl e) \<Rightarrow> (eng\<lparr>lsm_store := s1\<rparr>, Inl (LsmCas e))
         | (s1, Inr new_etag) \<Rightarrow>
             (eng\<lparr>lsm_write := ws\<lparr>ws_manifest_etag := Some new_etag\<rparr>,
                lsm_view := current_view\<lparr>ev_sstables := new_sstables\<rparr>,
                lsm_store := delete_objects (env_store env) (map sst_key (pc_sstables pc)) s1\<rparr>, Inr ()))"

definition run_compaction ::
  "('b, 'm, 's) lsm_env \<Rightarrow> 'b pending_compaction option \<Rightarrow> ('b, 'm, 's) lsm_engine
    \<Rightarrow> ('b, 'm, 's) lsm_engine \<times> (lsm_error + unit)" where
  "run_compaction env pending eng =
     (case pending of
        None \<Rightarrow> (eng, Inr ())
      | Some pc \<Rightarrow>
          (case finish_compact env pc eng of
             (eng', Inl e) \<Rightarrow> (eng', Inl e)
           | (eng', Inr sst) \<Rightarrow> commit_compact env pc sst eng'))"

definition compact_all ::
  "('b, 'm, 's) lsm_env \<Rightarrow> ('b, 'm, 's) lsm_engine \<Rightarrow> ('b, 'm, 's) lsm_engine \<times> (lsm_error + unit)" where
  "compact_all env eng =
     (case begin_compact env eng of
        (eng', Inl e) \<Rightarrow> (eng', Inl e)
      | (eng', Inr pending) \<Rightarrow> run_compaction env pending eng')"

definition lsm_flush ::
  "('b, 'm, 's) lsm_env \<Rightarrow> ('b, 'm, 's) lsm_engine \<Rightarrow> ('b, 'm, 's) lsm_engine \<times> (lsm_error + unit)" where
  "lsm_flush env eng =
     (case begin_flush env eng of
        (eng1, Inl e) \<Rightarrow> (eng1, Inl e)
      | (eng1, Inr None) \<Rightarrow> (eng1, Inr ())
      | (eng1, Inr (Some p)) \<Rightarrow>
          (case finish_flush env p eng1 of
             (eng2, Inl e) \<Rightarrow> (eng2, Inl e)
           | (eng2, Inr sst) \<Rightarrow>
               (case commit_flush env p sst eng2 of
                  (eng3, Inl e) \<Rightarrow> (eng3, Inl e)
                | (eng3, Inr pc) \<Rightarrow> run_compaction env pc eng3)))"

section \<open>Writing\<close>

type_synonym write_entry = "bytes \<times> bytes \<times> bytes option"

definition wal_entry_of :: "write_entry \<Rightarrow> wal_entry" where
  "wal_entry_of e =
     (case e of (table, key, Some v) \<Rightarrow> (table, key, v, PUT_TAG)
      | (table, key, None) \<Rightarrow> (table, key, [], DELETE_TAG))"

definition insert_entry :: "'m skip_map_ops \<Rightarrow> nat \<Rightarrow> 'm mem_table \<Rightarrow> write_entry \<Rightarrow> 'm mem_table" where
  "insert_entry sm commit_seq mt e =
     (case e of (_, key, Some v) \<Rightarrow> mt_insert sm key commit_seq v PUT_TAG mt
      | (_, key, None) \<Rightarrow> mt_insert sm key commit_seq [] DELETE_TAG mt)"

definition write_batch ::
  "('b, 'm, 's) lsm_env \<Rightarrow> io_outcome \<Rightarrow> write_entry list \<Rightarrow> ('b, 'm, 's) lsm_engine
    \<Rightarrow> ('b, 'm, 's) lsm_engine \<times> (lsm_error + (nat \<times> pending_flush option))" where
  "write_batch env out entries eng =
     (let ws = lsm_write eng;
          commit_seq = ws_next_commit_seq ws;
          ws1 = ws\<lparr>ws_next_commit_seq := inc64 commit_seq\<rparr>
      in case append_batch out commit_seq (map wal_entry_of entries) (ws_wal ws1) of
           (w, Inl e) \<Rightarrow> (eng\<lparr>lsm_write := ws1\<lparr>ws_wal := w\<rparr>\<rparr>, Inl (LsmWal e))
         | (w, Inr _) \<Rightarrow>
             (let view = lsm_view eng;
                  mt = foldl (insert_entry (env_skip env) commit_seq) (ev_memtable view) entries;
                  eng1 = eng\<lparr>lsm_write := ws1\<lparr>ws_wal := w\<rparr>, lsm_view := view\<lparr>ev_memtable := mt\<rparr>\<rparr>
              in if mt_is_full mt then
                   (case begin_flush env eng1 of
                      (eng2, Inl e) \<Rightarrow> (eng2, Inl e)
                    | (eng2, Inr pending) \<Rightarrow> (eng2, Inr (commit_seq, pending)))
                 else (eng1, Inr (commit_seq, None))))"

definition lsm_put ::
  "('b, 'm, 's) lsm_env \<Rightarrow> io_outcome \<Rightarrow> bytes \<Rightarrow> bytes \<Rightarrow> bytes \<Rightarrow> ('b, 'm, 's) lsm_engine
    \<Rightarrow> ('b, 'm, 's) lsm_engine \<times> (lsm_error + pending_flush option)" where
  "lsm_put env out table key val eng =
     (case write_batch env out [(table, key, Some val)] eng of
        (eng', Inl e) \<Rightarrow> (eng', Inl e) | (eng', Inr (_, pending)) \<Rightarrow> (eng', Inr pending))"

definition lsm_delete ::
  "('b, 'm, 's) lsm_env \<Rightarrow> io_outcome \<Rightarrow> bytes \<Rightarrow> bytes \<Rightarrow> ('b, 'm, 's) lsm_engine
    \<Rightarrow> ('b, 'm, 's) lsm_engine \<times> (lsm_error + pending_flush option)" where
  "lsm_delete env out table key eng =
     (case write_batch env out [(table, key, None)] eng of
        (eng', Inl e) \<Rightarrow> (eng', Inl e) | (eng', Inr (_, pending)) \<Rightarrow> (eng', Inr pending))"

section \<open>Reading\<close>

fun read_sstables :: "'b bloom_ops \<Rightarrow> 'b sstable list \<Rightarrow> bytes \<Rightarrow> nat \<Rightarrow> sst_error + bytes option" where
  "read_sstables bl [] key snapshot_seq = Inr None"
| "read_sstables bl (sst # ssts) key snapshot_seq =
     attempt (sst_read_at bl sst key snapshot_seq) (\<lambda>r.
       case r of Some v \<Rightarrow> Inr v | None \<Rightarrow> read_sstables bl ssts key snapshot_seq)"

definition lsm_read_at ::
  "('b, 'm, 's) lsm_env \<Rightarrow> ('b, 'm, 's) lsm_engine \<Rightarrow> bytes \<Rightarrow> nat \<Rightarrow> sst_error + bytes option" where
  "lsm_read_at env eng key snapshot_seq =
     (let snap = lsm_view eng in
      case mt_get_at (env_skip env) (ev_memtable snap) key snapshot_seq of
        Some v \<Rightarrow> Inr v
      | None \<Rightarrow>
          (case (case ev_immutable snap of Some imm \<Rightarrow> mt_get_at (env_skip env) imm key snapshot_seq | None \<Rightarrow> None) of
             Some v \<Rightarrow> Inr v
           | None \<Rightarrow> read_sstables (env_bloom env) (rev (ev_sstables snap)) key snapshot_seq))"

definition lsm_read ::
  "('b, 'm, 's) lsm_env \<Rightarrow> ('b, 'm, 's) lsm_engine \<Rightarrow> bytes \<Rightarrow> sst_error + bytes option" where
  "lsm_read env eng key = lsm_read_at env eng key (current_seq eng)"

definition overlay ::
  "(bytes \<times> bytes option) list \<Rightarrow> (bytes \<times> bytes option) list \<Rightarrow> (bytes \<times> bytes option) list" where
  "overlay merged resolved = foldl (\<lambda>m (k, v). bt_insert k v m) merged resolved"

fun scan_sstables ::
  "'b sstable list \<Rightarrow> nat \<Rightarrow> (bytes \<times> bytes option) list \<Rightarrow> sst_error + (bytes \<times> bytes option) list" where
  "scan_sstables [] snapshot_seq merged = Inr merged"
| "scan_sstables (sst # ssts) snapshot_seq merged =
     attempt (scan_all_versions sst) (\<lambda>vs.
       scan_sstables ssts snapshot_seq (overlay merged (first_visible_per_key vs snapshot_seq)))"

definition lsm_scan_at ::
  "('b, 'm, 's) lsm_env \<Rightarrow> ('b, 'm, 's) lsm_engine \<Rightarrow> nat \<Rightarrow> sst_error + (bytes \<times> bytes) list" where
  "lsm_scan_at env eng snapshot_seq =
     (let snap = lsm_view eng; sm = env_skip env in
      attempt (scan_sstables (ev_sstables snap) snapshot_seq []) (\<lambda>merged.
        let merged1 = (case ev_immutable snap of
              Some imm \<Rightarrow> overlay merged (first_visible_per_key (mt_iter_versions sm imm) snapshot_seq)
            | None \<Rightarrow> merged);
            merged2 = overlay merged1 (first_visible_per_key (mt_iter_versions sm (ev_memtable snap)) snapshot_seq)
        in Inr (List.map_filter (\<lambda>(k, v). map_option (\<lambda>v. (k, v)) v) merged2)))"

definition lsm_scan ::
  "('b, 'm, 's) lsm_env \<Rightarrow> ('b, 'm, 's) lsm_engine \<Rightarrow> sst_error + (bytes \<times> bytes) list" where
  "lsm_scan env eng = lsm_scan_at env eng (current_seq eng)"

section \<open>Refreshing a reader\<close>

fun fetch_sstables ::
  "('b, 'm, 's) lsm_env \<Rightarrow> nat list \<Rightarrow> nat list \<Rightarrow> 's \<Rightarrow> 's \<times> (sst_error + 'b sstable list)" where
  "fetch_sstables env known [] s = (s, Inr [])"
| "fetch_sstables env known (i # ids) s =
     (if i \<in> set known then fetch_sstables env known ids s
      else case open_from_store (env_bloom env) (env_store env) (sstable_key (env_shard_count env) i) i s of
             (s', Inl e) \<Rightarrow> (s', Inl e)
           | (s', Inr sst) \<Rightarrow>
               (case fetch_sstables env known ids s' of
                  (s'', Inl e) \<Rightarrow> (s'', Inl e) | (s'', Inr ssts) \<Rightarrow> (s'', Inr (sst # ssts))))"

definition lsm_refresh ::
  "('b, 'm, 's) lsm_env \<Rightarrow> ('b, 'm, 's) lsm_engine \<Rightarrow> ('b, 'm, 's) lsm_engine \<times> (lsm_error + bool)" where
  "lsm_refresh env eng =
     (case manifest_load (env_manifest env) (env_store env) (lsm_store eng) of
        (s1, Inl e) \<Rightarrow> (eng\<lparr>lsm_store := s1\<rparr>, Inl (LsmManifest e))
      | (s1, Inr None) \<Rightarrow> (eng\<lparr>lsm_store := s1\<rparr>, Inr False)
      | (s1, Inr (Some (m, tg))) \<Rightarrow>
          if Some tg = ws_manifest_etag (lsm_write eng) then (eng\<lparr>lsm_store := s1\<rparr>, Inr False)
          else
            let before = lsm_view eng; wanted = sstable_ids m; known = map sst_id (ev_sstables before) in
            (case fetch_sstables env known wanted s1 of
               (s2, Inl e) \<Rightarrow> (eng\<lparr>lsm_store := s2\<rparr>, Inl (LsmSst e))
             | (s2, Inr fetched) \<Rightarrow>
                 (let kept = filter (\<lambda>t. sst_id t \<in> set wanted) (ev_sstables before);
                      dropped = length (ev_sstables before) - length kept
                  in (eng\<lparr>lsm_store := s2,
                        lsm_view := before\<lparr>ev_sstables := sort_key sst_id (kept @ fetched)\<rparr>,
                        lsm_write := (lsm_write eng)\<lparr>ws_manifest_etag := Some tg,
                          ws_next_commit_seq := max (ws_next_commit_seq (lsm_write eng)) (inc64 (max_commit_seq m))\<rparr>\<rparr>,
                      Inr (fetched \<noteq> [] \<or> 0 < dropped)))))"

record storage_stats =
  st_wal_bytes_written :: nat
  st_memtable_entries :: nat
  st_sstable_count :: nat
  st_total_disk_bytes :: nat
  st_open_snapshot_count :: nat

definition lsm_stats :: "('b, 'm, 's) lsm_env \<Rightarrow> ('b, 'm, 's) lsm_engine \<Rightarrow> storage_stats" where
  "lsm_stats env eng = \<lparr>st_wal_bytes_written = bytes_written (ws_wal (lsm_write eng)),
     st_memtable_entries = mt_len (env_skip env) (ev_memtable (lsm_view eng)),
     st_sstable_count = length (ev_sstables (lsm_view eng)),
     st_total_disk_bytes = sum_list (map blob_size (ev_sstables (lsm_view eng))),
     st_open_snapshot_count = length (ws_open_snapshots (lsm_write eng))\<rparr>"

end
