(* ===== verification/Lsm_Reads.thy ===== *)
theory Lsm_Reads
  imports Lsm
begin

text \<open>
  What the engine's reads compute. A view is a list of sources, newest first: the memory
  table, the frozen one, the tables from last to first. When every source is a well-formed
  map of versions and newer sources hold newer versions of a key (\<open>layered\<close>), stopping at
  the first source with a visible version gives the newest visible version of all.
\<close>

section \<open>Tables as sources of versions\<close>

definition sst_entries :: "'b sstable \<Rightarrow> entry list" where
  "sst_entries t = (case scan_all_versions t of Inl _ \<Rightarrow> []
     | Inr vs \<Rightarrow> map (\<lambda>(k, q, tg, v). (InternalKey k q tg, case v of None \<Rightarrow> [] | Some x \<Rightarrow> x)) vs)"

definition sst_valid :: "'b bloom_ops \<Rightarrow> 'b sstable \<Rightarrow> bool" where
  "sst_valid bl t \<longleftrightarrow> sst_repr bl t (sst_entries t) \<and> bt_wf (sst_entries t)"

definition sst_get :: "'b bloom_ops \<Rightarrow> 'b sstable \<Rightarrow> bytes \<Rightarrow> nat \<Rightarrow> bytes option option" where
  "sst_get bl t k s = (case sst_read_at bl t k s of Inl _ \<Rightarrow> None | Inr r \<Rightarrow> r)"

definition sst_versions :: "'b sstable \<Rightarrow> version list" where
  "sst_versions t = (case scan_all_versions t of Inl _ \<Rightarrow> [] | Inr vs \<Rightarrow> vs)"

text \<open>Entries as the engine writes them: a tombstone carries no value.\<close>

definition plain :: "entry \<Rightarrow> bool" where
  "plain e \<longleftrightarrow> (is_delete (fst e) \<longrightarrow> snd e = [])"

lemma sst_repr_entries:
  assumes "sst_repr bl t es" and "list_all plain es"
  shows "sst_entries t = es"
proof -
  have "(case version_of e of (k, q, tg, v) \<Rightarrow> (InternalKey k q tg, case v of None \<Rightarrow> [] | Some x \<Rightarrow> x)) = e"
    if "plain e" for e
    using that by (cases e) (auto simp: version_of_def version_value_def plain_def)
  with assms(2) show ?thesis
    unfolding sst_entries_def sst_repr_scan [OF assms(1)]
    by (simp add: list_all_iff flip: version_of_def) (simp add: map_idI)
qed

lemma sst_repr_valid:
  "sst_repr bl t es \<Longrightarrow> list_all plain es \<Longrightarrow> bt_wf es \<Longrightarrow> sst_valid bl t"
  by (simp add: sst_valid_def sst_repr_entries)

lemma sst_valid_plain:
  assumes "sst_valid bl t"
  shows "list_all plain (sst_entries t)"
proof -
  let ?g = "\<lambda>e. (case version_of e of (k, q, tg, v) \<Rightarrow> (InternalKey k q tg, case v of None \<Rightarrow> [] | Some x \<Rightarrow> x))"
  have "scan_all_versions t = Inr (map version_of (sst_entries t))"
    using sst_repr_scan [of bl t "sst_entries t"] assms by (simp add: sst_valid_def version_of_def)
  then have eq: "sst_entries t = map ?g (sst_entries t)"
    by (subst sst_entries_def) simp
  have "plain (?g e)" for e
    by (cases e) (auto simp: version_of_def version_value_def plain_def)
  then have "list_all plain (map ?g (sst_entries t))" by (simp add: list_all_iff)
  with eq show ?thesis by simp
qed

lemma sst_valid_read_at:
  "sst_valid bl t \<Longrightarrow> sst_read_at bl t k s = Inr (map_option version_value (visible_in (sst_entries t) k s))"
  by (auto simp: sst_valid_def intro: sst_repr_read_at)

lemma sst_valid_scan: "sst_valid bl t \<Longrightarrow> scan_all_versions t = Inr (map version_of (sst_entries t))"
  using sst_repr_scan [of bl t "sst_entries t"] by (simp add: sst_valid_def version_of_def)

interpretation sst: version_source sst_entries "sst_get bl" sst_versions "sst_valid bl" for bl
proof
  fix t :: "'a sstable" and k s
  assume v: "sst_valid bl t"
  show "bt_wf (sst_entries t)" using v by (simp add: sst_valid_def)
  show "sst_get bl t k s = map_option version_value (visible_in (sst_entries t) k s)"
    using v by (simp add: sst_get_def sst_valid_read_at)
  show "sst_versions t = map version_of (sst_entries t)"
    using sst_valid_scan [OF v] by (simp add: sst_versions_def)
qed

section \<open>Layers\<close>

definition newer_layer :: "entry list \<Rightarrow> entry list \<Rightarrow> bool" where
  "newer_layer a b \<longleftrightarrow>
     (\<forall>x\<in>set a. \<forall>y\<in>set b. user_key (fst x) = user_key (fst y) \<longrightarrow> seq (fst y) < seq (fst x))"

definition layered :: "entry list list \<Rightarrow> bool" where
  "layered ls \<longleftrightarrow> sorted_wrt newer_layer ls"

text \<open>The first source, newest first, that holds a visible version.\<close>

fun first_hit :: "entry list list \<Rightarrow> bytes \<Rightarrow> nat \<Rightarrow> entry option" where
  "first_hit [] k s = None"
| "first_hit (l # ls) k s = (case visible_in l k s of Some e \<Rightarrow> Some e | None \<Rightarrow> first_hit ls k s)"

lemma first_hit_append:
  "first_hit (xs @ ys) k s = (case first_hit xs k s of Some e \<Rightarrow> Some e | None \<Rightarrow> first_hit ys k s)"
  by (induction xs) (auto split: option.splits)

lemma visible_in_SomeD: "visible_in l k s = Some e \<Longrightarrow> e \<in> set l \<and> visible_to k s (fst e)"
  by (auto simp: visible_in_def find_Some_iff)

lemma first_hit_None: "first_hit ls k s = None \<longleftrightarrow> (\<forall>e\<in>set (concat ls). \<not> visible_to k s (fst e))"
  by (induction ls) (auto simp: visible_in_None dest!: visible_in_SomeD split: option.splits)

lemma first_hit_newest:
  assumes "\<forall>l\<in>set ls. bt_wf l" and "layered ls"
  shows "first_hit ls k s = Some e \<longleftrightarrow> newest_visible (set (concat ls)) k s e"
  using assms
proof (induction ls)
  case Nil
  then show ?case by (simp add: newest_visible_def)
next
  case (Cons l ls)
  then have IH: "first_hit ls k s = Some e \<longleftrightarrow> newest_visible (set (concat ls)) k s e"
    and wf: "bt_wf l" and lay: "\<forall>b\<in>set ls. newer_layer l b"
    by (auto simp: layered_def)
  show ?case
  proof (cases "visible_in l k s")
    case None
    then have "\<forall>x\<in>set l. \<not> visible_to k s (fst x)" by (simp add: visible_in_None)
    with None IH show ?thesis by (auto simp: newest_visible_def)
  next
    case (Some x)
    then have nx: "newest_visible (set l) k s x" using visible_in_newest [OF wf] by blast
    have older: "fst x < fst y" if "y \<in> set (concat ls)" "visible_to k s (fst y)" for y
      using that nx lay by (fastforce simp: newest_visible_def visible_to_def newer_layer_def ik_less_iff)
    have "newest_visible (set (concat (l # ls))) k s x"
      using nx older by (auto simp: newest_visible_def intro: order.strict_implies_order)
    moreover have "e = x" if n: "newest_visible (set (concat (l # ls))) k s e"
    proof -
      have "fst e = fst x" using newest_visible_unique [OF n calculation] .
      then have "e \<in> set l" using n older by (fastforce simp: newest_visible_def)
      with wf nx \<open>fst e = fst x\<close> show ?thesis
        unfolding newest_visible_def by (metis bt_get_Some_iff option.inject prod.collapse)
    qed
    ultimately show ?thesis using Some by auto
  qed
qed

section \<open>The sources of a view\<close>

definition mem_layers :: "'m skip_map_ops \<Rightarrow> ('b, 'm) engine_view \<Rightarrow> entry list list" where
  "mem_layers sm v = [mt_to_entries sm (ev_memtable v)]
     @ (case ev_immutable v of None \<Rightarrow> [] | Some imm \<Rightarrow> [mt_to_entries sm imm])"

definition sst_layers :: "('b, 'm) engine_view \<Rightarrow> entry list list" where
  "sst_layers v = map sst_entries (rev (ev_sstables v))"

definition layers :: "('b, 'm, 's) lsm_env \<Rightarrow> ('b, 'm, 's) lsm_engine \<Rightarrow> entry list list" where
  "layers env eng = mem_layers (env_skip env) (lsm_view eng) @ sst_layers (lsm_view eng)"

definition all_versions :: "('b, 'm, 's) lsm_env \<Rightarrow> ('b, 'm, 's) lsm_engine \<Rightarrow> entry set" where
  "all_versions env eng = set (concat (layers env eng))"

text \<open>The environment's crates behave as documented.\<close>

definition env_ok :: "('b, 'm, 's) lsm_env \<Rightarrow> bool" where
  "env_ok env \<longleftrightarrow> skip_map (env_skip env) \<and> bloom_filter (env_bloom env)"

lemma env_okD: "env_ok env \<Longrightarrow> skip_map (env_skip env)" "env_ok env \<Longrightarrow> bloom_filter (env_bloom env)"
  by (simp_all add: env_ok_def)

text \<open>
  The invariant of the engine: all tables are valid, the sources are layered, and every
  version is older than the next commit.
\<close>

definition lsm_inv :: "('b, 'm, 's) lsm_env \<Rightarrow> ('b, 'm, 's) lsm_engine \<Rightarrow> bool" where
  "lsm_inv env eng \<longleftrightarrow> (\<forall>t\<in>set (ev_sstables (lsm_view eng)). sst_valid (env_bloom env) t)
     \<and> layered (layers env eng)
     \<and> (\<forall>e\<in>all_versions env eng. seq (fst e) < ws_next_commit_seq (lsm_write eng) \<and> plain e)"

lemma layers_wf:
  assumes "env_ok env" and "lsm_inv env eng"
  shows "\<forall>l\<in>set (layers env eng). bt_wf l"
  using assms skip_map.mt_to_entries_wf [OF env_okD(1)]
  by (auto simp: layers_def mem_layers_def sst_layers_def lsm_inv_def sst_valid_def split: option.splits)

lemma read_sstables_hit:
  "\<forall>t\<in>set ts. sst_valid bl t \<Longrightarrow>
   read_sstables bl ts k s = Inr (Option.bind (first_hit (map sst_entries ts) k s) version_value)"
  by (induction ts) (auto simp: sst_valid_read_at split: option.splits)

lemma read_at_hit:
  assumes "env_ok env" and "\<forall>t\<in>set (ev_sstables (lsm_view eng)). sst_valid (env_bloom env) t"
  shows "lsm_read_at env eng k s = Inr (Option.bind (first_hit (layers env eng) k s) version_value)"
  using read_sstables_hit [of "rev (ev_sstables (lsm_view eng))"] assms(2)
  by (auto simp: lsm_read_at_def Let_def layers_def mem_layers_def sst_layers_def first_hit_append
      skip_map.mt_get_at_visible [OF env_okD(1) [OF assms(1)]] split: option.splits)

text \<open>Reads depend only on the set of versions, which is what changes of the layout preserve.\<close>

lemma first_hit_cong:
  assumes "\<forall>l\<in>set ls. bt_wf l" "layered ls" "\<forall>l\<in>set ls'. bt_wf l" "layered ls'"
    and "set (concat ls) = set (concat ls')"
  shows "first_hit ls k s = first_hit ls' k s"
proof (cases "first_hit ls k s")
  case None
  then have "first_hit ls' k s = None" using assms(5) by (metis first_hit_None)
  with None show ?thesis by simp
next
  case (Some e)
  then have "newest_visible (set (concat ls')) k s e"
    using first_hit_newest [OF assms(1,2)] assms(5) by simp
  then have "first_hit ls' k s = Some e" using first_hit_newest [OF assms(3,4)] by blast
  with Some show ?thesis by simp
qed

lemma read_at_cong:
  assumes "env_ok env" "lsm_inv env eng" "lsm_inv env eng'" "all_versions env eng = all_versions env eng'"
  shows "lsm_read_at env eng k s = lsm_read_at env eng' k s"
proof -
  have "first_hit (layers env eng) k s = first_hit (layers env eng') k s"
    using assms(4) unfolding all_versions_def
    by (intro first_hit_cong layers_wf assms) (use assms(2,3) in \<open>simp_all only: lsm_inv_def\<close>)
  with assms show ?thesis by (simp add: read_at_hit lsm_inv_def)
qed

section \<open>Scanning\<close>

lemma overlay_get: "bt_wf r \<Longrightarrow> bt_get (overlay m r) = bt_get m ++ map_of r"
proof (induction r arbitrary: m)
  case Nil
  then show ?case by (simp add: overlay_def)
next
  case (Cons x r)
  obtain k v where x: "x = (k, v)" by (cases x)
  have "map_of r k = None" using Cons.prems x by (auto simp: bt_wf_Cons map_of_eq_None_iff)
  with Cons show ?case
    by (auto simp: overlay_def x bt_wf_Cons bt_get_insert fun_eq_iff map_add_def split: option.splits)
qed

lemma overlay_wf: "bt_wf m \<Longrightarrow> bt_wf (overlay m r)"
  by (induction r arbitrary: m) (auto simp: overlay_def bt_wf_insert)

text \<open>What overlaying the sources from the oldest to the newest holds for a key.\<close>

lemma overlay_sources:
  assumes "bt_wf m" and "bt_wf es" and "\<And>k. bt_get m k = map_option version_value (first_hit ls k s)"
  shows "bt_wf (overlay m (first_visible_per_key (map version_of es) s))
    \<and> bt_get (overlay m (first_visible_per_key (map version_of es) s)) k
      = map_option version_value (first_hit (es # ls) k s)"
  using first_visible_per_key_spec [OF assms(2), of s] assms(1,3)
  by (auto simp: overlay_get overlay_wf map_add_def split: option.splits)

lemma scan_sstables_hit:
  assumes "\<forall>t\<in>set ts. sst_valid bl t" and "bt_wf m"
    and "\<And>k. bt_get m k = map_option version_value (first_hit ls k s)"
  shows "\<exists>m'. scan_sstables ts s m = Inr m' \<and> bt_wf m'
    \<and> (\<forall>k. bt_get m' k = map_option version_value (first_hit (map sst_entries (rev ts) @ ls) k s))"
  using assms
proof (induction ts arbitrary: m ls)
  case Nil
  then show ?case by auto
next
  case (Cons t ts)
  have v: "sst_valid bl t" and wf: "bt_wf (sst_entries t)" using Cons.prems by (auto simp: sst_valid_def)
  note o = overlay_sources [OF Cons.prems(2) wf Cons.prems(3)]
  have "\<exists>m'. scan_sstables ts s (overlay m (first_visible_per_key (map version_of (sst_entries t)) s)) = Inr m'
      \<and> bt_wf m' \<and> (\<forall>k. bt_get m' k = map_option version_value
          (first_hit (map sst_entries (rev ts) @ (sst_entries t # ls)) k s))"
    by (rule Cons.IH) (use Cons.prems o in auto)
  then show ?case by (simp add: sst_valid_scan [OF v])
qed

lemma scan_at_hit:
  assumes env: "env_ok env" and ssts: "\<forall>t\<in>set (ev_sstables (lsm_view eng)). sst_valid (env_bloom env) t"
  shows "\<exists>m. lsm_scan_at env eng s = Inr (List.map_filter (\<lambda>(k, v). map_option (\<lambda>v. (k, v)) v) m) \<and> bt_wf m
    \<and> (\<forall>k. bt_get m k = map_option version_value (first_hit (layers env eng) k s))"
proof -
  let ?sm = "env_skip env" and ?v = "lsm_view eng"
  note sm = env_okD(1) [OF env]
  obtain m where m: "scan_sstables (ev_sstables ?v) s [] = Inr m" "bt_wf m"
    "\<And>k. bt_get m k = map_option version_value (first_hit (sst_layers ?v) k s)"
    using scan_sstables_hit [OF ssts, of "[]" "[]" s] by (auto simp: sst_layers_def)
  define m1 where "m1 = (case ev_immutable ?v of
     Some imm \<Rightarrow> overlay m (first_visible_per_key (mt_iter_versions ?sm imm) s) | None \<Rightarrow> m)"
  define l1 where "l1 = (case ev_immutable ?v of None \<Rightarrow> [] | Some imm \<Rightarrow> [mt_to_entries ?sm imm]) @ sst_layers ?v"
  have m1: "bt_wf m1" "\<And>k. bt_get m1 k = map_option version_value (first_hit l1 k s)"
    using m overlay_sources [OF m(2) skip_map.mt_to_entries_wf [OF sm] m(3)]
    by (auto simp: m1_def l1_def skip_map.mt_iter_versions_eq [OF sm] split: option.splits)
  have "lsm_scan_at env eng s = Inr (List.map_filter (\<lambda>(k, v). map_option (\<lambda>v. (k, v)) v)
      (overlay m1 (first_visible_per_key (mt_iter_versions ?sm (ev_memtable ?v)) s)))"
    by (simp add: lsm_scan_at_def Let_def m(1) m1_def)
  with overlay_sources [OF m1(1) skip_map.mt_to_entries_wf [OF sm] m1(2)]
  show ?thesis
    by (auto simp: layers_def mem_layers_def l1_def skip_map.mt_iter_versions_eq [OF sm])
qed

end
