(* ===== verification/Lsm_Writes.thy ===== *)
theory Lsm_Writes
  imports Lsm_Reads
begin

text \<open>
  What a batch of writes and the steps of a flush do to reads: a committed batch is visible to
  exactly the snapshots at or after its commit sequence number, all of it or none of it;
  freezing the memory table and replacing the frozen table by its sorted string table change
  no read at any snapshot.
\<close>

section \<open>Arithmetic and the parts of the invariant\<close>

lemma inc64_small [simp]: "n + 1 < 2 ^ 64 \<Longrightarrow> inc64 n = n + 1"
  by (simp add: inc64_def)

lemma dec64_pos: "0 < n \<Longrightarrow> n < 2 ^ 64 \<Longrightarrow> dec64 n = n - 1"
proof -
  assume n: "0 < n" "n < 2 ^ 64"
  then have "n + (2 ^ 64 - 1) = (n - 1) + 2 ^ 64" by simp
  then have "dec64 n = (n - 1) mod 2 ^ 64" unfolding dec64_def by (metis mod_add_self2)
  with n show ?thesis by simp
qed

lemma lsm_invD:
  assumes "lsm_inv env eng"
  shows "\<forall>t\<in>set (ev_sstables (lsm_view eng)). sst_valid (env_bloom env) t"
    "layered (layers env eng)"
    "\<forall>e\<in>all_versions env eng. seq (fst e) < ws_next_commit_seq (lsm_write eng)"
    "\<forall>e\<in>all_versions env eng. plain e"
  using assms unfolding lsm_inv_def by blast+

text \<open>No frozen memory table waits to be flushed.\<close>

definition quiescent :: "('b, 'm, 's) lsm_env \<Rightarrow> ('b, 'm, 's) lsm_engine \<Rightarrow> bool" where
  "quiescent env eng \<longleftrightarrow>
     (case ev_immutable (lsm_view eng) of None \<Rightarrow> True | Some imm \<Rightarrow> mt_to_entries (env_skip env) imm = [])"

lemma layered_Nil_layer: "layered ([] # ls) \<longleftrightarrow> layered ls"
  by (auto simp: layered_def newer_layer_def)

lemma layered_drop_Nil: "layered (l # [] # ls) \<longleftrightarrow> layered (l # ls)"
  by (auto simp: layered_def newer_layer_def)

section \<open>Inserting a batch\<close>

definition batch_version :: "nat \<Rightarrow> write_entry \<Rightarrow> entry" where
  "batch_version q e =
     (case e of (_, key, Some v) \<Rightarrow> (InternalKey key q PUT_TAG, v)
      | (_, key, None) \<Rightarrow> (InternalKey key q DELETE_TAG, []))"

abbreviation write_key :: "write_entry \<Rightarrow> bytes" where
  "write_key e \<equiv> fst (snd e)"

lemma batch_version_simps [simp]:
  "user_key (fst (batch_version q e)) = write_key e" "seq (fst (batch_version q e)) = q"
  "plain (batch_version q e)" "version_value (batch_version q e) = snd (snd e)"
  by (auto simp: batch_version_def plain_def is_delete_def PUT_TAG_def DELETE_TAG_def version_value_def
      split: prod.splits option.splits)

lemma insert_entry_entries:
  "skip_map sm \<Longrightarrow> mt_to_entries sm (insert_entry sm q mt e)
     = bt_insert (fst (batch_version q e)) (snd (batch_version q e)) (mt_to_entries sm mt)"
  by (auto simp: insert_entry_def batch_version_def skip_map.mt_to_entries_insert
      split: prod.splits option.splits)

lemma foldl_insert_entry:
  assumes "skip_map sm" and "distinct (map write_key es)"
    and "\<forall>x\<in>set (mt_to_entries sm mt). seq (fst x) = q \<longrightarrow> user_key (fst x) \<notin> write_key ` set es"
  shows "set (mt_to_entries sm (foldl (insert_entry sm q) mt es))
    = set (mt_to_entries sm mt) \<union> batch_version q ` set es"
  using assms(2,3)
proof (induction es arbitrary: mt)
  case Nil
  then show ?case by simp
next
  case (Cons e es)
  let ?mt = "insert_entry sm q mt e"
  have wf: "bt_wf (mt_to_entries sm mt)" by (rule skip_map.mt_to_entries_wf [OF assms(1)])
  have set1: "set (mt_to_entries sm ?mt) = insert (batch_version q e) (set (mt_to_entries sm mt))"
  proof -
    have "fst x \<noteq> fst (batch_version q e)" if "x \<in> set (mt_to_entries sm mt)" for x
      using Cons.prems(2) that by (metis batch_version_simps(1,2) image_eqI list.set_intros(1))
    then show ?thesis
      by (auto simp: insert_entry_entries [OF assms(1)] set_bt_insert [OF wf])
  qed
  have "set (mt_to_entries sm (foldl (insert_entry sm q) ?mt es))
      = set (mt_to_entries sm ?mt) \<union> batch_version q ` set es"
    by (rule Cons.IH) (use Cons.prems set1 in auto)
  with set1 show ?case by auto
qed

section \<open>Steps that only move versions between sources\<close>

lemma begin_flush_keeps:
  assumes env: "env_ok env" and inv: "lsm_inv env eng" and qui: "quiescent env eng"
    and bf: "begin_flush env eng = (eng', r)"
  shows "lsm_inv env eng'" "all_versions env eng' = all_versions env eng"
    "ws_next_commit_seq (lsm_write eng') = ws_next_commit_seq (lsm_write eng)"
    "r = Inr (Some p) \<Longrightarrow> \<exists>imm. ev_immutable (lsm_view eng') = Some imm
       \<and> pf_entries p = mt_to_entries (env_skip env) imm \<and> pf_entries p \<noteq> []
       \<and> pf_entries p = mt_to_entries (env_skip env) (ev_memtable (lsm_view eng))"
proof -
  let ?v = "lsm_view eng"
  let ?v' = "\<lparr>ev_memtable = mt_new (env_skip env) MEMTABLE_MAX_SIZE, ev_immutable = Some (ev_memtable ?v),
      ev_sstables = ev_sstables ?v\<rparr>"
  have v: "lsm_view eng' = ?v \<or> lsm_view eng' = ?v'"
    and w: "ws_next_commit_seq (lsm_write eng') = ws_next_commit_seq (lsm_write eng)"
    using bf by (auto simp: begin_flush_def Let_def split: if_splits)
  have nl: "layers env eng' = layers env eng \<or>
      layers env eng' = [] # mt_to_entries (env_skip env) (ev_memtable ?v) # sst_layers ?v"
    using v skip_map.mt_to_entries_new [OF env_okD(1) [OF env]]
    by (auto simp: layers_def mem_layers_def sst_layers_def)
  have ol: "layers env eng = mt_to_entries (env_skip env) (ev_memtable ?v) # sst_layers ?v \<or>
      layers env eng = mt_to_entries (env_skip env) (ev_memtable ?v) # [] # sst_layers ?v"
    using qui by (auto simp: layers_def mem_layers_def quiescent_def split: option.splits)
  show all: "all_versions env eng' = all_versions env eng"
    using nl ol by (auto simp: all_versions_def)
  have lay: "layered (layers env eng')"
    using lsm_invD(2) [OF inv] nl ol by (auto simp: layered_Nil_layer layered_drop_Nil)
  show "ws_next_commit_seq (lsm_write eng') = ws_next_commit_seq (lsm_write eng)" by (rule w)
  have "ev_sstables (lsm_view eng') = ev_sstables ?v" using v by auto
  with lay all w inv show "lsm_inv env eng'" by (simp add: lsm_inv_def)
  show "r = Inr (Some p) \<Longrightarrow> \<exists>imm. ev_immutable (lsm_view eng') = Some imm
       \<and> pf_entries p = mt_to_entries (env_skip env) imm \<and> pf_entries p \<noteq> []
       \<and> pf_entries p = mt_to_entries (env_skip env) (ev_memtable (lsm_view eng))"
    using bf by (auto simp: begin_flush_def Let_def split: if_splits)
qed

lemma finish_flush_keeps:
  "finish_flush env p eng = (eng', r) \<Longrightarrow> lsm_view eng' = lsm_view eng \<and> lsm_write eng' = lsm_write eng
    \<and> lsm_lease eng' = lsm_lease eng"
  by (auto simp: finish_flush_def split: prod.splits sum.splits)

lemma begin_compact_keeps:
  "begin_compact env eng = (eng', r) \<Longrightarrow> lsm_view eng' = lsm_view eng
     \<and> ws_next_commit_seq (lsm_write eng') = ws_next_commit_seq (lsm_write eng)
     \<and> ws_wal (lsm_write eng') = ws_wal (lsm_write eng) \<and> lsm_store eng' = lsm_store eng"
  by (auto simp: begin_compact_def Let_def split: if_splits)

lemma commit_flush_success:
  assumes "commit_flush env p sst eng = (eng', Inr pc)"
  shows "ev_immutable (lsm_view eng') = None" "ev_memtable (lsm_view eng') = ev_memtable (lsm_view eng)"
    "ws_wal (lsm_write eng') = wal_truncate (ws_wal (lsm_write eng))"
  using assms
  by (auto simp: commit_flush_def Let_def dest!: begin_compact_keeps split: if_splits prod.splits sum.splits)

lemma lsm_inv_view:
  "lsm_inv env eng \<Longrightarrow> lsm_view eng' = lsm_view eng
   \<Longrightarrow> ws_next_commit_seq (lsm_write eng) \<le> ws_next_commit_seq (lsm_write eng') \<Longrightarrow> lsm_inv env eng'"
  unfolding lsm_inv_def all_versions_def layers_def by (metis less_le_trans)

lemma read_at_view: "lsm_view eng' = lsm_view eng \<Longrightarrow> lsm_read_at env eng' k s = lsm_read_at env eng k s"
  by (simp add: lsm_read_at_def)

text \<open>What a commit does to the view: nothing, or the frozen table becomes a string table.\<close>

lemma commit_flush_view:
  assumes "commit_flush env p sst eng = (eng', r)"
  shows "(lsm_view eng' = lsm_view eng \<or>
      lsm_view eng' = (lsm_view eng)\<lparr>ev_immutable := None, ev_sstables := ev_sstables (lsm_view eng) @ [sst]\<rparr>)
    \<and> ws_next_commit_seq (lsm_write eng') = ws_next_commit_seq (lsm_write eng)"
  using assms
  by (auto simp: commit_flush_def Let_def dest!: begin_compact_keeps
      split: if_splits prod.splits sum.splits)

lemma commit_flush_keeps:
  assumes env: "env_ok env" and inv: "lsm_inv env eng"
    and imm: "ev_immutable (lsm_view eng) = Some imm" "sst_entries sst = mt_to_entries (env_skip env) imm"
    and sst: "sst_valid (env_bloom env) sst"
    and cf: "commit_flush env p sst eng = (eng', r)"
  shows "lsm_inv env eng'" "all_versions env eng' = all_versions env eng"
proof -
  let ?v = "lsm_view eng" and ?sm = "env_skip env"
  have old: "layers env eng = mt_to_entries ?sm (ev_memtable ?v) # mt_to_entries ?sm imm # sst_layers ?v"
    by (simp add: layers_def mem_layers_def imm(1))
  have "layers env eng' = layers env eng"
    using commit_flush_view [OF cf] old imm by (auto simp: layers_def mem_layers_def sst_layers_def)
  moreover have "\<forall>t\<in>set (ev_sstables (lsm_view eng')). sst_valid (env_bloom env) t"
    using commit_flush_view [OF cf] lsm_invD(1) [OF inv] sst by auto
  ultimately show "lsm_inv env eng'" "all_versions env eng' = all_versions env eng"
    using inv commit_flush_view [OF cf] by (simp_all add: lsm_inv_def all_versions_def)
qed

section \<open>Batches\<close>

text \<open>The state after the inserts of a batch, before a full memory table is frozen.\<close>

definition after_inserts ::
  "('b, 'm, 's) lsm_env \<Rightarrow> write_entry list \<Rightarrow> wal \<Rightarrow> ('b, 'm, 's) lsm_engine \<Rightarrow> ('b, 'm, 's) lsm_engine" where
  "after_inserts env es w eng =
     (let q = ws_next_commit_seq (lsm_write eng) in
      eng\<lparr>lsm_write := (lsm_write eng)\<lparr>ws_next_commit_seq := inc64 q, ws_wal := w\<rparr>,
          lsm_view := (lsm_view eng)\<lparr>ev_memtable :=
            foldl (insert_entry (env_skip env) q) (ev_memtable (lsm_view eng)) es\<rparr>\<rparr>)"

lemma write_batch_Done:
  assumes "write_batch env Done es eng = (eng', r)"
  obtains w where "append_batch Done (ws_next_commit_seq (lsm_write eng)) (map wal_entry_of es) (ws_wal (lsm_write eng))
      = (w, Inr (map (entry_record (ws_next_commit_seq (lsm_write eng))) (map wal_entry_of es)))"
    and "(eng' = after_inserts env es w eng \<and> r = Inr (ws_next_commit_seq (lsm_write eng), None))
      \<or> (\<exists>e. begin_flush env (after_inserts env es w eng) = (eng', Inl e) \<and> r = Inl e)
      \<or> (\<exists>p. begin_flush env (after_inserts env es w eng) = (eng', Inr p)
           \<and> r = Inr (ws_next_commit_seq (lsm_write eng), p))"
proof -
  let ?q = "ws_next_commit_seq (lsm_write eng)"
  obtain w where w: "append_batch Done ?q (map wal_entry_of es) (ws_wal (lsm_write eng))
      = (w, Inr (map (entry_record ?q) (map wal_entry_of es)))"
    by (simp add: append_batch_def io_append_def Let_def)
  have eq: "eng\<lparr>lsm_write := (lsm_write eng)\<lparr>ws_next_commit_seq := inc64 ?q, ws_wal := w\<rparr>,
      lsm_view := (lsm_view eng)\<lparr>ev_memtable := foldl (insert_entry (env_skip env) ?q) (ev_memtable (lsm_view eng)) es\<rparr>\<rparr>
    = after_inserts env es w eng"
    by (simp add: after_inserts_def Let_def)
  show thesis
    by (rule that [OF w]) (use assms w in
      \<open>auto simp: write_batch_def Let_def eq split: if_splits prod.splits sum.splits\<close>)
qed

lemma after_inserts_layers:
  assumes env: "env_ok env" and inv: "lsm_inv env eng" and dist: "distinct (map write_key es)"
    and q: "q = ws_next_commit_seq (lsm_write eng)" and small: "q + 1 < 2 ^ 64"
  shows "lsm_inv env (after_inserts env es w eng)"
    "all_versions env (after_inserts env es w eng) = all_versions env eng \<union> batch_version q ` set es"
proof -
  let ?sm = "env_skip env" and ?v = "lsm_view eng" and ?eng' = "after_inserts env es w eng"
  let ?M = "mt_to_entries ?sm (ev_memtable ?v)"
  let ?M' = "mt_to_entries ?sm (ev_memtable (lsm_view ?eng'))"
  obtain rest where old: "layers env eng = ?M # rest" and new: "layers env ?eng' = ?M' # rest"
    by (auto simp: layers_def mem_layers_def after_inserts_def Let_def sst_layers_def)
  have lt: "seq (fst x) < q" if "x \<in> set (concat (layers env eng))" for x
    using that lsm_invD(3) [OF inv] unfolding q all_versions_def by blast
  have M': "set ?M' = set ?M \<union> batch_version q ` set es"
    unfolding after_inserts_def Let_def
    by (simp, subst foldl_insert_entry [OF env_okD(1) [OF env] dist]) (use lt old q in force)+
  show all: "all_versions env ?eng' = all_versions env eng \<union> batch_version q ` set es"
    unfolding all_versions_def old new by (simp add: M' Un_ac)
  have "newer_layer ?M' b" if "b \<in> set rest" for b
  proof -
    have "newer_layer ?M b" using lsm_invD(2) [OF inv] that by (simp add: old layered_def)
    moreover have "seq (fst y) < q" if "y \<in> set b" for y
      by (rule lt) (use that \<open>b \<in> set rest\<close> in \<open>auto simp: old\<close>)
    ultimately show ?thesis by (auto simp: newer_layer_def M')
  qed
  then have lay: "layered (layers env ?eng')"
    using lsm_invD(2) [OF inv] by (simp add: old new layered_def)
  have seqs: "\<forall>e\<in>all_versions env ?eng'. seq (fst e) < q + 1 \<and> plain e"
    unfolding all using lsm_invD(3,4) [OF inv] q by (auto simp: less_Suc_eq)
  show "lsm_inv env ?eng'"
    unfolding lsm_inv_def
    using lay seqs lsm_invD(1) [OF inv] small q by (simp add: after_inserts_def Let_def)
qed

text \<open>Reads over a history extended by a batch of a newer sequence number.\<close>

lemma newest_visible_extend:
  assumes V: "\<forall>x\<in>V. seq (fst x) < q" and dist: "distinct (map write_key es)"
  shows "newest_visible (V \<union> batch_version q ` set es) k s e \<longleftrightarrow>
    (if q \<le> s \<and> k \<in> write_key ` set es then \<exists>x\<in>set es. write_key x = k \<and> e = batch_version q x
     else newest_visible V k s e)"
proof (cases "q \<le> s \<and> k \<in> write_key ` set es")
  case False
  then have "\<not> visible_to k s (fst (batch_version q x))" if "x \<in> set es" for x
    using that by (auto simp: visible_to_def)
  with False show ?thesis by (auto simp: newest_visible_def)
next
  case True
  then obtain x where x: "x \<in> set es" "write_key x = k" by auto
  have uniq: "y = x" if "y \<in> set es" "write_key y = k" for y
    using dist x that by (metis distinct_map inj_onD)
  have vis: "visible_to k s (fst (batch_version q x))" using True x by (simp add: visible_to_def)
  have newer: "fst (batch_version q x) < fst y" if "y \<in> V" "visible_to k s (fst y)" for y
    using V that x by (simp add: ik_less_iff visible_to_def)
  have nv: "newest_visible (V \<union> batch_version q ` set es) k s (batch_version q x)"
    unfolding newest_visible_def
  proof (intro conjI ballI impI)
    fix y assume y: "y \<in> V \<union> batch_version q ` set es" "visible_to k s (fst y)"
    show "fst (batch_version q x) \<le> fst y"
    proof (cases "y \<in> V")
      case True
      with newer y show ?thesis by (simp add: order.strict_implies_order)
    next
      case False
      with y obtain z where "z \<in> set es" "y = batch_version q z" by blast
      with y uniq show ?thesis by (simp add: visible_to_def)
    qed
  qed (use vis x in auto)
  have "e = batch_version q x" if n: "newest_visible (V \<union> batch_version q ` set es) k s e"
  proof -
    have "fst e = fst (batch_version q x)" by (rule newest_visible_unique [OF n nv])
    with n V obtain y where y: "y \<in> set es" "e = batch_version q y"
      by (auto simp: newest_visible_def)
    with uniq [of y] \<open>fst e = _\<close> x show ?thesis by (metis batch_version_simps(1))
  qed
  with nv x uniq have "newest_visible (V \<union> batch_version q ` set es) k s e \<longleftrightarrow>
      (\<exists>x\<in>set es. write_key x = k \<and> e = batch_version q x)" by metis
  with True show ?thesis by simp
qed

lemma read_at_newest:
  assumes "env_ok env" and "lsm_inv env eng"
  shows "lsm_read_at env eng k s = Inr v \<longleftrightarrow>
    (\<exists>e. newest_visible (all_versions env eng) k s e \<and> v = version_value e)
    \<or> (\<forall>e\<in>all_versions env eng. \<not> visible_to k s (fst e)) \<and> v = None"
proof (cases "first_hit (layers env eng) k s")
  case None
  then have "\<forall>e\<in>all_versions env eng. \<not> visible_to k s (fst e)"
    using first_hit_None unfolding all_versions_def by blast
  with None show ?thesis
    using read_at_hit [OF assms(1) lsm_invD(1) [OF assms(2)]] by (auto simp: newest_visible_def)
next
  case (Some e)
  then have n: "newest_visible (all_versions env eng) k s e"
    using first_hit_newest [OF layers_wf [OF assms] lsm_invD(2) [OF assms(2)]] by (simp add: all_versions_def)
  have "e' = e" if "newest_visible (all_versions env eng) k s e'" for e'
    using that first_hit_newest [OF layers_wf [OF assms] lsm_invD(2) [OF assms(2)]] Some
    unfolding all_versions_def by (metis option.inject)
  moreover have "lsm_read_at env eng k s = Inr (version_value e)"
    using read_at_hit [OF assms(1) lsm_invD(1) [OF assms(2)]] Some by simp
  moreover have "\<not> (\<forall>e\<in>all_versions env eng. \<not> visible_to k s (fst e))"
    using n unfolding newest_visible_def by blast
  ultimately show ?thesis using n by (metis sum.inject(2))
qed

lemma read_at_total:
  assumes "env_ok env" and "lsm_inv env eng"
  obtains v where "lsm_read_at env eng k s = Inr v"
  using read_at_hit [OF assms(1) lsm_invD(1) [OF assms(2)]] by blast

lemma lsm_read_at_extend:
  assumes env: "env_ok env" and inv: "lsm_inv env eng" "lsm_inv env eng'"
    and dist: "distinct (map write_key es)" and q: "\<forall>x\<in>all_versions env eng. seq (fst x) < q"
    and all: "all_versions env eng' = all_versions env eng \<union> batch_version q ` set es"
  shows "lsm_read_at env eng' k s =
    (case map_of (map snd es) k of
       Some v \<Rightarrow> if q \<le> s then Inr v else lsm_read_at env eng k s
     | None \<Rightarrow> lsm_read_at env eng k s)"
proof -
  note ext = newest_visible_extend [OF q dist]
  have mem: "k \<in> write_key ` set es \<longleftrightarrow> map_of (map snd es) k \<noteq> None"
    by (auto simp: map_of_eq_None_iff image_iff)
  have val: "map_of (map snd es) k = Some (snd (snd x))" if "x \<in> set es" "write_key x = k" for x
    using that dist by (intro map_of_is_SomeI) (auto simp: comp_def image_iff intro: bexI [of _ x])
  show ?thesis
  proof (cases "q \<le> s \<and> k \<in> write_key ` set es")
    case True
    then obtain x where x: "x \<in> set es" "write_key x = k" by auto
    with True ext have "newest_visible (all_versions env eng') k s (batch_version q x)"
      unfolding all by auto
    then have "lsm_read_at env eng' k s = Inr (snd (snd x))"
      using read_at_newest [OF env inv(2)] batch_version_simps(4) by metis
    with val [OF x] True show ?thesis by simp
  next
    case False
    obtain v where v: "lsm_read_at env eng k s = Inr v" using read_at_total [OF env inv(1)] .
    have vis: "(\<forall>e\<in>all_versions env eng'. \<not> visible_to k s (fst e))
        \<longleftrightarrow> (\<forall>e\<in>all_versions env eng. \<not> visible_to k s (fst e))"
    proof -
      have "\<not> visible_to k s (fst (batch_version q x))" if "x \<in> set es" for x
        using that False by (auto simp: visible_to_def)
      then show ?thesis unfolding all by blast
    qed
    have "newest_visible (all_versions env eng') k s e \<longleftrightarrow> newest_visible (all_versions env eng) k s e" for e
      unfolding all ext if_not_P [OF False] by (rule refl)
    with v vis have "lsm_read_at env eng' k s = Inr v"
      using read_at_newest [OF env inv(1)] read_at_newest [OF env inv(2)] by simp
    with v False mem show ?thesis by (auto split: option.splits)
  qed
qed

text \<open>A scan against the reads it must agree with.\<close>

lemma scan_at_reads:
  assumes "env_ok env" and "lsm_inv env eng"
  shows "\<exists>kvs. lsm_scan_at env eng s = Inr kvs \<and> bt_wf kvs
    \<and> (\<forall>k v. (k, v) \<in> set kvs \<longleftrightarrow> lsm_read_at env eng k s = Inr (Some v))"
proof -
  let ?f = "\<lambda>(k :: bytes, v). map_option (\<lambda>v :: bytes. (k, v)) v"
  obtain m where m: "lsm_scan_at env eng s = Inr (List.map_filter ?f m)" "bt_wf m"
    "\<And>k. bt_get m k = map_option version_value (first_hit (layers env eng) k s)"
    using scan_at_hit [OF assms(1) lsm_invD(1) [OF assms(2)]] by blast
  have sub: "fst ` set (List.map_filter ?f m) \<subseteq> fst ` set m" for m
    by (force simp: List.map_filter_def)
  have wf: "bt_wf (List.map_filter ?f m)" if "bt_wf m" for m
    using that
  proof (induction m)
    case Nil
    then show ?case by (simp add: List.map_filter_def)
  next
    case (Cons x m)
    then show ?case using sub [of m]
      by (cases x; cases "snd x") (auto simp: List.map_filter_def bt_wf_Cons)
  qed
  have get: "(k, v) \<in> set (List.map_filter ?f m) \<longleftrightarrow> bt_get m k = Some (Some v)" for k v
    unfolding bt_get_Some_iff [OF m(2)] by (force simp: List.map_filter_def)
  have "bt_get m k = Some (Some v) \<longleftrightarrow> lsm_read_at env eng k s = Inr (Some v)" for k v
    using m(3) [of k] read_at_hit [OF assms(1) lsm_invD(1) [OF assms(2)], of k s]
    by (cases "first_hit (layers env eng) k s") auto
  with get m(1) wf [OF m(2)] show ?thesis by blast
qed

section \<open>A concrete engine\<close>

definition demo_env :: "(u64w, entry list, local_fs) lsm_env" where
  "demo_env = \<lparr>env_bloom = word_bloom, env_skip = list_skip_map, env_store = local_fs_store id,
     env_manifest = bincode_layout, env_shard_count = None, env_threshold = None\<rparr>"

definition demo_lease :: lease_handle where
  "demo_lease = \<lparr>lh_token = 1, lh_valid = True\<rparr>"

text \<open>An engine with nothing flushed whose memory table holds the given versions.\<close>

definition demo_engine :: "entry list \<Rightarrow> nat \<Rightarrow> (u64w, entry list, local_fs) lsm_engine" where
  "demo_engine es q = \<lparr>lsm_write = \<lparr>ws_wal = wal_open [], ws_sstable_id = 1, ws_wal_seg_id = 1,
       ws_manifest_etag = None, ws_committed_wal_segment_seq = 0, ws_next_commit_seq = q,
       ws_open_snapshots = []\<rparr>,
     lsm_view = \<lparr>ev_memtable = \<lparr>mt_data = es, mt_size_bytes = 0, mt_max_size = MEMTABLE_MAX_SIZE\<rparr>,
       ev_immutable = None, ev_sstables = []\<rparr>,
     lsm_store = local_open [], lsm_lease = demo_lease\<rparr>"

lemma demo_env_ok: "env_ok demo_env"
  by (simp add: env_ok_def demo_env_def lskip.skip_map_axioms wb.bloom_filter_axioms)

lemma demo_layers: "bt_wf es \<Longrightarrow> layers demo_env (demo_engine es q) = [es]"
  by (simp add: layers_def mem_layers_def sst_layers_def demo_engine_def demo_env_def mt_to_entries_def
      list_skip_map_def checked_def)

lemma demo_engine_inv:
  "bt_wf es \<Longrightarrow> list_all (\<lambda>e. seq (fst e) < q \<and> plain e) es \<Longrightarrow> lsm_inv demo_env (demo_engine es q)"
  by (simp add: lsm_inv_def all_versions_def demo_layers layered_def list_all_iff)
    (simp add: demo_engine_def)

lemma demo_quiescent: "quiescent demo_env (demo_engine es q)"
  by (simp add: quiescent_def demo_engine_def)

definition demo_entries :: "entry list" where
  "demo_entries = [(InternalKey [97] 2 2, []), (InternalKey [97] 1 0, [7]), (InternalKey [98] 1 0, [8])]"

lemma demo_entries_inv: "lsm_inv demo_env (demo_engine demo_entries 3)"
  by (rule demo_engine_inv) (simp_all add: demo_entries_def bt_wf_Cons ik_less_iff plain_def is_delete_def DELETE_TAG_def)

lemma demo_entries_wf: "bt_wf demo_entries"
  by (simp add: demo_entries_def bt_wf_Cons ik_less_iff)

lemma demo_all: "all_versions demo_env (demo_engine demo_entries 3) = set demo_entries"
  by (simp add: all_versions_def demo_layers demo_entries_wf)

section \<open>Properties\<close>

text \<open>C1: a read at a snapshot returns the newest version of the key at or below it among all
  versions the engine holds, in memory, frozen or in tables: its value, or nothing for a
  tombstone; and nothing when no version is visible. It never fails on valid tables.\<close>

theorem lsm_read_at_correct:
  assumes "env_ok env" and "lsm_inv env eng"
  shows "\<exists>v. lsm_read_at env eng k s = Inr v \<and>
    ((\<exists>e. newest_visible (all_versions env eng) k s e \<and> v = version_value e)
     \<or> (\<forall>e\<in>all_versions env eng. \<not> visible_to k s (fst e)) \<and> v = None)"
  using read_at_total [OF assms, of k s] read_at_newest [OF assms, of k s] by metis

text \<open>C12: a scan at a snapshot lists, in key order and each once, exactly the keys whose read at that
  snapshot gives a value, with that value.\<close>

theorem lsm_scan_at_correct:
  assumes "env_ok env" and "lsm_inv env eng"
  shows "\<exists>kvs. lsm_scan_at env eng s = Inr kvs \<and> bt_wf kvs
    \<and> (\<forall>k v. (k, v) \<in> set kvs \<longleftrightarrow> lsm_read_at env eng k s = Inr (Some v))"
  using scan_at_reads [OF assms] .

text \<open>C4: snapshot isolation of a batch. On an engine with no frozen memory table waiting to be flushed, a
  batch of writes to distinct keys that succeeds takes the next commit sequence number; a snapshot at or after it reads the batch's value (or its
  delete) for every key of the batch and what it read before for every other key; a snapshot
  before it reads exactly what it read before. The invariant is kept, also when the batch
  fills the memory table and freezes it.\<close>

theorem write_batch_snapshot_isolation:
  assumes env: "env_ok env" and inv: "lsm_inv env eng" and qui: "quiescent env eng"
    and dist: "distinct (map write_key es)" and small: "ws_next_commit_seq (lsm_write eng) + 1 < 2 ^ 64"
    and wb: "write_batch env Done es eng = (eng', Inr (q, pending))"
  shows "q = ws_next_commit_seq (lsm_write eng) \<and> ws_next_commit_seq (lsm_write eng') = q + 1 \<and> lsm_inv env eng'
    \<and> (\<forall>k s. lsm_read_at env eng' k s =
        (case map_of (map snd es) k of
           Some v \<Rightarrow> if q \<le> s then Inr v else lsm_read_at env eng k s
         | None \<Rightarrow> lsm_read_at env eng k s))"
proof -
  let ?q = "ws_next_commit_seq (lsm_write eng)"
  obtain w where w: "q = ?q \<and> (eng' = after_inserts env es w eng \<or>
      begin_flush env (after_inserts env es w eng) = (eng', Inr pending))"
    by (rule write_batch_Done [OF wb]) auto
  let ?eng1 = "after_inserts env es w eng"
  note ai = after_inserts_layers [OF env inv dist refl small, of w]
  have q1: "quiescent env ?eng1" using qui by (simp add: quiescent_def after_inserts_def Let_def)
  have n1: "ws_next_commit_seq (lsm_write ?eng1) = ?q + 1"
    using small by (simp add: after_inserts_def Let_def)
  have q: "q = ?q" using w by auto
  have "lsm_inv env eng' \<and> all_versions env eng' = all_versions env ?eng1
      \<and> ws_next_commit_seq (lsm_write eng') = ?q + 1"
    using w ai(1) n1 begin_flush_keeps [OF env ai(1) q1] by auto
  then have "lsm_inv env eng'" "all_versions env eng' = all_versions env eng \<union> batch_version ?q ` set es"
    "ws_next_commit_seq (lsm_write eng') = ?q + 1"
    using ai(2) by auto
  with lsm_read_at_extend [OF env inv _ dist lsm_invD(3) [OF inv]] show ?thesis unfolding q by simp
qed

lemma create_in_store_valid:
  assumes "bloom_filter bl" and "sst_ok bl es" and "list_all plain es"
    and "create_in_store bl os key ident es s = (s', Inr t)"
  shows "sst_valid bl t" "sst_entries t = es" "sst_id t = ident" "sst_key t = key" "sst_data t = build_bytes bl es"
    "sst_decode bl key ident (build_bytes bl es) = Inr t"
proof -
  have d: "sst_decode bl key ident (build_bytes bl es) = Inr t"
    using assms(4) by (auto simp: create_in_store_def Let_def split: prod.splits sum.splits)
  with bloom_filter.decode_build [OF assms(1,2), of key ident]
  have t: "sst_repr bl t es" "sst_key t = key" "sst_id t = ident" "sst_data t = build_bytes bl es" by auto
  have "bt_wf es" using assms(2) by (simp add: sst_ok_def)
  with t assms(3) show "sst_valid bl t" "sst_entries t = es" "sst_id t = ident" "sst_key t = key"
    "sst_data t = build_bytes bl es" by (auto intro: sst_repr_valid sst_repr_entries)
  show "sst_decode bl key ident (build_bytes bl es) = Inr t" by (rule d)
qed

lemma finish_flush_valid:
  assumes "env_ok env" and "sst_ok (env_bloom env) (pf_entries p)" and "list_all plain (pf_entries p)"
    and "finish_flush env p eng = (eng', Inr t)"
  shows "sst_valid (env_bloom env) t \<and> sst_entries t = pf_entries p"
  using assms(4) create_in_store_valid(1,2) [OF env_okD(2) [OF assms(1)] assms(2,3)]
  by (auto simp: finish_flush_def split: prod.splits sum.splits)

text \<open>C8: a flush of an engine with no frozen table yet changes no read, for rows within the limits of the
  table format. Freezing the memory table keeps every read at every snapshot;
  the table built from it, whatever else was written while it was built, replaces the frozen
  memory table without changing any read at any snapshot, whether the commit succeeds or
  fails at any of its steps.\<close>

theorem flush_preserves_reads:
  assumes env: "env_ok env" and inv: "lsm_inv env eng" and qui: "quiescent env eng"
    and bf: "begin_flush env eng = (eng1, Inr (Some p))"
    and inv2: "lsm_inv env eng2" and same: "ev_immutable (lsm_view eng2) = ev_immutable (lsm_view eng1)"
    and ok: "sst_ok (env_bloom env) (pf_entries p)"
    and ff: "finish_flush env p eng2 = (eng3, Inr sst)" and cf: "commit_flush env p sst eng3 = (eng4, r)"
  shows "lsm_inv env eng4 \<and> (\<forall>k s. lsm_read_at env eng1 k s = lsm_read_at env eng k s)
    \<and> (\<forall>k s. lsm_read_at env eng4 k s = lsm_read_at env eng2 k s)"
proof -
  note b = begin_flush_keeps [OF env inv qui bf]
  obtain imm where imm: "ev_immutable (lsm_view eng1) = Some imm" "pf_entries p = mt_to_entries (env_skip env) imm"
    "pf_entries p = mt_to_entries (env_skip env) (ev_memtable (lsm_view eng))"
    using b(4) by blast
  have "set (pf_entries p) \<subseteq> all_versions env eng"
    by (auto simp: imm(3) all_versions_def layers_def mem_layers_def)
  then have "list_all plain (pf_entries p)" using lsm_invD(4) [OF inv] by (auto simp: list_all_iff)
  from finish_flush_valid [OF env ok this ff] have sst: "sst_valid (env_bloom env) sst" "sst_entries sst = pf_entries p"
    by auto
  have v: "lsm_view eng3 = lsm_view eng2" "lsm_write eng3 = lsm_write eng2" using finish_flush_keeps [OF ff] by auto
  have inv3: "lsm_inv env eng3" by (rule lsm_inv_view [OF inv2]) (simp_all add: v)
  note c = commit_flush_keeps [OF env inv3 _ _ sst(1) cf, of imm]
  have "lsm_inv env eng4" "all_versions env eng4 = all_versions env eng3"
    using c v same imm sst by auto
  then show ?thesis
    using read_at_cong [OF env _ inv3] read_at_cong [OF env b(1) inv b(2)] read_at_view [OF v(1)] by metis
qed

section \<open>Witnesses\<close>

theorem lsm_read_at_correct_witness:
  "lsm_read_at demo_env (demo_engine demo_entries 3) [97] 1 = Inr (Some [7])
   \<and> lsm_read_at demo_env (demo_engine demo_entries 3) [97] 2 = Inr None"
proof -
  let ?V = "all_versions demo_env (demo_engine demo_entries 3)"
  have u1: "\<not> (\<forall>e\<in>?V. \<not> visible_to [97] 1 (fst e))" and u2: "\<not> (\<forall>e\<in>?V. \<not> visible_to [97] 2 (fst e))"
    unfolding demo_all by (simp_all add: demo_entries_def visible_to_def)
  have n1: "version_value e = Some [7]" if "newest_visible ?V [97] 1 e" for e
    using that unfolding demo_all
    by (auto simp: newest_visible_def demo_entries_def visible_to_def version_value_def
        is_delete_def DELETE_TAG_def)
  have n2: "version_value e = None" if "newest_visible ?V [97] 2 e" for e
    using that unfolding demo_all
    by (auto simp: newest_visible_def demo_entries_def visible_to_def version_value_def ik_le_iff
        is_delete_def DELETE_TAG_def)
  show ?thesis
    using lsm_read_at_correct [OF demo_env_ok demo_entries_inv, of "[97]" 1]
      lsm_read_at_correct [OF demo_env_ok demo_entries_inv, of "[97]" 2] u1 u2 n1 n2 by metis
qed

theorem lsm_scan_at_correct_witness:
  "\<exists>kvs. lsm_scan_at demo_env (demo_engine demo_entries 3) 2 = Inr kvs \<and> bt_wf kvs
    \<and> ([98], [8]) \<in> set kvs"
proof -
  have "lsm_read_at demo_env (demo_engine demo_entries 3) [98] 2 = Inr (Some [8])"
    by (simp add: lsm_read_at_def demo_env_def demo_engine_def mt_get_at_def list_skip_map_def checked_def
        demo_entries_wf) (simp add: demo_entries_def ik_seek_def ik_le_iff PUT_TAG_def is_delete_def DELETE_TAG_def)
  with lsm_scan_at_correct [OF demo_env_ok demo_entries_inv, of 2] show ?thesis by blast
qed

lemma demo_write:
  "write_batch demo_env Done [([116], [97], Some [9]), ([116], [98], None)] (demo_engine demo_entries 3)
    = (fst (write_batch demo_env Done [([116], [97], Some [9]), ([116], [98], None)] (demo_engine demo_entries 3)),
       Inr (3, None))"
  by (simp add: write_batch_def append_batch_def io_append_def Let_def demo_engine_def insert_entry_def mt_insert_def
      mt_is_full_def MEMTABLE_MAX_SIZE_def)

theorem write_batch_snapshot_isolation_witness:
  "lsm_read_at demo_env (fst (write_batch demo_env Done [([116], [97], Some [9]), ([116], [98], None)]
      (demo_engine demo_entries 3))) [97] 3 = Inr (Some [9])
   \<and> lsm_read_at demo_env (fst (write_batch demo_env Done [([116], [97], Some [9]), ([116], [98], None)]
      (demo_engine demo_entries 3))) [98] 3 = Inr None"
  using write_batch_snapshot_isolation [OF demo_env_ok demo_entries_inv demo_quiescent _ _ demo_write]
  by (simp add: demo_engine_def)

lemma demo_sst_ok: "sst_ok word_bloom demo_entries"
  by (simp add: sst_ok_def demo_entries_def bt_wf_Cons ik_less_iff build_bytes_eq word_bloom_def
      stored_data_def data_record_def DELETE_TAG_def index_bytes_def bloom_bytes_def sip_bytes_def)

theorem flush_preserves_reads_witness:
  "\<exists>eng1 p eng3 sst eng4 r. begin_flush demo_env (demo_engine demo_entries 3) = (eng1, Inr (Some p))
    \<and> finish_flush demo_env p eng1 = (eng3, Inr sst) \<and> commit_flush demo_env p sst eng3 = (eng4, r)
    \<and> (\<forall>k s. lsm_read_at demo_env eng4 k s = lsm_read_at demo_env eng1 k s)"
proof -
  let ?eng = "demo_engine demo_entries 3"
  obtain eng1 p where bf: "begin_flush demo_env ?eng = (eng1, Inr (Some p))" and p: "pf_entries p = demo_entries"
    and f: "faults (lsm_store eng1) = []"
  proof -
    have e: "mt_to_entries (env_skip demo_env) (ev_memtable (lsm_view ?eng)) = demo_entries"
      by (simp add: demo_engine_def demo_env_def mt_to_entries_def list_skip_map_def checked_def demo_entries_wf)
    moreover have "demo_entries \<noteq> []" by (simp add: demo_entries_def)
    moreover have "lh_valid (lsm_lease ?eng)" "faults (lsm_store ?eng) = []"
      by (simp_all add: demo_engine_def demo_lease_def local_open_def)
    ultimately show thesis
      by (intro that [of "fst (begin_flush demo_env ?eng)" "the (projr (snd (begin_flush demo_env ?eng)))"])
        (simp_all add: begin_flush_def Let_def)
  qed
  obtain eng3 sst where ff: "finish_flush demo_env p eng1 = (eng3, Inr sst)"
    using wb.decode_build [OF demo_sst_ok, of "pf_sst_key p" "pf_sstable_id p"] f
    by (auto simp: finish_flush_def create_in_store_def p demo_env_def local_fs_store_def local_no_faults)
  obtain eng4 r where cf: "commit_flush demo_env p sst eng3 = (eng4, r)" by (cases "commit_flush demo_env p sst eng3")
  have inv1: "lsm_inv demo_env eng1"
    using begin_flush_keeps(1) [OF demo_env_ok demo_entries_inv demo_quiescent bf] .
  have ok: "sst_ok (env_bloom demo_env) (pf_entries p)" using demo_sst_ok p by (simp add: demo_env_def)
  from flush_preserves_reads [OF demo_env_ok demo_entries_inv demo_quiescent bf inv1 refl ok ff cf] bf ff cf
  show ?thesis by blast
qed

section \<open>Operations during a flush\<close>

text \<open>
  The engine has room for one frozen memory table, and its lock is released while the table is
  uploaded. A second flush that starts before the first one is committed, or after it failed,
  replaces the frozen table: a row that was only there is no longer read. And a flush that commits
  cuts the whole log, with the batches that were acknowledged since it began and are only in memory.
\<close>

lemma second_flush_drops_frozen:
  assumes "env_ok env" and "lh_valid (lsm_lease eng)" and "ev_immutable (lsm_view eng) = Some imm"
    and "mt_get_at (env_skip env) (ev_memtable (lsm_view eng)) k s = None"
    and "mt_get_at (env_skip env) imm k s = Some v"
    and "read_sstables (env_bloom env) (rev (ev_sstables (lsm_view eng))) k s = Inr None"
  shows "lsm_read_at env eng k s = Inr v" "lsm_read_at env (fst (begin_flush env eng)) k s = Inr None"
proof -
  note sm = env_okD(1) [OF assms(1)]
  have "mt_get_at (env_skip env) (mt_new (env_skip env) n) k s = None" for n
    by (simp add: skip_map.mt_get_at_visible [OF sm] skip_map.mt_to_entries_new [OF sm] visible_in_def)
  then show "lsm_read_at env eng k s = Inr v" "lsm_read_at env (fst (begin_flush env eng)) k s = Inr None"
    using assms by (simp_all add: lsm_read_at_def begin_flush_def Let_def)
qed

lemma commit_flush_cuts_log:
  assumes "commit_flush env p sst eng = (eng', Inr pc)"
  shows "read_all_bytes (ws_wal (lsm_write eng')) = []" "ev_memtable (lsm_view eng') = ev_memtable (lsm_view eng)"
  using commit_flush_success(2,3) [OF assms] by (simp_all add: read_all_bytes_def wal_truncate_def io_truncate_def)

end
