(* ===== verification/Lsm_Compact.thy ===== *)
theory Lsm_Compact
  imports Lsm_Writes
begin

text \<open>
  Compaction: grouping the versions of all captured tables by key, keeping those at or above
  the watermark and one floor version below it, and what that preserves: every read at a
  snapshot that was open when the compaction began, or taken later.
\<close>

section \<open>Grouping\<close>

definition triple_of :: "entry \<Rightarrow> nat \<times> byte \<times> bytes option" where
  "triple_of e = (seq (fst e), tag (fst e), version_value e)"

abbreviation versions_for :: "bytes \<Rightarrow> entry list \<Rightarrow> (nat \<times> byte \<times> bytes option) list" where
  "versions_for k es \<equiv> map triple_of (filter (\<lambda>e. user_key (fst e) = k) es)"

lemma group_foldl:
  "bt_wf m \<Longrightarrow> bt_wf (foldl group_version m (map version_of es))
   \<and> bt_get (foldl group_version m (map version_of es)) k =
      (if versions_for k es = [] then bt_get m k
       else Some ((case bt_get m k of Some vs \<Rightarrow> vs | None \<Rightarrow> []) @ versions_for k es))"
proof (induction es arbitrary: m)
  case Nil
  then show ?case by simp
next
  case (Cons e es)
  let ?m = "group_version m (version_of e)"
  have m: "?m = bt_insert (user_key (fst e))
      ((case bt_get m (user_key (fst e)) of Some vs \<Rightarrow> vs | None \<Rightarrow> []) @ [triple_of e]) m"
    by (simp add: group_version_def version_of_def triple_of_def)
  have "bt_wf ?m" using Cons.prems m by (simp add: bt_wf_insert)
  from Cons.IH [OF this] show ?case
    by (auto simp: m bt_get_insert split: option.splits)
qed

lemma group_sstables_eq:
  "\<forall>t\<in>set ts. sst_valid bl t \<Longrightarrow>
   group_sstables ts m = Inr (foldl group_version m (map version_of (concat (map sst_entries ts))))"
  by (induction ts arbitrary: m) (auto simp: sst_valid_scan)

section \<open>Retaining\<close>

definition entry_of :: "bytes \<Rightarrow> nat \<times> byte \<times> bytes option \<Rightarrow> entry" where
  "entry_of k v = (case v of (q, tg, val) \<Rightarrow> (InternalKey k q tg, case val of Some x \<Rightarrow> x | None \<Rightarrow> []))"

lemma entry_of_triple: "plain e \<Longrightarrow> entry_of (user_key (fst e)) (triple_of e) = e"
  by (cases e) (auto simp: entry_of_def triple_of_def version_value_def plain_def)

lemma entry_of_simps [simp]:
  "user_key (fst (entry_of k v)) = k" "seq (fst (entry_of k v)) = fst v" "tag (fst (entry_of k v)) = fst (snd v)"
  by (simp_all add: entry_of_def split: prod.splits)

lemma retain_set:
  "sorted_wrt (\<lambda>a b. fst b < fst a) vs \<Longrightarrow> set (retain_versions w k vs) =
     entry_of k ` {v \<in> set vs. w \<le> fst v \<or>
       (\<forall>u\<in>set vs. fst u < w \<longrightarrow> fst u \<le> fst v) \<and> \<not> (w = u64_max \<and> fst (snd v) = DELETE_TAG)}"
proof (induction vs)
  case Nil
  then show ?case by simp
next
  case (Cons v vs)
  obtain q tg val where v: "v = (q, tg, val)" by (cases v) auto
  have older: "\<forall>u\<in>set vs. fst u < q" using Cons.prems v by auto
  show ?case
  proof (cases "w \<le> q")
    case True
    then have "{x \<in> set (v # vs). w \<le> fst x \<or> (\<forall>u\<in>set (v # vs). fst u < w \<longrightarrow> fst u \<le> fst x)
          \<and> \<not> (w = u64_max \<and> fst (snd x) = DELETE_TAG)} =
        insert v {x \<in> set vs. w \<le> fst x \<or> (\<forall>u\<in>set vs. fst u < w \<longrightarrow> fst u \<le> fst x)
          \<and> \<not> (w = u64_max \<and> fst (snd x) = DELETE_TAG)}"
      by (auto simp: v)
    with True Cons show ?thesis by (simp add: v entry_of_def)
  next
    case False
    have "{x \<in> set (v # vs). w \<le> fst x \<or> (\<forall>u\<in>set (v # vs). fst u < w \<longrightarrow> fst u \<le> fst x)
          \<and> \<not> (w = u64_max \<and> fst (snd x) = DELETE_TAG)} =
        (if w = u64_max \<and> tg = DELETE_TAG then {} else {v})"
      using False older by (force simp: v)
    with False show ?thesis by (auto simp: v entry_of_def)
  qed
qed

lemma retain_keys: "e \<in> set (retain_versions w k vs) \<Longrightarrow> user_key (fst e) = k \<and> seq (fst e) \<in> fst ` set vs"
  by (induction vs) (auto split: if_splits)

lemma retain_distinct: "distinct (map fst vs) \<Longrightarrow> distinct (map fst (retain_versions w k vs))"
proof (induction vs)
  case Nil
  then show ?case by simp
next
  case (Cons v vs)
  obtain q tg val where v: "v = (q, tg, val)" by (cases v) auto
  have "InternalKey k q tg \<notin> fst ` set (retain_versions w k vs)"
    using Cons.prems retain_keys [of _ w k vs] by (force simp: v)
  with Cons show ?case by (simp add: v)
qed

lemma sort_desc_strict:
  assumes "distinct (map fst vs)"
  shows "sorted_wrt (\<lambda>a b. fst b < fst a) (sort_key (\<lambda>v. - int (fst v)) vs)" (is "sorted_wrt _ ?s")
proof -
  have inj: "inj_on fst (set ?s)" using assms by (simp add: distinct_map)
  have d: "distinct ?s" using assms by (simp add: distinct_map)
  have s: "sorted_wrt (\<le>) (map (\<lambda>v. - int (fst v)) ?s)" by simp
  have "sorted_wrt (\<lambda>a b. a \<noteq> b \<and> - int (fst a) \<le> - int (fst b)) ?s"
    using s d by (induction ?s) (auto simp: sorted_wrt_map sorted_wrt_iff_nth_less distinct_conv_nth)
  then show ?thesis
    by (rule sorted_wrt_mono_rel [rotated]) (use inj in \<open>auto simp: inj_on_def less_le\<close>)
qed

section \<open>The merged table\<close>

text \<open>No two versions of a key share a sequence number: batches write distinct keys.\<close>

definition unique_seqs :: "entry set \<Rightarrow> bool" where
  "unique_seqs V \<longleftrightarrow>
     (\<forall>x\<in>V. \<forall>y\<in>V. user_key (fst x) = user_key (fst y) \<and> seq (fst x) = seq (fst y) \<longrightarrow> x = y)"

definition retained :: "nat \<Rightarrow> entry set \<Rightarrow> entry set" where
  "retained w V = {e \<in> V. w \<le> seq (fst e) \<or>
     (\<forall>x\<in>V. user_key (fst x) = user_key (fst e) \<and> seq (fst x) < w \<longrightarrow> seq (fst x) \<le> seq (fst e))
     \<and> \<not> (w = u64_max \<and> is_delete (fst e))}"

lemma versions_for_distinct:
  assumes "\<forall>l\<in>set ls. bt_wf l" and "layered (rev ls)" and "unique_seqs (set (concat ls))"
  shows "distinct (map fst (versions_for k (concat ls)))"
  using assms
proof (induction ls)
  case Nil
  then show ?case by simp
next
  case (Cons l ls)
  have IH: "distinct (map fst (versions_for k (concat ls)))"
    by (rule Cons.IH) (use Cons.prems in \<open>auto simp: layered_def sorted_wrt_append unique_seqs_def\<close>)
  have cross: "seq (fst y) < seq (fst x)" if "x \<in> set (concat ls)" "y \<in> set l" "user_key (fst x) = user_key (fst y)" for x y
    using Cons.prems(2) that by (auto simp: layered_def sorted_wrt_append newer_layer_def)
  have own: "distinct (map fst (versions_for k l))"
  proof -
    have "distinct (filter (\<lambda>e. user_key (fst e) = k) l)"
      using bt_wf_distinct [of l] Cons.prems(1) by (simp add: distinct_map)
    moreover have "inj_on (\<lambda>e. seq (fst e)) (set (filter (\<lambda>e. user_key (fst e) = k) l))"
    proof (rule inj_onI)
      fix x y assume "x \<in> set (filter (\<lambda>e. user_key (fst e) = k) l)" "y \<in> set (filter (\<lambda>e. user_key (fst e) = k) l)"
        "seq (fst x) = seq (fst y)"
      then show "x = y" using Cons.prems(3) unfolding unique_seqs_def by auto
    qed
    ultimately show ?thesis by (simp add: distinct_map triple_of_def comp_def)
  qed
  have "fst ` set (versions_for k l) \<inter> fst ` set (versions_for k (concat ls)) = {}"
  proof -
    have "seq (fst x) \<noteq> seq (fst y)" if "x \<in> set l" "y \<in> set (concat ls)" "user_key (fst x) = k" "user_key (fst y) = k"
      for x y using cross [OF that(2,1)] that by simp
    then show ?thesis by (fastforce simp: triple_of_def)
  qed
  with IH own show ?case by (simp add: image_image)
qed

lemma distinct_concat_keys:
  assumes "distinct (map fst xs)" and "\<And>x. x \<in> set xs \<Longrightarrow> distinct (map f (r x))"
    and key: "\<And>x y. y \<in> set (r x) \<Longrightarrow> g (f y) = fst x"
  shows "distinct (map f (concat (map r xs)))"
  using assms(1,2)
proof (induction xs)
  case Nil
  then show ?case by simp
next
  case (Cons x xs)
  have "f ` set (r x) \<inter> f ` set (concat (map r xs)) = {}"
  proof (rule ccontr)
    assume "f ` set (r x) \<inter> f ` set (concat (map r xs)) \<noteq> {}"
    then obtain y z u where "y \<in> set (r x)" "u \<in> set xs" "z \<in> set (r u)" "f y = f z" by auto
    then have "fst u = fst x" using key by metis
    with Cons.prems(1) \<open>u \<in> set xs\<close> show False by (force simp: image_iff)
  qed
  with Cons show ?case by simp
qed

lemma compact_entries_spec:
  assumes wf: "\<forall>l\<in>set ls. bt_wf l" and lay: "layered (rev ls)" and uniq: "unique_seqs (set (concat ls))"
    and plain: "\<forall>e\<in>set (concat ls). plain e"
    and by_key: "by_key = foldl group_version [] (map version_of (concat ls))"
  shows "set (compact_entries w by_key) = retained w (set (concat ls))" "bt_wf (compact_entries w by_key)"
proof -
  let ?V = "set (concat ls)" and ?L = "\<lambda>k. versions_for k (concat ls)"
  let ?r = "\<lambda>(k, vs). retain_versions w k (sort_key (\<lambda>v. - int (fst v)) vs)"
  have bk: "bt_wf by_key" and get: "\<And>k. bt_get by_key k = (if ?L k = [] then None else Some (?L k))"
    using group_foldl [of "[]" "concat ls"] by (simp_all add: by_key)
  have mem: "(k, vs) \<in> set by_key \<longleftrightarrow> vs = ?L k \<and> ?L k \<noteq> []" for k vs
    using bt_get_Some_iff [OF bk, of k vs] get [of k] by (metis option.distinct(1) option.inject)
  have dist: "distinct (map fst (?L k))" for k by (rule versions_for_distinct [OF wf lay uniq])
  have in_r: "e \<in> set (?r (k, ?L k)) \<longleftrightarrow> e \<in> retained w ?V \<and> user_key (fst e) = k" for e k
  proof -
    have "set (?r (k, ?L k)) = entry_of k ` {v \<in> set (?L k). w \<le> fst v \<or>
       (\<forall>u\<in>set (?L k). fst u < w \<longrightarrow> fst u \<le> fst v) \<and> \<not> (w = u64_max \<and> fst (snd v) = DELETE_TAG)}"
      using retain_set [OF sort_desc_strict [OF dist [of k]], of w k] by simp
    also have "\<dots> = {e \<in> retained w ?V. user_key (fst e) = k}" (is "?A = ?B")
    proof (intro set_eqI iffI)
      fix e assume "e \<in> ?A"
      then obtain v where v: "v \<in> set (?L k)" "e = entry_of k v" and c: "w \<le> fst v \<or>
          (\<forall>u\<in>set (?L k). fst u < w \<longrightarrow> fst u \<le> fst v) \<and> \<not> (w = u64_max \<and> fst (snd v) = DELETE_TAG)"
        by blast
      from v(1) obtain x where x: "x \<in> ?V" "user_key (fst x) = k" "v = triple_of x" by auto
      then have ex: "e = x" using entry_of_triple [of x] plain v(2) by auto
      have low: "seq (fst y) \<le> seq (fst x)"
        if "\<forall>u\<in>set (?L k). fst u < w \<longrightarrow> fst u \<le> fst v" "y \<in> ?V" "user_key (fst y) = k" "seq (fst y) < w" for y
      proof -
        have "triple_of y \<in> set (?L k)" using that by auto
        with that(1) have "fst (triple_of y) < w \<longrightarrow> fst (triple_of y) \<le> fst v" by (rule bspec)
        with that(4) show ?thesis by (simp add: triple_of_def x(3))
      qed
      have fv: "fst v = seq (fst x)" "fst (snd v) = tag (fst x)" by (simp_all add: x(3) triple_of_def)
      have "w \<le> seq (fst x) \<or> (\<forall>y\<in>?V. user_key (fst y) = user_key (fst x) \<and> seq (fst y) < w \<longrightarrow> seq (fst y) \<le> seq (fst x))
          \<and> \<not> (w = u64_max \<and> is_delete (fst x))"
        using c low unfolding fv is_delete_def x(2) by blast
      with x ex show "e \<in> ?B" unfolding retained_def by blast
    next
      fix e assume e: "e \<in> ?B"
      then have "e = entry_of k (triple_of e)" "triple_of e \<in> set (?L k)"
        using entry_of_triple [of e] plain by (auto simp: retained_def)
      moreover have "w \<le> fst (triple_of e) \<or> (\<forall>u\<in>set (?L k). fst u < w \<longrightarrow> fst u \<le> fst (triple_of e))
          \<and> \<not> (w = u64_max \<and> fst (snd (triple_of e)) = DELETE_TAG)"
        using e by (fastforce simp: retained_def is_delete_def triple_of_def)
      ultimately show "e \<in> ?A" by blast
    qed
    finally show ?thesis by auto
  qed
  have keys: "e \<in> set (?r x) \<Longrightarrow> user_key (fst e) = fst x" for e x
    by (cases x) (auto dest: retain_keys)
  have "set (compact_entries w by_key) = (\<Union>x\<in>set by_key. set (?r x))" by (simp add: compact_entries_def)
  also have "\<dots> = retained w ?V"
  proof (intro set_eqI iffI)
    fix e assume "e \<in> (\<Union>x\<in>set by_key. set (?r x))"
    then obtain x where x0: "x \<in> set by_key" "e \<in> set (?r x)" by blast
    obtain k vs where "x = (k, vs)" by (cases x)
    with x0 have x: "(k, vs) \<in> set by_key" "e \<in> set (?r (k, vs))" by simp_all
    have vs: "vs = ?L k" using x(1) mem [of k vs] by (simp only:)
    have "e \<in> set (?r (k, ?L k))" using x(2) unfolding vs .
    then show "e \<in> retained w ?V" unfolding in_r by (rule conjunct1)
  next
    fix e assume e: "e \<in> retained w ?V"
    let ?k = "user_key (fst e)"
    have r: "e \<in> set (?r (?k, ?L ?k))" unfolding in_r using e by simp
    have "?L ?k \<noteq> []" using e by (auto simp: retained_def filter_empty_conv)
    then have "(?k, ?L ?k) \<in> set by_key" unfolding mem by simp
    then show "e \<in> (\<Union>x\<in>set by_key. set (?r x))" using r by (rule UN_I)
  qed
  finally show "set (compact_entries w by_key) = retained w ?V" .
  have "distinct (map fst (concat (map ?r by_key)))"
  proof (rule distinct_concat_keys [where g = user_key])
    show "distinct (map fst by_key)" by (rule bt_wf_distinct [OF bk])
    show "distinct (map fst (?r x))" if "x \<in> set by_key" for x
    proof -
      obtain k vs where x: "x = (k, vs)" by (cases x)
      with that mem [of k vs] dist [of k] have "distinct (map fst vs)" by simp
      then have "distinct (map fst (sort_key (\<lambda>v. - int (fst v)) vs))" by (simp add: distinct_map)
      then show ?thesis unfolding x prod.case by (rule retain_distinct)
    qed
    show "user_key (fst e) = fst x" if "e \<in> set (?r x)" for x e using that by (rule keys)
  qed
  then have d: "distinct (map fst (compact_entries w by_key))"
    unfolding compact_entries_def by (simp add: distinct_map)
  have "sorted (map fst (compact_entries w by_key))"
    unfolding compact_entries_def by simp
  with d show "bt_wf (compact_entries w by_key)" by (simp add: bt_wf_def strict_sorted_iff)
qed

section \<open>What compaction preserves\<close>

text \<open>A snapshot that sees the watermark, or everything.\<close>

definition above_watermark :: "nat \<Rightarrow> entry set \<Rightarrow> nat \<Rightarrow> bool" where
  "above_watermark w V s \<longleftrightarrow> w \<le> s \<or> (\<forall>e\<in>V. seq (fst e) \<le> s)"

lemma retained_newest:
  assumes s: "above_watermark w V s" and u: "unique_seqs V" and n: "newest_visible V k s e"
  shows "newest_visible (retained w V) k s e
    \<or> is_delete (fst e) \<and> (\<forall>x\<in>retained w V. \<not> visible_to k s (fst x))"
proof (cases "w \<le> seq (fst e)")
  case True
  then have "e \<in> retained w V" using n by (simp add: newest_visible_def retained_def)
  then have "newest_visible (retained w V) k s e" using n by (auto simp: newest_visible_def retained_def)
  then show ?thesis ..
next
  case False
  have e: "e \<in> V" "user_key (fst e) = k" "seq (fst e) \<le> s" using n by (auto simp: newest_visible_def visible_to_def)
  have floor: "seq (fst x) \<le> seq (fst e)" if "x \<in> V" "user_key (fst x) = k" "seq (fst x) \<le> s" for x
  proof -
    have "fst e \<le> fst x" using n that unfolding newest_visible_def visible_to_def by blast
    with that e show ?thesis by (auto simp: ik_le_iff)
  qed
  have low: "seq (fst x) \<le> s" if "x \<in> V" "seq (fst x) < w" for x
    using s that unfolding above_watermark_def by (metis le_trans less_imp_le)
  show ?thesis
  proof (cases "w = u64_max \<and> is_delete (fst e)")
    case False
    then have "e \<in> retained w V"
      unfolding retained_def using e floor low by blast
    then have "newest_visible (retained w V) k s e" using n by (auto simp: newest_visible_def retained_def)
    then show ?thesis ..
  next
    case True
    have "\<not> visible_to k s (fst x)" if x: "x \<in> retained w V" for x
    proof
      assume v: "visible_to k s (fst x)"
      then have xs: "x \<in> V" "user_key (fst x) = k" "seq (fst x) \<le> seq (fst e)"
        using x floor by (auto simp: visible_to_def retained_def)
      with \<open>\<not> w \<le> seq (fst e)\<close> x e True have "seq (fst e) \<le> seq (fst x)" "\<not> is_delete (fst x)"
        unfolding retained_def by auto
      with xs e u have "x = e" unfolding unique_seqs_def by (metis le_antisym)
      with True \<open>\<not> is_delete (fst x)\<close> show False by simp
    qed
    with True show ?thesis by blast
  qed
qed

lemma merged_read:
  assumes "\<forall>l\<in>set ls. bt_wf l" and "layered ls" and "unique_seqs (set (concat ls))"
    and E: "bt_wf E" "set E = retained w (set (concat ls))" and s: "above_watermark w (set (concat ls)) s"
  shows "Option.bind (visible_in E k s) version_value = Option.bind (first_hit ls k s) version_value"
proof (cases "first_hit ls k s")
  case None
  then have "\<forall>e\<in>set (concat ls). \<not> visible_to k s (fst e)" using first_hit_None by blast
  then have "visible_in E k s = None" unfolding visible_in_None E(2) retained_def by blast
  with None show ?thesis by simp
next
  case (Some e)
  then have "newest_visible (set (concat ls)) k s e" using first_hit_newest [OF assms(1,2)] by blast
  from retained_newest [OF s assms(3) this] show ?thesis
  proof
    assume "newest_visible (retained w (set (concat ls))) k s e"
    then have "visible_in E k s = Some e" using visible_in_newest [OF E(1)] E(2) by simp
    with Some show ?thesis by simp
  next
    assume d: "is_delete (fst e) \<and> (\<forall>x\<in>retained w (set (concat ls)). \<not> visible_to k s (fst x))"
    then have "visible_in E k s = None" unfolding visible_in_None E(2) by blast
    with Some d show ?thesis by (simp add: version_value_def)
  qed
qed

text \<open>The size bounds of the table format, apart from the order of the entries.\<close>

definition sst_fits :: "'b bloom_ops \<Rightarrow> entry list \<Rightarrow> bool" where
  "sst_fits bl es \<longleftrightarrow> length es < 2 ^ 32 \<and> length (build_bytes bl es) < 2 ^ 64
     \<and> list_all (\<lambda>e. length (user_key (fst e)) < 2 ^ 32 \<and> length (snd e) < 2 ^ 32 \<and> seq (fst e) < 2 ^ 64) es"

lemma sst_ok_fits: "sst_ok bl es \<longleftrightarrow> bt_wf es \<and> sst_fits bl es"
  by (auto simp: sst_ok_def sst_fits_def)

definition table_versions :: "('b, 'm, 's) lsm_engine \<Rightarrow> entry set" where
  "table_versions eng = set (concat (map sst_entries (ev_sstables (lsm_view eng))))"

text \<open>The entries of the table a pending compaction builds.\<close>

definition merged_entries :: "'b pending_compaction \<Rightarrow> entry list" where
  "merged_entries pc = compact_entries (pc_watermark pc)
     (foldl group_version [] (map version_of (concat (map sst_entries (pc_sstables pc)))))"

lemma finish_compact_valid:
  assumes env: "env_ok env" and ssts: "\<forall>t\<in>set (pc_sstables pc). sst_valid (env_bloom env) t"
    and ok: "sst_ok (env_bloom env) (merged_entries pc)" and plain: "list_all plain (merged_entries pc)"
    and fc: "finish_compact env pc eng = (eng', Inr t)"
  shows "sst_valid (env_bloom env) t \<and> sst_entries t = merged_entries pc \<and> sst_id t = pc_new_id pc
    \<and> lsm_view eng' = lsm_view eng \<and> lsm_write eng' = lsm_write eng"
  using fc group_sstables_eq [OF ssts, of "[]"] create_in_store_valid [OF env_okD(2) [OF env] ok plain]
  by (auto simp: finish_compact_def merged_entries_def split: prod.splits sum.splits)

lemma commit_compact_view:
  assumes "commit_compact env pc t eng = (eng', r)"
    and "set (map sst_id (ev_sstables (lsm_view eng))) \<subseteq> set (map sst_id (pc_sstables pc))"
  shows "(lsm_view eng' = lsm_view eng \<or> lsm_view eng' = (lsm_view eng)\<lparr>ev_sstables := [t]\<rparr>)
    \<and> ws_next_commit_seq (lsm_write eng') = ws_next_commit_seq (lsm_write eng)"
proof -
  have "filter (\<lambda>t. sst_id t \<notin> set (map sst_id (pc_sstables pc))) (ev_sstables (lsm_view eng)) = []"
    using assms(2) by (auto simp: filter_empty_conv)
  with assms(1) show ?thesis
    by (auto simp: commit_compact_def Let_def split: prod.splits sum.splits)
qed

lemma merged_entries_spec:
  assumes inv: "lsm_inv env eng" and pc: "pc_sstables pc = ev_sstables (lsm_view eng)"
    and u: "unique_seqs (table_versions eng)"
  shows "set (merged_entries pc) = retained (pc_watermark pc) (table_versions eng)" "bt_wf (merged_entries pc)"
    "list_all plain (merged_entries pc)"
proof -
  let ?ls = "map sst_entries (ev_sstables (lsm_view eng))"
  have wf: "\<forall>l\<in>set ?ls. bt_wf l" using lsm_invD(1) [OF inv] by (auto simp: sst_valid_def)
  have lay: "layered (rev ?ls)"
    using lsm_invD(2) [OF inv] by (auto simp: layers_def sst_layers_def layered_def sorted_wrt_append rev_map)
  have sub: "table_versions eng \<subseteq> all_versions env eng"
    by (auto simp: table_versions_def all_versions_def layers_def sst_layers_def)
  then have pl: "\<forall>e\<in>set (concat ?ls). plain e" using lsm_invD(4) [OF inv] unfolding table_versions_def by blast
  note spec = compact_entries_spec [OF wf lay u [unfolded table_versions_def] pl refl, of "pc_watermark pc"]
  show 1: "set (merged_entries pc) = retained (pc_watermark pc) (table_versions eng)"
    unfolding merged_entries_def pc table_versions_def by (rule spec(1))
  show "bt_wf (merged_entries pc)" unfolding merged_entries_def pc by (rule spec(2))
  show "list_all plain (merged_entries pc)"
    unfolding list_all_iff 1 retained_def using pl by (auto simp: table_versions_def)
qed

text \<open>The view with all tables replaced by the merged one.\<close>

lemma merged_view_reads:
  assumes env: "env_ok env" and inv: "lsm_inv env eng" and pc: "pc_sstables pc = ev_sstables (lsm_view eng)"
    and u: "unique_seqs (table_versions eng)"
    and t: "sst_valid (env_bloom env) t" "sst_entries t = merged_entries pc"
    and v: "lsm_view eng' = (lsm_view eng)\<lparr>ev_sstables := [t]\<rparr>"
    and n: "ws_next_commit_seq (lsm_write eng') = ws_next_commit_seq (lsm_write eng)"
  shows "lsm_inv env eng'" "above_watermark (pc_watermark pc) (table_versions eng) s \<Longrightarrow>
    lsm_read_at env eng' k s = lsm_read_at env eng k s"
proof -
  let ?m = "mem_layers (env_skip env) (lsm_view eng)" and ?ls = "sst_layers (lsm_view eng)"
  note spec = merged_entries_spec [OF inv pc u]
  have lay': "layers env eng' = ?m @ [merged_entries pc]"
    by (simp add: layers_def v mem_layers_def sst_layers_def t(2))
  have lay: "layers env eng = ?m @ ?ls" by (simp add: layers_def)
  have tv: "table_versions eng = set (concat ?ls)" by (auto simp: table_versions_def sst_layers_def)
  have sub: "set (merged_entries pc) \<subseteq> set (concat ?ls)" unfolding spec(1) tv retained_def by blast
  have old: "layered (?m @ ?ls)" using lsm_invD(2) [OF inv] lay by simp
  have "newer_layer a (merged_entries pc)" if "a \<in> set ?m" for a
  proof -
    have "newer_layer a b" if "b \<in> set ?ls" for b
      using old \<open>a \<in> set ?m\<close> that by (simp add: layered_def sorted_wrt_append)
    moreover have "\<exists>b\<in>set ?ls. y \<in> set b" if "y \<in> set (merged_entries pc)" for y
      using sub that by auto
    ultimately show ?thesis unfolding newer_layer_def by meson
  qed
  then have l': "layered (layers env eng')"
    using old by (simp add: lay' layered_def sorted_wrt_append)
  have "all_versions env eng' \<subseteq> all_versions env eng"
    using sub unfolding all_versions_def lay lay' by auto
  then show inv': "lsm_inv env eng'"
    unfolding lsm_inv_def using l' t(1) lsm_invD(3,4) [OF inv] n v by auto
  assume s: "above_watermark (pc_watermark pc) (table_versions eng) s"
  have wf: "\<forall>l\<in>set ?ls. bt_wf l" and ly: "layered ?ls"
    using layers_wf [OF env inv] old lay by (auto simp: layered_def sorted_wrt_append)
  have "Option.bind (visible_in (merged_entries pc) k s) version_value = Option.bind (first_hit ?ls k s) version_value"
    by (rule merged_read [OF wf ly u [unfolded tv] spec(2) spec(1) [unfolded tv] s [unfolded tv]])
  then have "Option.bind (first_hit (layers env eng') k s) version_value
      = Option.bind (first_hit (layers env eng) k s) version_value"
    unfolding lay lay' by (auto simp: first_hit_append split: option.splits)
  then show "lsm_read_at env eng' k s = lsm_read_at env eng k s"
    using read_at_hit [OF env lsm_invD(1) [OF inv]] read_at_hit [OF env lsm_invD(1) [OF inv']] by simp
qed

lemma begin_compact_pending:
  assumes "begin_compact env eng = (eng', Inr (Some pc))"
  shows "pc_sstables pc = ev_sstables (lsm_view eng)"
    "pc_watermark pc = (case ws_open_snapshots (lsm_write eng) of [] \<Rightarrow> u64_max | (q, _) # _ \<Rightarrow> q)"
  using assms by (auto simp: begin_compact_def Let_def split: if_splits)

lemma watermark_below_open:
  assumes bc: "begin_compact env eng = (eng', Inr (Some pc))"
    and snaps: "bt_wf (ws_open_snapshots (lsm_write eng))"
    and q: "q \<in> fst ` set (ws_open_snapshots (lsm_write eng))"
  shows "pc_watermark pc \<le> q"
  using begin_compact_pending(2) [OF bc] snaps q
  by (cases "ws_open_snapshots (lsm_write eng)") (auto simp: bt_wf_Cons order.strict_implies_order)

lemma compaction_keeps:
  assumes env: "env_ok env" and inv0: "lsm_inv env eng" and snaps: "bt_wf (ws_open_snapshots (lsm_write eng))"
    and uniq: "unique_seqs (table_versions eng)" and bc: "begin_compact env eng = (eng1, Inr (Some pc))"
    and inv: "lsm_inv env eng2" and same: "ev_sstables (lsm_view eng2) = ev_sstables (lsm_view eng1)"
    and fits: "sst_fits (env_bloom env) (merged_entries pc)"
    and fc: "finish_compact env pc eng2 = (eng3, Inr sst)" and cc: "commit_compact env pc sst eng3 = (eng4, r)"
  shows "lsm_inv env eng4 \<and> (\<forall>k s. s \<in> fst ` set (ws_open_snapshots (lsm_write eng))
      \<or> ws_next_commit_seq (lsm_write eng) \<le> s + 1 \<longrightarrow> lsm_read_at env eng4 k s = lsm_read_at env eng2 k s)"
proof -
  have v1: "lsm_view eng1 = lsm_view eng" using begin_compact_keeps [OF bc] by simp
  have pc: "pc_sstables pc = ev_sstables (lsm_view eng2)"
    using begin_compact_pending(1) [OF bc] same v1 by simp
  have tv: "table_versions eng2 = table_versions eng" using same v1 by (simp add: table_versions_def)
  have u2: "unique_seqs (table_versions eng2)" using uniq tv by simp
  note spec = merged_entries_spec [OF inv pc u2]
  have ok: "sst_ok (env_bloom env) (merged_entries pc)" using spec(2) fits by (simp add: sst_ok_fits)
  have "\<forall>t\<in>set (pc_sstables pc). sst_valid (env_bloom env) t" using lsm_invD(1) [OF inv] pc by simp
  from finish_compact_valid [OF env this ok spec(3) fc]
  have t: "sst_valid (env_bloom env) sst" "sst_entries sst = merged_entries pc"
    and v3: "lsm_view eng3 = lsm_view eng2" "lsm_write eng3 = lsm_write eng2" by auto
  have cv: "lsm_view eng4 = lsm_view eng2 \<or> lsm_view eng4 = (lsm_view eng2)\<lparr>ev_sstables := [sst]\<rparr>"
    "ws_next_commit_seq (lsm_write eng4) = ws_next_commit_seq (lsm_write eng2)"
    using commit_compact_view [OF cc] pc v3 by auto
  have above: "above_watermark (pc_watermark pc) (table_versions eng2) s"
    if "s \<in> fst ` set (ws_open_snapshots (lsm_write eng)) \<or> ws_next_commit_seq (lsm_write eng) \<le> s + 1" for s
    using that
  proof
    assume "s \<in> fst ` set (ws_open_snapshots (lsm_write eng))"
    then show ?thesis using watermark_below_open [OF bc snaps] by (simp add: above_watermark_def)
  next
    assume s: "ws_next_commit_seq (lsm_write eng) \<le> s + 1"
    have "table_versions eng \<subseteq> all_versions env eng"
      by (auto simp: table_versions_def all_versions_def layers_def sst_layers_def)
    then have lt: "\<forall>e\<in>table_versions eng. seq (fst e) < ws_next_commit_seq (lsm_write eng)"
      using lsm_invD(3) [OF inv0] by blast
    have "seq (fst e) \<le> s" if "e \<in> table_versions eng" for e using bspec [OF lt that] s by simp
    then show ?thesis unfolding above_watermark_def tv by blast
  qed
  from cv(1) show ?thesis
  proof
    assume "lsm_view eng4 = lsm_view eng2"
    then show ?thesis using lsm_inv_view [OF inv _ eq_refl [OF cv(2) [symmetric]]] read_at_view by metis
  next
    assume v: "lsm_view eng4 = (lsm_view eng2)\<lparr>ev_sstables := [sst]\<rparr>"
    show ?thesis using merged_view_reads [OF env inv pc u2 t v cv(2)] above by blast
  qed
qed

section \<open>Property\<close>

text \<open>C7: a compaction is invisible to every snapshot that was open when it began and to every
  snapshot taken since then: reads of any key at them are the same before and after the
  commit, whatever was written to memory while the merged table was built, and whether the
  commit succeeds or is refused, provided that no table was flushed between the beginning and
  the commit and that the merged table stays within the limits of the table format. (Versions below the watermark that no such snapshot can see may be gone, and a table
  flushed meanwhile is put below the merged one: \<open>merged_table_shadows_flushed\<close>.)\<close>

theorem compaction_preserves_reads:
  assumes env: "env_ok env" and inv0: "lsm_inv env eng" and snaps: "bt_wf (ws_open_snapshots (lsm_write eng))"
    and uniq: "unique_seqs (table_versions eng)" and bc: "begin_compact env eng = (eng1, Inr (Some pc))"
    and inv: "lsm_inv env eng2" and same: "ev_sstables (lsm_view eng2) = ev_sstables (lsm_view eng1)"
    and fits: "sst_fits (env_bloom env) (merged_entries pc)"
    and fc: "finish_compact env pc eng2 = (eng3, Inr sst)" and cc: "commit_compact env pc sst eng3 = (eng4, r)"
  shows "lsm_inv env eng4 \<and> (\<forall>k s. s \<in> fst ` set (ws_open_snapshots (lsm_write eng))
      \<or> ws_next_commit_seq (lsm_write eng) \<le> s + 1 \<longrightarrow> lsm_read_at env eng4 k s = lsm_read_at env eng2 k s)"
  by (rule compaction_keeps [OF assms])

section \<open>Witness\<close>

definition demo_old :: "entry list" where
  "demo_old = [(InternalKey [97] 1 0, [7]), (InternalKey [98] 1 0, [8])]"

definition demo_new :: "entry list" where
  "demo_new = [(InternalKey [97] 2 2, [])]"

definition demo_table :: "nat \<Rightarrow> entry list \<Rightarrow> u64w sstable" where
  "demo_table i es = projr (sst_decode word_bloom (sstable_key None i) i (build_bytes word_bloom es))"

lemma demo_tables_ok: "sst_ok word_bloom demo_old" "sst_ok word_bloom demo_new"
  by (simp_all add: sst_ok_def demo_old_def demo_new_def bt_wf_Cons ik_less_iff build_bytes_eq word_bloom_def
      stored_data_def data_record_def DELETE_TAG_def index_bytes_def bloom_bytes_def sip_bytes_def)

lemma demo_table:
  assumes "sst_ok word_bloom es" and "list_all plain es"
  shows "sst_valid word_bloom (demo_table i es)" "sst_entries (demo_table i es) = es" "sst_id (demo_table i es) = i"
    "sst_key (demo_table i es) = sstable_key None i"
proof -
  obtain t where t: "sst_decode word_bloom (sstable_key None i) i (build_bytes word_bloom es) = Inr t"
    "sst_repr word_bloom t es" "sst_id t = i" "sst_key t = sstable_key None i"
    using wb.decode_build [OF assms(1), of "sstable_key None i" i] by blast
  have "bt_wf es" using assms(1) by (simp add: sst_ok_def)
  with t assms(2) show "sst_valid word_bloom (demo_table i es)" "sst_entries (demo_table i es) = es"
    "sst_id (demo_table i es) = i" "sst_key (demo_table i es) = sstable_key None i"
    by (simp_all add: demo_table_def sst_repr_valid sst_repr_entries)
qed

lemma demo_plain: "list_all plain demo_old" "list_all plain demo_new"
  by (simp_all add: demo_old_def demo_new_def plain_def is_delete_def DELETE_TAG_def)

lemmas demo_t = demo_table [OF demo_tables_ok(1) demo_plain(1)] demo_table [OF demo_tables_ok(2) demo_plain(2)]

text \<open>Two tables, a delete in the newer one, and a snapshot open at the older state.\<close>

definition demo_tables :: "(nat \<times> nat) list \<Rightarrow> (u64w, entry list, local_fs) lsm_engine" where
  "demo_tables snaps = (demo_engine [] 3)\<lparr>
     lsm_view := (lsm_view (demo_engine [] 3))\<lparr>ev_sstables := [demo_table 1 demo_old, demo_table 2 demo_new]\<rparr>,
     lsm_write := (lsm_write (demo_engine [] 3))\<lparr>ws_sstable_id := 3, ws_open_snapshots := snaps\<rparr>\<rparr>"

lemma demo_tables_layers: "layers demo_env (demo_tables snaps) = [[], demo_new, demo_old]"
  by (simp add: layers_def mem_layers_def sst_layers_def demo_tables_def demo_engine_def demo_env_def
      mt_to_entries_def list_skip_map_def checked_def demo_t)

lemma demo_tables_inv: "lsm_inv demo_env (demo_tables snaps)"
  unfolding lsm_inv_def all_versions_def demo_tables_layers
  by (simp add: layered_def newer_layer_def demo_old_def demo_new_def plain_def is_delete_def DELETE_TAG_def)
    (simp add: demo_tables_def demo_engine_def demo_env_def demo_t flip: demo_old_def demo_new_def)

theorem compaction_preserves_reads_witness:
  "\<exists>eng1 pc eng3 sst eng4 r. begin_compact demo_env (demo_tables [(1, 1)]) = (eng1, Inr (Some pc))
    \<and> finish_compact demo_env pc eng1 = (eng3, Inr sst) \<and> commit_compact demo_env pc sst eng3 = (eng4, r)
    \<and> lsm_read_at demo_env eng4 [97] 1 = lsm_read_at demo_env eng1 [97] 1
    \<and> lsm_read_at demo_env eng4 [97] 2 = lsm_read_at demo_env eng1 [97] 2"
proof -
  let ?eng = "demo_tables [(1, 1)]"
  define eng1 where "eng1 = fst (begin_compact demo_env ?eng)"
  define pc where "pc = the (projr (snd (begin_compact demo_env ?eng)))"
  have bc: "begin_compact demo_env ?eng = (eng1, Inr (Some pc))"
    by (simp add: eng1_def pc_def begin_compact_def Let_def demo_tables_def demo_engine_def demo_lease_def)
  note keep = begin_compact_keeps [OF bc]
  have inv1: "lsm_inv demo_env eng1" by (rule lsm_inv_view [OF demo_tables_inv]) (use keep in auto)
  have pc: "pc_sstables pc = [demo_table 1 demo_old, demo_table 2 demo_new]" "pc_watermark pc = 1"
    using begin_compact_pending [OF bc] by (simp_all add: demo_tables_def)
  have uniq: "unique_seqs (table_versions ?eng)"
    by (simp add: unique_seqs_def table_versions_def demo_tables_def demo_t) (simp add: demo_old_def demo_new_def)
  have merged: "merged_entries pc = [(InternalKey [97] 2 2, []), (InternalKey [97] 1 0, [7]), (InternalKey [98] 1 0, [8])]"
    by (simp add: merged_entries_def pc demo_t)
      (simp add: demo_old_def demo_new_def version_of_def group_version_def bt_get_def version_value_def is_delete_def
        DELETE_TAG_def compact_entries_def ik_le_iff u64_max_def)
  have fits: "sst_fits (env_bloom demo_env) (merged_entries pc)"
    unfolding merged
    by (simp add: sst_fits_def demo_env_def build_bytes_eq word_bloom_def
      stored_data_def data_record_def DELETE_TAG_def index_bytes_def bloom_bytes_def sip_bytes_def)
  have nf: "faults (lsm_store eng1) = []"
    using keep by (simp add: demo_tables_def demo_engine_def local_open_def)
  have tv1: "unique_seqs (table_versions eng1)" using uniq keep by (simp add: table_versions_def)
  have pcs: "pc_sstables pc = ev_sstables (lsm_view eng1)" using begin_compact_pending(1) [OF bc] keep by simp
  have ok: "sst_ok word_bloom (merged_entries pc)"
    using fits merged_entries_spec(2) [OF inv1 pcs tv1] by (simp add: sst_ok_fits demo_env_def)
  have grp: "group_sstables (pc_sstables pc) []
      = Inr (foldl group_version [] (map version_of (concat (map sst_entries (pc_sstables pc)))))"
    by (rule group_sstables_eq [where bl = word_bloom]) (simp add: pc demo_t)
  obtain eng3 sst where fc: "finish_compact demo_env pc eng1 = (eng3, Inr sst)"
    using wb.decode_build [OF ok, of "pc_new_key pc" "pc_new_id pc"] nf
    unfolding finish_compact_def grp sum.case merged_entries_def [symmetric]
    by (auto simp: create_in_store_def demo_env_def local_fs_store_def local_no_faults)
  obtain eng4 r where cc: "commit_compact demo_env pc sst eng3 = (eng4, r)"
    by (cases "commit_compact demo_env pc sst eng3")
  have snaps: "bt_wf (ws_open_snapshots (lsm_write ?eng))" by (simp add: demo_tables_def bt_wf_Cons)
  note P = compaction_preserves_reads [OF demo_env_ok demo_tables_inv snaps uniq bc inv1 refl fits fc cc]
  have "lsm_read_at demo_env eng4 [97] 1 = lsm_read_at demo_env eng1 [97] 1"
    "lsm_read_at demo_env eng4 [97] 2 = lsm_read_at demo_env eng1 [97] 2"
    using P by (simp_all add: demo_tables_def demo_engine_def)
  with bc fc cc show ?thesis by blast
qed

text \<open>The merged table goes on top of the tables that were flushed while it was built, although its
  versions are older: where both have one that is visible, the older one is read.\<close>

lemma merged_table_shadows_flushed:
  assumes "commit_compact env pc sst eng = (eng', Inr ())"
    and "mt_get_at (env_skip env) (ev_memtable (lsm_view eng)) k s = None"
    and "\<And>imm. ev_immutable (lsm_view eng) = Some imm \<Longrightarrow> mt_get_at (env_skip env) imm k s = None"
    and "sst_read_at (env_bloom env) sst k s = Inr (Some v)"
  shows "lsm_read_at env eng' k s = Inr v"
  using assms
  by (auto simp: commit_compact_def lsm_read_at_def Let_def attempt_def split: prod.splits sum.splits option.splits)

end
