(* ===== verification/Lsm_Keys.thy ===== *)
theory Lsm_Keys
  imports Lsm
begin

text \<open>
  Object keys (\<open>sstable_key\<close>, \<open>wal_segment_key\<close> of \<open>storage/lsm.rs\<close>):
  different tables have different keys, whatever the sharding, and the three name spaces
  (tables, log segments, the manifest) do not meet. This is what lets the engine reconstruct
  every key from an id alone.
\<close>

definition dec_val :: "bytes \<Rightarrow> nat" where
  "dec_val ds = foldl (\<lambda>a d. a * 10 + (unat d - 48)) 0 ds"

lemma dec_val_snoc: "dec_val (ds @ [d]) = dec_val ds * 10 + (unat d - 48)"
  by (simp add: dec_val_def)

lemma dec_val_digits: "dec_val (dec_digits n) = n"
proof (induction n rule: dec_digits.induct)
  case (1 n)
  have d: "unat (word_of_nat (48 + m) :: byte) - 48 = m" if "m < 10" for m
    using unat_small_byte [of "48 + m"] that by simp
  show ?case
  proof (cases "n < 10")
    case True
    then show ?thesis using d [of n] by (subst dec_digits.simps) (simp add: dec_val_def)
  next
    case False
    then show ?thesis using 1 d [of "n mod 10"] by (subst dec_digits.simps) (simp add: dec_val_snoc)
  qed
qed

lemma dec_val_pad: "dec_val (replicate k 48 @ ds) = dec_val ds"
  by (induction k) (simp_all add: dec_val_def)

lemma pad0_dec_inj: "pad0 w (dec_digits m) = pad0 w (dec_digits n) \<Longrightarrow> m = n"
  by (metis dec_val_digits dec_val_pad pad0_def)

lemma length_pad0_dec: "n < 2 ^ 64 \<Longrightarrow> length (pad0 20 (dec_digits n)) = 20"
proof -
  assume "n < 2 ^ 64"
  then have "n < 10 ^ Suc 19" by simp
  from length_dec_digits [OF this] show ?thesis by (simp add: pad0_def)
qed

lemma sstable_key_inj:
  assumes "i < 2 ^ 64" "j < 2 ^ 64" "sstable_key c i = sstable_key c j"
  shows "i = j"
proof -
  have "drop (length (sstable_key c n) - 20) (sstable_key c n) = pad0 20 (dec_digits n)" if "n < 2 ^ 64" for n
    using length_pad0_dec [OF that] by (simp add: sstable_key_def)
  with assms have "pad0 20 (dec_digits i) = pad0 20 (dec_digits j)" by metis
  then show ?thesis by (rule pad0_dec_inj)
qed

section \<open>No key needs normalising\<close>

lemma set_dec_digits: "set (dec_digits n) \<subseteq> (\<lambda>m. word_of_nat (48 + m)) ` {..<10}"
proof (induction n rule: dec_digits.induct)
  case (1 n)
  then show ?case by (subst dec_digits.simps) auto
qed

lemma digit_not_backslash: "m < 10 \<Longrightarrow> (word_of_nat (48 + m) :: byte) \<noteq> 92"
proof
  assume m: "m < 10" and eq: "(word_of_nat (48 + m) :: byte) = 92"
  have "unat (word_of_nat (48 + m) :: byte) = 92" unfolding eq by simp
  with unat_small_byte [of "48 + m"] m show False by simp
qed

lemma pad0_dec_plain: "92 \<notin> set (pad0 w (dec_digits n))"
  using set_dec_digits [of n] digit_not_backslash by (auto simp: pad0_def)

lemma hex_digit_plain: "d < 16 \<Longrightarrow> hex_digit d \<noteq> 92"
proof
  assume d: "d < 16" and eq: "hex_digit d = 92"
  have "unat (hex_digit d) = (if d < 10 then 48 + d else 87 + d)"
    unfolding hex_digit_def by (rule unat_small_byte) (use d in auto)
  with d show False unfolding eq by (auto split: if_splits)
qed

lemma hex_digits_plain: "92 \<notin> set (hex_digits n)"
proof (induction n rule: hex_digits.induct)
  case (1 n)
  then show ?case using hex_digit_plain by (subst hex_digits.simps) auto
qed

lemma sst_shard_plain: "92 \<notin> set (sst_shard c i)"
  using hex_digits_plain by (auto simp: sst_shard_def Let_def pad0_def str_def of_char_def)

lemma path_for_keys [simp]:
  "path_for (sstable_key c i) = sstable_key c i" "path_for (wal_segment_key c i) = wal_segment_key c i"
  using sst_shard_plain pad0_dec_plain
  by (auto intro!: path_for_id simp: sstable_key_def wal_segment_key_def str_def of_char_def)

lemma key_spaces:
  "sstable_key c i \<noteq> MANIFEST_KEY" "wal_segment_key c i \<noteq> MANIFEST_KEY" "wal_segment_key c i \<noteq> sstable_key c j"
  by (simp_all add: sstable_key_def wal_segment_key_def MANIFEST_KEY_def str_def of_char_def)

text \<open>for every shard count, tables with different 64-bit ids are stored under different
  paths, and no table shares a path with a log segment or with the manifest.\<close>

theorem object_keys_disjoint:
  assumes "i < 2 ^ 64" and "j < 2 ^ 64"
  shows "(path_for (sstable_key c i) = path_for (sstable_key c j) \<longleftrightarrow> i = j)
    \<and> path_for (sstable_key c i) \<noteq> path_for (wal_segment_key c j)
    \<and> path_for (sstable_key c i) \<noteq> path_for MANIFEST_KEY
    \<and> path_for (wal_segment_key c i) \<noteq> path_for MANIFEST_KEY"
  using sstable_key_inj [OF assms] key_spaces by (metis path_for_keys path_for_manifest)

theorem object_keys_disjoint_witness:
  "path_for (sstable_key None 7) \<noteq> path_for (sstable_key None 263)"
  using object_keys_disjoint [of 7 263 None] by simp

end
