(* ===== verification/Lsm_Recovery.thy ===== *)
theory Lsm_Recovery
  imports Lsm_Writes Lsm_Keys
begin

text \<open>
  Crash recovery: what the local log and the object store hold determines the engine. The
  predicate \<open>durable\<close> says that the log holds exactly the versions in memory and the
  store exactly the tables of the view; opening an engine on such a log and store gives the
  same reads. Writing and flushing keep it.
\<close>

section \<open>What a log recovers\<close>

definition recovered :: "wal_record list \<Rightarrow> entry list" where
  "recovered rs = foldl (\<lambda>m r. bt_insert (InternalKey (wr_key r) (wr_seq r) (wr_type r)) (wr_value r) m) [] rs"

lemma replay_insert_entries:
  assumes "skip_map sm"
  shows "mt_to_entries sm (foldl (replay_insert sm) mt rs)
    = foldl (\<lambda>m r. bt_insert (InternalKey (wr_key r) (wr_seq r) (wr_type r)) (wr_value r) m) (mt_to_entries sm mt) rs"
  by (induction rs arbitrary: mt)
    (simp_all add: replay_insert_def skip_map.mt_to_entries_insert [OF assms])

lemma recovered_append:
  "recovered (rs @ rs') = foldl (\<lambda>m r. bt_insert (InternalKey (wr_key r) (wr_seq r) (wr_type r)) (wr_value r) m)
     (recovered rs) rs'"
  by (simp add: recovered_def)

lemma foldl_bt_insert_wf:
  "bt_wf m \<Longrightarrow> bt_wf (foldl (\<lambda>m r. bt_insert (f r) (g r) m) m rs)"
  by (induction rs arbitrary: m) (simp_all add: bt_wf_insert)

lemma recovered_wf: "bt_wf (recovered rs)"
  unfolding recovered_def by (rule foldl_bt_insert_wf) simp

text \<open>The records of a batch are the versions its inserts made.\<close>

lemma batch_recovers:
  "foldl (\<lambda>m r. bt_insert (InternalKey (wr_key r) (wr_seq r) (wr_type r)) (wr_value r) m) m
     (map (entry_record q) (map wal_entry_of es))
   = foldl (\<lambda>m e. bt_insert (fst (batch_version q e)) (snd (batch_version q e)) m) m es"
proof (induction es arbitrary: m)
  case Nil
  then show ?case by simp
next
  case (Cons e es)
  have "InternalKey (wr_key (entry_record q (wal_entry_of e))) (wr_seq (entry_record q (wal_entry_of e)))
      (wr_type (entry_record q (wal_entry_of e))) = fst (batch_version q e)"
    "wr_value (entry_record q (wal_entry_of e)) = snd (batch_version q e)"
    by (auto simp: wal_entry_of_def batch_version_def split: prod.splits option.splits)
  with Cons show ?case by simp
qed

lemma batch_recovers_set:
  assumes "bt_wf m" and "distinct (map write_key es)"
    and "\<forall>x\<in>set m. seq (fst x) = q \<longrightarrow> user_key (fst x) \<notin> write_key ` set es"
  shows "set (foldl (\<lambda>m e. bt_insert (fst (batch_version q e)) (snd (batch_version q e)) m) m es)
    = set m \<union> batch_version q ` set es"
  using assms
proof (induction es arbitrary: m)
  case Nil
  then show ?case by simp
next
  case (Cons e es)
  let ?m = "bt_insert (fst (batch_version q e)) (snd (batch_version q e)) m"
  have "fst x \<noteq> fst (batch_version q e)" if "x \<in> set m" for x
    using Cons.prems(3) that by (metis batch_version_simps(1,2) image_eqI list.set_intros(1))
  then have m: "set ?m = insert (batch_version q e) (set m)"
    using set_bt_insert [OF Cons.prems(1)] by auto
  have "set (foldl (\<lambda>m e. bt_insert (fst (batch_version q e)) (snd (batch_version q e)) m) ?m es)
      = set ?m \<union> batch_version q ` set es"
    by (rule Cons.IH) (use Cons.prems m in \<open>auto simp: bt_wf_insert\<close>)
  with m show ?case by auto
qed

section \<open>Durable states\<close>

definition mem_versions :: "('b, 'm, 's) lsm_env \<Rightarrow> ('b, 'm, 's) lsm_engine \<Rightarrow> entry set" where
  "mem_versions env eng = set (concat (mem_layers (env_skip env) (lsm_view eng)))"

text \<open>A log file that replays to a set of versions, all of whose numbers are below \<open>n\<close>.\<close>

definition log_holds :: "bytes \<Rightarrow> entry set \<Rightarrow> nat \<Rightarrow> bool" where
  "log_holds f V n \<longleftrightarrow> (\<exists>bs. f = log_bytes bs \<and> (\<forall>b\<in>set bs. batch_ok b)
     \<and> set (recovered (log_records bs)) = V \<and> log_max bs < n)"

text \<open>The object store holds a table under its key, byte for byte.\<close>

definition table_stored ::
  "('b, 'm, 's) lsm_env \<Rightarrow> (bytes \<Rightarrow> bytes option) \<Rightarrow> 'b sstable \<Rightarrow> bool" where
  "table_stored env c t \<longleftrightarrow> sst_id t < 2 ^ 64 \<and> c (sstable_key (env_shard_count env) (sst_id t)) = Some (sst_data t)
     \<and> sst_decode (env_bloom env) (sstable_key (env_shard_count env) (sst_id t)) (sst_id t) (sst_data t) = Inr t"

definition manifest_stored ::
  "('b, 'm, 's) lsm_env \<Rightarrow> (bytes \<Rightarrow> bytes option) \<Rightarrow> 'b sstable list \<Rightarrow> nat \<Rightarrow> bool" where
  "manifest_stored env c ts n \<longleftrightarrow>
     (case c MANIFEST_KEY of
        None \<Rightarrow> ts = []
      | Some b \<Rightarrow> \<exists>m. manifest_decode (env_manifest env) b = Some m \<and> sstable_ids m = map sst_id ts
          \<and> max_commit_seq m < n)"

definition durable ::
  "('b, 'm, 's) lsm_env \<Rightarrow> ('s \<Rightarrow> bytes \<Rightarrow> bytes option) \<Rightarrow> ('s \<Rightarrow> bool) \<Rightarrow> ('b, 'm, 's) lsm_engine \<Rightarrow> bool" where
  "durable env contents ok eng \<longleftrightarrow>
     (let ws = lsm_write eng; ts = ev_sstables (lsm_view eng); c = contents (lsm_store eng); n = ws_next_commit_seq ws in
      ok (lsm_store eng) \<and> wal_wf (ws_wal ws)
      \<and> log_holds (read_all_bytes (ws_wal ws)) (mem_versions env eng) n
      \<and> manifest_stored env c ts n \<and> (\<forall>t\<in>set ts. table_stored env c t)
      \<and> sorted_wrt (<) (map sst_id ts) \<and> (\<forall>t\<in>set ts. sst_id t < ws_sstable_id ws))"

text \<open>The numbers that go into a manifest fit in 64 bits.\<close>

definition counters_fit :: "('b, 'm, 's) lsm_engine \<Rightarrow> bool" where
  "counters_fit eng \<longleftrightarrow> ws_sstable_id (lsm_write eng) + 2 < 2 ^ 64 \<and> ws_wal_seg_id (lsm_write eng) < 2 ^ 64
     \<and> lh_token (lsm_lease eng) < 2 ^ 64 \<and> length (ev_sstables (lsm_view eng)) + 1 < 2 ^ 64
     \<and> 0 < ws_next_commit_seq (lsm_write eng) \<and> ws_next_commit_seq (lsm_write eng) + 1 < 2 ^ 64"

lemma manifest_stored_mono: "manifest_stored env c ts n \<Longrightarrow> n \<le> n' \<Longrightarrow> manifest_stored env c ts n'"
  unfolding manifest_stored_def by (fastforce split: option.splits)

section \<open>Opening\<close>

text \<open>A store whose reads do not fail.\<close>

definition reliable_get :: "'s object_store \<Rightarrow> ('s \<Rightarrow> bool) \<Rightarrow> bool" where
  "reliable_get os ok \<longleftrightarrow> (\<forall>k s. ok s \<longrightarrow> \<not> isl (snd (os_get os k s)))"

locale reliable_store = object_store_laws os contents ok tag_of
  for os :: "'s object_store" and contents ok tag_of +
  assumes reliable: "reliable_get os ok"
begin

lemma get_reliable:
  assumes "ok s"
  obtains s' where "os_get os k s = (s', Inr (map_option (\<lambda>d. (d, meta_of tag_of d)) (contents s (path_for k))))"
    "contents s' = contents s" "ok s'"
proof -
  obtain s' r where g: "os_get os k s = (s', r)" by (cases "os_get os k s")
  with reliable assms have "\<not> isl r" unfolding reliable_get_def by (metis snd_conv)
  then obtain v where "r = Inr v" by (cases r) auto
  with get_value [OF assms] g that show thesis by blast
qed

lemma load_sstables_stored:
  assumes "env_store env = os" and "ok s" and "\<forall>t\<in>set ts. table_stored env (contents s) t"
  shows "\<exists>s'. load_sstables env (map sst_id ts) s = (s', ts, foldr max (map sst_max_seq ts) 0)
    \<and> contents s' = contents s \<and> ok s'"
  using assms(2,3)
proof (induction ts arbitrary: s)
  case Nil
  then show ?case by simp
next
  case (Cons t ts)
  let ?k = "sstable_key (env_shard_count env) (sst_id t)"
  obtain s1 where g: "os_get os ?k s = (s1, Inr (map_option (\<lambda>d. (d, meta_of tag_of d)) (contents s ?k)))"
    "contents s1 = contents s" "ok s1"
    using get_reliable [OF Cons.prems(1), of ?k] by auto
  have "open_from_store (env_bloom env) (env_store env) ?k (sst_id t) s = (s1, Inr t)"
    using g(1) Cons.prems(2) by (simp add: open_from_store_def assms(1) table_stored_def)
  with Cons.IH [OF g(3)] Cons.prems(2) g(2) show ?case by auto
qed

end

lemma sort_key_sorted: "sorted_wrt (<) (map f xs) \<Longrightarrow> sort_key f xs = xs" for f :: "'a \<Rightarrow> nat"
  by (rule sort_key_id_if_sorted) (simp add: strict_sorted_iff)

context reliable_store
begin

lemma open_durable:
  assumes env: "env_ok env" and os: "env_store env = os" and ok: "ok s"
    and log: "replay_from f 0 0 = (rs, wal_max)"
    and man: "manifest_stored env (contents s) ts n" and tabs: "\<forall>t\<in>set ts. table_stored env (contents s) t"
    and sorted: "sorted_wrt (<) (map sst_id ts)"
  shows "\<exists>s' eng' mx. lsm_open env f s lease = (s', Inr eng') \<and> contents s' = contents s \<and> ok s'
    \<and> lsm_store eng' = s' \<and> ws_wal (lsm_write eng') = wal_open f \<and> lsm_lease eng' = lease
    \<and> mt_to_entries (env_skip env) (ev_memtable (lsm_view eng')) = recovered rs
    \<and> ev_immutable (lsm_view eng') = None \<and> ev_sstables (lsm_view eng') = ts
    \<and> ws_next_commit_seq (lsm_write eng') = inc64 (max (max wal_max (foldr max (map sst_max_seq ts) 0)) mx)
    \<and> (mx < n \<or> mx = 0) \<and> manifest_stored env (contents s) ts (mx + 1) \<and> ws_open_snapshots (lsm_write eng') = []
    \<and> ws_sstable_id (lsm_write eng') = (if ts = [] then 1 else inc64 (Max (set (map sst_id ts))))"
proof -
  note sm = env_okD(1) [OF env]
  have rp: "replay (wal_open f) = (rs, wal_max)"
    using log by (simp add: replay_def wal_open_def std_wal_io_new_def)
  obtain s1 where g: "os_get os MANIFEST_KEY s
      = (s1, Inr (map_option (\<lambda>d. (d, meta_of tag_of d)) (contents s MANIFEST_KEY)))"
    "contents s1 = contents s" "ok s1"
    using get_reliable [OF ok, of MANIFEST_KEY] by auto
  obtain loaded where ld: "manifest_load (env_manifest env) os s = (s1, Inr loaded)"
    and m: "sstable_ids (case loaded of Some (m, _) \<Rightarrow> m | None \<Rightarrow> manifest_default) = map sst_id ts"
    "max_commit_seq (case loaded of Some (m, _) \<Rightarrow> m | None \<Rightarrow> manifest_default) < n
     \<or> max_commit_seq (case loaded of Some (m, _) \<Rightarrow> m | None \<Rightarrow> manifest_default) = 0"
    "manifest_stored env (contents s) ts (max_commit_seq (case loaded of Some (m, _) \<Rightarrow> m | None \<Rightarrow> manifest_default) + 1)"
    using g(1) man
    by (cases "contents s MANIFEST_KEY") (auto simp: manifest_load_def manifest_stored_def manifest_default_def)
  obtain s2 where l: "load_sstables env (map sst_id ts) s1 = (s2, ts, foldr max (map sst_max_seq ts) 0)"
    "contents s2 = contents s" "ok s2"
    using load_sstables_stored [OF os g(3)] tabs g(2) by auto
  let ?m = "case loaded of Some (m, _) \<Rightarrow> m | None \<Rightarrow> manifest_default"
  have mt: "mt_to_entries (env_skip env) (foldl (replay_insert (env_skip env)) (mt_new (env_skip env) MEMTABLE_MAX_SIZE) rs)
      = recovered rs"
    by (simp add: replay_insert_entries [OF sm] skip_map.mt_to_entries_new [OF sm] recovered_def)
  show ?thesis
    by (rule exI [of _ s2], rule exI [of _ "projr (snd (lsm_open env f s lease))"], rule exI [of _ "max_commit_seq ?m"])
      (use m l(2,3) in \<open>simp add: lsm_open_def Let_def rp os ld l(1) mt sort_key_sorted [OF sorted]\<close>)
qed

end

section \<open>Sequence numbers recovered\<close>

lemma foldl_max_start: "(b :: nat) \<le> foldl max b ys"
proof (induction ys arbitrary: b)
  case (Cons y ys)
  from Cons.IH [of "max b y"] show ?case by simp
qed simp

lemma foldl_max_ge: "(x :: nat) \<in> set xs \<Longrightarrow> x \<le> foldl max a xs"
proof (induction xs arbitrary: a)
  case (Cons y ys)
  show ?case
  proof (cases "x = y")
    case True
    with foldl_max_start [of "max a y" ys] show ?thesis by simp
  next
    case False
    with Cons show ?thesis by simp
  qed
qed simp

lemma recovered_seq: "e \<in> set (recovered rs) \<Longrightarrow> \<exists>r\<in>set rs. seq (fst e) = wr_seq r"
proof -
  have "e \<in> set (foldl (\<lambda>m r. bt_insert (InternalKey (wr_key r) (wr_seq r) (wr_type r)) (wr_value r) m) m rs)
    \<Longrightarrow> e \<in> set m \<or> (\<exists>r\<in>set rs. seq (fst e) = wr_seq r)" for m
  proof (induction rs arbitrary: m)
    case Nil
    then show ?case by simp
  next
    case (Cons r rs)
    then show ?case using set_bt_insert_subset [of "InternalKey (wr_key r) (wr_seq r) (wr_type r)" "wr_value r" m] by fastforce
  qed
  then show "e \<in> set (recovered rs) \<Longrightarrow> ?thesis" unfolding recovered_def by force
qed

lemma recovered_log_max: "e \<in> set (recovered (log_records bs)) \<Longrightarrow> seq (fst e) \<le> log_max bs"
proof -
  assume "e \<in> set (recovered (log_records bs))"
  then obtain r where r: "r \<in> set (log_records bs)" "seq (fst e) = wr_seq r" using recovered_seq by blast
  then obtain b where "b \<in> set bs" "wr_seq r = fst b" by (auto simp: log_records_def)
  then have "wr_seq r \<in> set (map fst bs)" by auto
  with r foldl_max_ge show ?thesis unfolding log_max_def by metis
qed

lemma sst_max_seq_ge: "sst_valid bl t \<Longrightarrow> e \<in> set (sst_entries t) \<Longrightarrow> seq (fst e) \<le> sst_max_seq t"
  using sst_repr_max_seq [of bl t "sst_entries t"] by (auto simp: sst_valid_def intro!: foldl_max_ge)

lemma foldr_max_ge: "(x :: nat) \<in> set xs \<Longrightarrow> x \<le> foldr max xs 0"
  by (induction xs) (auto intro: le_trans)

lemma foldr_max_less: "(\<And>x. x \<in> set xs \<Longrightarrow> x < n) \<Longrightarrow> 0 < n \<Longrightarrow> foldr max xs (0 :: nat) < n"
  by (induction xs) auto

lemma foldl_max_less: "(\<And>x. x \<in> set xs \<Longrightarrow> x < n) \<Longrightarrow> a < n \<Longrightarrow> foldl max (a :: nat) xs < n"
  by (induction xs arbitrary: a) auto

section \<open>Recovery\<close>

lemma durableD:
  assumes "durable env contents ok eng"
  shows "ok (lsm_store eng)" "wal_wf (ws_wal (lsm_write eng))"
    "log_holds (read_all_bytes (ws_wal (lsm_write eng))) (mem_versions env eng) (ws_next_commit_seq (lsm_write eng))"
    "manifest_stored env (contents (lsm_store eng)) (ev_sstables (lsm_view eng)) (ws_next_commit_seq (lsm_write eng))"
    "\<forall>t\<in>set (ev_sstables (lsm_view eng)). table_stored env (contents (lsm_store eng)) t"
    "sorted_wrt (<) (map sst_id (ev_sstables (lsm_view eng)))"
    "\<forall>t\<in>set (ev_sstables (lsm_view eng)). sst_id t < ws_sstable_id (lsm_write eng)"
  using assms unfolding durable_def Let_def by blast+

lemma all_versions_split: "all_versions env eng = mem_versions env eng \<union> set (concat (sst_layers (lsm_view eng)))"
  by (simp add: all_versions_def layers_def mem_versions_def)

lemma recovered_layers:
  assumes inv: "lsm_inv env eng" and v: "mt_to_entries (env_skip env) (ev_memtable (lsm_view eng')) = rec"
    "ev_immutable (lsm_view eng') = None" "ev_sstables (lsm_view eng') = ev_sstables (lsm_view eng)"
    and rec: "set rec = mem_versions env eng"
    and n: "\<forall>e\<in>all_versions env eng. seq (fst e) < ws_next_commit_seq (lsm_write eng')"
  shows "lsm_inv env eng'" "all_versions env eng' = all_versions env eng"
proof -
  have lay': "layers env eng' = rec # sst_layers (lsm_view eng)"
    using v by (simp add: layers_def mem_layers_def sst_layers_def)
  show all: "all_versions env eng' = all_versions env eng"
    using rec by (simp add: all_versions_split) (simp add: mem_versions_def mem_layers_def v sst_layers_def rec)
  have old: "layered (mem_layers (env_skip env) (lsm_view eng) @ sst_layers (lsm_view eng))"
    using lsm_invD(2) [OF inv] by (simp add: layers_def)
  have "newer_layer rec b" if b: "b \<in> set (sst_layers (lsm_view eng))" for b
  proof -
    have "newer_layer a b" if "a \<in> set (mem_layers (env_skip env) (lsm_view eng))" for a
      using old b that by (simp add: layered_def sorted_wrt_append)
    moreover have "\<exists>a\<in>set (mem_layers (env_skip env) (lsm_view eng)). x \<in> set a" if "x \<in> set rec" for x
      using that rec by (auto simp: mem_versions_def)
    ultimately show ?thesis unfolding newer_layer_def by meson
  qed
  then have "layered (layers env eng')"
    using old by (simp add: lay' layered_def sorted_wrt_append)
  then show "lsm_inv env eng'"
    unfolding lsm_inv_def all using lsm_invD(1,4) [OF inv] n v(3) by simp
qed

context reliable_store
begin

text \<open>
  Opening on a log that replays to the versions in memory, with whatever watermark a torn
  tail left, recovers the engine.
\<close>

lemma open_recovers:
  assumes env: "env_ok env" and os: "env_store env = os" and inv: "lsm_inv env eng"
    and dur: "durable env contents ok eng" and fit: "counters_fit eng"
    and bs: "\<forall>b\<in>set bs. batch_ok b" "set (recovered (log_records bs)) = mem_versions env eng"
    and f: "replay_from f 0 0 = (log_records bs, wm)" "log_max bs \<le> wm" "wm \<le> ws_next_commit_seq (lsm_write eng)"
  shows "\<exists>s' eng'. lsm_open env f (lsm_store eng) lease = (s', Inr eng') \<and> contents s' = contents (lsm_store eng)
    \<and> lsm_store eng' = s' \<and> ok s' \<and> lsm_inv env eng' \<and> ws_wal (lsm_write eng') = wal_open f \<and> ev_immutable (lsm_view eng') = None
    \<and> ev_sstables (lsm_view eng') = ev_sstables (lsm_view eng) \<and> mem_versions env eng' = mem_versions env eng
    \<and> wm < ws_next_commit_seq (lsm_write eng') \<and> (\<forall>k q. lsm_read_at env eng' k q = lsm_read_at env eng k q)
    \<and> manifest_stored env (contents s') (ev_sstables (lsm_view eng')) (ws_next_commit_seq (lsm_write eng'))
    \<and> (\<forall>t\<in>set (ev_sstables (lsm_view eng')). sst_id t < ws_sstable_id (lsm_write eng'))"
proof -
  let ?n = "ws_next_commit_seq (lsm_write eng)" and ?ts = "ev_sstables (lsm_view eng)"
  have small: "?n + 1 < 2 ^ 64" using fit by (simp add: counters_fit_def)
  note D = durableD [OF dur]
  obtain s' eng' mx where o: "lsm_open env f (lsm_store eng) lease = (s', Inr eng')" "contents s' = contents (lsm_store eng)"
    "ok s'" "lsm_store eng' = s'" "ws_wal (lsm_write eng') = wal_open f"
    and v: "mt_to_entries (env_skip env) (ev_memtable (lsm_view eng')) = recovered (log_records bs)"
      "ev_immutable (lsm_view eng') = None" "ev_sstables (lsm_view eng') = ?ts"
    and nx: "ws_next_commit_seq (lsm_write eng') = inc64 (max (max wm (foldr max (map sst_max_seq ?ts) 0)) mx)"
    and mx: "mx < ?n \<or> mx = 0" and man: "manifest_stored env (contents (lsm_store eng)) ?ts (mx + 1)"
    and idn: "ws_sstable_id (lsm_write eng') = (if ?ts = [] then 1 else inc64 (Max (set (map sst_id ?ts))))"
    using open_durable [OF env os D(1) f(1) D(4,5,6), of lease] by blast
  have valid: "\<forall>t\<in>set ?ts. sst_valid (env_bloom env) t" by (rule lsm_invD(1) [OF inv])
  have tab: "set (sst_entries t) \<subseteq> all_versions env eng" if "t \<in> set ?ts" for t
    using that by (auto simp: all_versions_def layers_def sst_layers_def)
  have "sst_max_seq t \<le> ?n" if "t \<in> set ?ts" for t
  proof -
    have "sst_max_seq t = foldl max 0 (map (\<lambda>e. seq (fst e)) (sst_entries t))"
      using sst_repr_max_seq valid that by (auto simp: sst_valid_def)
    also have "\<dots> < ?n + 1"
    proof (rule foldl_max_less)
      fix x assume "x \<in> set (map (\<lambda>e. seq (fst e)) (sst_entries t))"
      then obtain e where "e \<in> set (sst_entries t)" "x = seq (fst e)" by auto
      with tab [OF that] lsm_invD(3) [OF inv] have "x < ?n" by blast
      then show "x < ?n + 1" by simp
    qed simp
    finally show ?thesis by simp
  qed
  then have "foldr max (map sst_max_seq ?ts) 0 < ?n + 1" by (intro foldr_max_less) (auto simp: less_Suc_eq_le)
  with f(3) mx small have nx': "ws_next_commit_seq (lsm_write eng') = max (max wm (foldr max (map sst_max_seq ?ts) 0)) mx + 1"
    unfolding nx by (intro inc64_small) auto
  have "seq (fst e) < ws_next_commit_seq (lsm_write eng')" if e: "e \<in> all_versions env eng" for e
  proof -
    from e consider "e \<in> mem_versions env eng" | t where "t \<in> set ?ts" "e \<in> set (sst_entries t)"
      by (auto simp: all_versions_split sst_layers_def)
    then show ?thesis
    proof cases
      case 1
      with bs(2) recovered_log_max f(2) have "seq (fst e) \<le> wm" by (metis le_trans)
      then show ?thesis unfolding nx' by simp
    next
      case 2
      with valid sst_max_seq_ge have "seq (fst e) \<le> sst_max_seq t" by blast
      also have "\<dots> \<le> foldr max (map sst_max_seq ?ts) 0" using 2 by (intro foldr_max_ge) simp
      finally show ?thesis unfolding nx' by simp
    qed
  qed
  then have n: "\<forall>e\<in>all_versions env eng. seq (fst e) < ws_next_commit_seq (lsm_write eng')" by blast
  note R = recovered_layers [OF inv v bs(2) n]
  have "mem_versions env eng' = mem_versions env eng"
    using v(1,2) bs(2) by (simp add: mem_versions_def mem_layers_def)
  moreover have "\<forall>k q. lsm_read_at env eng' k q = lsm_read_at env eng k q"
    using read_at_cong [OF env R(1) inv R(2)] by blast
  moreover have "wm < ws_next_commit_seq (lsm_write eng')" unfolding nx' by simp
  moreover have "manifest_stored env (contents s') (ev_sstables (lsm_view eng')) (ws_next_commit_seq (lsm_write eng'))"
    unfolding o(2) v(3) by (rule manifest_stored_mono [OF man]) (simp add: nx')
  moreover have "sst_id t < ws_sstable_id (lsm_write eng')" if t: "t \<in> set ?ts" for t
  proof -
    have "Max (set (map sst_id ?ts)) \<in> set (map sst_id ?ts)" using t by (intro Max_in) auto
    then have "Max (set (map sst_id ?ts)) + 1 < 2 ^ 64" using D(7) fit by (auto simp: counters_fit_def)
    then have "ws_sstable_id (lsm_write eng') = Max (set (map sst_id ?ts)) + 1"
      using t idn inc64_small by (metis length_pos_if_in_set less_numeral_extra(3) list.size(3))
    moreover have "sst_id t \<le> Max (set (map sst_id ?ts))" using t by (intro Max_ge) auto
    ultimately show ?thesis by linarith
  qed
  then have "\<forall>t\<in>set (ev_sstables (lsm_view eng')). sst_id t < ws_sstable_id (lsm_write eng')" unfolding v(3) by blast
  ultimately show ?thesis using o v(2,3) R(1) by (intro exI [of _ s'] exI [of _ eng'] conjI) assumption+
qed

end

section \<open>Writes keep the state durable\<close>

lemma mem_versions_after_inserts:
  assumes env: "env_ok env" and inv: "lsm_inv env eng" and dist: "distinct (map write_key es)"
    and q: "q = ws_next_commit_seq (lsm_write eng)"
  shows "mem_versions env (after_inserts env es w eng) = mem_versions env eng \<union> batch_version q ` set es"
proof -
  let ?M = "mt_to_entries (env_skip env) (ev_memtable (lsm_view eng))"
  have "seq (fst x) < q" if "x \<in> set ?M" for x
  proof -
    have "x \<in> all_versions env eng" using that by (simp add: all_versions_def layers_def mem_layers_def)
    with lsm_invD(3) [OF inv] q show ?thesis by blast
  qed
  then have "\<forall>x\<in>set ?M. seq (fst x) = q \<longrightarrow> user_key (fst x) \<notin> write_key ` set es" by (metis less_irrefl)
  from foldl_insert_entry [OF env_okD(1) [OF env] dist this] show ?thesis
    by (auto simp: mem_versions_def mem_layers_def after_inserts_def Let_def q)
qed

lemma log_holds_append:
  assumes f: "log_holds f V q" and dist: "distinct (map write_key es)" and V: "\<forall>x\<in>V. seq (fst x) < q"
    and b: "batch_ok (q, map wal_entry_of es)"
  shows "log_holds (f @ batch_bytes q (map wal_entry_of es)) (V \<union> batch_version q ` set es) (q + 1)"
proof -
  obtain bs where bs: "f = log_bytes bs" "\<forall>b\<in>set bs. batch_ok b" "set (recovered (log_records bs)) = V" "log_max bs < q"
    using f unfolding log_holds_def by blast
  let ?bs = "bs @ [(q, map wal_entry_of es)]"
  have "set (recovered (log_records ?bs)) = V \<union> batch_version q ` set es"
    using V bs(3)
    by (simp add: recovered_append del: map_map)
      (subst batch_recovers, subst batch_recovers_set [OF recovered_wf dist], auto)
  moreover have "log_max ?bs < q + 1" using bs(4) by (simp add: log_max_def)
  ultimately show ?thesis
    unfolding log_holds_def using bs b by (intro exI [of _ ?bs]) auto
qed

lemma durable_after_inserts:
  assumes env: "env_ok env" and inv: "lsm_inv env eng" and dur: "durable env contents ok eng"
    and dist: "distinct (map write_key es)" and q: "q = ws_next_commit_seq (lsm_write eng)" and small: "q + 1 < 2 ^ 64"
    and b: "batch_ok (q, map wal_entry_of es)"
    and w: "append_batch Done q (map wal_entry_of es) (ws_wal (lsm_write eng)) = (w, Inr rs)"
  shows "durable env contents ok (after_inserts env es w eng)"
proof -
  let ?eng = "after_inserts env es w eng"
  note D = durableD [OF dur]
  have f: "read_all_bytes w = read_all_bytes (ws_wal (lsm_write eng)) @ batch_bytes q (map wal_entry_of es)" "wal_wf w"
    using append_batch_Done [OF D(2), of q "map wal_entry_of es"] w by (simp_all add: read_all_bytes_def)
  have V: "\<forall>x\<in>mem_versions env eng. seq (fst x) < q"
    using lsm_invD(3) [OF inv] q by (auto simp: all_versions_split)
  have same: "lsm_store ?eng = lsm_store eng" "ev_sstables (lsm_view ?eng) = ev_sstables (lsm_view eng)"
    "ws_wal (lsm_write ?eng) = w" "ws_sstable_id (lsm_write ?eng) = ws_sstable_id (lsm_write eng)"
    "ws_next_commit_seq (lsm_write ?eng) = q + 1"
    using small q by (simp_all add: after_inserts_def Let_def)
  have "log_holds (read_all_bytes w) (mem_versions env ?eng) (q + 1)"
    unfolding f(1) mem_versions_after_inserts [OF env inv dist q]
    using log_holds_append [OF _ dist V b] D(3) q by simp
  moreover have "manifest_stored env (contents (lsm_store eng)) (ev_sstables (lsm_view eng)) (q + 1)"
    by (rule manifest_stored_mono [OF D(4)]) (simp add: q)
  ultimately show ?thesis
    unfolding durable_def Let_def same using D f(2) by blast
qed

lemma durable_begin_flush:
  assumes env: "env_ok env" and qui: "quiescent env eng" and dur: "durable env contents ok eng"
    and small: "ws_sstable_id (lsm_write eng) + 1 < 2 ^ 64" and bf: "begin_flush env eng = (eng', r)"
  shows "durable env contents ok eng'"
proof -
  note D = durableD [OF dur]
  have mv: "mem_versions env eng' = mem_versions env eng"
    using bf qui skip_map.mt_to_entries_new [OF env_okD(1) [OF env]]
    by (auto simp: begin_flush_def Let_def mem_versions_def mem_layers_def quiescent_def
        split: if_splits option.splits)
  have id: "ws_sstable_id (lsm_write eng) \<le> ws_sstable_id (lsm_write eng')"
    using bf small by (auto simp: begin_flush_def Let_def split: if_splits)
  have same: "lsm_store eng' = lsm_store eng" "ev_sstables (lsm_view eng') = ev_sstables (lsm_view eng)"
    "ws_wal (lsm_write eng') = ws_wal (lsm_write eng)"
    "ws_next_commit_seq (lsm_write eng') = ws_next_commit_seq (lsm_write eng)"
    using bf by (auto simp: begin_flush_def Let_def split: if_splits)
  have "\<forall>t\<in>set (ev_sstables (lsm_view eng)). sst_id t < ws_sstable_id (lsm_write eng')"
    using D(7) id less_le_trans by blast
  then show ?thesis unfolding durable_def Let_def same mv using D by blast
qed

section \<open>Flushes keep the state durable\<close>

text \<open>What the store holds after each part of a commit.\<close>

lemma ship_segment:
  assumes laws: "object_store_laws os contents ok tag_of" and ok: "ok s"
    and ship: "(if f = [] then (s, Inr ()) else case os_put os (wal_segment_key c i) f s of
        (s', Inl e) \<Rightarrow> (s', Inl e) | (s', Inr _) \<Rightarrow> (s', Inr ())) = (s1, r)"
  shows "ok s1 \<and> (\<forall>k. k \<noteq> wal_segment_key c i \<longrightarrow> contents s1 k = contents s k)"
proof (cases "f = []")
  case True
  with ship ok show ?thesis by auto
next
  case False
  obtain s' q where put: "os_put os (wal_segment_key c i) f s = (s', q)" by (cases "os_put os (wal_segment_key c i) f s")
  with False ship have "s1 = s'" by (auto split: sum.splits)
  with object_store_laws.put_ok [OF laws ok put] show ?thesis by auto
qed

lemma save_cas_store:
  assumes laws: "object_store_laws os contents ok tag_of" and ok: "ok s" and sv: "save_cas mc os m x s = (s1, r)"
  shows "ok s1" "isl r \<Longrightarrow> contents s1 = contents s"
    "\<not> isl r \<Longrightarrow> contents s1 = (contents s)(MANIFEST_KEY \<mapsto> mf_ser mc m)"
proof -
  obtain s' q where cas: "os_put_if_match os MANIFEST_KEY (mf_ser mc m) x s = (s', q)"
    by (cases "os_put_if_match os MANIFEST_KEY (mf_ser mc m) x s")
  then have s1: "s1 = s'" "isl r = isl q" using sv by (auto simp: save_cas_def split: sum.splits)
  have "ok s1 \<and> (isl r \<longrightarrow> contents s1 = contents s) \<and>
      (\<not> isl r \<longrightarrow> contents s1 = (contents s)(MANIFEST_KEY \<mapsto> mf_ser mc m))"
  proof (cases q)
    case (Inl e)
    with object_store_laws.cas_failure [OF laws ok cas [unfolded Inl]] s1 show ?thesis by simp
  next
    case (Inr meta)
    with object_store_laws.cas_success [OF laws ok cas [unfolded Inr]] s1 show ?thesis by simp
  qed
  then show "ok s1" "isl r \<Longrightarrow> contents s1 = contents s"
    "\<not> isl r \<Longrightarrow> contents s1 = (contents s)(MANIFEST_KEY \<mapsto> mf_ser mc m)" by auto
qed

lemma begin_compact_id:
  "begin_compact env eng = (eng', r) \<Longrightarrow>
   ws_sstable_id (lsm_write eng') \<in> {ws_sstable_id (lsm_write eng), inc64 (ws_sstable_id (lsm_write eng))}"
  by (auto simp: begin_compact_def Let_def split: if_splits)

lemma commit_flush_store:
  assumes laws: "object_store_laws (env_store env) contents ok tag_of" and ok: "ok (lsm_store eng)"
    and m: "m = \<lparr>sstable_ids = map sst_id (ev_sstables (lsm_view eng)) @ [pf_sstable_id p],
        wal_segment_seq = ws_wal_seg_id (lsm_write eng), writer_fencing_token = lh_token (lsm_lease eng),
        max_commit_seq = dec64 (ws_next_commit_seq (lsm_write eng))\<rparr>"
    and cf: "commit_flush env p sst eng = (eng', r)"
  shows "ok (lsm_store eng') \<and> (\<forall>i. contents (lsm_store eng') (sstable_key (env_shard_count env) i)
       = contents (lsm_store eng) (sstable_key (env_shard_count env) i)) \<and>
    ((lsm_view eng' = lsm_view eng \<and> lsm_write eng' = lsm_write eng
       \<and> contents (lsm_store eng') MANIFEST_KEY = contents (lsm_store eng) MANIFEST_KEY)
     \<or> (lsm_view eng' = (lsm_view eng)\<lparr>ev_immutable := None, ev_sstables := ev_sstables (lsm_view eng) @ [sst]\<rparr>
       \<and> ws_wal (lsm_write eng') = wal_truncate (ws_wal (lsm_write eng))
       \<and> ws_next_commit_seq (lsm_write eng') = ws_next_commit_seq (lsm_write eng)
       \<and> ws_sstable_id (lsm_write eng') \<in> {ws_sstable_id (lsm_write eng), inc64 (ws_sstable_id (lsm_write eng))}
       \<and> contents (lsm_store eng') MANIFEST_KEY = Some (mf_ser (env_manifest env) m)))"
proof -
  let ?ws = "lsm_write eng" and ?v = "lsm_view eng" and ?c = "env_shard_count env" and ?os = "env_store env"
  let ?f = "read_all_bytes (ws_wal ?ws)" and ?wk = "wal_segment_key ?c (ws_wal_seg_id ?ws)"
  obtain s1 sh where ship: "(if ?f = [] then (lsm_store eng, Inr ()) else case os_put ?os ?wk ?f (lsm_store eng) of
        (s', Inl e) \<Rightarrow> (s', Inl e) | (s', Inr _) \<Rightarrow> (s', Inr ())) = (s1, sh)" by fastforce
  note S = ship_segment [OF laws ok ship]
  have c1: "ok s1" "\<And>i. contents s1 (sstable_key ?c i) = contents (lsm_store eng) (sstable_key ?c i)"
    "contents s1 MANIFEST_KEY = contents (lsm_store eng) MANIFEST_KEY"
    using S key_spaces by (simp_all, metis+)
  show ?thesis
  proof (cases sh)
    case (Inl e)
    with cf ship have "eng' = eng\<lparr>lsm_store := s1\<rparr>" by (simp add: commit_flush_def Let_def)
    with c1 show ?thesis by simp
  next
    case sh: (Inr u)
    obtain s2 q where sv: "save_cas (env_manifest env) ?os m (ws_manifest_etag ?ws) s1 = (s2, q)"
      by (cases "save_cas (env_manifest env) ?os m (ws_manifest_etag ?ws) s1")
    note C = save_cas_store [OF laws c1(1) sv]
    show ?thesis
    proof (cases q)
      case (Inl e)
      with cf ship sh sv m have "eng' = eng\<lparr>lsm_store := s2\<rparr>" by (simp add: commit_flush_def Let_def)
      with c1 C Inl show ?thesis by simp
    next
      case (Inr tg)
      define eng1 where "eng1 = eng\<lparr>lsm_store := s2,
          lsm_view := ?v\<lparr>ev_immutable := None, ev_sstables := ev_sstables ?v @ [sst]\<rparr>,
          lsm_write := ?ws\<lparr>ws_manifest_etag := Some tg, ws_committed_wal_segment_seq := ws_wal_seg_id ?ws,
            ws_wal_seg_id := inc64 (ws_wal_seg_id ?ws), ws_wal := wal_truncate (ws_wal ?ws)\<rparr>\<rparr>"
      have "begin_compact env eng1 = (eng', r) \<or> eng' = eng1"
        using cf ship sh sv Inr m by (auto simp: commit_flush_def Let_def eng1_def split: if_splits)
      then have "lsm_view eng' = lsm_view eng1 \<and> lsm_store eng' = lsm_store eng1
          \<and> ws_wal (lsm_write eng') = ws_wal (lsm_write eng1)
          \<and> ws_next_commit_seq (lsm_write eng') = ws_next_commit_seq (lsm_write eng1)
          \<and> ws_sstable_id (lsm_write eng') \<in> {ws_sstable_id (lsm_write eng1), inc64 (ws_sstable_id (lsm_write eng1))}"
        using begin_compact_keeps [of env eng1 eng' r] begin_compact_id [of env eng1 eng' r] by auto
      with C Inr c1 key_spaces show ?thesis by (auto simp: eng1_def)
    qed
  qed
qed

lemma durable_flush:
  assumes laws: "object_store_laws (env_store env) contents ok tag_of" and mc: "manifest_codec (env_manifest env)"
    and env: "env_ok env" and inv: "lsm_inv env eng" and qui: "quiescent env eng" and dur: "durable env contents ok eng"
    and fit: "counters_fit eng" and bf: "begin_flush env eng = (eng1, Inr (Some p))"
    and sok: "sst_ok (env_bloom env) (pf_entries p)"
    and ff: "finish_flush env p eng1 = (eng2, Inr sst)" and cf: "commit_flush env p sst eng2 = (eng3, r)"
  shows "durable env contents ok eng3"
proof -
  let ?c = "env_shard_count env" and ?i = "ws_sstable_id (lsm_write eng)" and ?ts = "ev_sstables (lsm_view eng)"
  let ?n = "ws_next_commit_seq (lsm_write eng)"
  have small: "?i + 1 < 2 ^ 64" using fit by (simp add: counters_fit_def)
  note D = durableD [OF durable_begin_flush [OF env qui dur small bf]]
  have b: "ev_sstables (lsm_view eng1) = ?ts" "mt_to_entries (env_skip env) (ev_memtable (lsm_view eng1)) = []"
    "ws_sstable_id (lsm_write eng1) = ?i + 1" "ws_next_commit_seq (lsm_write eng1) = ?n"
    "ws_wal_seg_id (lsm_write eng1) = ws_wal_seg_id (lsm_write eng)" "lsm_lease eng1 = lsm_lease eng"
    "pf_sstable_id p = ?i" "pf_sst_key p = sstable_key ?c ?i" "lsm_store eng1 = lsm_store eng"
    using bf small skip_map.mt_to_entries_new [OF env_okD(1) [OF env]]
    by (auto simp: begin_flush_def Let_def split: if_splits)
  obtain imm where imm: "pf_entries p = mt_to_entries (env_skip env) (ev_memtable (lsm_view eng))"
    using begin_flush_keeps(4) [OF env inv qui bf] by blast
  have "set (pf_entries p) \<subseteq> all_versions env eng" by (auto simp: imm all_versions_def layers_def mem_layers_def)
  then have pl: "list_all plain (pf_entries p)" using lsm_invD(4) [OF inv] by (auto simp: list_all_iff)
  obtain s2 where cr: "create_in_store (env_bloom env) (env_store env) (pf_sst_key p) (pf_sstable_id p) (pf_entries p)
      (lsm_store eng1) = (s2, Inr sst)" and e2: "eng2 = eng1\<lparr>lsm_store := s2\<rparr>"
    using ff by (auto simp: finish_flush_def split: prod.splits sum.splits)
  note T = create_in_store_valid [OF env_okD(2) [OF env] sok pl cr]
  have put: "ok s2 \<and> contents s2 = (contents (lsm_store eng1))(sstable_key ?c ?i \<mapsto> build_bytes (env_bloom env) (pf_entries p))"
  proof -
    obtain meta where "os_put (env_store env) (pf_sst_key p) (build_bytes (env_bloom env) (pf_entries p)) (lsm_store eng1)
        = (s2, Inr meta)"
      using cr by (auto simp: create_in_store_def Let_def split: prod.splits sum.splits)
    from object_store_laws.put_ok [OF laws D(1) this] show ?thesis by (simp add: b)
  qed
  have old2: "table_stored env (contents s2) t" if "t \<in> set ?ts" for t
  proof -
    have t: "table_stored env (contents (lsm_store eng1)) t" "sst_id t < ?i" using D(5) durableD(7) [OF dur] that b by auto
    then have "sstable_key ?c (sst_id t) \<noteq> sstable_key ?c ?i"
      using sstable_key_inj [of "sst_id t" ?i ?c] small by (auto simp: table_stored_def)
    with t put show ?thesis by (simp add: table_stored_def)
  qed
  have new2: "table_stored env (contents s2) sst"
    using T put small b(7,8) by (simp add: table_stored_def)
  define m where "m = \<lparr>sstable_ids = map sst_id (ev_sstables (lsm_view eng2)) @ [pf_sstable_id p],
        wal_segment_seq = ws_wal_seg_id (lsm_write eng2), writer_fencing_token = lh_token (lsm_lease eng2),
        max_commit_seq = dec64 (ws_next_commit_seq (lsm_write eng2))\<rparr>"
  have n: "dec64 ?n = ?n - 1" "0 < ?n" using fit by (simp_all add: counters_fit_def dec64_pos)
  have mok: "manifest_ok m"
    unfolding manifest_ok_def m_def e2 using fit b small n old2
    by (auto simp: counters_fit_def list_all_iff table_stored_def)
  have ok2: "ok (lsm_store eng2)" using put e2 by simp
  note S = commit_flush_store [OF laws ok2 m_def cf]
  have tabs: "\<forall>t\<in>set (?ts @ [sst]). table_stored env (contents (lsm_store eng3)) t"
  proof -
    have "contents (lsm_store eng3) (sstable_key ?c j) = contents s2 (sstable_key ?c j)" for j
      using S [THEN conjunct2, THEN conjunct1] e2 by simp
    then have "table_stored env (contents s2) t \<Longrightarrow> table_stored env (contents (lsm_store eng3)) t" for t
      by (simp add: table_stored_def)
    then show ?thesis using old2 new2 by auto
  qed
  from S show ?thesis
  proof (elim conjE disjE)
    assume v: "lsm_view eng3 = lsm_view eng2" "lsm_write eng3 = lsm_write eng2"
      "contents (lsm_store eng3) MANIFEST_KEY = contents (lsm_store eng2) MANIFEST_KEY"
    have "contents (lsm_store eng3) MANIFEST_KEY = contents (lsm_store eng1) MANIFEST_KEY"
      using v(3) put e2 not_sym [OF key_spaces(1) [of ?c ?i]] by simp
    then have man: "manifest_stored env (contents (lsm_store eng3)) ?ts ?n"
      using D(4) b by (simp add: manifest_stored_def)
    show ?thesis
      unfolding durable_def Let_def v mem_versions_def using D S tabs man b e2
      by (simp add: mem_versions_def)
  next
    assume v: "lsm_view eng3 = (lsm_view eng2)\<lparr>ev_immutable := None, ev_sstables := ev_sstables (lsm_view eng2) @ [sst]\<rparr>"
      and w: "ws_wal (lsm_write eng3) = wal_truncate (ws_wal (lsm_write eng2))"
      "ws_next_commit_seq (lsm_write eng3) = ws_next_commit_seq (lsm_write eng2)"
      and i: "ws_sstable_id (lsm_write eng3) \<in> {ws_sstable_id (lsm_write eng2), inc64 (ws_sstable_id (lsm_write eng2))}"
      and c: "contents (lsm_store eng3) MANIFEST_KEY = Some (mf_ser (env_manifest env) m)"
    have mv: "mem_versions env eng3 = {}" using v e2 b(2) by (simp add: mem_versions_def mem_layers_def)
    have lg: "log_holds [] {} ?n" unfolding log_holds_def
      by (rule exI [of _ "[]"]) (simp add: recovered_def log_max_def n)
    have ids: "map sst_id (ev_sstables (lsm_view eng3)) = map sst_id ?ts @ [?i]" using v e2 b(1,7) T(3) by simp
    have man: "manifest_stored env (contents (lsm_store eng3)) (ev_sstables (lsm_view eng3)) ?n"
      using c manifest_codec.de_ser [OF mc mok] ids n b e2
      by (simp add: manifest_stored_def manifest_decode_def m_def)
    have lt: "\<forall>t\<in>set ?ts. sst_id t < ?i" by (rule durableD(7) [OF dur])
    have "sorted_wrt (<) (map sst_id (ev_sstables (lsm_view eng3)))"
      unfolding ids using durableD(6) [OF dur] lt by (auto simp: sorted_wrt_append)
    moreover have "?i < ws_sstable_id (lsm_write eng3)"
      using i b(3) e2 fit by (auto simp: counters_fit_def)
    then have "\<forall>t\<in>set (ev_sstables (lsm_view eng3)). sst_id t < ws_sstable_id (lsm_write eng3)"
      using lt v e2 b(1,7) T(3) by (auto intro: less_trans)
    ultimately show ?thesis
      unfolding durable_def Let_def mv w
      using S man tabs lg v b e2 wal_wf_truncate
      by (auto simp: read_all_bytes_def wal_truncate_def io_truncate_def)
  qed
qed

section \<open>Sessions\<close>

text \<open>
  A session: an engine opened on an empty log and store, any sequence of acknowledged batches,
  completed flushes and clean restarts, one after the other. A batch that fills the memory table
  starts a flush, which is completed before the next operation; a batch acknowledged while a flush is
  under way is not part of a session, since the log is cut when the flush commits. Compactions are not
  part of a session either. The counters stay within 64 bits.
\<close>

inductive lsm_session ::
  "('b, 'm, 's) lsm_env \<Rightarrow> ('s \<Rightarrow> bytes \<Rightarrow> bytes option) \<Rightarrow> ('s \<Rightarrow> bool) \<Rightarrow> ('b, 'm, 's) lsm_engine \<Rightarrow> bool"
  for env :: "('b, 'm, 's) lsm_env" and contents :: "'s \<Rightarrow> bytes \<Rightarrow> bytes option" and ok :: "'s \<Rightarrow> bool" where
  start: "\<lbrakk>ok s; contents s MANIFEST_KEY = None; lsm_open env [] s lease = (s', Inr eng)\<rbrakk>
    \<Longrightarrow> lsm_session env contents ok eng"
| batch: "\<lbrakk>lsm_session env contents ok eng; counters_fit eng; distinct (map write_key es);
     batch_ok (ws_next_commit_seq (lsm_write eng), map wal_entry_of es);
     write_batch env Done es eng = (eng', Inr (q, None))\<rbrakk> \<Longrightarrow> lsm_session env contents ok eng'"
| filling_batch: "\<lbrakk>lsm_session env contents ok eng; counters_fit eng; counters_fit eng1; distinct (map write_key es);
     batch_ok (ws_next_commit_seq (lsm_write eng), map wal_entry_of es);
     write_batch env Done es eng = (eng1, Inr (q, Some p)); sst_ok (env_bloom env) (pf_entries p);
     finish_flush env p eng1 = (eng2, Inr sst); commit_flush env p sst eng2 = (eng3, Inr pc)\<rbrakk>
    \<Longrightarrow> lsm_session env contents ok eng3"
| flush: "\<lbrakk>lsm_session env contents ok eng; counters_fit eng; begin_flush env eng = (eng1, Inr (Some p));
     sst_ok (env_bloom env) (pf_entries p); finish_flush env p eng1 = (eng2, Inr sst);
     commit_flush env p sst eng2 = (eng3, Inr pc)\<rbrakk> \<Longrightarrow> lsm_session env contents ok eng3"
| restart: "\<lbrakk>lsm_session env contents ok eng; counters_fit eng;
     lsm_open env (read_all_bytes (ws_wal (lsm_write eng))) (lsm_store eng) lease = (s', Inr eng')\<rbrakk>
    \<Longrightarrow> lsm_session env contents ok eng'"

definition session_inv ::
  "('b, 'm, 's) lsm_env \<Rightarrow> ('s \<Rightarrow> bytes \<Rightarrow> bytes option) \<Rightarrow> ('s \<Rightarrow> bool) \<Rightarrow> ('b, 'm, 's) lsm_engine \<Rightarrow> bool" where
  "session_inv env contents ok eng \<longleftrightarrow> lsm_inv env eng \<and> quiescent env eng \<and> durable env contents ok eng"

locale recovering_engine = reliable_store os contents ok tag_of
  for os :: "'s object_store" and contents ok tag_of +
  fixes env :: "('b, 'm, 's) lsm_env"
  assumes env_ok: "env_ok env" and store: "env_store env = os" and codec: "manifest_codec (env_manifest env)"
begin

lemma session_start:
  assumes "ok s" and "contents s MANIFEST_KEY = None" and "lsm_open env [] s lease = (s', Inr eng)"
  shows "session_inv env contents ok eng"
proof -
  have r: "replay_from [] 0 0 = ([], 0)" by (simp add: replay_from.simps)
  have man: "manifest_stored env (contents s) [] n" for n using assms(2) by (simp add: manifest_stored_def)
  obtain mx where e: "lsm_store eng = s'" "contents s' = contents s" "ok s'" "ws_wal (lsm_write eng) = wal_open []"
    "mt_to_entries (env_skip env) (ev_memtable (lsm_view eng)) = []" "ev_immutable (lsm_view eng) = None"
    "ev_sstables (lsm_view eng) = []" "ws_next_commit_seq (lsm_write eng) = inc64 mx" "mx = 0"
    using open_durable [OF env_ok store assms(1) r man [of 0], of lease] assms(3) by (auto simp: recovered_def)
  have lay: "layers env eng = [[]]" using e by (simp add: layers_def mem_layers_def sst_layers_def)
  have "lsm_inv env eng" using e by (simp add: lsm_inv_def all_versions_def lay layered_def)
  moreover have "quiescent env eng" using e by (simp add: quiescent_def)
  moreover have "log_holds [] {} 1" unfolding log_holds_def
    by (rule exI [of _ "[]"]) (simp add: recovered_def log_max_def)
  then have "durable env contents ok eng"
    unfolding durable_def Let_def using e man wal_wf_open [of "[]"]
    by (simp add: mem_versions_def mem_layers_def wal_open_def std_wal_io_new_def read_all_bytes_def inc64_def)
  ultimately show ?thesis by (simp add: session_inv_def)
qed

lemma session_inserts:
  assumes s: "session_inv env contents ok eng" and fit: "counters_fit eng" and dist: "distinct (map write_key es)"
    and b: "batch_ok (ws_next_commit_seq (lsm_write eng), map wal_entry_of es)"
    and w: "append_batch Done (ws_next_commit_seq (lsm_write eng)) (map wal_entry_of es) (ws_wal (lsm_write eng))
      = (w, Inr (map (entry_record (ws_next_commit_seq (lsm_write eng))) (map wal_entry_of es)))"
  shows "session_inv env contents ok (after_inserts env es w eng)"
proof -
  have inv: "lsm_inv env eng" and qui: "quiescent env eng" and dur: "durable env contents ok eng"
    using s by (simp_all add: session_inv_def)
  have small: "ws_next_commit_seq (lsm_write eng) + 1 < 2 ^ 64" using fit by (simp add: counters_fit_def)
  show ?thesis
    using after_inserts_layers(1) [OF env_ok inv dist refl small] qui durable_after_inserts [OF env_ok inv dur dist refl small b w]
    by (simp add: session_inv_def quiescent_def after_inserts_def Let_def)
qed

lemma session_write:
  assumes s: "session_inv env contents ok eng" and fit: "counters_fit eng" and dist: "distinct (map write_key es)"
    and b: "batch_ok (ws_next_commit_seq (lsm_write eng), map wal_entry_of es)"
    and wb: "write_batch env Done es eng = (eng', Inr (q, None))"
  shows "session_inv env contents ok eng'"
proof -
  let ?q = "ws_next_commit_seq (lsm_write eng)"
  have small: "ws_sstable_id (lsm_write eng) + 1 < 2 ^ 64" using fit by (simp add: counters_fit_def)
  obtain w where w: "append_batch Done ?q (map wal_entry_of es) (ws_wal (lsm_write eng))
      = (w, Inr (map (entry_record ?q) (map wal_entry_of es)))"
    and e: "eng' = after_inserts env es w eng \<or> begin_flush env (after_inserts env es w eng) = (eng', Inr None)"
    by (rule write_batch_Done [OF wb]) auto
  let ?eng1 = "after_inserts env es w eng"
  have inv1: "lsm_inv env ?eng1" and qui1: "quiescent env ?eng1" and dur1: "durable env contents ok ?eng1"
    using session_inserts [OF s fit dist b w] by (simp_all add: session_inv_def)
  from e show ?thesis
  proof
    assume "eng' = ?eng1"
    with inv1 qui1 dur1 show ?thesis by (simp add: session_inv_def)
  next
    assume bf: "begin_flush env ?eng1 = (eng', Inr None)"
    then have "mt_to_entries (env_skip env) (ev_memtable (lsm_view ?eng1)) = []"
      "ev_immutable (lsm_view eng') = Some (ev_memtable (lsm_view ?eng1))"
      by (auto simp: begin_flush_def Let_def split: if_splits)
    then have "quiescent env eng'" by (simp add: quiescent_def)
    moreover have "ws_sstable_id (lsm_write ?eng1) + 1 < 2 ^ 64" using small by (simp add: after_inserts_def Let_def)
    ultimately show ?thesis
      using begin_flush_keeps(1) [OF env_ok inv1 qui1 bf] durable_begin_flush [OF env_ok qui1 dur1 _ bf]
      by (simp add: session_inv_def)
  qed
qed

lemma session_flush:
  assumes s: "session_inv env contents ok eng" and fit: "counters_fit eng"
    and bf: "begin_flush env eng = (eng1, Inr (Some p))" and sok: "sst_ok (env_bloom env) (pf_entries p)"
    and ff: "finish_flush env p eng1 = (eng2, Inr sst)" and cf: "commit_flush env p sst eng2 = (eng3, Inr pc)"
  shows "session_inv env contents ok eng3"
proof -
  have inv: "lsm_inv env eng" and qui: "quiescent env eng" and dur: "durable env contents ok eng"
    using s by (simp_all add: session_inv_def)
  have laws: "object_store_laws (env_store env) contents ok tag_of" using object_store_laws_axioms store by simp
  have d3: "durable env contents ok eng3"
    by (rule durable_flush [OF laws codec env_ok inv qui dur fit bf sok ff cf])
  note B = begin_flush_keeps [OF env_ok inv qui bf]
  obtain imm where imm: "ev_immutable (lsm_view eng1) = Some imm" "pf_entries p = mt_to_entries (env_skip env) imm"
    using B(4) by blast
  have "set (pf_entries p) \<subseteq> all_versions env eng1"
    using imm by (auto simp: all_versions_def layers_def mem_layers_def)
  then have pl: "list_all plain (pf_entries p)" using lsm_invD(4) [OF B(1)] by (auto simp: list_all_iff)
  note T = finish_flush_valid [OF env_ok sok pl ff]
  have v: "lsm_view eng2 = lsm_view eng1" "lsm_write eng2 = lsm_write eng1" using finish_flush_keeps [OF ff] by auto
  have inv2: "lsm_inv env eng2" by (rule lsm_inv_view [OF B(1)]) (simp_all add: v)
  have "lsm_inv env eng3"
    by (rule commit_flush_keeps(1) [OF env_ok inv2 _ _ _ cf, of imm]) (use imm v T in simp_all)
  moreover have "quiescent env eng3" using commit_flush_success [OF cf] by (simp add: quiescent_def)
  ultimately show ?thesis using d3 by (simp add: session_inv_def)
qed

lemma session_fill:
  assumes s: "session_inv env contents ok eng" and fit: "counters_fit eng" "counters_fit eng1" and dist: "distinct (map write_key es)"
    and b: "batch_ok (ws_next_commit_seq (lsm_write eng), map wal_entry_of es)"
    and wb: "write_batch env Done es eng = (eng1, Inr (q, Some p))" and sok: "sst_ok (env_bloom env) (pf_entries p)"
    and ff: "finish_flush env p eng1 = (eng2, Inr sst)" and cf: "commit_flush env p sst eng2 = (eng3, Inr pc)"
  shows "session_inv env contents ok eng3"
proof -
  let ?q = "ws_next_commit_seq (lsm_write eng)"
  obtain w where w: "append_batch Done ?q (map wal_entry_of es) (ws_wal (lsm_write eng))
      = (w, Inr (map (entry_record ?q) (map wal_entry_of es)))"
    and bf: "begin_flush env (after_inserts env es w eng) = (eng1, Inr (Some p))"
    by (rule write_batch_Done [OF wb]) auto
  have "counters_fit (after_inserts env es w eng)"
    using fit bf by (auto simp: counters_fit_def begin_flush_def after_inserts_def Let_def inc64_def split: if_splits)
  then show ?thesis by (rule session_flush [OF session_inserts [OF s fit(1) dist b w] _ bf sok ff cf])
qed

text \<open>Recovery from a log whose last batch may have been cut short.\<close>

lemma session_reopen:
  assumes s: "session_inv env contents ok eng" and fit: "counters_fit eng"
    and tail: "tail = [] \<or> (\<exists>q es n. tail = take n (batch_bytes q es) \<and> n < length (batch_bytes q es) \<and> batch_ok (q, es)
        \<and> q = ws_next_commit_seq (lsm_write eng))"
  shows "\<exists>s' eng'. lsm_open env (read_all_bytes (ws_wal (lsm_write eng)) @ tail) (lsm_store eng) lease = (s', Inr eng')
    \<and> lsm_inv env eng' \<and> (\<forall>k q. lsm_read_at env eng' k q = lsm_read_at env eng k q)
    \<and> (tail = [] \<longrightarrow> session_inv env contents ok eng')"
proof -
  have inv: "lsm_inv env eng" and dur: "durable env contents ok eng" using s by (simp_all add: session_inv_def)
  note D = durableD [OF dur]
  let ?n = "ws_next_commit_seq (lsm_write eng)" and ?f = "read_all_bytes (ws_wal (lsm_write eng))"
  obtain bs where bs: "?f = log_bytes bs" "\<forall>b\<in>set bs. batch_ok b" "set (recovered (log_records bs)) = mem_versions env eng"
    "log_max bs < ?n"
    using D(3) unfolding log_holds_def by blast
  obtain wm where wm: "replay_from (?f @ tail) 0 0 = (log_records bs, wm)" "log_max bs \<le> wm" "wm \<le> ?n"
    using tail
  proof (elim disjE exE conjE)
    assume "tail = []"
    then show thesis using replay_log_bytes [OF bs(2)] bs(1,4) by (intro that [of "log_max bs"]) simp_all
  next
    fix q es n
    assume "tail = take n (batch_bytes q es)" "n < length (batch_bytes q es)" "batch_ok (q, es)" "q = ?n"
    then show thesis
      using replay_log_torn [OF bs(2), of q es n] bs(1,4)
      by (intro that [of "if 13 \<le> n then max (log_max bs) q else log_max bs"]) auto
  qed
  obtain s' eng' where o: "lsm_open env (?f @ tail) (lsm_store eng) lease = (s', Inr eng')"
    "contents s' = contents (lsm_store eng)" "lsm_store eng' = s'" "ok s'" "lsm_inv env eng'"
    "ws_wal (lsm_write eng') = wal_open (?f @ tail)" "ev_immutable (lsm_view eng') = None"
    "ev_sstables (lsm_view eng') = ev_sstables (lsm_view eng)" "mem_versions env eng' = mem_versions env eng"
    "wm < ws_next_commit_seq (lsm_write eng')" "\<forall>k q. lsm_read_at env eng' k q = lsm_read_at env eng k q"
    "manifest_stored env (contents s') (ev_sstables (lsm_view eng')) (ws_next_commit_seq (lsm_write eng'))"
    "\<forall>t\<in>set (ev_sstables (lsm_view eng')). sst_id t < ws_sstable_id (lsm_write eng')"
    using open_recovers [OF env_ok store inv dur fit bs(2,3) wm, of lease] by blast
  have "session_inv env contents ok eng'" if "tail = []"
  proof -
    have "log_holds ?f (mem_versions env eng') (ws_next_commit_seq (lsm_write eng'))"
      unfolding log_holds_def using bs o(9,10) wm(2) by (intro exI [of _ bs]) auto
    then have "durable env contents ok eng'"
      unfolding durable_def Let_def using o D that wal_wf_open
      by (simp add: wal_open_def std_wal_io_new_def read_all_bytes_def)
    with o show ?thesis by (simp add: session_inv_def quiescent_def)
  qed
  with o show ?thesis by blast
qed

lemma session_invariant: "lsm_session env contents ok eng \<Longrightarrow> session_inv env contents ok eng"
proof (induction rule: lsm_session.induct)
  case (start s lease s' eng)
  then show ?case by (rule session_start)
next
  case (batch eng es eng' q)
  then show ?case by (metis session_write)
next
  case (filling_batch eng eng1 es q p eng2 sst eng3 pc)
  then show ?case by (metis session_fill)
next
  case (flush eng eng1 p eng2 sst eng3 pc)
  then show ?case by (metis session_flush)
next
  case (restart eng lease s' eng')
  then obtain s2 eng2 where "lsm_open env (read_all_bytes (ws_wal (lsm_write eng)) @ []) (lsm_store eng) lease = (s2, Inr eng2)"
    "session_inv env contents ok eng2"
    using session_reopen [OF restart.IH restart.hyps(2), of "[]" lease] by blast
  with restart.hyps(3) show ?case by simp
qed

end

section \<open>The file-system backend without faults\<close>

interpretation quiet: reliable_store "local_fs_store sha256" objects "\<lambda>s. faults s = []" "sha256_hex sha256"
  for sha256
  by unfold_locales
    (auto simp: reliable_get_def local_fs_store_def local_no_faults local_no_faults_cas split: if_splits)

interpretation demo: recovering_engine "local_fs_store id" objects "\<lambda>s. faults s = []" "sha256_hex id" demo_env
  by unfold_locales (simp_all add: demo_env_ok, simp_all add: demo_env_def layout.de_ser)

section \<open>Properties\<close>

text \<open>C6: durability. After any session on a reliable store, of batches acknowledged one at a time, each
  flush they start completed before the next operation, explicit flushes and clean restarts, with the
  counters within 64 bits, the data within the limits of the log and table formats and no compaction, opening the engine again on its log and store succeeds,
  and every read of every key at every snapshot gives what it gave before.\<close>

theorem restart_preserves_reads:
  assumes "object_store_laws os contents ok tag_of" and "reliable_get os ok" and "env_ok env"
    and "env_store env = os" and "manifest_codec (env_manifest env)"
    and "lsm_session env contents ok eng" and "counters_fit eng"
  shows "\<exists>s' eng'. lsm_open env (read_all_bytes (ws_wal (lsm_write eng))) (lsm_store eng) lease = (s', Inr eng')
    \<and> lsm_session env contents ok eng' \<and> (\<forall>k s. lsm_read_at env eng' k s = lsm_read_at env eng k s)"
proof -
  have re: "recovering_engine os contents ok tag_of env"
    by (intro recovering_engine.intro reliable_store.intro reliable_store_axioms.intro
        recovering_engine_axioms.intro assms(1-5))
  from recovering_engine.session_reopen [OF re recovering_engine.session_invariant [OF re assms(6)] assms(7),
      of "[]" lease] obtain s' eng' where
    o: "lsm_open env (read_all_bytes (ws_wal (lsm_write eng))) (lsm_store eng) lease = (s', Inr eng')"
    and r: "\<forall>k s. lsm_read_at env eng' k s = lsm_read_at env eng k s" by auto
  have "lsm_session env contents ok eng'" by (rule lsm_session.restart [OF assms(6,7) o])
  with o r show ?thesis by blast
qed

text \<open>C9: atomicity of a commit under the first crash. When, after a session as above (so with no torn
  batch in the log yet), a batch's append is interrupted after any proper prefix of its bytes reached the
  log, the engine that is opened afterwards reads, for every key and every snapshot, exactly what was
  read before the batch. (What is acknowledged after that restart is appended behind the torn batch, and
  is lost at the next one: \<open>wal_torn_tail_hides_later_batches\<close>.)\<close>

theorem interrupted_batch_leaves_no_trace:
  assumes "object_store_laws os contents ok tag_of" and "reliable_get os ok" and "env_ok env"
    and "env_store env = os" and "manifest_codec (env_manifest env)"
    and ses: "lsm_session env contents ok eng" and fit: "counters_fit eng"
    and b: "batch_ok (ws_next_commit_seq (lsm_write eng), map wal_entry_of es)"
    and n: "n < length (batch_bytes (ws_next_commit_seq (lsm_write eng)) (map wal_entry_of es))"
    and wb: "write_batch env (Fail n) es eng = (eng1, r)"
  shows "\<exists>s' eng'. lsm_open env (read_all_bytes (ws_wal (lsm_write eng1))) (lsm_store eng1) lease = (s', Inr eng')
    \<and> lsm_inv env eng' \<and> (\<forall>k s. lsm_read_at env eng' k s = lsm_read_at env eng k s)"
proof -
  let ?q = "ws_next_commit_seq (lsm_write eng)"
  have re: "recovering_engine os contents ok tag_of env"
    by (intro recovering_engine.intro reliable_store.intro reliable_store_axioms.intro
        recovering_engine_axioms.intro assms(1-5))
  have si: "session_inv env contents ok eng" by (rule recovering_engine.session_invariant [OF re ses])
  have wf: "wal_wf (ws_wal (lsm_write eng))" using si durableD(2) by (auto simp: session_inv_def)
  have e1: "lsm_store eng1 = lsm_store eng"
    "read_all_bytes (ws_wal (lsm_write eng1)) = read_all_bytes (ws_wal (lsm_write eng)) @ take n (batch_bytes ?q (map wal_entry_of es))"
    using wb append_batch_Fail [OF wf, of n ?q "map wal_entry_of es"]
    by (auto simp: write_batch_def Let_def read_all_bytes_def split: prod.splits sum.splits)
  show ?thesis
    unfolding e1
    using recovering_engine.session_reopen [OF re si fit, of "take n (batch_bytes ?q (map wal_entry_of es))" lease] b n
    by blast
qed

section \<open>Witnesses\<close>

lemma demo_open: "lsm_open demo_env [] (local_open []) demo_lease = (local_open [], Inr (demo_engine [] 1))"
  by (simp add: lsm_open_def demo_env_def replay_def wal_open_def std_wal_io_new_def replay_from.simps manifest_load_def
      local_fs_store_def local_no_faults local_open_def manifest_default_def inc64_def demo_engine_def mt_new_def
      list_skip_map_def Let_def)

definition demo_batch :: "write_entry list" where
  "demo_batch = [([116], [97], Some [7])]"

definition demo_written :: "(u64w, entry list, local_fs) lsm_engine" where
  "demo_written = fst (write_batch demo_env Done demo_batch (demo_engine [] 1))"

lemma demo_written: "write_batch demo_env Done demo_batch (demo_engine [] 1) = (demo_written, Inr (1, None))"
  by (simp add: demo_written_def demo_batch_def write_batch_def append_batch_def io_append_def Let_def demo_engine_def
      insert_entry_def mt_insert_def mt_is_full_def MEMTABLE_MAX_SIZE_def)

lemma demo_batch_ok: "batch_ok (q, map wal_entry_of demo_batch) = (q < 2 ^ 64)"
  by (simp add: demo_batch_def wal_entry_of_def batch_ok_def entry_ok_def utf8_step_def utf8_width_def)

lemma demo_session: "lsm_session demo_env objects (\<lambda>s. faults s = []) demo_written"
proof (rule lsm_session.batch [OF _ _ _ _ demo_written])
  show "lsm_session demo_env objects (\<lambda>s. faults s = []) (demo_engine [] 1)"
    by (rule lsm_session.start [OF _ _ demo_open]) (simp_all add: local_open_def)
  show "counters_fit (demo_engine [] 1)" by (simp add: counters_fit_def demo_engine_def demo_lease_def)
  show "distinct (map write_key demo_batch)" by (simp add: demo_batch_def)
  show "batch_ok (ws_next_commit_seq (lsm_write (demo_engine [] 1)), map wal_entry_of demo_batch)"
    by (simp add: demo_batch_ok demo_engine_def)
qed

lemma demo_written_fit: "counters_fit demo_written" "ws_next_commit_seq (lsm_write demo_written) = 2"
  by (simp_all add: counters_fit_def demo_written_def demo_batch_def write_batch_def append_batch_def io_append_def Let_def
      demo_engine_def insert_entry_def mt_insert_def mt_is_full_def MEMTABLE_MAX_SIZE_def demo_lease_def inc64_def)

lemmas demo_parts = quiet.object_store_laws_axioms [of id] quiet.reliable [of id] demo_env_ok

theorem restart_preserves_reads_witness:
  "\<exists>s' eng'. lsm_open demo_env (read_all_bytes (ws_wal (lsm_write demo_written))) (lsm_store demo_written) demo_lease
      = (s', Inr eng')
    \<and> lsm_read_at demo_env eng' [97] 1 = lsm_read_at demo_env demo_written [97] 1"
  using restart_preserves_reads [OF demo_parts(1,2,3) demo.store demo.codec demo_session demo_written_fit(1), of demo_lease]
  by blast

theorem interrupted_batch_leaves_no_trace_witness:
  "\<exists>s' eng'. lsm_open demo_env
      (read_all_bytes (ws_wal (lsm_write (fst (write_batch demo_env (Fail 20) demo_batch demo_written)))))
      (lsm_store (fst (write_batch demo_env (Fail 20) demo_batch demo_written))) demo_lease = (s', Inr eng')
    \<and> lsm_read_at demo_env eng' [97] 2 = lsm_read_at demo_env demo_written [97] 2"
proof -
  have b: "batch_ok (ws_next_commit_seq (lsm_write demo_written), map wal_entry_of demo_batch)"
    by (simp add: demo_batch_ok demo_written_fit(2))
  have n: "20 < length (batch_bytes (ws_next_commit_seq (lsm_write demo_written)) (map wal_entry_of demo_batch))"
    by (simp add: batch_bytes_def demo_batch_def wal_entry_of_def)
  have w: "write_batch demo_env (Fail 20) demo_batch demo_written
      = (fst (write_batch demo_env (Fail 20) demo_batch demo_written),
         snd (write_batch demo_env (Fail 20) demo_batch demo_written))" by simp
  from interrupted_batch_leaves_no_trace [OF demo_parts(1,2,3) demo.store demo.codec demo_session demo_written_fit(1) b n w,
      of demo_lease]
  show ?thesis by blast
qed

end
