(* ===== verification/Txn.thy ===== *)
theory Txn
  imports Lsm_Compact
begin

text \<open>
  Transactions (\<open>storage/database/txn.rs\<close>, \<open>storage/mvcc.rs\<close>). The state behind a
  \<open>TxnHandle\<close> is a record; the operations that release the snapshot also change the
  engine the handle points to. The mutex makes each operation one step. Dropping the last
  handle is the operation \<open>txn_drop\<close>.
\<close>

section \<open>State\<close>

datatype staged_write = StagedWrite (sw_value: "bytes option")

record transaction_state =
  ts_id :: nat
  ts_snapshot_seq :: nat
  ts_finished :: bool
  ts_staged :: "(bytes \<times> staged_write) list"

text \<open>The counter of transaction ids: the next counter and the id handed out.\<close>

definition new_tx_id :: "nat \<Rightarrow> nat \<times> nat" where
  "new_tx_id next = (inc64 next, next)"

definition txn_new :: "nat \<Rightarrow> nat \<Rightarrow> transaction_state" where
  "txn_new i snapshot_seq =
     \<lparr>ts_id = i, ts_snapshot_seq = snapshot_seq, ts_finished = False, ts_staged = []\<rparr>"

section \<open>Operations\<close>

definition stage_write :: "bytes \<Rightarrow> bytes \<Rightarrow> transaction_state \<Rightarrow> transaction_state" where
  "stage_write composite_key val t =
     (if ts_finished t then t
      else t\<lparr>ts_staged := bt_insert composite_key (StagedWrite (Some val)) (ts_staged t)\<rparr>)"

definition stage_delete :: "bytes \<Rightarrow> transaction_state \<Rightarrow> transaction_state" where
  "stage_delete composite_key t =
     (if ts_finished t then t
      else t\<lparr>ts_staged := bt_insert composite_key (StagedWrite None) (ts_staged t)\<rparr>)"

definition staged_read :: "transaction_state \<Rightarrow> bytes \<Rightarrow> unit + bytes option" where
  "staged_read t composite_key =
     (case bt_get (ts_staged t) composite_key of
        Some (StagedWrite (Some v)) \<Rightarrow> Inr (Some v)
      | Some (StagedWrite None) \<Rightarrow> Inr None
      | None \<Rightarrow> Inl ())"

definition finish_locked ::
  "transaction_state \<Rightarrow> ('b, 'm, 's) lsm_engine \<Rightarrow> transaction_state \<times> ('b, 'm, 's) lsm_engine" where
  "finish_locked t eng =
     (if ts_finished t then (t, eng)
      else (t\<lparr>ts_finished := True\<rparr>, release_snapshot (ts_snapshot_seq t) eng))"

definition take_staged ::
  "transaction_state \<Rightarrow> ('b, 'm, 's) lsm_engine
    \<Rightarrow> transaction_state \<times> ('b, 'm, 's) lsm_engine \<times> (bytes \<times> staged_write) list" where
  "take_staged t eng =
     (case finish_locked t eng of (t', eng') \<Rightarrow> (t'\<lparr>ts_staged := []\<rparr>, eng', ts_staged t'))"

definition discard ::
  "transaction_state \<Rightarrow> ('b, 'm, 's) lsm_engine \<Rightarrow> transaction_state \<times> ('b, 'm, 's) lsm_engine" where
  "discard t eng = (case finish_locked t eng of (t', eng') \<Rightarrow> (t'\<lparr>ts_staged := []\<rparr>, eng'))"

definition txn_drop :: "transaction_state \<Rightarrow> ('b, 'm, 's) lsm_engine \<Rightarrow> ('b, 'm, 's) lsm_engine" where
  "txn_drop t eng = (if \<not> ts_finished t then release_snapshot (ts_snapshot_seq t) eng else eng)"

definition pending_count :: "transaction_state \<Rightarrow> nat" where
  "pending_count t = length (ts_staged t)"

section \<open>The open-snapshot counts\<close>

text \<open>How many registrations of a snapshot are open.\<close>

definition open_count :: "('b, 'm, 's) lsm_engine \<Rightarrow> nat \<Rightarrow> nat" where
  "open_count eng q = (case bt_get (ws_open_snapshots (lsm_write eng)) q of Some c \<Rightarrow> c | None \<Rightarrow> 0)"

text \<open>The table of counts is an ordered map without zero entries.\<close>

definition snapshots_ok :: "('b, 'm, 's) lsm_engine \<Rightarrow> bool" where
  "snapshots_ok eng \<longleftrightarrow> bt_wf (ws_open_snapshots (lsm_write eng))
     \<and> (\<forall>e\<in>set (ws_open_snapshots (lsm_write eng)). 0 < snd e)"

lemma open_count_pos:
  assumes "snapshots_ok eng"
  shows "0 < open_count eng q \<longleftrightarrow> q \<in> fst ` set (ws_open_snapshots (lsm_write eng))"
proof -
  let ?m = "ws_open_snapshots (lsm_write eng)"
  have wf: "bt_wf ?m" using assms by (simp add: snapshots_ok_def)
  have "bt_get ?m q = Some c \<Longrightarrow> 0 < c" for c
    using assms bt_get_Some_iff [OF wf] by (fastforce simp: snapshots_ok_def)
  moreover have "bt_get ?m q = None \<longleftrightarrow> q \<notin> fst ` set ?m"
    by (simp add: bt_get_def map_of_eq_None_iff)
  ultimately show ?thesis by (auto simp: open_count_def split: option.splits)
qed

lemma register_count:
  assumes "snapshots_ok eng" and "open_count eng q + 1 < 2 ^ 32"
  shows "snapshots_ok (register_snapshot q eng)"
    "open_count (register_snapshot q eng) = (open_count eng)(q := open_count eng q + 1)"
  using assms
  by (auto simp: snapshots_ok_def register_snapshot_def count_snapshot_def set_bt_insert bt_wf_insert
      open_count_def bt_get_insert fun_eq_iff split: option.splits)

lemma release_count:
  assumes "snapshots_ok eng" and "0 < open_count eng q"
  shows "snapshots_ok (release_snapshot q eng)"
    "open_count (release_snapshot q eng) = (open_count eng)(q := open_count eng q - 1)"
  using assms
  by (auto simp: snapshots_ok_def release_snapshot_def dec32_def set_bt_insert bt_wf_insert bt_wf_remove set_bt_remove
      open_count_def bt_get_insert bt_get_remove fun_eq_iff Let_def split: option.splits)

lemma snapshot_frame [simp]:
  "lsm_view (register_snapshot q eng) = lsm_view eng" "lsm_view (release_snapshot q eng) = lsm_view eng"
  "ws_next_commit_seq (lsm_write (register_snapshot q eng)) = ws_next_commit_seq (lsm_write eng)"
  "ws_next_commit_seq (lsm_write (release_snapshot q eng)) = ws_next_commit_seq (lsm_write eng)"
  by (simp_all add: register_snapshot_def release_snapshot_def Let_def split: option.splits)

text \<open>Steps of the engine that leave the registrations alone.\<close>

lemma begin_compact_snaps:
  "begin_compact env eng = (eng', r) \<Longrightarrow> ws_open_snapshots (lsm_write eng') = ws_open_snapshots (lsm_write eng)"
  by (auto simp: begin_compact_def Let_def split: if_splits)

lemma begin_flush_snaps:
  "begin_flush env eng = (eng', r) \<Longrightarrow> ws_open_snapshots (lsm_write eng') = ws_open_snapshots (lsm_write eng)"
  by (auto simp: begin_flush_def Let_def split: if_splits)

lemma commit_flush_snaps:
  "commit_flush env p sst eng = (eng', r)
    \<Longrightarrow> ws_open_snapshots (lsm_write eng') = ws_open_snapshots (lsm_write eng)"
  by (auto simp: commit_flush_def Let_def dest!: begin_compact_snaps split: if_splits prod.splits sum.splits)

lemma finish_compact_keeps:
  "finish_compact env pc eng = (eng', r) \<Longrightarrow> lsm_view eng' = lsm_view eng \<and> lsm_write eng' = lsm_write eng"
  by (auto simp: finish_compact_def split: prod.splits sum.splits)

lemma commit_compact_snaps:
  "commit_compact env pc sst eng = (eng', r)
    \<Longrightarrow> ws_open_snapshots (lsm_write eng') = ws_open_snapshots (lsm_write eng)
      \<and> ws_next_commit_seq (lsm_write eng') = ws_next_commit_seq (lsm_write eng)"
  by (auto simp: commit_compact_def Let_def split: prod.splits sum.splits)

lemma run_compaction_snaps:
  "run_compaction env pending eng = (eng', r)
    \<Longrightarrow> ws_open_snapshots (lsm_write eng') = ws_open_snapshots (lsm_write eng)"
  by (auto simp: run_compaction_def dest!: finish_compact_keeps commit_compact_snaps
      split: option.splits prod.splits sum.splits)

lemma write_batch_snaps:
  "write_batch env out es eng = (eng', r)
    \<Longrightarrow> ws_open_snapshots (lsm_write eng') = ws_open_snapshots (lsm_write eng)"
  by (auto simp: write_batch_def Let_def dest!: begin_flush_snaps split: if_splits prod.splits sum.splits)

end
