(* ===== verification/Database.thy ===== *)
theory Database
  imports Txn
begin

text \<open>
  The transaction and row operations of the database (\<open>storage/database/mod.rs\<close>,
  \<open>storage/database/storage_engine.rs\<close>) over the LSM engine: composite keys, autocommit
  writes and deletes, reads and scans through a transaction's staging buffer, begin, commit
  and rollback. The secondary indexes and the schema catalogue are one opaque component of
  the state; \<open>maintain\<close> stands for \<open>maintain_indexes_on_write\<close>, which changes only
  that component and may fail. A flush that a write starts is driven to its end by the same
  call, as in the code.
\<close>

section \<open>State and keys\<close>

datatype node_role = Writer | Reader

record ('b, 'm, 's, 'i) database =
  db_lsm :: "('b, 'm, 's) lsm_engine"
  db_role :: node_role
  db_indexes :: 'i
  db_next_tx_id :: nat

datatype db_error = DbReadOnly | DbLsm lsm_error | DbIndex

type_synonym 'i maintain = "bytes \<Rightarrow> bytes \<Rightarrow> bytes \<Rightarrow> 'i \<Rightarrow> 'i \<times> (db_error + unit)"

definition make_key :: "bytes \<Rightarrow> bytes \<Rightarrow> bytes" where
  "make_key table key = table @ [0] @ key"

definition make_prefix :: "bytes \<Rightarrow> bytes" where
  "make_prefix table = table @ [0]"

definition starts_with :: "bytes \<Rightarrow> bytes \<Rightarrow> bool" where
  "starts_with p k \<longleftrightarrow> take (length p) k = p"

definition check_writable :: "('b, 'm, 's, 'i) database \<Rightarrow> db_error + unit" where
  "check_writable db = (if db_role db = Reader then Inl DbReadOnly else Inr ())"

section \<open>Driving a flush\<close>

definition settle_flush ::
  "('b, 'm, 's) lsm_env \<Rightarrow> pending_flush option \<Rightarrow> ('b, 'm, 's) lsm_engine
    \<Rightarrow> ('b, 'm, 's) lsm_engine \<times> (lsm_error + unit)" where
  "settle_flush env pending eng =
     (case pending of
        None \<Rightarrow> (eng, Inr ())
      | Some p \<Rightarrow>
          (case finish_flush env p eng of
             (eng1, Inl e) \<Rightarrow> (eng1, Inl e)
           | (eng1, Inr sst) \<Rightarrow>
               (case commit_flush env p sst eng1 of
                  (eng2, Inl e) \<Rightarrow> (eng2, Inl e)
                | (eng2, Inr pc) \<Rightarrow> run_compaction env pc eng2)))"

section \<open>Autocommit operations\<close>

definition db_write ::
  "('b, 'm, 's) lsm_env \<Rightarrow> 'i maintain \<Rightarrow> io_outcome \<Rightarrow> bytes \<Rightarrow> bytes \<Rightarrow> bytes \<Rightarrow> ('b, 'm, 's, 'i) database
    \<Rightarrow> ('b, 'm, 's, 'i) database \<times> (db_error + unit)" where
  "db_write env maintain out table key val db =
     (case check_writable db of
        Inl e \<Rightarrow> (db, Inl e)
      | Inr _ \<Rightarrow>
          (let composite_key = make_key table key in
           case lsm_put env out table composite_key val (db_lsm db) of
             (eng1, Inl e) \<Rightarrow> (db\<lparr>db_lsm := eng1\<rparr>, Inl (DbLsm e))
           | (eng1, Inr pending) \<Rightarrow>
               (case settle_flush env pending eng1 of
                  (eng2, Inl e) \<Rightarrow> (db\<lparr>db_lsm := eng2\<rparr>, Inl (DbLsm e))
                | (eng2, Inr _) \<Rightarrow>
                    (case maintain table composite_key val (db_indexes db) of
                       (ix, r) \<Rightarrow> (db\<lparr>db_lsm := eng2, db_indexes := ix\<rparr>, r)))))"

definition db_delete ::
  "('b, 'm, 's) lsm_env \<Rightarrow> io_outcome \<Rightarrow> bytes \<Rightarrow> bytes \<Rightarrow> ('b, 'm, 's, 'i) database
    \<Rightarrow> ('b, 'm, 's, 'i) database \<times> (db_error + unit)" where
  "db_delete env out table key db =
     (case check_writable db of
        Inl e \<Rightarrow> (db, Inl e)
      | Inr _ \<Rightarrow>
          (case lsm_delete env out table (make_key table key) (db_lsm db) of
             (eng1, Inl e) \<Rightarrow> (db\<lparr>db_lsm := eng1\<rparr>, Inl (DbLsm e))
           | (eng1, Inr pending) \<Rightarrow>
               (case settle_flush env pending eng1 of
                  (eng2, Inl e) \<Rightarrow> (db\<lparr>db_lsm := eng2\<rparr>, Inl (DbLsm e))
                | (eng2, Inr _) \<Rightarrow> (db\<lparr>db_lsm := eng2\<rparr>, Inr ()))))"

definition db_read ::
  "('b, 'm, 's) lsm_env \<Rightarrow> bytes \<Rightarrow> bytes \<Rightarrow> ('b, 'm, 's, 'i) database \<Rightarrow> sst_error + bytes option" where
  "db_read env table key db = lsm_read env (db_lsm db) (make_key table key)"

definition db_scan ::
  "('b, 'm, 's) lsm_env \<Rightarrow> bytes \<Rightarrow> ('b, 'm, 's, 'i) database \<Rightarrow> sst_error + (bytes \<times> bytes) list" where
  "db_scan env table db =
     attempt (lsm_scan env (db_lsm db)) (\<lambda>everything.
       let prefix = make_prefix table in
       Inr (map (\<lambda>(k, v). (drop (length prefix) k, v)) (filter (\<lambda>(k, v). starts_with prefix k) everything)))"

definition db_flush ::
  "('b, 'm, 's) lsm_env \<Rightarrow> ('b, 'm, 's, 'i) database \<Rightarrow> ('b, 'm, 's, 'i) database \<times> (db_error + unit)" where
  "db_flush env db =
     (case check_writable db of
        Inl e \<Rightarrow> (db, Inl e)
      | Inr _ \<Rightarrow>
          (case lsm_flush env (db_lsm db) of
             (eng, Inl e) \<Rightarrow> (db\<lparr>db_lsm := eng\<rparr>, Inl (DbLsm e))
           | (eng, Inr _) \<Rightarrow> (db\<lparr>db_lsm := eng\<rparr>, Inr ())))"

section \<open>Transactions\<close>

definition begin_txn ::
  "('b, 'm, 's, 'i) database \<Rightarrow> ('b, 'm, 's, 'i) database \<times> transaction_state" where
  "begin_txn db =
     (case new_tx_id (db_next_tx_id db) of (next, i) \<Rightarrow>
        case snapshot_now (db_lsm db) of (eng, snapshot_seq) \<Rightarrow>
          (db\<lparr>db_next_tx_id := next, db_lsm := eng\<rparr>, txn_new i snapshot_seq))"

text \<open>
  One staged write as an entry of the batch: the table is what precedes the first NUL, and
  an entry whose table is missing or not UTF-8 is skipped.
\<close>

definition batch_entry :: "bytes \<times> staged_write \<Rightarrow> write_entry option" where
  "batch_entry e =
     (case e of (composite_key, w) \<Rightarrow>
        if 0 \<in> set composite_key then
          let table = takeWhile (\<lambda>b. b \<noteq> 0) composite_key in
          if valid_utf8 table then Some (table, composite_key, sw_value w) else None
        else None)"

definition row_entry :: "write_entry \<Rightarrow> (bytes \<times> bytes \<times> bytes) option" where
  "row_entry e = (case e of (table, composite_key, val) \<Rightarrow> map_option (\<lambda>v. (table, composite_key, v)) val)"

fun maintain_rows :: "'i maintain \<Rightarrow> (bytes \<times> bytes \<times> bytes) list \<Rightarrow> 'i \<Rightarrow> 'i \<times> (db_error + unit)" where
  "maintain_rows maintain [] ix = (ix, Inr ())"
| "maintain_rows maintain ((table, composite_key, val) # rows) ix =
     (case maintain table composite_key val ix of
        (ix', Inl e) \<Rightarrow> (ix', Inl e)
      | (ix', Inr _) \<Rightarrow> maintain_rows maintain rows ix')"

definition commit_txn ::
  "('b, 'm, 's) lsm_env \<Rightarrow> 'i maintain \<Rightarrow> io_outcome \<Rightarrow> transaction_state \<Rightarrow> ('b, 'm, 's, 'i) database
    \<Rightarrow> transaction_state \<times> ('b, 'm, 's, 'i) database \<times> (db_error + unit)" where
  "commit_txn env maintain out txn db =
     (case take_staged txn (db_lsm db) of (txn1, eng1, staged) \<Rightarrow>
        let db1 = db\<lparr>db_lsm := eng1\<rparr> in
        if staged = [] then (txn1, db1, Inr ())
        else
          (case check_writable db1 of
             Inl e \<Rightarrow> (txn1, db1, Inl e)
           | Inr _ \<Rightarrow>
               (let batch = List.map_filter batch_entry staged in
                case write_batch env out batch eng1 of
                  (eng2, Inl e) \<Rightarrow> (txn1, db1\<lparr>db_lsm := eng2\<rparr>, Inl (DbLsm e))
                | (eng2, Inr (_, pending)) \<Rightarrow>
                    (case settle_flush env pending eng2 of
                       (eng3, Inl e) \<Rightarrow> (txn1, db1\<lparr>db_lsm := eng3\<rparr>, Inl (DbLsm e))
                     | (eng3, Inr _) \<Rightarrow>
                         (case maintain_rows maintain (List.map_filter row_entry batch) (db_indexes db1) of
                            (ix, r) \<Rightarrow> (txn1, db1\<lparr>db_lsm := eng3, db_indexes := ix\<rparr>, r))))))"

definition rollback_txn ::
  "transaction_state \<Rightarrow> ('b, 'm, 's, 'i) database \<Rightarrow> transaction_state \<times> ('b, 'm, 's, 'i) database" where
  "rollback_txn txn db = (case discard txn (db_lsm db) of (txn', eng) \<Rightarrow> (txn', db\<lparr>db_lsm := eng\<rparr>))"

definition txn_write ::
  "('b, 'm, 's) lsm_env \<Rightarrow> 'i maintain \<Rightarrow> io_outcome \<Rightarrow> transaction_state option \<Rightarrow> bytes \<Rightarrow> bytes \<Rightarrow> bytes
    \<Rightarrow> ('b, 'm, 's, 'i) database
    \<Rightarrow> transaction_state option \<times> ('b, 'm, 's, 'i) database \<times> (db_error + unit)" where
  "txn_write env maintain out txn table key val db =
     (case txn of
        Some t \<Rightarrow> (Some (stage_write (make_key table key) val t), db, Inr ())
      | None \<Rightarrow> (case db_write env maintain out table key val db of (db', r) \<Rightarrow> (None, db', r)))"

definition txn_delete ::
  "('b, 'm, 's) lsm_env \<Rightarrow> io_outcome \<Rightarrow> transaction_state option \<Rightarrow> bytes \<Rightarrow> bytes \<Rightarrow> ('b, 'm, 's, 'i) database
    \<Rightarrow> transaction_state option \<times> ('b, 'm, 's, 'i) database \<times> (db_error + unit)" where
  "txn_delete env out txn table key db =
     (case txn of
        Some t \<Rightarrow> (Some (stage_delete (make_key table key) t), db, Inr ())
      | None \<Rightarrow> (case db_delete env out table key db of (db', r) \<Rightarrow> (None, db', r)))"

definition txn_read ::
  "('b, 'm, 's) lsm_env \<Rightarrow> transaction_state option \<Rightarrow> bytes \<Rightarrow> bytes \<Rightarrow> ('b, 'm, 's, 'i) database
    \<Rightarrow> sst_error + bytes option" where
  "txn_read env txn table key db =
     (let composite = make_key table key;
          snapshot_seq = (case txn of Some t \<Rightarrow> ts_snapshot_seq t | None \<Rightarrow> u64_max);
          committed = lsm_read_at env (db_lsm db) composite snapshot_seq
      in case txn of
           Some t \<Rightarrow>
             (case staged_read t composite of
                Inr (Some v) \<Rightarrow> Inr (Some v)
              | Inr None \<Rightarrow> Inr None
              | Inl _ \<Rightarrow> committed)
         | None \<Rightarrow> committed)"

definition txn_scan ::
  "('b, 'm, 's) lsm_env \<Rightarrow> transaction_state option \<Rightarrow> bytes \<Rightarrow> ('b, 'm, 's, 'i) database
    \<Rightarrow> sst_error + (bytes \<times> bytes) list" where
  "txn_scan env txn table db =
     (let prefix = make_prefix table;
          snapshot_seq = (case txn of Some t \<Rightarrow> ts_snapshot_seq t | None \<Rightarrow> u64_max)
      in attempt (lsm_scan_at env (db_lsm db) snapshot_seq) (\<lambda>everything.
           let committed = filter (\<lambda>(k, v). starts_with prefix k) everything;
               merged = foldl (\<lambda>m (k, v). bt_insert k (Some v) m) [] committed;
               merged1 = (case txn of
                 Some t \<Rightarrow> foldl (\<lambda>m (k, w). if starts_with prefix k then bt_insert k (sw_value w) m else m)
                   merged (ts_staged t)
               | None \<Rightarrow> merged)
           in Inr (List.map_filter (\<lambda>(k, v). map_option (\<lambda>v. (drop (length prefix) k, v)) v) merged1)))"

section \<open>Scanning a table\<close>

lemma bt_wf_filter: "bt_wf m \<Longrightarrow> bt_wf (filter P m)"
  by (simp add: bt_wf_def sorted_wrt_map sorted_wrt_filter)

lemma bt_wf_map_value: "bt_wf m \<Longrightarrow> bt_wf (map (\<lambda>(k, v). (k, f v)) m)"
  by (simp add: bt_wf_def comp_def case_prod_beta)

lemma map_of_filter_key: "map_of (filter (\<lambda>(k, v). P k) m) k = (if P k then map_of m k else None)"
  by (induction m) auto

lemma append_less_iff [simp]: "(p :: bytes) @ a < p @ b \<longleftrightarrow> a < b"
  by (induction p) auto

lemma starts_with_iff: "starts_with p k \<longleftrightarrow> (\<exists>r. k = p @ r)"
  by (auto simp: starts_with_def) (metis append_take_drop_id)

lemma make_key_prefix: "make_key table key = make_prefix table @ key"
  by (simp add: make_key_def make_prefix_def)

text \<open>The two insertion loops of a scan as overlays.\<close>

lemma committed_overlay:
  "foldl (\<lambda>m (k, v). bt_insert k (Some v) m) m kvs = overlay m (map (\<lambda>(k, v). (k, Some v)) kvs)"
  by (induction kvs arbitrary: m) (auto simp: overlay_def)

lemma staged_overlay:
  "foldl (\<lambda>m (k, w). if P k then bt_insert k (sw_value w) m else m) m kws
    = overlay m (map (\<lambda>(k, w). (k, sw_value w)) (filter (\<lambda>(k, w). P k) kws))"
  by (induction kws arbitrary: m) (auto simp: overlay_def)

lemma map_of_map_value: "map_of (map (\<lambda>(k, v). (k, f v)) m) k = map_option f (map_of m k)"
  by (induction m) auto

text \<open>Stripping the prefix of an ordered map whose keys all carry it.\<close>

lemma strip_prefix_spec:
  fixes m :: "(bytes \<times> bytes option) list"
  assumes "bt_wf m" and "\<forall>e\<in>set m. starts_with p (fst e)"
  shows "bt_wf (List.map_filter (\<lambda>(k, v). map_option (\<lambda>v. (drop (length p) k, v)) v) m)"
    "(key, v) \<in> set (List.map_filter (\<lambda>(k, v). map_option (\<lambda>v. (drop (length p) k, v)) v) m)
      \<longleftrightarrow> bt_get m (p @ key) = Some (Some v)"
proof -
  let ?f = "\<lambda>(k, v). map_option (\<lambda>v :: bytes. (drop (length p) k, v)) v"
  have mem: "(key, v) \<in> set (List.map_filter ?f m) \<longleftrightarrow> (p @ key, Some v) \<in> set m"
    if "\<forall>e\<in>set m. starts_with p (fst e)" for m :: "(bytes \<times> bytes option) list" and key v
    using that
  proof (induction m)
    case Nil
    then show ?case by (simp add: List.map_filter_def)
  next
    case (Cons x m)
    then obtain r y where "x = (p @ r, y)" by (cases x) (auto simp: starts_with_iff)
    with Cons show ?case by (cases y) (auto simp: List.map_filter_def)
  qed
  show "bt_wf (List.map_filter ?f m)"
    using assms
  proof (induction m)
    case Nil
    then show ?case by (simp add: List.map_filter_def)
  next
    case (Cons x m)
    then obtain r y where x: "x = (p @ r, y)" by (cases x) (auto simp: starts_with_iff)
    have IH: "bt_wf (List.map_filter ?f m)" using Cons by (simp add: bt_wf_Cons)
    have "r < fst e" if "e \<in> set (List.map_filter ?f m)" for e
    proof -
      have "(p @ fst e, Some (snd e)) \<in> set m" using that mem [of m "fst e" "snd e"] Cons.prems by simp
      with Cons.prems x show ?thesis by (fastforce simp: bt_wf_Cons)
    qed
    with IH x show ?case by (cases y) (auto simp: List.map_filter_def bt_wf_Cons)
  qed
  show "(key, v) \<in> set (List.map_filter ?f m) \<longleftrightarrow> bt_get m (p @ key) = Some (Some v)"
    unfolding mem [OF assms(2)] bt_get_Some_iff [OF assms(1)] ..
qed

lemma staged_read_get:
  "staged_read t k = (case bt_get (ts_staged t) k of Some w \<Rightarrow> Inr (sw_value w) | None \<Rightarrow> Inl ())"
  by (auto simp: staged_read_def split: option.splits staged_write.splits)

text \<open>The map a scan builds, and what a key holds in it.\<close>

lemma txn_scan_merged:
  fixes env :: "('b, 'm, 's) lsm_env" and db :: "('b, 'm, 's, 'i) database"
  assumes env: "env_ok env" and ok: "lsm_inv env (db_lsm db)"
    and staged: "case txn of Some t \<Rightarrow> bt_wf (ts_staged t) | None \<Rightarrow> True"
  obtains m where "txn_scan env txn table db
      = Inr (List.map_filter (\<lambda>(k, v). map_option (\<lambda>v. (drop (length (make_prefix table)) k, v)) v) m)"
    "bt_wf m" "\<forall>e\<in>set m. starts_with (make_prefix table) (fst e)"
    "\<And>key v. bt_get m (make_key table key) = Some (Some v) \<longleftrightarrow> txn_read env txn table key db = Inr (Some v)"
proof -
  let ?p = "make_prefix table"
  let ?s = "case txn of Some t \<Rightarrow> ts_snapshot_seq t | None \<Rightarrow> u64_max"
  obtain kvs where kvs: "lsm_scan_at env (db_lsm db) ?s = Inr kvs" "bt_wf kvs"
    "\<And>k v. (k, v) \<in> set kvs \<longleftrightarrow> lsm_read_at env (db_lsm db) k ?s = Inr (Some v)"
    using scan_at_reads [OF env ok] by blast
  define c where "c = map (\<lambda>(k, v). (k, Some v)) (filter (\<lambda>(k, v). starts_with ?p k) kvs)"
  define st where "st = (case txn of
      Some t \<Rightarrow> map (\<lambda>(k, w). (k, sw_value w)) (filter (\<lambda>(k, w). starts_with ?p k) (ts_staged t)) | None \<Rightarrow> [])"
  define m where "m = overlay (overlay [] c) st"
  have wfc: "bt_wf c" unfolding c_def by (intro bt_wf_map_value bt_wf_filter kvs(2))
  have wfs: "bt_wf st"
    using staged by (auto simp: st_def intro: bt_wf_map_value bt_wf_filter split: option.splits)
  have wfm: "bt_wf m" unfolding m_def by (intro overlay_wf) simp
  have get: "bt_get m k = (map_of c ++ map_of st) k" for k
    unfolding m_def overlay_get [OF wfs] overlay_get [OF wfc] by (simp add: map_add_def split: option.split)
  have scan: "txn_scan env txn table db
      = Inr (List.map_filter (\<lambda>(k, v). map_option (\<lambda>v. (drop (length ?p) k, v)) v) m)"
    by (simp add: txn_scan_def Let_def kvs(1) committed_overlay staged_overlay m_def c_def st_def overlay_def
        split: option.splits)
  have keys: "\<forall>e\<in>set m. starts_with ?p (fst e)"
  proof
    fix e assume "e \<in> set m"
    then have "bt_get m (fst e) \<noteq> None" using bt_get_Some_iff [OF wfm, of "fst e" "snd e"] by auto
    then have "map_of c (fst e) \<noteq> None \<or> map_of st (fst e) \<noteq> None"
      unfolding get by (auto simp: map_add_def split: option.splits)
    then show "starts_with ?p (fst e)"
      by (auto simp: c_def st_def map_of_map_value map_of_filter_key split: if_splits option.splits)
  qed
  have "bt_get m (make_key table key) = Some (Some v) \<longleftrightarrow> txn_read env txn table key db = Inr (Some v)" for key v
  proof -
    let ?k = "make_key table key"
    have pk: "starts_with ?p ?k" by (auto simp: starts_with_iff make_key_prefix)
    have cr: "map_of c ?k = map_option Some (map_of kvs ?k)"
      unfolding c_def map_of_map_value map_of_filter_key using pk by simp
    have "map_of kvs ?k = Some v \<longleftrightarrow> lsm_read_at env (db_lsm db) ?k ?s = Inr (Some v)"
      using bt_get_Some_iff [OF kvs(2), of ?k v] kvs(3) by (simp add: bt_get_def)
    then have "map_of c ?k = Some (Some v) \<longleftrightarrow> lsm_read_at env (db_lsm db) ?k ?s = Inr (Some v)"
      unfolding cr by auto
    moreover have "map_of st ?k = (case txn of Some t \<Rightarrow> map_option sw_value (bt_get (ts_staged t) ?k) | None \<Rightarrow> None)"
      using pk by (auto simp: st_def map_of_map_value map_of_filter_key bt_get_def split: option.splits)
    ultimately show ?thesis
      unfolding get txn_read_def
      by (auto simp: map_add_def staged_read_get Let_def split: option.splits)
  qed
  with scan wfm keys show thesis by (rule that)
qed

text \<open>C16: reading a table through a transaction is consistent. A scan lists, in key order and each once,
  exactly the rows of the table whose point read through the same transaction gives a value,
  with that value: the snapshot's committed rows, overridden and removed by the transaction's
  own staged writes and deletes. It holds inside a transaction and in autocommit mode.\<close>

theorem txn_scan_agrees_with_read:
  assumes "env_ok env" and "lsm_inv env (db_lsm db)"
    and "case txn of Some t \<Rightarrow> bt_wf (ts_staged t) | None \<Rightarrow> True"
  shows "\<exists>kvs. txn_scan env txn table db = Inr kvs \<and> bt_wf kvs
    \<and> (\<forall>key v. (key, v) \<in> set kvs \<longleftrightarrow> txn_read env txn table key db = Inr (Some v))"
proof -
  obtain m where m: "txn_scan env txn table db
      = Inr (List.map_filter (\<lambda>(k, v). map_option (\<lambda>v. (drop (length (make_prefix table)) k, v)) v) m)"
    "bt_wf m" "\<forall>e\<in>set m. starts_with (make_prefix table) (fst e)"
    "\<And>key v. bt_get m (make_key table key) = Some (Some v) \<longleftrightarrow> txn_read env txn table key db = Inr (Some v)"
    using txn_scan_merged [OF assms] by blast
  show ?thesis
    unfolding m(1) using strip_prefix_spec [OF m(2,3)] m(4) by (auto simp: make_key_prefix)
qed

end
