(* ===== verification/Database_Txns.thy ===== *)
theory Database_Txns
  imports Database
begin

text \<open>
  What commits do to other transactions. A commit, whatever it triggers (a flush, a
  compaction) and however it ends, leaves the reads of every open snapshot alone; snapshots
  taken afterwards see all of it or nothing. The open snapshots the engine counts are exactly
  those of the unfinished transactions, along any interleaving of any number of them.
\<close>

section \<open>Driving a flush to its end\<close>

text \<open>Every table that could be built from these versions is within the limits of its format.\<close>

definition store_fits :: "'b bloom_ops \<Rightarrow> entry set \<Rightarrow> bool" where
  "store_fits bl V \<longleftrightarrow> (\<forall>es. bt_wf es \<and> set es \<subseteq> V \<longrightarrow> sst_fits bl es)"

lemma store_fitsD: "store_fits bl V \<Longrightarrow> bt_wf es \<Longrightarrow> set es \<subseteq> V \<Longrightarrow> sst_fits bl es"
  by (simp add: store_fits_def)

lemma store_fits_mono: "store_fits bl V \<Longrightarrow> U \<subseteq> V \<Longrightarrow> store_fits bl U"
  unfolding store_fits_def by (meson order_trans)

lemma unique_seqs_mono: "unique_seqs V \<Longrightarrow> U \<subseteq> V \<Longrightarrow> unique_seqs U"
  unfolding unique_seqs_def by (meson subset_iff)

lemma table_versions_sub: "table_versions eng \<subseteq> all_versions env eng"
  by (auto simp: table_versions_def all_versions_def layers_def sst_layers_def)

lemma all_versions_layers:
  "all_versions env eng = set (concat (mem_layers (env_skip env) (lsm_view eng))) \<union> table_versions eng"
  by (auto simp: all_versions_def layers_def sst_layers_def table_versions_def)

text \<open>The snapshots a compaction must not disturb.\<close>

abbreviation (input) visible_snapshot :: "('b, 'm, 's) lsm_engine \<Rightarrow> nat \<Rightarrow> bool" where
  "visible_snapshot eng s \<equiv> s \<in> fst ` set (ws_open_snapshots (lsm_write eng)) \<or> ws_next_commit_seq (lsm_write eng) \<le> s + 1"

lemma run_compaction_keeps:
  assumes env: "env_ok env" and ok: "lsm_inv env eng" and snaps: "bt_wf (ws_open_snapshots (lsm_write eng))"
    and uniq: "unique_seqs (all_versions env eng)" and fits: "store_fits (env_bloom env) (all_versions env eng)"
    and bc: "begin_compact env eng = (eng1, Inr pending)" and rc: "run_compaction env pending eng1 = (eng2, r)"
  shows "lsm_inv env eng2 \<and> all_versions env eng2 \<subseteq> all_versions env eng
    \<and> ev_immutable (lsm_view eng2) = ev_immutable (lsm_view eng)
    \<and> ws_next_commit_seq (lsm_write eng2) = ws_next_commit_seq (lsm_write eng)
    \<and> (\<forall>k s. visible_snapshot eng s \<longrightarrow> lsm_read_at env eng2 k s = lsm_read_at env eng k s)"
proof -
  have b: "lsm_view eng1 = lsm_view eng" "ws_next_commit_seq (lsm_write eng1) = ws_next_commit_seq (lsm_write eng)"
    using begin_compact_keeps [OF bc] by auto
  have ok1: "lsm_inv env eng1" by (rule lsm_inv_view [OF ok]) (use b in auto)
  have all1: "all_versions env eng1 = all_versions env eng" using b(1) by (simp add: all_versions_def layers_def)
  have read1: "lsm_read_at env eng1 k s = lsm_read_at env eng k s" for k s by (rule read_at_view [OF b(1)])
  have same: ?thesis if "lsm_view eng2 = lsm_view eng1"
      "ws_next_commit_seq (lsm_write eng2) = ws_next_commit_seq (lsm_write eng1)"
  proof -
    have "lsm_inv env eng2" by (rule lsm_inv_view [OF ok1]) (use that in auto)
    moreover have "all_versions env eng2 = all_versions env eng1"
      using that(1) by (simp add: all_versions_def layers_def)
    ultimately show ?thesis using that b all1 read1 read_at_view [OF that(1)] by simp
  qed
  show ?thesis
  proof (cases pending)
    case None
    with rc show ?thesis by (intro same) (simp_all add: run_compaction_def)
  next
    case (Some pc)
    have pc: "pc_sstables pc = ev_sstables (lsm_view eng1)"
      using begin_compact_pending(1) [OF bc [unfolded Some]] b(1) by simp
    have tv: "unique_seqs (table_versions eng)" "unique_seqs (table_versions eng1)"
      using uniq unique_seqs_mono table_versions_sub all1 by metis+
    note spec = merged_entries_spec [OF ok1 pc tv(2)]
    have sub: "set (merged_entries pc) \<subseteq> all_versions env eng"
      unfolding spec(1) retained_def using table_versions_sub [of eng1 env] all1 by blast
    have mf: "sst_fits (env_bloom env) (merged_entries pc)" by (rule store_fitsD [OF fits spec(2) sub])
    obtain eng3 r3 where fc: "finish_compact env pc eng1 = (eng3, r3)" by (cases "finish_compact env pc eng1")
    have f3: "lsm_view eng3 = lsm_view eng1" "lsm_write eng3 = lsm_write eng1"
      using finish_compact_keeps [OF fc] by auto
    show ?thesis
    proof (cases r3)
      case (Inl e)
      with rc fc Some f3 show ?thesis by (intro same) (simp_all add: run_compaction_def)
    next
      case (Inr sst)
      with rc fc Some have cc: "commit_compact env pc sst eng3 = (eng2, r)" by (simp add: run_compaction_def)
      have fc': "finish_compact env pc eng1 = (eng3, Inr sst)" using fc Inr by simp
      note keep = compaction_keeps [OF env ok snaps tv(1) bc [unfolded Some] ok1 refl mf fc' cc]
      have oks: "sst_ok (env_bloom env) (merged_entries pc)" using spec(2) mf by (simp add: sst_ok_fits)
      have "\<forall>t\<in>set (pc_sstables pc). sst_valid (env_bloom env) t" using lsm_invD(1) [OF ok1] pc by simp
      from finish_compact_valid [OF env this oks spec(3) fc'] have t: "sst_entries sst = merged_entries pc" by simp
      have cv: "lsm_view eng2 = lsm_view eng1 \<or> lsm_view eng2 = (lsm_view eng1)\<lparr>ev_sstables := [sst]\<rparr>"
        "ws_next_commit_seq (lsm_write eng2) = ws_next_commit_seq (lsm_write eng1)"
        using commit_compact_view [OF cc] pc f3 by auto
      have "all_versions env eng2 \<subseteq> all_versions env eng"
        using cv(1)
      proof
        assume "lsm_view eng2 = lsm_view eng1"
        then show ?thesis using b(1) by (simp add: all_versions_def layers_def)
      next
        assume v: "lsm_view eng2 = (lsm_view eng1)\<lparr>ev_sstables := [sst]\<rparr>"
        then have "mem_layers (env_skip env) (lsm_view eng2) = mem_layers (env_skip env) (lsm_view eng)"
          "table_versions eng2 = set (merged_entries pc)"
          using b(1) by (simp_all add: mem_layers_def table_versions_def t)
        with sub show ?thesis by (auto simp: all_versions_layers)
      qed
      moreover have "ev_immutable (lsm_view eng2) = ev_immutable (lsm_view eng)" using cv(1) b(1) by auto
      ultimately show ?thesis using keep cv(2) b(2) read1 by simp
    qed
  qed
qed

lemma settle_flush_snaps:
  "settle_flush env pending eng = (eng', r)
    \<Longrightarrow> ws_open_snapshots (lsm_write eng') = ws_open_snapshots (lsm_write eng)"
  by (auto simp: settle_flush_def dest!: finish_flush_keeps commit_flush_snaps run_compaction_snaps
      split: option.splits prod.splits sum.splits)

text \<open>The engine right after a successful commit, before a compaction is begun.\<close>

definition flushed :: "'s \<Rightarrow> bytes \<Rightarrow> 'b sstable \<Rightarrow> ('b, 'm, 's) lsm_engine \<Rightarrow> ('b, 'm, 's) lsm_engine" where
  "flushed s tg sst eng = eng\<lparr>lsm_store := s,
     lsm_view := (lsm_view eng)\<lparr>ev_immutable := None, ev_sstables := ev_sstables (lsm_view eng) @ [sst]\<rparr>,
     lsm_write := (lsm_write eng)\<lparr>ws_manifest_etag := Some tg,
       ws_committed_wal_segment_seq := ws_wal_seg_id (lsm_write eng),
       ws_wal_seg_id := inc64 (ws_wal_seg_id (lsm_write eng)), ws_wal := wal_truncate (ws_wal (lsm_write eng))\<rparr>\<rparr>"

lemma flushed_simps [simp]:
  "ev_immutable (lsm_view (flushed s tg sst eng)) = None"
  "ws_next_commit_seq (lsm_write (flushed s tg sst eng)) = ws_next_commit_seq (lsm_write eng)"
  "ws_open_snapshots (lsm_write (flushed s tg sst eng)) = ws_open_snapshots (lsm_write eng)"
  by (simp_all add: flushed_def)

lemma commit_flush_begin:
  assumes "commit_flush env p sst eng = (eng', Inr pc)"
  obtains s tg where "begin_compact env (flushed s tg sst eng) = (eng', Inr pc)
    \<or> eng' = flushed s tg sst eng \<and> pc = None"
proof -
  have "\<exists>s tg. begin_compact env (flushed s tg sst eng) = (eng', Inr pc) \<or> eng' = flushed s tg sst eng \<and> pc = None"
    using assms
    by (auto simp: commit_flush_def Let_def flushed_def split: if_splits prod.splits sum.splits)
  then show thesis using that by blast
qed

lemma finish_flush_table:
  assumes env: "env_ok env" and ok: "lsm_inv env eng" and fits: "store_fits (env_bloom env) (all_versions env eng)"
    and imm: "ev_immutable (lsm_view eng) = Some imm" "pf_entries p = mt_to_entries (env_skip env) imm"
    and ff: "finish_flush env p eng = (eng1, Inr sst)"
  shows "sst_valid (env_bloom env) sst \<and> sst_entries sst = mt_to_entries (env_skip env) imm"
proof -
  have sub: "set (pf_entries p) \<subseteq> all_versions env eng"
    by (auto simp: imm all_versions_def layers_def mem_layers_def)
  have "bt_wf (pf_entries p)" unfolding imm(2) by (rule skip_map.mt_to_entries_wf [OF env_okD(1) [OF env]])
  with store_fitsD [OF fits _ sub] have "sst_ok (env_bloom env) (pf_entries p)" by (simp add: sst_ok_fits)
  moreover have "list_all plain (pf_entries p)" using lsm_invD(4) [OF ok] sub by (auto simp: list_all_iff)
  ultimately show ?thesis using finish_flush_valid [OF env _ _ ff] imm by simp
qed

lemma settle_flush_keeps:
  assumes env: "env_ok env" and ok: "lsm_inv env eng" and snaps: "bt_wf (ws_open_snapshots (lsm_write eng))"
    and uniq: "unique_seqs (all_versions env eng)" and fits: "store_fits (env_bloom env) (all_versions env eng)"
    and frozen: "\<And>p. pending = Some p \<Longrightarrow>
      \<exists>imm. ev_immutable (lsm_view eng) = Some imm \<and> pf_entries p = mt_to_entries (env_skip env) imm"
    and sf: "settle_flush env pending eng = (eng', r)"
  shows "lsm_inv env eng' \<and> all_versions env eng' \<subseteq> all_versions env eng
    \<and> ws_next_commit_seq (lsm_write eng') = ws_next_commit_seq (lsm_write eng)
    \<and> (\<forall>k s. visible_snapshot eng s \<longrightarrow> lsm_read_at env eng' k s = lsm_read_at env eng k s)
    \<and> (r = Inr () \<longrightarrow> pending = None \<and> eng' = eng \<or> ev_immutable (lsm_view eng') = None)"
proof (cases pending)
  case None
  with sf ok show ?thesis by (simp add: settle_flush_def)
next
  case (Some p)
  obtain imm where imm: "ev_immutable (lsm_view eng) = Some imm" "pf_entries p = mt_to_entries (env_skip env) imm"
    using frozen [OF Some] by blast
  obtain eng1 r1 where ff: "finish_flush env p eng = (eng1, r1)" by (cases "finish_flush env p eng")
  have v1: "lsm_view eng1 = lsm_view eng" "lsm_write eng1 = lsm_write eng" using finish_flush_keeps [OF ff] by auto
  have ok1: "lsm_inv env eng1" by (rule lsm_inv_view [OF ok]) (simp_all add: v1)
  have all1: "all_versions env eng1 = all_versions env eng" by (simp add: all_versions_def layers_def v1)
  show ?thesis
  proof (cases r1)
    case (Inl e)
    with sf ff Some have "eng' = eng1" "r = Inl e" by (simp_all add: settle_flush_def)
    with ok1 all1 v1 show ?thesis using read_at_view [OF v1(1)] by simp
  next
    case (Inr sst)
    have t: "sst_valid (env_bloom env) sst" "sst_entries sst = mt_to_entries (env_skip env) imm"
      using finish_flush_table [OF env ok fits imm] ff Inr by auto
    obtain eng2 r2 where cf: "commit_flush env p sst eng1 = (eng2, r2)" by (cases "commit_flush env p sst eng1")
    have imm1: "ev_immutable (lsm_view eng1) = Some imm" using imm v1 by simp
    have ok2: "lsm_inv env eng2" "all_versions env eng2 = all_versions env eng1"
      by (rule commit_flush_keeps [OF env ok1 imm1 t(2,1) cf])+
    have n2: "ws_next_commit_seq (lsm_write eng2) = ws_next_commit_seq (lsm_write eng)"
      using commit_flush_view [OF cf] v1 by simp
    have r2: "lsm_read_at env eng2 k s = lsm_read_at env eng k s" for k s
      using read_at_cong [OF env ok2(1) ok1 ok2(2)] read_at_view [OF v1(1)] by metis
    show ?thesis
    proof (cases r2)
      case (Inl e)
      with sf ff Some \<open>r1 = Inr sst\<close> cf have "eng' = eng2" "r = Inl e" by (simp_all add: settle_flush_def)
      with ok2 all1 n2 r2 show ?thesis by simp
    next
      case (Inr pc)
      with sf ff Some \<open>r1 = Inr sst\<close> cf have rc: "run_compaction env pc eng2 = (eng', r)"
        by (simp add: settle_flush_def)
      obtain eng0 where e0: "begin_compact env eng0 = (eng2, Inr pc) \<or> eng2 = eng0 \<and> pc = None"
        "ev_immutable (lsm_view eng0) = None"
        "ws_next_commit_seq (lsm_write eng0) = ws_next_commit_seq (lsm_write eng)"
        "ws_open_snapshots (lsm_write eng0) = ws_open_snapshots (lsm_write eng)"
        by (rule commit_flush_begin [OF cf [unfolded Inr]]) (metis flushed_simps v1(2))
      show ?thesis
      proof (cases "begin_compact env eng0 = (eng2, Inr pc)")
        case True
        have v0: "lsm_view eng2 = lsm_view eng0" using begin_compact_keeps [OF True] by simp
        have ok0: "lsm_inv env eng0" by (rule lsm_inv_view [OF ok2(1)]) (use v0 e0(3) n2 in auto)
        have all0: "all_versions env eng0 = all_versions env eng"
          using v0 ok2(2) all1 by (simp add: all_versions_def layers_def)
        have r0: "lsm_read_at env eng0 k s = lsm_read_at env eng k s" for k s
          using r2 read_at_view [OF v0] by simp
        have u0: "unique_seqs (all_versions env eng0)" and f0: "store_fits (env_bloom env) (all_versions env eng0)"
          and s0: "bt_wf (ws_open_snapshots (lsm_write eng0))"
          using uniq fits snaps all0 e0(4) by simp_all
        from run_compaction_keeps [OF env ok0 s0 u0 f0 True rc] all0 r0 e0(2-4) show ?thesis by simp
      next
        case False
        with e0(1) rc have "eng' = eng0" "eng2 = eng0" by (auto simp: run_compaction_def)
        with ok2 all1 n2 r2 e0(2) show ?thesis by simp
      qed
    qed
  qed
qed

section \<open>A batch and the flush it triggers\<close>

definition write_settled ::
  "('b, 'm, 's) lsm_env \<Rightarrow> io_outcome \<Rightarrow> write_entry list \<Rightarrow> ('b, 'm, 's) lsm_engine
    \<Rightarrow> ('b, 'm, 's) lsm_engine \<times> (lsm_error + unit)" where
  "write_settled env out es eng =
     (case write_batch env out es eng of
        (eng1, Inl e) \<Rightarrow> (eng1, Inl e)
      | (eng1, Inr (_, pending)) \<Rightarrow> settle_flush env pending eng1)"

text \<open>The engine invariant, with one version per key and sequence number and sound snapshot counts.\<close>

definition engine_ok :: "('b, 'm, 's) lsm_env \<Rightarrow> ('b, 'm, 's) lsm_engine \<Rightarrow> bool" where
  "engine_ok env eng \<longleftrightarrow> lsm_inv env eng \<and> unique_seqs (all_versions env eng) \<and> snapshots_ok eng"

lemma engine_okD:
  "engine_ok env eng \<Longrightarrow> lsm_inv env eng" "engine_ok env eng \<Longrightarrow> unique_seqs (all_versions env eng)"
  "engine_ok env eng \<Longrightarrow> snapshots_ok eng"
  by (simp_all add: engine_ok_def)

lemma unique_seqs_batch:
  assumes "unique_seqs V" and "\<forall>x\<in>V. seq (fst x) < q" and "distinct (map write_key es)"
  shows "unique_seqs (V \<union> batch_version q ` set es)"
proof -
  let ?B = "batch_version q ` set es"
  have "x = y" if x: "x \<in> V \<union> ?B" and y: "y \<in> V \<union> ?B"
    and e: "user_key (fst x) = user_key (fst y)" "seq (fst x) = seq (fst y)" for x y
  proof (cases "x \<in> V")
    case True
    with assms(2) e(2) have "seq (fst y) < q" by auto
    with y have "y \<in> V" by auto
    with True assms(1) e show ?thesis unfolding unique_seqs_def by blast
  next
    case False
    with x obtain a where a: "a \<in> set es" "x = batch_version q a" by blast
    with e(2) have "\<not> seq (fst y) < q" by simp
    with y assms(2) obtain b where b: "b \<in> set es" "y = batch_version q b" by blast
    have "a = b" using assms(3) a b e(1) by (metis batch_version_simps(1) distinct_map inj_onD)
    with a b show ?thesis by simp
  qed
  then show ?thesis unfolding unique_seqs_def by blast
qed

text \<open>What a batch did to the versions: all of it was added, or the log append failed and nothing was.\<close>

lemma write_batch_effect:
  assumes env: "env_ok env" and ok: "lsm_inv env eng" and qui: "quiescent env eng"
    and dist: "distinct (map write_key es)" and small: "ws_next_commit_seq (lsm_write eng) + 1 < 2 ^ 64"
    and wb: "write_batch env out es eng = (eng1, r)"
  shows "lsm_inv env eng1 \<and> ws_next_commit_seq (lsm_write eng1) = ws_next_commit_seq (lsm_write eng) + 1
    \<and> (all_versions env eng1 = all_versions env eng \<union> batch_version (ws_next_commit_seq (lsm_write eng)) ` set es
       \<or> lsm_view eng1 = lsm_view eng \<and> isl r)
    \<and> (\<forall>q p. r = Inr (q, Some p) \<longrightarrow>
        (\<exists>imm. ev_immutable (lsm_view eng1) = Some imm \<and> pf_entries p = mt_to_entries (env_skip env) imm))"
proof (cases out)
  case (Fail n)
  let ?q = "ws_next_commit_seq (lsm_write eng)"
  have "lsm_view eng1 = lsm_view eng \<and> ws_next_commit_seq (lsm_write eng1) = ?q + 1 \<and> isl r"
    using wb small by (auto simp: Fail write_batch_def append_batch_def io_append_def Let_def)
  moreover from this have "lsm_inv env eng1" by (intro lsm_inv_view [OF ok]) auto
  ultimately show ?thesis by auto
next
  case Done
  let ?q = "ws_next_commit_seq (lsm_write eng)"
  obtain w where w: "eng1 = after_inserts env es w eng \<and> r = Inr (?q, None)
      \<or> (\<exists>e. begin_flush env (after_inserts env es w eng) = (eng1, Inl e) \<and> r = Inl e)
      \<or> (\<exists>p. begin_flush env (after_inserts env es w eng) = (eng1, Inr p) \<and> r = Inr (?q, p))"
    by (rule write_batch_Done [OF wb [unfolded Done]])
  let ?e = "after_inserts env es w eng"
  note ai = after_inserts_layers [OF env ok dist refl small, of w]
  have qe: "quiescent env ?e" using qui by (simp add: quiescent_def after_inserts_def Let_def)
  have ne: "ws_next_commit_seq (lsm_write ?e) = ?q + 1" using small by (simp add: after_inserts_def Let_def)
  from w ai ne begin_flush_keeps [OF env ai(1) qe] show ?thesis by (elim disjE exE conjE) auto
qed

lemma write_settled_keeps:
  assumes env: "env_ok env" and ok: "engine_ok env eng" and qui: "quiescent env eng"
    and dist: "distinct (map write_key es)" and small: "ws_next_commit_seq (lsm_write eng) + 1 < 2 ^ 64"
    and q: "q = ws_next_commit_seq (lsm_write eng)"
    and fits: "store_fits (env_bloom env) (all_versions env eng \<union> batch_version q ` set es)"
    and ws: "write_settled env out es eng = (eng2, r)"
  shows "engine_ok env eng2 \<and> ws_open_snapshots (lsm_write eng2) = ws_open_snapshots (lsm_write eng)
    \<and> ws_next_commit_seq (lsm_write eng2) = q + 1
    \<and> all_versions env eng2 \<subseteq> all_versions env eng \<union> batch_version q ` set es
    \<and> (\<forall>k s. s \<in> fst ` set (ws_open_snapshots (lsm_write eng)) \<and> s < q
        \<longrightarrow> lsm_read_at env eng2 k s = lsm_read_at env eng k s)
    \<and> ((\<forall>k s. q \<le> s \<longrightarrow> lsm_read_at env eng2 k s
          = (case map_of (map snd es) k of Some v \<Rightarrow> Inr v | None \<Rightarrow> lsm_read_at env eng k s))
       \<or> isl r \<and> (\<forall>k s. q \<le> s \<longrightarrow> lsm_read_at env eng2 k s = lsm_read_at env eng k s))"
proof -
  obtain eng1 r1 where wb: "write_batch env out es eng = (eng1, r1)" by (cases "write_batch env out es eng")
  note inv = engine_okD(1) [OF ok] and uq = engine_okD(2) [OF ok] and sn = engine_okD(3) [OF ok]
  note eff = write_batch_effect [OF env inv qui dist small wb, folded q]
  have sn1: "ws_open_snapshots (lsm_write eng1) = ws_open_snapshots (lsm_write eng)" by (rule write_batch_snaps [OF wb])
  have lt: "\<forall>x\<in>all_versions env eng. seq (fst x) < q" using lsm_invD(3) [OF inv] q by simp
  show ?thesis
  proof (cases "lsm_view eng1 = lsm_view eng \<and> isl r1")
    case True
    with ws wb have e2: "eng2 = eng1" "isl r" by (auto simp: write_settled_def split: sum.splits)
    have "all_versions env eng1 = all_versions env eng" using True by (simp add: all_versions_def layers_def)
    with True e2 eff sn1 uq sn show ?thesis
      using read_at_view [of eng1 eng env] by (simp add: engine_ok_def snapshots_ok_def)
  next
    case False
    with eff have all: "all_versions env eng1 = all_versions env eng \<union> batch_version q ` set es"
      and inv1: "lsm_inv env eng1" and n1: "ws_next_commit_seq (lsm_write eng1) = q + 1" by auto
    have u1: "unique_seqs (all_versions env eng1)" unfolding all by (rule unique_seqs_batch [OF uq lt dist])
    have rd: "lsm_read_at env eng1 k s = (case map_of (map snd es) k of
        Some v \<Rightarrow> if q \<le> s then Inr v else lsm_read_at env eng k s | None \<Rightarrow> lsm_read_at env eng k s)" for k s
      by (rule lsm_read_at_extend [OF env inv inv1 dist lt all])
    have wf1: "bt_wf (ws_open_snapshots (lsm_write eng1))" using sn sn1 by (simp add: snapshots_ok_def)
    have f1: "store_fits (env_bloom env) (all_versions env eng1)" using fits all by simp
    have "lsm_inv env eng2 \<and> all_versions env eng2 \<subseteq> all_versions env eng1
        \<and> ws_open_snapshots (lsm_write eng2) = ws_open_snapshots (lsm_write eng1)
        \<and> ws_next_commit_seq (lsm_write eng2) = ws_next_commit_seq (lsm_write eng1)
        \<and> (\<forall>k s. visible_snapshot eng1 s \<longrightarrow> lsm_read_at env eng2 k s = lsm_read_at env eng1 k s)"
    proof (cases r1)
      case (Inl e)
      with ws wb inv1 show ?thesis by (simp add: write_settled_def)
    next
      case (Inr x)
      with ws wb have sf: "settle_flush env (snd x) eng1 = (eng2, r)" by (cases x) (simp add: write_settled_def)
      have fr: "\<exists>imm. ev_immutable (lsm_view eng1) = Some imm \<and> pf_entries p = mt_to_entries (env_skip env) imm"
        if "snd x = Some p" for p
        using eff Inr that by (cases x) auto
      from settle_flush_keeps [OF env inv1 wf1 u1 f1 fr sf] settle_flush_snaps [OF sf] show ?thesis by simp
    qed
    then have st: "lsm_inv env eng2" "all_versions env eng2 \<subseteq> all_versions env eng1"
      "ws_open_snapshots (lsm_write eng2) = ws_open_snapshots (lsm_write eng)"
      "ws_next_commit_seq (lsm_write eng2) = q + 1"
      "\<And>k s. visible_snapshot eng1 s \<Longrightarrow> lsm_read_at env eng2 k s = lsm_read_at env eng1 k s"
      using sn1 n1 by auto
    have "unique_seqs (all_versions env eng2)" by (rule unique_seqs_mono [OF u1 st(2)])
    with st have "engine_ok env eng2" using sn by (simp add: engine_ok_def snapshots_ok_def)
    moreover have "lsm_read_at env eng2 k s = lsm_read_at env eng k s"
      if "s \<in> fst ` set (ws_open_snapshots (lsm_write eng))" "s < q" for k s
      using st(5) [of s k] rd [of k s] that sn1 by (auto split: option.splits)
    moreover have "lsm_read_at env eng2 k s
        = (case map_of (map snd es) k of Some v \<Rightarrow> Inr v | None \<Rightarrow> lsm_read_at env eng k s)" if "q \<le> s" for k s
      using st(5) [of s k] rd [of k s] that n1 by (auto split: option.splits)
    ultimately show ?thesis using st all by simp
  qed
qed

section \<open>Committing\<close>

text \<open>A composite key that names a table: UTF-8 text before its first NUL.\<close>

definition well_named :: "bytes \<Rightarrow> bool" where
  "well_named k \<longleftrightarrow> 0 \<in> set k \<and> valid_utf8 (takeWhile (\<lambda>b. b \<noteq> 0) k)"

lemma make_key_well_named:
  assumes "valid_utf8 table" and "0 \<notin> set table"
  shows "well_named (make_key table key)"
proof -
  have "takeWhile (\<lambda>b. b \<noteq> 0) (table @ 0 # key) = table" using assms(2) by (subst takeWhile_append2) auto
  with assms(1) show ?thesis by (simp add: well_named_def make_key_def)
qed

definition staged_batch :: "(bytes \<times> staged_write) list \<Rightarrow> write_entry list" where
  "staged_batch staged = map (\<lambda>(k, w). (takeWhile (\<lambda>b. b \<noteq> 0) k, k, sw_value w)) staged"

lemma batch_entries:
  "list_all (\<lambda>e. well_named (fst e)) staged \<Longrightarrow> List.map_filter batch_entry staged = staged_batch staged"
  by (induction staged) (auto simp: List.map_filter_def batch_entry_def staged_batch_def well_named_def)

lemma staged_batch_keys: "map write_key (staged_batch staged) = map fst staged"
  by (induction staged) (auto simp: staged_batch_def)

lemma staged_batch_get: "map_of (map snd (staged_batch staged)) k = map_option sw_value (bt_get staged k)"
  by (induction staged) (auto simp: staged_batch_def bt_get_def)

lemma release_keeps_ok:
  assumes "snapshots_ok eng"
  shows "snapshots_ok (release_snapshot q eng)"
proof (cases "0 < open_count eng q")
  case True
  with assms show ?thesis by (rule release_count(1))
next
  case False
  then have "bt_get (ws_open_snapshots (lsm_write eng)) q \<noteq> Some c" if "0 < c" for c
    using that by (auto simp: open_count_def)
  moreover have "bt_get (ws_open_snapshots (lsm_write eng)) q \<noteq> Some 0"
    using assms bt_get_Some_iff [of "ws_open_snapshots (lsm_write eng)" q 0] by (fastforce simp: snapshots_ok_def)
  ultimately have "bt_get (ws_open_snapshots (lsm_write eng)) q = None"
    by (metis gr0I not_Some_eq)
  with assms show ?thesis by (simp add: release_snapshot_def)
qed

lemma take_staged_frame:
  assumes "take_staged t eng = (t', eng', staged)"
  shows "lsm_view eng' = lsm_view eng" "ws_next_commit_seq (lsm_write eng') = ws_next_commit_seq (lsm_write eng)"
    "staged = ts_staged t" "snapshots_ok eng \<Longrightarrow> snapshots_ok eng'" "ts_finished t'" "ts_staged t' = []"
  using assms release_keeps_ok [of eng]
  by (auto simp: take_staged_def finish_locked_def split: if_splits)

lemma engine_ok_view:
  "engine_ok env eng \<Longrightarrow> lsm_view eng' = lsm_view eng \<Longrightarrow> snapshots_ok eng'
   \<Longrightarrow> ws_next_commit_seq (lsm_write eng') = ws_next_commit_seq (lsm_write eng) \<Longrightarrow> engine_ok env eng'"
  using lsm_inv_view [of env eng eng'] by (simp add: engine_ok_def all_versions_def layers_def)

lemma commit_txn_settled:
  assumes "commit_txn env maintain out t db = (t', db', r)"
    and "take_staged t (db_lsm db) = (t1, eng1, staged)" and "list_all (\<lambda>e. well_named (fst e)) staged"
  shows "db_lsm db' = eng1 \<and> (staged = [] \<or> r = Inl DbReadOnly)
    \<or> (\<exists>r1. write_settled env out (staged_batch staged) eng1 = (db_lsm db', r1) \<and> (isl r1 \<longrightarrow> r \<noteq> Inr ()))"
  using assms(1,2) batch_entries [OF assms(3)]
  by (auto simp: commit_txn_def Let_def check_writable_def write_settled_def
      split: if_splits prod.splits sum.splits)

lemma run_compaction_immutable:
  "run_compaction env pending eng = (eng', r) \<Longrightarrow> ev_immutable (lsm_view eng') = ev_immutable (lsm_view eng)"
  by (auto simp: run_compaction_def commit_compact_def Let_def dest!: finish_compact_keeps
      split: option.splits prod.splits sum.splits)

lemma write_settled_quiescent:
  assumes "write_settled env out es eng = (eng', r)" and "\<not> isl r" and "quiescent env eng"
  shows "quiescent env eng'"
proof -
  obtain eng1 q pending where wb: "write_batch env out es eng = (eng1, Inr (q, pending))" "settle_flush env pending eng1 = (eng', r)"
    using assms(1,2) by (auto simp: write_settled_def split: prod.splits sum.splits)
  show ?thesis
  proof (cases pending)
    case None
    then have "quiescent env eng1"
      using wb(1) assms(3)
      by (auto simp: write_batch_def begin_flush_def quiescent_def Let_def split: prod.splits sum.splits if_splits)
    then show ?thesis using wb(2) None by (simp add: settle_flush_def)
  next
    case (Some p)
    then obtain eng2 eng3 sst pc where "commit_flush env p sst eng2 = (eng3, Inr pc)" "run_compaction env pc eng3 = (eng', r)"
      using wb(2) assms(2) by (auto simp: settle_flush_def split: prod.splits sum.splits)
    then show ?thesis using commit_flush_success(1) run_compaction_immutable by (fastforce simp: quiescent_def)
  qed
qed

text \<open>C2: a commit is atomic and isolated. On an engine whose invariants hold and with no frozen memory
  table waiting to be flushed, with staged keys that name a table and all data within the limits of the
  table format and of 64-bit commit numbers, and with the commit and what it triggers (freezing the memory table, a flush, a compaction) taken as
  one step, however it ends: the reads of every snapshot still open are unchanged, and the snapshots
  taken from then on read either the staged value or delete for every staged key and the old value for
  every other key, or, if the commit failed, exactly what they would have read before. A commit that
  succeeds leaves no frozen table behind. (After a flush that failed, the next one drops the frozen rows:
  \<open>second_flush_drops_frozen\<close>.)\<close>

theorem commit_txn_atomic_isolated:
  assumes env: "env_ok env" and ok: "engine_ok env (db_lsm db)" and qui: "quiescent env (db_lsm db)"
    and wf: "bt_wf (ts_staged t)" and named: "list_all (\<lambda>e. well_named (fst e)) (ts_staged t)"
    and q: "q = ws_next_commit_seq (lsm_write (db_lsm db))" and small: "q + 1 < 2 ^ 64"
    and fits: "store_fits (env_bloom env)
      (all_versions env (db_lsm db) \<union> batch_version q ` set (staged_batch (ts_staged t)))"
    and commit: "commit_txn env maintain out t db = (t', db', r)"
  shows "engine_ok env (db_lsm db')
    \<and> (\<forall>k s. 0 < open_count (db_lsm db') s \<and> s < q
        \<longrightarrow> lsm_read_at env (db_lsm db') k s = lsm_read_at env (db_lsm db) k s)
    \<and> ((\<forall>k s. q \<le> s \<longrightarrow> lsm_read_at env (db_lsm db') k s
          = (case bt_get (ts_staged t) k of Some w \<Rightarrow> Inr (sw_value w) | None \<Rightarrow> lsm_read_at env (db_lsm db) k s))
       \<or> r \<noteq> Inr () \<and> (\<forall>k s. q \<le> s \<longrightarrow> lsm_read_at env (db_lsm db') k s = lsm_read_at env (db_lsm db) k s))
    \<and> (r = Inr () \<longrightarrow> quiescent env (db_lsm db'))"
proof -
  obtain t1 eng1 staged where ts: "take_staged t (db_lsm db) = (t1, eng1, staged)"
    by (cases "take_staged t (db_lsm db)")
  note fr = take_staged_frame [OF ts]
  have ok1: "engine_ok env eng1" by (rule engine_ok_view [OF ok fr(1) fr(4) fr(2)]) (rule engine_okD(3) [OF ok])
  have q1: "quiescent env eng1" using qui fr(1) by (simp add: quiescent_def)
  have all1: "all_versions env eng1 = all_versions env (db_lsm db)" by (simp add: all_versions_def layers_def fr(1))
  have rd1: "lsm_read_at env eng1 k s = lsm_read_at env (db_lsm db) k s" for k s by (rule read_at_view [OF fr(1)])
  have named1: "list_all (\<lambda>e. well_named (fst e)) staged" using named fr(3) by simp
  from commit_txn_settled [OF commit ts named1] show ?thesis
  proof
    assume "db_lsm db' = eng1 \<and> (staged = [] \<or> r = Inl DbReadOnly)"
    with ok1 rd1 fr(3) q1 show ?thesis by auto
  next
    assume "\<exists>r1. write_settled env out (staged_batch staged) eng1 = (db_lsm db', r1) \<and> (isl r1 \<longrightarrow> r \<noteq> Inr ())"
    then obtain r1 where ws: "write_settled env out (staged_batch staged) eng1 = (db_lsm db', r1)"
      and r1: "isl r1 \<longrightarrow> r \<noteq> Inr ()" by blast
    have dist: "distinct (map write_key (staged_batch staged))"
      unfolding staged_batch_keys fr(3) by (rule bt_wf_distinct [OF wf])
    have n1: "q = ws_next_commit_seq (lsm_write eng1)" using q fr(2) by simp
    have f1: "store_fits (env_bloom env) (all_versions env eng1 \<union> batch_version q ` set (staged_batch staged))"
      using fits all1 fr(3) by simp
    have sm1: "ws_next_commit_seq (lsm_write eng1) + 1 < 2 ^ 64" using small n1 by simp
    note keep = write_settled_keeps [OF env ok1 q1 dist sm1 n1 f1 ws]
    have snap: "snapshots_ok (db_lsm db')" using keep engine_okD(3) by blast
    have case_map: "(case map_option sw_value x of Some v \<Rightarrow> Inr v | None \<Rightarrow> y)
        = (case x of Some w \<Rightarrow> Inr (sw_value w) | None \<Rightarrow> y)"
      for x and y :: "sst_error + bytes option" by (cases x) auto
    show ?thesis
      using keep r1 write_settled_quiescent [OF ws _ q1] unfolding open_count_pos [OF snap] rd1 staged_batch_get fr(3) case_map by auto
  qed
qed

section \<open>Any number of transactions\<close>

text \<open>
  One call by one of the sessions that share the database: the database and the transactions
  whose handles are alive. Dropping the last handle of a transaction removes it.
\<close>

inductive session_step ::
  "('b, 'm, 's) lsm_env \<Rightarrow> 'i maintain \<Rightarrow> ('b, 'm, 's, 'i) database \<times> transaction_state list
    \<Rightarrow> ('b, 'm, 's, 'i) database \<times> transaction_state list \<Rightarrow> bool"
  for env maintain where
  begin_step: "begin_txn db = (db', t) \<Longrightarrow> length ts + 1 < 2 ^ 32
    \<Longrightarrow> session_step env maintain (db, ts) (db', ts @ [t])"
| write_step: "i < length ts \<Longrightarrow> txn_write env maintain out (Some (ts ! i)) table key val db = (Some t', db', r)
    \<Longrightarrow> session_step env maintain (db, ts) (db', ts[i := t'])"
| delete_step: "i < length ts \<Longrightarrow> txn_delete env out (Some (ts ! i)) table key db = (Some t', db', r)
    \<Longrightarrow> session_step env maintain (db, ts) (db', ts[i := t'])"
| commit_step: "i < length ts \<Longrightarrow> commit_txn env maintain out (ts ! i) db = (t', db', r)
    \<Longrightarrow> session_step env maintain (db, ts) (db', ts[i := t'])"
| rollback_step: "i < length ts \<Longrightarrow> rollback_txn (ts ! i) db = (t', db')
    \<Longrightarrow> session_step env maintain (db, ts) (db', ts[i := t'])"
| drop_step: "i < length ts
    \<Longrightarrow> session_step env maintain (db, ts)
          (db\<lparr>db_lsm := txn_drop (ts ! i) (db_lsm db)\<rparr>, take i ts @ drop (Suc i) ts)"
| autocommit_write_step: "txn_write env maintain out None table key val db = (t', db', r)
    \<Longrightarrow> session_step env maintain (db, ts) (db', ts)"
| autocommit_delete_step: "txn_delete env out None table key db = (t', db', r)
    \<Longrightarrow> session_step env maintain (db, ts) (db', ts)"
| flush_step: "db_flush env db = (db', r) \<Longrightarrow> session_step env maintain (db, ts) (db', ts)"

text \<open>How many of the transactions are unfinished and pinned to a snapshot.\<close>

definition pinned :: "transaction_state list \<Rightarrow> nat \<Rightarrow> nat" where
  "pinned ts q = length (filter (\<lambda>t. \<not> ts_finished t \<and> ts_snapshot_seq t = q) ts)"

lemma pinned_simps [simp]:
  "pinned [] q = 0" "pinned (xs @ ys) q = pinned xs q + pinned ys q"
  "pinned [t] q = (if \<not> ts_finished t \<and> ts_snapshot_seq t = q then 1 else 0)"
  by (simp_all add: pinned_def)

lemma pinned_le: "pinned ts q \<le> length ts"
  by (simp add: pinned_def)

lemma pinned_split:
  assumes "i < length ts"
  shows "pinned ts q = pinned (take i ts @ drop (Suc i) ts) q + pinned [ts ! i] q"
    "pinned (ts[i := t]) q = pinned (take i ts @ drop (Suc i) ts) q + pinned [t] q"
proof -
  have "ts = take i ts @ [ts ! i] @ drop (Suc i) ts" "ts[i := t] = take i ts @ [t] @ drop (Suc i) ts"
    using assms by (simp_all add: id_take_nth_drop upd_conv_take_nth_drop)
  then show "pinned ts q = pinned (take i ts @ drop (Suc i) ts) q + pinned [ts ! i] q"
    "pinned (ts[i := t]) q = pinned (take i ts @ drop (Suc i) ts) q + pinned [t] q"
    by (metis (no_types, lifting) add.assoc add.commute pinned_simps(2))+
qed

lemma pinned_same:
  "i < length ts \<Longrightarrow> pinned [t] = pinned [ts ! i] \<Longrightarrow> pinned (ts[i := t]) = pinned ts"
  using pinned_split [of i ts] by (metis ext)

definition accounted :: "('b, 'm, 's, 'i) database \<times> transaction_state list \<Rightarrow> bool" where
  "accounted c \<longleftrightarrow> snapshots_ok (db_lsm (fst c)) \<and> open_count (db_lsm (fst c)) = pinned (snd c)"

text \<open>Finishing or dropping one transaction gives back exactly its registration.\<close>

lemma finish_accounted:
  assumes acc: "accounted (db, ts)" and i: "i < length ts"
    and eng: "eng = (if ts_finished (ts ! i) then db_lsm db else release_snapshot (ts_snapshot_seq (ts ! i)) (db_lsm db))"
  shows "snapshots_ok eng \<and> open_count eng = pinned (take i ts @ drop (Suc i) ts)"
proof (cases "ts_finished (ts ! i)")
  case True
  with acc eng pinned_split(1) [OF i] show ?thesis by (simp add: accounted_def fun_eq_iff)
next
  case False
  let ?q = "ts_snapshot_seq (ts ! i)"
  have "0 < open_count (db_lsm db) ?q"
    using acc pinned_split(1) [OF i, of ?q] False by (simp add: accounted_def)
  with acc release_count [of "db_lsm db" ?q] eng False show ?thesis
    by (auto simp: accounted_def fun_eq_iff pinned_split(1) [OF i])
qed

lemma pinned_done [simp]:
  "i < length ts \<Longrightarrow> ts_finished t \<Longrightarrow> pinned (ts[i := t]) = pinned (take i ts @ drop (Suc i) ts)"
  by (simp add: fun_eq_iff pinned_split(2))

lemma open_count_cong:
  "ws_open_snapshots (lsm_write eng') = ws_open_snapshots (lsm_write eng)
    \<Longrightarrow> open_count eng' = open_count eng \<and> snapshots_ok eng' = snapshots_ok eng"
  by (simp add: open_count_def snapshots_ok_def fun_eq_iff)

lemma commit_txn_snaps:
  assumes "commit_txn env maintain out t db = (t', db', r)"
  shows "ws_open_snapshots (lsm_write (db_lsm db')) = ws_open_snapshots (lsm_write
      (if ts_finished t then db_lsm db else release_snapshot (ts_snapshot_seq t) (db_lsm db)))
    \<and> ts_finished t'"
  using assms
  by (auto simp: commit_txn_def take_staged_def finish_locked_def Let_def
      dest!: write_batch_snaps settle_flush_snaps split: if_splits prod.splits sum.splits)

lemma autocommit_snaps:
  "db_write env maintain out table key val db = (db', r)
    \<Longrightarrow> ws_open_snapshots (lsm_write (db_lsm db')) = ws_open_snapshots (lsm_write (db_lsm db))"
  "db_delete env out table key db = (db', r)
    \<Longrightarrow> ws_open_snapshots (lsm_write (db_lsm db')) = ws_open_snapshots (lsm_write (db_lsm db))"
  by (auto simp: db_write_def db_delete_def lsm_put_def lsm_delete_def Let_def
      dest!: write_batch_snaps settle_flush_snaps split: if_splits prod.splits sum.splits)

lemma db_flush_snaps:
  "db_flush env db = (db', r)
    \<Longrightarrow> ws_open_snapshots (lsm_write (db_lsm db')) = ws_open_snapshots (lsm_write (db_lsm db))"
  by (auto simp: db_flush_def lsm_flush_def
      dest!: begin_flush_snaps finish_flush_keeps commit_flush_snaps run_compaction_snaps
      split: if_splits prod.splits sum.splits option.splits)

lemma staging_pins:
  "pinned [stage_write k v t] = pinned [t]" "pinned [stage_delete k t] = pinned [t]"
  by (simp_all add: fun_eq_iff stage_write_def stage_delete_def)

lemma session_step_accounted:
  "session_step env maintain c c' \<Longrightarrow> accounted c \<Longrightarrow> accounted c'"
proof (induction rule: session_step.induct)
  case (begin_step db db' t ts)
  let ?q = "dec64 (ws_next_commit_seq (lsm_write (db_lsm db)))"
  have db': "db_lsm db' = register_snapshot ?q (db_lsm db)" "t = txn_new (ts_id t) ?q"
    using begin_step(1) by (auto simp: begin_txn_def new_tx_id_def snapshot_now_def txn_new_def Let_def)
  have "open_count (db_lsm db) ?q + 1 < 2 ^ 32"
    using begin_step(2,3) pinned_le [of ts ?q] by (simp add: accounted_def)
  from register_count [OF _ this] begin_step(3) db'(1) show ?case
    by (subst db'(2)) (auto simp: accounted_def fun_eq_iff txn_new_def)
next
  case (write_step i ts out table key val db t' db' r)
  then show ?case
    by (auto simp: txn_write_def accounted_def pinned_same staging_pins)
next
  case (delete_step i ts out table key db t' db' r)
  then show ?case
    by (auto simp: txn_delete_def accounted_def pinned_same staging_pins)
next
  case (commit_step i ts out db t' db' r)
  let ?eng = "if ts_finished (ts ! i) then db_lsm db else release_snapshot (ts_snapshot_seq (ts ! i)) (db_lsm db)"
  note fin = finish_accounted [OF commit_step(3,1) refl]
  from commit_txn_snaps [OF commit_step(2)]
  have "open_count (db_lsm db') = open_count ?eng \<and> snapshots_ok (db_lsm db') = snapshots_ok ?eng" "ts_finished t'"
    using open_count_cong by blast+
  with fin commit_step(1) show ?case by (simp add: accounted_def del: pinned_simps)
next
  case (rollback_step i ts db t' db')
  have "db_lsm db' = (if ts_finished (ts ! i) then db_lsm db
      else release_snapshot (ts_snapshot_seq (ts ! i)) (db_lsm db))" "ts_finished t'"
    using rollback_step(2) by (auto simp: rollback_txn_def discard_def finish_locked_def split: if_splits)
  with finish_accounted [OF rollback_step(3,1) refl] rollback_step(1) show ?case
    by (simp add: accounted_def del: pinned_simps)
next
  case (drop_step i ts db)
  from finish_accounted [OF drop_step(2,1) refl] show ?case
    by (auto simp: accounted_def txn_drop_def simp del: pinned_simps split: if_splits)
next
  case (autocommit_write_step out table key val db t' db' r ts)
  then show ?case
    by (auto simp: txn_write_def accounted_def dest!: autocommit_snaps open_count_cong split: prod.splits)
next
  case (autocommit_delete_step out table key db t' db' r ts)
  then show ?case
    by (auto simp: txn_delete_def accounted_def dest!: autocommit_snaps open_count_cong split: prod.splits)
next
  case (flush_step db db' r ts)
  then show ?case by (auto simp: accounted_def dest!: db_flush_snaps open_count_cong)
qed

lemma session_steps_accounted:
  "(session_step env maintain)\<^sup>*\<^sup>* c c' \<Longrightarrow> accounted c \<Longrightarrow> accounted c'"
  by (induction rule: rtranclp_induct) (blast intro: session_step_accounted)+

text \<open>C10: every open snapshot is accounted for, exactly. From a database with no registered snapshot,
  after any interleaving of begins, staged writes, commits (successful or not), rollbacks,
  dropped connections and autocommit operations: the count the engine keeps for a snapshot is
  the number of unfinished transactions pinned to it. So a compaction's watermark is never
  above the snapshot of an open transaction, no finished or dropped transaction holds the
  watermark back, and when none is left unfinished the table of snapshots is empty.\<close>

theorem open_snapshots_accounted:
  assumes "(session_step env maintain)\<^sup>*\<^sup>* (db0, []) (db, ts)"
    and "ws_open_snapshots (lsm_write (db_lsm db0)) = []"
  shows "(\<forall>q. open_count (db_lsm db) q = pinned ts q)
    \<and> (\<forall>t eng' pc. t \<in> set ts \<and> \<not> ts_finished t \<and> begin_compact env (db_lsm db) = (eng', Inr (Some pc))
        \<longrightarrow> pc_watermark pc \<le> ts_snapshot_seq t)
    \<and> ((\<forall>t\<in>set ts. ts_finished t) \<longrightarrow> ws_open_snapshots (lsm_write (db_lsm db)) = [])"
proof -
  have "accounted (db0, [])"
    using assms(2) by (simp add: accounted_def snapshots_ok_def open_count_def fun_eq_iff)
  then have acc: "accounted (db, ts)" by (rule session_steps_accounted [OF assms(1)])
  then have sn: "snapshots_ok (db_lsm db)" and oc: "\<And>q. open_count (db_lsm db) q = pinned ts q"
    by (auto simp: accounted_def)
  have pin: "0 < pinned ts q \<longleftrightarrow> (\<exists>t\<in>set ts. \<not> ts_finished t \<and> ts_snapshot_seq t = q)" for q
    by (auto simp: pinned_def length_greater_0_conv filter_empty_conv)
  have reg: "q \<in> fst ` set (ws_open_snapshots (lsm_write (db_lsm db)))
      \<longleftrightarrow> (\<exists>t\<in>set ts. \<not> ts_finished t \<and> ts_snapshot_seq t = q)" for q
    using open_count_pos [OF sn] oc pin by metis
  have "ws_open_snapshots (lsm_write (db_lsm db)) = []" if "\<forall>t\<in>set ts. ts_finished t"
    using reg that by (metis hd_in_set image_eqI)
  moreover have "pc_watermark pc \<le> ts_snapshot_seq t"
    if "t \<in> set ts" "\<not> ts_finished t" "begin_compact env (db_lsm db) = (eng', Inr (Some pc))" for t eng' pc
    using watermark_below_open [OF that(3)] sn reg that(1,2) by (auto simp: snapshots_ok_def)
  ultimately show ?thesis using oc by blast
qed

section \<open>Witnesses\<close>

definition demo_db :: "(u64w, entry list, local_fs, unit) database" where
  "demo_db = \<lparr>db_lsm = demo_engine [(InternalKey [116, 0, 97] 1 0, [7])] 2, db_role = Writer, db_indexes = (),
     db_next_tx_id = 1\<rparr>"

definition demo_maintain :: "unit maintain" where
  "demo_maintain table key val ix = (ix, Inr ())"

text \<open>A transaction begun on that database, with a write and a delete staged.\<close>

definition demo_txn :: transaction_state where
  "demo_txn = stage_delete (make_key [116] [98]) (stage_write (make_key [116] [97]) [9] (txn_new 1 1))"

lemma demo_engine_ok:
  assumes "bt_wf es" "list_all (\<lambda>e. seq (fst e) < q \<and> plain e) es" "unique_seqs (set es)"
  shows "engine_ok demo_env (demo_engine es q)"
  using demo_engine_inv [OF assms(1,2)] assms(3)
  by (simp add: engine_ok_def all_versions_def demo_layers [OF assms(1)])
    (simp add: snapshots_ok_def demo_engine_def)

lemma demo_db_ok: "engine_ok demo_env (db_lsm demo_db)" "all_versions demo_env (db_lsm demo_db) = {(InternalKey [116, 0, 97] 1 0, [7])}"
  by (simp_all add: demo_db_def all_versions_def demo_layers bt_wf_Cons)
    (rule demo_engine_ok; simp add: bt_wf_Cons plain_def is_delete_def DELETE_TAG_def unique_seqs_def)

lemma demo_staged: "ts_staged demo_txn
    = [([116, 0, 97], StagedWrite (Some [9])), ([116, 0, 98], StagedWrite None)]" "ts_snapshot_seq demo_txn = 1"
  by (simp_all add: demo_txn_def stage_write_def stage_delete_def txn_new_def make_key_def)

theorem txn_scan_agrees_with_read_witness:
  "\<exists>kvs. txn_scan demo_env (Some demo_txn) [116] demo_db = Inr kvs \<and> bt_wf kvs \<and> ([97], [9]) \<in> set kvs"
proof -
  have "txn_read demo_env (Some demo_txn) [116] [97] demo_db = Inr (Some [9])"
    by (simp add: txn_read_def demo_staged staged_read_def make_key_def bt_get_def)
  moreover have "case Some demo_txn of Some t \<Rightarrow> bt_wf (ts_staged t) | None \<Rightarrow> True"
    by (simp add: demo_staged bt_wf_Cons)
  ultimately show ?thesis
    using txn_scan_agrees_with_read [OF demo_env_ok engine_okD(1) [OF demo_db_ok(1)], of "Some demo_txn" "[116]"]
    by blast
qed

lemma store_fits_listI:
  assumes "bt_wf L" and "\<And>P. sst_fits bl (filter P L)"
  shows "store_fits bl (set L)"
  unfolding store_fits_def
proof (intro allI impI)
  fix es :: "entry list" assume "bt_wf es \<and> set es \<subseteq> set L"
  then have "es = filter (\<lambda>x. x \<in> set es) L"
    by (intro bt_wf_eqI bt_wf_filter assms(1)) auto
  then show "sst_fits bl es" using assms(2) [of "\<lambda>x. x \<in> set es"] by simp
qed

lemma demo_fits:
  "store_fits (env_bloom demo_env)
     (all_versions demo_env (db_lsm demo_db) \<union> batch_version 2 ` set (staged_batch (ts_staged demo_txn)))"
proof -
  let ?L = "[(InternalKey [116, 0, 97] 2 0, [9]), (InternalKey [116, 0, 97] 1 0, [7]),
    (InternalKey [116, 0, 98] 2 2, [])] :: entry list"
  have "sst_fits word_bloom (filter P ?L)" for P
    by (simp add: sst_fits_def build_bytes_eq word_bloom_def stored_data_def data_record_def DELETE_TAG_def
        index_bytes_def bloom_bytes_def sip_bytes_def)
  then have "store_fits word_bloom (set ?L)"
    by (intro store_fits_listI) (simp_all add: bt_wf_Cons ik_less_iff)
  moreover have "all_versions demo_env (db_lsm demo_db) \<union> batch_version 2 ` set (staged_batch (ts_staged demo_txn))
      = set ?L"
    unfolding demo_db_ok(2) demo_staged
    by (auto simp: staged_batch_def batch_version_def PUT_TAG_def DELETE_TAG_def)
  ultimately show ?thesis by (simp add: demo_env_def)
qed

lemma demo_named: "list_all (\<lambda>e. well_named (fst e)) (ts_staged demo_txn)"
  using make_key_well_named [OF valid_utf8_ascii, of "[116]" "[97]"] make_key_well_named [OF valid_utf8_ascii, of "[116]" "[98]"]
  by (simp add: demo_staged make_key_def)

theorem commit_txn_atomic_isolated_witness:
  "\<exists>t' db' r. commit_txn demo_env demo_maintain Done demo_txn demo_db = (t', db', r)
    \<and> engine_ok demo_env (db_lsm db') \<and> r = Inr ()
    \<and> lsm_read_at demo_env (db_lsm db') [116, 0, 97] 2 = Inr (Some [9])"
proof -
  obtain t' db' r where c: "commit_txn demo_env demo_maintain Done demo_txn demo_db = (t', db', r)"
    by (cases "commit_txn demo_env demo_maintain Done demo_txn demo_db")
  have r: "r = Inr ()"
  proof -
    have "\<not> ts_finished demo_txn" by (simp add: demo_txn_def stage_write_def stage_delete_def txn_new_def)
    moreover have "List.map_filter batch_entry (ts_staged demo_txn)
        = [([116], [116, 0, 97], Some [9]), ([116], [116, 0, 98], None)]"
      unfolding batch_entries [OF demo_named] by (simp add: demo_staged staged_batch_def)
    moreover have "ts_staged demo_txn \<noteq> []" by (simp add: demo_staged)
    ultimately show ?thesis
      using c
      by (auto simp: commit_txn_def take_staged_def finish_locked_def check_writable_def Let_def
          write_batch_def append_batch_def io_append_def List.map_filter_def row_entry_def
          insert_entry_def mt_insert_def mt_is_full_def MEMTABLE_MAX_SIZE_def settle_flush_def
          demo_maintain_def demo_db_def demo_engine_def release_snapshot_def)
  qed
  have "ws_next_commit_seq (lsm_write (db_lsm demo_db)) = 2" "quiescent demo_env (db_lsm demo_db)"
    by (simp_all add: demo_db_def demo_engine_def quiescent_def)
  moreover have "bt_wf (ts_staged demo_txn)" by (simp add: demo_staged bt_wf_Cons)
  ultimately have "engine_ok demo_env (db_lsm db')
    \<and> (\<forall>k s. (2::nat) \<le> s \<longrightarrow> lsm_read_at demo_env (db_lsm db') k s
          = (case bt_get (ts_staged demo_txn) k of Some w \<Rightarrow> Inr (sw_value w)
             | None \<Rightarrow> lsm_read_at demo_env (db_lsm demo_db) k s))"
    using commit_txn_atomic_isolated [OF demo_env_ok demo_db_ok(1) _ _ demo_named refl _ _ c] demo_fits r by simp
  then have "engine_ok demo_env (db_lsm db')" "lsm_read_at demo_env (db_lsm db') [116, 0, 97] 2 = Inr (Some [9])"
    by (simp_all add: demo_staged bt_get_def)
  with c r show ?thesis by blast
qed

text \<open>Two transactions begun on the same snapshot, one rolled back and the other's connection dropped.\<close>

theorem open_snapshots_accounted_witness:
  "\<exists>db1 t1 db2 t2. begin_txn demo_db = (db1, t1) \<and> begin_txn db1 = (db2, t2)
    \<and> open_count (db_lsm db2) 1 = 2"
proof -
  obtain db1 t1 where b1: "begin_txn demo_db = (db1, t1)" by (cases "begin_txn demo_db")
  obtain db2 t2 where b2: "begin_txn db1 = (db2, t2)" by (cases "begin_txn db1")
  have t: "\<not> ts_finished t1" "ts_snapshot_seq t1 = 1" "\<not> ts_finished t2" "ts_snapshot_seq t2 = 1"
    using b1 b2 by (auto simp: begin_txn_def new_tx_id_def snapshot_now_def demo_db_def demo_engine_def inc64_def dec64_def
        register_snapshot_def Let_def txn_new_def)
  have "session_step demo_env demo_maintain (demo_db, []) (db1, [t1])"
    using session_step.begin_step [OF b1, of "[]"] by simp
  moreover have "session_step demo_env demo_maintain (db1, [t1]) (db2, [t1, t2])"
    using session_step.begin_step [OF b2, of "[t1]"] by simp
  ultimately have "(session_step demo_env demo_maintain)\<^sup>*\<^sup>* (demo_db, []) (db2, [t1, t2])"
    by (meson rtranclp.rtrancl_refl rtranclp.rtrancl_into_rtrancl)
  from open_snapshots_accounted [OF this] have "open_count (db_lsm db2) 1 = pinned [t1, t2] 1"
    by (simp add: demo_db_def demo_engine_def)
  also have "\<dots> = 2" by (simp add: pinned_def t)
  finally show ?thesis using b1 b2 by blast
qed

end
