(* ===== verification/Guard.thy ===== *)
theory Guard
  imports Object_Store
begin

text \<open>
  The object-store guard (\<open>storage/guard.rs\<close>): a bound on the operations in flight and a
  circuit breaker around any store. A call seen on its own is a function on the guarded
  state; the interleaving of the calls of many threads is a step relation over the same
  functions. Instants are nanoseconds of a monotonic clock, whose advances between readings
  are part of the state. Metrics are not represented.
\<close>

section \<open>Configuration\<close>

definition DEFAULT_MAX_INFLIGHT :: nat where
  "DEFAULT_MAX_INFLIGHT = 64"

definition DEFAULT_FAILURE_THRESHOLD :: nat where
  "DEFAULT_FAILURE_THRESHOLD = 5"

definition DEFAULT_OPEN_FOR :: nat where
  "DEFAULT_OPEN_FOR = 10 * 10 ^ 9"

text \<open>The argument is the environment variable, when it is set to a number.\<close>

definition max_inflight :: "nat option \<Rightarrow> nat" where
  "max_inflight v = max (case v of Some n \<Rightarrow> n | None \<Rightarrow> DEFAULT_MAX_INFLIGHT) 1"

definition failure_threshold :: "nat option \<Rightarrow> nat" where
  "failure_threshold v = max (case v of Some n \<Rightarrow> n | None \<Rightarrow> DEFAULT_FAILURE_THRESHOLD) 1"

definition open_for :: "nat option \<Rightarrow> nat" where
  "open_for v = (case v of Some secs \<Rightarrow> secs * 10 ^ 9 | None \<Rightarrow> DEFAULT_OPEN_FOR)"

record guard_config =
  gc_max_inflight :: "nat option"
  gc_failures :: "nat option"
  gc_open_secs :: "nat option"

section \<open>State\<close>

record in_flight_bound =
  ifb_count :: nat
  ifb_max :: nat

record breaker_state =
  failures :: nat
  opened_at :: "nat option"
  probing :: bool

record 's guarded =
  g_inner :: 's
  g_inflight :: in_flight_bound
  g_breaker :: breaker_state
  g_now :: nat
  g_elapse :: "nat list"

definition bound_new :: "nat \<Rightarrow> in_flight_bound" where
  "bound_new m = \<lparr>ifb_count = 0, ifb_max = m\<rparr>"

text \<open>Acquiring waits while the bound is reached: the step is enabled only below it.\<close>

definition can_acquire :: "in_flight_bound \<Rightarrow> bool" where
  "can_acquire b \<longleftrightarrow> \<not> ifb_max b \<le> ifb_count b"

definition acquire :: "in_flight_bound \<Rightarrow> in_flight_bound" where
  "acquire b = b\<lparr>ifb_count := ifb_count b + 1\<rparr>"

definition release :: "in_flight_bound \<Rightarrow> in_flight_bound" where
  "release b = b\<lparr>ifb_count := ifb_count b - 1\<rparr>"

definition guarded_new :: "guard_config \<Rightarrow> nat \<Rightarrow> nat list \<Rightarrow> 's \<Rightarrow> 's guarded" where
  "guarded_new cfg now ticks s = \<lparr>g_inner = s, g_inflight = bound_new (max_inflight (gc_max_inflight cfg)),
     g_breaker = \<lparr>failures = 0, opened_at = None, probing = False\<rparr>, g_now = now, g_elapse = ticks\<rparr>"

definition read_clock :: "'s guarded \<Rightarrow> 's guarded" where
  "read_clock g = (case g_elapse g of [] \<Rightarrow> g | d # ds \<Rightarrow> g\<lparr>g_now := g_now g + d, g_elapse := ds\<rparr>)"

section \<open>The breaker\<close>

definition breaker_admit :: "nat \<Rightarrow> nat \<Rightarrow> breaker_state \<Rightarrow> breaker_state \<times> (cas_error + unit)" where
  "breaker_admit window now b =
     (case opened_at b of
        None \<Rightarrow> (b, Inr ())
      | Some opened \<Rightarrow>
          if window \<le> now - opened then (b\<lparr>probing := True, opened_at := None\<rparr>, Inr ())
          else (b, Inl (Other RequestShed)))"

definition breaker_success :: "breaker_state \<Rightarrow> breaker_state" where
  "breaker_success b = b\<lparr>failures := 0, opened_at := None, probing := False\<rparr>"

definition breaker_failure :: "nat \<Rightarrow> nat \<Rightarrow> breaker_state \<Rightarrow> breaker_state" where
  "breaker_failure threshold now b =
     (let f = (if \<not> probing b then (failures b + 1) mod 2 ^ 64 else failures b) in
      b\<lparr>failures := f, probing := False,
        opened_at := (if threshold \<le> f then Some now else opened_at b)\<rparr>)"

definition on_admit :: "guard_config \<Rightarrow> 's guarded \<Rightarrow> 's guarded \<times> (cas_error + unit)" where
  "on_admit cfg g =
     (let g1 = (if opened_at (g_breaker g) = None then g else read_clock g) in
      case breaker_admit (open_for (gc_open_secs cfg)) (g_now g1) (g_breaker g1) of
        (b, r) \<Rightarrow> (g1\<lparr>g_breaker := b\<rparr>, r))"

definition on_success :: "'s guarded \<Rightarrow> 's guarded" where
  "on_success g = g\<lparr>g_breaker := breaker_success (g_breaker g)\<rparr>"

definition on_failure :: "guard_config \<Rightarrow> 's guarded \<Rightarrow> 's guarded" where
  "on_failure cfg g =
     (let g1 = read_clock g in
      g1\<lparr>g_breaker := breaker_failure (failure_threshold (gc_failures cfg)) (g_now g1) (g_breaker g1)\<rparr>)"

text \<open>What a result tells the breaker: a conflict is an answer, not a failure.\<close>

definition on_result :: "guard_config \<Rightarrow> cas_error + 'a \<Rightarrow> 's guarded \<Rightarrow> 's guarded" where
  "on_result cfg r g =
     (case r of Inr _ \<Rightarrow> on_success g | Inl (Conflict _) \<Rightarrow> on_success g | Inl (Other _) \<Rightarrow> on_failure cfg g)"

section \<open>A guarded call\<close>

definition guard_run ::
  "guard_config \<Rightarrow> ('s \<Rightarrow> 's \<times> (cas_error + 'a)) \<Rightarrow> 's guarded \<Rightarrow> 's guarded \<times> (cas_error + 'a)" where
  "guard_run cfg op g =
     (let g1 = g\<lparr>g_inflight := acquire (g_inflight g)\<rparr> in
      case on_admit cfg g1 of (g2, admitted) \<Rightarrow>
        (case (case admitted of
                 Inl e \<Rightarrow> (g2, Inl e)
               | Inr _ \<Rightarrow> (case op (g_inner g2) of (s, r) \<Rightarrow> (g2\<lparr>g_inner := s\<rparr>, r))) of
           (g3, result) \<Rightarrow>
             (let g4 = on_result cfg result g3 in
              (g4\<lparr>g_inflight := release (g_inflight g4)\<rparr>, result))))"

text \<open>\<open>map_err(CasError::Other)\<close> and back; only \<open>Other\<close> comes out of a mapped call.\<close>

definition as_cas :: "store_error + 'a \<Rightarrow> cas_error + 'a" where
  "as_cas r = (case r of Inl e \<Rightarrow> Inl (Other e) | Inr x \<Rightarrow> Inr x)"

definition as_anyhow :: "cas_error + 'a \<Rightarrow> store_error + 'a" where
  "as_anyhow r = (case r of Inl (Other e) \<Rightarrow> Inl e | Inl (Conflict _) \<Rightarrow> Inl IoError | Inr x \<Rightarrow> Inr x)"

definition guarded_get ::
  "guard_config \<Rightarrow> 's object_store \<Rightarrow> bytes \<Rightarrow> 's guarded \<Rightarrow> 's guarded \<times> (store_error + (bytes \<times> object_meta) option)" where
  "guarded_get cfg os key g =
     (case guard_run cfg (\<lambda>s. case os_get os key s of (s', r) \<Rightarrow> (s', as_cas r)) g of (g', r) \<Rightarrow> (g', as_anyhow r))"

definition guarded_put ::
  "guard_config \<Rightarrow> 's object_store \<Rightarrow> bytes \<Rightarrow> bytes \<Rightarrow> 's guarded \<Rightarrow> 's guarded \<times> (store_error + object_meta)" where
  "guarded_put cfg os key data g =
     (case guard_run cfg (\<lambda>s. case os_put os key data s of (s', r) \<Rightarrow> (s', as_cas r)) g of (g', r) \<Rightarrow> (g', as_anyhow r))"

definition guarded_put_if_match ::
  "guard_config \<Rightarrow> 's object_store \<Rightarrow> bytes \<Rightarrow> bytes \<Rightarrow> bytes option \<Rightarrow> 's guarded
    \<Rightarrow> 's guarded \<times> (cas_error + object_meta)" where
  "guarded_put_if_match cfg os key data expected g = guard_run cfg (os_put_if_match os key data expected) g"

definition guarded_delete ::
  "guard_config \<Rightarrow> 's object_store \<Rightarrow> bytes \<Rightarrow> 's guarded \<Rightarrow> 's guarded \<times> (store_error + unit)" where
  "guarded_delete cfg os key g =
     (case guard_run cfg (\<lambda>s. case os_delete os key s of (s', r) \<Rightarrow> (s', as_cas r)) g of (g', r) \<Rightarrow> (g', as_anyhow r))"

definition guarded_store :: "guard_config \<Rightarrow> 's object_store \<Rightarrow> 's guarded object_store" where
  "guarded_store cfg os = \<lparr>os_get = guarded_get cfg os, os_put = guarded_put cfg os,
     os_put_if_match = guarded_put_if_match cfg os, os_delete = guarded_delete cfg os\<rparr>"

section \<open>The guard as a store\<close>

lemma inner_frame [simp]:
  "g_inner (read_clock g) = g_inner g" "g_breaker (read_clock g) = g_breaker g" "g_inner (on_success g) = g_inner g"
  "g_inner (on_failure cfg g) = g_inner g" "g_inner (on_result cfg r g) = g_inner g"
  "g_inner (fst (on_admit cfg g)) = g_inner g"
  by (simp_all add: read_clock_def on_success_def on_failure_def on_result_def on_admit_def Let_def
      split: list.splits sum.splits cas_error.splits prod.splits)

text \<open>A guarded call answers for the backend, or is shed and leaves it alone.\<close>

lemma guard_run_cases:
  assumes "guard_run cfg op g = (g', r)"
  shows "op (g_inner g) = (g_inner g', r) \<or> g_inner g' = g_inner g \<and> r = Inl (Other RequestShed)"
proof -
  obtain g2 a where a: "on_admit cfg (g\<lparr>g_inflight := acquire (g_inflight g)\<rparr>) = (g2, a)"
    by (cases "on_admit cfg (g\<lparr>g_inflight := acquire (g_inflight g)\<rparr>)")
  have "g_inner g2 = g_inner g"
    using inner_frame(6) [of cfg "g\<lparr>g_inflight := acquire (g_inflight g)\<rparr>"] a by simp
  moreover have "a = Inr () \<or> a = Inl (Other RequestShed)"
    using a by (auto simp: on_admit_def breaker_admit_def Let_def split: option.splits if_splits)
  ultimately show ?thesis
    using assms a by (auto simp: guard_run_def Let_def split: prod.splits)
qed

lemma mapped_run_cases:
  assumes "(case guard_run cfg (\<lambda>s. case f s of (s', r) \<Rightarrow> (s', as_cas r)) g of (g', r) \<Rightarrow> (g', as_anyhow r)) = (g', r)"
  shows "f (g_inner g) = (g_inner g', r) \<or> g_inner g' = g_inner g \<and> r = Inl RequestShed"
  using assms
  by (auto simp: as_cas_def as_anyhow_def dest!: guard_run_cases split: prod.splits sum.splits)

lemma guarded_cases:
  "guarded_get cfg os k g = (g', rg) \<Longrightarrow>
    os_get os k (g_inner g) = (g_inner g', rg) \<or> g_inner g' = g_inner g \<and> rg = Inl RequestShed"
  "guarded_put cfg os k d g = (g', rp) \<Longrightarrow>
    os_put os k d (g_inner g) = (g_inner g', rp) \<or> g_inner g' = g_inner g \<and> rp = Inl RequestShed"
  "guarded_delete cfg os k g = (g', rd) \<Longrightarrow>
    os_delete os k (g_inner g) = (g_inner g', rd) \<or> g_inner g' = g_inner g \<and> rd = Inl RequestShed"
  "guarded_put_if_match cfg os k d expected g = (g', rc) \<Longrightarrow>
    os_put_if_match os k d expected (g_inner g) = (g_inner g', rc)
    \<or> g_inner g' = g_inner g \<and> rc = Inl (Other RequestShed)"
  unfolding guarded_get_def guarded_put_def guarded_delete_def guarded_put_if_match_def
  by (erule mapped_run_cases guard_run_cases)+

context object_store_laws
begin

lemma guarded_laws:
  "object_store_laws (guarded_store cfg os) (\<lambda>g. contents (g_inner g)) (\<lambda>g. inv (g_inner g)) tag_of"
proof
  fix g g' k and r :: "store_error + (bytes \<times> object_meta) option"
  assume i: "inv (g_inner g)" and eq: "os_get (guarded_store cfg os) k g = (g', r)"
  show "inv (g_inner g') \<and> contents (g_inner g') = contents (g_inner g) \<and>
     (isl r \<or> r = Inr (map_option (\<lambda>d. (d, meta_of tag_of d)) (contents (g_inner g) (path_for k))))"
    using guarded_cases(1) [of cfg os k g g' r] eq i get_ok [OF i, of k "g_inner g'" r]
    by (auto simp: guarded_store_def)
next
  fix g g' k d and r :: "store_error + object_meta"
  assume i: "inv (g_inner g)" and eq: "os_put (guarded_store cfg os) k d g = (g', r)"
  show "inv (g_inner g') \<and> (isl r \<and> contents (g_inner g') = contents (g_inner g)
      \<or> r = Inr (meta_of tag_of d) \<and> contents (g_inner g') = (contents (g_inner g))(path_for k \<mapsto> d))"
    using guarded_cases(2) [of cfg os k d g g' r] eq i put_ok [OF i, of k d "g_inner g'" r]
    by (auto simp: guarded_store_def)
next
  fix g g' k d expected r
  assume i: "inv (g_inner g)" and eq: "os_put_if_match (guarded_store cfg os) k d expected g = (g', r)"
  show "inv (g_inner g') \<and>
     (if expected = map_option tag_of (contents (g_inner g) (path_for k))
      then (\<exists>e. r = Inl (Other e)) \<and> contents (g_inner g') = contents (g_inner g)
        \<or> r = Inr (meta_of tag_of d) \<and> contents (g_inner g') = (contents (g_inner g))(path_for k \<mapsto> d)
      else contents (g_inner g') = contents (g_inner g)
        \<and> ((\<exists>e. r = Inl (Other e))
           \<or> r = Inl (Conflict (map_option tag_of (contents (g_inner g) (path_for k))))))"
    using guarded_cases(4) [of cfg os k d expected g g' r] eq i cas_ok [OF i, of k d expected "g_inner g'" r]
    by (auto simp: guarded_store_def)
next
  fix g g' k and r :: "store_error + unit"
  assume i: "inv (g_inner g)" and eq: "os_delete (guarded_store cfg os) k g = (g', r)"
  show "inv (g_inner g') \<and> (isl r \<and> contents (g_inner g') = contents (g_inner g)
      \<or> r = Inr () \<and> contents (g_inner g') = (contents (g_inner g))(path_for k := None))"
    using guarded_cases(3) [of cfg os k g g' r] eq i delete_ok [OF i, of k "g_inner g'" r]
    by (auto simp: guarded_store_def)
qed

end

interpretation guarded_local:
  object_store_laws "guarded_store cfg (local_fs_store sha256)" "\<lambda>g. objects (g_inner g)" "\<lambda>_. True" "sha256_hex sha256"
  for cfg sha256
  by (rule local.guarded_laws)

section \<open>The breaker over time\<close>

text \<open>Calls made one after the other, with their results.\<close>

fun guard_calls ::
  "guard_config \<Rightarrow> ('s \<Rightarrow> 's \<times> (cas_error + 'a)) list \<Rightarrow> 's guarded \<Rightarrow> 's guarded \<times> (cas_error + 'a) list" where
  "guard_calls cfg [] g = (g, [])"
| "guard_calls cfg (op # ops) g =
     (case guard_run cfg op g of (g1, r) \<Rightarrow> case guard_calls cfg ops g1 of (g2, rs) \<Rightarrow> (g2, r # rs))"

lemma guard_calls_append:
  "guard_calls cfg (xs @ ys) g =
     (case guard_calls cfg xs g of (g1, r1) \<Rightarrow> case guard_calls cfg ys g1 of (g2, r2) \<Rightarrow> (g2, r1 @ r2))"
  by (induction xs arbitrary: g) (auto split: prod.splits)

lemma guard_calls_length: "guard_calls cfg ops g = (g', rs) \<Longrightarrow> length rs = length ops"
  by (induction ops arbitrary: g g' rs) (auto split: prod.splits)

text \<open>The breaker has just been tripped, or just shed a call.\<close>

definition just_opened :: "guard_config \<Rightarrow> nat \<Rightarrow> 's guarded \<Rightarrow> bool" where
  "just_opened cfg further g \<longleftrightarrow> opened_at (g_breaker g) = Some (g_now g) \<and> \<not> probing (g_breaker g)
     \<and> failure_threshold (gc_failures cfg) \<le> failures (g_breaker g) \<and> failures (g_breaker g) + further < 2 ^ 64"

definition quick_clock :: "guard_config \<Rightarrow> 's guarded \<Rightarrow> bool" where
  "quick_clock cfg g \<longleftrightarrow> 0 < open_for (gc_open_secs cfg) \<and> (\<forall>d\<in>set (g_elapse g). d < open_for (gc_open_secs cfg))"

lemma shed_keeps_open:
  assumes "just_opened cfg (Suc further) g" and "quick_clock cfg g" and "guard_run cfg op g = (g', r)"
  shows "r = Inl (Other RequestShed) \<and> just_opened cfg further g' \<and> quick_clock cfg g' \<and> g_inner g' = g_inner g"
  using assms
  by (auto simp: just_opened_def quick_clock_def guard_run_def on_admit_def breaker_admit_def read_clock_def
      on_result_def on_failure_def breaker_failure_def Let_def split: list.splits if_splits)

lemma open_sheds_all:
  assumes "just_opened cfg (length ops) g" and "quick_clock cfg g" and "guard_calls cfg ops g = (g', rs)"
  shows "(\<forall>r\<in>set rs. r = Inl (Other RequestShed)) \<and> g_inner g' = g_inner g \<and> opened_at (g_breaker g') \<noteq> None"
  using assms
proof (induction ops arbitrary: g rs)
  case Nil
  then show ?case by (auto simp: just_opened_def)
next
  case (Cons op ops)
  obtain g1 r where r: "guard_run cfg op g = (g1, r)" by (cases "guard_run cfg op g")
  obtain rs1 where rs: "guard_calls cfg ops g1 = (g', rs1)" "rs = r # rs1"
    using Cons.prems(3) r by (auto split: prod.splits)
  have s: "just_opened cfg (Suc (length ops)) g" using Cons.prems(1) by simp
  from shed_keeps_open [OF s Cons.prems(2) r] Cons.IH [OF _ _ rs(1)] rs(2) show ?case by auto
qed

text \<open>A breaker that has counted some failures and is closed.\<close>

definition counting :: "nat \<Rightarrow> 's guarded \<Rightarrow> bool" where
  "counting f g \<longleftrightarrow> opened_at (g_breaker g) = None \<and> \<not> probing (g_breaker g) \<and> failures (g_breaker g) = f"

definition backend_fails :: "('s \<Rightarrow> 's \<times> (cas_error + 'a)) \<Rightarrow> bool" where
  "backend_fails op \<longleftrightarrow> (\<forall>s. \<exists>s' e. op s = (s', Inl (Other e)))"

lemma failure_counts:
  assumes "counting f g" and "backend_fails op" and "quick_clock cfg g" and "f + 1 < 2 ^ 64"
    and "guard_run cfg op g = (g', r)"
  shows "quick_clock cfg g'" "f + 1 < failure_threshold (gc_failures cfg) \<Longrightarrow> counting (f + 1) g'"
    "f + 1 = failure_threshold (gc_failures cfg) \<Longrightarrow> f + 1 + further < 2 ^ 64 \<Longrightarrow> just_opened cfg further g'"
proof -
  obtain s e where op: "op (g_inner g) = (s, Inl (Other e))" using assms(2) unfolding backend_fails_def by blast
  show "quick_clock cfg g'" "f + 1 < failure_threshold (gc_failures cfg) \<Longrightarrow> counting (f + 1) g'"
    "f + 1 = failure_threshold (gc_failures cfg) \<Longrightarrow> f + 1 + further < 2 ^ 64 \<Longrightarrow> just_opened cfg further g'"
    using assms(1,3,4,5) op
    by (auto simp: counting_def just_opened_def quick_clock_def guard_run_def on_admit_def breaker_admit_def
        read_clock_def on_result_def on_failure_def breaker_failure_def Let_def split: list.splits)
qed

lemma failures_trip:
  assumes "counting f g" and "\<forall>op\<in>set ops. backend_fails op" and "quick_clock cfg g"
    and "f + length ops = failure_threshold (gc_failures cfg)" and "ops \<noteq> []"
    and "failure_threshold (gc_failures cfg) + further < 2 ^ 64"
    and "guard_calls cfg ops g = (g', rs)"
  shows "just_opened cfg further g' \<and> quick_clock cfg g'"
  using assms
proof (induction ops arbitrary: f g rs)
  case Nil
  then show ?case by simp
next
  case (Cons op ops)
  obtain g1 r where r: "guard_run cfg op g = (g1, r)" by (cases "guard_run cfg op g")
  obtain rs1 where rs: "guard_calls cfg ops g1 = (g', rs1)"
    using Cons.prems(7) r by (auto split: prod.splits)
  have bf: "backend_fails op" and lt: "f + 1 < 2 ^ 64" using Cons.prems(2,4,6) by auto
  note fc = failure_counts [OF Cons.prems(1) bf Cons.prems(3) lt r]
  show ?case
  proof (cases "ops = []")
    case True
    with fc(1) fc(3) [of further] rs Cons.prems(4,6) show ?thesis by simp
  next
    case False
    have "counting (f + 1) g1" using fc(2) False Cons.prems(4) by (cases ops) auto
    with Cons.IH [of "f + 1" g1 rs1] fc(1) rs False Cons.prems show ?thesis by simp
  qed
qed

text \<open>Under steady load a tripped breaker never lets a probe through. After as many consecutive
  backend failures as the threshold, if calls keep arriving with less than the open window
  between clock readings, every further call is shed, the backend is never touched again and
  the breaker stays open, for arbitrarily many calls and whatever the backend would answer:
  a shed call is itself counted as a failure and restarts the window.\<close>

theorem breaker_never_recovers_under_load:
  assumes "length bad = failure_threshold (gc_failures cfg)" and "\<forall>op\<in>set bad. backend_fails op"
    and "0 < open_for (gc_open_secs cfg)" and "\<forall>d\<in>set ticks. d < open_for (gc_open_secs cfg)"
    and "failure_threshold (gc_failures cfg) + length further < 2 ^ 64"
    and "guard_calls cfg bad (guarded_new cfg now ticks s) = (g, r1)"
    and "guard_calls cfg further g = (g', r2)"
  shows "(\<forall>r\<in>set r2. r = Inl (Other RequestShed)) \<and> g_inner g' = g_inner g \<and> opened_at (g_breaker g') \<noteq> None"
proof -
  let ?g0 = "guarded_new cfg now ticks s"
  have "counting 0 ?g0" "quick_clock cfg ?g0"
    using assms(3,4) by (simp_all add: counting_def quick_clock_def guarded_new_def)
  moreover have "bad \<noteq> []" using assms(1) by (auto simp: failure_threshold_def)
  ultimately have "just_opened cfg (length further) g \<and> quick_clock cfg g"
    using failures_trip [of 0 ?g0 bad cfg "length further" g r1] assms by simp
  with open_sheds_all [OF _ _ assms(7)] show ?thesis by blast
qed

text \<open>
  The half-open state admits every caller, not one: once a probe has been let through and
  until it is answered, the breaker looks closed.
\<close>

lemma half_open_admits_everyone:
  assumes "on_admit cfg g = (g1, Inr ())" and "opened_at (g_breaker g) \<noteq> None"
  shows "probing (g_breaker g1) \<and> on_admit cfg g1 = (g1, Inr ())"
  using assms by (auto simp: on_admit_def breaker_admit_def Let_def split: option.splits if_splits)

section \<open>Threads\<close>

datatype 'a call_phase = Waiting | Acquired | Running | Answered "cas_error + 'a" | Settled | Returned

text \<open>
  The steps of the calls in progress, one phase per call; the backend may answer anything
  and change its own state in any way, and time passes.
\<close>

inductive guard_step ::
  "guard_config \<Rightarrow> 's guarded \<times> 'a call_phase list \<Rightarrow> 's guarded \<times> 'a call_phase list \<Rightarrow> bool"
  for cfg where
  arrive: "guard_step cfg (g, ps) (g, ps @ [Waiting])"
| acquire_slot: "i < length ps \<Longrightarrow> ps ! i = Waiting \<Longrightarrow> can_acquire (g_inflight g)
    \<Longrightarrow> guard_step cfg (g, ps) (g\<lparr>g_inflight := acquire (g_inflight g)\<rparr>, ps[i := Acquired])"
| admit_call: "i < length ps \<Longrightarrow> ps ! i = Acquired \<Longrightarrow> on_admit cfg g = (g', Inr ())
    \<Longrightarrow> guard_step cfg (g, ps) (g', ps[i := Running])"
| shed_call: "i < length ps \<Longrightarrow> ps ! i = Acquired \<Longrightarrow> on_admit cfg g = (g', Inl e)
    \<Longrightarrow> guard_step cfg (g, ps) (g', ps[i := Answered (Inl e)])"
| backend_answers: "i < length ps \<Longrightarrow> ps ! i = Running
    \<Longrightarrow> guard_step cfg (g, ps) (g\<lparr>g_inner := s\<rparr>, ps[i := Answered r])"
| settle_call: "i < length ps \<Longrightarrow> ps ! i = Answered r
    \<Longrightarrow> guard_step cfg (g, ps) (on_result cfg r g, ps[i := Settled])"
| return_call: "i < length ps \<Longrightarrow> ps ! i = Settled
    \<Longrightarrow> guard_step cfg (g, ps) (g\<lparr>g_inflight := release (g_inflight g)\<rparr>, ps[i := Returned])"
| time_passes: "guard_step cfg (g, ps) (g\<lparr>g_now := g_now g + d, g_elapse := ds\<rparr>, ps)"

definition holds_slot :: "'a call_phase \<Rightarrow> bool" where
  "holds_slot p \<longleftrightarrow> p \<noteq> Waiting \<and> p \<noteq> Returned"

definition slots :: "'a call_phase list \<Rightarrow> nat" where
  "slots ps = length (filter holds_slot ps)"

lemma slots_update:
  "i < length ps \<Longrightarrow> slots (ps[i := p]) + (if holds_slot (ps ! i) then 1 else 0)
     = slots ps + (if holds_slot p then 1 else 0)"
  unfolding slots_def upd_conv_take_nth_drop
  by (subst (4) id_take_nth_drop [of i ps]) auto

lemma inflight_frame [simp]:
  "g_inflight (on_result cfg r g) = g_inflight g"
  "on_admit cfg g = (g', a) \<Longrightarrow> g_inflight g' = g_inflight g"
  by (auto simp: read_clock_def on_success_def on_failure_def on_result_def on_admit_def Let_def
      split: list.splits sum.splits cas_error.splits prod.splits if_splits)

text \<open>The counter counts the calls between acquiring and returning, and never passes its bound.\<close>

definition bounded :: "guard_config \<Rightarrow> 's guarded \<times> 'a call_phase list \<Rightarrow> bool" where
  "bounded cfg c \<longleftrightarrow> ifb_count (g_inflight (fst c)) = slots (snd c)
     \<and> ifb_max (g_inflight (fst c)) = max_inflight (gc_max_inflight cfg)
     \<and> slots (snd c) \<le> max_inflight (gc_max_inflight cfg)"

lemma guard_step_bounded: "guard_step cfg c c' \<Longrightarrow> bounded cfg c \<Longrightarrow> bounded cfg c'"
proof (induction rule: guard_step.induct)
  case (arrive g ps)
  then show ?case by (simp add: bounded_def slots_def holds_slot_def)
next
  case (acquire_slot i ps g)
  with slots_update [of i ps Acquired] show ?case
    by (auto simp: bounded_def can_acquire_def acquire_def holds_slot_def)
next
  case (admit_call i ps g g')
  with slots_update [of i ps Running] show ?case by (auto simp: bounded_def holds_slot_def)
next
  case (shed_call i ps g g' e)
  with slots_update [of i ps "Answered (Inl e)"] show ?case by (auto simp: bounded_def holds_slot_def)
next
  case (backend_answers i ps g s r)
  with slots_update [of i ps "Answered r"] show ?case by (auto simp: bounded_def holds_slot_def)
next
  case (settle_call i ps r g)
  with slots_update [of i ps Settled] show ?case by (auto simp: bounded_def holds_slot_def)
next
  case (return_call i ps g)
  with slots_update [of i ps Returned] show ?case by (auto simp: bounded_def release_def holds_slot_def)
next
  case (time_passes g ps d ds)
  then show ?case by (simp add: bounded_def)
qed

lemma guard_steps_bounded: "(guard_step cfg)\<^sup>*\<^sup>* c c' \<Longrightarrow> bounded cfg c \<Longrightarrow> bounded cfg c'"
  by (induction rule: rtranclp_induct) (blast intro: guard_step_bounded)+

text \<open>C31: under any interleaving of any number of calls, the operations running on the backend at one
  time never exceed the configured bound, the counter is exactly the number of calls that
  hold a slot, and when every call has returned it is back at zero.\<close>

theorem inflight_never_exceeds_bound:
  assumes "(guard_step cfg)\<^sup>*\<^sup>* (guarded_new cfg now ticks s, []) (g, ps)"
  shows "length (filter (\<lambda>p. p = Running) ps) \<le> max_inflight (gc_max_inflight cfg)
    \<and> ifb_count (g_inflight g) = slots ps
    \<and> ((\<forall>p\<in>set ps. p = Returned) \<longrightarrow> ifb_count (g_inflight g) = 0)"
proof -
  have "bounded cfg (guarded_new cfg now ticks s, [])"
    by (simp add: bounded_def guarded_new_def bound_new_def slots_def)
  from guard_steps_bounded [OF assms this]
  have b: "ifb_count (g_inflight g) = slots ps" "slots ps \<le> max_inflight (gc_max_inflight cfg)"
    by (auto simp: bounded_def)
  have "length (filter (\<lambda>p. p = Running) ps) \<le> slots ps"
    unfolding slots_def by (induction ps) (auto simp: holds_slot_def)
  moreover have "slots ps = 0" if "\<forall>p\<in>set ps. p = Returned"
    using that by (auto simp: slots_def holds_slot_def filter_empty_conv)
  ultimately show ?thesis using b by simp
qed

section \<open>Witnesses\<close>

definition demo_guard :: guard_config where
  "demo_guard = \<lparr>gc_max_inflight = Some 2, gc_failures = Some 1, gc_open_secs = Some 1\<rparr>"

text \<open>One failure trips the breaker; calls a millisecond apart are then shed although the backend answers.\<close>

theorem breaker_never_recovers_under_load_witness:
  "\<exists>g r1 g' r2. guard_calls demo_guard [\<lambda>s. (s, Inl (Other IoError) :: cas_error + bool)]
      (guarded_new demo_guard 0 (replicate 9 1000000) ()) = (g, r1)
    \<and> guard_calls demo_guard (replicate 3 (\<lambda>s. (s, Inr True))) g = (g', r2)
    \<and> r2 = replicate 3 (Inl (Other RequestShed))"
proof -
  let ?bad = "[\<lambda>s :: unit. (s, Inl (Other IoError) :: cas_error + bool)]"
  obtain g r1 where 1: "guard_calls demo_guard ?bad (guarded_new demo_guard 0 (replicate 9 1000000) ()) = (g, r1)"
    by (cases "guard_calls demo_guard ?bad (guarded_new demo_guard 0 (replicate 9 1000000) ())")
  obtain g' r2 where 2: "guard_calls demo_guard (replicate 3 (\<lambda>s. (s, Inr True))) g = (g', r2)"
    by (cases "guard_calls demo_guard (replicate 3 (\<lambda>s. (s, Inr True))) g")
  have "\<forall>r\<in>set r2. r = Inl (Other RequestShed)"
    using breaker_never_recovers_under_load [OF _ _ _ _ _ 1 2]
    by (simp add: demo_guard_def failure_threshold_def open_for_def backend_fails_def)
  with guard_calls_length [OF 2] have "r2 = replicate 3 (Inl (Other RequestShed))"
    by (metis length_replicate replicate_eqI)
  with 1 2 show ?thesis by blast
qed

text \<open>Two calls hold the two slots.\<close>

theorem inflight_never_exceeds_bound_witness:
  "\<exists>g. (guard_step demo_guard)\<^sup>*\<^sup>* (guarded_new demo_guard 0 [] (), []) (g, [Acquired, Acquired :: bool call_phase])
    \<and> ifb_count (g_inflight g) = 2"
proof -
  define g0 where "g0 = guarded_new demo_guard 0 [] ()"
  define g1 where "g1 = g0\<lparr>g_inflight := acquire (g_inflight g0)\<rparr>"
  define g2 where "g2 = g1\<lparr>g_inflight := acquire (g_inflight g1)\<rparr>"
  have c: "can_acquire (g_inflight g0)" "can_acquire (g_inflight g1)"
    by (simp_all add: g0_def g1_def guarded_new_def bound_new_def can_acquire_def acquire_def max_inflight_def demo_guard_def)
  have "guard_step demo_guard (g0, []) (g0, [Waiting :: bool call_phase])"
    using guard_step.arrive [of demo_guard g0 "[]"] by simp
  moreover have "guard_step demo_guard (g0, [Waiting]) (g0, [Waiting, Waiting :: bool call_phase])"
    using guard_step.arrive [of demo_guard g0 "[Waiting]"] by simp
  moreover have "guard_step demo_guard (g0, [Waiting, Waiting]) (g1, [Acquired, Waiting :: bool call_phase])"
    using guard_step.acquire_slot [of 0 "[Waiting, Waiting]" g0 demo_guard] c by (simp add: g1_def)
  moreover have "guard_step demo_guard (g1, [Acquired, Waiting]) (g2, [Acquired, Acquired :: bool call_phase])"
    using guard_step.acquire_slot [of 1 "[Acquired, Waiting]" g1 demo_guard] c by (simp add: g2_def)
  ultimately have run: "(guard_step demo_guard)\<^sup>*\<^sup>* (g0, []) (g2, [Acquired, Acquired :: bool call_phase])"
    by (meson rtranclp.rtrancl_refl rtranclp.rtrancl_into_rtrancl)
  from inflight_never_exceeds_bound [OF run [unfolded g0_def]]
  have "ifb_count (g_inflight g2) = 2" by (simp add: slots_def holds_slot_def)
  with run show ?thesis unfolding g0_def by blast
qed

end
