(* ===== verification/Cache.thy ===== *)
theory Cache
  imports Guard
begin

text \<open>
  The local cache in front of an object store (\<open>storage/cache.rs\<close>): a bounded directory
  with eviction of the least recently used object, and the store that reads through it. The
  hash map of entries is kept as an ordered association list (its iteration order matters
  nowhere, since access ticks are distinct). Every file-system action of the cache consults a
  schedule of outcomes; a failing write leaves a prefix of the data in the file, as
  \<open>fs::write\<close> truncates first. Metrics are not represented.
\<close>

section \<open>State\<close>

record cache_entry =
  ce_size :: nat
  ce_etag :: bytes
  ce_last_access :: nat

datatype fs_outcome = FsOk | FsFail nat

record nvme_cache =
  nc_max_bytes :: nat
  nc_entries :: "(bytes \<times> cache_entry) list"
  nc_clock :: nat
  nc_files :: "bytes \<Rightarrow> bytes option"
  nc_outcomes :: "fs_outcome list"

definition cache_open :: "nat \<Rightarrow> fs_outcome list \<Rightarrow> nvme_cache" where
  "cache_open max_bytes outs = \<lparr>nc_max_bytes = max_bytes, nc_entries = [], nc_clock = 0,
     nc_files = Map.empty, nc_outcomes = outs\<rparr>"

text \<open>The outcome of the next file-system action, and the state after it is used up.\<close>

definition fs_outcome_of :: "nvme_cache \<Rightarrow> fs_outcome" where
  "fs_outcome_of c = (case nc_outcomes c of [] \<Rightarrow> FsOk | out # _ \<Rightarrow> out)"

definition fs_next :: "nvme_cache \<Rightarrow> nvme_cache" where
  "fs_next c = c\<lparr>nc_outcomes := tl (nc_outcomes c)\<rparr>"

section \<open>Eviction\<close>

definition total_size :: "(bytes \<times> cache_entry) list \<Rightarrow> nat" where
  "total_size es = sum_list (map (ce_size \<circ> snd) es)"

text \<open>\<open>min_by_key\<close> on the access tick: the first of the smallest.\<close>

fun oldest :: "(bytes \<times> cache_entry) list \<Rightarrow> bytes option" where
  "oldest [] = None"
| "oldest [(k, e)] = Some k"
| "oldest ((k, e) # (k', e') # es) =
     (if ce_last_access e' < ce_last_access e then oldest ((k', e') # es) else oldest ((k, e) # es))"

definition remove_file :: "bytes \<Rightarrow> nvme_cache \<Rightarrow> nvme_cache" where
  "remove_file key c =
     (case fs_outcome_of c of
        FsOk \<Rightarrow> (fs_next c)\<lparr>nc_files := (nc_files c)(path_for key := None)\<rparr>
      | FsFail _ \<Rightarrow> fs_next c)"

function evict_loop :: "nat \<Rightarrow> nvme_cache \<Rightarrow> nvme_cache" where
  "evict_loop tot c =
     (if nc_max_bytes c < tot then
        (case oldest (nc_entries c) of
           None \<Rightarrow> c
         | Some victim \<Rightarrow>
             (case bt_get (nc_entries c) victim of
                Some e \<Rightarrow>
                  evict_loop (tot - ce_size e)
                    (remove_file victim (c\<lparr>nc_entries := bt_remove victim (nc_entries c)\<rparr>))
              | None \<Rightarrow> c))
      else c)"
  by pat_completeness auto

lemma remove_file_entries [simp]:
  "nc_entries (remove_file k c) = nc_entries c" "nc_max_bytes (remove_file k c) = nc_max_bytes c"
  "nc_clock (remove_file k c) = nc_clock c"
  by (simp_all add: remove_file_def fs_next_def split: fs_outcome.splits)

lemma bt_remove_shorter:
  assumes "bt_get m k = Some v"
  shows "length (bt_remove k m) < length m"
proof -
  from assms have "(k, v) \<in> set m" unfolding bt_get_def by (rule map_of_SomeD)
  then show ?thesis unfolding bt_remove_def by (intro length_filter_less [of "(k, v)"]) auto
qed

termination evict_loop
  by (relation "measure (\<lambda>(tot, c). length (nc_entries c))") (auto simp: bt_remove_shorter)

declare evict_loop.simps [simp del]

definition evict_if_needed :: "nvme_cache \<Rightarrow> nvme_cache" where
  "evict_if_needed c = evict_loop (total_size (nc_entries c) mod 2 ^ 64) c"

section \<open>The cache\<close>

definition cache_get :: "bytes \<Rightarrow> nvme_cache \<Rightarrow> nvme_cache \<times> (bytes \<times> object_meta) option" where
  "cache_get key c =
     (case bt_get (nc_entries c) key of
        None \<Rightarrow> (c, None)
      | Some e \<Rightarrow>
          (let c1 = c\<lparr>nc_entries := bt_insert key (e\<lparr>ce_last_access := nc_clock c\<rparr>) (nc_entries c),
                 nc_clock := (nc_clock c + 1) mod 2 ^ 64\<rparr>;
               c2 = fs_next c1
           in case (fs_outcome_of c1, nc_files c1 (path_for key)) of
                (FsOk, Some data) \<Rightarrow> (c2, Some (data, \<lparr>etag = ce_etag e, obj_size = ce_size e\<rparr>))
              | _ \<Rightarrow> (c2\<lparr>nc_entries := bt_remove key (nc_entries c2)\<rparr>, None)))"

definition cache_put :: "bytes \<Rightarrow> bytes \<Rightarrow> object_meta \<Rightarrow> nvme_cache \<Rightarrow> nvme_cache" where
  "cache_put key data meta c =
     (let c1 = fs_next c in
      case fs_outcome_of c of
        FsFail _ \<Rightarrow> c1
      | FsOk \<Rightarrow>
          (let c2 = fs_next c1 in
           case fs_outcome_of c1 of
             FsFail n \<Rightarrow> c2\<lparr>nc_files := (nc_files c2)(path_for key \<mapsto> take n data)\<rparr>
           | FsOk \<Rightarrow>
               evict_if_needed (c2\<lparr>nc_files := (nc_files c2)(path_for key \<mapsto> data),
                 nc_entries := bt_insert key
                   \<lparr>ce_size = obj_size meta, ce_etag = etag meta, ce_last_access = nc_clock c2\<rparr> (nc_entries c2),
                 nc_clock := (nc_clock c2 + 1) mod 2 ^ 64\<rparr>)))"

definition cache_invalidate :: "bytes \<Rightarrow> nvme_cache \<Rightarrow> nvme_cache" where
  "cache_invalidate key c =
     (case bt_get (nc_entries c) key of
        None \<Rightarrow> c
      | Some _ \<Rightarrow> remove_file key (c\<lparr>nc_entries := bt_remove key (nc_entries c)\<rparr>))"

definition cache_stats :: "nvme_cache \<Rightarrow> nat \<times> nat" where
  "cache_stats c = (length (nc_entries c), total_size (nc_entries c) mod 2 ^ 64)"

section \<open>The cached store\<close>

record 's cached =
  cd_inner :: 's
  cd_cache :: nvme_cache

definition cached_new :: "'s \<Rightarrow> nat \<Rightarrow> fs_outcome list \<Rightarrow> 's cached" where
  "cached_new s cache_max_bytes outs = \<lparr>cd_inner = s, cd_cache = cache_open cache_max_bytes outs\<rparr>"

definition is_cacheable :: "bytes \<Rightarrow> bool" where
  "is_cacheable key \<longleftrightarrow> take 4 key = str ''sst/'' \<or> take 4 key = str ''wal/''"

definition cached_get ::
  "'s object_store \<Rightarrow> bytes \<Rightarrow> 's cached \<Rightarrow> 's cached \<times> (store_error + (bytes \<times> object_meta) option)" where
  "cached_get os key st =
     (if \<not> is_cacheable key then
        (case os_get os key (cd_inner st) of (s', r) \<Rightarrow> (st\<lparr>cd_inner := s'\<rparr>, r))
      else
        (case cache_get key (cd_cache st) of
           (c1, Some hit) \<Rightarrow> (st\<lparr>cd_cache := c1\<rparr>, Inr (Some hit))
         | (c1, None) \<Rightarrow>
             (case os_get os key (cd_inner st) of
                (s', Inl e) \<Rightarrow> (st\<lparr>cd_inner := s', cd_cache := c1\<rparr>, Inl e)
              | (s', Inr (Some (data, meta))) \<Rightarrow>
                  (st\<lparr>cd_inner := s', cd_cache := cache_put key data meta c1\<rparr>, Inr (Some (data, meta)))
              | (s', Inr None) \<Rightarrow> (st\<lparr>cd_inner := s', cd_cache := c1\<rparr>, Inr None))))"

definition cached_put ::
  "'s object_store \<Rightarrow> bytes \<Rightarrow> bytes \<Rightarrow> 's cached \<Rightarrow> 's cached \<times> (store_error + object_meta)" where
  "cached_put os key data st =
     (case os_put os key data (cd_inner st) of
        (s', Inl e) \<Rightarrow> (st\<lparr>cd_inner := s'\<rparr>, Inl e)
      | (s', Inr meta) \<Rightarrow>
          (st\<lparr>cd_inner := s',
             cd_cache := (if is_cacheable key then cache_put key data meta (cd_cache st) else cd_cache st)\<rparr>,
           Inr meta))"

definition cached_put_if_match ::
  "'s object_store \<Rightarrow> bytes \<Rightarrow> bytes \<Rightarrow> bytes option \<Rightarrow> 's cached \<Rightarrow> 's cached \<times> (cas_error + object_meta)" where
  "cached_put_if_match os key data expected st =
     (case os_put_if_match os key data expected (cd_inner st) of
        (s', Inl e) \<Rightarrow> (st\<lparr>cd_inner := s'\<rparr>, Inl e)
      | (s', Inr meta) \<Rightarrow>
          (st\<lparr>cd_inner := s',
             cd_cache := (if is_cacheable key then cache_put key data meta (cd_cache st) else cd_cache st)\<rparr>,
           Inr meta))"

definition cached_delete ::
  "'s object_store \<Rightarrow> bytes \<Rightarrow> 's cached \<Rightarrow> 's cached \<times> (store_error + unit)" where
  "cached_delete os key st =
     (case os_delete os key (cd_inner st) of
        (s', Inl e) \<Rightarrow> (st\<lparr>cd_inner := s'\<rparr>, Inl e)
      | (s', Inr _) \<Rightarrow> (st\<lparr>cd_inner := s', cd_cache := cache_invalidate key (cd_cache st)\<rparr>, Inr ()))"

definition cached_store :: "'s object_store \<Rightarrow> 's cached object_store" where
  "cached_store os = \<lparr>os_get = cached_get os, os_put = cached_put os,
     os_put_if_match = cached_put_if_match os, os_delete = cached_delete os\<rparr>"

section \<open>What eviction keeps\<close>

lemma oldest_None: "oldest es = None \<longleftrightarrow> es = []"
  by (induction es rule: oldest.induct) auto

lemma oldest_least:
  "oldest es = Some k \<Longrightarrow> \<exists>e. (k, e) \<in> set es \<and> (\<forall>x\<in>set es. ce_last_access e \<le> ce_last_access (snd x))"
  by (induction es rule: oldest.induct) (force split: if_splits)+

lemma total_size_remove:
  assumes "bt_wf m" and "(k, e) \<in> set m"
  shows "total_size m = total_size (bt_remove k m) + ce_size e"
  using assms
proof (induction m)
  case Nil
  then show ?case by simp
next
  case (Cons x m)
  show ?case
  proof (cases "fst x = k")
    case True
    then have "bt_remove k m = m" "x = (k, e)"
      using Cons.prems by (auto simp: bt_remove_def bt_wf_Cons filter_id_conv)
    then show ?thesis by (simp add: bt_remove_def total_size_def)
  next
    case False
    then show ?thesis using Cons by (auto simp: bt_remove_def bt_wf_Cons total_size_def)
  qed
qed

text \<open>
  The result of evicting: a sub-map within the budget, whose entries were all used at least
  as recently as any that was removed, with nothing removed that did not have to be.
\<close>

definition evicted :: "nat \<Rightarrow> (bytes \<times> cache_entry) list \<Rightarrow> (bytes \<times> cache_entry) list \<Rightarrow> bool" where
  "evicted budget es es' \<longleftrightarrow> bt_wf es' \<and> set es' \<subseteq> set es \<and> total_size es' \<le> budget
     \<and> (\<forall>v\<in>set es - set es'. \<forall>k\<in>set es'. ce_last_access (snd v) \<le> ce_last_access (snd k))
     \<and> (es' \<noteq> es \<longrightarrow> (\<exists>v\<in>set es - set es'. budget < total_size es' + ce_size (snd v)))"

lemma evict_loop_spec:
  assumes "bt_wf (nc_entries c)" and "tot = total_size (nc_entries c)"
  shows "evicted (nc_max_bytes c) (nc_entries c) (nc_entries (evict_loop tot c))
    \<and> nc_max_bytes (evict_loop tot c) = nc_max_bytes c \<and> nc_clock (evict_loop tot c) = nc_clock c"
  using assms
proof (induction tot c rule: evict_loop.induct)
  case (1 tot c)
  let ?es = "nc_entries c"
  show ?case
  proof (cases "nc_max_bytes c < tot")
    case False
    with 1 show ?thesis by (subst (1 2 3) evict_loop.simps) (simp add: evicted_def)
  next
    case True
    then have "?es \<noteq> []" using 1(3) by (auto simp: total_size_def)
    then obtain v where v: "oldest ?es = Some v" using oldest_None by blast
    then obtain e where e: "(v, e) \<in> set ?es" "\<forall>x\<in>set ?es. ce_last_access e \<le> ce_last_access (snd x)"
      using oldest_least by blast
    have g: "bt_get ?es v = Some e" using bt_get_Some_iff [OF 1(2)] e(1) by simp
    let ?c = "remove_file v (c\<lparr>nc_entries := bt_remove v ?es\<rparr>)"
    have sz: "total_size ?es = total_size (bt_remove v ?es) + ce_size e"
      by (rule total_size_remove [OF 1(2) e(1)])
    have eq: "evict_loop tot c = evict_loop (tot - ce_size e) ?c"
      by (subst evict_loop.simps) (simp add: True v g)
    have IH: "evicted (nc_max_bytes c) (bt_remove v ?es) (nc_entries (evict_loop (tot - ce_size e) ?c))
        \<and> nc_max_bytes (evict_loop (tot - ce_size e) ?c) = nc_max_bytes c
        \<and> nc_clock (evict_loop (tot - ce_size e) ?c) = nc_clock c"
      using 1(1) [OF True v g] 1(2,3) sz by (simp add: bt_wf_remove)
    let ?es' = "nc_entries (evict_loop (tot - ce_size e) ?c)"
    have sub: "set ?es' \<subseteq> set (bt_remove v ?es)" and vn: "(v, e) \<notin> set ?es'" and wf': "bt_wf ?es'"
      and tot': "total_size ?es' \<le> nc_max_bytes c"
      using IH by (auto simp: evicted_def set_bt_remove)
    have rest: "ce_last_access (snd x) \<le> ce_last_access (snd k)"
      if "x \<in> set ?es - set ?es'" "k \<in> set ?es'" for x k
    proof (cases "fst x = v")
      case True
      then have "x = (v, e)" using that(1) g bt_get_Some_iff [OF 1(2), of v "snd x"] by (cases x) auto
      with e(2) that(2) sub show ?thesis by (auto simp: set_bt_remove)
    next
      case False
      with that IH show ?thesis by (auto simp: evicted_def set_bt_remove)
    qed
    have "\<exists>x\<in>set ?es - set ?es'. nc_max_bytes c < total_size ?es' + ce_size (snd x)"
    proof (cases "?es' = bt_remove v ?es")
      case eqr: True
      then show ?thesis using e(1) vn sz True 1(3) by (intro bexI [of _ "(v, e)"]) auto
    next
      case False
      then obtain x where x: "x \<in> set (bt_remove v ?es) - set ?es'" "nc_max_bytes c < total_size ?es' + ce_size (snd x)"
        using IH unfolding evicted_def by blast
      then have "x \<in> set ?es - set ?es'" by (simp add: set_bt_remove)
      with x(2) show ?thesis by blast
    qed
    with sub wf' tot' rest IH show ?thesis unfolding eq evicted_def by (auto simp: set_bt_remove)
  qed
qed

lemma evict_loop_files: "nc_files (evict_loop tot c) p = Some d \<Longrightarrow> nc_files c p = Some d"
proof (induction tot c rule: evict_loop.induct)
  case (1 tot c)
  show ?case
  proof (cases "nc_max_bytes c < tot \<and> (\<exists>v e. oldest (nc_entries c) = Some v \<and> bt_get (nc_entries c) v = Some e)")
    case False
    then have "evict_loop tot c = c" by (subst evict_loop.simps) (auto split: option.splits)
    with 1(2) show ?thesis by simp
  next
    case True
    then obtain v e where v: "nc_max_bytes c < tot" "oldest (nc_entries c) = Some v" "bt_get (nc_entries c) v = Some e"
      by blast
    let ?c = "remove_file v (c\<lparr>nc_entries := bt_remove v (nc_entries c)\<rparr>)"
    have "evict_loop tot c = evict_loop (tot - ce_size e) ?c" by (subst evict_loop.simps) (simp add: v)
    with 1(1) [OF v] 1(2) have "nc_files ?c p = Some d" by simp
    then show ?thesis by (auto simp: remove_file_def fs_next_def split: fs_outcome.splits if_splits)
  qed
qed

section \<open>Coherence with the store behind\<close>

text \<open>
  Every entry has a cacheable key without backslashes (so that the file names of different
  keys differ) and, if its file is there, it holds the stored object with its metadata.
\<close>

definition coherent :: "(bytes \<Rightarrow> bytes) \<Rightarrow> (bytes \<Rightarrow> bytes option) \<Rightarrow> nvme_cache \<Rightarrow> bool" where
  "coherent tag_of cts c \<longleftrightarrow> bt_wf (nc_entries c) \<and> (\<forall>x\<in>set (nc_entries c). is_cacheable (fst x) \<and> 92 \<notin> set (fst x)
     \<and> (\<forall>d. nc_files c (fst x) = Some d \<longrightarrow>
          cts (fst x) = Some d \<and> ce_etag (snd x) = tag_of d \<and> ce_size (snd x) = length d))"

lemma coherent_wf: "coherent tag_of cts c \<Longrightarrow> bt_wf (nc_entries c)"
  by (simp add: coherent_def)

lemma coherentD:
  "coherent tag_of cts c \<Longrightarrow> bt_get (nc_entries c) k = Some e \<Longrightarrow> nc_files c k = Some d
    \<Longrightarrow> cts k = Some d \<and> ce_etag e = tag_of d \<and> ce_size e = length d"
  unfolding coherent_def using bt_get_Some_iff [of "nc_entries c" k e] by fastforce

lemma coherent_shrink:
  assumes "coherent tag_of cts c" and "bt_wf (nc_entries c')" and "set (nc_entries c') \<subseteq> set (nc_entries c)"
    and "\<And>p d. nc_files c' p = Some d \<Longrightarrow> nc_files c p = Some d"
  shows "coherent tag_of cts c'"
  using assms unfolding coherent_def by blast

lemma coherent_outcomes [simp]: "coherent tag_of cts (fs_next c) = coherent tag_of cts c"
  by (simp add: coherent_def fs_next_def)

lemma fs_next_simps [simp]:
  "nc_entries (fs_next c) = nc_entries c" "nc_files (fs_next c) = nc_files c"
  by (simp_all add: fs_next_def)

lemma evict_coherent:
  assumes "coherent tag_of cts c" and "total_size (nc_entries c) < 2 ^ 64"
  shows "coherent tag_of cts (evict_if_needed c)"
proof -
  have "evicted (nc_max_bytes c) (nc_entries c) (nc_entries (evict_if_needed c))"
    using evict_loop_spec [OF coherent_wf [OF assms(1)] refl] assms(2) by (simp add: evict_if_needed_def)
  with coherent_shrink [OF assms(1)] evict_loop_files show ?thesis
    unfolding evict_if_needed_def evicted_def by blast
qed

lemma cache_get_coherent:
  assumes c: "coherent tag_of cts c" and k: "92 \<notin> set k" and get: "cache_get k c = (c', r)"
  shows "coherent tag_of cts c'"
    "r = Some x \<Longrightarrow> \<exists>d. cts k = Some d \<and> x = (d, meta_of tag_of d)"
    "r = None \<Longrightarrow> bt_get (nc_entries c') k = None" "total_size (nc_entries c') \<le> total_size (nc_entries c)"
proof -
  have "coherent tag_of cts c' \<and> (r = Some x \<longrightarrow> (\<exists>d. cts k = Some d \<and> x = (d, meta_of tag_of d)))
    \<and> (r = None \<longrightarrow> bt_get (nc_entries c') k = None) \<and> total_size (nc_entries c') \<le> total_size (nc_entries c)"
  proof (cases "bt_get (nc_entries c) k")
    case None
    with get c show ?thesis by (auto simp: cache_get_def)
  next
    case (Some e)
    let ?es = "nc_entries c" and ?e = "e\<lparr>ce_last_access := nc_clock c\<rparr>"
    let ?c1 = "c\<lparr>nc_entries := bt_insert k ?e ?es, nc_clock := (nc_clock c + 1) mod 2 ^ 64\<rparr>"
    have wf: "bt_wf ?es" by (rule coherent_wf [OF c])
    have mem: "(k, e) \<in> set ?es" using Some bt_get_Some_iff [OF wf] by simp
    have c1: "coherent tag_of cts ?c1"
      using c k mem unfolding coherent_def by (auto simp: bt_wf_insert set_bt_insert wf)
    have rem: "bt_remove k (bt_insert k ?e ?es) = bt_remove k ?es"
      by (rule bt_wf_eqI) (auto simp: wf bt_wf_insert bt_wf_remove set_bt_remove set_bt_insert)
    have size: "total_size (bt_insert k ?e ?es) = total_size ?es"
      using total_size_remove [OF wf mem] total_size_remove [of "bt_insert k ?e ?es" k ?e] rem
      by (simp add: wf bt_wf_insert bt_insert_mem)
    have c2: "coherent tag_of cts (?c1\<lparr>nc_entries := bt_remove k (nc_entries ?c1)\<rparr>)"
      by (rule coherent_shrink [OF c1]) (auto simp: wf bt_wf_insert bt_wf_remove set_bt_remove)
    have tot: "total_size (bt_remove k ?es) \<le> total_size ?es" using total_size_remove [OF wf mem] by simp
    consider (hit) d where "fs_outcome_of ?c1 = FsOk" "nc_files c k = Some d" "c' = fs_next ?c1"
        "r = Some (d, \<lparr>etag = ce_etag e, obj_size = ce_size e\<rparr>)"
      | (gone) "c' = (fs_next ?c1)\<lparr>nc_entries := bt_remove k (nc_entries (fs_next ?c1))\<rparr>" "r = None"
      using get Some k by (auto simp: cache_get_def Let_def split: fs_outcome.splits option.splits)
    then show ?thesis
    proof cases
      case hit
      with coherentD [OF c Some] c1 size show ?thesis by (auto simp: meta_of_def)
    next
      case gone
      have "coherent tag_of cts c'"
        using c2 unfolding gone(1) by (simp add: coherent_def)
      with gone rem tot show ?thesis by (simp add: bt_get_remove)
    qed
  qed
  then show "coherent tag_of cts c'" "r = Some x \<Longrightarrow> \<exists>d. cts k = Some d \<and> x = (d, meta_of tag_of d)"
    "r = None \<Longrightarrow> bt_get (nc_entries c') k = None" "total_size (nc_entries c') \<le> total_size (nc_entries c)"
    by auto
qed

text \<open>
  Overwriting a cached object is safe when the file-system actions succeed; a key that is not
  cached may be written whatever they do.
\<close>

definition put_safe :: "bytes \<Rightarrow> nvme_cache \<Rightarrow> bool" where
  "put_safe k c \<longleftrightarrow> bt_get (nc_entries c) k = None \<or> nc_outcomes c = []"

lemma total_size_insert: "total_size (bt_insert k e m) \<le> total_size m + ce_size e"
  by (induction m) (auto simp: total_size_def)

lemma cache_put_coherent:
  assumes c: "coherent tag_of cts c" and k: "92 \<notin> set k" "is_cacheable k" and safe: "put_safe k c"
    and cts': "cts' = cts(k \<mapsto> d)" and small: "total_size (nc_entries c) + length d < 2 ^ 64"
  shows "coherent tag_of cts' (cache_put k d (meta_of tag_of d) c)"
proof -
  let ?e = "\<lparr>ce_size = length d, ce_etag = tag_of d, ce_last_access = nc_clock c\<rparr>"
  have wf: "bt_wf (nc_entries c)" by (rule coherent_wf [OF c])
  have away: "coherent tag_of cts' c" if "bt_get (nc_entries c) k = None"
  proof -
    have "k \<noteq> fst x" if "x \<in> set (nc_entries c)" for x
      using \<open>bt_get (nc_entries c) k = None\<close> that by (auto simp: bt_get_def map_of_eq_None_iff)
    with c cts' show ?thesis unfolding coherent_def by auto
  qed
  have torn: "coherent tag_of cts' (c\<lparr>nc_files := (nc_files c)(k \<mapsto> y)\<rparr>)"
    if "bt_get (nc_entries c) k = None" for y
  proof -
    have "k \<noteq> fst x" if "x \<in> set (nc_entries c)" for x
      using \<open>bt_get (nc_entries c) k = None\<close> that by (auto simp: bt_get_def map_of_eq_None_iff)
    with away [OF that] show ?thesis unfolding coherent_def by auto
  qed
  let ?c = "c\<lparr>nc_outcomes := tl (tl (nc_outcomes c)), nc_files := (nc_files c)(k \<mapsto> d),
      nc_entries := bt_insert k ?e (nc_entries c), nc_clock := (nc_clock c + 1) mod 2 ^ 64\<rparr>"
  have full: "coherent tag_of cts' ?c"
    using c k cts' by (auto simp: coherent_def set_bt_insert bt_wf_insert wf)
  have "total_size (nc_entries ?c) < 2 ^ 64"
    using total_size_insert [of k ?e "nc_entries c"] small by simp
  note ev = evict_coherent [OF full this]
  consider (dir) n where "fs_outcome_of c = FsFail n" | (cut) n where "fs_outcome_of c = FsOk" "fs_outcome_of (fs_next c) = FsFail n"
    | (ok) "fs_outcome_of c = FsOk" "fs_outcome_of (fs_next c) = FsOk"
    by (metis fs_outcome.exhaust)
  then show ?thesis
  proof cases
    case dir
    then have "bt_get (nc_entries c) k = None" using safe by (auto simp: put_safe_def fs_outcome_of_def)
    from away [OF this] dir show ?thesis by (simp add: cache_put_def Let_def)
  next
    case cut
    then have "bt_get (nc_entries c) k = None"
      using safe by (auto simp: put_safe_def fs_outcome_of_def fs_next_def split: list.splits)
    from torn [OF this, of "take n d"] cut k show ?thesis
      by (simp add: cache_put_def Let_def coherent_def fs_next_def)
  next
    case ok
    with ev k show ?thesis by (simp add: cache_put_def Let_def fs_next_def meta_of_def)
  qed
qed

lemma cache_invalidate_coherent:
  assumes "coherent tag_of cts c" and "92 \<notin> set k"
  shows "coherent tag_of (cts(k := None)) (cache_invalidate k c)"
proof -
  let ?c = "remove_file k (c\<lparr>nc_entries := bt_remove k (nc_entries c)\<rparr>)"
  have "coherent tag_of (cts(k := None)) c'"
    if "bt_wf (nc_entries c')" "set (nc_entries c') \<subseteq> {x \<in> set (nc_entries c). fst x \<noteq> k}"
      "\<And>p d. nc_files c' p = Some d \<Longrightarrow> nc_files c p = Some d" for c'
    using assms(1) that unfolding coherent_def by fastforce
  note sub = this
  show ?thesis
  proof (cases "bt_get (nc_entries c) k")
    case None
    then have "set (nc_entries c) \<subseteq> {x \<in> set (nc_entries c). fst x \<noteq> k}"
      by (auto simp: bt_get_def map_of_eq_None_iff)
    with None sub [of c] coherent_wf [OF assms(1)] show ?thesis by (simp add: cache_invalidate_def)
  next
    case (Some e)
    have "coherent tag_of (cts(k := None)) ?c"
      by (rule sub) (auto simp: bt_wf_remove coherent_wf [OF assms(1)] set_bt_remove remove_file_def fs_next_def
          split: fs_outcome.splits if_splits)
    with Some show ?thesis by (simp add: cache_invalidate_def)
  qed
qed

section \<open>The cached store over a lawful store\<close>

definition cached_ok ::
  "('s \<Rightarrow> bytes \<Rightarrow> bytes option) \<Rightarrow> ('s \<Rightarrow> bool) \<Rightarrow> (bytes \<Rightarrow> bytes) \<Rightarrow> 's cached \<Rightarrow> bool" where
  "cached_ok contents ok tag_of st \<longleftrightarrow> ok (cd_inner st) \<and> coherent tag_of (contents (cd_inner st)) (cd_cache st)"

text \<open>The sizes the cache adds up stay below the word size.\<close>

definition roomy :: "nvme_cache \<Rightarrow> nat \<Rightarrow> bool" where
  "roomy c n \<longleftrightarrow> total_size (nc_entries c) + n < 2 ^ 64"

lemma coherent_cacheable: "coherent tag_of cts c \<Longrightarrow> x \<in> set (nc_entries c) \<Longrightarrow> is_cacheable (fst x)"
  by (simp add: coherent_def)

lemma written_coherent:
  assumes "coherent tag_of cts c" and "92 \<notin> set k" and "is_cacheable k \<longrightarrow> put_safe k c" and "roomy c (length d)"
  shows "coherent tag_of (cts(k \<mapsto> d)) (if is_cacheable k then cache_put k d (meta_of tag_of d) c else c)"
proof (cases "is_cacheable k")
  case True
  with cache_put_coherent [OF assms(1,2) True _ refl] assms(3,4) show ?thesis by (simp add: roomy_def)
next
  case False
  then have "fst x \<noteq> k" if "x \<in> set (nc_entries c)" for x using coherent_cacheable [OF assms(1) that] by auto
  with False assms(1) show ?thesis by (auto simp: coherent_def)
qed

context object_store_laws
begin

lemma cached_get_ok:
  assumes ok: "cached_ok contents inv tag_of st" and k: "92 \<notin> set k" and get: "cached_get os k st = (st', r)"
    and small: "\<And>d. contents (cd_inner st) k = Some d \<Longrightarrow> roomy (cd_cache st) (length d)"
  shows "cached_ok contents inv tag_of st' \<and> contents (cd_inner st') = contents (cd_inner st)
    \<and> (isl r \<or> r = Inr (map_option (\<lambda>d. (d, meta_of tag_of d)) (contents (cd_inner st) k)))"
proof -
  let ?cts = "contents (cd_inner st)"
  have i: "inv (cd_inner st)" and co: "coherent tag_of ?cts (cd_cache st)" using ok by (auto simp: cached_ok_def)
  obtain s' rg where g: "os_get os k (cd_inner st) = (s', rg)" by (cases "os_get os k (cd_inner st)")
  note law = get_ok [OF i g, unfolded path_for_id [OF k]]
  show ?thesis
  proof (cases "is_cacheable k")
    case False
    with get g law co show ?thesis by (auto simp: cached_get_def cached_ok_def)
  next
    case True
    obtain c1 h where h: "cache_get k (cd_cache st) = (c1, h)" by (cases "cache_get k (cd_cache st)")
    note cg = cache_get_coherent [OF co k h]
    show ?thesis
    proof (cases h)
      case (Some x)
      with get True h cg(1) cg(2) [of x] i show ?thesis by (auto simp: cached_get_def cached_ok_def)
    next
      case None
      show ?thesis
      proof (cases "\<exists>d m. rg = Inr (Some (d, m))")
        case False
        with get True h None g law cg(1) show ?thesis
          by (cases rg) (auto simp: cached_get_def cached_ok_def split: option.splits)
      next
        case dm: True
        then obtain d m where rg: "rg = Inr (Some (d, m))" by blast
        with law have d: "?cts k = Some d" "m = meta_of tag_of d" by (cases "?cts k"; auto)+
        have "put_safe k c1" using cg(3) None by (simp add: put_safe_def)
        moreover have "?cts = ?cts(k \<mapsto> d)" using d(1) by auto
        moreover have "total_size (nc_entries c1) + length d < 2 ^ 64"
          using cg(4) small [OF d(1)] by (simp add: roomy_def)
        ultimately have "coherent tag_of ?cts (cache_put k d (meta_of tag_of d) c1)"
          by (rule cache_put_coherent [OF cg(1) k True])
        with get True h None g rg law d show ?thesis by (auto simp: cached_get_def cached_ok_def)
      qed
    qed
  qed
qed

lemma cached_put_ok:
  assumes ok: "cached_ok contents inv tag_of st" and k: "92 \<notin> set k" and put: "cached_put os k d st = (st', r)"
    and safe: "is_cacheable k \<longrightarrow> put_safe k (cd_cache st)" and small: "roomy (cd_cache st) (length d)"
  shows "cached_ok contents inv tag_of st'
    \<and> (isl r \<and> contents (cd_inner st') = contents (cd_inner st)
       \<or> r = Inr (meta_of tag_of d) \<and> contents (cd_inner st') = (contents (cd_inner st))(k \<mapsto> d))"
proof -
  have i: "inv (cd_inner st)" and co: "coherent tag_of (contents (cd_inner st)) (cd_cache st)"
    using ok by (auto simp: cached_ok_def)
  obtain s' rp where p: "os_put os k d (cd_inner st) = (s', rp)" by (cases "os_put os k d (cd_inner st)")
  show ?thesis
    using put_ok [OF i p, unfolded path_for_id [OF k]] put p co written_coherent [OF co k safe small]
    by (cases rp) (auto simp: cached_put_def cached_ok_def)
qed

lemma cached_put_if_match_ok:
  assumes ok: "cached_ok contents inv tag_of st" and k: "92 \<notin> set k"
    and cas: "cached_put_if_match os k d expected st = (st', r)"
    and safe: "is_cacheable k \<longrightarrow> put_safe k (cd_cache st)" and small: "roomy (cd_cache st) (length d)"
  shows "cached_ok contents inv tag_of st' \<and>
    (if expected = map_option tag_of (contents (cd_inner st) k)
     then (\<exists>e. r = Inl (Other e)) \<and> contents (cd_inner st') = contents (cd_inner st)
       \<or> r = Inr (meta_of tag_of d) \<and> contents (cd_inner st') = (contents (cd_inner st))(k \<mapsto> d)
     else contents (cd_inner st') = contents (cd_inner st)
       \<and> ((\<exists>e. r = Inl (Other e)) \<or> r = Inl (Conflict (map_option tag_of (contents (cd_inner st) k)))))"
proof -
  have i: "inv (cd_inner st)" and co: "coherent tag_of (contents (cd_inner st)) (cd_cache st)"
    using ok by (auto simp: cached_ok_def)
  obtain s' rc where p: "os_put_if_match os k d expected (cd_inner st) = (s', rc)"
    by (cases "os_put_if_match os k d expected (cd_inner st)")
  show ?thesis
    using cas_ok [OF i p, unfolded path_for_id [OF k]] cas p co written_coherent [OF co k safe small]
    by (cases rc) (auto simp: cached_put_if_match_def cached_ok_def split: if_splits)
qed

lemma cached_delete_ok:
  assumes ok: "cached_ok contents inv tag_of st" and k: "92 \<notin> set k" and del: "cached_delete os k st = (st', r)"
  shows "cached_ok contents inv tag_of st'
    \<and> (isl r \<and> contents (cd_inner st') = contents (cd_inner st)
       \<or> r = Inr () \<and> contents (cd_inner st') = (contents (cd_inner st))(k := None))"
proof -
  have i: "inv (cd_inner st)" and co: "coherent tag_of (contents (cd_inner st)) (cd_cache st)"
    using ok by (auto simp: cached_ok_def)
  obtain s' rd where p: "os_delete os k (cd_inner st) = (s', rd)" by (cases "os_delete os k (cd_inner st)")
  show ?thesis
    using delete_ok [OF i p, unfolded path_for_id [OF k]] del p co cache_invalidate_coherent [OF co k]
    by (cases rd) (auto simp: cached_delete_def cached_ok_def)
qed

end

text \<open>C30: the cache is transparent. In front of any store that keeps the store contract, with the cache
  coherent and a key without backslashes, every operation of the cached store answers as
  the store behind would (or reports an error of it), has the same effect on what is durably
  stored, and leaves the cache coherent, whatever the cache's own file-system actions do. The one
  proviso: overwriting an object that is in the cache needs those actions to succeed, or its
  key to be one that is never cached.\<close>

theorem cached_store_transparent:
  assumes laws: "object_store_laws os contents ok tag_of" and st: "cached_ok contents ok tag_of st"
    and k: "92 \<notin> set k" and safe: "is_cacheable k \<longrightarrow> put_safe k (cd_cache st)"
    and small: "roomy (cd_cache st) (length d)"
      "\<forall>d'. contents (cd_inner st) k = Some d' \<longrightarrow> roomy (cd_cache st) (length d')"
  shows "(\<forall>st' r. cached_get os k st = (st', r) \<longrightarrow> cached_ok contents ok tag_of st'
        \<and> contents (cd_inner st') = contents (cd_inner st)
        \<and> (isl r \<or> r = Inr (map_option (\<lambda>d. (d, meta_of tag_of d)) (contents (cd_inner st) k))))
    \<and> (\<forall>st' r. cached_put os k d st = (st', r) \<longrightarrow> cached_ok contents ok tag_of st'
        \<and> (isl r \<and> contents (cd_inner st') = contents (cd_inner st)
           \<or> r = Inr (meta_of tag_of d) \<and> contents (cd_inner st') = (contents (cd_inner st))(k \<mapsto> d)))
    \<and> (\<forall>st' r. cached_put_if_match os k d expected st = (st', r) \<longrightarrow> cached_ok contents ok tag_of st'
        \<and> (if expected = map_option tag_of (contents (cd_inner st) k)
           then (\<exists>e. r = Inl (Other e)) \<and> contents (cd_inner st') = contents (cd_inner st)
             \<or> r = Inr (meta_of tag_of d) \<and> contents (cd_inner st') = (contents (cd_inner st))(k \<mapsto> d)
           else contents (cd_inner st') = contents (cd_inner st)
             \<and> ((\<exists>e. r = Inl (Other e)) \<or> r = Inl (Conflict (map_option tag_of (contents (cd_inner st) k))))))
    \<and> (\<forall>st' r. cached_delete os k st = (st', r) \<longrightarrow> cached_ok contents ok tag_of st'
        \<and> (isl r \<and> contents (cd_inner st') = contents (cd_inner st)
           \<or> r = Inr () \<and> contents (cd_inner st') = (contents (cd_inner st))(k := None)))"
  using object_store_laws.cached_get_ok [OF laws st k _ small(2) [rule_format]]
    object_store_laws.cached_put_ok [OF laws st k _ safe small(1)]
    object_store_laws.cached_put_if_match_ok [OF laws st k _ safe small(1)]
    object_store_laws.cached_delete_ok [OF laws st k]
  by blast

text \<open>
  The proviso is needed: when the cache cannot write the new version of an object it holds,
  \<open>put\<close> reports success and the next \<open>get\<close> still returns the old version.
\<close>

lemma failed_refresh_serves_stale:
  assumes "bt_get (nc_entries c) k = Some e" and "nc_files c (path_for k) = Some old"
    and "nc_outcomes c = [FsFail n]"
  shows "snd (cache_get k (cache_put k new meta c)) = Some (old, \<lparr>etag = ce_etag e, obj_size = ce_size e\<rparr>)"
  using assms by (simp add: cache_put_def cache_get_def fs_outcome_of_def fs_next_def Let_def)

section \<open>The budget\<close>

datatype cache_op = CGet bytes | CPut bytes bytes object_meta | CInvalidate bytes

fun cache_apply :: "nvme_cache \<Rightarrow> cache_op \<Rightarrow> nvme_cache" where
  "cache_apply c (CGet k) = fst (cache_get k c)"
| "cache_apply c (CPut k d m) = cache_put k d m c"
| "cache_apply c (CInvalidate k) = cache_invalidate k c"

fun op_fits :: "nat \<Rightarrow> cache_op \<Rightarrow> bool" where
  "op_fits budget (CPut k d m) = (budget + obj_size m < 2 ^ 64)"
| "op_fits budget _ = True"

definition in_budget :: "nat \<Rightarrow> nvme_cache \<Rightarrow> bool" where
  "in_budget budget c \<longleftrightarrow> bt_wf (nc_entries c) \<and> total_size (nc_entries c) \<le> budget \<and> nc_max_bytes c = budget"

lemma put_evicts:
  assumes "in_budget budget c" and "budget + obj_size m < 2 ^ 64" and "fs_outcome_of c = FsOk" "fs_outcome_of (fs_next c) = FsOk"
  shows "evicted budget
      (bt_insert k \<lparr>ce_size = obj_size m, ce_etag = etag m, ce_last_access = nc_clock c\<rparr> (nc_entries c))
      (nc_entries (cache_put k d m c)) \<and> nc_max_bytes (cache_put k d m c) = budget"
proof -
  let ?e = "\<lparr>ce_size = obj_size m, ce_etag = etag m, ce_last_access = nc_clock c\<rparr>"
  have lt: "total_size (bt_insert k ?e (nc_entries c)) < 2 ^ 64"
    using total_size_insert [of k ?e "nc_entries c"] assms(1,2) by (simp add: in_budget_def)
  have put: "cache_put k d m c = evict_if_needed ((fs_next (fs_next c))\<lparr>nc_files := (nc_files c)(path_for k \<mapsto> d),
      nc_entries := bt_insert k ?e (nc_entries c), nc_clock := (nc_clock c + 1) mod 2 ^ 64\<rparr>)"
    using assms(3,4) by (simp add: cache_put_def Let_def fs_next_def)
  have "nc_max_bytes (fs_next (fs_next c)) = budget" "bt_wf (nc_entries c)"
    using assms(1) by (simp_all add: in_budget_def fs_next_def)
  with lt show ?thesis
    unfolding put evict_if_needed_def
    using evict_loop_spec [OF _ refl, of "(fs_next (fs_next c))\<lparr>nc_files := (nc_files c)(path_for k \<mapsto> d),
      nc_entries := bt_insert k ?e (nc_entries c), nc_clock := (nc_clock c + 1) mod 2 ^ 64\<rparr>"]
    by (simp add: bt_wf_insert)
qed

lemma total_size_remove_le: "total_size (bt_remove k m) \<le> total_size m"
  by (induction m) (auto simp: bt_remove_def total_size_def)

lemma total_size_bump:
  "bt_get m k = Some e \<Longrightarrow> bt_wf m \<Longrightarrow> ce_size e' = ce_size e \<Longrightarrow> total_size (bt_insert k e' m) = total_size m"
proof (induction m)
  case Nil
  then show ?case by simp
next
  case (Cons x m)
  have "fst x < k" if "map_of m k = Some e" using map_of_SomeD [OF that] Cons.prems(2) by (fastforce simp: bt_wf_Cons)
  with Cons show ?case by (cases x) (auto simp: total_size_def bt_get_def bt_wf_Cons)
qed

lemma cache_apply_budget:
  assumes "in_budget budget c" and "op_fits budget p"
  shows "in_budget budget (cache_apply c p)"
proof (cases p)
  case (CGet k)
  show ?thesis
  proof (cases "bt_get (nc_entries c) k")
    case None
    with assms CGet show ?thesis by (simp add: cache_get_def)
  next
    case (Some e)
    let ?m = "bt_insert k (e\<lparr>ce_last_access := nc_clock c\<rparr>) (nc_entries c)"
    have "total_size ?m = total_size (nc_entries c)"
      using total_size_bump [OF Some] assms(1) by (simp add: in_budget_def)
    then have "total_size ?m \<le> budget" "total_size (bt_remove k ?m) \<le> budget"
      using assms(1) total_size_remove_le [of k ?m] by (simp_all add: in_budget_def)
    with assms(1) CGet Some show ?thesis
      by (auto simp: cache_get_def Let_def in_budget_def bt_wf_insert bt_wf_remove fs_next_def
          split: fs_outcome.splits option.splits)
  qed
next
  case (CPut k d m)
  show ?thesis
  proof (cases "fs_outcome_of c = FsOk \<and> fs_outcome_of (fs_next c) = FsOk")
    case True
    with put_evicts [OF assms(1), of m k d] assms(2) CPut show ?thesis by (simp add: in_budget_def evicted_def)
  next
    case False
    with assms(1) CPut show ?thesis
      by (auto simp: cache_put_def in_budget_def fs_next_def Let_def split: fs_outcome.splits)
  qed
next
  case (CInvalidate k)
  with assms(1) total_size_remove_le [of k "nc_entries c"] show ?thesis
    by (auto simp: cache_invalidate_def in_budget_def bt_wf_remove split: option.splits)
qed

lemma cache_ops_budget:
  "in_budget budget c \<Longrightarrow> list_all (op_fits budget) ops \<Longrightarrow> in_budget budget (foldl cache_apply c ops)"
  by (induction ops arbitrary: c) (auto intro: cache_apply_budget)

text \<open>The cache stays within its budget and evicts the least recently used. After any sequence of
  lookups, insertions and invalidations, whatever its file-system actions do, the sizes of
  the cached objects add up to at most the budget; and an insertion whose actions succeed
  ends with the entries that were used most recently, none of which was used before an
  evicted one, and evicts nothing it did not have to.\<close>

theorem cache_within_budget_lru:
  assumes "list_all (op_fits budget) ops" and "c = foldl cache_apply (cache_open budget outs) ops"
  shows "total_size (nc_entries c) \<le> budget
    \<and> (budget + obj_size m < 2 ^ 64 \<and> fs_outcome_of c = FsOk \<and> fs_outcome_of (fs_next c) = FsOk \<longrightarrow>
        evicted budget
          (bt_insert k \<lparr>ce_size = obj_size m, ce_etag = etag m, ce_last_access = nc_clock c\<rparr> (nc_entries c))
          (nc_entries (cache_put k d m c)))"
proof -
  have "in_budget budget (cache_open budget outs)"
    by (simp add: in_budget_def cache_open_def total_size_def)
  from cache_ops_budget [OF this assms(1)] have b: "in_budget budget c" using assms(2) by simp
  with put_evicts [OF b, of m k d] show ?thesis by (simp add: in_budget_def)
qed

section \<open>Witnesses\<close>

text \<open>The stack of the server: the cache over the guard over the local file system.\<close>

definition demo_stack :: "local_fs guarded cached" where
  "demo_stack = cached_new (guarded_new demo_guard 0 [] (local_open [])) 100 []"

theorem cached_store_transparent_witness:
  "\<exists>st' r. cached_put (guarded_store demo_guard (local_fs_store id)) (str ''sst/1'') [1, 2] demo_stack = (st', r)
    \<and> (isl r \<or> objects (g_inner (cd_inner st')) (str ''sst/1'') = Some [1, 2])"
proof -
  let ?os = "guarded_store demo_guard (local_fs_store id)" and ?k = "str ''sst/1''"
  obtain st' r where p: "cached_put ?os ?k [1, 2] demo_stack = (st', r)"
    by (cases "cached_put ?os ?k [1, 2] demo_stack")
  have ok: "cached_ok (\<lambda>g. objects (g_inner g)) (\<lambda>_. True) (sha256_hex id) demo_stack"
    and safe: "is_cacheable ?k \<longrightarrow> put_safe ?k (cd_cache demo_stack)"
    and small: "roomy (cd_cache demo_stack) (length [1, 2 :: byte])"
      "\<forall>d'. objects (g_inner (cd_inner demo_stack)) ?k = Some d' \<longrightarrow> roomy (cd_cache demo_stack) (length d')"
    by (simp_all add: demo_stack_def cached_new_def cached_ok_def coherent_def put_safe_def roomy_def cache_open_def
        total_size_def guarded_new_def local_open_def)
  have k: "92 \<notin> set ?k" by (simp add: str_def)
  note T = cached_store_transparent [OF guarded_local.object_store_laws_axioms ok k safe small]
  from T [THEN conjunct2, THEN conjunct1, rule_format, OF p]
  have "isl r \<or> objects (g_inner (cd_inner st')) ?k = Some [1, 2]" by auto
  with p show ?thesis by blast
qed

theorem cache_within_budget_lru_witness:
  "total_size (nc_entries (foldl cache_apply (cache_open 5 [])
      [CPut [1] [1, 1, 1] \<lparr>etag = [], obj_size = 3\<rparr>, CPut [2] [2, 2, 2] \<lparr>etag = [], obj_size = 3\<rparr>])) \<le> 5"
  using cache_within_budget_lru [of 5 "[CPut [1] [1, 1, 1] \<lparr>etag = [], obj_size = 3\<rparr>,
    CPut [2] [2, 2, 2] \<lparr>etag = [], obj_size = 3\<rparr>]" _ "[]", OF _ refl] by simp

end
