(* ===== verification/Proto.thy ===== *)
theory Proto
  imports Compress
begin

text \<open>
  The protocol buffers codec of the Flux gRPC service (\<open>wire/grpc/proto.rs\<close>): writing and
  reading varints, tags and length-delimited fields over a buffer with a position, and the
  messages of the service. Positions are \<open>usize\<close> values with the release profile's
  arithmetic, so an end position that overflows wraps around; slicing a buffer with an end
  before its start panics, which is a value of the error type.
\<close>

section \<open>Wire types\<close>

datatype wire_type = Varint | Len | Fixed64 | Fixed32 | StartGroup | EndGroup

datatype proto_error = TruncatedVarint | VarintTooLong | LengthExceedsBuffer | UnsupportedWireType u64w
  | TruncatedFixed64 | TruncatedFixed32 | GroupsUnsupported | SlicePanic

definition wire_type_from_u64 :: "u64w \<Rightarrow> proto_error + wire_type" where
  "wire_type_from_u64 v =
     (if v = 0 then Inr Varint else if v = 1 then Inr Fixed64 else if v = 2 then Inr Len
      else if v = 3 then Inr StartGroup else if v = 4 then Inr EndGroup else if v = 5 then Inr Fixed32
      else Inl (UnsupportedWireType v))"

section \<open>Writing\<close>

function proto_write_varint :: "u64w \<Rightarrow> bytes" where
  "proto_write_varint v =
     (let byte = ucast (v AND 127) :: byte; v' = drop_bit 7 v;
          byte' = (if v' \<noteq> 0 then byte OR 128 else byte)
      in if v' = 0 then [byte'] else byte' # proto_write_varint v')"
  by pat_completeness auto
termination
  by (relation "measure unat") (use unat_drop_bit7_less in auto)

declare proto_write_varint.simps [simp del]

definition write_tag :: "u32w \<Rightarrow> u64w \<Rightarrow> bytes" where
  "write_tag field wire = proto_write_varint (push_bit 3 (ucast field) OR wire)"

definition write_varint_field :: "u32w \<Rightarrow> u64w \<Rightarrow> bytes" where
  "write_varint_field field v = (if v = 0 then [] else write_tag field 0 @ proto_write_varint v)"

definition write_len_field :: "u32w \<Rightarrow> bytes \<Rightarrow> bytes" where
  "write_len_field field bs =
     (if bs = [] then [] else write_tag field 2 @ proto_write_varint (word_of_nat (length bs)) @ bs)"

section \<open>Reading\<close>

record reader =
  rd_buf :: bytes
  rd_pos :: nat

definition reader_new :: "bytes \<Rightarrow> reader" where
  "reader_new buf = \<lparr>rd_buf = buf, rd_pos = 0\<rparr>"

definition reader_eof :: "reader \<Rightarrow> bool" where
  "reader_eof r \<longleftrightarrow> length (rd_buf r) \<le> rd_pos r"

function read_varint_from :: "u64w \<Rightarrow> nat \<Rightarrow> reader \<Rightarrow> proto_error + (u64w \<times> reader)" where
  "read_varint_from acc shift r =
     (if \<not> rd_pos r < length (rd_buf r) then Inl TruncatedVarint
      else
        let byte = rd_buf r ! rd_pos r; r' = r\<lparr>rd_pos := rd_pos r + 1\<rparr> in
        if \<not> shift < 64 then Inl VarintTooLong
        else
          let acc' = acc OR push_bit shift (ucast (byte AND 127)) in
          if byte AND 128 = 0 then Inr (acc', r') else read_varint_from acc' (shift + 7) r')"
  by pat_completeness auto
termination
  by (relation "measure (\<lambda>(acc, shift, r). length (rd_buf r) - rd_pos r)") auto

declare read_varint_from.simps [simp del]

definition proto_read_varint :: "reader \<Rightarrow> proto_error + (u64w \<times> reader)" where
  "proto_read_varint r = read_varint_from 0 0 r"

definition read_len_slice :: "reader \<Rightarrow> proto_error + (bytes \<times> reader)" where
  "read_len_slice r =
     attempt (proto_read_varint r) (\<lambda>(v, r1).
       let end_pos = (rd_pos r1 + unat v) mod 2 ^ 64 in
       if \<not> end_pos \<le> length (rd_buf r1) then Inl LengthExceedsBuffer
       else if end_pos < rd_pos r1 then Inl SlicePanic
       else Inr (take (end_pos - rd_pos r1) (drop (rd_pos r1) (rd_buf r1)), r1\<lparr>rd_pos := end_pos\<rparr>))"

definition next_tag :: "reader \<Rightarrow> proto_error + ((u32w \<times> wire_type) option \<times> reader)" where
  "next_tag r =
     (if reader_eof r then Inr (None, r)
      else attempt (proto_read_varint r) (\<lambda>(key, r1).
        attempt (wire_type_from_u64 (key AND 7)) (\<lambda>wire. Inr (Some (ucast (drop_bit 3 key), wire), r1))))"

definition proto_skip :: "wire_type \<Rightarrow> reader \<Rightarrow> proto_error + reader" where
  "proto_skip wire r =
     (case wire of
        Varint \<Rightarrow> attempt (proto_read_varint r) (\<lambda>(_, r1). Inr r1)
      | Len \<Rightarrow> attempt (read_len_slice r) (\<lambda>(_, r1). Inr r1)
      | Fixed64 \<Rightarrow> if \<not> rd_pos r + 8 \<le> length (rd_buf r) then Inl TruncatedFixed64 else Inr (r\<lparr>rd_pos := rd_pos r + 8\<rparr>)
      | Fixed32 \<Rightarrow> if \<not> rd_pos r + 4 \<le> length (rd_buf r) then Inl TruncatedFixed32 else Inr (r\<lparr>rd_pos := rd_pos r + 4\<rparr>)
      | _ \<Rightarrow> Inl GroupsUnsupported)"

section \<open>The decoding loop\<close>

text \<open>
  Each message's \<open>while let\<close> loop differs only in the match on the field number and wire
  type: what it does with a value it knows. Every other field is skipped.
\<close>

datatype 'm field_rule = OnVarint "u64w \<Rightarrow> 'm \<Rightarrow> 'm" | OnLen "bytes \<Rightarrow> 'm \<Rightarrow> 'm"

type_synonym 'm field_rules = "u32w \<Rightarrow> wire_type \<Rightarrow> 'm field_rule option"

definition decode_value :: "'m field_rules \<Rightarrow> u32w \<Rightarrow> wire_type \<Rightarrow> reader \<Rightarrow> 'm \<Rightarrow> proto_error + ('m \<times> reader)" where
  "decode_value rules field wire r msg =
     (case rules field wire of
        Some (OnVarint f) \<Rightarrow> attempt (proto_read_varint r) (\<lambda>(v, r1). Inr (f v msg, r1))
      | Some (OnLen f) \<Rightarrow> attempt (read_len_slice r) (\<lambda>(s, r1). Inr (f s msg, r1))
      | None \<Rightarrow> attempt (proto_skip wire r) (\<lambda>r1. Inr (msg, r1)))"

text \<open>Reading never goes back, and a tag takes at least one byte.\<close>

lemma read_varint_from_pos:
  "read_varint_from acc shift r = Inr (v, r') \<Longrightarrow>
    rd_buf r' = rd_buf r \<and> rd_pos r < rd_pos r' \<and> rd_pos r' \<le> length (rd_buf r)"
proof (induction acc shift r rule: read_varint_from.induct)
  case (1 acc shift r)
  show ?case
  proof (cases "rd_pos r < length (rd_buf r) \<and> shift < 64 \<and> rd_buf r ! rd_pos r AND 128 \<noteq> 0")
    case True
    with 1(2) have "read_varint_from (acc OR push_bit shift (ucast (rd_buf r ! rd_pos r AND 127))) (shift + 7)
        (r\<lparr>rd_pos := rd_pos r + 1\<rparr>) = Inr (v, r')"
      by (subst (asm) read_varint_from.simps) (simp add: Let_def)
    from 1(1) [OF _ refl refl _ refl _ this] True show ?thesis by simp
  next
    case False
    with 1(2) show ?thesis by (subst (asm) read_varint_from.simps) (auto simp: Let_def split: if_splits)
  qed
qed

lemmas read_varint_pos = read_varint_from_pos [of 0 0, folded proto_read_varint_def]

lemma read_len_slice_pos:
  "read_len_slice r = Inr (s, r') \<Longrightarrow> rd_buf r' = rd_buf r \<and> rd_pos r \<le> rd_pos r' \<and> rd_pos r' \<le> length (rd_buf r)"
  by (auto simp: read_len_slice_def attempt_Inr_iff Let_def dest!: read_varint_pos split: if_splits)

lemma proto_skip_pos:
  "proto_skip wire r = Inr r' \<Longrightarrow> rd_buf r' = rd_buf r \<and> rd_pos r \<le> rd_pos r'"
  by (auto simp: proto_skip_def attempt_Inr_iff dest!: read_varint_pos read_len_slice_pos
      split: wire_type.splits if_splits)

lemma decode_value_pos:
  "decode_value rules field wire r msg = Inr (msg', r') \<Longrightarrow> rd_buf r' = rd_buf r \<and> rd_pos r \<le> rd_pos r'"
  by (auto simp: decode_value_def attempt_Inr_iff dest!: read_varint_pos read_len_slice_pos proto_skip_pos
      split: option.splits field_rule.splits)

lemma next_tag_pos:
  "next_tag r = Inr (Some t, r') \<Longrightarrow> rd_buf r' = rd_buf r \<and> rd_pos r < rd_pos r' \<and> rd_pos r < length (rd_buf r)"
  by (auto simp: next_tag_def reader_eof_def attempt_Inr_iff dest!: read_varint_pos split: if_splits)

function decode_fields :: "'m field_rules \<Rightarrow> reader \<Rightarrow> 'm \<Rightarrow> proto_error + 'm" where
  "decode_fields rules r msg =
     (case next_tag r of
        Inl e \<Rightarrow> Inl e
      | Inr (None, _) \<Rightarrow> Inr msg
      | Inr (Some (field, wire), r1) \<Rightarrow>
          (case decode_value rules field wire r1 msg of
             Inl e \<Rightarrow> Inl e
           | Inr (msg', r2) \<Rightarrow> decode_fields rules r2 msg'))"
  by pat_completeness auto
termination
  by (relation "measure (\<lambda>(rules, r, msg). length (rd_buf r) - rd_pos r)")
    (auto dest!: next_tag_pos decode_value_pos)

declare decode_fields.simps [simp del]

section \<open>Messages\<close>

record subscribe_request =
  sr_topic :: bytes

definition subscribe_rules :: "subscribe_request field_rules" where
  "subscribe_rules field wire =
     (if field = 1 \<and> wire = Len then Some (OnLen (\<lambda>s m. m\<lparr>sr_topic := from_utf8_lossy s\<rparr>)) else None)"

definition subscribe_decode :: "bytes \<Rightarrow> proto_error + subscribe_request" where
  "subscribe_decode buf = decode_fields subscribe_rules (reader_new buf) \<lparr>sr_topic = []\<rparr>"

record flux_record =
  fr_offset :: u64w
  fr_key :: bytes
  fr_value :: bytes
  fr_timestamp_ms :: u64w
  fr_topic :: bytes

definition record_encode :: "flux_record \<Rightarrow> bytes" where
  "record_encode rec = write_varint_field 1 (fr_offset rec) @ write_len_field 2 (fr_key rec)
     @ write_len_field 3 (fr_value rec) @ write_varint_field 4 (fr_timestamp_ms rec) @ write_len_field 5 (fr_topic rec)"

record publish_request =
  pr_topic :: bytes
  pr_key :: bytes
  pr_value :: bytes
  pr_has_partition :: bool
  pr_partition :: u32w

definition publish_rules :: "publish_request field_rules" where
  "publish_rules field wire =
     (if field = 1 \<and> wire = Len then Some (OnLen (\<lambda>s m. m\<lparr>pr_topic := from_utf8_lossy s\<rparr>))
      else if field = 2 \<and> wire = Len then Some (OnLen (\<lambda>s m. m\<lparr>pr_key := s\<rparr>))
      else if field = 3 \<and> wire = Len then Some (OnLen (\<lambda>s m. m\<lparr>pr_value := s\<rparr>))
      else if field = 4 \<and> wire = Varint then Some (OnVarint (\<lambda>v m. m\<lparr>pr_has_partition := v \<noteq> 0\<rparr>))
      else if field = 5 \<and> wire = Varint then Some (OnVarint (\<lambda>v m. m\<lparr>pr_partition := ucast v\<rparr>))
      else None)"

definition publish_decode :: "bytes \<Rightarrow> proto_error + publish_request" where
  "publish_decode buf = decode_fields publish_rules (reader_new buf)
     \<lparr>pr_topic = [], pr_key = [], pr_value = [], pr_has_partition = False, pr_partition = 0\<rparr>"

record publish_response =
  prs_partition :: u32w
  prs_offset :: u64w

definition publish_response_encode :: "publish_response \<Rightarrow> bytes" where
  "publish_response_encode m = write_varint_field 1 (ucast (prs_partition m)) @ write_varint_field 2 (prs_offset m)"

record poll_request =
  pq_topic :: bytes
  pq_partition :: u32w
  pq_group :: bytes
  pq_max :: u32w

definition poll_rules :: "poll_request field_rules" where
  "poll_rules field wire =
     (if field = 1 \<and> wire = Len then Some (OnLen (\<lambda>s m. m\<lparr>pq_topic := from_utf8_lossy s\<rparr>))
      else if field = 2 \<and> wire = Varint then Some (OnVarint (\<lambda>v m. m\<lparr>pq_partition := ucast v\<rparr>))
      else if field = 3 \<and> wire = Len then Some (OnLen (\<lambda>s m. m\<lparr>pq_group := from_utf8_lossy s\<rparr>))
      else if field = 4 \<and> wire = Varint then Some (OnVarint (\<lambda>v m. m\<lparr>pq_max := ucast v\<rparr>))
      else None)"

definition poll_decode :: "bytes \<Rightarrow> proto_error + poll_request" where
  "poll_decode buf = decode_fields poll_rules (reader_new buf)
     \<lparr>pq_topic = [], pq_partition = 0, pq_group = [], pq_max = 0\<rparr>"

definition poll_response_encode :: "flux_record list \<Rightarrow> bytes" where
  "poll_response_encode records = concat (map (\<lambda>rec. write_len_field 1 (record_encode rec)) records)"

definition create_topic_rules :: "bytes field_rules" where
  "create_topic_rules field wire =
     (if field = 1 \<and> wire = Len then Some (OnLen (\<lambda>s m. from_utf8_lossy s)) else None)"

definition create_topic_decode :: "bytes \<Rightarrow> proto_error + bytes" where
  "create_topic_decode buf = decode_fields create_topic_rules (reader_new buf) []"

section \<open>Reading back what is written\<close>

lemma proto_write_varint_eq: "proto_write_varint v = write_varint v"
proof (induction v rule: write_varint.induct)
  case (1 v)
  then show ?case by (subst write_varint.simps, subst proto_write_varint.simps) (simp add: Let_def)
qed

text \<open>A reader between what was read and what is left.\<close>

definition reader_at :: "bytes \<Rightarrow> bytes \<Rightarrow> reader" where
  "reader_at done left = \<lparr>rd_buf = done @ left, rd_pos = length done\<rparr>"

lemma reader_at_new: "reader_new buf = reader_at [] buf"
  by (simp add: reader_new_def reader_at_def)

lemma read_varint_step:
  "s < 64 \<Longrightarrow> read_varint_from acc s (reader_at dn (c # bs)) =
    (let acc' = acc OR push_bit s (ucast (take_bit 7 c)) in
     if bit c 7 then read_varint_from acc' (s + 7) (reader_at (dn @ [c]) bs) else Inr (acc', reader_at (dn @ [c]) bs))"
  using and_128_eq_0 [of c]
  by (subst read_varint_from.simps) (simp add: reader_at_def Let_def)

lemma read_varint_from_written:
  assumes "unat v < 2 ^ (64 - s)" "s < 64"
  shows "read_varint_from acc s (reader_at dn (write_varint v @ rest))
    = Inr (acc OR push_bit s v, reader_at (dn @ write_varint v) rest)"
  using assms
proof (induction v arbitrary: acc s dn rule: write_varint.induct)
  case (1 v)
  show ?case
  proof (cases "drop_bit 7 v = 0")
    case True
    then have "take_bit 7 v = v" by (metis add.left_neutral bits_ident push_bit_of_0)
    moreover have "\<not> bit (ucast (take_bit 7 v) :: byte) 7" by (simp add: bit_simps)
    ultimately show ?thesis
      using True 1(3) ucast_take7 [of v] by (simp add: write_varint.simps [of v] read_varint_step)
  next
    case False
    note bd = drop7_bound [OF 1(2,3) False]
    have "bit ((ucast (take_bit 7 v) :: byte) OR 128) 7" by (simp add: bit_simps bit_128)
    then show ?thesis
      using False 1(3) 1(1) [OF refl refl False bd [THEN conjunct2] bd [THEN conjunct1]] varint_split [of s v]
      by (simp add: write_varint.simps [of v] read_varint_step ucast_take7 or.assoc)
  qed
qed

lemma read_varint_written:
  "proto_read_varint (reader_at dn (proto_write_varint v @ rest)) = Inr (v, reader_at (dn @ proto_write_varint v) rest)"
proof -
  have "unat v < 2 ^ (64 - 0)" using unsigned_less [of v] by simp
  from read_varint_from_written [OF this] show ?thesis by (simp add: proto_read_varint_def proto_write_varint_eq)
qed

lemma read_len_slice_written:
  assumes "length (dn @ proto_write_varint (word_of_nat (length bs)) @ bs) < 2 ^ 64"
  shows "read_len_slice (reader_at dn (proto_write_varint (word_of_nat (length bs)) @ bs @ rest))
    = Inr (bs, reader_at (dn @ proto_write_varint (word_of_nat (length bs)) @ bs) rest)"
proof -
  have "unat (word_of_nat (length bs) :: u64w) = length bs"
    using assms by (simp add: unat_of_nat take_bit_nat_eq_self)
  with assms show ?thesis
    by (simp add: read_len_slice_def read_varint_written) (simp add: reader_at_def Let_def)
qed

lemma tag_fields:
  assumes "w < (8 :: u64w)"
  shows "(push_bit 3 (ucast (f :: u32w)) OR w) AND 7 = w" "ucast (drop_bit 3 (push_bit 3 (ucast f) OR w)) = f"
proof -
  have hi: "\<not> bit w n" if "3 \<le> n" for n
  proof -
    have "w = take_bit 3 w" using assms by (simp add: take_bit_eq_mod word_unat_eq_iff unat_mod word_less_nat_alt)
    then show ?thesis using that by (metis bit_take_bit_iff linorder_not_less)
  qed
  have "(push_bit 3 (ucast f) OR w) AND 7 = take_bit 3 (push_bit 3 (ucast f) OR w)"
    by (simp add: take_bit_eq_mask mask_numeral and.commute)
  also have "\<dots> = w" by (rule bit_word_eqI) (use hi in \<open>auto simp: bit_simps\<close>)
  finally show "(push_bit 3 (ucast f) OR w) AND 7 = w" .
  show "ucast (drop_bit 3 (push_bit 3 (ucast f) OR w)) = f"
    by (rule bit_word_eqI) (use hi in \<open>auto simp: bit_simps\<close>)
qed

lemma next_tag_written:
  assumes "w < 8" and "wire_type_from_u64 w = Inr wire"
  shows "next_tag (reader_at dn (write_tag f w @ rest)) = Inr (Some (f, wire), reader_at (dn @ write_tag f w) rest)"
proof -
  have "\<not> reader_eof (reader_at dn (write_tag f w @ rest))"
    by (subst write_tag_def, subst proto_write_varint.simps) (simp add: reader_eof_def reader_at_def Let_def)
  then show ?thesis
    using read_varint_written [of dn "push_bit 3 (ucast f) OR w" rest, folded write_tag_def] tag_fields [OF assms(1), of f] assms(2)
    by (simp add: next_tag_def)
qed

section \<open>Messages as lists of fields\<close>

datatype wire_field = WVarint u32w u64w | WLen u32w bytes | WFixed64 u32w bytes | WFixed32 u32w bytes

fun field_bytes :: "wire_field \<Rightarrow> bytes" where
  "field_bytes (WVarint f v) = write_tag f 0 @ proto_write_varint v"
| "field_bytes (WLen f bs) = write_tag f 2 @ proto_write_varint (word_of_nat (length bs)) @ bs"
| "field_bytes (WFixed64 f bs) = write_tag f 1 @ bs"
| "field_bytes (WFixed32 f bs) = write_tag f 5 @ bs"

fun field_ok :: "wire_field \<Rightarrow> bool" where
  "field_ok (WFixed64 f bs) = (length bs = 8)"
| "field_ok (WFixed32 f bs) = (length bs = 4)"
| "field_ok _ = True"

definition wire_bytes :: "wire_field list \<Rightarrow> bytes" where
  "wire_bytes fs = concat (map field_bytes fs)"

text \<open>What one field does to a message: its rule, if it has one for its wire type.\<close>

fun apply_field :: "'m field_rules \<Rightarrow> 'm \<Rightarrow> wire_field \<Rightarrow> 'm" where
  "apply_field rules m (WVarint f v) = (case rules f Varint of Some (OnVarint g) \<Rightarrow> g v m | _ \<Rightarrow> m)"
| "apply_field rules m (WLen f bs) = (case rules f Len of Some (OnLen g) \<Rightarrow> g bs m | _ \<Rightarrow> m)"
| "apply_field rules m _ = m"

definition rules_ok :: "'m field_rules \<Rightarrow> bool" where
  "rules_ok rules \<longleftrightarrow> (\<forall>f w. (\<forall>g. rules f w = Some (OnVarint g) \<longrightarrow> w = Varint)
     \<and> (\<forall>g. rules f w = Some (OnLen g) \<longrightarrow> w = Len))"

lemma message_rules_ok:
  "rules_ok subscribe_rules" "rules_ok publish_rules" "rules_ok poll_rules" "rules_ok create_topic_rules"
  by (auto simp: rules_ok_def subscribe_rules_def publish_rules_def poll_rules_def create_topic_rules_def)

lemma rules_okD:
  assumes "rules_ok rules"
  shows "rules f Varint \<noteq> Some (OnLen g)" "rules f Len \<noteq> Some (OnVarint h)"
    "rules f Fixed64 = None" "rules f Fixed32 = None"
proof -
  have d: "w = Varint" if "rules f w = Some (OnVarint g)" for w g using assms that by (auto simp: rules_ok_def)
  have l: "w = Len" if "rules f w = Some (OnLen g)" for w g using assms that by (auto simp: rules_ok_def)
  show "rules f Varint \<noteq> Some (OnLen g)" "rules f Len \<noteq> Some (OnVarint h)" using l d by blast+
  have none: "rules f w = None" if "w \<noteq> Varint" "w \<noteq> Len" for w
    using that d [of w] l [of w] by (cases "rules f w") (auto, metis field_rule.exhaust)
  show "rules f Fixed64 = None" "rules f Fixed32 = None" by (rule none; simp)+
qed

lemma skip_fixed:
  "length bs = 8 \<Longrightarrow> proto_skip Fixed64 (reader_at dn (bs @ rest)) = Inr (reader_at (dn @ bs) rest)"
  "length bs = 4 \<Longrightarrow> proto_skip Fixed32 (reader_at dn (bs @ rest)) = Inr (reader_at (dn @ bs) rest)"
  by (simp_all add: proto_skip_def reader_at_def)

lemma decode_value_written:
  assumes ok: "rules_ok rules"
  shows "decode_value rules f Varint (reader_at dn (proto_write_varint v @ rest)) m
      = Inr (apply_field rules m (WVarint f v), reader_at (dn @ proto_write_varint v) rest)"
    "length (dn @ proto_write_varint (word_of_nat (length bs)) @ bs) < 2 ^ 64 \<Longrightarrow>
     decode_value rules f Len (reader_at dn (proto_write_varint (word_of_nat (length bs)) @ bs @ rest)) m
      = Inr (apply_field rules m (WLen f bs), reader_at (dn @ proto_write_varint (word_of_nat (length bs)) @ bs) rest)"
  using rules_okD(1,2) [OF ok, of f]
  by (auto simp: decode_value_def read_varint_written read_len_slice_written proto_skip_def
      split: option.splits field_rule.splits)

lemma decode_fields_step:
  assumes ok: "rules_ok rules" and f: "field_ok x" and len: "length (dn @ field_bytes x) < 2 ^ 64"
  shows "decode_fields rules (reader_at dn (field_bytes x @ rest)) m
    = decode_fields rules (reader_at (dn @ field_bytes x) rest) (apply_field rules m x)"
proof -
  note tag = next_tag_written [where dn = dn]
  have wt: "wire_type_from_u64 0 = Inr Varint" "wire_type_from_u64 1 = Inr Fixed64" "wire_type_from_u64 2 = Inr Len"
    "wire_type_from_u64 5 = Inr Fixed32"
    by (simp_all add: wire_type_from_u64_def)
  have lt: "(0 :: u64w) < 8" "(1 :: u64w) < 8" "(2 :: u64w) < 8" "(5 :: u64w) < 8" by simp_all
  show ?thesis
  proof (cases x)
    case (WVarint g v)
    then show ?thesis
      using decode_value_written(1) [OF ok, of g "dn @ write_tag g 0" v rest m] tag [OF lt(1) wt(1), of g]
      by (subst decode_fields.simps) simp
  next
    case (WLen g bs)
    with len show ?thesis
      using decode_value_written(2) [OF ok, of "dn @ write_tag g 2" bs g rest m] tag [OF lt(3) wt(3), of g]
      by (subst decode_fields.simps) simp
  next
    case (WFixed64 g bs)
    with f show ?thesis
      using tag [OF lt(2) wt(2), of g] skip_fixed(1) [of bs "dn @ write_tag g 1" rest] rules_okD(3) [OF ok, of g]
      by (subst decode_fields.simps) (simp add: decode_value_def)
  next
    case (WFixed32 g bs)
    with f show ?thesis
      using tag [OF lt(4) wt(4), of g] skip_fixed(2) [of bs "dn @ write_tag g 5" rest] rules_okD(4) [OF ok, of g]
      by (subst decode_fields.simps) (simp add: decode_value_def)
  qed
qed

lemma decode_fields_all:
  assumes "rules_ok rules" and "list_all field_ok fs" and "length (dn @ wire_bytes fs) < 2 ^ 64"
  shows "decode_fields rules (reader_at dn (wire_bytes fs)) m = Inr (foldl (apply_field rules) m fs)"
  using assms(2,3)
proof (induction fs arbitrary: dn m)
  case Nil
  then show ?case
    by (subst decode_fields.simps) (simp add: wire_bytes_def next_tag_def reader_eof_def reader_at_def)
next
  case (Cons x fs)
  have wb: "wire_bytes (x # fs) = field_bytes x @ wire_bytes fs" by (simp add: wire_bytes_def)
  have len: "length (dn @ field_bytes x) < 2 ^ 64" using Cons.prems(2) by (simp add: wb)
  show ?case
    unfolding wb decode_fields_step [OF assms(1) _ len] using Cons
    by (simp add: decode_fields_step [OF assms(1) _ len] wb)
qed

section \<open>What a decoded message holds\<close>

text \<open>The last value of a field in a message, the default when there is none.\<close>

definition last_varint :: "u32w \<Rightarrow> wire_field list \<Rightarrow> u64w" where
  "last_varint n fs = foldl (\<lambda>acc x. case x of WVarint f v \<Rightarrow> if f = n then v else acc | _ \<Rightarrow> acc) 0 fs"

definition last_len :: "u32w \<Rightarrow> wire_field list \<Rightarrow> bytes" where
  "last_len n fs = foldl (\<lambda>acc x. case x of WLen f bs \<Rightarrow> if f = n then bs else acc | _ \<Rightarrow> acc) [] fs"

lemma last_snoc [simp]:
  "last_varint n [] = 0" "last_len n [] = []"
  "last_varint n (fs @ [x]) = (case x of WVarint f v \<Rightarrow> if f = n then v else last_varint n fs | _ \<Rightarrow> last_varint n fs)"
  "last_len n (fs @ [x]) = (case x of WLen f bs \<Rightarrow> if f = n then bs else last_len n fs | _ \<Rightarrow> last_len n fs)"
  by (simp_all add: last_varint_def last_len_def split: wire_field.splits)

lemma from_utf8_lossy_Nil: "from_utf8_lossy [] = []"
  by (simp add: from_utf8_lossy_valid)

lemma publish_fold:
  "foldl (apply_field publish_rules) \<lparr>pr_topic = [], pr_key = [], pr_value = [], pr_has_partition = False, pr_partition = 0\<rparr> fs
    = \<lparr>pr_topic = from_utf8_lossy (last_len 1 fs), pr_key = last_len 2 fs, pr_value = last_len 3 fs,
       pr_has_partition = (last_varint 4 fs \<noteq> 0), pr_partition = ucast (last_varint 5 fs)\<rparr>"
  by (induction fs rule: rev_induct)
    (auto simp: from_utf8_lossy_Nil publish_rules_def split: wire_field.splits)

lemma poll_fold:
  "foldl (apply_field poll_rules) \<lparr>pq_topic = [], pq_partition = 0, pq_group = [], pq_max = 0\<rparr> fs
    = \<lparr>pq_topic = from_utf8_lossy (last_len 1 fs), pq_partition = ucast (last_varint 2 fs),
       pq_group = from_utf8_lossy (last_len 3 fs), pq_max = ucast (last_varint 4 fs)\<rparr>"
  by (induction fs rule: rev_induct)
    (auto simp: from_utf8_lossy_Nil poll_rules_def split: wire_field.splits)

lemma subscribe_fold:
  "foldl (apply_field subscribe_rules) \<lparr>sr_topic = []\<rparr> fs = \<lparr>sr_topic = from_utf8_lossy (last_len 1 fs)\<rparr>"
  by (induction fs rule: rev_induct)
    (auto simp: from_utf8_lossy_Nil subscribe_rules_def split: wire_field.splits)

lemma create_topic_fold:
  "foldl (apply_field create_topic_rules) [] fs = from_utf8_lossy (last_len 1 fs)"
  by (induction fs rule: rev_induct)
    (auto simp: from_utf8_lossy_Nil create_topic_rules_def split: wire_field.splits)

lemmas decode_whole = decode_fields_all [where dn = "[]", simplified, folded reader_at_new]

text \<open>C35: Every request of the gRPC service decodes a message made of any fields, in any order,
  repeated or unknown, of any wire type but groups: each member of the request is the last
  value sent for its field, read as text, number or flag, or the proto3 default when there is
  none, and no other field has any effect.\<close>

theorem requests_decode_last_values:
  assumes "list_all field_ok fs" and "length (wire_bytes fs) < 2 ^ 64"
  shows "publish_decode (wire_bytes fs)
      = Inr \<lparr>pr_topic = from_utf8_lossy (last_len 1 fs), pr_key = last_len 2 fs, pr_value = last_len 3 fs,
             pr_has_partition = (last_varint 4 fs \<noteq> 0), pr_partition = ucast (last_varint 5 fs)\<rparr>
    \<and> poll_decode (wire_bytes fs)
      = Inr \<lparr>pq_topic = from_utf8_lossy (last_len 1 fs), pq_partition = ucast (last_varint 2 fs),
             pq_group = from_utf8_lossy (last_len 3 fs), pq_max = ucast (last_varint 4 fs)\<rparr>
    \<and> subscribe_decode (wire_bytes fs) = Inr \<lparr>sr_topic = from_utf8_lossy (last_len 1 fs)\<rparr>
    \<and> create_topic_decode (wire_bytes fs) = Inr (from_utf8_lossy (last_len 1 fs))"
  using assms message_rules_ok
  by (simp add: publish_decode_def poll_decode_def subscribe_decode_def create_topic_decode_def
      decode_whole publish_fold poll_fold subscribe_fold create_topic_fold)

theorem requests_decode_last_values_witness:
  "publish_decode (wire_bytes [WLen 1 [65], WVarint 9 7, WFixed32 2 [1, 2, 3, 4], WVarint 4 1, WLen 1 [66], WVarint 5 3])
    = Inr \<lparr>pr_topic = [66], pr_key = [], pr_value = [], pr_has_partition = True, pr_partition = 3\<rparr>"
proof -
  let ?fs = "[WLen 1 [65], WVarint 9 7, WFixed32 2 [1, 2, 3, 4], WVarint 4 1, WLen 1 [66], WVarint 5 3]"
  have "length (wire_bytes ?fs) < 2 ^ 64"
    by (simp add: wire_bytes_def write_tag_def proto_write_varint.simps)
  moreover have "valid_utf8 [66 :: byte]" by code_simp
  ultimately show ?thesis
    using requests_decode_last_values [of ?fs]
    by (simp add: from_utf8_lossy_valid) (simp add: last_len_def last_varint_def from_utf8_lossy_valid)
qed

section \<open>What a client reads back\<close>

text \<open>
  The responses are only encoded here. Their meaning is what a reader of the published
  message definitions decodes: a record field by field, a poll response as the records of its
  field 1. The reference readers use the same loop as the requests.
\<close>

definition record_rules :: "flux_record field_rules" where
  "record_rules field wire =
     (if field = 1 \<and> wire = Varint then Some (OnVarint (\<lambda>v m. m\<lparr>fr_offset := v\<rparr>))
      else if field = 2 \<and> wire = Len then Some (OnLen (\<lambda>s m. m\<lparr>fr_key := s\<rparr>))
      else if field = 3 \<and> wire = Len then Some (OnLen (\<lambda>s m. m\<lparr>fr_value := s\<rparr>))
      else if field = 4 \<and> wire = Varint then Some (OnVarint (\<lambda>v m. m\<lparr>fr_timestamp_ms := v\<rparr>))
      else if field = 5 \<and> wire = Len then Some (OnLen (\<lambda>s m. m\<lparr>fr_topic := from_utf8_lossy s\<rparr>))
      else None)"

definition default_record :: flux_record where
  "default_record = \<lparr>fr_offset = 0, fr_key = [], fr_value = [], fr_timestamp_ms = 0, fr_topic = []\<rparr>"

definition record_decode :: "bytes \<Rightarrow> proto_error + flux_record" where
  "record_decode buf = decode_fields record_rules (reader_new buf) default_record"

definition embedded_rules :: "bytes list field_rules" where
  "embedded_rules field wire =
     (if field = 1 \<and> wire = Len then Some (OnLen (\<lambda>s acc. acc @ [s])) else None)"

fun decode_each :: "bytes list \<Rightarrow> proto_error + flux_record list" where
  "decode_each [] = Inr []"
| "decode_each (s # ss) = attempt (record_decode s) (\<lambda>rec. attempt (decode_each ss) (\<lambda>recs. Inr (rec # recs)))"

definition poll_response_decode :: "bytes \<Rightarrow> proto_error + flux_record list" where
  "poll_response_decode buf =
     attempt (decode_fields embedded_rules (reader_new buf) []) decode_each"

definition publish_response_rules :: "publish_response field_rules" where
  "publish_response_rules field wire =
     (if field = 1 \<and> wire = Varint then Some (OnVarint (\<lambda>v m. m\<lparr>prs_partition := ucast v\<rparr>))
      else if field = 2 \<and> wire = Varint then Some (OnVarint (\<lambda>v m. m\<lparr>prs_offset := v\<rparr>))
      else None)"

definition publish_response_decode :: "bytes \<Rightarrow> proto_error + publish_response" where
  "publish_response_decode buf =
     decode_fields publish_response_rules (reader_new buf) \<lparr>prs_partition = 0, prs_offset = 0\<rparr>"

text \<open>What the writers emit, as fields: none for a default value.\<close>

definition opt_varint :: "u32w \<Rightarrow> u64w \<Rightarrow> wire_field list" where
  "opt_varint n v = (if v = 0 then [] else [WVarint n v])"

definition opt_len :: "u32w \<Rightarrow> bytes \<Rightarrow> wire_field list" where
  "opt_len n bs = (if bs = [] then [] else [WLen n bs])"

lemma write_fields:
  "write_varint_field n v = wire_bytes (opt_varint n v)" "write_len_field n bs = wire_bytes (opt_len n bs)"
  "wire_bytes fs @ wire_bytes gs = wire_bytes (fs @ gs)"
  by (simp_all add: write_varint_field_def write_len_field_def opt_varint_def opt_len_def wire_bytes_def)

lemma opt_ok [simp]: "list_all field_ok (opt_varint n v)" "list_all field_ok (opt_len n bs)"
  by (simp_all add: opt_varint_def opt_len_def)

lemma response_rules_ok: "rules_ok record_rules" "rules_ok embedded_rules" "rules_ok publish_response_rules"
  by (auto simp: rules_ok_def record_rules_def embedded_rules_def publish_response_rules_def)

lemma record_decode_encoded:
  assumes "valid_utf8 (fr_topic rec)" and "length (record_encode rec) < 2 ^ 64"
  shows "record_decode (record_encode rec) = Inr rec"
proof -
  let ?fs = "opt_varint 1 (fr_offset rec) @ opt_len 2 (fr_key rec) @ opt_len 3 (fr_value rec)
    @ opt_varint 4 (fr_timestamp_ms rec) @ opt_len 5 (fr_topic rec)"
  have enc: "record_encode rec = wire_bytes ?fs" by (simp add: record_encode_def write_fields)
  have "record_decode (record_encode rec) = Inr (foldl (apply_field record_rules) default_record ?fs)"
    using assms(2) response_rules_ok(1) unfolding enc record_decode_def by (intro decode_whole) simp_all
  also have "foldl (apply_field record_rules) default_record ?fs = rec"
    using assms(1)
    by (cases rec) (simp add: opt_varint_def opt_len_def default_record_def record_rules_def from_utf8_lossy_valid)
  finally show ?thesis .
qed

lemma record_encode_Nil_iff: "record_encode rec = [] \<longleftrightarrow> rec = default_record"
proof -
  have "proto_write_varint v \<noteq> []" for v by (subst proto_write_varint.simps) (simp add: Let_def)
  then have "write_tag n w \<noteq> []" for n w by (simp add: write_tag_def)
  then show ?thesis
    by (cases rec) (auto simp: record_encode_def write_varint_field_def write_len_field_def default_record_def)
qed

lemma poll_response_fields:
  "poll_response_encode recs = wire_bytes (map (WLen 1 \<circ> record_encode) (filter (\<lambda>rec. rec \<noteq> default_record) recs))"
  by (induction recs)
    (simp_all add: poll_response_encode_def write_len_field_def wire_bytes_def record_encode_Nil_iff)

lemma embedded_fold:
  "foldl (apply_field embedded_rules) acc (map (WLen 1 \<circ> f) xs) = acc @ map f xs"
  by (induction xs arbitrary: acc) (simp_all add: embedded_rules_def)

lemma decode_each_encoded:
  assumes "\<forall>rec\<in>set recs. valid_utf8 (fr_topic rec) \<and> length (record_encode rec) < 2 ^ 64"
  shows "decode_each (map record_encode recs) = Inr recs"
  using assms by (induction recs) (simp_all add: record_decode_encoded)

lemma field_length_le: "x \<in> set fs \<Longrightarrow> length (field_bytes x) \<le> length (wire_bytes fs)"
  unfolding wire_bytes_def by (induction fs) auto

lemma varint_length: "unat v < 2 ^ (7 * n) \<Longrightarrow> 0 < n \<Longrightarrow> length (proto_write_varint v) \<le> n"
proof (induction n arbitrary: v)
  case (Suc n)
  show ?case
  proof (cases "drop_bit 7 v = 0")
    case False
    have "unat (drop_bit 7 v) = unat v div 128" by (simp add: drop_bit_eq_div unat_div)
    moreover from this False have "128 \<le> unat v" by (metis div_less linorder_not_less unat_eq_zero)
    moreover have "2 ^ (7 * Suc n) = 128 * (2 :: nat) ^ (7 * n)" by (simp add: power_add)
    ultimately have small: "unat (drop_bit 7 v) < 2 ^ (7 * n)" and n: "0 < n"
      using Suc.prems(1) by (auto simp: less_mult_imp_div_less mult.commute intro: gr0I)
    show ?thesis
      using False Suc.IH [OF small n] by (simp add: proto_write_varint.simps [of v] Let_def)
  qed (simp add: proto_write_varint.simps [of v] Let_def)
qed simp

lemma unat_u64: "unat (v :: u64w) < 2 ^ 64"
  using unsigned_less [of v] by simp

lemma varint_length_10: "length (proto_write_varint v) \<le> 10"
  using varint_length [of v 10] unat_u64 [of v] by simp

lemma u32_widen:
  fixes p :: u32w
  shows "ucast (ucast p :: u64w) = p" "(ucast p :: u64w) = 0 \<longleftrightarrow> p = 0"
proof -
  show wide: "ucast (ucast p :: u64w) = p" for p :: u32w by (rule bit_word_eqI) (auto simp: bit_simps)
  show "(ucast p :: u64w) = 0 \<longleftrightarrow> p = 0" using wide [of p] by (metis unsigned_0)
qed

text \<open>What the service sends back is what the message definitions say: a publish response
  decodes to the partition and offset that were encoded, and a poll response to its records,
  in order and with every member, except that a record all of whose members have their default
  value (offset zero, no key, no value, time zero, no topic) is left out of the response.\<close>

theorem responses_decode_back:
  assumes "\<forall>rec\<in>set recs. valid_utf8 (fr_topic rec)" and "length (poll_response_encode recs) < 2 ^ 64"
  shows "poll_response_decode (poll_response_encode recs) = Inr (filter (\<lambda>rec. rec \<noteq> default_record) recs)
    \<and> publish_response_decode (publish_response_encode m) = Inr m"
proof
  let ?recs = "filter (\<lambda>rec. rec \<noteq> default_record) recs" and ?fs = "map (WLen 1 \<circ> record_encode) (filter (\<lambda>rec. rec \<noteq> default_record) recs)"
  have "length (record_encode rec) < 2 ^ 64" if "rec \<in> set ?recs" for rec
    using field_length_le [of "WLen 1 (record_encode rec)" ?fs] that assms(2)
    by (simp add: poll_response_fields)
  then have each: "decode_each (map record_encode ?recs) = Inr ?recs"
    using assms(1) by (intro decode_each_encoded) simp
  have "decode_fields embedded_rules (reader_new (wire_bytes ?fs)) [] = Inr (map record_encode ?recs)"
    using decode_whole [OF response_rules_ok(2), of ?fs "[]"] assms(2)
    by (simp add: poll_response_fields embedded_fold list_all_iff)
  with each show "poll_response_decode (poll_response_encode recs) = Inr ?recs"
    by (simp add: poll_response_decode_def poll_response_fields)
next
  let ?fs = "opt_varint 1 (ucast (prs_partition m)) @ opt_varint 2 (prs_offset m)"
  have small: "length (wire_bytes ?fs) < 2 ^ 64"
    using varint_length_10 [of "ucast (prs_partition m)"] varint_length_10 [of "prs_offset m"]
      varint_length_10 [of "push_bit 3 (ucast (1 :: u32w)) OR 0"] varint_length_10 [of "push_bit 3 (ucast (2 :: u32w)) OR 0"]
    by (simp add: opt_varint_def wire_bytes_def write_tag_def)
  show "publish_response_decode (publish_response_encode m) = Inr m"
    using decode_whole [OF response_rules_ok(3), of ?fs "\<lparr>prs_partition = 0, prs_offset = 0\<rparr>"] small
    by (cases m) (simp add: publish_response_decode_def publish_response_encode_def write_fields opt_varint_def u32_widen
        publish_response_rules_def)
qed

theorem responses_decode_back_witness:
  "poll_response_decode (poll_response_encode
      [\<lparr>fr_offset = 300, fr_key = [1], fr_value = [], fr_timestamp_ms = 5, fr_topic = [65]\<rparr>, default_record])
    = Inr [\<lparr>fr_offset = 300, fr_key = [1], fr_value = [], fr_timestamp_ms = 5, fr_topic = [65]\<rparr>]
   \<and> publish_response_decode (publish_response_encode \<lparr>prs_partition = 2, prs_offset = 0\<rparr>)
    = Inr \<lparr>prs_partition = 2, prs_offset = 0\<rparr>"
proof -
  let ?r = "\<lparr>fr_offset = 300, fr_key = [1], fr_value = [], fr_timestamp_ms = 5, fr_topic = [65]\<rparr>"
  have "valid_utf8 [65 :: byte]" by code_simp
  moreover have "length (poll_response_encode [?r, default_record]) < 2 ^ 64"
    by (simp add: poll_response_encode_def record_encode_def default_record_def write_varint_field_def write_len_field_def
        write_tag_def proto_write_varint.simps)
  ultimately show ?thesis
    using responses_decode_back [of "[?r, default_record]" "\<lparr>prs_partition = 2, prs_offset = 0\<rparr>"]
    by (simp add: default_record_def)
qed

section \<open>A length that overflows\<close>

text \<open>
  The bounds check of a length-delimited field adds the length to the position before it
  compares. A length close to the largest \<open>u64\<close> wraps the sum to a position before the
  field, which passes the check, and the slice then has its end before its start.
\<close>

lemma read_len_slice_wraps:
  assumes "2 ^ 64 \<le> length (dn @ proto_write_varint v) + unat v" and "length (dn @ proto_write_varint v) < 2 ^ 64"
  shows "read_len_slice (reader_at dn (proto_write_varint v @ rest)) = Inl SlicePanic"
proof -
  let ?p = "length (dn @ proto_write_varint v)"
  have "(?p + unat v) mod 2 ^ 64 = ?p + unat v - 2 ^ 64"
    using assms unat_u64 [of v] by (subst le_mod_geq) simp_all
  moreover have "?p + unat v - 2 ^ 64 < ?p" using assms unat_u64 [of v] by simp
  ultimately show ?thesis
    by (simp add: read_len_slice_def read_varint_written) (simp add: reader_at_def Let_def)
qed

lemma decode_fields_wraps:
  assumes ok: "rules_ok rules" and f: "list_all field_ok fs"
    and wraps: "2 ^ 64 \<le> length (wire_bytes fs @ write_tag n 2 @ proto_write_varint v) + unat v"
    and fits: "length (wire_bytes fs @ write_tag n 2 @ proto_write_varint v) < 2 ^ 64"
  shows "decode_fields rules (reader_new (wire_bytes fs @ write_tag n 2 @ proto_write_varint v @ rest)) m = Inl SlicePanic"
proof -
  have steps: "decode_fields rules (reader_at dn (wire_bytes fs @ tl)) m
      = decode_fields rules (reader_at (dn @ wire_bytes fs) tl) (foldl (apply_field rules) m fs)"
    if "list_all field_ok fs" "length (dn @ wire_bytes fs) < 2 ^ 64" for fs dn tl m
    using that
  proof (induction fs arbitrary: dn m)
    case (Cons x fs)
    have wb: "wire_bytes (x # fs) = field_bytes x @ wire_bytes fs" by (simp add: wire_bytes_def)
    have len: "length (dn @ field_bytes x) < 2 ^ 64" using Cons.prems(2) by (simp add: wb)
    show ?case using Cons decode_fields_step [OF ok _ len, of "wire_bytes fs @ tl" m] by (simp add: wb)
  qed (simp add: wire_bytes_def)
  have tag: "next_tag (reader_at dn (write_tag n 2 @ tl)) = Inr (Some (n, Len), reader_at (dn @ write_tag n 2) tl)" for dn tl
    by (rule next_tag_written) (simp_all add: wire_type_from_u64_def)
  have panic: "decode_value rules n Len (reader_at (wire_bytes fs @ write_tag n 2) (proto_write_varint v @ rest)) m' = Inl SlicePanic" for m'
    using read_len_slice_wraps [of "wire_bytes fs @ write_tag n 2" v rest] wraps fits rules_okD(2) [OF ok, of n]
    by (auto simp: decode_value_def proto_skip_def split: option.splits field_rule.splits)
  show ?thesis
    using steps [OF f, of "[]" "write_tag n 2 @ proto_write_varint v @ rest" m] fits
    by (simp add: reader_at_new) (subst decode_fields.simps, simp add: tag panic)
qed

text \<open>A request of a few bytes can crash the decoder: after any well-formed fields, a
  length-delimited field, known or not, whose length brings the position past the largest
  \<open>u64\<close> passes the bounds check and makes the slice panic, whatever bytes follow. Every
  request message of the service is decoded that way.\<close>

theorem hostile_length_panics:
  assumes "list_all field_ok fs"
    and "length (wire_bytes fs @ write_tag n 2 @ proto_write_varint v) < 2 ^ 64"
    and "2 ^ 64 \<le> length (wire_bytes fs @ write_tag n 2 @ proto_write_varint v) + unat v"
  shows "publish_decode (wire_bytes fs @ write_tag n 2 @ proto_write_varint v @ rest) = Inl SlicePanic
    \<and> poll_decode (wire_bytes fs @ write_tag n 2 @ proto_write_varint v @ rest) = Inl SlicePanic
    \<and> subscribe_decode (wire_bytes fs @ write_tag n 2 @ proto_write_varint v @ rest) = Inl SlicePanic
    \<and> create_topic_decode (wire_bytes fs @ write_tag n 2 @ proto_write_varint v @ rest) = Inl SlicePanic"
  unfolding publish_decode_def poll_decode_def subscribe_decode_def create_topic_decode_def
  by (intro conjI decode_fields_wraps assms message_rules_ok)

theorem hostile_length_panics_witness:
  "publish_decode [10, 255, 255, 255, 255, 255, 255, 255, 255, 255, 1] = Inl SlicePanic"
proof -
  have enc: "write_tag 1 2 = [10]" "proto_write_varint 18446744073709551615 = [255, 255, 255, 255, 255, 255, 255, 255, 255, 1]"
    by (simp_all add: write_tag_def proto_write_varint.simps Let_def)
  have "unat (18446744073709551615 :: u64w) = 2 ^ 64 - 1" by simp
  then show ?thesis
    using hostile_length_panics [of "[]" 1 18446744073709551615 "[]"] by (simp add: enc wire_bytes_def)
qed

end
