(* ===== verification/Telos_Ir.thy ===== *)
theory Telos_Ir
  imports Rust_Std Complex_Main
begin

text \<open>
  The linear constraints the Telos verifier works on (\<open>tpt-telos-ir/src/ir.rs\<close>): sums of
  \<open>coefficient * variable\<close> plus a constant, compared with zero, and what they mean for an
  assignment of numbers to the variables.

  Coefficients and constants are \<open>i64\<close> and the code adds, negates and multiplies them
  without checks. Every operation here takes the function \<open>w\<close> that brings a result back
  into the machine's range: \<open>wrap64\<close> is the release profile, and \<open>exact\<close> is the same
  code over unbounded integers, against which a computation that stays in range is compared.
\<close>

section \<open>Machine arithmetic\<close>

definition wrap64 :: "int \<Rightarrow> int" where
  "wrap64 x = (x + 2 ^ 63) mod 2 ^ 64 - 2 ^ 63"

definition wrap128 :: "int \<Rightarrow> int" where
  "wrap128 x = (x + 2 ^ 127) mod 2 ^ 128 - 2 ^ 127"

abbreviation (input) exact :: "int \<Rightarrow> int" where
  "exact \<equiv> \<lambda>x. x"

lemma wrap64_in_range: "- (2 ^ 63) \<le> x \<Longrightarrow> x < 2 ^ 63 \<Longrightarrow> wrap64 x = x"
  by (simp add: wrap64_def)

lemma wrap128_in_range: "- (2 ^ 127) \<le> x \<Longrightarrow> x < 2 ^ 127 \<Longrightarrow> wrap128 x = x"
  by (simp add: wrap128_def)

section \<open>Vectors\<close>

fun position :: "('a \<Rightarrow> bool) \<Rightarrow> 'a list \<Rightarrow> nat option" where
  "position P [] = None"
| "position P (x # xs) = (if P x then Some 0 else map_option Suc (position P xs))"

definition vec_remove :: "nat \<Rightarrow> 'a list \<Rightarrow> 'a list" where
  "vec_remove i xs = take i xs @ drop (Suc i) xs"

lemma position_Some:
  "position P xs = Some i \<Longrightarrow> i < length xs \<and> P (xs ! i) \<and> (\<forall>j<i. \<not> P (xs ! j))"
proof (induction xs arbitrary: i)
  case (Cons x xs)
  then show ?case
    by (cases i) (auto split: if_splits simp: less_Suc_eq_0_disj)
qed simp

lemma position_None: "position P xs = None \<longleftrightarrow> (\<forall>x\<in>set xs. \<not> P x)"
  by (induction xs) auto

lemma position_split:
  assumes "position P xs = Some i"
  obtains ys zs where "xs = ys @ xs ! i # zs" "length ys = i" "\<forall>y\<in>set ys. \<not> P y" "P (xs ! i)"
proof -
  note i = position_Some [OF assms]
  have "xs = take i xs @ xs ! i # drop (Suc i) xs" using i by (simp add: id_take_nth_drop)
  moreover have "\<forall>y\<in>set (take i xs). \<not> P y" using i by (auto simp: in_set_conv_nth)
  ultimately show ?thesis using that [of "take i xs" "drop (Suc i) xs"] i by simp
qed

lemma vec_remove_split: "length ys = i \<Longrightarrow> vec_remove i (ys @ x # zs) = ys @ zs"
  by (simp add: vec_remove_def)

section \<open>Linear expressions\<close>

type_synonym var = bytes

datatype relation = Le | Lt | Ge | Gt | Eq | Ne

record linear =
  terms :: "(var \<times> int) list"
  const_term :: int

datatype constraint = Constraint (con_lin: linear) (con_rel: relation)

definition lin_var :: "var \<Rightarrow> linear" where
  "lin_var name = \<lparr>terms = [(name, 1)], const_term = 0\<rparr>"

definition constant_only :: "int \<Rightarrow> linear" where
  "constant_only c = \<lparr>terms = [], const_term = c\<rparr>"

definition add_to_terms :: "(int \<Rightarrow> int) \<Rightarrow> (var \<times> int) list \<Rightarrow> var \<times> int \<Rightarrow> (var \<times> int) list" where
  "add_to_terms w ts = (\<lambda>(v, c).
     case position (\<lambda>(vv, _). vv = v) ts of
       Some p \<Rightarrow> ts[p := (v, w (snd (ts ! p) + c))]
     | None \<Rightarrow> ts @ [(v, c)])"

definition lin_add :: "(int \<Rightarrow> int) \<Rightarrow> linear \<Rightarrow> linear \<Rightarrow> linear" where
  "lin_add w l r = \<lparr>terms = filter (\<lambda>(_, c). c \<noteq> 0) (foldl (add_to_terms w) (terms l) (terms r)),
     const_term = w (const_term l + const_term r)\<rparr>"

definition lin_neg :: "(int \<Rightarrow> int) \<Rightarrow> linear \<Rightarrow> linear" where
  "lin_neg w l = \<lparr>terms = map (\<lambda>(v, c). (v, w (- c))) (terms l), const_term = w (- const_term l)\<rparr>"

definition lin_sub :: "(int \<Rightarrow> int) \<Rightarrow> linear \<Rightarrow> linear \<Rightarrow> linear" where
  "lin_sub w l r =
     lin_add w l \<lparr>terms = map (\<lambda>(v, c). (v, w (- c))) (terms r), const_term = w (- const_term r)\<rparr>"

definition lin_scale :: "(int \<Rightarrow> int) \<Rightarrow> int \<Rightarrow> linear \<Rightarrow> linear" where
  "lin_scale w k l = \<lparr>terms = map (\<lambda>(v, c). (v, w (c * k))) (terms l), const_term = w (const_term l * k)\<rparr>"

section \<open>Problems\<close>

record span =
  span_line :: nat
  span_col :: nat

record conclusion =
  cc_description :: bytes
  cc_constraint :: constraint
  cc_is_ensures :: bool
  cc_is_approximation :: bool
  cc_location :: span
  cc_or_group :: "nat option"

record problem =
  vp_func_name :: bytes
  vp_func_span :: span
  vp_premises :: "constraint list"
  vp_conclusions :: "conclusion list"

section \<open>What a constraint means\<close>

definition eval_terms :: "(var \<Rightarrow> 'a::linordered_idom) \<Rightarrow> (var \<times> int) list \<Rightarrow> 'a" where
  "eval_terms \<sigma> ts = (\<Sum>(v, c)\<leftarrow>ts. of_int c * \<sigma> v)"

definition lin_value :: "(var \<Rightarrow> 'a::linordered_idom) \<Rightarrow> linear \<Rightarrow> 'a" where
  "lin_value \<sigma> l = eval_terms \<sigma> (terms l) + of_int (const_term l)"

fun rel_holds :: "relation \<Rightarrow> 'a::linordered_idom \<Rightarrow> bool" where
  "rel_holds Le x = (x \<le> 0)"
| "rel_holds Lt x = (x < 0)"
| "rel_holds Ge x = (0 \<le> x)"
| "rel_holds Gt x = (0 < x)"
| "rel_holds Eq x = (x = 0)"
| "rel_holds Ne x = (x \<noteq> 0)"

definition holds :: "(var \<Rightarrow> 'a::linordered_idom) \<Rightarrow> constraint \<Rightarrow> bool" where
  "holds \<sigma> c = rel_holds (con_rel c) (lin_value \<sigma> (con_lin c))"

definition lin_wf :: "linear \<Rightarrow> bool" where
  "lin_wf l \<longleftrightarrow> distinct (map fst (terms l))"

definition con_wf :: "constraint \<Rightarrow> bool" where
  "con_wf c = lin_wf (con_lin c)"

lemma eval_terms_simps [simp]:
  "eval_terms \<sigma> [] = 0"
  "eval_terms \<sigma> ((v, c) # ts) = of_int c * \<sigma> v + eval_terms \<sigma> ts"
  "eval_terms \<sigma> (ts @ us) = eval_terms \<sigma> ts + eval_terms \<sigma> us"
  by (simp_all add: eval_terms_def)

lemma eval_terms_map_scale:
  "eval_terms \<sigma> (map (\<lambda>(v, c). (v, c * k)) ts) = eval_terms \<sigma> ts * of_int k"
  "eval_terms \<sigma> (map (\<lambda>(v, c). (v, - c)) ts) = - eval_terms \<sigma> ts"
  by (induction ts) (auto simp: algebra_simps)

lemma eval_terms_filter_zero: "eval_terms \<sigma> (filter (\<lambda>(_, c). c \<noteq> 0) ts) = eval_terms \<sigma> ts"
  by (induction ts) auto

lemma eval_terms_cong: "(\<And>v. v \<in> fst ` set ts \<Longrightarrow> \<sigma> v = \<tau> v) \<Longrightarrow> eval_terms \<sigma> ts = eval_terms \<tau> ts"
  by (induction ts) auto

lemma eval_add_to_terms: "eval_terms \<sigma> (add_to_terms exact ts (v, c)) = eval_terms \<sigma> ts + of_int c * \<sigma> v"
proof (cases "position (\<lambda>(vv, _). vv = v) ts")
  case None
  then show ?thesis by (simp add: add_to_terms_def)
next
  case (Some p)
  from position_split [OF Some] obtain ys zs where s: "ts = ys @ ts ! p # zs" "length ys = p"
    and "(\<lambda>(vv, _). vv = v) (ts ! p)"
    by metis
  then obtain d where d: "ts ! p = (v, d)" by (cases "ts ! p") auto
  have "ts[p := (v, d + c)] = (ys @ (v, d) # zs)[p := (v, d + c)]" using s(1) d by metis
  then have "eval_terms \<sigma> (ts[p := (v, d + c)]) = eval_terms \<sigma> (ys @ (v, d + c) # zs)"
    using list_update_length [of ys "(v, d)" zs "(v, d + c)"] s(2) by simp
  moreover have "eval_terms \<sigma> ts = eval_terms \<sigma> (ys @ (v, d) # zs)"
    using s(1) d by metis
  ultimately show ?thesis using Some d by (simp add: add_to_terms_def algebra_simps)
qed

lemma eval_foldl_terms:
  "eval_terms \<sigma> (foldl (add_to_terms exact) ts us) = eval_terms \<sigma> ts + eval_terms \<sigma> us"
proof (induction us arbitrary: ts)
  case (Cons u us)
  then show ?case by (cases u) (simp add: eval_add_to_terms)
qed simp

lemma lin_value_simps [simp]:
  "lin_value \<sigma> (lin_var v) = \<sigma> v"
  "lin_value \<sigma> (constant_only c) = of_int c"
  "lin_value \<sigma> (lin_add exact l r) = lin_value \<sigma> l + lin_value \<sigma> r"
  "lin_value \<sigma> (lin_neg exact l) = - lin_value \<sigma> l"
  "lin_value \<sigma> (lin_sub exact l r) = lin_value \<sigma> l - lin_value \<sigma> r"
  "lin_value \<sigma> (lin_scale exact k l) = lin_value \<sigma> l * of_int k"
  by (simp_all add: lin_value_def lin_var_def constant_only_def lin_add_def lin_neg_def lin_sub_def lin_scale_def
      eval_terms_filter_zero eval_foldl_terms eval_terms_map_scale algebra_simps)

text \<open>No variable occurs twice in what the operations build.\<close>

lemma distinct_add_to_terms: "distinct (map fst ts) \<Longrightarrow> distinct (map fst (add_to_terms w ts u))"
proof (cases u)
  case (Pair v c)
  assume d: "distinct (map fst ts)"
  show ?thesis
  proof (cases "position (\<lambda>(vv, _). vv = v) ts")
    case None
    moreover from this have "v \<notin> fst ` set ts" by (auto simp: position_None)
    ultimately show ?thesis using Pair d by (simp add: add_to_terms_def)
  next
    case (Some p)
    then have "p < length ts" "fst (ts ! p) = v" using position_Some [OF Some] by (auto simp: case_prod_beta)
    then have "map fst (ts[p := (v, w (snd (ts ! p) + c))]) = map fst ts"
      by (simp add: map_update list_update_same_conv)
    then show ?thesis using Some Pair d by (simp add: add_to_terms_def)
  qed
qed

lemma distinct_foldl_terms: "distinct (map fst ts) \<Longrightarrow> distinct (map fst (foldl (add_to_terms w) ts us))"
  by (induction us arbitrary: ts) (simp_all add: distinct_add_to_terms)

lemma distinct_map_fst_filter: "distinct (map fst ts) \<Longrightarrow> distinct (map fst (filter P ts))"
  by (simp add: distinct_map_filter)

lemma lin_wf_simps [simp]:
  "lin_wf (lin_var v)" "lin_wf (constant_only c)" "lin_wf l \<Longrightarrow> lin_wf (lin_add w l r)"
  "lin_wf l \<Longrightarrow> lin_wf (lin_neg w l)" "lin_wf l \<Longrightarrow> lin_wf (lin_sub w l r)" "lin_wf l \<Longrightarrow> lin_wf (lin_scale w k l)"
  by (simp_all add: lin_wf_def lin_var_def constant_only_def lin_add_def lin_neg_def lin_sub_def lin_scale_def
      distinct_foldl_terms distinct_map_fst_filter o_def case_prod_beta)

end
