(* ===== verification/Telos_Ast.thy ===== *)
theory Telos_Ast
  imports Telos_Ir
begin

text \<open>
  The abstract syntax of the Telos language (\<open>tpt-telos-parser/src/ast.rs\<close>): types,
  expressions, patterns, statements, functions, invariants and modules. Names are byte
  strings; of the source locations only those the verifier reports are kept.
\<close>

section \<open>Types\<close>

datatype ty = TNamed bytes | TGeneric bytes "ty list" | TTuple "ty list" | TArray ty nat | TSlice ty

definition ty_name :: "ty \<Rightarrow> bytes" where
  "ty_name t = (case t of TNamed s \<Rightarrow> s | TGeneric s _ \<Rightarrow> s | TTuple _ \<Rightarrow> str ''Tuple'' | TArray _ _ \<Rightarrow> str ''Array''
     | TSlice _ \<Rightarrow> str ''Slice'')"

section \<open>Expressions\<close>

datatype un_op = Neg

datatype bin_op = Add | Sub | Mul | Div | OpEq | OpNe | OpLt | OpLe | OpGt | OpGe | And | Or

datatype aggregate_op = AggSum | AggMin | AggMax | AggCount

datatype pattern = PLiteral int | PVar bytes | PConstructor bytes "pattern list" | PWildcard

datatype expr =
    EInt int
  | EVar bytes
  | EField bytes bytes
  | EOld expr
  | EUnary un_op expr
  | EBin bin_op expr expr
  | ECall bytes "expr list"
  | EMethodCall expr bytes "expr list"
  | EIndex expr expr
  | EIf expr expr expr
  | EMatch expr "(pattern \<times> expr) list"
  | ETry expr
  | EForall bytes ty "expr option" expr
  | EAggregate aggregate_op "expr list"
  | ERange expr expr

section \<open>Statements\<close>

datatype assign_op = ASet | AAdd | ASub

datatype assign = Assign (asg_target: expr) (asg_op: assign_op) (asg_value: expr)

datatype stmt =
    SMutateState "assign list"
  | SAssign assign
  | SLet bytes "ty option" expr
  | SIf expr "stmt list" "stmt list option"
  | SMatch expr "(pattern \<times> stmt list) list"
  | SReturn "expr option"

section \<open>Attributes\<close>

datatype literal = LInt int | LIdent bytes

datatype arg = Flag bytes | Kv bytes literal

record attribute =
  at_name :: bytes
  at_args :: "arg list"

section \<open>Items\<close>

record param =
  prm_name :: bytes
  prm_ty :: ty
  prm_mutable :: bool

record func =
  fn_attributes :: "attribute list"
  fn_name :: bytes
  fn_params :: "param list"
  fn_return_ty :: "ty option"
  fn_requires :: "expr list"
  fn_ensures :: "expr list"
  fn_body :: "stmt list"
  fn_elided :: bool
  fn_span :: span
  fn_requires_spans :: "span list"
  fn_ensures_spans :: "span list"

record inv_def =
  inv_name :: bytes
  inv_constraints :: "expr list"
  inv_span :: span
  inv_constraint_spans :: "span list"

record field_def =
  fd_name :: bytes
  fd_ty :: ty

record struct_def =
  sd_name :: bytes
  sd_fields :: "field_def list"

record enum_def =
  ed_name :: bytes
  ed_variants :: "(bytes \<times> field_def list) list"

datatype item = IInvariant inv_def | IFunc func | IStruct struct_def | IEnum enum_def

record module_ast =
  md_attributes :: "attribute list"
  md_name :: bytes
  md_items :: "item list"

definition item_name :: "item \<Rightarrow> bytes" where
  "item_name i = (case i of IFunc f \<Rightarrow> fn_name f | IInvariant v \<Rightarrow> inv_name v | IStruct s \<Rightarrow> sd_name s | IEnum e \<Rightarrow> ed_name e)"

definition is_ejected :: "func \<Rightarrow> bool" where
  "is_ejected f = list_ex (\<lambda>a. at_name a = str ''eject'') (fn_attributes f)"

definition eject_lang :: "func \<Rightarrow> bytes option" where
  "eject_lang f =
     (case List.map_filter (\<lambda>x. case x of Flag s \<Rightarrow> Some s | _ \<Rightarrow> None)
        (concat (map at_args (filter (\<lambda>a. at_name a = str ''eject'') (fn_attributes f)))) of
        [] \<Rightarrow> None | s # _ \<Rightarrow> Some s)"

definition returns_result :: "func \<Rightarrow> bool" where
  "returns_result f \<longleftrightarrow> (case fn_return_ty f of Some (TGeneric name _) \<Rightarrow> name = str ''Result'' | _ \<Rightarrow> False)"

end
