(* ===== verification/Telos_Solver.thy ===== *)
theory Telos_Solver
  imports Telos_Ir
begin

text \<open>
  The decision procedure of the Telos verifier (\<open>tpt-telos-verifier/src/solver.rs\<close>):
  substitution of variables defined by equalities, Fourier-Motzkin elimination with checked
  \<open>i128\<close> arithmetic, entailment by refutation, and the search for counterexamples.

  A \<open>HashMap\<close> is an association list with strictly increasing keys; the order in which the
  code iterates over the keys of one is the parameter \<open>hk\<close>. Operations on machine integers
  that the code does not check go through \<open>w64\<close> and \<open>w128\<close>, as in
  \<^theory_text>\<open>Telos_Ir\<close>; dividing the smallest \<open>i64\<close> by minus one panics.
\<close>

section \<open>Inequalities\<close>

type_synonym coeff_map = "(var \<times> int) list"

record lin_ineq =
  coeffs :: coeff_map
  bound :: int

definition coef :: "coeff_map \<Rightarrow> var \<Rightarrow> int" where
  "coef m k = (case bt_get m k of Some c \<Rightarrow> c | None \<Rightarrow> 0)"

definition hm_collect :: "(var \<times> int) list \<Rightarrow> coeff_map" where
  "hm_collect ps = foldl (\<lambda>m (k, v). bt_insert k v m) [] ps"

definition neg_terms :: "(var \<times> int) list \<Rightarrow> coeff_map" where
  "neg_terms ts = hm_collect (map (\<lambda>(v, c). (v, - c)) ts)"

fun constraint_ineqs :: "constraint \<Rightarrow> lin_ineq list" where
  "constraint_ineqs (Constraint lin Le) = [\<lparr>coeffs = hm_collect (terms lin), bound = - const_term lin\<rparr>]"
| "constraint_ineqs (Constraint lin Lt) = [\<lparr>coeffs = hm_collect (terms lin), bound = - const_term lin - 1\<rparr>]"
| "constraint_ineqs (Constraint lin Ge) = [\<lparr>coeffs = neg_terms (terms lin), bound = const_term lin\<rparr>]"
| "constraint_ineqs (Constraint lin Gt) = [\<lparr>coeffs = neg_terms (terms lin), bound = const_term lin - 1\<rparr>]"
| "constraint_ineqs (Constraint lin Eq) =
     [\<lparr>coeffs = hm_collect (terms lin), bound = - const_term lin\<rparr>, \<lparr>coeffs = neg_terms (terms lin), bound = const_term lin\<rparr>]"
| "constraint_ineqs (Constraint lin Ne) = []"

definition to_inequalities :: "constraint list \<Rightarrow> lin_ineq list" where
  "to_inequalities cs = concat (map constraint_ineqs cs)"

definition remove_var :: "var \<Rightarrow> coeff_map \<Rightarrow> coeff_map" where
  "remove_var v m = bt_remove v m"

definition merge_keys :: "coeff_map \<Rightarrow> coeff_map \<Rightarrow> var list" where
  "merge_keys a b = map fst a @ filter (\<lambda>k. k \<notin> set (map fst a)) (map fst b)"

section \<open>Substituting equalities\<close>

datatype solver_panic = DivOverflow

fun find_def :: "constraint list \<Rightarrow> nat \<Rightarrow> (nat \<times> nat) option" where
  "find_def [] i = None"
| "find_def (c # cs) i =
     (case (if con_rel c \<noteq> Eq then None else position (\<lambda>(_, k). k = 1 \<or> k = -1) (terms (con_lin c))) of
        Some p \<Rightarrow> Some (i, p)
      | None \<Rightarrow> find_def cs (i + 1))"

text \<open>\<open>-c / coeff_x\<close> for a coefficient of one or minus one\<close>

definition neg_quot :: "(int \<Rightarrow> int) \<Rightarrow> int \<Rightarrow> int \<Rightarrow> solver_panic + int" where
  "neg_quot w c coeff_x =
     (let n = w (- c) in if n = - (2 ^ 63) \<and> coeff_x = -1 then Inl DivOverflow else Inr (n div coeff_x))"

definition add_term :: "(int \<Rightarrow> int) \<Rightarrow> var \<Rightarrow> int \<Rightarrow> (var \<times> int) list \<Rightarrow> (var \<times> int) list" where
  "add_term w v added ts =
     (case position (\<lambda>(u, _). u = v) ts of
        Some p \<Rightarrow>
          (let n = w (snd (ts ! p) + added) in
           if n = 0 then vec_remove p ts else ts[p := (fst (ts ! p), n)])
      | None \<Rightarrow> ts @ [(v, added)])"

fun add_def_terms ::
  "(int \<Rightarrow> int) \<Rightarrow> var \<Rightarrow> int \<Rightarrow> int \<Rightarrow> (var \<times> int) list \<Rightarrow> (var \<times> int) list \<Rightarrow> solver_panic + (var \<times> int) list" where
  "add_def_terms w x coeff_x d_x [] ts = Inr ts"
| "add_def_terms w x coeff_x d_x ((v, c) # us) ts =
     (if v = x then add_def_terms w x coeff_x d_x us ts
      else attempt (neg_quot w c coeff_x) (\<lambda>q. add_def_terms w x coeff_x d_x us (add_term w v (w (d_x * q)) ts)))"

definition substitute_into :: "(int \<Rightarrow> int) \<Rightarrow> var \<Rightarrow> int \<Rightarrow> linear \<Rightarrow> constraint \<Rightarrow> solver_panic + constraint" where
  "substitute_into w x coeff_x dlin c =
     (let l = con_lin c in
      case position (\<lambda>(v, _). v = x) (terms l) of
        None \<Rightarrow> Inr c
      | Some pos \<Rightarrow>
          (let d_x = snd (terms l ! pos) in
           attempt (add_def_terms w x coeff_x d_x (terms dlin) (vec_remove pos (terms l))) (\<lambda>ts.
           attempt (neg_quot w (const_term dlin) coeff_x) (\<lambda>q.
             Inr (Constraint \<lparr>terms = ts, const_term = w (const_term l + w (d_x * q))\<rparr> (con_rel c))))))"

fun substitute_all :: "(int \<Rightarrow> int) \<Rightarrow> var \<Rightarrow> int \<Rightarrow> linear \<Rightarrow> constraint list \<Rightarrow> solver_panic + constraint list" where
  "substitute_all w x coeff_x dlin [] = Inr []"
| "substitute_all w x coeff_x dlin (c # cs) =
     attempt (substitute_into w x coeff_x dlin c) (\<lambda>c'.
     attempt (substitute_all w x coeff_x dlin cs) (\<lambda>cs'. Inr (c' # cs')))"

lemma find_def_bound:
  "find_def cs i = Some (j, p) \<Longrightarrow> i \<le> j \<and> j < i + length cs \<and> con_rel (cs ! (j - i)) = Eq
    \<and> position (\<lambda>(_, k). k = 1 \<or> k = -1) (terms (con_lin (cs ! (j - i)))) = Some p"
proof (induction cs arbitrary: i)
  case (Cons c cs)
  show ?case
  proof (cases "con_rel c \<noteq> Eq \<or> position (\<lambda>(_, k). k = 1 \<or> k = -1) (terms (con_lin c)) = None")
    case True
    with Cons.prems have "find_def cs (i + 1) = Some (j, p)" by (auto split: if_splits)
    from Cons.IH [OF this] show ?thesis by (auto simp: nth_Cons' Suc_le_eq)
  next
    case False
    with Cons.prems show ?thesis by auto
  qed
qed simp

lemma substitute_all_length: "substitute_all w x k dlin cs = Inr cs' \<Longrightarrow> length cs' = length cs"
  by (induction cs arbitrary: cs') (auto simp: attempt_Inr_iff)

function equality_substitute :: "(int \<Rightarrow> int) \<Rightarrow> constraint list \<Rightarrow> solver_panic + constraint list" where
  "equality_substitute w cs =
     (case find_def cs 0 of
        None \<Rightarrow> Inr cs
      | Some (def_idx, var_pos) \<Rightarrow>
          (let dlin = con_lin (cs ! def_idx); (var_name, coeff_x) = terms dlin ! var_pos in
           attempt (substitute_all w var_name coeff_x dlin (vec_remove def_idx cs)) (equality_substitute w)))"
  by pat_completeness auto
termination
  by (relation "measure (\<lambda>(w, cs). length cs)")
    (auto dest!: find_def_bound substitute_all_length simp: vec_remove_def)

declare equality_substitute.simps [simp del]

section \<open>Fourier-Motzkin elimination\<close>

definition checked128 :: "int \<Rightarrow> int option" where
  "checked128 x = (if - (2 ^ 127) \<le> x \<and> x < 2 ^ 127 then Some x else None)"

text \<open>\<open>e.checked_mul(x)?.checked_sub(a.checked_mul(y)?)\<close>\<close>

definition checked_comb :: "int \<Rightarrow> int \<Rightarrow> int \<Rightarrow> int \<Rightarrow> int option" where
  "checked_comb e x a y =
     (case checked128 (e * x) of
        None \<Rightarrow> None
      | Some p \<Rightarrow> (case checked128 (a * y) of None \<Rightarrow> None | Some q \<Rightarrow> checked128 (p - q)))"

type_synonym var_bound = "int \<times> int \<times> coeff_map"

fun combine_coeffs :: "int \<Rightarrow> int \<Rightarrow> coeff_map \<Rightarrow> coeff_map \<Rightarrow> var list \<Rightarrow> coeff_map \<Rightarrow> coeff_map option" where
  "combine_coeffs a e uc lc [] acc = Some acc"
| "combine_coeffs a e uc lc (k # ks) acc =
     (case checked_comb e (coef uc k) a (coef lc k) of
        None \<Rightarrow> None
      | Some c \<Rightarrow> combine_coeffs a e uc lc ks (if c \<noteq> 0 then bt_insert k c acc else acc))"

fun combine :: "var_bound \<times> var_bound \<Rightarrow> lin_ineq option" where
  "combine ((a, b, uc), (e, d, lc)) =
     (case combine_coeffs a e uc lc (merge_keys uc lc) [] of
        None \<Rightarrow> None
      | Some co \<Rightarrow> map_option (\<lambda>c. \<lparr>coeffs = co, bound = c\<rparr>) (checked_comb e b a d))"

definition upper_of :: "var \<Rightarrow> lin_ineq \<Rightarrow> var_bound option" where
  "upper_of v i = (case bt_get (coeffs i) v of
     Some tv \<Rightarrow> if 0 < tv then Some (tv, bound i, remove_var v (coeffs i)) else None | None \<Rightarrow> None)"

definition lower_of :: "(int \<Rightarrow> int) \<Rightarrow> var \<Rightarrow> lin_ineq \<Rightarrow> var_bound option" where
  "lower_of w v i = (case bt_get (coeffs i) v of
     Some tv \<Rightarrow> if tv < 0 then Some (w (- tv), w (- bound i), map (\<lambda>(k, c). (k, w (- c))) (remove_var v (coeffs i))) else None
   | None \<Rightarrow> None)"

definition keeps :: "var \<Rightarrow> lin_ineq \<Rightarrow> bool" where
  "keeps v i \<longleftrightarrow> (case bt_get (coeffs i) v of None \<Rightarrow> True | Some tv \<Rightarrow> tv = 0)"

definition eliminate :: "(int \<Rightarrow> int) \<Rightarrow> var \<Rightarrow> lin_ineq list \<Rightarrow> lin_ineq list option" where
  "eliminate w v ineqs =
     map_option (\<lambda>new. filter (keeps v) ineqs @ new)
       (those (map combine (List.product (List.map_filter (upper_of v) ineqs) (List.map_filter (lower_of w v) ineqs))))"

fun eliminate_all :: "(int \<Rightarrow> int) \<Rightarrow> var list \<Rightarrow> lin_ineq list \<Rightarrow> lin_ineq list option" where
  "eliminate_all w [] ineqs = Some ineqs"
| "eliminate_all w (v # vs) ineqs =
     (case eliminate w v ineqs of None \<Rightarrow> None | Some new \<Rightarrow> eliminate_all w vs new)"

definition solver_vars :: "(coeff_map \<Rightarrow> var list) \<Rightarrow> lin_ineq list \<Rightarrow> var list" where
  "solver_vars hk ineqs =
     foldl (\<lambda>vars k. if k \<in> set vars then vars else vars @ [k]) [] (concat (map (hk \<circ> coeffs) ineqs))"

definition fm_unsat :: "(int \<Rightarrow> int) \<Rightarrow> (coeff_map \<Rightarrow> var list) \<Rightarrow> lin_ineq list \<Rightarrow> bool option" where
  "fm_unsat w hk ineqs =
     map_option (list_ex (\<lambda>i. coeffs i = [] \<and> bound i < 0)) (eliminate_all w (solver_vars hk ineqs) ineqs)"

definition unsat_checked ::
  "(int \<Rightarrow> int) \<Rightarrow> (int \<Rightarrow> int) \<Rightarrow> (coeff_map \<Rightarrow> var list) \<Rightarrow> constraint list \<Rightarrow> solver_panic + bool option" where
  "unsat_checked w64 w128 hk cs =
     attempt (equality_substitute w64 cs) (\<lambda>cs_reduced. Inr (fm_unsat w128 hk (to_inequalities cs_reduced)))"

definition unsat ::
  "(int \<Rightarrow> int) \<Rightarrow> (int \<Rightarrow> int) \<Rightarrow> (coeff_map \<Rightarrow> var list) \<Rightarrow> constraint list \<Rightarrow> solver_panic + bool" where
  "unsat w64 w128 hk cs =
     attempt (unsat_checked w64 w128 hk cs) (\<lambda>r. Inr (case r of Some b \<Rightarrow> b | None \<Rightarrow> False))"

section \<open>Entailment\<close>

fun negate :: "constraint \<Rightarrow> constraint list list" where
  "negate (Constraint lin Eq) = [[Constraint lin Lt], [Constraint lin Gt]]"
| "negate (Constraint lin Ne) = [[Constraint lin Eq]]"
| "negate (Constraint lin Le) = [[Constraint lin Gt]]"
| "negate (Constraint lin Lt) = [[Constraint lin Ge]]"
| "negate (Constraint lin Ge) = [[Constraint lin Lt]]"
| "negate (Constraint lin Gt) = [[Constraint lin Le]]"

fun entails_branches ::
  "(int \<Rightarrow> int) \<Rightarrow> (int \<Rightarrow> int) \<Rightarrow> (coeff_map \<Rightarrow> var list) \<Rightarrow> constraint list \<Rightarrow> constraint list list \<Rightarrow> solver_panic + bool" where
  "entails_branches w64 w128 hk premises [] = Inr True"
| "entails_branches w64 w128 hk premises (branch # branches) =
     attempt (unsat w64 w128 hk (premises @ branch)) (\<lambda>u.
       if u then entails_branches w64 w128 hk premises branches else Inr False)"

definition entails ::
  "(int \<Rightarrow> int) \<Rightarrow> (int \<Rightarrow> int) \<Rightarrow> (coeff_map \<Rightarrow> var list) \<Rightarrow> constraint list \<Rightarrow> constraint \<Rightarrow> solver_panic + bool" where
  "entails w64 w128 hk premises concl = entails_branches w64 w128 hk premises (negate concl)"

section \<open>Meaning\<close>

definition ineq_holds :: "(var \<Rightarrow> 'a::linordered_idom) \<Rightarrow> lin_ineq \<Rightarrow> bool" where
  "ineq_holds \<sigma> i \<longleftrightarrow> eval_terms \<sigma> (coeffs i) \<le> of_int (bound i)"

definition ineq_wf :: "lin_ineq \<Rightarrow> bool" where
  "ineq_wf i \<longleftrightarrow> bt_wf (coeffs i)"

text \<open>A lawful iteration order lists every key of a map once.\<close>

definition hash_order :: "(coeff_map \<Rightarrow> var list) \<Rightarrow> bool" where
  "hash_order hk \<longleftrightarrow> (\<forall>m. bt_wf m \<longrightarrow> distinct (hk m) \<and> set (hk m) = fst ` set m)"

lemma eval_bt_insert: "k \<notin> fst ` set m \<Longrightarrow> eval_terms \<sigma> (bt_insert k v m) = of_int v * \<sigma> k + eval_terms \<sigma> m"
  by (induction m) auto

lemma hm_collect_from:
  assumes "bt_wf m" "distinct (map fst ts)" "fst ` set m \<inter> fst ` set ts = {}"
  shows "let m' = foldl (\<lambda>m (k, v). bt_insert k v m) m ts in
    bt_wf m' \<and> eval_terms \<sigma> m' = eval_terms \<sigma> m + eval_terms \<sigma> ts \<and> set m' = set m \<union> set ts"
  using assms
proof (induction ts arbitrary: m)
  case (Cons t ts)
  obtain k v where t: "t = (k, v)" by (cases t)
  have new: "k \<notin> fst ` set m" using Cons.prems(3) t by auto
  have "fst ` set (bt_insert k v m) \<inter> fst ` set ts = {}"
    using Cons.prems(2,3) t by (auto simp: fst_set_bt_insert)
  from Cons.IH [OF bt_wf_insert [OF Cons.prems(1)] _ this] Cons.prems(2) t new
  have "let m' = foldl (\<lambda>m (k, v). bt_insert k v m) (bt_insert k v m) ts in
    bt_wf m' \<and> eval_terms \<sigma> m' = eval_terms \<sigma> (bt_insert k v m) + eval_terms \<sigma> ts \<and> set m' = set (bt_insert k v m) \<union> set ts"
    by simp
  moreover have "{e \<in> set m. fst e \<noteq> k} = set m" using new by force
  ultimately show ?case
    using t new set_bt_insert [OF Cons.prems(1), of k v] by (auto simp: Let_def eval_bt_insert)
qed simp

lemma hm_collect_props:
  assumes "distinct (map fst ts)"
  shows "bt_wf (hm_collect ts)" "eval_terms \<sigma> (hm_collect ts) = eval_terms \<sigma> ts" "set (hm_collect ts) = set ts"
  using hm_collect_from [of "[]" ts \<sigma>] assms by (simp_all add: hm_collect_def Let_def)

lemma neg_terms_props:
  assumes "distinct (map fst ts)"
  shows "bt_wf (neg_terms ts)" "eval_terms \<sigma> (neg_terms ts) = - eval_terms \<sigma> ts"
    "set (neg_terms ts) = (\<lambda>(v, c). (v, - c)) ` set ts"
proof -
  have d: "distinct (map fst (map (\<lambda>(v, c). (v, - c)) ts))" using assms by (simp add: o_def case_prod_beta)
  show "bt_wf (neg_terms ts)" "eval_terms \<sigma> (neg_terms ts) = - eval_terms \<sigma> ts"
    "set (neg_terms ts) = (\<lambda>(v, c). (v, - c)) ` set ts"
    using hm_collect_props(1,3) [OF d] hm_collect_props(2) [OF d, of \<sigma>] by (simp_all add: neg_terms_def eval_terms_map_scale)
qed

text \<open>
  What the inequalities of a constraint say: over the integers the constraint itself, except
  that an inequation says nothing; over the rationals strict comparisons are tightened by one.
\<close>

fun rel_tight :: "relation \<Rightarrow> 'a::linordered_idom \<Rightarrow> bool" where
  "rel_tight Le x = (x \<le> 0)"
| "rel_tight Lt x = (x \<le> -1)"
| "rel_tight Ge x = (0 \<le> x)"
| "rel_tight Gt x = (1 \<le> x)"
| "rel_tight Eq x = (x = 0)"
| "rel_tight Ne x = True"

definition tight :: "(var \<Rightarrow> 'a::linordered_idom) \<Rightarrow> constraint \<Rightarrow> bool" where
  "tight \<sigma> c = rel_tight (con_rel c) (lin_value \<sigma> (con_lin c))"

lemma tight_int: "holds (\<sigma> :: var \<Rightarrow> int) c \<Longrightarrow> tight \<sigma> c"
  by (cases "con_rel c") (simp_all add: holds_def tight_def)

lemma tight_int_iff: "con_rel c \<noteq> Ne \<Longrightarrow> tight (\<sigma> :: var \<Rightarrow> int) c = holds \<sigma> c"
  by (cases "con_rel c") (auto simp: holds_def tight_def)

lemma constraint_ineqs_tight:
  assumes "con_wf c"
  shows "(\<forall>i\<in>set (constraint_ineqs c). ineq_holds \<sigma> i) = tight \<sigma> c"
proof -
  obtain l r where c: "c = Constraint l r" by (cases c)
  have d: "distinct (map fst (terms l))" using assms c by (simp add: con_wf_def lin_wf_def)
  show ?thesis
    using hm_collect_props(2) [OF d, of \<sigma>] neg_terms_props(2) [OF d, of \<sigma>] unfolding c
    by (cases r) (auto simp: ineq_holds_def tight_def lin_value_def)
qed

lemma to_inequalities_tight:
  "list_all con_wf cs \<Longrightarrow> (\<forall>i\<in>set (to_inequalities cs). ineq_holds \<sigma> i) = list_all (tight \<sigma>) cs"
  by (induction cs) (auto simp: to_inequalities_def constraint_ineqs_tight [symmetric] ball_Un)

lemma to_inequalities_wf: "list_all con_wf cs \<Longrightarrow> \<forall>i\<in>set (to_inequalities cs). ineq_wf i"
proof -
  have "\<forall>i\<in>set (constraint_ineqs c). ineq_wf i" if "con_wf c" for c
  proof -
    obtain l r where c: "c = Constraint l r" by (cases c)
    have d: "distinct (map fst (terms l))" using that c by (simp add: con_wf_def lin_wf_def)
    show ?thesis
      using hm_collect_props(1) [OF d] neg_terms_props(1) [OF d] unfolding c
      by (cases r) (auto simp: ineq_wf_def)
  qed
  then show "list_all con_wf cs \<Longrightarrow> \<forall>i\<in>set (to_inequalities cs). ineq_wf i"
    by (auto simp: to_inequalities_def list_all_iff)
qed

section \<open>One elimination\<close>

lemma coef_Cons: "coef ((k, c) # m) v = (if v = k then c else coef m v)"
  by (simp add: coef_def bt_get_def)

lemma coef_notin: "v \<notin> fst ` set m \<Longrightarrow> coef m v = 0"
  by (simp add: coef_def bt_get_def map_of_eq_None_iff [THEN iffD2])

lemma eval_split_var:
  assumes "bt_wf m"
  shows "eval_terms \<sigma> m = of_int (coef m v) * \<sigma> v + eval_terms \<sigma> (remove_var v m)"
  using bt_wf_distinct [OF assms]
proof (induction m)
  case (Cons e m)
  obtain k c where e: "e = (k, c)" by (cases e)
  show ?case
  proof (cases "k = v")
    case True
    have "remove_var v (e # m) = m"
      unfolding remove_var_def bt_remove_def using Cons.prems e True by (auto simp: filter_id_conv)
    then show ?thesis using e True by (simp add: coef_Cons)
  next
    case False
    then have "remove_var v (e # m) = e # remove_var v m" using e by (simp add: remove_var_def bt_remove_def)
    then show ?thesis using Cons e False by (simp add: coef_Cons)
  qed
qed (simp add: coef_def remove_var_def bt_remove_def)

lemma eval_as_sum:
  assumes "distinct (map fst m)" "distinct ks" "fst ` set m \<subseteq> set ks"
  shows "(\<Sum>k\<leftarrow>ks. of_int (coef m k) * \<sigma> k) = eval_terms \<sigma> m"
  using assms
proof (induction m arbitrary: ks)
  case Nil
  then show ?case by (simp add: coef_def)
next
  case (Cons e m)
  obtain k c where e: "e = (k, c)" by (cases e)
  have k: "k \<in> set ks" "k \<notin> fst ` set m" using Cons.prems e by auto
  have "(\<Sum>j\<leftarrow>ks. of_int (coef (e # m) j) * \<sigma> j) = (\<Sum>j\<in>set ks. of_int (coef (e # m) j) * \<sigma> j)"
    using Cons.prems(2) by (simp add: sum_list_distinct_conv_sum_set)
  also have "\<dots> = of_int c * \<sigma> k + (\<Sum>j\<in>set ks - {k}. of_int (coef m j) * \<sigma> j)"
    using k(1) e by (subst sum.remove [of _ k]) (auto simp: coef_Cons intro!: sum.cong)
  also have "(\<Sum>j\<in>set ks - {k}. of_int (coef m j) * \<sigma> j) = (\<Sum>j\<in>set ks. of_int (coef m j) * \<sigma> j)"
    using k by (subst (2) sum.remove [of _ k]) (auto simp: coef_notin)
  also have "\<dots> = eval_terms \<sigma> m"
    using Cons.IH [of ks] Cons.prems by (simp add: sum_list_distinct_conv_sum_set)
  finally show ?case using e by simp
qed

lemma checked_comb_Some: "checked_comb e x a y = Some c \<Longrightarrow> c = e * x - a * y"
  by (auto simp: checked_comb_def checked128_def split: option.splits if_splits)

lemma combine_coeffs_props:
  assumes "combine_coeffs a e uc lc ks acc = Some co" "bt_wf acc" "distinct ks" "fst ` set acc \<inter> set ks = {}"
  shows "bt_wf co \<and> eval_terms \<sigma> co = eval_terms \<sigma> acc + (\<Sum>k\<leftarrow>ks. of_int (e * coef uc k - a * coef lc k) * \<sigma> k)
    \<and> set co \<subseteq> set acc \<union> set ks \<times> (UNIV - {0})"
  using assms
proof (induction ks arbitrary: acc)
  case (Cons k ks)
  from Cons.prems(1) obtain c where c: "checked_comb e (coef uc k) a (coef lc k) = Some c"
    and rest: "combine_coeffs a e uc lc ks (if c \<noteq> 0 then bt_insert k c acc else acc) = Some co"
    by (auto split: option.splits)
  let ?acc = "if c \<noteq> 0 then bt_insert k c acc else acc"
  have k: "k \<notin> fst ` set acc" "k \<notin> set ks" using Cons.prems by auto
  have "fst ` set ?acc \<inter> set ks = {}" using Cons.prems k by (auto simp: fst_set_bt_insert)
  with Cons.IH [OF rest] Cons.prems have
    "bt_wf co \<and> eval_terms \<sigma> co = eval_terms \<sigma> ?acc + (\<Sum>k\<leftarrow>ks. of_int (e * coef uc k - a * coef lc k) * \<sigma> k)
      \<and> set co \<subseteq> set ?acc \<union> set ks \<times> (UNIV - {0})"
    by (auto simp: bt_wf_insert)
  moreover have "eval_terms \<sigma> ?acc = eval_terms \<sigma> acc + of_int (e * coef uc k - a * coef lc k) * \<sigma> k"
    unfolding checked_comb_Some [OF c, symmetric] using eval_bt_insert [OF k(1), of \<sigma> c] by (simp add: add.commute)
  moreover have "set ?acc \<subseteq> set acc \<union> {k} \<times> (UNIV - {0})" using set_bt_insert_subset [of k c acc] by auto
  ultimately show ?case by auto
qed simp

lemma merge_keys_props:
  assumes "bt_wf uc" "bt_wf lc"
  shows "distinct (merge_keys uc lc)" "set (merge_keys uc lc) = fst ` set uc \<union> fst ` set lc"
  using assms by (auto simp: merge_keys_def bt_wf_distinct)

lemma sum_list_linear:
  "(\<Sum>k\<leftarrow>ks. of_int (e * f k - a * g k) * \<sigma> k)
    = (of_int e :: 'a::linordered_idom) * (\<Sum>k\<leftarrow>ks. of_int (f k) * \<sigma> k) - of_int a * (\<Sum>k\<leftarrow>ks. of_int (g k) * \<sigma> k)"
  by (induction ks) (simp_all add: algebra_simps)

lemma combine_props:
  assumes "combine ((a, b, uc), (e, d, lc)) = Some i" "bt_wf uc" "bt_wf lc"
  shows "ineq_wf i" "eval_terms \<sigma> (coeffs i) = of_int e * eval_terms \<sigma> uc - of_int a * eval_terms \<sigma> lc"
    "bound i = e * b - a * d" "set (coeffs i) \<subseteq> (fst ` set uc \<union> fst ` set lc) \<times> (UNIV - {0})"
proof -
  from assms(1) obtain co where co: "combine_coeffs a e uc lc (merge_keys uc lc) [] = Some co" "coeffs i = co"
    and bd: "checked_comb e b a d = Some (bound i)"
    by (auto split: option.splits)
  note m = merge_keys_props [OF assms(2,3)]
  note props = combine_coeffs_props [OF co(1) bt_wf_Nil m(1)]
  show "ineq_wf i" "set (coeffs i) \<subseteq> (fst ` set uc \<union> fst ` set lc) \<times> (UNIV - {0})"
    using props m co(2) by (auto simp: ineq_wf_def)
  show "bound i = e * b - a * d" by (rule checked_comb_Some [OF bd])
  show "eval_terms \<sigma> (coeffs i) = of_int e * eval_terms \<sigma> uc - of_int a * eval_terms \<sigma> lc"
    using props [of \<sigma>] co(2) eval_as_sum [OF bt_wf_distinct [OF assms(2)] m(1), of \<sigma>]
      eval_as_sum [OF bt_wf_distinct [OF assms(3)] m(1), of \<sigma>] m(2)
    by (simp add: sum_list_linear del: of_int_diff of_int_mult)
qed

declare combine.simps [simp del]

lemma those_Some: "those xs = Some ys \<Longrightarrow> xs = map Some ys"
  by (induction xs arbitrary: ys) (auto split: option.splits)

lemma remove_var_props:
  assumes "bt_wf m"
  shows "bt_wf (remove_var v m)" "eval_terms (\<sigma>(v := x)) (remove_var v m) = eval_terms \<sigma> (remove_var v m)"
    "set (remove_var v m) = {e \<in> set m. fst e \<noteq> v}"
  using assms by (auto simp: remove_var_def bt_wf_remove set_bt_remove intro!: eval_terms_cong)

lemma bt_wf_map_neg: "bt_wf m \<Longrightarrow> bt_wf (map (\<lambda>(k, c). (k, - c)) m)"
  by (simp add: bt_wf_def o_def case_prod_beta)

text \<open>What the bounds of a variable say.\<close>

lemma upper_of_props:
  assumes "upper_of v i = Some (a, b, uc)" "ineq_wf i"
  shows "0 < a" "bt_wf uc" "ineq_holds \<sigma> i \<longleftrightarrow> of_int a * \<sigma> v + eval_terms \<sigma> uc \<le> of_int b"
    "eval_terms (\<sigma>(v := x)) uc = eval_terms \<sigma> uc" "fst ` set uc \<subseteq> fst ` set (coeffs i) - {v}"
proof -
  from assms obtain tv where tv: "bt_get (coeffs i) v = Some tv" "0 < tv" and a: "a = tv" "b = bound i"
    and uc: "uc = remove_var v (coeffs i)"
    by (auto simp: upper_of_def split: option.splits if_splits)
  have wf: "bt_wf (coeffs i)" using assms(2) by (simp add: ineq_wf_def)
  note r = remove_var_props [OF wf]
  show "0 < a" "bt_wf uc" "eval_terms (\<sigma>(v := x)) uc = eval_terms \<sigma> uc" using tv a uc r(1,2) by simp_all
  show "ineq_holds \<sigma> i \<longleftrightarrow> of_int a * \<sigma> v + eval_terms \<sigma> uc \<le> of_int b"
    unfolding ineq_holds_def eval_split_var [OF wf, of \<sigma> v] using tv a uc by (simp add: coef_def)
  show "fst ` set uc \<subseteq> fst ` set (coeffs i) - {v}" using r(3) [of v] uc by auto
qed

lemma lower_of_props:
  assumes "lower_of exact v i = Some (e, d, lc)" "ineq_wf i"
  shows "0 < e" "bt_wf lc" "ineq_holds \<sigma> i \<longleftrightarrow> of_int d \<le> of_int e * \<sigma> v + eval_terms \<sigma> lc"
    "eval_terms (\<sigma>(v := x)) lc = eval_terms \<sigma> lc" "fst ` set lc \<subseteq> fst ` set (coeffs i) - {v}"
proof -
  from assms obtain tv where tv: "bt_get (coeffs i) v = Some tv" "tv < 0" and e: "e = - tv" "d = - bound i"
    and lc: "lc = map (\<lambda>(k, c). (k, - c)) (remove_var v (coeffs i))"
    by (auto simp: lower_of_def split: option.splits if_splits)
  have wf: "bt_wf (coeffs i)" using assms(2) by (simp add: ineq_wf_def)
  note r = remove_var_props [OF wf]
  show "0 < e" using tv e by simp
  show "bt_wf lc" using r(1) lc by (simp add: bt_wf_map_neg)
  show "eval_terms (\<sigma>(v := x)) lc = eval_terms \<sigma> lc" using r(2) lc by (simp add: eval_terms_map_scale)
  show "ineq_holds \<sigma> i \<longleftrightarrow> of_int d \<le> of_int e * \<sigma> v + eval_terms \<sigma> lc"
  proof -
    have "eval_terms \<sigma> (coeffs i) = of_int tv * \<sigma> v + eval_terms \<sigma> (remove_var v (coeffs i))"
      unfolding eval_split_var [OF wf, of \<sigma> v] using tv by (simp add: coef_def)
    moreover have "of_int e * \<sigma> v + eval_terms \<sigma> lc = - (of_int tv * \<sigma> v + eval_terms \<sigma> (remove_var v (coeffs i)))"
      unfolding e lc by (simp add: eval_terms_map_scale)
    ultimately show ?thesis unfolding ineq_holds_def e by (simp only: of_int_minus neg_le_iff_le)
  qed
  have keys: "fst ` set lc = fst ` set (remove_var v (coeffs i))" unfolding lc by (simp add: image_image case_prod_beta)
  show "fst ` set lc \<subseteq> fst ` set (coeffs i) - {v}" unfolding keys r(3) by auto
qed

lemma keeps_props:
  assumes "keeps v i" "ineq_wf i"
  shows "ineq_holds (\<sigma>(v := x)) i = ineq_holds \<sigma> i"
proof -
  have "coef (coeffs i) v = 0" using assms(1) by (auto simp: keeps_def coef_def split: option.splits)
  then show ?thesis
    using eval_split_var [of "coeffs i" \<sigma> v] eval_split_var [of "coeffs i" "\<sigma>(v := x)" v]
      remove_var_props(2) [of "coeffs i" \<sigma> v x] assms(2)
    by (simp add: ineq_holds_def ineq_wf_def)
qed

lemma bound_cases:
  "keeps v i \<or> (\<exists>u. upper_of v i = Some u) \<or> (\<exists>l. lower_of w v i = Some l)"
  by (auto simp: keeps_def upper_of_def lower_of_def split: option.splits)

lemma set_map_filter_iff: "y \<in> set (List.map_filter f xs) \<longleftrightarrow> (\<exists>x\<in>set xs. f x = Some y)"
  by (induction xs) (auto simp: List.map_filter_simps split: option.splits)

text \<open>The members of the system after an elimination.\<close>

lemma eliminate_mem:
  assumes "eliminate w v ineqs = Some new"
  shows "i \<in> set new \<longleftrightarrow> (i \<in> set ineqs \<and> keeps v i)
    \<or> (\<exists>j\<in>set ineqs. \<exists>k\<in>set ineqs. \<exists>u l. upper_of v j = Some u \<and> lower_of w v k = Some l \<and> combine (u, l) = Some i)"
proof -
  let ?ps = "List.product (List.map_filter (upper_of v) ineqs) (List.map_filter (lower_of w v) ineqs)"
  from assms obtain cs where cs: "those (map combine ?ps) = Some cs" "new = filter (keeps v) ineqs @ cs"
    by (auto simp: eliminate_def)
  have "i \<in> set cs \<longleftrightarrow> Some i \<in> set (map combine ?ps)" using those_Some [OF cs(1)] by auto
  also have "\<dots> \<longleftrightarrow> (\<exists>p\<in>set ?ps. combine p = Some i)" by (simp only: set_map image_iff) metis
  also have "\<dots> \<longleftrightarrow> (\<exists>j\<in>set ineqs. \<exists>k\<in>set ineqs. \<exists>u l. upper_of v j = Some u \<and> lower_of w v k = Some l \<and> combine (u, l) = Some i)"
  proof -
    have "(\<exists>p\<in>set (List.product us ls). combine p = Some i) \<longleftrightarrow> (\<exists>u\<in>set us. \<exists>l\<in>set ls. combine (u, l) = Some i)" for us ls
      by auto
    then show ?thesis by (simp only: Bex_def set_map_filter_iff) blast
  qed
  finally show ?thesis using cs(2) by auto
qed

lemma eliminate_total_pairs:
  assumes "eliminate w v ineqs = Some new" "j \<in> set ineqs" "k \<in> set ineqs" "upper_of v j = Some u" "lower_of w v k = Some l"
  shows "\<exists>i\<in>set new. combine (u, l) = Some i"
proof -
  let ?ps = "List.product (List.map_filter (upper_of v) ineqs) (List.map_filter (lower_of w v) ineqs)"
  from assms(1) obtain cs where cs: "those (map combine ?ps) = Some cs" "new = filter (keeps v) ineqs @ cs"
    by (auto simp: eliminate_def)
  have "(u, l) \<in> set ?ps" using assms by (auto simp: set_map_filter_iff)
  then have "combine (u, l) \<in> set (map combine ?ps)" by auto
  then show ?thesis using those_Some [OF cs(1)] cs(2) by auto
qed

text \<open>Eliminating a variable keeps every solution, and over a field adds none.\<close>

lemma eliminate_sound:
  assumes el: "eliminate exact v ineqs = Some new" and wf: "\<forall>i\<in>set ineqs. ineq_wf i"
  shows "\<forall>i\<in>set new. ineq_wf i" and "(\<forall>i\<in>set ineqs. ineq_holds \<sigma> i) \<Longrightarrow> (\<forall>i\<in>set new. ineq_holds \<sigma> i)"
proof -
  have pair: "ineq_wf i \<and> ((\<forall>i\<in>set ineqs. ineq_holds \<sigma> i) \<longrightarrow> ineq_holds \<sigma> i)"
    if "j \<in> set ineqs" "k \<in> set ineqs" "upper_of v j = Some u" "lower_of exact v k = Some l" "combine (u, l) = Some i" for i j k u l
  proof -
    obtain a b uc where u: "u = (a, b, uc)" by (cases u)
    obtain e d lc where l: "l = (e, d, lc)" by (cases l)
    note U = upper_of_props [OF that(3) [unfolded u] wf [rule_format, OF that(1)]]
    note L = lower_of_props [OF that(4) [unfolded l] wf [rule_format, OF that(2)]]
    note C = combine_props [OF that(5) [unfolded u l] U(2) L(2)]
    have "ineq_holds \<sigma> i" if all: "\<forall>i\<in>set ineqs. ineq_holds \<sigma> i"
    proof -
      have up: "of_int a * \<sigma> v + eval_terms \<sigma> uc \<le> of_int b" using U(3) all \<open>j \<in> set ineqs\<close> by blast
      have lo: "of_int d \<le> of_int e * \<sigma> v + eval_terms \<sigma> lc" using L(3) all \<open>k \<in> set ineqs\<close> by blast
      have "of_int e * (of_int a * \<sigma> v + eval_terms \<sigma> uc) \<le> of_int e * of_int b"
        using up L(1) by (simp add: mult_left_mono)
      moreover have "of_int a * of_int d \<le> of_int a * (of_int e * \<sigma> v + eval_terms \<sigma> lc)"
        using lo U(1) by (simp add: mult_left_mono)
      ultimately show ?thesis
        unfolding ineq_holds_def C(2,3) by (simp add: algebra_simps)
    qed
    with C(1) show ?thesis by blast
  qed
  show "\<forall>i\<in>set new. ineq_wf i" using pair wf eliminate_mem [OF el] by blast
  show "(\<forall>i\<in>set ineqs. ineq_holds \<sigma> i) \<Longrightarrow> (\<forall>i\<in>set new. ineq_holds \<sigma> i)" using pair eliminate_mem [OF el] by blast
qed

lemma value_between:
  fixes L U :: "'a::linordered_field set"
  assumes "finite L" "finite U" "\<forall>l\<in>L. \<forall>u\<in>U. l \<le> u"
  shows "\<exists>x. (\<forall>l\<in>L. l \<le> x) \<and> (\<forall>u\<in>U. x \<le> u)"
proof (cases "L = {}")
  case True
  show ?thesis
  proof (cases "U = {}")
    case False
    then show ?thesis using True assms(2) by (intro exI [of _ "Min U"]) simp
  qed (simp add: True)
next
  case False
  then show ?thesis using assms by (intro exI [of _ "Max L"]) simp
qed

lemma eliminate_complete:
  fixes \<sigma> :: "var \<Rightarrow> 'a::linordered_field"
  assumes el: "eliminate exact v ineqs = Some new" and wf: "\<forall>i\<in>set ineqs. ineq_wf i"
    and new: "\<forall>i\<in>set new. ineq_holds \<sigma> i"
  shows "\<exists>x. \<forall>i\<in>set ineqs. ineq_holds (\<sigma>(v := x)) i"
proof -
  define up where "up = (\<lambda>(a, b, uc). (of_int b - eval_terms \<sigma> uc) / of_int a)"
  define lo where "lo = (\<lambda>(e, d, lc). (of_int d - eval_terms \<sigma> lc) / of_int e)"
  let ?U = "up ` set (List.map_filter (upper_of v) ineqs)" and ?L = "lo ` set (List.map_filter (lower_of exact v) ineqs)"
  have "lo l \<le> up u" if "l \<in> set (List.map_filter (lower_of exact v) ineqs)" "u \<in> set (List.map_filter (upper_of v) ineqs)" for l u
  proof -
    from that obtain j k where j: "j \<in> set ineqs" "upper_of v j = Some u" and k: "k \<in> set ineqs" "lower_of exact v k = Some l"
      by (auto simp: set_map_filter_iff)
    obtain a b uc where u: "u = (a, b, uc)" by (cases u)
    obtain e d lc where l: "l = (e, d, lc)" by (cases l)
    note U = upper_of_props [OF j(2) [unfolded u] wf [rule_format, OF j(1)]]
    note L = lower_of_props [OF k(2) [unfolded l] wf [rule_format, OF k(1)]]
    obtain i where i: "i \<in> set new" "combine (u, l) = Some i"
      using eliminate_total_pairs [OF el j(1) k(1) j(2) k(2)] by blast
    note C = combine_props [OF i(2) [unfolded u l] U(2) L(2)]
    have "of_int e * eval_terms \<sigma> uc - of_int a * eval_terms \<sigma> lc \<le> of_int e * of_int b - of_int a * of_int d"
      using new i(1) C(2) [of \<sigma>] C(3) by (auto simp: ineq_holds_def)
    then have "of_int a * (of_int d - eval_terms \<sigma> lc) \<le> of_int e * (of_int b - eval_terms \<sigma> uc)"
      by (simp add: algebra_simps)
    then show ?thesis using U(1) L(1) by (simp add: u l up_def lo_def divide_le_eq le_divide_eq pos_le_divide_eq mult.commute)
  qed
  then obtain x where x: "\<forall>l\<in>?L. l \<le> x" "\<forall>u\<in>?U. x \<le> u"
    using value_between [of ?L ?U] by blast
  have "ineq_holds (\<sigma>(v := x)) i" if i: "i \<in> set ineqs" for i
  proof -
    consider (k) "keeps v i" | (u) u where "upper_of v i = Some u" | (l) l where "lower_of exact v i = Some l"
      using bound_cases [of v i exact] by blast
    then show ?thesis
    proof cases
      case k
      then have "i \<in> set new" using eliminate_mem [OF el] i by blast
      then show ?thesis using keeps_props [OF k wf [rule_format, OF i]] new by blast
    next
      case u
      obtain a b uc where p: "u = (a, b, uc)" by (cases u)
      note U = upper_of_props [OF u [unfolded p] wf [rule_format, OF i]]
      have "x \<le> up u" using x(2) u i by (auto simp: set_map_filter_iff)
      then have "x * of_int a \<le> of_int b - eval_terms \<sigma> uc" using U(1) by (simp add: p up_def pos_le_divide_eq)
      then show ?thesis unfolding U(3) U(4) by (simp add: algebra_simps)
    next
      case l
      obtain e d lc where p: "l = (e, d, lc)" by (cases l)
      note L = lower_of_props [OF l [unfolded p] wf [rule_format, OF i]]
      have "lo l \<le> x" using x(1) l i by (auto simp: set_map_filter_iff)
      then have "of_int d - eval_terms \<sigma> lc \<le> x * of_int e" using L(1) by (simp add: p lo_def pos_divide_le_eq)
      then show ?thesis unfolding L(3) L(4) by (simp add: algebra_simps)
    qed
  qed
  then show ?thesis by blast
qed

section \<open>All eliminations\<close>

definition ineq_nz :: "lin_ineq \<Rightarrow> bool" where
  "ineq_nz i \<longleftrightarrow> 0 \<notin> snd ` set (coeffs i)"

definition ineq_keys :: "lin_ineq list \<Rightarrow> var set" where
  "ineq_keys ineqs = (\<Union>i\<in>set ineqs. fst ` set (coeffs i))"

lemma eliminate_keys:
  assumes el: "eliminate exact v ineqs = Some new" and wf: "\<forall>i\<in>set ineqs. ineq_wf i" and nz: "\<forall>i\<in>set ineqs. ineq_nz i"
  shows "(\<forall>i\<in>set new. ineq_nz i) \<and> ineq_keys new \<subseteq> ineq_keys ineqs - {v}"
proof -
  have "ineq_nz i \<and> fst ` set (coeffs i) \<subseteq> ineq_keys ineqs - {v}" if i: "i \<in> set new" for i
  proof -
    from eliminate_mem [OF el, of i] i consider
      (kept) "i \<in> set ineqs" "keeps v i"
    | (pair) j k u l where "j \<in> set ineqs" "k \<in> set ineqs" "upper_of v j = Some u" "lower_of exact v k = Some l" "combine (u, l) = Some i"
      by blast
    then show ?thesis
    proof cases
      case kept
      have "v \<notin> fst ` set (coeffs i)"
      proof
        assume "v \<in> fst ` set (coeffs i)"
        then obtain c where c: "(v, c) \<in> set (coeffs i)" by auto
        then have "map_of (coeffs i) v = Some c"
          using wf kept(1) by (simp add: ineq_wf_def bt_wf_distinct)
        moreover have "c \<noteq> 0" using c nz kept(1) by (force simp: ineq_nz_def)
        ultimately show False using kept(2) by (simp add: keeps_def bt_get_def)
      qed
      then show ?thesis using kept(1) nz by (auto simp: ineq_keys_def)
    next
      case pair
      obtain a b uc where u: "u = (a, b, uc)" by (cases u)
      obtain e d lc where l: "l = (e, d, lc)" by (cases l)
      note U = upper_of_props [OF pair(3) [unfolded u] wf [rule_format, OF pair(1)]]
      note L = lower_of_props [OF pair(4) [unfolded l] wf [rule_format, OF pair(2)]]
      note C = combine_props(4) [OF pair(5) [unfolded u l] U(2) L(2)]
      have "fst ` set (coeffs i) \<subseteq> fst ` ((fst ` set uc \<union> fst ` set lc) \<times> (UNIV - {0 :: int}))" using C by (rule image_mono)
      also have "\<dots> \<subseteq> fst ` set uc \<union> fst ` set lc" by (rule fst_image_times [THEN eq_refl, THEN order_trans]) simp
      finally have keys: "fst ` set (coeffs i) \<subseteq> fst ` set uc \<union> fst ` set lc" .
      have "fst ` set (coeffs j) \<subseteq> ineq_keys ineqs" "fst ` set (coeffs k) \<subseteq> ineq_keys ineqs"
        unfolding ineq_keys_def using pair(1,2) by (intro UN_upper; simp)+
      then have "fst ` set uc \<subseteq> ineq_keys ineqs - {v}" "fst ` set lc \<subseteq> ineq_keys ineqs - {v}"
        using subset_trans [OF U(5) Diff_mono [OF _ subset_refl]] subset_trans [OF L(5) Diff_mono [OF _ subset_refl]] by simp_all
      then have "fst ` set (coeffs i) \<subseteq> ineq_keys ineqs - {v}" by (rule subset_trans [OF keys Un_least])
      moreover have "ineq_nz i" using C by (auto simp: ineq_nz_def)
      ultimately show ?thesis by blast
    qed
  qed
  then show ?thesis by (auto simp: ineq_keys_def)
qed

lemma eliminate_all_sound:
  assumes "eliminate_all exact vs ineqs = Some new" "\<forall>i\<in>set ineqs. ineq_wf i" "\<forall>i\<in>set ineqs. ineq_holds \<sigma> i"
  shows "\<forall>i\<in>set new. ineq_holds \<sigma> i"
  using assms
proof (induction vs arbitrary: ineqs)
  case (Cons v vs)
  then obtain mid where mid: "eliminate exact v ineqs = Some mid" "eliminate_all exact vs mid = Some new"
    by (auto split: option.splits)
  show ?case using Cons.IH [OF mid(2)] eliminate_sound [OF mid(1)] Cons.prems by blast
qed simp

lemma eliminate_all_keys:
  assumes "eliminate_all exact vs ineqs = Some new" "\<forall>i\<in>set ineqs. ineq_wf i" "\<forall>i\<in>set ineqs. ineq_nz i"
  shows "ineq_keys new \<subseteq> ineq_keys ineqs - set vs"
  using assms
proof (induction vs arbitrary: ineqs)
  case (Cons v vs)
  then obtain mid where mid: "eliminate exact v ineqs = Some mid" "eliminate_all exact vs mid = Some new"
    by (auto split: option.splits)
  show ?case
    using Cons.IH [OF mid(2)] eliminate_sound(1) [OF mid(1)] eliminate_keys [OF mid(1)] Cons.prems by fastforce
qed simp

lemma eliminate_all_complete:
  fixes \<sigma> :: "var \<Rightarrow> 'a::linordered_field"
  assumes "eliminate_all exact vs ineqs = Some new" "\<forall>i\<in>set ineqs. ineq_wf i" "\<forall>i\<in>set new. ineq_holds \<sigma> i"
  shows "\<exists>\<tau> :: var \<Rightarrow> 'a. \<forall>i\<in>set ineqs. ineq_holds \<tau> i"
  using assms
proof (induction vs arbitrary: ineqs)
  case (Cons v vs)
  then obtain mid where mid: "eliminate exact v ineqs = Some mid" "eliminate_all exact vs mid = Some new"
    by (auto split: option.splits)
  obtain \<tau> :: "var \<Rightarrow> 'a" where "\<forall>i\<in>set mid. ineq_holds \<tau> i"
    using Cons.IH [OF mid(2)] eliminate_sound(1) [OF mid(1)] Cons.prems by blast
  then show ?case using eliminate_complete [OF mid(1)] Cons.prems(2) by blast
qed auto

lemma foldl_push_set: "set (foldl (\<lambda>vars k. if k \<in> set vars then vars else vars @ [k]) vs ks) = set vs \<union> set ks"
  by (induction ks arbitrary: vs) auto

lemma set_solver_vars:
  assumes "hash_order hk" "\<forall>i\<in>set ineqs. ineq_wf i"
  shows "set (solver_vars hk ineqs) = ineq_keys ineqs"
  using assms by (auto simp: solver_vars_def foldl_push_set ineq_keys_def hash_order_def ineq_wf_def)

lemma fm_unsat_sound:
  assumes "fm_unsat exact hk ineqs = Some True" "\<forall>i\<in>set ineqs. ineq_wf i"
  shows "\<not> (\<forall>i\<in>set ineqs. ineq_holds \<sigma> i)"
proof
  assume all: "\<forall>i\<in>set ineqs. ineq_holds \<sigma> i"
  from assms(1) obtain new i where new: "eliminate_all exact (solver_vars hk ineqs) ineqs = Some new"
    and i: "i \<in> set new" "coeffs i = []" "bound i < 0"
    by (auto simp: fm_unsat_def list_ex_iff)
  have "ineq_holds \<sigma> i" using eliminate_all_sound [OF new assms(2) all] i(1) by blast
  then show False using i(2,3) by (simp add: ineq_holds_def)
qed

lemma fm_unsat_complete:
  assumes "fm_unsat exact hk ineqs = Some False" "\<forall>i\<in>set ineqs. ineq_wf i" "\<forall>i\<in>set ineqs. ineq_nz i" "hash_order hk"
  shows "\<exists>\<sigma> :: var \<Rightarrow> rat. \<forall>i\<in>set ineqs. ineq_holds \<sigma> i"
proof -
  from assms(1) obtain new where new: "eliminate_all exact (solver_vars hk ineqs) ineqs = Some new"
    and none: "\<not> list_ex (\<lambda>i. coeffs i = [] \<and> bound i < 0) new"
    by (auto simp: fm_unsat_def)
  have "ineq_keys new = {}"
    using eliminate_all_keys [OF new assms(2,3)] set_solver_vars [OF assms(4,2)] by blast
  then have "\<forall>i\<in>set new. ineq_holds (\<lambda>_. 0 :: rat) i"
    using none by (auto simp: ineq_keys_def list_ex_iff ineq_holds_def)
  then show ?thesis using eliminate_all_complete [OF new assms(2)] by blast
qed

section \<open>Substituting equalities keeps the meaning\<close>

lemma neg_quot_exact: "neg_quot exact c k = Inr q \<Longrightarrow> k = 1 \<or> k = -1 \<Longrightarrow> q = - c * k"
  by (auto simp: neg_quot_def Let_def split: if_splits)

lemma eval_vec_remove:
  "p < length ts \<Longrightarrow> eval_terms \<sigma> ts = of_int (snd (ts ! p)) * \<sigma> (fst (ts ! p)) + eval_terms \<sigma> (vec_remove p ts)"
proof -
  assume p: "p < length ts"
  have "eval_terms \<sigma> ts = eval_terms \<sigma> (take p ts @ (fst (ts ! p), snd (ts ! p)) # drop (Suc p) ts)"
    using id_take_nth_drop [OF p] by (metis prod.collapse)
  then show ?thesis by (simp add: vec_remove_def del: prod.collapse)
qed

lemma map_fst_vec_remove: "map fst (vec_remove p ts) = vec_remove p (map fst ts)"
  by (simp add: vec_remove_def take_map drop_map)

lemma vec_remove_mem: "set (vec_remove p ts) \<subseteq> set ts"
  by (auto simp: vec_remove_def dest: in_set_takeD in_set_dropD)

lemma distinct_vec_remove: "distinct ts \<Longrightarrow> distinct (vec_remove p ts)"
  by (simp add: vec_remove_def set_take_disj_set_drop_if_distinct)

lemma vec_remove_notin: "distinct xs \<Longrightarrow> p < length xs \<Longrightarrow> xs ! p \<notin> set (vec_remove p xs)"
proof -
  assume "distinct xs" "p < length xs"
  then have "distinct (take p xs @ xs ! p # drop (Suc p) xs)" by (simp flip: id_take_nth_drop)
  then show ?thesis by (auto simp: vec_remove_def)
qed

lemma position_key:
  assumes "position (\<lambda>(u, _). u = v) ts = Some p"
  shows "p < length ts" "fst (ts ! p) = v"
  using position_Some [OF assms] by (auto simp: case_prod_beta)

lemma add_term_props:
  shows "eval_terms \<sigma> (add_term exact v c ts) = eval_terms \<sigma> ts + of_int c * \<sigma> v"
    and "distinct (map fst ts) \<Longrightarrow> distinct (map fst (add_term exact v c ts))"
    and "fst ` set (add_term exact v c ts) \<subseteq> insert v (fst ` set ts)"
    and "0 \<notin> snd ` set ts \<Longrightarrow> c \<noteq> 0 \<Longrightarrow> 0 \<notin> snd ` set (add_term exact v c ts)"
proof -
  have "eval_terms \<sigma> (add_term exact v c ts) = eval_terms \<sigma> ts + of_int c * \<sigma> v
    \<and> (distinct (map fst ts) \<longrightarrow> distinct (map fst (add_term exact v c ts)))
    \<and> fst ` set (add_term exact v c ts) \<subseteq> insert v (fst ` set ts)
    \<and> (0 \<notin> snd ` set ts \<longrightarrow> c \<noteq> 0 \<longrightarrow> 0 \<notin> snd ` set (add_term exact v c ts))"
  proof (cases "position (\<lambda>(u, _). u = v) ts")
    case None
    then have "v \<notin> fst ` set ts" by (auto simp: position_None)
    then show ?thesis using None by (auto simp: add_term_def)
  next
    case (Some p)
    note pk = position_key [OF Some]
    let ?n = "snd (ts ! p) + c"
    have ev: "eval_terms \<sigma> ts = of_int (snd (ts ! p)) * \<sigma> v + eval_terms \<sigma> (vec_remove p ts)"
      using eval_vec_remove [OF pk(1), of \<sigma>] pk(2) by simp
    show ?thesis
    proof (cases "?n = 0")
      case True
      then have at: "add_term exact v c ts = vec_remove p ts" using Some by (simp add: add_term_def)
      have "of_int (snd (ts ! p)) + of_int c = (0 :: 'a)" using True by (metis of_int_0 of_int_add)
      then have "of_int (snd (ts ! p)) * \<sigma> v + of_int c * \<sigma> v = 0" by (simp flip: distrib_right)
      with ev have "eval_terms \<sigma> (vec_remove p ts) = eval_terms \<sigma> ts + of_int c * \<sigma> v" by (simp add: algebra_simps)
      moreover have "fst ` set (vec_remove p ts) \<subseteq> fst ` set ts" "snd ` set (vec_remove p ts) \<subseteq> snd ` set ts"
        using vec_remove_mem [of p ts] by auto
      ultimately show ?thesis
        unfolding at map_fst_vec_remove by (auto simp: distinct_vec_remove)
    next
      case False
      then have at: "add_term exact v c ts = ts[p := (v, ?n)]" using Some pk(2) by (simp add: add_term_def)
      have "eval_terms \<sigma> (ts[p := (v, ?n)]) = of_int ?n * \<sigma> v + eval_terms \<sigma> (vec_remove p (ts[p := (v, ?n)]))"
        using eval_vec_remove [of p "ts[p := (v, ?n)]" \<sigma>] pk(1) by simp
      moreover have "vec_remove p (ts[p := (v, ?n)]) = vec_remove p ts" using pk(1) by (simp add: vec_remove_def)
      moreover have "map fst (ts[p := (v, ?n)]) = map fst ts" using pk by (simp add: map_update list_update_same_conv)
      moreover have "set (ts[p := (v, ?n)]) \<subseteq> insert (v, ?n) (set ts)" by (rule set_update_subset_insert)
      ultimately show ?thesis unfolding at using ev False by (auto simp: algebra_simps)
    qed
  qed
  then show "eval_terms \<sigma> (add_term exact v c ts) = eval_terms \<sigma> ts + of_int c * \<sigma> v"
    and "distinct (map fst ts) \<Longrightarrow> distinct (map fst (add_term exact v c ts))"
    and "fst ` set (add_term exact v c ts) \<subseteq> insert v (fst ` set ts)"
    and "0 \<notin> snd ` set ts \<Longrightarrow> c \<noteq> 0 \<Longrightarrow> 0 \<notin> snd ` set (add_term exact v c ts)"
    by blast+
qed

lemma eval_filter_key:
  assumes "distinct (map fst ts)" "p < length ts"
  shows "eval_terms \<sigma> (filter (\<lambda>(v, _). v \<noteq> fst (ts ! p)) ts) = eval_terms \<sigma> (vec_remove p ts)"
proof -
  have s: "ts = take p ts @ ts ! p # drop (Suc p) ts" using assms(2) by (rule id_take_nth_drop)
  have "fst (ts ! p) \<notin> set (vec_remove p (map fst ts))"
    using vec_remove_notin [OF assms(1), of p] assms(2) by simp
  then have "fst (ts ! p) \<notin> fst ` set (vec_remove p ts)" unfolding map_fst_vec_remove [symmetric] by simp
  then have "\<forall>t\<in>set (vec_remove p ts). fst t \<noteq> fst (ts ! p)" by (metis image_eqI)
  then have "filter (\<lambda>(v, _). v \<noteq> fst (ts ! p)) (take p ts) = take p ts"
    "filter (\<lambda>(v, _). v \<noteq> fst (ts ! p)) (drop (Suc p) ts) = drop (Suc p) ts"
    by (auto simp: vec_remove_def filter_id_conv case_prod_beta)
  then have "filter (\<lambda>(v, _). v \<noteq> fst (ts ! p)) (take p ts @ ts ! p # drop (Suc p) ts) = vec_remove p ts"
    by (simp add: case_prod_beta vec_remove_def)
  then show ?thesis using s by simp
qed

lemma add_def_terms_props:
  assumes "add_def_terms exact x k d us ts = Inr ts'" "k = 1 \<or> k = -1"
  shows "eval_terms \<sigma> ts' = eval_terms \<sigma> ts - of_int (d * k) * eval_terms \<sigma> (filter (\<lambda>(v, _). v \<noteq> x) us)
    \<and> (distinct (map fst ts) \<longrightarrow> distinct (map fst ts'))
    \<and> fst ` set ts' \<subseteq> fst ` set ts \<union> (fst ` set us - {x})
    \<and> (0 \<notin> snd ` set ts \<longrightarrow> 0 \<notin> snd ` set us \<longrightarrow> d \<noteq> 0 \<longrightarrow> 0 \<notin> snd ` set ts')"
  using assms(1)
proof (induction us arbitrary: ts)
  case (Cons u us)
  obtain v c where u: "u = (v, c)" by (cases u)
  show ?case
  proof (cases "v = x")
    case True
    then show ?thesis using Cons u by auto
  next
    case False
    with Cons.prems u obtain q where q: "neg_quot exact c k = Inr q"
      and rest: "add_def_terms exact x k d us (add_term exact v (d * q) ts) = Inr ts'"
      by (auto simp: attempt_Inr_iff)
    have q': "q = - c * k" by (rule neg_quot_exact [OF q assms(2)])
    note A = add_term_props(1) [of \<sigma> v "d * q" ts] add_term_props(2) [of ts v "d * q"]
      add_term_props(3) [of v "d * q" ts] add_term_props(4) [of ts "d * q" v]
    note IH = Cons.IH [OF rest]
    have "eval_terms \<sigma> ts' = eval_terms \<sigma> ts - of_int (d * k) * eval_terms \<sigma> (filter (\<lambda>(v, _). v \<noteq> x) (u # us))"
      using IH A(1) u False q' by (simp add: algebra_simps)
    moreover have "distinct (map fst ts) \<longrightarrow> distinct (map fst ts')" using IH A(2) by blast
    moreover have "fst ` set ts' \<subseteq> fst ` set ts \<union> (fst ` set (u # us) - {x})"
      using IH A(3) u False by (simp add: subset_iff) blast
    moreover have "d * q \<noteq> 0" if "0 \<notin> snd ` set (u # us)" "d \<noteq> 0" using that u q' assms(2) by auto
    then have "0 \<notin> snd ` set ts \<longrightarrow> 0 \<notin> snd ` set (u # us) \<longrightarrow> d \<noteq> 0 \<longrightarrow> 0 \<notin> snd ` set ts'"
      using IH A(4) u by auto
    ultimately show ?thesis by blast
  qed
qed auto

text \<open>A variable with coefficient one or minus one in an equation, and a constraint it is
  replaced in.\<close>

definition con_nz :: "constraint \<Rightarrow> bool" where
  "con_nz c \<longleftrightarrow> 0 \<notin> snd ` set (terms (con_lin c))"

definition con_vars :: "constraint \<Rightarrow> var set" where
  "con_vars c = fst ` set (terms (con_lin c))"

lemma substitute_into_props:
  assumes sub: "substitute_into exact x k dlin c = Inr c'" and k: "k = 1 \<or> k = -1"
    and d: "lin_wf dlin" "p < length (terms dlin)" "terms dlin ! p = (x, k)" and wf: "con_wf c"
  shows "con_wf c'" "con_rel c' = con_rel c" "x \<notin> con_vars c'"
    and "con_vars c' \<subseteq> con_vars c \<union> fst ` set (terms dlin)"
    and "con_nz c \<Longrightarrow> 0 \<notin> snd ` set (terms dlin) \<Longrightarrow> con_nz c'"
    and "lin_value \<sigma> dlin = 0 \<Longrightarrow> lin_value \<sigma> (con_lin c') = lin_value \<sigma> (con_lin c)"
proof -
  have "con_wf c' \<and> con_rel c' = con_rel c \<and> x \<notin> con_vars c' \<and> con_vars c' \<subseteq> con_vars c \<union> fst ` set (terms dlin)
    \<and> (con_nz c \<longrightarrow> 0 \<notin> snd ` set (terms dlin) \<longrightarrow> con_nz c')
    \<and> (lin_value \<sigma> dlin = 0 \<longrightarrow> lin_value \<sigma> (con_lin c') = lin_value \<sigma> (con_lin c))"
  proof (cases "position (\<lambda>(v, _). v = x) (terms (con_lin c))")
    case None
    then have "x \<notin> con_vars c" by (auto simp: con_vars_def position_None)
    then show ?thesis using None sub wf by (auto simp: substitute_into_def Let_def)
  next
    case (Some pos)
    let ?ts = "terms (con_lin c)"
    let ?d = "snd (?ts ! pos)"
    note pk = position_key [OF Some]
    from Some sub obtain ts q where ts: "add_def_terms exact x k ?d (terms dlin) (vec_remove pos ?ts) = Inr ts"
      and q: "neg_quot exact (const_term dlin) k = Inr q"
      and c': "c' = Constraint \<lparr>terms = ts, const_term = const_term (con_lin c) + ?d * q\<rparr> (con_rel c)"
      by (auto simp: substitute_into_def Let_def attempt_Inr_iff)
    have q': "q = - const_term dlin * k" by (rule neg_quot_exact [OF q k])
    note A = add_def_terms_props [OF ts k, of \<sigma>]
    have dist: "distinct (map fst ?ts)" using wf by (simp add: con_wf_def lin_wf_def)
    have out: "x \<notin> fst ` set (vec_remove pos ?ts)"
      using vec_remove_notin [OF dist, of pos] pk unfolding map_fst_vec_remove [symmetric] by simp
    have sub_ts: "fst ` set (vec_remove pos ?ts) \<subseteq> fst ` set ?ts" "snd ` set (vec_remove pos ?ts) \<subseteq> snd ` set ?ts"
      using vec_remove_mem [of pos ?ts] by auto
    have d_nz: "?d \<noteq> 0" if "con_nz c" using that pk(1) by (metis con_nz_def image_eqI nth_mem)
    have "lin_value \<sigma> (con_lin c') = lin_value \<sigma> (con_lin c)" if z: "lin_value \<sigma> dlin = 0"
    proof -
      have "eval_terms \<sigma> (filter (\<lambda>(v, _). v \<noteq> x) (terms dlin)) = eval_terms \<sigma> (vec_remove p (terms dlin))"
        using eval_filter_key [of "terms dlin" p \<sigma>] d by (simp add: lin_wf_def)
      also have "\<dots> = - of_int k * \<sigma> x - of_int (const_term dlin)"
        using z eval_vec_remove [OF d(2), of \<sigma>] d(3) by (simp add: lin_value_def algebra_simps)
      finally have "lin_value \<sigma> (con_lin c') = eval_terms \<sigma> (vec_remove pos ?ts)
          - of_int (?d * k) * (- of_int k * \<sigma> x - of_int (const_term dlin)) + of_int (const_term (con_lin c)) - of_int ?d * of_int (const_term dlin) * of_int k"
        using A c' q' by (simp add: lin_value_def)
      also have "\<dots> = eval_terms \<sigma> (vec_remove pos ?ts) + of_int ?d * (of_int k * of_int k) * \<sigma> x + of_int (const_term (con_lin c))"
        by (simp add: algebra_simps)
      also have "\<dots> = lin_value \<sigma> (con_lin c)"
        using k eval_vec_remove [OF pk(1), of \<sigma>] pk(2) by (auto simp: lin_value_def)
      finally show ?thesis .
    qed
    moreover have "con_wf c'"
      using A dist c' by (simp add: con_wf_def lin_wf_def map_fst_vec_remove distinct_vec_remove)
    moreover have "x \<notin> con_vars c'"
    proof -
      have "fst ` set ts \<subseteq> fst ` set (vec_remove pos ?ts) \<union> (fst ` set (terms dlin) - {x})" using A by blast
      then have "x \<notin> fst ` set ts" using out by blast
      then show ?thesis using c' by (simp add: con_vars_def)
    qed
    moreover have "con_vars c' \<subseteq> con_vars c \<union> fst ` set (terms dlin)"
    proof -
      have "fst ` set ts \<subseteq> fst ` set (vec_remove pos ?ts) \<union> (fst ` set (terms dlin) - {x})" using A by blast
      also have "\<dots> \<subseteq> fst ` set ?ts \<union> fst ` set (terms dlin)" using sub_ts(1) by (intro Un_mono) simp_all
      finally show ?thesis using c' by (simp add: con_vars_def)
    qed
    moreover have "con_nz c \<longrightarrow> 0 \<notin> snd ` set (terms dlin) \<longrightarrow> con_nz c'"
    proof (intro impI)
      assume nz: "con_nz c" "0 \<notin> snd ` set (terms dlin)"
      then have "0 \<notin> snd ` set (vec_remove pos ?ts)" using sub_ts(2) by (auto simp: con_nz_def)
      then have "0 \<notin> snd ` set ts" using A nz(2) d_nz [OF nz(1)] by blast
      then show "con_nz c'" using c' by (simp add: con_nz_def)
    qed
    moreover have "con_rel c' = con_rel c" using c' by simp
    ultimately show ?thesis by blast
  qed
  then show "con_wf c'" "con_rel c' = con_rel c" "x \<notin> con_vars c'"
    and "con_vars c' \<subseteq> con_vars c \<union> fst ` set (terms dlin)"
    and "con_nz c \<Longrightarrow> 0 \<notin> snd ` set (terms dlin) \<Longrightarrow> con_nz c'"
    and "lin_value \<sigma> dlin = 0 \<Longrightarrow> lin_value \<sigma> (con_lin c') = lin_value \<sigma> (con_lin c)"
    by blast+
qed

end
