(* ===== verification/Telos_Extract.thy ===== *)
theory Telos_Extract
  imports Telos_Ast Telos_Solver
begin

text \<open>
  The extraction of verification problems from contracts and bodies
  (\<open>tpt-telos-ir/src/extract.rs\<close>). Arithmetic on \<open>i64\<close> goes through \<open>w\<close> as in
  \<^theory_text>\<open>Telos_Ir\<close>; error messages are values of \<open>extract_error\<close>. A \<open>HashSet\<close> is a list without repetitions, and
  \<open>fo\<close> is the order in which the code walks the one it iterates over.
\<close>

section \<open>Errors and names\<close>

datatype extract_error =
    NonLinearMul | DivByZero | DivNotConst | NonIntegerDiv | ExpectedArith | IndexReceiver | IndexNotConst | CannotLower
  | OrNotAllowed | ExpectedBool | RangeNotConst | ForallDomain | ForallNoDomain | AggregateUnsupported | AggregateMinMax
  | AggregateNotCompared | IfCondition | MatchMutates | CompoundLocal bytes | AssignTarget | ArithPanic

type_synonym naming = "bytes \<Rightarrow> bytes \<Rightarrow> bytes"

definition pre_field :: naming where
  "pre_field base field = base @ [46] @ field"

definition post_field :: naming where
  "post_field base field = base @ [46] @ field @ [39]"

abbreviation (input) same_name :: "bytes \<Rightarrow> bytes" where
  "same_name \<equiv> \<lambda>name. name"

definition int_digits :: "int \<Rightarrow> bytes" where
  "int_digits n = (if n < 0 then 45 # dec_digits (nat (- n)) else dec_digits (nat n))"

fun traverse :: "('a \<Rightarrow> 'e + 'b) \<Rightarrow> 'a list \<Rightarrow> 'e + 'b list" where
  "traverse f [] = Inr []"
| "traverse f (x # xs) = attempt (f x) (\<lambda>y. attempt (traverse f xs) (\<lambda>ys. Inr (y # ys)))"

fun fold_err :: "('a \<Rightarrow> 's \<Rightarrow> 'e + 's) \<Rightarrow> 'a list \<Rightarrow> 's \<Rightarrow> 'e + 's" where
  "fold_err f [] s = Inr s"
| "fold_err f (x # xs) s = attempt (f x s) (fold_err f xs)"

lemma traverse_cong [fundef_cong]:
  "xs = ys \<Longrightarrow> (\<And>x. x \<in> set ys \<Longrightarrow> f x = g x) \<Longrightarrow> traverse f xs = traverse g ys"
proof (induction ys arbitrary: xs)
  case (Cons y ys)
  then show ?case by (auto intro: attempt_cong)
qed simp

lemma fold_err_cong [fundef_cong]:
  "xs = ys \<Longrightarrow> s = t \<Longrightarrow> (\<And>x s. x \<in> set ys \<Longrightarrow> f x s = g x s) \<Longrightarrow> fold_err f xs s = fold_err g ys t"
proof (induction ys arbitrary: xs s t)
  case (Cons y ys)
  have "fold_err f ys = fold_err g ys" using Cons.IH [OF refl refl] Cons.prems(3) by (simp add: fun_eq_iff)
  with Cons.prems show ?case by simp
qed simp

lemma traverse_Inr: "traverse f xs = Inr ys \<longleftrightarrow> list_all2 (\<lambda>x y. f x = Inr y) xs ys"
  by (induction xs arbitrary: ys) (auto simp: attempt_Inr_iff list_all2_Cons1)

text \<open>Specialising a type-level invariant to a binding.\<close>

fun instantiate :: "bytes \<Rightarrow> expr \<Rightarrow> expr" where
  "instantiate base (EVar v) = EField base v"
| "instantiate base (EUnary op e) = EUnary op (instantiate base e)"
| "instantiate base (EBin op l r) = EBin op (instantiate base l) (instantiate base r)"
| "instantiate base e = e"

section \<open>Linear arithmetic\<close>

fun as_int :: "expr \<Rightarrow> int option" where
  "as_int (EInt n) = Some n"
| "as_int _ = None"

definition rem_panics :: "int \<Rightarrow> int \<Rightarrow> bool" where
  "rem_panics c k \<longleftrightarrow> c = - (2 ^ 63) \<and> k = -1"

definition div_exact :: "int \<Rightarrow> int \<Rightarrow> extract_error + int" where
  "div_exact k c = (if rem_panics c k then Inl ArithPanic else if c mod k \<noteq> 0 then Inl NonIntegerDiv else Inr (c div k))"

definition scale_exact :: "linear \<Rightarrow> int \<Rightarrow> extract_error + linear" where
  "scale_exact l k =
     attempt (div_exact k (const_term l)) (\<lambda>c.
     attempt (traverse (\<lambda>(v, c). attempt (div_exact k c) (\<lambda>q. Inr (v, q))) (terms l)) (\<lambda>ts.
       Inr \<lparr>terms = ts, const_term = c\<rparr>))"

fun linearize :: "(int \<Rightarrow> int) \<Rightarrow> naming \<Rightarrow> (bytes \<Rightarrow> bytes) \<Rightarrow> expr \<Rightarrow> extract_error + linear" where
  "linearize w ff vf (EInt n) = Inr (constant_only n)"
| "linearize w ff vf (EVar name) = Inr (lin_var (vf name))"
| "linearize w ff vf (EField base field) = Inr (lin_var (ff base field))"
| "linearize w ff vf (EOld e) = linearize w pre_field vf e"
| "linearize w ff vf (EUnary Neg e) = attempt (linearize w ff vf e) (\<lambda>l. Inr (lin_neg w l))"
| "linearize w ff vf (EBin op lhs rhs) =
     attempt (linearize w ff vf lhs) (\<lambda>l.
     attempt (linearize w ff vf rhs) (\<lambda>r.
       case op of
         Add \<Rightarrow> Inr (lin_add w l r)
       | Sub \<Rightarrow> Inr (lin_sub w l r)
       | Mul \<Rightarrow>
           (case as_int rhs of
              Some k \<Rightarrow> Inr (lin_scale w k l)
            | None \<Rightarrow> (case as_int lhs of Some k \<Rightarrow> Inr (lin_scale w k r) | None \<Rightarrow> Inl NonLinearMul))
       | Div \<Rightarrow>
           (case as_int rhs of
              Some k \<Rightarrow> if k = 0 then Inl DivByZero else scale_exact l k
            | None \<Rightarrow> Inl DivNotConst)
       | _ \<Rightarrow> Inl ExpectedArith))"
| "linearize w ff vf (EIndex receiver index) =
     (case as_int index of
        Some idx \<Rightarrow>
          (case receiver of
             EField base _ \<Rightarrow> Inr (lin_var (ff base (int_digits idx)))
           | EVar name \<Rightarrow> Inr (lin_var (vf (name @ [46] @ int_digits idx)))
           | _ \<Rightarrow> Inl IndexReceiver)
      | None \<Rightarrow> Inl IndexNotConst)"
| "linearize w ff vf _ = Inl CannotLower"

section \<open>Disjunctive normal form\<close>

type_synonym dnf = "constraint list list"

definition relation_of :: "bin_op \<Rightarrow> relation option" where
  "relation_of op = (case op of OpEq \<Rightarrow> Some Eq | OpNe \<Rightarrow> Some Ne | OpLt \<Rightarrow> Some Lt | OpLe \<Rightarrow> Some Le
     | OpGt \<Rightarrow> Some Gt | OpGe \<Rightarrow> Some Ge | _ \<Rightarrow> None)"

definition combine_dnf :: "dnf \<Rightarrow> dnf \<Rightarrow> dnf" where
  "combine_dnf a b = concat (map (\<lambda>x. map (\<lambda>y. x @ y) b) a)"

fun negate_relation :: "relation \<Rightarrow> relation" where
  "negate_relation Eq = Ne"
| "negate_relation Ne = Eq"
| "negate_relation Le = Gt"
| "negate_relation Lt = Ge"
| "negate_relation Ge = Lt"
| "negate_relation Gt = Le"

fun negate_dnf_from :: "dnf \<Rightarrow> dnf \<Rightarrow> dnf" where
  "negate_dnf_from result [] = result"
| "negate_dnf_from result (branch # dnf) =
     (if branch = [] then []
      else negate_dnf_from
        (combine_dnf result (map (\<lambda>c. [Constraint (con_lin c) (negate_relation (con_rel c))]) branch)) dnf)"

definition negate_dnf :: "dnf \<Rightarrow> dnf" where
  "negate_dnf dnf = negate_dnf_from [[]] dnf"

definition trunc_div :: "int \<Rightarrow> int \<Rightarrow> int" where
  "trunc_div x y = sgn x * sgn y * (\<bar>x\<bar> div \<bar>y\<bar>)"

fun eval_const_expr :: "(int \<Rightarrow> int) \<Rightarrow> expr \<Rightarrow> extract_error + int option" where
  "eval_const_expr w (EInt n) = Inr (Some n)"
| "eval_const_expr w (EUnary Neg e) = attempt (eval_const_expr w e) (\<lambda>r. Inr (map_option (\<lambda>v. w (- v)) r))"
| "eval_const_expr w (EBin op lhs rhs) =
     attempt (eval_const_expr w lhs) (\<lambda>l.
       case l of None \<Rightarrow> Inr None
       | Some x \<Rightarrow> attempt (eval_const_expr w rhs) (\<lambda>r.
           case r of None \<Rightarrow> Inr None
           | Some y \<Rightarrow>
               (case op of
                  Add \<Rightarrow> Inr (Some (w (x + y)))
                | Sub \<Rightarrow> Inr (Some (w (x - y)))
                | Mul \<Rightarrow> Inr (Some (w (x * y)))
                | Div \<Rightarrow>
                    if y = 0 then Inr None
                    else if rem_panics x y then Inl ArithPanic
                    else Inr (Some (trunc_div x y))
                | _ \<Rightarrow> Inr None)))"
| "eval_const_expr w _ = Inr None"

fun substitute_var :: "bytes \<Rightarrow> expr \<Rightarrow> expr \<Rightarrow> expr" where
  "substitute_var x r (EVar v) = (if v = x then r else EVar v)"
| "substitute_var x r (EOld e) = EOld (substitute_var x r e)"
| "substitute_var x r (EUnary op e) = EUnary op (substitute_var x r e)"
| "substitute_var x r (EBin op a b) = EBin op (substitute_var x r a) (substitute_var x r b)"
| "substitute_var x r (EForall v t d b) = EForall v t (map_option (substitute_var x r) d) (substitute_var x r b)"
| "substitute_var x r (EAggregate op args) = EAggregate op (map (substitute_var x r) args)"
| "substitute_var x r (ERange lo hi) = ERange (substitute_var x r lo) (substitute_var x r hi)"
| "substitute_var x r e = e"

lemma size_substitute_int: "size (substitute_var x (EInt i) e) = size e"
proof (induction e)
  case (EForall v t d b)
  then show ?case by (cases d) auto
next
  case (EAggregate op args)
  then have "map (size \<circ> substitute_var x (EInt i)) args = map size args" by simp
  then show ?case by (simp add: size_list_conv_sum_list del: map_eq_conv)
qed auto

definition const_range :: "(int \<Rightarrow> int) \<Rightarrow> expr \<Rightarrow> expr \<Rightarrow> extract_error + (int \<times> int)" where
  "const_range w lo hi =
     attempt (eval_const_expr w lo) (\<lambda>l.
       case l of None \<Rightarrow> Inl RangeNotConst
       | Some x \<Rightarrow> attempt (eval_const_expr w hi) (\<lambda>h.
           case h of None \<Rightarrow> Inl RangeNotConst | Some y \<Rightarrow> Inr (x, y)))"

lemma size_arm: "(p, e) \<in> set arms \<Longrightarrow> size e < Suc (size_list (size_prod (\<lambda>x. 0) size) arms + n)"
proof -
  assume "(p, e) \<in> set arms"
  then have "size_prod (\<lambda>x. 0) size (p, e) \<le> size_list (size_prod (\<lambda>x. 0) size) arms"
    by (intro size_list_estimation') auto
  then show ?thesis by simp
qed

function (sequential) to_constraints_dnf ::
  "(int \<Rightarrow> int) \<Rightarrow> naming \<Rightarrow> (bytes \<Rightarrow> bytes) \<Rightarrow> expr \<Rightarrow> extract_error + dnf" where
  "to_constraints_dnf w ff vf (EBin op lhs rhs) =
     (if op = Or then
        attempt (to_constraints_dnf w ff vf lhs) (\<lambda>left.
        attempt (to_constraints_dnf w ff vf rhs) (\<lambda>right. Inr (left @ right)))
      else if op = And then
        attempt (to_constraints_dnf w ff vf lhs) (\<lambda>left.
        attempt (to_constraints_dnf w ff vf rhs) (\<lambda>right. Inr (combine_dnf left right)))
      else
        (case relation_of op of
           Some rel \<Rightarrow>
             attempt (linearize w ff vf lhs) (\<lambda>l.
             attempt (linearize w ff vf rhs) (\<lambda>r. Inr [[Constraint (lin_sub w l r) rel]]))
         | None \<Rightarrow> Inl ExpectedBool))"
| "to_constraints_dnf w ff vf (EIf c t e) =
     attempt (to_constraints_dnf w ff vf c) (\<lambda>cond.
     attempt (to_constraints_dnf w ff vf t) (\<lambda>then_b.
     attempt (to_constraints_dnf w ff vf e) (\<lambda>else_b.
       Inr (combine_dnf cond then_b @ combine_dnf (negate_dnf cond) else_b))))"
| "to_constraints_dnf w ff vf (EMatch s arms) =
     attempt (traverse (\<lambda>(p, e). attempt (to_constraints_dnf w ff vf e) (\<lambda>branches.
         case p of
           PLiteral n \<Rightarrow>
             (case linearize w ff vf s of
                Inr l \<Rightarrow> Inr (combine_dnf [[Constraint (lin_sub w l (constant_only n)) Eq]] branches)
              | Inl _ \<Rightarrow> Inr branches)
         | _ \<Rightarrow> Inr branches)) arms) (\<lambda>outs.
       let out = concat outs in Inr (if out = [] then [[]] else out))"
| "to_constraints_dnf w ff vf (EForall v t d body) =
     (case d of
        Some (ERange lo hi) \<Rightarrow>
          attempt (const_range w lo hi) (\<lambda>(a, b).
            if b \<le> a then Inr [[]]
            else attempt (traverse (\<lambda>i. to_constraints_dnf w ff vf (substitute_var v (EInt i) body)) [a..b - 1]) (\<lambda>bs.
              Inr (foldl combine_dnf [[]] bs)))
      | Some _ \<Rightarrow> Inl ForallDomain
      | None \<Rightarrow> Inl ForallNoDomain)"
| "to_constraints_dnf w ff vf (EAggregate op args) =
     (case args of
        [EForall v t (Some (ERange lo hi)) body] \<Rightarrow>
          attempt (const_range w lo hi) (\<lambda>(a, b).
            if b \<le> a then Inr [[]]
            else if op = AggMin \<or> op = AggMax then
              attempt (linearize w ff vf (substitute_var v (EInt a) body)) (\<lambda>_. Inl AggregateMinMax)
            else
              attempt (traverse (\<lambda>i. linearize w ff vf (substitute_var v (EInt i) body)) [a..b - 1]) (\<lambda>_.
                Inl AggregateNotCompared))
      | _ \<Rightarrow> Inl AggregateUnsupported)"
| "to_constraints_dnf w ff vf _ = Inl ExpectedBool"
  by pat_completeness auto
termination
  by (relation "measure (\<lambda>(w, ff, vf, e). size e)") (auto simp: size_substitute_int size_arm)

definition to_constraints :: "(int \<Rightarrow> int) \<Rightarrow> naming \<Rightarrow> (bytes \<Rightarrow> bytes) \<Rightarrow> expr \<Rightarrow> extract_error + constraint list" where
  "to_constraints w ff vf e =
     attempt (to_constraints_dnf w ff vf e) (\<lambda>dnf. case dnf of [branch] \<Rightarrow> Inr branch | _ \<Rightarrow> Inl OrNotAllowed)"

section \<open>Bounds of variables\<close>

type_synonym var_bounds = "(var \<times> (int option \<times> int option)) list"

definition bound_deltas :: "(int \<Rightarrow> int) \<Rightarrow> int \<Rightarrow> int \<Rightarrow> relation \<Rightarrow> (int option \<times> int option) option" where
  "bound_deltas w coeff c rel =
     (if coeff = 1 then
        (case rel of
           Ge \<Rightarrow> Some (Some (w (- c)), None)
         | Gt \<Rightarrow> Some (Some (w (w (- c) + 1)), None)
         | Le \<Rightarrow> Some (None, Some (w (- c)))
         | Lt \<Rightarrow> Some (None, Some (w (w (- c) - 1)))
         | Eq \<Rightarrow> Some (Some (w (- c)), Some (w (- c)))
         | Ne \<Rightarrow> None)
      else if coeff = -1 then
        (case rel of
           Ge \<Rightarrow> Some (None, Some c)
         | Gt \<Rightarrow> Some (None, Some (w (c - 1)))
         | Le \<Rightarrow> Some (Some c, None)
         | Lt \<Rightarrow> Some (Some (w (c + 1)), None)
         | _ \<Rightarrow> None)
      else None)"

definition add_bound :: "(int \<Rightarrow> int) \<Rightarrow> var_bounds \<Rightarrow> constraint \<Rightarrow> var_bounds" where
  "add_bound w bounds c =
     (case terms (con_lin c) of
        [(v, coeff)] \<Rightarrow>
          (case bound_deltas w coeff (const_term (con_lin c)) (con_rel c) of
             None \<Rightarrow> bounds
           | Some (lo, hi) \<Rightarrow>
               (let (e_lo, e_hi) = (case bt_get bounds v of Some e \<Rightarrow> e | None \<Rightarrow> (None, None));
                    lo' = (case lo of Some x \<Rightarrow> Some (case e_lo of Some e \<Rightarrow> max e x | None \<Rightarrow> x) | None \<Rightarrow> e_lo);
                    hi' = (case hi of Some x \<Rightarrow> Some (case e_hi of Some e \<Rightarrow> min e x | None \<Rightarrow> x) | None \<Rightarrow> e_hi)
                in bt_insert v (lo', hi') bounds))
      | _ \<Rightarrow> bounds)"

definition collect_var_bounds :: "(int \<Rightarrow> int) \<Rightarrow> constraint list \<Rightarrow> var_bounds" where
  "collect_var_bounds w premises = foldl (add_bound w) [] premises"

definition lookup_bounds :: "var_bounds \<Rightarrow> var \<Rightarrow> (int option \<times> int option) option" where
  "lookup_bounds bounds v =
     (case bt_get bounds v of
        Some b \<Rightarrow> Some b
      | None \<Rightarrow> if v \<noteq> [] \<and> last v = 39 then bt_get bounds (butlast v) else None)"

fun expr_var_name :: "naming \<Rightarrow> (bytes \<Rightarrow> bytes) \<Rightarrow> expr \<Rightarrow> bytes option" where
  "expr_var_name ff vf (EVar name) = Some (vf name)"
| "expr_var_name ff vf (EField base field) = Some (ff base field)"
| "expr_var_name ff vf _ = None"

definition saturating_mul :: "int \<Rightarrow> int \<Rightarrow> int" where
  "saturating_mul x y = max (- (2 ^ 63)) (min (2 ^ 63 - 1) (x * y))"

definition product_bound :: "bool \<Rightarrow> int \<Rightarrow> int \<Rightarrow> int \<Rightarrow> int \<Rightarrow> int" where
  "product_bound min_corner a_lo a_hi b_lo b_hi =
     (let corners = [saturating_mul a_lo b_lo, saturating_mul a_lo b_hi, saturating_mul a_hi b_lo, saturating_mul a_hi b_hi]
      in if min_corner then Min (set corners) else Max (set corners))"

definition bounded_product ::
  "naming \<Rightarrow> (bytes \<Rightarrow> bytes) \<Rightarrow> var_bounds \<Rightarrow> bool \<Rightarrow> expr \<Rightarrow> expr \<Rightarrow> extract_error + linear" where
  "bounded_product ff vf bounds min_corner lhs rhs =
     (case (expr_var_name ff vf lhs, expr_var_name ff vf rhs) of
        (Some a, Some b) \<Rightarrow>
          (case (lookup_bounds bounds a, lookup_bounds bounds b) of
             (Some (Some a_lo, Some a_hi), Some (Some b_lo, Some b_hi)) \<Rightarrow>
               Inr (constant_only (product_bound min_corner a_lo a_hi b_lo b_hi))
           | _ \<Rightarrow> Inl NonLinearMul)
      | _ \<Rightarrow> Inl NonLinearMul)"

text \<open>The flag says whether a product was replaced by a bound.\<close>

fun linearize_bounded ::
  "(int \<Rightarrow> int) \<Rightarrow> naming \<Rightarrow> (bytes \<Rightarrow> bytes) \<Rightarrow> var_bounds \<Rightarrow> bool \<Rightarrow> expr \<Rightarrow> extract_error + (linear \<times> bool)" where
  "linearize_bounded w ff vf bs mc (EInt n) = Inr (constant_only n, False)"
| "linearize_bounded w ff vf bs mc (EVar name) = Inr (lin_var (vf name), False)"
| "linearize_bounded w ff vf bs mc (EField base field) = Inr (lin_var (ff base field), False)"
| "linearize_bounded w ff vf bs mc (EOld e) = linearize_bounded w pre_field vf bs mc e"
| "linearize_bounded w ff vf bs mc (EUnary Neg e) =
     attempt (linearize_bounded w ff vf bs mc e) (\<lambda>(l, approx). Inr (lin_neg w l, approx))"
| "linearize_bounded w ff vf bs mc (EBin op lhs rhs) =
     attempt (linearize_bounded w ff vf bs mc lhs) (\<lambda>(l, la).
     attempt (linearize_bounded w ff vf bs mc rhs) (\<lambda>(r, ra).
       case op of
         Add \<Rightarrow> Inr (lin_add w l r, la \<or> ra)
       | Sub \<Rightarrow> Inr (lin_sub w l r, la \<or> ra)
       | Mul \<Rightarrow>
           (case as_int rhs of
              Some k \<Rightarrow> Inr (lin_scale w k l, la \<or> ra)
            | None \<Rightarrow>
                (case as_int lhs of
                   Some k \<Rightarrow> Inr (lin_scale w k r, la \<or> ra)
                 | None \<Rightarrow> attempt (bounded_product ff vf bs mc lhs rhs) (\<lambda>b. Inr (b, True))))
       | Div \<Rightarrow>
           (case as_int rhs of
              Some k \<Rightarrow> if k = 0 then Inl DivByZero else attempt (scale_exact l k) (\<lambda>q. Inr (q, la \<or> ra))
            | None \<Rightarrow> Inl DivNotConst)
       | _ \<Rightarrow> Inl ExpectedArith))"
| "linearize_bounded w ff vf bs mc (EIndex receiver index) =
     attempt (linearize w ff vf (EIndex receiver index)) (\<lambda>l. Inr (l, False))"
| "linearize_bounded w ff vf bs mc _ = Inl CannotLower"

fun to_constraints_bounded ::
  "(int \<Rightarrow> int) \<Rightarrow> naming \<Rightarrow> (bytes \<Rightarrow> bytes) \<Rightarrow> var_bounds \<Rightarrow> expr \<Rightarrow> extract_error + (constraint list \<times> bool)" where
  "to_constraints_bounded w ff vf bs (EBin op lhs rhs) =
     (if op = And then
        attempt (to_constraints_bounded w ff vf bs lhs) (\<lambda>(l, la).
        attempt (to_constraints_bounded w ff vf bs rhs) (\<lambda>(r, ra). Inr (l @ r, la \<or> ra)))
      else
        (case relation_of op of
           Some rel \<Rightarrow>
             attempt (linearize_bounded w ff vf bs False lhs) (\<lambda>(l, la).
             attempt (linearize_bounded w ff vf bs False rhs) (\<lambda>(r, ra).
               Inr ([Constraint (lin_sub w l r) rel], la \<or> ra)))
         | None \<Rightarrow> Inl ExpectedBool))"
| "to_constraints_bounded w ff vf bs _ = Inl ExpectedBool"

fun to_constraints_bounded_dnf ::
  "(int \<Rightarrow> int) \<Rightarrow> naming \<Rightarrow> (bytes \<Rightarrow> bytes) \<Rightarrow> var_bounds \<Rightarrow> expr \<Rightarrow> extract_error + (dnf \<times> bool)" where
  "to_constraints_bounded_dnf w ff vf bs (EBin op lhs rhs) =
     (if op = Or then
        attempt (to_constraints_bounded_dnf w ff vf bs lhs) (\<lambda>(l, la).
        attempt (to_constraints_bounded_dnf w ff vf bs rhs) (\<lambda>(r, ra). Inr (l @ r, la \<or> ra)))
      else if op = And then
        attempt (to_constraints_bounded_dnf w ff vf bs lhs) (\<lambda>(l, la).
        attempt (to_constraints_bounded_dnf w ff vf bs rhs) (\<lambda>(r, ra). Inr (combine_dnf l r, la \<or> ra)))
      else
        (case relation_of op of
           Some rel \<Rightarrow>
             attempt (linearize_bounded w ff vf bs False lhs) (\<lambda>(l_max, la).
             attempt (linearize_bounded w ff vf bs False rhs) (\<lambda>(r_max, ra).
               if la \<or> ra then
                 attempt (linearize_bounded w ff vf bs True lhs) (\<lambda>(l_min, _).
                 attempt (linearize_bounded w ff vf bs True rhs) (\<lambda>(r_min, _).
                   Inr ([[Constraint (lin_sub w l_max r_max) rel, Constraint (lin_sub w l_min r_min) rel]], True)))
               else Inr ([[Constraint (lin_sub w l_max r_max) rel]], False)))
         | None \<Rightarrow> Inl ExpectedBool))"
| "to_constraints_bounded_dnf w ff vf bs _ = Inl ExpectedBool"

section \<open>Bodies\<close>

record body_branch =
  bb_extra_premises :: "constraint list"
  bb_mutations :: "constraint list"
  bb_assigned :: "(bytes \<times> bytes) list"

definition assign_constraint ::
  "(int \<Rightarrow> int) \<Rightarrow> naming \<Rightarrow> (bytes \<Rightarrow> bytes) \<Rightarrow> assign \<Rightarrow> extract_error + constraint" where
  "assign_constraint w ff vf a =
     (case asg_target a of
        EField base field \<Rightarrow>
          (let post = lin_var (post_field base field); pre = lin_var (pre_field base field) in
           attempt (linearize w ff vf (asg_value a)) (\<lambda>v.
             Inr (Constraint
               (case asg_op a of
                  ASet \<Rightarrow> lin_sub w post v
                | AAdd \<Rightarrow> lin_sub w (lin_sub w post pre) v
                | ASub \<Rightarrow> lin_add w (lin_sub w post pre) v) Eq)))
      | EVar name \<Rightarrow>
          (if asg_op a = ASet then
             attempt (linearize w ff vf (asg_value a)) (\<lambda>v. Inr (Constraint (lin_sub w (lin_var (vf name)) v) Eq))
           else Inl (CompoundLocal name))
      | _ \<Rightarrow> Inl AssignTarget)"

definition target_field :: "assign \<Rightarrow> (bytes \<times> bytes) list" where
  "target_field a = (case asg_target a of EField base field \<Rightarrow> [(base, field)] | _ \<Rightarrow> [])"

definition apply_assign ::
  "(int \<Rightarrow> int) \<Rightarrow> naming \<Rightarrow> (bytes \<Rightarrow> bytes) \<Rightarrow> assign \<Rightarrow> body_branch list \<Rightarrow> extract_error + body_branch list" where
  "apply_assign w ff vf a branches =
     attempt (assign_constraint w ff vf a) (\<lambda>c.
       Inr (map (\<lambda>b. b\<lparr>bb_mutations := bb_mutations b @ [c], bb_assigned := bb_assigned b @ target_field a\<rparr>) branches))"

definition if_condition ::
  "(int \<Rightarrow> int) \<Rightarrow> naming \<Rightarrow> (bytes \<Rightarrow> bytes) \<Rightarrow> expr \<Rightarrow> extract_error + (linear \<times> relation)" where
  "if_condition w ff vf cond =
     (case cond of
        EBin op lhs rhs \<Rightarrow>
          (case relation_of op of
             Some rel \<Rightarrow>
               attempt (linearize w ff vf lhs) (\<lambda>l.
               attempt (linearize w ff vf rhs) (\<lambda>r. Inr (lin_sub w l r, rel)))
           | None \<Rightarrow> Inl IfCondition)
      | _ \<Rightarrow> Inl IfCondition)"

fun mutates_state :: "stmt \<Rightarrow> bool" where
  "mutates_state (SLet _ _ _) = False"
| "mutates_state (SReturn _) = False"
| "mutates_state _ = True"

function (sequential) process_body_stmts ::
  "(int \<Rightarrow> int) \<Rightarrow> naming \<Rightarrow> (bytes \<Rightarrow> bytes) \<Rightarrow> stmt list \<Rightarrow> body_branch list \<Rightarrow> extract_error + body_branch list" where
  "process_body_stmts w ff vf [] branches = Inr branches"
| "process_body_stmts w ff vf (SMutateState assigns # stmts) branches =
     attempt (fold_err (apply_assign w ff vf) assigns branches) (process_body_stmts w ff vf stmts)"
| "process_body_stmts w ff vf (SAssign a # stmts) branches =
     attempt (apply_assign w ff vf a branches) (process_body_stmts w ff vf stmts)"
| "process_body_stmts w ff vf (SIf cond then_body else_body # stmts) branches =
     attempt (if_condition w ff vf cond) (\<lambda>(diff, rel).
     attempt (process_body_stmts w ff vf then_body
         (map (\<lambda>b. b\<lparr>bb_extra_premises := bb_extra_premises b @ [Constraint diff rel]\<rparr>) branches)) (\<lambda>then_branches.
     attempt (process_body_stmts w ff vf (case else_body of Some b \<Rightarrow> b | None \<Rightarrow> [])
         (map (\<lambda>b. b\<lparr>bb_extra_premises := bb_extra_premises b @ [Constraint diff (negate_relation rel)]\<rparr>) branches)) (\<lambda>else_branches.
       process_body_stmts w ff vf stmts (then_branches @ else_branches))))"
| "process_body_stmts w ff vf (SMatch s arms # stmts) branches =
     (if list_ex (\<lambda>(_, body). list_ex mutates_state body) arms then Inl MatchMutates
      else process_body_stmts w ff vf stmts branches)"
| "process_body_stmts w ff vf (SLet _ _ _ # stmts) branches = process_body_stmts w ff vf stmts branches"
| "process_body_stmts w ff vf (SReturn _ # stmts) branches = process_body_stmts w ff vf stmts branches"
  by pat_completeness auto
termination
  by (relation "measure (\<lambda>(w, ff, vf, stmts, _). size_list size stmts)") (auto split: option.splits)

end
