(* ===== verification/Telos_Sound.thy ===== *)
theory Telos_Sound
  imports Telos_Solver
begin

text \<open>
  What the answers of the solver mean: substitution of equalities changes no satisfiability,
  a set reported unsatisfiable has no integer solution, a set reported satisfiable has a
  rational one, and what is entailed is true.
\<close>

section \<open>The substitution loop\<close>

lemma substitute_all_list_all2:
  "substitute_all w x k dlin cs = Inr cs' \<Longrightarrow> list_all2 (\<lambda>c c'. substitute_into w x k dlin c = Inr c') cs cs'"
  by (induction cs arbitrary: cs') (auto simp: attempt_Inr_iff)

lemma find_def_0:
  assumes "find_def cs 0 = Some (j, p)"
  obtains x k where "j < length cs" "con_rel (cs ! j) = Eq" "terms (con_lin (cs ! j)) ! p = (x, k)"
    "p < length (terms (con_lin (cs ! j)))" "k = 1 \<or> k = -1"
proof -
  note f = find_def_bound [OF assms, simplified]
  obtain x k where xk: "terms (con_lin (cs ! j)) ! p = (x, k)" by (cases "terms (con_lin (cs ! j)) ! p")
  have "position (\<lambda>(_, k). k = 1 \<or> k = -1) (terms (con_lin (cs ! j))) = Some p" using f by simp
  from position_Some [OF this] xk have "p < length (terms (con_lin (cs ! j)))" "k = 1 \<or> k = -1" by auto
  then show ?thesis using f xk that by blast
qed

lemma list_all_vec_remove:
  "j < length cs \<Longrightarrow> list_all P cs \<longleftrightarrow> P (cs ! j) \<and> list_all P (vec_remove j cs)"
proof -
  assume "j < length cs"
  then have "list_all P cs \<longleftrightarrow> list_all P (take j cs @ cs ! j # drop (Suc j) cs)" by (simp flip: id_take_nth_drop)
  then show ?thesis by (auto simp: vec_remove_def)
qed

text \<open>One round: the constraints left are equivalent to the ones before.\<close>

lemma substitution_round:
  fixes \<sigma> :: "var \<Rightarrow> 'a::linordered_idom"
  assumes j: "j < length cs" "con_rel (cs ! j) = Eq" "terms (con_lin (cs ! j)) ! p = (x, k)"
      "p < length (terms (con_lin (cs ! j)))" "k = 1 \<or> k = -1"
    and wf: "list_all con_wf cs"
    and sub: "substitute_all exact x k (con_lin (cs ! j)) (vec_remove j cs) = Inr cs'"
  shows "list_all con_wf cs'"
    and "list_all con_nz cs \<Longrightarrow> list_all con_nz cs'"
    and "list_all (tight \<sigma>) cs \<Longrightarrow> list_all (tight \<sigma>) cs'"
    and "list_all (tight \<sigma>) cs' \<Longrightarrow> \<exists>\<tau> :: var \<Rightarrow> 'a. list_all (tight \<tau>) cs"
proof -
  let ?d = "con_lin (cs ! j)" and ?rest = "vec_remove j cs"
  note l2 = substitute_all_list_all2 [OF sub]
  have len: "length ?rest = length cs'" using l2 by (rule list_all2_lengthD)
  have dwf: "lin_wf ?d" using wf j(1) by (simp add: list_all_length con_wf_def)
  have rwf: "list_all con_wf ?rest" using wf list_all_vec_remove [OF j(1)] by blast
  have step: "substitute_into exact x k ?d (?rest ! i) = Inr (cs' ! i)" "con_wf (?rest ! i)" if "i < length cs'" for i
    using l2 rwf that len by (auto simp: list_all2_conv_all_nth list_all_length)
  note props = substitute_into_props [OF step(1) j(5) dwf j(4) j(3) step(2)]
  have val: "tight \<rho> (cs' ! i) = tight \<rho> (?rest ! i)" if "i < length cs'" "lin_value \<rho> ?d = 0" for i and \<rho> :: "var \<Rightarrow> 'a"
    using props(2) [OF that(1) that(1)] props(6) [OF that(1) that(1) that(2)] by (simp add: tight_def)
  show "list_all con_wf cs'" using props(1) by (auto simp: list_all_length)
  show "list_all con_nz cs'" if nz: "list_all con_nz cs"
  proof -
    have "con_nz (cs ! j)" "list_all con_nz ?rest" using nz list_all_vec_remove [OF j(1)] by blast+
    then show ?thesis using props(5) len by (auto simp: list_all_length con_nz_def)
  qed
  show "list_all (tight \<sigma>) cs'" if all: "list_all (tight \<sigma>) cs"
  proof -
    have "lin_value \<sigma> ?d = 0" using all list_all_vec_remove [OF j(1)] j(2) by (auto simp: tight_def)
    then show ?thesis using all list_all_vec_remove [OF j(1)] val len by (auto simp: list_all_length)
  qed
  show "\<exists>\<tau> :: var \<Rightarrow> 'a. list_all (tight \<tau>) cs" if all: "list_all (tight \<sigma>) cs'"
  proof -
    define s where "s = - of_int k * (eval_terms \<sigma> (vec_remove p (terms ?d)) + of_int (const_term ?d))"
    let ?t = "\<sigma>(x := s)"
    have "x \<notin> fst ` set (vec_remove p (terms ?d))"
      using vec_remove_notin [of "map fst (terms ?d)" p] dwf j(3,4)
      unfolding map_fst_vec_remove [symmetric] by (simp add: lin_wf_def)
    then have "eval_terms ?t (vec_remove p (terms ?d)) = eval_terms \<sigma> (vec_remove p (terms ?d))"
      by (intro eval_terms_cong) (metis fun_upd_other)
    then have zero: "lin_value ?t ?d = 0"
      using eval_vec_remove [OF j(4), of ?t] j(3,5) by (auto simp: lin_value_def s_def)
    have "tight ?t (cs' ! i)" if "i < length cs'" for i
    proof -
      have "lin_value ?t (con_lin (cs' ! i)) = lin_value \<sigma> (con_lin (cs' ! i))"
        unfolding lin_value_def using props(3) [OF that that]
        by (intro arg_cong2 [where f = "(+)"] eval_terms_cong) (auto simp: con_vars_def)
      then show ?thesis using all that by (simp add: tight_def list_all_length)
    qed
    then have "list_all (tight ?t) ?rest" using val [OF _ zero] len by (auto simp: list_all_length)
    moreover have "tight ?t (cs ! j)" using zero j(2) by (simp add: tight_def)
    ultimately have "list_all (tight ?t) cs" using list_all_vec_remove [OF j(1)] by blast
    then show ?thesis by blast
  qed
qed

lemma equality_substitute_equiv:
  fixes \<sigma> :: "var \<Rightarrow> 'a::linordered_idom"
  assumes "equality_substitute exact cs = Inr cs'" "list_all con_wf cs"
  shows "list_all con_wf cs' \<and> (list_all con_nz cs \<longrightarrow> list_all con_nz cs')
    \<and> (list_all (tight \<sigma>) cs \<longrightarrow> list_all (tight \<sigma>) cs')
    \<and> ((\<exists>\<tau> :: var \<Rightarrow> 'a. list_all (tight \<tau>) cs') \<longrightarrow> (\<exists>\<tau> :: var \<Rightarrow> 'a. list_all (tight \<tau>) cs))"
  using assms
proof (induction "exact" cs arbitrary: cs' rule: equality_substitute.induct)
  case (1 cs)
  show ?case
  proof (cases "find_def cs 0")
    case None
    then show ?thesis using 1(2,3) by (subst (asm) equality_substitute.simps) simp
  next
    case (Some jp)
    obtain j p where jp: "jp = (j, p)" by (cases jp)
    obtain x k where xk: "j < length cs" "con_rel (cs ! j) = Eq" "terms (con_lin (cs ! j)) ! p = (x, k)"
        "p < length (terms (con_lin (cs ! j)))" "k = 1 \<or> k = -1"
      using find_def_0 [OF Some [unfolded jp]] .
    from 1(2) obtain mid where mid: "substitute_all exact x k (con_lin (cs ! j)) (vec_remove j cs) = Inr mid"
      and rec: "equality_substitute exact mid = Inr cs'"
      by (subst (asm) equality_substitute.simps) (auto simp: Some jp xk(3) attempt_Inr_iff)
    note R = substitution_round [OF xk 1(3) mid]
    have IH: "list_all con_wf cs' \<and> (list_all con_nz mid \<longrightarrow> list_all con_nz cs')
      \<and> (list_all (tight \<sigma>) mid \<longrightarrow> list_all (tight \<sigma>) cs')
      \<and> ((\<exists>\<tau> :: var \<Rightarrow> 'a. list_all (tight \<tau>) cs') \<longrightarrow> (\<exists>\<tau> :: var \<Rightarrow> 'a. list_all (tight \<tau>) mid))"
      by (rule 1(1) [OF Some [unfolded jp] refl refl refl xk(3) [symmetric] mid rec R(1)])
    show ?thesis using IH R(2) R(3) [of \<sigma>] R(4) by blast
  qed
qed

section \<open>Unsatisfiability\<close>

text \<open>
  The arithmetic of a run is exact: the substitution, whose \<open>i64\<close> operations are not
  checked, and the eliminations, whose negations are not checked, compute what they would over
  unbounded integers. The products and differences of an elimination are checked by the code.
\<close>

definition runs_exactly :: "(coeff_map \<Rightarrow> var list) \<Rightarrow> constraint list \<Rightarrow> bool" where
  "runs_exactly hk cs \<longleftrightarrow> equality_substitute wrap64 cs = equality_substitute exact cs \<and>
     (case equality_substitute exact cs of
        Inl _ \<Rightarrow> True
      | Inr cs' \<Rightarrow>
          (let ineqs = to_inequalities cs'; vars = solver_vars hk ineqs in
           eliminate_all wrap128 vars ineqs = eliminate_all exact vars ineqs))"

lemma unsat_checked_exact:
  assumes "runs_exactly hk cs"
  shows "unsat_checked wrap64 wrap128 hk cs = unsat_checked exact exact hk cs"
  using assms by (auto simp: runs_exactly_def unsat_checked_def fm_unsat_def Let_def attempt_def split: sum.splits)

lemma to_inequalities_nz: "list_all con_wf cs \<Longrightarrow> list_all con_nz cs \<Longrightarrow> \<forall>i\<in>set (to_inequalities cs). ineq_nz i"
proof -
  have "\<forall>i\<in>set (constraint_ineqs c). ineq_nz i" if "con_wf c" "con_nz c" for c
  proof -
    obtain l r where c: "c = Constraint l r" by (cases c)
    have d: "distinct (map fst (terms l))" and nz: "0 \<notin> snd ` set (terms l)"
      using that c by (simp_all add: con_wf_def lin_wf_def con_nz_def)
    have "0 \<notin> snd ` set (neg_terms (terms l))" "0 \<notin> snd ` set (hm_collect (terms l))"
      using nz unfolding hm_collect_props(3) [OF d] neg_terms_props(3) [OF d] by (force simp: image_image case_prod_beta)+
    then show ?thesis unfolding c by (cases r) (auto simp: ineq_nz_def)
  qed
  then show "list_all con_wf cs \<Longrightarrow> list_all con_nz cs \<Longrightarrow> \<forall>i\<in>set (to_inequalities cs). ineq_nz i"
    by (auto simp: to_inequalities_def list_all_iff)
qed

lemma unsat_exact_sound:
  fixes \<sigma> :: "var \<Rightarrow> 'a::linordered_idom"
  assumes "unsat_checked exact exact hk cs = Inr (Some True)" "list_all con_wf cs"
  shows "\<not> list_all (tight \<sigma>) cs"
proof
  assume all: "list_all (tight \<sigma>) cs"
  from assms(1) obtain cs' where cs': "equality_substitute exact cs = Inr cs'"
    and fm: "fm_unsat exact hk (to_inequalities cs') = Some True"
    by (auto simp: unsat_checked_def attempt_Inr_iff)
  note E = equality_substitute_equiv [OF cs' assms(2), of \<sigma>]
  have "\<forall>i\<in>set (to_inequalities cs'). ineq_holds \<sigma> i" using to_inequalities_tight [of cs' \<sigma>] E all by blast
  then show False using fm_unsat_sound [OF fm] to_inequalities_wf [of cs'] E by blast
qed

lemma sat_exact_complete:
  assumes "unsat_checked exact exact hk cs = Inr (Some False)" "list_all con_wf cs" "list_all con_nz cs" "hash_order hk"
  shows "\<exists>\<sigma> :: var \<Rightarrow> rat. list_all (tight \<sigma>) cs"
proof -
  from assms(1) obtain cs' where cs': "equality_substitute exact cs = Inr cs'"
    and fm: "fm_unsat exact hk (to_inequalities cs') = Some False"
    by (auto simp: unsat_checked_def attempt_Inr_iff)
  note E = equality_substitute_equiv [OF cs' assms(2), where 'a = rat]
  have wf: "list_all con_wf cs'" "list_all con_nz cs'" using E assms(3) by blast+
  obtain \<sigma> :: "var \<Rightarrow> rat" where "\<forall>i\<in>set (to_inequalities cs'). ineq_holds \<sigma> i"
    using fm_unsat_complete [OF fm to_inequalities_wf [OF wf(1)] to_inequalities_nz [OF wf] assms(4)] by blast
  then have "list_all (tight \<sigma>) cs'" using to_inequalities_tight [OF wf(1)] by blast
  then show ?thesis using E by blast
qed

text \<open>C11: The solver decides the constraints it is given. When it reports a set unsatisfiable no
  assignment of integers satisfies it; when it reports it satisfiable some assignment of
  rationals satisfies every constraint of it other than inequations, strict comparisons even
  by a margin of one. The order in which the hash maps are walked does not matter.\<close>

theorem unsat_checked_decides:
  assumes "hash_order hk" and "list_all con_wf cs" and "list_all con_nz cs" and "runs_exactly hk cs"
  shows "(unsat_checked wrap64 wrap128 hk cs = Inr (Some True) \<longrightarrow> (\<nexists>\<sigma> :: var \<Rightarrow> int. list_all (holds \<sigma>) cs))
    \<and> (unsat_checked wrap64 wrap128 hk cs = Inr (Some False) \<longrightarrow> (\<exists>\<sigma> :: var \<Rightarrow> rat. list_all (tight \<sigma>) cs))"
proof (intro conjI impI)
  assume u: "unsat_checked wrap64 wrap128 hk cs = Inr (Some True)"
  show "\<nexists>\<sigma> :: var \<Rightarrow> int. list_all (holds \<sigma>) cs"
  proof
    assume "\<exists>\<sigma> :: var \<Rightarrow> int. list_all (holds \<sigma>) cs"
    then obtain \<sigma> :: "var \<Rightarrow> int" where "list_all (tight \<sigma>) cs" using tight_int by (auto simp: list_all_iff)
    then show False using unsat_exact_sound [OF _ assms(2)] u unsat_checked_exact [OF assms(4)] by metis
  qed
next
  assume "unsat_checked wrap64 wrap128 hk cs = Inr (Some False)"
  then show "\<exists>\<sigma> :: var \<Rightarrow> rat. list_all (tight \<sigma>) cs"
    using sat_exact_complete [OF _ assms(2,3,1)] unsat_checked_exact [OF assms(4)] by simp
qed

section \<open>Entailment\<close>

lemma negate_holds: "\<not> holds (\<sigma> :: var \<Rightarrow> int) c \<Longrightarrow> \<exists>branch\<in>set (negate c). list_all (tight \<sigma>) branch"
  by (cases c rule: negate.cases) (auto simp: holds_def tight_def)

lemma negate_wf: "con_wf c \<Longrightarrow> branch \<in> set (negate c) \<Longrightarrow> list_all con_wf branch"
  by (cases c rule: negate.cases) (auto simp: con_wf_def)

lemma entails_branches_True:
  "entails_branches w64 w128 hk ps bs = Inr True \<Longrightarrow> b \<in> set bs \<Longrightarrow> unsat_checked w64 w128 hk (ps @ b) = Inr (Some True)"
proof (induction bs)
  case (Cons x bs)
  then show ?case
    by (auto simp: attempt_Inr_iff unsat_def split: option.splits if_splits)
qed simp

lemma entails_true:
  assumes "entails wrap64 wrap128 hk premises concl = Inr True"
    and "\<forall>branch\<in>set (negate concl). runs_exactly hk (premises @ branch)"
    and "list_all con_wf premises" "con_wf concl" "list_all (holds (\<sigma> :: var \<Rightarrow> int)) premises"
  shows "holds \<sigma> concl"
proof (rule ccontr)
  assume "\<not> holds \<sigma> concl"
  then obtain b where b: "b \<in> set (negate concl)" "list_all (tight \<sigma>) b" using negate_holds by blast
  have "unsat_checked exact exact hk (premises @ b) = Inr (Some True)"
    using entails_branches_True [OF assms(1) [unfolded entails_def] b(1)] unsat_checked_exact assms(2) b(1) by metis
  moreover have "list_all con_wf (premises @ b)" using assms(3) negate_wf [OF assms(4) b(1)] by simp
  moreover have "list_all (tight \<sigma>) (premises @ b)" using assms(5) b(2) tight_int by (auto simp: list_all_iff)
  ultimately show False using unsat_exact_sound by blast
qed

text \<open>
  Without the exactness the answer can be wrong. The equation \<open>x = 2 ^ 62\<close> and the inequality
  \<open>0 < 4 * x\<close> have a solution; substituting the equation multiplies \<open>2 ^ 62\<close> by four in \<open>i64\<close>,
  which is zero, so \<open>0 < 0\<close> is left and the set is reported unsatisfiable.
\<close>

lemma substitution_overflow_unsound:
  "unsat_checked wrap64 wrap128 (map fst)
      [Constraint \<lparr>terms = [([120], 1)], const_term = - 4611686018427387904\<rparr> Eq,
       Constraint \<lparr>terms = [([120], 4)], const_term = 0\<rparr> Gt] = Inr (Some True)
   \<and> list_all (holds (\<lambda>_. 4611686018427387904 :: int))
      [Constraint \<lparr>terms = [([120], 1)], const_term = - 4611686018427387904\<rparr> Eq,
       Constraint \<lparr>terms = [([120], 4)], const_term = 0\<rparr> Gt]"
  by code_simp

theorem unsat_checked_decides_witness:
  "(\<nexists>\<sigma> :: var \<Rightarrow> int. list_all (holds \<sigma>)
      [Constraint \<lparr>terms = [([120], 1), ([121], -2)], const_term = 0\<rparr> Eq, Constraint \<lparr>terms = [([120], 1)], const_term = -1\<rparr> Ge,
       Constraint \<lparr>terms = [([121], 1)], const_term = 0\<rparr> Le])
   \<and> (\<exists>\<sigma> :: var \<Rightarrow> rat. list_all (tight \<sigma>)
      [Constraint \<lparr>terms = [([120], 2), ([121], -2)], const_term = -1\<rparr> Eq, Constraint \<lparr>terms = [([120], 1)], const_term = -1\<rparr> Gt])"
proof -
  let ?a = "[Constraint \<lparr>terms = [([120], 1), ([121], -2)], const_term = 0\<rparr> Eq, Constraint \<lparr>terms = [([120], 1)], const_term = -1\<rparr> Ge,
       Constraint \<lparr>terms = [([121], 1)], const_term = 0\<rparr> Le]"
  let ?b = "[Constraint \<lparr>terms = [([120], 2), ([121], -2)], const_term = -1\<rparr> Eq, Constraint \<lparr>terms = [([120], 1)], const_term = -1\<rparr> Gt]"
  have hk: "hash_order (map fst)" by (simp add: hash_order_def bt_wf_distinct)
  have "list_all con_wf ?a" "list_all con_nz ?a" "list_all con_wf ?b" "list_all con_nz ?b"
    by (simp_all add: con_wf_def lin_wf_def con_nz_def)
  moreover have "runs_exactly (map fst) ?a" "runs_exactly (map fst) ?b" by code_simp+
  moreover have "unsat_checked wrap64 wrap128 (map fst) ?a = Inr (Some True)"
    "unsat_checked wrap64 wrap128 (map fst) ?b = Inr (Some False)"
    by code_simp+
  ultimately show ?thesis using unsat_checked_decides [OF hk, of ?a] unsat_checked_decides [OF hk, of ?b] by blast
qed

end
