(* ===== verification/Telos_Model.thy ===== *)
theory Telos_Model
  imports Telos_Sound
begin

text \<open>
  The search for counterexamples of the Telos verifier (the second half of
  \<open>tpt-telos-verifier/src/solver.rs\<close>): Fourier-Motzkin elimination with unchecked
  \<open>i128\<close> arithmetic, then integer values picked for the variables from the last eliminated
  to the first. The recursion ends only if every round eliminates its variable, so the search
  is a partial function: \<open>None\<close> stands for not returning.
\<close>

section \<open>Fractions\<close>

record frac =
  frac_num :: int
  frac_den :: int

fun gcd_loop :: "nat \<Rightarrow> nat \<Rightarrow> nat" where
  "gcd_loop a b = (if b = 0 then a else gcd_loop b (a mod b))"

declare gcd_loop.simps [simp del]

definition frac_new :: "(int \<Rightarrow> int) \<Rightarrow> int \<Rightarrow> int \<Rightarrow> frac" where
  "frac_new w n0 d0 =
     (let (n, d) = (if d0 < 0 then (w (- n0), w (- d0)) else (n0, d0));
          g = w (int (gcd_loop (nat \<bar>n\<bar>) (nat \<bar>d\<bar>)))
      in if g = 0 then \<lparr>frac_num = n, frac_den = d\<rparr> else \<lparr>frac_num = n div g, frac_den = d div g\<rparr>)"

definition div_euclid :: "int \<Rightarrow> int \<Rightarrow> int" where
  "div_euclid a b = (a - a mod \<bar>b\<bar>) div b"

definition frac_ceil :: "(int \<Rightarrow> int) \<Rightarrow> frac \<Rightarrow> int" where
  "frac_ceil w f =
     (let q = div_euclid (frac_num f) (frac_den f); r = frac_num f mod \<bar>frac_den f\<bar> in
      if r = 0 then q else w (q + 1))"

definition frac_floor :: "frac \<Rightarrow> int" where
  "frac_floor f = div_euclid (frac_num f) (frac_den f)"

section \<open>The search\<close>

type_synonym model = "(var \<times> int) list"

definition model_get :: "model \<Rightarrow> var \<Rightarrow> int" where
  "model_get m v = (case bt_get m v of Some x \<Rightarrow> x | None \<Rightarrow> 0)"

definition eval_coeffs :: "(int \<Rightarrow> int) \<Rightarrow> coeff_map \<Rightarrow> model \<Rightarrow> int" where
  "eval_coeffs w co m = foldl (\<lambda>acc (v, c). w (acc + w (c * model_get m v))) 0 co"

definition model_upper :: "var \<Rightarrow> lin_ineq \<Rightarrow> var_bound option" where
  "model_upper v i = (case bt_get (coeffs i) v of
     Some tv \<Rightarrow> if 0 < tv then Some (tv, bound i, remove_var v (coeffs i)) else None | None \<Rightarrow> None)"

definition model_lower :: "var \<Rightarrow> lin_ineq \<Rightarrow> var_bound option" where
  "model_lower v i = (case bt_get (coeffs i) v of
     Some tv \<Rightarrow> if tv < 0 then Some (tv, bound i, remove_var v (coeffs i)) else None | None \<Rightarrow> None)"

fun model_combine :: "(int \<Rightarrow> int) \<Rightarrow> var_bound \<times> var_bound \<Rightarrow> lin_ineq" where
  "model_combine w ((a, cu, uc), (b, c2, lc)) =
     \<lparr>coeffs = foldl (\<lambda>co k.
        let c = w (w (a * coef lc k) - w (b * coef uc k)) in if c \<noteq> 0 then bt_insert k c co else co) [] (merge_keys uc lc),
      bound = w (w (a * c2) - w (b * cu))\<rparr>"

definition low_step :: "(int \<Rightarrow> int) \<Rightarrow> model \<Rightarrow> frac option \<Rightarrow> var_bound \<Rightarrow> frac option" where
  "low_step w m low = (\<lambda>(b, c2, lc).
     let f = frac_new w (w (eval_coeffs w lc m - c2)) (w (- b)) in
     Some (case low of None \<Rightarrow> f
           | Some x \<Rightarrow> if w (frac_num x * frac_den f) \<le> w (frac_num f * frac_den x) then f else x))"

definition high_step :: "(int \<Rightarrow> int) \<Rightarrow> model \<Rightarrow> frac option \<Rightarrow> var_bound \<Rightarrow> frac option" where
  "high_step w m high = (\<lambda>(a, cu, uc).
     let f = frac_new w (w (cu - eval_coeffs w uc m)) a in
     Some (case high of None \<Rightarrow> f
           | Some x \<Rightarrow> if w (frac_num f * frac_den x) \<le> w (frac_num x * frac_den f) then f else x))"

definition pick_value :: "(int \<Rightarrow> int) \<Rightarrow> frac option \<Rightarrow> frac option \<Rightarrow> int option" where
  "pick_value w low high =
     (case (low, high) of
        (None, None) \<Rightarrow> Some 0
      | (Some l, None) \<Rightarrow> Some (frac_ceil w l)
      | (None, Some h) \<Rightarrow> Some (frac_floor h)
      | (Some l, Some h) \<Rightarrow>
          (let lo = frac_ceil w l; hi = frac_floor h in if hi < lo then None else Some lo))"

definition recover ::
  "(int \<Rightarrow> int) \<Rightarrow> (int \<Rightarrow> int) \<Rightarrow> var \<Rightarrow> var_bound list \<Rightarrow> var_bound list \<Rightarrow> model \<Rightarrow> model option" where
  "recover w64 w128 v uppers lowers m =
     map_option (\<lambda>x. bt_insert v (w64 x) m)
       (pick_value w128 (foldl (low_step w128 m) None lowers) (foldl (high_step w128 m) None uppers))"

definition model_eliminate :: "(int \<Rightarrow> int) \<Rightarrow> var \<Rightarrow> lin_ineq list \<Rightarrow> lin_ineq list" where
  "model_eliminate w v ineqs = filter (keeps v) ineqs
     @ map (model_combine w) (List.product (List.map_filter (model_upper v) ineqs) (List.map_filter (model_lower v) ineqs))"

partial_function (option) solve_model ::
  "(int \<Rightarrow> int) \<Rightarrow> (int \<Rightarrow> int) \<Rightarrow> (coeff_map \<Rightarrow> var list) \<Rightarrow> lin_ineq list \<Rightarrow> model option option" where
  "solve_model w64 w128 hk ineqs =
     (case solver_vars hk ineqs of
        [] \<Rightarrow> Some (if list_ex (\<lambda>i. bound i < 0) ineqs then None else Some [])
      | v # _ \<Rightarrow>
          Option.bind (solve_model w64 w128 hk (model_eliminate w128 v ineqs)) (\<lambda>r.
            Some (Option.bind r (recover w64 w128 v (List.map_filter (model_upper v) ineqs) (List.map_filter (model_lower v) ineqs)))))"

declare solve_model.simps [code]

definition model_of ::
  "(int \<Rightarrow> int) \<Rightarrow> (int \<Rightarrow> int) \<Rightarrow> (coeff_map \<Rightarrow> var list) \<Rightarrow> constraint list \<Rightarrow> model option option" where
  "model_of w64 w128 hk cs = solve_model w64 w128 hk (to_inequalities cs)"

fun counterexample_in ::
  "(int \<Rightarrow> int) \<Rightarrow> (int \<Rightarrow> int) \<Rightarrow> (coeff_map \<Rightarrow> var list) \<Rightarrow> constraint list \<Rightarrow> constraint list list \<Rightarrow> model option option" where
  "counterexample_in w64 w128 hk premises [] = Some None"
| "counterexample_in w64 w128 hk premises (branch # branches) =
     Option.bind (model_of w64 w128 hk (premises @ branch)) (\<lambda>r.
       case r of Some m \<Rightarrow> Some (Some m) | None \<Rightarrow> counterexample_in w64 w128 hk premises branches)"

definition counterexample ::
  "(int \<Rightarrow> int) \<Rightarrow> (int \<Rightarrow> int) \<Rightarrow> (coeff_map \<Rightarrow> var list) \<Rightarrow> constraint list \<Rightarrow> constraint \<Rightarrow> model option option" where
  "counterexample w64 w128 hk premises concl = counterexample_in w64 w128 hk premises (negate concl)"

definition satisfies_model :: "(int \<Rightarrow> int) \<Rightarrow> constraint list \<Rightarrow> model \<Rightarrow> bool" where
  "satisfies_model w cs m = list_all (\<lambda>i. \<not> bound i < eval_coeffs w (coeffs i) m) (to_inequalities cs)"

section \<open>Termination\<close>

lemma model_combine_keys:
  assumes "bt_wf uc" "bt_wf lc"
  shows "bt_wf (coeffs (model_combine w ((a, cu, uc), (b, c2, lc))))
    \<and> set (coeffs (model_combine w ((a, cu, uc), (b, c2, lc)))) \<subseteq> (fst ` set uc \<union> fst ` set lc) \<times> (UNIV - {0})"
proof -
  have "bt_wf (foldl (\<lambda>co k. let c = f k in if c \<noteq> 0 then bt_insert k c co else co) acc ks)
    \<and> set (foldl (\<lambda>co k. let c = f k in if c \<noteq> 0 then bt_insert k c co else co) acc ks) \<subseteq> set acc \<union> set ks \<times> (UNIV - {0})"
    if "bt_wf acc" for f :: "var \<Rightarrow> int" and acc ks
    using that
  proof (induction ks arbitrary: acc)
    case (Cons k ks)
    let ?acc = "if f k \<noteq> 0 then bt_insert k (f k) acc else acc"
    have "bt_wf ?acc" using Cons.prems by (simp add: bt_wf_insert)
    note IH = Cons.IH [OF this]
    have sub: "set ?acc \<subseteq> set acc \<union> {k} \<times> (UNIV - {0})" using set_bt_insert_subset [of k "f k" acc] by auto
    have "set (foldl (\<lambda>co k. let c = f k in if c \<noteq> 0 then bt_insert k c co else co) ?acc ks)
        \<subseteq> set acc \<union> set (k # ks) \<times> (UNIV - {0})"
      by (rule subset_trans [OF IH [THEN conjunct2]]) (use sub in auto)
    with IH [THEN conjunct1] show ?case by (simp add: Let_def)
  qed simp
  from this [OF bt_wf_Nil, of "\<lambda>k. w (w (a * coef lc k) - w (b * coef uc k))" "merge_keys uc lc"] merge_keys_props(2) [OF assms]
  show ?thesis by simp
qed

lemma model_bound_props:
  assumes "model_upper v i = Some (a, c, m) \<or> model_lower v i = Some (a, c, m)" "ineq_wf i"
  shows "bt_wf m" "fst ` set m \<subseteq> fst ` set (coeffs i) - {v}"
proof -
  have wf: "bt_wf (coeffs i)" and m: "m = remove_var v (coeffs i)"
    using assms by (auto simp: ineq_wf_def model_upper_def model_lower_def split: option.splits if_splits)
  show "bt_wf m" "fst ` set m \<subseteq> fst ` set (coeffs i) - {v}"
    unfolding m using remove_var_props(1) [OF wf] remove_var_props(3) [OF wf, of v] by auto
qed

lemma model_eliminate_keys:
  assumes wf: "\<forall>i\<in>set ineqs. ineq_wf i"
  shows "\<forall>i\<in>set (model_eliminate w v ineqs). ineq_wf i"
    and "\<forall>i\<in>set ineqs. ineq_nz i \<Longrightarrow>
      (\<forall>i\<in>set (model_eliminate w v ineqs). ineq_nz i) \<and> ineq_keys (model_eliminate w v ineqs) \<subseteq> ineq_keys ineqs - {v}"
proof -
  have pair: "ineq_wf (model_combine w (u, l)) \<and> ineq_nz (model_combine w (u, l))
      \<and> fst ` set (coeffs (model_combine w (u, l))) \<subseteq> ineq_keys ineqs - {v}"
    if "j \<in> set ineqs" "k \<in> set ineqs" "model_upper v j = Some u" "model_lower v k = Some l" for j k u l
  proof -
    obtain a b uc where u: "u = (a, b, uc)" by (cases u)
    obtain e d lc where l: "l = (e, d, lc)" by (cases l)
    note U = model_bound_props [OF disjI1 [OF that(3) [unfolded u]] wf [rule_format, OF that(1)]]
    note L = model_bound_props [OF disjI2 [OF that(4) [unfolded l]] wf [rule_format, OF that(2)]]
    note C = model_combine_keys [OF U(1) L(1), of w a b e d, folded u l]
    have "fst ` set (coeffs j) \<subseteq> ineq_keys ineqs" "fst ` set (coeffs k) \<subseteq> ineq_keys ineqs"
      unfolding ineq_keys_def using that(1,2) by (intro UN_upper; simp)+
    then have keys: "fst ` set uc \<union> fst ` set lc \<subseteq> ineq_keys ineqs - {v}"
      using subset_trans [OF U(2) Diff_mono [OF _ subset_refl]] subset_trans [OF L(2) Diff_mono [OF _ subset_refl]] by simp
    have "fst ` set (coeffs (model_combine w (u, l))) \<subseteq> fst ` set uc \<union> fst ` set lc"
      using image_mono [OF C [THEN conjunct2], of fst] by (rule subset_trans) auto
    then have "fst ` set (coeffs (model_combine w (u, l))) \<subseteq> ineq_keys ineqs - {v}" by (rule subset_trans [OF _ keys])
    moreover have "ineq_nz (model_combine w (u, l))"
      using C [THEN conjunct2] by (auto simp: ineq_nz_def)
    ultimately show ?thesis using C [THEN conjunct1] by (simp add: ineq_wf_def)
  qed
  have kept: "fst ` set (coeffs i) \<subseteq> ineq_keys ineqs - {v}" if "i \<in> set ineqs" "keeps v i" "ineq_nz i" for i
  proof -
    have "v \<notin> fst ` set (coeffs i)"
    proof
      assume "v \<in> fst ` set (coeffs i)"
      then obtain c where c: "(v, c) \<in> set (coeffs i)" by auto
      then have "map_of (coeffs i) v = Some c" using wf that(1) by (simp add: ineq_wf_def bt_wf_distinct)
      moreover have "c \<noteq> 0" using c that(3) by (force simp: ineq_nz_def)
      ultimately show False using that(2) by (simp add: keeps_def bt_get_def)
    qed
    then show ?thesis using that(1) by (auto simp: ineq_keys_def)
  qed
  have mem: "i \<in> set (model_eliminate w v ineqs) \<longleftrightarrow> (i \<in> set ineqs \<and> keeps v i)
      \<or> (\<exists>j\<in>set ineqs. \<exists>k\<in>set ineqs. \<exists>u l. model_upper v j = Some u \<and> model_lower v k = Some l \<and> i = model_combine w (u, l))" for i
    unfolding model_eliminate_def set_append set_map set_filter Un_iff image_iff set_product
    by (simp only: Bex_def mem_Times_iff set_map_filter_iff mem_Collect_eq) (metis fst_conv prod.collapse snd_conv)
  show "\<forall>i\<in>set (model_eliminate w v ineqs). ineq_wf i" using mem pair wf by metis
  show "(\<forall>i\<in>set (model_eliminate w v ineqs). ineq_nz i) \<and> ineq_keys (model_eliminate w v ineqs) \<subseteq> ineq_keys ineqs - {v}"
    if nz: "\<forall>i\<in>set ineqs. ineq_nz i"
  proof -
    have "ineq_nz i \<and> fst ` set (coeffs i) \<subseteq> ineq_keys ineqs - {v}" if "i \<in> set (model_eliminate w v ineqs)" for i
      using that mem pair kept nz by metis
    then show ?thesis unfolding ineq_keys_def [of "model_eliminate w v ineqs"] by (auto simp: UN_subset_iff)
  qed
qed

lemma finite_ineq_keys: "finite (ineq_keys ineqs)"
  by (simp add: ineq_keys_def)

lemma solve_model_returns:
  assumes "hash_order hk" "\<forall>i\<in>set ineqs. ineq_wf i" "\<forall>i\<in>set ineqs. ineq_nz i"
  shows "\<exists>r. solve_model w64 w128 hk ineqs = Some r"
  using assms(2,3)
proof (induction "card (ineq_keys ineqs)" arbitrary: ineqs rule: less_induct)
  case less
  show ?case
  proof (cases "solver_vars hk ineqs")
    case Nil
    then show ?thesis by (subst solve_model.simps) simp
  next
    case (Cons v vs)
    then have v: "v \<in> ineq_keys ineqs" using set_solver_vars [OF assms(1) less.prems(1)] by (metis list.set_intros(1))
    note K = model_eliminate_keys [OF less.prems(1), of w128 v]
    have "card (ineq_keys (model_eliminate w128 v ineqs)) < card (ineq_keys ineqs)"
      using K(2) [OF less.prems(2)] v by (intro psubset_card_mono finite_ineq_keys) auto
    from less.hyps [OF this K(1)] K(2) [OF less.prems(2)] obtain r where
      "solve_model w64 w128 hk (model_eliminate w128 v ineqs) = Some r" by blast
    then show ?thesis using Cons by (subst solve_model.simps) simp
  qed
qed

lemma negate_nz: "con_nz c \<Longrightarrow> branch \<in> set (negate c) \<Longrightarrow> list_all con_nz branch"
  by (cases c rule: negate.cases) (auto simp: con_nz_def)

lemma counterexample_in_returns:
  assumes "hash_order hk" "list_all con_wf ps" "list_all con_nz ps"
    "\<forall>b\<in>set bs. list_all con_wf b \<and> list_all con_nz b"
  shows "\<exists>r. counterexample_in w64 w128 hk ps bs = Some r"
  using assms(4)
proof (induction bs)
  case (Cons b bs)
  have ok: "list_all con_wf (ps @ b)" "list_all con_nz (ps @ b)" using assms(2,3) Cons.prems by auto
  obtain r where "model_of w64 w128 hk (ps @ b) = Some r"
    using solve_model_returns [OF assms(1) to_inequalities_wf [OF ok(1)] to_inequalities_nz [OF ok]]
    by (auto simp: model_of_def)
  with Cons show ?case by (cases r) auto
qed simp

text \<open>C15: The search for a counterexample always ends, in whatever order the hash maps are walked
  and however the machine integers wrap, when no coefficient of the constraints is zero, as
  the operations on linear expressions ensure.\<close>

theorem counterexample_terminates:
  assumes "hash_order hk" and "list_all con_wf premises" and "list_all con_nz premises" and "con_wf concl" and "con_nz concl"
  shows "\<exists>r. counterexample w64 w128 hk premises concl = Some r"
  unfolding counterexample_def
  using counterexample_in_returns [OF assms(1-3)] negate_wf [OF assms(4)] negate_nz [OF assms(5)] by blast

text \<open>A zero coefficient, which \<open>Linear::scale\<close> can build, is never eliminated, and the search
  recurses for ever.\<close>

lemma zero_coefficient_diverges:
  "solve_model w64 w128 (map fst) [\<lparr>coeffs = [(v, 0)], bound = b\<rparr>] = None"
proof -
  let ?z = "[\<lparr>coeffs = [(v, 0)], bound = b\<rparr>]"
  have same: "model_eliminate w128 v ?z = ?z" "solver_vars (map fst) ?z = [v]"
    by (simp_all add: model_eliminate_def keeps_def bt_get_def model_upper_def model_lower_def List.map_filter_simps solver_vars_def)
  show ?thesis
  proof (cases "solve_model w64 w128 (map fst) ?z")
    case (Some r)
    have "(map fst :: coeff_map \<Rightarrow> var list) = map fst \<longrightarrow> w128 = w128 \<longrightarrow> ?z \<noteq> ?z"
    proof (rule solve_model.raw_induct [where P = "\<lambda>_ b c d _. c = map fst \<longrightarrow> b = w128 \<longrightarrow> d \<noteq> ?z", OF _ Some])
      fix f w64' w128' hk ineqs y
      assume ih: "\<And>a b c d y. f a b c d = Some y \<Longrightarrow> c = map fst \<longrightarrow> b = w128 \<longrightarrow> d \<noteq> ?z"
        and body: "(case solver_vars hk ineqs of
          [] \<Rightarrow> Some (if list_ex (\<lambda>i. bound i < 0) ineqs then None else Some [])
        | v # _ \<Rightarrow>
            Option.bind (f w64' w128' hk (model_eliminate w128' v ineqs)) (\<lambda>r.
              Some (Option.bind r (recover w64' w128' v (List.map_filter (model_upper v) ineqs) (List.map_filter (model_lower v) ineqs))))) = Some y"
      show "hk = map fst \<longrightarrow> w128' = w128 \<longrightarrow> ineqs \<noteq> ?z"
      proof (intro impI notI)
        assume eqs: "hk = map fst" "w128' = w128" "ineqs = ?z"
        from body obtain r' where "f w64' w128 (map fst) ?z = Some r'"
          unfolding eqs same(2) list.case same(1) by (auto simp only: Option.bind_eq_Some_conv)
        from ih [OF this] show False by simp
      qed
    qed
    then show ?thesis by simp
  qed simp
qed

theorem counterexample_terminates_witness:
  "\<exists>r. counterexample wrap64 wrap128 (map fst) [Constraint \<lparr>terms = [([120], 2), ([121], -1)], const_term = -1\<rparr> Eq]
    (Constraint \<lparr>terms = [([121], 1)], const_term = 0\<rparr> Ne) = Some r"
  by (rule counterexample_terminates)
    (simp_all add: hash_order_def bt_wf_distinct con_wf_def lin_wf_def con_nz_def)

section \<open>Values between the bounds\<close>

definition frac_val :: "frac \<Rightarrow> rat" where
  "frac_val f = of_int (frac_num f) / of_int (frac_den f)"

lemma gcd_loop_gcd: "gcd_loop a b = gcd a b"
proof (induction a b rule: gcd_loop.induct)
  case (1 a b)
  then show ?case by (subst gcd_loop.simps) (simp add: gcd_non_0_nat)
qed

lemma frac_new_val:
  assumes "0 < d"
  shows "0 < frac_den (frac_new exact n d)" "frac_val (frac_new exact n d) = of_int n / of_int d"
proof -
  define g where "g = int (gcd (nat \<bar>n\<bar>) (nat \<bar>d\<bar>))"
  have g: "g = gcd n d" unfolding g_def gcd_int_def ..
  have gp: "0 < g" and gn: "g dvd n" and gd: "g dvd d" unfolding g using assms by (simp_all add: gcd_pos_int)
  have f: "frac_new exact n d = \<lparr>frac_num = n div g, frac_den = d div g\<rparr>"
    using assms gp by (simp add: frac_new_def gcd_loop_gcd g_def Let_def)
  show "0 < frac_den (frac_new exact n d)"
    using f gd gp assms by (simp add: pos_imp_zdiv_pos_iff zdvd_imp_le)
  obtain n' d' where "n = g * n'" "d = g * d'" using gn gd by (auto elim!: dvdE)
  then show "frac_val (frac_new exact n d) = of_int n / of_int d"
    using f gp by (simp add: frac_val_def)
qed

lemma div_euclid_pos: "0 < b \<Longrightarrow> div_euclid a b = a div b"
  by (simp add: div_euclid_def minus_mod_eq_mult_div)

lemma frac_round:
  assumes "0 < frac_den f"
  shows "frac_val f \<le> of_int (frac_ceil exact f)" "of_int (frac_floor f) \<le> frac_val f"
proof -
  let ?n = "frac_num f" and ?d = "frac_den f"
  obtain q r where q: "q = ?n div ?d" and r: "r = ?n mod ?d" by blast
  have dm: "?n = ?d * q + r" unfolding q r by simp
  have m: "0 \<le> r" "r < ?d" unfolding r using assms by simp_all
  have ceil: "frac_ceil exact f = (if r = 0 then q else q + 1)" and flr: "frac_floor f = q"
    unfolding q r using assms by (simp_all add: frac_ceil_def frac_floor_def div_euclid_pos Let_def)
  have "?n \<le> frac_ceil exact f * ?d" using dm m unfolding ceil by (simp add: algebra_simps)
  then have "(of_int ?n :: rat) \<le> of_int (frac_ceil exact f) * of_int ?d" by (metis of_int_le_iff of_int_mult)
  then show "frac_val f \<le> of_int (frac_ceil exact f)" using assms by (simp add: frac_val_def divide_le_eq)
  have "frac_floor f * ?d \<le> ?n" using dm m unfolding flr by (simp add: algebra_simps)
  then have "of_int (frac_floor f) * of_int ?d \<le> (of_int ?n :: rat)" by (metis of_int_le_iff of_int_mult)
  then show "of_int (frac_floor f) \<le> frac_val f" using assms by (simp add: frac_val_def le_divide_eq)
qed

lemma frac_le:
  assumes "0 < frac_den f" "0 < frac_den x"
  shows "frac_num x * frac_den f \<le> frac_num f * frac_den x \<longleftrightarrow> frac_val x \<le> frac_val f"
proof -
  have "frac_val x \<le> frac_val f \<longleftrightarrow> (of_int (frac_num x * frac_den f) :: rat) \<le> of_int (frac_num f * frac_den x)"
    using assms by (simp add: frac_val_def divide_le_eq le_divide_eq mult.commute)
  then show ?thesis by (simp only: of_int_le_iff)
qed

lemma eval_coeffs_exact: "eval_coeffs exact co m = eval_terms (model_get m) co"
proof -
  have "foldl (\<lambda>acc (v, c). acc + c * model_get m v) a co = a + eval_terms (model_get m) co" for a
    by (induction co arbitrary: a) auto
  then show ?thesis by (simp add: eval_coeffs_def)
qed

text \<open>The running bound of the loops: the tightest of the fractions seen.\<close>

definition low_frac :: "model \<Rightarrow> var_bound \<Rightarrow> frac" where
  "low_frac m = (\<lambda>(b, c2, lc). frac_new exact (eval_terms (model_get m) lc - c2) (- b))"

definition high_frac :: "model \<Rightarrow> var_bound \<Rightarrow> frac" where
  "high_frac m = (\<lambda>(a, cu, uc). frac_new exact (cu - eval_terms (model_get m) uc) a)"

lemma low_fold:
  assumes "\<forall>l\<in>set ls. 0 < frac_den (low_frac m l)" "\<forall>x. acc = Some x \<longrightarrow> 0 < frac_den x"
  shows "case foldl (low_step exact m) acc ls of
      None \<Rightarrow> acc = None \<and> ls = []
    | Some y \<Rightarrow> 0 < frac_den y \<and> (\<forall>x. acc = Some x \<longrightarrow> frac_val x \<le> frac_val y) \<and> (\<forall>l\<in>set ls. frac_val (low_frac m l) \<le> frac_val y)"
  using assms
proof (induction ls arbitrary: acc)
  case Nil
  then show ?case by (cases acc) auto
next
  case (Cons l ls)
  have f: "0 < frac_den (low_frac m l)" using Cons.prems by simp
  obtain y where y: "low_step exact m acc l = Some y" "0 < frac_den y" "frac_val (low_frac m l) \<le> frac_val y"
      "\<forall>x. acc = Some x \<longrightarrow> frac_val x \<le> frac_val y"
    using f Cons.prems(2) frac_le [OF f]
    by (cases acc; cases l) (auto simp: low_step_def low_frac_def eval_coeffs_exact Let_def)
  show ?case
    using Cons.IH [of "Some y"] y Cons.prems(1) by (auto split: option.splits intro: order_trans)
qed

lemma high_fold:
  assumes "\<forall>u\<in>set us. 0 < frac_den (high_frac m u)" "\<forall>x. acc = Some x \<longrightarrow> 0 < frac_den x"
  shows "case foldl (high_step exact m) acc us of
      None \<Rightarrow> acc = None \<and> us = []
    | Some y \<Rightarrow> 0 < frac_den y \<and> (\<forall>x. acc = Some x \<longrightarrow> frac_val y \<le> frac_val x) \<and> (\<forall>u\<in>set us. frac_val y \<le> frac_val (high_frac m u))"
  using assms
proof (induction us arbitrary: acc)
  case Nil
  then show ?case by (cases acc) auto
next
  case (Cons u us)
  have f: "0 < frac_den (high_frac m u)" using Cons.prems by simp
  obtain y where y: "high_step exact m acc u = Some y" "0 < frac_den y" "frac_val y \<le> frac_val (high_frac m u)"
      "\<forall>x. acc = Some x \<longrightarrow> frac_val y \<le> frac_val x"
    using f Cons.prems(2) frac_le [OF _ f]
    by (cases acc; cases u) (auto simp: high_step_def high_frac_def eval_coeffs_exact Let_def)
  show ?case
    using Cons.IH [of "Some y"] y Cons.prems(1) by (auto split: option.splits intro: order_trans)
qed

lemma pick_value_between:
  assumes "pick_value exact low high = Some x" "\<forall>l. low = Some l \<longrightarrow> 0 < frac_den l" "\<forall>h. high = Some h \<longrightarrow> 0 < frac_den h"
  shows "\<forall>l. low = Some l \<longrightarrow> frac_val l \<le> of_int x" "\<forall>h. high = Some h \<longrightarrow> of_int x \<le> frac_val h"
proof -
  have "(\<forall>l. low = Some l \<longrightarrow> frac_val l \<le> of_int x) \<and> (\<forall>h. high = Some h \<longrightarrow> of_int x \<le> frac_val h)"
  proof (cases low; cases high)
    fix l h assume lh: "low = Some l" "high = Some h"
    with assms(1) have x: "x = frac_ceil exact l" "frac_ceil exact l \<le> frac_floor h"
      by (auto simp: pick_value_def Let_def split: if_splits)
    have "(of_int x :: rat) \<le> of_int (frac_floor h)" using x by simp
    also have "\<dots> \<le> frac_val h" using frac_round(2) assms(3) lh by blast
    finally show ?thesis using x(1) frac_round(1) assms(2) lh by auto
  qed (use assms in \<open>auto simp: pick_value_def frac_round\<close>)
  then show "\<forall>l. low = Some l \<longrightarrow> frac_val l \<le> of_int x" "\<forall>h. high = Some h \<longrightarrow> of_int x \<le> frac_val h" by blast+
qed

lemma model_get_insert: "model_get (bt_insert v x m) = (model_get m)(v := x)"
  by (auto simp: model_get_def bt_get_insert fun_eq_iff)

lemma model_upper_props:
  assumes "model_upper v i = Some (a, cu, uc)" "ineq_wf i"
  shows "0 < a" "ineq_holds (\<sigma>(v := x)) i \<longleftrightarrow> of_int a * x + eval_terms \<sigma> uc \<le> of_int cu"
proof -
  have u: "upper_of v i = Some (a, cu, uc)" using assms(1) by (simp add: model_upper_def upper_of_def)
  show "0 < a" using upper_of_props(1) [OF u assms(2)] .
  show "ineq_holds (\<sigma>(v := x)) i \<longleftrightarrow> of_int a * x + eval_terms \<sigma> uc \<le> of_int cu"
    unfolding upper_of_props(3) [OF u assms(2)] upper_of_props(4) [OF u assms(2)] by simp
qed

lemma model_lower_props:
  assumes "model_lower v i = Some (b, c2, lc)" "ineq_wf i"
  shows "b < 0" "ineq_holds (\<sigma>(v := x)) i \<longleftrightarrow> of_int b * x + eval_terms \<sigma> lc \<le> of_int c2"
proof -
  have b: "bt_get (coeffs i) v = Some b" "c2 = bound i" and lc: "lc = remove_var v (coeffs i)" and neg: "b < 0"
    using assms(1) by (auto simp: model_lower_def split: option.splits if_splits)
  have wf: "bt_wf (coeffs i)" using assms(2) by (simp add: ineq_wf_def)
  show "b < 0" by (rule neg)
  show "ineq_holds (\<sigma>(v := x)) i \<longleftrightarrow> of_int b * x + eval_terms \<sigma> lc \<le> of_int c2"
    unfolding ineq_holds_def eval_split_var [OF wf, of "\<sigma>(v := x)" v] remove_var_props(2) [OF wf] lc
    using b by (simp add: coef_def)
qed

lemma model_bound_cases: "keeps v i \<or> (\<exists>u. model_upper v i = Some u) \<or> (\<exists>l. model_lower v i = Some l)"
  by (auto simp: keeps_def model_upper_def model_lower_def split: option.splits)

text \<open>A recovered value satisfies every bound on its variable.\<close>

lemma recover_sound:
  assumes rec: "recover exact exact v (List.map_filter (model_upper v) ineqs) (List.map_filter (model_lower v) ineqs) m = Some m'"
    and wf: "\<forall>i\<in>set ineqs. ineq_wf i"
    and kept: "\<forall>i\<in>set ineqs. keeps v i \<longrightarrow> ineq_holds (model_get m) i"
  shows "\<forall>i\<in>set ineqs. ineq_holds (model_get m') i"
proof
  let ?us = "List.map_filter (model_upper v) ineqs" and ?ls = "List.map_filter (model_lower v) ineqs"
  let ?low = "foldl (low_step exact m) None ?ls" and ?high = "foldl (high_step exact m) None ?us"
  from rec obtain x where x: "pick_value exact ?low ?high = Some x" and m': "m' = bt_insert v x m"
    by (auto simp: recover_def)
  have dl: "\<forall>l\<in>set ?ls. 0 < frac_den (low_frac m l)"
    using model_lower_props(1) wf by (fastforce simp: set_map_filter_iff low_frac_def intro!: frac_new_val(1))
  have du: "\<forall>u\<in>set ?us. 0 < frac_den (high_frac m u)"
    using model_upper_props(1) wf by (fastforce simp: set_map_filter_iff high_frac_def intro!: frac_new_val(1))
  note L = low_fold [OF dl, of None, simplified] and H = high_fold [OF du, of None, simplified]
  note B = pick_value_between [OF x]
  have lows: "frac_val (low_frac m l) \<le> of_int x" if "l \<in> set ?ls" for l
    using that L H B(1) by (cases ?low; cases ?high) (auto intro: order_trans)
  have highs: "of_int x \<le> frac_val (high_frac m u)" if "u \<in> set ?us" for u
    using that L H B(2) by (cases ?low; cases ?high) (auto intro: order_trans)
  fix i assume i: "i \<in> set ineqs"
  have iwf: "ineq_wf i" using wf i by blast
  consider (k) "keeps v i" | (u) a cu uc where "model_upper v i = Some (a, cu, uc)" | (l) b c2 lc where "model_lower v i = Some (b, c2, lc)"
    using model_bound_cases [of v i] by (metis prod_cases3)
  then show "ineq_holds (model_get m') i"
  proof cases
    case k
    then show ?thesis using keeps_props [OF k iwf, of "model_get m" x] kept i by (simp add: m' model_get_insert)
  next
    case u
    have "of_int x \<le> frac_val (high_frac m (a, cu, uc))" using highs u i by (auto simp: set_map_filter_iff)
    then have "of_int x * of_int a \<le> (of_int (cu - eval_terms (model_get m) uc) :: rat)"
      using model_upper_props(1) [OF u iwf] by (simp add: high_frac_def frac_new_val le_divide_eq)
    then have "x * a \<le> cu - eval_terms (model_get m) uc" by (metis of_int_le_iff of_int_mult)
    then show ?thesis
      unfolding m' model_get_insert model_upper_props(2) [OF u iwf] by (simp add: algebra_simps)
  next
    case l
    have "frac_val (low_frac m (b, c2, lc)) \<le> of_int x" using lows l i by (auto simp: set_map_filter_iff)
    then have "(of_int (eval_terms (model_get m) lc - c2) :: rat) \<le> of_int x * of_int (- b)"
      using model_lower_props(1) [OF l iwf] by (simp add: low_frac_def frac_new_val divide_le_eq del: of_int_minus of_int_diff)
    then have "eval_terms (model_get m) lc - c2 \<le> x * (- b)" by (metis of_int_le_iff of_int_mult)
    then show ?thesis
      unfolding m' model_get_insert model_lower_props(2) [OF l iwf] by (simp add: algebra_simps)
  qed
qed

lemma keys_empty: "hash_order hk \<Longrightarrow> \<forall>i\<in>set ineqs. ineq_wf i \<Longrightarrow> solver_vars hk ineqs = [] \<Longrightarrow> i \<in> set ineqs \<Longrightarrow> coeffs i = []"
  using set_solver_vars [of hk ineqs] by (auto simp: ineq_keys_def)

lemma solve_model_sound:
  assumes "solve_model exact exact hk ineqs = Some (Some m)" "hash_order hk" "\<forall>i\<in>set ineqs. ineq_wf i" "\<forall>i\<in>set ineqs. ineq_nz i"
  shows "\<forall>i\<in>set ineqs. ineq_holds (model_get m) i"
  using assms(1,3,4)
proof (induction "card (ineq_keys ineqs)" arbitrary: ineqs m rule: less_induct)
  case less
  show ?case
  proof (cases "solver_vars hk ineqs")
    case Nil
    then have "\<forall>i\<in>set ineqs. 0 \<le> bound i"
      using less.prems(1) by (subst (asm) solve_model.simps) (auto simp: list_ex_iff split: if_splits)
    then show ?thesis using keys_empty [OF assms(2) less.prems(2) Nil] by (auto simp: ineq_holds_def)
  next
    case (Cons v vs)
    then have v: "v \<in> ineq_keys ineqs" using set_solver_vars [OF assms(2) less.prems(2)] by (metis list.set_intros(1))
    note K = model_eliminate_keys [OF less.prems(2), of exact v]
    from less.prems(1) obtain m0 where m0: "solve_model exact exact hk (model_eliminate exact v ineqs) = Some (Some m0)"
      and rec: "recover exact exact v (List.map_filter (model_upper v) ineqs) (List.map_filter (model_lower v) ineqs) m0 = Some m"
      by (subst (asm) solve_model.simps) (auto simp: Cons Option.bind_eq_Some_conv)
    have "card (ineq_keys (model_eliminate exact v ineqs)) < card (ineq_keys ineqs)"
      using K(2) [OF less.prems(3)] v by (intro psubset_card_mono finite_ineq_keys) auto
    from less.hyps [OF this m0 K(1)] K(2) [OF less.prems(3)]
    have "\<forall>i\<in>set (model_eliminate exact v ineqs). ineq_holds (model_get m0) i" by blast
    then have "\<forall>i\<in>set ineqs. keeps v i \<longrightarrow> ineq_holds (model_get m0) i" by (auto simp: model_eliminate_def)
    then show ?thesis by (rule recover_sound [OF rec less.prems(2)])
  qed
qed

section \<open>Counterexamples\<close>

lemma negate_tight: "branch \<in> set (negate c) \<Longrightarrow> list_all (tight (\<sigma> :: var \<Rightarrow> int)) branch \<Longrightarrow> \<not> holds \<sigma> c"
  by (cases c rule: negate.cases) (auto simp: holds_def tight_def)

lemma counterexample_in_found:
  "counterexample_in w64 w128 hk ps bs = Some (Some m) \<Longrightarrow> \<exists>b\<in>set bs. model_of w64 w128 hk (ps @ b) = Some (Some m)"
  by (induction bs) (auto simp: Option.bind_eq_Some_conv split: option.splits)

text \<open>C14: A counterexample is one: the integers found for the variables, with zero for those it
  does not mention, satisfy every premise other than an inequation and violate the
  conclusion, as long as the search computes what it would without overflow.\<close>

theorem counterexample_valid:
  assumes "hash_order hk" and "list_all con_wf premises" and "list_all con_nz premises" and "con_wf concl" and "con_nz concl"
    and "counterexample wrap64 wrap128 hk premises concl = Some (Some m)"
    and "counterexample exact exact hk premises concl = counterexample wrap64 wrap128 hk premises concl"
  shows "(\<forall>p\<in>set premises. con_rel p \<noteq> Ne \<longrightarrow> holds (model_get m) p) \<and> \<not> holds (model_get m) concl"
proof -
  obtain b where b: "b \<in> set (negate concl)" "model_of exact exact hk (premises @ b) = Some (Some m)"
    using assms(6,7) counterexample_in_found by (metis counterexample_def)
  have wf: "list_all con_wf (premises @ b)" "list_all con_nz (premises @ b)"
    using assms(2,3) negate_wf [OF assms(4) b(1)] negate_nz [OF assms(5) b(1)] by simp_all
  have "\<forall>i\<in>set (to_inequalities (premises @ b)). ineq_holds (model_get m) i"
    using solve_model_sound [OF b(2) [unfolded model_of_def] assms(1) to_inequalities_wf [OF wf(1)] to_inequalities_nz [OF wf]] .
  then have all: "list_all (tight (model_get m)) (premises @ b)" using to_inequalities_tight [OF wf(1)] by blast
  then have "\<not> holds (model_get m) concl" using negate_tight [OF b(1)] by simp
  moreover have "holds (model_get m) p" if "p \<in> set premises" "con_rel p \<noteq> Ne" for p
    using all that tight_int_iff [OF that(2)] by (auto simp: list_all_iff)
  ultimately show ?thesis by blast
qed

theorem counterexample_valid_witness:
  "holds (model_get [([120], 3), ([121], 1)]) (Constraint \<lparr>terms = [([120], 1), ([121], -2)], const_term = -1\<rparr> Eq)
   \<and> \<not> holds (model_get [([120], 3), ([121], 1)]) (Constraint \<lparr>terms = [([121], 1)], const_term = 0\<rparr> Le)"
proof -
  let ?p = "Constraint \<lparr>terms = [([120], 1), ([121], -2)], const_term = -1\<rparr> Eq"
  let ?c = "Constraint \<lparr>terms = [([121], 1)], const_term = 0\<rparr> Le"
  have hk: "hash_order (map fst)" by (simp add: hash_order_def bt_wf_distinct)
  have "counterexample wrap64 wrap128 (map fst) [?p] ?c = Some (Some [([120], 3), ([121], 1)])"
    "counterexample exact exact (map fst) [?p] ?c = counterexample wrap64 wrap128 (map fst) [?p] ?c"
    by code_simp+
  from counterexample_valid [OF hk _ _ _ _ this] show ?thesis
    by (simp add: con_wf_def lin_wf_def con_nz_def)
qed

text \<open>
  The search is not complete: the value of a variable is fixed to its least bound before the
  values of the variables eliminated earlier are known. With \<open>2 x - y = 1\<close> and \<open>y \<ge> 0\<close> it
  picks \<open>y = 0\<close>, finds no integer \<open>x\<close> and gives up, although \<open>x = y = 1\<close> is a counterexample
  to \<open>x < 0\<close>. And an inequation among the premises is ignored, so that the value found may
  violate it.
\<close>

lemma counterexample_missed:
  "counterexample wrap64 wrap128 (map fst)
     [Constraint \<lparr>terms = [([120], 2), ([121], -1)], const_term = -1\<rparr> Eq, Constraint \<lparr>terms = [([121], 1)], const_term = 0\<rparr> Ge]
     (Constraint \<lparr>terms = [([120], 1)], const_term = 0\<rparr> Lt) = Some None
   \<and> list_all (holds (\<lambda>_. 1 :: int))
     [Constraint \<lparr>terms = [([120], 2), ([121], -1)], const_term = -1\<rparr> Eq, Constraint \<lparr>terms = [([121], 1)], const_term = 0\<rparr> Ge]
   \<and> \<not> holds (\<lambda>_. 1 :: int) (Constraint \<lparr>terms = [([120], 1)], const_term = 0\<rparr> Lt)"
  by code_simp

lemma counterexample_violates_inequation:
  "counterexample wrap64 wrap128 (map fst)
     [Constraint \<lparr>terms = [([120], 1)], const_term = 0\<rparr> Ne, Constraint \<lparr>terms = [([120], 1)], const_term = 0\<rparr> Ge]
     (Constraint \<lparr>terms = [([120], 1)], const_term = -1\<rparr> Ge) = Some (Some [([120], 0)])
   \<and> \<not> holds (model_get [([120], 0)]) (Constraint \<lparr>terms = [([120], 1)], const_term = 0\<rparr> Ne)"
  by code_simp

end
