(* ===== verification/Telos_Verify.thy ===== *)
theory Telos_Verify
  imports Telos_Model
begin

text \<open>
  The driver of the Telos verifier (\<open>tpt-telos-verifier/src/verify.rs\<close>) with its built-in
  solver: every conclusion of a problem is checked against the premises, conclusions on their
  own first, then the groups of which one member has to be entailed. The order in which the
  groups are walked is the parameter \<open>gk\<close>. A check that panics ends the run, and one that
  does not return keeps it from returning.
\<close>

record check_result =
  cr_description :: bytes
  cr_passed :: bool
  cr_is_ensures :: bool
  cr_is_approximation :: bool
  cr_counterexample :: "model option"
  cr_or_group :: "nat option"
  cr_location :: "(nat \<times> nat) option"

record verification_result =
  vr_func_name :: bytes
  vr_checks :: "check_result list"
  vr_all_passed :: bool

type_synonym 'a outcome = "(solver_panic + 'a) option"

definition obind :: "'a outcome \<Rightarrow> ('a \<Rightarrow> 'b outcome) \<Rightarrow> 'b outcome" where
  "obind r f = (case r of None \<Rightarrow> None | Some (Inl e) \<Rightarrow> Some (Inl e) | Some (Inr x) \<Rightarrow> f x)"

lemma obind_Inr: "obind r f = Some (Inr y) \<longleftrightarrow> (\<exists>x. r = Some (Inr x) \<and> f x = Some (Inr y))"
  by (auto simp: obind_def split: option.splits sum.splits)

definition check_conclusion ::
  "(int \<Rightarrow> int) \<Rightarrow> (int \<Rightarrow> int) \<Rightarrow> (coeff_map \<Rightarrow> var list) \<Rightarrow> constraint list \<Rightarrow> conclusion \<Rightarrow> check_result outcome" where
  "check_conclusion w64 w128 hk premises concl =
     obind (Some (entails w64 w128 hk premises (cc_constraint concl))) (\<lambda>passed.
     obind (if passed then Some (Inr None)
            else map_option Inr (counterexample w64 w128 hk premises (cc_constraint concl))) (\<lambda>ce.
       Some (Inr \<lparr>cr_description = cc_description concl, cr_passed = passed, cr_is_ensures = cc_is_ensures concl,
         cr_is_approximation = cc_is_approximation concl, cr_counterexample = ce, cr_or_group = cc_or_group concl,
         cr_location = Some (span_line (cc_location concl), span_col (cc_location concl))\<rparr>)))"

fun check_all ::
  "(int \<Rightarrow> int) \<Rightarrow> (int \<Rightarrow> int) \<Rightarrow> (coeff_map \<Rightarrow> var list) \<Rightarrow> constraint list \<Rightarrow> conclusion list \<Rightarrow> check_result list outcome" where
  "check_all w64 w128 hk premises [] = Some (Inr [])"
| "check_all w64 w128 hk premises (c # cs) =
     obind (check_conclusion w64 w128 hk premises c) (\<lambda>r.
     obind (check_all w64 w128 hk premises cs) (\<lambda>rs. Some (Inr (r # rs))))"

fun check_groups ::
  "(int \<Rightarrow> int) \<Rightarrow> (int \<Rightarrow> int) \<Rightarrow> (coeff_map \<Rightarrow> var list) \<Rightarrow> problem \<Rightarrow> nat list \<Rightarrow> check_result list list outcome" where
  "check_groups w64 w128 hk p [] = Some (Inr [])"
| "check_groups w64 w128 hk p (g # gs) =
     obind (check_all w64 w128 hk (vp_premises p) (filter (\<lambda>c. cc_or_group c = Some g) (vp_conclusions p))) (\<lambda>r.
     obind (check_groups w64 w128 hk p gs) (\<lambda>rs. Some (Inr (r # rs))))"

definition verify ::
  "(int \<Rightarrow> int) \<Rightarrow> (int \<Rightarrow> int) \<Rightarrow> (coeff_map \<Rightarrow> var list) \<Rightarrow> (nat list \<Rightarrow> nat list) \<Rightarrow> problem \<Rightarrow> verification_result outcome" where
  "verify w64 w128 hk gk p =
     obind (check_all w64 w128 hk (vp_premises p) (filter (\<lambda>c. cc_or_group c = None) (vp_conclusions p))) (\<lambda>checks.
     obind (check_groups w64 w128 hk p (gk (remdups (List.map_filter cc_or_group (vp_conclusions p))))) (\<lambda>groups.
       Some (Inr \<lparr>vr_func_name = vp_func_name p, vr_checks = checks @ concat groups,
         vr_all_passed = (list_all cr_passed checks \<and> list_all (list_ex cr_passed) groups)\<rparr>)))"

definition is_unsat ::
  "(int \<Rightarrow> int) \<Rightarrow> (int \<Rightarrow> int) \<Rightarrow> (coeff_map \<Rightarrow> var list) \<Rightarrow> constraint list \<Rightarrow> solver_panic + bool" where
  "is_unsat w64 w128 hk cs = unsat w64 w128 hk cs"

section \<open>A passed problem is true\<close>

text \<open>The coefficient lists of the problem are well formed, as those that extraction builds are.\<close>

definition problem_ok :: "problem \<Rightarrow> bool" where
  "problem_ok p \<longleftrightarrow> list_all con_wf (vp_premises p) \<and> list_all (\<lambda>c. con_wf (cc_constraint c)) (vp_conclusions p)"

text \<open>No number leaves its machine width while the solver runs the checks of the problem.\<close>

definition no_overflow :: "(coeff_map \<Rightarrow> var list) \<Rightarrow> problem \<Rightarrow> bool" where
  "no_overflow hk p \<longleftrightarrow>
     list_all (\<lambda>c. list_all (\<lambda>branch. runs_exactly hk (vp_premises p @ branch)) (negate (cc_constraint c))) (vp_conclusions p)"

definition group_order :: "(nat list \<Rightarrow> nat list) \<Rightarrow> bool" where
  "group_order gk \<longleftrightarrow> (\<forall>gs. set (gk gs) = set gs)"

lemma check_conclusion_passed:
  assumes "check_conclusion wrap64 wrap128 hk (vp_premises p) c = Some (Inr r)" "cr_passed r"
    and "problem_ok p" "no_overflow hk p" "c \<in> set (vp_conclusions p)" "list_all (holds (\<sigma> :: var \<Rightarrow> int)) (vp_premises p)"
  shows "holds \<sigma> (cc_constraint c)"
proof -
  have "entails wrap64 wrap128 hk (vp_premises p) (cc_constraint c) = Inr True"
    using assms(1,2) by (auto simp: check_conclusion_def obind_Inr)
  then show ?thesis
    using assms(3-6) by (intro entails_true) (auto simp: problem_ok_def no_overflow_def list_all_iff)
qed

lemma list_all2_mem: "list_all2 P xs ys \<Longrightarrow> x \<in> set xs \<Longrightarrow> \<exists>y\<in>set ys. P x y"
  by (induction rule: list_all2_induct) auto

lemma check_all_results:
  "check_all w64 w128 hk ps cs = Some (Inr rs) \<Longrightarrow> list_all2 (\<lambda>c r. check_conclusion w64 w128 hk ps c = Some (Inr r)) cs rs"
  by (induction cs arbitrary: rs) (auto simp: obind_Inr)

lemma check_groups_results:
  "check_groups w64 w128 hk p gs = Some (Inr rss) \<Longrightarrow>
    list_all2 (\<lambda>g rs. list_all2 (\<lambda>c r. check_conclusion w64 w128 hk (vp_premises p) c = Some (Inr r))
      (filter (\<lambda>c. cc_or_group c = Some g) (vp_conclusions p)) rs) gs rss"
  by (induction gs arbitrary: rss) (auto simp: obind_Inr check_all_results)

lemma accepted_problem_holds:
  assumes "group_order gk" and "problem_ok p" and "no_overflow hk p"
    and "verify wrap64 wrap128 hk gk p = Some (Inr res)" and "vr_all_passed res"
    and "list_all (holds (\<sigma> :: var \<Rightarrow> int)) (vp_premises p)"
  shows "(\<forall>c\<in>set (vp_conclusions p). cc_or_group c = None \<longrightarrow> holds \<sigma> (cc_constraint c))
    \<and> (\<forall>c\<in>set (vp_conclusions p). \<forall>g. cc_or_group c = Some g \<longrightarrow>
        (\<exists>d\<in>set (vp_conclusions p). cc_or_group d = Some g \<and> holds \<sigma> (cc_constraint d)))"
proof -
  let ?gs = "gk (remdups (List.map_filter cc_or_group (vp_conclusions p)))"
  from assms(4) obtain rs rss where
    rs: "check_all wrap64 wrap128 hk (vp_premises p) (filter (\<lambda>c. cc_or_group c = None) (vp_conclusions p)) = Some (Inr rs)"
    and rss: "check_groups wrap64 wrap128 hk p ?gs = Some (Inr rss)"
    and pass: "list_all cr_passed rs" "list_all (list_ex cr_passed) rss"
    using assms(5) by (auto simp: verify_def obind_Inr)
  note truth = check_conclusion_passed [OF _ _ assms(2,3) _ assms(6)]
  have "holds \<sigma> (cc_constraint c)" if c: "c \<in> set (vp_conclusions p)" "cc_or_group c = None" for c
  proof -
    obtain r where "r \<in> set rs" "check_conclusion wrap64 wrap128 hk (vp_premises p) c = Some (Inr r)"
      using list_all2_mem [OF check_all_results [OF rs]] c by auto
    then show ?thesis using truth c(1) pass(1) by (auto simp: list_all_iff)
  qed
  moreover have "\<exists>d\<in>set (vp_conclusions p). cc_or_group d = Some g \<and> holds \<sigma> (cc_constraint d)"
    if c: "c \<in> set (vp_conclusions p)" "cc_or_group c = Some g" for c g
  proof -
    have "g \<in> set ?gs" using c assms(1) by (auto simp: group_order_def set_map_filter_iff)
    then obtain n where n: "n < length ?gs" "?gs ! n = g" by (auto simp: in_set_conv_nth)
    note G = check_groups_results [OF rss, unfolded list_all2_conv_all_nth]
    have "list_ex cr_passed (rss ! n)" using pass(2) n(1) G by (auto simp: list_all_length)
    then obtain k where k: "k < length (rss ! n)" "cr_passed (rss ! n ! k)" by (auto simp: list_ex_length)
    let ?d = "filter (\<lambda>c. cc_or_group c = Some g) (vp_conclusions p) ! k"
    have len: "k < length (filter (\<lambda>c. cc_or_group c = Some g) (vp_conclusions p))"
      and "check_conclusion wrap64 wrap128 hk (vp_premises p) ?d = Some (Inr (rss ! n ! k))"
      using G [THEN conjunct2, rule_format, OF n(1)] n(2) k(1) by simp_all
    moreover have "?d \<in> set (vp_conclusions p)" "cc_or_group ?d = Some g" using nth_mem [OF len] by auto
    ultimately show ?thesis using truth k(2) by blast
  qed
  ultimately show ?thesis by blast
qed

text \<open>C5: What the verifier accepts holds, as long as its arithmetic does not wrap around. If every check
  of a problem with well-formed coefficient lists passes and no number left its machine width while the
  solver ran the checks, then for all integers that satisfy the premises every conclusion on its own
  holds, and in every group of alternatives at least one member does. (The solver does not notice when
  its substitutions wrap, and then accepts false conclusions: \<open>substitution_overflow_unsound\<close>.)\<close>

theorem verify_sound:
  assumes "group_order gk" and "problem_ok p" and "no_overflow hk p"
    and "verify wrap64 wrap128 hk gk p = Some (Inr res)" and "vr_all_passed res"
    and "list_all (holds (\<sigma> :: var \<Rightarrow> int)) (vp_premises p)"
  shows "(\<forall>c\<in>set (vp_conclusions p). cc_or_group c = None \<longrightarrow> holds \<sigma> (cc_constraint c))
    \<and> (\<forall>c\<in>set (vp_conclusions p). \<forall>g. cc_or_group c = Some g \<longrightarrow>
        (\<exists>d\<in>set (vp_conclusions p). cc_or_group d = Some g \<and> holds \<sigma> (cc_constraint d)))"
  by (rule accepted_problem_holds [OF assms])

text \<open>A deposit: from \<open>b' = b + a\<close>, \<open>a \<ge> 1\<close> and \<open>b \<ge> 0\<close> follow \<open>b' \<ge> 1\<close>, and one of
  \<open>b' > b\<close> and \<open>b' = 0\<close>.\<close>

definition deposit_problem :: problem where
  "deposit_problem =
     (let b = [98]; b' = [98, 39]; a = [97]; loc = \<lparr>span_line = 3, span_col = 5\<rparr> in
      \<lparr>vp_func_name = [100], vp_func_span = loc,
       vp_premises = [Constraint \<lparr>terms = [(b', 1), (b, -1), (a, -1)], const_term = 0\<rparr> Eq,
         Constraint \<lparr>terms = [(a, 1)], const_term = -1\<rparr> Ge, Constraint \<lparr>terms = [(b, 1)], const_term = 0\<rparr> Ge],
       vp_conclusions =
        [\<lparr>cc_description = str ''ensures'', cc_constraint = Constraint \<lparr>terms = [(b', 1)], const_term = -1\<rparr> Ge,
           cc_is_ensures = True, cc_is_approximation = False, cc_location = loc, cc_or_group = None\<rparr>,
         \<lparr>cc_description = str ''or'', cc_constraint = Constraint \<lparr>terms = [(b', 1), (b, -1)], const_term = 0\<rparr> Gt,
           cc_is_ensures = True, cc_is_approximation = False, cc_location = loc, cc_or_group = Some 0\<rparr>,
         \<lparr>cc_description = str ''or'', cc_constraint = Constraint \<lparr>terms = [(b', 1)], const_term = 0\<rparr> Eq,
           cc_is_ensures = True, cc_is_approximation = False, cc_location = loc, cc_or_group = Some 0\<rparr>]\<rparr>)"

theorem verify_sound_witness:
  "(\<exists>res. verify wrap64 wrap128 (map fst) id deposit_problem = Some (Inr res) \<and> vr_all_passed res)
   \<and> holds ((\<lambda>_. 0 :: int)([98] := 2, [97] := 3, [98, 39] := 5)) (cc_constraint (vp_conclusions deposit_problem ! 0))"
proof -
  let ?s = "(\<lambda>_. 0 :: int)([98] := 2, [97] := 3, [98, 39] := 5)"
  obtain res where res: "verify wrap64 wrap128 (map fst) id deposit_problem = Some (Inr res)" "vr_all_passed res"
  proof -
    have "(case verify wrap64 wrap128 (map fst) id deposit_problem of Some (Inr r) \<Rightarrow> vr_all_passed r | _ \<Rightarrow> False)"
      by code_simp
    then show ?thesis using that by (auto split: option.splits sum.splits)
  qed
  have "problem_ok deposit_problem" "no_overflow (map fst) deposit_problem" by code_simp+
  moreover have "group_order id" by (simp add: group_order_def)
  moreover have "list_all (holds ?s) (vp_premises deposit_problem)" by code_simp
  moreover have "vp_conclusions deposit_problem ! 0 \<in> set (vp_conclusions deposit_problem)"
    "cc_or_group (vp_conclusions deposit_problem ! 0) = None"
    by (simp_all add: deposit_problem_def Let_def)
  ultimately show ?thesis using verify_sound [OF _ _ _ res] res by blast
qed

end
