(* ===== verification/Telos_Build.thy ===== *)
theory Telos_Build
  imports Telos_Extract Telos_Verify
begin

text \<open>
  Building the verification problems of a program (the second half of
  \<open>tpt-telos-ir/src/extract.rs\<close>): the fields and variables an expression mentions, the
  descriptions of conclusions, the contracts of called functions, and one problem for every
  way through a function's requirements and body.
\<close>

section \<open>What an expression mentions\<close>

fun collect_fields :: "expr \<Rightarrow> (bytes \<times> bytes) list" where
  "collect_fields (EField base field) = [(base, field)]"
| "collect_fields (EOld e) = collect_fields e"
| "collect_fields (EUnary _ e) = collect_fields e"
| "collect_fields (EBin _ l r) = collect_fields l @ collect_fields r"
| "collect_fields (EIndex r i) = collect_fields r @ collect_fields i"
| "collect_fields (ECall _ args) = concat (map collect_fields args)"
| "collect_fields (EMethodCall r _ args) = collect_fields r @ concat (map collect_fields args)"
| "collect_fields (EIf c t e) = collect_fields c @ collect_fields t @ collect_fields e"
| "collect_fields (EMatch s arms) = collect_fields s @ concat (map (\<lambda>(_, e). collect_fields e) arms)"
| "collect_fields _ = []"

fun collect_vars :: "expr \<Rightarrow> bytes list" where
  "collect_vars (EVar v) = [v]"
| "collect_vars (EOld e) = collect_vars e"
| "collect_vars (EUnary _ e) = collect_vars e"
| "collect_vars (EBin _ l r) = collect_vars l @ collect_vars r"
| "collect_vars (EIndex r i) = collect_vars r @ collect_vars i"
| "collect_vars (ECall _ args) = concat (map collect_vars args)"
| "collect_vars (EMethodCall r _ args) = collect_vars r @ concat (map collect_vars args)"
| "collect_vars (EIf c t e) = collect_vars c @ collect_vars t @ collect_vars e"
| "collect_vars (EMatch s arms) = collect_vars s @ concat (map (\<lambda>(_, e). collect_vars e) arms)"
| "collect_vars _ = []"

definition assign_fields :: "assign \<Rightarrow> (bytes \<times> bytes) list" where
  "assign_fields a = collect_fields (asg_value a) @ target_field a"

lemma size_stmt_arm: "(p, body) \<in> set arms \<Longrightarrow> size_list size body < Suc (Suc (size_list (size_prod (\<lambda>x. 0) (size_list size)) arms + n))"
proof -
  assume "(p, body) \<in> set arms"
  then have "size_prod (\<lambda>x. 0) (size_list size) (p, body) \<le> size_list (size_prod (\<lambda>x. 0) (size_list size)) arms"
    by (intro size_list_estimation') auto
  then show ?thesis by simp
qed

function (sequential) collect_body_referenced_fields :: "stmt list \<Rightarrow> (bytes \<times> bytes) list" where
  "collect_body_referenced_fields [] = []"
| "collect_body_referenced_fields (SMutateState assigns # stmts) =
     concat (map assign_fields assigns) @ collect_body_referenced_fields stmts"
| "collect_body_referenced_fields (SAssign a # stmts) = assign_fields a @ collect_body_referenced_fields stmts"
| "collect_body_referenced_fields (SIf _ then_body else_body # stmts) =
     collect_body_referenced_fields then_body
     @ (case else_body of Some b \<Rightarrow> collect_body_referenced_fields b | None \<Rightarrow> [])
     @ collect_body_referenced_fields stmts"
| "collect_body_referenced_fields (SMatch _ arms # stmts) =
     concat (map (\<lambda>(_, body). collect_body_referenced_fields body) arms) @ collect_body_referenced_fields stmts"
| "collect_body_referenced_fields (_ # stmts) = collect_body_referenced_fields stmts"
  by pat_completeness auto
termination
  by (relation "measure (size_list size)") (auto simp: size_stmt_arm)

section \<open>Descriptions\<close>

definition bin_op_text :: "bin_op \<Rightarrow> bytes" where
  "bin_op_text op = str (case op of Add \<Rightarrow> ''+'' | Sub \<Rightarrow> ''-'' | Mul \<Rightarrow> ''*'' | Div \<Rightarrow> ''/'' | OpEq \<Rightarrow> ''=='' | OpNe \<Rightarrow> ''!=''
     | OpLt \<Rightarrow> ''<'' | OpLe \<Rightarrow> ''<='' | OpGt \<Rightarrow> ''>'' | OpGe \<Rightarrow> ''>='' | And \<Rightarrow> ''&&'' | Or \<Rightarrow> ''||'')"

definition aggregate_text :: "aggregate_op \<Rightarrow> bytes" where
  "aggregate_text op = str (case op of AggSum \<Rightarrow> ''sum'' | AggMin \<Rightarrow> ''min'' | AggMax \<Rightarrow> ''max'' | AggCount \<Rightarrow> ''count'')"

fun join_text :: "bytes \<Rightarrow> bytes list \<Rightarrow> bytes" where
  "join_text sep [] = []"
| "join_text sep [x] = x"
| "join_text sep (x # xs) = x @ sep @ join_text sep xs"

fun pretty :: "expr \<Rightarrow> bytes" where
  "pretty (EInt n) = int_digits n"
| "pretty (EVar v) = v"
| "pretty (EField base field) = base @ str ''.'' @ field"
| "pretty (EOld e) = str ''old('' @ pretty e @ str '')''"
| "pretty (EUnary Neg e) = str ''-'' @ pretty e"
| "pretty (EBin op l r) = pretty l @ str '' '' @ bin_op_text op @ str '' '' @ pretty r"
| "pretty (ECall f args) = f @ str ''('' @ join_text (str '', '') (map pretty args) @ str '')''"
| "pretty (EMethodCall r mth args) =
     pretty r @ str ''.'' @ mth @ str ''('' @ join_text (str '', '') (map pretty args) @ str '')''"
| "pretty (EIndex r i) = pretty r @ str ''['' @ pretty i @ str '']''"
| "pretty (EIf c t e) = str ''if '' @ pretty c @ str '' { '' @ pretty t @ str '' } else { '' @ pretty e @ str '' }''"
| "pretty (EMatch s arms) =
     str ''match '' @ pretty s @ str '' { '' @ join_text (str '', '') (map (\<lambda>(_, e). str ''... => '' @ pretty e) arms) @ str '' }''"
| "pretty (ETry e) = pretty e @ str ''?''"
| "pretty (EForall v t _ body) = str ''forall '' @ v @ str '': '' @ ty_name t @ str '' { '' @ pretty body @ str '' }''"
| "pretty (EAggregate op args) = aggregate_text op @ str ''('' @ join_text (str '', '') (map pretty args) @ str '')''"
| "pretty (ERange lo hi) = pretty lo @ str ''..'' @ pretty hi"

section \<open>Contracts of called functions\<close>

type_synonym func_specs = "(bytes \<times> func) list"

definition call_ensures ::
  "(int \<Rightarrow> int) \<Rightarrow> naming \<Rightarrow> (bytes \<Rightarrow> bytes) \<Rightarrow> func \<Rightarrow> expr list \<Rightarrow> constraint list \<Rightarrow> extract_error + constraint list" where
  "call_ensures w ff vf callee args premises =
     fold_err (\<lambda>e ps.
       let e' = foldl (\<lambda>e (p, a). substitute_var (prm_name p) a e) e (zip (fn_params callee) args) in
       attempt (to_constraints w ff vf e') (\<lambda>cs. Inr (ps @ cs))) (fn_ensures callee) premises"

fun collect_call_ensures ::
  "(int \<Rightarrow> int) \<Rightarrow> naming \<Rightarrow> (bytes \<Rightarrow> bytes) \<Rightarrow> func_specs \<Rightarrow> expr \<Rightarrow> constraint list \<times> bytes list
    \<Rightarrow> extract_error + (constraint list \<times> bytes list)" where
  "collect_call_ensures w ff vf specs (ECall f args) st =
     (case bt_get specs f of
        None \<Rightarrow> Inr st
      | Some callee \<Rightarrow>
          attempt (if f \<in> set (snd st) then Inr st
                   else attempt (call_ensures w ff vf callee args (fst st)) (\<lambda>ps. Inr (ps, fn_name callee # snd st)))
            (fold_err (collect_call_ensures w ff vf specs) args))"
| "collect_call_ensures w ff vf specs (EMethodCall r _ args) st =
     attempt (collect_call_ensures w ff vf specs r st) (fold_err (collect_call_ensures w ff vf specs) args)"
| "collect_call_ensures w ff vf specs (EBin _ l r) st =
     attempt (collect_call_ensures w ff vf specs l st) (collect_call_ensures w ff vf specs r)"
| "collect_call_ensures w ff vf specs (EUnary _ e) st = collect_call_ensures w ff vf specs e st"
| "collect_call_ensures w ff vf specs (EOld e) st = collect_call_ensures w ff vf specs e st"
| "collect_call_ensures w ff vf specs (EIf c t e) st =
     attempt (collect_call_ensures w ff vf specs c st) (\<lambda>st1.
     attempt (collect_call_ensures w ff vf specs t st1) (collect_call_ensures w ff vf specs e))"
| "collect_call_ensures w ff vf specs (EForall _ _ _ body) st = collect_call_ensures w ff vf specs body st"
| "collect_call_ensures w ff vf specs _ st = Inr st"

section \<open>Problems\<close>

definition has_prefix :: "bytes \<Rightarrow> bytes \<Rightarrow> bool" where
  "has_prefix prefix s \<longleftrightarrow> take (length prefix) s = prefix"

type_synonym invariants = "(bytes \<times> inv_def) list"

definition param_invariants :: "invariants \<Rightarrow> func \<Rightarrow> (param \<times> inv_def) list" where
  "param_invariants invs f =
     List.map_filter (\<lambda>p. map_option (Pair p) (bt_get invs (ty_name (prm_ty p)))) (fn_params f)"

definition type_constraints :: "(int \<Rightarrow> int) \<Rightarrow> func \<Rightarrow> constraint list" where
  "type_constraints w f =
     map (\<lambda>p. Constraint (lin_sub w (lin_var (prm_name p)) (constant_only 1)) Ge)
       (filter (\<lambda>p. has_prefix (str ''Positive'') (ty_name (prm_ty p))) (fn_params f))"

definition entry_invariants :: "(int \<Rightarrow> int) \<Rightarrow> invariants \<Rightarrow> func \<Rightarrow> extract_error + constraint list" where
  "entry_invariants w invs f =
     fold_err (\<lambda>(p, inv) acc.
       fold_err (\<lambda>c acc. attempt (to_constraints w pre_field same_name (instantiate (prm_name p) c)) (\<lambda>cs. Inr (acc @ cs)))
         (inv_constraints inv) acc) (param_invariants invs f) []"

definition requires_dnf :: "(int \<Rightarrow> int) \<Rightarrow> func \<Rightarrow> extract_error + dnf" where
  "requires_dnf w f =
     fold_err (\<lambda>r acc. attempt (to_constraints_dnf w pre_field same_name r) (\<lambda>b. Inr (combine_dnf acc b))) (fn_requires f) [[]]"

definition referenced_fields :: "(bytes \<times> bytes list) list \<Rightarrow> func \<Rightarrow> (bytes \<times> bytes) list" where
  "referenced_fields inv_fields f =
     remdups (concat (map collect_fields (fn_requires f)) @ concat (map collect_fields (fn_ensures f))
       @ collect_body_referenced_fields (fn_body f)
       @ concat (map (\<lambda>p. case bt_get inv_fields (ty_name (prm_ty p)) of
             Some fs \<Rightarrow> map (Pair (prm_name p)) fs | None \<Rightarrow> []) (fn_params f)))"

definition frame_axioms :: "(int \<Rightarrow> int) \<Rightarrow> (bytes \<times> bytes) list \<Rightarrow> (bytes \<times> bytes) list \<Rightarrow> constraint list" where
  "frame_axioms w referenced assigned =
     map (\<lambda>(base, field). Constraint (lin_sub w (lin_var (post_field base field)) (lin_var (pre_field base field))) Eq)
       (filter (\<lambda>bf. bf \<notin> set assigned) referenced)"

definition problem_premises ::
  "(int \<Rightarrow> int) \<Rightarrow> (bytes \<times> bytes) list \<Rightarrow> dnf \<Rightarrow> body_branch list \<Rightarrow> dnf" where
  "problem_premises w referenced premise_dnf body_branches =
     concat (map (\<lambda>pb. map (\<lambda>bb. pb @ bb_extra_premises bb @ bb_mutations bb
       @ frame_axioms w referenced (bb_assigned bb)) body_branches) premise_dnf)"

definition mk_conclusion :: "bytes \<Rightarrow> bool \<Rightarrow> bool \<Rightarrow> span \<Rightarrow> nat option \<Rightarrow> constraint \<Rightarrow> conclusion" where
  "mk_conclusion desc ens approx loc grp c =
     \<lparr>cc_description = desc, cc_constraint = c, cc_is_ensures = ens, cc_is_approximation = approx,
      cc_location = loc, cc_or_group = grp\<rparr>"

definition span_at :: "span list \<Rightarrow> nat \<Rightarrow> span \<Rightarrow> span" where
  "span_at spans i d = (if i < length spans then spans ! i else d)"

definition ensures_conclusions ::
  "(int \<Rightarrow> int) \<Rightarrow> func \<Rightarrow> var_bounds \<Rightarrow> nat \<times> expr \<Rightarrow> conclusion list \<times> nat \<Rightarrow> extract_error + (conclusion list \<times> nat)" where
  "ensures_conclusions w f bounds = (\<lambda>(i, e) (out, next_or_group).
     attempt (to_constraints_bounded_dnf w post_field same_name bounds e) (\<lambda>(dnf, approx).
       let loc = span_at (fn_ensures_spans f) i (fn_span f); desc = str ''ensures: '' @ pretty e in
       Inr (case dnf of
          [branch] \<Rightarrow> (out @ map (mk_conclusion desc True approx loc None) branch, next_or_group)
        | _ \<Rightarrow> (out @ concat (map (\<lambda>(n, branch).
              map (mk_conclusion (desc @ str '' [branch '' @ dec_digits n @ str '']'') True approx loc (Some next_or_group)) branch)
                (enumerate 0 dnf)), next_or_group + 1))))"

definition invariant_conclusions ::
  "(int \<Rightarrow> int) \<Rightarrow> var_bounds \<Rightarrow> param \<times> inv_def \<Rightarrow> conclusion list \<Rightarrow> extract_error + conclusion list" where
  "invariant_conclusions w bounds = (\<lambda>(p, inv) out.
     fold_err (\<lambda>(j, c) out.
       let inst = instantiate (prm_name p) c in
       attempt (to_constraints_bounded w post_field same_name bounds inst) (\<lambda>(cs, approx).
         Inr (out @ map (mk_conclusion (str ''invariant '' @ inv_name inv @ str '' maintained: '' @ pretty inst)
            False approx (span_at (inv_constraint_spans inv) j (inv_span inv)) None) cs)))
       (enumerate 0 (inv_constraints inv)) out)"

definition build_problem ::
  "(int \<Rightarrow> int) \<Rightarrow> invariants \<Rightarrow> func \<Rightarrow> nat \<Rightarrow> nat \<times> constraint list \<Rightarrow> extract_error + problem" where
  "build_problem w invs f branches = (\<lambda>(idx, premises).
     let bounds = collect_var_bounds w premises in
     attempt (fold_err (ensures_conclusions w f bounds) (enumerate 0 (fn_ensures f)) ([], 0)) (\<lambda>(ens, _).
     attempt (fold_err (invariant_conclusions w bounds) (param_invariants invs f) ens) (\<lambda>concls.
       Inr \<lparr>vp_func_name = (if branches = 1 then fn_name f else fn_name f @ str ''[branch '' @ dec_digits idx @ str '']''),
            vp_func_span = fn_span f, vp_premises = premises, vp_conclusions = concls\<rparr>)))"

definition build_problems ::
  "(int \<Rightarrow> int) \<Rightarrow> ((bytes \<times> bytes) list \<Rightarrow> (bytes \<times> bytes) list) \<Rightarrow> invariants \<Rightarrow> (bytes \<times> bytes list) list \<Rightarrow> func_specs
    \<Rightarrow> func \<Rightarrow> extract_error + problem list" where
  "build_problems w fo invs inv_fields specs f =
     attempt (requires_dnf w f) (\<lambda>req.
     attempt (fold_err (collect_call_ensures w pre_field same_name specs) (fn_requires f @ fn_ensures f) ([], [])) (\<lambda>(calls, _).
     attempt (entry_invariants w invs f) (\<lambda>entry.
     attempt (process_body_stmts w pre_field same_name (fn_body f)
         [\<lparr>bb_extra_premises = [], bb_mutations = [], bb_assigned = []\<rparr>]) (\<lambda>bodies.
       let premise_dnf = map (\<lambda>b. b @ calls @ type_constraints w f @ entry) req;
           all_premises = problem_premises w (fo (referenced_fields inv_fields f)) premise_dnf bodies
       in traverse (build_problem w invs f (length all_premises)) (enumerate 0 all_premises)))))"

definition module_invariants :: "module_ast list \<Rightarrow> inv_def list" where
  "module_invariants ms = List.map_filter (\<lambda>i. case i of IInvariant v \<Rightarrow> Some v | _ \<Rightarrow> None) (concat (map md_items ms))"

definition module_funcs :: "module_ast list \<Rightarrow> func list" where
  "module_funcs ms = List.map_filter (\<lambda>i. case i of IFunc f \<Rightarrow> Some f | _ \<Rightarrow> None) (concat (map md_items ms))"

definition invariant_fields_of :: "inv_def list \<Rightarrow> (bytes \<times> bytes list) list" where
  "invariant_fields_of invs =
     foldl (\<lambda>m inv. bt_insert (inv_name inv)
       (remdups ((case bt_get m (inv_name inv) of Some fs \<Rightarrow> fs | None \<Rightarrow> []) @ concat (map collect_vars (inv_constraints inv)))) m) [] invs"

definition extract_problems ::
  "(int \<Rightarrow> int) \<Rightarrow> ((bytes \<times> bytes) list \<Rightarrow> (bytes \<times> bytes) list) \<Rightarrow> module_ast list \<Rightarrow> extract_error + problem list" where
  "extract_problems w fo ms =
     (let invs = foldl (\<lambda>m inv. bt_insert (inv_name inv) inv m) [] (module_invariants ms);
          inv_fields = invariant_fields_of (module_invariants ms);
          specs = foldl (\<lambda>m f. bt_insert (fn_name f) f m) [] (module_funcs ms)
      in attempt (traverse (build_problems w fo invs inv_fields specs) (module_funcs ms)) (\<lambda>ps. Inr (concat ps)))"

end
