(* ===== verification/Telos_Contracts.thy ===== *)
theory Telos_Contracts
  imports Telos_Build
begin

text \<open>
  What contracts mean and what extraction makes of them: arithmetic expressions and the linear
  forms they become, boolean contracts and their disjunctive normal forms.
\<close>

section \<open>Meaning of contracts\<close>

text \<open>Variables are looked up among the quantified ones first; a quantifier binds its variable in
  the environment \<open>\<rho>\<close> of its body, whatever the body is made of.\<close>

fun aval_in :: "(var \<Rightarrow> int) \<Rightarrow> (bytes \<rightharpoonup> int) \<Rightarrow> naming \<Rightarrow> expr \<Rightarrow> int option" where
  "aval_in \<sigma> \<rho> ff (EInt n) = Some n"
| "aval_in \<sigma> \<rho> ff (EVar v) = Some (case \<rho> v of Some i \<Rightarrow> i | None \<Rightarrow> \<sigma> v)"
| "aval_in \<sigma> \<rho> ff (EField b f) = Some (\<sigma> (ff b f))"
| "aval_in \<sigma> \<rho> ff (EOld e) = aval_in \<sigma> \<rho> pre_field e"
| "aval_in \<sigma> \<rho> ff (EUnary Neg e) = map_option uminus (aval_in \<sigma> \<rho> ff e)"
| "aval_in \<sigma> \<rho> ff (EBin op l r) =
     (case (aval_in \<sigma> \<rho> ff l, aval_in \<sigma> \<rho> ff r) of
        (Some x, Some y) \<Rightarrow>
          (case op of
             Add \<Rightarrow> Some (x + y) | Sub \<Rightarrow> Some (x - y) | Mul \<Rightarrow> Some (x * y)
           | Div \<Rightarrow> if y = 0 then None else Some (trunc_div x y) | _ \<Rightarrow> None)
      | _ \<Rightarrow> None)"
| "aval_in \<sigma> \<rho> ff _ = None"

abbreviation aval :: "(var \<Rightarrow> int) \<Rightarrow> naming \<Rightarrow> expr \<Rightarrow> int option" where
  "aval \<sigma> ff e \<equiv> aval_in \<sigma> Map.empty ff e"

definition op_holds :: "bin_op \<Rightarrow> int \<Rightarrow> int \<Rightarrow> bool option" where
  "op_holds op x y = (case op of OpEq \<Rightarrow> Some (x = y) | OpNe \<Rightarrow> Some (x \<noteq> y) | OpLt \<Rightarrow> Some (x < y) | OpLe \<Rightarrow> Some (x \<le> y)
     | OpGt \<Rightarrow> Some (x > y) | OpGe \<Rightarrow> Some (x \<ge> y) | _ \<Rightarrow> None)"

text \<open>
  A contract is true, false, or has no meaning here (\<open>None\<close>): it uses expressions other than
  comparisons of arithmetic, \<open>&&\<close>, \<open>||\<close>, conditionals and bounded quantifiers.
\<close>

fun bval_in :: "(var \<Rightarrow> int) \<Rightarrow> (bytes \<rightharpoonup> int) \<Rightarrow> naming \<Rightarrow> expr \<Rightarrow> bool option" where
  "bval_in \<sigma> \<rho> ff (EBin op l r) =
     (if op = And then case (bval_in \<sigma> \<rho> ff l, bval_in \<sigma> \<rho> ff r) of (Some x, Some y) \<Rightarrow> Some (x \<and> y) | _ \<Rightarrow> None
      else if op = Or then case (bval_in \<sigma> \<rho> ff l, bval_in \<sigma> \<rho> ff r) of (Some x, Some y) \<Rightarrow> Some (x \<or> y) | _ \<Rightarrow> None
      else case (aval_in \<sigma> \<rho> ff l, aval_in \<sigma> \<rho> ff r) of (Some x, Some y) \<Rightarrow> op_holds op x y | _ \<Rightarrow> None)"
| "bval_in \<sigma> \<rho> ff (EIf c t e) =
     (case (bval_in \<sigma> \<rho> ff c, bval_in \<sigma> \<rho> ff t, bval_in \<sigma> \<rho> ff e) of
        (Some x, Some y, Some z) \<Rightarrow> Some (if x then y else z) | _ \<Rightarrow> None)"
| "bval_in \<sigma> \<rho> ff (EForall v t (Some (ERange lo hi)) body) =
     (case (aval_in \<sigma> \<rho> ff lo, aval_in \<sigma> \<rho> ff hi) of
        (Some a, Some b) \<Rightarrow>
          (let vs = map (\<lambda>i. bval_in \<sigma> (\<rho>(v \<mapsto> i)) ff body) [a..b - 1] in
           if None \<in> set vs then None else Some (list_all (\<lambda>x. x = Some True) vs))
      | _ \<Rightarrow> None)"
| "bval_in \<sigma> \<rho> ff _ = None"

abbreviation bval :: "(var \<Rightarrow> int) \<Rightarrow> naming \<Rightarrow> expr \<Rightarrow> bool option" where
  "bval \<sigma> ff e \<equiv> bval_in \<sigma> Map.empty ff e"

section \<open>Quantified variables\<close>

text \<open>Extraction replaces a quantified variable by each number of its range, but not inside a
  conditional, and also below a quantifier that binds the same name again. The replacement is the
  binding where neither happens.\<close>

fun occurs :: "bytes \<Rightarrow> expr \<Rightarrow> bool" where
  "occurs x (EVar v) = (v = x)"
| "occurs x (EOld e) = occurs x e"
| "occurs x (EUnary _ e) = occurs x e"
| "occurs x (EBin _ l r) = (occurs x l \<or> occurs x r)"
| "occurs x (EIf c t e) = (occurs x c \<or> occurs x t \<or> occurs x e)"
| "occurs x (EForall v t d b) = (occurs x b \<or> (case d of Some r \<Rightarrow> occurs x r | None \<Rightarrow> False))"
| "occurs x (ERange lo hi) = (occurs x lo \<or> occurs x hi)"
| "occurs x _ = False"

fun reached :: "bytes \<Rightarrow> expr \<Rightarrow> bool" where
  "reached x (EBin _ l r) = (reached x l \<and> reached x r)"
| "reached x (EIf c t e) = (\<not> occurs x c \<and> \<not> occurs x t \<and> \<not> occurs x e)"
| "reached x (EForall v t d b) = (v \<noteq> x \<and> reached x b)"
| "reached x _ = True"

fun quantified_ok :: "expr \<Rightarrow> bool" where
  "quantified_ok (EBin _ l r) = (quantified_ok l \<and> quantified_ok r)"
| "quantified_ok (EIf c t e) = (quantified_ok c \<and> quantified_ok t \<and> quantified_ok e)"
| "quantified_ok (EForall v t d b) = (reached v b \<and> quantified_ok b)"
| "quantified_ok _ = True"

lemma aval_agree: "\<forall>y. occurs y e \<longrightarrow> \<rho> y = \<rho>' y \<Longrightarrow> aval_in \<sigma> \<rho> ff e = aval_in \<sigma> \<rho>' ff e"
proof (induction e arbitrary: ff)
  case (EUnary op e)
  then show ?case by (cases op) simp
qed auto

lemma bval_agree: "\<forall>y. occurs y e \<longrightarrow> \<rho> y = \<rho>' y \<Longrightarrow> bval_in \<sigma> \<rho> ff e = bval_in \<sigma> \<rho>' ff e"
proof (induction e arbitrary: \<rho> \<rho>')
  case (EBin op l r)
  then have "bval_in \<sigma> \<rho> ff l = bval_in \<sigma> \<rho>' ff l" "bval_in \<sigma> \<rho> ff r = bval_in \<sigma> \<rho>' ff r" by simp_all
  then show ?case using EBin.prems aval_agree [of l \<rho> \<rho>'] aval_agree [of r \<rho> \<rho>'] by simp
next
  case (EIf c t e)
  then have "bval_in \<sigma> \<rho> ff c = bval_in \<sigma> \<rho>' ff c" "bval_in \<sigma> \<rho> ff t = bval_in \<sigma> \<rho>' ff t" "bval_in \<sigma> \<rho> ff e = bval_in \<sigma> \<rho>' ff e"
    by simp_all
  then show ?case by simp
next
  case (EForall v t d b)
  have "map (\<lambda>k. bval_in \<sigma> (\<rho>(v \<mapsto> k)) ff b) ks = map (\<lambda>k. bval_in \<sigma> (\<rho>'(v \<mapsto> k)) ff b) ks" for ks
    using EForall.prems by (intro list.map_cong0 EForall.IH(2)) simp
  moreover have "aval_in \<sigma> \<rho> ff lo = aval_in \<sigma> \<rho>' ff lo" "aval_in \<sigma> \<rho> ff hi = aval_in \<sigma> \<rho>' ff hi" if "d = Some (ERange lo hi)" for lo hi
    using that EForall.prems by (auto intro: aval_agree)
  ultimately show ?case by (cases d; cases "the d") (simp_all split: option.split del: map_eq_conv)
qed simp_all

lemma aval_substitute: "aval_in \<sigma> \<rho> ff (substitute_var x (EInt i) e) = aval_in \<sigma> (\<rho>(x \<mapsto> i)) ff e"
proof (induction e arbitrary: ff)
  case (EUnary op e)
  then show ?case by (cases op) simp
qed auto

lemma bval_substitute: "reached x e \<Longrightarrow> bval_in \<sigma> \<rho> ff (substitute_var x (EInt i) e) = bval_in \<sigma> (\<rho>(x \<mapsto> i)) ff e"
proof (induction e arbitrary: \<rho>)
  case (EBin op l r)
  then have "bval_in \<sigma> \<rho> ff (substitute_var x (EInt i) l) = bval_in \<sigma> (\<rho>(x \<mapsto> i)) ff l"
    "bval_in \<sigma> \<rho> ff (substitute_var x (EInt i) r) = bval_in \<sigma> (\<rho>(x \<mapsto> i)) ff r"
    by (auto intro!: EBin.IH(1) [of \<rho>] EBin.IH(2) [of \<rho>] simp del: fun_upd_apply)
  then show ?case by (simp add: aval_substitute fun_upd_def)
next
  case (EIf c t e)
  then have "bval_in \<sigma> \<rho> ff (EIf c t e) = bval_in \<sigma> (\<rho>(x \<mapsto> i)) ff (EIf c t e)" by (intro bval_agree) auto
  then show ?case by (simp only: substitute_var.simps)
next
  case (EForall v t d b)
  then have "bval_in \<sigma> (\<rho>(v \<mapsto> k)) ff (substitute_var x (EInt i) b) = bval_in \<sigma> (\<rho>(v \<mapsto> k, x \<mapsto> i)) ff b" for k
    by (intro EForall.IH(2)) simp
  moreover have "\<rho>(v \<mapsto> k, x \<mapsto> i) = \<rho>(x \<mapsto> i, v \<mapsto> k)" for k using EForall.prems by (auto intro: fun_upd_twist)
  ultimately have "map (\<lambda>k. bval_in \<sigma> (\<rho>(v \<mapsto> k)) ff (substitute_var x (EInt i) b)) ks
      = map (\<lambda>k. bval_in \<sigma> (\<rho>(x \<mapsto> i, v \<mapsto> k)) ff b) ks" for ks
    by (intro list.map_cong0) metis
  moreover define \<rho>' where "\<rho>' = \<rho>(x \<mapsto> i)"
  ultimately have "map (\<lambda>k. bval_in \<sigma> (\<rho>(v \<mapsto> k)) ff (substitute_var x (EInt i) b)) ks = map (\<lambda>k. bval_in \<sigma> (\<rho>'(v \<mapsto> k)) ff b) ks" for ks
    by simp
  moreover have "aval_in \<sigma> \<rho> ff (substitute_var x (EInt i) e) = aval_in \<sigma> \<rho>' ff e" for e unfolding \<rho>'_def by (rule aval_substitute)
  ultimately show ?case unfolding \<rho>'_def [symmetric]
    by (cases d; cases "the d") (simp_all split: option.split del: map_eq_conv)
qed auto

lemma reached_substitute: "reached y e \<Longrightarrow> reached y (substitute_var x (EInt i) e)"
  by (induction e) auto

lemma quantified_ok_substitute: "quantified_ok e \<Longrightarrow> quantified_ok (substitute_var x (EInt i) e)"
  by (induction e) (auto simp: reached_substitute)

section \<open>Linear forms\<close>

lemma div_exact_value: "k \<noteq> 0 \<Longrightarrow> div_exact k c = Inr q \<Longrightarrow> c = q * k"
  by (auto simp: div_exact_def split: if_splits)

lemma scale_exact_value:
  assumes "k \<noteq> 0" "scale_exact l k = Inr q"
  shows "lin_value (\<sigma> :: var \<Rightarrow> int) l = lin_value \<sigma> q * k"
proof -
  from assms(2) obtain c ts where c: "div_exact k (const_term l) = Inr c"
    and ts: "list_all2 (\<lambda>x y. (\<lambda>(v, c). attempt (div_exact k c) (\<lambda>q. Inr (v, q))) x = Inr y) (terms l) ts"
    and q: "q = \<lparr>terms = ts, const_term = c\<rparr>"
    by (auto simp: scale_exact_def attempt_Inr_iff traverse_Inr)
  have "eval_terms \<sigma> (terms l) = eval_terms \<sigma> ts * k"
    using ts
  proof (induction rule: list_all2_induct)
    case (Cons x xs y ys)
    then show ?case
      using div_exact_value [OF assms(1)] by (cases x) (auto simp: attempt_Inr_iff algebra_simps)
  qed simp
  then show ?thesis using q div_exact_value [OF assms(1) c] by (simp add: lin_value_def algebra_simps)
qed

lemma trunc_div_exact: "k \<noteq> 0 \<Longrightarrow> trunc_div (q * k) k = q"
proof -
  assume "k \<noteq> 0"
  then have "\<bar>q * k\<bar> div \<bar>k\<bar> = \<bar>q\<bar>" by (simp add: abs_mult)
  moreover have "sgn (q * k) * sgn k = sgn q" using \<open>k \<noteq> 0\<close> by (cases "0 < k") (simp_all add: sgn_mult)
  ultimately show ?thesis unfolding trunc_div_def by (simp add: sgn_mult_abs)
qed

text \<open>Constant subscripts are named by their number, whatever the array: they have no meaning
  in a contract here.\<close>

fun no_index :: "expr \<Rightarrow> bool" where
  "no_index (EIndex _ _) = False"
| "no_index (EOld e) = no_index e"
| "no_index (EUnary _ e) = no_index e"
| "no_index (EBin _ l r) = (no_index l \<and> no_index r)"
| "no_index (EIf c t e) = (no_index c \<and> no_index t \<and> no_index e)"
| "no_index (EForall v t d b) = no_index b"
| "no_index _ = True"

lemma no_index_substitute: "no_index e \<Longrightarrow> no_index (substitute_var x (EInt i) e)"
  by (induction e) auto

lemma as_int_Some: "as_int e = Some k \<longleftrightarrow> e = EInt k"
  by (cases e) auto

lemma linearize_value:
  "linearize exact ff same_name e = Inr l \<Longrightarrow> no_index e \<Longrightarrow> aval \<sigma> ff e = Some (lin_value \<sigma> l)"
proof (induction e arbitrary: ff l)
  case (EUnary op e)
  then show ?case by (cases op) (auto simp: attempt_Inr_iff)
next
  case (EBin op a b)
  from EBin.prems obtain la lb where ab: "linearize exact ff same_name a = Inr la" "linearize exact ff same_name b = Inr lb"
    by (auto simp: attempt_Inr_iff)
  have v: "aval \<sigma> ff a = Some (lin_value \<sigma> la)" "aval \<sigma> ff b = Some (lin_value \<sigma> lb)"
    using EBin ab by simp_all
  show ?case
  proof (cases op)
    case Mul
    then show ?thesis
      using EBin.prems ab v by (auto simp: as_int_Some mult.commute split: option.splits)
  next
    case Div
    then obtain k where k: "b = EInt k" "k \<noteq> 0" "scale_exact la k = Inr l"
      using EBin.prems ab by (auto simp: as_int_Some split: option.splits if_splits)
    then show ?thesis using Div v scale_exact_value [OF k(2,3), of \<sigma>] by (simp add: trunc_div_exact)
  qed (use EBin.prems ab v in auto)
qed auto

lemma const_value:
  "eval_const_expr exact e = Inr (Some n) \<Longrightarrow> aval \<sigma> ff e = Some n"
proof (induction e arbitrary: n)
  case (EUnary op e)
  then show ?case by (cases op) (auto simp: attempt_Inr_iff)
next
  case (EBin op a b)
  then show ?case
    by (cases op) (auto simp: attempt_Inr_iff split: option.splits if_splits)
qed auto

section \<open>Normal forms\<close>

definition dnf_holds :: "(var \<Rightarrow> int) \<Rightarrow> dnf \<Rightarrow> bool" where
  "dnf_holds \<sigma> d = list_ex (list_all (holds \<sigma>)) d"

lemma dnf_holds_simps [simp]:
  "dnf_holds \<sigma> (a @ b) \<longleftrightarrow> dnf_holds \<sigma> a \<or> dnf_holds \<sigma> b"
  "dnf_holds \<sigma> (combine_dnf a b) \<longleftrightarrow> dnf_holds \<sigma> a \<and> dnf_holds \<sigma> b"
  "dnf_holds \<sigma> [[]]" "\<not> dnf_holds \<sigma> []"
  by (auto simp: dnf_holds_def combine_dnf_def list_ex_iff)

lemma negate_relation_holds: "rel_holds (negate_relation r) x \<longleftrightarrow> \<not> rel_holds r (x :: int)"
  by (cases r) auto

lemma negate_dnf_holds: "dnf_holds \<sigma> (negate_dnf d) \<longleftrightarrow> \<not> dnf_holds \<sigma> d"
proof -
  have conj: "dnf_holds \<sigma> (map (\<lambda>c. [Constraint (con_lin c) (negate_relation (con_rel c))]) b) \<longleftrightarrow> \<not> list_all (holds \<sigma>) b" for b
    by (auto simp: dnf_holds_def list_ex_iff list_all_iff holds_def negate_relation_holds)
  have "dnf_holds \<sigma> (negate_dnf_from r d) \<longleftrightarrow> dnf_holds \<sigma> r \<and> \<not> dnf_holds \<sigma> d" for r
  proof (induction d arbitrary: r)
    case Nil
    then show ?case by simp
  next
    case (Cons b d)
    have "dnf_holds \<sigma> (b # d) \<longleftrightarrow> list_all (holds \<sigma>) b \<or> dnf_holds \<sigma> d" by (simp add: dnf_holds_def)
    then show ?case using Cons conj [of b] by auto
  qed
  then show ?thesis by (simp add: negate_dnf_def)
qed

lemma dnf_holds_foldl: "dnf_holds \<sigma> (foldl combine_dnf a ds) \<longleftrightarrow> dnf_holds \<sigma> a \<and> list_all (dnf_holds \<sigma>) ds"
  by (induction ds arbitrary: a) auto

fun no_match :: "expr \<Rightarrow> bool" where
  "no_match (EMatch _ _) = False"
| "no_match (EBin _ l r) = (no_match l \<and> no_match r)"
| "no_match (EIf c t e) = (no_match c \<and> no_match t \<and> no_match e)"
| "no_match (EForall _ _ _ b) = no_match b"
| "no_match (EAggregate _ _) = False"
| "no_match _ = True"

lemma no_match_substitute: "no_match e \<Longrightarrow> no_match (substitute_var x (EInt i) e)"
  by (induction e) auto

lemma op_holds_sub: "relation_of op = Some rel \<Longrightarrow> op_holds op x y = Some (rel_holds rel (x - y))"
  by (cases op) (auto simp: relation_of_def op_holds_def)

text \<open>The normal form of a contract holds exactly when the contract does.\<close>

lemma dnf_value:
  "to_constraints_dnf exact ff same_name e = Inr d \<Longrightarrow> no_index e \<Longrightarrow> no_match e \<Longrightarrow> quantified_ok e \<Longrightarrow>
    bval \<sigma> ff e = Some (dnf_holds \<sigma> d)"
proof (induction "exact" ff same_name e arbitrary: d rule: to_constraints_dnf.induct)
  case (1 ff op l r)
  show ?case
  proof (cases "op = Or \<or> op = And")
    case True
    then show ?thesis using 1 by (auto simp: attempt_Inr_iff)
  next
    case False
    with "1.prems" obtain rel a b where rel: "relation_of op = Some rel" and
      ab: "linearize exact ff same_name l = Inr a" "linearize exact ff same_name r = Inr b" "d = [[Constraint (lin_sub exact a b) rel]]"
      by (auto simp: attempt_Inr_iff split: option.splits)
    have "aval \<sigma> ff l = Some (lin_value \<sigma> a)" "aval \<sigma> ff r = Some (lin_value \<sigma> b)"
      using "1.prems"(2) linearize_value ab by auto
    then show ?thesis
      using False ab(3) op_holds_sub [OF rel] by (simp add: dnf_holds_def holds_def)
  qed
next
  case (2 ff c t e)
  from "2.prems"(1) obtain dc dt de where
    ds: "to_constraints_dnf exact ff same_name c = Inr dc" "to_constraints_dnf exact ff same_name t = Inr dt"
      "to_constraints_dnf exact ff same_name e = Inr de" "d = combine_dnf dc dt @ combine_dnf (negate_dnf dc) de"
    by (auto simp: attempt_Inr_iff)
  have "bval \<sigma> ff c = Some (dnf_holds \<sigma> dc)" "bval \<sigma> ff t = Some (dnf_holds \<sigma> dt)" "bval \<sigma> ff e = Some (dnf_holds \<sigma> de)"
    using 2 ds by simp_all
  then show ?case using ds(4) by (simp add: negate_dnf_holds)
next
  case (4 ff v t dom body)
  from "4.prems"(1) obtain lo hi where dom: "dom = Some (ERange lo hi)"
    by (auto split: option.splits expr.splits)
  from "4.prems"(1) dom obtain a b where ab: "const_range exact lo hi = Inr (a, b)"
    and rest: "(if b \<le> a then Inr [[]]
      else attempt (traverse (\<lambda>i. to_constraints_dnf exact ff same_name (substitute_var v (EInt i) body)) [a..b - 1]) (\<lambda>bs.
        Inr (foldl combine_dnf [[]] bs))) = (Inr d :: extract_error + dnf)"
    by (auto simp: attempt_Inr_iff)
  have vals: "aval \<sigma> ff lo = Some a" "aval \<sigma> ff hi = Some b"
    using ab const_value by (auto simp: const_range_def attempt_Inr_iff split: option.splits)
  show ?case
  proof (cases "b \<le> a")
    case True
    then have "d = [[]]" using rest by simp
    then show ?thesis using True dom vals by simp
  next
    case False
    with rest obtain bs where bs: "list_all2 (\<lambda>i db. to_constraints_dnf exact ff same_name (substitute_var v (EInt i) body) = Inr db) [a..b - 1] bs"
      and d: "d = foldl combine_dnf [[]] bs"
      by (auto simp: attempt_Inr_iff traverse_Inr)
    have "bval_in \<sigma> [v \<mapsto> i] ff body = Some (dnf_holds \<sigma> db)"
      if "to_constraints_dnf exact ff same_name (substitute_var v (EInt i) body) = Inr db" "i \<in> set [a..b - 1]" for i db
      using 4(1) [OF dom refl ab refl False that(2) that(1)] "4.prems"(2-4) bval_substitute [of v body \<sigma> Map.empty ff i]
      by (simp add: no_index_substitute no_match_substitute quantified_ok_substitute)
    then have "map (\<lambda>i. bval_in \<sigma> [v \<mapsto> i] ff body) [a..b - 1] = map (\<lambda>db. Some (dnf_holds \<sigma> db)) bs"
      using bs by (intro nth_equalityI) (auto simp: list_all2_conv_all_nth)
    then show ?thesis using dom vals d by (simp add: dnf_holds_foldl Let_def list_all_iff image_iff)
  qed
qed auto

text \<open>C13: The disjunctive normal form of a contract says exactly what the contract says. Take a contract
  without subscripts, \<open>match\<close> and aggregates, so one made of comparisons of arithmetic, \<open>&&\<close>, \<open>||\<close>,
  conditionals and bounded quantifiers, in which no quantified variable occurs inside a conditional
  within its quantifier or is bound again there. If extraction gives it a normal form and the arithmetic
  of the translation stays within 64 bits, then the contract is true in a state, its quantifiers read as
  ranging over the numbers of their range, if and only if all constraints of one of the branches of the
  normal form are.\<close>

theorem normal_form_equivalent:
  assumes "to_constraints_dnf wrap64 ff same_name e = Inr d"
    and "to_constraints_dnf wrap64 ff same_name e = to_constraints_dnf exact ff same_name e"
    and "no_index e" "no_match e" "quantified_ok e"
  shows "bval \<sigma> ff e = Some (\<exists>branch\<in>set d. \<forall>c\<in>set branch. holds \<sigma> c)"
  using dnf_value [of ff e d \<sigma>] assms by (simp add: dnf_holds_def list_ex_iff list_all_iff)

text \<open>\<open>if x > 3 { x == 7 } else { forall i in 0..2 { x + i >= 0 || x < i } }\<close> at \<open>x = 2\<close>.\<close>

definition sample_contract :: expr where
  "sample_contract =
     EIf (EBin OpGt (EVar [120]) (EInt 3)) (EBin OpEq (EVar [120]) (EInt 7))
       (EForall [105] (TNamed [105]) (Some (ERange (EInt 0) (EInt 2)))
         (EBin Or (EBin OpGe (EBin Add (EVar [120]) (EVar [105])) (EInt 0)) (EBin OpLt (EVar [120]) (EVar [105]))))"

theorem normal_form_equivalent_witness:
  "\<exists>d. to_constraints_dnf wrap64 pre_field same_name sample_contract = Inr d
     \<and> bval (\<lambda>_. 2) pre_field sample_contract = Some (\<exists>branch\<in>set d. \<forall>c\<in>set branch. holds (\<lambda>_. 2 :: int) c)"
proof -
  have "\<not> isl (to_constraints_dnf wrap64 pre_field same_name sample_contract)" by code_simp
  then obtain d where d: "to_constraints_dnf wrap64 pre_field same_name sample_contract = Inr d"
    by (cases "to_constraints_dnf wrap64 pre_field same_name sample_contract") auto
  have "to_constraints_dnf wrap64 pre_field same_name sample_contract = to_constraints_dnf exact pre_field same_name sample_contract"
    "no_index sample_contract" "no_match sample_contract" "quantified_ok sample_contract" by code_simp+
  from normal_form_equivalent [OF d this] d show ?thesis by blast
qed

text \<open>Where the restriction matters. A quantified variable inside a conditional is left alone:
  \<open>forall i in 0..1 { if i == 0 { 1 == 1 } else { 1 == 2 } }\<close>, which is
  true, has a normal form that is false wherever the outer \<open>i\<close> is not 0. A name bound again is replaced
  in the inner body as well.\<close>

lemma conditional_hides_variable:
  defines "e \<equiv> EForall [105] (TNamed [105]) (Some (ERange (EInt 0) (EInt 1)))
     (EIf (EBin OpEq (EVar [105]) (EInt 0)) (EBin OpEq (EInt 1) (EInt 1)) (EBin OpEq (EInt 1) (EInt 2)))"
  shows "bval (\<lambda>_. 5) pre_field e = Some True"
    and "(case to_constraints_dnf wrap64 pre_field same_name e of Inr d \<Rightarrow> \<not> dnf_holds (\<lambda>_. 5) d | Inl _ \<Rightarrow> False)"
  unfolding e_def by code_simp+

lemma inner_binding_replaced:
  defines "e \<equiv> EForall [105] (TNamed [105]) (Some (ERange (EInt 0) (EInt 1)))
     (EForall [105] (TNamed [105]) (Some (ERange (EInt 3) (EInt 4))) (EBin OpEq (EVar [105]) (EInt 3)))"
  shows "bval (\<lambda>_. 5) pre_field e = Some True"
    and "(case to_constraints_dnf wrap64 pre_field same_name e of Inr d \<Rightarrow> \<not> dnf_holds (\<lambda>_. 5) d | Inl _ \<Rightarrow> False)"
  unfolding e_def by code_simp+

end
