(* ===== verification/Telos_Bodies.thy ===== *)
theory Telos_Bodies
  imports Telos_Contracts
begin

text \<open>
  Running a function body the way the generated code does, one assignment after the other, and
  what the premises extracted from the body say about the run. Extraction names only the
  values before and after the whole body, so the two agree for bodies that assign a field at
  most once on every path and do not read it afterwards.
\<close>

section \<open>States and runs\<close>

type_synonym fields = "bytes \<times> bytes \<Rightarrow> int"

definition ident :: "bytes \<Rightarrow> bool" where
  "ident n \<longleftrightarrow> 46 \<notin> set n \<and> 39 \<notin> set n"

text \<open>The value of a name: a field before the body, a field after it, or a variable.\<close>

definition valuation :: "fields \<Rightarrow> fields \<Rightarrow> (bytes \<Rightarrow> int) \<Rightarrow> var \<Rightarrow> int" where
  "valuation F0 F1 L n =
     (if 46 \<in> set n then
        (let b = takeWhile (\<lambda>c. c \<noteq> 46) n; r = tl (dropWhile (\<lambda>c. c \<noteq> 46) n) in
         if r \<noteq> [] \<and> last r = 39 then F1 (b, butlast r) else F0 (b, r))
      else L n)"

lemma valuation_names:
  assumes "ident b" "ident f"
  shows "valuation F0 F1 L (pre_field b f) = F0 (b, f)" "valuation F0 F1 L (post_field b f) = F1 (b, f)"
proof -
  have tw: "takeWhile (\<lambda>c. c \<noteq> 46) (b @ 46 # r) = b" "dropWhile (\<lambda>c. c \<noteq> 46) (b @ 46 # r) = 46 # r" for r
    using assms(1) by (auto simp: ident_def takeWhile_append dropWhile_append)
  have "\<not> (f \<noteq> [] \<and> last f = 39)" using assms(2) last_in_set by (fastforce simp: ident_def)
  then show "valuation F0 F1 L (pre_field b f) = F0 (b, f)"
    using tw [of f] by (auto simp: valuation_def pre_field_def Let_def)
  show "valuation F0 F1 L (post_field b f) = F1 (b, f)"
    using tw [of "f @ [39]"] by (simp add: valuation_def post_field_def Let_def)
qed

lemma valuation_var: "ident v \<Longrightarrow> valuation F0 F1 L v = L v"
  by (simp add: valuation_def ident_def)

fun exec_assign :: "(bytes \<Rightarrow> int) \<Rightarrow> assign \<Rightarrow> fields \<Rightarrow> fields option" where
  "exec_assign L (Assign (EField b f) op e) F =
     (case aval (valuation F F L) pre_field e of
        None \<Rightarrow> None
      | Some v \<Rightarrow> Some (F((b, f) := (case op of ASet \<Rightarrow> v | AAdd \<Rightarrow> F (b, f) + v | ASub \<Rightarrow> F (b, f) - v))))"
| "exec_assign L _ F = None"

fun exec_assigns :: "(bytes \<Rightarrow> int) \<Rightarrow> assign list \<Rightarrow> fields \<Rightarrow> fields option" where
  "exec_assigns L [] F = Some F"
| "exec_assigns L (a # as) F = Option.bind (exec_assign L a F) (exec_assigns L as)"

function (sequential) exec :: "(bytes \<Rightarrow> int) \<Rightarrow> stmt list \<Rightarrow> fields \<Rightarrow> fields option" where
  "exec L [] F = Some F"
| "exec L (SMutateState as # stmts) F = Option.bind (exec_assigns L as F) (exec L stmts)"
| "exec L (SAssign a # stmts) F = Option.bind (exec_assign L a F) (exec L stmts)"
| "exec L (SIf c t e # stmts) F =
     (case bval (valuation F F L) pre_field c of
        None \<Rightarrow> None
      | Some taken \<Rightarrow>
          Option.bind (exec L (if taken then t else case e of Some b \<Rightarrow> b | None \<Rightarrow> []) F) (exec L stmts))"
| "exec L (_ # stmts) F = None"
  by pat_completeness auto
termination
  by (relation "measure (\<lambda>(L, stmts, F). size_list size stmts)") (auto split: option.splits)

section \<open>Bodies that extraction describes\<close>

definition expr_ok :: "(bytes \<times> bytes) list \<Rightarrow> expr \<Rightarrow> bool" where
  "expr_ok A e \<longleftrightarrow> no_index e \<and> list_all (\<lambda>(b, f). (b, f) \<notin> set A \<and> ident b \<and> ident f) (collect_fields e)
     \<and> list_all ident (collect_vars e)"

definition assign_ok :: "(bytes \<times> bytes) list \<Rightarrow> assign \<Rightarrow> bool" where
  "assign_ok A a \<longleftrightarrow>
     (case asg_target a of EField b f \<Rightarrow> (b, f) \<notin> set A \<and> ident b \<and> ident f | _ \<Rightarrow> False) \<and> expr_ok A (asg_value a)"

fun assigns_ok :: "(bytes \<times> bytes) list \<Rightarrow> assign list \<Rightarrow> bool" where
  "assigns_ok A [] = True"
| "assigns_ok A (a # as) = (assign_ok A a \<and> assigns_ok (A @ target_field a) as)"

function (sequential) assigned_fields :: "stmt list \<Rightarrow> (bytes \<times> bytes) list" where
  "assigned_fields [] = []"
| "assigned_fields (SMutateState as # stmts) = concat (map target_field as) @ assigned_fields stmts"
| "assigned_fields (SAssign a # stmts) = target_field a @ assigned_fields stmts"
| "assigned_fields (SIf c t e # stmts) =
     assigned_fields t @ assigned_fields (case e of Some b \<Rightarrow> b | None \<Rightarrow> []) @ assigned_fields stmts"
| "assigned_fields (_ # stmts) = assigned_fields stmts"
  by pat_completeness auto
termination
  by (relation "measure (size_list size)") (auto split: option.splits)

function (sequential) body_ok :: "(bytes \<times> bytes) list \<Rightarrow> stmt list \<Rightarrow> bool" where
  "body_ok A [] = True"
| "body_ok A (SMutateState as # stmts) = (assigns_ok A as \<and> body_ok (A @ concat (map target_field as)) stmts)"
| "body_ok A (SAssign a # stmts) = (assign_ok A a \<and> body_ok (A @ target_field a) stmts)"
| "body_ok A (SIf c t e # stmts) =
     (expr_ok A c \<and> body_ok A t \<and> body_ok A (case e of Some b \<Rightarrow> b | None \<Rightarrow> [])
      \<and> body_ok (A @ assigned_fields t @ assigned_fields (case e of Some b \<Rightarrow> b | None \<Rightarrow> [])) stmts)"
| "body_ok A (_ # stmts) = False"
  by pat_completeness auto
termination
  by (relation "measure (\<lambda>(A, stmts). size_list size stmts)") (auto split: option.splits)

section \<open>A run satisfies the premises of its branch\<close>

lemma aval_cong:
  assumes "\<forall>(b, f)\<in>set (collect_fields e). \<sigma> (pre_field b f) = \<tau> (pre_field b f)" "\<forall>v\<in>set (collect_vars e). \<sigma> v = \<tau> v"
  shows "aval \<sigma> pre_field e = aval \<tau> pre_field e"
  using assms
proof (induction e)
  case (EUnary op e)
  then show ?case by (cases op) simp
next
  case (EBin op l r)
  then have "aval \<sigma> pre_field l = aval \<tau> pre_field l" "aval \<sigma> pre_field r = aval \<tau> pre_field r" by auto
  then show ?case by simp
qed auto

lemma aval_run:
  assumes "expr_ok A e" "\<forall>bf. bf \<notin> set A \<longrightarrow> F bf = F0 bf"
  shows "aval (valuation F F L) pre_field e = aval (valuation F0 F1 L) pre_field e"
proof (rule aval_cong)
  show "\<forall>(b, f)\<in>set (collect_fields e). valuation F F L (pre_field b f) = valuation F0 F1 L (pre_field b f)"
    using assms by (auto simp: expr_ok_def list_all_iff valuation_names)
  show "\<forall>v\<in>set (collect_vars e). valuation F F L v = valuation F0 F1 L v"
    using assms(1) by (auto simp: expr_ok_def list_all_iff valuation_var)
qed

definition branch_inv :: "fields \<Rightarrow> (bytes \<Rightarrow> int) \<Rightarrow> (bytes \<times> bytes) list \<Rightarrow> fields \<Rightarrow> body_branch \<Rightarrow> bool" where
  "branch_inv F0 L A F b \<longleftrightarrow> set (bb_assigned b) \<subseteq> set A
     \<and> (\<forall>bf. bf \<notin> set (bb_assigned b) \<longrightarrow> F bf = F0 bf)
     \<and> (\<forall>F1. (\<forall>bf\<in>set (bb_assigned b). F1 bf = F bf) \<longrightarrow> list_all (holds (valuation F0 F1 L)) (bb_mutations b))
     \<and> (\<forall>F1. list_all (holds (valuation F0 F1 L)) (bb_extra_premises b))"

lemma branch_inv_mono: "branch_inv F0 L A F b \<Longrightarrow> set A \<subseteq> set A' \<Longrightarrow> branch_inv F0 L A' F b"
  by (auto simp: branch_inv_def)

lemma branch_inv_unassigned: "branch_inv F0 L A F b \<Longrightarrow> \<forall>bf. bf \<notin> set A \<longrightarrow> F bf = F0 bf"
  by (auto simp: branch_inv_def)

lemma branch_inv_unmoved: "branch_inv F0 L A F b \<Longrightarrow> bf \<notin> set (bb_assigned b) \<Longrightarrow> F bf = F0 bf"
  unfolding branch_inv_def by blast

lemma apply_assign_run:
  assumes ap: "apply_assign exact pre_field same_name a branches = Inr out" and ok: "assign_ok A a"
    and ex: "exec_assign L a F = Some F'" and b: "b \<in> set branches" "branch_inv F0 L A F b"
  shows "\<exists>b'\<in>set out. branch_inv F0 L (A @ target_field a) F' b'"
proof -
  obtain base f op e where a: "a = Assign (EField base f) op e"
    using ok by (cases a) (auto simp: assign_ok_def split: expr.splits)
  have names: "(base, f) \<notin> set A" "ident base" "ident f" "expr_ok A e" using ok a by (auto simp: assign_ok_def)
  obtain l where l: "linearize exact pre_field same_name e = Inr l"
    using ap a by (auto simp: apply_assign_def assign_constraint_def attempt_Inr_iff Let_def)
  define c where "c = Constraint (case op of
      ASet \<Rightarrow> lin_sub exact (lin_var (post_field base f)) l
    | AAdd \<Rightarrow> lin_sub exact (lin_sub exact (lin_var (post_field base f)) (lin_var (pre_field base f))) l
    | ASub \<Rightarrow> lin_add exact (lin_sub exact (lin_var (post_field base f)) (lin_var (pre_field base f))) l) Eq"
  let ?b' = "b\<lparr>bb_mutations := bb_mutations b @ [c], bb_assigned := bb_assigned b @ [(base, f)]\<rparr>"
  have "?b' \<in> set out"
    using ap a l b(1) by (auto simp: apply_assign_def assign_constraint_def c_def target_field_def Let_def)
  note F0 = branch_inv_unassigned [OF b(2)]
  obtain v where v: "aval (valuation F F L) pre_field e = Some v"
    and F': "F' = F((base, f) := (case op of ASet \<Rightarrow> v | AAdd \<Rightarrow> F (base, f) + v | ASub \<Rightarrow> F (base, f) - v))"
    using ex a by (auto split: option.splits)
  have val: "lin_value (valuation F0 F1 L) l = v" for F1
    using linearize_value [OF l, of "valuation F0 F1 L"] names(4) aval_run [OF names(4) F0, of L F1] v
    by (simp add: expr_ok_def)
  have "holds (valuation F0 F1 L) c" if "F1 (base, f) = F' (base, f)" for F1
    using that F' F0 names val [of F1]
    by (cases op) (simp_all add: c_def holds_def valuation_names)
  moreover have "F' bf = F bf" if "bf \<in> set (bb_assigned b)" for bf
    using that F' names(1) b(2) by (auto simp: branch_inv_def)
  moreover have "F' bf = F0 bf" if "bf \<notin> set (bb_assigned b)" "bf \<noteq> (base, f)" for bf
    using that F' branch_inv_unmoved [OF b(2) that(1)] by simp
  ultimately have "branch_inv F0 L (A @ target_field a) F' ?b'"
    using b(2) a by (auto simp: branch_inv_def target_field_def)
  then show ?thesis using \<open>?b' \<in> set out\<close> by blast
qed

lemma apply_assigns_run:
  assumes "fold_err (apply_assign exact pre_field same_name) as branches = Inr out" "assigns_ok A as"
    "exec_assigns L as F = Some F'" "b \<in> set branches" "branch_inv F0 L A F b"
  shows "\<exists>b'\<in>set out. branch_inv F0 L (A @ concat (map target_field as)) F' b'"
  using assms
proof (induction as arbitrary: branches A F b)
  case (Cons a as)
  from Cons.prems(1) obtain mid where mid: "apply_assign exact pre_field same_name a branches = Inr mid"
    "fold_err (apply_assign exact pre_field same_name) as mid = Inr out"
    by (auto simp: attempt_Inr_iff)
  from Cons.prems(3) obtain F1 where F1: "exec_assign L a F = Some F1" "exec_assigns L as F1 = Some F'"
    by (auto simp: Option.bind_eq_Some_conv)
  obtain b1 where b1: "b1 \<in> set mid" "branch_inv F0 L (A @ target_field a) F1 b1"
    using apply_assign_run [OF mid(1) _ F1(1) Cons.prems(4,5)] Cons.prems(2) by auto
  show ?case using Cons.IH [OF mid(2) _ F1(2) b1] Cons.prems(2) by simp
qed auto

lemma condition_run:
  assumes "if_condition exact pre_field same_name c = Inr (diff, rel)" "expr_ok A c"
    "bval (valuation F F L) pre_field c = Some taken" "\<forall>bf. bf \<notin> set A \<longrightarrow> F bf = F0 bf"
  shows "holds (valuation F0 F1 L) (Constraint diff (if taken then rel else negate_relation rel))"
proof -
  from assms(1) obtain op l r x y where c: "c = EBin op l r" and rel: "relation_of op = Some rel"
    and xy: "linearize exact pre_field same_name l = Inr x" "linearize exact pre_field same_name r = Inr y" "diff = lin_sub exact x y"
    by (auto simp: if_condition_def attempt_Inr_iff split: expr.splits option.splits)
  have ok: "expr_ok A l" "expr_ok A r" using assms(2) c by (auto simp: expr_ok_def)
  let ?s = "valuation F0 F1 L"
  have "aval (valuation F F L) pre_field l = Some (lin_value ?s x)" "aval (valuation F F L) pre_field r = Some (lin_value ?s y)"
    using linearize_value [OF xy(1), of ?s] linearize_value [OF xy(2), of ?s] ok
      aval_run [OF ok(1) assms(4), of L F1] aval_run [OF ok(2) assms(4), of L F1]
    by (simp_all add: expr_ok_def)
  moreover have "op \<noteq> And" "op \<noteq> Or" using rel by (auto simp: relation_of_def)
  ultimately have "taken = rel_holds rel (lin_value ?s x - lin_value ?s y)"
    using assms(3) c op_holds_sub [OF rel] by simp
  then show ?thesis using xy(3) by (simp add: holds_def negate_relation_holds)
qed

lemma process_body_run:
  assumes "process_body_stmts exact pre_field same_name stmts branches = Inr out" "body_ok A stmts"
    "exec L stmts F = Some F'" "b \<in> set branches" "branch_inv F0 L A F b"
  shows "\<exists>b'\<in>set out. branch_inv F0 L (A @ assigned_fields stmts) F' b'"
  using assms
proof (induction L stmts F arbitrary: branches A b out F' rule: exec.induct)
  case (1 L F)
  then show ?case by auto
next
  case (2 L as stmts F)
  from "2.prems"(1) obtain mid where mid: "fold_err (apply_assign exact pre_field same_name) as branches = Inr mid"
    "process_body_stmts exact pre_field same_name stmts mid = Inr out" by (auto simp: attempt_Inr_iff)
  from "2.prems"(3) obtain F1 where F1: "exec_assigns L as F = Some F1" "exec L stmts F1 = Some F'"
    by (auto simp: Option.bind_eq_Some_conv)
  obtain b1 where b1: "b1 \<in> set mid" "branch_inv F0 L (A @ concat (map target_field as)) F1 b1"
    using apply_assigns_run [OF mid(1) _ F1(1) "2.prems"(4,5)] "2.prems"(2) by auto
  show ?case using 2(1) [OF F1(1) mid(2) _ F1(2) b1] "2.prems"(2) by simp
next
  case (3 L a stmts F)
  from "3.prems"(1) obtain mid where mid: "apply_assign exact pre_field same_name a branches = Inr mid"
    "process_body_stmts exact pre_field same_name stmts mid = Inr out" by (auto simp: attempt_Inr_iff)
  from "3.prems"(3) obtain F1 where F1: "exec_assign L a F = Some F1" "exec L stmts F1 = Some F'"
    by (auto simp: Option.bind_eq_Some_conv)
  obtain b1 where b1: "b1 \<in> set mid" "branch_inv F0 L (A @ target_field a) F1 b1"
    using apply_assign_run [OF mid(1) _ F1(1) "3.prems"(4,5)] "3.prems"(2) by auto
  show ?case using 3(1) [OF F1(1) mid(2) _ F1(2) b1] "3.prems"(2) by simp
next
  case (4 L c t e stmts F)
  let ?e = "case e of Some b \<Rightarrow> b | None \<Rightarrow> []"
  from "4.prems"(1) obtain diff rel tb eb where cond: "if_condition exact pre_field same_name c = Inr (diff, rel)"
    and tb: "process_body_stmts exact pre_field same_name t
      (map (\<lambda>b. b\<lparr>bb_extra_premises := bb_extra_premises b @ [Constraint diff rel]\<rparr>) branches) = Inr tb"
    and eb: "process_body_stmts exact pre_field same_name ?e
      (map (\<lambda>b. b\<lparr>bb_extra_premises := bb_extra_premises b @ [Constraint diff (negate_relation rel)]\<rparr>) branches) = Inr eb"
    and rest: "process_body_stmts exact pre_field same_name stmts (tb @ eb) = Inr out"
    by (auto simp: attempt_Inr_iff)
  from "4.prems"(3) obtain taken where taken: "bval (valuation F F L) pre_field c = Some taken"
    by (cases "bval (valuation F F L) pre_field c") simp_all
  with "4.prems"(3) obtain F1 where F1: "exec L (if taken then t else ?e) F = Some F1" "exec L stmts F1 = Some F'"
    by (simp only: exec.simps option.case Option.bind_eq_Some_conv) blast
  have ok: "expr_ok A c" "body_ok A t" "body_ok A ?e" "body_ok (A @ assigned_fields t @ assigned_fields ?e) stmts"
    using "4.prems"(2) by simp_all
  let ?rel = "if taken then rel else negate_relation rel"
  let ?b = "b\<lparr>bb_extra_premises := bb_extra_premises b @ [Constraint diff ?rel]\<rparr>"
  have inv: "branch_inv F0 L A F ?b"
    using "4.prems"(5) condition_run [OF cond ok(1) taken branch_inv_unassigned [OF "4.prems"(5)]]
    by (auto simp: branch_inv_def)
  have "\<exists>b'\<in>set (tb @ eb). branch_inv F0 L (A @ assigned_fields t @ assigned_fields ?e) F1 b'"
  proof (cases taken)
    case True
    have "?b \<in> set (map (\<lambda>b. b\<lparr>bb_extra_premises := bb_extra_premises b @ [Constraint diff rel]\<rparr>) branches)"
      using True "4.prems"(4) by simp
    from 4(1) [OF taken _ _ _ this inv] tb ok(2) F1(1) True
    obtain b' where b': "b' \<in> set tb" "branch_inv F0 L (A @ assigned_fields t) F1 b'" by auto
    have "branch_inv F0 L (A @ assigned_fields t @ assigned_fields ?e) F1 b'" by (rule branch_inv_mono [OF b'(2)]) auto
    then show ?thesis using b'(1) by auto
  next
    case False
    have "?b \<in> set (map (\<lambda>b. b\<lparr>bb_extra_premises := bb_extra_premises b @ [Constraint diff (negate_relation rel)]\<rparr>) branches)"
      using False "4.prems"(4) by simp
    from 4(1) [OF taken _ _ _ this inv] eb ok(3) F1(1) False
    obtain b' where b': "b' \<in> set eb" "branch_inv F0 L (A @ assigned_fields ?e) F1 b'" by auto
    have "branch_inv F0 L (A @ assigned_fields t @ assigned_fields ?e) F1 b'" by (rule branch_inv_mono [OF b'(2)]) auto
    then show ?thesis using b'(1) by auto
  qed
  then obtain b' where b': "b' \<in> set (tb @ eb)" "branch_inv F0 L (A @ assigned_fields t @ assigned_fields ?e) F1 b'" by blast
  show ?case using 4(2) [OF taken F1(1) rest ok(4) F1(2) b'] by simp
qed auto

end
