(* ===== verification/Telos_Soundness.thy ===== *)
theory Telos_Soundness
  imports Telos_Bodies
begin

text \<open>
  From the checks of the verifier back to the program: a function all of whose problems are
  accepted keeps its contract, and the shapes of contracts and bodies for which that fails.
\<close>

section \<open>Contracts without calls\<close>

fun no_call :: "expr \<Rightarrow> bool" where
  "no_call (ECall _ _) = False"
| "no_call (EMethodCall _ _ _) = False"
| "no_call (EOld e) = no_call e"
| "no_call (EUnary _ e) = no_call e"
| "no_call (EBin _ l r) = (no_call l \<and> no_call r)"
| "no_call (EIf c t e) = (no_call c \<and> no_call t \<and> no_call e)"
| "no_call (EForall _ _ _ b) = no_call b"
| "no_call _ = True"

lemma no_call_collect: "no_call e \<Longrightarrow> collect_call_ensures w ff vf specs e st = Inr st"
  by (induction e arbitrary: st) auto

lemma no_calls_collect:
  "list_all no_call es \<Longrightarrow> fold_err (collect_call_ensures w ff vf specs) es st = Inr st"
  by (induction es arbitrary: st) (auto simp: no_call_collect)

section \<open>Premises\<close>

lemma to_constraints_value:
  assumes "to_constraints exact ff same_name e = Inr cs" "no_index e" "no_match e" "quantified_ok e" "bval \<sigma> ff e = Some True"
  shows "list_all (holds \<sigma>) cs"
proof -
  from assms(1) obtain d where d: "to_constraints_dnf exact ff same_name e = Inr d"
    and one: "(case d of [branch] \<Rightarrow> Inr branch | _ \<Rightarrow> Inl OrNotAllowed) = Inr cs"
    by (auto simp: to_constraints_def attempt_Inr_iff)
  have "d = [cs]" using one by (cases d rule: remdups_adj.cases) auto
  with d have "to_constraints_dnf exact ff same_name e = Inr [cs]" by simp
  from dnf_value [OF this assms(2-4), of \<sigma>] assms(5) show ?thesis by (simp add: dnf_holds_def)
qed

lemma requires_value:
  assumes "fold_err (\<lambda>r acc. attempt (to_constraints_dnf exact pre_field same_name r) (\<lambda>b. Inr (combine_dnf acc b))) rs acc = Inr d"
    "list_all (\<lambda>r. no_index r \<and> no_match r \<and> quantified_ok r \<and> bval \<sigma> pre_field r = Some True) rs" "dnf_holds \<sigma> acc"
  shows "dnf_holds \<sigma> d"
  using assms
proof (induction rs arbitrary: acc)
  case (Cons r rs)
  from Cons.prems(1) obtain b where b: "to_constraints_dnf exact pre_field same_name r = Inr b"
    and rest: "fold_err (\<lambda>r acc. attempt (to_constraints_dnf exact pre_field same_name r) (\<lambda>b. Inr (combine_dnf acc b))) rs (combine_dnf acc b) = Inr d"
    by (auto simp: attempt_Inr_iff)
  have "dnf_holds \<sigma> b" using dnf_value [OF b, of \<sigma>] Cons.prems(2) by simp
  then show ?case using Cons.IH [OF rest] Cons.prems by simp
qed simp

lemma invariant_value:
  assumes "fold_err (\<lambda>c acc. attempt (to_constraints exact pre_field same_name (instantiate p c)) (\<lambda>cs. Inr (acc @ cs))) cs acc = Inr out"
    "list_all (\<lambda>c. no_index (instantiate p c) \<and> no_match (instantiate p c) \<and> quantified_ok (instantiate p c)
       \<and> bval \<sigma> pre_field (instantiate p c) = Some True) cs"
    "list_all (holds \<sigma>) acc"
  shows "list_all (holds \<sigma>) out"
  using assms
proof (induction cs arbitrary: acc)
  case (Cons c cs)
  from Cons.prems(1) obtain b where b: "to_constraints exact pre_field same_name (instantiate p c) = Inr b"
    and rest: "fold_err (\<lambda>c acc. attempt (to_constraints exact pre_field same_name (instantiate p c)) (\<lambda>cs. Inr (acc @ cs))) cs (acc @ b) = Inr out"
    by (auto simp: attempt_Inr_iff)
  have "list_all (holds \<sigma>) b" using to_constraints_value [OF b, of \<sigma>] Cons.prems(2) by simp
  then show ?case using Cons.IH [OF rest] Cons.prems by simp
qed simp

text \<open>Shapes of contracts the theorem covers: no calls, no subscripts, and postconditions that
  are conjunctions or disjunctions of comparisons.\<close>

fun only_and :: "expr \<Rightarrow> bool" where
  "only_and (EBin op l r) = (if op = And then only_and l \<and> only_and r else op \<noteq> Or)"
| "only_and _ = True"

fun only_or :: "expr \<Rightarrow> bool" where
  "only_or (EBin op l r) = (if op = Or then only_or l \<and> only_or r else op \<noteq> And)"
| "only_or _ = True"

definition func_ok :: "invariants \<Rightarrow> (bytes \<times> bytes list) list \<Rightarrow> func \<Rightarrow> bool" where
  "func_ok invs inv_fields f \<longleftrightarrow>
     list_all (\<lambda>r. no_index r \<and> no_match r \<and> quantified_ok r \<and> no_call r) (fn_requires f)
   \<and> list_all (\<lambda>e. no_index e \<and> no_call e \<and> (only_and e \<or> only_or e)) (fn_ensures f)
   \<and> list_all (\<lambda>(p, inv). list_all (\<lambda>c. no_index (instantiate (prm_name p) c) \<and> no_match (instantiate (prm_name p) c)
          \<and> quantified_ok (instantiate (prm_name p) c))
        (inv_constraints inv)) (param_invariants invs f)
   \<and> body_ok [] (fn_body f)
   \<and> list_all (\<lambda>(b, g). ident b \<and> ident g) (referenced_fields inv_fields f)"

text \<open>The contract before and after a run, whose values are those of \<open>\<sigma>\<close>.\<close>

definition invariants_hold :: "invariants \<Rightarrow> (var \<Rightarrow> int) \<Rightarrow> naming \<Rightarrow> func \<Rightarrow> bool" where
  "invariants_hold invs \<sigma> ff f \<longleftrightarrow>
     list_all (\<lambda>(p, inv). list_all (\<lambda>c. bval \<sigma> ff (instantiate (prm_name p) c) = Some True) (inv_constraints inv)) (param_invariants invs f)"

definition pre_holds :: "invariants \<Rightarrow> (var \<Rightarrow> int) \<Rightarrow> func \<Rightarrow> bool" where
  "pre_holds invs \<sigma> f \<longleftrightarrow> list_all (\<lambda>r. bval \<sigma> pre_field r = Some True) (fn_requires f)
     \<and> list_all (\<lambda>p. has_prefix (str ''Positive'') (ty_name (prm_ty p)) \<longrightarrow> 1 \<le> \<sigma> (prm_name p)) (fn_params f)
     \<and> invariants_hold invs \<sigma> pre_field f"

definition post_holds :: "invariants \<Rightarrow> (var \<Rightarrow> int) \<Rightarrow> func \<Rightarrow> bool" where
  "post_holds invs \<sigma> f \<longleftrightarrow> list_all (\<lambda>e. bval \<sigma> post_field e = Some True) (fn_ensures f) \<and> invariants_hold invs \<sigma> post_field f"

lemma entry_invariants_value:
  assumes "entry_invariants exact invs f = Inr entry" "func_ok invs inv_fields f" "invariants_hold invs \<sigma> pre_field f"
  shows "list_all (holds \<sigma>) entry"
proof -
  have "list_all (holds \<sigma>) out"
    if "fold_err (\<lambda>(p, inv) acc. fold_err (\<lambda>c acc. attempt (to_constraints exact pre_field same_name (instantiate (prm_name p) c)) (\<lambda>cs. Inr (acc @ cs)))
         (inv_constraints inv) acc) pis acc = Inr out"
      "list_all (\<lambda>(p, inv). list_all (\<lambda>c. no_index (instantiate (prm_name p) c) \<and> no_match (instantiate (prm_name p) c)
         \<and> quantified_ok (instantiate (prm_name p) c) \<and> bval \<sigma> pre_field (instantiate (prm_name p) c) = Some True) (inv_constraints inv)) pis"
      "list_all (holds \<sigma>) acc" for pis acc out
    using that
  proof (induction pis arbitrary: acc)
    case (Cons pi pis)
    obtain p inv where pi: "pi = (p, inv)" by (cases pi)
    from Cons.prems(1) pi obtain mid where
      mid: "fold_err (\<lambda>c acc. attempt (to_constraints exact pre_field same_name (instantiate (prm_name p) c)) (\<lambda>cs. Inr (acc @ cs)))
         (inv_constraints inv) acc = Inr mid"
      and rest: "fold_err (\<lambda>(p, inv) acc. fold_err (\<lambda>c acc. attempt (to_constraints exact pre_field same_name (instantiate (prm_name p) c)) (\<lambda>cs. Inr (acc @ cs)))
         (inv_constraints inv) acc) pis mid = Inr out"
      by (auto simp: attempt_Inr_iff)
    have "list_all (holds \<sigma>) mid" using invariant_value [OF mid _ Cons.prems(3)] Cons.prems(2) pi by simp
    then show ?case using Cons.IH [OF rest] Cons.prems(2) by simp
  qed simp
  from this [OF assms(1) [unfolded entry_invariants_def]] show ?thesis
    using assms(2,3) by (simp add: func_ok_def invariants_hold_def list_all_iff case_prod_beta)
qed

text \<open>The run of a body satisfies the premises of one of the problems.\<close>

lemma premises_hold:
  assumes ps: "requires_dnf exact f = Inr req" "entry_invariants exact invs f = Inr entry"
      "process_body_stmts exact pre_field same_name (fn_body f) [\<lparr>bb_extra_premises = [], bb_mutations = [], bb_assigned = []\<rparr>] = Inr bodies"
    and ok: "func_ok invs inv_fields f" and fo: "\<forall>xs. set (fo xs) = set xs"
    and ex: "exec L (fn_body f) F0 = Some F1" and pre: "pre_holds invs (valuation F0 F1 L) f"
  shows "\<exists>prem\<in>set (problem_premises exact (fo (referenced_fields inv_fields f)) (map (\<lambda>b. b @ type_constraints exact f @ entry) req) bodies).
    list_all (holds (valuation F0 F1 L)) prem"
proof -
  let ?s = "valuation F0 F1 L"
  have "dnf_holds ?s req"
    using requires_value [OF ps(1) [unfolded requires_dnf_def], of ?s] ok pre
    by (auto simp: func_ok_def pre_holds_def list_all_iff)
  then obtain pb where pb: "pb \<in> set req" "list_all (holds ?s) pb" by (auto simp: dnf_holds_def list_ex_iff)
  have types: "list_all (holds ?s) (type_constraints exact f)"
    using pre by (auto simp: type_constraints_def pre_holds_def list_all_iff holds_def)
  have entry: "list_all (holds ?s) entry"
    using entry_invariants_value [OF ps(2) ok] pre by (simp add: pre_holds_def)
  have "branch_inv F0 L [] F0 \<lparr>bb_extra_premises = [], bb_mutations = [], bb_assigned = []\<rparr>" by (simp add: branch_inv_def)
  from process_body_run [OF ps(3) _ ex _ this] ok obtain bb where bb: "bb \<in> set bodies" "branch_inv F0 L (assigned_fields (fn_body f)) F1 bb"
    by (auto simp: func_ok_def)
  have body: "list_all (holds ?s) (bb_extra_premises bb)" "list_all (holds ?s) (bb_mutations bb)"
    using bb(2) by (simp_all add: branch_inv_def)
  have frame: "list_all (holds ?s) (frame_axioms exact (fo (referenced_fields inv_fields f)) (bb_assigned bb))"
    using ok fo branch_inv_unmoved [OF bb(2)]
    by (fastforce simp: frame_axioms_def list_all_iff func_ok_def holds_def valuation_names)
  let ?prem = "(pb @ type_constraints exact f @ entry) @ bb_extra_premises bb @ bb_mutations bb
    @ frame_axioms exact (fo (referenced_fields inv_fields f)) (bb_assigned bb)"
  have "?prem \<in> set (problem_premises exact (fo (referenced_fields inv_fields f)) (map (\<lambda>b. b @ type_constraints exact f @ entry) req) bodies)"
    unfolding problem_premises_def using pb(1) bb(1) by fastforce
  then show ?thesis by (rule bexI [rotated]) (use pb(2) types entry body frame in simp)
qed

section \<open>Conclusions\<close>

lemma linearize_bounded_exact:
  "linearize_bounded w ff vf bs mc e = Inr (l, False) \<Longrightarrow> linearize w ff vf e = Inr l"
proof (induction e arbitrary: ff l)
  case (EUnary op e)
  then show ?case by (cases op) (auto simp: attempt_Inr_iff)
next
  case (EBin op a b)
  from EBin.prems obtain la aa lb ab where
    ab: "linearize_bounded w ff vf bs mc a = Inr (la, aa)" "linearize_bounded w ff vf bs mc b = Inr (lb, ab)"
    by (auto simp: attempt_Inr_iff)
  with EBin.prems have "\<not> aa \<and> \<not> ab"
    by (cases op) (auto simp: attempt_Inr_iff split: option.splits if_splits)
  with ab EBin.IH have "linearize w ff vf a = Inr la" "linearize w ff vf b = Inr lb" by simp_all
  with EBin.prems ab show ?case
    by (cases op) (auto simp: attempt_Inr_iff split: option.splits if_splits)
qed (auto simp: attempt_Inr_iff)

lemma linearize_no_match: "linearize w ff vf e = Inr l \<Longrightarrow> no_match e \<and> quantified_ok e"
proof (induction e arbitrary: ff l)
  case (EBin op a b)
  then show ?case by (auto simp: attempt_Inr_iff)
qed auto

lemma bounded_dnf_exact:
  "to_constraints_bounded_dnf w ff vf bs e = Inr (d, False) \<Longrightarrow> to_constraints_dnf w ff vf e = Inr d \<and> no_match e \<and> quantified_ok e"
proof (induction e arbitrary: d)
  case (EBin op l r)
  show ?case
  proof (cases "op = Or \<or> op = And")
    case True
    then show ?thesis using EBin by (fastforce simp: attempt_Inr_iff)
  next
    case False
    with EBin.prems show ?thesis
      by (auto simp: attempt_Inr_iff split: option.splits if_splits
          dest!: linearize_bounded_exact dest: linearize_no_match)
  qed
qed simp_all

lemma bounded_constraints_dnf:
  "to_constraints_bounded w ff vf bs e = Inr (cs, False) \<Longrightarrow> to_constraints_bounded_dnf w ff vf bs e = Inr ([cs], False)"
proof (induction e arbitrary: cs)
  case (EBin op l r)
  show ?case
  proof (cases "op = And")
    case True
    then show ?thesis using EBin by (fastforce simp: attempt_Inr_iff combine_dnf_def)
  next
    case False
    then show ?thesis using EBin.prems
      by (auto simp: attempt_Inr_iff relation_of_def split: option.splits if_splits bin_op.splits)
  qed
qed simp_all

lemma bounded_constraints_nonempty: "to_constraints_bounded w ff vf bs e \<noteq> Inr ([], a)"
proof (induction e arbitrary: a)
  case (EBin op l r)
  then show ?case by (auto simp: attempt_Inr_iff split: option.splits)
qed simp_all

lemma combine_dnf_shape:
  "a \<noteq> [] \<Longrightarrow> b \<noteq> [] \<Longrightarrow> combine_dnf a b \<noteq> []"
  "[] \<notin> set a \<Longrightarrow> [] \<notin> set (combine_dnf a b)"
  "length (combine_dnf a b) = length a * length b"
  by (auto simp: combine_dnf_def length_concat o_def sum_list_triv)

lemma bounded_dnf_nonempty:
  "to_constraints_bounded_dnf w ff vf bs e = Inr (d, a) \<Longrightarrow> d \<noteq> [] \<and> [] \<notin> set d"
proof (induction e arbitrary: d a)
  case (EBin op l r)
  show ?case
  proof (cases "op = Or \<or> op = And")
    case True
    with EBin.prems obtain dl al dr ar where
      sub: "to_constraints_bounded_dnf w ff vf bs l = Inr (dl, al)" "to_constraints_bounded_dnf w ff vf bs r = Inr (dr, ar)"
        "d = (if op = Or then dl @ dr else combine_dnf dl dr)"
      by (auto simp: attempt_Inr_iff split: if_splits)
    then show ?thesis using EBin.IH(1) [OF sub(1)] EBin.IH(2) [OF sub(2)] by (auto simp: combine_dnf_shape)
  next
    case False
    with EBin.prems show ?thesis by (auto simp: attempt_Inr_iff split: option.splits if_splits)
  qed
qed simp_all

lemma bounded_dnf_shape:
  "to_constraints_bounded_dnf w ff vf bs e = Inr (d, False) \<Longrightarrow> only_and e \<Longrightarrow> length d = 1"
  "to_constraints_bounded_dnf w ff vf bs e = Inr (d, False) \<Longrightarrow> only_or e \<Longrightarrow> list_all (\<lambda>b. length b = 1) d"
proof (induction e arbitrary: d)
  case (EBin op l r)
  {
    case 1
    show ?case
    proof (cases "op = And")
      case True
      with "1" obtain dl dr where
        sub: "to_constraints_bounded_dnf w ff vf bs l = Inr (dl, False)" "to_constraints_bounded_dnf w ff vf bs r = Inr (dr, False)"
          "d = combine_dnf dl dr" "only_and l" "only_and r"
        by (auto simp: attempt_Inr_iff)
      then show ?thesis using EBin.IH(1) [OF sub(1,4)] EBin.IH(3) [OF sub(2,5)] by (simp add: combine_dnf_shape)
    next
      case False
      with "1" show ?thesis by (auto simp: attempt_Inr_iff split: option.splits if_splits)
    qed
  next
    case 2
    show ?case
    proof (cases "op = Or")
      case True
      with "2" obtain dl dr where
        sub: "to_constraints_bounded_dnf w ff vf bs l = Inr (dl, False)" "to_constraints_bounded_dnf w ff vf bs r = Inr (dr, False)"
          "d = dl @ dr" "only_or l" "only_or r"
        by (auto simp: attempt_Inr_iff)
      then show ?thesis using EBin.IH(2) [OF sub(1,4)] EBin.IH(4) [OF sub(2,5)] by simp
    next
      case False
      with "2" show ?thesis by (auto simp: attempt_Inr_iff split: option.splits if_splits)
    qed
  }
qed simp_all

text \<open>The conclusions state a normal form: on their own when it has one branch, otherwise as
  one group that contains nothing else.\<close>

definition stated :: "conclusion list \<Rightarrow> nat option \<Rightarrow> bool \<Rightarrow> dnf \<Rightarrow> bool" where
  "stated out g a d \<longleftrightarrow>
     (g = None \<longleftrightarrow> length d = 1)
   \<and> (\<forall>c\<in>set (concat d). \<exists>k\<in>set out. cc_constraint k = c \<and> cc_is_approximation k = a \<and> cc_or_group k = g)
   \<and> (\<forall>k\<in>set out. g \<noteq> None \<longrightarrow> cc_or_group k = g \<longrightarrow> cc_constraint k \<in> set (concat d))"

lemma stated_extend:
  assumes "stated part g a d" "set part \<subseteq> set out"
    and other: "\<And>k. k \<in> set out \<Longrightarrow> k \<notin> set part \<Longrightarrow> g = None \<or> cc_or_group k \<noteq> g"
  shows "stated out g a d"
  unfolding stated_def
proof (intro conjI ballI impI)
  show "(g = None) = (length d = 1)" using assms(1) by (simp add: stated_def)
  show "\<exists>k\<in>set out. cc_constraint k = c \<and> cc_is_approximation k = a \<and> cc_or_group k = g" if "c \<in> set (concat d)" for c
    using assms(1,2) that unfolding stated_def by blast
  show "cc_constraint k \<in> set (concat d)" if "k \<in> set out" "g \<noteq> None" "cc_or_group k = g" for k
    using assms(1) that other [of k] unfolding stated_def by blast
qed

lemma mk_conclusion_simps [simp]:
  "cc_constraint (mk_conclusion desc ens approx loc grp c) = c"
  "cc_is_approximation (mk_conclusion desc ens approx loc grp c) = approx"
  "cc_or_group (mk_conclusion desc ens approx loc grp c) = grp"
  by (simp_all add: mk_conclusion_def)

lemma enumerate_index: "x \<in> set xs \<Longrightarrow> \<exists>i. (i, x) \<in> set (enumerate n xs)"
proof -
  assume "x \<in> set xs"
  then have "x \<in> set (map snd (enumerate n xs))" by (simp only: map_snd_enumerate)
  then show ?thesis unfolding set_map by (metis imageE prod.collapse)
qed

lemma ensures_step:
  assumes "ensures_conclusions w f bs (i, e) (out, n) = Inr (out1, n1)"
  shows "\<exists>d a g new. to_constraints_bounded_dnf w post_field same_name bs e = Inr (d, a) \<and> out1 = out @ new
    \<and> stated new g a d \<and> list_all (\<lambda>k. cc_or_group k = g) new \<and> (g = None \<and> n1 = n \<or> g = Some n \<and> n1 = Suc n)"
proof -
  from assms obtain d a where d: "to_constraints_bounded_dnf w post_field same_name bs e = Inr (d, a)"
    by (auto simp: ensures_conclusions_def attempt_Inr_iff)
  define loc where "loc = span_at (fn_ensures_spans f) i (fn_span f)"
  define desc where "desc = str ''ensures: '' @ pretty e"
  show ?thesis
  proof (cases "length d = 1")
    case True
    then obtain b where b: "d = [b]" by (auto simp: length_Suc_conv)
    have "out1 = out @ map (mk_conclusion desc True a loc None) b" "n1 = n"
      using assms d b by (auto simp: ensures_conclusions_def Let_def loc_def desc_def)
    moreover have "stated (map (mk_conclusion desc True a loc None) b) None a d"
      using b by (auto simp: stated_def)
    ultimately show ?thesis using d by (intro exI [of _ d] exI [of _ a] exI [of _ None]) (auto simp: list_all_iff)
  next
    case False
    define new where "new = concat (map (\<lambda>(m, branch).
      map (mk_conclusion (desc @ str '' [branch '' @ dec_digits m @ str '']'') True a loc (Some n)) branch) (enumerate 0 d))"
    have "(case d of [branch] \<Rightarrow> x branch | _ \<Rightarrow> y) = y" for x and y :: "conclusion list \<times> nat"
      using False by (auto split: list.splits)
    then have "out1 = out @ new" "n1 = Suc n"
      using assms d by (auto simp: ensures_conclusions_def Let_def loc_def desc_def new_def)
    moreover have "stated new (Some n) a d"
    proof -
      have "\<exists>k\<in>set new. cc_constraint k = c \<and> cc_is_approximation k = a \<and> cc_or_group k = Some n" if "b \<in> set d" "c \<in> set b" for b c
      proof -
        obtain m where "(m, b) \<in> set (enumerate 0 d)" using enumerate_index [OF \<open>b \<in> set d\<close>] by blast
        then show ?thesis using that(2) unfolding new_def by fastforce
      qed
      moreover have "cc_constraint k \<in> set (concat d)" if "k \<in> set new" for k
        using that unfolding new_def by (fastforce simp: in_set_enumerate_eq)
      ultimately show ?thesis using False by (auto simp: stated_def)
    qed
    moreover have "list_all (\<lambda>k. cc_or_group k = Some n) new" by (auto simp: new_def list_all_iff)
    ultimately show ?thesis using d by blast
  qed
qed

lemma ensures_stated:
  assumes "fold_err (ensures_conclusions w f bs) (enumerate i es) (out, n) = Inr (out', n')"
    and "\<forall>k\<in>set out. \<forall>h. cc_or_group k = Some h \<longrightarrow> h < n"
  shows "(\<exists>new. out' = out @ new \<and> (\<forall>k\<in>set new. \<forall>h. cc_or_group k = Some h \<longrightarrow> n \<le> h))
    \<and> (\<forall>e\<in>set es. \<exists>d a g. to_constraints_bounded_dnf w post_field same_name bs e = Inr (d, a) \<and> stated out' g a d)"
  using assms
proof (induction es arbitrary: i out n)
  case (Cons e es)
  from Cons.prems(1) obtain out1 n1 where step: "ensures_conclusions w f bs (i, e) (out, n) = Inr (out1, n1)"
    and rest: "fold_err (ensures_conclusions w f bs) (enumerate (Suc i) es) (out1, n1) = Inr (out', n')"
    by (auto simp: attempt_Inr_iff)
  from ensures_step [OF step] obtain d a g new where d: "to_constraints_bounded_dnf w post_field same_name bs e = Inr (d, a)"
    and new: "out1 = out @ new" "stated new g a d" "list_all (\<lambda>k. cc_or_group k = g) new"
    and g: "g = None \<and> n1 = n \<or> g = Some n \<and> n1 = Suc n" by blast
  have below: "\<forall>k\<in>set out1. \<forall>h. cc_or_group k = Some h \<longrightarrow> h < n1"
    using Cons.prems(2) new(1,3) g by (auto simp: list_all_iff)
  from Cons.IH [OF rest below] obtain new' where new': "out' = out1 @ new'" "\<forall>k\<in>set new'. \<forall>h. cc_or_group k = Some h \<longrightarrow> n1 \<le> h"
    and IH: "\<forall>e\<in>set es. \<exists>d a g. to_constraints_bounded_dnf w post_field same_name bs e = Inr (d, a) \<and> stated out' g a d"
    by blast
  have "stated out' g a d"
    by (rule stated_extend [OF new(2)]) (use Cons.prems(2) new'(2) g in \<open>auto simp: new'(1) new(1)\<close>)
  moreover have "\<exists>nw. out' = out @ nw \<and> (\<forall>k\<in>set nw. \<forall>h. cc_or_group k = Some h \<longrightarrow> n \<le> h)"
    using new new' g by (intro exI [of _ "new @ new'"]) (auto simp: list_all_iff)
  ultimately show ?case using d IH by auto
qed simp

lemma invariant_stated:
  assumes "fold_err (\<lambda>(j, c) out. let inst = instantiate p c in
       attempt (to_constraints_bounded w post_field same_name bs inst) (\<lambda>(cs, approx). Inr (out @ map (mk j inst approx) cs)))
     (enumerate i cs) out = (Inr out' :: extract_error + conclusion list)"
    and mk: "\<And>j inst approx c. cc_constraint (mk j inst approx c) = c \<and> cc_is_approximation (mk j inst approx c) = approx
      \<and> cc_or_group (mk j inst approx c) = None"
  shows "(\<exists>new. out' = out @ new \<and> list_all (\<lambda>k. cc_or_group k = None) new)
    \<and> (\<forall>c\<in>set cs. \<exists>b a. to_constraints_bounded w post_field same_name bs (instantiate p c) = Inr (b, a) \<and> stated out' None a [b])"
  using assms(1)
proof (induction cs arbitrary: i out)
  case (Cons c cs)
  let ?f = "\<lambda>(j, c) out. let inst = instantiate p c in
       attempt (to_constraints_bounded w post_field same_name bs inst) (\<lambda>(cs, approx). Inr (out @ map (mk j inst approx) cs))"
  from Cons.prems obtain b a where b: "to_constraints_bounded w post_field same_name bs (instantiate p c) = Inr (b, a)"
    and rest: "fold_err ?f (enumerate (Suc i) cs) (out @ map (mk i (instantiate p c) a) b) = (Inr out' :: extract_error + conclusion list)"
    by (auto simp: attempt_Inr_iff Let_def)
  from Cons.IH [OF rest] obtain new where new: "out' = (out @ map (mk i (instantiate p c) a) b) @ new" "list_all (\<lambda>k. cc_or_group k = None) new"
    and IH: "\<forall>c\<in>set cs. \<exists>b a. to_constraints_bounded w post_field same_name bs (instantiate p c) = Inr (b, a) \<and> stated out' None a [b]"
    by blast
  have "stated (map (mk i (instantiate p c) a) b) None a [b]" by (auto simp: stated_def mk)
  then have "stated out' None a [b]" by (rule stated_extend) (auto simp: new(1))
  moreover have "\<exists>nw. out' = out @ nw \<and> list_all (\<lambda>k. cc_or_group k = None) nw"
    using new by (intro exI [of _ "map (mk i (instantiate p c) a) b @ new"]) (auto simp: list_all_iff mk)
  ultimately show ?case using b IH by auto
qed simp

lemma invariants_stated:
  assumes "fold_err (invariant_conclusions w bs) pis out = Inr out'"
  shows "(\<exists>new. out' = out @ new \<and> list_all (\<lambda>k. cc_or_group k = None) new)
    \<and> (\<forall>(p, inv)\<in>set pis. \<forall>c\<in>set (inv_constraints inv). \<exists>b a.
         to_constraints_bounded w post_field same_name bs (instantiate (prm_name p) c) = Inr (b, a) \<and> stated out' None a [b])"
  using assms
proof (induction pis arbitrary: out)
  case (Cons pi pis)
  obtain p inv where pi: "pi = (p, inv)" by (cases pi)
  from Cons.prems pi obtain mid where mid: "invariant_conclusions w bs (p, inv) out = Inr mid"
    and rest: "fold_err (invariant_conclusions w bs) pis mid = Inr out'"
    by (auto simp: attempt_Inr_iff)
  note M = invariant_stated [OF mid [unfolded invariant_conclusions_def prod.case], simplified]
  from Cons.IH [OF rest] obtain new where new: "out' = mid @ new" "list_all (\<lambda>k. cc_or_group k = None) new"
    and IH: "\<forall>(p, inv)\<in>set pis. \<forall>c\<in>set (inv_constraints inv). \<exists>b a.
         to_constraints_bounded w post_field same_name bs (instantiate (prm_name p) c) = Inr (b, a) \<and> stated out' None a [b]" by blast
  have ext: "stated mid None a d \<Longrightarrow> stated out' None a d" for a d
    by (rule stated_extend) (auto simp: new(1))
  have "\<exists>nw. out' = out @ nw \<and> list_all (\<lambda>k. cc_or_group k = None) nw"
    using M new by auto
  moreover have "\<exists>b a. to_constraints_bounded w post_field same_name bs (instantiate (prm_name p) c) = Inr (b, a) \<and> stated out' None a [b]"
    if "c \<in> set (inv_constraints inv)" for c using M that ext by blast
  ultimately show ?case using IH pi by auto
qed simp

section \<open>Accepted functions\<close>

lemma verify_reports_approximations:
  assumes "group_order gk" "verify w64 w128 hk gk p = Some (Inr res)" "c \<in> set (vp_conclusions p)"
    "list_all (\<lambda>r. \<not> cr_is_approximation r) (vr_checks res)"
  shows "\<not> cc_is_approximation c"
proof -
  let ?gs = "gk (remdups (List.map_filter cc_or_group (vp_conclusions p)))"
  from assms(2) obtain rs rss where
    rs: "check_all w64 w128 hk (vp_premises p) (filter (\<lambda>c. cc_or_group c = None) (vp_conclusions p)) = Some (Inr rs)"
    and rss: "check_groups w64 w128 hk p ?gs = Some (Inr rss)" and res: "vr_checks res = rs @ concat rss"
    by (auto simp: verify_def obind_Inr)
  have flag: "cr_is_approximation r = cc_is_approximation c" if "check_conclusion w64 w128 hk (vp_premises p) c = Some (Inr r)" for r
    using that by (auto simp: check_conclusion_def obind_Inr)
  show ?thesis
  proof (cases "cc_or_group c")
    case None
    then show ?thesis
      using list_all2_mem [OF check_all_results [OF rs]] assms(3,4) flag res by (fastforce simp: list_all_iff)
  next
    case (Some g)
    then have "g \<in> set ?gs" using assms(1,3) by (auto simp: group_order_def set_map_filter_iff)
    from list_all2_mem [OF check_groups_results [OF rss] this] obtain rs' where rs': "rs' \<in> set rss"
      "list_all2 (\<lambda>c r. check_conclusion w64 w128 hk (vp_premises p) c = Some (Inr r))
        (filter (\<lambda>c. cc_or_group c = Some g) (vp_conclusions p)) rs'" by blast
    from list_all2_mem [OF rs'(2)] Some assms(3) obtain r where "r \<in> set rs'" "check_conclusion w64 w128 hk (vp_premises p) c = Some (Inr r)"
      by auto
    then show ?thesis using assms(4) flag res rs'(1) by (auto simp: list_all_iff)
  qed
qed

definition all_hold :: "(var \<Rightarrow> int) \<Rightarrow> conclusion list \<Rightarrow> bool" where
  "all_hold \<sigma> out \<longleftrightarrow> (\<forall>c\<in>set out. cc_or_group c = None \<longrightarrow> holds \<sigma> (cc_constraint c))
    \<and> (\<forall>c\<in>set out. \<forall>g. cc_or_group c = Some g \<longrightarrow> (\<exists>d\<in>set out. cc_or_group d = Some g \<and> holds \<sigma> (cc_constraint d)))"

lemma stated_exact:
  assumes "stated out g a d" "d \<noteq> [] \<and> [] \<notin> set d" "\<forall>k\<in>set out. \<not> cc_is_approximation k"
  shows "\<not> a"
proof -
  obtain b bs where d: "d = b # bs" "b \<noteq> []" using assms(2) by (cases d) auto
  then have "hd b \<in> set (concat d)" by simp
  then show ?thesis using assms(1,3) unfolding stated_def by blast
qed

lemma stated_true:
  assumes "stated out g a d" "d \<noteq> [] \<and> [] \<notin> set d" "length d = 1 \<or> list_all (\<lambda>b. length b = 1) d" "all_hold \<sigma> out"
  shows "dnf_holds \<sigma> d"
proof (cases g)
  case None
  then obtain b where b: "d = [b]" using assms(1) by (auto simp: stated_def length_Suc_conv)
  have "holds \<sigma> c" if "c \<in> set b" for c
    using assms(1,4) None that b by (auto simp: stated_def all_hold_def)
  then show ?thesis using b by (simp add: dnf_holds_def list_all_iff)
next
  case (Some h)
  then have single: "list_all (\<lambda>b. length b = 1) d" using assms(1,3) by (auto simp: stated_def)
  obtain b bs where d: "d = b # bs" "b \<noteq> []" using assms(2) by (cases d) auto
  then have "hd b \<in> set (concat d)" by simp
  then obtain k where "k \<in> set out" "cc_or_group k = Some h" using assms(1) Some unfolding stated_def by blast
  then obtain k' where k': "k' \<in> set out" "cc_or_group k' = Some h" "holds \<sigma> (cc_constraint k')"
    using assms(4) unfolding all_hold_def by blast
  then have "cc_constraint k' \<in> set (concat d)" using assms(1) Some unfolding stated_def by blast
  then obtain b' where b': "b' \<in> set d" "cc_constraint k' \<in> set b'" by auto
  with single have "b' = [cc_constraint k']" by (auto simp: list_all_iff length_Suc_conv)
  then show ?thesis using b'(1) k'(3) by (auto simp: dnf_holds_def list_ex_iff intro!: bexI [of _ b'])
qed

lemma conclusions_give_contract:
  assumes "build_problem exact invs f n (i, prem) = Inr p" "func_ok invs inv_fields f"
    and "all_hold \<sigma> (vp_conclusions p)" "\<forall>k\<in>set (vp_conclusions p). \<not> cc_is_approximation k"
  shows "post_holds invs \<sigma> f"
proof -
  let ?bs = "collect_var_bounds exact prem"
  from assms(1) obtain ens m where
    ens: "fold_err (ensures_conclusions exact f ?bs) (enumerate 0 (fn_ensures f)) ([], 0) = Inr (ens, m)"
    and all: "fold_err (invariant_conclusions exact ?bs) (param_invariants invs f) ens = Inr (vp_conclusions p)"
    by (auto simp: build_problem_def Let_def attempt_Inr_iff)
  note E = ensures_stated [OF ens, THEN conjunct2] and I = invariants_stated [OF all]
  from I obtain new where new: "vp_conclusions p = ens @ new" "list_all (\<lambda>k. cc_or_group k = None) new" by blast
  have ext: "stated (vp_conclusions p) g a d" if "stated ens g a d" for g a d
    by (rule stated_extend [OF that]) (use new in \<open>auto simp: list_all_iff\<close>)
  have "bval \<sigma> post_field e = Some True" if e: "e \<in> set (fn_ensures f)" for e
  proof -
    from E e obtain d a g where d: "to_constraints_bounded_dnf exact post_field same_name ?bs e = Inr (d, a)"
      and "stated ens g a d" by auto
    then have st: "stated (vp_conclusions p) g a d" by (intro ext)
    note ne = bounded_dnf_nonempty [OF d]
    from stated_exact [OF st ne assms(4)] d
    have d: "to_constraints_bounded_dnf exact post_field same_name ?bs e = Inr (d, False)" by simp
    have ok: "no_index e" "only_and e \<or> only_or e" using assms(2) e by (auto simp: func_ok_def list_all_iff)
    then have "dnf_holds \<sigma> d" using stated_true [OF st ne _ assms(3)] bounded_dnf_shape [OF d] by blast
    then show ?thesis using bounded_dnf_exact [OF d] dnf_value [of post_field e d \<sigma>] ok(1) by simp
  qed
  moreover have "bval \<sigma> post_field (instantiate (prm_name q) c) = Some True"
    if qi: "(q, inv) \<in> set (param_invariants invs f)" "c \<in> set (inv_constraints inv)" for q inv c
  proof -
    let ?e = "instantiate (prm_name q) c"
    from I qi obtain b a where b: "to_constraints_bounded exact post_field same_name ?bs ?e = Inr (b, a)"
      and st: "stated (vp_conclusions p) None a [b]" by blast
    have ok: "no_index ?e" using assms(2) qi by (fastforce simp: func_ok_def list_all_iff)
    show ?thesis
    proof (cases "b = []")
      case True
      then show ?thesis using b bounded_constraints_nonempty by blast
    next
      case False
      then have ne: "[b] \<noteq> [] \<and> [] \<notin> set [b]" by simp
      from stated_exact [OF st ne assms(4)] b
      have d: "to_constraints_bounded_dnf exact post_field same_name ?bs ?e = Inr ([b], False)"
        by (intro bounded_constraints_dnf) simp
      have "dnf_holds \<sigma> [b]" using stated_true [OF st ne _ assms(3)] by simp
      then show ?thesis using bounded_dnf_exact [OF d] dnf_value [of post_field ?e "[b]" \<sigma>] ok by simp
    qed
  qed
  ultimately show ?thesis by (fastforce simp: post_holds_def invariants_hold_def list_all_iff)
qed

definition problem_accepted :: "(coeff_map \<Rightarrow> var list) \<Rightarrow> (nat list \<Rightarrow> nat list) \<Rightarrow> problem \<Rightarrow> bool" where
  "problem_accepted hk gk p \<longleftrightarrow> problem_ok p \<and> (case verify wrap64 wrap128 hk gk p of
     Some (Inr res) \<Rightarrow> vr_all_passed res \<and> list_all (\<lambda>r. \<not> cr_is_approximation r) (vr_checks res) | _ \<Rightarrow> False)"

lemma problem_acceptedE:
  assumes "problem_accepted hk gk p"
  obtains res where "problem_ok p" "verify wrap64 wrap128 hk gk p = Some (Inr res)" "vr_all_passed res"
    "list_all (\<lambda>r. \<not> cr_is_approximation r) (vr_checks res)"
  using assms by (cases "verify wrap64 wrap128 hk gk p") (auto simp: problem_accepted_def split: sum.splits)

text \<open>C3: A function the verifier accepts keeps its contract. Take a function whose contract uses no
  calls, no subscripts and no \<open>match\<close>, no quantified variable inside a conditional or bound twice, and
  postconditions each of which is a conjunction or a disjunction of comparisons, and whose body is made of assignments to fields and conditionals, assigns every field at most once on every path and
  does not read it afterwards. If no arithmetic of
  extraction and of the solver leaves the machine width, every problem extracted from it is accepted
  and no check is marked as an approximation, then every run of the body from a state that satisfies
  the preconditions and the invariants ends in one that satisfies the postconditions and the invariants.\<close>

theorem accepted_function_keeps_contract:
  assumes fo: "\<forall>xs. set (fo xs) = set xs" and gk: "group_order gk"
    and build: "build_problems wrap64 fo invs inv_fields specs f = Inr ps"
    and exact: "build_problems wrap64 fo invs inv_fields specs f = build_problems exact fo invs inv_fields specs f"
    and accepted: "list_all (problem_accepted hk gk) ps" and no_overflow: "list_all (no_overflow hk) ps"
    and ok: "func_ok invs inv_fields f"
    and pre: "pre_holds invs (valuation F0 F1 L) f" and ex: "exec L (fn_body f) F0 = Some F1"
  shows "post_holds invs (valuation F0 F1 L) f"
proof -
  have "list_all no_call (fn_requires f @ fn_ensures f)" using ok by (auto simp: func_ok_def list_all_iff)
  note calls = no_calls_collect [OF this]
  from build exact have "build_problems exact fo invs inv_fields specs f = Inr ps" by simp
  then obtain req entry bodies where
    parts: "requires_dnf exact f = Inr req" "entry_invariants exact invs f = Inr entry"
      "process_body_stmts exact pre_field same_name (fn_body f) [\<lparr>bb_extra_premises = [], bb_mutations = [], bb_assigned = []\<rparr>] = Inr bodies"
    and ps: "traverse (build_problem exact invs f (length (problem_premises exact (fo (referenced_fields inv_fields f))
        (map (\<lambda>b. b @ type_constraints exact f @ entry) req) bodies)))
      (enumerate 0 (problem_premises exact (fo (referenced_fields inv_fields f)) (map (\<lambda>b. b @ type_constraints exact f @ entry) req) bodies)) = Inr ps"
    unfolding build_problems_def calls by (simp add: attempt_Inr_iff Let_def) blast
  let ?prems = "problem_premises exact (fo (referenced_fields inv_fields f)) (map (\<lambda>b. b @ type_constraints exact f @ entry) req) bodies"
  from premises_hold [OF parts ok fo ex pre] obtain prem where prem: "prem \<in> set ?prems" "list_all (holds (valuation F0 F1 L)) prem" by blast
  obtain i where "(i, prem) \<in> set (enumerate 0 ?prems)" using enumerate_index [OF prem(1)] by blast
  from list_all2_mem [OF ps [unfolded traverse_Inr] this] obtain p where p: "p \<in> set ps" "build_problem exact invs f (length ?prems) (i, prem) = Inr p"
    by blast
  have vp: "vp_premises p = prem" using p(2) by (auto simp: build_problem_def Let_def attempt_Inr_iff)
  have "problem_accepted hk gk p" using accepted p(1) by (simp add: list_all_iff)
  then obtain res where res: "problem_ok p" "verify wrap64 wrap128 hk gk p = Some (Inr res)" "vr_all_passed res"
    "list_all (\<lambda>r. \<not> cr_is_approximation r) (vr_checks res)"
    by (rule problem_acceptedE)
  have "all_hold (valuation F0 F1 L) (vp_conclusions p)"
    unfolding all_hold_def
    by (rule accepted_problem_holds [OF gk res(1) _ res(2,3)]) (use no_overflow p(1) prem(2) in \<open>simp_all add: vp list_all_iff\<close>)
  then show ?thesis
    using conclusions_give_contract [OF p(2) ok] verify_reports_approximations [OF gk res(2) _ res(4)] by blast
qed

text \<open>A withdrawal from an account \<open>a\<close> whose balance \<open>b\<close> stays non-negative, with a
  counter \<open>g\<close> of large withdrawals.\<close>

definition account_inv :: inv_def where
  "account_inv = \<lparr>inv_name = [65], inv_constraints = [EBin OpGe (EVar [98]) (EInt 0)],
     inv_span = \<lparr>span_line = 1, span_col = 1\<rparr>, inv_constraint_spans = []\<rparr>"

definition withdraw_func :: func where
  "withdraw_func =
     (let a = [97]; bal = EField a [98]; n = EVar [110] in
      \<lparr>fn_attributes = [], fn_name = [119],
       fn_params = [\<lparr>prm_name = a, prm_ty = TNamed [65], prm_mutable = True\<rparr>,
         \<lparr>prm_name = [110], prm_ty = TNamed (str ''PositiveInt''), prm_mutable = False\<rparr>],
       fn_return_ty = None,
       fn_requires = [EBin OpLe n bal],
       fn_ensures = [EBin Or (EBin OpLt bal (EOld bal)) (EBin OpLt n (EInt 1))],
       fn_body = [SMutateState [Assign bal ASub n],
         SIf (EBin OpGt n (EInt 10)) [SAssign (Assign (EField a [103]) AAdd (EInt 1))] None],
       fn_elided = False, fn_span = \<lparr>span_line = 3, span_col = 1\<rparr>, fn_requires_spans = [], fn_ensures_spans = []\<rparr>)"

theorem accepted_function_keeps_contract_witness:
  "let invs = [([65], account_inv)]; f = withdraw_func; F0 = (\<lambda>_. 0)(([97], [98]) := 50);
       L = (\<lambda>_. 0)([110] := 20)
   in \<exists>F1. exec L (fn_body f) F0 = Some F1 \<and> pre_holds invs (valuation F0 F1 L) f \<and> post_holds invs (valuation F0 F1 L) f"
proof -
  let ?invs = "[([65], account_inv)]" and ?fs = "[([65], [[98]])]"
  let ?F0 = "(\<lambda>_. 0 :: int)(([97], [98]) := 50)" and ?L = "(\<lambda>_. 0 :: int)([110] := 20)"
  have "(case build_problems wrap64 (\<lambda>x. x) ?invs ?fs [] withdraw_func of Inr ps \<Rightarrow> list_all (problem_accepted (map fst) (\<lambda>x. x)) ps \<and> list_all (no_overflow (map fst)) ps | _ \<Rightarrow> False)"
    by code_simp
  then obtain ps where ps: "build_problems wrap64 (\<lambda>x. x) ?invs ?fs [] withdraw_func = Inr ps" "list_all (problem_accepted (map fst) (\<lambda>x. x)) ps"
      "list_all (no_overflow (map fst)) ps"
    by (cases "build_problems wrap64 (\<lambda>x. x) ?invs ?fs [] withdraw_func") simp_all
  have exact: "build_problems wrap64 (\<lambda>x. x) ?invs ?fs [] withdraw_func = build_problems exact (\<lambda>x. x) ?invs ?fs [] withdraw_func"
    by code_simp
  have run: "(case exec ?L (fn_body withdraw_func) ?F0 of Some F1 \<Rightarrow> pre_holds ?invs (valuation ?F0 F1 ?L) withdraw_func | None \<Rightarrow> False)"
    by code_simp
  then obtain F1 where F1: "exec ?L (fn_body withdraw_func) ?F0 = Some F1" "pre_holds ?invs (valuation ?F0 F1 ?L) withdraw_func"
    by (cases "exec ?L (fn_body withdraw_func) ?F0") simp_all
  have ok: "func_ok ?invs ?fs withdraw_func" by code_simp
  have "post_holds ?invs (valuation ?F0 F1 ?L) withdraw_func"
    by (rule accepted_function_keeps_contract [where fo = "\<lambda>x. x" and gk = "\<lambda>x. x", OF _ _ ps(1) exact ps(2,3) ok F1(2,1)])
      (simp_all add: group_order_def)
  then show ?thesis unfolding Let_def using F1 by blast
qed

section \<open>Where acceptance does not give the contract\<close>

text \<open>A function over one object \<open>c\<close> and a number \<open>n\<close>.\<close>

definition plain_func :: "expr list \<Rightarrow> expr list \<Rightarrow> stmt list \<Rightarrow> func" where
  "plain_func req ens body =
     \<lparr>fn_attributes = [], fn_name = str ''f'', fn_params = [\<lparr>prm_name = str ''c'', prm_ty = TNamed (str ''C''), prm_mutable = True\<rparr>,
         \<lparr>prm_name = str ''n'', prm_ty = TNamed (str ''Int''), prm_mutable = False\<rparr>],
      fn_return_ty = None, fn_requires = req, fn_ensures = ens, fn_body = body, fn_elided = False,
      fn_span = \<lparr>span_line = 1, span_col = 1\<rparr>, fn_requires_spans = [], fn_ensures_spans = []\<rparr>"

text \<open>All checks of a function pass, and a run from \<open>F0\<close> breaks its postconditions.\<close>

definition passes :: "func \<Rightarrow> bool" where
  "passes f = (case build_problems wrap64 (\<lambda>x. x) [] [] [] f of
     Inl _ \<Rightarrow> False
   | Inr ps \<Rightarrow> list_all (\<lambda>p. case verify wrap64 wrap128 (map fst) (\<lambda>x. x) p of Some (Inr r) \<Rightarrow> vr_all_passed r | _ \<Rightarrow> False) ps)"

definition run_breaks :: "func \<Rightarrow> fields \<Rightarrow> (bytes \<Rightarrow> int) \<Rightarrow> bool" where
  "run_breaks f F0 L = (case exec L (fn_body f) F0 of
     None \<Rightarrow> False
   | Some F1 \<Rightarrow> pre_holds [] (valuation F0 F1 L) f \<and> \<not> post_holds [] (valuation F0 F1 L) f)"

abbreviation (input) cfield :: "string \<Rightarrow> expr" where
  "cfield g \<equiv> EField (str ''c'') (str g)"

text \<open>A conjunction inside a disjunction: \<open>(c.v >= 1 && c.v >= 5) || c.v >= 9\<close> is accepted for a
  body that sets \<open>c.v\<close> to 1, since each comparison becomes an alternative of its own.\<close>

lemma disjunction_of_conjunctions_unsound:
  "let f = plain_func [] [EBin Or (EBin And (EBin OpGe (cfield ''v'') (EInt 1)) (EBin OpGe (cfield ''v'') (EInt 5)))
         (EBin OpGe (cfield ''v'') (EInt 9))] [SAssign (Assign (cfield ''v'') ASet (EInt 1))]
   in passes f \<and> run_breaks f (\<lambda>_. 0) (\<lambda>_. 0)"
  by code_simp

text \<open>A field assigned twice: both assignments are read as relations between the value before and
  the value after the whole body.\<close>

lemma repeated_assignment_unsound:
  "let f = plain_func [] [EBin OpEq (cfield ''v'') (EBin Add (EOld (cfield ''v'')) (EInt 1))]
         [SAssign (Assign (cfield ''v'') AAdd (EInt 1)), SAssign (Assign (cfield ''v'') AAdd (EInt 1))]
   in passes f \<and> run_breaks f (\<lambda>_. 0) (\<lambda>_. 0)"
  by code_simp

text \<open>The bound of a product falls back to the bounds a field had before the body.\<close>

lemma product_bound_of_assigned_field_unsound:
  "let f = plain_func [EBin OpGe (cfield ''v'') (EInt 0), EBin OpLe (cfield ''v'') (EInt 2),
           EBin OpGe (cfield ''w'') (EInt 0), EBin OpLe (cfield ''w'') (EInt 2)]
         [EBin OpLe (EBin Mul (cfield ''v'') (cfield ''w'')) (EInt 4)] [SAssign (Assign (cfield ''v'') ASet (EVar (str ''n'')))]
   in passes f \<and> run_breaks f ((\<lambda>_. 0)((str ''c'', str ''w'') := 2)) ((\<lambda>_. 0)(str ''n'' := 100))"
  by code_simp

text \<open>Checking the extreme products does not settle an inequation.\<close>

lemma product_bound_inequation_unsound:
  "let f = plain_func [EBin OpGe (cfield ''v'') (EInt 0), EBin OpLe (cfield ''v'') (EInt 2),
           EBin OpGe (cfield ''w'') (EInt 0), EBin OpLe (cfield ''w'') (EInt 2)]
         [EBin OpNe (EBin Mul (cfield ''v'') (cfield ''w'')) (EInt 1)] []
   in passes f \<and> run_breaks f ((\<lambda>_. 0)((str ''c'', str ''v'') := 1, (str ''c'', str ''w'') := 1)) (\<lambda>_. 0)"
  by code_simp

text \<open>Constant subscripts of different arrays of one object have the same name.\<close>

lemma subscripts_share_names:
  "linearize w ff vf (EIndex (EField b f) (EInt i)) = linearize w ff vf (EIndex (EField b g) (EInt i))"
  by simp

end
