(* ===== verification/Sql_Ast.thy ===== *)
theory Sql_Ast
  imports Rust_Std
begin

text \<open>
  The abstract syntax of the SQL dialect (\<open>sql/ast.rs\<close>) and the tokens it is parsed from
  (\<open>sql/lexer.rs\<close>). Strings are their UTF-8 bytes, a float is its 64-bit pattern. Structures
  that occur inside expressions and queries take the types of those as parameters, so that
  expressions and queries are one pair of mutually recursive types; the others are records.
\<close>

section \<open>Tokens\<close>

text \<open>
  The variants without a value are numbered in the order of their declaration; their names
  abbreviate those numbers.
\<close>

datatype (plugins only: code size) token = TUnit nat | TIntLiteral int | TFloatLiteral "64 word" | TStringLiteral bytes | TIdent bytes | TDollar nat

abbreviation TSelect :: token where "TSelect \<equiv> TUnit 0"
abbreviation TFrom :: token where "TFrom \<equiv> TUnit 1"
abbreviation TWhere :: token where "TWhere \<equiv> TUnit 2"
abbreviation TAs :: token where "TAs \<equiv> TUnit 3"
abbreviation TAnd :: token where "TAnd \<equiv> TUnit 4"
abbreviation TOr :: token where "TOr \<equiv> TUnit 5"
abbreviation TNot :: token where "TNot \<equiv> TUnit 6"
abbreviation TNull :: token where "TNull \<equiv> TUnit 7"
abbreviation TTrue :: token where "TTrue \<equiv> TUnit 8"
abbreviation TFalse :: token where "TFalse \<equiv> TUnit 9"
abbreviation TSet :: token where "TSet \<equiv> TUnit 10"
abbreviation TShow :: token where "TShow \<equiv> TUnit 11"
abbreviation TBegin :: token where "TBegin \<equiv> TUnit 12"
abbreviation TCommit :: token where "TCommit \<equiv> TUnit 13"
abbreviation TRollback :: token where "TRollback \<equiv> TUnit 14"
abbreviation TIs :: token where "TIs \<equiv> TUnit 15"
abbreviation TIn :: token where "TIn \<equiv> TUnit 16"
abbreviation TLike :: token where "TLike \<equiv> TUnit 17"
abbreviation TBetween :: token where "TBetween \<equiv> TUnit 18"
abbreviation TLimit :: token where "TLimit \<equiv> TUnit 19"
abbreviation TOffset :: token where "TOffset \<equiv> TUnit 20"
abbreviation TOrder :: token where "TOrder \<equiv> TUnit 21"
abbreviation TBy :: token where "TBy \<equiv> TUnit 22"
abbreviation TAsc :: token where "TAsc \<equiv> TUnit 23"
abbreviation TDesc :: token where "TDesc \<equiv> TUnit 24"
abbreviation TGroup :: token where "TGroup \<equiv> TUnit 25"
abbreviation THaving :: token where "THaving \<equiv> TUnit 26"
abbreviation TDistinct :: token where "TDistinct \<equiv> TUnit 27"
abbreviation TAll :: token where "TAll \<equiv> TUnit 28"
abbreviation TCase :: token where "TCase \<equiv> TUnit 29"
abbreviation TWhen :: token where "TWhen \<equiv> TUnit 30"
abbreviation TThen :: token where "TThen \<equiv> TUnit 31"
abbreviation TElse :: token where "TElse \<equiv> TUnit 32"
abbreviation TEnd :: token where "TEnd \<equiv> TUnit 33"
abbreviation TCast :: token where "TCast \<equiv> TUnit 34"
abbreviation TInterval :: token where "TInterval \<equiv> TUnit 35"
abbreviation TInsert :: token where "TInsert \<equiv> TUnit 36"
abbreviation TInto :: token where "TInto \<equiv> TUnit 37"
abbreviation TValues :: token where "TValues \<equiv> TUnit 38"
abbreviation TDelete :: token where "TDelete \<equiv> TUnit 39"
abbreviation TUpdate :: token where "TUpdate \<equiv> TUnit 40"
abbreviation TCreate :: token where "TCreate \<equiv> TUnit 41"
abbreviation TTable :: token where "TTable \<equiv> TUnit 42"
abbreviation TDrop :: token where "TDrop \<equiv> TUnit 43"
abbreviation TIndex :: token where "TIndex \<equiv> TUnit 44"
abbreviation TIf :: token where "TIf \<equiv> TUnit 45"
abbreviation TExists :: token where "TExists \<equiv> TUnit 46"
abbreviation TPrimary :: token where "TPrimary \<equiv> TUnit 47"
abbreviation TKey :: token where "TKey \<equiv> TUnit 48"
abbreviation TDefault :: token where "TDefault \<equiv> TUnit 49"
abbreviation TJoin :: token where "TJoin \<equiv> TUnit 50"
abbreviation TLeft :: token where "TLeft \<equiv> TUnit 51"
abbreviation TRight :: token where "TRight \<equiv> TUnit 52"
abbreviation TFull :: token where "TFull \<equiv> TUnit 53"
abbreviation TCross :: token where "TCross \<equiv> TUnit 54"
abbreviation TOn :: token where "TOn \<equiv> TUnit 55"
abbreviation TWith :: token where "TWith \<equiv> TUnit 56"
abbreviation TRecursive :: token where "TRecursive \<equiv> TUnit 57"
abbreviation TUnion :: token where "TUnion \<equiv> TUnit 58"
abbreviation TOver :: token where "TOver \<equiv> TUnit 59"
abbreviation TPartition :: token where "TPartition \<equiv> TUnit 60"
abbreviation TRows :: token where "TRows \<equiv> TUnit 61"
abbreviation TRange :: token where "TRange \<equiv> TUnit 62"
abbreviation TUnbounded :: token where "TUnbounded \<equiv> TUnit 63"
abbreviation TPreceding :: token where "TPreceding \<equiv> TUnit 64"
abbreviation TFollowing :: token where "TFollowing \<equiv> TUnit 65"
abbreviation TCurrent :: token where "TCurrent \<equiv> TUnit 66"
abbreviation TRow :: token where "TRow \<equiv> TUnit 67"
abbreviation TDeclare :: token where "TDeclare \<equiv> TUnit 68"
abbreviation TCursor :: token where "TCursor \<equiv> TUnit 69"
abbreviation TFor :: token where "TFor \<equiv> TUnit 70"
abbreviation TFetch :: token where "TFetch \<equiv> TUnit 71"
abbreviation TNext :: token where "TNext \<equiv> TUnit 72"
abbreviation TMove :: token where "TMove \<equiv> TUnit 73"
abbreviation TClose :: token where "TClose \<equiv> TUnit 74"
abbreviation TListen :: token where "TListen \<equiv> TUnit 75"
abbreviation TNotify :: token where "TNotify \<equiv> TUnit 76"
abbreviation TUnlisten :: token where "TUnlisten \<equiv> TUnit 77"
abbreviation TCopy :: token where "TCopy \<equiv> TUnit 78"
abbreviation TStdin :: token where "TStdin \<equiv> TUnit 79"
abbreviation TStdout :: token where "TStdout \<equiv> TUnit 80"
abbreviation TTo :: token where "TTo \<equiv> TUnit 81"
abbreviation TFunction :: token where "TFunction \<equiv> TUnit 82"
abbreviation TReturns :: token where "TReturns \<equiv> TUnit 83"
abbreviation TLanguage :: token where "TLanguage \<equiv> TUnit 84"
abbreviation TAlter :: token where "TAlter \<equiv> TUnit 85"
abbreviation TColumn :: token where "TColumn \<equiv> TUnit 86"
abbreviation TUnique :: token where "TUnique \<equiv> TUnit 87"
abbreviation TReferences :: token where "TReferences \<equiv> TUnit 88"
abbreviation TForeign :: token where "TForeign \<equiv> TUnit 89"
abbreviation TSequence :: token where "TSequence \<equiv> TUnit 90"
abbreviation TIncrement :: token where "TIncrement \<equiv> TUnit 91"
abbreviation TStart :: token where "TStart \<equiv> TUnit 92"
abbreviation TTopic :: token where "TTopic \<equiv> TUnit 93"
abbreviation TAnalyze :: token where "TAnalyze \<equiv> TUnit 94"
abbreviation TCollate :: token where "TCollate \<equiv> TUnit 95"
abbreviation TOperator :: token where "TOperator \<equiv> TUnit 96"
abbreviation TMatch :: token where "TMatch \<equiv> TUnit 97"
abbreviation TReturn :: token where "TReturn \<equiv> TUnit 98"
abbreviation TRole :: token where "TRole \<equiv> TUnit 99"
abbreviation TSuperuser :: token where "TSuperuser \<equiv> TUnit 100"
abbreviation TNoSuperuser :: token where "TNoSuperuser \<equiv> TUnit 101"
abbreviation TLogin :: token where "TLogin \<equiv> TUnit 102"
abbreviation TNoLogin :: token where "TNoLogin \<equiv> TUnit 103"
abbreviation TPassword :: token where "TPassword \<equiv> TUnit 104"
abbreviation TGrant :: token where "TGrant \<equiv> TUnit 105"
abbreviation TRevoke :: token where "TRevoke \<equiv> TUnit 106"
abbreviation TPrivileges :: token where "TPrivileges \<equiv> TUnit 107"
abbreviation TUsage :: token where "TUsage \<equiv> TUnit 108"
abbreviation TDatabase :: token where "TDatabase \<equiv> TUnit 109"
abbreviation TStar :: token where "TStar \<equiv> TUnit 110"
abbreviation TPlus :: token where "TPlus \<equiv> TUnit 111"
abbreviation TMinus :: token where "TMinus \<equiv> TUnit 112"
abbreviation TSlash :: token where "TSlash \<equiv> TUnit 113"
abbreviation TPercent :: token where "TPercent \<equiv> TUnit 114"
abbreviation TEq :: token where "TEq \<equiv> TUnit 115"
abbreviation TNotEq :: token where "TNotEq \<equiv> TUnit 116"
abbreviation TLt :: token where "TLt \<equiv> TUnit 117"
abbreviation TLte :: token where "TLte \<equiv> TUnit 118"
abbreviation TGt :: token where "TGt \<equiv> TUnit 119"
abbreviation TGte :: token where "TGte \<equiv> TUnit 120"
abbreviation TConcat :: token where "TConcat \<equiv> TUnit 121"
abbreviation TArrow :: token where "TArrow \<equiv> TUnit 122"
abbreviation TLongArrow :: token where "TLongArrow \<equiv> TUnit 123"
abbreviation TComma :: token where "TComma \<equiv> TUnit 124"
abbreviation TDot :: token where "TDot \<equiv> TUnit 125"
abbreviation TSemicolon :: token where "TSemicolon \<equiv> TUnit 126"
abbreviation TLParen :: token where "TLParen \<equiv> TUnit 127"
abbreviation TRParen :: token where "TRParen \<equiv> TUnit 128"
abbreviation TLBracket :: token where "TLBracket \<equiv> TUnit 129"
abbreviation TRBracket :: token where "TRBracket \<equiv> TUnit 130"
abbreviation TColon :: token where "TColon \<equiv> TUnit 131"
abbreviation TDoubleColon :: token where "TDoubleColon \<equiv> TUnit 132"
abbreviation TAtArrow :: token where "TAtArrow \<equiv> TUnit 133"
abbreviation THashArrow :: token where "THashArrow \<equiv> TUnit 134"
abbreviation THashLongArrow :: token where "THashLongArrow \<equiv> TUnit 135"
abbreviation TTilde :: token where "TTilde \<equiv> TUnit 136"
abbreviation TNotTilde :: token where "TNotTilde \<equiv> TUnit 137"
abbreviation TTildeStar :: token where "TTildeStar \<equiv> TUnit 138"
abbreviation TNotTildeStar :: token where "TNotTildeStar \<equiv> TUnit 139"
abbreviation TEof :: token where "TEof \<equiv> TUnit 140"

section \<open>Expressions and queries\<close>

datatype (plugins only: code size) sql_literal = LInt int | LFloat "64 word" | LText bytes | LBool bool | LNull | LFloatArray "64 word list"

datatype (plugins only: code size) sql_op =
    OAdd | OSub | OMul | ODiv | OMod | OEq | ONotEq | OLt | OLte | OGt | OGte | OAnd | OOr | OConcat | OArrow | OLongArrow
  | OContains | OHashArrow | OHashLongArrow | ORegexMatch | ORegexNotMatch | ORegexMatchCI | ORegexNotMatchCI

datatype (plugins only: code size) sql_unop = UNeg | UNot

datatype (plugins only: code size) 'e order_by = OrderBy (ob_expr: 'e) (ob_asc: bool)

datatype (plugins only: code size) frame_type = FRows | FRange | FGroups

datatype (plugins only: code size) frame_bound_type = UnboundedPreceding | Preceding | CurrentRow | Following | UnboundedFollowing

datatype (plugins only: code size) 'e frame_bound = FrameBound (fb_type: frame_bound_type) (fb_offset: "'e option")

datatype (plugins only: code size) 'e window_frame = WindowFrame (wf_type: frame_type) (wf_start: "'e frame_bound") (wf_end: "'e frame_bound option")

datatype (plugins only: code size) ('e, 's) in_list = InExprs "'e list" | InSubquery 's

datatype (plugins only: code size) 'e projection = PWildcard | PWildcardTable bytes | PExpr 'e "bytes option"

datatype (plugins only: code size) ('e, 's) table_ref =
  TableRef (tr_name: bytes) (tr_alias: "bytes option") (tr_subquery: "'s option") (tr_func_args: "'e list option")

datatype (plugins only: code size) join_type = JInner | JLeft | JRight | JFull | JCross

datatype (plugins only: code size) ('e, 's) join = Join (jn_type: join_type) (jn_table: "('e, 's) table_ref") (jn_on: "'e option")

datatype (plugins only: code size) ('e, 's) table_with_joins = TableWithJoins (tw_primary: "('e, 's) table_ref") (tw_joins: "('e, 's) join list")

datatype (plugins only: code size) union_op = UnionDistinct | UnionAll

datatype (plugins only: code size) 's cte = Cte (cte_name: bytes) (cte_columns: "bytes list") (cte_subquery: 's) (cte_recursive: bool)

datatype (plugins only: code size) sql_expr =
    XLiteral sql_literal
  | XIdent bytes
  | XQualified bytes bytes
  | XBinary sql_op sql_expr sql_expr
  | XUnary sql_unop sql_expr
  | XIsNull sql_expr bool
  | XIsTrue sql_expr bool
  | XIsFalse sql_expr bool
  | XBetween sql_expr sql_expr sql_expr bool
  | XLike sql_expr sql_expr bool
  | XIn sql_expr "(sql_expr, select_stmt) in_list" bool
  | XExists select_stmt bool
  | XCast sql_expr bytes
  | XFunction bytes "sql_expr list" bool
  | XCase "sql_expr option" "(sql_expr \<times> sql_expr) list" "sql_expr option"
  | XParam nat
  | XSubquery select_stmt
  | XWindow bytes "sql_expr list" "sql_expr list" "sql_expr order_by list" "sql_expr window_frame option"
and select_stmt =
  SelectStmt
    (ss_ctes: "select_stmt cte list") (ss_distinct: bool) (ss_projections: "sql_expr projection list")
    (ss_from: "(sql_expr, select_stmt) table_with_joins option") (ss_where: "sql_expr option")
    (ss_group_by: "sql_expr list") (ss_having: "sql_expr option") (ss_order_by: "sql_expr order_by list")
    (ss_limit: "sql_expr option") (ss_offset: "sql_expr option") (ss_union: "(union_op \<times> select_stmt) option")

section \<open>Statements\<close>

datatype (plugins only: code size) match_direction = DOut | DIn | DBoth

record match_hop =
  mh_rel_type :: "bytes option"
  mh_direction :: match_direction

record match_stmt =
  ms_nodes :: "bytes list"
  ms_hops :: "match_hop list"
  ms_table :: bytes
  ms_column :: bytes
  ms_start_filter :: "bytes option"
  ms_returns :: "bytes list"
  ms_limit :: "nat option"

record create_topic_stmt =
  ct_name :: bytes
  ct_if_not_exists :: bool
  ct_options :: "(bytes \<times> bytes) list"

record create_sequence_stmt =
  cs_if_not_exists :: bool
  cs_name :: bytes
  cs_start :: int
  cs_increment :: int

record create_function_stmt =
  cf_name :: bytes
  cf_args :: "(bytes \<times> bytes) list"
  cf_return_type :: bytes
  cf_language :: bytes
  cf_body_base64 :: bytes

record create_role_stmt =
  cr_role_name :: bytes
  cr_superuser :: bool
  cr_can_login :: bool
  cr_password :: "bytes option"
  cr_in_role :: "bytes list"

record alter_role_stmt =
  ar_name :: bytes
  ar_superuser :: "bool option"
  ar_can_login :: "bool option"
  ar_password :: "bytes option"

record drop_role_stmt =
  dr_if_exists :: bool
  dr_name :: bytes

datatype (plugins only: code size) privilege = PrSelect | PrInsert | PrUpdate | PrDelete | PrCreate | PrDrop | PrUsage

datatype (plugins only: code size) grant_object = GTable bytes | GDatabase

text \<open>\<open>GRANT\<close> and \<open>REVOKE\<close> have the same fields.\<close>

record grant_stmt =
  gs_is_role_grant :: bool
  gs_roles :: "bytes list"
  gs_privileges :: "privilege list"
  gs_object :: grant_object
  gs_grantees :: "bytes list"

record copy_stmt =
  cp_table :: bytes
  cp_columns :: "bytes list"

record declare_cursor_stmt =
  dc_name :: bytes
  dc_query :: select_stmt

datatype (plugins only: code size) fetch_count = FcNext | FcAll | FcCount int

record fetch_stmt =
  fs_cursor :: bytes
  fs_count :: fetch_count

record insert_stmt =
  is_table :: bytes
  is_columns :: "bytes list"
  is_values :: "sql_expr list list"

record delete_stmt =
  ds_table :: bytes
  ds_where :: "sql_expr option"

record update_stmt =
  us_table :: bytes
  us_assignments :: "(bytes \<times> sql_expr) list"
  us_where :: "sql_expr option"

datatype (plugins only: code size) table_constraint = TcUnique "bytes list" | TcForeignKey bytes bytes bytes

record column_def =
  cd_name :: bytes
  cd_col_type :: bytes
  cd_nullable :: bool
  cd_default :: "sql_expr option"
  cd_is_pk :: bool
  cd_is_unique :: bool
  cd_references :: "(bytes \<times> bytes) option"
  cd_is_serial :: bool

record create_table_stmt =
  ctb_table :: bytes
  ctb_if_not_exists :: bool
  ctb_columns :: "column_def list"
  ctb_constraints :: "table_constraint list"
  ctb_options :: "(bytes \<times> bytes) list"

record drop_table_stmt =
  dt_table :: bytes
  dt_if_exists :: bool

record create_index_stmt =
  ci_table :: bytes
  ci_column :: bytes
  ci_name :: "bytes option"
  ci_using :: "bytes option"
  ci_options :: "(bytes \<times> bytes) list"

datatype (plugins only: code size) column_action = CaSetDefault sql_expr | CaDropDefault | CaSetNotNull | CaDropNotNull

datatype (plugins only: code size) alter_table_action = AtAddColumn column_def | AtDropColumn bytes | AtAlterColumn bytes column_action

record alter_table_stmt =
  at_table :: bytes
  at_action :: alter_table_action

text \<open>The value of \<open>SET\<close> is kept as its tokens; the code joins their debug texts.\<close>

record set_stmt =
  st_name :: bytes
  st_value :: "token list"

datatype (plugins only: code size) sql_stmt =
    SSelect select_stmt | SInsert insert_stmt | SDelete delete_stmt | SUpdate update_stmt
  | SCreateTable create_table_stmt | SDropTable drop_table_stmt | SCreateIndex create_index_stmt | SAlterTable alter_table_stmt
  | SSetVar set_stmt | SShow bytes | SBegin | SCommit | SRollback
  | SDeclareCursor declare_cursor_stmt | SFetch fetch_stmt | SMoveCursor fetch_stmt | SCloseCursor bytes
  | SListen bytes | SNotify bytes "bytes option" | SUnlisten bytes | SCopyIn copy_stmt | SCopyOut copy_stmt
  | SCreateFunction create_function_stmt | SCreateSequence create_sequence_stmt | SCreateTopic create_topic_stmt
  | SAnalyze "bytes option" | SMatchGraph match_stmt
  | SCreateRole create_role_stmt | SAlterRole alter_role_stmt | SDropRole drop_role_stmt | SGrant grant_stmt | SRevoke grant_stmt

end
