(* ===== verification/Sql_Lexer.thy ===== *)
theory Sql_Lexer
  imports Sql_Ast
begin

text \<open>
  The SQL lexer (\<open>sql/lexer.rs\<close>): whitespace and comments, strings and quoted identifiers,
  numbers, keywords and operators. The position in the source is the unread rest of its bytes.
  Integer literals outside \<open>i64\<close> are an error; floats are rounded to the nearest binary64 as
  \<open>str::parse\<close> does.
\<close>

section \<open>Bytes\<close>

datatype lex_error = UnexpectedCharacter byte | UnterminatedString | UnterminatedIdent | BadNumber

definition peek_byte :: "bytes \<Rightarrow> byte option" where
  "peek_byte src = (case src of [] \<Rightarrow> None | b # _ \<Rightarrow> Some b)"

definition ascii_whitespace :: "byte \<Rightarrow> bool" where
  "ascii_whitespace b \<longleftrightarrow> b \<in> {32, 9, 10, 12, 13}"

definition ascii_digit :: "byte \<Rightarrow> bool" where
  "ascii_digit b \<longleftrightarrow> 48 \<le> b \<and> b \<le> 57"

definition ascii_alphabetic :: "byte \<Rightarrow> bool" where
  "ascii_alphabetic b \<longleftrightarrow> 65 \<le> b \<and> b \<le> 90 \<or> 97 \<le> b \<and> b \<le> 122"

definition ident_byte :: "byte \<Rightarrow> bool" where
  "ident_byte b \<longleftrightarrow> ascii_alphabetic b \<or> ascii_digit b \<or> b = 95 \<or> b = 36"

definition upper_byte :: "byte \<Rightarrow> byte" where
  "upper_byte b = (if 97 \<le> b \<and> b \<le> 122 then b - 32 else b)"

text \<open>Pushing a byte as a character: bytes from 128 on become the two-byte encodings of
  U+0080 to U+00FF.\<close>

definition push_char :: "byte \<Rightarrow> bytes" where
  "push_char b = (if b < 128 then [b] else [0xC0 OR drop_bit 6 b, 0x80 OR (b AND 0x3F)])"

section \<open>Whitespace and comments\<close>

fun skip_block :: "bytes \<Rightarrow> bytes" where
  "skip_block [] = []"
| "skip_block [b] = []"
| "skip_block (b # c # src) = (if b = 42 \<and> c = 47 then src else skip_block (c # src))"

lemma skip_block_length: "length (skip_block src) \<le> length src"
  by (induction src rule: skip_block.induct) auto

function skip_whitespace :: "bytes \<Rightarrow> bytes" where
  "skip_whitespace src =
     (case src of
        [] \<Rightarrow> []
      | b # rest \<Rightarrow>
          if ascii_whitespace b then skip_whitespace rest
          else if b = 45 \<and> peek_byte rest = Some 45 then skip_whitespace (tl (dropWhile (\<lambda>c. c \<noteq> 10) rest))
          else if b = 47 \<and> peek_byte rest = Some 42 then skip_whitespace (skip_block (tl rest))
          else src)"
  by pat_completeness auto
termination
proof (relation "measure length", goal_cases)
  case (3 src b rest)
  have "length (tl (dropWhile (\<lambda>c. c \<noteq> 10) rest)) \<le> length rest"
    using length_dropWhile_le [of "\<lambda>c. c \<noteq> 10" rest] by simp
  with 3 show ?case by simp
next
  case (4 src b rest)
  then show ?case using skip_block_length [of "tl rest"] by simp
qed auto

declare skip_whitespace.simps [simp del]

section \<open>Literals\<close>

text \<open>The body of a literal after its opening quote \<open>q\<close>; a doubled quote stands for one.\<close>

fun read_quoted :: "byte \<Rightarrow> bytes \<Rightarrow> (bytes \<times> bytes) option" where
  "read_quoted q [] = None"
| "read_quoted q (b # src) =
     (if b = q then
        (case src of
           c # rest \<Rightarrow> if c = q then map_option (\<lambda>(s, r). (q # s, r)) (read_quoted q rest) else Some ([], src)
         | [] \<Rightarrow> Some ([], []))
      else map_option (\<lambda>(s, r). (push_char b @ s, r)) (read_quoted q src))"

fun scan_number :: "bool \<Rightarrow> bool \<Rightarrow> bytes \<Rightarrow> bytes \<times> bool \<times> bytes" where
  "scan_number has_dot has_exp [] = ([], has_dot \<or> has_exp, [])"
| "scan_number has_dot has_exp (b # src) =
     (if ascii_digit b then apfst (Cons b) (scan_number has_dot has_exp src)
      else if b = 46 \<and> \<not> has_dot \<and> \<not> has_exp then apfst (Cons b) (scan_number True has_exp src)
      else if (b = 101 \<or> b = 69) \<and> \<not> has_exp then
        (case src of
           c # rest \<Rightarrow>
             if c = 43 \<or> c = 45 then apfst (\<lambda>s. b # c # s) (scan_number has_dot True rest)
             else apfst (Cons b) (scan_number has_dot True src)
         | [] \<Rightarrow> ([b], True, []))
      else ([], has_dot \<or> has_exp, b # src))"

definition digits_value :: "bytes \<Rightarrow> int" where
  "digits_value ds = foldl (\<lambda>n d. 10 * n + (uint d - 48)) 0 ds"

definition parse_i64 :: "bytes \<Rightarrow> int option" where
  "parse_i64 ds = (if ds \<noteq> [] \<and> list_all ascii_digit ds \<and> digits_value ds < 2 ^ 63 then Some (digits_value ds) else None)"

text \<open>Rounding \<open>n / d\<close> to the nearest multiple of \<open>2 ^ e\<close>, ties to even, and the binary64 nearest
  to a positive fraction: the exponent of the leading bit is searched for from a bound.\<close>

fun bit_length :: "nat \<Rightarrow> nat" where
  "bit_length n = (if n = 0 then 0 else Suc (bit_length (n div 2)))"

declare bit_length.simps [simp del]

definition round_half_even :: "nat \<Rightarrow> nat \<Rightarrow> nat" where
  "round_half_even n d =
     (let q = n div d; r = n mod d in if 2 * r < d \<or> (2 * r = d \<and> even q) then q else q + 1)"

definition scaled :: "nat \<Rightarrow> nat \<Rightarrow> int \<Rightarrow> nat \<times> nat" where
  "scaled n d e = (if 0 \<le> e then (n, d * 2 ^ nat e) else (n * 2 ^ nat (- e), d))"

definition f64_of_fraction :: "nat \<Rightarrow> nat \<Rightarrow> 64 word" where
  "f64_of_fraction n d =
     (if n = 0 then 0
      else
        (let e0 = int (bit_length n) - int (bit_length d);
             e1 = (case scaled n d e0 of (a, b) \<Rightarrow> if a < b then e0 - 1 else e0);
             e = max e1 (- 1022);
             m = (case scaled n d (e - 52) of (a, b) \<Rightarrow> round_half_even a b);
             bits = nat (e + 1022) * 2 ^ 52 + m
         in if bits \<ge> 0x7FF0000000000000 then 0x7FF0000000000000 else word_of_nat bits))"

definition f64_of_int :: "int \<Rightarrow> 64 word" where
  "f64_of_int n = (if n < 0 then 0x8000000000000000 OR f64_of_fraction (nat (- n)) 1 else f64_of_fraction (nat n) 1)"

definition parse_f64 :: "bytes \<Rightarrow> 64 word option" where
  "parse_f64 s =
     (let whole = takeWhile ascii_digit s; r1 = dropWhile ascii_digit s;
          frac = (if peek_byte r1 = Some 46 then takeWhile ascii_digit (tl r1) else []);
          r2 = (if peek_byte r1 = Some 46 then dropWhile ascii_digit (tl r1) else r1);
          ex = (if r2 = [] then Some 0
                else (let sgn = (if peek_byte (tl r2) \<in> {Some 43, Some 45} then peek_byte (tl r2) else None);
                          ds = (if sgn = None then tl r2 else tl (tl r2))
                      in if ds = [] then None
                         else Some (if sgn = Some 45 then - digits_value ds else digits_value ds)));
          m = nat (digits_value (whole @ frac))
      in if whole @ frac = [] then None
         else map_option (\<lambda>x. let k = x - int (length frac) in
           if 0 \<le> k then f64_of_fraction (m * 10 ^ nat k) 1 else f64_of_fraction m (10 ^ nat (- k))) ex)"

definition read_number :: "bytes \<Rightarrow> lex_error + token \<times> bytes" where
  "read_number src =
     (case scan_number False False src of
        (s, is_float, rest) \<Rightarrow>
          if is_float then (case parse_f64 s of Some f \<Rightarrow> Inr (TFloatLiteral f, rest) | None \<Rightarrow> Inl BadNumber)
          else (case parse_i64 s of Some n \<Rightarrow> Inr (TIntLiteral n, rest) | None \<Rightarrow> Inl BadNumber))"

definition read_dollar :: "bytes \<Rightarrow> token \<times> bytes" where
  "read_dollar src =
     (let n = digits_value (takeWhile ascii_digit src) in
      (TDollar (if n < 2 ^ 32 then nat n else 0), dropWhile ascii_digit src))"

section \<open>Keywords\<close>

definition keyword_table :: "(bytes \<times> token) list" where
  "keyword_table =
    [(str ''SELECT'', TSelect), (str ''FROM'', TFrom), (str ''WHERE'', TWhere), (str ''AS'', TAs), (str ''AND'', TAnd),
     (str ''OR'', TOr), (str ''NOT'', TNot), (str ''NULL'', TNull), (str ''TRUE'', TTrue), (str ''FALSE'', TFalse), (str
     ''SET'', TSet), (str ''SHOW'', TShow), (str ''BEGIN'', TBegin), (str ''COMMIT'', TCommit), (str ''ROLLBACK'',
     TRollback), (str ''IS'', TIs), (str ''IN'', TIn), (str ''LIKE'', TLike), (str ''BETWEEN'', TBetween), (str ''LIMIT'',
     TLimit), (str ''OFFSET'', TOffset), (str ''ORDER'', TOrder), (str ''BY'', TBy), (str ''ASC'', TAsc), (str ''DESC'',
     TDesc), (str ''GROUP'', TGroup), (str ''HAVING'', THaving), (str ''DISTINCT'', TDistinct), (str ''ALL'', TAll), (str
     ''CASE'', TCase), (str ''WHEN'', TWhen), (str ''THEN'', TThen), (str ''ELSE'', TElse), (str ''END'', TEnd), (str
     ''CAST'', TCast), (str ''INTERVAL'', TInterval), (str ''INSERT'', TInsert), (str ''INTO'', TInto), (str ''VALUES'',
     TValues), (str ''DELETE'', TDelete), (str ''UPDATE'', TUpdate), (str ''CREATE'', TCreate), (str ''TABLE'', TTable),
     (str ''DROP'', TDrop), (str ''INDEX'', TIndex), (str ''IF'', TIf), (str ''EXISTS'', TExists), (str ''PRIMARY'',
     TPrimary), (str ''KEY'', TKey), (str ''DEFAULT'', TDefault), (str ''JOIN'', TJoin), (str ''LEFT'', TLeft), (str
     ''RIGHT'', TRight), (str ''FULL'', TFull), (str ''CROSS'', TCross), (str ''ON'', TOn), (str ''WITH'', TWith), (str
     ''RECURSIVE'', TRecursive), (str ''UNION'', TUnion), (str ''OVER'', TOver), (str ''PARTITION'', TPartition), (str
     ''ROWS'', TRows), (str ''RANGE'', TRange), (str ''UNBOUNDED'', TUnbounded), (str ''PRECEDING'', TPreceding), (str
     ''FOLLOWING'', TFollowing), (str ''CURRENT'', TCurrent), (str ''ROW'', TRow), (str ''DECLARE'', TDeclare), (str
     ''CURSOR'', TCursor), (str ''FOR'', TFor), (str ''FETCH'', TFetch), (str ''NEXT'', TNext), (str ''MOVE'', TMove), (str
     ''CLOSE'', TClose), (str ''LISTEN'', TListen), (str ''NOTIFY'', TNotify), (str ''UNLISTEN'', TUnlisten), (str
     ''COPY'', TCopy), (str ''STDIN'', TStdin), (str ''STDOUT'', TStdout), (str ''TO'', TTo), (str ''FUNCTION'',
     TFunction), (str ''RETURNS'', TReturns), (str ''LANGUAGE'', TLanguage), (str ''ALTER'', TAlter), (str ''COLUMN'',
     TColumn), (str ''UNIQUE'', TUnique), (str ''REFERENCES'', TReferences), (str ''FOREIGN'', TForeign), (str
     ''SEQUENCE'', TSequence), (str ''INCREMENT'', TIncrement), (str ''START'', TStart), (str ''TOPIC'', TTopic), (str
     ''ANALYZE'', TAnalyze), (str ''COLLATE'', TCollate), (str ''OPERATOR'', TOperator), (str ''MATCH'', TMatch), (str
     ''RETURN'', TReturn), (str ''ROLE'', TRole), (str ''SUPERUSER'', TSuperuser), (str ''NOSUPERUSER'', TNoSuperuser),
     (str ''LOGIN'', TLogin), (str ''NOLOGIN'', TNoLogin), (str ''PASSWORD'', TPassword), (str ''GRANT'', TGrant), (str
     ''REVOKE'', TRevoke), (str ''PRIVILEGES'', TPrivileges), (str ''USAGE'', TUsage), (str ''DATABASE'', TDatabase)]"

definition keyword_or_ident :: "bytes \<Rightarrow> token" where
  "keyword_or_ident s = (case map_of keyword_table (map upper_byte s) of Some t \<Rightarrow> t | None \<Rightarrow> TIdent s)"

section \<open>Operators\<close>

definition follows :: "byte \<Rightarrow> token \<Rightarrow> token \<Rightarrow> bytes \<Rightarrow> token \<times> bytes" where
  "follows c yes no src = (if peek_byte src = Some c then (yes, tl src) else (no, src))"

definition read_operator :: "byte \<Rightarrow> bytes \<Rightarrow> lex_error + token \<times> bytes" where
  "read_operator b src =
     (if b = 42 then Inr (TStar, src)
      else if b = 43 then Inr (TPlus, src)
      else if b = 37 then Inr (TPercent, src)
      else if b = 44 then Inr (TComma, src)
      else if b = 46 then Inr (TDot, src)
      else if b = 59 then Inr (TSemicolon, src)
      else if b = 40 then Inr (TLParen, src)
      else if b = 41 then Inr (TRParen, src)
      else if b = 91 then Inr (TLBracket, src)
      else if b = 93 then Inr (TRBracket, src)
      else if b = 47 then Inr (TSlash, src)
      else if b = 61 then Inr (TEq, src)
      else if b = 33 \<and> peek_byte src = Some 61 then Inr (TNotEq, tl src)
      else if b = 33 \<and> peek_byte src = Some 126 then Inr (follows 42 TNotTildeStar TNotTilde (tl src))
      else if b = 60 then
        Inr (if peek_byte src = Some 61 then (TLte, tl src) else follows 62 TNotEq TLt src)
      else if b = 62 then Inr (follows 61 TGte TGt src)
      else if b = 45 then
        Inr (if peek_byte src = Some 62 then follows 62 TLongArrow TArrow (tl src) else (TMinus, src))
      else if b = 124 \<and> peek_byte src = Some 124 then Inr (TConcat, tl src)
      else if b = 58 then Inr (follows 58 TDoubleColon TColon src)
      else if b = 64 \<and> peek_byte src = Some 62 then Inr (TAtArrow, tl src)
      else if b = 35 \<and> peek_byte src = Some 62 then Inr (follows 62 THashLongArrow THashArrow (tl src))
      else if b = 126 then Inr (follows 42 TTildeStar TTilde src)
      else Inl (UnexpectedCharacter b))"

section \<open>Tokens\<close>

definition next_digit :: "bytes \<Rightarrow> bool" where
  "next_digit src \<longleftrightarrow> (case peek_byte src of Some c \<Rightarrow> ascii_digit c | None \<Rightarrow> False)"

definition next_token :: "bytes \<Rightarrow> lex_error + token \<times> bytes" where
  "next_token src0 =
     (case skip_whitespace src0 of
        [] \<Rightarrow> Inr (TEof, [])
      | b # src \<Rightarrow>
          if b = 39 then
            (case read_quoted 39 src of Some (s, r) \<Rightarrow> Inr (TStringLiteral s, r) | None \<Rightarrow> Inl UnterminatedString)
          else if b = 34 then
            (case read_quoted 34 src of Some (s, r) \<Rightarrow> Inr (TIdent s, r) | None \<Rightarrow> Inl UnterminatedIdent)
          else if ascii_digit b \<or> (b = 46 \<and> next_digit src) then read_number (b # src)
          else if b = 36 \<and> next_digit src then Inr (read_dollar src)
          else if ascii_alphabetic b \<or> b = 95 then
            Inr (keyword_or_ident (b # takeWhile ident_byte src), dropWhile ident_byte src)
          else read_operator b src)"

lemma skip_whitespace_length: "length (skip_whitespace src) \<le> length src"
proof (induction src rule: skip_whitespace.induct)
  case (1 src)
  show ?case
  proof (cases src)
    case (Cons b rest)
    have "length (tl (dropWhile (\<lambda>c. c \<noteq> 10) rest)) \<le> length rest"
      using length_dropWhile_le [of "\<lambda>c. c \<noteq> 10" rest] by simp
    moreover have "length (skip_block (tl rest)) \<le> length rest"
      using skip_block_length [of "tl rest"] by simp
    ultimately show ?thesis using 1 Cons by (subst skip_whitespace.simps) (auto intro: le_trans le_SucI)
  qed (simp add: skip_whitespace.simps)
qed

lemma read_quoted_length: "read_quoted q src = Some (s, r) \<Longrightarrow> length r < length src"
proof (induction src arbitrary: s r rule: length_induct)
  case (1 src)
  show ?case
  proof (cases src)
    case (Cons b src')
    have IH: "read_quoted q rest = Some (s', r') \<Longrightarrow> length r' < length rest" if "length rest < length src" for rest s' r'
      using 1(1) that by blast
    show ?thesis
      using 1(2) Cons IH [of src'] IH [of "tl src'"]
      by (cases src') (auto split: if_splits intro: less_SucI)
  qed (use 1(2) in simp)
qed

lemma scan_number_length:
  "length (fst (scan_number hdot hexp src)) + length (snd (snd (scan_number hdot hexp src))) = length src"
  by (induction hdot hexp src rule: scan_number.induct) (auto split: list.split)

lemma scan_number_first: "ascii_digit b \<or> b = 46 \<Longrightarrow> fst (scan_number False False (b # src)) \<noteq> []"
  by auto

lemma follows_length: "length (snd (follows c t u src)) \<le> length src"
  by (simp add: follows_def)

lemma read_operator_length: "read_operator b src = Inr (t, r) \<Longrightarrow> length r \<le> length src"
  using follows_length [of _ _ _ "tl src"] follows_length [of _ _ _ src]
  by (auto simp: read_operator_def split: if_splits; metis diff_le_self le_trans length_tl snd_conv)

lemma next_token_shorter:
  assumes "next_token src = Inr (t, r)" "t \<noteq> TEof"
  shows "length r < length src"
proof -
  obtain b rest where b: "skip_whitespace src = b # rest"
    using assms by (auto simp: next_token_def split: list.splits)
  have le: "length (b # rest) \<le> length src" using skip_whitespace_length [of src] b by simp
  have num: "length r < length (b # rest)" if n: "ascii_digit b \<or> b = 46" "read_number (b # rest) = Inr (t, r)"
  proof -
    have r: "r = snd (snd (scan_number False False (b # rest)))"
      using n(2) by (auto simp del: scan_number.simps simp: read_number_def split: prod.splits if_splits option.splits)
    show ?thesis
      using scan_number_length [of False False "b # rest"] scan_number_first [OF n(1), of rest] r
      by (cases "fst (scan_number False False (b # rest))") auto
  qed
  show ?thesis
    using assms(1) le num read_quoted_length [of _ rest] read_operator_length [of b rest t r]
      length_dropWhile_le [of ident_byte rest] length_dropWhile_le [of ascii_digit rest]
    by (fastforce simp: next_token_def b read_dollar_def Let_def split: if_splits option.splits prod.splits)
qed

function tokenize :: "bytes \<Rightarrow> lex_error + token list" where
  "tokenize src =
     attempt (next_token src) (\<lambda>(tok, rest).
       if tok = TEof then Inr [TEof] else attempt (tokenize rest) (\<lambda>toks. Inr (tok # toks)))"
  by pat_completeness auto
termination
  by (relation "measure length") (auto dest: next_token_shorter)

declare tokenize.simps [simp del]

end
