(* ===== verification/Sql_Parser.thy ===== *)
theory Sql_Parser
  imports Sql_Lexer
begin

text \<open>
  The expression and query parts of the SQL parser (\<open>sql/parser.rs\<close>). The position of the
  parser is the unread rest of the tokens, and a parser maps it to an error or to a result with
  a new rest. Functions of the code that call each other are definitions over the parsers they
  call recursively (\<open>rec_parsers\<close>); \<open>expr_n\<close>, \<open>unary_n\<close> and \<open>select_n\<close> tie the knot with a
  bound on the depth of the recursion, and \<open>run_expr\<close> and \<open>run_select\<close> choose a bound from the
  number of tokens. Loops have a bound of the same kind. The error \<open>Diverges\<close> says that a bound
  was exceeded or that a loop does not end.
\<close>

section \<open>Parsers\<close>

datatype parse_error =
    Expected token token | ExpectedIdent token | ExpectedString token | ExpectedInt token | ExpectedNumeric token
  | ExpectedNullTrueFalse | UnknownOperator | UnexpectedInExpr token | ExpectedFrameEnd token | ExpectedRowsOrRange token
  | UnexpectedToken token | EmptyStatement | ExpectedAfterAlter token | ExpectedAfterCreate token | ExpectedAfterDrop token
  | ExpectedAlterAction token | ExpectedPrivilege token | MissingOn bool | DropIndexUnsupported | ExpectedOptionName token
  | ExpectedOptionValue token | ExpectedCopyTarget | MatchWhereLiteral token | MatchWhereVariable bytes | MatchReturnVariable bytes
  | ForeignKeyColumn | Diverges

type_synonym 'a parser = "token list \<Rightarrow> parse_error + 'a \<times> token list"

definition peek :: "token list \<Rightarrow> token" where
  "peek ts = (case ts of [] \<Rightarrow> TEof | t # _ \<Rightarrow> t)"

definition peek2 :: "token list \<Rightarrow> token" where
  "peek2 ts = peek (tl ts)"

definition preturn :: "'a \<Rightarrow> 'a parser" where
  "preturn x ts = Inr (x, ts)"

definition pfail :: "parse_error \<Rightarrow> 'a parser" where
  "pfail e ts = Inl e"

definition pbind :: "'a parser \<Rightarrow> ('a \<Rightarrow> 'b parser) \<Rightarrow> 'b parser" where
  "pbind p f ts = (case p ts of Inl e \<Rightarrow> Inl e | Inr (x, ts') \<Rightarrow> f x ts')"

definition pseq :: "'a parser \<Rightarrow> 'b parser \<Rightarrow> 'b parser" where
  "pseq p q = pbind p (\<lambda>_. q)"

definition plook :: "(token \<Rightarrow> token \<Rightarrow> 'a parser) \<Rightarrow> 'a parser" where
  "plook f ts = f (peek ts) (peek2 ts) ts"

definition advance :: "token parser" where
  "advance ts = Inr (peek ts, tl ts)"

definition expect :: "token \<Rightarrow> unit parser" where
  "expect tok ts = (if peek ts = tok then Inr ((), tl ts) else Inl (Expected tok (peek ts)))"

definition eat :: "token \<Rightarrow> bool parser" where
  "eat tok ts = Inr (if peek ts = tok then (True, tl ts) else (False, ts))"

definition popt :: "token \<Rightarrow> 'a parser \<Rightarrow> 'a option parser" where
  "popt tok p = pbind (eat tok) (\<lambda>b. if b then pbind p (\<lambda>x. preturn (Some x)) else preturn None)"

datatype ('s, 'r) flow = Continue 's | Break 'r

fun ploop_n :: "nat \<Rightarrow> ('s \<Rightarrow> ('s, 'r) flow parser) \<Rightarrow> 's \<Rightarrow> 'r parser" where
  "ploop_n 0 step s ts = Inl Diverges"
| "ploop_n (Suc n) step s ts =
     (case step s ts of
        Inl e \<Rightarrow> Inl e
      | Inr (Break r, ts') \<Rightarrow> Inr (r, ts')
      | Inr (Continue s', ts') \<Rightarrow> ploop_n n step s' ts')"

definition ploop :: "('s \<Rightarrow> ('s, 'r) flow parser) \<Rightarrow> 's \<Rightarrow> 'r parser" where
  "ploop step s ts = ploop_n (Suc (length ts)) step s ts"

definition comma_step :: "'a parser \<Rightarrow> 'a list \<Rightarrow> ('a list, 'a list) flow parser" where
  "comma_step p xs =
     pbind (eat TComma) (\<lambda>b. if b then pbind p (\<lambda>x. preturn (Continue (xs @ [x]))) else preturn (Break xs))"

definition comma_list :: "'a parser \<Rightarrow> 'a list parser" where
  "comma_list p = pbind p (\<lambda>x. ploop (comma_step p) [x])"

section \<open>Names\<close>

definition parse_ident_string :: "bytes parser" where
  "parse_ident_string ts = (case peek ts of TIdent s \<Rightarrow> Inr (s, tl ts) | t \<Rightarrow> Inl (ExpectedIdent t))"

definition parse_string :: "bytes parser" where
  "parse_string ts = (case peek ts of TStringLiteral s \<Rightarrow> Inr (s, tl ts) | t \<Rightarrow> Inl (ExpectedString t))"

definition is_ident :: "token \<Rightarrow> bool" where
  "is_ident t \<longleftrightarrow> (case t of TIdent _ \<Rightarrow> True | _ \<Rightarrow> False)"

definition parse_alias :: "bytes option parser" where
  "parse_alias =
     pbind (eat TAs) (\<lambda>b.
       if b then pbind parse_ident_string (\<lambda>s. preturn (Some s))
       else plook (\<lambda>t _. if is_ident t then pbind parse_ident_string (\<lambda>s. preturn (Some s)) else preturn None))"

definition eq_ignore_case :: "bytes \<Rightarrow> bytes \<Rightarrow> bool" where
  "eq_ignore_case s t \<longleftrightarrow> map upper_byte s = map upper_byte t"

section \<open>Binding powers\<close>

definition infix_table :: "(token \<times> (nat \<times> nat \<times> sql_op)) list" where
  "infix_table =
     [(TOr, (1, 2, OOr)), (TAnd, (3, 4, OAnd)), (TEq, (5, 6, OEq)), (TNotEq, (5, 6, ONotEq)), (TLt, (5, 6, OLt)),
      (TLte, (5, 6, OLte)), (TGt, (5, 6, OGt)), (TGte, (5, 6, OGte)), (TConcat, (7, 8, OConcat)), (TPlus, (9, 10, OAdd)),
      (TMinus, (9, 10, OSub)), (TStar, (11, 12, OMul)), (TSlash, (11, 12, ODiv)), (TPercent, (11, 12, OMod)),
      (TArrow, (13, 14, OArrow)), (TLongArrow, (13, 14, OLongArrow)), (THashArrow, (13, 14, OHashArrow)),
      (THashLongArrow, (13, 14, OHashLongArrow)), (TAtArrow, (5, 6, OContains)), (TTilde, (5, 6, ORegexMatch)),
      (TNotTilde, (5, 6, ORegexNotMatch)), (TTildeStar, (5, 6, ORegexMatchCI)), (TNotTildeStar, (5, 6, ORegexNotMatchCI)),
      (TIs, (5, 6, OEq)), (TBetween, (5, 6, OEq)), (TLike, (5, 6, OEq)), (TIn, (5, 6, OEq)), (TNot, (5, 6, OEq)),
      (TCollate, (5, 6, OEq)), (TOperator, (5, 6, OEq))]"

definition infix_bp :: "token \<Rightarrow> (nat \<times> nat \<times> sql_op) option" where
  "infix_bp t = map_of infix_table t"

section \<open>Expressions\<close>

record rec_parsers =
  pr_expr :: "nat \<Rightarrow> sql_expr parser"
  pr_unary :: "sql_expr parser"
  pr_select :: "select_stmt parser"

definition parse_expr_list :: "rec_parsers \<Rightarrow> sql_expr list parser" where
  "parse_expr_list P = comma_list (pr_expr P 0)"

definition parse_order_by :: "rec_parsers \<Rightarrow> sql_expr order_by parser" where
  "parse_order_by P =
     pbind (pr_expr P 0) (\<lambda>e.
     pbind (eat TDesc) (\<lambda>d.
       if d then preturn (OrderBy e False) else pseq (eat TAsc) (preturn (OrderBy e True))))"

definition parse_order_by_list :: "rec_parsers \<Rightarrow> sql_expr order_by list parser" where
  "parse_order_by_list P = comma_list (parse_order_by P)"

definition opt_order_by :: "rec_parsers \<Rightarrow> sql_expr order_by list parser" where
  "opt_order_by P =
     plook (\<lambda>t t2. if t = TOrder \<and> t2 = TBy then pseq advance (pseq advance (parse_order_by_list P)) else preturn [])"

definition parse_frame_bound :: "rec_parsers \<Rightarrow> sql_expr frame_bound parser" where
  "parse_frame_bound P =
     plook (\<lambda>t _.
       if t = TUnbounded then
         pseq advance (pbind advance (\<lambda>t.
           if t = TPreceding then preturn (FrameBound UnboundedPreceding None)
           else if t = TFollowing then preturn (FrameBound UnboundedFollowing None)
           else pfail (ExpectedFrameEnd t)))
       else if t = TCurrent then pseq advance (pseq (expect TRow) (preturn (FrameBound CurrentRow None)))
       else
         pbind (pr_expr P 0) (\<lambda>off. pbind advance (\<lambda>t.
           if t = TPreceding then preturn (FrameBound Preceding (Some off))
           else if t = TFollowing then preturn (FrameBound Following (Some off))
           else pfail (ExpectedFrameEnd t))))"

definition parse_window_frame :: "rec_parsers \<Rightarrow> sql_expr window_frame parser" where
  "parse_window_frame P =
     pbind advance (\<lambda>t.
     pbind (if t = TRows then preturn FRows else if t = TRange then preturn FRange else pfail (ExpectedRowsOrRange t)) (\<lambda>ty.
     pbind (eat TBetween) (\<lambda>b.
       if b then
         pbind (parse_frame_bound P) (\<lambda>start. pseq (expect TAnd) (pbind (parse_frame_bound P) (\<lambda>fin.
           preturn (WindowFrame ty start (Some fin)))))
       else pbind (parse_frame_bound P) (\<lambda>start. preturn (WindowFrame ty start None)))))"

definition parse_over_clause :: "rec_parsers \<Rightarrow> bytes \<Rightarrow> sql_expr list \<Rightarrow> sql_expr parser" where
  "parse_over_clause P f args =
     pseq (expect TOver) (pseq (expect TLParen)
     (pbind (plook (\<lambda>t _. if t = TPartition then pseq advance (pseq (expect TBy) (parse_expr_list P)) else preturn [])) (\<lambda>part.
      pbind (opt_order_by P) (\<lambda>ord.
      pbind (plook (\<lambda>t _. if t = TRows \<or> t = TRange then pbind (parse_window_frame P) (\<lambda>w. preturn (Some w)) else preturn None)) (\<lambda>frame.
      pseq (expect TRParen) (preturn (XWindow f args part ord frame)))))))"

definition case_step :: "rec_parsers \<Rightarrow> (sql_expr \<times> sql_expr) list \<Rightarrow> ((sql_expr \<times> sql_expr) list, (sql_expr \<times> sql_expr) list) flow parser" where
  "case_step P branches =
     pbind (eat TWhen) (\<lambda>b.
       if b then
         pbind (pr_expr P 0) (\<lambda>cond. pseq (expect TThen) (pbind (pr_expr P 0) (\<lambda>result.
           preturn (Continue (branches @ [(cond, result)])))))
       else preturn (Break branches))"

definition parse_case :: "rec_parsers \<Rightarrow> sql_expr parser" where
  "parse_case P =
     pbind (plook (\<lambda>t _. if t \<noteq> TWhen then pbind (pr_expr P 0) (\<lambda>e. preturn (Some e)) else preturn None)) (\<lambda>operand.
     pbind (ploop (case_step P) []) (\<lambda>branches.
     pbind (popt TElse (pr_expr P 0)) (\<lambda>els.
     pseq (expect TEnd) (preturn (XCase operand branches els)))))"

definition float_item :: "64 word list \<Rightarrow> (64 word list, 64 word list) flow parser" where
  "float_item items =
     plook (\<lambda>t _.
       case (case t of TFloatLiteral f \<Rightarrow> Some f | TIntLiteral n \<Rightarrow> Some (f64_of_int n) | _ \<Rightarrow> None) of
         None \<Rightarrow> pfail (ExpectedNumeric t)
       | Some f \<Rightarrow> pseq advance (pbind (eat TComma) (\<lambda>b.
           preturn (if b then Continue (items @ [f]) else Break (items @ [f])))))"

definition parse_float_array_literal :: "sql_expr parser" where
  "parse_float_array_literal =
     pseq (expect TLBracket)
     (pbind (plook (\<lambda>t _. if t \<noteq> TRBracket then ploop float_item [] else preturn [])) (\<lambda>items.
      pseq (expect TRBracket) (preturn (XLiteral (LFloatArray items)))))"

definition parse_call :: "rec_parsers \<Rightarrow> bytes \<Rightarrow> sql_expr parser" where
  "parse_call P name =
     pbind (eat TDistinct) (\<lambda>distinct.
     pbind (plook (\<lambda>t _.
       if t = TStar then pseq advance (preturn []) else if t = TRParen then preturn [] else parse_expr_list P)) (\<lambda>args.
     pseq (expect TRParen)
       (plook (\<lambda>t _. if t = TOver then parse_over_clause P name args else preturn (XFunction name args distinct)))))"

definition parse_name_expr :: "rec_parsers \<Rightarrow> bytes \<Rightarrow> sql_expr parser" where
  "parse_name_expr P name =
     pbind (eat TLParen) (\<lambda>call.
       if call then parse_call P name
       else pbind (eat TDot) (\<lambda>dot.
         if dot then
           pbind parse_ident_string (\<lambda>col. pbind (eat TLParen) (\<lambda>call.
             if call then parse_call P (name @ str ''.'' @ col) else preturn (XQualified name col)))
         else preturn (XIdent name)))"

definition parse_atom :: "rec_parsers \<Rightarrow> sql_expr parser" where
  "parse_atom P =
     plook (\<lambda>t t2.
       case t of
         TIntLiteral n \<Rightarrow> pseq advance (preturn (XLiteral (LInt n)))
       | TFloatLiteral f \<Rightarrow> pseq advance (preturn (XLiteral (LFloat f)))
       | TStringLiteral s \<Rightarrow> pseq advance (preturn (XLiteral (LText s)))
       | TDollar n \<Rightarrow> pseq advance (preturn (XParam n))
       | TIdent name \<Rightarrow> pseq advance (parse_name_expr P name)
       | TUnit _ \<Rightarrow>
           if t = TTrue then pseq advance (preturn (XLiteral (LBool True)))
           else if t = TFalse then pseq advance (preturn (XLiteral (LBool False)))
           else if t = TNull then pseq advance (preturn (XLiteral LNull))
           else if t = TLBracket then parse_float_array_literal
           else if t = TLParen \<and> t2 = TSelect then
             pseq advance (pbind (pr_select P) (\<lambda>q. pseq (expect TRParen) (preturn (XSubquery q))))
           else if t = TLParen then pseq advance (pbind (pr_expr P 0) (\<lambda>e. pseq (expect TRParen) (preturn e)))
           else if t = TCase then pseq advance (parse_case P)
           else if t = TCast then
             pseq advance (pseq (expect TLParen)
             (pbind (pr_expr P 0) (\<lambda>e. pseq (eat TAs) (pbind parse_ident_string (\<lambda>ty.
              pseq (expect TRParen) (preturn (XCast e ty)))))))
           else pfail (UnexpectedInExpr t))"

definition postfix_step :: "sql_expr \<Rightarrow> (sql_expr, sql_expr) flow parser" where
  "postfix_step e =
     plook (\<lambda>t _. if t = TDoubleColon then pseq advance (pbind parse_ident_string (\<lambda>ty. preturn (Continue (XCast e ty))))
       else preturn (Break e))"

definition parse_postfix :: "rec_parsers \<Rightarrow> sql_expr parser" where
  "parse_postfix P = pbind (parse_atom P) (ploop postfix_step)"

definition parse_exists :: "rec_parsers \<Rightarrow> bool \<Rightarrow> sql_expr parser" where
  "parse_exists P negated =
     pseq (expect TExists) (pseq (expect TLParen)
     (pbind (pr_select P) (\<lambda>q. pseq (expect TRParen) (preturn (XExists q negated)))))"

definition parse_unary :: "rec_parsers \<Rightarrow> sql_expr parser" where
  "parse_unary P =
     plook (\<lambda>t t2.
       if t = TMinus then pseq advance (pbind (pr_unary P) (\<lambda>e. preturn (XUnary UNeg e)))
       else if t = TPlus then pseq advance (pr_unary P)
       else if t = TNot \<and> t2 = TExists then pseq advance (parse_exists P True)
       else if t = TNot then pseq advance (pbind (pr_unary P) (\<lambda>e. preturn (XUnary UNot e)))
       else if t = TExists then parse_exists P False
       else parse_postfix P)"

definition skip_qualifier :: "unit parser" where
  "skip_qualifier = plook (\<lambda>t t2. if is_ident t \<and> t2 = TDot then pseq advance (pseq advance (preturn ())) else preturn ())"

definition parse_is :: "sql_expr \<Rightarrow> (sql_expr, sql_expr) flow parser" where
  "parse_is lhs =
     pseq advance (pbind (eat TNot) (\<lambda>negated. plook (\<lambda>t _.
       if t = TNull then pseq advance (preturn (Continue (XIsNull lhs negated)))
       else if t = TTrue then pseq advance (preturn (Continue (XIsTrue lhs negated)))
       else if t = TFalse then pseq advance (preturn (Continue (XIsFalse lhs negated)))
       else pfail ExpectedNullTrueFalse)))"

definition parse_between :: "rec_parsers \<Rightarrow> nat \<Rightarrow> sql_expr \<Rightarrow> (sql_expr, sql_expr) flow parser" where
  "parse_between P r_bp lhs =
     pbind (eat TNot) (\<lambda>negated. pseq (expect TBetween) (pbind (pr_expr P r_bp) (\<lambda>low.
     pseq (eat TAnd) (pbind (pr_expr P r_bp) (\<lambda>high. preturn (Continue (XBetween lhs low high negated)))))))"

definition parse_like :: "rec_parsers \<Rightarrow> nat \<Rightarrow> sql_expr \<Rightarrow> (sql_expr, sql_expr) flow parser" where
  "parse_like P r_bp lhs =
     pbind (eat TNot) (\<lambda>negated. pseq (expect TLike) (pbind (pr_expr P r_bp) (\<lambda>pat. preturn (Continue (XLike lhs pat negated)))))"

definition parse_in :: "rec_parsers \<Rightarrow> sql_expr \<Rightarrow> (sql_expr, sql_expr) flow parser" where
  "parse_in P lhs =
     pbind (eat TNot) (\<lambda>negated. pseq (expect TIn) (pseq (expect TLParen)
     (pbind (plook (\<lambda>t _. if t = TSelect then pbind (pr_select P) (\<lambda>q. preturn (InSubquery q))
         else pbind (parse_expr_list P) (\<lambda>es. preturn (InExprs es)))) (\<lambda>list.
      pseq (expect TRParen) (preturn (Continue (XIn lhs list negated)))))))"

definition parse_collate :: "sql_expr \<Rightarrow> (sql_expr, sql_expr) flow parser" where
  "parse_collate lhs =
     pseq advance (pseq skip_qualifier (plook (\<lambda>t _.
       if is_ident t then pseq advance (preturn (Continue lhs)) else preturn (Continue lhs))))"

definition parse_operator :: "rec_parsers \<Rightarrow> sql_expr \<Rightarrow> (sql_expr, sql_expr) flow parser" where
  "parse_operator P lhs =
     pseq advance (pseq (expect TLParen) (pseq skip_qualifier (plook (\<lambda>t _.
       case infix_bp t of
         None \<Rightarrow> pfail UnknownOperator
       | Some (l_bp, r_bp, binop) \<Rightarrow>
           pseq advance (pseq (expect TRParen) (pbind (pr_expr P r_bp) (\<lambda>rhs. preturn (Continue (XBinary binop lhs rhs)))))))))"

definition infix_step :: "rec_parsers \<Rightarrow> nat \<Rightarrow> sql_expr \<Rightarrow> (sql_expr, sql_expr) flow parser" where
  "infix_step P min_bp lhs =
     plook (\<lambda>t t2.
       case infix_bp t of
         None \<Rightarrow> preturn (Break lhs)
       | Some (l_bp, r_bp, op) \<Rightarrow>
           if l_bp < min_bp then preturn (Break lhs)
           else if t = TIs then parse_is lhs
           else if t = TBetween \<or> (t = TNot \<and> t2 = TBetween) then parse_between P r_bp lhs
           else if t = TLike \<or> (t = TNot \<and> t2 = TLike) then parse_like P r_bp lhs
           else if t = TIn \<or> (t = TNot \<and> t2 = TIn) then parse_in P lhs
           else if t = TCollate then parse_collate lhs
           else if t = TOperator then parse_operator P lhs
           else pseq advance (pbind (pr_expr P r_bp) (\<lambda>rhs. preturn (Continue (XBinary op lhs rhs)))))"

definition parse_expr :: "rec_parsers \<Rightarrow> nat \<Rightarrow> sql_expr parser" where
  "parse_expr P min_bp = pbind (parse_unary P) (ploop (infix_step P min_bp))"

section \<open>Queries\<close>

definition parse_projection :: "rec_parsers \<Rightarrow> sql_expr projection parser" where
  "parse_projection P =
     pbind (eat TStar) (\<lambda>star.
       if star then
         pbind (eat TDot) (\<lambda>dot. if dot then pbind parse_ident_string (\<lambda>t. preturn (PWildcardTable t)) else preturn PWildcard)
       else pbind (pr_expr P 0) (\<lambda>e. pbind parse_alias (\<lambda>alias. preturn (PExpr e alias))))"

definition parse_projection_list :: "rec_parsers \<Rightarrow> sql_expr projection list parser" where
  "parse_projection_list P = comma_list (parse_projection P)"

definition qualified_name :: "bytes \<Rightarrow> bytes \<Rightarrow> bytes" where
  "qualified_name first second =
     (if eq_ignore_case first (str ''pg_catalog'') \<or> eq_ignore_case first (str ''information_schema'')
      then first @ str ''.'' @ second else second)"

definition parse_table_ref :: "rec_parsers \<Rightarrow> (sql_expr, select_stmt) table_ref parser" where
  "parse_table_ref P =
     plook (\<lambda>t t2.
       if t = TLParen \<and> t2 = TSelect then
         pseq advance (pbind (pr_select P) (\<lambda>q. pseq (expect TRParen) (pseq (eat TAs) (pbind parse_ident_string (\<lambda>alias.
           preturn (TableRef alias (Some alias) (Some q) None))))))
       else
         pbind parse_ident_string (\<lambda>first.
         plook (\<lambda>t _.
           if t = TLParen then
             pseq advance
             (pbind (plook (\<lambda>t _. if t \<noteq> TRParen then comma_list (pr_expr P 0) else preturn [])) (\<lambda>args.
              pseq (expect TRParen) (pbind parse_alias (\<lambda>alias. preturn (TableRef first alias None (Some args))))))
           else
             pbind (eat TDot) (\<lambda>dot.
             pbind (if dot then pbind parse_ident_string (\<lambda>second. preturn (qualified_name first second)) else preturn first) (\<lambda>name.
             pbind parse_alias (\<lambda>alias. preturn (TableRef name alias None None)))))))"

definition parse_join_type :: "join_type option parser" where
  "parse_join_type =
     plook (\<lambda>t _.
       if t = TJoin then pseq advance (preturn (Some JInner))
       else if t = TLeft then pseq advance (pseq (eat TJoin) (preturn (Some JLeft)))
       else if t = TRight then pseq advance (pseq (eat TJoin) (preturn (Some JRight)))
       else if t = TFull then pseq advance (pseq (eat TJoin) (preturn (Some JFull)))
       else if t = TCross then pseq advance (pseq (expect TJoin) (preturn (Some JCross)))
       else preturn None)"

definition join_step ::
  "rec_parsers \<Rightarrow> (sql_expr, select_stmt) join list \<Rightarrow> ((sql_expr, select_stmt) join list, (sql_expr, select_stmt) join list) flow parser" where
  "join_step P joins =
     pbind parse_join_type (\<lambda>ty.
       case ty of
         None \<Rightarrow> preturn (Break joins)
       | Some ty \<Rightarrow> pbind (parse_table_ref P) (\<lambda>table. pbind (popt TOn (pr_expr P 0)) (\<lambda>on.
           preturn (Continue (joins @ [Join ty table on])))))"

definition parse_table_with_joins :: "rec_parsers \<Rightarrow> (sql_expr, select_stmt) table_with_joins parser" where
  "parse_table_with_joins P =
     pbind (parse_table_ref P) (\<lambda>primary. pbind (ploop (join_step P) []) (\<lambda>joins. preturn (TableWithJoins primary joins)))"

definition parse_group_by :: "rec_parsers \<Rightarrow> sql_expr list parser" where
  "parse_group_by P =
     plook (\<lambda>t t2. if t = TGroup \<and> t2 = TBy then pseq advance (pseq advance (parse_expr_list P)) else preturn [])"

definition parse_union :: "rec_parsers \<Rightarrow> (union_op \<times> select_stmt) option parser" where
  "parse_union P =
     plook (\<lambda>t _.
       if t = TUnion then
         pseq advance (pbind (eat TAll) (\<lambda>all. pbind (pr_select P) (\<lambda>rhs.
           preturn (Some (if all then UnionAll else UnionDistinct, rhs)))))
       else preturn None)"

definition parse_select :: "rec_parsers \<Rightarrow> select_stmt parser" where
  "parse_select P =
     pseq (expect TSelect)
     (pbind (eat TDistinct) (\<lambda>distinct.
      pseq (if distinct then preturn False else eat TAll)
     (pbind (parse_projection_list P) (\<lambda>projections.
      pbind (popt TFrom (parse_table_with_joins P)) (\<lambda>frm.
      pbind (popt TWhere (pr_expr P 0)) (\<lambda>wh.
      pbind (parse_group_by P) (\<lambda>group_by.
      pbind (popt THaving (pr_expr P 0)) (\<lambda>having.
      pbind (opt_order_by P) (\<lambda>order_by.
      pbind (popt TLimit (pr_expr P 0)) (\<lambda>limit.
      pbind (popt TOffset (pr_expr P 0)) (\<lambda>offset.
      pbind (parse_union P) (\<lambda>union.
        preturn (SelectStmt [] distinct projections frm wh group_by having order_by limit offset union)))))))))))))"

section \<open>Recursion\<close>

fun expr_n :: "nat \<Rightarrow> nat \<Rightarrow> sql_expr parser" and unary_n :: "nat \<Rightarrow> sql_expr parser" and select_n :: "nat \<Rightarrow> select_stmt parser" where
  "expr_n 0 min_bp ts = Inl Diverges"
| "expr_n (Suc n) min_bp ts = parse_expr \<lparr>pr_expr = expr_n n, pr_unary = unary_n n, pr_select = select_n n\<rparr> min_bp ts"
| "unary_n 0 ts = Inl Diverges"
| "unary_n (Suc n) ts = parse_unary \<lparr>pr_expr = expr_n n, pr_unary = unary_n n, pr_select = select_n n\<rparr> ts"
| "select_n 0 ts = Inl Diverges"
| "select_n (Suc n) ts = parse_select \<lparr>pr_expr = expr_n n, pr_unary = unary_n n, pr_select = select_n n\<rparr> ts"

definition run_expr :: "sql_expr parser" where
  "run_expr ts = expr_n (Suc (length ts)) 0 ts"

definition run_select :: "select_stmt parser" where
  "run_select ts = select_n (Suc (length ts)) ts"

end
