(* ===== verification/Sql_Stmts.thy ===== *)
theory Sql_Stmts
  imports Sql_Parser "HOL-Library.While_Combinator"
begin

text \<open>
  The statement parsers of \<open>sql/parser.rs\<close>: \<open>parse_stmt\<close> and the parsers of every statement
  it dispatches to, and the batches of \<open>parse_all_stmts\<close>. The loop over the table constraints of
  \<open>CREATE TABLE\<close> is a \<open>while_option\<close>, because it need not end: \<open>Diverges\<close> is then the result.
\<close>

section \<open>Loops without a bound\<close>

definition looping :: "parse_error + ('s, 'r) flow \<times> token list \<Rightarrow> bool" where
  "looping st \<longleftrightarrow> (case st of Inr (Continue _, _) \<Rightarrow> True | _ \<Rightarrow> False)"

definition loop_step :: "('s \<Rightarrow> ('s, 'r) flow parser) \<Rightarrow> parse_error + ('s, 'r) flow \<times> token list \<Rightarrow> parse_error + ('s, 'r) flow \<times> token list" where
  "loop_step step st = (case st of Inr (Continue s, ts) \<Rightarrow> step s ts | _ \<Rightarrow> st)"

definition pwhile :: "('s \<Rightarrow> ('s, 'r) flow parser) \<Rightarrow> 's \<Rightarrow> 'r parser" where
  "pwhile step s ts =
     (case while_option looping (loop_step step) (Inr (Continue s, ts)) of
        None \<Rightarrow> Inl Diverges
      | Some (Inl e) \<Rightarrow> Inl e
      | Some (Inr (Break r, ts')) \<Rightarrow> Inr (r, ts')
      | Some (Inr (Continue _, _)) \<Rightarrow> Inl Diverges)"

section \<open>Shared clauses\<close>

definition parse_object_name :: "bytes parser" where
  "parse_object_name =
     pbind parse_ident_string (\<lambda>first. pbind (eat TDot) (\<lambda>dot. if dot then parse_ident_string else preturn first))"

definition parse_paren_ident_list :: "bytes list parser" where
  "parse_paren_ident_list =
     pseq (expect TLParen) (pbind (comma_list parse_ident_string) (\<lambda>ns. pseq (expect TRParen) (preturn ns)))"

definition opt_columns :: "bytes list parser" where
  "opt_columns =
     pbind (eat TLParen) (\<lambda>b.
       if b then pbind (comma_list parse_ident_string) (\<lambda>cols. pseq (expect TRParen) (preturn cols)) else preturn [])"

definition parse_if_not_exists :: "bool parser" where
  "parse_if_not_exists =
     plook (\<lambda>t t2. if t = TIf \<and> t2 = TNot then pseq advance (pseq advance (pseq (expect TExists) (preturn True)))
       else preturn False)"

definition parse_if_exists :: "bool parser" where
  "parse_if_exists =
     plook (\<lambda>t t2. if t = TIf \<and> t2 = TExists then pseq advance (pseq advance (preturn True)) else preturn False)"

definition parse_kv_option :: "(bytes \<times> bytes) parser" where
  "parse_kv_option =
     pbind advance (\<lambda>t.
     pbind (case t of
         TIdent s \<Rightarrow> preturn s
       | _ \<Rightarrow> if t = TInterval then preturn (str ''interval'') else if t = TTo then preturn (str ''to'')
             else pfail (ExpectedOptionName t)) (\<lambda>key.
     pseq (expect TEq) (pbind advance (\<lambda>t.
       case t of
         TStringLiteral s \<Rightarrow> preturn (key, s)
       | TIdent s \<Rightarrow> preturn (key, s)
       | _ \<Rightarrow> pfail (ExpectedOptionValue t)))))"

definition opt_with_options :: "(bytes \<times> bytes) list parser" where
  "opt_with_options =
     pbind (eat TWith) (\<lambda>b.
       if b then pseq (expect TLParen) (pbind (comma_list parse_kv_option) (\<lambda>opts. pseq (expect TRParen) (preturn opts)))
       else preturn [])"

definition parse_signed_int :: "int parser" where
  "parse_signed_int =
     pbind (eat TMinus) (\<lambda>neg. pbind advance (\<lambda>t.
       case t of TIntLiteral n \<Rightarrow> preturn (if neg then - n else n) | _ \<Rightarrow> pfail (ExpectedInt t)))"

definition parse_type_name :: "bytes parser" where
  "parse_type_name =
     pbind parse_ident_string (\<lambda>name. plook (\<lambda>t t2.
       if t = TLBracket \<and> t2 = TRBracket then pseq advance (pseq advance (preturn (name @ str ''[]''))) else preturn name))"

definition lower_byte :: "byte \<Rightarrow> byte" where
  "lower_byte b = (if 65 \<le> b \<and> b \<le> 90 then b + 32 else b)"

definition is_keyword_ident :: "bytes \<Rightarrow> token \<Rightarrow> bool" where
  "is_keyword_ident w t \<longleftrightarrow> (case t of TIdent s \<Rightarrow> eq_ignore_case s w | _ \<Rightarrow> False)"

section \<open>Rows\<close>

definition parse_cte :: "bool \<Rightarrow> select_stmt cte parser" where
  "parse_cte recursive =
     pbind parse_ident_string (\<lambda>name.
     pbind opt_columns (\<lambda>columns.
     pseq (expect TAs) (pseq (expect TLParen)
     (pbind run_select (\<lambda>q. pseq (expect TRParen) (preturn (Cte name columns q recursive)))))))"

definition parse_ctes :: "bool \<Rightarrow> select_stmt cte list parser" where
  "parse_ctes recursive = comma_list (parse_cte recursive)"

definition parse_with :: "sql_stmt parser" where
  "parse_with =
     pbind (eat TRecursive) (\<lambda>recursive.
     pbind (parse_ctes recursive) (\<lambda>ctes.
     pbind run_select (\<lambda>q. preturn (SSelect (case q of SelectStmt _ d ps f w g h ob l off u \<Rightarrow> SelectStmt ctes d ps f w g h ob l off u)))))"

definition parse_row :: "sql_expr list parser" where
  "parse_row = pseq (expect TLParen) (pbind (comma_list run_expr) (\<lambda>row. pseq (expect TRParen) (preturn row)))"

definition row_step :: "sql_expr list list \<Rightarrow> (sql_expr list list, sql_expr list list) flow parser" where
  "row_step rows =
     plook (\<lambda>t t2.
       if t = TComma \<and> t2 = TLParen then pseq advance (pbind parse_row (\<lambda>row. preturn (Continue (rows @ [row]))))
       else preturn (Break rows))"

definition parse_insert :: "sql_stmt parser" where
  "parse_insert =
     pseq (expect TInto)
     (pbind parse_object_name (\<lambda>table.
      pbind opt_columns (\<lambda>columns.
      pseq (expect TValues)
     (pbind parse_row (\<lambda>row.
      pbind (ploop row_step [row]) (\<lambda>rows.
      preturn (SInsert \<lparr>is_table = table, is_columns = columns, is_values = rows\<rparr>)))))))"

definition parse_delete :: "sql_stmt parser" where
  "parse_delete =
     pseq (expect TFrom)
     (pbind parse_object_name (\<lambda>table.
      pbind (popt TWhere run_expr) (\<lambda>wh. preturn (SDelete \<lparr>ds_table = table, ds_where = wh\<rparr>))))"

definition assignment_step :: "(bytes \<times> sql_expr) list \<Rightarrow> ((bytes \<times> sql_expr) list, (bytes \<times> sql_expr) list) flow parser" where
  "assignment_step asg =
     pbind parse_ident_string (\<lambda>col. pseq (expect TEq) (pbind run_expr (\<lambda>e.
     pbind (eat TComma) (\<lambda>b. preturn (if b then Continue (asg @ [(col, e)]) else Break (asg @ [(col, e)]))))))"

definition parse_update :: "sql_stmt parser" where
  "parse_update =
     pbind parse_object_name (\<lambda>table.
     pseq (expect TSet)
     (pbind (ploop assignment_step []) (\<lambda>asg.
      pbind (popt TWhere run_expr) (\<lambda>wh.
      preturn (SUpdate \<lparr>us_table = table, us_assignments = asg, us_where = wh\<rparr>)))))"

section \<open>Tables\<close>

definition skip_action_step :: "unit \<Rightarrow> (unit, unit) flow parser" where
  "skip_action_step u =
     plook (\<lambda>t _.
       if t = TOn then
         pseq advance (pseq advance (pseq advance (plook (\<lambda>t _.
           if t = TNull \<or> t = TDefault then pseq advance (preturn (Continue ())) else preturn (Continue ())))))
       else preturn (Break ()))"

definition skip_referential_actions :: "unit parser" where
  "skip_referential_actions = ploop skip_action_step ()"

definition parse_references :: "(bytes \<times> bytes) parser" where
  "parse_references =
     pbind parse_object_name (\<lambda>table. pseq (expect TLParen) (pbind parse_ident_string (\<lambda>column. pseq (expect TRParen)
       (pseq skip_referential_actions (preturn (table, column))))))"

definition new_column :: "bytes \<Rightarrow> bytes \<Rightarrow> column_def" where
  "new_column name ty =
     (let l = map lower_byte ty;
          serial = (l = str ''serial'' \<or> l = str ''bigserial'' \<or> l = str ''smallserial'')
      in \<lparr>cd_name = name,
          cd_col_type =
            (if serial then (if l = str ''smallserial'' then str ''int2'' else if l = str ''bigserial'' then str ''int8'' else str ''int4'')
             else ty),
          cd_nullable = (\<not> serial), cd_default = None, cd_is_pk = False, cd_is_unique = False, cd_references = None,
          cd_is_serial = serial\<rparr>)"

definition column_step :: "column_def \<Rightarrow> (column_def, column_def) flow parser" where
  "column_step c =
     plook (\<lambda>t _.
       if t = TPrimary then
         pseq advance (pseq (expect TKey) (preturn (Continue (c\<lparr>cd_is_pk := True, cd_nullable := False\<rparr>))))
       else if t = TNot then
         pseq advance (pbind (eat TNull) (\<lambda>b. preturn (Continue (if b then c\<lparr>cd_nullable := False\<rparr> else c))))
       else if t = TNull then pseq advance (preturn (Continue (c\<lparr>cd_nullable := True\<rparr>)))
       else if t = TDefault then pseq advance (pbind run_expr (\<lambda>e. preturn (Continue (c\<lparr>cd_default := Some e\<rparr>))))
       else if t = TUnique then pseq advance (preturn (Continue (c\<lparr>cd_is_unique := True\<rparr>)))
       else if t = TReferences then
         pseq advance (pbind parse_references (\<lambda>r. preturn (Continue (c\<lparr>cd_references := Some r\<rparr>))))
       else preturn (Break c))"

definition parse_column :: "column_def parser" where
  "parse_column =
     pbind parse_ident_string (\<lambda>name. pbind parse_ident_string (\<lambda>ty. ploop column_step (new_column name ty)))"

definition columns_step :: "column_def list \<Rightarrow> (column_def list, column_def list) flow parser" where
  "columns_step cols =
     plook (\<lambda>t _.
       if t = TPrimary \<or> t = TUnique \<or> t = TForeign then preturn (Break cols)
       else pbind parse_column (\<lambda>c. pbind (eat TComma) (\<lambda>b.
         preturn (if b then Continue (cols @ [c]) else Break (cols @ [c])))))"

fun make_pk :: "bytes \<Rightarrow> column_def list \<Rightarrow> column_def list" where
  "make_pk n [] = []"
| "make_pk n (c # cs) = (if cd_name c = n then c\<lparr>cd_is_pk := True, cd_nullable := False\<rparr> # cs else c # make_pk n cs)"

fun skip_group :: "nat \<Rightarrow> token list \<Rightarrow> token list" where
  "skip_group 0 ts = ts"
| "skip_group depth [] = []"
| "skip_group depth (t # ts) =
     (if t = TLParen then skip_group (depth + 1) ts
      else if t = TRParen then skip_group (depth - 1) ts
      else if t = TEof then ts
      else skip_group depth ts)"

definition skip_other :: "unit parser" where
  "skip_other = pseq advance (pbind (eat TLParen) (\<lambda>b ts. Inr ((), if b then skip_group 1 ts else ts)))"

type_synonym table_parts = "column_def list \<times> table_constraint list"

definition constraint_step :: "table_parts \<Rightarrow> (table_parts, table_parts) flow parser" where
  "constraint_step s =
     pbind (eat TRParen) (\<lambda>closed.
       if closed then preturn (Break s)
       else plook (\<lambda>t _.
         if t = TPrimary then
           pseq advance (pseq (expect TKey) (pbind parse_paren_ident_list (\<lambda>ns.
             preturn (Continue (fold make_pk ns (fst s), snd s)))))
         else if t = TUnique then
           pseq advance (pbind parse_paren_ident_list (\<lambda>ns. preturn (Continue (fst s, snd s @ [TcUnique ns]))))
         else if t = TForeign then
           pseq advance (pseq (expect TKey) (pbind parse_paren_ident_list (\<lambda>ns.
             case ns of
               [] \<Rightarrow> pfail ForeignKeyColumn
             | column # _ \<Rightarrow> pseq (expect TReferences) (pbind parse_references (\<lambda>(table, col).
                 preturn (Continue (fst s, snd s @ [TcForeignKey column table col])))))))
         else if t = TComma then pseq advance (preturn (Continue s))
         else pseq skip_other (preturn (Continue s))))"

definition parse_create_table :: "sql_stmt parser" where
  "parse_create_table =
     pbind parse_if_not_exists (\<lambda>ine.
     pbind parse_object_name (\<lambda>table.
     pseq (expect TLParen)
     (pbind (ploop columns_step []) (\<lambda>cols.
      pbind (pwhile constraint_step (cols, [])) (\<lambda>parts.
      pbind opt_with_options (\<lambda>opts.
      preturn (SCreateTable \<lparr>ctb_table = table, ctb_if_not_exists = ine, ctb_columns = fst parts, ctb_constraints = snd parts,
        ctb_options = opts\<rparr>)))))))"

definition add_column_step :: "column_def \<Rightarrow> (column_def, column_def) flow parser" where
  "add_column_step c =
     plook (\<lambda>t _.
       if t = TDefault then pseq advance (pbind run_expr (\<lambda>e. preturn (Continue (c\<lparr>cd_default := Some e\<rparr>))))
       else if t = TNot then pseq advance (pseq (expect TNull) (preturn (Continue (c\<lparr>cd_nullable := False\<rparr>))))
       else preturn (Break c))"

definition parse_column_action :: "column_action parser" where
  "parse_column_action =
     pbind (eat TSet) (\<lambda>is_set.
       if is_set then
         pbind (eat TDefault) (\<lambda>d.
           if d then pbind run_expr (\<lambda>e. preturn (CaSetDefault e))
           else pseq (expect TNot) (pseq (expect TNull) (preturn CaSetNotNull)))
       else
         pseq (expect TDrop) (pbind (eat TDefault) (\<lambda>d.
           if d then preturn CaDropDefault else pseq (expect TNot) (pseq (expect TNull) (preturn CaDropNotNull)))))"

definition parse_alter_action :: "alter_table_action parser" where
  "parse_alter_action =
     plook (\<lambda>t _.
       if is_keyword_ident (str ''ADD'') t then
         pseq advance (pseq (eat TColumn) (pbind parse_ident_string (\<lambda>name. pbind parse_ident_string (\<lambda>ty.
         pbind (ploop add_column_step
             \<lparr>cd_name = name, cd_col_type = ty, cd_nullable = True, cd_default = None, cd_is_pk = False, cd_is_unique = False,
              cd_references = None, cd_is_serial = False\<rparr>) (\<lambda>c. preturn (AtAddColumn c))))))
       else if t = TDrop then
         pseq advance (pseq (eat TColumn) (pbind parse_ident_string (\<lambda>name. preturn (AtDropColumn name))))
       else if t = TAlter then
         pseq advance (pseq (eat TColumn) (pbind parse_ident_string (\<lambda>name. pbind parse_column_action (\<lambda>a.
           preturn (AtAlterColumn name a)))))
       else pfail (ExpectedAlterAction t))"

definition parse_alter_table :: "sql_stmt parser" where
  "parse_alter_table =
     pseq (expect TTable) (pseq (plook (\<lambda>t _.
       if is_keyword_ident (str ''ONLY'') t then pseq advance (preturn ()) else preturn ()))
     (pbind parse_object_name (\<lambda>table. pbind parse_alter_action (\<lambda>a.
      preturn (SAlterTable \<lparr>at_table = table, at_action = a\<rparr>)))))"

section \<open>Roles and privileges\<close>

definition create_role_step :: "create_role_stmt \<Rightarrow> (create_role_stmt, create_role_stmt) flow parser" where
  "create_role_step r =
     plook (\<lambda>t _.
       if t = TSuperuser then pseq advance (preturn (Continue (r\<lparr>cr_superuser := True\<rparr>)))
       else if t = TNoSuperuser then pseq advance (preturn (Continue (r\<lparr>cr_superuser := False\<rparr>)))
       else if t = TLogin then pseq advance (preturn (Continue (r\<lparr>cr_can_login := True\<rparr>)))
       else if t = TNoLogin then pseq advance (preturn (Continue (r\<lparr>cr_can_login := False\<rparr>)))
       else if t = TPassword then
         pseq advance (pbind parse_string (\<lambda>s. preturn (Continue (r\<lparr>cr_password := Some s\<rparr>))))
       else if t = TIn then
         pseq advance (pseq (expect TRole) (pbind (comma_list parse_ident_string) (\<lambda>ns.
           preturn (Continue (r\<lparr>cr_in_role := cr_in_role r @ ns\<rparr>)))))
       else preturn (Break r))"

definition parse_create_role :: "sql_stmt parser" where
  "parse_create_role =
     pseq parse_if_not_exists (pbind parse_ident_string (\<lambda>name.
     pbind (ploop create_role_step
         \<lparr>cr_role_name = name, cr_superuser = False, cr_can_login = True, cr_password = None, cr_in_role = []\<rparr>) (\<lambda>r.
     preturn (SCreateRole r))))"

definition alter_role_step :: "alter_role_stmt \<Rightarrow> (alter_role_stmt, alter_role_stmt) flow parser" where
  "alter_role_step r =
     plook (\<lambda>t _.
       if t = TSuperuser then pseq advance (preturn (Continue (r\<lparr>ar_superuser := Some True\<rparr>)))
       else if t = TNoSuperuser then pseq advance (preturn (Continue (r\<lparr>ar_superuser := Some False\<rparr>)))
       else if t = TLogin then pseq advance (preturn (Continue (r\<lparr>ar_can_login := Some True\<rparr>)))
       else if t = TNoLogin then pseq advance (preturn (Continue (r\<lparr>ar_can_login := Some False\<rparr>)))
       else if t = TPassword then
         pseq advance (pbind parse_string (\<lambda>s. preturn (Continue (r\<lparr>ar_password := Some s\<rparr>))))
       else preturn (Break r))"

definition parse_alter_role :: "sql_stmt parser" where
  "parse_alter_role =
     pbind parse_ident_string (\<lambda>name.
     pbind (ploop alter_role_step \<lparr>ar_name = name, ar_superuser = None, ar_can_login = None, ar_password = None\<rparr>) (\<lambda>r.
     preturn (SAlterRole r)))"

definition parse_drop_role :: "sql_stmt parser" where
  "parse_drop_role =
     pbind parse_if_exists (\<lambda>ie. pbind parse_ident_string (\<lambda>name. preturn (SDropRole \<lparr>dr_if_exists = ie, dr_name = name\<rparr>)))"

definition parse_one_privilege :: "privilege parser" where
  "parse_one_privilege =
     pbind advance (\<lambda>t.
       if t = TSelect then preturn PrSelect
       else if t = TInsert then preturn PrInsert
       else if t = TUpdate then preturn PrUpdate
       else if t = TDelete then preturn PrDelete
       else if t = TCreate then preturn PrCreate
       else if t = TDrop then preturn PrDrop
       else if t = TUsage then preturn PrUsage
       else pfail (ExpectedPrivilege t))"

definition parse_privilege_list :: "privilege list parser" where
  "parse_privilege_list =
     pbind (eat TAll) (\<lambda>all.
       if all then preturn [PrSelect, PrInsert, PrUpdate, PrDelete, PrCreate, PrDrop, PrUsage]
       else comma_list parse_one_privilege)"

definition parse_role_name_list :: "bytes list parser" where
  "parse_role_name_list = comma_list parse_ident_string"

definition parse_grant_or_revoke_head :: "bool \<Rightarrow> (bool \<times> bytes list \<times> privilege list \<times> grant_object) parser" where
  "parse_grant_or_revoke_head is_grant =
     plook (\<lambda>t _.
       if is_ident t then pbind parse_role_name_list (\<lambda>roles. preturn (True, roles, [], GDatabase))
       else
         pbind parse_privilege_list (\<lambda>ps.
         pseq (eat TPrivileges) (pbind (eat TOn) (\<lambda>on.
           if on then
             pbind (eat TDatabase) (\<lambda>db.
               if db then preturn (False, [], ps, GDatabase)
               else pseq (eat TTable) (pbind parse_object_name (\<lambda>n. preturn (False, [], ps, GTable n))))
           else pfail (MissingOn is_grant)))))"

definition parse_grant :: "sql_stmt parser" where
  "parse_grant =
     pbind (parse_grant_or_revoke_head True) (\<lambda>(rg, roles, ps, obj).
     pseq (expect TTo) (pbind parse_role_name_list (\<lambda>gs.
     preturn (SGrant \<lparr>gs_is_role_grant = rg, gs_roles = roles, gs_privileges = ps, gs_object = obj, gs_grantees = gs\<rparr>))))"

definition parse_revoke :: "sql_stmt parser" where
  "parse_revoke =
     pbind (parse_grant_or_revoke_head False) (\<lambda>(rg, roles, ps, obj).
     pseq (expect TFrom) (pbind parse_role_name_list (\<lambda>gs.
     preturn (SRevoke \<lparr>gs_is_role_grant = rg, gs_roles = roles, gs_privileges = ps, gs_object = obj, gs_grantees = gs\<rparr>))))"

section \<open>Other objects\<close>

definition argument_step :: "(bytes \<times> bytes) list \<Rightarrow> ((bytes \<times> bytes) list, (bytes \<times> bytes) list) flow parser" where
  "argument_step args =
     pbind parse_ident_string (\<lambda>name. pbind parse_type_name (\<lambda>ty. pbind (eat TComma) (\<lambda>b.
     preturn (if b then Continue (args @ [(name, ty)]) else Break (args @ [(name, ty)])))))"

definition parse_create_function :: "sql_stmt parser" where
  "parse_create_function =
     pbind parse_ident_string (\<lambda>name.
     pseq (expect TLParen)
     (pbind (plook (\<lambda>t _. if t \<noteq> TRParen then ploop argument_step [] else preturn [])) (\<lambda>args.
      pseq (expect TRParen) (pseq (expect TReturns)
     (pbind parse_type_name (\<lambda>ret.
      pseq (expect TLanguage)
     (pbind parse_ident_string (\<lambda>lang.
      pseq (expect TAs)
     (pbind parse_string (\<lambda>body.
      preturn (SCreateFunction \<lparr>cf_name = name, cf_args = args, cf_return_type = ret, cf_language = lang, cf_body_base64 = body\<rparr>)))))))))))"

definition sequence_step :: "int \<times> int \<Rightarrow> (int \<times> int, int \<times> int) flow parser" where
  "sequence_step s =
     plook (\<lambda>t _.
       if t = TStart then pseq advance (pseq (eat TWith) (pbind parse_signed_int (\<lambda>n. preturn (Continue (n, snd s)))))
       else if t = TIncrement then pseq advance (pseq (eat TBy) (pbind parse_signed_int (\<lambda>n. preturn (Continue (fst s, n)))))
       else if t = TSemicolon \<or> t = TEof then preturn (Break s)
       else pseq advance (preturn (Continue s)))"

definition parse_create_sequence :: "sql_stmt parser" where
  "parse_create_sequence =
     pbind parse_if_not_exists (\<lambda>ine. pbind parse_object_name (\<lambda>name. pbind (ploop sequence_step (1, 1)) (\<lambda>(start, inc).
     preturn (SCreateSequence \<lparr>cs_if_not_exists = ine, cs_name = name, cs_start = start, cs_increment = inc\<rparr>))))"

definition parse_create_topic :: "sql_stmt parser" where
  "parse_create_topic =
     pbind parse_if_not_exists (\<lambda>ine. pbind parse_object_name (\<lambda>name. pbind opt_with_options (\<lambda>opts.
     preturn (SCreateTopic \<lparr>ct_name = name, ct_if_not_exists = ine, ct_options = opts\<rparr>))))"

definition parse_create_index :: "sql_stmt parser" where
  "parse_create_index =
     pbind (plook (\<lambda>t _. if t = TOn then preturn None else pbind parse_ident_string (\<lambda>n. preturn (Some n)))) (\<lambda>name.
     pseq (expect TOn)
     (pbind parse_object_name (\<lambda>table.
      pbind (plook (\<lambda>t _.
        if is_keyword_ident (str ''USING'') t then pseq advance (pbind parse_ident_string (\<lambda>u. preturn (Some u))) else preturn None)) (\<lambda>us.
      pseq (expect TLParen)
     (pbind parse_ident_string (\<lambda>column.
      pseq (expect TRParen)
     (pbind opt_with_options (\<lambda>opts.
      preturn (SCreateIndex \<lparr>ci_table = table, ci_column = column, ci_name = name, ci_using = us, ci_options = opts\<rparr>)))))))))"

definition parse_create :: "sql_stmt parser" where
  "parse_create =
     plook (\<lambda>t _.
       if t = TTable then pseq advance parse_create_table
       else if t = TIndex then pseq advance parse_create_index
       else if t = TRole then pseq advance parse_create_role
       else if t = TFunction then pseq advance parse_create_function
       else if t = TSequence then pseq advance parse_create_sequence
       else if t = TTopic then pseq advance parse_create_topic
       else pfail (ExpectedAfterCreate t))"

definition parse_drop :: "sql_stmt parser" where
  "parse_drop =
     plook (\<lambda>t _.
       if t = TTable then
         pseq advance (pbind parse_if_exists (\<lambda>ie. pbind parse_object_name (\<lambda>table.
           preturn (SDropTable \<lparr>dt_table = table, dt_if_exists = ie\<rparr>))))
       else if t = TRole then pseq advance parse_drop_role
       else if t = TIndex then pseq advance (pseq parse_ident_string (pfail DropIndexUnsupported))
       else pfail (ExpectedAfterDrop t))"

section \<open>Sessions, cursors and channels\<close>

definition set_step :: "token list \<Rightarrow> (token list, token list) flow parser" where
  "set_step parts =
     plook (\<lambda>t _. if t = TSemicolon \<or> t = TEof then preturn (Break parts) else pseq advance (preturn (Continue (parts @ [t]))))"

definition parse_set :: "sql_stmt parser" where
  "parse_set =
     pbind parse_ident_string (\<lambda>name.
     pbind (eat TEq) (\<lambda>b.
     pseq (if b then preturn True else eat TTo)
     (pbind (ploop set_step []) (\<lambda>parts. preturn (SSetVar \<lparr>st_name = name, st_value = parts\<rparr>)))))"

definition parse_show :: "sql_stmt parser" where
  "parse_show = pbind parse_ident_string (\<lambda>name. preturn (SShow name))"

definition parse_copy :: "sql_stmt parser" where
  "parse_copy =
     pbind parse_object_name (\<lambda>table.
     pbind opt_columns (\<lambda>cols.
     pbind (eat TFrom) (\<lambda>frm.
       if frm then pseq (expect TStdin) (preturn (SCopyIn \<lparr>cp_table = table, cp_columns = cols\<rparr>))
       else pbind (eat TTo) (\<lambda>b.
         if b then pseq (expect TStdout) (preturn (SCopyOut \<lparr>cp_table = table, cp_columns = cols\<rparr>))
         else pfail ExpectedCopyTarget))))"

definition parse_declare_cursor :: "sql_stmt parser" where
  "parse_declare_cursor =
     pbind parse_ident_string (\<lambda>name. pseq (expect TCursor) (pseq (expect TFor) (pbind run_select (\<lambda>q.
     preturn (SDeclareCursor \<lparr>dc_name = name, dc_query = q\<rparr>)))))"

definition parse_fetch_stmt :: "fetch_stmt parser" where
  "parse_fetch_stmt =
     pbind (plook (\<lambda>t _.
       if t = TNext then pseq advance (preturn FcNext)
       else if t = TAll then pseq advance (preturn FcAll)
       else case t of TIntLiteral n \<Rightarrow> pseq advance (preturn (FcCount n)) | _ \<Rightarrow> preturn FcNext)) (\<lambda>count.
     pseq (eat TFrom) (pseq (eat TIn) (pbind parse_ident_string (\<lambda>cursor.
     preturn \<lparr>fs_cursor = cursor, fs_count = count\<rparr>))))"

definition parse_unlisten :: "sql_stmt parser" where
  "parse_unlisten = pbind (eat TStar) (\<lambda>b. if b then preturn (SUnlisten (str ''*'')) else pbind parse_ident_string (\<lambda>c. preturn (SUnlisten c)))"

definition parse_notify :: "sql_stmt parser" where
  "parse_notify = pbind parse_ident_string (\<lambda>c. pbind (popt TComma parse_string) (\<lambda>payload. preturn (SNotify c payload)))"

definition parse_analyze :: "sql_stmt parser" where
  "parse_analyze =
     plook (\<lambda>t _. if t = TEof \<or> t = TSemicolon then preturn (SAnalyze None) else pbind parse_object_name (\<lambda>n. preturn (SAnalyze (Some n))))"

section \<open>Graph patterns\<close>

definition parse_match_rel_bracket :: "bytes option parser" where
  "parse_match_rel_bracket =
     pseq (expect TLBracket) (pbind (popt TColon parse_ident_string) (\<lambda>rel. pseq (expect TRBracket) (preturn rel)))"

definition parse_match_node :: "bytes parser" where
  "parse_match_node = pseq (expect TLParen) (pbind parse_ident_string (\<lambda>n. pseq (expect TRParen) (preturn n)))"

definition hop_step :: "bytes list \<times> match_hop list \<Rightarrow> (bytes list \<times> match_hop list, bytes list \<times> match_hop list) flow parser" where
  "hop_step s =
     plook (\<lambda>t _.
       if t = TMinus then
         pseq advance (pbind parse_match_rel_bracket (\<lambda>rel.
         pbind (eat TArrow) (\<lambda>out. pseq (if out then preturn () else expect TMinus)
         (pbind parse_match_node (\<lambda>n.
          preturn (Continue (fst s @ [n], snd s @ [\<lparr>mh_rel_type = rel, mh_direction = (if out then DOut else DBoth)\<rparr>])))))))
       else if t = TLt then
         pseq advance (pseq (expect TMinus) (pbind parse_match_rel_bracket (\<lambda>rel.
         pseq (expect TMinus) (pbind parse_match_node (\<lambda>n.
          preturn (Continue (fst s @ [n], snd s @ [\<lparr>mh_rel_type = rel, mh_direction = DIn\<rparr>])))))))
       else preturn (Break s))"

definition parse_match_where :: "bytes list \<Rightarrow> bytes parser" where
  "parse_match_where nodes =
     pbind parse_ident_string (\<lambda>var. pseq (expect TEq) (pbind advance (\<lambda>t.
     pbind (case t of
         TStringLiteral s \<Rightarrow> preturn s
       | TIntLiteral n \<Rightarrow> preturn ((if n < 0 then str ''-'' else []) @ dec_digits (nat \<bar>n\<bar>))
       | _ \<Rightarrow> pfail (MatchWhereLiteral t)) (\<lambda>lit.
     if var = nodes ! 0 then preturn lit else pfail (MatchWhereVariable var)))))"

definition check_returns :: "bytes list \<Rightarrow> bytes list \<Rightarrow> unit parser" where
  "check_returns nodes rets =
     (case find (\<lambda>r. r \<notin> set nodes) rets of None \<Rightarrow> preturn () | Some r \<Rightarrow> pfail (MatchReturnVariable r))"

definition parse_match_limit :: "nat parser" where
  "parse_match_limit =
     pbind advance (\<lambda>t. case t of TIntLiteral n \<Rightarrow> preturn (nat (n mod 2 ^ 64)) | _ \<Rightarrow> pfail (ExpectedInt t))"

definition parse_match :: "sql_stmt parser" where
  "parse_match =
     pbind parse_match_node (\<lambda>first.
     pbind (ploop hop_step ([first], [])) (\<lambda>(nodes, hops).
     pseq (expect TOn)
     (pbind parse_ident_string (\<lambda>table.
      pseq (expect TLParen)
     (pbind parse_ident_string (\<lambda>column.
      pseq (expect TRParen)
     (pbind (popt TWhere (parse_match_where nodes)) (\<lambda>flt.
      pseq (expect TReturn)
     (pbind (comma_list parse_ident_string) (\<lambda>rets.
      pseq (check_returns nodes rets)
     (pbind (popt TLimit parse_match_limit) (\<lambda>limit.
      preturn (SMatchGraph \<lparr>ms_nodes = nodes, ms_hops = hops, ms_table = table, ms_column = column, ms_start_filter = flt,
        ms_returns = rets, ms_limit = limit\<rparr>)))))))))))))"

section \<open>Statements\<close>

definition semicolon_step :: "unit \<Rightarrow> (unit, unit) flow parser" where
  "semicolon_step u = pbind (eat TSemicolon) (\<lambda>b. preturn (if b then Continue () else Break ()))"

definition skip_semicolons :: "unit parser" where
  "skip_semicolons = ploop semicolon_step ()"

definition parse_alter :: "sql_stmt parser" where
  "parse_alter =
     plook (\<lambda>t _.
       if t = TTable then parse_alter_table
       else if t = TRole then pseq advance parse_alter_role
       else pfail (ExpectedAfterAlter t))"

text \<open>The arms of the dispatch in \<open>parse_stmt\<close>: the parser of the statement a leading keyword
  starts, after the keyword.\<close>

definition stmt_arms :: "(token \<times> sql_stmt parser) list" where
  "stmt_arms =
     [(TWith, parse_with), (TInsert, parse_insert), (TDelete, parse_delete), (TUpdate, parse_update), (TCreate, parse_create),
      (TDrop, parse_drop), (TAlter, parse_alter), (TGrant, parse_grant), (TRevoke, parse_revoke), (TSet, parse_set),
      (TShow, parse_show), (TBegin, preturn SBegin), (TCommit, preturn SCommit), (TRollback, preturn SRollback),
      (TDeclare, parse_declare_cursor), (TFetch, pbind parse_fetch_stmt (\<lambda>f. preturn (SFetch f))),
      (TMove, pbind parse_fetch_stmt (\<lambda>f. preturn (SMoveCursor f))), (TClose, pbind parse_ident_string (\<lambda>c. preturn (SCloseCursor c))),
      (TListen, pbind parse_ident_string (\<lambda>c. preturn (SListen c))), (TUnlisten, parse_unlisten), (TNotify, parse_notify),
      (TCopy, parse_copy), (TAnalyze, parse_analyze), (TMatch, parse_match)]"

definition parse_one :: "sql_stmt parser" where
  "parse_one =
     plook (\<lambda>t _.
       if t = TSelect \<or> t = TDistinct then pbind run_select (\<lambda>q. preturn (SSelect q))
       else if t = TEof then pfail EmptyStatement
       else case map_of stmt_arms t of
         Some p \<Rightarrow> pseq advance p
       | None \<Rightarrow> pfail (UnexpectedToken t))"

definition parse_stmt :: "sql_stmt parser" where
  "parse_stmt =
     pseq skip_semicolons (pbind parse_one (\<lambda>s. pseq (eat TSemicolon) (preturn s)))"

definition batch_step :: "sql_stmt list \<Rightarrow> (sql_stmt list, sql_stmt list) flow parser" where
  "batch_step stmts =
     pseq skip_semicolons (plook (\<lambda>t _.
       if t = TEof then preturn (Break stmts)
       else pbind parse_stmt (\<lambda>s. preturn (Continue (stmts @ [s])))))"

definition parse_all_stmts :: "sql_stmt list parser" where
  "parse_all_stmts = ploop batch_step []"

section \<open>Text\<close>

datatype sql_error = LexError lex_error | ParseError parse_error

definition parse_text :: "'a parser \<Rightarrow> bytes \<Rightarrow> sql_error + 'a" where
  "parse_text p src =
     (case tokenize src of
        Inl e \<Rightarrow> Inl (LexError e)
      | Inr ts \<Rightarrow> (case p ts of Inl e \<Rightarrow> Inl (ParseError e) | Inr (x, _) \<Rightarrow> Inr x))"

definition sql_parse :: "bytes \<Rightarrow> sql_error + sql_stmt" where
  "sql_parse = parse_text parse_stmt"

definition sql_parse_all :: "bytes \<Rightarrow> sql_error + sql_stmt list" where
  "sql_parse_all = parse_text parse_all_stmts"

definition parse_expr_text :: "bytes \<Rightarrow> sql_error + sql_expr" where
  "parse_expr_text = parse_text run_expr"

end
