(* ===== verification/Sql_Cache.thy ===== *)
theory Sql_Cache
  imports Sql_Stmts
begin

text \<open>
  The cache of parsed statements (\<open>sql/cache.rs\<close>), shared by all sessions: two tables from the text
  of a query to its statements, bounded by their number of entries, with eviction of the least
  recently used entry. The tables have one lock each, taken once to look up and once to store, so
  other calls may come between the two: \<open>lookup\<close> and \<open>store\<close> are the two critical sections and
  \<open>cache_step\<close> interleaves those of any calls.
\<close>

section \<open>One table\<close>

text \<open>An entry of a table: the statements and the tick of its last access.\<close>

type_synonym 'v lru = "(bytes \<times> 'v \<times> nat) list"

definition lru_touch :: "bytes \<Rightarrow> nat \<Rightarrow> 'v lru \<Rightarrow> 'v lru" where
  "lru_touch k tick es = map (\<lambda>(k', v, t). (k', v, if k' = k then tick else t)) es"

text \<open>The victim is the entry whose last access is oldest.\<close>

fun lru_victim :: "'v lru \<Rightarrow> (bytes \<times> nat) option" where
  "lru_victim [] = None"
| "lru_victim ((k, v, t) # es) =
     (case lru_victim es of Some (k', t') \<Rightarrow> if t' < t then Some (k', t') else Some (k, t) | None \<Rightarrow> Some (k, t))"

definition lru_insert :: "nat \<Rightarrow> bytes \<Rightarrow> 'v \<Rightarrow> nat \<Rightarrow> 'v lru \<Rightarrow> 'v lru" where
  "lru_insert max_entries k v tick es =
     (let es' = (k, v, tick) # filter (\<lambda>e. fst e \<noteq> k) es
      in if max_entries < length es' then
           (case lru_victim es' of Some (victim, _) \<Rightarrow> filter (\<lambda>e. fst e \<noteq> victim) es' | None \<Rightarrow> es')
         else es')"

section \<open>The cache\<close>

record statement_cache =
  sc_max_entries :: nat
  sc_entries :: "sql_stmt lru"
  sc_batch_entries :: "sql_stmt list lru"
  sc_clock :: nat
  sc_hits :: nat
  sc_misses :: nat

definition cache_new :: "nat \<Rightarrow> statement_cache" where
  "cache_new n = \<lparr>sc_max_entries = n, sc_entries = [], sc_batch_entries = [], sc_clock = 0, sc_hits = 0, sc_misses = 0\<rparr>"

definition lookup :: "bytes \<Rightarrow> statement_cache \<Rightarrow> sql_stmt option \<times> statement_cache" where
  "lookup sql c =
     (case map_of (sc_entries c) sql of
        Some (s, _) \<Rightarrow> (Some s, c\<lparr>sc_entries := lru_touch sql (sc_clock c) (sc_entries c), sc_clock := sc_clock c + 1, sc_hits := sc_hits c + 1\<rparr>)
      | None \<Rightarrow> (None, c\<lparr>sc_misses := sc_misses c + 1\<rparr>))"

definition store :: "bytes \<Rightarrow> sql_stmt \<Rightarrow> statement_cache \<Rightarrow> statement_cache" where
  "store sql s c =
     c\<lparr>sc_entries := lru_insert (sc_max_entries c) sql s (sc_clock c) (sc_entries c), sc_clock := sc_clock c + 1\<rparr>"

definition cached_parse :: "bytes \<Rightarrow> statement_cache \<Rightarrow> (sql_error + sql_stmt) \<times> statement_cache" where
  "cached_parse sql c =
     (case lookup sql c of
        (Some s, c') \<Rightarrow> (Inr s, c')
      | (None, c') \<Rightarrow> (case sql_parse sql of Inl e \<Rightarrow> (Inl e, c') | Inr s \<Rightarrow> (Inr s, store sql s c')))"

definition lookup_batch :: "bytes \<Rightarrow> statement_cache \<Rightarrow> sql_stmt list option \<times> statement_cache" where
  "lookup_batch sql c =
     (case map_of (sc_batch_entries c) sql of
        Some (s, _) \<Rightarrow>
          (Some s, c\<lparr>sc_batch_entries := lru_touch sql (sc_clock c) (sc_batch_entries c), sc_clock := sc_clock c + 1, sc_hits := sc_hits c + 1\<rparr>)
      | None \<Rightarrow> (None, c\<lparr>sc_misses := sc_misses c + 1\<rparr>))"

definition store_batch :: "bytes \<Rightarrow> sql_stmt list \<Rightarrow> statement_cache \<Rightarrow> statement_cache" where
  "store_batch sql s c =
     c\<lparr>sc_batch_entries := lru_insert (sc_max_entries c) sql s (sc_clock c) (sc_batch_entries c), sc_clock := sc_clock c + 1\<rparr>"

definition cached_parse_all :: "bytes \<Rightarrow> statement_cache \<Rightarrow> (sql_error + sql_stmt list) \<times> statement_cache" where
  "cached_parse_all sql c =
     (case lookup_batch sql c of
        (Some s, c') \<Rightarrow> (Inr s, c')
      | (None, c') \<Rightarrow> (case sql_parse_all sql of Inl e \<Rightarrow> (Inl e, c') | Inr s \<Rightarrow> (Inr s, store_batch sql s c')))"

definition statement_stats :: "statement_cache \<Rightarrow> nat \<times> nat \<times> nat" where
  "statement_stats c = (length (sc_entries c), sc_hits c, sc_misses c)"

text \<open>The critical sections of any number of calls, in any order. What a call stores is what it
  parsed.\<close>

inductive cache_step :: "statement_cache \<Rightarrow> statement_cache \<Rightarrow> bool" where
  step_lookup: "cache_step c (snd (lookup sql c))"
| step_store: "sql_parse sql = Inr s \<Longrightarrow> cache_step c (store sql s c)"
| step_lookup_batch: "cache_step c (snd (lookup_batch sql c))"
| step_store_batch: "sql_parse_all sql = Inr ss \<Longrightarrow> cache_step c (store_batch sql ss c)"

section \<open>Tables keep their bound and their contents\<close>

text \<open>A table is bounded, has each key once, remembers only what \<open>parse\<close> gives, and no entry was
  accessed in the future.\<close>

definition lru_ok :: "nat \<Rightarrow> nat \<Rightarrow> (bytes \<Rightarrow> sql_error + 'v) \<Rightarrow> 'v lru \<Rightarrow> bool" where
  "lru_ok max_entries clock parse es \<longleftrightarrow>
     length es \<le> max_entries \<and> distinct (map fst es) \<and> (\<forall>(k, v, t) \<in> set es. parse k = Inr v \<and> t < clock)"

lemma map_fst_touch [simp]: "map fst (lru_touch k t es) = map fst es"
  by (auto simp: lru_touch_def)

lemma lru_ok_touch: "lru_ok m c parse es \<Longrightarrow> lru_ok m (Suc c) parse (lru_touch k c es)"
  unfolding lru_ok_def by (auto simp: lru_touch_def o_def case_prod_unfold)

lemma lru_ok_tick: "lru_ok m c parse es \<Longrightarrow> lru_ok m (Suc c) parse es"
  unfolding lru_ok_def by fastforce

lemma lru_victim_mem: "lru_victim es = Some (k, t) \<Longrightarrow> k \<in> fst ` set es"
  by (induction es arbitrary: k t rule: lru_victim.induct) (auto split: option.splits if_splits)

lemma lru_victim_None: "lru_victim es = None \<longleftrightarrow> es = []"
  by (cases es rule: lru_victim.cases) (auto split: option.splits)

lemma length_filter_key: "distinct (map fst es) \<Longrightarrow> k \<in> fst ` set es \<Longrightarrow> Suc (length (filter (\<lambda>e. fst e \<noteq> k) es)) = length es"
  by (induction es) (auto simp: image_iff intro!: arg_cong [where f = length] filter_True)

lemma lru_ok_insert:
  assumes ok: "lru_ok m c parse es" and v: "parse k = Inr v"
  shows "lru_ok m (Suc c) parse (lru_insert m k v c es)"
proof -
  let ?es = "(k, v, c) # filter (\<lambda>e. fst e \<noteq> k) es"
  have d: "distinct (map fst ?es)" using ok by (auto simp: lru_ok_def distinct_map_filter)
  have len: "length ?es \<le> Suc m" using ok le_trans [OF length_filter_le [of "\<lambda>e. fst e \<noteq> k" es]] by (auto simp: lru_ok_def)
  have mem: "\<forall>(k, v, t) \<in> set ?es. parse k = Inr v \<and> t < c + 1" using ok v by (fastforce simp: lru_ok_def)
  show ?thesis
  proof (cases "m < length ?es")
    case True
    obtain vk vt where vict: "lru_victim ?es = Some (vk, vt)" using lru_victim_None [of ?es] by (cases "lru_victim ?es") auto
    have "Suc (length (filter (\<lambda>e. fst e \<noteq> vk) ?es)) = length ?es"
      using length_filter_key [OF d] lru_victim_mem [OF vict] by blast
    then show ?thesis
      using True vict d len mem unfolding lru_insert_def lru_ok_def Let_def
      by (auto simp: distinct_map_filter simp del: filter.simps)
  next
    case False
    then show ?thesis using d mem by (auto simp: lru_insert_def lru_ok_def Let_def simp del: filter.simps)
  qed
qed

definition cache_ok :: "statement_cache \<Rightarrow> bool" where
  "cache_ok c \<longleftrightarrow>
     lru_ok (sc_max_entries c) (sc_clock c) sql_parse (sc_entries c) \<and>
     lru_ok (sc_max_entries c) (sc_clock c) sql_parse_all (sc_batch_entries c)"

lemma cache_ok_new: "cache_ok (cache_new n)"
  by (simp add: cache_ok_def cache_new_def lru_ok_def)

lemma cache_ok_step: "cache_step c c' \<Longrightarrow> cache_ok c \<Longrightarrow> cache_ok c'"
  by (induction rule: cache_step.induct)
    (auto simp: cache_ok_def lookup_def store_def lookup_batch_def store_batch_def lru_ok_insert lru_ok_touch lru_ok_tick split: option.splits)

lemma cache_ok_reachable: "cache_step\<^sup>*\<^sup>* (cache_new n) c \<Longrightarrow> cache_ok c"
  by (induction rule: rtranclp_induct) (auto intro: cache_ok_new cache_ok_step)

lemma lru_hit: "lru_ok m c parse es \<Longrightarrow> map_of es k = Some (v, t) \<Longrightarrow> parse k = Inr v"
  by (fastforce simp: lru_ok_def dest: map_of_SomeD)

text \<open>C39: The statement cache is transparent and bounded: after any interleaving of the critical
  sections of any calls, a cached parse of a text gives what the parser gives, errors included,
  and neither table holds more than its bound.\<close>

theorem cache_transparent:
  assumes "cache_step\<^sup>*\<^sup>* (cache_new n) c"
  shows "fst (cached_parse sql c) = sql_parse sql \<and> fst (cached_parse_all sql c) = sql_parse_all sql \<and>
    length (sc_entries c) \<le> sc_max_entries c \<and> length (sc_batch_entries c) \<le> sc_max_entries c"
proof -
  have ok: "cache_ok c" using assms by (rule cache_ok_reachable)
  then show ?thesis
    using lru_hit [of _ _ sql_parse _ sql] lru_hit [of _ _ sql_parse_all _ sql]
    by (auto simp: cache_ok_def lru_ok_def cached_parse_def cached_parse_all_def lookup_def lookup_batch_def split: option.splits sum.splits)
qed

theorem cache_transparent_witness:
  "fst (cached_parse [66, 69, 71, 73, 78] (store [66, 69, 71, 73, 78] SBegin (cache_new 1))) = Inr SBegin"
proof -
  have p: "sql_parse [66, 69, 71, 73, 78] = Inr SBegin" by code_simp
  have "cache_step\<^sup>*\<^sup>* (cache_new 1) (store [66, 69, 71, 73, 78] SBegin (cache_new 1))"
    using step_store [OF p] by blast
  then show ?thesis using cache_transparent p by simp
qed

end
