(* ===== verification/Sql_Total.thy ===== *)
theory Sql_Total
  imports Sql_Stmts
begin

text \<open>
  The parser returns. A weakest precondition \<open>wp p Q ts\<close> says that \<open>p\<close> on \<open>ts\<close> does not diverge
  and that a result satisfies \<open>Q\<close>; \<open>safe k p\<close> that \<open>p\<close> returns on fewer than \<open>k\<close> tokens and leaves no
  more than it was given. Every parser of expressions and queries is safe one token above the
  parsers it calls, so the bounds that \<open>run_expr\<close>, \<open>run_select\<close> and the loops choose suffice. The
  statement parsers are safe but for \<open>CREATE TABLE\<close>, whose loop over the constraints does not end
  when the closing parenthesis is missing.
\<close>

section \<open>Weakest preconditions\<close>

definition wp :: "'a parser \<Rightarrow> ('a \<Rightarrow> token list \<Rightarrow> bool) \<Rightarrow> token list \<Rightarrow> bool" where
  "wp p Q ts \<longleftrightarrow> (case p ts of Inl e \<Rightarrow> e \<noteq> Diverges | Inr (x, ts') \<Rightarrow> Q x ts')"

definition safe :: "nat \<Rightarrow> 'a parser \<Rightarrow> bool" where
  "safe k p \<longleftrightarrow> (\<forall>ts. length ts < k \<longrightarrow> wp p (\<lambda>_ ts'. length ts' \<le> length ts) ts)"

definition safe_step :: "nat \<Rightarrow> ('s \<Rightarrow> ('s, 'r) flow parser) \<Rightarrow> bool" where
  "safe_step k step \<longleftrightarrow>
     (\<forall>s ts. length ts < k \<longrightarrow>
        wp (step s) (\<lambda>r ts'. case r of Continue _ \<Rightarrow> length ts' < length ts | Break _ \<Rightarrow> length ts' \<le> length ts) ts)"

named_theorems wp_simps
named_theorems safe_intros

lemma wp_basic [wp_simps]:
  "wp (preturn x) Q ts = Q x ts"
  "wp (pfail e) Q ts = (e \<noteq> Diverges)"
  "wp (pbind p f) Q ts = wp p (\<lambda>x. wp (f x) Q) ts"
  "wp (pseq p q) Q ts = wp p (\<lambda>_. wp q Q) ts"
  "wp (plook g) Q ts = wp (g (peek ts) (peek2 ts)) Q ts"
  "wp advance R ts = R (peek ts) (tl ts)"
  "wp (eat t) S ts = (if peek ts = t then S True (tl ts) else S False ts)"
  "wp (expect t) U ts = (peek ts = t \<longrightarrow> U () (tl ts))"
  "wp parse_ident_string V ts = (\<forall>s. peek ts = TIdent s \<longrightarrow> V s (tl ts))"
  "wp parse_string V ts = (\<forall>s. peek ts = TStringLiteral s \<longrightarrow> V s (tl ts))"
  by (auto simp: wp_def preturn_def pfail_def pbind_def pseq_def plook_def advance_def eat_def expect_def parse_ident_string_def
      parse_string_def split: sum.splits prod.splits token.splits)

lemma wp_if [wp_simps]: "wp (if b then p else q) Q ts = (if b then wp p Q ts else wp q Q ts)"
  by simp

lemma wp_mono: "wp p Q ts \<Longrightarrow> (\<And>x ts'. Q x ts' \<Longrightarrow> Q' x ts') \<Longrightarrow> wp p Q' ts"
  by (auto simp: wp_def split: sum.splits)

lemma safe_wp: "safe k p \<Longrightarrow> length ts < k \<Longrightarrow> (\<And>x ts'. length ts' \<le> length ts \<Longrightarrow> Q x ts') \<Longrightarrow> wp p Q ts"
  by (auto simp: safe_def intro: wp_mono)

lemma safe_le: "safe k p \<Longrightarrow> j \<le> k \<Longrightarrow> safe j p"
  by (simp add: safe_def)

lemma safeI: "(\<And>ts. length ts < k \<Longrightarrow> wp p (\<lambda>_ ts'. length ts' \<le> length ts) ts) \<Longrightarrow> safe k p"
  by (simp add: safe_def)

text \<open>Any token but the end of the input is there to be read.\<close>

lemma peek_there:
  assumes "peek ts = t" "t \<noteq> TEof"
  obtains r where "ts = t # r"
  using assms by (cases ts) (auto simp: peek_def)

lemma there_simps [wp_simps]:
  "peek [] = TEof" "peek (t # ts) = t" "peek2 ts = peek (tl ts)"
  by (auto simp: peek_def peek2_def)

lemma wp_ploop_n:
  assumes "safe_step k step" "length ts < k" "length ts < n"
  shows "wp (ploop_n n step s) (\<lambda>_ ts'. length ts' \<le> length ts) ts"
  using assms(2,3)
proof (induction n arbitrary: s ts)
  case (Suc n)
  have st: "wp (step s) (\<lambda>r ts'. case r of Continue _ \<Rightarrow> length ts' < length ts | Break _ \<Rightarrow> length ts' \<le> length ts) ts"
    using assms(1) Suc.prems by (simp add: safe_step_def)
  show ?case
  proof (cases "step s ts")
    case (Inr r)
    obtain f u where r: "r = (f, u)" by (cases r)
    show ?thesis
    proof (cases f)
      case (Continue s')
      then have "length u < length ts" using st Inr r by (simp add: wp_def)
      then show ?thesis
        using Suc.IH [of u s'] Suc.prems Inr r Continue by (auto simp: wp_def split: sum.splits)
    qed (use st Inr r in \<open>simp add: wp_def\<close>)
  qed (use st in \<open>simp add: wp_def\<close>)
qed simp

lemma safe_ploop [safe_intros]: "safe_step k step \<Longrightarrow> safe k (ploop step s)"
  using wp_ploop_n [of k step _ "Suc _" s] by (auto simp: safe_def ploop_def wp_def)

lemma safe_stepI:
  "(\<And>s ts. length ts < k \<Longrightarrow>
      wp (step s) (\<lambda>r ts'. case r of Continue _ \<Rightarrow> length ts' < length ts | Break _ \<Rightarrow> length ts' \<le> length ts) ts)
   \<Longrightarrow> safe_step k step"
  by (simp add: safe_step_def)

lemma safe_names [safe_intros]:
  "safe k parse_ident_string" "safe k parse_string" "safe k advance" "safe k (eat t)" "safe k (expect t)"
  by (auto simp: safe_def wp_simps)

lemma safe_parse_alias [safe_intros]: "safe k parse_alias"
  by (auto simp: safe_def parse_alias_def wp_simps)

lemma safe_popt [safe_intros]: "safe k p \<Longrightarrow> safe k (popt t p)"
  by (auto simp: safe_def popt_def wp_simps intro!: safe_wp [of k p])

lemma safe_comma_step: "safe k p \<Longrightarrow> safe_step k (comma_step p)"
proof (rule safe_stepI)
  fix s :: "'a list" and ts :: "token list"
  assume "safe k p" "length ts < k"
  then show "wp (comma_step p s) (\<lambda>r ts'. case r of Continue _ \<Rightarrow> length ts' < length ts | Break _ \<Rightarrow> length ts' \<le> length ts) ts"
    by (auto simp: comma_step_def wp_simps elim!: peek_there intro!: safe_wp [of k p])
qed

lemma safe_comma_list [safe_intros]: "safe k p \<Longrightarrow> safe k (comma_list p)"
  using safe_ploop [OF safe_comma_step, of k p]
  by (auto simp: safe_def comma_list_def wp_simps intro!: safe_wp [of k p] safe_wp [of k "ploop (comma_step p) _"])

section \<open>Expressions\<close>

definition safe_rec :: "nat \<Rightarrow> rec_parsers \<Rightarrow> bool" where
  "safe_rec k P \<longleftrightarrow> (\<forall>b. safe k (pr_expr P b)) \<and> safe k (pr_unary P) \<and> safe k (pr_select P)"

lemma safe_recD [safe_intros]: "safe_rec k P \<Longrightarrow> safe k (pr_expr P b)" "safe_rec k P \<Longrightarrow> safe k (pr_unary P)" "safe_rec k P \<Longrightarrow> safe k (pr_select P)"
  by (auto simp: safe_rec_def)

lemmas rec_wp = safe_recD [THEN safe_wp]

lemma safe_bind: "safe k p \<Longrightarrow> (\<And>x. safe k (f x)) \<Longrightarrow> safe k (pbind p f)"
  by (rule safeI) (auto simp: wp_simps intro!: safe_wp [of k p] safe_wp [of k "f _"])

lemma safe_pseq [safe_intros]: "safe k p \<Longrightarrow> safe k q \<Longrightarrow> safe k (pseq p q)"
  unfolding pseq_def by (rule safe_bind)

lemma safe_structure [safe_intros]:
  "safe k (preturn x)" "e \<noteq> Diverges \<Longrightarrow> safe k (pfail e)"
  "(\<And>t u. safe k (g t u)) \<Longrightarrow> safe k (plook g)"
  "(b \<Longrightarrow> safe k p) \<Longrightarrow> (\<not> b \<Longrightarrow> safe k q) \<Longrightarrow> safe k (if b then p else q)"
  by (auto simp: safe_def wp_simps)

lemma safe_case [safe_intros]:
  "safe k p \<Longrightarrow> (\<And>x. safe k (q x)) \<Longrightarrow> safe k (case ox of None \<Rightarrow> p | Some x \<Rightarrow> q x)"
  "(\<And>x y. safe k (f x y)) \<Longrightarrow> safe k (case xy of (x, y) \<Rightarrow> f x y)"
  by (auto split: option.split prod.split)

lemma safe_parse_order_by_list [safe_intros]: "safe_rec k P \<Longrightarrow> safe k (parse_order_by_list P)"
  unfolding parse_order_by_list_def parse_order_by_def by (auto intro!: safe_intros safe_bind)

lemma safe_parse_expr_list [safe_intros]: "safe_rec k P \<Longrightarrow> safe k (parse_expr_list P)"
  unfolding parse_expr_list_def by (auto intro!: safe_intros)

lemma safe_opt_order_by [safe_intros]: "safe_rec k P \<Longrightarrow> safe k (opt_order_by P)"
  unfolding opt_order_by_def by (auto intro!: safe_intros)

lemma safe_parse_frame_bound [safe_intros]: "safe_rec k P \<Longrightarrow> safe k (parse_frame_bound P)"
  unfolding parse_frame_bound_def by (auto intro!: safe_intros safe_bind)

lemma safe_parse_window_frame [safe_intros]: "safe_rec k P \<Longrightarrow> safe k (parse_window_frame P)"
  unfolding parse_window_frame_def by (auto intro!: safe_intros safe_bind)

lemma safe_parse_over_clause [safe_intros]: "safe_rec k P \<Longrightarrow> safe k (parse_over_clause P f args)"
  unfolding parse_over_clause_def by (auto intro!: safe_intros safe_bind)

lemma safe_parse_call [safe_intros]: "safe_rec k P \<Longrightarrow> safe k (parse_call P name)"
  unfolding parse_call_def by (auto intro!: safe_intros safe_bind)

lemma safe_parse_name_expr [safe_intros]: "safe_rec k P \<Longrightarrow> safe k (parse_name_expr P name)"
  unfolding parse_name_expr_def by (auto intro!: safe_intros safe_bind)

lemma safe_parse_case [safe_intros]: "safe_rec k P \<Longrightarrow> safe k (parse_case P)"
proof -
  assume P: "safe_rec k P"
  then have "safe_step k (case_step P)"
    by (intro safe_stepI) (auto simp: case_step_def wp_simps elim!: peek_there intro!: rec_wp)
  with P show ?thesis unfolding parse_case_def by (auto intro!: safe_intros safe_bind)
qed

lemma safe_parse_float_array_literal [safe_intros]: "safe k parse_float_array_literal"
proof -
  have "safe_step k float_item"
    by (intro safe_stepI) (auto simp: float_item_def wp_simps elim!: peek_there split: token.splits)
  then show ?thesis unfolding parse_float_array_literal_def by (auto intro!: safe_intros safe_bind)
qed

lemma safe_parse_exists: "safe_rec k P \<Longrightarrow> safe (Suc k) (parse_exists P neg)"
  by (rule safeI) (auto simp: parse_exists_def wp_simps elim!: peek_there intro!: rec_wp)

lemma safe_parse_atom: "safe_rec k P \<Longrightarrow> safe (Suc k) (parse_atom P)"
  by (rule safeI) (auto simp: parse_atom_def wp_simps elim!: peek_there split: token.split
      intro!: rec_wp safe_wp [OF safe_parse_name_expr] safe_wp [OF safe_parse_case]
        safe_wp [OF safe_parse_float_array_literal [of "Suc k"]])

lemma safe_parse_postfix: "safe_rec k P \<Longrightarrow> safe (Suc k) (parse_postfix P)"
proof -
  have "safe_step (Suc k) postfix_step"
    by (intro safe_stepI) (auto simp: postfix_step_def wp_simps elim!: peek_there)
  then show "safe_rec k P \<Longrightarrow> safe (Suc k) (parse_postfix P)"
    unfolding parse_postfix_def by (auto intro!: safe_intros safe_bind safe_parse_atom)
qed

lemma safe_parse_unary: "safe_rec k P \<Longrightarrow> safe (Suc k) (parse_unary P)"
  by (rule safeI) (auto simp: parse_unary_def wp_simps elim!: peek_there
      intro!: rec_wp safe_wp [OF safe_parse_exists] safe_wp [OF safe_parse_postfix])

text \<open>The parsers of one infix operator read at least one token.\<close>

definition bites :: "nat \<Rightarrow> 'a parser \<Rightarrow> bool" where
  "bites k p \<longleftrightarrow> (\<forall>t r. length r < k \<longrightarrow> wp p (\<lambda>_ ts'. length ts' \<le> length r) (t # r))"

lemma bites_advance: "safe k q \<Longrightarrow> bites k (pseq advance q)"
  by (auto simp: bites_def wp_simps intro!: safe_wp [of k q])

lemma safe_skip_qualifier [safe_intros]: "safe k skip_qualifier"
  unfolding skip_qualifier_def by (auto intro!: safe_intros)

lemma bites_infix:
  assumes P: "safe_rec k P"
  shows "bites k (parse_is lhs)" "bites k (parse_between P b lhs)" "bites k (parse_like P b lhs)" "bites k (parse_in P lhs)"
    "bites k (parse_collate lhs)" "bites k (parse_operator P lhs)"
    "bites k (pseq advance (pbind (pr_expr P b) (\<lambda>rhs. preturn (Continue (f rhs)))))"
  subgoal unfolding parse_is_def by (auto intro!: bites_advance safe_intros safe_bind)
  subgoal using P by (auto simp: bites_def parse_between_def wp_simps elim!: peek_there intro!: rec_wp)
  subgoal using P by (auto simp: bites_def parse_like_def wp_simps elim!: peek_there intro!: rec_wp)
  subgoal using P by (auto simp: bites_def parse_in_def wp_simps elim!: peek_there intro!: rec_wp safe_wp [OF safe_parse_expr_list])
  subgoal unfolding parse_collate_def by (auto intro!: bites_advance safe_intros)
  subgoal using P unfolding parse_operator_def by (intro bites_advance safe_intros safe_bind) auto
  subgoal using P by (auto intro!: bites_advance safe_intros safe_bind)
  done

lemma bites_wp:
  assumes "bites k p" "length (t # r) < Suc k"
  shows "wp p (\<lambda>f ts'. case f of Continue _ \<Rightarrow> length ts' < length (t # r) | Break _ \<Rightarrow> length ts' \<le> length (t # r)) (t # r)"
proof -
  have "wp p (\<lambda>_ ts'. length ts' \<le> length r) (t # r)" using assms by (simp add: bites_def)
  then show ?thesis by (rule wp_mono) (simp split: flow.split)
qed

lemma safe_infix_step: "safe_rec k P \<Longrightarrow> safe_step (Suc k) (infix_step P b)"
proof (rule safe_stepI)
  fix lhs and ts :: "token list"
  assume P: "safe_rec k P" and ts: "length ts < Suc k"
  show "wp (infix_step P b lhs) (\<lambda>r ts'. case r of Continue _ \<Rightarrow> length ts' < length ts | Break _ \<Rightarrow> length ts' \<le> length ts) ts"
  proof (cases ts)
    case Nil
    then show ?thesis by (simp add: infix_step_def wp_simps infix_bp_def infix_table_def)
  next
    case (Cons t r)
    then show ?thesis
      using ts by (auto simp: infix_step_def wp_basic(1,5) there_simps split: option.split
        intro!: bites_infix [OF P, THEN bites_wp])
  qed
qed

lemma safe_parse_expr: "safe_rec k P \<Longrightarrow> safe (Suc k) (parse_expr P b)"
  unfolding parse_expr_def by (auto intro!: safe_bind safe_parse_unary safe_ploop safe_infix_step)

section \<open>Queries\<close>

lemma safe_parse_projection_list [safe_intros]: "safe_rec k P \<Longrightarrow> safe k (parse_projection_list P)"
  unfolding parse_projection_list_def parse_projection_def by (auto intro!: safe_intros safe_bind)

lemma safe_parse_table_ref [safe_intros]: "safe_rec k P \<Longrightarrow> safe k (parse_table_ref P)"
  unfolding parse_table_ref_def by (auto intro!: safe_intros safe_bind)

lemma safe_join_step: "safe_rec k P \<Longrightarrow> safe_step k (join_step P)"
  by (intro safe_stepI) (auto simp: join_step_def parse_join_type_def wp_simps elim!: peek_there
      intro!: safe_wp [OF safe_parse_table_ref] safe_wp [OF safe_popt, OF safe_recD(1)])

lemma safe_parse_table_with_joins [safe_intros]: "safe_rec k P \<Longrightarrow> safe k (parse_table_with_joins P)"
  unfolding parse_table_with_joins_def by (auto intro!: safe_intros safe_bind safe_join_step)

lemma safe_parse_group_by [safe_intros]: "safe_rec k P \<Longrightarrow> safe k (parse_group_by P)"
  unfolding parse_group_by_def by (auto intro!: safe_intros)

lemma safe_parse_union [safe_intros]: "safe_rec k P \<Longrightarrow> safe k (parse_union P)"
  unfolding parse_union_def by (auto intro!: safe_intros safe_bind)

text \<open>A query starts with its keyword, so it reads at least that.\<close>

lemma select_body: "safe_rec k P \<Longrightarrow> length ts < Suc k \<Longrightarrow> wp (parse_select P) (\<lambda>_ ts'. length ts' < length ts) ts"
proof -
  have head: "wp (pseq (expect TSelect) q) (\<lambda>_ ts'. length ts' < length ts) ts" if "safe k q" "length ts < Suc k" for q :: "select_stmt parser"
    using that by (auto simp: wp_simps elim!: peek_there intro!: safe_wp [OF that(1)])
  show "safe_rec k P \<Longrightarrow> length ts < Suc k \<Longrightarrow> ?thesis"
    unfolding parse_select_def by (rule head) (auto intro!: safe_intros safe_bind)
qed

lemma safe_select_body: "safe_rec k P \<Longrightarrow> safe (Suc k) (parse_select P)"
  by (auto intro!: safeI wp_mono [OF select_body])

section \<open>The bounds suffice\<close>

definition rec_n :: "nat \<Rightarrow> rec_parsers" where
  "rec_n n = \<lparr>pr_expr = expr_n n, pr_unary = unary_n n, pr_select = select_n n\<rparr>"

lemma rec_n_Suc: "expr_n (Suc n) b = parse_expr (rec_n n) b" "unary_n (Suc n) = parse_unary (rec_n n)" "select_n (Suc n) = parse_select (rec_n n)"
  by (auto simp: rec_n_def fun_eq_iff)

lemma safe_rec_n: "safe_rec n (rec_n n)"
proof (induction n)
  case 0
  show ?case by (simp add: safe_rec_def safe_def)
next
  case (Suc n)
  then show ?case
    by (simp add: safe_rec_def [of "Suc n"] rec_n_def [of "Suc n"] rec_n_Suc safe_parse_expr safe_parse_unary safe_select_body
      del: expr_n.simps unary_n.simps select_n.simps)
qed

lemma safe_run [safe_intros]: "safe k run_expr" "safe k run_select"
proof -
  have "safe n (expr_n n b)" "safe n (select_n n)" for n b
    using safe_rec_n [of n] by (simp_all add: safe_rec_def rec_n_def)
  then show "safe k run_expr" "safe k run_select"
    unfolding safe_def wp_def run_expr_def run_select_def by (meson lessI)+
qed

lemma run_select_reads: "wp run_select (\<lambda>_ ts'. length ts' < length ts) ts"
  using select_body [OF safe_rec_n, of ts "length ts"]
  by (simp add: wp_def run_select_def rec_n_Suc del: select_n.simps)

section \<open>Statements\<close>

lemmas leaf_wp = safe_run [THEN safe_wp]

lemma safe_shared [safe_intros]:
  "safe k parse_object_name" "safe k parse_paren_ident_list" "safe k opt_columns" "safe k parse_if_not_exists" "safe k parse_if_exists"
  "safe k opt_with_options" "safe k parse_signed_int" "safe k parse_type_name" "safe k parse_row" "safe k (parse_ctes b)"
  unfolding parse_object_name_def parse_paren_ident_list_def opt_columns_def parse_if_not_exists_def parse_if_exists_def
    opt_with_options_def parse_kv_option_def parse_signed_int_def parse_type_name_def parse_row_def parse_ctes_def parse_cte_def
  by (auto intro!: safe_intros safe_bind split: token.split)

text \<open>The step of a loop that chooses by the next token, with an arm for each keyword that
  continues the loop.\<close>

definition breaks :: "('s, 'r) flow parser \<Rightarrow> bool" where
  "breaks p \<longleftrightarrow> (\<exists>x. p = preturn (Break x))"

definition arm :: "nat \<Rightarrow> ('s, 'r) flow parser \<Rightarrow> bool" where
  "arm k p \<longleftrightarrow> bites k p \<or> breaks p"

named_theorems arm_intros

lemma breaks_Break [simp]: "breaks (preturn (Break x))"
  by (auto simp: breaks_def)

lemma arm_rules [arm_intros]:
  "safe k q \<Longrightarrow> arm k (pseq advance q)" "arm k (preturn (Break x))"
  "(b \<Longrightarrow> arm k p) \<Longrightarrow> (\<not> b \<Longrightarrow> arm k q) \<Longrightarrow> arm k (if b then p else q)"
  by (auto simp: arm_def bites_advance)

lemma safe_step_look:
  assumes "\<And>s t u. t \<noteq> TEof \<Longrightarrow> arm k (g s t u)" and "\<And>s u. breaks (g s TEof u)"
  shows "safe_step (Suc k) (\<lambda>s. plook (g s))"
proof (rule safe_stepI)
  fix s and ts :: "token list"
  assume k: "length ts < Suc k"
  have "(\<exists>t r. ts = t # r \<and> bites k (g s (peek ts) (peek2 ts))) \<or> breaks (g s (peek ts) (peek2 ts))"
  proof (cases "peek ts = TEof")
    case False
    then obtain t r where ts: "ts = t # r" "t \<noteq> TEof" by (cases ts) (auto simp: peek_def)
    then show ?thesis using assms(1) [of t s "peek2 ts"] by (auto simp: there_simps arm_def)
  qed (use assms(2) in simp)
  then show "wp (plook (g s)) (\<lambda>r ts'. case r of Continue _ \<Rightarrow> length ts' < length ts | Break _ \<Rightarrow> length ts' \<le> length ts) ts"
    using k by (auto simp: wp_simps breaks_def intro!: bites_wp)
qed

lemma safe_look [safe_intros]:
  assumes "\<And>s t u. t \<noteq> TEof \<Longrightarrow> arm (k - 1) (g s t u)" and "\<And>s u. breaks (g s TEof u)"
  shows "safe_step k (\<lambda>s. plook (g s))"
proof (cases k)
  case 0
  then show ?thesis by (simp add: safe_step_def)
next
  case (Suc j)
  then show ?thesis using safe_step_look [of j g] assms by simp
qed

lemma safe_row_step [safe_intros]: "safe_step k row_step"
  unfolding row_step_def [abs_def] by (auto intro!: arm_intros safe_intros safe_bind)

lemma safe_skip_referential_actions [safe_intros]: "safe k skip_referential_actions"
  unfolding skip_referential_actions_def skip_action_step_def [abs_def] by (auto intro!: arm_intros safe_intros safe_bind)

lemma safe_parse_references [safe_intros]: "safe k parse_references"
  unfolding parse_references_def by (auto intro!: safe_intros safe_bind)

lemma safe_column_steps [safe_intros]: "safe_step k column_step" "safe_step k add_column_step"
  unfolding column_step_def [abs_def] add_column_step_def [abs_def] by (auto intro!: arm_intros safe_intros safe_bind)

lemma safe_role_steps [safe_intros]: "safe_step k create_role_step" "safe_step k alter_role_step"
  unfolding create_role_step_def [abs_def] alter_role_step_def [abs_def] by (auto intro!: arm_intros safe_intros safe_bind)

lemma safe_match_parts [safe_intros]: "safe k parse_match_rel_bracket" "safe k parse_match_node"
  unfolding parse_match_rel_bracket_def parse_match_node_def by (auto intro!: safe_intros safe_bind)

lemma safe_other_steps [safe_intros]: "safe_step k sequence_step" "safe_step k set_step" "safe_step k hop_step"
  unfolding sequence_step_def [abs_def] set_step_def [abs_def] hop_step_def [abs_def] by (auto intro!: arm_intros safe_intros safe_bind)

lemma safe_item_steps [safe_intros]: "safe_step k assignment_step" "safe_step k argument_step" "safe_step k semicolon_step"
  subgoal by (intro safe_stepI) (auto simp: assignment_step_def wp_simps elim!: peek_there intro!: leaf_wp)
  subgoal by (intro safe_stepI) (auto simp: argument_step_def parse_type_name_def wp_simps elim!: peek_there)
  subgoal by (intro safe_stepI) (auto simp: semicolon_step_def wp_simps elim!: peek_there)
  done

lemma safe_rows [safe_intros]: "safe k parse_with" "safe k parse_insert" "safe k parse_delete" "safe k parse_update"
  unfolding parse_with_def parse_insert_def parse_delete_def parse_update_def by (auto intro!: safe_intros safe_bind)

lemma safe_alter_table [safe_intros]: "safe k parse_alter_table"
  unfolding parse_alter_table_def parse_alter_action_def parse_column_action_def by (auto intro!: safe_intros safe_bind)

lemma safe_roles [safe_intros]: "safe k parse_create_role" "safe k parse_alter_role" "safe k parse_drop_role"
  unfolding parse_create_role_def parse_alter_role_def parse_drop_role_def by (auto intro!: safe_intros safe_bind)

lemma safe_grants [safe_intros]: "safe k parse_grant" "safe k parse_revoke"
  unfolding parse_grant_def parse_revoke_def parse_grant_or_revoke_head_def parse_privilege_list_def parse_one_privilege_def
    parse_role_name_list_def
  by (auto intro!: safe_intros safe_bind split: prod.split)

lemma safe_objects [safe_intros]: "safe k parse_create_function" "safe k parse_create_sequence" "safe k parse_create_topic"
  "safe k parse_create_index" "safe k parse_drop"
  unfolding parse_create_function_def parse_create_sequence_def parse_create_topic_def parse_create_index_def parse_drop_def
  by (auto intro!: safe_intros safe_bind)

lemma safe_sessions [safe_intros]: "safe k parse_set" "safe k parse_show" "safe k parse_copy" "safe k parse_declare_cursor"
  "safe k parse_fetch_stmt" "safe k parse_unlisten" "safe k parse_notify" "safe k parse_analyze"
  unfolding parse_set_def parse_show_def parse_copy_def parse_declare_cursor_def parse_fetch_stmt_def parse_unlisten_def
    parse_notify_def parse_analyze_def
  by (auto intro!: safe_intros safe_bind split: token.split)

lemma safe_parse_match [safe_intros]: "safe k parse_match"
  unfolding parse_match_def parse_match_where_def check_returns_def parse_match_limit_def
  by (auto intro!: safe_intros safe_bind split: token.split)

text \<open>The statements that create a table are told from the others by their first two keywords.\<close>

definition creates_table :: "token list \<Rightarrow> bool" where
  "creates_table ts \<longleftrightarrow> (let us = dropWhile (\<lambda>t. t = TSemicolon) ts in peek us = TCreate \<and> peek2 us = TTable)"

lemma ploop_n_semicolons: "length ts < n \<Longrightarrow> ploop_n n semicolon_step () ts = Inr ((), dropWhile (\<lambda>t. t = TSemicolon) ts)"
proof (induction n arbitrary: ts)
  case (Suc n)
  then show ?case
    by (cases ts) (auto simp: semicolon_step_def pbind_def eat_def preturn_def peek_def)
qed simp

lemma skip_semicolons_eq: "skip_semicolons ts = Inr ((), dropWhile (\<lambda>t. t = TSemicolon) ts)"
  using ploop_n_semicolons [of ts "Suc (length ts)"] by (simp add: skip_semicolons_def ploop_def del: ploop_n.simps)

lemma wp_parse_create:
  assumes "peek ts \<noteq> TTable" shows "wp parse_create (\<lambda>_ ts'. length ts' \<le> length ts) ts"
  using assms unfolding parse_create_def wp_basic
  by (auto simp: wp_basic safe_objects safe_roles intro!: safe_wp [of "Suc (length ts)"])

lemma safe_arms:
  assumes "map_of stmt_arms t = Some p" "t \<noteq> TCreate" shows "safe k p"
proof -
  have "(t, p) \<in> set stmt_arms" using assms(1) by (rule map_of_SomeD)
  then show ?thesis
    using assms(2) by (auto simp: stmt_arms_def parse_alter_def intro!: safe_intros safe_bind)
qed

lemma wp_parse_one:
  assumes "\<not> (peek ts = TCreate \<and> peek2 ts = TTable)" shows "wp parse_one (\<lambda>_ ts'. length ts' < length ts) ts"
proof (cases ts)
  case Nil
  then show ?thesis by (simp add: parse_one_def wp_basic there_simps)
next
  case (Cons t r)
  have r: "wp p (\<lambda>_ ts'. length ts' < length ts) r" if "map_of stmt_arms t = Some p" for p
  proof (cases "t = TCreate")
    case True
    then have "p = parse_create" using that by (simp add: stmt_arms_def)
    then show ?thesis using wp_mono [OF wp_parse_create [of r]] assms True Cons by (auto simp: there_simps)
  next
    case False
    show ?thesis by (rule safe_wp [OF safe_arms [OF that False] lessI]) (simp add: Cons)
  qed
  show ?thesis
    using r Cons by (auto simp: parse_one_def wp_basic there_simps split: option.split intro: wp_mono [OF run_select_reads])
qed

text \<open>C25: The parser returns on every statement that does not start with \<open>CREATE TABLE\<close>: it
  neither exceeds a bound on its recursion nor loops, and a parsed statement has taken at least
  one token, so a batch of statements comes to its end.\<close>

theorem parse_stmt_returns:
  assumes "\<not> creates_table ts"
  shows "case parse_stmt ts of Inl e \<Rightarrow> e \<noteq> Diverges | Inr (s, rest) \<Rightarrow> length rest < length ts"
proof -
  let ?us = "dropWhile (\<lambda>t. t = TSemicolon) ts"
  have "wp parse_one (\<lambda>_ ts'. length ts' < length ?us) ?us"
    using assms by (intro wp_parse_one) (auto simp: creates_table_def Let_def)
  then show ?thesis
    using length_dropWhile_le [of "\<lambda>t. t = TSemicolon" ts]
    by (auto simp: wp_def parse_stmt_def pseq_def pbind_def skip_semicolons_eq eat_def preturn_def split: sum.splits prod.splits)
qed

theorem parse_stmt_returns_witness:
  "\<not> creates_table [TSemicolon, TSelect, TStar, TFrom, TIdent [116]] \<and>
   (case parse_stmt [TSemicolon, TSelect, TStar, TFrom, TIdent [116]] of Inl e \<Rightarrow> e \<noteq> Diverges | Inr (s, rest) \<Rightarrow> length rest < 5)"
  using parse_stmt_returns [of "[TSemicolon, TSelect, TStar, TFrom, TIdent [116]]"]
  by (simp add: creates_table_def Let_def there_simps split: sum.splits prod.splits)

section \<open>Unclosed tables\<close>

text \<open>The loop over the constraints skips every token it does not know, the end of the input too.\<close>

definition plain_token :: "token \<Rightarrow> bool" where
  "plain_token t \<longleftrightarrow> t \<notin> {TRParen, TPrimary, TUnique, TForeign}"

lemma skip_group_set: "set (skip_group d ts) \<subseteq> set ts"
  by (induction d ts rule: skip_group.induct) auto

lemma constraint_step_plain:
  assumes "\<forall>t \<in> set ts. plain_token t"
  obtains ts' where "constraint_step s ts = Inr (Continue s, ts')" "\<forall>t \<in> set ts'. plain_token t"
proof -
  have "\<exists>ts'. constraint_step s ts = Inr (Continue s, ts') \<and> set ts' \<subseteq> set ts"
  proof (cases ts)
    case Nil
    then show ?thesis
      by (auto simp: constraint_step_def skip_other_def pbind_def pseq_def eat_def preturn_def plook_def advance_def there_simps)
  next
    case (Cons t r)
    with assms have "plain_token t" by simp
    moreover have "set (skip_group (Suc 0) (tl r)) \<subseteq> set r" using skip_group_set [of "Suc 0" "tl r"] by (cases r) auto
    ultimately show ?thesis using Cons
      by (auto simp: plain_token_def constraint_step_def skip_other_def pbind_def pseq_def eat_def preturn_def plook_def advance_def there_simps)
  qed
  with assms that show ?thesis by blast
qed

lemma constraint_loop_diverges:
  assumes "\<forall>t \<in> set ts. plain_token t" shows "pwhile constraint_step s ts = Inl Diverges"
proof -
  let ?P = "\<lambda>st :: parse_error + (table_parts, table_parts) flow \<times> token list. \<exists>us. st = Inr (Continue s, us) \<and> (\<forall>t \<in> set us. plain_token t)"
  have step: "?P (loop_step constraint_step st)" if P: "?P st" for st
  proof -
    obtain us where us: "st = Inr (Continue s, us)" "\<forall>t \<in> set us. plain_token t" using P by blast
    obtain ts' where "constraint_step s us = Inr (Continue s, ts')" "\<forall>t \<in> set ts'. plain_token t"
      using constraint_step_plain [OF us(2)] by blast
    then show ?thesis using us by (auto simp: loop_step_def)
  qed
  have "?P ((loop_step constraint_step ^^ k) (Inr (Continue s, ts)))" for k
  proof (induction k)
    case 0
    show ?case using assms by auto
  next
    case (Suc k)
    then show ?case using step by simp
  qed
  then have "looping ((loop_step constraint_step ^^ k) (Inr (Continue s, ts)))" for k
    by (metis (no_types, lifting) looping_def flow.simps(5) sum.simps(6) case_prod_conv)
  then have "while_option looping (loop_step constraint_step) (Inr (Continue s, ts)) = None"
    by (simp add: while_option_def)
  then show ?thesis by (simp add: pwhile_def)
qed

text \<open>C38: \<open>CREATE TABLE t (a int\<close> with no closing parenthesis after it is not rejected: if
  the tokens after the type, if any, are no closing parenthesis, \<open>PRIMARY\<close>, \<open>UNIQUE\<close> or \<open>FOREIGN\<close> and do not
  begin with a comma or another constraint of the column, the parser does not return.\<close>

theorem unclosed_table_hangs:
  assumes "\<forall>t \<in> set rest. plain_token t" "peek rest \<notin> {TNot, TNull, TDefault, TReferences, TComma}"
  shows "parse_stmt ([TCreate, TTable, TIdent table, TLParen, TIdent col, TIdent ty] @ rest) = Inl Diverges"
proof -
  have plain: "peek rest \<notin> {TPrimary, TUnique}"
    using assms(1) by (cases rest) (auto simp: plain_token_def there_simps)
  have "column_step c rest = Inr (Break c, rest)" for c
    using assms(2) plain by (auto simp: column_step_def plook_def preturn_def)
  then have "columns_step [] (TIdent col # TIdent ty # rest) = Inr (Break [new_column col ty], rest)"
    using assms(2) by (simp add: columns_step_def parse_column_def plook_def pbind_def parse_ident_string_def there_simps ploop_def eat_def preturn_def)
  then have "parse_create_table (TIdent table # TLParen # TIdent col # TIdent ty # rest) = Inl Diverges"
    using constraint_loop_diverges [OF assms(1)]
    by (simp add: parse_create_table_def parse_if_not_exists_def parse_object_name_def plook_def pbind_def pseq_def preturn_def
        parse_ident_string_def there_simps expect_def eat_def ploop_def)
  then show ?thesis
    by (simp add: parse_stmt_def parse_one_def parse_create_def stmt_arms_def skip_semicolons_eq pbind_def pseq_def plook_def advance_def there_simps)
qed

theorem unclosed_table_hangs_witness:
  "parse_stmt [TCreate, TTable, TIdent [116], TLParen, TIdent [97], TIdent [105, 110, 116], TEof] = Inl Diverges"
  using unclosed_table_hangs [of "[TEof]" "[116]" "[97]" "[105, 110, 116]"] by (simp add: plain_token_def there_simps)

end
