(* ===== verification/Sql_Print.thy ===== *)
theory Sql_Print
  imports Sql_Total
begin

text \<open>
  A printer for expressions and the proof that the parser inverts it. The printer is a reference
  definition of the grammar of expressions: it knows the binding powers of the operators and puts
  parentheses only where they are needed, so that \<open>expr_prints_back\<close> is the statement that the
  precedence climbing of \<open>parse_expr\<close> groups every operator as its binding powers say.
\<close>

section \<open>Printing\<close>

definition op_entry :: "sql_op \<Rightarrow> token \<times> (nat \<times> nat \<times> sql_op)" where
  "op_entry op = the (find (\<lambda>(t, l, r, op'). op' = op) infix_table)"

definition op_token :: "sql_op \<Rightarrow> token" where
  "op_token op = fst (op_entry op)"

definition op_left :: "sql_op \<Rightarrow> nat" where
  "op_left op = fst (snd (op_entry op))"

definition unop_token :: "sql_unop \<Rightarrow> token" where
  "unop_token op = (case op of UNeg \<Rightarrow> TMinus | UNot \<Rightarrow> TNot)"

definition literal_tokens :: "sql_literal \<Rightarrow> token list" where
  "literal_tokens l =
     (case l of
        LInt n \<Rightarrow> [TIntLiteral n] | LFloat f \<Rightarrow> [TFloatLiteral f] | LText s \<Rightarrow> [TStringLiteral s]
      | LBool b \<Rightarrow> [if b then TTrue else TFalse] | LNull \<Rightarrow> [TNull] | LFloatArray fs \<Rightarrow> [])"

fun commas :: "token list list \<Rightarrow> token list" where
  "commas [] = []"
| "commas [x] = x"
| "commas (x # y # xs) = x @ TComma # commas (y # xs)"

text \<open>How tightly the outermost construct of an expression binds: 13 for the operators that bind
  most tightly, 15 for prefix operators, 16 for casts and 17 for the rest.\<close>

definition level :: "sql_expr \<Rightarrow> nat" where
  "level e =
     (case e of
        XBinary op l r \<Rightarrow> op_left op
      | XIsNull e b \<Rightarrow> 5 | XIsTrue e b \<Rightarrow> 5 | XIsFalse e b \<Rightarrow> 5 | XBetween e l h b \<Rightarrow> 5 | XLike e p b \<Rightarrow> 5 | XIn e il b \<Rightarrow> 5
      | XUnary op e \<Rightarrow> 15 | XCast e ty \<Rightarrow> 16 | _ \<Rightarrow> 17)"

definition parens :: "bool \<Rightarrow> token list \<Rightarrow> token list" where
  "parens b ts = (if b then TLParen # ts @ [TRParen] else ts)"

definition nots :: "bool \<Rightarrow> token list" where
  "nots b = (if b then [TNot] else [])"

fun pp :: "nat \<Rightarrow> sql_expr \<Rightarrow> token list" where
  "pp b (XLiteral l) = parens (17 < b) (literal_tokens l)"
| "pp b (XIdent s) = parens (17 < b) [TIdent s]"
| "pp b (XQualified t s) = parens (17 < b) [TIdent t, TDot, TIdent s]"
| "pp b (XParam n) = parens (17 < b) [TDollar n]"
| "pp b (XBinary op l r) = parens (op_left op < b) (pp (op_left op) l @ op_token op # pp (op_left op + 1) r)"
| "pp b (XUnary op e) = parens (15 < b) (unop_token op # pp 15 e)"
| "pp b (XIsNull e neg) = parens (5 < b) (pp 5 e @ TIs # nots neg @ [TNull])"
| "pp b (XIsTrue e neg) = parens (5 < b) (pp 5 e @ TIs # nots neg @ [TTrue])"
| "pp b (XIsFalse e neg) = parens (5 < b) (pp 5 e @ TIs # nots neg @ [TFalse])"
| "pp b (XBetween e l h neg) = parens (5 < b) (pp 5 e @ nots neg @ TBetween # pp 6 l @ TAnd # pp 6 h)"
| "pp b (XLike e p neg) = parens (5 < b) (pp 5 e @ nots neg @ TLike # pp 6 p)"
| "pp b (XIn e (InExprs es) neg) = parens (5 < b) (pp 5 e @ nots neg @ TIn # TLParen # commas (map (pp 0) es) @ [TRParen])"
| "pp b (XCast e ty) = parens (16 < b) (pp 16 e @ [TDoubleColon, TIdent ty])"
| "pp b (XFunction f args dis) =
     parens (17 < b) (TIdent f # TLParen # (if dis then [TDistinct] else []) @ commas (map (pp 0) args) @ [TRParen])"
| "pp b (XCase operand branches els) =
     parens (17 < b)
       (TCase # (case operand of None \<Rightarrow> [] | Some e \<Rightarrow> pp 0 e) @
        concat (map (\<lambda>br. TWhen # pp 0 (fst br) @ TThen # pp 0 (snd br)) branches) @
        (case els of None \<Rightarrow> [] | Some e \<Rightarrow> TElse # pp 0 e) @ [TEnd])"
| "pp b e = []"

text \<open>The expressions the printer covers: no queries, windows or arrays.\<close>

fun printable :: "sql_expr \<Rightarrow> bool" where
  "printable (XLiteral l) \<longleftrightarrow> (case l of LFloatArray _ \<Rightarrow> False | _ \<Rightarrow> True)"
| "printable (XBinary op l r) \<longleftrightarrow> printable l \<and> printable r"
| "printable (XUnary op e) \<longleftrightarrow> printable e"
| "printable (XIsNull e neg) \<longleftrightarrow> printable e"
| "printable (XIsTrue e neg) \<longleftrightarrow> printable e"
| "printable (XIsFalse e neg) \<longleftrightarrow> printable e"
| "printable (XBetween e l h neg) \<longleftrightarrow> printable e \<and> printable l \<and> printable h"
| "printable (XLike e p neg) \<longleftrightarrow> printable e \<and> printable p"
| "printable (XIn e il neg) \<longleftrightarrow>
     printable e \<and> (case il of InExprs es \<Rightarrow> es \<noteq> [] \<and> list_all printable es | InSubquery _ \<Rightarrow> False)"
| "printable (XCast e ty) \<longleftrightarrow> printable e"
| "printable (XFunction f args dis) \<longleftrightarrow> list_all printable args"
| "printable (XCase operand branches els) \<longleftrightarrow>
     (operand = None \<longrightarrow> branches \<noteq> []) \<and> pred_option printable operand \<and>
     list_all (\<lambda>br. printable (fst br) \<and> printable (snd br)) branches \<and> pred_option printable els"
| "printable (XIdent s) \<longleftrightarrow> True"
| "printable (XQualified t s) \<longleftrightarrow> True"
| "printable (XParam n) \<longleftrightarrow> True"
| "printable (XExists q neg) \<longleftrightarrow> False"
| "printable (XSubquery q) \<longleftrightarrow> False"
| "printable (XWindow f args part ord frame) \<longleftrightarrow> False"

section \<open>Shape of the printed tokens\<close>

lemma op_facts:
  "infix_bp (op_token op) = Some (op_left op, op_left op + 1, op)"
  "op_token op \<notin> {TIs, TBetween, TNot, TLike, TIn, TCollate, TOperator, TLParen, TDot, TOver, TDoubleColon}"
  "op_left op \<le> 13"
  by (cases op; simp add: infix_bp_def op_token_def op_left_def op_entry_def infix_table_def)+

lemma level_prefix: "level e = 15 \<Longrightarrow> \<exists>op e'. e = XUnary op e'" and level_postfix: "level e = 16 \<Longrightarrow> \<exists>e' ty. e = XCast e' ty"
proof -
  have op: "op_left op \<noteq> 15 \<and> op_left op \<noteq> 16" for op using op_facts(3) [of op] by simp
  show "level e = 15 \<Longrightarrow> \<exists>op e'. e = XUnary op e'" "level e = 16 \<Longrightarrow> \<exists>e' ty. e = XCast e' ty"
    by (cases e; simp add: level_def op)+
qed

lemma pp_parens:
  assumes "printable e"
  shows "level e < c \<Longrightarrow> pp c e = TLParen # pp 0 e @ [TRParen]" and "c \<le> level e \<Longrightarrow> pp c e = pp 0 e"
  using assms by (cases e; auto simp: level_def parens_def split: in_list.splits)+

lemma pp_tight:
  assumes "printable e" "\<not> (c \<le> level e \<and> level e < d)" "c \<le> d"
  shows "pp c e = pp d e"
  using assms pp_parens [OF assms(1)] by (metis leI order_trans)

text \<open>The first token of a printed expression, and of one that binds more tightly than prefix
  operators.\<close>

definition starter :: "token \<Rightarrow> bool" where
  "starter t \<longleftrightarrow> (case t of TUnit _ \<Rightarrow> t \<in> {TTrue, TFalse, TNull, TMinus, TNot, TCase, TLParen} | _ \<Rightarrow> True)"

lemma pp_starts: "printable e \<Longrightarrow> \<exists>t r. pp b e = t # r \<and> starter t \<and> (16 \<le> b \<longrightarrow> t \<noteq> TMinus \<and> t \<noteq> TNot)"
proof (induction b e rule: pp.induct)
  case (1 b l)
  then show ?case by (cases l) (auto simp: parens_def literal_tokens_def starter_def)
next
  case (5 b op l r)
  then show ?case using op_facts(3) [of op] by (auto simp: parens_def starter_def)
next
  case (6 b op e)
  then show ?case by (cases op) (auto simp: parens_def starter_def unop_token_def)
qed (auto simp: parens_def starter_def)

lemma pp_starts':
  assumes "printable e" obtains t r where "pp b e = t # r" "starter t" "16 \<le> b \<Longrightarrow> t \<noteq> TMinus \<and> t \<noteq> TNot"
  using pp_starts [OF assms, of b] by blast

section \<open>Loops\<close>

lemma safe_step_cases:
  assumes "safe_step k step" "length ts < k"
  obtains e where "step s ts = Inl e"
  | r u where "step s ts = Inr (Break r, u)"
  | s' u where "step s ts = Inr (Continue s', u)" "length u < length ts"
proof -
  have "wp (step s) (\<lambda>r ts'. case r of Continue _ \<Rightarrow> length ts' < length ts | Break _ \<Rightarrow> length ts' \<le> length ts) ts"
    using assms by (simp add: safe_step_def)
  then show ?thesis
    using that by (cases "step s ts"; cases "fst (projr (step s ts))") (auto simp: wp_def split: flow.splits)
qed

lemma ploop_n_fuel:
  assumes "safe_step k step" "length ts < k" "length ts < n" "length ts < m"
  shows "ploop_n n step s ts = ploop_n m step s ts"
  using assms(2-4)
proof (induction n arbitrary: m s ts)
  case (Suc n)
  obtain m' where m: "m = Suc m'" using Suc.prems by (cases m) auto
  show ?case
  proof (cases rule: safe_step_cases [OF assms(1) Suc.prems(1), of s])
    case (3 s' u)
    then have "ploop_n n step s' u = ploop_n m' step s' u" using Suc.prems m by (intro Suc.IH) auto
    then show ?thesis using 3 m by simp
  qed (simp_all add: m)
qed simp

lemma ploop_unfold:
  assumes "safe_step k step" "length ts < k"
  shows "ploop step s ts =
    (case step s ts of Inl e \<Rightarrow> Inl e | Inr (Break r, u) \<Rightarrow> Inr (r, u) | Inr (Continue s', u) \<Rightarrow> ploop step s' u)"
proof (cases rule: safe_step_cases [OF assms, of s])
  case (3 s' u)
  have "ploop_n (length ts) step s' u = ploop_n (Suc (length u)) step s' u"
    using 3(2) assms(2) by (intro ploop_n_fuel [OF assms(1)]) auto
  then show ?thesis using 3 by (simp add: ploop_def)
qed (simp_all add: ploop_def)

lemma ploop_Break: "step s ts = Inr (Break r, u) \<Longrightarrow> ploop step s ts = Inr (r, u)"
  by (simp add: ploop_def)

lemma ploop_Continue:
  "safe_step k step \<Longrightarrow> length ts < k \<Longrightarrow> step s ts = Inr (Continue s', u) \<Longrightarrow> ploop step s ts = ploop step s' u"
  by (simp add: ploop_unfold)

lemma comma_loop:
  assumes p: "safe k p"
    and inv: "\<And>e u. e \<in> set es \<Longrightarrow> peek u \<in> {TComma, TRParen} \<Longrightarrow> length (tk e @ u) < k \<Longrightarrow> p (tk e @ u) = Inr (e, u)"
    and len: "length (concat (map (\<lambda>e. TComma # tk e) es) @ TRParen # rest) < k"
  shows "ploop (comma_step p) acc (concat (map (\<lambda>e. TComma # tk e) es) @ TRParen # rest) = Inr (acc @ es, TRParen # rest)"
  using inv len
proof (induction es arbitrary: acc)
  case Nil
  show ?case by (intro ploop_Break) (simp add: comma_step_def pbind_def eat_def preturn_def there_simps)
next
  case (Cons e es)
  let ?u = "concat (map (\<lambda>e. TComma # tk e) es) @ TRParen # rest"
  have "peek ?u \<in> {TComma, TRParen}" by (cases es) (auto simp: there_simps)
  then have "p (tk e @ ?u) = Inr (e, ?u)" using Cons.prems by (intro Cons.prems(1)) auto
  moreover have "ploop (comma_step p) (acc @ [e]) ?u = Inr (acc @ e # es, TRParen # rest)"
    using Cons.IH [of "acc @ [e]"] Cons.prems by simp
  moreover have "comma_step p acc (TComma # tk e @ ?u) = Inr (Continue (acc @ [e]), ?u)"
    using calculation(1) by (simp add: comma_step_def pbind_def eat_def preturn_def there_simps)
  ultimately show ?case
    using ploop_Continue [OF safe_comma_step [OF p] Cons.prems(2), of acc "acc @ [e]" ?u] by simp
qed

lemma commas_Cons: "commas (map tk (e # es)) = tk e @ concat (map (\<lambda>e. TComma # tk e) es)"
proof (induction es arbitrary: e)
  case (Cons e' es)
  then show ?case by simp
qed simp

lemma comma_list_tokens:
  assumes "safe k p" "es \<noteq> []"
    and inv: "\<And>e u. e \<in> set es \<Longrightarrow> peek u \<in> {TComma, TRParen} \<Longrightarrow> length (tk e @ u) < k \<Longrightarrow> p (tk e @ u) = Inr (e, u)"
    and len: "length (commas (map tk es) @ TRParen # rest) < k"
  shows "comma_list p (commas (map tk es) @ TRParen # rest) = Inr (es, TRParen # rest)"
proof -
  obtain e es' where es: "es = e # es'" using assms(2) by (cases es) auto
  let ?u = "concat (map (\<lambda>e. TComma # tk e) es') @ TRParen # rest"
  have "peek ?u \<in> {TComma, TRParen}" by (cases es') (auto simp: there_simps)
  then have "p (tk e @ ?u) = Inr (e, ?u)" using len inv [of e ?u] by (simp add: es commas_Cons del: list.map)
  moreover have "ploop (comma_step p) [e] ?u = Inr (e # es', TRParen # rest)"
    using comma_loop [OF assms(1), of es' tk rest "[e]"] inv len by (simp add: es commas_Cons del: list.map)
  ultimately show ?thesis by (simp add: comma_list_def pbind_def es commas_Cons del: list.map)
qed

section \<open>Parsing what was printed\<close>

text \<open>What may follow an expression: nothing that would continue a name or a call (\<open>tight\<close>), no
  cast either (\<open>ends\<close>), and no operator that binds as tightly as \<open>b\<close> (\<open>below\<close>).\<close>

definition tight :: "token list \<Rightarrow> bool" where
  "tight ts \<longleftrightarrow> peek ts \<notin> {TLParen, TDot, TOver}"

definition ends :: "token list \<Rightarrow> bool" where
  "ends ts \<longleftrightarrow> tight ts \<and> peek ts \<noteq> TDoubleColon"

definition below :: "nat \<Rightarrow> token list \<Rightarrow> bool" where
  "below b ts \<longleftrightarrow> (case infix_bp (peek ts) of None \<Rightarrow> True | Some (l, _, _) \<Rightarrow> l < b)"

lemmas follow_simps = tight_def ends_def below_def there_simps infix_bp_def infix_table_def

lemmas run_simps = pbind_def pseq_def plook_def preturn_def advance_def eat_def expect_def parse_ident_string_def there_simps

text \<open>Precedence climbing: what was printed for a tighter context \<open>c\<close> is read up to the operators
  that follow it.\<close>

definition climbs :: "rec_parsers \<Rightarrow> nat \<Rightarrow> nat \<Rightarrow> sql_expr \<Rightarrow> token list \<Rightarrow> bool" where
  "climbs P b c e rest \<longleftrightarrow> parse_expr P b (pp c e @ rest) = ploop (infix_step P b) e rest"

text \<open>The parsers called recursively invert the printer on fewer than \<open>k\<close> tokens; then so do the
  parsers of this level on one more.\<close>

locale inverting =
  fixes k :: nat and P :: rec_parsers
  assumes safe: "safe_rec k P"
    and expr: "\<And>e b rest. b \<le> 15 \<Longrightarrow> printable e \<Longrightarrow> length (pp b e @ rest) < k \<Longrightarrow> ends rest \<Longrightarrow> below b rest \<Longrightarrow>
      pr_expr P b (pp b e @ rest) = Inr (e, rest)"
    and unary: "\<And>e rest. printable e \<Longrightarrow> length (pp 15 e @ rest) < k \<Longrightarrow> ends rest \<Longrightarrow> pr_unary P (pp 15 e @ rest) = Inr (e, rest)"
begin

lemma paren_atom:
  assumes "printable e" "length (TLParen # pp 0 e @ TRParen # rest) < Suc k"
  shows "parse_atom P (TLParen # pp 0 e @ TRParen # rest) = Inr (e, rest)"
proof -
  have "peek (pp 0 e @ TRParen # rest) \<noteq> TSelect"
    using pp_starts [OF assms(1), of 0] by (auto simp: there_simps starter_def)
  moreover have "pr_expr P 0 (pp 0 e @ TRParen # rest) = Inr (e, TRParen # rest)"
    using assms by (intro expr) (auto simp: follow_simps)
  ultimately show ?thesis by (simp add: parse_atom_def run_simps)
qed

lemma expr_list:
  assumes "list_all printable es" "es \<noteq> []" "length (commas (map (pp 0) es) @ TRParen # rest) < k"
  shows "parse_expr_list P (commas (map (pp 0) es) @ TRParen # rest) = Inr (es, TRParen # rest)"
  unfolding parse_expr_list_def using assms
  by (intro comma_list_tokens [of k] safe_recD [OF safe] expr) (auto simp: list_all_iff follow_simps)

lemma safe_case_step: "safe_step k (case_step P)"
  using safe by (intro safe_stepI) (auto simp: case_step_def wp_simps elim!: peek_there intro!: rec_wp)

lemma branches:
  assumes "list_all (\<lambda>br. printable (fst br) \<and> printable (snd br)) brs" "peek rest \<in> {TElse, TEnd}"
    and "length (concat (map (\<lambda>br. TWhen # pp 0 (fst br) @ TThen # pp 0 (snd br)) brs) @ rest) < k"
  shows "ploop (case_step P) acc (concat (map (\<lambda>br. TWhen # pp 0 (fst br) @ TThen # pp 0 (snd br)) brs) @ rest) = Inr (acc @ brs, rest)"
  using assms
proof (induction brs arbitrary: acc)
  case Nil
  then show ?case by (intro ploop_Break) (auto simp: case_step_def run_simps)
next
  case (Cons br brs)
  obtain c r where br: "br = (c, r)" by (cases br)
  let ?u = "concat (map (\<lambda>br. TWhen # pp 0 (fst br) @ TThen # pp 0 (snd br)) brs) @ rest"
  have "peek ?u \<in> {TWhen, TElse, TEnd}" using Cons.prems(2) by (cases brs) (auto simp: there_simps)
  then have "pr_expr P 0 (pp 0 r @ ?u) = Inr (r, ?u)"
    using Cons.prems br by (intro expr) (auto simp: follow_simps)
  moreover have "pr_expr P 0 (pp 0 c @ TThen # pp 0 r @ ?u) = Inr (c, TThen # pp 0 r @ ?u)"
    using Cons.prems br by (intro expr) (auto simp: follow_simps)
  ultimately have "case_step P acc (TWhen # pp 0 c @ TThen # pp 0 r @ ?u) = Inr (Continue (acc @ [br]), ?u)"
    by (simp add: case_step_def run_simps br)
  then show ?case
    using Cons.IH [of "acc @ [br]"] Cons.prems
      ploop_Continue [OF safe_case_step, of "TWhen # pp 0 c @ TThen # pp 0 r @ ?u" acc "acc @ [br]" ?u]
    by (simp add: br)
qed

lemma case_atom:
  assumes "printable (XCase operand brs els)" "length (pp 0 (XCase operand brs els) @ rest) < Suc k"
  shows "parse_atom P (pp 0 (XCase operand brs els) @ rest) = Inr (XCase operand brs els, rest)"
proof -
  let ?bs = "concat (map (\<lambda>br. TWhen # pp 0 (fst br) @ TThen # pp 0 (snd br)) brs)"
  let ?el = "(case els of None \<Rightarrow> [] | Some e \<Rightarrow> TElse # pp 0 e) @ TEnd # rest"
  let ?op = "(case operand of None \<Rightarrow> [] | Some e \<Rightarrow> pp 0 e)"
  have len: "length (?op @ ?bs @ ?el) < k" using assms(2) by (simp add: parens_def)
  have el: "popt TElse (pr_expr P 0) ?el = Inr (els, TEnd # rest)"
  proof (cases els)
    case (Some e)
    then have "pr_expr P 0 (pp 0 e @ TEnd # rest) = Inr (e, TEnd # rest)"
      using assms(1) len by (intro expr) (auto simp: follow_simps)
    then show ?thesis by (simp add: popt_def run_simps Some)
  qed (simp add: popt_def run_simps)
  have bs: "ploop (case_step P) [] (?bs @ ?el) = Inr (brs, ?el)"
    using branches [of brs ?el "[]"] assms(1) len by (cases els) (auto simp: there_simps)
  have "plook (\<lambda>t _. if t \<noteq> TWhen then pbind (pr_expr P 0) (\<lambda>e. preturn (Some e)) else preturn None) (?op @ ?bs @ ?el) = Inr (operand, ?bs @ ?el)"
  proof (cases operand)
    case None
    then obtain br brs' where "brs = br # brs'" using assms(1) by (cases brs) auto
    then show ?thesis using None by (simp add: run_simps)
  next
    case (Some e)
    then have e: "printable e" using assms(1) by simp
    have "peek (?bs @ ?el) \<in> {TWhen, TElse, TEnd}" by (cases brs; cases els) (auto simp: there_simps)
    then have "pr_expr P 0 (pp 0 e @ ?bs @ ?el) = Inr (e, ?bs @ ?el)"
      using e len Some by (intro expr) (auto simp: follow_simps)
    moreover have "peek (pp 0 e @ ?bs @ ?el) \<noteq> TWhen"
      using pp_starts [OF e, of 0] by (auto simp: there_simps starter_def)
    ultimately show ?thesis using Some by (simp add: pbind_def plook_def preturn_def)
  qed
  then have "parse_case P (?op @ ?bs @ ?el) = Inr (XCase operand brs els, rest)"
    using bs el by (simp add: parse_case_def pbind_def pseq_def expect_def preturn_def there_simps)
  moreover have "pp 0 (XCase operand brs els) @ rest = TCase # ?op @ ?bs @ ?el" by (simp add: parens_def)
  ultimately show ?thesis by (simp add: parse_atom_def plook_def pseq_def pbind_def advance_def there_simps)
qed

lemma function_atom:
  assumes "list_all printable args" "length (pp 0 (XFunction f args dis) @ rest) < Suc k" "peek rest \<noteq> TOver"
  shows "parse_atom P (pp 0 (XFunction f args dis) @ rest) = Inr (XFunction f args dis, rest)"
proof -
  let ?as = "commas (map (pp 0) args) @ TRParen # rest"
  have as: "plook (\<lambda>t _. if t = TStar then pseq advance (preturn []) else if t = TRParen then preturn [] else parse_expr_list P) ?as
    = Inr (args, TRParen # rest)"
  proof (cases args)
    case (Cons a as')
    have "peek ?as \<notin> {TStar, TRParen}"
      using pp_starts [of a 0] assms(1) by (auto simp: Cons commas_Cons there_simps starter_def simp del: list.map)
    then show ?thesis using expr_list [of args rest] assms Cons by (simp add: plook_def parens_def)
  qed (simp add: run_simps)
  have "peek ?as \<noteq> TDistinct"
  proof (cases args)
    case (Cons a as')
    then show ?thesis
      using pp_starts [of a 0] assms(1) by (auto simp: commas_Cons there_simps starter_def simp del: list.map)
  qed (simp add: there_simps)
  then have eat: "eat TDistinct ((if dis then [TDistinct] else []) @ ?as) = Inr (dis, ?as)"
    by (simp add: eat_def there_simps)
  have tail: "pseq (expect TRParen) (plook (\<lambda>t _. if t = TOver then parse_over_clause P f args else preturn (XFunction f args dis)))
    (TRParen # rest) = Inr (XFunction f args dis, rest)"
    using assms(3) by (simp add: run_simps)
  have "parse_call P f ((if dis then [TDistinct] else []) @ ?as) = Inr (XFunction f args dis, rest)"
    by (simp only: parse_call_def pbind_def eat as tail sum.case prod.case)
  then show ?thesis
    by (simp add: parse_atom_def parse_name_expr_def run_simps parens_def)
qed

lemma atom:
  assumes "printable e" "17 \<le> level e" "length (pp 0 e @ rest) < Suc k" "tight rest"
  shows "parse_atom P (pp 0 e @ rest) = Inr (e, rest)"
proof (cases e)
  case (XFunction f args dis)
  then show ?thesis using function_atom assms by (simp add: tight_def)
next
  case (XCase operand brs els)
  then show ?thesis using case_atom assms by blast
next
  case (XLiteral l)
  then show ?thesis using assms by (cases l) (auto simp: parens_def literal_tokens_def parse_atom_def run_simps)
next
  case (XBinary op l r)
  then show ?thesis using assms op_facts(3) [of op] by (simp add: level_def)
qed (use assms in \<open>auto simp: level_def parens_def parse_atom_def parse_name_expr_def run_simps tight_def\<close>)

lemma atom_tight:
  assumes "printable e" "17 \<le> c \<or> 17 \<le> level e" "length (pp c e @ rest) < Suc k" "tight rest" "c \<le> 17"
  shows "parse_atom P (pp c e @ rest) = Inr (e, rest)"
proof (cases "c \<le> level e")
  case True
  then show ?thesis using atom [of e rest] assms pp_parens(2) [OF assms(1) True] by auto
next
  case False
  then have "pp c e = TLParen # pp 0 e @ [TRParen]" using pp_parens(1) [OF assms(1)] by simp
  then show ?thesis using paren_atom [of e rest] assms by simp
qed

lemma safe_postfix_step: "safe_step j postfix_step"
  by (intro safe_stepI) (auto simp: postfix_step_def wp_simps elim!: peek_there)

lemma postfix:
  assumes "printable e" "length (pp 16 e @ rest) < Suc k" "tight rest"
  shows "parse_postfix P (pp 16 e @ rest) = ploop postfix_step e rest"
  using assms
proof (induction e arbitrary: rest rule: measure_induct_rule [where f = size])
  case (less e)
  show ?case
  proof (cases "\<exists>e' ty. e = XCast e' ty")
    case True
    then obtain e' ty where e: "e = XCast e' ty" by blast
    have "parse_postfix P (pp 16 e' @ TDoubleColon # TIdent ty # rest) = ploop postfix_step e' (TDoubleColon # TIdent ty # rest)"
      using less.prems e by (intro less.IH) (auto simp: parens_def tight_def there_simps)
    also have "\<dots> = ploop postfix_step e rest"
      by (rule ploop_Continue [OF safe_postfix_step lessI]) (simp add: postfix_step_def run_simps e)
    finally show ?thesis by (simp add: e parens_def)
  next
    case False
    have "level e \<noteq> 16" using False level_postfix by blast
    then have "pp 16 e = pp 17 e" using less.prems(1) by (intro pp_tight) auto
    then have "parse_atom P (pp 16 e @ rest) = Inr (e, rest)"
      using less.prems atom_tight [of e 17 rest] by simp
    then show ?thesis by (simp add: parse_postfix_def pbind_def)
  qed
qed

lemma unary_inverts:
  assumes "printable e" "length (pp 15 e @ rest) < Suc k" "ends rest"
  shows "parse_unary P (pp 15 e @ rest) = Inr (e, rest)"
proof (cases "\<exists>op e'. e = XUnary op e'")
  case True
  then obtain op e' where e: "e = XUnary op e'" by blast
  have "pr_unary P (pp 15 e' @ rest) = Inr (e', rest)"
    using assms e by (intro unary) (auto simp: parens_def)
  moreover have "peek (pp 15 e' @ rest) \<noteq> TExists"
    using pp_starts [of e' 15] assms(1) e by (auto simp: there_simps starter_def)
  ultimately show ?thesis
    by (cases op) (simp_all add: e parens_def unop_token_def parse_unary_def run_simps)
next
  case False
  have "level e \<noteq> 15" using False level_prefix by blast
  then have eq: "pp 15 e = pp 16 e" using assms(1) by (intro pp_tight) auto
  have "peek (pp 16 e @ rest) \<notin> {TMinus, TPlus, TNot, TExists}"
    using pp_starts [OF assms(1), of 16] by (auto simp: there_simps starter_def)
  moreover have "ploop postfix_step e rest = Inr (e, rest)"
    by (rule ploop_Break) (use assms(3) in \<open>simp add: postfix_step_def plook_def preturn_def ends_def\<close>)
  ultimately show ?thesis
    using postfix [of e rest] assms eq by (simp add: parse_unary_def plook_def ends_def)
qed

text \<open>One round of the infix loop for each construct.\<close>

lemma binary_step:
  assumes "b \<le> op_left op" "printable r" "length (pp (op_left op + 1) r @ rest) < k" "ends rest" "below (Suc (op_left op)) rest"
  shows "infix_step P b l (op_token op # pp (op_left op + 1) r @ rest) = Inr (Continue (XBinary op l r), rest)"
proof -
  have "pr_expr P (op_left op + 1) (pp (op_left op + 1) r @ rest) = Inr (r, rest)"
    using assms op_facts(3) [of op] by (intro expr) auto
  then show ?thesis
    using op_facts [of op] assms(1) by (simp add: infix_step_def run_simps)
qed

lemma infix5: "infix_bp TIs = Some (5, 6, OEq)" "infix_bp TBetween = Some (5, 6, OEq)" "infix_bp TLike = Some (5, 6, OEq)"
  "infix_bp TIn = Some (5, 6, OEq)" "infix_bp TNot = Some (5, 6, OEq)"
  by (simp_all add: infix_bp_def infix_table_def)

lemma is_steps:
  assumes "b \<le> 5"
  shows "infix_step P b l (TIs # nots neg @ TNull # rest) = Inr (Continue (XIsNull l neg), rest)"
    "infix_step P b l (TIs # nots neg @ TTrue # rest) = Inr (Continue (XIsTrue l neg), rest)"
    "infix_step P b l (TIs # nots neg @ TFalse # rest) = Inr (Continue (XIsFalse l neg), rest)"
  using assms by (auto simp: infix_step_def infix5 parse_is_def nots_def run_simps)

lemma between_step:
  assumes "b \<le> 5" "printable lo" "printable hi" "length (pp 6 lo @ TAnd # pp 6 hi @ rest) < k" "ends rest" "below 6 rest"
  shows "infix_step P b l (nots neg @ TBetween # pp 6 lo @ TAnd # pp 6 hi @ rest) = Inr (Continue (XBetween l lo hi neg), rest)"
proof -
  have "pr_expr P 6 (pp 6 lo @ TAnd # pp 6 hi @ rest) = Inr (lo, TAnd # pp 6 hi @ rest)"
    using assms by (intro expr) (auto simp: follow_simps)
  moreover have "pr_expr P 6 (pp 6 hi @ rest) = Inr (hi, rest)" using assms by (intro expr) auto
  ultimately show ?thesis
    using assms(1) by (auto simp: infix_step_def infix5 parse_between_def nots_def run_simps)
qed

lemma like_step:
  assumes "b \<le> 5" "printable p" "length (pp 6 p @ rest) < k" "ends rest" "below 6 rest"
  shows "infix_step P b l (nots neg @ TLike # pp 6 p @ rest) = Inr (Continue (XLike l p neg), rest)"
proof -
  have "pr_expr P 6 (pp 6 p @ rest) = Inr (p, rest)" using assms by (intro expr) auto
  then show ?thesis using assms(1) by (auto simp: infix_step_def infix5 parse_like_def nots_def run_simps)
qed

lemma in_step:
  assumes "b \<le> 5" "list_all printable es" "es \<noteq> []" "length (commas (map (pp 0) es) @ TRParen # rest) < k"
  shows "infix_step P b l (nots neg @ TIn # TLParen # commas (map (pp 0) es) @ TRParen # rest) = Inr (Continue (XIn l (InExprs es) neg), rest)"
proof -
  let ?as = "commas (map (pp 0) es) @ TRParen # rest"
  obtain e es' where es: "es = e # es'" using assms(3) by (cases es) auto
  have "peek ?as \<noteq> TSelect"
    using pp_starts [of e 0] assms(2) by (auto simp: es commas_Cons there_simps starter_def simp del: list.map)
  moreover have "parse_expr_list P ?as = Inr (es, TRParen # rest)" using expr_list assms by blast
  ultimately show ?thesis
    using assms(1) by (auto simp: infix_step_def infix5 parse_in_def nots_def run_simps)
qed

lemma climb_step:
  assumes "climbs P b c l (u @ rest)" "infix_step P b l (u @ rest) = Inr (Continue e, rest)" "pp d e = pp c l @ u"
    and "length (u @ rest) < Suc k"
  shows "climbs P b d e rest"
  using assms ploop_Continue [OF safe_infix_step [OF safe] assms(4), of b l e rest] by (simp add: climbs_def)

lemma below_infix5: "lv \<ge> 5 \<Longrightarrow> t \<in> {TIs, TBetween, TLike, TIn, TNot} \<Longrightarrow> ends (t # u) \<and> below (Suc lv) (t # u)"
  by (auto simp: follow_simps)

lemma climb_left:
  assumes IH: "\<And>c rest. length (pp c l @ rest) < Suc k \<Longrightarrow> b \<le> c \<Longrightarrow> c \<le> 15 \<Longrightarrow> ends rest \<Longrightarrow>
      (c \<le> level l \<Longrightarrow> below (Suc (level l)) rest) \<Longrightarrow> climbs P b c l rest"
    and u: "u \<noteq> []" "hd u \<in> {TIs, TBetween, TLike, TIn, TNot}" and "length (pp 5 l @ u @ rest) < Suc k" "b \<le> 5"
  shows "climbs P b 5 l (u @ rest)"
proof -
  obtain t v where "u = t # v" using u by (cases u) auto
  then show ?thesis using assms below_infix5 [of _ t "v @ rest"] by (intro IH) auto
qed

lemma climb_tight:
  assumes "printable e" "\<not> (c \<le> level e \<and> level e < 15)" "c \<le> 15" "length (pp c e @ rest) < Suc k" "ends rest"
  shows "climbs P b c e rest"
proof -
  have "pp c e = pp 15 e" using assms by (intro pp_tight) auto
  then show ?thesis using unary_inverts [of e rest] assms by (simp add: climbs_def parse_expr_def pbind_def)
qed

lemma climb:
  assumes "printable e" "length (pp c e @ rest) < Suc k" "b \<le> c" "c \<le> 15" "ends rest" "c \<le> level e \<Longrightarrow> below (Suc (level e)) rest"
  shows "climbs P b c e rest"
  using assms
proof (induction e arbitrary: c rest rule: measure_induct_rule [where f = size])
  case (less e)
  show ?case
  proof (cases "c \<le> level e \<and> level e < 15")
    case False
    then show ?thesis using less.prems by (intro climb_tight)
  next
    case True
    have below: "below (Suc (level e)) rest" using True less.prems by blast
    have bare: "pp c e = pp 0 e" using True pp_parens(2) less.prems(1) by blast
    have join: "climbs P b c e rest"
      if l: "size l < size e" "printable l" and u: "u \<noteq> []" "hd u \<in> {TIs, TBetween, TLike, TIn, TNot}"
        and e: "pp 0 e = pp 5 l @ u" "level e = 5" and step: "infix_step P b l (u @ rest) = Inr (Continue e, rest)" for l u
    proof (rule climb_step [OF _ step])
      show "climbs P b 5 l (u @ rest)"
        using l u e less.prems True bare by (intro climb_left less.IH) auto
      show "pp c e = pp 5 l @ u" using bare e by simp
      show "length (u @ rest) < Suc k" using less.prems(2) bare e by simp
    qed
    have b5: "b \<le> 5" if "level e = 5" using that True less.prems(3) by simp
    show ?thesis
    proof (cases e)
      case (XBinary op l r)
      let ?u = "op_token op # pp (op_left op + 1) r"
      have "climbs P b (op_left op) l (?u @ rest)"
      proof (rule less.IH)
        show "ends (?u @ rest)" using op_facts(2) [of op] by (auto simp: ends_def tight_def there_simps)
        show "op_left op \<le> level l \<Longrightarrow> below (Suc (level l)) (?u @ rest)"
          by (simp add: below_def there_simps op_facts(1))
      qed (use less.prems True XBinary op_facts(3) [of op] in \<open>auto simp: level_def parens_def\<close>)
      moreover have pp: "pp c e = pp (op_left op) l @ ?u" using bare XBinary by (simp add: parens_def)
      moreover have lv: "b \<le> op_left op" "below (Suc (op_left op)) rest" "printable r"
        using less.prems True XBinary below by (simp_all add: level_def)
      moreover have len: "length (pp (op_left op + 1) r @ rest) < k" using less.prems(2) pp by simp
      moreover have "infix_step P b l (?u @ rest) = Inr (Continue e, rest)"
        using binary_step [OF lv(1,3) len less.prems(5) lv(2)] XBinary by simp
      ultimately show ?thesis by (intro climb_step [of b "op_left op" l ?u rest]) simp_all
    next
      case (XIsNull l neg)
      have lv: "level e = 5" by (simp add: level_def XIsNull)
      show ?thesis
        by (rule join [of l "TIs # nots neg @ [TNull]"])
          (use less.prems(1) lv is_steps(1) [OF b5 [OF lv], of l neg rest] in \<open>simp_all add: XIsNull parens_def\<close>)
    next
      case (XIsTrue l neg)
      have lv: "level e = 5" by (simp add: level_def XIsTrue)
      show ?thesis
        by (rule join [of l "TIs # nots neg @ [TTrue]"])
          (use less.prems(1) lv is_steps(2) [OF b5 [OF lv], of l neg rest] in \<open>simp_all add: XIsTrue parens_def\<close>)
    next
      case (XIsFalse l neg)
      have lv: "level e = 5" by (simp add: level_def XIsFalse)
      show ?thesis
        by (rule join [of l "TIs # nots neg @ [TFalse]"])
          (use less.prems(1) lv is_steps(3) [OF b5 [OF lv], of l neg rest] in \<open>simp_all add: XIsFalse parens_def\<close>)
    next
      case (XBetween l lo hi neg)
      let ?u = "nots neg @ TBetween # pp 6 lo @ TAnd # pp 6 hi"
      have lv: "level e = 5" by (simp add: level_def XBetween)
      have pp: "pp 0 e = pp 5 l @ ?u" by (simp add: XBetween parens_def)
      have "infix_step P b l (?u @ rest) = Inr (Continue e, rest)"
        using between_step [OF b5 [OF lv], of lo hi rest l neg] less.prems(1,2,5) below bare pp XBetween lv by simp
      then show ?thesis
        by (intro join [OF _ _ _ _ pp lv]) (use less.prems(1) in \<open>simp_all add: XBetween nots_def\<close>)
    next
      case (XLike l p neg)
      let ?u = "nots neg @ TLike # pp 6 p"
      have lv: "level e = 5" by (simp add: level_def XLike)
      have pp: "pp 0 e = pp 5 l @ ?u" by (simp add: XLike parens_def)
      have "infix_step P b l (?u @ rest) = Inr (Continue e, rest)"
        using like_step [OF b5 [OF lv], of p rest l neg] less.prems(1,2,5) below bare pp XLike lv by simp
      then show ?thesis
        by (intro join [OF _ _ _ _ pp lv]) (use less.prems(1) in \<open>simp_all add: XLike nots_def\<close>)
    next
      case (XIn l il neg)
      then obtain es where il: "il = InExprs es" using less.prems(1) by (cases il) auto
      let ?u = "nots neg @ TIn # TLParen # commas (map (pp 0) es) @ [TRParen]"
      have lv: "level e = 5" by (simp add: level_def XIn)
      have pp: "pp 0 e = pp 5 l @ ?u" by (simp add: XIn il parens_def)
      have "infix_step P b l (?u @ rest) = Inr (Continue e, rest)"
        using in_step [OF b5 [OF lv], of es rest l neg] less.prems(1,2) bare pp XIn il by simp
      then show ?thesis
        by (intro join [OF _ _ _ _ pp lv]) (use less.prems(1) in \<open>simp_all add: XIn nots_def\<close>)
    qed (use True in \<open>auto simp: level_def\<close>)
  qed
qed

lemma expr_inverts:
  assumes "b \<le> 15" "printable e" "length (pp b e @ rest) < Suc k" "ends rest" "below b rest"
  shows "parse_expr P b (pp b e @ rest) = Inr (e, rest)"
proof -
  have "climbs P b b e rest"
    using assms by (intro climb) (auto simp: below_def split: option.splits)
  moreover have "ploop (infix_step P b) e rest = Inr (e, rest)"
    using assms(5) by (intro ploop_Break) (auto simp: infix_step_def plook_def preturn_def below_def split: option.splits)
  ultimately show ?thesis by (simp add: climbs_def)
qed

end

lemma inverting_rec_n: "inverting n (rec_n n)"
proof (induction n)
  case 0
  show ?case by (simp add: inverting_def safe_rec_n)
next
  case (Suc n)
  show ?case
  proof (rule inverting.intro)
    show "safe_rec (Suc n) (rec_n (Suc n))" by (rule safe_rec_n)
    show "pr_expr (rec_n (Suc n)) b (pp b e @ rest) = Inr (e, rest)"
      if "b \<le> 15" "printable e" "length (pp b e @ rest) < Suc n" "ends rest" "below b rest" for e b rest
      using inverting.expr_inverts [OF Suc that] by (simp add: rec_n_def [of "Suc n"] rec_n_Suc del: expr_n.simps)
    show "pr_unary (rec_n (Suc n)) (pp 15 e @ rest) = Inr (e, rest)"
      if "printable e" "length (pp 15 e @ rest) < Suc n" "ends rest" for e rest
      using inverting.unary_inverts [OF Suc that] by (simp add: rec_n_def [of "Suc n"] rec_n_Suc del: unary_n.simps)
  qed
qed

interpretation rec: inverting n "rec_n n" for n
  by (rule inverting_rec_n)

text \<open>C26: The expression parser inverts the printer: an expression without queries, printed with
  parentheses only where the binding powers of its operators need them, is read back as the same
  expression, and the tokens after it are left, whatever their number, if they do not continue
  an expression.\<close>

theorem expr_prints_back:
  assumes "printable e" "ends rest" "infix_bp (peek rest) = None"
  shows "run_expr (pp 0 e @ rest) = Inr (e, rest)"
proof -
  have "parse_expr (rec_n (length (pp 0 e @ rest))) 0 (pp 0 e @ rest) = Inr (e, rest)"
    using assms by (intro rec.expr_inverts) (auto simp: below_def)
  then show ?thesis by (simp add: run_expr_def rec_n_def)
qed

theorem expr_prints_back_witness:
  "run_expr [TNot, TLParen, TIdent [97], TPlus, TIntLiteral 1, TRParen, TStar, TIdent [98], TOr, TIdent [99], TEof]
    = Inr (XBinary OOr (XBinary OMul (XUnary UNot (XBinary OAdd (XIdent [97]) (XLiteral (LInt 1)))) (XIdent [98])) (XIdent [99]), [TEof])"
  using expr_prints_back [of "XBinary OOr (XBinary OMul (XUnary UNot (XBinary OAdd (XIdent [97]) (XLiteral (LInt 1)))) (XIdent [98])) (XIdent [99])" "[TEof]"]
  by (simp add: parens_def op_token_def op_left_def op_entry_def infix_table_def literal_tokens_def unop_token_def follow_simps)

end
