(* ===== verification/Sql_Default.thy ===== *)
theory Sql_Default
  imports Sql_Print
begin

text \<open>
  Column defaults: \<open>default_expr_to_text\<close> (\<open>executor/ddl.rs\<close>) writes a default expression as text
  into the catalogue and \<open>parse_expr_text\<close> (\<open>sql/mod.rs\<close>) reads it back at every insertion. The
  text of an \<open>f64\<close> is the shortest decimal that rounds to it, without an exponent.
\<close>

section \<open>Floats as text\<close>

definition f64_fraction :: "64 word \<Rightarrow> nat \<times> nat" where
  "f64_fraction x =
     (let e = unat (drop_bit 52 x AND 0x7FF); m = unat (x AND 0xFFFFFFFFFFFFF)
      in if e = 0 then (m, 2 ^ 1074)
         else if 1075 \<le> e then ((m + 2 ^ 52) * 2 ^ (e - 1075), 1) else (m + 2 ^ 52, 2 ^ (1075 - e)))"

definition ten_scaled :: "nat \<Rightarrow> nat \<Rightarrow> int \<Rightarrow> nat \<times> nat" where
  "ten_scaled n d t = (if 0 \<le> t then (n, d * 10 ^ nat t) else (n * 10 ^ nat (- t), d))"

text \<open>The decimal exponent of the leading digit.\<close>

definition dec_exponent :: "nat \<Rightarrow> nat \<Rightarrow> int" where
  "dec_exponent n d =
     (if d \<le> n then int (length (dec_digits (n div d))) - 1
      else (case find (\<lambda>j. d \<le> n * 10 ^ j) [1..<400] of Some j \<Rightarrow> - int j | None \<Rightarrow> - 400))"

definition rounds_to :: "64 word \<Rightarrow> int \<Rightarrow> nat \<Rightarrow> bool" where
  "rounds_to x t m \<longleftrightarrow> (if 0 \<le> t then f64_of_fraction (m * 10 ^ nat t) 1 else f64_of_fraction m (10 ^ nat (- t))) = x"

text \<open>With \<open>k\<close> digits: the nearer of the two neighbours that rounds to the float.\<close>

definition digits_at :: "64 word \<Rightarrow> nat \<Rightarrow> nat \<Rightarrow> nat \<Rightarrow> (nat \<times> int) option" where
  "digits_at x n d k =
     (let t = dec_exponent n d - int k + 1; (a, b) = ten_scaled n d t; q = a div b; near = (2 * (a mod b) \<le> b)
      in if rounds_to x t q \<and> (near \<or> \<not> rounds_to x t (q + 1)) then Some (q, t)
         else if rounds_to x t (q + 1) then Some (q + 1, t) else None)"

fun first_digits :: "64 word \<Rightarrow> nat \<Rightarrow> nat \<Rightarrow> nat list \<Rightarrow> nat \<times> int" where
  "first_digits x n d [] = (0, 0)"
| "first_digits x n d (k # ks) = (case digits_at x n d k of Some r \<Rightarrow> r | None \<Rightarrow> first_digits x n d ks)"

definition f64_magnitude :: "64 word \<Rightarrow> bytes" where
  "f64_magnitude x =
     (if x = 0x7FF0000000000000 then str ''inf''
      else if x = 0 then str ''0''
      else (let (n, d) = f64_fraction x; (m, t) = first_digits x n d [1..<18]; ds = dec_digits m; point = int (length ds) + t
            in if 0 \<le> t then ds @ replicate (nat t) 48
               else if 0 < point then take (nat point) ds @ str ''.'' @ drop (nat point) ds
               else str ''0.'' @ replicate (nat (- point)) 48 @ ds))"

definition f64_to_string :: "64 word \<Rightarrow> bytes" where
  "f64_to_string x =
     (let a = x AND 0x7FFFFFFFFFFFFFFF
      in if 0x7FF0000000000000 < a then str ''NaN'' else (if bit x 63 then str ''-'' else []) @ f64_magnitude a)"

definition int_to_string :: "int \<Rightarrow> bytes" where
  "int_to_string n = (if n < 0 then str ''-'' else []) @ dec_digits (nat \<bar>n\<bar>)"

section \<open>Defaults as text\<close>

datatype default_error = TooComplex sql_expr

definition double_quotes :: "bytes \<Rightarrow> bytes" where
  "double_quotes s = concat (map (\<lambda>b. if b = 39 then [39, 39] else [b]) s)"

fun text_join :: "bytes \<Rightarrow> bytes list \<Rightarrow> bytes" where
  "text_join sep [] = []"
| "text_join sep [x] = x"
| "text_join sep (x # y # xs) = x @ sep @ text_join sep (y # xs)"

fun collect_results :: "('e + 'a) list \<Rightarrow> 'e + 'a list" where
  "collect_results [] = Inr []"
| "collect_results (r # rs) = attempt r (\<lambda>x. attempt (collect_results rs) (\<lambda>xs. Inr (x # xs)))"

definition literal_text :: "sql_literal \<Rightarrow> bytes" where
  "literal_text l =
     (case l of
        LInt n \<Rightarrow> int_to_string n
      | LFloat f \<Rightarrow> f64_to_string f
      | LText s \<Rightarrow> str [CHR 0x27] @ double_quotes s @ str [CHR 0x27]
      | LBool b \<Rightarrow> if b then str ''true'' else str ''false''
      | LNull \<Rightarrow> str ''NULL''
      | LFloatArray fs \<Rightarrow> str [CHR 0x27] @ str ''{'' @ text_join (str '','') (map f64_to_string fs) @ str ''}'' @ str [CHR 0x27])"

fun default_expr_to_text :: "sql_expr \<Rightarrow> default_error + bytes" where
  "default_expr_to_text (XLiteral l) = Inr (literal_text l)"
| "default_expr_to_text (XUnary UNeg e) = attempt (default_expr_to_text e) (\<lambda>s. Inr (str ''-'' @ s))"
| "default_expr_to_text (XFunction name args _) =
     attempt (collect_results (map default_expr_to_text args)) (\<lambda>ts. Inr (name @ str ''('' @ text_join (str '', '') ts @ str '')''))"
| "default_expr_to_text (XCast e ty) = attempt (default_expr_to_text e) (\<lambda>s. Inr (s @ str ''::'' @ ty))"
| "default_expr_to_text e = Inl (TooComplex e)"

section \<open>Lexing\<close>

text \<open>The bytes \<open>s\<close> become the tokens \<open>ts\<close> when \<open>rest\<close> comes after them.\<close>

definition lexes :: "bytes \<Rightarrow> token list \<Rightarrow> bytes \<Rightarrow> bool" where
  "lexes s ts rest \<longleftrightarrow> tokenize (s @ rest) = attempt (tokenize rest) (\<lambda>us. Inr (ts @ us))"

lemma lexes_append: "lexes s ts (s' @ rest) \<Longrightarrow> lexes s' ts' rest \<Longrightarrow> lexes (s @ s') (ts @ ts') rest"
  by (cases "tokenize rest") (auto simp: lexes_def)

lemma lexes_token: "next_token (s @ rest) = Inr (t, rest) \<Longrightarrow> t \<noteq> TEof \<Longrightarrow> lexes s [t] rest"
  by (simp add: lexes_def tokenize.simps [of "s @ rest"])

lemma lexes_Nil: "lexes s ts [] \<Longrightarrow> tokenize s = Inr (ts @ [TEof])"
  by (simp add: lexes_def tokenize.simps [of "[]"] next_token_def skip_whitespace.simps)

text \<open>What may follow a word or a number: the end, a parenthesis, a comma or a colon.\<close>

definition delim :: "bytes \<Rightarrow> bool" where
  "delim rest \<longleftrightarrow> (case rest of [] \<Rightarrow> True | b # _ \<Rightarrow> b \<in> {40, 41, 44, 58})"

lemma byte_tests:
  "ascii_digit b \<Longrightarrow> \<not> ascii_whitespace b \<and> b \<notin> {39, 34, 36, 45, 47}"
  "ascii_alphabetic b \<or> b = 95 \<Longrightarrow> \<not> ascii_whitespace b \<and> \<not> ascii_digit b \<and> b \<notin> {39, 34, 36, 45, 46, 47}"
  by (auto simp: ascii_digit_def ascii_whitespace_def ascii_alphabetic_def word_le_nat_alt)

lemma skip_whitespace_stop: "\<not> ascii_whitespace b \<Longrightarrow> b \<noteq> 45 \<Longrightarrow> b \<noteq> 47 \<Longrightarrow> skip_whitespace (b # src) = b # src"
  by (simp add: skip_whitespace.simps)

subsection \<open>Words\<close>

definition plain_name :: "bytes \<Rightarrow> bool" where
  "plain_name s \<longleftrightarrow>
     (case s of [] \<Rightarrow> False | b # _ \<Rightarrow> ascii_alphabetic b \<or> b = 95) \<and> list_all ident_byte s \<and>
     map_of keyword_table (map upper_byte s) = None"

lemma delim_not_ident: "delim rest \<Longrightarrow> takeWhile ident_byte rest = [] \<and> dropWhile ident_byte rest = rest"
  by (cases rest) (auto simp: delim_def ident_byte_def ascii_alphabetic_def ascii_digit_def)

lemma lexes_word:
  assumes "ascii_alphabetic b \<or> b = 95" "list_all ident_byte bs" "delim rest" "keyword_or_ident (b # bs) = t" "t \<noteq> TEof"
  shows "lexes (b # bs) [t] rest"
proof (rule lexes_token)
  have "takeWhile ident_byte (bs @ rest) = bs" "dropWhile ident_byte (bs @ rest) = rest"
    using assms(2) delim_not_ident [OF assms(3)] by (auto simp: list_all_iff takeWhile_append dropWhile_append)
  then show "next_token ((b # bs) @ rest) = Inr (t, rest)"
    using byte_tests(2) [OF assms(1)] assms(1,4) by (simp add: next_token_def skip_whitespace_stop)
qed (rule assms)

lemma lexes_name:
  assumes "plain_name s" "delim rest" shows "lexes s [TIdent s] rest"
proof -
  obtain b bs where s: "s = b # bs" using assms(1) by (cases s) (simp_all add: plain_name_def)
  have "keyword_or_ident s = TIdent s" using assms(1) by (simp add: plain_name_def keyword_or_ident_def)
  then show ?thesis using assms s lexes_word [of b bs rest "TIdent s"] by (simp add: plain_name_def)
qed

lemma lexes_keywords:
  assumes "delim rest"
  shows "lexes (str ''true'') [TTrue] rest" "lexes (str ''false'') [TFalse] rest" "lexes (str ''NULL'') [TNull] rest"
proof -
  have words: "str ''true'' = [116, 114, 117, 101]" "str ''false'' = [102, 97, 108, 115, 101]" "str ''NULL'' = [78, 85, 76, 76]"
    by code_simp+
  have tokens: "keyword_or_ident [116, 114, 117, 101] = TTrue" "keyword_or_ident [102, 97, 108, 115, 101] = TFalse"
    "keyword_or_ident [78, 85, 76, 76] = TNull"
    by code_simp+
  show "lexes (str ''true'') [TTrue] rest" "lexes (str ''false'') [TFalse] rest" "lexes (str ''NULL'') [TNull] rest"
    unfolding words
    by (rule lexes_word [OF _ _ assms tokens(1)] lexes_word [OF _ _ assms tokens(2)] lexes_word [OF _ _ assms tokens(3)];
        simp add: ascii_alphabetic_def ident_byte_def)+
qed

subsection \<open>Numbers\<close>

lemma digits_value_snoc: "digits_value (ds @ [d]) = 10 * digits_value ds + (uint d - 48)"
  by (simp add: digits_value_def)

lemma digit_byte: "48 \<le> x \<Longrightarrow> x < 58 \<Longrightarrow> uint (word_of_nat x :: byte) = int x \<and> ascii_digit (word_of_nat x)"
proof -
  assume x: "48 \<le> x" "x < 58"
  have "unat (word_of_nat x :: byte) = x" using x by (simp add: unsigned_of_nat take_bit_nat_eq_self)
  then show ?thesis using x by (simp add: ascii_digit_def word_le_nat_alt uint_nat)
qed

lemma dec_digit: "m < 10 \<Longrightarrow> uint (word_of_nat (48 + m) :: byte) = 48 + int m \<and> ascii_digit (word_of_nat (48 + m))"
  using digit_byte [of "48 + m"] by simp

lemma dec_digits_facts: "digits_value (dec_digits n) = int n \<and> list_all ascii_digit (dec_digits n) \<and> dec_digits n \<noteq> []"
proof (induction n rule: dec_digits.induct)
  case (1 n)
  show ?case
  proof (cases "n < 10")
    case True
    then show ?thesis using dec_digit [of n] by (subst dec_digits.simps) (simp add: digits_value_def dec_digits.simps)
  next
    case False
    then show ?thesis
      using 1 dec_digit [of "n mod 10"] dec_digits.simps [of n]
      by (simp add: digits_value_snoc) (metis of_nat_add of_nat_mult of_nat_numeral mult_div_mod_eq)
  qed
qed

lemma scan_number_digits:
  "list_all ascii_digit ds \<Longrightarrow> delim rest \<Longrightarrow> scan_number False False (ds @ rest) = (ds, False, rest)"
proof (induction ds)
  case Nil
  then show ?case by (cases rest) (auto simp: delim_def ascii_digit_def)
qed simp

lemma lexes_int:
  assumes "0 \<le> n" "n < 2 ^ 63" "delim rest"
  shows "lexes (int_to_string n) [TIntLiteral n] rest"
proof (rule lexes_token)
  obtain b bs where ds: "dec_digits (nat n) = b # bs" using dec_digits_facts [of "nat n"] by (cases "dec_digits (nat n)") auto
  then have b: "ascii_digit b" "list_all ascii_digit (b # bs)" "digits_value (b # bs) = n"
    using dec_digits_facts [of "nat n"] assms(1) by auto
  have "scan_number False False ((b # bs) @ rest) = (b # bs, False, rest)"
    using scan_number_digits [OF b(2) assms(3)] .
  moreover have "parse_i64 (b # bs) = Some n" using b assms by (simp add: parse_i64_def)
  ultimately have "read_number ((b # bs) @ rest) = Inr (TIntLiteral n, rest)"
    by (simp add: read_number_def del: scan_number.simps)
  then show "next_token (int_to_string n @ rest) = Inr (TIntLiteral n, rest)"
    using byte_tests(1) [OF b(1)] b(1) ds assms(1) by (simp add: next_token_def skip_whitespace_stop int_to_string_def)
qed simp

subsection \<open>Strings\<close>

lemma read_quoted_doubled:
  assumes "\<forall>b \<in> set s. b < 128" "delim rest"
  shows "read_quoted 39 (double_quotes s @ 39 # rest) = Some (s, rest)"
  using assms(1)
proof (induction s)
  case Nil
  show ?case using assms(2) by (cases rest) (auto simp: double_quotes_def delim_def)
next
  case (Cons b s)
  then show ?case by (auto simp: double_quotes_def push_char_def)
qed

lemma lexes_text:
  assumes "\<forall>b \<in> set s. b < 128" "delim rest"
  shows "lexes (literal_text (LText s)) [TStringLiteral s] rest"
  by (rule lexes_token)
    (use read_quoted_doubled [OF assms] in \<open>simp_all add: literal_text_def str_def of_char_def next_token_def skip_whitespace_stop ascii_whitespace_def\<close>)

subsection \<open>Punctuation\<close>

lemmas mark_simps = str_def of_char_def next_token_def ascii_whitespace_def ascii_digit_def ascii_alphabetic_def read_operator_def
  follows_def peek_byte_def

lemma lexes_marks:
  "lexes (str ''('') [TLParen] rest" "lexes (str '')'') [TRParen] rest" "lexes (str ''::'') [TDoubleColon] rest"
  by (rule lexes_token; simp add: mark_simps skip_whitespace_stop)+

lemma lexes_minus:
  assumes "case rest of [] \<Rightarrow> False | b # _ \<Rightarrow> b \<noteq> 45 \<and> b \<noteq> 62"
  shows "lexes (str ''-'') [TMinus] rest"
proof (rule lexes_token)
  obtain b r where r: "rest = b # r" "b \<noteq> 45" "b \<noteq> 62" using assms by (cases rest) auto
  have "skip_whitespace (45 # rest) = 45 # rest" using r by (simp add: skip_whitespace.simps peek_byte_def ascii_whitespace_def)
  then show "next_token (str ''-'' @ rest) = Inr (TMinus, rest)" using r by (simp add: mark_simps)
qed simp

lemma lexes_comma: "lexes (str '', '') [TComma] rest"
proof -
  have "tokenize (32 # rest) = tokenize rest"
    by (simp add: tokenize.simps [of "32 # rest"] tokenize.simps [of rest] next_token_def skip_whitespace.simps [of "32 # rest"] ascii_whitespace_def)
  moreover have "lexes [44] [TComma] (32 # rest)"
    by (rule lexes_token) (simp_all add: next_token_def skip_whitespace_stop ascii_whitespace_def ascii_digit_def
      ascii_alphabetic_def read_operator_def)
  ultimately show ?thesis by (simp add: lexes_def str_def of_char_def)
qed

section \<open>Defaults come back\<close>

text \<open>The defaults that survive: literals other than floats, ASCII strings, calls of functions with
  plain names, casts to plain types, and one minus sign outside of casts.\<close>

fun default_ok :: "bool \<Rightarrow> sql_expr \<Rightarrow> bool" where
  "default_ok m (XLiteral l) \<longleftrightarrow>
     (case l of LInt n \<Rightarrow> 0 \<le> n \<and> n < 2 ^ 63 | LText s \<Rightarrow> list_all (\<lambda>b. b < 128) s | LBool _ \<Rightarrow> True | LNull \<Rightarrow> True | _ \<Rightarrow> False)"
| "default_ok m (XUnary UNeg e) \<longleftrightarrow> m \<and> default_ok False e"
| "default_ok m (XFunction f args dis) \<longleftrightarrow> plain_name f \<and> \<not> dis \<and> list_all (default_ok True) args"
| "default_ok m (XCast e ty) \<longleftrightarrow> default_ok False e \<and> plain_name ty"
| "default_ok m e \<longleftrightarrow> False"

definition plain_start :: "bytes \<Rightarrow> bool" where
  "plain_start s \<longleftrightarrow> (case s of [] \<Rightarrow> False | b # _ \<Rightarrow> b \<noteq> 45 \<and> b \<noteq> 62)"

definition writes :: "sql_expr \<Rightarrow> bytes \<Rightarrow> bool" where
  "writes e s \<longleftrightarrow> default_expr_to_text e = Inr s \<and> (\<forall>rest. delim rest \<longrightarrow> lexes s (pp 0 e) rest)"

lemma plain_start_append: "plain_start s \<Longrightarrow> plain_start (s @ t)"
  by (auto simp: plain_start_def split: list.splits)

lemma default_ok_level: "default_ok m e \<Longrightarrow> printable e \<and> 15 \<le> level e \<and> (m \<or> 16 \<le> level e)"
  by (induction m e rule: default_ok.induct) (auto simp: level_def list_all_iff split: sql_literal.splits)

lemma plain_name_start: "plain_name f \<Longrightarrow> plain_start f"
  using byte_tests(2) by (cases f) (auto simp: plain_name_def plain_start_def ascii_alphabetic_def)

lemma writes_literal:
  assumes "default_ok m (XLiteral l)" shows "writes (XLiteral l) (literal_text l)" "plain_start (literal_text l)"
proof -
  have "plain_start (dec_digits n)" for n
    using dec_digits_facts [of n] byte_tests(1) by (cases "dec_digits n") (auto simp: plain_start_def ascii_digit_def)
  then have start: "plain_start (literal_text (LInt n))" if "0 \<le> n" for n
    using that by (simp add: literal_text_def int_to_string_def)
  have quoted: "plain_start (str [CHR 0x27] @ s)" "plain_start (str ''true'')" "plain_start (str ''false'')" "plain_start (str ''NULL'')" for s
    by (simp_all add: plain_start_def str_def of_char_def)
  show "plain_start (literal_text l)"
    using assms start quoted by (cases l) (auto simp: literal_text_def)
  show "writes (XLiteral l) (literal_text l)"
  proof (cases l)
    case (LInt n)
    then show ?thesis using assms by (simp add: writes_def parens_def literal_tokens_def literal_text_def lexes_int)
  next
    case (LText s)
    then show ?thesis using assms by (simp add: writes_def parens_def literal_tokens_def lexes_text list_all_iff)
  qed (use assms in \<open>simp_all add: writes_def parens_def literal_tokens_def literal_text_def lexes_keywords\<close>)
qed

lemma writes_args:
  assumes "\<forall>a \<in> set args. \<exists>s. writes a s"
  shows "\<exists>ss. collect_results (map default_expr_to_text args) = Inr ss \<and>
    (\<forall>rest. lexes (text_join (str '', '') ss @ str '')'') (commas (map (pp 0) args) @ [TRParen]) rest)"
  using assms
proof (induction args rule: induct_list012)
  case 1
  show ?case by (auto intro: lexes_marks(2))
next
  case (2 a)
  then obtain s where "writes a s" by auto
  then show ?case by (auto simp: writes_def delim_def str_def of_char_def intro!: lexes_append lexes_marks [unfolded str_def of_char_def, simplified])
next
  case (3 a b args)
  then obtain s where s: "writes a s" by auto
  obtain ss where ss: "collect_results (map default_expr_to_text (b # args)) = Inr ss"
    "\<And>rest. lexes (text_join (str '', '') ss @ str '')'') (commas (map (pp 0) (b # args)) @ [TRParen]) rest"
    using 3 by auto
  obtain s2 ss2 where ss2: "ss = s2 # ss2"
    using ss(1) by (auto simp: attempt_Inr_iff)
  have "lexes (s @ str '', '' @ text_join (str '', '') ss @ str '')'') (pp 0 a @ [TComma] @ commas (map (pp 0) (b # args)) @ [TRParen]) rest" for rest
    using s by (intro lexes_append [OF _ lexes_append [OF lexes_comma ss(2)]]) (auto simp: writes_def delim_def str_def of_char_def)
  then show ?case using s ss(1) ss2 by (auto simp: writes_def)
qed

lemma default_writes: "default_ok m e \<Longrightarrow> \<exists>s. writes e s \<and> (m \<or> plain_start s)"
proof (induction m e rule: default_ok.induct)
  case (1 m l)
  then show ?case using writes_literal by blast
next
  case (2 m e)
  then obtain s where s: "writes e s" "plain_start s" by auto
  have "pp 15 e = pp 0 e" using 2 default_ok_level [of False e] pp_parens(2) [of e 15] by auto
  moreover have "lexes (str ''-'' @ s) ([TMinus] @ pp 0 e) rest" if "delim rest" for rest
    using s that plain_start_append [OF s(2), of rest]
    by (intro lexes_append lexes_minus) (auto simp: writes_def plain_start_def)
  ultimately have "writes (XUnary UNeg e) (str ''-'' @ s)" using s by (simp add: writes_def parens_def unop_token_def)
  then show ?case using 2 by auto
next
  case (3 m f args dis)
  then have "\<forall>a \<in> set args. \<exists>s. writes a s" by (auto simp: list_all_iff)
  then obtain ss where ss: "collect_results (map default_expr_to_text args) = Inr ss"
    "\<And>rest. lexes (text_join (str '', '') ss @ str '')'') (commas (map (pp 0) args) @ [TRParen]) rest"
    using writes_args by blast
  have "lexes (f @ str ''('' @ text_join (str '', '') ss @ str '')'') ([TIdent f] @ [TLParen] @ commas (map (pp 0) args) @ [TRParen]) rest" for rest
    using 3 by (intro lexes_append [OF lexes_name lexes_append [OF lexes_marks(1) ss(2)]]) (auto simp: delim_def str_def of_char_def)
  then have "writes (XFunction f args dis) (f @ str ''('' @ text_join (str '', '') ss @ str '')'')"
    using ss 3 by (simp add: writes_def parens_def)
  then show ?case using 3 plain_name_start plain_start_append by auto
next
  case (4 m e ty)
  then obtain s where s: "writes e s" "plain_start s" by auto
  have "pp 16 e = pp 0 e" using 4 default_ok_level [of False e] pp_parens(2) [of e 16] by auto
  moreover have "lexes (s @ str ''::'' @ ty) (pp 0 e @ [TDoubleColon] @ [TIdent ty]) rest" if "delim rest" for rest
    using s that 4 by (intro lexes_append lexes_name lexes_marks) (auto simp: writes_def delim_def str_def of_char_def)
  ultimately have "writes (XCast e ty) (s @ str ''::'' @ ty)" using s by (simp add: writes_def parens_def)
  then show ?case using s plain_start_append by blast
qed auto

text \<open>A column default survives the catalogue: for literals other than floats, ASCII strings,
  calls of functions and casts with plain names, and a leading minus, the text that
  \<open>CREATE TABLE\<close> stores is read back at insertion as the same expression.\<close>

theorem default_roundtrip:
  assumes "default_ok True e"
  shows "\<exists>s. default_expr_to_text e = Inr s \<and> parse_expr_text s = Inr e"
proof -
  obtain s where s: "writes e s" using default_writes [OF assms] by blast
  then have "tokenize s = Inr (pp 0 e @ [TEof])" by (auto simp: writes_def delim_def intro!: lexes_Nil)
  moreover have "parse_expr (rec_n (length (pp 0 e @ [TEof]))) 0 (pp 0 e @ [TEof]) = Inr (e, [TEof])"
    using default_ok_level [OF assms] by (intro rec.expr_inverts) (auto simp: follow_simps)
  ultimately have "parse_expr_text s = Inr e"
    by (simp add: parse_expr_text_def parse_text_def run_expr_def rec_n_def)
  then show ?thesis using s by (auto simp: writes_def)
qed

theorem default_roundtrip_witness:
  "\<exists>s. default_expr_to_text (XCast (XFunction [110] [XLiteral (LText [115])] False) [114]) = Inr s \<and>
     parse_expr_text s = Inr (XCast (XFunction [110] [XLiteral (LText [115])] False) [114])"
proof (rule default_roundtrip)
  have "plain_name [110]" "plain_name [114]" by code_simp+
  then show "default_ok True (XCast (XFunction [110] [XLiteral (LText [115])] False) [114])" by simp
qed

lemma f64_to_string_one: "f64_to_string 0x3FF0000000000000 = [49]"
proof -
  have fr: "f64_fraction 0x3FF0000000000000 = (2 ^ 52, 2 ^ 52)"
    by (simp add: f64_fraction_def Let_def)
  have bl: "bit_length 1 = 1" by (simp add: bit_length.simps)
  have "f64_of_fraction 1 1 = 0x3FF0000000000000"
    by (simp add: f64_of_fraction_def bl scaled_def round_half_even_def Let_def)
  then have "digits_at 0x3FF0000000000000 (2 ^ 52) (2 ^ 52) 1 = Some (1, 0)"
    by (simp add: digits_at_def dec_exponent_def ten_scaled_def rounds_to_def dec_digits.simps Let_def)
  then have "first_digits 0x3FF0000000000000 (2 ^ 52) (2 ^ 52) [1..<18] = (1, 0)"
    by (simp add: upt_rec)
  then show ?thesis
    by (simp add: f64_to_string_def f64_magnitude_def Let_def fr dec_digits.simps)
qed

text \<open>Defaults that do not survive: a doubly negated default is stored as a comment, so that
  reading it back fails, the minus of a negated operand of a cast moves out of the cast, and
  the float \<open>1.0\<close> is stored as the integer \<open>1\<close>.\<close>

theorem default_changes:
  "default_expr_to_text (XUnary UNeg (XUnary UNeg (XLiteral (LInt 1)))) = Inr [45, 45, 49] \<and>
   parse_expr_text [45, 45, 49] = Inl (ParseError (UnexpectedInExpr TEof)) \<and>
   default_expr_to_text (XCast (XUnary UNeg (XLiteral (LInt 1))) [116]) = Inr [45, 49, 58, 58, 116] \<and>
   parse_expr_text [45, 49, 58, 58, 116] = Inr (XUnary UNeg (XCast (XLiteral (LInt 1)) [116])) \<and>
   default_expr_to_text (XLiteral (LFloat 0x3FF0000000000000)) = Inr [49] \<and>
   parse_expr_text [49] = Inr (XLiteral (LInt 1))"
proof (intro conjI)
  show "default_expr_to_text (XLiteral (LFloat 0x3FF0000000000000)) = Inr [49]"
    by (simp add: literal_text_def f64_to_string_one)
qed code_simp+

end
