(* ===== verification/Roles.thy ===== *)
theory Roles
  imports Sql_Stmts
begin

text \<open>
  The access-control catalogues: roles (\<open>wire/roles.rs\<close>), memberships
  (\<open>wire/role_members.rs\<close>) and privileges (\<open>wire/privileges.rs\<close>), with the encoding of their rows
  (\<open>synapse/mod.rs\<close>). Each catalogue is a table of the database, the ordered map from its keys to
  its rows that \<open>read\<close>, \<open>write\<close>, \<open>delete\<close> and \<open>scan\<close> see; I/O errors of the storage are not
  modelled. The derivation of credentials (PBKDF2, HMAC and SHA-256), base64, the random salt and
  the clock are parameters.
\<close>

section \<open>Rows\<close>

definition encode_cell :: "bytes option \<Rightarrow> bytes" where
  "encode_cell c = (case c of Some d \<Rightarrow> be32 (length d) @ d | None \<Rightarrow> [255, 255, 255, 255])"

definition encode_cells :: "bytes option list \<Rightarrow> bytes" where
  "encode_cells cells = concat (map encode_cell cells)"

function decode_cell :: "bytes \<Rightarrow> nat \<Rightarrow> bytes option" where
  "decode_cell v idx =
     (if length v < 4 then None
      else (let len = of_be (take 4 v); r = drop 4 v in
        if 2 ^ 31 \<le> len then (if idx = 0 then None else decode_cell r (idx - 1))
        else if length r < len then None
        else if idx = 0 then Some (take len r)
        else decode_cell (drop len r) (idx - 1)))"
  by pat_completeness auto
termination
  by (relation "measure (length \<circ> fst)") auto

declare decode_cell.simps [simp del]

definition text_cell :: "bytes \<Rightarrow> bytes option" where
  "text_cell s = Some s"

definition int_cell :: "int \<Rightarrow> bytes option" where
  "int_cell n = Some ((if n < 0 then str ''-'' else []) @ dec_digits (nat \<bar>n\<bar>))"

datatype rbac_error =
    BadCell nat | BadInt | BadBase64 | CorruptKey | RoleExists bytes | RoleMissing bytes | SelfMembership bytes
  | MembershipCycle bytes bytes

definition cell_str :: "bytes \<Rightarrow> nat \<Rightarrow> rbac_error + bytes" where
  "cell_str v idx = (case decode_cell v idx of Some b \<Rightarrow> if valid_utf8 b then Inr b else Inl (BadCell idx) | None \<Rightarrow> Inl (BadCell idx))"

definition ok_or :: "'a \<Rightarrow> 'e + 'a \<Rightarrow> 'a" where
  "ok_or d r = (case r of Inr x \<Rightarrow> x | Inl _ \<Rightarrow> d)"

text \<open>\<open>str::parse\<close> at \<open>i64\<close> and \<open>u32\<close>.\<close>

definition parse_signed :: "bytes \<Rightarrow> int option" where
  "parse_signed s =
     (let neg = (peek_byte s = Some 45); ds = (if peek_byte s \<in> {Some 43, Some 45} then tl s else s)
      in if ds = [] \<or> \<not> list_all ascii_digit ds then None else Some (if neg then - digits_value ds else digits_value ds))"

definition parse_as_i64 :: "bytes \<Rightarrow> int option" where
  "parse_as_i64 s = (case parse_signed s of Some n \<Rightarrow> if - (2 ^ 63) \<le> n \<and> n < 2 ^ 63 then Some n else None | None \<Rightarrow> None)"

definition parse_as_u32 :: "bytes \<Rightarrow> nat option" where
  "parse_as_u32 s =
     (case parse_signed s of Some n \<Rightarrow> if peek_byte s \<noteq> Some 45 \<and> n < 2 ^ 32 then Some (nat n) else None | None \<Rightarrow> None)"

text \<open>The tables of the three catalogues.\<close>

type_synonym rows = "(bytes \<times> bytes) list"

record catalog =
  ct_roles :: rows
  ct_members :: rows
  ct_privileges :: rows

section \<open>Memberships\<close>

definition member_key :: "bytes \<Rightarrow> bytes \<Rightarrow> bytes" where
  "member_key member grp = member @ [0] @ grp"

fun direct_memberships :: "rows \<Rightarrow> bytes \<Rightarrow> rbac_error + bytes list" where
  "direct_memberships [] role = Inr []"
| "direct_memberships ((k, v) # rs) role =
     attempt (cell_str v 1) (\<lambda>m.
       if m = role then attempt (cell_str v 2) (\<lambda>g. attempt (direct_memberships rs role) (\<lambda>gs. Inr (g # gs)))
       else direct_memberships rs role)"

text \<open>One popped role: the groups not seen before join the result and the frontier, a stack.\<close>

fun visit_groups :: "bytes list \<Rightarrow> bytes list \<Rightarrow> bytes list \<Rightarrow> bytes list \<times> bytes list" where
  "visit_groups [] result frontier = (result, frontier)"
| "visit_groups (g # gs) result frontier =
     (if g \<in> set result then visit_groups gs result frontier else visit_groups gs (result @ [g]) (g # frontier))"

definition groups_of :: "rows \<Rightarrow> bytes set" where
  "groups_of rs = {g. \<exists>e \<in> set rs. cell_str (snd e) 2 = Inr g}"

lemma finite_groups_of: "finite (groups_of rs)"
proof -
  have "groups_of rs \<subseteq> (\<lambda>e. ok_or [] (cell_str (snd e) 2)) ` set rs"
    by (force simp: groups_of_def ok_or_def)
  then show ?thesis using finite_subset by blast
qed

lemma direct_memberships_sub: "direct_memberships rs role = Inr gs \<Longrightarrow> set gs \<subseteq> groups_of rs"
proof (induction rs arbitrary: gs)
  case (Cons e rs)
  obtain k v where e: "e = (k, v)" by (cases e)
  have sub: "groups_of rs \<subseteq> groups_of (e # rs)" by (auto simp: groups_of_def)
  show ?case
    using Cons sub by (fastforce simp: e attempt_Inr_iff groups_of_def split: if_splits)
qed simp

lemma visit_groups_spec:
  "visit_groups gs result frontier = (result', frontier') \<Longrightarrow>
   \<exists>new. set new = set gs - set result \<and> distinct new \<and> result' = result @ new \<and> frontier' = rev new @ frontier"
proof (induction gs arbitrary: result frontier)
  case (Cons g gs)
  show ?case
  proof (cases "g \<in> set result")
    case True
    then show ?thesis using Cons.IH [of result frontier] Cons.prems by auto
  next
    case False
    then obtain new where "set new = set gs - set (result @ [g])" "distinct new" "result' = (result @ [g]) @ new" "frontier' = rev new @ g # frontier"
      using Cons.IH [of "result @ [g]" "g # frontier"] Cons.prems by auto
    then show ?thesis using False by (intro exI [of _ "g # new"]) auto
  qed
qed simp

lemma visit_groups_measure:
  assumes "direct_memberships rs c = Inr gs" "visit_groups gs result frontier = (result', frontier')"
  shows "card (groups_of rs - set result') < card (groups_of rs - set result) \<or> (result' = result \<and> frontier' = frontier)"
proof -
  obtain new where n: "set new = set gs - set result" "distinct new" "result' = result @ new" "frontier' = rev new @ frontier"
    using visit_groups_spec [OF assms(2)] by blast
  show ?thesis
  proof (cases "new = []")
    case False
    then obtain g where "g \<in> set new" by (cases new) auto
    then have "g \<in> groups_of rs - set result" "g \<in> set result'" using n direct_memberships_sub [OF assms(1)] by auto
    moreover have "groups_of rs - set result' \<subseteq> groups_of rs - set result" using n by auto
    ultimately have "groups_of rs - set result' \<subset> groups_of rs - set result" by blast
    then show ?thesis using psubset_card_mono finite_groups_of by (metis finite_Diff)
  qed (use n in auto)
qed

function walk_memberships :: "rows \<Rightarrow> bytes list \<Rightarrow> bytes list \<Rightarrow> rbac_error + bytes list" where
  "walk_memberships rs result frontier =
     (case frontier of
        [] \<Rightarrow> Inr result
      | current # rest \<Rightarrow>
          attempt (direct_memberships rs current) (\<lambda>gs.
            case visit_groups gs result rest of (result', frontier') \<Rightarrow> walk_memberships rs result' frontier'))"
  by pat_completeness auto
termination
proof (relation "measures [\<lambda>(rs, result, frontier). card (groups_of rs - set result), \<lambda>(rs, result, frontier). length frontier]", goal_cases)
  case 2
  then show ?case by (auto dest!: visit_groups_measure [OF _ sym] split: prod.splits)
qed simp

declare walk_memberships.simps [simp del]

definition all_memberships :: "rows \<Rightarrow> bytes \<Rightarrow> rbac_error + bytes list" where
  "all_memberships rs role = walk_memberships rs [] [role]"

definition grant_membership :: "bytes \<Rightarrow> bytes \<Rightarrow> rows \<Rightarrow> rbac_error + rows" where
  "grant_membership member grp rs =
     (if member = grp then Inl (SelfMembership member)
      else attempt (all_memberships rs member) (\<lambda>ms.
        if grp \<in> set ms then Inl (MembershipCycle member grp)
        else attempt (all_memberships rs grp) (\<lambda>gs.
          if member \<in> set gs then Inl (MembershipCycle member grp)
          else (let key = member_key member grp in
            Inr (bt_insert key (encode_cells [text_cell (from_utf8_lossy key), text_cell member, text_cell grp]) rs)))))"

definition revoke_membership :: "bytes \<Rightarrow> bytes \<Rightarrow> rows \<Rightarrow> rows" where
  "revoke_membership member grp rs = bt_remove (member_key member grp) rs"

fun rows_touching :: "bytes \<Rightarrow> rows \<Rightarrow> rbac_error + bytes list" where
  "rows_touching role [] = Inr []"
| "rows_touching role ((k, v) # rs) =
     attempt (cell_str v 1) (\<lambda>m. attempt (cell_str v 2) (\<lambda>g. attempt (rows_touching role rs) (\<lambda>ks.
       Inr (if m = role \<or> g = role then k # ks else ks))))"

definition revoke_all :: "bytes \<Rightarrow> rows \<Rightarrow> rbac_error + rows" where
  "revoke_all role rs = attempt (rows_touching role rs) (\<lambda>ks. Inr (fold bt_remove ks rs))"

section \<open>Privileges\<close>

datatype privilege_repr = RSelect | RInsert | RUpdate | RDelete | RCreate | RDrop | RUsage | RAll

definition privilege_str :: "privilege_repr \<Rightarrow> bytes" where
  "privilege_str p =
     (case p of RSelect \<Rightarrow> str ''select'' | RInsert \<Rightarrow> str ''insert'' | RUpdate \<Rightarrow> str ''update'' | RDelete \<Rightarrow> str ''delete''
      | RCreate \<Rightarrow> str ''create'' | RDrop \<Rightarrow> str ''drop'' | RUsage \<Rightarrow> str ''usage'' | RAll \<Rightarrow> str ''all'')"

definition privilege_from_ast :: "privilege \<Rightarrow> privilege_repr" where
  "privilege_from_ast p =
     (case p of PrSelect \<Rightarrow> RSelect | PrInsert \<Rightarrow> RInsert | PrUpdate \<Rightarrow> RUpdate | PrDelete \<Rightarrow> RDelete | PrCreate \<Rightarrow> RCreate
      | PrDrop \<Rightarrow> RDrop | PrUsage \<Rightarrow> RUsage)"

record grant_object_repr =
  go_kind :: bytes
  go_name :: bytes

definition object_table :: "bytes \<Rightarrow> grant_object_repr" where
  "object_table n = \<lparr>go_kind = str ''TABLE'', go_name = n\<rparr>"

definition object_database :: grant_object_repr where
  "object_database = \<lparr>go_kind = str ''DATABASE'', go_name = []\<rparr>"

definition object_from_ast :: "grant_object \<Rightarrow> grant_object_repr" where
  "object_from_ast o' = (case o' of GTable t \<Rightarrow> object_table t | GDatabase \<Rightarrow> object_database)"

definition privilege_key :: "bytes \<Rightarrow> bytes \<Rightarrow> bytes \<Rightarrow> bytes \<Rightarrow> bytes" where
  "privilege_key grantee p ty name = grantee @ [0] @ p @ [0] @ ty @ [0] @ name"

definition grant_privilege :: "bytes \<Rightarrow> privilege_repr \<Rightarrow> grant_object_repr \<Rightarrow> rows \<Rightarrow> rows" where
  "grant_privilege grantee p obj rs =
     (let key = privilege_key grantee (privilege_str p) (go_kind obj) (go_name obj)
      in bt_insert key
           (encode_cells [text_cell (from_utf8_lossy key), text_cell grantee, text_cell (privilege_str p), text_cell (go_kind obj),
              text_cell (go_name obj)]) rs)"

fun object_rows :: "bytes \<Rightarrow> grant_object_repr \<Rightarrow> rows \<Rightarrow> rbac_error + bytes list" where
  "object_rows grantee obj [] = Inr []"
| "object_rows grantee obj ((k, v) # rs) =
     attempt (cell_str v 1) (\<lambda>g.
       if g \<noteq> grantee then object_rows grantee obj rs
       else attempt (cell_str v 3) (\<lambda>t.
         if t \<noteq> go_kind obj then object_rows grantee obj rs
         else attempt (cell_str v 4) (\<lambda>n. attempt (object_rows grantee obj rs) (\<lambda>ks.
           Inr (if n = go_name obj then k # ks else ks)))))"

definition revoke_privilege :: "bytes \<Rightarrow> privilege_repr \<Rightarrow> grant_object_repr \<Rightarrow> rows \<Rightarrow> rbac_error + rows" where
  "revoke_privilege grantee p obj rs =
     (if p = RAll then attempt (object_rows grantee obj rs) (\<lambda>ks. Inr (fold bt_remove ks rs))
      else Inr (bt_remove (privilege_key grantee (privilege_str p) (go_kind obj) (go_name obj)) rs))"

fun role_holds :: "bytes \<Rightarrow> privilege_repr \<Rightarrow> grant_object_repr \<Rightarrow> rows \<Rightarrow> rbac_error + bool" where
  "role_holds cand p obj [] = Inr False"
| "role_holds cand p obj ((k, v) # rs) =
     attempt (cell_str v 1) (\<lambda>g.
       if g \<noteq> cand then role_holds cand p obj rs
       else attempt (cell_str v 3) (\<lambda>t.
         if t \<noteq> go_kind obj then role_holds cand p obj rs
         else attempt (cell_str v 4) (\<lambda>n.
           if n \<noteq> go_name obj then role_holds cand p obj rs
           else attempt (cell_str v 2) (\<lambda>stored.
             if stored = privilege_str RAll \<or> stored = privilege_str p then Inr True else role_holds cand p obj rs))))"

fun any_holds :: "bytes list \<Rightarrow> privilege_repr \<Rightarrow> grant_object_repr \<Rightarrow> rows \<Rightarrow> rbac_error + bool" where
  "any_holds [] p obj rs = Inr False"
| "any_holds (c # cs) p obj rs = attempt (role_holds c p obj rs) (\<lambda>b. if b then Inr True else any_holds cs p obj rs)"

definition has_privilege :: "catalog \<Rightarrow> bytes \<Rightarrow> privilege_repr \<Rightarrow> grant_object_repr \<Rightarrow> rbac_error + bool" where
  "has_privilege c role p obj =
     attempt (all_memberships (ct_members c) role) (\<lambda>ms. any_holds (role # ms) p obj (ct_privileges c))"

section \<open>Roles\<close>

record role_attributes =
  ra_superuser :: bool
  ra_can_login :: bool

record scram_credential =
  sm_salt :: bytes
  sm_iterations :: nat
  sm_stored_key :: bytes
  sm_server_key :: bytes

text \<open>What the code takes from other crates: PBKDF2, HMAC and SHA-256, and base64.\<close>

record auth_env =
  ae_pbkdf2 :: "bytes \<Rightarrow> bytes \<Rightarrow> nat \<Rightarrow> bytes"
  ae_hmac :: "bytes \<Rightarrow> bytes \<Rightarrow> bytes"
  ae_sha256 :: "bytes \<Rightarrow> bytes"
  ae_encode :: "bytes \<Rightarrow> bytes"
  ae_decode :: "bytes \<Rightarrow> bytes option"

definition derive_credential :: "auth_env \<Rightarrow> bytes \<Rightarrow> bytes \<Rightarrow> nat \<Rightarrow> scram_credential" where
  "derive_credential env password salt iterations =
     (let salted_password = ae_pbkdf2 env password salt iterations;
          client_key = ae_hmac env salted_password (str ''Client Key'')
      in \<lparr>sm_salt = salt, sm_iterations = iterations, sm_stored_key = ae_sha256 env client_key,
          sm_server_key = ae_hmac env salted_password (str ''Server Key'')\<rparr>)"

definition flag_text :: "bool \<Rightarrow> bytes" where
  "flag_text b = (if b then str ''t'' else str ''f'')"

definition cell_flag :: "bool \<Rightarrow> bytes \<Rightarrow> nat \<Rightarrow> bool" where
  "cell_flag d v idx = (case cell_str v idx of Inr s \<Rightarrow> s = str ''t'' | Inl _ \<Rightarrow> d)"

definition row_attributes :: "bytes \<Rightarrow> role_attributes" where
  "row_attributes v = \<lparr>ra_superuser = cell_flag False v 6, ra_can_login = cell_flag True v 7\<rparr>"

definition roles_empty :: "rows \<Rightarrow> bool" where
  "roles_empty rs \<longleftrightarrow> rs = []"

definition find_role :: "bytes \<Rightarrow> rows \<Rightarrow> role_attributes option" where
  "find_role n rs = map_option row_attributes (bt_get rs n)"

definition find_credential :: "auth_env \<Rightarrow> bytes \<Rightarrow> rows \<Rightarrow> rbac_error + scram_credential option" where
  "find_credential env n rs =
     (case bt_get rs n of
        None \<Rightarrow> Inr None
      | Some v \<Rightarrow>
          attempt (cell_str v 1) (\<lambda>salt64.
          attempt (cell_str v 2) (\<lambda>it.
          case parse_as_u32 it of None \<Rightarrow> Inl BadInt | Some iterations \<Rightarrow>
          attempt (cell_str v 3) (\<lambda>stored64.
          attempt (cell_str v 4) (\<lambda>server64.
          case ae_decode env salt64 of None \<Rightarrow> Inl BadBase64 | Some salt \<Rightarrow>
          (case ae_decode env stored64 of None \<Rightarrow> Inl BadBase64 | Some stored \<Rightarrow>
           if length stored \<noteq> 32 then Inl CorruptKey
           else (case ae_decode env server64 of None \<Rightarrow> Inl BadBase64 | Some server \<Rightarrow>
             if length server \<noteq> 32 then Inl CorruptKey
             else Inr (Some \<lparr>sm_salt = salt, sm_iterations = iterations, sm_stored_key = stored, sm_server_key = server\<rparr>))))))))"

definition verify_password :: "auth_env \<Rightarrow> bytes \<Rightarrow> bytes \<Rightarrow> rows \<Rightarrow> rbac_error + bool" where
  "verify_password env n password rs =
     attempt (find_credential env n rs) (\<lambda>cred.
       case cred of
         None \<Rightarrow> Inr False
       | Some cr \<Rightarrow>
           (let cand = derive_credential env password (sm_salt cr) (sm_iterations cr)
            in Inr (sm_stored_key cand = sm_stored_key cr \<and> sm_server_key cand = sm_server_key cr)))"

definition scan_roles :: "rows \<Rightarrow> (bytes \<times> role_attributes) list" where
  "scan_roles rs =
     List.map_filter (\<lambda>(k, v). case cell_str v 0 of Inr n \<Rightarrow> Some (n, row_attributes v) | Inl _ \<Rightarrow> None) rs"

text \<open>The salt and the time are those of the call.\<close>

definition upsert_with_attrs ::
  "auth_env \<Rightarrow> bytes \<Rightarrow> int \<Rightarrow> bytes \<Rightarrow> bytes option \<Rightarrow> bool \<Rightarrow> bool \<Rightarrow> rows \<Rightarrow> rows" where
  "upsert_with_attrs env salt now n password superuser can_login rs =
     (let (salt64, it, stored64, server64) =
        (case password of
           Some pw \<Rightarrow> (let cr = derive_credential env pw salt 4096
             in (ae_encode env (sm_salt cr), int (sm_iterations cr), ae_encode env (sm_stored_key cr), ae_encode env (sm_server_key cr)))
         | None \<Rightarrow> ([], 0, [], []))
      in bt_insert n
           (encode_cells [text_cell n, text_cell salt64, int_cell it, text_cell stored64, text_cell server64, int_cell now,
              text_cell (flag_text superuser), text_cell (flag_text can_login)]) rs)"

text \<open>Grants one after the other: those before an error stay.\<close>

fun grant_each :: "(bytes \<times> bytes) list \<Rightarrow> catalog \<Rightarrow> rbac_error option \<times> catalog" where
  "grant_each [] c = (None, c)"
| "grant_each ((m, g) # es) c =
     (case grant_membership m g (ct_members c) of Inl e \<Rightarrow> (Some e, c) | Inr ms \<Rightarrow> grant_each es (c\<lparr>ct_members := ms\<rparr>))"

definition create_role ::
  "auth_env \<Rightarrow> bytes \<Rightarrow> int \<Rightarrow> bytes \<Rightarrow> bool \<Rightarrow> bool \<Rightarrow> bytes option \<Rightarrow> bytes list \<Rightarrow> catalog \<Rightarrow> rbac_error option \<times> catalog" where
  "create_role env salt now n superuser can_login password in_role c =
     (if find_role n (ct_roles c) \<noteq> None then (Some (RoleExists n), c)
      else (let c' = c\<lparr>ct_roles := upsert_with_attrs env salt now n password superuser can_login (ct_roles c)\<rparr>
            in grant_each (map (\<lambda>g. (n, g)) in_role) c'))"

definition alter_role ::
  "auth_env \<Rightarrow> bytes \<Rightarrow> int \<Rightarrow> bytes \<Rightarrow> bool option \<Rightarrow> bool option \<Rightarrow> bytes option \<Rightarrow> rows \<Rightarrow> rbac_error + rows" where
  "alter_role env salt now n superuser can_login password rs =
     (case bt_get rs n of
        None \<Rightarrow> Inl (RoleMissing n)
      | Some v \<Rightarrow>
          (let new_super = (case superuser of Some b \<Rightarrow> b | None \<Rightarrow> cell_flag False v 6);
               new_login = (case can_login of Some b \<Rightarrow> b | None \<Rightarrow> cell_flag True v 7)
           in case password of
                Some pw \<Rightarrow> Inr (upsert_with_attrs env salt now n (Some pw) new_super new_login rs)
              | None \<Rightarrow>
                  Inr (bt_insert n
                    (encode_cells [text_cell n, text_cell (ok_or [] (cell_str v 1)), text_cell (ok_or (str ''0'') (cell_str v 2)),
                       text_cell (ok_or [] (cell_str v 3)), text_cell (ok_or [] (cell_str v 4)),
                       int_cell (case parse_as_i64 (ok_or (str ''0'') (cell_str v 5)) of Some t \<Rightarrow> t | None \<Rightarrow> 0),
                       text_cell (flag_text new_super), text_cell (flag_text new_login)]) rs)))"

definition drop_role :: "bytes \<Rightarrow> bool \<Rightarrow> catalog \<Rightarrow> rbac_error option \<times> catalog" where
  "drop_role n if_exists c =
     (if find_role n (ct_roles c) = None then (if if_exists then None else Some (RoleMissing n), c)
      else (let c' = c\<lparr>ct_roles := bt_remove n (ct_roles c)\<rparr>
            in case revoke_all n (ct_members c') of
                 Inl e \<Rightarrow> (Some e, c')
               | Inr ms \<Rightarrow> (None, c'\<lparr>ct_members := ms\<rparr>)))"

definition bootstrap_if_empty :: "auth_env \<Rightarrow> bytes \<Rightarrow> int \<Rightarrow> bytes \<Rightarrow> bytes \<Rightarrow> rows \<Rightarrow> rows" where
  "bootstrap_if_empty env salt now user password rs =
     (if roles_empty rs then upsert_with_attrs env salt now user (Some password) True True rs else rs)"

text \<open>Opening the store rewrites the rows of installations older than the role attributes.\<close>

definition migrate_row :: "bytes \<Rightarrow> rows \<Rightarrow> rbac_error + rows" where
  "migrate_row v rs =
     (case cell_str v 6 of
        Inr _ \<Rightarrow> Inr rs
      | Inl _ \<Rightarrow>
          attempt (cell_str v 0) (\<lambda>n. attempt (cell_str v 1) (\<lambda>salt. attempt (cell_str v 2) (\<lambda>it.
          attempt (cell_str v 3) (\<lambda>stored. attempt (cell_str v 4) (\<lambda>server.
            Inr (bt_insert n
              (encode_cells [text_cell n, text_cell salt, text_cell it, text_cell stored, text_cell server,
                 int_cell (case parse_as_i64 (ok_or (str ''0'') (cell_str v 5)) of Some t \<Rightarrow> t | None \<Rightarrow> 0),
                 text_cell (str ''t''), text_cell (str ''t'')]) rs)))))))"

text \<open>A row that cannot be rewritten stops the migration; the rows before it stay rewritten.\<close>

fun migrate_legacy_rows :: "rows \<Rightarrow> rows \<Rightarrow> rbac_error option \<times> rows" where
  "migrate_legacy_rows [] rs = (None, rs)"
| "migrate_legacy_rows ((k, v) # scanned) rs =
     (case migrate_row v rs of
        Inl e \<Rightarrow> (Some e, rs)
      | Inr rs' \<Rightarrow> migrate_legacy_rows scanned rs')"

section \<open>Rows decode to what was stored\<close>

lemma decode_cell_encode:
  assumes "\<forall>c \<in> set cells. case c of Some d \<Rightarrow> length d < 2 ^ 31 | None \<Rightarrow> True" "i < length cells"
  shows "decode_cell (encode_cells cells) i = cells ! i"
  using assms
proof (induction cells arbitrary: i)
  case (Cons c cells)
  have IH: "i - 1 < length cells \<Longrightarrow> decode_cell (encode_cells cells) (i - 1) = cells ! (i - 1)"
    using Cons by simp
  show ?case
  proof (cases c)
    case None
    have "of_be [255, 255, 255, 255] = 2 ^ 32 - 1" by (simp add: of_be_def)
    then show ?thesis
      using None IH Cons.prems(2) by (subst decode_cell.simps) (auto simp: encode_cells_def encode_cell_def Let_def nth_Cons')
  next
    case (Some d)
    then have d: "length d < 2 ^ 31" using Cons.prems(1) by simp
    then have "of_be (be32 (length d)) = length d" by (intro of_be32) simp
    then show ?thesis
      using Some d IH Cons.prems(2)
      by (subst decode_cell.simps) (auto simp: encode_cells_def encode_cell_def Let_def nth_Cons' simp del: be_bytes.simps)
  qed
qed simp

lemma cell_str_encode:
  assumes "list_all (\<lambda>s. length s < 2 ^ 31) ss" "i < length ss" "valid_utf8 (ss ! i)"
  shows "cell_str (encode_cells (map text_cell ss)) i = Inr (ss ! i)"
proof -
  have "decode_cell (encode_cells (map text_cell ss)) i = map text_cell ss ! i"
    using assms by (intro decode_cell_encode) (auto simp: text_cell_def list_all_iff)
  then show ?thesis using assms by (simp add: cell_str_def text_cell_def)
qed

end
