(* ===== verification/Rbac.thy ===== *)
theory Rbac
  imports Roles
begin

text \<open>
  Authorisation (\<open>executor/rbac.rs\<close>): the identity a connection runs as, the predicate \<open>check\<close> that
  every statement of the executor passes, the statements that change the catalogues, and the way
  the wire session reaches the predicate (\<open>wire/session.rs\<close>). The permission texts are values of
  \<open>denial\<close>.
\<close>

section \<open>Actors\<close>

datatype denial = DeniedSystemTable | DeniedAdmin | DeniedLacks bytes privilege_repr grant_object_repr

record actor =
  a_rolname :: bytes
  a_superuser :: bool
  a_unrestricted :: bool
  a_memberships :: "bytes list"

definition actor_unrestricted :: actor where
  "actor_unrestricted = \<lparr>a_rolname = [], a_superuser = True, a_unrestricted = True, a_memberships = []\<rparr>"

definition role_store_new :: "catalog \<Rightarrow> rbac_error option \<times> catalog" where
  "role_store_new c = (case migrate_legacy_rows (ct_roles c) (ct_roles c) of (e, rs) \<Rightarrow> (e, c\<lparr>ct_roles := rs\<rparr>))"

definition actor_for_role :: "catalog \<Rightarrow> bytes \<Rightarrow> (rbac_error + actor) \<times> catalog" where
  "actor_for_role c n =
     (case role_store_new c of
        (Some e, c') \<Rightarrow> (Inl e, c')
      | (None, c') \<Rightarrow>
          (case find_role n (ct_roles c') of
             None \<Rightarrow> Inl (RoleMissing n)
           | Some attrs \<Rightarrow> attempt (all_memberships (ct_members c') n) (\<lambda>ms.
               Inr \<lparr>a_rolname = n, a_superuser = ra_superuser attrs, a_unrestricted = False, a_memberships = ms\<rparr>), c'))"

section \<open>The tables of a statement\<close>

definition is_internal_table :: "bytes \<Rightarrow> bool" where
  "is_internal_table n \<longleftrightarrow> take 5 n = str ''_tpt_''"

function trim_pg_catalog :: "bytes \<Rightarrow> bytes" where
  "trim_pg_catalog n = (if take 11 n = str ''pg_catalog.'' then trim_pg_catalog (drop 11 n) else n)"
  by pat_completeness auto
termination
proof (relation "measure length", goal_cases)
  case (2 n)
  then have "n \<noteq> []" by (auto simp: str_def)
  then show ?case by simp
qed simp

declare trim_pg_catalog.simps [simp del]

definition push_ref :: "(sql_expr, select_stmt) table_ref \<Rightarrow> bytes list" where
  "push_ref r = (if tr_subquery r = None \<and> tr_func_args r = None then [trim_pg_catalog (tr_name r)] else [])"

definition collect_from :: "(sql_expr, select_stmt) table_with_joins \<Rightarrow> bytes list" where
  "collect_from t = push_ref (tw_primary t) @ concat (map (\<lambda>j. push_ref (jn_table j)) (tw_joins t))"

definition from_tables :: "(sql_expr, select_stmt) table_with_joins option \<Rightarrow> bytes list" where
  "from_tables f = (case f of Some t \<Rightarrow> collect_from t | None \<Rightarrow> [])"

fun collect_select :: "select_stmt \<Rightarrow> bytes list" where
  "collect_select (SelectStmt ctes d ps frm wh g h ob l off un) =
     from_tables frm @ (case un of Some (_, rhs) \<Rightarrow> collect_select rhs | None \<Rightarrow> []) @
     concat (map (\<lambda>c. case c of Cte _ _ q _ \<Rightarrow> collect_select q) ctes)"

definition select_tables :: "select_stmt \<Rightarrow> bytes list" where
  "select_tables s = from_tables (ss_from s) @ collect_select s"

definition statement_tables :: "sql_stmt \<Rightarrow> bytes list" where
  "statement_tables st =
     (case st of
        SSelect s \<Rightarrow> select_tables s
      | SInsert i \<Rightarrow> [is_table i]
      | SUpdate u \<Rightarrow> [us_table u]
      | SDelete d \<Rightarrow> [ds_table d]
      | SCreateTable ct \<Rightarrow> [ctb_table ct]
      | SDropTable dt \<Rightarrow> [dt_table dt]
      | SCreateIndex ci \<Rightarrow> [ci_table ci]
      | _ \<Rightarrow> [])"

definition references_system_table :: "sql_stmt \<Rightarrow> bool" where
  "references_system_table st \<longleftrightarrow> list_ex is_internal_table (statement_tables st)"

section \<open>The check\<close>

definition require :: "catalog \<Rightarrow> actor \<Rightarrow> privilege_repr \<Rightarrow> grant_object_repr \<Rightarrow> denial + unit" where
  "require c a p obj =
     (if ok_or False (has_privilege c (a_rolname a) p obj) then Inr () else Inl (DeniedLacks (a_rolname a) p obj))"

fun require_tables :: "catalog \<Rightarrow> actor \<Rightarrow> privilege_repr \<Rightarrow> bytes list \<Rightarrow> denial + unit" where
  "require_tables c a p [] = Inr ()"
| "require_tables c a p (t # ts) = attempt (require c a p (object_table t)) (\<lambda>_. require_tables c a p ts)"

definition actor_check :: "catalog \<Rightarrow> actor \<Rightarrow> sql_stmt \<Rightarrow> denial + unit" where
  "actor_check c a st =
     (if a_unrestricted a \<or> a_superuser a then Inr ()
      else if references_system_table st then Inl DeniedSystemTable
      else
        (case st of
           SCreateRole _ \<Rightarrow> Inl DeniedAdmin
         | SAlterRole _ \<Rightarrow> Inl DeniedAdmin
         | SDropRole _ \<Rightarrow> Inl DeniedAdmin
         | SGrant _ \<Rightarrow> Inl DeniedAdmin
         | SRevoke _ \<Rightarrow> Inl DeniedAdmin
         | SCreateTable _ \<Rightarrow> require c a RCreate object_database
         | SCreateIndex _ \<Rightarrow> require c a RCreate object_database
         | SCreateFunction _ \<Rightarrow> require c a RCreate object_database
         | SCreateSequence _ \<Rightarrow> require c a RCreate object_database
         | SCreateTopic _ \<Rightarrow> require c a RCreate object_database
         | SAlterTable _ \<Rightarrow> require c a RCreate object_database
         | SAnalyze _ \<Rightarrow> require c a RCreate object_database
         | SDropTable _ \<Rightarrow> require c a RDrop object_database
         | SSelect s \<Rightarrow> require_tables c a RSelect (select_tables s)
         | SInsert i \<Rightarrow> require c a RInsert (object_table (is_table i))
         | SUpdate u \<Rightarrow> require c a RUpdate (object_table (us_table u))
         | SDelete d \<Rightarrow> require c a RDelete (object_table (ds_table d))
         | _ \<Rightarrow> Inr ()))"

text \<open>How a statement of a simple query reaches the check: \<open>COPY\<close>, transaction control, channels and
  the cursor operations are handled by the session itself, \<open>DECLARE CURSOR\<close> runs its query.\<close>

definition session_check :: "catalog \<Rightarrow> actor \<Rightarrow> sql_stmt \<Rightarrow> denial + unit" where
  "session_check c a st =
     (case st of
        SCopyIn _ \<Rightarrow> Inr () | SCopyOut _ \<Rightarrow> Inr () | SBegin \<Rightarrow> Inr () | SCommit \<Rightarrow> Inr () | SRollback \<Rightarrow> Inr ()
      | SListen _ \<Rightarrow> Inr () | SUnlisten _ \<Rightarrow> Inr () | SFetch _ \<Rightarrow> Inr () | SMoveCursor _ \<Rightarrow> Inr () | SCloseCursor _ \<Rightarrow> Inr ()
      | SDeclareCursor d \<Rightarrow> actor_check c a (SSelect (dc_query d))
      | _ \<Rightarrow> actor_check c a st)"

section \<open>Statements on the catalogues\<close>

definition execute_create_role :: "auth_env \<Rightarrow> bytes \<Rightarrow> int \<Rightarrow> create_role_stmt \<Rightarrow> catalog \<Rightarrow> rbac_error option \<times> catalog" where
  "execute_create_role env salt now st c =
     (case role_store_new c of
        (Some e, c') \<Rightarrow> (Some e, c')
      | (None, c') \<Rightarrow> create_role env salt now (cr_role_name st) (cr_superuser st) (cr_can_login st) (cr_password st) (cr_in_role st) c')"

definition execute_alter_role :: "auth_env \<Rightarrow> bytes \<Rightarrow> int \<Rightarrow> alter_role_stmt \<Rightarrow> catalog \<Rightarrow> rbac_error option \<times> catalog" where
  "execute_alter_role env salt now st c =
     (case role_store_new c of
        (Some e, c') \<Rightarrow> (Some e, c')
      | (None, c') \<Rightarrow> (case alter_role env salt now (ar_name st) (ar_superuser st) (ar_can_login st) (ar_password st) (ct_roles c') of
          Inl e \<Rightarrow> (Some e, c') | Inr rs \<Rightarrow> (None, c'\<lparr>ct_roles := rs\<rparr>)))"

definition execute_drop_role :: "drop_role_stmt \<Rightarrow> catalog \<Rightarrow> rbac_error option \<times> catalog" where
  "execute_drop_role st c =
     (case role_store_new c of
        (Some e, c') \<Rightarrow> (Some e, c')
      | (None, c') \<Rightarrow> drop_role (dr_name st) (dr_if_exists st) c')"

definition execute_grant :: "grant_stmt \<Rightarrow> catalog \<Rightarrow> rbac_error option \<times> catalog" where
  "execute_grant st c =
     (if gs_is_role_grant st then
        grant_each (concat (map (\<lambda>role. map (\<lambda>grantee. (grantee, role)) (gs_grantees st)) (gs_roles st))) c
      else
        (None, c\<lparr>ct_privileges :=
           fold (\<lambda>(p, grantee). grant_privilege grantee (privilege_from_ast p) (object_from_ast (gs_object st)))
             (concat (map (\<lambda>p. map (\<lambda>grantee. (p, grantee)) (gs_grantees st)) (gs_privileges st))) (ct_privileges c)\<rparr>))"

fun revoke_each :: "grant_object_repr \<Rightarrow> (privilege \<times> bytes) list \<Rightarrow> catalog \<Rightarrow> rbac_error option \<times> catalog" where
  "revoke_each obj [] c = (None, c)"
| "revoke_each obj ((p, grantee) # rest) c =
     (case revoke_privilege grantee (privilege_from_ast p) obj (ct_privileges c) of
        Inl e \<Rightarrow> (Some e, c)
      | Inr rs \<Rightarrow> revoke_each obj rest (c\<lparr>ct_privileges := rs\<rparr>))"

definition execute_revoke :: "grant_stmt \<Rightarrow> catalog \<Rightarrow> rbac_error option \<times> catalog" where
  "execute_revoke st c =
     (if gs_is_role_grant st then
        (None, c\<lparr>ct_members :=
           fold (\<lambda>(grantee, role). revoke_membership grantee role)
             (concat (map (\<lambda>role. map (\<lambda>grantee. (grantee, role)) (gs_grantees st)) (gs_roles st))) (ct_members c)\<rparr>)
      else
        revoke_each (object_from_ast (gs_object st))
          (concat (map (\<lambda>p. map (\<lambda>grantee. (p, grantee)) (gs_grantees st)) (gs_privileges st))) c)"

end
