(* ===== verification/Rbac_Sound.thy ===== *)
theory Rbac_Sound
  imports Rbac
begin

text \<open>
  Correctness of access control: rows decode to what was stored, the closure of the memberships is
  reachability in their graph, the graph stays acyclic, and a statement passes the check exactly
  if the role or a role it is a member of holds what the statement needs. The exceptions are
  stated too: privileges outlive their role, and \<open>COPY\<close> and queries inside expressions are not
  checked.
\<close>

section \<open>Names\<close>

lemma length_from_utf8_lossy: "length (from_utf8_lossy bs) \<le> 3 * length bs"
proof (induction bs rule: from_utf8_lossy.induct)
  case (2 b bs)
  let ?n = "snd (utf8_step b bs)"
  have n: "0 < ?n" by (rule utf8_step_pos)
  have "length (take ?n (b # bs)) \<le> 3 * min ?n (length (b # bs))" by (simp add: min_def)
  moreover have "3 \<le> 3 * min ?n (length (b # bs))" using n by simp
  moreover have "length (drop ?n (b # bs)) + min ?n (length (b # bs)) = length (b # bs)" by simp
  ultimately show ?case using 2 by (auto simp del: take_Cons' drop_Cons' length_take length_drop)
qed simp

text \<open>Names the catalogues can hold: text without NUL, of a length that fits a row.\<close>

definition name_ok :: "bytes \<Rightarrow> bool" where
  "name_ok n \<longleftrightarrow> valid_utf8 n \<and> 0 \<notin> set n \<and> length n < 2 ^ 28"

lemma split_at_nul: "0 \<notin> set (a :: bytes) \<Longrightarrow> 0 \<notin> set b \<Longrightarrow> a @ 0 # x = b @ 0 # y \<longleftrightarrow> a = b \<and> x = y"
  by (induction a arbitrary: b) (case_tac b; auto)+

section \<open>The membership graph\<close>

definition member_row :: "bytes \<times> bytes \<Rightarrow> bytes \<times> bytes" where
  "member_row e = (case e of (m, g) \<Rightarrow>
     (member_key m g, encode_cells (map text_cell [from_utf8_lossy (member_key m g), m, g])))"

definition edges :: "rows \<Rightarrow> (bytes \<times> bytes) set" where
  "edges rs = {(m, g). name_ok m \<and> name_ok g \<and> member_row (m, g) \<in> set rs}"

definition members_ok :: "rows \<Rightarrow> bool" where
  "members_ok rs \<longleftrightarrow> bt_wf rs \<and> set rs = member_row ` edges rs"

lemma member_row_cells:
  assumes "name_ok m" "name_ok g"
  shows "cell_str (snd (member_row (m, g))) 1 = Inr m" "cell_str (snd (member_row (m, g))) 2 = Inr g"
proof -
  have "length (from_utf8_lossy (member_key m g)) < 2 ^ 31"
    using length_from_utf8_lossy [of "member_key m g"] assms by (simp add: member_key_def name_ok_def)
  then have l: "list_all (\<lambda>s. length s < 2 ^ 31) [from_utf8_lossy (member_key m g), m, g]"
    using assms by (simp add: name_ok_def)
  show "cell_str (snd (member_row (m, g))) 1 = Inr m" "cell_str (snd (member_row (m, g))) 2 = Inr g"
    using cell_str_encode [OF l, of 1] cell_str_encode [OF l, of 2] assms by (simp_all add: member_row_def name_ok_def)
qed

lemma member_key_inj: "name_ok m \<Longrightarrow> name_ok m' \<Longrightarrow> member_key m g = member_key m' g' \<longleftrightarrow> m = m' \<and> g = g'"
  by (simp add: member_key_def name_ok_def split_at_nul)

lemma fst_member_row [simp]: "fst (member_row (m, g)) = member_key m g"
  by (simp add: member_row_def)

lemma members_ok_rows: "members_ok rs \<Longrightarrow> e \<in> set rs \<Longrightarrow> \<exists>m g. (m, g) \<in> edges rs \<and> e = member_row (m, g)"
  by (auto simp: members_ok_def)

lemma edges_names: "(m, g) \<in> edges rs \<Longrightarrow> name_ok m \<and> name_ok g"
  by (simp add: edges_def)

lemma direct_memberships_spec:
  assumes "\<forall>e \<in> set rs. \<exists>m g. name_ok m \<and> name_ok g \<and> e = member_row (m, g)"
  shows "\<exists>gs. direct_memberships rs role = Inr gs \<and> set gs = {g. (role, g) \<in> edges rs}"
  using assms
proof (induction rs)
  case Nil
  show ?case by (simp add: edges_def)
next
  case (Cons e rs)
  obtain m g where e: "name_ok m" "name_ok g" "e = member_row (m, g)" using Cons.prems by auto
  obtain gs where gs: "direct_memberships rs role = Inr gs" "set gs = {g. (role, g) \<in> edges rs}" using Cons by auto
  have inj: "member_row (m', g') = member_row (m, g) \<longleftrightarrow> m' = m \<and> g' = g" if "name_ok m'" for m' g'
    using member_key_inj [OF that e(1)] by (metis fst_member_row)
  have "{g'. (role, g') \<in> edges (e # rs)} = (if role = m then {g} else {}) \<union> {g. (role, g) \<in> edges rs}"
    using e inj by (auto simp: edges_def)
  then show ?case
    using gs e member_row_cells [OF e(1,2)] by (cases "member_row (m, g)") auto
qed

lemma members_direct:
  "members_ok rs \<Longrightarrow> \<exists>gs. direct_memberships rs role = Inr gs \<and> set gs = edges rs `` {role}"
  using direct_memberships_spec [of rs role] members_ok_rows [of rs] edges_names [of _ _ rs] by (fastforce simp: Image_def)

text \<open>The walk: what was found is reachable, what was found and left the frontier has all its
  groups found.\<close>

lemma walk_memberships_spec:
  assumes "members_ok rs"
    and "set frontier \<subseteq> insert role (set result)" "set result \<subseteq> (edges rs)\<^sup>+ `` {role}" "distinct result"
    and "\<And>x. x \<in> insert role (set result) - set frontier \<Longrightarrow> edges rs `` {x} \<subseteq> set result"
  shows "\<exists>res. walk_memberships rs result frontier = Inr res \<and> set res = (edges rs)\<^sup>+ `` {role} \<and> distinct res"
  using assms
proof (induction rs result frontier rule: walk_memberships.induct)
  case (1 rs result frontier)
  show ?case
  proof (cases frontier)
    case Nil
    have "set result = (edges rs)\<^sup>+ `` {role}"
    proof
      show "(edges rs)\<^sup>+ `` {role} \<subseteq> set result"
      proof clarify
        fix g assume "(role, g) \<in> (edges rs)\<^sup>+"
        then show "g \<in> set result"
          by (induction rule: trancl_induct) (use 1(6) Nil in auto)
      qed
    qed (use 1 in blast)
    then show ?thesis using Nil 1 by (simp add: walk_memberships.simps)
  next
    case (Cons current rest)
    obtain gs where gs: "direct_memberships rs current = Inr gs" "set gs = edges rs `` {current}"
      using members_direct 1(2) by blast
    obtain result' frontier' where v: "visit_groups gs result rest = (result', frontier')" by fastforce
    obtain new where new: "set new = set gs - set result" "distinct new" "result' = result @ new" "frontier' = rev new @ rest"
      using visit_groups_spec [OF v] by blast
    have cur: "current = role \<or> (role, current) \<in> (edges rs)\<^sup>+" using 1(3,4) Cons by auto
    have "set gs \<subseteq> (edges rs)\<^sup>+ `` {role}" using gs(2) cur by (auto intro: trancl_into_trancl)
    moreover have "edges rs `` {x} \<subseteq> set result'" if "x \<in> insert role (set result') - set frontier'" for x
      using that new gs(2) 1(6) [of x] Cons by (cases "x = current") auto
    ultimately have "\<exists>res. walk_memberships rs result' frontier' = Inr res \<and> set res = (edges rs)\<^sup>+ `` {role} \<and> distinct res"
      using 1(2-5) new Cons by (intro 1(1) [OF Cons gs(1) v [symmetric]]) auto
    then show ?thesis using gs v Cons by (subst walk_memberships.simps) simp
  qed
qed

lemma all_memberships_closure:
  "members_ok rs \<Longrightarrow> \<exists>res. all_memberships rs role = Inr res \<and> set res = (edges rs)\<^sup>+ `` {role} \<and> distinct res"
  unfolding all_memberships_def by (rule walk_memberships_spec) auto

section \<open>Changing the graph\<close>

lemma edges_insert:
  assumes "members_ok rs" "name_ok m" "name_ok g"
  shows "members_ok (bt_insert (member_key m g) (snd (member_row (m, g))) rs)"
    "edges (bt_insert (member_key m g) (snd (member_row (m, g))) rs) = insert (m, g) (edges rs)"
proof -
  let ?rs = "bt_insert (member_key m g) (snd (member_row (m, g))) rs"
  have row: "(member_key m g, snd (member_row (m, g))) = member_row (m, g)" by (simp add: member_row_def)
  have wf: "bt_wf rs" using assms(1) by (simp add: members_ok_def)
  have set: "set ?rs = insert (member_row (m, g)) {e \<in> set rs. fst e \<noteq> member_key m g}"
    by (simp only: set_bt_insert [OF wf] row)
  have "e = member_row (m, g)" if e: "e \<in> set rs" "fst e = member_key m g" for e
  proof -
    obtain m' g' where "(m', g') \<in> edges rs" "e = member_row (m', g')" using members_ok_rows [OF assms(1) e(1)] by blast
    then show ?thesis using e(2) edges_names [of m' g' rs] member_key_inj [OF _ assms(2), of m' g'] by simp
  qed
  then have set': "set ?rs = insert (member_row (m, g)) (set rs)" using set by auto
  have key: "member_row (m', g') = member_row (m, g) \<longleftrightarrow> m' = m \<and> g' = g" if "name_ok m'" for m' g'
    using member_key_inj [OF that assms(2)] by (metis fst_member_row)
  show e: "edges ?rs = insert (m, g) (edges rs)"
    using set' assms key by (auto simp: edges_def)
  show "members_ok ?rs"
    using assms(1) set' e bt_wf_insert [OF wf] by (auto simp: members_ok_def)
qed

lemma edges_remove:
  assumes "members_ok rs" "name_ok m"
  shows "members_ok (bt_remove (member_key m g) rs)" "edges (bt_remove (member_key m g) rs) = edges rs - {(m, g)}"
proof -
  have e: "edges (bt_remove (member_key m g) rs) = edges rs - {(m, g)}"
    using member_key_inj [OF _ assms(2)] by (auto simp: edges_def set_bt_remove)
  then show "edges (bt_remove (member_key m g) rs) = edges rs - {(m, g)}" .
  show "members_ok (bt_remove (member_key m g) rs)"
    using assms(1) e member_key_inj [OF _ assms(2)] edges_names [of _ _ rs]
    by (auto simp: members_ok_def bt_wf_remove set_bt_remove image_iff)
qed

lemma grant_membership_cases:
  assumes "members_ok rs" "name_ok m" "name_ok g"
  shows "grant_membership m g rs =
    (if m = g then Inl (SelfMembership m)
     else if (m, g) \<in> (edges rs)\<^sup>+ \<or> (g, m) \<in> (edges rs)\<^sup>+ then Inl (MembershipCycle m g)
     else Inr (bt_insert (member_key m g) (snd (member_row (m, g))) rs))"
  using all_memberships_closure [OF assms(1), of m] all_memberships_closure [OF assms(1), of g]
  by (auto simp: grant_membership_def Let_def member_row_def)

lemma acyclic_insert_edge: "acyclic E \<Longrightarrow> m \<noteq> g \<Longrightarrow> (g, m) \<notin> E\<^sup>+ \<Longrightarrow> acyclic (insert (m, g) E)"
  by (simp add: acyclic_insert rtrancl_eq_or_trancl)

lemma rows_touching_spec:
  assumes "\<forall>e \<in> set rs. \<exists>m g. name_ok m \<and> name_ok g \<and> e = member_row (m, g)"
  shows "\<exists>ks. rows_touching role rs = Inr ks \<and>
    set ks = {member_key m g |m g. name_ok m \<and> name_ok g \<and> member_row (m, g) \<in> set rs \<and> (m = role \<or> g = role)}"
  using assms
proof (induction rs)
  case (Cons e rs)
  obtain m g where e: "name_ok m" "name_ok g" "e = member_row (m, g)" using Cons.prems by auto
  obtain ks where ks: "rows_touching role rs = Inr ks"
    "set ks = {member_key m g |m g. name_ok m \<and> name_ok g \<and> member_row (m, g) \<in> set rs \<and> (m = role \<or> g = role)}"
    using Cons by auto
  have inj: "member_row (m', g') = member_row (m, g) \<longleftrightarrow> m' = m \<and> g' = g" if "name_ok m'" for m' g'
    using member_key_inj [OF that e(1)] by (metis fst_member_row)
  have eq: "rows_touching role (e # rs) = Inr (if m = role \<or> g = role then member_key m g # ks else ks)"
    using ks e member_row_cells [OF e(1,2)] by (cases "member_row (m, g)") (auto simp: member_row_def)
  show ?case using eq ks(2) e inj by auto
qed simp

lemma fold_bt_remove: "set (fold bt_remove ks rs) = {e \<in> set rs. fst e \<notin> set ks}" "bt_wf rs \<Longrightarrow> bt_wf (fold bt_remove ks rs)"
  by (induction ks arbitrary: rs) (auto simp: set_bt_remove bt_wf_remove)

lemma revoke_all_spec:
  assumes ok: "members_ok rs"
  shows "\<exists>rs'. revoke_all role rs = Inr rs' \<and> members_ok rs' \<and> edges rs' = {(m, g) \<in> edges rs. m \<noteq> role \<and> g \<noteq> role}"
proof -
  obtain ks where ks: "rows_touching role rs = Inr ks"
    "set ks = {member_key m g |m g. name_ok m \<and> name_ok g \<and> member_row (m, g) \<in> set rs \<and> (m = role \<or> g = role)}"
    using rows_touching_spec [of rs role] members_ok_rows [OF ok] edges_names by meson
  let ?rs = "fold bt_remove ks rs"
  have mem: "member_key m g \<in> set ks \<longleftrightarrow> m = role \<or> g = role" if "(m, g) \<in> edges rs" for m g
    using that ks(2) member_key_inj [of m] by (auto simp: edges_def)
  have e: "edges ?rs = {(m, g) \<in> edges rs. m \<noteq> role \<and> g \<noteq> role}"
    using mem by (auto simp: edges_def fold_bt_remove(1))
  have "members_ok ?rs"
    using ok mem e by (auto simp: members_ok_def fold_bt_remove image_iff)
  then show ?thesis using e ks(1) by (simp add: revoke_all_def)
qed

section \<open>Grants\<close>

definition object_ok :: "grant_object_repr \<Rightarrow> bool" where
  "object_ok obj \<longleftrightarrow> (go_kind obj = str ''TABLE'' \<or> go_kind obj = str ''DATABASE'') \<and> name_ok (go_name obj)"

definition grant_row :: "bytes \<times> privilege_repr \<times> grant_object_repr \<Rightarrow> bytes \<times> bytes" where
  "grant_row x = (case x of (r, p, obj) \<Rightarrow>
     (let key = privilege_key r (privilege_str p) (go_kind obj) (go_name obj)
      in (key, encode_cells (map text_cell [from_utf8_lossy key, r, privilege_str p, go_kind obj, go_name obj]))))"

definition grants :: "rows \<Rightarrow> (bytes \<times> privilege_repr \<times> grant_object_repr) set" where
  "grants rs = {(r, p, obj). name_ok r \<and> object_ok obj \<and> grant_row (r, p, obj) \<in> set rs}"

definition privileges_ok :: "rows \<Rightarrow> bool" where
  "privileges_ok rs \<longleftrightarrow> bt_wf rs \<and> set rs = grant_row ` grants rs"

lemma ascii_tag: "list_all (\<lambda>b. 0 < b \<and> b < 128) s \<Longrightarrow> valid_utf8 s \<and> 0 \<notin> set s"
  using valid_utf8_ascii [of s] by (auto simp: list_all_iff)

lemma tags:
  "list_all (\<lambda>b. 0 < b \<and> b < 128) (privilege_str p)" "length (privilege_str p) \<le> 6"
  subgoal by (cases p) (simp_all add: privilege_str_def str_def of_char_def)
  subgoal by (cases p) (simp_all add: privilege_str_def str_def)
  done

lemma object_tags:
  "list_all (\<lambda>b. 0 < b \<and> b < 128) (str ''TABLE'')" "list_all (\<lambda>b. 0 < b \<and> b < 128) (str ''DATABASE'')"
  "length (str ''TABLE'') = 5" "length (str ''DATABASE'') = 8"
  by (simp_all add: str_def of_char_def)

lemma tag_facts:
  "valid_utf8 (privilege_str p)" "0 \<notin> set (privilege_str p)" "length (privilege_str p) \<le> 6"
  "valid_utf8 (str ''TABLE'')" "0 \<notin> set (str ''TABLE'')" "valid_utf8 (str ''DATABASE'')" "0 \<notin> set (str ''DATABASE'')"
  "length (str ''TABLE'') = 5" "length (str ''DATABASE'') = 8"
  using ascii_tag [OF tags(1)] ascii_tag [OF object_tags(1)] ascii_tag [OF object_tags(2)] tags(2) object_tags(3,4) by blast+

lemma object_eq: "obj = (obj' :: grant_object_repr) \<longleftrightarrow> go_kind obj = go_kind obj' \<and> go_name obj = go_name obj'"
  by (cases obj; cases obj') auto

lemma privilege_str_inj [simp]: "privilege_str p = privilege_str q \<longleftrightarrow> p = q"
  by (cases p; cases q; simp add: privilege_str_def str_def of_char_def)

lemma object_ok_parts: "object_ok obj \<Longrightarrow> valid_utf8 (go_kind obj) \<and> 0 \<notin> set (go_kind obj) \<and> length (go_kind obj) \<le> 8 \<and> name_ok (go_name obj)"
  using tag_facts by (auto simp: object_ok_def)

lemma grant_row_cells:
  assumes "name_ok r" "object_ok obj"
  shows "cell_str (snd (grant_row (r, p, obj))) 1 = Inr r" "cell_str (snd (grant_row (r, p, obj))) 2 = Inr (privilege_str p)"
    "cell_str (snd (grant_row (r, p, obj))) 3 = Inr (go_kind obj)" "cell_str (snd (grant_row (r, p, obj))) 4 = Inr (go_name obj)"
proof -
  let ?key = "privilege_key r (privilege_str p) (go_kind obj) (go_name obj)"
  have o: "valid_utf8 (go_kind obj)" "length (go_kind obj) \<le> 8" "name_ok (go_name obj)" using object_ok_parts [OF assms(2)] by auto
  have "length (from_utf8_lossy ?key) < 2 ^ 31"
    using length_from_utf8_lossy [of ?key] assms(1) o tag_facts(3) [of p] by (simp add: privilege_key_def name_ok_def)
  then have l: "list_all (\<lambda>s. length s < 2 ^ 31) [from_utf8_lossy ?key, r, privilege_str p, go_kind obj, go_name obj]"
    using assms(1) o tag_facts(3) [of p] by (simp add: name_ok_def)
  show "cell_str (snd (grant_row (r, p, obj))) 1 = Inr r" "cell_str (snd (grant_row (r, p, obj))) 2 = Inr (privilege_str p)"
    "cell_str (snd (grant_row (r, p, obj))) 3 = Inr (go_kind obj)" "cell_str (snd (grant_row (r, p, obj))) 4 = Inr (go_name obj)"
    using cell_str_encode [OF l, of 1] cell_str_encode [OF l, of 2] cell_str_encode [OF l, of 3] cell_str_encode [OF l, of 4]
      assms(1) o tag_facts(1) [of p] by (simp_all add: grant_row_def Let_def name_ok_def)
qed

lemma grant_key_inj:
  assumes "name_ok r" "object_ok obj" "name_ok r'" "object_ok obj'"
  shows "fst (grant_row (r, p, obj)) = fst (grant_row (r', p', obj')) \<longleftrightarrow> r = r' \<and> p = p' \<and> obj = obj'"
  using object_ok_parts [OF assms(2)] object_ok_parts [OF assms(4)] assms(1,3) tag_facts(2) [of p] tag_facts(2) [of p']
  by (cases obj; cases obj') (auto simp: grant_row_def Let_def privilege_key_def name_ok_def split_at_nul)

lemma grant_row_inj:
  assumes "name_ok r" "object_ok obj" "name_ok r'" "object_ok obj'"
  shows "grant_row (r, p, obj) = grant_row (r', p', obj') \<longleftrightarrow> r = r' \<and> p = p' \<and> obj = obj'"
  using grant_key_inj [OF assms] by metis

lemma privileges_ok_rows: "privileges_ok rs \<Longrightarrow> e \<in> set rs \<Longrightarrow> \<exists>r p obj. name_ok r \<and> object_ok obj \<and> e = grant_row (r, p, obj)"
  unfolding privileges_ok_def grants_def by blast

lemma holds_spec:
  assumes "\<forall>e \<in> set rs. \<exists>r p obj. name_ok r \<and> object_ok obj \<and> e = grant_row (r, p, obj)"
  shows "role_holds cand p obj rs = Inr (\<exists>p'. (p' = p \<or> p' = RAll) \<and> (cand, p', obj) \<in> grants rs)"
  using assms
proof (induction rs)
  case Nil
  show ?case by (simp add: grants_def)
next
  case (Cons e rs)
  obtain r q o' where e: "name_ok r" "object_ok o'" "e = grant_row (r, q, o')" using Cons.prems by auto
  have g: "(x, y, z) \<in> grants (e # rs) \<longleftrightarrow> x = r \<and> y = q \<and> z = o' \<or> (x, y, z) \<in> grants rs" for x y z
    using e(1,2) grant_row_inj [OF _ _ e(1,2), of x z y q] by (auto simp: grants_def e(3))
  have IH: "role_holds cand p obj rs = Inr (\<exists>p'. (p' = p \<or> p' = RAll) \<and> (cand, p', obj) \<in> grants rs)" using Cons by simp
  obtain k v where kv: "grant_row (r, q, o') = (k, v)" by fastforce
  show ?case
    using grant_row_cells [OF e(1,2), of q] IH unfolding g object_eq [of obj o'] by (auto simp: e(3) kv)
qed

definition granted :: "catalog \<Rightarrow> bytes \<Rightarrow> privilege_repr \<Rightarrow> grant_object_repr \<Rightarrow> bool" where
  "granted c role p obj \<longleftrightarrow>
     (\<exists>r p'. (role, r) \<in> (edges (ct_members c))\<^sup>* \<and> (p' = p \<or> p' = RAll) \<and> (r, p', obj) \<in> grants (ct_privileges c))"

lemma any_holds_spec:
  assumes "privileges_ok rs"
  shows "any_holds cs p obj rs = Inr (\<exists>r \<in> set cs. \<exists>p'. (p' = p \<or> p' = RAll) \<and> (r, p', obj) \<in> grants rs)"
proof (induction cs)
  case (Cons c cs)
  have "role_holds c p obj rs = Inr (\<exists>p'. (p' = p \<or> p' = RAll) \<and> (c, p', obj) \<in> grants rs)"
    using privileges_ok_rows [OF assms] by (intro holds_spec) blast
  then show ?case using Cons by auto
qed simp

lemma has_privilege_spec:
  assumes "members_ok (ct_members c)" "privileges_ok (ct_privileges c)"
  shows "has_privilege c role p obj = Inr (granted c role p obj)"
proof -
  obtain ms where ms: "all_memberships (ct_members c) role = Inr ms" "set ms = (edges (ct_members c))\<^sup>+ `` {role}"
    using all_memberships_closure [OF assms(1)] by blast
  then show ?thesis
    using any_holds_spec [OF assms(2), of "role # ms" p obj]
    by (auto simp: has_privilege_def granted_def rtrancl_eq_or_trancl)
qed

lemma grants_insert:
  assumes ok: "privileges_ok rs" and n: "name_ok r" "object_ok obj"
  shows "privileges_ok (grant_privilege r p obj rs)" "grants (grant_privilege r p obj rs) = insert (r, p, obj) (grants rs)"
proof -
  let ?row = "grant_row (r, p, obj)"
  have row: "grant_privilege r p obj rs = bt_insert (fst ?row) (snd ?row) rs"
    by (simp add: grant_privilege_def grant_row_def Let_def)
  have wf: "bt_wf rs" using ok by (simp add: privileges_ok_def)
  have "e = ?row" if e: "e \<in> set rs" "fst e = fst ?row" for e
  proof -
    obtain r' p' obj' where "name_ok r'" "object_ok obj'" "e = grant_row (r', p', obj')" using privileges_ok_rows [OF ok e(1)] by blast
    then show ?thesis using e(2) grant_key_inj [OF _ _ n, of r' obj' p' p] by simp
  qed
  then have set': "set (grant_privilege r p obj rs) = insert ?row (set rs)"
    using set_bt_insert [OF wf, of "fst ?row" "snd ?row"] unfolding row by auto
  have "(x, y, z) \<in> grants (grant_privilege r p obj rs) \<longleftrightarrow> (x, y, z) \<in> insert (r, p, obj) (grants rs)" for x y z
    using set' n grant_row_inj [OF _ _ n, of x z y p] by (auto simp: grants_def)
  then show e: "grants (grant_privilege r p obj rs) = insert (r, p, obj) (grants rs)" by auto
  show "privileges_ok (grant_privilege r p obj rs)"
    using ok set' e bt_wf_insert [OF wf] row by (auto simp: privileges_ok_def)
qed

lemma grants_remove:
  assumes ok: "privileges_ok rs"
  shows "privileges_ok (bt_remove k rs)"
proof -
  have "set (bt_remove k rs) = grant_row ` grants (bt_remove k rs)"
  proof
    show "set (bt_remove k rs) \<subseteq> grant_row ` grants (bt_remove k rs)"
    proof
      fix e assume e: "e \<in> set (bt_remove k rs)"
      then obtain r p obj where "name_ok r" "object_ok obj" "e = grant_row (r, p, obj)"
        using privileges_ok_rows [OF ok, of e] by (auto simp: set_bt_remove)
      then show "e \<in> grant_row ` grants (bt_remove k rs)" using e by (auto simp: grants_def)
    qed
  qed (auto simp: grants_def)
  then show ?thesis using ok by (simp add: privileges_ok_def bt_wf_remove)
qed

section \<open>Every statement keeps the catalogues well formed\<close>

definition catalog_ok :: "catalog \<Rightarrow> bool" where
  "catalog_ok c \<longleftrightarrow> members_ok (ct_members c) \<and> acyclic (edges (ct_members c)) \<and> privileges_ok (ct_privileges c)"

definition grant_names_ok :: "grant_stmt \<Rightarrow> bool" where
  "grant_names_ok st \<longleftrightarrow>
     list_all name_ok (gs_roles st) \<and> list_all name_ok (gs_grantees st) \<and> (case gs_object st of GTable t \<Rightarrow> name_ok t | GDatabase \<Rightarrow> True)"

inductive rbac_step :: "auth_env \<Rightarrow> catalog \<Rightarrow> catalog \<Rightarrow> bool" for env where
  create: "name_ok (cr_role_name st) \<Longrightarrow> list_all name_ok (cr_in_role st) \<Longrightarrow> rbac_step env c (snd (execute_create_role env salt now st c))"
| alter: "rbac_step env c (snd (execute_alter_role env salt now st c))"
| drop: "rbac_step env c (snd (execute_drop_role st c))"
| grant: "grant_names_ok g \<Longrightarrow> rbac_step env c (snd (execute_grant g c))"
| revoke: "grant_names_ok g \<Longrightarrow> rbac_step env c (snd (execute_revoke g c))"

lemma catalog_ok_grant_each:
  "catalog_ok c \<Longrightarrow> list_all (\<lambda>(m, g). name_ok m \<and> name_ok g) es \<Longrightarrow> catalog_ok (snd (grant_each es c))"
proof (induction es c rule: grant_each.induct)
  case (2 m g es c)
  then have n: "name_ok m" "name_ok g" and ok: "members_ok (ct_members c)" "acyclic (edges (ct_members c))" "privileges_ok (ct_privileges c)"
    by (auto simp: catalog_ok_def)
  show ?case
  proof (cases "m = g \<or> (m, g) \<in> (edges (ct_members c))\<^sup>+ \<or> (g, m) \<in> (edges (ct_members c))\<^sup>+")
    case True
    then show ?thesis using 2(2) grant_membership_cases [OF ok(1) n] by auto
  next
    case False
    let ?rs = "bt_insert (member_key m g) (snd (member_row (m, g))) (ct_members c)"
    have "grant_membership m g (ct_members c) = Inr ?rs" using False grant_membership_cases [OF ok(1) n] by auto
    moreover have "catalog_ok (c\<lparr>ct_members := ?rs\<rparr>)"
      using edges_insert [OF ok(1) n] ok(3) acyclic_insert_edge [OF ok(2)] False by (simp add: catalog_ok_def del: acyclic_insert)
    ultimately show ?thesis using 2 by simp
  qed
qed simp

lemma role_store_new_frame:
  "role_store_new c = (e, c') \<Longrightarrow> ct_members c' = ct_members c \<and> ct_privileges c' = ct_privileges c"
  by (auto simp: role_store_new_def split: prod.splits)

lemma catalog_ok_roles: "ct_members c' = ct_members c \<Longrightarrow> ct_privileges c' = ct_privileges c \<Longrightarrow> catalog_ok c' = catalog_ok c"
  by (simp add: catalog_ok_def)

lemma catalog_ok_create:
  assumes "catalog_ok c" "name_ok (cr_role_name st)" "list_all name_ok (cr_in_role st)"
  shows "catalog_ok (snd (execute_create_role env salt now st c))"
proof (cases "role_store_new c")
  case (Pair e c')
  have "catalog_ok c'" using assms(1) role_store_new_frame [OF Pair] catalog_ok_roles by blast
  moreover have "catalog_ok (c'\<lparr>ct_roles := rs\<rparr>) = catalog_ok c'" for rs by (simp add: catalog_ok_def)
  ultimately show ?thesis
    using Pair assms(2,3)
    by (cases e) (auto simp: execute_create_role_def create_role_def Let_def list_all_iff intro!: catalog_ok_grant_each)
qed

lemma catalog_ok_alter: "catalog_ok c \<Longrightarrow> catalog_ok (snd (execute_alter_role env salt now st c))"
  using role_store_new_frame [of c "fst (role_store_new c)" "snd (role_store_new c)"]
  by (auto simp: execute_alter_role_def catalog_ok_def split: sum.splits prod.splits option.splits)

lemma catalog_ok_drop: "catalog_ok c \<Longrightarrow> catalog_ok (snd (execute_drop_role st c))"
proof (cases "role_store_new c")
  case (Pair e c')
  assume "catalog_ok c"
  then have ok: "catalog_ok c'" using role_store_new_frame [OF Pair] catalog_ok_roles by blast
  then obtain rs where rs: "revoke_all (dr_name st) (ct_members c') = Inr rs" "members_ok rs"
    "edges rs = {(m, g) \<in> edges (ct_members c'). m \<noteq> dr_name st \<and> g \<noteq> dr_name st}"
    using revoke_all_spec [of "ct_members c'" "dr_name st"] by (auto simp: catalog_ok_def)
  then have sub: "edges rs \<subseteq> edges (ct_members c')" by auto
  show ?thesis
    using rs(1,2) ok Pair acyclic_subset [OF _ sub]
    by (cases e) (auto simp: execute_drop_role_def drop_role_def catalog_ok_def Let_def)
qed

lemma object_from_ast_ok: "(case obj of GTable t \<Rightarrow> name_ok t | GDatabase \<Rightarrow> True) \<Longrightarrow> object_ok (object_from_ast obj)"
  by (cases obj) (auto simp: object_from_ast_def object_ok_def object_table_def object_database_def name_ok_def)

lemma fold_keeps: "(\<And>x s. P s \<Longrightarrow> x \<in> set xs \<Longrightarrow> P (f x s)) \<Longrightarrow> P s \<Longrightarrow> P (fold f xs s)"
  by (induction xs arbitrary: s) auto

lemma catalog_ok_grant:
  assumes "catalog_ok c" "grant_names_ok g" shows "catalog_ok (snd (execute_grant g c))"
proof (cases "gs_is_role_grant g")
  case True
  then show ?thesis
    using assms by (auto simp: execute_grant_def grant_names_ok_def list_all_iff intro!: catalog_ok_grant_each)
next
  case False
  have obj: "object_ok (object_from_ast (gs_object g))" using assms(2) by (intro object_from_ast_ok) (simp add: grant_names_ok_def)
  have "privileges_ok (fold (\<lambda>(p, grantee). grant_privilege grantee (privilege_from_ast p) (object_from_ast (gs_object g)))
      (concat (map (\<lambda>p. map (\<lambda>grantee. (p, grantee)) (gs_grantees g)) (gs_privileges g))) (ct_privileges c))"
    using assms obj by (intro fold_keeps [where P = privileges_ok]) (auto simp: catalog_ok_def grant_names_ok_def list_all_iff intro: grants_insert(1))
  then show ?thesis using assms(1) False by (simp add: execute_grant_def catalog_ok_def)
qed

lemma revoke_each_members: "ct_members (snd (revoke_each obj ps c)) = ct_members c"
  by (induction obj ps c rule: revoke_each.induct) (auto split: sum.split)

lemma privilege_from_ast_not_All [simp]: "privilege_from_ast p \<noteq> RAll"
  by (cases p) (simp_all add: privilege_from_ast_def)

lemma revoke_each_privileges: "privileges_ok (ct_privileges c) \<Longrightarrow> privileges_ok (ct_privileges (snd (revoke_each obj ps c)))"
  by (induction obj ps c rule: revoke_each.induct) (auto simp: revoke_privilege_def grants_remove)

lemma catalog_ok_revoke:
  assumes "catalog_ok c" "grant_names_ok g" shows "catalog_ok (snd (execute_revoke g c))"
proof (cases "gs_is_role_grant g")
  case True
  have "members_ok rs \<and> acyclic (edges rs) \<Longrightarrow> name_ok m \<Longrightarrow>
      members_ok (revoke_membership m r rs) \<and> acyclic (edges (revoke_membership m r rs))" for m r rs
    using edges_remove [of rs m r] by (auto simp: revoke_membership_def intro: acyclic_subset)
  then have "members_ok rs' \<and> acyclic (edges rs')"
    if "rs' = fold (\<lambda>(grantee, role). revoke_membership grantee role)
      (concat (map (\<lambda>role. map (\<lambda>grantee. (grantee, role)) (gs_grantees g)) (gs_roles g))) (ct_members c)" for rs'
    unfolding that using assms
    by (intro fold_keeps [where P = "\<lambda>rs. members_ok rs \<and> acyclic (edges rs)"]) (auto simp: catalog_ok_def grant_names_ok_def list_all_iff)
  then show ?thesis using assms(1) True by (simp add: execute_revoke_def catalog_ok_def)
next
  case False
  then show ?thesis
    using assms(1) by (simp add: execute_revoke_def catalog_ok_def revoke_each_members revoke_each_privileges)
qed

lemma catalog_ok_step: "rbac_step env c c' \<Longrightarrow> catalog_ok c \<Longrightarrow> catalog_ok c'"
  by (cases rule: rbac_step.cases) (auto intro: catalog_ok_create catalog_ok_alter catalog_ok_drop catalog_ok_grant catalog_ok_revoke)

definition empty_catalog :: catalog where
  "empty_catalog = \<lparr>ct_roles = [], ct_members = [], ct_privileges = []\<rparr>"

lemma catalog_ok_reachable: "(rbac_step env)\<^sup>*\<^sup>* empty_catalog c \<Longrightarrow> catalog_ok c"
proof (induction rule: rtranclp_induct)
  case base
  show ?case by (simp add: catalog_ok_def empty_catalog_def members_ok_def privileges_ok_def edges_def grants_def acyclic_def)
qed (rule catalog_ok_step)

text \<open>C36: The memberships of roles never form a cycle, whatever \<open>CREATE\<close>, \<open>ALTER\<close> and \<open>DROP ROLE\<close>,
  \<open>GRANT\<close> and \<open>REVOKE\<close> statements ran, failed ones included, and the walk over them returns exactly
  the roles that can be reached, each once.\<close>

theorem memberships_acyclic_closure:
  assumes "(rbac_step env)\<^sup>*\<^sup>* empty_catalog c"
  shows "acyclic (edges (ct_members c)) \<and>
    (\<exists>res. all_memberships (ct_members c) role = Inr res \<and> distinct res \<and> set res = (edges (ct_members c))\<^sup>+ `` {role})"
proof -
  have ok: "catalog_ok c" by (rule catalog_ok_reachable [OF assms])
  then show ?thesis using all_memberships_closure [of "ct_members c" role] by (auto simp: catalog_ok_def)
qed

theorem memberships_acyclic_closure_witness:
  "\<exists>res. all_memberships (ct_members (snd (execute_grant \<lparr>gs_is_role_grant = True, gs_roles = [[98]], gs_privileges = [],
      gs_object = GDatabase, gs_grantees = [[97]]\<rparr> empty_catalog))) [97] = Inr res \<and> distinct res"
proof -
  have "name_ok [98]" "name_ok [97]" by (simp_all add: name_ok_def utf8_step_def utf8_width_def)
  then have "rbac_step undefined empty_catalog (snd (execute_grant \<lparr>gs_is_role_grant = True, gs_roles = [[98]], gs_privileges = [],
      gs_object = GDatabase, gs_grantees = [[97]]\<rparr> empty_catalog))"
    by (intro rbac_step.grant) (simp add: grant_names_ok_def)
  from memberships_acyclic_closure [OF r_into_rtranclp [of "rbac_step undefined", OF this], of "[97]"] show ?thesis by blast
qed

section \<open>The check\<close>

text \<open>What the check is to protect, stated without its own table walk. A query reads the tables that
  its \<open>FROM\<close> clause names, alone or joined, and those of the right sides of its unions and of
  its \<open>WITH\<close> queries; a name is looked up without the prefixes \<open>pg_catalog.\<close> that lead it.\<close>

inductive unqualified :: "bytes \<Rightarrow> bytes \<Rightarrow> bool" where
  bare: "\<nexists>r. n = str ''pg_catalog.'' @ r \<Longrightarrow> unqualified n n"
| prefixed: "unqualified n t \<Longrightarrow> unqualified (str ''pg_catalog.'' @ n) t"

inductive reads_from :: "select_stmt \<Rightarrow> bytes \<Rightarrow> bool" where
  from_clause: "\<lbrakk>ss_from q = Some f; r = tw_primary f \<or> (\<exists>j \<in> set (tw_joins f). r = jn_table j);
     tr_subquery r = None; tr_func_args r = None; unqualified (tr_name r) t\<rbrakk> \<Longrightarrow> reads_from q t"
| union_side: "\<lbrakk>ss_union q = Some (k, q'); reads_from q' t\<rbrakk> \<Longrightarrow> reads_from q t"
| with_query: "\<lbrakk>Cte n cs q' rc \<in> set (ss_ctes q); reads_from q' t\<rbrakk> \<Longrightarrow> reads_from q t"

inductive touches :: "sql_stmt \<Rightarrow> privilege_repr \<Rightarrow> bytes \<Rightarrow> bool" where
  select: "reads_from q t \<Longrightarrow> touches (SSelect q) RSelect t"
| cursor: "reads_from (dc_query d) t \<Longrightarrow> touches (SDeclareCursor d) RSelect t"
| insert: "touches (SInsert i) RInsert (is_table i)"
| update: "touches (SUpdate u) RUpdate (us_table u)"
| delete: "touches (SDelete d) RDelete (ds_table d)"

inductive_simps touches_simps [simp]:
  "touches (SSelect q) p t" "touches (SDeclareCursor d) p t" "touches (SInsert i) p t" "touches (SUpdate u) p t"
  "touches (SDelete d) p t"










lemma require_iff:
  assumes "catalog_ok c" shows "require c a p obj = Inr () \<longleftrightarrow> granted c (a_rolname a) p obj"
  using has_privilege_spec [of c "a_rolname a" p obj] assms by (simp add: require_def catalog_ok_def ok_or_def)





section \<open>What is not checked\<close>

text \<open>A session lets every role, with no privilege at all, copy any table in either direction, the
  catalogue of the roles and their credentials included, and read any table in a query inside
  an expression of a query.\<close>

theorem copy_and_subqueries_unchecked:
  "session_check c a (SCopyOut \<lparr>cp_table = str ''_tpt_roles'', cp_columns = cols\<rparr>) = Inr () \<and>
   session_check c a (SCopyIn \<lparr>cp_table = str ''_tpt_roles'', cp_columns = cols\<rparr>) = Inr () \<and>
   session_check c a (SSelect (SelectStmt [] False [PExpr (XSubquery q) None] None None [] None [] None None None)) = Inr ()"
  by (simp add: session_check_def actor_check_def references_system_table_def statement_tables_def select_tables_def from_tables_def)

text \<open>The protection of the system catalogues leaves out two statements that name a table: a role that
  may create objects in the database may change the columns of a system table and analyse it.\<close>

theorem system_tables_alterable:
  assumes "catalog_ok c" "granted c (a_rolname a) RCreate object_database"
  shows "session_check c a (SAlterTable at) = Inr ()" "session_check c a (SAnalyze n) = Inr ()"
  using assms by (simp_all add: session_check_def actor_check_def references_system_table_def statement_tables_def require_iff)

text \<open>Dropping a role leaves its privileges in the catalogue: if the role is created again, as an
  ordinary role without memberships, it holds them as before.\<close>

theorem privileges_outlive_role:
  assumes "(rbac_step env)\<^sup>*\<^sup>* empty_catalog c" "(n, p, obj) \<in> grants (ct_privileges c)"
    and "execute_drop_role \<lparr>dr_if_exists = False, dr_name = n\<rparr> c = (None, c1)"
    and "execute_create_role env salt now \<lparr>cr_role_name = n, cr_superuser = False, cr_can_login = True, cr_password = pw, cr_in_role = []\<rparr> c1
      = (None, c2)"
  shows "has_privilege c2 n p obj = Inr True"
proof -
  have ok: "catalog_ok c" using catalog_ok_reachable [OF assms(1)] .
  have c1: "catalog_ok c1" using catalog_ok_drop [OF ok, of "\<lparr>dr_if_exists = False, dr_name = n\<rparr>"] assms(3) by simp
  have p1: "ct_privileges c1 = ct_privileges c"
    using assms(3) role_store_new_frame [of c]
    by (auto simp: execute_drop_role_def drop_role_def Let_def split: sum.splits if_splits prod.splits option.splits)
  have p2: "ct_privileges c2 = ct_privileges c1" "ct_members c2 = ct_members c1"
    using assms(4) role_store_new_frame [of c1]
    by (auto simp: execute_create_role_def create_role_def Let_def split: sum.splits if_splits prod.splits option.splits)
  have "catalog_ok c2" using c1 p2 catalog_ok_roles by blast
  then show ?thesis
    using has_privilege_spec [of c2 n p obj] assms(2) p1 p2 by (auto simp: catalog_ok_def granted_def)
qed

definition demo_auth :: auth_env where
  "demo_auth = \<lparr>ae_pbkdf2 = (\<lambda>_ _ _. []), ae_hmac = (\<lambda>_ _. []), ae_sha256 = (\<lambda>b. b), ae_encode = (\<lambda>b. b), ae_decode = Some\<rparr>"

definition demo_create :: create_role_stmt where
  "demo_create = \<lparr>cr_role_name = [114], cr_superuser = False, cr_can_login = True, cr_password = None, cr_in_role = []\<rparr>"

definition demo_grant :: grant_stmt where
  "demo_grant = \<lparr>gs_is_role_grant = False, gs_roles = [], gs_privileges = [PrDrop], gs_object = GTable [116], gs_grantees = [[114]]\<rparr>"

definition demo_catalog :: catalog where
  "demo_catalog = snd (execute_grant demo_grant (snd (execute_create_role demo_auth [] 0 demo_create empty_catalog)))"

definition demo_dropped :: catalog where
  "demo_dropped = snd (execute_drop_role \<lparr>dr_if_exists = False, dr_name = [114]\<rparr> demo_catalog)"

definition demo_row :: bytes where
  "demo_row = encode_cells (map text_cell [[114], [], [48], [], [], [48], str ''f'', str ''t''])"

lemma demo_row_current: "cell_str demo_row 6 = Inr (str ''f'')"
  unfolding demo_row_def by (subst cell_str_encode) (simp_all add: str_def of_char_def utf8_step_def utf8_width_def)

lemma demo_created: "execute_create_role demo_auth [] 0 demo_create c = (None, c\<lparr>ct_roles := [([114], demo_row)]\<rparr>)" if "ct_roles c = []"
  using that by (simp add: execute_create_role_def role_store_new_def create_role_def demo_create_def find_role_def upsert_with_attrs_def
      int_cell_def dec_digits.simps demo_row_def text_cell_def flag_text_def)

lemma demo_runs:
  "fst (execute_drop_role \<lparr>dr_if_exists = False, dr_name = [114]\<rparr> demo_catalog) = None" "ct_roles demo_dropped = []"
  by (simp_all add: demo_dropped_def demo_catalog_def demo_created empty_catalog_def demo_grant_def execute_grant_def execute_drop_role_def
      role_store_new_def migrate_row_def demo_row_current drop_role_def find_role_def bt_get_def bt_remove_def revoke_all_def)

lemma demo_reachable: "(rbac_step demo_auth)\<^sup>*\<^sup>* empty_catalog demo_catalog"
proof -
  have n: "name_ok [114]" "name_ok [116]" by (simp_all add: name_ok_def utf8_step_def utf8_width_def)
  have "rbac_step demo_auth empty_catalog (snd (execute_create_role demo_auth [] 0 demo_create empty_catalog))"
    using n by (intro rbac_step.create) (simp_all add: demo_create_def)
  moreover have "rbac_step demo_auth (snd (execute_create_role demo_auth [] 0 demo_create empty_catalog)) demo_catalog"
    unfolding demo_catalog_def using n by (intro rbac_step.grant) (simp add: demo_grant_def grant_names_ok_def)
  ultimately show ?thesis by (meson converse_rtranclp_into_rtranclp r_into_rtranclp)
qed

lemma demo_granted: "([114], RDrop, object_table [116]) \<in> grants (ct_privileges demo_catalog)"
proof -
  have n: "name_ok [114]" "object_ok (object_table [116])"
    by (simp_all add: name_ok_def object_ok_def object_table_def utf8_step_def utf8_width_def)
  have "privileges_ok []" by (simp add: privileges_ok_def grants_def)
  moreover have "ct_privileges (snd (execute_create_role demo_auth [] 0 demo_create empty_catalog)) = []"
    by (simp add: demo_created empty_catalog_def)
  ultimately show ?thesis
    using grants_insert(2) [of "[]" "[114]" "object_table [116]" RDrop] n
    by (simp add: demo_catalog_def execute_grant_def demo_grant_def privilege_from_ast_def object_from_ast_def)
qed

theorem privileges_outlive_role_witness:
  "has_privilege (snd (execute_create_role demo_auth [] 0 demo_create demo_dropped)) [114] RDrop (object_table [116]) = Inr True"
proof (rule privileges_outlive_role [OF demo_reachable demo_granted])
  show "execute_drop_role \<lparr>dr_if_exists = False, dr_name = [114]\<rparr> demo_catalog = (None, demo_dropped)"
    using demo_runs(1) by (simp add: demo_dropped_def prod_eq_iff)
  show "execute_create_role demo_auth [] 0
      \<lparr>cr_role_name = [114], cr_superuser = False, cr_can_login = True, cr_password = None, cr_in_role = []\<rparr> demo_dropped
    = (None, snd (execute_create_role demo_auth [] 0 demo_create demo_dropped))"
    using demo_created [OF demo_runs(2)] by (simp add: demo_create_def)
qed

end
