(* ===== verification/Scram.thy ===== *)
theory Scram
  imports Roles
begin

text \<open>
  The server side of SCRAM-SHA-256 (\<open>wire/scram.rs\<close>) and the authentication of a connection
  (\<open>authenticate\<close> in \<open>wire/session.rs\<close>). The random server nonce is an argument; the primitives of
  cryptography and base64 are the parameters of \<open>auth_env\<close>. Texts are their UTF-8 bytes.
\<close>

section \<open>Messages\<close>

datatype scram_error =
    NotUtf8 | BadGs2Header | MissingNonce | MissingChannelBinding | NonceMismatch | MissingProof | BadProofEncoding | MalformedProof
  | ProofFailed

fun split_commas :: "bytes \<Rightarrow> bytes list" where
  "split_commas [] = [[]]"
| "split_commas (b # s) =
     (if b = 44 then [] # split_commas s else (case split_commas s of p # ps \<Rightarrow> (b # p) # ps | [] \<Rightarrow> [[b]]))"

text \<open>The value of the first attribute \<open>key=value\<close> of a message.\<close>

definition field :: "bytes \<Rightarrow> byte \<Rightarrow> bytes option" where
  "field s key =
     (case find (\<lambda>p. take 2 p = [key, 61]) (split_commas s) of Some p \<Rightarrow> Some (drop 2 p) | None \<Rightarrow> None)"

record server_first_state =
  sf_client_first_bare :: bytes
  sf_server_first_message :: bytes
  sf_combined_nonce :: bytes

definition strip_prefix :: "bytes \<Rightarrow> bytes \<Rightarrow> bytes option" where
  "strip_prefix p s = (if take (length p) s = p then Some (drop (length p) s) else None)"

definition server_first :: "auth_env \<Rightarrow> bytes \<Rightarrow> bytes \<Rightarrow> scram_credential \<Rightarrow> scram_error + server_first_state" where
  "server_first env nonce_bytes client_first cred =
     (if \<not> valid_utf8 client_first then Inl NotUtf8
      else
        (case (case strip_prefix (str ''n,,'') client_first of Some b \<Rightarrow> Some b | None \<Rightarrow> strip_prefix (str ''y,,'') client_first) of
           None \<Rightarrow> Inl BadGs2Header
         | Some bare \<Rightarrow>
             (case field bare 114 of
                None \<Rightarrow> Inl MissingNonce
              | Some client_nonce \<Rightarrow>
                  (let combined = client_nonce @ ae_encode env nonce_bytes
                   in Inr \<lparr>sf_client_first_bare = bare,
                       sf_server_first_message =
                         str ''r='' @ combined @ str '',s='' @ ae_encode env (sm_salt cred) @ str '',i='' @ dec_digits (sm_iterations cred),
                       sf_combined_nonce = combined\<rparr>))))"

definition without_proof :: "bytes \<Rightarrow> bytes \<Rightarrow> bytes" where
  "without_proof channel_binding nonce = str ''c='' @ channel_binding @ str '',r='' @ nonce"

definition auth_message :: "server_first_state \<Rightarrow> bytes \<Rightarrow> bytes" where
  "auth_message first wp = sf_client_first_bare first @ str '','' @ sf_server_first_message first @ str '','' @ wp"

definition xor_keys :: "bytes \<Rightarrow> bytes \<Rightarrow> bytes" where
  "xor_keys a b = map2 (\<lambda>x y. x XOR y) a b"

definition verify_client_final :: "auth_env \<Rightarrow> bytes \<Rightarrow> server_first_state \<Rightarrow> scram_credential \<Rightarrow> scram_error + bytes" where
  "verify_client_final env client_final first cred =
     (if \<not> valid_utf8 client_final then Inl NotUtf8
      else
        (case field client_final 99 of None \<Rightarrow> Inl MissingChannelBinding | Some channel_binding \<Rightarrow>
         (case field client_final 114 of None \<Rightarrow> Inl MissingNonce | Some nonce \<Rightarrow>
          if nonce \<noteq> sf_combined_nonce first then Inl NonceMismatch
          else
            (case field client_final 112 of None \<Rightarrow> Inl MissingProof | Some proof64 \<Rightarrow>
             (case ae_decode env proof64 of None \<Rightarrow> Inl BadProofEncoding | Some proof \<Rightarrow>
              if length proof \<noteq> 32 then Inl MalformedProof
              else
                (let msg = auth_message first (without_proof channel_binding nonce);
                     client_signature = ae_hmac env (sm_stored_key cred) msg;
                     client_key = xor_keys proof client_signature
                 in if ae_sha256 env client_key \<noteq> sm_stored_key cred then Inl ProofFailed
                    else Inr (str ''v='' @ ae_encode env (ae_hmac env (sm_server_key cred) msg))))))))"

section \<open>Authentication\<close>

datatype auth_error =
    NoLogin | NoSuchRole | CredentialError rbac_error | ExpectedPassword | BadInitialResponse | BadMechanism | ScramFailed scram_error

definition parse_sasl_initial_response :: "bytes \<Rightarrow> auth_error + bytes \<times> bytes" where
  "parse_sasl_initial_response data =
     (if 0 \<notin> set data then Inl BadInitialResponse
      else
        (let mechanism = takeWhile (\<lambda>b. b \<noteq> 0) data; rest = tl (dropWhile (\<lambda>b. b \<noteq> 0) data)
         in if \<not> valid_utf8 mechanism then Inl BadInitialResponse
            else if length rest < 4 then Inl BadInitialResponse
            else
              (let len = of_be (take 4 rest)
               in if 2 ^ 31 \<le> len then Inr (mechanism, [])
                  else if length (drop 4 rest) < len then Inl BadInitialResponse
                  else Inr (mechanism, take len (drop 4 rest)))))"

definition scram_mechanism :: bytes where
  "scram_mechanism = str ''SCRAM-SHA-256''"

text \<open>The messages the client answers with are arguments; \<open>None\<close> is a message of another kind.\<close>

definition authenticate ::
  "auth_env \<Rightarrow> bytes \<Rightarrow> rows \<Rightarrow> bytes \<Rightarrow> bytes option \<Rightarrow> bytes option \<Rightarrow> auth_error + bytes" where
  "authenticate env nonce_bytes rs user initial final =
     (if (case find_role user rs of Some attrs \<Rightarrow> \<not> ra_can_login attrs | None \<Rightarrow> False) then Inl NoLogin
      else
        (case find_credential env user rs of
           Inl e \<Rightarrow> Inl (CredentialError e)
         | Inr None \<Rightarrow> Inl NoSuchRole
         | Inr (Some cred) \<Rightarrow>
             (case initial of None \<Rightarrow> Inl ExpectedPassword | Some data \<Rightarrow>
              attempt (parse_sasl_initial_response data) (\<lambda>(mechanism, client_first).
                if mechanism \<noteq> scram_mechanism then Inl BadMechanism
                else
                  (case server_first env nonce_bytes client_first cred of
                     Inl e \<Rightarrow> Inl (ScramFailed e)
                   | Inr first \<Rightarrow>
                       (case final of None \<Rightarrow> Inl ExpectedPassword | Some client_final \<Rightarrow>
                        (case verify_client_final env client_final first cred of
                           Inl e \<Rightarrow> Inl (ScramFailed e)
                         | Inr server_final \<Rightarrow> Inr server_final)))))))"

section \<open>A client\<close>

text \<open>The messages of a client of RFC 5802 that sends no authorisation identity and no extensions. The password is
  the one after the client's normalisation (SASLprep in the RFC).\<close>

definition client_key :: "auth_env \<Rightarrow> bytes \<Rightarrow> bytes \<Rightarrow> nat \<Rightarrow> bytes" where
  "client_key env password salt iterations = ae_hmac env (ae_pbkdf2 env password salt iterations) (str ''Client Key'')"

definition client_first_bare :: "bytes \<Rightarrow> bytes \<Rightarrow> bytes" where
  "client_first_bare user nonce = str ''n='' @ user @ str '',r='' @ nonce"

definition client_final :: "auth_env \<Rightarrow> bytes \<Rightarrow> bytes \<Rightarrow> bytes \<Rightarrow> nat \<Rightarrow> server_first_state \<Rightarrow> bytes" where
  "client_final env channel_binding password salt iterations first =
     (let wp = without_proof channel_binding (sf_combined_nonce first);
          key = client_key env password salt iterations;
          signature = ae_hmac env (ae_sha256 env key) (auth_message first wp)
      in wp @ str '',p='' @ ae_encode env (xor_keys key signature))"

section \<open>Attributes\<close>

text \<open>The values of attributes: ASCII without commas.\<close>

definition plain_value :: "bytes \<Rightarrow> bool" where
  "plain_value s \<longleftrightarrow> list_all (\<lambda>b. b < 128 \<and> b \<noteq> 44) s"

lemma plain_value_append [simp]: "plain_value (a @ b) \<longleftrightarrow> plain_value a \<and> plain_value b"
  by (simp add: plain_value_def)

lemma split_commas_plain: "plain_value a \<Longrightarrow> split_commas a = [a]" "plain_value a \<Longrightarrow> split_commas (a @ 44 # s) = a # split_commas s"
  by (induction a) (auto simp: plain_value_def)

lemma field_plain:
  "plain_value a \<Longrightarrow> field (a @ 44 # s) key = (if take 2 a = [key, 61] then Some (drop 2 a) else field s key)"
  "plain_value a \<Longrightarrow> field a key = (if take 2 a = [key, 61] then Some (drop 2 a) else None)"
  by (simp_all add: field_def split_commas_plain)

lemma valid_utf8_plain: "list_all (\<lambda>b. b < 128) s \<Longrightarrow> valid_utf8 s"
  by (rule valid_utf8_ascii) (simp add: list_all_iff)

lemma plain_ascii: "plain_value s \<Longrightarrow> list_all (\<lambda>b. b < 128) s"
  by (simp add: plain_value_def list_all_iff)

lemma tag_texts: "str ''c='' = [99, 61]" "str '',r='' = [44, 114, 61]" "str '',p='' = [44, 112, 61]" "str ''n='' = [110, 61]" "str ''n,,'' = [110, 44, 44]"
  "str ''y,,'' = [121, 44, 44]"
  by (simp_all add: str_def of_char_def)

text \<open>The three attributes of a client's final message.\<close>

lemma final_fields:
  assumes "plain_value cb" "plain_value nonce" "plain_value p64"
  defines "m \<equiv> without_proof cb nonce @ str '',p='' @ p64"
  shows "field m 99 = Some cb" "field m 114 = Some nonce" "field m 112 = Some p64" "valid_utf8 m"
proof -
  have m: "m = (99 # 61 # cb) @ 44 # (114 # 61 # nonce) @ 44 # 112 # 61 # p64"
    by (simp add: m_def without_proof_def tag_texts)
  have pl: "plain_value (99 # 61 # cb)" "plain_value (114 # 61 # nonce)" "plain_value (112 # 61 # p64)"
    using assms(1-3) by (simp_all add: plain_value_def)
  show "field m 99 = Some cb" unfolding m field_plain(1) [OF pl(1)] by simp
  show "field m 114 = Some nonce" unfolding m field_plain(1) [OF pl(1)] field_plain(1) [OF pl(2)] by simp
  show "field m 112 = Some p64" unfolding m field_plain(1) [OF pl(1)] field_plain(1) [OF pl(2)] field_plain(2) [OF pl(3)] by simp
  show "valid_utf8 m"
    using pl by (intro valid_utf8_plain) (auto simp: m plain_value_def list_all_iff)
qed

lemma xor_keys_twice: "length a = length b \<Longrightarrow> xor_keys (xor_keys a b) b = a"
  unfolding xor_keys_def by (induction a b rule: list_induct2) (simp_all add: xor.assoc)

lemma length_xor_keys [simp]: "length (xor_keys a b) = min (length a) (length b)"
  by (simp add: xor_keys_def)

section \<open>Correctness\<close>

text \<open>What the primitives promise: digests have 32 bytes, base64 text decodes to what was encoded,
  is made of plain characters and is not much longer.\<close>

definition primitives_ok :: "auth_env \<Rightarrow> bool" where
  "primitives_ok env \<longleftrightarrow>
     (\<forall>k m. length (ae_hmac env k m) = 32) \<and> (\<forall>x. length (ae_sha256 env x) = 32) \<and>
     (\<forall>x. ae_decode env (ae_encode env x) = Some x) \<and> (\<forall>x. plain_value (ae_encode env x)) \<and>
     (\<forall>x. length (ae_encode env x) \<le> 4 * length x + 4)"

lemma server_first_runs:
  assumes "plain_value user" "plain_value nonce" "gs2 = str ''n,,'' \<or> gs2 = str ''y,,''"
  obtains first where "server_first env nb (gs2 @ client_first_bare user nonce) cred = Inr first"
    "sf_combined_nonce first = nonce @ ae_encode env nb"
proof -
  let ?bare = "client_first_bare user nonce"
  have bare: "?bare = (110 # 61 # user) @ 44 # 114 # 61 # nonce" by (simp add: client_first_bare_def tag_texts)
  have pl: "plain_value (110 # 61 # user)" "plain_value (114 # 61 # nonce)" using assms(1,2) by (simp_all add: plain_value_def)
  have "field ?bare 114 = Some nonce" unfolding bare field_plain(1) [OF pl(1)] field_plain(2) [OF pl(2)] by simp
  moreover have "valid_utf8 (gs2 @ ?bare)"
    using assms pl by (intro valid_utf8_plain) (auto simp: bare tag_texts plain_value_def list_all_iff)
  moreover have "strip_prefix (str ''n,,'') (gs2 @ ?bare) = Some ?bare \<or>
      strip_prefix (str ''n,,'') (gs2 @ ?bare) = None \<and> strip_prefix (str ''y,,'') (gs2 @ ?bare) = Some ?bare"
    using assms(3) by (auto simp: strip_prefix_def tag_texts)
  ultimately show ?thesis using that by (auto simp: server_first_def Let_def)
qed

lemma scram_complete:
  assumes "primitives_ok env" "plain_value user" "plain_value nonce" "gs2 = str ''n,,'' \<or> gs2 = str ''y,,''"
    and cred: "cred = derive_credential env password salt iterations"
  shows "\<exists>first v. server_first env nb (gs2 @ client_first_bare user nonce) cred = Inr first \<and>
    verify_client_final env (client_final env (ae_encode env gs2) password salt iterations first) first cred = Inr (str ''v='' @ v)"
proof -
  obtain first where first: "server_first env nb (gs2 @ client_first_bare user nonce) cred = Inr first"
    "sf_combined_nonce first = nonce @ ae_encode env nb"
    using server_first_runs [OF assms(2-4)] by blast
  let ?key = "client_key env password salt iterations"
  let ?wp = "without_proof (ae_encode env gs2) (sf_combined_nonce first)"
  let ?sig = "ae_hmac env (ae_sha256 env ?key) (auth_message first ?wp)"
  have plain: "plain_value (ae_encode env x)" for x using assms(1) by (simp add: primitives_ok_def)
  have len: "length ?key = 32" "length ?sig = 32" using assms(1) by (simp_all add: primitives_ok_def client_key_def)
  have stored: "sm_stored_key cred = ae_sha256 env ?key" by (simp add: cred derive_credential_def Let_def client_key_def)
  have fields: "field (client_final env (ae_encode env gs2) password salt iterations first) 99 = Some (ae_encode env gs2)"
    "field (client_final env (ae_encode env gs2) password salt iterations first) 114 = Some (sf_combined_nonce first)"
    "field (client_final env (ae_encode env gs2) password salt iterations first) 112 = Some (ae_encode env (xor_keys ?key ?sig))"
    "valid_utf8 (client_final env (ae_encode env gs2) password salt iterations first)"
    using final_fields [of "ae_encode env gs2" "sf_combined_nonce first" "ae_encode env (xor_keys ?key ?sig)"] plain assms(3) first(2)
    by (simp_all add: client_final_def Let_def)
  have "ae_decode env (ae_encode env (xor_keys ?key ?sig)) = Some (xor_keys ?key ?sig)" using assms(1) by (simp add: primitives_ok_def)
  then show ?thesis
    using first(1) fields len xor_keys_twice [of ?key ?sig] stored by (simp add: verify_client_final_def Let_def)
qed

text \<open>The credential a role was created with is found again.\<close>

definition role_cells :: "auth_env \<Rightarrow> bytes \<Rightarrow> int \<Rightarrow> bytes \<Rightarrow> scram_credential \<Rightarrow> bool \<Rightarrow> bool \<Rightarrow> bytes list" where
  "role_cells env salt now user cred superuser can_login =
     [user, ae_encode env salt, dec_digits 4096, ae_encode env (sm_stored_key cred), ae_encode env (sm_server_key cred),
      (if now < 0 then str ''-'' else []) @ dec_digits (nat \<bar>now\<bar>), flag_text superuser, flag_text can_login]"

lemma upsert_row:
  "bt_get (upsert_with_attrs env salt now user (Some pw) superuser can_login rs) user =
   Some (encode_cells (map text_cell (role_cells env salt now user (derive_credential env pw salt 4096) superuser can_login)))"
  by (simp add: upsert_with_attrs_def role_cells_def bt_get_insert Let_def derive_credential_def int_cell_def text_cell_def)

lemma role_cells_short:
  assumes "primitives_ok env" "length user < 2 ^ 28" "length salt = 16" "\<bar>now\<bar> < 2 ^ 63" "cred = derive_credential env pw salt 4096"
  shows "list_all (\<lambda>s. length s < 2 ^ 31) (role_cells env salt now user cred su cl)"
proof -
  have enc: "length (ae_encode env x) < 2 ^ 31" if "length x \<le> 32" for x
  proof -
    have "length (ae_encode env x) \<le> 4 * length x + 4" using assms(1) by (simp add: primitives_ok_def)
    then show ?thesis using that by simp
  qed
  have "nat \<bar>now\<bar> < 10 ^ Suc 19" using assms(4) by simp
  from length_dec_digits [OF this] have "length (dec_digits (nat \<bar>now\<bar>)) \<le> 20" by simp
  moreover have "length (dec_digits 4096) \<le> 4" using length_dec_digits [of 4096 3] by simp
  moreover have "length (sm_stored_key cred) = 32" "length (sm_server_key cred) = 32"
    using assms(1,5) by (simp_all add: derive_credential_def Let_def primitives_ok_def)
  ultimately show ?thesis
    using assms(2,3) enc by (cases "now < 0") (simp_all add: role_cells_def flag_text_def str_def)
qed

lemma parse_4096: "parse_as_u32 (dec_digits 4096) = Some 4096" "list_all (\<lambda>b. b < 128) (dec_digits 4096)"
  by (simp_all add: dec_digits.simps parse_as_u32_def parse_signed_def peek_byte_def ascii_digit_def digits_value_def)

lemma credential_found:
  assumes "primitives_ok env" "plain_value user" "length user < 2 ^ 28" "length salt = 16" "\<bar>now\<bar> < 2 ^ 63"
    and rs': "rs' = upsert_with_attrs env salt now user (Some pw) su True rs"
  shows "find_credential env user rs' = Inr (Some (derive_credential env pw salt 4096))"
    "\<exists>attrs. find_role user rs' = Some attrs \<and> ra_can_login attrs"
proof -
  let ?cred = "derive_credential env pw salt 4096"
  let ?cells = "role_cells env salt now user ?cred su True"
  have short: "list_all (\<lambda>s. length s < 2 ^ 31) ?cells" using role_cells_short assms(1,3-5) by blast
  have plain: "valid_utf8 (ae_encode env x)" for x
    using assms(1) by (intro valid_utf8_plain plain_ascii) (simp add: primitives_ok_def)
  have cell: "cell_str (encode_cells (map text_cell ?cells)) i = Inr (?cells ! i)" if "i < 8" "valid_utf8 (?cells ! i)" for i
    using cell_str_encode [OF short] that by (simp add: role_cells_def)
  have key: "length (sm_stored_key ?cred) = 32" "length (sm_server_key ?cred) = 32" "sm_salt ?cred = salt" "sm_iterations ?cred = 4096"
    using assms(1) by (simp_all add: derive_credential_def Let_def primitives_ok_def)
  have dec: "ae_decode env (ae_encode env x) = Some x" for x using assms(1) by (simp add: primitives_ok_def)
  show "find_credential env user rs' = Inr (Some ?cred)"
    using cell [of 1] cell [of 2] cell [of 3] cell [of 4] plain valid_utf8_plain [OF parse_4096(2)] parse_4096(1) key dec
    by (simp add: rs' find_credential_def upsert_row role_cells_def)
  have "valid_utf8 (flag_text True)" by (simp add: flag_text_def str_def of_char_def utf8_step_def utf8_width_def)
  then show "\<exists>attrs. find_role user rs' = Some attrs \<and> ra_can_login attrs"
    using cell [of 7] by (simp add: rs' find_role_def upsert_row row_attributes_def cell_flag_def role_cells_def flag_text_def)
qed

definition sasl_initial :: "bytes \<Rightarrow> bytes" where
  "sasl_initial client_first = scram_mechanism @ [0] @ be32 (length client_first) @ client_first"

lemma parse_sasl_initial:
  assumes "length cf < 2 ^ 31" shows "parse_sasl_initial_response (sasl_initial cf) = Inr (scram_mechanism, cf)"
proof -
  have mech: "\<forall>b \<in> set scram_mechanism. b \<noteq> 0 \<and> b < 128" by (simp add: scram_mechanism_def str_def of_char_def)
  have tw: "takeWhile (\<lambda>b. b \<noteq> 0) (sasl_initial cf) = scram_mechanism"
    "dropWhile (\<lambda>b. b \<noteq> 0) (sasl_initial cf) = 0 # be32 (length cf) @ cf"
    using mech by (auto simp: sasl_initial_def takeWhile_append dropWhile_append simp del: be_bytes.simps)
  have "valid_utf8 scram_mechanism" using mech by (intro valid_utf8_ascii) blast
  moreover have "of_be (be32 (length cf)) = length cf" using assms by (intro of_be32) simp
  moreover have "0 \<in> set (sasl_initial cf)" by (simp add: sasl_initial_def)
  ultimately show ?thesis using tw assms by (simp add: parse_sasl_initial_response_def Let_def del: be_bytes.simps)
qed

lemma authenticate_runs:
  assumes "primitives_ok env" "plain_value user" "length user < 2 ^ 28" "length salt = 16" "\<bar>now\<bar> < 2 ^ 63" "length cf < 2 ^ 31"
    and "server_first env nb cf (derive_credential env pw salt 4096) = Inr first"
    and "verify_client_final env final first (derive_credential env pw salt 4096) = Inr v"
  shows "authenticate env nb (upsert_with_attrs env salt now user (Some pw) su True rs) user (Some (sasl_initial cf)) (Some final) = Inr v"
proof -
  obtain attrs where "find_role user (upsert_with_attrs env salt now user (Some pw) su True rs) = Some attrs" "ra_can_login attrs"
    using credential_found(2) [OF assms(1-5) refl] by blast
  then show ?thesis
    using credential_found(1) [OF assms(1-5) refl, of pw su rs] parse_sasl_initial [OF assms(6)] assms(7,8) by (simp add: authenticate_def)
qed

text \<open>C37: A role created with a password can log in with it, whatever the salt and the nonces: the server
  authenticates a client that computes its messages as RFC 5802 says from the user name, its nonce and the password,
  provided user name and nonce are ASCII without commas, the header is \<open>n,,\<close> or \<open>y,,\<close> (no channel binding, no
  authorisation identity), there are no extensions, and the normalisation the client applies leaves the password as
  it is. (The server derives keys from the password without normalising it.)\<close>

theorem login_succeeds:
  assumes "primitives_ok env" "plain_value user" "length user < 2 ^ 28" "length salt = 16" "\<bar>now\<bar> < 2 ^ 63"
    and "plain_value nonce" "length nonce < 2 ^ 28" "gs2 = str ''n,,'' \<or> gs2 = str ''y,,''" and "prep pw = pw"
  shows "\<exists>first v.
    server_first env nb (gs2 @ client_first_bare user nonce) (derive_credential env pw salt 4096) = Inr first \<and>
    authenticate env nb (upsert_with_attrs env salt now user (Some pw) su True rs) user
      (Some (sasl_initial (gs2 @ client_first_bare user nonce)))
      (Some (client_final env (ae_encode env gs2) (prep pw) salt 4096 first)) = Inr v"
proof -
  have len: "length (gs2 @ client_first_bare user nonce) < 2 ^ 31"
    using assms(3,7,8) by (auto simp: client_first_bare_def str_def)
  show ?thesis
    using scram_complete [where password = pw and salt = salt and iterations = 4096 and nb = nb, OF assms(1,2,6,8) refl] authenticate_runs [OF assms(1-5) len] assms(9) by auto
qed

text \<open>C22: A connection is authenticated only as a role that exists and may log in, and only if the
  client's final message repeats the nonce of this exchange, which ends with what the server
  drew, and proves knowledge of a preimage of the stored key of that role.\<close>

theorem authenticate_sound:
  assumes "authenticate env nb rs user initial final = Inr v"
  shows "\<exists>attrs cred cf nonce cb p64 pf msg.
    find_role user rs = Some attrs \<and> ra_can_login attrs \<and> find_credential env user rs = Inr (Some cred) \<and> final = Some cf \<and>
    field cf 114 = Some (nonce @ ae_encode env nb) \<and> field cf 99 = Some cb \<and> field cf 112 = Some p64 \<and>
    ae_decode env p64 = Some pf \<and> length pf = 32 \<and>
    (\<exists>rest. msg = rest @ without_proof cb (nonce @ ae_encode env nb)) \<and>
    ae_sha256 env (xor_keys pf (ae_hmac env (sm_stored_key cred) msg)) = sm_stored_key cred"
proof -
  obtain cred data cf mech cfirst first where step:
    "\<not> (case find_role user rs of Some attrs \<Rightarrow> \<not> ra_can_login attrs | None \<Rightarrow> False)"
    "find_credential env user rs = Inr (Some cred)" "final = Some cf" "server_first env nb cfirst cred = Inr first"
    "verify_client_final env cf first cred = Inr v"
    using assms by (auto simp: authenticate_def attempt_Inr_iff split: if_splits sum.splits option.splits)
  obtain attrs where attrs: "find_role user rs = Some attrs" "ra_can_login attrs"
    using step(1,2) by (cases "bt_get rs user") (auto simp: find_role_def find_credential_def)
  obtain nonce where nonce: "sf_combined_nonce first = nonce @ ae_encode env nb"
    using step(4) by (auto simp: server_first_def Let_def split: if_splits option.splits)
  obtain cb p64 pf where ok: "field cf 99 = Some cb" "field cf 114 = Some (sf_combined_nonce first)" "field cf 112 = Some p64"
    "ae_decode env p64 = Some pf" "length pf = 32"
    "ae_sha256 env (xor_keys pf (ae_hmac env (sm_stored_key cred) (auth_message first (without_proof cb (sf_combined_nonce first))))) = sm_stored_key cred"
    using step(5) by (auto simp: verify_client_final_def Let_def split: if_splits option.splits)
  have "\<exists>rest. auth_message first (without_proof cb (sf_combined_nonce first)) = rest @ without_proof cb (nonce @ ae_encode env nb)"
    by (auto simp: auth_message_def nonce)
  with attrs step(2,3) ok nonce show ?thesis by metis
qed

section \<open>A concrete exchange\<close>

text \<open>An instance of the primitives: constant digests, two characters for each byte.\<close>

fun nibbles :: "bytes \<Rightarrow> bytes" where
  "nibbles [] = []"
| "nibbles (b # bs) = word_of_nat (65 + unat b div 16) # word_of_nat (65 + unat b mod 16) # nibbles bs"

fun unnibbles :: "bytes \<Rightarrow> bytes option" where
  "unnibbles [] = Some []"
| "unnibbles [_] = None"
| "unnibbles (x # y # bs) = map_option (Cons (word_of_nat ((unat x - 65) * 16 + (unat y - 65)))) (unnibbles bs)"

definition demo_primitives :: auth_env where
  "demo_primitives = \<lparr>ae_pbkdf2 = (\<lambda>_ _ _. []), ae_hmac = (\<lambda>_ _. replicate 32 0), ae_sha256 = (\<lambda>_. replicate 32 7), ae_encode = nibbles,
     ae_decode = unnibbles\<rparr>"

lemma unat_small: "n < 256 \<Longrightarrow> unat (word_of_nat n :: byte) = n"
  by (simp add: unsigned_of_nat take_bit_nat_eq_self)

lemma nibble_bounds: "65 + unat (b :: byte) div 16 < 81" "65 + unat b mod 16 < 81"
proof -
  have "unat b < 256" using unsigned_less [of b] by simp
  then show "65 + unat b div 16 < 81" "65 + unat b mod 16 < 81" by auto
qed

lemma nibble_unat:
  "unat (word_of_nat (65 + unat (b :: byte) div 16) :: byte) = 65 + unat b div 16"
  "unat (word_of_nat (65 + unat b mod 16) :: byte) = 65 + unat b mod 16"
  using nibble_bounds [of b] by (simp_all only: unat_small)

lemma unnibbles_nibbles: "unnibbles (nibbles bs) = Some bs"
proof (induction bs)
  case (Cons b bs)
  have "unat b div 16 * 16 + unat b mod 16 = unat b" by simp
  then show ?case using Cons by (simp only: nibbles.simps unnibbles.simps nibble_unat) (simp add: ac_simps)
qed simp

lemma plain_nibbles: "plain_value (nibbles bs)"
proof (induction bs)
  case (Cons b bs)
  have small: "(word_of_nat n :: byte) < 128 \<and> (word_of_nat n :: byte) \<noteq> 44" if "65 \<le> n" "n < 81" for n
  proof -
    have "unat (word_of_nat n :: byte) = n" using that by (intro unat_small) simp
    then show ?thesis using that by (auto simp: word_less_nat_alt dest: arg_cong [where f = unat])
  qed
  show ?case
    using Cons small [OF _ nibble_bounds(1) [of b]] small [OF _ nibble_bounds(2) [of b]]
    by (simp only: nibbles.simps plain_value_def list.pred_inject) simp
qed (simp add: plain_value_def)

lemma demo_primitives_ok: "primitives_ok demo_primitives"
proof -
  have "length (nibbles bs) = 2 * length bs" for bs by (induction bs) auto
  then show ?thesis by (simp add: primitives_ok_def demo_primitives_def unnibbles_nibbles plain_nibbles)
qed

theorem login_succeeds_witness:
  "\<exists>first v.
    server_first demo_primitives [] (str ''n,,'' @ client_first_bare [97] [98]) (derive_credential demo_primitives [112] (replicate 16 0) 4096)
      = Inr first \<and>
    authenticate demo_primitives [] (upsert_with_attrs demo_primitives (replicate 16 0) 0 [97] (Some [112]) False True []) [97]
      (Some (sasl_initial (str ''n,,'' @ client_first_bare [97] [98])))
      (Some (client_final demo_primitives (ae_encode demo_primitives (str ''n,,'')) (id [112]) (replicate 16 0) 4096 first)) = Inr v"
  by (rule login_succeeds [OF demo_primitives_ok]) (simp_all add: plain_value_def)

text \<open>A client that names an authorisation identity, as the RFC allows, is refused.\<close>

lemma authzid_refused:
  "valid_utf8 (str ''n,a='' @ m) \<Longrightarrow> \<exists>e. server_first env nb (str ''n,a='' @ m) cred = Inl e"
  by (auto simp: server_first_def strip_prefix_def str_def of_char_def)

lemma demo_exchange:
  "\<exists>initial final v. authenticate demo_primitives [] (upsert_with_attrs demo_primitives (replicate 16 0) 0 [97] (Some [112]) False True [])
      [97] initial final = Inr v"
proof -
  have "plain_value [97]" "plain_value [98]" by (simp_all add: plain_value_def)
  from scram_complete [where ?gs2.0 = "str ''n,,''" and password = "[112]" and salt = "replicate 16 0" and iterations = 4096 and nb = "[]",
      OF demo_primitives_ok this _ refl]
  obtain first v where ok: "server_first demo_primitives [] (str ''n,,'' @ client_first_bare [97] [98])
      (derive_credential demo_primitives [112] (replicate 16 0) 4096) = Inr first"
    "verify_client_final demo_primitives (client_final demo_primitives (ae_encode demo_primitives (str ''n,,'')) [112] (replicate 16 0) 4096 first)
      first (derive_credential demo_primitives [112] (replicate 16 0) 4096) = Inr (str ''v='' @ v)"
    by blast
  have "length (str ''n,,'' @ client_first_bare [97] [98]) < 2 ^ 31" by (simp add: client_first_bare_def str_def)
  from authenticate_runs [OF demo_primitives_ok _ _ _ _ this ok, of "[97]" 0 False "[]"] show ?thesis
    by (auto simp: plain_value_def)
qed

theorem authenticate_sound_witness:
  "\<exists>attrs. find_role [97] (upsert_with_attrs demo_primitives (replicate 16 0) 0 [97] (Some [112]) False True []) = Some attrs \<and>
     ra_can_login attrs"
proof -
  obtain initial final v where "authenticate demo_primitives [] (upsert_with_attrs demo_primitives (replicate 16 0) 0 [97] (Some [112]) False True [])
      [97] initial final = Inr v"
    using demo_exchange by blast
  from authenticate_sound [OF this] show ?thesis by blast
qed

end
