(* ===== verification/Huffman.thy ===== *)
theory Huffman
  imports Compress
begin

text \<open>
  The Huffman code of HPACK strings (\<open>wire/grpc/hpack.rs\<close>, lines 92 to 402): the table and the
  decoder, which walks the input bit by bit and looks the accumulated code up. The reference is
  the encoder of RFC 7541: the codes of the octets one after the other, padded with ones. The
  decoder is its inverse, and accepts nothing that the encoder does not produce.
\<close>

section \<open>The table and the decoder\<close>

text \<open>The code and its length in bits, for the octets and for the end of string. Codes have at most
  30 bits, so \<open>u32\<close> values are exact.\<close>

definition huffman_table :: "(int \<times> nat) list" where
  "huffman_table =
    [
     (0x1ff8, 13), (0x7fffd8, 23), (0xfffffe2, 28), (0xfffffe3, 28), (0xfffffe4, 28), (0xfffffe5, 28),
     (0xfffffe6, 28), (0xfffffe7, 28), (0xfffffe8, 28), (0xffffea, 24), (0x3ffffffc, 30), (0xfffffe9, 28),
     (0xfffffea, 28), (0x3ffffffd, 30), (0xfffffeb, 28), (0xfffffec, 28), (0xfffffed, 28), (0xfffffee, 28),
     (0xfffffef, 28), (0xffffff0, 28), (0xffffff1, 28), (0xffffff2, 28), (0x3ffffffe, 30), (0xffffff3, 28),
     (0xffffff4, 28), (0xffffff5, 28), (0xffffff6, 28), (0xffffff7, 28), (0xffffff8, 28), (0xffffff9, 28),
     (0xffffffa, 28), (0xffffffb, 28), (0x14, 6), (0x3f8, 10), (0x3f9, 10), (0xffa, 12), (0x1ff9, 13),
     (0x15, 6), (0xf8, 8), (0x7fa, 11), (0x3fa, 10), (0x3fb, 10), (0xf9, 8), (0x7fb, 11), (0xfa, 8),
     (0x16, 6), (0x17, 6), (0x18, 6), (0x0, 5), (0x1, 5), (0x2, 5), (0x19, 6), (0x1a, 6), (0x1b, 6),
     (0x1c, 6), (0x1d, 6), (0x1e, 6), (0x1f, 6), (0x5c, 7), (0xfb, 8), (0x7ffc, 15), (0x20, 6), (0xffb, 12),
     (0x3fc, 10), (0x1ffa, 13), (0x21, 6), (0x5d, 7), (0x5e, 7), (0x5f, 7), (0x60, 7), (0x61, 7), (0x62, 7),
     (0x63, 7), (0x64, 7), (0x65, 7), (0x66, 7), (0x67, 7), (0x68, 7), (0x69, 7), (0x6a, 7), (0x6b, 7),
     (0x6c, 7), (0x6d, 7), (0x6e, 7), (0x6f, 7), (0x70, 7), (0x71, 7), (0x72, 7), (0xfc, 8), (0x73, 7),
     (0xfd, 8), (0x1ffb, 13), (0x7fff0, 19), (0x1ffc, 13), (0x3ffc, 14), (0x22, 6), (0x7ffd, 15), (0x3, 5),
     (0x23, 6), (0x4, 5), (0x24, 6), (0x5, 5), (0x25, 6), (0x26, 6), (0x27, 6), (0x6, 5), (0x74, 7),
     (0x75, 7), (0x28, 6), (0x29, 6), (0x2a, 6), (0x7, 5), (0x2b, 6), (0x76, 7), (0x2c, 6), (0x8, 5),
     (0x9, 5), (0x2d, 6), (0x77, 7), (0x78, 7), (0x79, 7), (0x7a, 7), (0x7b, 7), (0x7ffe, 15), (0x7fc, 11),
     (0x3ffd, 14), (0x1ffd, 13), (0xffffffc, 28), (0xfffe6, 20), (0x3fffd2, 22), (0xfffe7, 20),
     (0xfffe8, 20), (0x3fffd3, 22), (0x3fffd4, 22), (0x3fffd5, 22), (0x7fffd9, 23), (0x3fffd6, 22),
     (0x7fffda, 23), (0x7fffdb, 23), (0x7fffdc, 23), (0x7fffdd, 23), (0x7fffde, 23), (0xffffeb, 24),
     (0x7fffdf, 23), (0xffffec, 24), (0xffffed, 24), (0x3fffd7, 22), (0x7fffe0, 23), (0xffffee, 24),
     (0x7fffe1, 23), (0x7fffe2, 23), (0x7fffe3, 23), (0x7fffe4, 23), (0x1fffdc, 21), (0x3fffd8, 22),
     (0x7fffe5, 23), (0x3fffd9, 22), (0x7fffe6, 23), (0x7fffe7, 23), (0xffffef, 24), (0x3fffda, 22),
     (0x1fffdd, 21), (0xfffe9, 20), (0x3fffdb, 22), (0x3fffdc, 22), (0x7fffe8, 23), (0x7fffe9, 23),
     (0x1fffde, 21), (0x7fffea, 23), (0x3fffdd, 22), (0x3fffde, 22), (0xfffff0, 24), (0x1fffdf, 21),
     (0x3fffdf, 22), (0x7fffeb, 23), (0x7fffec, 23), (0x1fffe0, 21), (0x1fffe1, 21), (0x3fffe0, 22),
     (0x1fffe2, 21), (0x7fffed, 23), (0x3fffe1, 22), (0x7fffee, 23), (0x7fffef, 23), (0xfffea, 20),
     (0x3fffe2, 22), (0x3fffe3, 22), (0x3fffe4, 22), (0x7ffff0, 23), (0x3fffe5, 22), (0x3fffe6, 22),
     (0x7ffff1, 23), (0x3ffffe0, 26), (0x3ffffe1, 26), (0xfffeb, 20), (0x7fff1, 19), (0x3fffe7, 22),
     (0x7ffff2, 23), (0x3fffe8, 22), (0x1ffffec, 25), (0x3ffffe2, 26), (0x3ffffe3, 26), (0x3ffffe4, 26),
     (0x7ffffde, 27), (0x7ffffdf, 27), (0x3ffffe5, 26), (0xfffff1, 24), (0x1ffffed, 25), (0x7fff2, 19),
     (0x1fffe3, 21), (0x3ffffe6, 26), (0x7ffffe0, 27), (0x7ffffe1, 27), (0x3ffffe7, 26), (0x7ffffe2, 27),
     (0xfffff2, 24), (0x1fffe4, 21), (0x1fffe5, 21), (0x3ffffe8, 26), (0x3ffffe9, 26), (0xffffffd, 28),
     (0x7ffffe3, 27), (0x7ffffe4, 27), (0x7ffffe5, 27), (0xfffec, 20), (0xfffff3, 24), (0xfffed, 20),
     (0x1fffe6, 21), (0x3fffe9, 22), (0x1fffe7, 21), (0x1fffe8, 21), (0x7ffff3, 23), (0x3fffea, 22),
     (0x3fffeb, 22), (0x1ffffee, 25), (0x1ffffef, 25), (0xfffff4, 24), (0xfffff5, 24), (0x3ffffea, 26),
     (0x7ffff4, 23), (0x3ffffeb, 26), (0x7ffffe6, 27), (0x3ffffec, 26), (0x3ffffed, 26), (0x7ffffe7, 27),
     (0x7ffffe8, 27), (0x7ffffe9, 27), (0x7ffffea, 27), (0x7ffffeb, 27), (0xffffffe, 28), (0x7ffffec, 27),
     (0x7ffffed, 27), (0x7ffffee, 27), (0x7ffffef, 27), (0x7fffff0, 27), (0x3ffffee, 26), (0x3fffffff, 30)]"

datatype huffman_error = CodeTooLong | EosSymbol | LeftoverBits | BadPadding

definition match_symbol :: "int \<Rightarrow> nat \<Rightarrow> nat option" where
  "match_symbol cur bits =
     map_option fst (find (\<lambda>(symbol, code, len). len = bits \<and> code = cur) (enumerate 0 huffman_table))"

text \<open>The bits left, the accumulated code and its length.\<close>

fun huffman_run :: "bool list \<Rightarrow> int \<Rightarrow> nat \<Rightarrow> bytes \<Rightarrow> huffman_error + bytes \<times> int \<times> nat" where
  "huffman_run [] cur cur_bits out = Inr (out, cur, cur_bits)"
| "huffman_run (b # bs) cur cur_bits out =
     (let cur' = 2 * cur + of_bool b; bits' = cur_bits + 1
      in if 30 < bits' then Inl CodeTooLong
         else
           (case match_symbol cur' bits' of
              Some symbol \<Rightarrow> if symbol = 256 then Inl EosSymbol else huffman_run bs 0 0 (out @ [word_of_nat symbol])
            | None \<Rightarrow> huffman_run bs cur' bits' out))"

definition huffman_decode :: "bytes \<Rightarrow> huffman_error + bytes" where
  "huffman_decode input =
     (case huffman_run (concat (map (msb_bits 8) input)) 0 0 [] of
        Inl e \<Rightarrow> Inl e
      | Inr (out, cur, cur_bits) \<Rightarrow>
          if 0 < cur_bits then
            (if 8 \<le> cur_bits then Inl LeftoverBits else if cur \<noteq> 2 ^ cur_bits - 1 then Inl BadPadding else Inr out)
          else Inr out)"

section \<open>The encoder of the RFC\<close>

definition code_bits :: "int \<times> nat \<Rightarrow> bool list" where
  "code_bits cl = map (bit (fst cl)) (rev [0..<snd cl])"

definition octet_bits :: "byte \<Rightarrow> bool list" where
  "octet_bits b = code_bits (huffman_table ! unat b)"

fun pack_bits :: "bool list \<Rightarrow> bytes" where
  "pack_bits (a # b # c # d # e # f # g # h # bs) = horner_sum of_bool 2 [h, g, f, e, d, c, b, a] # pack_bits bs"
| "pack_bits _ = []"

definition huffman_encode :: "bytes \<Rightarrow> bytes" where
  "huffman_encode s =
     (let bits = concat (map octet_bits s)
      in pack_bits (bits @ replicate ((8 - length bits mod 8) mod 8) True))"

section \<open>Bits\<close>

definition bits_value :: "bool list \<Rightarrow> int" where
  "bits_value bs = foldl (\<lambda>a b. 2 * a + of_bool b) 0 bs"

lemma bits_value_Nil [simp]: "bits_value [] = 0"
  by (simp add: bits_value_def)

lemma bits_value_snoc [simp]: "bits_value (bs @ [b]) = 2 * bits_value bs + of_bool b"
  by (simp add: bits_value_def)

lemma bits_value_horner: "bits_value bs = horner_sum of_bool 2 (rev bs)"
  by (induction bs rule: rev_induct) auto

lemma bits_value_bounds: "0 \<le> bits_value bs" "bits_value bs < 2 ^ length bs"
  by (induction bs rule: rev_induct) auto

lemma code_bits_value: "code_bits (bits_value bs, length bs) = bs"
  by (rule nth_equalityI)
    (auto simp: code_bits_def bits_value_horner bit_horner_sum_bit_iff rev_nth nth_append)

lemma bits_value_code: "0 \<le> c \<Longrightarrow> c < 2 ^ l \<Longrightarrow> bits_value (code_bits (c, l)) = c"
  by (simp add: code_bits_def bits_value_horner rev_map horner_sum_bit_eq_take_bit take_bit_int_eq_self)

lemma length_code_bits [simp]: "length (code_bits cl) = snd cl"
  by (simp add: code_bits_def)

lemma bits_value_ones: "bits_value (replicate n True) = 2 ^ n - 1"
proof (induction n)
  case (Suc n)
  then show ?case using bits_value_snoc [of "replicate n True" True] by (simp add: replicate_append_same)
qed simp

lemma bits_value_inj: "length p = length q \<Longrightarrow> bits_value p = bits_value q \<Longrightarrow> p = q"
  by (metis code_bits_value)

lemma msb_bits_pack: "length bs mod 8 = 0 \<Longrightarrow> concat (map (msb_bits 8) (pack_bits bs)) = bs"
proof (induction bs rule: pack_bits.induct)
  case (1 a b c d e f g h bs)
  let ?v = "horner_sum of_bool 2 [h, g, f, e, d, c, b, a] :: byte"
  have "bit ?v i \<longleftrightarrow> i < 8 \<and> [h, g, f, e, d, c, b, a] ! i" for i
    by (subst bit_horner_sum_bit_word_iff) (simp add: numeral_nat)
  then have "msb_bits 8 ?v = [a, b, c, d, e, f, g, h]"
    by (simp add: msb_bits_def upt_rec numeral_nat)
  moreover have "length bs mod 8 = 0" using 1(2) by (simp add: mod_Suc split: if_splits)
  ultimately show ?case using 1(1) by (simp only: pack_bits.simps list.map concat.simps) simp
qed auto

lemma pack_msb_bits: "pack_bits (concat (map (msb_bits 8) bs)) = bs"
proof (induction bs)
  case (Cons v bs)
  have bits: "msb_bits 8 v = [bit v 7, bit v 6, bit v 5, bit v 4, bit v 3, bit v 2, bit v 1, bit v 0]"
    by (simp add: msb_bits_def upt_rec numeral_nat)
  have "horner_sum of_bool 2 (map (bit v) [0..<8]) = v"
    by (simp only: horner_sum_bit_eq_take_bit) (simp add: take_bit_word_eq_self)
  moreover have "map (bit v) [0..<8] = [bit v 0, bit v 1, bit v 2, bit v 3, bit v 4, bit v 5, bit v 6, bit v 7]"
    by (simp add: upt_rec numeral_nat)
  ultimately show ?case using Cons by (simp add: bits)
qed simp

lemma length_bytes_bits: "length (concat (map (msb_bits 8) bs)) mod 8 = 0"
  by (induction bs) (auto simp: mod_eq_0_iff_dvd)

section \<open>No code is a prefix of another\<close>

text \<open>The code as a tree with the symbols at its leaves; the table holds the paths to them.\<close>

datatype code_tree = Sym nat | Br code_tree code_tree

fun symbol_at :: "code_tree \<Rightarrow> bool list \<Rightarrow> nat option" where
  "symbol_at (Sym s) [] = Some s"
| "symbol_at (Sym s) (b # bs) = None"
| "symbol_at (Br l r) [] = None"
| "symbol_at (Br l r) (True # bs) = symbol_at r bs"
| "symbol_at (Br l r) (False # bs) = symbol_at l bs"

lemma symbol_at_prefix: "symbol_at t p = Some s \<Longrightarrow> symbol_at t (p @ q) = Some s' \<Longrightarrow> q = [] \<and> s' = s"
  by (induction t p rule: symbol_at.induct) (auto elim: symbol_at.elims)

definition huffman_tree :: code_tree where
  "huffman_tree =
    Br (Br (Br (Br (Br (Sym 48) (Sym 49)) (Br (Sym 50) (Sym 97))) (Br (Br (Sym 99) (Sym 101)) (Br (Sym 105)
    (Sym 111)))) (Br (Br (Br (Sym 115) (Sym 116)) (Br (Br (Sym 32) (Sym 37)) (Br (Sym 45) (Sym 46)))) (Br (Br
    (Br (Sym 47) (Sym 51)) (Br (Sym 52) (Sym 53))) (Br (Br (Sym 54) (Sym 55)) (Br (Sym 56) (Sym 57)))))) (Br
    (Br (Br (Br (Br (Sym 61) (Sym 65)) (Br (Sym 95) (Sym 98))) (Br (Br (Sym 100) (Sym 102)) (Br (Sym 103) (Sym
    104)))) (Br (Br (Br (Sym 108) (Sym 109)) (Br (Sym 110) (Sym 112))) (Br (Br (Sym 114) (Sym 117)) (Br (Br
    (Sym 58) (Sym 66)) (Br (Sym 67) (Sym 68)))))) (Br (Br (Br (Br (Br (Sym 69) (Sym 70)) (Br (Sym 71) (Sym
    72))) (Br (Br (Sym 73) (Sym 74)) (Br (Sym 75) (Sym 76)))) (Br (Br (Br (Sym 77) (Sym 78)) (Br (Sym 79) (Sym
    80))) (Br (Br (Sym 81) (Sym 82)) (Br (Sym 83) (Sym 84))))) (Br (Br (Br (Br (Sym 85) (Sym 86)) (Br (Sym 87)
    (Sym 89))) (Br (Br (Sym 106) (Sym 107)) (Br (Sym 113) (Sym 118)))) (Br (Br (Br (Sym 119) (Sym 120)) (Br
    (Sym 121) (Sym 122))) (Br (Br (Br (Sym 38) (Sym 42)) (Br (Sym 44) (Sym 59))) (Br (Br (Sym 88) (Sym 90))
    (Br (Br (Br (Sym 33) (Sym 34)) (Br (Sym 40) (Sym 41))) (Br (Br (Sym 63) (Br (Sym 39) (Sym 43))) (Br (Br
    (Sym 124) (Br (Sym 35) (Sym 62))) (Br (Br (Br (Sym 0) (Sym 36)) (Br (Sym 64) (Sym 91))) (Br (Br (Sym 93)
    (Sym 126)) (Br (Br (Sym 94) (Sym 125)) (Br (Br (Sym 60) (Sym 96)) (Br (Sym 123) (Br (Br (Br (Br (Sym 92)
    (Sym 195)) (Br (Sym 208) (Br (Sym 128) (Sym 130)))) (Br (Br (Br (Sym 131) (Sym 162)) (Br (Sym 184) (Sym
    194))) (Br (Br (Sym 224) (Sym 226)) (Br (Br (Sym 153) (Sym 161)) (Br (Sym 167) (Sym 172)))))) (Br (Br (Br
    (Br (Br (Sym 176) (Sym 177)) (Br (Sym 179) (Sym 209))) (Br (Br (Sym 216) (Sym 217)) (Br (Sym 227) (Sym
    229)))) (Br (Br (Br (Sym 230) (Br (Sym 129) (Sym 132))) (Br (Br (Sym 133) (Sym 134)) (Br (Sym 136) (Sym
    146)))) (Br (Br (Br (Sym 154) (Sym 156)) (Br (Sym 160) (Sym 163))) (Br (Br (Sym 164) (Sym 169)) (Br (Sym
    170) (Sym 173)))))) (Br (Br (Br (Br (Br (Sym 178) (Sym 181)) (Br (Sym 185) (Sym 186))) (Br (Br (Sym 187)
    (Sym 189)) (Br (Sym 190) (Sym 196)))) (Br (Br (Br (Sym 198) (Sym 228)) (Br (Sym 232) (Sym 233))) (Br (Br
    (Br (Sym 1) (Sym 135)) (Br (Sym 137) (Sym 138))) (Br (Br (Sym 139) (Sym 140)) (Br (Sym 141) (Sym 143))))))
    (Br (Br (Br (Br (Br (Sym 147) (Sym 149)) (Br (Sym 150) (Sym 151))) (Br (Br (Sym 152) (Sym 155)) (Br (Sym
    157) (Sym 158)))) (Br (Br (Br (Sym 165) (Sym 166)) (Br (Sym 168) (Sym 174))) (Br (Br (Sym 175) (Sym 180))
    (Br (Sym 182) (Sym 183))))) (Br (Br (Br (Br (Sym 188) (Sym 191)) (Br (Sym 197) (Sym 231))) (Br (Br (Sym
    239) (Br (Sym 9) (Sym 142))) (Br (Br (Sym 144) (Sym 145)) (Br (Sym 148) (Sym 159))))) (Br (Br (Br (Br (Sym
    171) (Sym 206)) (Br (Sym 215) (Sym 225))) (Br (Br (Sym 236) (Sym 237)) (Br (Br (Sym 199) (Sym 207)) (Br
    (Sym 234) (Sym 235))))) (Br (Br (Br (Br (Br (Sym 192) (Sym 193)) (Br (Sym 200) (Sym 201))) (Br (Br (Sym
    202) (Sym 205)) (Br (Sym 210) (Sym 213)))) (Br (Br (Br (Sym 218) (Sym 219)) (Br (Sym 238) (Sym 240))) (Br
    (Br (Sym 242) (Sym 243)) (Br (Sym 255) (Br (Sym 203) (Sym 204)))))) (Br (Br (Br (Br (Br (Sym 211) (Sym
    212)) (Br (Sym 214) (Sym 221))) (Br (Br (Sym 222) (Sym 223)) (Br (Sym 241) (Sym 244)))) (Br (Br (Br (Sym
    245) (Sym 246)) (Br (Sym 247) (Sym 248))) (Br (Br (Sym 250) (Sym 251)) (Br (Sym 252) (Sym 253))))) (Br (Br
    (Br (Br (Sym 254) (Br (Sym 2) (Sym 3))) (Br (Br (Sym 4) (Sym 5)) (Br (Sym 6) (Sym 7)))) (Br (Br (Br (Sym
    8) (Sym 11)) (Br (Sym 12) (Sym 14))) (Br (Br (Sym 15) (Sym 16)) (Br (Sym 17) (Sym 18))))) (Br (Br (Br (Br
    (Sym 19) (Sym 20)) (Br (Sym 21) (Sym 23))) (Br (Br (Sym 24) (Sym 25)) (Br (Sym 26) (Sym 27)))) (Br (Br (Br
    (Sym 28) (Sym 29)) (Br (Sym 30) (Sym 31))) (Br (Br (Sym 127) (Sym 220)) (Br (Sym 249) (Br (Br (Sym 10)
    (Sym 13)) (Br (Sym 22) (Sym 256))))))))))))))))))))))))))))))"

lemma table_length: "length huffman_table = 257"
  by (simp add: huffman_table_def)

lemma table_range: "list_all (\<lambda>(c, l). l \<le> 30 \<and> 0 \<le> c \<and> c < 2 ^ l) huffman_table"
  by (simp add: huffman_table_def)

lemma table_ones: "list_all (\<lambda>(c, l). l < 8 \<longrightarrow> c \<noteq> 2 ^ l - 1) huffman_table"
  by (simp add: huffman_table_def)

lemma table_paths: "list_all (\<lambda>(s, cl). symbol_at huffman_tree (code_bits cl) = Some s) (enumerate 0 huffman_table)"
  by code_simp

lemma unat_byte: "unat (b :: byte) < 256"
  using unsigned_less [of b] by simp

lemma padding_length: "(n + (8 - n mod 8) mod 8) mod 8 = (0::nat)" "(n + k) mod 8 = 0 \<Longrightarrow> k < 8 \<Longrightarrow> k = (8 - n mod 8) mod (8::nat)"
proof -
  define r where "r = n mod 8"
  have a: "(n + x) mod 8 = (r + x) mod 8" for x by (simp add: r_def mod_add_left_eq)
  have r: "r = 0 \<or> r = 1 \<or> r = 2 \<or> r = 3 \<or> r = 4 \<or> r = 5 \<or> r = 6 \<or> r = 7"
    using mod_less_divisor [of 8 n] unfolding r_def by arith
  show "(n + (8 - n mod 8) mod 8) mod 8 = 0" unfolding a r_def [symmetric] using r by (elim disjE) simp_all
  assume k: "(n + k) mod 8 = 0" "k < 8"
  then have "k = 0 \<or> k = 1 \<or> k = 2 \<or> k = 3 \<or> k = 4 \<or> k = 5 \<or> k = 6 \<or> k = 7" by arith
  then show "k = (8 - n mod 8) mod 8" using r k(1) unfolding a r_def [symmetric] by (elim disjE) simp_all
qed

lemma table_path: "s < 257 \<Longrightarrow> symbol_at huffman_tree (code_bits (huffman_table ! s)) = Some s"
  using table_paths by (auto simp: list_all_length table_length nth_enumerate_eq)

lemma match_symbol_Some: "match_symbol cur n = Some s \<Longrightarrow> s < 257 \<and> huffman_table ! s = (cur, n)"
  by (auto simp: match_symbol_def find_Some_iff table_length nth_enumerate_eq)

lemma match_symbol_None: "match_symbol cur n = None \<Longrightarrow> s < 257 \<Longrightarrow> huffman_table ! s \<noteq> (cur, n)"
  by (auto simp: match_symbol_def find_None_iff in_set_enumerate_eq table_length)


section \<open>Decoding what the encoder writes\<close>

lemma octet_code: "bits_value (octet_bits b) = fst (huffman_table ! unat b)" "length (octet_bits b) = snd (huffman_table ! unat b)"
  "length (octet_bits b) \<le> 30"
proof -
  have "unat b < 256" using unat_byte [of b] by simp
  then have "case huffman_table ! unat b of (c, l) \<Rightarrow> l \<le> 30 \<and> 0 \<le> c \<and> c < 2 ^ l"
    using table_range table_length by (simp add: list_all_length)
  then show "bits_value (octet_bits b) = fst (huffman_table ! unat b)" "length (octet_bits b) = snd (huffman_table ! unat b)" "length (octet_bits b) \<le> 30"
    by (auto simp: octet_bits_def bits_value_code split: prod.splits)
qed

lemma octet_prefix_match:
  assumes "octet_bits b = p @ q" "match_symbol (bits_value p) (length p) = Some s"
  shows "s = unat b" "q = []"
proof -
  have b: "unat b < 257" using unat_byte [of b] by simp
  note s = match_symbol_Some [OF assms(2)]
  have c: "huffman_table ! unat b = (bits_value (p @ q), length (p @ q))"
    using octet_code(1,2) [of b] assms(1) by (simp add: prod_eq_iff)
  have "symbol_at huffman_tree p = Some s" "symbol_at huffman_tree (p @ q) = Some (unat b)"
    using table_path [of s] table_path [of "unat b"] s b c code_bits_value [of p] code_bits_value [of "p @ q"] by simp_all
  then show "s = unat b" "q = []" using symbol_at_prefix by metis+
qed

lemma huffman_run_octet:
  assumes "octet_bits b = p @ q" "q \<noteq> []"
  shows "huffman_run (q @ rest) (bits_value p) (length p) out = huffman_run rest 0 0 (out @ [b])"
  using assms
proof (induction q arbitrary: p)
  case (Cons x q)
  have bits: "octet_bits b = (p @ [x]) @ q" using Cons(2) by simp
  have len: "length p + 1 \<le> 30" using octet_code(3) [of b] Cons(2) by simp
  have next_bit: "2 * bits_value p + of_bool x = bits_value (p @ [x])" "length p + 1 = length (p @ [x])" by simp_all
  show ?case
  proof (cases "match_symbol (bits_value (p @ [x])) (length (p @ [x]))")
    case None
    have "q \<noteq> []"
    proof
      assume "q = []"
      then have "huffman_table ! unat b = (bits_value (p @ [x]), length (p @ [x]))"
        using octet_code(1,2) [of b] bits by (simp add: prod_eq_iff)
      then show False using match_symbol_None [OF None, of "unat b"] unat_byte [of b] by simp
    qed
    then show ?thesis
      using Cons(1) [OF bits] None len by (simp only: append_Cons huffman_run.simps Let_def next_bit) simp
  next
    case (Some s)
    note m = octet_prefix_match [OF bits Some]
    have "unat b \<noteq> 256" using unat_byte [of b] by simp
    then show ?thesis
      using m Some len by (simp only: append_Cons huffman_run.simps Let_def next_bit) simp
  qed
qed simp

lemma huffman_run_octets: "huffman_run (concat (map octet_bits s) @ rest) 0 0 out = huffman_run rest 0 0 (out @ s)"
proof (induction s arbitrary: out)
  case (Cons b s)
  have "octet_bits b \<noteq> []"
  proof
    assume "octet_bits b = []"
    then have "huffman_table ! unat b = (0, 0)" using octet_code(1,2) [of b] by (simp add: prod_eq_iff)
    then show False using table_ones table_length unat_byte [of b] by (auto simp: list_all_length dest!: spec [of _ "unat b"])
  qed
  then show ?case using huffman_run_octet [of b "[]" "octet_bits b"] Cons by simp
qed simp

lemma huffman_run_padding:
  "i + n < 8 \<Longrightarrow> huffman_run (replicate n True) (2 ^ i - 1) i out = Inr (out, 2 ^ (i + n) - 1, i + n)"
proof (induction n arbitrary: i)
  case (Suc n)
  have ones: "2 * (2 ^ i - 1) + of_bool True = (2 ^ Suc i - 1 :: int)" by simp
  have "match_symbol (2 ^ Suc i - 1) (Suc i) = None"
  proof (rule ccontr)
    assume "match_symbol (2 ^ Suc i - 1) (Suc i) \<noteq> None"
    then obtain s where "s < 257" "huffman_table ! s = (2 ^ Suc i - 1, Suc i)" using match_symbol_Some by blast
    then show False using table_ones table_length Suc(2) by (auto simp: list_all_length dest!: spec [of _ s])
  qed
  then show ?case using Suc(1) [of "Suc i"] Suc(2) by (simp only: replicate_Suc huffman_run.simps Let_def ones) simp
qed simp

lemma huffman_run_consumes:
  "huffman_run bs (bits_value p) (length p) out = Inr (out', cur, n) \<Longrightarrow>
   \<exists>s p'. out' = out @ s \<and> p @ bs = concat (map octet_bits s) @ p' \<and> cur = bits_value p' \<and> n = length p'"
proof (induction bs arbitrary: p out)
  case (Cons x bs)
  have next_bit: "2 * bits_value p + of_bool x = bits_value (p @ [x])" "length p + 1 = length (p @ [x])" by simp_all
  show ?case
  proof (cases "match_symbol (bits_value (p @ [x])) (length (p @ [x]))")
    case None
    have "huffman_run bs (bits_value (p @ [x])) (length (p @ [x])) out = Inr (out', cur, n)"
      using Cons(2) None by (auto simp only: huffman_run.simps Let_def next_bit option.case split: if_splits)
    from Cons(1) [OF this] show ?thesis by simp
  next
    case (Some s)
    note m = match_symbol_Some [OF Some]
    have run: "s \<noteq> 256" "huffman_run bs 0 0 (out @ [word_of_nat s]) = Inr (out', cur, n)"
      using Cons(2) Some by (auto simp only: huffman_run.simps Let_def next_bit option.case split: if_splits)
    have "octet_bits (word_of_nat s) = p @ [x]"
      using m run(1) code_bits_value [of "p @ [x]"] by (simp add: octet_bits_def unat_small_byte)
    then show ?thesis
      using Cons(1) [of "[]" "out @ [word_of_nat s]"] run(2) by (auto intro: exI [of _ "word_of_nat s # sa" for sa])
  qed
qed auto

lemma huffman_decode_encode: "huffman_decode (huffman_encode s) = Inr s"
proof -
  let ?bits = "concat (map octet_bits s)"
  define pad where "pad = (8 - length ?bits mod 8) mod 8"
  have pad: "pad < 8" "(length ?bits + pad) mod 8 = 0"
    unfolding pad_def using padding_length(1) by simp_all
  have "concat (map (msb_bits 8) (huffman_encode s)) = ?bits @ replicate pad True"
    using pad by (simp add: huffman_encode_def Let_def pad_def [symmetric] msb_bits_pack)
  then have "huffman_run (concat (map (msb_bits 8) (huffman_encode s))) 0 0 [] = Inr (s, 2 ^ pad - 1, pad)"
    using huffman_run_octets [of s "replicate pad True" "[]"] huffman_run_padding [of 0 pad s] pad(1) by simp
  then show ?thesis using pad(1) by (simp add: huffman_decode_def)
qed

lemma huffman_decode_only:
  assumes d: "huffman_decode input = Inr s"
  shows "input = huffman_encode s"
proof -
  obtain cur n where run: "huffman_run (concat (map (msb_bits 8) input)) (bits_value []) (length ([] :: bool list)) [] = Inr (s, cur, n)"
    and pad: "n < 8" "n = 0 \<or> cur = 2 ^ n - 1"
    using d by (auto simp: huffman_decode_def split: sum.splits prod.splits if_splits)
  obtain p where bits: "concat (map (msb_bits 8) input) = concat (map octet_bits s) @ p" "cur = bits_value p" "n = length p"
    using huffman_run_consumes [OF run] by auto
  have p: "p = replicate n True"
    using bits(2,3) pad(2) by (intro bits_value_inj) (auto simp: bits_value_ones)
  have "(length (concat (map octet_bits s)) + n) mod 8 = 0" using length_bytes_bits [of input] bits(1,3) by simp
  then have "n = (8 - length (concat (map octet_bits s)) mod 8) mod 8" using pad(1) by (rule padding_length(2))
  then have "huffman_encode s = pack_bits (concat (map (msb_bits 8) input))"
    using bits(1) p by (simp add: huffman_encode_def Let_def)
  then show ?thesis by (simp add: pack_msb_bits)
qed

text \<open>C40: The Huffman decoder accepts exactly the encodings of the RFC and returns the octets that were
  encoded: no code is a prefix of another, padding is shorter than an octet and all ones, and the
  end-of-string symbol is rejected.\<close>

theorem huffman_decodes_exactly: "huffman_decode input = Inr s \<longleftrightarrow> input = huffman_encode s"
  using huffman_decode_encode huffman_decode_only by metis

end
