(* ===== verification/Hpack.thy ===== *)
theory Hpack
  imports Huffman
begin

text \<open>
  Header compression of the gRPC endpoint (\<open>wire/grpc/hpack.rs\<close>): integers with a prefix, string
  literals, the decoder with its dynamic table, and the encoder of responses. The reference is
  RFC 7541: a header block is a sequence of instructions, each with a meaning on the table; the
  decoder runs every such block, and keeps the size of the table accounted for and bounded on
  every input. Values are \<open>u64\<close> and lengths \<open>usize\<close>, written as naturals with the checks of the
  code.
\<close>

type_synonym header = "bytes \<times> bytes"

datatype hpack_error =
    IntTruncated | IntOverflow | StringTruncated | HuffmanFailed huffman_error | HeaderNotUtf8 | IndexZero | IndexOutOfRange
  | NameTruncated | ValueTruncated

section \<open>Integers and strings\<close>

fun decode_continuation :: "nat \<Rightarrow> nat \<Rightarrow> bytes \<Rightarrow> hpack_error + nat \<times> bytes" where
  "decode_continuation v m [] = Inl IntTruncated"
| "decode_continuation v m (b # rest) =
     (if 63 \<le> m then Inl IntOverflow
      else
        (let v' = v + unat (b AND 0x7f) * 2 ^ m
         in if 2 ^ 64 \<le> v' then Inl IntOverflow
            else if b AND 0x80 = 0 then Inr (v', rest)
            else decode_continuation v' (m + 7) rest))"

definition decode_integer :: "byte \<Rightarrow> nat \<Rightarrow> bytes \<Rightarrow> hpack_error + nat \<times> bytes" where
  "decode_integer first n rest =
     (let mask = 2 ^ n - 1; prefix = unat first mod 2 ^ n
      in if prefix < mask then Inr (prefix, rest) else decode_continuation mask 0 rest)"

fun encode_continuation :: "nat \<Rightarrow> bytes" where
  "encode_continuation v = (if v < 128 then [word_of_nat v] else (word_of_nat (v mod 128) OR 0x80) # encode_continuation (v div 128))"

declare encode_continuation.simps [simp del]

definition encode_integer :: "nat \<Rightarrow> nat \<Rightarrow> byte \<Rightarrow> bytes" where
  "encode_integer v n prefix_bits =
     (let mx = 2 ^ n - 1
      in if v < mx then [prefix_bits OR word_of_nat v]
         else (prefix_bits OR word_of_nat mx) # encode_continuation (v - mx))"

definition decode_string :: "byte \<Rightarrow> bytes \<Rightarrow> hpack_error + bytes \<times> bytes" where
  "decode_string first rest =
     attempt (decode_integer first 7 rest) (\<lambda>(len, rest).
       if length rest < len then Inl StringTruncated
       else if first AND 0x80 \<noteq> 0 then
         (case huffman_decode (take len rest) of Inl e \<Rightarrow> Inl (HuffmanFailed e) | Inr s \<Rightarrow> Inr (s, drop len rest))
       else Inr (take len rest, drop len rest))"

definition encode_string :: "bytes \<Rightarrow> bytes" where
  "encode_string s = encode_integer (length s) 7 0 @ s"

section \<open>The tables\<close>

definition static_table :: "header list" where
  "static_table = map (\<lambda>(n, v). (str n, str v))
    [
     ('':authority'', ''''), ('':method'', ''GET''), ('':method'', ''POST''), ('':path'', ''/''),
     ('':path'', ''/index.html''), ('':scheme'', ''http''), ('':scheme'', ''https''), ('':status'', ''200''),
     ('':status'', ''204''), ('':status'', ''206''), ('':status'', ''304''), ('':status'', ''400''),
     ('':status'', ''404''), ('':status'', ''500''), (''accept-charset'', ''''),
     (''accept-encoding'', ''gzip, deflate''), (''accept-language'', ''''), (''accept-ranges'', ''''),
     (''accept'', ''''), (''access-control-allow-origin'', ''''), (''age'', ''''), (''allow'', ''''),
     (''authorization'', ''''), (''cache-control'', ''''), (''content-disposition'', ''''),
     (''content-encoding'', ''''), (''content-language'', ''''), (''content-length'', ''''),
     (''content-location'', ''''), (''content-range'', ''''), (''content-type'', ''''), (''cookie'', ''''),
     (''date'', ''''), (''etag'', ''''), (''expect'', ''''), (''expires'', ''''), (''from'', ''''),
     (''host'', ''''), (''if-match'', ''''), (''if-modified-since'', ''''), (''if-none-match'', ''''),
     (''if-range'', ''''), (''if-unmodified-since'', ''''), (''last-modified'', ''''), (''link'', ''''),
     (''location'', ''''), (''max-forwards'', ''''), (''proxy-authenticate'', ''''),
     (''proxy-authorization'', ''''), (''range'', ''''), (''referer'', ''''), (''refresh'', ''''),
     (''retry-after'', ''''), (''server'', ''''), (''set-cookie'', ''''),
     (''strict-transport-security'', ''''), (''transfer-encoding'', ''''), (''user-agent'', ''''),
     (''vary'', ''''), (''via'', ''''), (''www-authenticate'', '''')]"

record hpack_decoder =
  hd_dynamic :: "header list"
  hd_size :: nat
  hd_max :: nat

definition decoder_new :: hpack_decoder where
  "decoder_new = \<lparr>hd_dynamic = [], hd_size = 0, hd_max = 4096\<rparr>"

definition entry_size :: "header \<Rightarrow> nat" where
  "entry_size h = length (fst h) + length (snd h) + 32"

definition pop_oldest :: "hpack_decoder \<Rightarrow> hpack_decoder" where
  "pop_oldest d = d\<lparr>hd_dynamic := butlast (hd_dynamic d), hd_size := hd_size d - entry_size (last (hd_dynamic d))\<rparr>"

function evict :: "nat \<Rightarrow> hpack_decoder \<Rightarrow> hpack_decoder" where
  "evict need d = (if hd_max d < hd_size d + need \<and> hd_dynamic d \<noteq> [] then evict need (pop_oldest d) else d)"
  by pat_completeness auto
termination
  by (relation "measure (\<lambda>(need, d). length (hd_dynamic d))") (auto simp: pop_oldest_def)

declare evict.simps [simp del]

definition insert_dynamic :: "header \<Rightarrow> hpack_decoder \<Rightarrow> hpack_decoder" where
  "insert_dynamic h d =
     (let d' = evict (entry_size h) d
      in if entry_size h \<le> hd_max d' then d'\<lparr>hd_dynamic := h # hd_dynamic d', hd_size := hd_size d' + entry_size h\<rparr> else d')"

definition set_max_size :: "nat \<Rightarrow> hpack_decoder \<Rightarrow> hpack_decoder" where
  "set_max_size n d = evict 0 (d\<lparr>hd_max := n\<rparr>)"

definition resolve_index :: "hpack_decoder \<Rightarrow> nat \<Rightarrow> hpack_error + header" where
  "resolve_index d i =
     (if i = 0 then Inl IndexZero
      else if i \<le> length static_table then Inr (static_table ! (i - 1))
      else
        (let dyn = i - length static_table - 1
         in if dyn < length (hd_dynamic d) then Inr (hd_dynamic d ! dyn) else Inl IndexOutOfRange))"

definition resolve_name :: "hpack_decoder \<Rightarrow> nat \<Rightarrow> hpack_error + bytes" where
  "resolve_name d i = attempt (resolve_index d i) (\<lambda>h. Inr (fst h))"

section \<open>The decoder\<close>

definition decode_text :: "hpack_error \<Rightarrow> bytes \<Rightarrow> hpack_error + bytes \<times> bytes" where
  "decode_text truncated block =
     (case block of
        [] \<Rightarrow> Inl truncated
      | first # rest \<Rightarrow> attempt (decode_string first rest) (\<lambda>(s, rest). if valid_utf8 s then Inr (s, rest) else Inl HeaderNotUtf8))"

definition decode_literal :: "hpack_decoder \<Rightarrow> byte \<Rightarrow> nat \<Rightarrow> bytes \<Rightarrow> hpack_error + header \<times> bytes" where
  "decode_literal d first n block =
     attempt (decode_integer first n block) (\<lambda>(name_index, block).
       attempt (if name_index = 0 then decode_text NameTruncated block
                else attempt (resolve_name d name_index) (\<lambda>name. Inr (name, block))) (\<lambda>(name, block).
         attempt (decode_text ValueTruncated block) (\<lambda>(v, block). Inr ((name, v), block))))"

text \<open>One representation: the header it adds, the decoder after it and the rest of the block.\<close>

definition decode_one :: "hpack_decoder \<Rightarrow> byte \<Rightarrow> bytes \<Rightarrow> hpack_error + header option \<times> hpack_decoder \<times> bytes" where
  "decode_one d first block =
     (if first AND 0x80 \<noteq> 0 then
        attempt (decode_integer first 7 block) (\<lambda>(index, block).
          attempt (resolve_index d index) (\<lambda>h. Inr (Some h, d, block)))
      else if first AND 0x40 \<noteq> 0 then
        attempt (decode_literal d first 6 block) (\<lambda>(h, block). Inr (Some h, insert_dynamic h d, block))
      else if first AND 0x20 \<noteq> 0 then
        attempt (decode_integer first 5 block) (\<lambda>(new_max, block). Inr (None, set_max_size new_max d, block))
      else
        attempt (decode_literal d first 4 block) (\<lambda>(h, block). Inr (Some h, d, block)))"

lemma decode_continuation_shorter: "decode_continuation v m bs = Inr (x, rest) \<Longrightarrow> length rest < length bs"
  by (induction v m bs rule: decode_continuation.induct) (auto simp: Let_def split: if_splits)

lemma decode_integer_shorter: "decode_integer first n bs = Inr (x, rest) \<Longrightarrow> length rest \<le> length bs"
  by (auto simp: decode_integer_def Let_def split: if_splits dest!: decode_continuation_shorter)

lemma decode_text_shorter: "decode_text e bs = Inr (x, rest) \<Longrightarrow> length rest \<le> length bs"
  by (cases bs) (auto simp: decode_text_def decode_string_def attempt_Inr_iff split: if_splits sum.splits dest!: decode_integer_shorter)

lemma decode_literal_shorter: "decode_literal d first n bs = Inr (h, rest) \<Longrightarrow> length rest \<le> length bs"
  by (auto simp: decode_literal_def attempt_Inr_iff split: if_splits dest!: decode_text_shorter decode_integer_shorter)

lemma decode_one_shorter: "decode_one d first bs = Inr (h, d', rest) \<Longrightarrow> length rest \<le> length bs"
  by (auto simp: decode_one_def attempt_Inr_iff split: if_splits dest!: decode_literal_shorter decode_integer_shorter)

function decode_block :: "hpack_decoder \<Rightarrow> header list \<Rightarrow> bytes \<Rightarrow> (hpack_error + header list) \<times> hpack_decoder" where
  "decode_block d hs [] = (Inr hs, d)"
| "decode_block d hs (first # block) =
     (case decode_one d first block of
        Inl e \<Rightarrow> (Inl e, d)
      | Inr (h, d', rest) \<Rightarrow> decode_block d' (hs @ (case h of Some x \<Rightarrow> [x] | None \<Rightarrow> [])) rest)"
  by pat_completeness auto
termination
  by (relation "measure (\<lambda>(d, hs, bs). length bs)") (auto dest!: decode_one_shorter simp: less_Suc_eq_le)

definition hpack_decode :: "hpack_decoder \<Rightarrow> bytes \<Rightarrow> (hpack_error + header list) \<times> hpack_decoder" where
  "hpack_decode d block = decode_block d [] block"

section \<open>The encoder\<close>

definition static_position :: "(header \<Rightarrow> bool) \<Rightarrow> nat option" where
  "static_position P = map_option fst (find (\<lambda>(i, h). P h) (enumerate 1 static_table))"

definition static_full_match :: "bytes \<Rightarrow> bytes \<Rightarrow> nat option" where
  "static_full_match name v = static_position (\<lambda>h. h = (name, v))"

definition static_name_match :: "bytes \<Rightarrow> nat option" where
  "static_name_match name = static_position (\<lambda>h. fst h = name)"

definition encode_header :: "header \<Rightarrow> bytes" where
  "encode_header h =
     (case static_full_match (fst h) (snd h) of
        Some i \<Rightarrow> encode_integer i 7 0x80
      | None \<Rightarrow>
          (case static_name_match (fst h) of
             Some i \<Rightarrow> encode_integer i 4 0 @ encode_string (snd h)
           | None \<Rightarrow> 0 # encode_string (fst h) @ encode_string (snd h)))"

definition hpack_encode :: "header list \<Rightarrow> bytes" where
  "hpack_encode hs = concat (map encode_header hs)"

end
