(* ===== verification/Hpack_Rfc.thy ===== *)
theory Hpack_Rfc
  imports Hpack
begin

text \<open>
  What header blocks mean (RFC 7541) and the theorems about \<open>Hpack\<close>: the decoder gives every
  sequence of instructions its meaning, whichever way its strings are written; the encoder's
  blocks decode to the headers they were made from, whatever the state of the decoder; and on
  every input, malformed ones included, the dynamic table stays accounted for and within its
  limit.
\<close>

section \<open>Instructions and their meaning\<close>

datatype header_text = Plain bytes | Compressed bytes

datatype name_ref = NameIndex nat | NewName header_text

datatype indexing = Incremental | WithoutIndexing | NeverIndexed

datatype instruction = Indexed nat | Literal indexing name_ref header_text | SizeUpdate nat

primrec octets :: "header_text \<Rightarrow> bytes" where
  "octets (Plain s) = s"
| "octets (Compressed s) = s"

primrec text_bytes :: "header_text \<Rightarrow> bytes" where
  "text_bytes (Plain s) = encode_integer (length s) 7 0 @ s"
| "text_bytes (Compressed s) = encode_integer (length (huffman_encode s)) 7 0x80 @ huffman_encode s"

primrec index_bits :: "indexing \<Rightarrow> nat" where
  "index_bits Incremental = 6"
| "index_bits WithoutIndexing = 4"
| "index_bits NeverIndexed = 4"

primrec index_flag :: "indexing \<Rightarrow> byte" where
  "index_flag Incremental = 0x40"
| "index_flag WithoutIndexing = 0"
| "index_flag NeverIndexed = 0x10"

primrec name_bytes :: "indexing \<Rightarrow> name_ref \<Rightarrow> bytes" where
  "name_bytes m (NameIndex i) = encode_integer i (index_bits m) (index_flag m)"
| "name_bytes m (NewName t) = encode_integer 0 (index_bits m) (index_flag m) @ text_bytes t"

primrec instruction_bytes :: "instruction \<Rightarrow> bytes" where
  "instruction_bytes (Indexed i) = encode_integer i 7 0x80"
| "instruction_bytes (Literal m n t) = name_bytes m n @ text_bytes t"
| "instruction_bytes (SizeUpdate n) = encode_integer n 5 0x20"

text \<open>The dynamic table, newest entry first, and its limit. Entries are dropped from the old end until
  the rest fits.\<close>

type_synonym table = "header list \<times> nat"

fun fitting :: "nat \<Rightarrow> header list \<Rightarrow> header list" where
  "fitting limit [] = []"
| "fitting limit (h # hs) = (if entry_size h \<le> limit then h # fitting (limit - entry_size h) hs else [])"

definition table_entry :: "table \<Rightarrow> nat \<Rightarrow> header option" where
  "table_entry t i = (if i = 0 \<or> length (static_table @ fst t) < i then None else Some ((static_table @ fst t) ! (i - 1)))"

primrec name_of :: "table \<Rightarrow> name_ref \<Rightarrow> bytes option" where
  "name_of t (NameIndex i) = map_option fst (table_entry t i)"
| "name_of t (NewName s) = Some (octets s)"

primrec run_instruction :: "instruction \<Rightarrow> table \<Rightarrow> (header list \<times> table) option" where
  "run_instruction (Indexed i) t = map_option (\<lambda>h. ([h], t)) (table_entry t i)"
| "run_instruction (Literal m n s) t =
     map_option (\<lambda>name. ([(name, octets s)], if m = Incremental then (fitting (snd t) ((name, octets s) # fst t), snd t) else t)) (name_of t n)"
| "run_instruction (SizeUpdate n) t = Some ([], fitting n (fst t), n)"

fun run_instructions :: "instruction list \<Rightarrow> table \<Rightarrow> (header list \<times> table) option" where
  "run_instructions [] t = Some ([], t)"
| "run_instructions (i # is) t =
     (case run_instruction i t of
        None \<Rightarrow> None
      | Some (hs, t') \<Rightarrow> map_option (\<lambda>(hs', t''). (hs @ hs', t'')) (run_instructions is t'))"

text \<open>Numbers a decoder has to accept, and strings that are text.\<close>

definition text_ok :: "header_text \<Rightarrow> bool" where
  "text_ok t \<longleftrightarrow> valid_utf8 (octets t) \<and> length (text_bytes t) < 2 ^ 62"

primrec instruction_ok :: "instruction \<Rightarrow> bool" where
  "instruction_ok (Indexed i) \<longleftrightarrow> i < 2 ^ 62"
| "instruction_ok (Literal m n t) \<longleftrightarrow> (case n of NameIndex i \<Rightarrow> 0 < i \<and> i < 2 ^ 62 | NewName s \<Rightarrow> text_ok s) \<and> text_ok t"
| "instruction_ok (SizeUpdate n) \<longleftrightarrow> n < 2 ^ 62"

section \<open>Integers\<close>

lemma and_flag: "(b AND 0x80 = 0) = (\<not> bit b 7)" "(b AND 0x40 = 0) = (\<not> bit b 6)" "(b AND 0x20 = 0) = (\<not> bit b 5)" for b :: byte
  using and_exp_eq_0_iff_not_bit [of b 7] and_exp_eq_0_iff_not_bit [of b 6] and_exp_eq_0_iff_not_bit [of b 5] by simp_all

lemma small_word_bit: "x < 2 ^ n \<Longrightarrow> n \<le> k \<Longrightarrow> \<not> bit (word_of_nat x :: byte) k"
  by (metis bit_of_nat_iff bit_take_bit_iff leD take_bit_nat_eq_self)

lemma prefix_byte:
  fixes pb :: byte
  assumes "x < 2 ^ n" "n \<le> 7" "take_bit n pb = 0"
  shows "unat (pb OR word_of_nat x) mod 2 ^ n = x" "n \<le> k \<Longrightarrow> bit (pb OR word_of_nat x) k = bit pb k"
proof -
  have "x < 2 ^ 8" using assms(1,2) power_increasing [of n 8 "2::nat"] by simp
  then have x: "unat (word_of_nat x :: byte) = x" by (simp add: unat_small_byte)
  have "take_bit n (pb OR word_of_nat x) = take_bit n (word_of_nat x)" using assms(3) by simp
  then have "take_bit n (unat (pb OR word_of_nat x)) = take_bit n (unat (word_of_nat x :: byte))"
    by (metis unsigned_take_bit_eq)
  then show "unat (pb OR word_of_nat x) mod 2 ^ n = x" using x assms(1) by (simp add: take_bit_eq_mod)
  show "n \<le> k \<Longrightarrow> bit (pb OR word_of_nat x) k = bit pb k" using small_word_bit [OF assms(1)] by (simp add: bit_or_iff)
qed

lemma unat_and_127: "unat ((b :: byte) AND 0x7f) = unat b mod 128"
  using unsigned_take_bit_eq [of 7 b, where 'a = nat] by (simp add: take_bit_eq_mod [of 7 "unat b"])

lemma continuation_roundtrip:
  "m < 63 \<Longrightarrow> v * 2 ^ m < 2 ^ 63 \<Longrightarrow> a + v * 2 ^ m < 2 ^ 64 \<Longrightarrow>
   decode_continuation a m (encode_continuation v @ rest) = Inr (a + v * 2 ^ m, rest)"
proof (induction v arbitrary: a m rule: encode_continuation.induct)
  case (1 v)
  have flag: "take_bit 7 (0x80 :: byte) = 0" "take_bit 7 (0 :: byte) = 0" by simp_all
  show ?case
  proof (cases "v < 128")
    case True
    have b: "unat (word_of_nat v :: byte) mod 128 = v" "\<not> bit (word_of_nat v :: byte) 7"
      using prefix_byte(1) [of v 7 0] small_word_bit [of v 7 7] True flag by simp_all
    then show ?thesis
      using 1(2-4) True by (simp add: encode_continuation.simps [of v] Let_def unat_and_127 and_flag del: and_127)
  next
    case False
    let ?b = "word_of_nat (v mod 128) OR 0x80 :: byte"
    have b: "unat ?b mod 128 = v mod 128" "bit ?b 7"
      using prefix_byte [of "v mod 128" 7 "0x80"] flag by (simp_all add: or.commute)
    have split: "v mod 128 * 2 ^ m + v div 128 * 2 ^ (m + 7) = v * 2 ^ m"
      using arg_cong [OF mod_div_mult_eq [of v 128], of "\<lambda>x. x * 2 ^ m"] by (simp only: distrib_right power_add) simp
    have "2 ^ (m + 7) \<le> v div 128 * 2 ^ (m + 7)" using False by (simp add: Suc_le_eq div_greater_zero_iff)
    also have "\<dots> < 2 ^ 63" using split 1(3) by linarith
    finally have m: "m + 7 < 63" using power_less_imp_less_exp [of 2 "m + 7" 63] by simp
    have "decode_continuation (a + v mod 128 * 2 ^ m) (m + 7) (encode_continuation (v div 128) @ rest)
        = Inr (a + v mod 128 * 2 ^ m + v div 128 * 2 ^ (m + 7), rest)"
      using split 1(3,4) m by (intro 1(1) [OF False]) linarith+
    moreover have "a + v mod 128 * 2 ^ m < 2 ^ 64" using split 1(4) by linarith
    ultimately show ?thesis
      using 1(2) False b split by (simp add: encode_continuation.simps [of v] Let_def unat_and_127 and_flag del: and_127)
  qed
qed

lemma integer_roundtrip:
  assumes "v < 2 ^ 62" "1 \<le> n" "n \<le> 7" "take_bit n pb = 0"
  obtains first cont where "encode_integer v n pb = first # cont" "\<And>rest. decode_integer first n (cont @ rest) = Inr (v, rest)"
    "\<And>k. n \<le> k \<Longrightarrow> bit first k = bit pb k"
proof (cases "v < 2 ^ n - 1")
  case True
  then have "v < 2 ^ n" by simp
  note b = prefix_byte [OF this assms(3,4)]
  show ?thesis
    using True b by (intro that [of "pb OR word_of_nat v" "[]"]) (auto simp: encode_integer_def decode_integer_def)
next
  case False
  define mx :: nat where "mx = 2 ^ n - 1"
  have "(2::nat) ^ n \<le> 2 ^ 62" using assms(3) by (intro power_increasing) simp_all
  moreover have "mx < 2 ^ n" by (simp add: mx_def)
  ultimately have mx: "mx < 2 ^ n" "mx < 2 ^ 62" by linarith+
  note b = prefix_byte [OF mx(1) assms(3,4)]
  have "decode_continuation mx 0 (encode_continuation (v - mx) @ rest) = Inr (v, rest)" for rest
    using continuation_roundtrip [of 0 "v - mx" mx rest] assms(1) mx False by (simp add: mx_def [symmetric])
  then show ?thesis
    using False b by (intro that [of "pb OR word_of_nat mx" "encode_continuation (v - mx)"])
      (auto simp: encode_integer_def decode_integer_def Let_def mx_def)
qed

lemma bit_numeral_flag: "bit (0x40 :: byte) k \<longleftrightarrow> k = 6" "bit (0x20 :: byte) k \<longleftrightarrow> k = 5" "bit (0x10 :: byte) k \<longleftrightarrow> k = 4"
  using bit_exp_iff [of 6 k, where 'a = byte] bit_exp_iff [of 5 k, where 'a = byte] bit_exp_iff [of 4 k, where 'a = byte]
  by (auto simp: possible_bit_word)

section \<open>Strings\<close>

lemma text_roundtrip:
  assumes "text_ok t"
  shows "decode_text e (text_bytes t @ rest) = Inr (octets t, rest)"
proof (cases t)
  case (Plain s)
  have "length s < 2 ^ 62" using assms by (simp add: text_ok_def Plain)
  then obtain first cont where i: "encode_integer (length s) 7 0 = first # cont"
    "\<And>rest. decode_integer first 7 (cont @ rest) = Inr (length s, rest)" "\<And>k. 7 \<le> k \<Longrightarrow> bit first k = bit (0 :: byte) k"
    using integer_roundtrip [of "length s" 7 0] by auto
  have "first AND 0x80 = 0" using i(3) [of 7] by (simp add: and_flag)
  then show ?thesis
    using assms i(2) [of "s @ rest"] by (simp add: Plain i(1) decode_text_def decode_string_def text_ok_def)
next
  case (Compressed s)
  let ?h = "huffman_encode s"
  have "length ?h < 2 ^ 62" using assms by (simp add: text_ok_def Compressed)
  then obtain first cont where i: "encode_integer (length ?h) 7 0x80 = first # cont"
    "\<And>rest. decode_integer first 7 (cont @ rest) = Inr (length ?h, rest)" "\<And>k. 7 \<le> k \<Longrightarrow> bit first k = bit (0x80 :: byte) k"
    using integer_roundtrip [of "length ?h" 7 "0x80"] by auto
  have "first AND 0x80 \<noteq> 0" using i(3) [of 7] by (simp add: and_flag bit_128)
  moreover have "huffman_decode ?h = Inr s" by (simp add: huffman_decode_encode)
  ultimately show ?thesis
    using assms i(2) [of "?h @ rest"] by (simp add: Compressed i(1) decode_text_def decode_string_def text_ok_def)
qed

section \<open>The dynamic table\<close>

definition represents :: "hpack_decoder \<Rightarrow> table \<Rightarrow> bool" where
  "represents d t \<longleftrightarrow> hd_dynamic d = fst t \<and> hd_max d = snd t \<and> hd_size d = sum_list (map entry_size (fst t)) \<and>
     hd_size d \<le> hd_max d"

lemma fitting_all: "sum_list (map entry_size hs) \<le> limit \<Longrightarrow> fitting limit hs = hs"
  by (induction hs arbitrary: limit) auto

lemma fitting_butlast:
  "limit < sum_list (map entry_size hs) \<Longrightarrow> fitting limit hs = fitting limit (butlast hs)"
proof (induction hs arbitrary: limit)
  case (Cons h hs)
  show ?case
  proof (cases "hs = []")
    case False
    then show ?thesis using Cons.IH [of "limit - entry_size h"] Cons.prems by auto
  qed (use Cons.prems in simp)
qed simp

lemma fitting_bound: "sum_list (map entry_size (fitting limit hs)) \<le> limit"
  by (induction limit hs rule: fitting.induct) auto

lemma sum_butlast: "hs \<noteq> [] \<Longrightarrow> sum_list (map entry_size (butlast hs)) = sum_list (map entry_size hs) - entry_size (last hs)"
  by (induction hs rule: rev_induct) auto

text \<open>Evicting to make room for an entry leaves the entries that fit beside it.\<close>

lemma evict_fitting:
  assumes "hd_size d = sum_list (map entry_size (hd_dynamic d))"
  shows "hd_dynamic (evict need d) = (if need \<le> hd_max d then fitting (hd_max d - need) (hd_dynamic d) else []) \<and>
    hd_size (evict need d) = sum_list (map entry_size (hd_dynamic (evict need d))) \<and> hd_max (evict need d) = hd_max d"
  using assms
proof (induction need d rule: evict.induct)
  case (1 need d)
  show ?case
  proof (cases "hd_max d < hd_size d + need \<and> hd_dynamic d \<noteq> []")
    case True
    then have step: "evict need d = evict need (pop_oldest d)" by (subst evict.simps) simp
    have "hd_size (pop_oldest d) = sum_list (map entry_size (hd_dynamic (pop_oldest d)))"
      using 1(2) True by (simp add: pop_oldest_def sum_butlast)
    note IH = 1(1) [OF True this]
    have "fitting (hd_max d - need) (butlast (hd_dynamic d)) = fitting (hd_max d - need) (hd_dynamic d)" if "need \<le> hd_max d"
    proof -
      have "hd_max d - need < sum_list (map entry_size (hd_dynamic d))" using True 1(2) that by linarith
      then show ?thesis by (rule fitting_butlast [symmetric])
    qed
    then show ?thesis using IH unfolding step by (auto simp: pop_oldest_def)
  next
    case False
    then have "evict need d = d" by (subst evict.simps) auto
    moreover have "hd_dynamic d = (if need \<le> hd_max d then fitting (hd_max d - need) (hd_dynamic d) else [])"
      using False 1(2) fitting_all [of "hd_dynamic d" "hd_max d - need"] by (cases "hd_dynamic d = []") simp_all
    ultimately show ?thesis using 1(2) by simp
  qed
qed

lemma insert_dynamic_represents:
  assumes "represents d t"
  shows "represents (insert_dynamic h d) (fitting (snd t) (h # fst t), snd t)"
  using assms evict_fitting [of d "entry_size h"] fitting_bound [of "snd t - entry_size h" "fst t"]
  by (auto simp: represents_def insert_dynamic_def Let_def)

lemma set_max_size_represents: "represents d t \<Longrightarrow> represents (set_max_size n d) (fitting n (fst t), n)"
  using evict_fitting [of "d\<lparr>hd_max := n\<rparr>" 0] fitting_bound [of n "fst t"] by (auto simp: represents_def set_max_size_def)

lemma resolve_represents: "represents d t \<Longrightarrow> resolve_index d i = (case table_entry t i of Some h \<Rightarrow> Inr h | None \<Rightarrow> Inl (if i = 0 then IndexZero else IndexOutOfRange))"
  by (auto simp: represents_def resolve_index_def table_entry_def nth_append Let_def)

section \<open>Blocks\<close>

lemma literal_roundtrip:
  assumes "represents d t" "instruction_ok (Literal m n s)" "name_of t n = Some name"
  obtains first rest' where "name_bytes m n @ text_bytes s @ rest = first # rest'"
    "decode_literal d first (index_bits m) rest' = Inr ((name, octets s), rest)"
    "\<And>k. index_bits m \<le> k \<Longrightarrow> bit first k = bit (index_flag m) k"
proof -
  have flag: "1 \<le> index_bits m" "index_bits m \<le> 7" "take_bit (index_bits m) (index_flag m) = 0" by (cases m; simp)+
  have value_text: "decode_text ValueTruncated (text_bytes s @ rest) = Inr (octets s, rest)" for rest
    using assms(2) by (intro text_roundtrip) simp
  show ?thesis
  proof (cases n)
    case (NameIndex i)
    have i: "0 < i" "i < 2 ^ 62" using assms(2) by (simp_all add: NameIndex)
    obtain first cont where e: "encode_integer i (index_bits m) (index_flag m) = first # cont"
      "\<And>rest. decode_integer first (index_bits m) (cont @ rest) = Inr (i, rest)" "\<And>k. index_bits m \<le> k \<Longrightarrow> bit first k = bit (index_flag m) k"
      using integer_roundtrip [OF i(2) flag] by auto
    have "resolve_name d i = Inr name"
      using assms(3) resolve_represents [OF assms(1), of i] by (auto simp: NameIndex resolve_name_def)
    then show ?thesis
      using e value_text i(1) by (intro that [of first "cont @ text_bytes s @ rest"]) (auto simp: NameIndex decode_literal_def)
  next
    case (NewName nt)
    obtain first cont where e: "encode_integer 0 (index_bits m) (index_flag m) = first # cont"
      "\<And>rest. decode_integer first (index_bits m) (cont @ rest) = Inr (0, rest)" "\<And>k. index_bits m \<le> k \<Longrightarrow> bit first k = bit (index_flag m) k"
      using integer_roundtrip [of 0, OF _ flag] by auto
    have "decode_text NameTruncated (text_bytes nt @ rest) = Inr (name, rest)" for rest
      using assms(2,3) text_roundtrip [of nt] by (simp add: NewName)
    then show ?thesis
      using e value_text by (intro that [of first "cont @ text_bytes nt @ text_bytes s @ rest"]) (auto simp: NewName decode_literal_def)
  qed
qed

lemma instruction_runs:
  assumes "represents d t" "instruction_ok i" "run_instruction i t = Some (hs, t')"
  obtains d' where "represents d' t'" "\<And>acc rest. decode_block d acc (instruction_bytes i @ rest) = decode_block d' (acc @ hs) rest"
proof (cases i)
  case (Indexed j)
  obtain first cont where e: "encode_integer j 7 0x80 = first # cont" "\<And>rest. decode_integer first 7 (cont @ rest) = Inr (j, rest)"
    "\<And>k. 7 \<le> k \<Longrightarrow> bit first k = bit (0x80 :: byte) k"
    using integer_roundtrip [of j 7 "0x80"] assms(2) by (auto simp: Indexed)
  have flag: "bit first 7" using e(3) [of 7] by (simp add: bit_128)
  obtain h where h: "table_entry t j = Some h" "hs = [h]" "t' = t" using assms(3) by (auto simp: Indexed)
  show ?thesis
    using assms(1) e(1,2) flag h resolve_represents [OF assms(1), of j] by (intro that [of d]) (simp_all add: Indexed decode_one_def and_flag)
next
  case (Literal m n s)
  obtain name where name: "name_of t n = Some name" "hs = [(name, octets s)]"
    "t' = (if m = Incremental then (fitting (snd t) ((name, octets s) # fst t), snd t) else t)"
    using assms(3) by (auto simp: Literal)
  let ?d' = "if m = Incremental then insert_dynamic (name, octets s) d else d"
  have "decode_block d acc (instruction_bytes i @ rest) = decode_block ?d' (acc @ hs) rest" for acc rest
  proof -
    obtain first rest' where e: "name_bytes m n @ text_bytes s @ rest = first # rest'"
      "decode_literal d first (index_bits m) rest' = Inr ((name, octets s), rest)"
      "\<And>k. index_bits m \<le> k \<Longrightarrow> bit first k = bit (index_flag m) k"
      using literal_roundtrip [OF assms(1) assms(2) [unfolded Literal] name(1)] by blast
    have "instruction_bytes i @ rest = first # rest'" using e(1) by (simp add: Literal)
    moreover have "decode_one d first rest' = Inr (Some (name, octets s), ?d', rest)"
      using e(2) e(3) [of 5] e(3) [of 6] e(3) [of 7] by (cases m) (simp_all add: decode_one_def and_flag bit_numeral_flag)
    ultimately show ?thesis using name(2) by simp
  qed
  moreover have "represents ?d' t'" using assms(1) insert_dynamic_represents name(3) by simp
  ultimately show ?thesis by (rule that [rotated])
next
  case (SizeUpdate n)
  obtain first cont where e: "encode_integer n 5 0x20 = first # cont" "\<And>rest. decode_integer first 5 (cont @ rest) = Inr (n, rest)"
    "\<And>k. 5 \<le> k \<Longrightarrow> bit first k = bit (0x20 :: byte) k"
    using integer_roundtrip [of n 5 "0x20"] assms(2) by (auto simp: SizeUpdate)
  have flag: "bit first 5" "\<not> bit first 6" "\<not> bit first 7" using e(3) [of 5] e(3) [of 6] e(3) [of 7] by (simp_all add: bit_numeral_flag)
  show ?thesis
    using assms(1,3) e(1,2) flag set_max_size_represents [OF assms(1)] by (intro that [of "set_max_size n d"]) (auto simp: SizeUpdate decode_one_def and_flag)
qed

lemma instructions_run:
  "represents d t \<Longrightarrow> \<forall>i \<in> set is. instruction_ok i \<Longrightarrow> run_instructions is t = Some (hs, t') \<Longrightarrow>
   \<exists>d'. decode_block d acc (concat (map instruction_bytes is)) = (Inr (acc @ hs), d') \<and> represents d' t'"
proof (induction "is" arbitrary: d t hs acc)
  case (Cons i "is")
  obtain hs1 t1 hs2 where r: "run_instruction i t = Some (hs1, t1)" "run_instructions is t1 = Some (hs2, t')" "hs = hs1 @ hs2"
    using Cons.prems(3) by (auto split: option.splits)
  obtain d1 where d1: "represents d1 t1" "\<And>rest. decode_block d acc (instruction_bytes i @ rest) = decode_block d1 (acc @ hs1) rest"
    using instruction_runs [OF Cons.prems(1) _ r(1)] Cons.prems(2) by (metis list.set_intros(1))
  from Cons.IH [OF d1(1) _ r(2), of "acc @ hs1"] Cons.prems(2) d1(2) r(3) show ?case by simp
qed auto

section \<open>The properties\<close>

text \<open>C27: The decoder implements the RFC: for every sequence of instructions that has a meaning on the
  table the decoder holds, the block that writes them, with strings plain or compressed, decodes
  to the headers of that meaning, and the decoder then holds the table of that meaning.\<close>

theorem decoder_implements_rfc:
  assumes "represents d t" "\<forall>i \<in> set is. instruction_ok i" "run_instructions is t = Some (hs, t')"
  shows "\<exists>d'. hpack_decode d (concat (map instruction_bytes is)) = (Inr hs, d') \<and> represents d' t'"
  using instructions_run [OF assms, of "[]"] by (simp add: hpack_decode_def)

theorem decoder_implements_rfc_witness:
  "\<exists>d'. hpack_decode decoder_new (concat (map instruction_bytes
      [Literal Incremental (NewName (Plain [97])) (Compressed []), Indexed 62, SizeUpdate 0]))
    = (Inr [([97], []), ([97], [])], d') \<and> represents d' ([], 0)"
proof (rule decoder_implements_rfc)
  show "represents decoder_new ([], 4096)" by (simp add: represents_def decoder_new_def)
  have "length static_table = 61" by (simp add: static_table_def)
  then show "run_instructions [Literal Incremental (NewName (Plain [97])) (Compressed []), Indexed 62, SizeUpdate 0] ([], 4096)
      = Some ([([97], []), ([97], [])], [], 0)"
    by (simp add: table_entry_def entry_size_def nth_append)
  show "\<forall>i \<in> set [Literal Incremental (NewName (Plain [97])) (Compressed []), Indexed 62, SizeUpdate 0]. instruction_ok i"
    by (simp add: text_ok_def encode_integer_def utf8_step_def utf8_width_def huffman_encode_def)
qed

lemma static_position_Some: "static_position P = Some i \<Longrightarrow> 1 \<le> i \<and> i \<le> length static_table \<and> P (static_table ! (i - 1))"
  by (auto simp: static_position_def find_Some_iff nth_enumerate_eq)

definition header_instruction :: "header \<Rightarrow> instruction" where
  "header_instruction h =
     (case static_full_match (fst h) (snd h) of
        Some i \<Rightarrow> Indexed i
      | None \<Rightarrow> Literal WithoutIndexing (case static_name_match (fst h) of Some i \<Rightarrow> NameIndex i | None \<Rightarrow> NewName (Plain (fst h))) (Plain (snd h)))"

lemma encode_header_instruction: "encode_header h = instruction_bytes (header_instruction h)"
proof -
  have "encode_integer 0 4 0 = [0]" by (simp add: encode_integer_def)
  then show ?thesis by (simp add: encode_header_def header_instruction_def encode_string_def split: option.splits)
qed

definition header_ok :: "header \<Rightarrow> bool" where
  "header_ok h \<longleftrightarrow> valid_utf8 (fst h) \<and> valid_utf8 (snd h) \<and> length (fst h) < 2 ^ 60 \<and> length (snd h) < 2 ^ 60"

lemma length_continuation: "length (encode_continuation n) \<le> Suc n"
proof (induction n rule: encode_continuation.induct)
  case (1 v)
  then show ?case by (cases "v < 128") (auto simp: encode_continuation.simps [of v] dest!: order_trans [of _ _ v])
qed

lemma length_encode_integer: "length (encode_integer n k pb) \<le> n + 2"
proof -
  have "length (encode_continuation (n - (2 ^ k - 1))) \<le> Suc n"
    using length_continuation [of "n - (2 ^ k - 1)"] by (rule order_trans) (simp only: Suc_le_mono diff_le_self)
  then show ?thesis by (simp add: encode_integer_def Let_def)
qed

lemma header_instruction_ok: "header_ok h \<Longrightarrow> instruction_ok (header_instruction h)"
proof -
  assume h: "header_ok h"
  have "text_ok (Plain (fst h))" "text_ok (Plain (snd h))"
    using h length_encode_integer [of "length (fst h)" 7 0] length_encode_integer [of "length (snd h)" 7 0]
    by (simp_all add: text_ok_def header_ok_def)
  moreover have "length static_table = 61" by (simp add: static_table_def)
  ultimately show ?thesis
    by (auto simp: header_instruction_def static_full_match_def static_name_match_def split: option.splits dest!: static_position_Some)
qed

lemma header_instruction_runs: "run_instruction (header_instruction h) t = Some ([h], t)"
proof -
  have entry: "table_entry t i = Some (static_table ! (i - 1))" if "static_position P = Some i" for P i
    using static_position_Some [OF that] by (auto simp: table_entry_def nth_append)
  show ?thesis
    using entry by (auto simp: header_instruction_def static_full_match_def static_name_match_def split: option.splits dest!: static_position_Some)
qed

lemma header_instructions_run: "run_instructions (map header_instruction hs) t = Some (hs, t)"
  by (induction hs) (auto simp: header_instruction_runs)

text \<open>What the encoder writes, the decoder reads back, whatever its dynamic table holds, and its
  state does not change.\<close>

theorem headers_roundtrip:
  assumes "represents d t" "\<forall>h \<in> set hs. header_ok h"
  shows "hpack_decode d (hpack_encode hs) = (Inr hs, d)"
proof -
  obtain d' where d': "hpack_decode d (concat (map instruction_bytes (map header_instruction hs))) = (Inr hs, d')" "represents d' t"
    using instructions_run [OF assms(1) _ header_instructions_run, of hs "[]"] assms(2) header_instruction_ok
    by (auto simp: hpack_decode_def)
  have "d' = d" using d'(2) assms(1) by (simp add: represents_def)
  moreover have "hpack_encode hs = concat (map instruction_bytes (map header_instruction hs))"
    by (simp add: hpack_encode_def encode_header_instruction cong: map_cong)
  ultimately show ?thesis using d'(1) by simp
qed

theorem headers_roundtrip_witness:
  "hpack_decode decoder_new (hpack_encode [(str '':status'', str ''200''), (str ''grpc-status'', str ''0'')])
    = (Inr [(str '':status'', str ''200''), (str ''grpc-status'', str ''0'')], decoder_new)"
proof (rule headers_roundtrip)
  show "represents decoder_new ([], 4096)" by (simp add: represents_def decoder_new_def)
  show "\<forall>h \<in> set [(str '':status'', str ''200''), (str ''grpc-status'', str ''0'')]. header_ok h"
    by (simp add: header_ok_def str_def utf8_step_def utf8_width_def)
qed

section \<open>Every input\<close>

definition table_ok :: "hpack_decoder \<Rightarrow> bool" where
  "table_ok d \<longleftrightarrow> hd_size d = sum_list (map entry_size (hd_dynamic d)) \<and> hd_size d \<le> hd_max d"

lemma table_ok_represents: "table_ok d \<longleftrightarrow> represents d (hd_dynamic d, hd_max d)"
  by (auto simp: table_ok_def represents_def)

lemma represents_table_ok: "represents d t \<Longrightarrow> table_ok d"
  by (auto simp: table_ok_def represents_def)

lemma decode_one_table_ok: "table_ok d \<Longrightarrow> decode_one d first bs = Inr (h, d', rest) \<Longrightarrow> table_ok d'"
  by (auto simp: decode_one_def table_ok_represents attempt_Inr_iff split: if_splits
      intro: represents_table_ok [unfolded table_ok_represents] dest: insert_dynamic_represents set_max_size_represents)

text \<open>Whatever a peer sends, in any number of header blocks, complete or broken off by an error, the
  recorded size of the dynamic table is the sum of the sizes of its entries and stays within the
  limit in force.\<close>

theorem dynamic_table_bounded:
  "let d = fold (\<lambda>block d. snd (hpack_decode d block)) blocks decoder_new
   in hd_size d = sum_list (map entry_size (hd_dynamic d)) \<and> hd_size d \<le> hd_max d"
proof -
  have block: "table_ok (snd (decode_block d hs bs))" if "table_ok d" for d hs bs
    using that by (induction d hs bs rule: decode_block.induct) (auto split: sum.splits prod.splits dest: decode_one_table_ok)
  have "table_ok (fold (\<lambda>block d. snd (hpack_decode d block)) blocks d)" if "table_ok d" for d
    using that by (induction blocks arbitrary: d) (auto simp: hpack_decode_def block)
  moreover have "table_ok decoder_new" by (simp add: table_ok_def decoder_new_def)
  ultimately have "table_ok (fold (\<lambda>block d. snd (hpack_decode d block)) blocks decoder_new)" by blast
  then show ?thesis by (simp add: table_ok_def Let_def)
qed

end
