(* ===== verification/Btree.thy ===== *)
theory Btree
  imports Rust_Std
begin

text \<open>
  The secondary index on disk (\<open>storage/btree.rs\<close>) that \<open>CREATE INDEX\<close> fills and equality searches
  read: nodes written into a file at byte offsets, a pointer to the root in its first eight bytes.
  The file is its bytes and the position of the handle. Reads past the end are the error of
  \<open>read_exact\<close>; other I/O errors are not modelled. Descending a tree follows offsets found in the
  file, which a damaged file may make cyclic: those functions are partial, and \<open>None\<close> is a call
  that does not return.
\<close>

section \<open>Nodes in the file\<close>

datatype node = Internal "bytes list" "nat list" | Leaf "bytes list" "bytes list"

record index_file =
  if_data :: bytes
  if_pos :: nat

record btree =
  b_file :: index_file
  b_root :: "nat option"

datatype btree_error = UnexpectedEof

definition node_order :: nat where
  "node_order = 64"

definition sized_bytes :: "bytes \<Rightarrow> bytes" where
  "sized_bytes k = be32 (length k) @ k"

fun node_bytes :: "node \<Rightarrow> bytes" where
  "node_bytes (Leaf ks vs) = [0] @ be32 (length ks) @ concat (map sized_bytes ks) @ concat (map sized_bytes vs)"
| "node_bytes (Internal ks cs) = [1] @ be32 (length ks) @ concat (map sized_bytes ks) @ concat (map be64 cs)"

text \<open>Writing at an offset overwrites what is there; a gap past the end is filled with zeros.\<close>

definition overwrite :: "nat \<Rightarrow> bytes \<Rightarrow> bytes \<Rightarrow> bytes" where
  "overwrite off bs data = take off data @ replicate (off - length data) 0 @ bs @ drop (off + length bs) data"

definition file_write :: "nat \<Rightarrow> bytes \<Rightarrow> index_file \<Rightarrow> index_file" where
  "file_write off bs f = \<lparr>if_data = overwrite off bs (if_data f), if_pos = off + length bs\<rparr>"

definition write_node_at :: "nat \<Rightarrow> node \<Rightarrow> index_file \<Rightarrow> nat \<times> index_file" where
  "write_node_at off n f = (off, file_write off (node_bytes n) f)"

definition write_node :: "node \<Rightarrow> index_file \<Rightarrow> nat \<times> index_file" where
  "write_node n f = write_node_at (if_pos f) n f"

definition write_root :: "nat \<Rightarrow> index_file \<Rightarrow> index_file" where
  "write_root off f = file_write 0 (be64 off) f"

definition read_exact :: "nat \<Rightarrow> bytes \<Rightarrow> (bytes \<times> bytes) option" where
  "read_exact n bs = (if n \<le> length bs then Some (take n bs, drop n bs) else None)"

definition read_field :: "bytes \<Rightarrow> (bytes \<times> bytes) option" where
  "read_field bs = Option.bind (read_exact 4 bs) (\<lambda>(l, bs). read_exact (of_be l) bs)"

definition read_offset :: "bytes \<Rightarrow> (nat \<times> bytes) option" where
  "read_offset bs = map_option (\<lambda>(c, bs). (of_be c, bs)) (read_exact 8 bs)"

definition read_node_bytes :: "bytes \<Rightarrow> (node \<times> bytes) option" where
  "read_node_bytes bs =
     Option.bind (read_exact 1 bs) (\<lambda>(tag, bs).
     Option.bind (read_exact 4 bs) (\<lambda>(n, bs).
     Option.bind (dec_n read_field (of_be n) bs) (\<lambda>(keys, bs).
       if tag = [0] then map_option (\<lambda>(vals, bs). (Leaf keys vals, bs)) (dec_n read_field (of_be n) bs)
       else map_option (\<lambda>(children, bs). (Internal keys children, bs)) (dec_n read_offset (of_be n + 1) bs))))"

definition read_node :: "nat \<Rightarrow> index_file \<Rightarrow> (node \<times> index_file) option" where
  "read_node off f =
     map_option (\<lambda>(n, rest). (n, f\<lparr>if_pos := length (if_data f) - length rest\<rparr>)) (read_node_bytes (drop off (if_data f)))"

section \<open>Inserting\<close>

text \<open>\<open>binary_search_by\<close> on a sorted slice: the position, and whether the key is there.\<close>

definition search_keys :: "bytes list \<Rightarrow> bytes \<Rightarrow> bool \<times> nat" where
  "search_keys ks k = (let p = partition_point (\<lambda>x. x < k) ks in (p < length ks \<and> ks ! p = k, p))"

definition insert_nth :: "nat \<Rightarrow> 'a \<Rightarrow> 'a list \<Rightarrow> 'a list" where
  "insert_nth i x xs = take i xs @ x # drop i xs"

definition leaf_put :: "bytes \<Rightarrow> bytes \<Rightarrow> bytes list \<Rightarrow> bytes list \<Rightarrow> bytes list \<times> bytes list" where
  "leaf_put k v ks vs =
     (case search_keys ks k of (found, p) \<Rightarrow> if found then (ks, vs[p := v]) else (insert_nth p k ks, insert_nth p v vs))"

definition child_pos :: "bytes list \<Rightarrow> bytes \<Rightarrow> nat" where
  "child_pos ks k = (case search_keys ks k of (found, p) \<Rightarrow> if found then p + 1 else p)"

type_synonym split = "(bytes \<times> nat \<times> nat) option"

definition insert_into_leaf :: "nat \<Rightarrow> bytes list \<Rightarrow> bytes list \<Rightarrow> index_file \<Rightarrow> split \<times> index_file" where
  "insert_into_leaf off ks vs f =
     (if node_order \<le> length ks then
        (let mid = length ks div 2;
             promoted = ks ! mid;
             (right_off, f) = write_node (Leaf (drop (mid + 1) ks) (drop (mid + 1) vs)) f;
             (left_off, f) = write_node (Leaf (take mid ks) (take mid vs)) f
         in (Some (promoted, left_off, right_off), f))
      else (None, snd (write_node_at off (Leaf ks vs) f)))"

definition insert_promoted :: "nat \<Rightarrow> bytes list \<Rightarrow> nat list \<Rightarrow> bytes \<times> nat \<times> nat \<Rightarrow> index_file \<Rightarrow> split \<times> index_file" where
  "insert_promoted off ks cs sp f =
     (case sp of (k, l, r) \<Rightarrow>
        (let p = snd (search_keys ks k);
             ks = insert_nth p k ks;
             cs = insert_nth (p + 1) r (cs[p := l])
         in if node_order \<le> length ks then
              (let mid = length ks div 2;
                   promoted = ks ! mid;
                   (right_off, f) = write_node (Internal (drop (mid + 1) ks) (drop (mid + 1) cs)) f;
                   (left_off, f) = write_node_at off (Internal (take mid ks) (take mid cs)) f
               in (Some (promoted, left_off, right_off), f))
            else (None, snd (write_node_at off (Internal ks cs) f))))"

partial_function (option) insert_into_node ::
  "nat \<Rightarrow> bytes \<Rightarrow> bytes \<Rightarrow> index_file \<Rightarrow> (btree_error + split \<times> index_file) option" where
  "insert_into_node off k v f =
     (case read_node off f of
        None \<Rightarrow> Some (Inl UnexpectedEof)
      | Some (Leaf ks vs, f) \<Rightarrow> Some (Inr (case leaf_put k v ks vs of (ks, vs) \<Rightarrow> insert_into_leaf off ks vs f))
      | Some (Internal ks cs, f) \<Rightarrow>
          Option.bind (insert_into_node (cs ! child_pos ks k) k v f) (\<lambda>r.
            Some (case r of
                Inl e \<Rightarrow> Inl e
              | Inr (None, f) \<Rightarrow> Inr (None, f)
              | Inr (Some sp, f) \<Rightarrow> Inr (insert_promoted off ks cs sp f))))"

definition btree_open :: "bytes option \<Rightarrow> btree" where
  "btree_open data =
     (let bs = (case data of Some bs \<Rightarrow> bs | None \<Rightarrow> []);
          root = (case read_offset bs of Some (r, _) \<Rightarrow> if 0 < r then Some r else None | None \<Rightarrow> None)
      in \<lparr>b_file = \<lparr>if_data = bs, if_pos = 0\<rparr>, b_root = root\<rparr>)"

text \<open>Each call opens the file anew, with the position at its start.\<close>

definition btree_insert :: "bytes \<Rightarrow> bytes \<Rightarrow> btree \<Rightarrow> (btree_error + btree) option" where
  "btree_insert k v b =
     (let f = (b_file b)\<lparr>if_pos := 0\<rparr>
      in case b_root b of
           None \<Rightarrow>
             (let f = file_write 0 (be64 0) f;
                  (off, f) = write_node (Leaf [k] [v]) f
              in Some (Inr \<lparr>b_file = write_root off f, b_root = Some off\<rparr>))
         | Some root \<Rightarrow>
             Option.bind (insert_into_node root k v f) (\<lambda>r.
               Some (case r of
                   Inl e \<Rightarrow> Inl e
                 | Inr (None, f) \<Rightarrow> Inr (b\<lparr>b_file := f\<rparr>)
                 | Inr (Some (promoted, l, r), f) \<Rightarrow>
                     (let (off, f) = write_node (Internal [promoted] [l, r]) f
                      in Inr \<lparr>b_file = write_root off f, b_root = Some off\<rparr>))))"

section \<open>Searching\<close>

partial_function (option) search_in_node :: "nat \<Rightarrow> bytes \<Rightarrow> index_file \<Rightarrow> (btree_error + bytes option) option" where
  "search_in_node off k f =
     (case read_node off f of
        None \<Rightarrow> Some (Inl UnexpectedEof)
      | Some (Leaf ks vs, _) \<Rightarrow> Some (Inr (case search_keys ks k of (found, p) \<Rightarrow> if found then Some (vs ! p) else None))
      | Some (Internal ks cs, f) \<Rightarrow> search_in_node (cs ! child_pos ks k) k f)"

definition btree_search :: "bytes \<Rightarrow> btree \<Rightarrow> (btree_error + bytes option) option" where
  "btree_search k b = (case b_root b of None \<Rightarrow> Some (Inr None) | Some root \<Rightarrow> search_in_node root k (b_file b))"

text \<open>The nodes still to visit, in order, and the entries found so far.\<close>

partial_function (option) scan_nodes :: "nat list \<Rightarrow> (bytes \<times> bytes) list \<Rightarrow> index_file \<Rightarrow> (btree_error + (bytes \<times> bytes) list) option" where
  "scan_nodes offs acc f =
     (case offs of
        [] \<Rightarrow> Some (Inr acc)
      | off # offs \<Rightarrow>
          (case read_node off f of
             None \<Rightarrow> Some (Inl UnexpectedEof)
           | Some (Leaf ks vs, f) \<Rightarrow> scan_nodes offs (acc @ zip ks vs) f
           | Some (Internal ks cs, f) \<Rightarrow> scan_nodes (cs @ offs) acc f))"

definition btree_scan :: "btree \<Rightarrow> (btree_error + (bytes \<times> bytes) list) option" where
  "btree_scan b = (case b_root b of None \<Rightarrow> Some (Inr []) | Some root \<Rightarrow> scan_nodes [root] [] (b_file b))"

declare insert_into_node.simps [code] search_in_node.simps [code] scan_nodes.simps [code]

section \<open>Reading back what was written\<close>

interpretation field_codec: byte_codec sized_bytes read_field "\<lambda>k. length k < 2 ^ 32"
  by unfold_locales (simp add: sized_bytes_def read_field_def read_exact_def of_be32)

interpretation offset_codec: byte_codec be64 read_offset "\<lambda>n. n < 2 ^ 64"
  by unfold_locales (simp add: read_offset_def read_exact_def of_be64)

primrec node_ok :: "node \<Rightarrow> bool" where
  "node_ok (Leaf ks vs) \<longleftrightarrow> length ks < 2 ^ 32 \<and> length vs = length ks \<and> (\<forall>x \<in> set ks \<union> set vs. length x < 2 ^ 32)"
| "node_ok (Internal ks cs) \<longleftrightarrow> length ks < 2 ^ 32 \<and> length cs = length ks + 1 \<and> (\<forall>x \<in> set ks. length x < 2 ^ 32) \<and> (\<forall>c \<in> set cs. c < 2 ^ 64)"

lemma read_node_bytes_write:
  assumes "node_ok n"
  shows "read_node_bytes (node_bytes n @ rest) = Some (n, rest)"
proof (cases n)
  case (Leaf ks vs)
  then have "dec_n read_field (length ks) (concat (map sized_bytes ks) @ r) = Some (ks, r)"
    "dec_n read_field (length ks) (concat (map sized_bytes vs) @ r) = Some (vs, r)" for r
    using assms field_codec.dec_n_enc [of ks r] field_codec.dec_n_enc [of vs r] by auto
  then show ?thesis using assms Leaf by (simp add: read_node_bytes_def read_exact_def of_be32)
next
  case (Internal ks cs)
  then have "dec_n read_field (length ks) (concat (map sized_bytes ks) @ r) = Some (ks, r)"
    "dec_n read_offset (Suc (length ks)) (concat (map be64 cs) @ r) = Some (cs, r)" for r
    using assms field_codec.dec_n_enc [of ks r] offset_codec.dec_n_enc [of cs r] by auto
  then show ?thesis using assms Internal by (simp add: read_node_bytes_def read_exact_def of_be32 del: dec_n.simps)
qed

lemma read_node_at:
  assumes "if_data f = pre @ node_bytes n @ rest" "node_ok n" "off = length pre"
  shows "read_node off f = Some (n, f\<lparr>if_pos := length pre + length (node_bytes n)\<rparr>)"
  using assms by (simp add: read_node_def read_node_bytes_write)

lemma overwrite_here: "overwrite (length pre) bs (pre @ x) = pre @ bs @ drop (length bs) x"
  by (simp add: overwrite_def)

lemma overwrite_start: "overwrite 0 bs x = bs @ drop (length bs) x"
  by (simp add: overwrite_def)

section \<open>Leaves as maps\<close>

lemma search_keys_get:
  "bt_wf m \<Longrightarrow> (case search_keys (map fst m) k of (found, p) \<Rightarrow> if found then Some (map snd m ! p) else None) = bt_get m k"
proof (induction m)
  case (Cons e m)
  have "map_of m k = None" if "k < fst e"
  proof -
    have "fst e < fst x" if "x \<in> set m" for x using Cons.prems that by (simp add: bt_wf_Cons)
    then have "k \<notin> fst ` set m" using \<open>k < fst e\<close> less_asym by blast
    then show ?thesis by (simp add: map_of_eq_None_iff)
  qed
  then consider "fst e < k" | "fst e = k" | "k < fst e" "map_of m k = None"
    by (cases "fst e" k rule: linorder_cases) auto
  then show ?case
    using Cons by cases (auto simp: search_keys_def partition_point_def bt_wf_Cons bt_get_def Let_def split: if_splits)
qed (simp add: search_keys_def partition_point_def)

lemma leaf_put_insert:
  "bt_wf m \<Longrightarrow> leaf_put k v (map fst m) (map snd m) = (map fst (bt_insert k v m), map snd (bt_insert k v m))"
proof (induction m)
  case (Cons e m)
  have "leaf_put k v (map fst m) (map snd m) = (map fst (bt_insert k v m), map snd (bt_insert k v m))"
    using Cons by (simp add: bt_wf_Cons)
  then show ?case
    by (cases e) (auto simp: leaf_put_def search_keys_def partition_point_def insert_nth_def Let_def split: if_splits)
qed (simp add: leaf_put_def search_keys_def partition_point_def insert_nth_def)

definition leaf :: "(bytes \<times> bytes) list \<Rightarrow> node" where
  "leaf m = Leaf (map fst m) (map snd m)"

definition entries_ok :: "(bytes \<times> bytes) list \<Rightarrow> bool" where
  "entries_ok m \<longleftrightarrow> (\<forall>(k, v) \<in> set m. length k < 2 ^ 32 \<and> length v < 2 ^ 32)"

lemma leaf_ok: "length m < 2 ^ 32 \<Longrightarrow> entries_ok m \<Longrightarrow> node_ok (leaf m)"
  by (auto simp: leaf_def entries_ok_def)

lemma entries_ok_insert: "entries_ok m \<Longrightarrow> length k < 2 ^ 32 \<Longrightarrow> length v < 2 ^ 32 \<Longrightarrow> entries_ok (bt_insert k v m)"
  using set_bt_insert_subset [of k v m] by (auto simp: entries_ok_def)

section \<open>An index of one leaf\<close>

definition leaf_index :: "btree \<Rightarrow> (bytes \<times> bytes) list \<Rightarrow> bool" where
  "leaf_index b m \<longleftrightarrow> bt_wf m \<and> entries_ok m \<and> length m < node_order \<and>
     (if m = [] then b = btree_open None
      else b_root b = Some 8 \<and> (\<exists>junk. if_data (b_file b) = be64 8 @ node_bytes (leaf m) @ junk))"

lemma leaf_index_read:
  assumes "leaf_index b m" "m \<noteq> []" "if_data f = if_data (b_file b)"
  shows "read_node 8 f = Some (leaf m, f\<lparr>if_pos := 8 + length (node_bytes (leaf m))\<rparr>)"
proof -
  obtain junk where "if_data f = be64 8 @ node_bytes (leaf m) @ junk" using assms by (auto simp: leaf_index_def)
  moreover have "node_ok (leaf m)" using assms(1) by (auto simp: leaf_index_def node_order_def intro: leaf_ok)
  ultimately show ?thesis using read_node_at [of f "be64 8" "leaf m" junk 8] by simp
qed

lemma leaf_index_search:
  assumes "leaf_index b m"
  shows "btree_search k b = Some (Inr (bt_get m k))" "btree_scan b = Some (Inr m)"
proof (atomize (full), cases "m = []")
  case True
  then show "btree_search k b = Some (Inr (bt_get m k)) \<and> btree_scan b = Some (Inr m)"
    using assms by (simp add: leaf_index_def btree_search_def btree_scan_def btree_open_def read_offset_def read_exact_def)
next
  case False
  note r = leaf_index_read [OF assms False refl]
  have root: "b_root b = Some 8" and wf: "bt_wf m" using assms False by (auto simp: leaf_index_def)
  have "search_in_node 8 k (b_file b) = Some (Inr (bt_get m k))"
    using r search_keys_get [OF wf, of k] by (subst search_in_node.simps) (simp add: leaf_def)
  moreover have "scan_nodes [8] [] (b_file b) = Some (Inr m)"
    using r by (subst scan_nodes.simps, simp add: leaf_def zip_map_fst_snd) (subst scan_nodes.simps, simp)
  ultimately show "btree_search k b = Some (Inr (bt_get m k)) \<and> btree_scan b = Some (Inr m)"
    using root by (simp add: btree_search_def btree_scan_def)
qed

lemma leaf_index_reopen:
  assumes "leaf_index b m"
  shows "leaf_index (btree_open (Some (if_data (b_file b)))) m"
  using assms by (cases "m = []") (auto simp: leaf_index_def btree_open_def read_offset_def read_exact_def of_be64 Let_def)

lemma leaf_index_insert:
  assumes "leaf_index b m" "length k < 2 ^ 32" "length v < 2 ^ 32" "length (bt_insert k v m) < node_order"
  shows "\<exists>b'. btree_insert k v b = Some (Inr b') \<and> leaf_index b' (bt_insert k v m)"
proof -
  have ok: "bt_wf (bt_insert k v m)" "entries_ok (bt_insert k v m)" "bt_insert k v m \<noteq> []"
    using assms by (auto simp: leaf_index_def bt_wf_insert entries_ok_insert) (metis bt_insert_mem empty_iff list.set(1))
  show ?thesis
  proof (cases "m = []")
    case True
    then have b: "b = btree_open None" using assms(1) by (simp add: leaf_index_def)
    have "b_root b = None" "b_file b = \<lparr>if_data = [], if_pos = 0\<rparr>"
      by (simp_all add: b btree_open_def read_offset_def read_exact_def)
    then show ?thesis
      using ok assms(4) True
      by (auto simp: btree_insert_def leaf_index_def write_node_def write_node_at_def write_root_def file_write_def overwrite_def leaf_def Let_def)
  next
    case False
    let ?m = "bt_insert k v m" and ?f = "b_file b\<lparr>if_pos := 0\<rparr>"
    obtain junk where data: "if_data (b_file b) = be64 8 @ node_bytes (leaf m) @ junk" and root: "b_root b = Some 8"
      using assms(1) False by (auto simp: leaf_index_def)
    let ?f' = "\<lparr>if_data = be64 8 @ node_bytes (leaf ?m) @ drop (length (node_bytes (leaf ?m))) (node_bytes (leaf m) @ junk),
        if_pos = 8 + length (node_bytes (leaf ?m))\<rparr>"
    have "insert_into_node 8 k v ?f = Some (Inr (None, ?f'))"
      using leaf_index_read [OF assms(1) False, of ?f] leaf_put_insert [of m k v] assms(1,4) data
        overwrite_here [of "be64 8" "node_bytes (leaf ?m)" "node_bytes (leaf m) @ junk"]
      by (subst insert_into_node.simps) (simp add: leaf_def leaf_index_def insert_into_leaf_def write_node_at_def file_write_def)
    then have "btree_insert k v b = Some (Inr (b\<lparr>b_file := ?f'\<rparr>))" by (simp add: btree_insert_def root)
    moreover have "leaf_index (b\<lparr>b_file := ?f'\<rparr>) ?m" using ok assms(4) root by (simp add: leaf_index_def)
    ultimately show ?thesis by blast
  qed
qed

primrec btree_insert_all :: "(bytes \<times> bytes) list \<Rightarrow> btree \<Rightarrow> (btree_error + btree) option" where
  "btree_insert_all [] b = Some (Inr b)"
| "btree_insert_all (e # es) b =
     (case btree_insert (fst e) (snd e) b of Some (Inr b') \<Rightarrow> btree_insert_all es b' | r \<Rightarrow> r)"

definition entries_of :: "(bytes \<times> bytes) list \<Rightarrow> (bytes \<times> bytes) list" where
  "entries_of es = fold (\<lambda>(k, v). bt_insert k v) es []"

lemma entries_of_snoc: "entries_of (es @ [(k, v)]) = bt_insert k v (entries_of es)"
  by (simp add: entries_of_def)

lemma entries_of_spec:
  "bt_wf (entries_of es) \<and> bt_get (entries_of es) = map_of (rev es) \<and> fst ` set (entries_of es) = fst ` set es"
proof (induction es rule: rev_induct)
  case (snoc e es)
  then show ?case by (cases e) (simp add: entries_of_snoc bt_wf_insert bt_get_insert fst_set_bt_insert)
qed (simp add: entries_of_def bt_get_def)

lemma length_entries_of: "length (entries_of es) = card (fst ` set es)"
  using entries_of_spec [of es] bt_wf_distinct [of "entries_of es"] distinct_card [of "map fst (entries_of es)"] by simp

lemma entries_ok_of: "entries_ok es \<Longrightarrow> entries_ok (entries_of es)"
proof (induction es rule: rev_induct)
  case (snoc e es)
  obtain k v where e: "e = (k, v)" by (cases e)
  have "entries_ok es" "length k < 2 ^ 32" "length v < 2 ^ 32" using snoc(2) by (auto simp: entries_ok_def e)
  then show ?case using snoc(1) entries_ok_insert by (simp add: e entries_of_snoc)
qed (simp add: entries_of_def entries_ok_def)

lemma btree_insert_all_append:
  "btree_insert_all (es @ es') b = (case btree_insert_all es b of Some (Inr b') \<Rightarrow> btree_insert_all es' b' | r \<Rightarrow> r)"
  by (induction es arbitrary: b) (auto split: option.splits sum.splits)

lemma leaf_index_insert_all:
  "entries_ok es \<Longrightarrow> card (fst ` set es) < node_order \<Longrightarrow>
   \<exists>b. btree_insert_all es (btree_open None) = Some (Inr b) \<and> leaf_index b (entries_of es)"
proof (induction es rule: rev_induct)
  case Nil
  then show ?case by (simp add: entries_of_def leaf_index_def entries_ok_def node_order_def)
next
  case (snoc e es)
  obtain k v where e: "e = (k, v)" by (cases e)
  have "card (fst ` set es) \<le> card (fst ` set (es @ [e]))" by (intro card_mono) auto
  then obtain b where b: "btree_insert_all es (btree_open None) = Some (Inr b)" "leaf_index b (entries_of es)"
    using snoc by (auto simp: entries_ok_def)
  have "length (bt_insert k v (entries_of es)) < node_order"
    using snoc(3) length_entries_of [of "es @ [e]"] by (simp add: e entries_of_snoc)
  from leaf_index_insert [OF b(2) _ _ this] snoc(2) b(1) show ?case
    by (auto simp: e entries_ok_def entries_of_snoc btree_insert_all_append)
qed

text \<open>C28: An index of fewer than 64 distinct keys is the map of its insertions: every insertion succeeds,
  and after the file is opened again a search finds the last primary key inserted for a value
  and nothing else, and a scan lists the entries in the order of their keys.\<close>

theorem small_index_correct:
  assumes "entries_ok es" "card (fst ` set es) < node_order"
  shows "\<exists>b. btree_insert_all es (btree_open None) = Some (Inr b) \<and>
    (let b' = btree_open (Some (if_data (b_file b)))
     in (\<forall>k. btree_search k b' = Some (Inr (map_of (rev es) k))) \<and>
        (\<exists>m. btree_scan b' = Some (Inr m) \<and> sorted_wrt (<) (map fst m) \<and> map_of m = map_of (rev es)))"
proof -
  obtain b where b: "btree_insert_all es (btree_open None) = Some (Inr b)" "leaf_index b (entries_of es)"
    using leaf_index_insert_all [OF assms] by blast
  note reopened = leaf_index_reopen [OF b(2)]
  have get: "map_of m = bt_get m" for m :: "(bytes \<times> bytes) list" by (rule ext) (simp add: bt_get_def)
  show ?thesis
    using b(1) leaf_index_search [OF reopened] entries_of_spec [of es] by (auto simp: Let_def bt_wf_def get)
qed

theorem small_index_correct_witness:
  "\<exists>b. btree_insert_all [([1], [2]), ([1], [3])] (btree_open None) = Some (Inr b) \<and>
    btree_search [1] (btree_open (Some (if_data (b_file b)))) = Some (Inr (Some [3]))"
  using small_index_correct [of "[([1], [2]), ([1], [3])]"] by (auto simp: entries_ok_def node_order_def Let_def)

section \<open>The first split\<close>

lemma length_fields: "\<forall>x \<in> set xs. length x < 2 ^ 32 \<Longrightarrow> length (concat (map sized_bytes xs)) \<le> length xs * (2 ^ 32 + 4)"
  by (induction xs) (auto simp: sized_bytes_def)

lemma leaf_size: "entries_ok m \<Longrightarrow> length m \<le> 64 \<Longrightarrow> length (node_bytes (leaf m)) < 2 ^ 42"
  using length_fields [of "map fst m"] length_fields [of "map snd m"] mult_le_mono1 [of "length m" 64 "2 ^ 32 + 4"]
  by (fastforce simp: leaf_def entries_ok_def)

lemma bt_wf_take: "bt_wf m \<Longrightarrow> bt_wf (take n m)"
  by (simp add: bt_wf_def take_map [symmetric] sorted_wrt_take)

lemma bt_wf_drop: "bt_wf m \<Longrightarrow> bt_wf (drop n m)"
  by (simp add: bt_wf_def drop_map [symmetric] sorted_wrt_drop)

lemma bt_get_around:
  assumes "bt_wf m" "i < length m"
  shows "(if x < fst (m ! i) then bt_get (take i m) x else bt_get (drop (i + 1) m) x) = ((bt_get m)(fst (m ! i) := None)) x"
proof -
  have m: "m = take i m @ m ! i # drop (Suc i) m" using assms(2) by (rule id_take_nth_drop)
  have "sorted_wrt (<) (map fst (take i m @ m ! i # drop (Suc i) m))" using assms(1) m by (simp add: bt_wf_def)
  then have "\<forall>e \<in> set (take i m). fst e < fst (m ! i)" "\<forall>e \<in> set (drop (Suc i) m). fst (m ! i) < fst e"
    by (auto simp: sorted_wrt_append)
  then have "map_of (take i m) y = None" if "\<not> y < fst (m ! i)" for y using that by (force simp: map_of_eq_None_iff)
  moreover have "map_of (drop (Suc i) m) y = None" if "\<not> fst (m ! i) < y" for y
    using that \<open>\<forall>e \<in> set (drop (Suc i) m). fst (m ! i) < fst e\<close> by (force simp: map_of_eq_None_iff)
  moreover have "bt_get m x = map_of (take i m @ m ! i # drop (Suc i) m) x" using m by (simp add: bt_get_def)
  ultimately show ?thesis
    by (cases "m ! i", cases "map_of (take i m) x") (auto simp: bt_get_def map_of_append map_add_def split: option.splits)
qed

lemma write_node_append:
  assumes "if_data f = pre @ x" "if_pos f = length pre"
  shows "\<exists>x'. write_node n f = (length pre, \<lparr>if_data = (pre @ node_bytes n) @ x', if_pos = length (pre @ node_bytes n)\<rparr>)"
  using assms overwrite_here [of pre "node_bytes n" x] by (simp add: write_node_def write_node_at_def file_write_def)

text \<open>What a full leaf becomes: its right half without the entry in the middle, its left half, and a
  root above them, all written behind it.\<close>

definition split_index :: "btree \<Rightarrow> (bytes \<times> bytes) list \<Rightarrow> bool" where
  "split_index b m \<longleftrightarrow>
     (\<exists>old junk. let p1 = 8 + length old; right = leaf (drop 33 m); p2 = p1 + length (node_bytes right); left = leaf (take 32 m);
        p3 = p2 + length (node_bytes left)
      in p3 < 2 ^ 64 \<and> b_root b = Some p3 \<and>
         if_data (b_file b) = be64 p3 @ old @ node_bytes right @ node_bytes left @ node_bytes (Internal [fst (m ! 32)] [p2, p1]) @ junk)"

lemma leaf_split:
  assumes "leaf_index b m" "m \<noteq> []" "length k < 2 ^ 32" "length v < 2 ^ 32" "length (bt_insert k v m) = node_order"
  shows "\<exists>b'. btree_insert k v b = Some (Inr b') \<and> split_index b' (bt_insert k v m)"
proof -
  let ?m = "bt_insert k v m" and ?f = "b_file b\<lparr>if_pos := 0\<rparr>" and ?old = "node_bytes (leaf m)"
  let ?right = "leaf (drop 33 ?m)" and ?left = "leaf (take 32 ?m)"
  define p1 where "p1 = 8 + length ?old"
  define p2 where "p2 = p1 + length (node_bytes ?right)"
  define p3 where "p3 = p2 + length (node_bytes ?left)"
  have ok: "entries_ok ?m" "entries_ok m" "length ?m = 64" "length m \<le> 64"
    using assms by (auto simp: leaf_index_def node_order_def entries_ok_insert)
  obtain junk where data: "if_data (b_file b) = be64 8 @ ?old @ junk" and root: "b_root b = Some 8"
    using assms(1,2) by (auto simp: leaf_index_def)
  obtain j1 where w1: "write_node ?right (?f\<lparr>if_pos := p1\<rparr>)
      = (p1, \<lparr>if_data = ((be64 8 @ ?old) @ node_bytes ?right) @ j1, if_pos = p2\<rparr>)"
    using write_node_append [of "?f\<lparr>if_pos := p1\<rparr>" "be64 8 @ ?old" junk ?right] data by (auto simp: p1_def p2_def)
  obtain j2 where w2: "write_node ?left \<lparr>if_data = ((be64 8 @ ?old) @ node_bytes ?right) @ j1, if_pos = p2\<rparr>
      = (p2, \<lparr>if_data = (((be64 8 @ ?old) @ node_bytes ?right) @ node_bytes ?left) @ j2, if_pos = p3\<rparr>)"
    using write_node_append [of "\<lparr>if_data = ((be64 8 @ ?old) @ node_bytes ?right) @ j1, if_pos = p2\<rparr>" "(be64 8 @ ?old) @ node_bytes ?right" j1 ?left]
    by (auto simp: p1_def p2_def p3_def)
  let ?root = "Internal [fst (?m ! 32)] [p2, p1]"
  obtain j3 pos where w3: "write_node ?root \<lparr>if_data = (((be64 8 @ ?old) @ node_bytes ?right) @ node_bytes ?left) @ j2, if_pos = p3\<rparr>
      = (p3, \<lparr>if_data = ((((be64 8 @ ?old) @ node_bytes ?right) @ node_bytes ?left) @ node_bytes ?root) @ j3, if_pos = pos\<rparr>)"
    using write_node_append [of "\<lparr>if_data = (((be64 8 @ ?old) @ node_bytes ?right) @ node_bytes ?left) @ j2, if_pos = p3\<rparr>"
        "((be64 8 @ ?old) @ node_bytes ?right) @ node_bytes ?left" j2 ?root]
    by (auto simp: p1_def p2_def p3_def)
  have "insert_into_leaf 8 (map fst ?m) (map snd ?m) (?f\<lparr>if_pos := p1\<rparr>)
      = (Some (fst (?m ! 32), p2, p1), \<lparr>if_data = (((be64 8 @ ?old) @ node_bytes ?right) @ node_bytes ?left) @ j2, if_pos = p3\<rparr>)"
    using w1 w2 ok(3) by (simp add: insert_into_leaf_def node_order_def leaf_def take_map drop_map)
  then have "insert_into_node 8 k v ?f
      = Some (Inr (Some (fst (?m ! 32), p2, p1), \<lparr>if_data = (((be64 8 @ ?old) @ node_bytes ?right) @ node_bytes ?left) @ j2, if_pos = p3\<rparr>))"
    using leaf_index_read [OF assms(1,2), of ?f] leaf_put_insert [of m k v] assms(1)
    by (subst insert_into_node.simps) (simp add: leaf_def leaf_index_def p1_def)
  then have ins: "btree_insert k v b = Some (Inr \<lparr>b_file = write_root p3
      \<lparr>if_data = ((((be64 8 @ ?old) @ node_bytes ?right) @ node_bytes ?left) @ node_bytes ?root) @ j3, if_pos = pos\<rparr>, b_root = Some p3\<rparr>)"
    using w3 by (simp add: btree_insert_def root)
  have "entries_ok (drop 33 ?m)" "entries_ok (take 32 ?m)" using ok(1) by (auto simp: entries_ok_def dest: in_set_dropD in_set_takeD)
  then have "p3 < 2 ^ 64"
    using leaf_size [OF ok(2,4)] leaf_size [of "drop 33 ?m"] leaf_size [of "take 32 ?m"] ok(3) by (simp add: p1_def p2_def p3_def)
  then show ?thesis
    using ins by (auto simp: split_index_def write_root_def file_write_def overwrite_start Let_def p1_def p2_def p3_def)
qed

lemma split_index_search:
  assumes "split_index b m" "bt_wf m" "entries_ok m" "length m = 64"
  shows "btree_search x b = Some (Inr (((bt_get m)(fst (m ! 32) := None)) x))"
proof -
  let ?right = "leaf (drop 33 m)" and ?left = "leaf (take 32 m)" and ?k = "fst (m ! 32)"
  obtain old junk p1 p2 p3 where p: "p1 = 8 + length old" "p2 = p1 + length (node_bytes ?right)" "p3 = p2 + length (node_bytes ?left)"
    "p3 < 2 ^ 64" "b_root b = Some p3"
    and data: "if_data (b_file b) = be64 p3 @ old @ node_bytes ?right @ node_bytes ?left @ node_bytes (Internal [?k] [p2, p1]) @ junk"
    using assms(1) unfolding split_index_def Let_def by blast
  have parts: "entries_ok (drop 33 m)" "entries_ok (take 32 m)" "length ?k < 2 ^ 32"
    using assms(3,4) nth_mem [of 32 m] by (auto simp: entries_ok_def case_prod_beta dest: in_set_dropD in_set_takeD)
  have root: "read_node p3 (b_file b) = Some (Internal [?k] [p2, p1], b_file b\<lparr>if_pos := q\<rparr>)" if "q = p3 + length (node_bytes (Internal [?k] [p2, p1]))" for q
    using read_node_at [of "b_file b" "be64 p3 @ old @ node_bytes ?right @ node_bytes ?left" "Internal [?k] [p2, p1]" junk p3] data p parts(3) that
    by simp
  have right: "search_in_node p1 x (b_file b\<lparr>if_pos := q\<rparr>) = Some (Inr (bt_get (drop 33 m) x))" for q
    using read_node_at [of "b_file b\<lparr>if_pos := q\<rparr>" "be64 p3 @ old" ?right "node_bytes ?left @ node_bytes (Internal [?k] [p2, p1]) @ junk" p1]
      data p leaf_ok [of "drop 33 m"] parts assms(4) search_keys_get [of "drop 33 m" x] bt_wf_drop [OF assms(2)]
    by (subst search_in_node.simps) (simp add: leaf_def)
  have left: "search_in_node p2 x (b_file b\<lparr>if_pos := q\<rparr>) = Some (Inr (bt_get (take 32 m) x))" for q
    using read_node_at [of "b_file b\<lparr>if_pos := q\<rparr>" "be64 p3 @ old @ node_bytes ?right" ?left "node_bytes (Internal [?k] [p2, p1]) @ junk" p2]
      data p leaf_ok [of "take 32 m"] parts assms(4) search_keys_get [of "take 32 m" x] bt_wf_take [OF assms(2)]
    by (subst search_in_node.simps) (simp add: leaf_def)
  have "child_pos [?k] x = (if x < ?k then 0 else 1)"
    by (auto simp: child_pos_def search_keys_def partition_point_def)
  then have "search_in_node p3 x (b_file b) = Some (Inr (if x < ?k then bt_get (take 32 m) x else bt_get (drop 33 m) x))"
    using root [OF refl] left right by (subst search_in_node.simps) simp
  then have "btree_search x b = Some (Inr (if x < ?k then bt_get (take 32 m) x else bt_get (drop 33 m) x))"
    using p(5) by (simp add: btree_search_def)
  then show ?thesis using bt_get_around [OF assms(2), of 32 x] assms(4) by (cases "x < ?k") simp_all
qed

text \<open>The insertion of the 64th distinct key loses an entry: the split of the full leaf moves the
  middle key into the root and drops its primary key, so that the search for it finds nothing,
  while every other key is still found.\<close>

theorem split_loses_entry:
  assumes "entries_ok (es @ [(k, v)])" "card (fst ` set es) = 63" "k \<notin> fst ` set es"
  shows "\<exists>b. btree_insert_all (es @ [(k, v)]) (btree_open None) = Some (Inr b) \<and>
    (\<forall>x. btree_search x b =
       Some (Inr (((map_of (rev (es @ [(k, v)])))(sorted_list_of_set (fst ` set (es @ [(k, v)])) ! 32 := None)) x)))"
proof -
  let ?m = "entries_of (es @ [(k, v)])"
  have ok: "entries_ok es" "length k < 2 ^ 32" "length v < 2 ^ 32" using assms(1) by (auto simp: entries_ok_def)
  obtain b where b: "btree_insert_all es (btree_open None) = Some (Inr b)" "leaf_index b (entries_of es)"
    using leaf_index_insert_all [OF ok(1)] assms(2) by (auto simp: node_order_def)
  have len: "length ?m = 64" using assms(2,3) by (simp add: length_entries_of)
  have "entries_of es \<noteq> []" using length_entries_of [of es] assms(2) by auto
  then obtain b' where b': "btree_insert k v b = Some (Inr b')" "split_index b' ?m"
    using leaf_split [OF b(2) _ ok(2,3)] len by (auto simp: entries_of_snoc node_order_def)
  note spec = entries_of_spec [of "es @ [(k, v)]"]
  have "sorted_list_of_set (fst ` set (es @ [(k, v)])) = map fst ?m"
    using spec sorted_list_of_set.idem_if_sorted_distinct [of "map fst ?m"] bt_wf_distinct [of ?m]
    by (simp add: bt_wf_def strict_sorted_iff)
  then have "fst (?m ! 32) = sorted_list_of_set (fst ` set (es @ [(k, v)])) ! 32" using len by simp
  then have "btree_search x b' = Some (Inr (((map_of (rev (es @ [(k, v)])))(sorted_list_of_set (fst ` set (es @ [(k, v)])) ! 32 := None)) x))" for x
    using split_index_search [OF b'(2) _ entries_ok_of [OF assms(1)] len, of x] spec by simp
  then show ?thesis using b(1) b'(1) by (auto simp: btree_insert_all_append)
qed

theorem split_loses_entry_witness:
  "\<exists>b x. btree_insert_all (map (\<lambda>n. ([word_of_nat n], [])) [0..<63] @ [([63], [])]) (btree_open None) = Some (Inr b) \<and>
     x \<in> (\<lambda>n. [word_of_nat n]) ` {0..63} \<and> btree_search x b = Some (Inr None)"
proof -
  let ?es = "map (\<lambda>n. ([word_of_nat n :: byte], [] :: bytes)) [0..<63]"
  have inj: "inj_on (\<lambda>n. [word_of_nat n :: byte]) {0..63}"
  proof (rule inj_onI)
    fix a c :: nat assume ac: "a \<in> {0..63}" "c \<in> {0..63}" "[word_of_nat a :: byte] = [word_of_nat c]"
    have "unat (word_of_nat a :: byte) = a" "unat (word_of_nat c :: byte) = c" by (rule unat_small_byte, use ac(1,2) in simp)+
    then show "a = c" using ac(3) by (metis list.inject)
  qed
  have keys: "fst ` set ?es = (\<lambda>n. [word_of_nat n]) ` {0..<63}" by (simp only: set_map image_image fst_conv set_upt)
  have sub: "{0..<63} \<subseteq> {0..63::nat}" by auto
  have "entries_ok (map (\<lambda>n. ([word_of_nat n :: byte], [])) ns @ [([63], [])])" for ns by (auto simp: entries_ok_def)
  moreover have "card (fst ` set ?es) = 63" unfolding keys using card_image [OF inj_on_subset [OF inj sub]] by simp
  moreover have "[63] \<notin> fst ` set ?es" unfolding keys using inj_on_image_mem_iff [OF inj _ sub, of 63] by simp
  ultimately obtain b where b: "btree_insert_all (?es @ [([63], [])]) (btree_open None) = Some (Inr b)"
    "\<And>x. btree_search x b = Some (Inr (((map_of (rev (?es @ [([63], [])])))(sorted_list_of_set (fst ` set (?es @ [([63], [])])) ! 32 := None)) x))"
    using split_loses_entry [of ?es "[63]" "[]"] by blast
  have all: "fst ` set (?es @ [([63], [])]) = (\<lambda>n. [word_of_nat n]) ` {0..63}"
  proof -
    have "{0..63} = insert 63 {0..<63::nat}" by auto
    then show ?thesis unfolding set_append image_Un keys by (simp only: image_insert) simp
  qed
  let ?keys = "sorted_list_of_set ((\<lambda>n. [word_of_nat n :: byte]) ` {0..63})"
  have "length ?keys = 64" using card_image [OF inj] by simp
  then have "?keys ! 32 \<in> (\<lambda>n. [word_of_nat n]) ` {0..63}" using nth_mem [of 32 ?keys] by simp
  then show ?thesis using b(1) b(2) [of "?keys ! 32"] unfolding all by auto
qed

end
