(* ===== verification/Sql_Value.thy ===== *)
theory Sql_Value
  imports Sql_Default
begin

text \<open>
  The runtime values of the SQL executor (\<open>executor/eval.rs\<close>): the enumeration \<open>Value\<close>, its text on
  the wire and in stored rows, comparison, arithmetic, casts, intervals and the \<open>LIKE\<close> matcher.
  A float is its bit pattern and its arithmetic is exact arithmetic on fractions, rounded once;
  the result of an invalid operation is one fixed NaN. Integers carry the range of \<open>i64\<close>.
\<close>

section \<open>Machine arithmetic\<close>

definition wrap_i64 :: "int \<Rightarrow> int" where
  "wrap_i64 n = (n + 2 ^ 63) mod 2 ^ 64 - 2 ^ 63"

definition i64_range :: "int \<Rightarrow> bool" where
  "i64_range n \<longleftrightarrow> - (2 ^ 63) \<le> n \<and> n < 2 ^ 63"

text \<open>Rust's integer division truncates.\<close>

definition div_trunc :: "int \<Rightarrow> int \<Rightarrow> int" where
  "div_trunc a b = sgn a * sgn b * (\<bar>a\<bar> div \<bar>b\<bar>)"

definition rem_trunc :: "int \<Rightarrow> int \<Rightarrow> int" where
  "rem_trunc a b = sgn a * (\<bar>a\<bar> mod \<bar>b\<bar>)"

definition i64_div_euclid :: "int \<Rightarrow> int \<Rightarrow> int" where
  "i64_div_euclid a b = sgn b * (a div \<bar>b\<bar>)"

type_synonym f64 = "64 word"

abbreviation f64_nan :: f64 where "f64_nan \<equiv> 0x7FF8000000000000"
abbreviation f64_inf :: f64 where "f64_inf \<equiv> 0x7FF0000000000000"

definition f64_abs :: "f64 \<Rightarrow> f64" where
  "f64_abs x = x AND 0x7FFFFFFFFFFFFFFF"

definition f64_neg :: "f64 \<Rightarrow> f64" where
  "f64_neg x = x XOR 0x8000000000000000"

definition is_nan :: "f64 \<Rightarrow> bool" where
  "is_nan x \<longleftrightarrow> f64_inf < f64_abs x"

definition is_inf :: "f64 \<Rightarrow> bool" where
  "is_inf x \<longleftrightarrow> f64_abs x = f64_inf"

definition is_zero :: "f64 \<Rightarrow> bool" where
  "is_zero x \<longleftrightarrow> f64_abs x = 0"

definition with_sign :: "bool \<Rightarrow> f64 \<Rightarrow> f64" where
  "with_sign neg x = (if neg then 0x8000000000000000 OR x else x)"

definition negative :: "f64 \<Rightarrow> bool" where
  "negative x \<longleftrightarrow> bit x 63"

definition signed_num :: "f64 \<Rightarrow> int" where
  "signed_num x = (if negative x then - int (fst (f64_fraction (f64_abs x))) else int (fst (f64_fraction (f64_abs x))))"

definition den :: "f64 \<Rightarrow> nat" where
  "den x = snd (f64_fraction (f64_abs x))"

definition f64_add :: "f64 \<Rightarrow> f64 \<Rightarrow> f64" where
  "f64_add x y =
     (if is_nan x \<or> is_nan y \<or> is_inf x \<and> is_inf y \<and> x \<noteq> y then f64_nan
      else if is_inf x then x else if is_inf y then y
      else (let s = signed_num x * int (den y) + signed_num y * int (den x) in
        if s = 0 then with_sign (negative x \<and> negative y) 0
        else with_sign (s < 0) (f64_of_fraction (nat \<bar>s\<bar>) (den x * den y))))"

definition f64_sub :: "f64 \<Rightarrow> f64 \<Rightarrow> f64" where
  "f64_sub x y = f64_add x (f64_neg y)"

definition f64_mul :: "f64 \<Rightarrow> f64 \<Rightarrow> f64" where
  "f64_mul x y =
     (if is_nan x \<or> is_nan y \<or> is_inf x \<and> is_zero y \<or> is_zero x \<and> is_inf y then f64_nan
      else with_sign (negative x \<noteq> negative y)
        (if is_inf x \<or> is_inf y then f64_inf else f64_of_fraction (nat \<bar>signed_num x * signed_num y\<bar>) (den x * den y)))"

definition f64_div :: "f64 \<Rightarrow> f64 \<Rightarrow> f64" where
  "f64_div x y =
     (if is_nan x \<or> is_nan y \<or> is_inf x \<and> is_inf y \<or> is_zero x \<and> is_zero y then f64_nan
      else with_sign (negative x \<noteq> negative y)
        (if is_inf x \<or> is_zero y then f64_inf else if is_inf y then 0
         else f64_of_fraction (nat \<bar>signed_num x\<bar> * den y) (nat \<bar>signed_num y\<bar> * den x)))"

definition f64_rem :: "f64 \<Rightarrow> f64 \<Rightarrow> f64" where
  "f64_rem x y =
     (if is_nan x \<or> is_nan y \<or> is_inf x \<or> is_zero y then f64_nan
      else if is_inf y then x
      else with_sign (negative x)
        (f64_of_fraction ((nat \<bar>signed_num x\<bar> * den y) mod (nat \<bar>signed_num y\<bar> * den x)) (den x * den y)))"

text \<open>The order of floats is that of their magnitudes' bit patterns, with the sign.\<close>

definition f64_rank :: "f64 \<Rightarrow> int" where
  "f64_rank x = (if negative x then - uint (f64_abs x) else uint (f64_abs x))"

definition ordering_int :: "ordering \<Rightarrow> int" where
  "ordering_int c = (case c of Less \<Rightarrow> - 1 | Equal \<Rightarrow> 0 | Greater \<Rightarrow> 1)"

definition f64_partial_cmp :: "f64 \<Rightarrow> f64 \<Rightarrow> int option" where
  "f64_partial_cmp x y = (if is_nan x \<or> is_nan y then None else Some (ordering_int (cmp (f64_rank x) (f64_rank y))))"

text \<open>\<open>f as i64\<close> truncates and saturates; NaN becomes zero.\<close>

definition f64_to_i64 :: "f64 \<Rightarrow> int" where
  "f64_to_i64 x =
     (if is_nan x then 0
      else max (- (2 ^ 63)) (min (2 ^ 63 - 1)
        (case f64_fraction (f64_abs x) of (n, d) \<Rightarrow> if negative x then - int (n div d) else int (n div d))))"

section \<open>Text\<close>

text \<open>The characters of a string, each as its encoding.\<close>

function utf8_chars :: "bytes \<Rightarrow> bytes list" where
  "utf8_chars [] = []"
| "utf8_chars (b # bs) = (b # take (utf8_width b - 1) bs) # utf8_chars (drop (utf8_width b - 1) bs)"
  by pat_completeness auto
termination
  by (relation "measure length") auto

definition whitespace :: "bytes \<Rightarrow> bool" where
  "whitespace c \<longleftrightarrow>
     (case c of
        [b] \<Rightarrow> 9 \<le> b \<and> b \<le> 13 \<or> b = 32
      | [b1, b2] \<Rightarrow> b1 = 0xC2 \<and> (b2 = 0x85 \<or> b2 = 0xA0)
      | [b1, b2, b3] \<Rightarrow>
          b1 = 0xE1 \<and> b2 = 0x9A \<and> b3 = 0x80 \<or> b1 = 0xE2 \<and> b2 = 0x80 \<and> (0x80 \<le> b3 \<and> b3 \<le> 0x8A \<or> b3 \<in> {0xA8, 0xA9, 0xAF})
          \<or> b1 = 0xE2 \<and> b2 = 0x81 \<and> b3 = 0x9F \<or> b1 = 0xE3 \<and> b2 = 0x80 \<and> b3 = 0x80
      | _ \<Rightarrow> False)"

definition trim :: "bytes \<Rightarrow> bytes" where
  "trim s = concat (rev (dropWhile whitespace (rev (dropWhile whitespace (utf8_chars s)))))"

definition parse_int :: "bytes \<Rightarrow> int option" where
  "parse_int s =
     (let (neg, ds) = (case s of b # r \<Rightarrow> if b = 45 then (True, r) else if b = 43 then (False, r) else (False, s) | [] \<Rightarrow> (False, s));
          n = (if neg then - digits_value ds else digits_value ds)
      in if ds \<noteq> [] \<and> list_all ascii_digit ds \<and> i64_range n then Some n else None)"

text \<open>The grammar of \<open>f64::from_str\<close>.\<close>

definition exponent_syntax :: "bytes \<Rightarrow> bool" where
  "exponent_syntax s \<longleftrightarrow>
     (case s of
        [] \<Rightarrow> True
      | b # r \<Rightarrow> (let ds = (if peek_byte r \<in> {Some 43, Some 45} then tl r else r) in
          (b = 101 \<or> b = 69) \<and> ds \<noteq> [] \<and> list_all ascii_digit ds))"

definition number_syntax :: "bytes \<Rightarrow> bool" where
  "number_syntax s \<longleftrightarrow>
     (let whole = takeWhile ascii_digit s; r = dropWhile ascii_digit s
      in if peek_byte r = Some 46
         then (whole \<noteq> [] \<or> takeWhile ascii_digit (tl r) \<noteq> []) \<and> exponent_syntax (dropWhile ascii_digit (tl r))
         else whole \<noteq> [] \<and> exponent_syntax r)"

definition parse_magnitude :: "bytes \<Rightarrow> f64 option" where
  "parse_magnitude s =
     (if map lower_byte s \<in> {str ''inf'', str ''infinity''} then Some f64_inf
      else if map lower_byte s = str ''nan'' then Some f64_nan
      else if number_syntax s then parse_f64 s else None)"

definition parse_float :: "bytes \<Rightarrow> f64 option" where
  "parse_float s =
     (case s of
        b # r \<Rightarrow> if b = 45 then map_option (with_sign True) (parse_magnitude r)
               else if b = 43 then parse_magnitude r else parse_magnitude s
      | [] \<Rightarrow> None)"

section \<open>Values\<close>

datatype sql_value = VInt int | VFloat f64 | VText bytes | VBool bool | VNull | VFloatArray "f64 list" | VBytea bytes

datatype value_type = TyInt | TyFloat | TyText | TyBool | TyNull | TyFloatArray | TyBytea

datatype eval_error =
    Panicked | ColumnMissing bytes bool | InvalidParam nat | UnboundParam nat | CannotNegate value_type | NotNumeric value_type
  | IntegerOverflow | DivisionByZero | TextNotFloat | CannotCastTo value_type bytes | ParseFailed | UnknownCast bytes
  | NullComparison | Incomparable value_type value_type | LikeNeedsText | NoDatabase | AggregateHere bytes
  | BadRegex | BadJson | NotJson value_type | BadJsonKey value_type | BadPath value_type | BadArguments bytes | NoFunction bytes
  | BadInterval | UnknownAggregate bytes | QueryFailed bytes

type_synonym cell = "bytes option"

definition type_of :: "sql_value \<Rightarrow> value_type" where
  "type_of v =
     (case v of VInt _ \<Rightarrow> TyInt | VFloat _ \<Rightarrow> TyFloat | VText _ \<Rightarrow> TyText | VBool _ \<Rightarrow> TyBool | VNull \<Rightarrow> TyNull
      | VFloatArray _ \<Rightarrow> TyFloatArray | VBytea _ \<Rightarrow> TyBytea)"

definition float_array_text :: "f64 list \<Rightarrow> bytes" where
  "float_array_text a = str ''{'' @ text_join (str '','') (map f64_to_string a) @ str ''}''"

definition bytea_text :: "bytes \<Rightarrow> bytes" where
  "bytea_text b = [92, 120] @ concat (map hex2 b)"

definition to_wire_bytes :: "sql_value \<Rightarrow> cell" where
  "to_wire_bytes v =
     (case v of
        VNull \<Rightarrow> None | VInt n \<Rightarrow> Some (int_to_string n) | VFloat f \<Rightarrow> Some (f64_to_string f) | VText s \<Rightarrow> Some s
      | VBool b \<Rightarrow> Some (if b then str ''t'' else str ''f'') | VFloatArray a \<Rightarrow> Some (float_array_text a) | VBytea b \<Rightarrow> Some (bytea_text b))"

definition as_f64 :: "sql_value \<Rightarrow> eval_error + f64" where
  "as_f64 v = (case v of VInt n \<Rightarrow> Inr (f64_of_int n) | VFloat f \<Rightarrow> Inr f | _ \<Rightarrow> Inl (NotNumeric (type_of v)))"

definition is_truthy :: "sql_value \<Rightarrow> bool" where
  "is_truthy v =
     (case v of VBool b \<Rightarrow> b | VNull \<Rightarrow> False | VInt n \<Rightarrow> n \<noteq> 0 | VFloat f \<Rightarrow> \<not> is_zero f | VText s \<Rightarrow> s \<noteq> []
      | VFloatArray a \<Rightarrow> a \<noteq> [] | VBytea b \<Rightarrow> b \<noteq> [])"

definition from_bytes :: "cell \<Rightarrow> sql_value" where
  "from_bytes c =
     (case c of
        None \<Rightarrow> VNull
      | Some b \<Rightarrow>
          if valid_utf8 b then
            (case parse_int b of Some n \<Rightarrow> VInt n
             | None \<Rightarrow> (case parse_float b of Some f \<Rightarrow> VFloat f
                | None \<Rightarrow> if b = str ''t'' then VBool True else if b = str ''f'' then VBool False else VText b))
          else VText (from_utf8_lossy b))"

section \<open>Comparison and arithmetic\<close>

definition value_compare :: "sql_value \<Rightarrow> sql_value \<Rightarrow> eval_error + int" where
  "value_compare a b =
     (case (a, b) of
        (VNull, VNull) \<Rightarrow> Inr 0
      | (VNull, _) \<Rightarrow> Inl NullComparison
      | (_, VNull) \<Rightarrow> Inl NullComparison
      | (VInt x, VInt y) \<Rightarrow> Inr (ordering_int (cmp x y))
      | (VFloat x, VFloat y) \<Rightarrow> Inr (case f64_partial_cmp x y of Some c \<Rightarrow> c | None \<Rightarrow> 0)
      | (VInt x, VFloat y) \<Rightarrow> Inr (case f64_partial_cmp (f64_of_int x) y of Some c \<Rightarrow> c | None \<Rightarrow> 0)
      | (VFloat x, VInt y) \<Rightarrow> Inr (case f64_partial_cmp x (f64_of_int y) of Some c \<Rightarrow> c | None \<Rightarrow> 0)
      | (VText x, VText y) \<Rightarrow> Inr (ordering_int (cmp x y))
      | (VBool x, VBool y) \<Rightarrow> Inr (ordering_int (cmp x y))
      | _ \<Rightarrow> Inl (Incomparable (type_of a) (type_of b)))"

text \<open>\<open>value_compare(a, b).is_ok_and(p)\<close>\<close>

definition compares :: "(int \<Rightarrow> bool) \<Rightarrow> sql_value \<Rightarrow> sql_value \<Rightarrow> bool" where
  "compares p a b = (case value_compare a b of Inr c \<Rightarrow> p c | Inl _ \<Rightarrow> False)"

definition coerce_float :: "sql_value \<Rightarrow> eval_error + f64" where
  "coerce_float v =
     (case v of
        VInt n \<Rightarrow> Inr (f64_of_int n) | VFloat f \<Rightarrow> Inr f
      | VText s \<Rightarrow> (case parse_float s of Some f \<Rightarrow> Inr f | None \<Rightarrow> Inl TextNotFloat)
      | _ \<Rightarrow> Inl (CannotCastTo (type_of v) (str ''float'')))"

definition checked_int :: "int \<Rightarrow> eval_error + sql_value" where
  "checked_int n = (if i64_range n then Inr (VInt n) else Inl IntegerOverflow)"

text \<open>The division of the smallest integer by \<open>- 1\<close> panics in every build.\<close>

definition int_arithmetic :: "int \<Rightarrow> int \<Rightarrow> sql_op \<Rightarrow> eval_error + sql_value" where
  "int_arithmetic a b op =
     (case op of
        OAdd \<Rightarrow> checked_int (a + b) | OSub \<Rightarrow> checked_int (a - b) | OMul \<Rightarrow> checked_int (a * b)
      | ODiv \<Rightarrow> if b = 0 then Inl DivisionByZero else if a = - (2 ^ 63) \<and> b = - 1 then Inl Panicked else Inr (VInt (div_trunc a b))
      | OMod \<Rightarrow> if b = 0 then Inl DivisionByZero else if a = - (2 ^ 63) \<and> b = - 1 then Inl Panicked else Inr (VInt (rem_trunc a b))
      | _ \<Rightarrow> Inl Panicked)"

definition float_arithmetic :: "f64 \<Rightarrow> f64 \<Rightarrow> sql_op \<Rightarrow> eval_error + sql_value" where
  "float_arithmetic a b op =
     (case op of
        OAdd \<Rightarrow> Inr (VFloat (f64_add a b)) | OSub \<Rightarrow> Inr (VFloat (f64_sub a b)) | OMul \<Rightarrow> Inr (VFloat (f64_mul a b))
      | ODiv \<Rightarrow> if is_zero b then Inl DivisionByZero else Inr (VFloat (f64_div a b))
      | OMod \<Rightarrow> Inr (VFloat (f64_rem a b))
      | _ \<Rightarrow> Inl Panicked)"

definition eval_arithmetic :: "sql_value \<Rightarrow> sql_value \<Rightarrow> sql_op \<Rightarrow> eval_error + sql_value" where
  "eval_arithmetic l r op =
     (case (l, r) of
        (VInt a, VInt b) \<Rightarrow> int_arithmetic a b op
      | _ \<Rightarrow> attempt (coerce_float l) (\<lambda>a. attempt (coerce_float r) (\<lambda>b. float_arithmetic a b op)))"

section \<open>Texts, casts, intervals\<close>

definition val_to_text :: "sql_value \<Rightarrow> bytes" where
  "val_to_text v =
     (case v of
        VInt n \<Rightarrow> int_to_string n | VFloat f \<Rightarrow> f64_to_string f | VText s \<Rightarrow> s
      | VBool b \<Rightarrow> (if b then str ''true'' else str ''false'') | VNull \<Rightarrow> []
      | VFloatArray a \<Rightarrow> float_array_text a | VBytea b \<Rightarrow> bytea_text b)"

definition or_parse_failed :: "('a \<Rightarrow> sql_value) \<Rightarrow> 'a option \<Rightarrow> eval_error + sql_value" where
  "or_parse_failed f r = (case r of Some x \<Rightarrow> Inr (f x) | None \<Rightarrow> Inl ParseFailed)"

text \<open>The names of the types that can be cast to.\<close>

definition int_names :: "bytes set" where
  "int_names = {str ''int'', str ''int4'', str ''int8'', str ''integer'', str ''bigint''}"

definition float_names :: "bytes set" where
  "float_names = {str ''float'', str ''float8'', str ''real'', str ''double'', str ''double precision'', str ''numeric''}"

definition bool_names :: "bytes set" where
  "bool_names = {str ''bool'', str ''boolean''}"

definition text_names :: "bytes set" where
  "text_names = {str ''text'', str ''varchar'', str ''char''}"

definition reg_names :: "bytes set" where
  "reg_names = {str ''regclass'', str ''regproc'', str ''regtype''}"

text \<open>\<open>lower\<close> is the Unicode lower-casing of strings.\<close>

definition cast_value :: "(bytes \<Rightarrow> bytes) \<Rightarrow> sql_value \<Rightarrow> bytes \<Rightarrow> eval_error + sql_value" where
  "cast_value lower v ty =
     (let t = lower ty in
      if t \<in> int_names then
        (case v of
           VInt n \<Rightarrow> Inr (VInt n) | VFloat f \<Rightarrow> Inr (VInt (f64_to_i64 f)) | VText s \<Rightarrow> or_parse_failed VInt (parse_int (trim s))
         | VBool b \<Rightarrow> Inr (VInt (if b then 1 else 0)) | VNull \<Rightarrow> Inr VNull | _ \<Rightarrow> Inl (CannotCastTo (type_of v) (str ''int'')))
      else if t \<in> float_names then
        (case v of
           VFloat f \<Rightarrow> Inr (VFloat f) | VInt n \<Rightarrow> Inr (VFloat (f64_of_int n)) | VText s \<Rightarrow> or_parse_failed VFloat (parse_float (trim s))
         | VNull \<Rightarrow> Inr VNull | _ \<Rightarrow> Inl (CannotCastTo (type_of v) (str ''float'')))
      else if t \<in> text_names then Inr (VText (val_to_text v))
      else if t \<in> bool_names then
        (case v of
           VBool b \<Rightarrow> Inr (VBool b) | VInt n \<Rightarrow> Inr (VBool (n \<noteq> 0))
         | VText s \<Rightarrow> Inr (VBool (lower s \<in> {str ''t'', str ''true'', str ''yes'', str ''on'', str ''1''}))
         | VNull \<Rightarrow> Inr VNull | _ \<Rightarrow> Inl (CannotCastTo (type_of v) (str ''bool'')))
      else if t \<in> reg_names then Inr (VText (val_to_text v))
      else Inl (UnknownCast ty))"

definition unit_millis :: "bytes \<Rightarrow> int option" where
  "unit_millis u =
     (if u \<in> {str ''ms'', str ''millisecond''} then Some 1
      else if u \<in> {str ''s'', str ''sec'', str ''second''} then Some 1000
      else if u \<in> {str ''m'', str ''min'', str ''minute''} then Some 60000
      else if u \<in> {str ''h'', str ''hr'', str ''hour''} then Some 3600000
      else if u \<in> {str ''d'', str ''day''} then Some 86400000
      else if u \<in> {str ''w'', str ''week''} then Some (7 * 86400000)
      else if u \<in> {str ''mon'', str ''month''} then Some (30 * 86400000)
      else None)"

definition trim_end_s :: "bytes \<Rightarrow> bytes" where
  "trim_end_s s = rev (dropWhile (\<lambda>b. b = 115) (rev s))"

definition parse_interval :: "bytes \<Rightarrow> int option" where
  "parse_interval text =
     (let s = trim text; num = takeWhile ascii_digit s; unit = dropWhile ascii_digit s
      in if unit = [] then None
         else Option.bind (parse_int num) (\<lambda>n.
           map_option (\<lambda>ms. wrap_i64 (n * ms)) (unit_millis (map lower_byte (trim_end_s (trim unit))))))"

section \<open>LIKE\<close>

text \<open>\<open>like_recursive\<close> walks two positions; here it walks the two suffixes at them.\<close>

fun like_recursive :: "bytes list \<Rightarrow> bytes list \<Rightarrow> bool" where
  "like_recursive s [] = (s = [])"
| "like_recursive s (c # p) =
     (if c = [37] then list_ex (\<lambda>i. like_recursive (drop i s) p) [0..<Suc (length s)]
      else (case s of x # s' \<Rightarrow> (c = [95] \<or> x = c) \<and> like_recursive s' p | [] \<Rightarrow> False))"

definition like_match :: "bytes \<Rightarrow> bytes \<Rightarrow> bool" where
  "like_match s pattern = like_recursive (utf8_chars s) (utf8_chars pattern)"

section \<open>LIKE against its meaning\<close>

text \<open>
  What a pattern means, by rules: \<open>%\<close> stands for any sequence of characters, \<open>_\<close> for any one
  character, every other character for itself.
\<close>

inductive like_means :: "bytes list \<Rightarrow> bytes list \<Rightarrow> bool" where
  like_end: "like_means [] []"
| like_any: "like_means p s \<Longrightarrow> like_means ([37] # p) (u @ s)"
| like_one: "like_means p s \<Longrightarrow> like_means ([95] # p) (x # s)"
| like_same: "like_means p s \<Longrightarrow> c \<noteq> [37] \<Longrightarrow> c \<noteq> [95] \<Longrightarrow> like_means (c # p) (c # s)"

inductive_simps like_means_Nil: "like_means [] s"
inductive_simps like_means_Cons: "like_means (c # p) s"

lemma ex_drop_iff: "(\<exists>u v. s = u @ v \<and> P v) \<longleftrightarrow> (\<exists>i\<le>length s. P (drop i s))"
  by (metis append_eq_conv_conj append_take_drop_id length_append le_add1)

lemma like_recursive_means: "like_recursive s p \<longleftrightarrow> like_means p s"
proof (induction p arbitrary: s)
  case Nil
  show ?case by (auto simp: like_means_Nil)
next
  case (Cons c p)
  show ?case
  proof (cases "c = [37]")
    case True
    have "like_recursive s (c # p) \<longleftrightarrow> (\<exists>i\<le>length s. like_means p (drop i s))"
      using True by (auto simp: list_ex_iff Cons.IH less_Suc_eq_le simp del: upt_Suc)
    also have "\<dots> \<longleftrightarrow> (\<exists>u v. s = u @ v \<and> like_means p v)" by (rule ex_drop_iff [symmetric])
    also have "\<dots> \<longleftrightarrow> like_means (c # p) s" using True by (auto simp: like_means_Cons)
    finally show ?thesis .
  next
    case False
    then show ?thesis by (cases s) (auto simp: like_means_Cons Cons.IH)
  qed
qed

text \<open>The backtracking matcher behind \<open>LIKE\<close> accepts exactly the strings its pattern means,
  character by character over multi-byte text.\<close>

theorem like_match_means: "like_match s pattern \<longleftrightarrow> like_means (utf8_chars pattern) (utf8_chars s)"
  by (simp add: like_match_def like_recursive_means)

section \<open>Integer arithmetic\<close>

definition exact_result :: "sql_op \<Rightarrow> int \<Rightarrow> int \<Rightarrow> int" where
  "exact_result op a b =
     (case op of OAdd \<Rightarrow> a + b | OSub \<Rightarrow> a - b | OMul \<Rightarrow> a * b | ODiv \<Rightarrow> div_trunc a b | _ \<Rightarrow> rem_trunc a b)"

lemma div_trunc_range:
  assumes "i64_range a" "b \<noteq> 0" "\<not> (a = - (2 ^ 63) \<and> b = - 1)"
  shows "i64_range (div_trunc a b)"
proof (cases "\<bar>b\<bar> = 1 \<or> a = 0")
  case True
  then show ?thesis using assms by (auto simp: i64_range_def div_trunc_def abs_if sgn_if split: if_splits)
next
  case False
  then have "1 < \<bar>b\<bar>" "a \<noteq> 0" using assms(2) by auto
  then have "0 \<le> \<bar>a\<bar> div \<bar>b\<bar>" "\<bar>a\<bar> div \<bar>b\<bar> < \<bar>a\<bar>" by (simp_all add: int_div_less_self pos_imp_zdiv_nonneg_iff)
  then show ?thesis using assms(1) by (auto simp: i64_range_def div_trunc_def sgn_if)
qed

lemma rem_trunc_range: "i64_range a \<Longrightarrow> b \<noteq> 0 \<Longrightarrow> i64_range (rem_trunc a b)"
proof -
  assume a: "i64_range a" "b \<noteq> 0"
  have "0 \<le> \<bar>a\<bar> mod \<bar>b\<bar>" "\<bar>a\<bar> mod \<bar>b\<bar> \<le> \<bar>a\<bar>" using a(2) by (simp_all add: zmod_le_nonneg_dividend)
  then show ?thesis using a(1) by (auto simp: i64_range_def rem_trunc_def sgn_if)
qed

text \<open>On integers, every operator either gives the exact result or an error: overflow exactly
  when the exact result does not fit, division by zero, and the one division that panics.\<close>

theorem int_arithmetic_exact:
  assumes "i64_range a" "i64_range b" "op \<in> {OAdd, OSub, OMul, ODiv, OMod}"
  shows "eval_arithmetic (VInt a) (VInt b) op =
    (if op \<in> {ODiv, OMod} \<and> b = 0 then Inl DivisionByZero
     else if op \<in> {ODiv, OMod} \<and> a = - (2 ^ 63) \<and> b = - 1 then Inl Panicked
     else if i64_range (exact_result op a b) then Inr (VInt (exact_result op a b)) else Inl IntegerOverflow)"
  using assms div_trunc_range [of a b] rem_trunc_range [of a b]
  by (auto simp: eval_arithmetic_def int_arithmetic_def checked_int_def exact_result_def)

theorem int_arithmetic_exact_witness:
  "eval_arithmetic (VInt (- (2 ^ 63))) (VInt (- 1)) ODiv = Inl Panicked \<and> eval_arithmetic (VInt (2 ^ 62)) (VInt 2) OMul = Inl IntegerOverflow
   \<and> eval_arithmetic (VInt (- 7)) (VInt 2) OMod = Inr (VInt (- 1))"
  using int_arithmetic_exact [of "- (2 ^ 63)" "- 1" ODiv] int_arithmetic_exact [of "2 ^ 62" 2 OMul] int_arithmetic_exact [of "- 7" 2 OMod]
  by (simp add: i64_range_def exact_result_def rem_trunc_def)

section \<open>Values through text\<close>

text \<open>Rows hold the text of each value and reading a row guesses the type from the text.\<close>

lemma digits_ascii: "list_all ascii_digit ds \<Longrightarrow> b \<in> set ds \<Longrightarrow> b < 128"
  by (auto simp: list_all_iff ascii_digit_def dest!: bspec intro: le_less_trans)

lemma ascii_digit_first: "list_all ascii_digit (b # ds) \<Longrightarrow> b \<noteq> 45 \<and> b \<noteq> 43"
  by (auto simp: ascii_digit_def word_le_nat_alt)

lemma parse_int_text: "i64_range n \<Longrightarrow> parse_int (int_to_string n) = Some n"
proof -
  assume n: "i64_range n"
  obtain b ds where d: "dec_digits (nat \<bar>n\<bar>) = b # ds" using dec_digits_facts by (cases "dec_digits (nat \<bar>n\<bar>)") blast+
  then have "list_all ascii_digit (b # ds)" "digits_value (b # ds) = \<bar>n\<bar>"
    using dec_digits_facts [of "nat \<bar>n\<bar>"] by auto
  then show ?thesis
    using n d ascii_digit_first [of b ds] by (auto simp: parse_int_def int_to_string_def str_def of_char_def)
qed

lemma int_text_utf8: "valid_utf8 (int_to_string n)"
proof -
  have "\<forall>b\<in>set (int_to_string n). b < 128"
    using digits_ascii dec_digits_facts [of "nat \<bar>n\<bar>"] by (auto simp: int_to_string_def str_def of_char_def)
  then show ?thesis by (rule valid_utf8_ascii)
qed

lemma flag_texts: "str ''t'' = [116]" "str ''f'' = [102]"
  by (simp_all add: str_def of_char_def)

lemma flags_not_numbers: "parse_int [116] = None" "parse_float [116] = None" "parse_int [102] = None" "parse_float [102] = None"
  "valid_utf8 [116]" "valid_utf8 [102]"
  by (simp_all add: parse_int_def parse_float_def parse_magnitude_def number_syntax_def exponent_syntax_def ascii_digit_def
      peek_byte_def lower_byte_def str_def of_char_def utf8_step_def utf8_width_def)

definition plain_text :: "bytes \<Rightarrow> bool" where
  "plain_text s \<longleftrightarrow> valid_utf8 s \<and> parse_int s = None \<and> parse_float s = None \<and> s \<noteq> str ''t'' \<and> s \<noteq> str ''f''"

fun storable :: "sql_value \<Rightarrow> bool" where
  "storable (VInt n) = i64_range n"
| "storable (VText s) = plain_text s"
| "storable (VBool b) = True"
| "storable VNull = True"
| "storable _ = False"

lemma parse_int_range: "parse_int s = Some n \<Longrightarrow> i64_range n"
  by (auto simp: parse_int_def Let_def split: prod.splits if_splits)

lemma from_bytes_cases: "type_of (from_bytes c) \<in> {TyInt, TyFloat, TyText, TyBool, TyNull}"
  by (auto simp: from_bytes_def type_of_def split: option.splits)

text \<open>Integers, booleans, NULL and exactly those texts that do not read as one of them or as a
  float come back from a stored row as they were; no array and no byte string does.\<close>

theorem stored_value_reads_back:
  assumes "\<forall>x. v \<noteq> VFloat x" and "\<forall>s. v = VText s \<longrightarrow> valid_utf8 s"
  shows "from_bytes (to_wire_bytes v) = v \<longleftrightarrow> storable v"
proof (cases v)
  case (VInt n)
  then show ?thesis
    using parse_int_text [of n] parse_int_range int_text_utf8 [of n]
    by (auto simp: from_bytes_def to_wire_bytes_def split: option.splits if_splits)
next
  case (VText s)
  then show ?thesis using assms(2) by (auto simp: from_bytes_def to_wire_bytes_def plain_text_def split: option.splits)
next
  case (VBool b)
  then show ?thesis by (simp add: from_bytes_def to_wire_bytes_def flag_texts flags_not_numbers del: valid_utf8.simps)
next
  case (VFloatArray a)
  then show ?thesis using from_bytes_cases [of "to_wire_bytes v"] by (auto simp: type_of_def)
next
  case (VBytea b)
  then show ?thesis using from_bytes_cases [of "to_wire_bytes v"] by (auto simp: type_of_def)
qed (use assms in \<open>simp_all add: from_bytes_def to_wire_bytes_def\<close>)

lemma three_text: "str ''3'' = [51]" "parse_int [51] = Some 3" "valid_utf8 [51]" "str ''abc'' = [97, 98, 99]" "valid_utf8 [97, 98, 99]"
  by (simp_all add: str_def of_char_def parse_int_def ascii_digit_def digits_value_def i64_range_def utf8_step_def utf8_width_def)

theorem stored_value_reads_back_witness:
  "from_bytes (to_wire_bytes (VText (str ''3''))) \<noteq> VText (str ''3'') \<and> from_bytes (to_wire_bytes (VInt (- 12))) = VInt (- 12)"
  using stored_value_reads_back [of "VText (str ''3'')"] stored_value_reads_back [of "VInt (- 12)"]
  by (simp add: plain_text_def three_text i64_range_def del: valid_utf8.simps)

text \<open>A float with an integral value is stored as the text of that integer and read back as one, so
  that a division of the column truncates.\<close>

lemma f64_three: "f64_to_string 0x4008000000000000 = [51]"
proof -
  have fr: "f64_fraction 0x4008000000000000 = (6755399441055744, 2251799813685248)"
    by (simp add: f64_fraction_def Let_def)
  have bl: "bit_length 3 = 2" "bit_length (Suc 0) = 1" by (simp_all add: bit_length.simps)
  have "f64_of_fraction 3 1 = 0x4008000000000000"
    by (simp add: f64_of_fraction_def bl scaled_def round_half_even_def Let_def)
  then have "digits_at 0x4008000000000000 6755399441055744 2251799813685248 1 = Some (3, 0)"
    by (simp add: digits_at_def dec_exponent_def ten_scaled_def rounds_to_def dec_digits.simps Let_def)
  then have "first_digits 0x4008000000000000 6755399441055744 2251799813685248 [1..<18] = (3, 0)"
    by (simp add: upt_rec)
  then show ?thesis
    by (simp add: f64_to_string_def f64_magnitude_def fr dec_digits.simps Let_def)
qed

lemma stored_float_divides_as_int:
  "eval_arithmetic (from_bytes (to_wire_bytes (VFloat 0x4008000000000000))) (VInt 2) ODiv = Inr (VInt 1)"
  by (simp add: to_wire_bytes_def from_bytes_def f64_three three_text eval_arithmetic_def int_arithmetic_def div_trunc_def del: valid_utf8.simps)

text \<open>Equality is not transitive: integers meet floats after rounding, and NaN equals every number.\<close>

lemma equality_not_transitive:
  "value_compare (VInt 0) (VFloat f64_nan) = Inr 0 \<and> value_compare (VFloat f64_nan) (VInt 1) = Inr 0
   \<and> value_compare (VInt 0) (VInt 1) = Inr (- 1)"
  by (simp add: value_compare_def f64_partial_cmp_def is_nan_def f64_abs_def ordering_int_def cmp_def)

text \<open>The plural is trimmed before the unit is looked up, so that milliseconds are read as minutes
  and the bare unit of seconds is not read at all.\<close>

lemma millis_read_as_minutes:
  "parse_interval (str ''100 ms'') = Some 6000000" "parse_interval (str ''5 s'') = None"
  by code_simp+

end
