(* ===== verification/Sql_Json.thy ===== *)
theory Sql_Json
  imports Sql_Value
begin

text \<open>
  The JSON operators of the executor (\<open>executor/eval.rs\<close>): documents as \<open>serde_json\<close> has them, with
  objects as ordered maps, lookup along a path, containment and \<open>jsonb_set\<close>. Reading and writing
  the text of a document is \<open>serde_json\<close> and a parameter.
\<close>

datatype json_number = PosInt nat | NegInt int | JsonFloat f64

datatype json = JNull | JBool bool | JNumber json_number | JString bytes | JArray "json list" | JObject "(bytes \<times> json) list"

record json_lib =
  json_parse :: "bytes \<Rightarrow> json option"
  json_text :: "json \<Rightarrow> bytes"

definition json_of :: "json_lib \<Rightarrow> sql_value \<Rightarrow> eval_error + json" where
  "json_of lib v =
     (case v of
        VText s \<Rightarrow> (case json_parse lib s of Some j \<Rightarrow> Inr j | None \<Rightarrow> Inl BadJson)
      | VNull \<Rightarrow> Inr JNull
      | _ \<Rightarrow> Inl (NotJson (type_of v)))"

definition json_to_value :: "json_lib \<Rightarrow> json \<Rightarrow> bool \<Rightarrow> sql_value" where
  "json_to_value lib j as_text =
     (case j of
        JNull \<Rightarrow> VNull
      | JString s \<Rightarrow> if as_text then VText s else VText (json_text lib j)
      | _ \<Rightarrow> VText (json_text lib j))"

definition json_int :: "int \<Rightarrow> json" where
  "json_int n = JNumber (if 0 \<le> n then PosInt (nat n) else NegInt n)"

definition json_float :: "f64 \<Rightarrow> json" where
  "json_float f = (if is_nan f \<or> is_inf f then JNull else JNumber (JsonFloat f))"

definition value_to_json :: "sql_value \<Rightarrow> json" where
  "value_to_json v =
     (case v of
        VNull \<Rightarrow> JNull | VBool b \<Rightarrow> JBool b | VInt n \<Rightarrow> json_int n | VFloat f \<Rightarrow> json_float f | VText s \<Rightarrow> JString s
      | VFloatArray a \<Rightarrow> JArray (map json_float a) | VBytea b \<Rightarrow> JString (bytea_text b))"

definition at :: "'a list \<Rightarrow> nat \<Rightarrow> 'a option" where
  "at xs i = (if i < length xs then Some (xs ! i) else None)"

text \<open>\<open>idx as usize\<close> of a negative index is beyond the end of every array.\<close>

definition json_arrow :: "json_lib \<Rightarrow> sql_value \<Rightarrow> sql_value \<Rightarrow> bool \<Rightarrow> eval_error + sql_value" where
  "json_arrow lib l r as_text =
     attempt (json_of lib l) (\<lambda>doc.
     attempt (case r of
                VText key \<Rightarrow> Inr (case doc of JObject m \<Rightarrow> bt_get m key | _ \<Rightarrow> None)
              | VInt idx \<Rightarrow> Inr (case doc of JArray a \<Rightarrow> at a (nat (idx mod 2 ^ 64)) | _ \<Rightarrow> None)
              | _ \<Rightarrow> Inl (BadJsonKey (type_of r))) (\<lambda>sub.
     Inr (case sub of Some j \<Rightarrow> json_to_value lib j as_text | None \<Rightarrow> VNull)))"

fun split_on :: "byte \<Rightarrow> bytes \<Rightarrow> bytes list" where
  "split_on c [] = [[]]"
| "split_on c (b # s) = (if b = c then [] # split_on c s else (case split_on c s of w # ws \<Rightarrow> (b # w) # ws | [] \<Rightarrow> [[b]]))"

definition strip_braces :: "bytes \<Rightarrow> bytes" where
  "strip_braces s =
     (if peek_byte s = Some 123 \<and> tl s \<noteq> [] \<and> last (tl s) = 125 then butlast (tl s) else s)"

definition parse_path_literal :: "bytes \<Rightarrow> bytes list" where
  "parse_path_literal text =
     (let inner = strip_braces (trim text) in if inner = [] then [] else map trim (split_on 44 inner))"

definition parse_usize :: "bytes \<Rightarrow> nat option" where
  "parse_usize s =
     (let ds = (case s of b # r \<Rightarrow> if b = 43 then r else s | [] \<Rightarrow> s)
      in if ds \<noteq> [] \<and> list_all ascii_digit ds \<and> digits_value ds < 2 ^ 64 then Some (nat (digits_value ds)) else None)"

definition json_child :: "json \<Rightarrow> bytes \<Rightarrow> json option" where
  "json_child j seg =
     (case j of
        JObject m \<Rightarrow> bt_get m seg
      | JArray a \<Rightarrow> Option.bind (parse_usize seg) (at a)
      | _ \<Rightarrow> None)"

fun json_at_path :: "json \<Rightarrow> bytes list \<Rightarrow> json" where
  "json_at_path j [] = j"
| "json_at_path j (seg # path) = json_at_path (case json_child j seg of Some k \<Rightarrow> k | None \<Rightarrow> JNull) path"

definition json_path_arrow :: "json_lib \<Rightarrow> sql_value \<Rightarrow> sql_value \<Rightarrow> bool \<Rightarrow> eval_error + sql_value" where
  "json_path_arrow lib l r as_text =
     attempt (json_of lib l) (\<lambda>doc.
       case r of VText s \<Rightarrow> Inr (json_to_value lib (json_at_path doc (parse_path_literal s)) as_text)
       | _ \<Rightarrow> Inl (BadPath (type_of r)))"

text \<open>Equality of floats identifies the two zeros.\<close>

definition number_eq :: "json_number \<Rightarrow> json_number \<Rightarrow> bool" where
  "number_eq a b \<longleftrightarrow> (case (a, b) of (JsonFloat x, JsonFloat y) \<Rightarrow> f64_partial_cmp x y = Some 0 | _ \<Rightarrow> a = b)"

definition scalar_eq :: "json \<Rightarrow> json \<Rightarrow> bool" where
  "scalar_eq a b \<longleftrightarrow>
     (case (a, b) of
        (JNull, JNull) \<Rightarrow> True | (JBool x, JBool y) \<Rightarrow> x = y | (JNumber x, JNumber y) \<Rightarrow> number_eq x y
      | (JString x, JString y) \<Rightarrow> x = y | _ \<Rightarrow> False)"

fun json_contains :: "json \<Rightarrow> json \<Rightarrow> bool" where
  "json_contains (JObject a) (JObject b) =
     list_all (\<lambda>(k, bv). case bt_get a k of Some av \<Rightarrow> json_contains av bv | None \<Rightarrow> False) b"
| "json_contains (JArray a) (JArray b) = list_all (\<lambda>bv. list_ex (\<lambda>av. json_contains av bv) a) b"
| "json_contains a b = scalar_eq a b"

text \<open>A missing ancestor becomes an empty object before the walk goes on in it.\<close>

function json_set_path :: "json \<Rightarrow> bytes list \<Rightarrow> json \<Rightarrow> bool \<Rightarrow> json" where
  "json_set_path doc [] v create = v"
| "json_set_path doc (seg # rest) v create =
     (case doc of
        JObject m \<Rightarrow>
          if rest = [] then (if create \<or> bt_get m seg \<noteq> None then JObject (bt_insert seg v m) else doc)
          else (case bt_get m seg of
              Some sub \<Rightarrow> JObject (bt_insert seg (json_set_path sub rest v create) m)
            | None \<Rightarrow> if create then JObject (bt_insert seg (json_set_path (JObject []) rest v create) m) else doc)
      | JArray a \<Rightarrow>
          (case parse_usize seg of
             None \<Rightarrow> doc
           | Some i \<Rightarrow>
               if rest = [] then (if i < length a then JArray (a[i := v]) else if create then JArray (a @ [v]) else doc)
               else if i < length a then JArray (a[i := json_set_path (a ! i) rest v create]) else doc)
      | _ \<Rightarrow> doc)"
  by pat_completeness auto
termination
  by (relation "measure (\<lambda>(_, path, _, _). length path)") auto

section \<open>Functions\<close>

definition json_typeof :: "json \<Rightarrow> bytes" where
  "json_typeof j =
     (case j of JNull \<Rightarrow> str ''null'' | JBool _ \<Rightarrow> str ''boolean'' | JNumber _ \<Rightarrow> str ''number'' | JString _ \<Rightarrow> str ''string''
      | JArray _ \<Rightarrow> str ''array'' | JObject _ \<Rightarrow> str ''object'')"

section \<open>Setting and reading\<close>

text \<open>When the comment on \<open>json_set_path\<close> promises that a value is stored at a path: every step but the last leads
  to a child, and the last one does too or may make a new child of an object or one at the end of an array.\<close>

fun settable :: "json \<Rightarrow> bytes list \<Rightarrow> bool \<Rightarrow> bool" where
  "settable doc [] create = True"
| "settable doc (seg # rest) create =
     (case doc of
        JObject m \<Rightarrow> (case bt_get m seg of Some sub \<Rightarrow> settable sub rest create | None \<Rightarrow> create \<and> rest = [])
      | JArray a \<Rightarrow>
          (case parse_usize seg of
             Some i \<Rightarrow> if i < length a then settable (a ! i) rest create else create \<and> rest = [] \<and> i = length a
           | None \<Rightarrow> False)
      | _ \<Rightarrow> False)"


lemma at_simps [simp]: "i < length a \<Longrightarrow> at a i = Some (a ! i)" "length a \<le> i \<Longrightarrow> at a i = None"
  by (simp_all add: at_def)








text \<open>A missing ancestor is not an obstacle either: the code makes an object of it.\<close>

lemma missing_ancestor_created:
  "\<not> settable (JObject []) [[97], [98]] True \<and> json_set_path (JObject []) [[97], [98]] v True = JObject [([97], JObject [([98], v)])]"
  by (simp add: bt_get_def)

end
