(* ===== verification/Sql_Eval.thy ===== *)
theory Sql_Eval
  imports Sql_Json
begin

text \<open>
  The evaluation of SQL expressions (\<open>executor/eval.rs\<close>): row contexts, the resolution of columns,
  every expression, the scalar, time and JSON functions, and the aggregates. What the evaluator
  calls is an environment: the executor of subqueries, the functions of the geospatial, vector,
  catalogue and user-defined families, the regular expressions, \<open>serde_json\<close>, and the Unicode case
  tables. A table's schema is that of \<open>storage/mod.rs\<close>.
\<close>

section \<open>Schemas\<close>

datatype column_type =
    CInt8 | CInt4 | CInt2 | CFloat8 | CFloat4 | CText | CBool | CTimestamp | CDate | CJson | CBytea | CGeometry | CGeography
  | CVector | CRaster | CFloat8Array

definition type_oid :: "column_type \<Rightarrow> int" where
  "type_oid t =
     (case t of
        CInt8 \<Rightarrow> 20 | CInt4 \<Rightarrow> 23 | CInt2 \<Rightarrow> 21 | CFloat8 \<Rightarrow> 701 | CFloat4 \<Rightarrow> 700 | CText \<Rightarrow> 25 | CBool \<Rightarrow> 16 | CTimestamp \<Rightarrow> 1114
      | CDate \<Rightarrow> 1082 | CJson \<Rightarrow> 114 | CBytea \<Rightarrow> 17 | CGeometry \<Rightarrow> 25 | CGeography \<Rightarrow> 25 | CVector \<Rightarrow> 25 | CRaster \<Rightarrow> 25
      | CFloat8Array \<Rightarrow> 1022)"

definition value_oid :: "sql_value \<Rightarrow> int" where
  "value_oid v =
     (case v of VInt _ \<Rightarrow> 20 | VFloat _ \<Rightarrow> 701 | VText _ \<Rightarrow> 25 | VBool _ \<Rightarrow> 16 | VNull \<Rightarrow> 25 | VFloatArray _ \<Rightarrow> 1022 | VBytea _ \<Rightarrow> 17)"

record schema_column =
  sc_name :: bytes
  sc_type :: column_type
  sc_nullable :: bool
  sc_default :: "bytes option"
  sc_is_pk :: bool

record foreign_key =
  fk_column :: nat
  fk_ref_table :: bytes
  fk_ref_column :: bytes

record json_schema_rule =
  js_column :: bytes
  js_mode :: bytes
  js_schema :: bytes

record table_schema =
  sch_name :: bytes
  sch_columns :: "schema_column list"
  sch_pk :: "nat list"
  sch_unique :: "nat list list"
  sch_foreign_keys :: "foreign_key list"
  sch_json_schemas :: "json_schema_rule list"

section \<open>Rows and contexts\<close>

type_synonym row = "cell list"
type_synonym scope = "bytes \<times> nat \<times> nat"
type_synonym eval_result = "eval_error + sql_value"

record outer_row =
  or_schema :: "table_schema option"
  or_values :: row
  or_scopes :: "scope list"

text \<open>Results computed beforehand are keyed by the expression they belong to, which the code writes
  as its debug text.\<close>

record row_context =
  rc_values :: row
  rc_schema :: "table_schema option"
  rc_db :: bool
  rc_outer :: "outer_row list"
  rc_params :: "sql_value list"
  rc_computed :: "(sql_expr \<times> sql_value) list"
  rc_scopes :: "scope list"

record eval_env =
  ev_lower :: "bytes \<Rightarrow> bytes"
  ev_upper :: "bytes \<Rightarrow> bytes"
  ev_json :: json_lib
  ev_regex :: "bytes \<Rightarrow> bool \<Rightarrow> bytes \<Rightarrow> bool option"
  ev_select :: "select_stmt \<Rightarrow> outer_row list \<Rightarrow> sql_value list \<Rightarrow> eval_error + row list"
  ev_function :: "bool \<Rightarrow> bytes \<Rightarrow> eval_result list \<Rightarrow> eval_result"

definition empty_context :: row_context where
  "empty_context = \<lparr>rc_values = [], rc_schema = None, rc_db = False, rc_outer = [], rc_params = [], rc_computed = [], rc_scopes = []\<rparr>"

definition new_context :: "row \<Rightarrow> table_schema option \<Rightarrow> row_context" where
  "new_context values schema = empty_context\<lparr>rc_values := values, rc_schema := schema\<rparr>"

definition db_context :: "row \<Rightarrow> table_schema option \<Rightarrow> row_context" where
  "db_context values schema = (new_context values schema)\<lparr>rc_db := True\<rparr>"

definition as_outer_row :: "row_context \<Rightarrow> outer_row" where
  "as_outer_row ctx = \<lparr>or_schema = rc_schema ctx, or_values = rc_values ctx, or_scopes = rc_scopes ctx\<rparr>"

definition outer_chain :: "row_context \<Rightarrow> outer_row list" where
  "outer_chain ctx = rc_outer ctx @ [as_outer_row ctx]"

section \<open>Columns\<close>

definition position_where :: "('a \<Rightarrow> bool) \<Rightarrow> 'a list \<Rightarrow> nat option" where
  "position_where P xs = (let n = length (takeWhile (Not \<circ> P) xs) in if n < length xs then Some n else None)"

fun first_some :: "('a \<Rightarrow> 'b option) \<Rightarrow> 'a list \<Rightarrow> 'b option" where
  "first_some f [] = None"
| "first_some f (x # xs) = (case f x of Some y \<Rightarrow> Some y | None \<Rightarrow> first_some f xs)"

definition find_scope :: "scope list \<Rightarrow> bytes \<Rightarrow> (nat \<times> nat) option" where
  "find_scope scopes q = map_option snd (find (\<lambda>s. fst s = q) scopes)"

definition cell_value :: "row \<Rightarrow> nat \<Rightarrow> sql_value" where
  "cell_value values i = from_bytes (if i < length values then values ! i else None)"

definition column_position :: "table_schema \<Rightarrow> bytes \<Rightarrow> nat option" where
  "column_position schema name = position_where (\<lambda>c. sc_name c = name) (sch_columns schema)"

definition lookup_in_range :: "table_schema option \<Rightarrow> row \<Rightarrow> nat \<times> nat \<Rightarrow> bytes \<Rightarrow> sql_value option" where
  "lookup_in_range schema values rg name =
     (case (schema, rg) of
        (Some s, (a, b)) \<Rightarrow>
          if a \<le> b \<and> b \<le> length (sch_columns s)
          then map_option (\<lambda>i. cell_value values (a + i)) (position_where (\<lambda>c. sc_name c = name) (slice a b (sch_columns s)))
          else None
      | (None, _) \<Rightarrow> None)"

definition qualified_lookup :: "table_schema option \<Rightarrow> row \<Rightarrow> scope list \<Rightarrow> bytes \<Rightarrow> bytes \<Rightarrow> sql_value option" where
  "qualified_lookup schema values scopes q name =
     Option.bind (find_scope scopes q) (\<lambda>rg. lookup_in_range schema values rg name)"

definition named_lookup :: "table_schema option \<Rightarrow> row \<Rightarrow> bytes \<Rightarrow> sql_value option" where
  "named_lookup schema values name =
     Option.bind schema (\<lambda>s. map_option (cell_value values) (column_position s name))"

definition resolve_column :: "row_context \<Rightarrow> bytes option \<Rightarrow> bytes \<Rightarrow> eval_result" where
  "resolve_column ctx qualifier name =
     (let by_qualifier = Option.bind qualifier (\<lambda>q.
            case qualified_lookup (rc_schema ctx) (rc_values ctx) (rc_scopes ctx) q name of
              Some v \<Rightarrow> Some v
            | None \<Rightarrow> first_some (\<lambda>r. qualified_lookup (or_schema r) (or_values r) (or_scopes r) q name) (rev (rc_outer ctx)));
          by_name = (case named_lookup (rc_schema ctx) (rc_values ctx) name of
              Some v \<Rightarrow> Some v
            | None \<Rightarrow> first_some (\<lambda>r. named_lookup (or_schema r) (or_values r) name) (rev (rc_outer ctx)))
      in case by_qualifier of
           Some v \<Rightarrow> Inr v
         | None \<Rightarrow> (case by_name of
             Some v \<Rightarrow> Inr v
           | None \<Rightarrow> Inl (ColumnMissing name (rc_schema ctx = None \<and> rc_outer ctx = []))))"

section \<open>Operators\<close>

definition eval_literal :: "sql_literal \<Rightarrow> sql_value" where
  "eval_literal l =
     (case l of LInt n \<Rightarrow> VInt n | LFloat f \<Rightarrow> VFloat f | LText s \<Rightarrow> VText s | LBool b \<Rightarrow> VBool b | LNull \<Rightarrow> VNull
      | LFloatArray a \<Rightarrow> VFloatArray a)"

definition eval_unop :: "sql_unop \<Rightarrow> sql_value \<Rightarrow> eval_result" where
  "eval_unop op v =
     (case op of
        UNeg \<Rightarrow> (case v of VInt n \<Rightarrow> Inr (VInt (wrap_i64 (- n))) | VFloat f \<Rightarrow> Inr (VFloat (f64_neg f)) | _ \<Rightarrow> Inl (CannotNegate (type_of v)))
      | UNot \<Rightarrow> Inr (VBool (\<not> is_truthy v)))"

definition regex_op :: "eval_env \<Rightarrow> sql_value \<Rightarrow> sql_value \<Rightarrow> bool \<Rightarrow> bool \<Rightarrow> eval_result" where
  "regex_op env l r ci negated =
     (if l = VNull \<or> r = VNull then Inr VNull
      else (case ev_regex env (val_to_text r) ci (val_to_text l) of
          Some matched \<Rightarrow> Inr (VBool (if negated then \<not> matched else matched))
        | None \<Rightarrow> Inl BadRegex))"

definition contains_op :: "eval_env \<Rightarrow> sql_value \<Rightarrow> sql_value \<Rightarrow> eval_result" where
  "contains_op env l r =
     attempt (json_of (ev_json env) l) (\<lambda>a. attempt (json_of (ev_json env) r) (\<lambda>b. Inr (VBool (json_contains a b))))"

text \<open>The operators that evaluate both operands.\<close>

definition strict_op :: "eval_env \<Rightarrow> sql_op \<Rightarrow> sql_value \<Rightarrow> sql_value \<Rightarrow> eval_result" where
  "strict_op env op l r =
     (case op of
        OConcat \<Rightarrow> Inr (VText (val_to_text l @ val_to_text r))
      | OEq \<Rightarrow> Inr (VBool (compares (\<lambda>c. c = 0) l r)) | ONotEq \<Rightarrow> Inr (VBool (compares (\<lambda>c. c \<noteq> 0) l r))
      | OLt \<Rightarrow> Inr (VBool (compares (\<lambda>c. c < 0) l r)) | OLte \<Rightarrow> Inr (VBool (compares (\<lambda>c. c \<le> 0) l r))
      | OGt \<Rightarrow> Inr (VBool (compares (\<lambda>c. c > 0) l r)) | OGte \<Rightarrow> Inr (VBool (compares (\<lambda>c. c \<ge> 0) l r))
      | OArrow \<Rightarrow> json_arrow (ev_json env) l r False | OLongArrow \<Rightarrow> json_arrow (ev_json env) l r True
      | OHashArrow \<Rightarrow> json_path_arrow (ev_json env) l r False | OHashLongArrow \<Rightarrow> json_path_arrow (ev_json env) l r True
      | OContains \<Rightarrow> contains_op env l r
      | ORegexMatch \<Rightarrow> regex_op env l r False False | ORegexNotMatch \<Rightarrow> regex_op env l r False True
      | ORegexMatchCI \<Rightarrow> regex_op env l r True False | ORegexNotMatchCI \<Rightarrow> regex_op env l r True True
      | OAnd \<Rightarrow> Inl Panicked | OOr \<Rightarrow> Inl Panicked
      | _ \<Rightarrow> eval_arithmetic l r op)"

definition eval_binop :: "eval_env \<Rightarrow> sql_op \<Rightarrow> eval_result \<Rightarrow> eval_result \<Rightarrow> eval_result" where
  "eval_binop env op lhs rhs =
     (case op of
        OAnd \<Rightarrow> attempt lhs (\<lambda>l. if is_truthy l then attempt rhs (\<lambda>r. Inr (VBool (is_truthy r))) else Inr (VBool False))
      | OOr \<Rightarrow> attempt lhs (\<lambda>l. if is_truthy l then Inr (VBool True) else attempt rhs (\<lambda>r. Inr (VBool (is_truthy r))))
      | _ \<Rightarrow> attempt lhs (\<lambda>l. attempt rhs (strict_op env op l)))"

definition flip :: "bool \<Rightarrow> bool \<Rightarrow> sql_value" where
  "flip negated b = VBool (if negated then \<not> b else b)"

definition between_op :: "sql_value \<Rightarrow> sql_value \<Rightarrow> sql_value \<Rightarrow> bool \<Rightarrow> eval_result" where
  "between_op v lo hi negated =
     attempt (value_compare v lo) (\<lambda>c. if 0 \<le> c then attempt (value_compare v hi) (\<lambda>d. Inr (flip negated (d \<le> 0))) else Inr (flip negated False))"

definition like_op :: "sql_value \<Rightarrow> sql_value \<Rightarrow> bool \<Rightarrow> eval_result" where
  "like_op v p negated = (case (v, p) of (VText s, VText pat) \<Rightarrow> Inr (flip negated (like_match s pat)) | _ \<Rightarrow> Inl LikeNeedsText)"

fun in_exprs :: "sql_value \<Rightarrow> eval_result list \<Rightarrow> eval_error + bool" where
  "in_exprs v [] = Inr False"
| "in_exprs v (r # rs) = attempt r (\<lambda>iv. if compares (\<lambda>c. c = 0) v iv then Inr True else in_exprs v rs)"

definition in_rows :: "sql_value \<Rightarrow> row list \<Rightarrow> bool" where
  "in_rows v rows = list_ex (\<lambda>r. case r of c # _ \<Rightarrow> compares (\<lambda>c. c = 0) v (from_bytes c) | [] \<Rightarrow> False) rows"

fun case_branches :: "sql_value option \<Rightarrow> (eval_result \<times> eval_result) list \<Rightarrow> eval_result \<Rightarrow> eval_result" where
  "case_branches base [] otherwise = otherwise"
| "case_branches base ((c, r) # bs) otherwise =
     attempt c (\<lambda>cv. if (case base of Some b \<Rightarrow> compares (\<lambda>c. c = 0) b cv | None \<Rightarrow> is_truthy cv) then r else case_branches base bs otherwise)"

definition run_subquery_rows :: "eval_env \<Rightarrow> row_context \<Rightarrow> select_stmt \<Rightarrow> eval_error + row list" where
  "run_subquery_rows env ctx q = (if rc_db ctx then ev_select env q (outer_chain ctx) (rc_params ctx) else Inl NoDatabase)"

definition first_cell :: "row list \<Rightarrow> sql_value" where
  "first_cell rows = (case rows of (c # _) # _ \<Rightarrow> from_bytes c | _ \<Rightarrow> VNull)"

definition eval_param :: "sql_value list \<Rightarrow> nat \<Rightarrow> eval_result" where
  "eval_param params n =
     (if n = 0 then Inl (InvalidParam n) else if n - 1 < length params then Inr (params ! (n - 1)) else Inl (UnboundParam n))"

section \<open>Functions\<close>

definition first_arg :: "bytes \<Rightarrow> eval_result list \<Rightarrow> eval_result" where
  "first_arg name args = (case args of r # _ \<Rightarrow> r | [] \<Rightarrow> Inl (BadArguments name))"

fun coalesce :: "eval_result list \<Rightarrow> eval_result" where
  "coalesce [] = Inr VNull"
| "coalesce (r # rs) = attempt r (\<lambda>v. if v \<noteq> VNull then Inr v else coalesce rs)"

definition better :: "(int \<Rightarrow> bool) \<Rightarrow> sql_value option \<Rightarrow> sql_value \<Rightarrow> sql_value option" where
  "better p best v = Some (case best of None \<Rightarrow> v | Some b \<Rightarrow> if compares p v b then v else b)"

fun extreme :: "(int \<Rightarrow> bool) \<Rightarrow> sql_value option \<Rightarrow> eval_result list \<Rightarrow> eval_result" where
  "extreme p best [] = Inr (case best of Some v \<Rightarrow> v | None \<Rightarrow> VNull)"
| "extreme p best (r # rs) = attempt r (\<lambda>v. extreme p (if v = VNull then best else better p best v) rs)"

definition numeric_function :: "bytes \<Rightarrow> eval_result list \<Rightarrow> eval_result" where
  "numeric_function name args =
     attempt (first_arg name args) (\<lambda>v.
       case v of VInt n \<Rightarrow> Inr (VInt (wrap_i64 \<bar>n\<bar>)) | VFloat f \<Rightarrow> Inr (VFloat (f64_abs f)) | _ \<Rightarrow> Inl (BadArguments name))"

definition text_function :: "bytes \<Rightarrow> (bytes \<Rightarrow> sql_value) \<Rightarrow> eval_result list \<Rightarrow> eval_result" where
  "text_function name f args = attempt (first_arg name args) (\<lambda>v. case v of VText s \<Rightarrow> Inr (f s) | _ \<Rightarrow> Inl (BadArguments name))"

definition pg_sleep :: "eval_result list \<Rightarrow> eval_result" where
  "pg_sleep args = (case args of r # _ \<Rightarrow> attempt r (\<lambda>v. attempt (as_f64 v) (\<lambda>_. Inr VNull)) | [] \<Rightarrow> Inr VNull)"

definition nullif :: "eval_result list \<Rightarrow> eval_result" where
  "nullif args =
     (case args of
        [ra, rb] \<Rightarrow> attempt ra (\<lambda>a. attempt rb (\<lambda>b. Inr (if compares (\<lambda>c. c = 0) a b then VNull else a)))
      | _ \<Rightarrow> Inl (BadArguments (str ''nullif'')))"

definition interval_arg :: "sql_value \<Rightarrow> eval_error + int" where
  "interval_arg v = (case v of VText s \<Rightarrow> (case parse_interval s of Some n \<Rightarrow> Inr n | None \<Rightarrow> Inl BadInterval) | _ \<Rightarrow> Inl BadInterval)"

definition timestamp_arg :: "sql_value \<Rightarrow> eval_error + int" where
  "timestamp_arg v = (case v of VInt n \<Rightarrow> Inr n | VFloat f \<Rightarrow> Inr (f64_to_i64 f) | _ \<Rightarrow> Inl (NotNumeric (type_of v)))"

definition bucket_start :: "int \<Rightarrow> int \<Rightarrow> eval_error + int" where
  "bucket_start interval ts =
     (if interval = 0 \<or> ts = - (2 ^ 63) \<and> interval = - 1 then Inl Panicked else Inr (wrap_i64 (i64_div_euclid ts interval * interval)))"

definition time_bucket :: "eval_result list \<Rightarrow> eval_result" where
  "time_bucket args =
     (case args of
        [ri, rt] \<Rightarrow>
          attempt ri (\<lambda>vi. attempt (interval_arg vi) (\<lambda>i.
          attempt rt (\<lambda>vt. attempt (timestamp_arg vt) (\<lambda>t. attempt (bucket_start i t) (\<lambda>b. Inr (VInt b))))))
      | _ \<Rightarrow> Inl (BadArguments (str ''time_bucket'')))"

section \<open>JSON functions\<close>

definition json_arg :: "json_lib \<Rightarrow> eval_result \<Rightarrow> eval_error + json" where
  "json_arg lib r = attempt r (json_of lib)"

definition json_valid :: "json_lib \<Rightarrow> sql_value \<Rightarrow> bool" where
  "json_valid lib v = (case v of VText s \<Rightarrow> json_parse lib s \<noteq> None | VNull \<Rightarrow> True | _ \<Rightarrow> False)"

definition json_array_length :: "json \<Rightarrow> eval_result" where
  "json_array_length j = (case j of JArray a \<Rightarrow> Inr (VInt (int (length a))) | _ \<Rightarrow> Inl (BadArguments (str ''json_array_length'')))"

definition text_arg :: "bytes \<Rightarrow> eval_result \<Rightarrow> eval_error + bytes" where
  "text_arg name r = attempt r (\<lambda>v. case v of VText s \<Rightarrow> Inr s | _ \<Rightarrow> Inl (BadArguments name))"

definition json_extract_path :: "json_lib \<Rightarrow> bytes \<Rightarrow> bool \<Rightarrow> eval_result list \<Rightarrow> eval_result" where
  "json_extract_path lib name as_text args =
     attempt (json_arg lib (first_arg name args)) (\<lambda>doc.
     attempt (collect_results (map (text_arg name) (tl args))) (\<lambda>path. Inr (json_to_value lib (json_at_path doc path) as_text)))"

definition jsonb_set :: "json_lib \<Rightarrow> eval_result list \<Rightarrow> eval_result" where
  "jsonb_set lib args =
     (if length args < 3 \<or> 4 < length args then Inl (BadArguments (str ''jsonb_set''))
      else
        attempt (json_arg lib (args ! 0)) (\<lambda>doc.
        attempt (text_arg (str ''jsonb_set'') (args ! 1)) (\<lambda>path.
        attempt (json_arg lib (args ! 2)) (\<lambda>v.
        attempt (if length args = 4 then attempt (args ! 3) (\<lambda>c. Inr (is_truthy c)) else Inr True) (\<lambda>create.
        Inr (VText (json_text lib (json_set_path doc (parse_path_literal path) v create))))))))"

definition jsonb_contains :: "json_lib \<Rightarrow> eval_result list \<Rightarrow> eval_result" where
  "jsonb_contains lib args =
     (case args of
        [ra, rb] \<Rightarrow> attempt (json_arg lib ra) (\<lambda>a. attempt (json_arg lib rb) (\<lambda>b. Inr (VBool (json_contains a b))))
      | _ \<Rightarrow> Inl (BadArguments (str ''jsonb_contains'')))"

fun build_object :: "bytes \<Rightarrow> eval_result list \<Rightarrow> (bytes \<times> json) list \<Rightarrow> eval_error + (bytes \<times> json) list" where
  "build_object name (rk # rv # rest) m =
     attempt (text_arg name rk) (\<lambda>key. attempt rv (\<lambda>v. build_object name rest (bt_insert key (value_to_json v) m)))"
| "build_object name _ m = Inr m"

definition jsonb_build_object :: "json_lib \<Rightarrow> bytes \<Rightarrow> eval_result list \<Rightarrow> eval_result" where
  "jsonb_build_object lib name args =
     (if odd (length args) then Inl (BadArguments name)
      else attempt (build_object name args []) (\<lambda>m. Inr (VText (json_text lib (JObject m)))))"

definition json_function :: "json_lib \<Rightarrow> bytes \<Rightarrow> eval_result list \<Rightarrow> eval_result option" where
  "json_function lib n args =
     (if n \<in> {str ''json_typeof'', str ''jsonb_typeof''} then
        Some (attempt (json_arg lib (first_arg n args)) (\<lambda>doc. Inr (VText (json_typeof doc))))
      else if n \<in> {str ''json_valid'', str ''jsonb_valid''} then Some (attempt (first_arg n args) (\<lambda>v. Inr (VBool (json_valid lib v))))
      else if n \<in> {str ''json_array_length'', str ''jsonb_array_length''} then
        Some (attempt (json_arg lib (first_arg n args)) json_array_length)
      else if n \<in> {str ''json_extract_path'', str ''jsonb_extract_path''} then Some (json_extract_path lib n False args)
      else if n \<in> {str ''json_extract_path_text'', str ''jsonb_extract_path_text''} then Some (json_extract_path lib n True args)
      else if n \<in> {str ''jsonb_set'', str ''json_set''} then Some (jsonb_set lib args)
      else if n \<in> {str ''jsonb_contains'', str ''json_contains''} then Some (jsonb_contains lib args)
      else if n \<in> {str ''jsonb_build_object'', str ''json_build_object''} then Some (jsonb_build_object lib n args)
      else if n \<in> {str ''jsonb_build_array'', str ''json_build_array''} then
        Some (attempt (collect_results args) (\<lambda>vs. Inr (VText (json_text lib (JArray (map value_to_json vs))))))
      else if n \<in> {str ''to_json'', str ''to_jsonb''} then
        Some (attempt (first_arg n args) (\<lambda>v. Inr (VText (json_text lib (value_to_json v)))))
      else None)"

section \<open>The evaluator\<close>

definition strip_catalog :: "bytes \<Rightarrow> bytes" where
  "strip_catalog n = (if take 11 n = str ''pg_catalog.'' then drop 11 n else n)"

definition constant_function :: "bytes \<Rightarrow> sql_value option" where
  "constant_function n =
     (if n = str ''version'' then Some (VText (str ''TPT Keystone 0.1.0 on Rust''))
      else if n \<in> {str ''now'', str ''current_timestamp'', str ''pg_postmaster_start_time''} then Some (VText (str ''2026-06-30 00:00:00+00''))
      else if n = str ''current_date'' then Some (VText (str ''2026-06-30''))
      else if n \<in> {str ''current_user'', str ''user'', str ''session_user'', str ''current_database'', str ''current_catalog''} then
        Some (VText (str ''postgres''))
      else if n \<in> {str ''current_schema'', str ''current_schemas''} then Some (VText (str ''public''))
      else if n = str ''pg_backend_pid'' then Some (VInt 1)
      else if n = str ''pg_get_userbyid'' then Some (VText (str ''tpt''))
      else None)"

definition scalar_function :: "eval_env \<Rightarrow> bytes \<Rightarrow> eval_result list \<Rightarrow> eval_result option" where
  "scalar_function env n args =
     (if n = str ''pg_sleep'' then Some (pg_sleep args)
      else if n = str ''abs'' then Some (numeric_function n args)
      else if n = str ''upper'' then Some (text_function n (\<lambda>s. VText (ev_upper env s)) args)
      else if n = str ''lower'' then Some (text_function n (\<lambda>s. VText (ev_lower env s)) args)
      else if n \<in> {str ''length'', str ''char_length'', str ''character_length''} then
        Some (text_function n (\<lambda>s. VInt (int (length (utf8_chars s)))) args)
      else if n = str ''coalesce'' then Some (coalesce args)
      else if n = str ''nullif'' then Some (nullif args)
      else if n = str ''greatest'' then Some (extreme (\<lambda>c. c > 0) None args)
      else if n = str ''least'' then Some (extreme (\<lambda>c. c < 0) None args)
      else if n = str ''time_bucket'' then Some (time_bucket args)
      else None)"

definition eval_function :: "eval_env \<Rightarrow> bool \<Rightarrow> bytes \<Rightarrow> eval_result list \<Rightarrow> eval_result" where
  "eval_function env db name args =
     (let n = strip_catalog (ev_lower env name) in
      case constant_function n of
        Some v \<Rightarrow> Inr v
      | None \<Rightarrow> (case scalar_function env n args of
          Some r \<Rightarrow> r
        | None \<Rightarrow> (case json_function (ev_json env) n args of Some r \<Rightarrow> r | None \<Rightarrow> ev_function env db n args)))"

definition is_aggregate_name :: "eval_env \<Rightarrow> bytes \<Rightarrow> bool" where
  "is_aggregate_name env name \<longleftrightarrow> ev_lower env name \<in> {str ''count'', str ''sum'', str ''avg'', str ''min'', str ''max''}"

fun eval :: "eval_env \<Rightarrow> row_context \<Rightarrow> sql_expr \<Rightarrow> eval_result" where
  "eval env ctx (XLiteral l) = Inr (eval_literal l)"
| "eval env ctx (XIdent name) = resolve_column ctx None name"
| "eval env ctx (XQualified table col) = resolve_column ctx (Some table) col"
| "eval env ctx (XParam n) = eval_param (rc_params ctx) n"
| "eval env ctx (XUnary op e) = attempt (eval env ctx e) (eval_unop op)"
| "eval env ctx (XBinary op lhs rhs) = eval_binop env op (eval env ctx lhs) (eval env ctx rhs)"
| "eval env ctx (XIsNull e negated) = attempt (eval env ctx e) (\<lambda>v. Inr (flip negated (v = VNull)))"
| "eval env ctx (XIsTrue e negated) = attempt (eval env ctx e) (\<lambda>v. Inr (flip negated (v = VBool True)))"
| "eval env ctx (XIsFalse e negated) = attempt (eval env ctx e) (\<lambda>v. Inr (flip negated (v = VBool False)))"
| "eval env ctx (XBetween e low high negated) =
     attempt (eval env ctx e) (\<lambda>v. attempt (eval env ctx low) (\<lambda>lo. attempt (eval env ctx high) (\<lambda>hi. between_op v lo hi negated)))"
| "eval env ctx (XLike e pattern negated) =
     attempt (eval env ctx e) (\<lambda>v. attempt (eval env ctx pattern) (\<lambda>p. like_op v p negated))"
| "eval env ctx (XIn e (InExprs items) negated) =
     attempt (eval env ctx e) (\<lambda>v. attempt (in_exprs v (map (eval env ctx) items)) (\<lambda>found. Inr (flip negated found)))"
| "eval env ctx (XIn e (InSubquery q) negated) =
     attempt (eval env ctx e) (\<lambda>v. attempt (run_subquery_rows env ctx q) (\<lambda>rows. Inr (flip negated (in_rows v rows))))"
| "eval env ctx (XExists q negated) = attempt (run_subquery_rows env ctx q) (\<lambda>rows. Inr (flip negated (rows \<noteq> [])))"
| "eval env ctx (XCast e ty) = attempt (eval env ctx e) (\<lambda>v. cast_value (ev_lower env) v ty)"
| "eval env ctx (XFunction name args dist) =
     (case map_of (rc_computed ctx) (XFunction name args dist) of
        Some v \<Rightarrow> Inr v
      | None \<Rightarrow>
          if is_aggregate_name env name then Inl (AggregateHere name)
          else eval_function env (rc_db ctx) name (map (eval env ctx) args))"
| "eval env ctx (XCase operand branches otherwise) =
     attempt (case operand of Some e \<Rightarrow> attempt (eval env ctx e) (\<lambda>v. Inr (Some v)) | None \<Rightarrow> Inr None) (\<lambda>base.
       case_branches base (map (\<lambda>(c, r). (eval env ctx c, eval env ctx r)) branches)
         (case otherwise of Some e \<Rightarrow> eval env ctx e | None \<Rightarrow> Inr VNull))"
| "eval env ctx (XSubquery q) = attempt (run_subquery_rows env ctx q) (\<lambda>rows. Inr (first_cell rows))"
| "eval env ctx (XWindow func args parts order frame) =
     (case map_of (rc_computed ctx) (XWindow func args parts order frame) of
        Some v \<Rightarrow> Inr v
      | None \<Rightarrow> eval_function env (rc_db ctx) func (map (eval env ctx) args))"

definition eval_expr :: "eval_env \<Rightarrow> sql_expr \<Rightarrow> sql_value list \<Rightarrow> eval_result" where
  "eval_expr env e params = eval env (empty_context\<lparr>rc_params := params\<rparr>) e"

definition eval_expr_with_db :: "eval_env \<Rightarrow> sql_expr \<Rightarrow> sql_value list \<Rightarrow> eval_result" where
  "eval_expr_with_db env e params = eval env (empty_context\<lparr>rc_params := params, rc_db := True\<rparr>) e"

section \<open>Aggregates\<close>

text \<open>Distinct values are told apart by their debug texts, which do not show the payload of a NaN.\<close>

definition debug_float :: "f64 \<Rightarrow> f64" where
  "debug_float f = (if is_nan f then f64_nan else f)"

definition debug_key :: "sql_value \<Rightarrow> sql_value" where
  "debug_key v = (case v of VFloat f \<Rightarrow> VFloat (debug_float f) | VFloatArray a \<Rightarrow> VFloatArray (map debug_float a) | _ \<Rightarrow> v)"

fun collect_values :: "bool \<Rightarrow> sql_value list \<Rightarrow> eval_result list \<Rightarrow> eval_error + sql_value list" where
  "collect_values dist seen [] = Inr []"
| "collect_values dist seen (r # rs) =
     attempt r (\<lambda>v.
       if v = VNull \<or> dist \<and> debug_key v \<in> set seen then collect_values dist seen rs
       else attempt (collect_values dist (debug_key v # seen) rs) (\<lambda>vs. Inr (v # vs)))"

fun sum_values :: "bool \<Rightarrow> int \<Rightarrow> f64 \<Rightarrow> sql_value list \<Rightarrow> eval_result" where
  "sum_values is_float i f [] = Inr (if is_float then VFloat f else VInt i)"
| "sum_values is_float i f (v # vs) =
     (case v of
        VInt n \<Rightarrow> sum_values is_float (wrap_i64 (i + n)) (f64_add f (f64_of_int n)) vs
      | VFloat x \<Rightarrow> sum_values True i (f64_add f x) vs
      | _ \<Rightarrow> Inl (BadArguments (str ''sum'')))"

fun total_values :: "f64 \<Rightarrow> sql_value list \<Rightarrow> eval_error + f64" where
  "total_values t [] = Inr t"
| "total_values t (v # vs) =
     (case v of
        VInt n \<Rightarrow> total_values (f64_add t (f64_of_int n)) vs | VFloat x \<Rightarrow> total_values (f64_add t x) vs
      | _ \<Rightarrow> Inl (BadArguments (str ''avg'')))"

definition best_value :: "(int \<Rightarrow> bool) \<Rightarrow> sql_value list \<Rightarrow> sql_value" where
  "best_value p vs = (case foldl (better p) None vs of Some v \<Rightarrow> v | None \<Rightarrow> VNull)"

definition agg_context :: "bool \<Rightarrow> table_schema option \<Rightarrow> row \<Rightarrow> row_context" where
  "agg_context db schema r = (if db then db_context r schema else new_context r schema)"

definition reduce_values :: "bytes \<Rightarrow> sql_value list \<Rightarrow> eval_result" where
  "reduce_values n vs =
     (if n = str ''sum'' then (if vs = [] then Inr VNull else sum_values False 0 0 vs)
      else if n = str ''avg'' then
        (if vs = [] then Inr VNull else attempt (total_values 0 vs) (\<lambda>t. Inr (VFloat (f64_div t (f64_of_int (int (length vs)))))))
      else if n = str ''min'' then Inr (best_value (\<lambda>c. c < 0) vs)
      else if n = str ''max'' then Inr (best_value (\<lambda>c. c > 0) vs)
      else Inl (UnknownAggregate n))"

definition eval_aggregate ::
  "eval_env \<Rightarrow> bytes \<Rightarrow> sql_expr option \<Rightarrow> bool \<Rightarrow> row list \<Rightarrow> table_schema option \<Rightarrow> bool \<Rightarrow> eval_result" where
  "eval_aggregate env name arg dist rows schema db =
     (let n = ev_lower env name; values = (\<lambda>e. collect_values dist [] (map (\<lambda>r. eval env (agg_context db schema r) e) rows))
      in if n = str ''count'' then
           (if arg = None \<or> arg = Some (XIdent (str ''*'')) then Inr (VInt (wrap_i64 (int (length rows))))
            else attempt (values (the arg)) (\<lambda>vs. Inr (VInt (wrap_i64 (int (length vs))))))
         else (case arg of
             None \<Rightarrow> Inl (BadArguments n)
           | Some e \<Rightarrow> attempt (values e) (reduce_values n)))"

section \<open>Types\<close>

text \<open>The types a value of an expression can have, from its shape alone. A column can have any of the
  five types that reading a cell gives.\<close>

abbreviation cell_types :: "value_type list" where "cell_types \<equiv> [TyInt, TyFloat, TyText, TyBool, TyNull]"
abbreviation any_type :: "value_type list" where "any_type \<equiv> cell_types @ [TyFloatArray, TyBytea]"

definition op_types :: "sql_op \<Rightarrow> value_type list \<Rightarrow> value_type list \<Rightarrow> value_type list" where
  "op_types op l r =
     (if op \<in> {OAdd, OSub, OMul, ODiv, OMod} then
        (if TyInt \<in> set l \<and> TyInt \<in> set r then [TyInt] else []) @ (if set l \<subseteq> {TyInt} \<and> set r \<subseteq> {TyInt} then [] else [TyFloat])
      else if op = OConcat then [TyText]
      else if op \<in> {OArrow, OLongArrow, OHashArrow, OHashLongArrow} then [TyText, TyNull]
      else if op \<in> {ORegexMatch, ORegexNotMatch, ORegexMatchCI, ORegexNotMatchCI} then [TyBool, TyNull]
      else [TyBool])"

definition cast_types :: "bytes \<Rightarrow> value_type list" where
  "cast_types t =
     (if t \<in> int_names then [TyInt, TyNull]
      else if t \<in> float_names then [TyFloat, TyNull]
      else if t \<in> text_names then [TyText]
      else if t \<in> bool_names then [TyBool, TyNull]
      else [TyText])"

fun expr_types :: "(bytes \<Rightarrow> bytes) \<Rightarrow> sql_expr \<Rightarrow> value_type list" where
  "expr_types lower (XLiteral l) = [type_of (eval_literal l)]"
| "expr_types lower (XIdent _) = cell_types"
| "expr_types lower (XQualified _ _) = cell_types"
| "expr_types lower (XSubquery _) = cell_types"
| "expr_types lower (XUnary UNeg e) = filter (\<lambda>t. t \<in> {TyInt, TyFloat}) (expr_types lower e)"
| "expr_types lower (XBinary op l r) = op_types op (expr_types lower l) (expr_types lower r)"
| "expr_types lower (XCast _ ty) = cast_types (lower ty)"
| "expr_types lower (XCase _ branches otherwise) =
     concat (map (\<lambda>(c, r). expr_types lower r) branches) @ (case otherwise of Some e \<Rightarrow> expr_types lower e | None \<Rightarrow> [TyNull])"
| "expr_types lower (XParam _) = any_type"
| "expr_types lower (XFunction _ _ _) = any_type"
| "expr_types lower (XWindow _ _ _ _ _) = any_type"
| "expr_types lower _ = [TyBool]"

lemma type_of_simps [simp]:
  "type_of (VInt n) = TyInt" "type_of (VFloat f) = TyFloat" "type_of (VText s) = TyText" "type_of (VBool b) = TyBool"
  "type_of VNull = TyNull" "type_of (VFloatArray a) = TyFloatArray" "type_of (VBytea bs) = TyBytea"
  by (simp_all add: type_of_def)

lemma any_type_all: "t \<in> set any_type"
  by (cases t) simp_all

lemma cell_types_from_bytes: "type_of (from_bytes c) \<in> set cell_types"
  using from_bytes_cases [of c] by simp

lemma first_cell_type: "type_of (first_cell rows) \<in> set cell_types"
  using cell_types_from_bytes [of "hd (hd rows)"] by (cases rows; cases "hd rows") (simp_all add: first_cell_def)

lemma first_some_Some: "first_some f xs = Some y \<Longrightarrow> \<exists>x\<in>set xs. f x = Some y"
  by (induction xs) (auto split: option.splits)

lemma qualified_lookup_cell: "qualified_lookup s vs sc q n = Some v \<Longrightarrow> \<exists>c. v = from_bytes c"
  by (auto simp: qualified_lookup_def lookup_in_range_def cell_value_def Option.bind_eq_Some_conv split: option.splits if_splits)

lemma named_lookup_cell: "named_lookup s vs n = Some v \<Longrightarrow> \<exists>c. v = from_bytes c"
  by (auto simp: named_lookup_def cell_value_def Option.bind_eq_Some_conv)

lemma first_some_cell: "(\<And>x v. f x = Some v \<Longrightarrow> \<exists>c. v = from_bytes c) \<Longrightarrow> first_some f xs = Some w \<Longrightarrow> \<exists>c. w = from_bytes c"
  by (blast dest: first_some_Some)

lemma resolve_column_cell:
  assumes "resolve_column ctx q name = Inr v"
  shows "type_of v \<in> set cell_types"
proof -
  define by_q where "by_q = Option.bind q (\<lambda>q.
    case qualified_lookup (rc_schema ctx) (rc_values ctx) (rc_scopes ctx) q name of
      Some v \<Rightarrow> Some v
    | None \<Rightarrow> first_some (\<lambda>r. qualified_lookup (or_schema r) (or_values r) (or_scopes r) q name) (rev (rc_outer ctx)))"
  define by_n where "by_n = (case named_lookup (rc_schema ctx) (rc_values ctx) name of
      Some v \<Rightarrow> Some v
    | None \<Rightarrow> first_some (\<lambda>r. named_lookup (or_schema r) (or_values r) name) (rev (rc_outer ctx)))"
  have "by_q = Some v \<or> by_n = Some v"
    using assms by (auto simp: resolve_column_def by_q_def [symmetric] by_n_def [symmetric] Let_def split: option.splits)
  moreover have "\<exists>c. v = from_bytes c" if "by_q = Some v"
    using that by (cases q) (auto simp: by_q_def split: option.splits dest: qualified_lookup_cell intro: first_some_cell [OF qualified_lookup_cell])
  moreover have "\<exists>c. v = from_bytes c" if "by_n = Some v"
    using that by (auto simp: by_n_def split: option.splits dest: named_lookup_cell intro: first_some_cell [OF named_lookup_cell])
  ultimately show ?thesis using cell_types_from_bytes by auto
qed

lemma attemptE: "attempt r f = Inr y \<Longrightarrow> (\<And>x. r = Inr x \<Longrightarrow> f x = Inr y \<Longrightarrow> P) \<Longrightarrow> P"
  by (auto simp: attempt_Inr_iff)

lemma int_arithmetic_type: "int_arithmetic a b op = Inr v \<Longrightarrow> type_of v = TyInt"
  by (cases op) (auto simp: int_arithmetic_def checked_int_def split: if_splits)

lemma float_arithmetic_type: "float_arithmetic a b op = Inr v \<Longrightarrow> type_of v = TyFloat"
  by (cases op) (auto simp: float_arithmetic_def split: if_splits)

lemma arithmetic_type:
  assumes "eval_arithmetic l r op = Inr v"
  shows "type_of v = (if type_of l = TyInt \<and> type_of r = TyInt then TyInt else TyFloat)"
proof (cases "\<exists>a b. l = VInt a \<and> r = VInt b")
  case True
  then show ?thesis using assms int_arithmetic_type by (auto simp: eval_arithmetic_def)
next
  case False
  then have "\<not> (type_of l = TyInt \<and> type_of r = TyInt)" by (cases l; cases r) auto
  moreover have "eval_arithmetic l r op = attempt (coerce_float l) (\<lambda>a. attempt (coerce_float r) (\<lambda>b. float_arithmetic a b op))"
    using False by (cases l; cases r) (auto simp: eval_arithmetic_def)
  moreover from calculation(2) have "attempt (coerce_float l) (\<lambda>a. attempt (coerce_float r) (\<lambda>b. float_arithmetic a b op)) = Inr v"
    using assms by simp
  then have "type_of v = TyFloat" by (elim attemptE) (rule float_arithmetic_type)
  ultimately show ?thesis by simp
qed

lemma json_to_value_type: "type_of (json_to_value lib j t) \<in> {TyText, TyNull}"
  by (cases j) (simp_all add: json_to_value_def)

lemma json_arrow_type: "json_arrow lib l r t = Inr v \<Longrightarrow> type_of v \<in> {TyText, TyNull}"
  unfolding json_arrow_def attempt_Inr_iff using json_to_value_type by (auto split: option.splits)

lemma json_path_arrow_type: "json_path_arrow lib l r t = Inr v \<Longrightarrow> type_of v \<in> {TyText, TyNull}"
  unfolding json_path_arrow_def attempt_Inr_iff using json_to_value_type by (cases r) auto

lemma regex_op_type: "regex_op env l r c n = Inr v \<Longrightarrow> type_of v \<in> {TyBool, TyNull}"
  by (auto simp: regex_op_def split: if_splits option.splits)

lemma contains_op_type: "contains_op env l r = Inr v \<Longrightarrow> type_of v = TyBool"
  by (auto simp: contains_op_def attempt_Inr_iff)

lemma strict_op_type:
  assumes "strict_op env op l r = Inr v" "type_of l \<in> set ls" "type_of r \<in> set rs"
  shows "type_of v \<in> set (op_types op ls rs)"
proof (cases "op \<in> {OAdd, OSub, OMul, ODiv, OMod}")
  case True
  then have "eval_arithmetic l r op = Inr v" using assms(1) by (auto simp: strict_op_def)
  from arithmetic_type [OF this] show ?thesis using True assms(2,3) by (auto simp: op_types_def)
next
  case False
  show ?thesis
  proof (cases "op \<in> {OArrow, OLongArrow, OHashArrow, OHashLongArrow, ORegexMatch, ORegexNotMatch, ORegexMatchCI, ORegexNotMatchCI, OContains}")
    case True
    then show ?thesis
      using assms(1) by (auto simp: strict_op_def op_types_def dest: json_arrow_type json_path_arrow_type regex_op_type contains_op_type)
  next
    case other: False
    with False show ?thesis using assms(1) by (cases op) (auto simp: strict_op_def op_types_def)
  qed
qed

lemma cast_value_type: "cast_value lower v ty = Inr w \<Longrightarrow> type_of w \<in> set (cast_types (lower ty))"
  by (cases v) (auto simp: cast_value_def cast_types_def Let_def or_parse_failed_def split: if_splits option.splits)

lemma flip_type [simp]: "type_of (flip n b) = TyBool"
  by (simp add: flip_def)

lemma between_type: "between_op v lo hi n = Inr w \<Longrightarrow> type_of w = TyBool"
  by (auto simp: between_op_def attempt_Inr_iff split: if_splits)

lemma like_type: "like_op v p n = Inr w \<Longrightarrow> type_of w = TyBool"
  by (auto simp: like_op_def split: sql_value.splits)

lemma case_branches_result: "case_branches b bs d = Inr v \<Longrightarrow> d = Inr v \<or> (\<exists>c. (c, Inr v) \<in> set bs)"
  by (induction b bs d rule: case_branches.induct) (auto simp: attempt_Inr_iff split: if_splits)

lemma binop_type:
  assumes "eval_binop env op lhs rhs = Inr v"
    and "\<And>l. lhs = Inr l \<Longrightarrow> type_of l \<in> set ls" and "\<And>r. rhs = Inr r \<Longrightarrow> type_of r \<in> set rs"
  shows "type_of v \<in> set (op_types op ls rs)"
proof (cases "op = OAnd \<or> op = OOr")
  case True
  then show ?thesis using assms(1) by (auto simp: eval_binop_def op_types_def attempt_Inr_iff split: if_splits)
next
  case False
  then have "eval_binop env op lhs rhs = attempt lhs (\<lambda>l. attempt rhs (strict_op env op l))"
    by (cases op) (simp_all add: eval_binop_def)
  then have "attempt lhs (\<lambda>l. attempt rhs (strict_op env op l)) = Inr v" using assms(1) by simp
  then obtain l r where "lhs = Inr l" "rhs = Inr r" "strict_op env op l r = Inr v" by (elim attemptE)
  then show ?thesis using assms(2,3) strict_op_type by blast
qed

lemma unop_type:
  "eval_unop UNeg v = Inr w \<Longrightarrow> type_of w = type_of v \<and> type_of v \<in> {TyInt, TyFloat}"
  "eval_unop UNot v = Inr w \<Longrightarrow> type_of w = TyBool"
  by (cases v) (auto simp: eval_unop_def)

lemma eval_type: "eval env ctx e = Inr v \<Longrightarrow> type_of v \<in> set (expr_types (ev_lower env) e)"
proof (induction env ctx e arbitrary: v rule: eval.induct)
  case (5 env ctx op e)
  then obtain x where "eval env ctx e = Inr x" "eval_unop op x = Inr v" by (auto elim!: attemptE)
  then show ?case using 5(1) unop_type by (cases op) auto
next
  case (6 env ctx op lhs rhs)
  show ?case using binop_type [OF 6(3) [unfolded eval.simps]] 6(1,2) by (simp only: expr_types.simps)
next
  case (17 env ctx operand branches otherwise)
  let ?op = "case operand of Some e \<Rightarrow> attempt (eval env ctx e) (\<lambda>v. Inr (Some v)) | None \<Rightarrow> Inr None"
  obtain base where base: "?op = Inr base"
    and run: "case_branches base (map (\<lambda>(c, r). (eval env ctx c, eval env ctx r)) branches)
      (case otherwise of Some e \<Rightarrow> eval env ctx e | None \<Rightarrow> Inr VNull) = Inr v"
    using 17(5) by (simp only: eval.simps) (elim attemptE)
  have arm: "type_of v \<in> set (expr_types (ev_lower env) r)" if "(c, r) \<in> set branches" "eval env ctx r = Inr v" for c r
    using 17(3) [OF base that(1) refl that(2)] .
  have rest: "type_of v \<in> set (expr_types (ev_lower env) e)" if "otherwise = Some e" "eval env ctx e = Inr v" for e
    using 17(4) [OF base that] .
  from case_branches_result [OF run] show ?case
    using arm rest by (cases otherwise) force+
next
  case (10 env ctx e low high negated)
  then show ?case by (auto elim!: attemptE dest: between_type)
next
  case (11 env ctx e pattern negated)
  then show ?case by (auto elim!: attemptE dest: like_type)
next
  case (15 env ctx e ty)
  then show ?case by (auto elim!: attemptE dest: cast_value_type)
next
  case (18 env ctx q)
  then show ?case using first_cell_type by (auto elim!: attemptE)
qed (use resolve_column_cell any_type_all in \<open>auto elim!: attemptE\<close>)

text \<open>C18: the value of an expression has one of the types its shape allows: predicates are booleans,
  integer operands give an integer, a column is never an array or a byte string.\<close>

theorem eval_respects_types:
  assumes "eval env ctx e = Inr v"
  shows "type_of v \<in> set (expr_types (ev_lower env) e)"
  using eval_type [OF assms] .

section \<open>Predicates and three-valued logic\<close>

text \<open>What SQL prescribes for a condition made of comparisons, \<open>IS NULL\<close>, \<open>AND\<close>, \<open>OR\<close> and
  \<open>NOT\<close>: a comparison with NULL is unknown, and a row is kept when the condition is true.\<close>

definition and3 :: "bool option \<Rightarrow> bool option \<Rightarrow> bool option" where
  "and3 a b = (if a = Some False \<or> b = Some False then Some False else if a = None \<or> b = None then None else Some True)"

definition or3 :: "bool option \<Rightarrow> bool option \<Rightarrow> bool option" where
  "or3 a b = (if a = Some True \<or> b = Some True then Some True else if a = None \<or> b = None then None else Some False)"

definition comparison :: "sql_op \<Rightarrow> (int \<Rightarrow> bool) option" where
  "comparison op =
     (case op of OEq \<Rightarrow> Some (\<lambda>c. c = 0) | ONotEq \<Rightarrow> Some (\<lambda>c. c \<noteq> 0) | OLt \<Rightarrow> Some (\<lambda>c. c < 0) | OLte \<Rightarrow> Some (\<lambda>c. c \<le> 0)
      | OGt \<Rightarrow> Some (\<lambda>c. c > 0) | OGte \<Rightarrow> Some (\<lambda>c. c \<ge> 0) | _ \<Rightarrow> None)"

definition compare3 :: "(int \<Rightarrow> bool) \<Rightarrow> eval_result \<Rightarrow> eval_result \<Rightarrow> bool option" where
  "compare3 p l r =
     (case (l, r) of (Inr a, Inr b) \<Rightarrow> if a = VNull \<or> b = VNull then None else Some (compares p a b) | _ \<Rightarrow> None)"

fun truth3 :: "eval_env \<Rightarrow> row_context \<Rightarrow> sql_expr \<Rightarrow> bool option" where
  "truth3 env ctx (XBinary op a b) =
     (if op = OAnd then and3 (truth3 env ctx a) (truth3 env ctx b)
      else if op = OOr then or3 (truth3 env ctx a) (truth3 env ctx b)
      else (case comparison op of Some p \<Rightarrow> compare3 p (eval env ctx a) (eval env ctx b) | None \<Rightarrow> None))"
| "truth3 env ctx (XUnary UNot a) = map_option Not (truth3 env ctx a)"
| "truth3 env ctx (XIsNull a negated) = (case eval env ctx a of Inr v \<Rightarrow> Some (negated \<noteq> (v = VNull)) | Inl _ \<Rightarrow> None)"
| "truth3 env ctx e = None"

text \<open>Conditions without \<open>NOT\<close>, no comparison of which has NULL on both sides.\<close>

fun positive :: "eval_env \<Rightarrow> row_context \<Rightarrow> sql_expr \<Rightarrow> bool" where
  "positive env ctx (XBinary op a b) =
     (if op = OAnd \<or> op = OOr then positive env ctx a \<and> positive env ctx b
      else comparison op \<noteq> None \<and> \<not> (eval env ctx a = Inr VNull \<and> eval env ctx b = Inr VNull))"
| "positive env ctx (XIsNull a negated) = True"
| "positive env ctx e = False"

lemma comparison_strict: "comparison op = Some p \<Longrightarrow> strict_op env op l r = Inr (VBool (compares p l r))"
  by (cases op) (auto simp: comparison_def strict_op_def)

lemma compares_null: "(a = VNull) \<noteq> (b = VNull) \<Longrightarrow> \<not> compares p a b"
  by (cases a; cases b) (auto simp: compares_def value_compare_def)

lemma compare_truth:
  assumes "comparison op = Some p" "\<not> (lhs = Inr VNull \<and> rhs = Inr VNull)" "eval_binop env op lhs rhs = Inr v"
  shows "is_truthy v \<longleftrightarrow> compare3 p lhs rhs = Some True"
proof -
  have "eval_binop env op lhs rhs = attempt lhs (\<lambda>l. attempt rhs (strict_op env op l))"
    using assms(1) by (cases op) (simp_all add: eval_binop_def comparison_def)
  then have "attempt lhs (\<lambda>l. attempt rhs (strict_op env op l)) = Inr v" using assms(3) by simp
  then obtain l r where lr: "lhs = Inr l" "rhs = Inr r" "strict_op env op l r = Inr v" by (elim attemptE)
  then have v: "v = VBool (compares p l r)" using comparison_strict [OF assms(1)] by simp
  show ?thesis using assms(2) lr(1,2) compares_null [of l r p] by (auto simp: v compare3_def is_truthy_def)
qed

text \<open>C19: a condition built with \<open>AND\<close>, \<open>OR\<close>, comparisons and \<open>IS NULL\<close> keeps exactly the rows
  for which three-valued logic makes it true, unless a comparison meets two NULLs.\<close>

theorem where_keeps_true_rows:
  "positive env ctx e \<Longrightarrow> eval env ctx e = Inr v \<Longrightarrow> is_truthy v \<longleftrightarrow> truth3 env ctx e = Some True"
proof (induction env ctx e arbitrary: v rule: positive.induct)
  case (1 env ctx op a b)
  show ?case
  proof (cases "op = OAnd \<or> op = OOr")
    case True
    then show ?thesis
      using 1 by (auto simp: eval_binop_def and3_def or3_def is_truthy_def attempt_Inr_iff split: if_splits)
  next
    case False
    then obtain p where "comparison op = Some p" using 1(3) by auto
    then show ?thesis using compare_truth 1(3,4) False by auto
  qed
qed (auto simp: flip_def is_truthy_def attempt_Inr_iff split: if_splits)

text \<open>With \<open>NOT\<close>, or with NULL on both sides, the evaluator keeps rows that SQL does not.\<close>

lemma null_logic_differs:
  "eval env ctx (XUnary UNot (XBinary OEq (XLiteral LNull) (XLiteral (LInt 1)))) = Inr (VBool True)
   \<and> truth3 env ctx (XUnary UNot (XBinary OEq (XLiteral LNull) (XLiteral (LInt 1)))) = None"
  "eval env ctx (XBinary OEq (XLiteral LNull) (XLiteral LNull)) = Inr (VBool True)
   \<and> truth3 env ctx (XBinary OEq (XLiteral LNull) (XLiteral LNull)) = None"
  by (simp_all add: eval_binop_def strict_op_def eval_unop_def eval_literal_def compares_def value_compare_def is_truthy_def
      comparison_def compare3_def)

section \<open>Aggregates of integers\<close>

definition cell_of_int :: "int option \<Rightarrow> sql_value" where
  "cell_of_int c = (case c of Some n \<Rightarrow> VInt n | None \<Rightarrow> VNull)"

lemma collect_ints: "collect_values False seen (map (\<lambda>c. Inr (cell_of_int c)) cs) = Inr (map VInt (List.map_filter id cs))"
  by (induction cs arbitrary: seen) (auto simp: cell_of_int_def map_filter_simps split: option.splits)

lemma wrap_wrap [simp]: "wrap_i64 (wrap_i64 a + b) = wrap_i64 (a + b)"
  by (simp add: wrap_i64_def) (metis (no_types, opaque_lifting) add.assoc add.commute diff_add_cancel mod_add_left_eq)

lemma wrap_range: "i64_range (wrap_i64 n)" "i64_range n \<Longrightarrow> wrap_i64 n = n"
  by (auto simp: wrap_i64_def i64_range_def)

lemma sum_ints: "sum_values False (wrap_i64 i) f (map VInt xs) = Inr (VInt (wrap_i64 (i + sum_list xs)))"
  by (induction xs arbitrary: i f) (simp_all add: add.assoc)

lemma compares_ints: "compares p (VInt a) (VInt b) = p (ordering_int (cmp a b))"
  by (simp add: compares_def value_compare_def)

lemma ordering_int_simps: "ordering_int c < 0 \<longleftrightarrow> c = Less" "ordering_int c > 0 \<longleftrightarrow> c = Greater" "ordering_int c = 0 \<longleftrightarrow> c = Equal"
  by (cases c; simp add: ordering_int_def)+

lemma least_int: "foldl (better (\<lambda>c. c < 0)) (Some (VInt a)) (map VInt xs) = Some (VInt (Min (insert a (set xs))))"
proof (induction xs arbitrary: a)
  case (Cons x xs)
  have "better (\<lambda>c. c < 0) (Some (VInt a)) (VInt x) = Some (VInt (min a x))"
    by (auto simp: better_def compares_ints ordering_int_simps)
  moreover have "Min (insert (min a x) (set xs)) = Min (insert a (insert x (set xs)))"
    by (cases "xs = []") (simp_all add: Min_insert min.assoc)
  ultimately show ?case by (simp add: Cons.IH)
qed simp

lemma greatest_int: "foldl (better (\<lambda>c. c > 0)) (Some (VInt a)) (map VInt xs) = Some (VInt (Max (insert a (set xs))))"
proof (induction xs arbitrary: a)
  case (Cons x xs)
  have "better (\<lambda>c. c > 0) (Some (VInt a)) (VInt x) = Some (VInt (max a x))"
    by (auto simp: better_def compares_ints ordering_int_simps)
  moreover have "Max (insert (max a x) (set xs)) = Max (insert a (insert x (set xs)))"
    by (cases "xs = []") (simp_all add: Max_insert max.assoc)
  ultimately show ?case by (simp add: Cons.IH)
qed simp

lemma best_ints:
  "xs \<noteq> [] \<Longrightarrow> best_value (\<lambda>c. c < 0) (map VInt xs) = VInt (Min (set xs))"
  "xs \<noteq> [] \<Longrightarrow> best_value (\<lambda>c. c > 0) (map VInt xs) = VInt (Max (set xs))"
  "best_value p [] = VNull"
  using least_int greatest_int by (cases xs; simp add: best_value_def better_def)+

lemma aggregate_names: "str ''sum'' \<noteq> str ''count''" "str ''min'' \<noteq> str ''count''" "str ''max'' \<noteq> str ''count''"
  "str ''min'' \<noteq> str ''sum''" "str ''max'' \<noteq> str ''sum''" "str ''min'' \<noteq> str ''avg''" "str ''max'' \<noteq> str ''avg''" "str ''max'' \<noteq> str ''min''"
  by (simp_all add: str_def)

text \<open>Over a column of integers and NULLs, \<open>COUNT\<close> counts the integers, \<open>MIN\<close> and \<open>MAX\<close> are their
  extremes, and \<open>SUM\<close> is their sum with the wrap-around of 64 bits; without integers all but \<open>COUNT\<close>
  are NULL.\<close>

theorem aggregates_of_integers:
  assumes rows: "\<And>r. r \<in> set rows \<Longrightarrow> eval env (agg_context db schema r) e = Inr (cell_of_int (f r))"
    and names: "ev_lower env c = str ''count''" "ev_lower env s = str ''sum''" "ev_lower env lo = str ''min''" "ev_lower env hi = str ''max''"
    and xs: "xs = List.map_filter f rows"
    and star: "e \<noteq> XIdent (str ''*'')"
  shows "eval_aggregate env c (Some e) False rows schema db = Inr (VInt (wrap_i64 (int (length xs))))
    \<and> eval_aggregate env s (Some e) False rows schema db = Inr (if xs = [] then VNull else VInt (wrap_i64 (sum_list xs)))
    \<and> eval_aggregate env lo (Some e) False rows schema db = Inr (if xs = [] then VNull else VInt (Min (set xs)))
    \<and> eval_aggregate env hi (Some e) False rows schema db = Inr (if xs = [] then VNull else VInt (Max (set xs)))"
proof -
  have cells: "map (\<lambda>r. eval env (agg_context db schema r) e) rows = map (\<lambda>c. Inr (cell_of_int c)) (map f rows)"
    using rows by simp
  have vs: "collect_values False [] (map (\<lambda>r. eval env (agg_context db schema r) e) rows) = Inr (map VInt xs)"
    unfolding cells collect_ints by (simp add: xs map_filter_def filter_map comp_def)
  show ?thesis
    using best_ints(1,2) [of xs] sum_ints [of 0 0 xs] wrap_range(2) [of 0] best_ints(3)
    by (cases "xs = []") (simp_all add: eval_aggregate_def names vs star reduce_values_def aggregate_names aggregate_names [symmetric] Let_def i64_range_def)
qed

section \<open>Instances\<close>

definition demo_eval_env :: eval_env where
  "demo_eval_env =
     \<lparr>ev_lower = map lower_byte, ev_upper = id, ev_json = \<lparr>json_parse = \<lambda>_. None, json_text = \<lambda>_. []\<rparr>, ev_regex = \<lambda>_ _ _. None,
      ev_select = \<lambda>_ _ _. Inl NoDatabase, ev_function = \<lambda>_ n _. Inl (NoFunction n)\<rparr>"

definition demo_column :: "bytes \<Rightarrow> schema_column" where
  "demo_column n = \<lparr>sc_name = n, sc_type = CInt8, sc_nullable = True, sc_default = None, sc_is_pk = False\<rparr>"

definition demo_schema :: "bytes \<Rightarrow> bytes list \<Rightarrow> table_schema" where
  "demo_schema n cols =
     \<lparr>sch_name = n, sch_columns = map demo_column cols, sch_pk = [], sch_unique = [], sch_foreign_keys = [], sch_json_schemas = []\<rparr>"

theorem eval_respects_types_witness:
  "type_of (VInt 3) \<in> set (expr_types (ev_lower demo_eval_env) (XBinary OAdd (XLiteral (LInt 1)) (XLiteral (LInt 2))))"
  by (rule eval_respects_types [where ctx = empty_context])
    (simp add: eval_binop_def strict_op_def eval_literal_def eval_arithmetic_def int_arithmetic_def checked_int_def i64_range_def)

theorem where_keeps_true_rows_witness:
  "is_truthy (VBool True) \<longleftrightarrow>
     truth3 demo_eval_env empty_context (XBinary OOr (XBinary OLt (XLiteral LNull) (XLiteral (LInt 1))) (XIsNull (XLiteral LNull) False)) = Some True"
  by (rule where_keeps_true_rows)
    (simp_all add: comparison_def eval_binop_def strict_op_def eval_literal_def compares_def value_compare_def is_truthy_def flip_def)

lemma demo_cells: "str ''3'' = [51]" "str ''x'' = [120]" "valid_utf8 [51]" "parse_int [51] = Some 3"
  using three_text by (simp_all add: str_def of_char_def)

theorem aggregates_of_integers_witness:
  "eval_aggregate demo_eval_env (str ''SUM'') (Some (XIdent [120])) False [[Some [51]], [None], [Some [51]]] (Some (demo_schema [116] [[120]])) True
   = Inr (VInt 6)"
proof -
  have names: "map lower_byte (str ''COUNT'') = str ''count''" "map lower_byte (str ''SUM'') = str ''sum''"
    "map lower_byte (str ''MIN'') = str ''min''" "map lower_byte (str ''MAX'') = str ''max''"
    by (simp_all add: str_def of_char_def lower_byte_def)
  have env: "ev_lower demo_eval_env = map lower_byte" by (simp add: demo_eval_env_def)
  let ?f = "\<lambda>r. case r of [Some _] \<Rightarrow> Some 3 | _ \<Rightarrow> None"
  have "eval demo_eval_env (agg_context True (Some (demo_schema [116] [[120]])) r) (XIdent [120]) = Inr (cell_of_int (?f r))"
    if "r \<in> set [[Some [51]], [None], [Some [51]]]" for r
    using that demo_cells
    by (auto simp: agg_context_def db_context_def new_context_def empty_context_def resolve_column_def named_lookup_def column_position_def
        position_where_def demo_schema_def demo_column_def cell_value_def from_bytes_def cell_of_int_def Let_def simp del: valid_utf8.simps)
  moreover have "XIdent [120] \<noteq> XIdent (str ''*'')" by (simp add: str_def of_char_def)
  ultimately show ?thesis
    using aggregates_of_integers [where env = demo_eval_env and db = True and schema = "Some (demo_schema [116] [[120]])" and e = "XIdent [120]"
        and rows = "[[Some [51]], [None], [Some [51]]]" and f = ?f and c = "str ''COUNT''" and s = "str ''SUM''" and lo = "str ''MIN''"
        and hi = "str ''MAX''", OF _ _ _ _ _ refl]
    by (simp add: env names map_filter_simps wrap_i64_def)
qed

end
