(* ===== verification/Sql_Join.thy ===== *)
theory Sql_Join
  imports Sql_Eval "HOL-Library.Multiset"
begin

text \<open>
  Joins (\<open>executor/join.rs\<close>, with \<open>merge_schema\<close> of \<open>executor/mod.rs\<close>): the recognition of
  equality keys, the hash join that builds its table from the smaller side, the nested loop for every other
  condition, and the construction of rows from index pairs. The pairs of the spatial join on the
  graphics processor are a parameter. An error of an expression is swallowed where the code swallows it; a
  panic is not.
\<close>

section \<open>Schemas and keys\<close>

definition has_column :: "table_schema option \<Rightarrow> bytes \<Rightarrow> bool" where
  "has_column schema name \<longleftrightarrow> (case schema of Some s \<Rightarrow> list_ex (\<lambda>c. sc_name c = name) (sch_columns s) | None \<Rightarrow> False)"

definition merge_schema :: "table_schema option \<Rightarrow> table_schema option \<Rightarrow> table_schema option" where
  "merge_schema left right =
     (case (left, right) of
        (Some l, Some r) \<Rightarrow>
          Some \<lparr>sch_name = sch_name l @ str ''_'' @ sch_name r, sch_columns = sch_columns l @ sch_columns r, sch_pk = [],
            sch_unique = [], sch_foreign_keys = [], sch_json_schemas = []\<rparr>
      | (Some l, None) \<Rightarrow> Some l
      | (None, r) \<Rightarrow> r)"

definition width :: "table_schema option \<Rightarrow> nat" where
  "width schema = (case schema of Some s \<Rightarrow> length (sch_columns s) | None \<Rightarrow> 0)"

fun expr_only_refs :: "sql_expr \<Rightarrow> table_schema option \<Rightarrow> bool" where
  "expr_only_refs (XIdent name) schema = has_column schema name"
| "expr_only_refs (XQualified _ name) schema = has_column schema name"
| "expr_only_refs (XLiteral _) schema = True"
| "expr_only_refs (XParam _) schema = True"
| "expr_only_refs (XBinary _ lhs rhs) schema = (expr_only_refs lhs schema \<and> expr_only_refs rhs schema)"
| "expr_only_refs (XUnary _ e) schema = expr_only_refs e schema"
| "expr_only_refs (XCast e _) schema = expr_only_refs e schema"
| "expr_only_refs (XFunction _ args _) schema = list_all (\<lambda>a. expr_only_refs a schema) args"
| "expr_only_refs _ schema = False"

definition split_join_keys :: "sql_expr \<Rightarrow> table_schema option \<Rightarrow> table_schema option \<Rightarrow> (sql_expr \<times> sql_expr) option" where
  "split_join_keys on left right =
     (case on of
        XBinary op lhs rhs \<Rightarrow>
          if op \<noteq> OEq then None
          else if expr_only_refs lhs left \<and> expr_only_refs rhs right then Some (lhs, rhs)
          else if expr_only_refs rhs left \<and> expr_only_refs lhs right then Some (rhs, lhs)
          else None
      | _ \<Rightarrow> None)"

section \<open>Matching rows\<close>

text \<open>\<open>r.map(f).unwrap_or(d)\<close>: an error becomes \<open>d\<close>, a panic goes on.\<close>

definition recovered :: "'a \<Rightarrow> (sql_value \<Rightarrow> 'a) \<Rightarrow> eval_result \<Rightarrow> eval_error + 'a" where
  "recovered d f r = (case r of Inr v \<Rightarrow> Inr (f v) | Inl e \<Rightarrow> if e = Panicked then Inl Panicked else Inr d)"

definition eval_join_predicate ::
  "eval_env \<Rightarrow> sql_expr \<Rightarrow> table_schema option \<Rightarrow> scope list \<Rightarrow> row \<Rightarrow> row \<Rightarrow> eval_error + bool" where
  "eval_join_predicate env on merged scopes l r =
     recovered False is_truthy (eval env ((new_context (l @ r) merged)\<lparr>rc_scopes := scopes\<rparr>) on)"

definition join_scopes :: "scope list \<Rightarrow> bytes \<Rightarrow> nat \<Rightarrow> nat \<Rightarrow> scope list" where
  "join_scopes scopes alias left_len right_len = scopes @ [(alias, left_len, left_len + right_len)]"

definition join_key :: "eval_env \<Rightarrow> sql_expr \<Rightarrow> table_schema option \<Rightarrow> row \<Rightarrow> eval_error + cell" where
  "join_key env key schema r = recovered None to_wire_bytes (eval env (new_context r schema) key)"

fun add_rows :: "(row \<Rightarrow> eval_error + cell) \<Rightarrow> (bytes \<Rightarrow> row list) \<Rightarrow> row list \<Rightarrow> eval_error + (bytes \<Rightarrow> row list)" where
  "add_rows key table [] = Inr table"
| "add_rows key table (r # rs) =
     attempt (key r) (\<lambda>c. add_rows key (case c of Some b \<Rightarrow> table(b := table b @ [r]) | None \<Rightarrow> table) rs)"

fun probe :: "(row \<Rightarrow> eval_error + cell) \<Rightarrow> (bytes \<Rightarrow> row list) \<Rightarrow> (row \<Rightarrow> row list \<Rightarrow> row list) \<Rightarrow> row list \<Rightarrow> eval_error + row list" where
  "probe key table emit [] = Inr []"
| "probe key table emit (r # rs) =
     attempt (key r) (\<lambda>c. attempt (probe key table emit rs) (\<lambda>out. Inr (emit r (case c of Some b \<Rightarrow> table b | None \<Rightarrow> []) @ out)))"

definition hash_join ::
  "(row \<Rightarrow> eval_error + cell) \<Rightarrow> (row \<Rightarrow> eval_error + cell) \<Rightarrow> (row \<Rightarrow> row list \<Rightarrow> row list) \<Rightarrow> row list \<Rightarrow> row list \<Rightarrow> eval_error + row list" where
  "hash_join build_key probe_key emit build_rows probe_rows =
     attempt (add_rows build_key (\<lambda>_. []) build_rows) (\<lambda>table. probe probe_key table emit probe_rows)"

fun filter_rows :: "(row \<Rightarrow> eval_error + bool) \<Rightarrow> row list \<Rightarrow> eval_error + row list" where
  "filter_rows P [] = Inr []"
| "filter_rows P (r # rs) = attempt (P r) (\<lambda>b. attempt (filter_rows P rs) (\<lambda>out. Inr (if b then r # out else out)))"

fun nested_loop :: "(row \<Rightarrow> row \<Rightarrow> eval_error + bool) \<Rightarrow> (row \<Rightarrow> row list \<Rightarrow> row list) \<Rightarrow> row list \<Rightarrow> row list \<Rightarrow> eval_error + row list" where
  "nested_loop P emit [] inner = Inr []"
| "nested_loop P emit (r # rs) inner =
     attempt (filter_rows (P r) inner) (\<lambda>ms. attempt (nested_loop P emit rs inner) (\<lambda>out. Inr (emit r ms @ out)))"

text \<open>What is emitted for a row of the outer loop and its matches, for each kind of join.\<close>

definition emit_left :: "row \<Rightarrow> row list \<Rightarrow> row list" where
  "emit_left l ms = map (\<lambda>r. l @ r) ms"

definition emit_right :: "row \<Rightarrow> row list \<Rightarrow> row list" where
  "emit_right r ms = map (\<lambda>l. l @ r) ms"

definition nulls :: "nat \<Rightarrow> row" where
  "nulls n = replicate n None"

definition emit_left_outer :: "nat \<Rightarrow> row \<Rightarrow> row list \<Rightarrow> row list" where
  "emit_left_outer n l ms = (if ms = [] then [l @ nulls n] else emit_left l ms)"

definition emit_right_outer :: "nat \<Rightarrow> row \<Rightarrow> row list \<Rightarrow> row list" where
  "emit_right_outer n r ms = (if ms = [] then [nulls n @ r] else emit_right r ms)"

definition hash_equi_join ::
  "eval_env \<Rightarrow> row list \<Rightarrow> row list \<Rightarrow> sql_expr \<Rightarrow> sql_expr \<Rightarrow> table_schema option \<Rightarrow> table_schema option \<Rightarrow> eval_error + row list" where
  "hash_equi_join env left right lkey rkey ls rs =
     (if length right \<le> length left then hash_join (join_key env rkey rs) (join_key env lkey ls) emit_left right left
      else hash_join (join_key env lkey ls) (join_key env rkey rs) emit_right left right)"

section \<open>Pairs of indices\<close>

definition build_rows_from_pairs :: "(nat \<times> nat) list \<Rightarrow> row list \<Rightarrow> row list \<Rightarrow> nat \<Rightarrow> nat \<Rightarrow> bool \<Rightarrow> bool \<Rightarrow> row list" where
  "build_rows_from_pairs pairs left right right_len left_len pad_left pad_right =
     map (\<lambda>(i, j). left ! i @ right ! j) pairs
     @ (if pad_left then map (\<lambda>i. left ! i @ nulls right_len) (filter (\<lambda>i. i \<notin> fst ` set pairs) [0..<length left]) else [])
     @ (if pad_right then map (\<lambda>j. nulls left_len @ right ! j) (filter (\<lambda>j. j \<notin> snd ` set pairs) [0..<length right]) else [])"

section \<open>Joins\<close>

definition cross_join :: "row list \<Rightarrow> row list \<Rightarrow> row list" where
  "cross_join left right = concat (map (\<lambda>l. emit_left l right) left)"

text \<open>The loop over pairs of rows, for each kind of join; a full join is treated as an inner one.\<close>

definition nested_join ::
  "join_type \<Rightarrow> (row \<Rightarrow> row \<Rightarrow> eval_error + bool) \<Rightarrow> nat \<Rightarrow> nat \<Rightarrow> row list \<Rightarrow> row list \<Rightarrow> eval_error + row list" where
  "nested_join jt P left_len right_len left right =
     (case jt of
        JLeft \<Rightarrow> nested_loop P (emit_left_outer right_len) left right
      | JRight \<Rightarrow> nested_loop (\<lambda>r l. P l r) (emit_right_outer left_len) right left
      | _ \<Rightarrow> nested_loop P emit_left left right)"

definition keyed_join ::
  "eval_env \<Rightarrow> join_type \<Rightarrow> row list \<Rightarrow> row list \<Rightarrow> sql_expr \<Rightarrow> sql_expr \<Rightarrow> table_schema option \<Rightarrow> table_schema option \<Rightarrow> eval_error + row list" where
  "keyed_join env jt left right lkey rkey ls rs =
     (case jt of
        JLeft \<Rightarrow> hash_join (join_key env rkey rs) (join_key env lkey ls) (emit_left_outer (width rs)) right left
      | JRight \<Rightarrow> hash_join (join_key env lkey ls) (join_key env rkey rs) (emit_right_outer (width ls)) left right
      | _ \<Rightarrow> hash_equi_join env left right lkey rkey ls rs)"

definition unconditional_join :: "join_type \<Rightarrow> row list \<Rightarrow> row list \<Rightarrow> nat \<Rightarrow> nat \<Rightarrow> row list" where
  "unconditional_join jt left right left_len right_len =
     (case jt of
        JLeft \<Rightarrow> concat (map (\<lambda>l. emit_left_outer right_len l right) left)
      | JRight \<Rightarrow> concat (map (\<lambda>r. emit_right_outer left_len r left) right)
      | _ \<Rightarrow> cross_join left right)"

type_synonym pair_finder = "sql_expr \<Rightarrow> row list \<Rightarrow> row list \<Rightarrow> (nat \<times> nat) list option"

definition apply_join ::
  "eval_env \<Rightarrow> pair_finder \<Rightarrow> row list \<Rightarrow> row list \<Rightarrow> (sql_expr, select_stmt) join \<Rightarrow> table_schema option \<Rightarrow> table_schema option
   \<Rightarrow> scope list \<Rightarrow> bytes \<Rightarrow> eval_error + row list" where
  "apply_join env pairs left right jn ls rs scopes alias =
     (case (jn_type jn, jn_on jn) of
        (JCross, _) \<Rightarrow> Inr (cross_join left right)
      | (jt, None) \<Rightarrow> Inr (unconditional_join jt left right (width ls) (width rs))
      | (jt, Some on) \<Rightarrow>
          (case split_join_keys on ls rs of
             Some (lkey, rkey) \<Rightarrow> keyed_join env jt left right lkey rkey ls rs
           | None \<Rightarrow>
               (case pairs on left right of
                  Some ps \<Rightarrow> Inr (build_rows_from_pairs ps left right (width rs) (width ls) (jt = JLeft) (jt = JRight))
                | None \<Rightarrow>
                    nested_join jt (eval_join_predicate env on (merge_schema ls rs) (join_scopes scopes alias (width ls) (width rs)))
                      (width ls) (width rs) left right)))"

section \<open>What the loops compute\<close>

lemma add_rows_spec:
  "(\<And>r. r \<in> set rs \<Longrightarrow> key r = Inr (k r)) \<Longrightarrow> add_rows key t rs = Inr (\<lambda>b. t b @ filter (\<lambda>r. k r = Some b) rs)"
proof (induction rs arbitrary: t)
  case (Cons r rs)
  then show ?case by (auto simp: fun_eq_iff split: option.splits)
qed simp

lemma probe_spec:
  "(\<And>r. r \<in> set rs \<Longrightarrow> key r = Inr (k r)) \<Longrightarrow>
    probe key t emit rs = Inr (concat (map (\<lambda>r. emit r (case k r of Some b \<Rightarrow> t b | None \<Rightarrow> [])) rs))"
  by (induction rs) auto

definition same_key :: "cell \<Rightarrow> cell \<Rightarrow> bool" where
  "same_key a b \<longleftrightarrow> a \<noteq> None \<and> a = b"

lemma hash_join_spec:
  assumes "\<And>r. r \<in> set bs \<Longrightarrow> build_key r = Inr (kb r)" and "\<And>r. r \<in> set ps \<Longrightarrow> probe_key r = Inr (kp r)"
  shows "hash_join build_key probe_key emit bs ps = Inr (concat (map (\<lambda>r. emit r (filter (\<lambda>m. same_key (kp r) (kb m)) bs)) ps))"
proof -
  have "(case kp r of Some b \<Rightarrow> filter (\<lambda>m. kb m = Some b) bs | None \<Rightarrow> []) = filter (\<lambda>m. same_key (kp r) (kb m)) bs" for r
    by (auto simp: same_key_def split: option.splits intro!: filter_cong)
  then show ?thesis using add_rows_spec [OF assms(1)] probe_spec [OF assms(2)] by (simp add: hash_join_def)
qed

lemma filter_rows_spec: "(\<And>r. r \<in> set rs \<Longrightarrow> P r = Inr (p r)) \<Longrightarrow> filter_rows P rs = Inr (filter p rs)"
  by (induction rs) auto

lemma nested_loop_spec:
  "(\<And>r m. r \<in> set rs \<Longrightarrow> m \<in> set inner \<Longrightarrow> P r m = Inr (p r m)) \<Longrightarrow>
    nested_loop P emit rs inner = Inr (concat (map (\<lambda>r. emit r (filter (p r) inner)) rs))"
proof (induction rs)
  case (Cons r rs)
  then show ?case using filter_rows_spec [of inner "P r" "p r"] by auto
qed simp

lemma concat_emit_Cons:
  "mset (concat (map (\<lambda>r. map (\<lambda>l. l @ r) (if p r then x # f r else f r)) rs)) =
   mset (map (\<lambda>r. x @ r) (filter p rs)) + mset (concat (map (\<lambda>r. map (\<lambda>l. l @ r) (f r)) rs))"
  by (induction rs) auto

lemma loops_swap:
  "mset (concat (map (\<lambda>l. emit_left l (filter (p l) right)) left)) =
   mset (concat (map (\<lambda>r. emit_right r (filter (\<lambda>l. p l r) left)) right))"
proof (induction left)
  case Nil
  show ?case by (induction right) (simp_all add: emit_right_def)
next
  case (Cons l left)
  have "mset (concat (map (\<lambda>r. emit_right r (filter (\<lambda>l. p l r) (l # left))) right)) =
      mset (map (\<lambda>r. l @ r) (filter (p l) right)) + mset (concat (map (\<lambda>r. emit_right r (filter (\<lambda>l. p l r) left)) right))"
    using concat_emit_Cons [of "p l" l "\<lambda>r. filter (\<lambda>l. p l r) left" right] by (simp add: emit_right_def)
  then show ?case using Cons by (simp add: emit_left_def)
qed

section \<open>Keys in the joined row\<close>

lemma position_where_Some: "position_where P xs = Some i \<Longrightarrow> i < length xs \<and> P (xs ! i)"
  using nth_length_takeWhile [of "Not \<circ> P" xs] by (auto simp: position_where_def Let_def split: if_splits)

text \<open>The columns an expression refers to, and the position a reference has in a row made of several
  tables: in the scope of its qualifier if that has the column, otherwise the first of its name.\<close>

fun column_refs :: "sql_expr \<Rightarrow> (bytes option \<times> bytes) list" where
  "column_refs (XIdent name) = [(None, name)]"
| "column_refs (XQualified q name) = [(Some q, name)]"
| "column_refs (XBinary _ lhs rhs) = column_refs lhs @ column_refs rhs"
| "column_refs (XUnary _ e) = column_refs e"
| "column_refs (XCast e _) = column_refs e"
| "column_refs (XFunction _ args _) = concat (map column_refs args)"
| "column_refs _ = []"

abbreviation first_named :: "schema_column list \<Rightarrow> bytes \<Rightarrow> nat option" where
  "first_named cols name \<equiv> position_where (\<lambda>c. sc_name c = name) cols"

definition denotes :: "scope list \<Rightarrow> schema_column list \<Rightarrow> bytes option \<Rightarrow> bytes \<Rightarrow> nat option" where
  "denotes scopes cols qualifier name =
     (case Option.bind qualifier (\<lambda>q. Option.bind (find_scope scopes q) (\<lambda>(a, b).
             if a \<le> b \<and> b \<le> length cols then map_option ((+) a) (first_named (slice a b cols) name) else None)) of
        Some i \<Rightarrow> Some i
      | None \<Rightarrow> first_named cols name)"

text \<open>Every reference of an expression means a column of one table of the row, the first one there with
  its name: the table is the part \<open>own\<close> of the columns that begins at \<open>off\<close>.\<close>

definition refs_own :: "scope list \<Rightarrow> schema_column list \<Rightarrow> nat \<Rightarrow> schema_column list \<Rightarrow> sql_expr \<Rightarrow> bool" where
  "refs_own scopes cols off own e \<longleftrightarrow>
     list_all (\<lambda>(q, name). denotes scopes cols q name = map_option ((+) off) (first_named own name)) (column_refs e)"

lemma resolve_denotes:
  assumes "rc_schema ctx = Some s" and "rc_outer ctx = []"
  shows "resolve_column ctx q name =
    (case denotes (rc_scopes ctx) (sch_columns s) q name of
       Some i \<Rightarrow> Inr (cell_value (rc_values ctx) i) | None \<Rightarrow> Inl (ColumnMissing name False))"
proof -
  have "qualified_lookup (Some s) (rc_values ctx) (rc_scopes ctx) q' name =
      map_option (cell_value (rc_values ctx)) (Option.bind (find_scope (rc_scopes ctx) q') (\<lambda>(a, b).
        if a \<le> b \<and> b \<le> length (sch_columns s) then map_option ((+) a) (first_named (slice a b (sch_columns s)) name) else None))" for q'
    by (auto simp: qualified_lookup_def lookup_in_range_def map_option_bind option.map_comp o_def split: option.splits
        intro!: bind_option_cong)
  then show ?thesis
    using assms by (cases q)
      (auto simp: resolve_column_def denotes_def named_lookup_def column_position_def Let_def split: option.splits)
qed

lemma eval_agree:
  assumes "expr_only_refs e schema"
    and "\<forall>(q, name)\<in>set (column_refs e). resolve_column c1 q name = resolve_column c2 q name"
    and "rc_params c1 = rc_params c2" "rc_db c1 = rc_db c2" "rc_computed c1 = rc_computed c2"
  shows "eval env c1 e = eval env c2 e"
  using assms
proof (induction e schema rule: expr_only_refs.induct)
  case (8 name args dist schema)
  have "eval env c1 a = eval env c2 a" if "a \<in> set args" for a
    using 8(1) [OF that] 8(2-6) that by (auto simp: list_all_iff)
  then have args: "map (eval env c1) args = map (eval env c2) args" by simp
  show ?case by (simp only: eval.simps args 8(5,6))
qed simp_all

lemma merged_names:
  "merge_schema (Some sl) (Some sr) = Some s \<Longrightarrow> sch_columns s = sch_columns sl @ sch_columns sr"
  by (auto simp: merge_schema_def)

lemma new_context_simps [simp]:
  "rc_values (new_context vs sc) = vs" "rc_schema (new_context vs sc) = sc" "rc_db (new_context vs sc) = False" "rc_outer (new_context vs sc) = []"
  "rc_params (new_context vs sc) = []" "rc_computed (new_context vs sc) = []" "rc_scopes (new_context vs sc) = []"
  by (simp_all add: new_context_def empty_context_def)

lemma key_in_joined_row:
  assumes e: "expr_only_refs e (Some own)" and s: "merge_schema (Some sl) (Some sr) = Some s"
    and refs: "refs_own scopes (sch_columns sl @ sch_columns sr) off (sch_columns own) e"
    and vals: "\<And>i. i < length (sch_columns own) \<Longrightarrow> cell_value (l @ r) (off + i) = cell_value vs i"
  shows "eval env ((new_context (l @ r) (merge_schema (Some sl) (Some sr)))\<lparr>rc_scopes := scopes\<rparr>) e = eval env (new_context vs (Some own)) e"
proof (rule eval_agree [OF e], clarify)
  fix q name
  assume "(q, name) \<in> set (column_refs e)"
  then have d: "denotes scopes (sch_columns s) q name = map_option ((+) off) (first_named (sch_columns own) name)"
    using refs merged_names [OF s] by (auto simp: refs_own_def list_all_iff)
  have "denotes [] (sch_columns own) q name = first_named (sch_columns own) name"
    by (cases q) (simp_all add: denotes_def find_scope_def)
  with d vals show "resolve_column ((new_context (l @ r) (merge_schema (Some sl) (Some sr)))\<lparr>rc_scopes := scopes\<rparr>) q name
      = resolve_column (new_context vs (Some own)) q name"
    by (cases "first_named (sch_columns own) name") (auto simp: s resolve_denotes dest: position_where_Some)
qed simp_all

section \<open>Keys as bytes\<close>

lemma int_to_string_inj: "int_to_string a = int_to_string b \<Longrightarrow> a = b"
proof -
  have digits: "list_all ascii_digit (dec_digits n)" "dec_digits n \<noteq> []" "digits_value (dec_digits n) = int n" for n
    using dec_digits_facts [of n] by simp_all
  have minus: "dec_digits n \<noteq> 45 # ds" for n ds using digits(1) [of n] ascii_digit_first [of 45 ds] by auto
  have inj: "dec_digits m = dec_digits n \<Longrightarrow> m = n" for m n using digits(3) by (metis of_nat_eq_iff)
  assume "int_to_string a = int_to_string b"
  then show ?thesis
    using minus minus [symmetric] inj [of "nat \<bar>a\<bar>" "nat \<bar>b\<bar>"] by (auto simp: int_to_string_def str_def of_char_def split: if_splits)
qed

text \<open>Integers, texts and booleans are equal exactly when their bytes are.\<close>

lemma bytes_decide_equality:
  assumes "type_of v = ty" "type_of w = ty" "ty \<in> {TyInt, TyText, TyBool}"
  shows "compares (\<lambda>c. c = 0) v w \<longleftrightarrow> same_key (to_wire_bytes v) (to_wire_bytes w)"
  using assms int_to_string_inj
  by (cases v; cases w) (auto simp: compares_def value_compare_def ordering_int_simps same_key_def to_wire_bytes_def flag_texts)

lemma same_key_commute: "same_key a b \<longleftrightarrow> same_key b a"
  by (auto simp: same_key_def)

section \<open>The hash join against the nested loop\<close>

lemma keyed_predicate:
  assumes keys: "split_join_keys on (Some sl) (Some sr) = Some (lkey, rkey)"
    and refs: "refs_own scopes (sch_columns sl @ sch_columns sr) 0 (sch_columns sl) lkey"
      "refs_own scopes (sch_columns sl @ sch_columns sr) (length (sch_columns sl)) (sch_columns sr) rkey"
    and l: "length l = length (sch_columns sl)" "eval env (new_context l (Some sl)) lkey = Inr v" "type_of v = ty"
    and r: "eval env (new_context r (Some sr)) rkey = Inr w" "type_of w = ty"
    and ty: "ty \<in> {TyInt, TyText, TyBool}"
  shows "eval_join_predicate env on (merge_schema (Some sl) (Some sr)) scopes l r = Inr (same_key (to_wire_bytes v) (to_wire_bytes w))"
proof -
  let ?ctx = "(new_context (l @ r) (merge_schema (Some sl) (Some sr)))\<lparr>rc_scopes := scopes\<rparr>"
  obtain s where s: "merge_schema (Some sl) (Some sr) = Some s" by (simp add: merge_schema_def)
  obtain lhs rhs where on: "on = XBinary OEq lhs rhs"
    and sides: "(lkey, rkey) = (lhs, rhs) \<or> (lkey, rkey) = (rhs, lhs)" "expr_only_refs lkey (Some sl)" "expr_only_refs rkey (Some sr)"
    using keys by (auto simp: split_join_keys_def split: sql_expr.splits if_splits)
  have "eval env ?ctx lkey = Inr v"
    using key_in_joined_row [OF sides(2) s refs(1), of l r l] l by (simp add: cell_value_def nth_append)
  moreover have "eval env ?ctx rkey = Inr w"
    using key_in_joined_row [OF sides(3) s refs(2), of l r r] l r by (simp add: cell_value_def nth_append)
  ultimately have "eval env ?ctx on = Inr (VBool (compares (\<lambda>c. c = 0) v w)) \<or> eval env ?ctx on = Inr (VBool (compares (\<lambda>c. c = 0) w v))"
    using sides(1) by (auto simp: on eval_binop_def strict_op_def)
  then show ?thesis
    using bytes_decide_equality [OF l(3) r(2) ty] bytes_decide_equality [OF r(2) l(3) ty] same_key_commute
    by (auto simp: eval_join_predicate_def recovered_def is_truthy_def)
qed

text \<open>C17: where an equality join is answered with a hash table, its rows are those of the nested loop that
  evaluates the condition on every pair, provided the keys of all rows are integers, all texts or all
  booleans, and every column reference of the two keys means, with its qualifier in the joined row, the
  first column of its name in the table the key was assigned to (so in particular when no name occurs
  twice, or when the references are qualified by the tables' aliases). For left and right joins the rows
  come in the same order, and for inner joins (as which full joins are treated) as well unless the left
  side is the smaller one: then they are the same rows as often.\<close>

theorem hash_join_equals_nested_loop:
  assumes jn: "jn_type jn \<noteq> JCross" "jn_on jn = Some on"
    and keys: "split_join_keys on (Some sl) (Some sr) = Some (lkey, rkey)"
    and sc: "sc = join_scopes scopes alias (width (Some sl)) (width (Some sr))"
    and refs: "refs_own sc (sch_columns sl @ sch_columns sr) 0 (sch_columns sl) lkey"
      "refs_own sc (sch_columns sl @ sch_columns sr) (length (sch_columns sl)) (sch_columns sr) rkey"
    and left: "\<And>l. l \<in> set left \<Longrightarrow> length l = length (sch_columns sl) \<and> (\<exists>v. eval env (new_context l (Some sl)) lkey = Inr v \<and> type_of v = ty)"
    and right: "\<And>r. r \<in> set right \<Longrightarrow> \<exists>w. eval env (new_context r (Some sr)) rkey = Inr w \<and> type_of w = ty"
    and ty: "ty \<in> {TyInt, TyText, TyBool}"
  shows "\<exists>out out'. apply_join env pairs left right jn (Some sl) (Some sr) scopes alias = Inr out
    \<and> nested_join (jn_type jn) (eval_join_predicate env on (merge_schema (Some sl) (Some sr)) sc)
        (width (Some sl)) (width (Some sr)) left right = Inr out'
    \<and> mset out = mset out' \<and> (jn_type jn \<in> {JLeft, JRight} \<or> length right \<le> length left \<longrightarrow> out = out')"
proof -
  let ?P = "eval_join_predicate env on (merge_schema (Some sl) (Some sr)) sc"
  define kl where "kl l = (case eval env (new_context l (Some sl)) lkey of Inr v \<Rightarrow> to_wire_bytes v | Inl _ \<Rightarrow> None)" for l
  define kr where "kr r = (case eval env (new_context r (Some sr)) rkey of Inr v \<Rightarrow> to_wire_bytes v | Inl _ \<Rightarrow> None)" for r
  have lk: "join_key env lkey (Some sl) l = Inr (kl l)" if "l \<in> set left" for l
    using left [OF that] by (auto simp: join_key_def recovered_def kl_def)
  have rk: "join_key env rkey (Some sr) r = Inr (kr r)" if "r \<in> set right" for r
    using right [OF that] by (auto simp: join_key_def recovered_def kr_def)
  have P: "?P l r = Inr (same_key (kl l) (kr r))" if "l \<in> set left" "r \<in> set right" for l r
    using left [OF that(1)] right [OF that(2)] keyed_predicate [OF keys refs _ _ _ _ _ ty] by (auto simp: kl_def kr_def)
  note hash = hash_join_spec [where build_key = "join_key env rkey (Some sr)" and kb = kr and probe_key = "join_key env lkey (Some sl)" and kp = kl, OF rk lk]
    hash_join_spec [where build_key = "join_key env lkey (Some sl)" and kb = kl and probe_key = "join_key env rkey (Some sr)" and kp = kr, OF lk rk]
  note loops = nested_loop_spec [where P = ?P and p = "\<lambda>l r. same_key (kl l) (kr r)", OF P]
    nested_loop_spec [where P = "\<lambda>r l. ?P l r" and p = "\<lambda>r l. same_key (kl l) (kr r)", OF P]
  note swap = loops_swap [of "\<lambda>l r. same_key (kl l) (kr r)" right left, symmetric]
  have run: "apply_join env pairs left right jn (Some sl) (Some sr) scopes alias = keyed_join env (jn_type jn) left right lkey rkey (Some sl) (Some sr)"
    using jn keys by (cases "jn_type jn") (simp_all add: apply_join_def)
  show ?thesis
    unfolding run
    by (cases "jn_type jn")
      (auto simp: keyed_join_def nested_join_def hash_equi_join_def hash loops swap same_key_commute [of "kr _"])
qed

definition demo_on :: "sql_expr" where
  "demo_on = XBinary OEq (XQualified (str ''b'') (str ''r'')) (XQualified (str ''c'') (str ''x''))"

definition demo_join :: "join_type \<Rightarrow> (sql_expr, select_stmt) join" where
  "demo_join jt = Join jt (TableRef (str ''c'') None None None) (Some demo_on)"

lemma digit_cells: "from_bytes (Some [53]) = VInt 5" "from_bytes (Some [55]) = VInt 7"
  by (simp_all add: from_bytes_def parse_int_def ascii_digit_def digits_value_def i64_range_def utf8_step_def utf8_width_def)

lemma demo_names: "str ''a'' = [97]" "str ''b'' = [98]" "str ''c'' = [99]" "str ''r'' = [114]" "str ''x'' = [120]"
  by (simp_all add: str_def of_char_def)

lemmas demo_simps = demo_on_def demo_join_def demo_names demo_schema_def demo_column_def split_join_keys_def has_column_def
  resolve_column_def named_lookup_def column_position_def position_where_def cell_value_def digit_cells

text \<open>Two tables \<open>b\<close> and \<open>c\<close> with a column \<open>r\<close> each, joined on \<open>b.r = c.r\<close>.\<close>

definition demo_both :: "sql_expr" where
  "demo_both = XBinary OEq (XQualified (str ''b'') (str ''r'')) (XQualified (str ''c'') (str ''r''))"

definition demo_join_both :: "join_type \<Rightarrow> (sql_expr, select_stmt) join" where
  "demo_join_both jt = Join jt (TableRef (str ''c'') None None None) (Some demo_both)"

theorem hash_join_equals_nested_loop_witness:
  "\<exists>out out'. apply_join demo_eval_env (\<lambda>_ _ _. None) [[Some [53]]] [[Some [53]], [Some [55]]] (demo_join_both JLeft)
      (Some (demo_schema (str ''b'') [str ''r''])) (Some (demo_schema (str ''c'') [str ''r''])) [(str ''b'', 0, 1)] (str ''c'') = Inr out
    \<and> nested_join (jn_type (demo_join_both JLeft))
        (eval_join_predicate demo_eval_env demo_both
          (merge_schema (Some (demo_schema (str ''b'') [str ''r''])) (Some (demo_schema (str ''c'') [str ''r''])))
          [(str ''b'', 0, 1), (str ''c'', 1, 2)])
        (width (Some (demo_schema (str ''b'') [str ''r'']))) (width (Some (demo_schema (str ''c'') [str ''r''])))
        [[Some [53]]] [[Some [53]], [Some [55]]] = Inr out'
    \<and> mset out = mset out'
    \<and> (jn_type (demo_join_both JLeft) \<in> {JLeft, JRight} \<or> length [[Some [53]], [Some [55 :: byte]]] \<le> length [[Some [53 :: byte]]] \<longrightarrow> out = out')"
proof (rule hash_join_equals_nested_loop [where ty = TyInt])
  show "split_join_keys demo_both (Some (demo_schema (str ''b'') [str ''r''])) (Some (demo_schema (str ''c'') [str ''r''])) =
      Some (XQualified (str ''b'') (str ''r''), XQualified (str ''c'') (str ''r''))"
    by (simp add: demo_simps demo_both_def)
  show "refs_own [(str ''b'', 0, 1), (str ''c'', 1, 2)]
      (sch_columns (demo_schema (str ''b'') [str ''r'']) @ sch_columns (demo_schema (str ''c'') [str ''r''])) 0
      (sch_columns (demo_schema (str ''b'') [str ''r''])) (XQualified (str ''b'') (str ''r''))"
    "refs_own [(str ''b'', 0, 1), (str ''c'', 1, 2)]
      (sch_columns (demo_schema (str ''b'') [str ''r'']) @ sch_columns (demo_schema (str ''c'') [str ''r'']))
      (length (sch_columns (demo_schema (str ''b'') [str ''r''])))
      (sch_columns (demo_schema (str ''c'') [str ''r''])) (XQualified (str ''c'') (str ''r''))"
    by code_simp+
qed (auto simp: demo_simps demo_both_def demo_join_both_def join_scopes_def width_def qualified_lookup_def find_scope_def)

text \<open>The key of a hash join is evaluated without the tables' scopes. When two tables on the left have a
  column of the same name, the first one is compared, whatever the qualifier says.\<close>

lemma hash_join_ignores_qualifier:
  "apply_join demo_eval_env (\<lambda>_ _ _. None) [[Some [53], Some [55]]] [[Some [53]], [Some [55]]] (demo_join JInner)
     (Some (demo_schema (str ''ab'') [str ''r'', str ''r''])) (Some (demo_schema (str ''c'') [str ''x''])) [(str ''a'', 0, 1), (str ''b'', 1, 2)] (str ''c'')
   = Inr [[Some [53], Some [55], Some [53]]]"
  "nested_join JInner
     (eval_join_predicate demo_eval_env demo_on (merge_schema (Some (demo_schema (str ''ab'') [str ''r'', str ''r''])) (Some (demo_schema (str ''c'') [str ''x''])))
       (join_scopes [(str ''a'', 0, 1), (str ''b'', 1, 2)] (str ''c'') 2 1))
     2 1 [[Some [53], Some [55]]] [[Some [53]], [Some [55]]]
   = Inr [[Some [53], Some [55], Some [55]]]"
  by code_simp+

end
