(* ===== verification/Sql_Window.thy ===== *)
theory Sql_Window
  imports Sql_Join
begin

text \<open>
  Grouping and window functions of a query (\<open>executor/select.rs\<close>): the collection of aggregate and window
  calls, the groups of \<open>GROUP BY\<close> with \<open>HAVING\<close>, partitions, frames and every window function.
  Rows are row contexts; the results of a pass are attached to them. \<open>slice::sort_by\<close> is the stable
  insertion sort, which is what the standard library computes when the comparison is a total order;
  otherwise the library leaves the order open.
\<close>

section \<open>Sorting\<close>

fun insert_by :: "('a \<Rightarrow> 'a \<Rightarrow> ordering) \<Rightarrow> 'a \<Rightarrow> 'a list \<Rightarrow> 'a list" where
  "insert_by c x [] = [x]"
| "insert_by c x (y # ys) = (if c x y = Greater then y # insert_by c x ys else x # y # ys)"

definition sort_by :: "('a \<Rightarrow> 'a \<Rightarrow> ordering) \<Rightarrow> 'a list \<Rightarrow> 'a list" where
  "sort_by c xs = foldr (insert_by c) xs []"

section \<open>Aggregate calls\<close>

fun contains_aggregate :: "eval_env \<Rightarrow> sql_expr \<Rightarrow> bool" where
  "contains_aggregate env (XFunction name args _) = (is_aggregate_name env name \<or> list_ex (contains_aggregate env) args)"
| "contains_aggregate env (XBinary _ lhs rhs) = (contains_aggregate env lhs \<or> contains_aggregate env rhs)"
| "contains_aggregate env (XUnary _ e) = contains_aggregate env e"
| "contains_aggregate env (XIsNull e _) = contains_aggregate env e"
| "contains_aggregate env (XIsTrue e _) = contains_aggregate env e"
| "contains_aggregate env (XIsFalse e _) = contains_aggregate env e"
| "contains_aggregate env (XBetween e low high _) = (contains_aggregate env e \<or> contains_aggregate env low \<or> contains_aggregate env high)"
| "contains_aggregate env (XLike e pattern _) = (contains_aggregate env e \<or> contains_aggregate env pattern)"
| "contains_aggregate env (XIn e (InExprs items) _) = (contains_aggregate env e \<or> list_ex (contains_aggregate env) items)"
| "contains_aggregate env (XIn e (InSubquery _) _) = contains_aggregate env e"
| "contains_aggregate env (XCast e _) = contains_aggregate env e"
| "contains_aggregate env (XCase operand branches otherwise) =
     ((case operand of Some e \<Rightarrow> contains_aggregate env e | None \<Rightarrow> False)
      \<or> list_ex (\<lambda>(c, r). contains_aggregate env c \<or> contains_aggregate env r) branches
      \<or> (case otherwise of Some e \<Rightarrow> contains_aggregate env e | None \<Rightarrow> False))"
| "contains_aggregate env _ = False"

fun collect_aggregate_exprs :: "eval_env \<Rightarrow> sql_expr \<Rightarrow> sql_expr list" where
  "collect_aggregate_exprs env (XFunction name args d) =
     (if is_aggregate_name env name then [XFunction name args d] else concat (map (collect_aggregate_exprs env) args))"
| "collect_aggregate_exprs env (XBinary _ lhs rhs) = collect_aggregate_exprs env lhs @ collect_aggregate_exprs env rhs"
| "collect_aggregate_exprs env (XUnary _ e) = collect_aggregate_exprs env e"
| "collect_aggregate_exprs env (XIsNull e _) = collect_aggregate_exprs env e"
| "collect_aggregate_exprs env (XIsTrue e _) = collect_aggregate_exprs env e"
| "collect_aggregate_exprs env (XIsFalse e _) = collect_aggregate_exprs env e"
| "collect_aggregate_exprs env (XBetween e low high _) =
     collect_aggregate_exprs env e @ collect_aggregate_exprs env low @ collect_aggregate_exprs env high"
| "collect_aggregate_exprs env (XLike e pattern _) = collect_aggregate_exprs env e @ collect_aggregate_exprs env pattern"
| "collect_aggregate_exprs env (XIn e (InExprs items) _) =
     collect_aggregate_exprs env e @ concat (map (collect_aggregate_exprs env) items)"
| "collect_aggregate_exprs env (XIn e (InSubquery _) _) = collect_aggregate_exprs env e"
| "collect_aggregate_exprs env (XCast e _) = collect_aggregate_exprs env e"
| "collect_aggregate_exprs env (XCase operand branches otherwise) =
     (case operand of Some e \<Rightarrow> collect_aggregate_exprs env e | None \<Rightarrow> [])
     @ concat (map (\<lambda>(c, r). collect_aggregate_exprs env c @ collect_aggregate_exprs env r) branches)
     @ (case otherwise of Some e \<Rightarrow> collect_aggregate_exprs env e | None \<Rightarrow> [])"
| "collect_aggregate_exprs env _ = []"

fun collect_window_exprs :: "sql_expr \<Rightarrow> sql_expr list" where
  "collect_window_exprs (XWindow func args parts order frame) = [XWindow func args parts order frame]"
| "collect_window_exprs (XFunction _ args _) = concat (map collect_window_exprs args)"
| "collect_window_exprs (XBinary _ lhs rhs) = collect_window_exprs lhs @ collect_window_exprs rhs"
| "collect_window_exprs (XUnary _ e) = collect_window_exprs e"
| "collect_window_exprs (XIsNull e _) = collect_window_exprs e"
| "collect_window_exprs (XIsTrue e _) = collect_window_exprs e"
| "collect_window_exprs (XIsFalse e _) = collect_window_exprs e"
| "collect_window_exprs (XBetween e low high _) = collect_window_exprs e @ collect_window_exprs low @ collect_window_exprs high"
| "collect_window_exprs (XLike e pattern _) = collect_window_exprs e @ collect_window_exprs pattern"
| "collect_window_exprs (XIn e (InExprs items) _) = collect_window_exprs e @ concat (map collect_window_exprs items)"
| "collect_window_exprs (XIn e (InSubquery _) _) = collect_window_exprs e"
| "collect_window_exprs (XCast e _) = collect_window_exprs e"
| "collect_window_exprs (XCase operand branches otherwise) =
     (case operand of Some e \<Rightarrow> collect_window_exprs e | None \<Rightarrow> [])
     @ concat (map (\<lambda>(c, r). collect_window_exprs c @ collect_window_exprs r) branches)
     @ (case otherwise of Some e \<Rightarrow> collect_window_exprs e | None \<Rightarrow> [])"
| "collect_window_exprs _ = []"

definition projected_exprs :: "select_stmt \<Rightarrow> sql_expr list" where
  "projected_exprs sel = List.map_filter (\<lambda>p. case p of PExpr e _ \<Rightarrow> Some e | _ \<Rightarrow> None) (ss_projections sel)"

definition is_aggregate_query :: "eval_env \<Rightarrow> select_stmt \<Rightarrow> bool" where
  "is_aggregate_query env sel \<longleftrightarrow>
     ss_group_by sel \<noteq> [] \<or> list_ex (contains_aggregate env) (projected_exprs sel)
     \<or> (case ss_having sel of Some h \<Rightarrow> contains_aggregate env h | None \<Rightarrow> False)"

section \<open>Groups\<close>

type_synonym group = "sql_value list \<times> row_context list"

fun add_to_group :: "sql_value list \<Rightarrow> row_context \<Rightarrow> group list \<Rightarrow> group list" where
  "add_to_group key ctx [] = [(key, [ctx])]"
| "add_to_group key ctx ((k, members) # gs) = (if k = key then (k, members @ [ctx]) # gs else (k, members) # add_to_group key ctx gs)"

fun group_rows :: "(row_context \<Rightarrow> eval_error + sql_value list) \<Rightarrow> group list \<Rightarrow> row_context list \<Rightarrow> eval_error + group list" where
  "group_rows key gs [] = Inr gs"
| "group_rows key gs (ctx # ctxs) = attempt (key ctx) (\<lambda>k. group_rows key (add_to_group k ctx gs) ctxs)"

definition group_key :: "eval_env \<Rightarrow> sql_expr list \<Rightarrow> row_context \<Rightarrow> eval_error + sql_value list" where
  "group_key env exprs ctx = attempt (collect_results (map (eval env ctx) exprs)) (\<lambda>vs. Inr (map debug_key vs))"

fun compute_aggregates ::
  "eval_env \<Rightarrow> table_schema option \<Rightarrow> row list \<Rightarrow> (sql_expr \<times> sql_value) list \<Rightarrow> sql_expr list \<Rightarrow> eval_error + (sql_expr \<times> sql_value) list" where
  "compute_aggregates env schema rows done [] = Inr done"
| "compute_aggregates env schema rows done (e # es) =
     (if map_of done e \<noteq> None then compute_aggregates env schema rows done es
      else (case e of
          XFunction name args d \<Rightarrow>
            attempt (eval_aggregate env name (case args of a # _ \<Rightarrow> Some a | [] \<Rightarrow> None) d rows schema True) (\<lambda>v.
              compute_aggregates env schema rows ((e, v) # done) es)
        | _ \<Rightarrow> compute_aggregates env schema rows done es))"

definition representative :: "table_schema option \<Rightarrow> row_context list \<Rightarrow> row_context" where
  "representative schema members = (case members of m # _ \<Rightarrow> m | [] \<Rightarrow> db_context (replicate (width schema) None) schema)"

definition finish_group ::
  "eval_env \<Rightarrow> select_stmt \<Rightarrow> table_schema option \<Rightarrow> sql_expr list \<Rightarrow> row_context list \<Rightarrow> eval_error + row_context list" where
  "finish_group env sel schema aggs members =
     attempt (compute_aggregates env schema (map rc_values members) [] aggs) (\<lambda>computed.
       let ctx = (representative schema members)\<lparr>rc_computed := computed\<rparr>
       in case ss_having sel of
            Some h \<Rightarrow> attempt (eval env ctx h) (\<lambda>v. Inr (if is_truthy v then [ctx] else []))
          | None \<Rightarrow> Inr [ctx])"

definition aggregate_exprs :: "eval_env \<Rightarrow> select_stmt \<Rightarrow> sql_expr list" where
  "aggregate_exprs env sel =
     concat (map (collect_aggregate_exprs env) (projected_exprs sel))
     @ (case ss_having sel of Some h \<Rightarrow> collect_aggregate_exprs env h | None \<Rightarrow> [])"

definition execute_aggregation ::
  "eval_env \<Rightarrow> select_stmt \<Rightarrow> row_context list \<Rightarrow> table_schema option \<Rightarrow> eval_error + row_context list" where
  "execute_aggregation env sel rows schema =
     attempt (if ss_group_by sel = [] then Inr [([], rows)] else group_rows (group_key env (ss_group_by sel)) [] rows) (\<lambda>groups.
     attempt (collect_results (map (\<lambda>g. finish_group env sel schema (aggregate_exprs env sel) (snd g)) groups)) (\<lambda>outs.
     Inr (concat outs)))"

section \<open>Frames\<close>

text \<open>\<open>eval(e).unwrap_or(Value::Null)\<close>\<close>

definition eval_or_null :: "eval_env \<Rightarrow> row_context \<Rightarrow> sql_expr \<Rightarrow> sql_value" where
  "eval_or_null env ctx e = (case eval env ctx e of Inr v \<Rightarrow> v | Inl _ \<Rightarrow> VNull)"

definition peers :: "eval_env \<Rightarrow> sql_expr list \<Rightarrow> row_context \<Rightarrow> row_context \<Rightarrow> bool" where
  "peers env exprs a b \<longleftrightarrow> list_all (\<lambda>e. compares (\<lambda>c. c = 0) (eval_or_null env a e) (eval_or_null env b e)) exprs"

definition frame_offset_int :: "eval_env \<Rightarrow> sql_expr option \<Rightarrow> eval_error + int" where
  "frame_offset_int env offset =
     (case offset of
        Some e \<Rightarrow> attempt (eval_expr env e []) (\<lambda>v. Inr (case v of VInt n \<Rightarrow> n | VFloat f \<Rightarrow> f64_to_i64 f | _ \<Rightarrow> 0))
      | None \<Rightarrow> Inr 0)"

definition frame_bound_offset :: "eval_env \<Rightarrow> sql_expr frame_bound \<Rightarrow> nat \<Rightarrow> int \<Rightarrow> eval_error + int" where
  "frame_bound_offset env b pos part_len =
     (case fb_type b of
        UnboundedPreceding \<Rightarrow> Inr (- int pos)
      | UnboundedFollowing \<Rightarrow> Inr (part_len - 1 - int pos)
      | CurrentRow \<Rightarrow> Inr 0
      | Preceding \<Rightarrow> attempt (frame_offset_int env (fb_offset b)) (\<lambda>n. Inr (wrap_i64 (- n)))
      | Following \<Rightarrow> frame_offset_int env (fb_offset b))"

definition clamp :: "int \<Rightarrow> int \<Rightarrow> int \<Rightarrow> int" where
  "clamp x lo hi = (if x < lo then lo else if hi < x then hi else x)"

text \<open>\<open>order\<close> lists the rows in the order of the window; a partition is the part of it between two
  positions.\<close>

function frame_end :: "eval_env \<Rightarrow> sql_expr list \<Rightarrow> row_context list \<Rightarrow> nat \<Rightarrow> nat \<Rightarrow> nat" where
  "frame_end env keys order part_end i =
     (if i + 1 < part_end \<and> peers env keys (order ! i) (order ! (i + 1)) then frame_end env keys order part_end (i + 1) else i)"
  by pat_completeness auto
termination
  by (relation "measure (\<lambda>(_, _, _, part_end, i). part_end - i)") auto

declare frame_end.simps [simp del]

definition resolve_frame_bounds ::
  "eval_env \<Rightarrow> sql_expr window_frame option \<Rightarrow> sql_expr list \<Rightarrow> row_context list \<Rightarrow> nat \<Rightarrow> nat \<Rightarrow> nat \<Rightarrow> eval_error + nat \<times> nat" where
  "resolve_frame_bounds env frame keys order part_start part_end pos =
     (case frame of
        None \<Rightarrow>
          Inr (part_start, if keys = [] then part_end else frame_end env keys order part_end (part_start + pos) + 1)
      | Some f \<Rightarrow>
          let part_len = int part_end - int part_start
          in attempt (frame_bound_offset env (wf_start f) pos part_len) (\<lambda>start_rel.
             attempt (case wf_end f of Some b \<Rightarrow> frame_bound_offset env b pos part_len | None \<Rightarrow> Inr 0) (\<lambda>end_rel.
             let a = clamp (wrap_i64 (int pos + start_rel)) 0 (part_len - 1); b = clamp (wrap_i64 (int pos + end_rel)) 0 (part_len - 1)
             in Inr (part_start + nat (min a b), part_start + nat (max a b) + 1))))"

section \<open>Window functions\<close>

fun rank_loop :: "(nat \<Rightarrow> bool) \<Rightarrow> nat \<Rightarrow> nat list \<Rightarrow> int \<times> int \<Rightarrow> int \<times> int" where
  "rank_loop peer part_start [] r = r"
| "rank_loop peer part_start (k # ks) (rank, dense) =
     rank_loop peer part_start ks (if peer k then (rank, dense) else (int (k - part_start) + 1, dense + 1))"

definition int_arg :: "sql_value \<Rightarrow> int option" where
  "int_arg v = (case v of VInt n \<Rightarrow> Some n | VFloat f \<Rightarrow> Some (f64_to_i64 f) | _ \<Rightarrow> None)"

definition ntile :: "eval_env \<Rightarrow> sql_expr list \<Rightarrow> row_context \<Rightarrow> nat \<Rightarrow> nat \<Rightarrow> eval_result" where
  "ntile env args ctx part_len pos =
     (case args of
        [] \<Rightarrow> Inl (BadArguments (str ''ntile''))
      | e # _ \<Rightarrow> attempt (eval env ctx e) (\<lambda>v.
          case int_arg v of
            None \<Rightarrow> Inl (BadArguments (str ''ntile''))
          | Some n \<Rightarrow>
              if n \<le> 0 then Inl (BadArguments (str ''ntile''))
              else Inr (VInt (min (wrap_i64 (div_trunc (wrap_i64 (int pos * n)) (max (int part_len) 1) + 1)) n))))"

definition lag_lead :: "eval_env \<Rightarrow> bool \<Rightarrow> sql_expr list \<Rightarrow> row_context list \<Rightarrow> nat \<Rightarrow> nat \<Rightarrow> nat \<Rightarrow> eval_result" where
  "lag_lead env lag args order part_start part_end pos =
     (case args of
        [] \<Rightarrow> Inl (BadArguments (if lag then str ''lag'' else str ''lead''))
      | arg # opts \<Rightarrow>
          let here = order ! (part_start + pos)
          in attempt (case opts of e # _ \<Rightarrow> attempt (eval env here e) (\<lambda>v. Inr (case int_arg v of Some n \<Rightarrow> n | None \<Rightarrow> 1)) | [] \<Rightarrow> Inr 1) (\<lambda>offset.
             let target = wrap_i64 (if lag then int pos - offset else int pos + offset)
             in if target < 0 \<or> part_end - part_start \<le> nat target
                then (case opts of _ # d # _ \<Rightarrow> eval env here d | _ \<Rightarrow> Inr VNull)
                else eval env (order ! (part_start + nat target)) arg))"

definition frame_aggregate :: "eval_env \<Rightarrow> bytes \<Rightarrow> sql_expr option \<Rightarrow> row_context list \<Rightarrow> nat \<Rightarrow> nat \<Rightarrow> row_context \<Rightarrow> eval_result" where
  "frame_aggregate env name arg order fs fe here =
     (if fs \<le> fe \<and> fe \<le> length order
      then eval_aggregate env name arg False (map rc_values (slice fs fe order)) (rc_schema here) (rc_db here)
      else Inl Panicked)"

definition numeric_at :: "eval_env \<Rightarrow> sql_expr \<Rightarrow> row_context list \<Rightarrow> nat \<Rightarrow> (nat \<times> f64) option" where
  "numeric_at env arg order k =
     (case eval env (order ! k) arg of Inr v \<Rightarrow> (case as_f64 v of Inr f \<Rightarrow> Some (k, f) | Inl _ \<Rightarrow> None) | Inl _ \<Rightarrow> None)"

definition interpolate :: "eval_env \<Rightarrow> sql_expr list \<Rightarrow> row_context list \<Rightarrow> nat \<Rightarrow> nat \<Rightarrow> nat \<Rightarrow> eval_result" where
  "interpolate env args order part_start part_end i =
     (case args of
        [] \<Rightarrow> Inl (BadArguments (str ''interpolate''))
      | arg # _ \<Rightarrow> attempt (eval env (order ! i) arg) (\<lambda>current.
          if current \<noteq> VNull then Inr current
          else (case (first_some (numeric_at env arg order) (rev [part_start..<i]), first_some (numeric_at env arg order) [i + 1..<part_end]) of
              (Some (bk, bv), Some (ak, av)) \<Rightarrow>
                Inr (VFloat (f64_add bv (f64_mul (f64_sub av bv) (f64_div (f64_of_int (int (i - bk))) (f64_of_int (int (ak - bk)))))))
            | (Some (_, bv), None) \<Rightarrow> Inr (VFloat bv)
            | (None, Some (_, av)) \<Rightarrow> Inr (VFloat av)
            | (None, None) \<Rightarrow> Inr VNull)))"

definition moving_average :: "eval_env \<Rightarrow> sql_expr list \<Rightarrow> row_context list \<Rightarrow> nat \<Rightarrow> nat \<Rightarrow> eval_result" where
  "moving_average env args order part_start pos =
     (case args of
        value_arg # e # _ \<Rightarrow>
          let here = order ! (part_start + pos)
          in attempt (eval env here e) (\<lambda>v.
            case int_arg v of
              None \<Rightarrow> Inl (BadArguments (str ''moving_average''))
            | Some n \<Rightarrow> frame_aggregate env (str ''avg'') (Some value_arg) order (part_start + (pos - (nat (max n 1) - 1))) (part_start + pos + 1) here)
      | _ \<Rightarrow> Inl (BadArguments (str ''moving_average'')))"

definition star_arg :: "bytes \<Rightarrow> sql_expr list \<Rightarrow> sql_expr option" where
  "star_arg name args =
     (case args of a # _ \<Rightarrow> if name = str ''count'' \<and> a = XIdent (str ''*'') then None else Some a | [] \<Rightarrow> None)"

definition compute_window_value ::
  "eval_env \<Rightarrow> bytes \<Rightarrow> sql_expr list \<Rightarrow> sql_expr window_frame option \<Rightarrow> sql_expr list \<Rightarrow> row_context list \<Rightarrow> nat \<Rightarrow> nat \<Rightarrow> nat \<Rightarrow> eval_result" where
  "compute_window_value env func args frame keys order part_start part_end pos =
     (let f = ev_lower env func; i = part_start + pos; here = order ! i;
          ranks = rank_loop (\<lambda>k. peers env keys (order ! (k - 1)) (order ! k)) part_start [part_start + 1..<i + 1] (1, 1)
      in if f = str ''row_number'' then Inr (VInt (int pos + 1))
         else if f = str ''rank'' then Inr (VInt (if keys = [] then 1 else fst ranks))
         else if f = str ''dense_rank'' then Inr (VInt (if keys = [] then 1 else snd ranks))
         else if f = str ''ntile'' then ntile env args here (part_end - part_start) pos
         else if f = str ''lag'' \<or> f = str ''lead'' then lag_lead env (f = str ''lag'') args order part_start part_end pos
         else if f \<in> {str ''sum'', str ''avg'', str ''count'', str ''min'', str ''max''} then
           attempt (resolve_frame_bounds env frame keys order part_start part_end pos) (\<lambda>(fs, fe).
             frame_aggregate env f (star_arg f args) order fs fe here)
         else if f = str ''interpolate'' then interpolate env args order part_start part_end i
         else if f = str ''moving_average'' then moving_average env args order part_start pos
         else Inl (NoFunction f))"

text \<open>A panic in a key of a row that is compared with another ends the query.\<close>

definition keys_panic :: "eval_env \<Rightarrow> sql_expr list \<Rightarrow> row_context list \<Rightarrow> bool" where
  "keys_panic env keys rows \<longleftrightarrow> 2 \<le> length rows \<and> list_ex (\<lambda>ctx. list_ex (\<lambda>e. eval env ctx e = Inl Panicked) keys) rows"

definition partition_cmp :: "eval_env \<Rightarrow> sql_expr \<Rightarrow> row_context \<Rightarrow> row_context \<Rightarrow> int" where
  "partition_cmp env e a b = (case value_compare (eval_or_null env a e) (eval_or_null env b e) of Inr c \<Rightarrow> c | Inl _ \<Rightarrow> 0)"

fun window_cmp :: "eval_env \<Rightarrow> (sql_expr \<times> bool) list \<Rightarrow> row_context \<Rightarrow> row_context \<Rightarrow> ordering" where
  "window_cmp env [] a b = Equal"
| "window_cmp env ((e, asc) # ks) a b =
     (let c = (if asc then partition_cmp env e a b else - partition_cmp env e a b)
      in if c < 0 then Less else if 0 < c then Greater else window_cmp env ks a b)"

text \<open>The partitions of the sorted rows, as pairs of positions.\<close>

fun partition_ranges :: "(nat \<Rightarrow> bool) \<Rightarrow> nat \<Rightarrow> nat list \<Rightarrow> nat \<Rightarrow> (nat \<times> nat) list" where
  "partition_ranges same start [] n = [(start, n)]"
| "partition_ranges same start (i # is) n =
     (if same i then partition_ranges same start is n else (start, i) # partition_ranges same i is n)"

definition window_values :: "eval_env \<Rightarrow> sql_expr \<Rightarrow> (nat \<times> row_context) list \<Rightarrow> eval_error + (nat \<times> sql_value) list" where
  "window_values env win rows =
     (case win of
        XWindow func args parts obs frame \<Rightarrow>
          let keys = map (\<lambda>ob. (ob_expr ob, ob_asc ob)) obs;
              sorted = sort_by (\<lambda>a b. window_cmp env (map (\<lambda>p. (p, True)) parts @ keys) (snd a) (snd b)) rows;
              order = map snd sorted;
              ranges = partition_ranges (\<lambda>i. peers env parts (order ! (i - 1)) (order ! i)) 0 [1..<length order] (length order)
          in if keys_panic env (parts @ map fst keys) (map snd rows) then Inl Panicked
             else collect_results (concat (map (\<lambda>(a, b). map (\<lambda>i.
               attempt (compute_window_value env func args frame (map fst keys) order a b (i - a)) (\<lambda>v. Inr (fst (sorted ! i), v))) [a..<b]) ranges))
      | _ \<Rightarrow> Inr [])"

fun window_passes :: "eval_env \<Rightarrow> sql_expr list \<Rightarrow> row_context list \<Rightarrow> eval_error + (sql_expr \<times> (nat \<times> sql_value) list) list" where
  "window_passes env [] rows = Inr []"
| "window_passes env (w # ws) rows =
     attempt (window_values env w (zip [0..<length rows] rows)) (\<lambda>vs. attempt (window_passes env ws rows) (\<lambda>rest. Inr ((w, vs) # rest)))"

definition attach_values :: "(sql_expr \<times> (nat \<times> sql_value) list) list \<Rightarrow> nat \<Rightarrow> row_context \<Rightarrow> row_context" where
  "attach_values passes i ctx =
     ctx\<lparr>rc_computed := rev (List.map_filter (\<lambda>(w, vs). map_option (Pair w) (map_of vs i)) passes) @ rc_computed ctx\<rparr>"

definition window_exprs :: "select_stmt \<Rightarrow> sql_expr list" where
  "window_exprs sel =
     concat (map collect_window_exprs (projected_exprs sel)) @ concat (map (\<lambda>ob. collect_window_exprs (ob_expr ob)) (ss_order_by sel))"

definition apply_window_functions :: "eval_env \<Rightarrow> select_stmt \<Rightarrow> row_context list \<Rightarrow> eval_error + row_context list" where
  "apply_window_functions env sel rows =
     (if window_exprs sel = [] \<or> rows = [] then Inr rows
      else attempt (window_passes env (window_exprs sel) rows) (\<lambda>passes.
        Inr (map (\<lambda>(i, ctx). attach_values passes i ctx) (zip [0..<length rows] rows))))"

section \<open>Groups partition the rows\<close>

definition grouped :: "(row_context \<Rightarrow> eval_error + sql_value list) \<Rightarrow> group list \<Rightarrow> row_context list \<Rightarrow> bool" where
  "grouped key gs rows \<longleftrightarrow>
     distinct (map fst gs)
     \<and> (\<forall>(k, members) \<in> set gs. members \<noteq> [] \<and> members = filter (\<lambda>c. key c = Inr k) rows)
     \<and> (\<forall>c \<in> set rows. \<exists>k \<in> fst ` set gs. key c = Inr k)"

lemma fst_add_to_group: "fst ` set (add_to_group k c gs) = insert k (fst ` set gs)"
  by (induction k c gs rule: add_to_group.induct) auto

lemma distinct_add_to_group: "distinct (map fst gs) \<Longrightarrow> distinct (map fst (add_to_group k c gs))"
proof (induction k c gs rule: add_to_group.induct)
  case (2 key ctx k members gs)
  then show ?case using fst_add_to_group [of key ctx gs] by (auto simp flip: set_map)
qed simp

lemma members_add_to_group:
  "(k', ms) \<in> set (add_to_group k c gs) \<Longrightarrow>
    k' \<noteq> k \<and> (k', ms) \<in> set gs \<or> k' = k \<and> (ms = [c] \<and> k \<notin> fst ` set gs \<or> (\<exists>ms'. (k, ms') \<in> set gs \<and> ms = ms' @ [c]))
    \<or> k' = k \<and> (k', ms) \<in> set gs \<and> \<not> distinct (map fst gs)"
  by (induction k c gs rule: add_to_group.induct) (force split: if_splits)+

lemma grouped_add:
  assumes "grouped key gs rows" "key c = Inr k"
  shows "grouped key (add_to_group k c gs) (rows @ [c])"
proof -
  have d: "distinct (map fst gs)" using assms by (simp add: grouped_def)
  have new: "k \<notin> fst ` set gs \<Longrightarrow> filter (\<lambda>c. key c = Inr k) rows = []"
    using assms(1) by (force simp: grouped_def filter_empty_conv)
  have "ms \<noteq> [] \<and> ms = filter (\<lambda>c. key c = Inr k') (rows @ [c])" if "(k', ms) \<in> set (add_to_group k c gs)" for k' ms
    using members_add_to_group [OF that] d new assms by (fastforce simp: grouped_def)
  then show ?thesis
    using assms distinct_add_to_group [OF d] by (auto simp: grouped_def fst_add_to_group)
qed

lemma grouped_rows: "group_rows key gs rows = Inr gs' \<Longrightarrow> grouped key gs before \<Longrightarrow> grouped key gs' (before @ rows)"
proof (induction key gs rows arbitrary: before rule: group_rows.induct)
  case (2 key gs ctx ctxs)
  then obtain k where "key ctx = Inr k" "group_rows key (add_to_group k ctx gs) ctxs = Inr gs'" by (auto elim!: attemptE)
  then show ?case using 2(1) [of k "before @ [ctx]"] grouped_add [OF 2(3)] by simp
qed simp

text \<open>C24: \<open>GROUP BY\<close> partitions the rows: one group for each key that occurs, holding exactly the rows with that
  key in their order, and every row in one of them.\<close>

theorem groups_partition_rows:
  assumes "group_rows (group_key env exprs) [] rows = Inr gs"
  shows "distinct (map fst gs) \<and> (\<forall>c \<in> set rows. \<exists>k \<in> fst ` set gs. group_key env exprs c = Inr k)
    \<and> (\<forall>(k, members) \<in> set gs. members \<noteq> [] \<and> members = filter (\<lambda>c. group_key env exprs c = Inr k) rows)"
  using grouped_rows [OF assms, of "[]"] by (simp add: grouped_def)

definition demo_context :: "int \<Rightarrow> row_context" where
  "demo_context n = empty_context\<lparr>rc_params := [VInt n]\<rparr>"

theorem groups_partition_rows_witness:
  "\<exists>gs. group_rows (group_key demo_eval_env [XParam 1]) [] [demo_context 1, demo_context 2, demo_context 1] = Inr gs \<and> distinct (map fst gs)
    \<and> (\<forall>(k, members) \<in> set gs. members = filter (\<lambda>c. group_key demo_eval_env [XParam 1] c = Inr k) [demo_context 1, demo_context 2, demo_context 1])"
proof -
  have "group_key demo_eval_env [XParam 1] (demo_context n) = Inr [VInt n]" for n
    by (simp add: group_key_def eval_param_def debug_key_def demo_context_def)
  then have run: "group_rows (group_key demo_eval_env [XParam 1]) [] [demo_context 1, demo_context 2, demo_context 1] =
      Inr [([VInt 1], [demo_context 1, demo_context 1]), ([VInt 2], [demo_context 2])]"
    by simp
  show ?thesis using groups_partition_rows [OF run] run by blast
qed

section \<open>Frames stay in their partition\<close>

lemma frame_end_bounds: "i < part_end \<Longrightarrow> i \<le> frame_end env keys order part_end i \<and> frame_end env keys order part_end i < part_end"
proof (induction env keys order part_end i rule: frame_end.induct)
  case (1 env keys order part_end i)
  then show ?case by (subst (1 2) frame_end.simps) auto
qed

lemma clamp_bounds: "lo \<le> hi \<Longrightarrow> lo \<le> clamp x lo hi \<and> clamp x lo hi \<le> hi"
  by (simp add: clamp_def)

text \<open>Whatever its bounds say, and also when their arithmetic wraps around, a frame is a non-empty part of
  its partition, so that no window aggregate reads outside it.\<close>

theorem frame_within_partition:
  assumes "part_start + pos < part_end" "resolve_frame_bounds env frame keys order part_start part_end pos = Inr (fs, fe)"
  shows "part_start \<le> fs \<and> fs < fe \<and> fe \<le> part_end"
proof (cases frame)
  case None
  then show ?thesis using assms frame_end_bounds [OF assms(1), of env keys order] by (auto simp: resolve_frame_bounds_def split: if_splits)
next
  case (Some f)
  let ?n = "int part_end - int part_start"
  obtain a b where ab: "fs = part_start + nat (min (clamp a 0 (?n - 1)) (clamp b 0 (?n - 1)))"
      "fe = part_start + nat (max (clamp a 0 (?n - 1)) (clamp b 0 (?n - 1))) + 1"
    using assms(2) Some by (auto simp: resolve_frame_bounds_def Let_def elim!: attemptE)
  have "0 \<le> ?n - 1" using assms(1) by simp
  then show ?thesis using clamp_bounds [of 0 "?n - 1" a] clamp_bounds [of 0 "?n - 1" b] by (auto simp: ab)
qed

definition demo_frame :: "sql_expr window_frame" where
  "demo_frame = WindowFrame FRows (FrameBound Preceding (Some (XLiteral (LInt 5)))) None"

theorem frame_within_partition_witness:
  "\<exists>fs fe. resolve_frame_bounds demo_eval_env (Some demo_frame) [] [] 0 3 1 = Inr (fs, fe) \<and> 0 \<le> fs \<and> fs < fe \<and> fe \<le> 3"
proof -
  have "frame_offset_int demo_eval_env (Some (XLiteral (LInt 5))) = Inr 5"
    by (simp add: frame_offset_int_def eval_expr_def eval_literal_def)
  then have "frame_bound_offset demo_eval_env (FrameBound Preceding (Some (XLiteral (LInt 5)))) 1 3 = Inr (- 5)"
    by (simp add: frame_bound_offset_def wrap_range i64_range_def)
  then have run: "resolve_frame_bounds demo_eval_env (Some demo_frame) [] [] 0 3 1 = Inr (0, 2)"
    by (simp add: demo_frame_def resolve_frame_bounds_def clamp_def wrap_range i64_range_def Let_def)
  then show ?thesis using frame_within_partition [OF _ run] by simp
qed

end
