(* ===== verification/Sql_Planner.thy ===== *)
theory Sql_Planner
  imports Sql_Join
begin

text \<open>
  The planner (\<open>executor/planner.rs\<close>): the equality and time-range predicates that an index can answer,
  and the reordering of inner joins by estimated size. Schemas and row estimates of the catalogue are
  parameters. The spatial predicates need the geometry parser and are not modelled.
\<close>

section \<open>Predicates for indexes\<close>

fun flatten_and :: "sql_expr \<Rightarrow> sql_expr list" where
  "flatten_and (XBinary op lhs rhs) = (if op = OAnd then flatten_and lhs @ flatten_and rhs else [XBinary op lhs rhs])"
| "flatten_and e = [e]"

definition ident_col :: "sql_expr \<Rightarrow> table_schema \<Rightarrow> bytes option" where
  "ident_col e schema =
     (case e of
        XIdent n \<Rightarrow> if has_column (Some schema) n then Some n else None
      | XQualified _ n \<Rightarrow> if has_column (Some schema) n then Some n else None
      | _ \<Rightarrow> None)"

definition constant_value :: "eval_env \<Rightarrow> sql_expr \<Rightarrow> sql_value option" where
  "constant_value env e = (case eval env empty_context e of Inr v \<Rightarrow> Some v | Inl _ \<Rightarrow> None)"

definition try_col_literal :: "eval_env \<Rightarrow> sql_expr \<Rightarrow> sql_expr \<Rightarrow> table_schema \<Rightarrow> (bytes \<times> bytes) option" where
  "try_col_literal env col_expr lit_expr schema =
     Option.bind (ident_col col_expr schema) (\<lambda>name.
     Option.bind (constant_value env lit_expr) (\<lambda>v. map_option (Pair name) (to_wire_bytes v)))"

fun extract_eq :: "eval_env \<Rightarrow> table_schema \<Rightarrow> sql_expr \<Rightarrow> (bytes \<times> bytes) option" where
  "extract_eq env schema (XBinary op lhs rhs) =
     (if op = OAnd then (case extract_eq env schema lhs of Some p \<Rightarrow> Some p | None \<Rightarrow> extract_eq env schema rhs)
      else if op = OEq then
        (case try_col_literal env lhs rhs schema of Some p \<Rightarrow> Some p | None \<Rightarrow> try_col_literal env rhs lhs schema)
      else None)"
| "extract_eq env schema _ = None"

definition constant_time :: "eval_env \<Rightarrow> sql_expr \<Rightarrow> int option" where
  "constant_time env e =
     Option.bind (constant_value env e) (\<lambda>v. case v of VInt n \<Rightarrow> Some n | VFloat f \<Rightarrow> Some (f64_to_i64 f) | _ \<Rightarrow> None)"

definition try_time_bucket_between :: "eval_env \<Rightarrow> table_schema \<Rightarrow> sql_expr \<Rightarrow> (bytes \<times> int \<times> int) option" where
  "try_time_bucket_between env schema e =
     (case e of
        XBetween inner low high negated \<Rightarrow>
          if negated then None
          else Option.bind (ident_col inner schema) (\<lambda>col.
               Option.bind (constant_time env low) (\<lambda>t0. map_option (\<lambda>t1. (col, t0, t1)) (constant_time env high)))
      | _ \<Rightarrow> None)"

definition is_time_bucket :: "sql_expr \<Rightarrow> bool" where
  "is_time_bucket e = (case e of XFunction name _ _ \<Rightarrow> eq_ignore_case name (str ''time_bucket'') | _ \<Rightarrow> False)"

definition try_time_bucket_eq :: "eval_env \<Rightarrow> table_schema \<Rightarrow> sql_expr \<Rightarrow> (bytes \<times> int \<times> int) option" where
  "try_time_bucket_eq env schema e =
     (case e of
        XBinary op lhs rhs \<Rightarrow>
          if op \<noteq> OEq then None
          else (let (bucket, value) = (if is_time_bucket lhs then (lhs, rhs) else (rhs, lhs)) in
            case bucket of
              XFunction name args _ \<Rightarrow>
                if \<not> is_time_bucket bucket \<or> length args \<noteq> 2 then None
                else
                  Option.bind (constant_value env (args ! 0)) (\<lambda>v.
                  Option.bind (case v of VText s \<Rightarrow> parse_interval s | _ \<Rightarrow> None) (\<lambda>ms.
                  Option.bind (ident_col (args ! 1) schema) (\<lambda>col.
                  map_option (\<lambda>t. (col, t, wrap_i64 (t + ms - 1))) (constant_time env value))))
            | _ \<Rightarrow> None)
      | _ \<Rightarrow> None)"

definition extract_time_bucket_predicate :: "eval_env \<Rightarrow> table_schema \<Rightarrow> sql_expr \<Rightarrow> (bytes \<times> int \<times> int) option" where
  "extract_time_bucket_predicate env schema cond =
     first_some (\<lambda>e. case try_time_bucket_between env schema e of Some p \<Rightarrow> Some p | None \<Rightarrow> try_time_bucket_eq env schema e) (flatten_and cond)"

section \<open>The order of joins\<close>

type_synonym named_schema = "bytes \<times> table_schema option"

fun union_all :: "bytes list option list \<Rightarrow> bytes list option" where
  "union_all [] = Some []"
| "union_all (d # ds) = Option.bind d (\<lambda>xs. map_option (\<lambda>ys. xs @ ys) (union_all ds))"

fun expr_dependencies :: "named_schema list \<Rightarrow> sql_expr \<Rightarrow> bytes list option" where
  "expr_dependencies tables (XIdent name) =
     (case filter (\<lambda>t. has_column (snd t) name) tables of [t] \<Rightarrow> Some [fst t] | _ \<Rightarrow> None)"
| "expr_dependencies tables (XQualified alias _) = (if alias \<in> fst ` set tables then Some [alias] else None)"
| "expr_dependencies tables (XLiteral _) = Some []"
| "expr_dependencies tables (XParam _) = Some []"
| "expr_dependencies tables (XBinary _ lhs rhs) = union_all [expr_dependencies tables lhs, expr_dependencies tables rhs]"
| "expr_dependencies tables (XUnary _ e) = expr_dependencies tables e"
| "expr_dependencies tables (XCast e _) = expr_dependencies tables e"
| "expr_dependencies tables (XFunction _ args _) = union_all (map (expr_dependencies tables) args)"
| "expr_dependencies tables (XBetween e low high _) =
     union_all [expr_dependencies tables e, expr_dependencies tables low, expr_dependencies tables high]"
| "expr_dependencies tables (XIsNull e _) = expr_dependencies tables e"
| "expr_dependencies tables (XIsTrue e _) = expr_dependencies tables e"
| "expr_dependencies tables (XIsFalse e _) = expr_dependencies tables e"
| "expr_dependencies tables _ = None"

record join_node =
  nd_alias :: bytes
  nd_schema :: table_schema
  nd_rows :: int
  nd_deps :: "bytes list"

type_synonym sql_join = "(sql_expr, select_stmt) join"

definition ref_alias :: "(sql_expr, select_stmt) table_ref \<Rightarrow> bytes" where
  "ref_alias t = (case tr_alias t of Some a \<Rightarrow> a | None \<Rightarrow> tr_name t)"

definition join_node_of :: "(bytes \<Rightarrow> table_schema option) \<Rightarrow> (bytes \<Rightarrow> int option) \<Rightarrow> sql_join \<Rightarrow> join_node option" where
  "join_node_of table_of rows_of j =
     (if tr_subquery (jn_table j) \<noteq> None \<or> tr_func_args (jn_table j) \<noteq> None then None
      else Option.bind (table_of (tr_name (jn_table j))) (\<lambda>s.
           map_option (\<lambda>n. \<lparr>nd_alias = ref_alias (jn_table j), nd_schema = s, nd_rows = n, nd_deps = []\<rparr>) (rows_of (tr_name (jn_table j)))))"

fun all_some :: "'a option list \<Rightarrow> 'a list option" where
  "all_some [] = Some []"
| "all_some (x # xs) = Option.bind x (\<lambda>y. map_option (Cons y) (all_some xs))"

definition with_deps :: "named_schema list \<Rightarrow> sql_join \<Rightarrow> join_node \<Rightarrow> join_node option" where
  "with_deps tables j nd =
     (case jn_on j of
        None \<Rightarrow> Some nd
      | Some e \<Rightarrow> map_option (\<lambda>d. nd\<lparr>nd_deps := filter (\<lambda>a. a \<noteq> nd_alias nd) d\<rparr>) (expr_dependencies tables e))"

definition smallest :: "join_node list \<Rightarrow> nat list \<Rightarrow> nat" where
  "smallest nodes is = foldl (\<lambda>b i. if nd_rows (nodes ! i) < nd_rows (nodes ! b) then i else b) (hd is) (tl is)"

lemma smallest_mem: "is \<noteq> [] \<Longrightarrow> smallest nodes is \<in> set is"
proof -
  have "foldl (\<lambda>b i. if nd_rows (nodes ! i) < nd_rows (nodes ! b) then i else b) b js \<in> insert b (set js)" for b js
    by (induction js arbitrary: b) (auto split: if_splits)
  then show "is \<noteq> [] \<Longrightarrow> smallest nodes is \<in> set is" by (cases "is") (auto simp: smallest_def)
qed

lemma smallest_removed:
  "filter P remaining \<noteq> [] \<Longrightarrow> length (filter (\<lambda>i. i \<noteq> smallest nodes (filter P remaining)) remaining) < length remaining"
  using smallest_mem [of "filter P remaining" nodes] by (intro length_filter_less [of "smallest nodes (filter P remaining)"]) auto

text \<open>Among the joins whose tables are there, the one with the fewest rows comes next.\<close>

function schedule :: "join_node list \<Rightarrow> bytes list \<Rightarrow> nat list \<Rightarrow> nat list option" where
  "schedule nodes scheduled remaining =
     (if remaining = [] then Some []
      else
        (let ready = filter (\<lambda>i. set (nd_deps (nodes ! i)) \<subseteq> set scheduled) remaining
         in if ready = [] then None
            else
              (let next = smallest nodes ready
               in map_option (Cons next) (schedule nodes (nd_alias (nodes ! next) # scheduled) (filter (\<lambda>i. i \<noteq> next) remaining)))))"
  by pat_completeness auto
termination
  by (relation "measure (\<lambda>(_, _, remaining). length remaining)") (simp, simp only: in_measure prod.case, rule smallest_removed)

declare schedule.simps [simp del]

definition join_nodes ::
  "(bytes \<Rightarrow> table_schema option) \<Rightarrow> (bytes \<Rightarrow> int option) \<Rightarrow> bytes \<Rightarrow> table_schema option \<Rightarrow> sql_join list \<Rightarrow> join_node list option" where
  "join_nodes table_of rows_of primary_alias primary_schema joins =
     Option.bind (all_some (map (join_node_of table_of rows_of) joins)) (\<lambda>nodes.
       let tables = (primary_alias, primary_schema) # map (\<lambda>nd. (nd_alias nd, Some (nd_schema nd))) nodes
       in all_some (map (\<lambda>(j, nd). with_deps tables j nd) (zip joins nodes)))"

definition reorder_inner_joins ::
  "(bytes \<Rightarrow> table_schema option) \<Rightarrow> (bytes \<Rightarrow> int option) \<Rightarrow> bytes \<Rightarrow> table_schema option \<Rightarrow> sql_join list \<Rightarrow> nat list" where
  "reorder_inner_joins table_of rows_of primary_alias primary_schema joins =
     (let prefix = takeWhile (\<lambda>j. jn_type j = JInner \<or> jn_type j = JCross) joins; n = length prefix; identity = [0..<length joins]
      in if n < 2 then identity
         else (case join_nodes table_of rows_of primary_alias primary_schema prefix of
             None \<Rightarrow> identity
           | Some nodes \<Rightarrow>
               (case schedule nodes [primary_alias] [0..<n] of
                  Some order \<Rightarrow> order @ [n..<length joins]
                | None \<Rightarrow> identity)))"

section \<open>The schedule respects dependencies\<close>

definition in_order :: "join_node list \<Rightarrow> bytes list \<Rightarrow> nat list \<Rightarrow> bool" where
  "in_order nodes given order \<longleftrightarrow>
     (\<forall>p < length order. set (nd_deps (nodes ! (order ! p))) \<subseteq> set given \<union> (\<lambda>i. nd_alias (nodes ! i)) ` set (take p order))"

lemma in_order_Cons:
  "in_order nodes given (i # order) \<longleftrightarrow> set (nd_deps (nodes ! i)) \<subseteq> set given \<and> in_order nodes (nd_alias (nodes ! i) # given) order"
  by (auto simp: in_order_def All_less_Suc2)

lemma mset_take_out: "distinct xs \<Longrightarrow> x \<in> set xs \<Longrightarrow> mset xs = add_mset x (mset (filter (\<lambda>y. y \<noteq> x) xs))"
proof -
  assume x: "distinct xs" "x \<in> set xs"
  have "filter (\<lambda>y. y \<noteq> x) xs = remove1 x xs"
    using x(1) by (simp add: distinct_remove1_removeAll removeAll_filter_not_eq eq_commute)
  then show ?thesis using x(2) by simp
qed

lemma schedule_sound:
  "schedule nodes scheduled remaining = Some order \<Longrightarrow> distinct remaining \<Longrightarrow>
     mset order = mset remaining \<and> in_order nodes scheduled order"
proof (induction nodes scheduled remaining arbitrary: order rule: schedule.induct)
  case (1 nodes scheduled remaining)
  let ?ready = "filter (\<lambda>i. set (nd_deps (nodes ! i)) \<subseteq> set scheduled) remaining"
  let ?next = "smallest nodes ?ready"
  show ?case
  proof (cases "remaining = []")
    case True
    then show ?thesis using 1(2) by (simp add: schedule.simps in_order_def)
  next
    case False
    then have ready: "?ready \<noteq> []" using 1(2) by (auto simp: schedule.simps [of nodes scheduled remaining] Let_def split: if_splits)
    then obtain rest where rest: "schedule nodes (nd_alias (nodes ! ?next) # scheduled) (filter (\<lambda>i. i \<noteq> ?next) remaining) = Some rest"
      "order = ?next # rest"
      using 1(2) False by (auto simp: schedule.simps [of nodes scheduled remaining] Let_def split: if_splits)
    have IH: "mset rest = mset (filter (\<lambda>i. i \<noteq> ?next) remaining)" "in_order nodes (nd_alias (nodes ! ?next) # scheduled) rest"
      using 1(1) [OF False refl ready refl rest(1)] 1(3) by simp_all
    have next_mem: "?next \<in> set ?ready" using smallest_mem [OF ready] .
    then have "mset remaining = add_mset ?next (mset (filter (\<lambda>i. i \<noteq> ?next) remaining))"
      using 1(3) by (intro mset_take_out) auto
    then show ?thesis using IH next_mem rest(2) by (simp add: in_order_Cons)
  qed
qed

text \<open>The chosen order of joins is a permutation of theirs, outer joins and what follows them keep their
  places, and if the order is not the one of the query, every join comes after the tables its condition names.\<close>

theorem reorder_respects_dependencies:
  assumes "order = reorder_inner_joins table_of rows_of alias schema joins"
    and "prefix = takeWhile (\<lambda>j. jn_type j = JInner \<or> jn_type j = JCross) joins"
  shows "mset order = mset [0..<length joins]
    \<and> (order = [0..<length joins]
       \<or> (\<exists>nodes head. join_nodes table_of rows_of alias schema prefix = Some nodes
            \<and> order = head @ [length prefix..<length joins] \<and> in_order nodes [alias] head))"
proof (cases "length prefix < 2")
  case True
  then show ?thesis by (simp add: assms reorder_inner_joins_def Let_def)
next
  case False
  have len: "length prefix \<le> length joins" by (simp add: assms(2) length_takeWhile_le)
  have split: "mset [0..<length joins] = mset [0..<length prefix] + mset [length prefix..<length joins]"
    using upt_add_eq_append [of 0 "length prefix" "length joins - length prefix"] len by (metis le_add_diff_inverse mset_append zero_le)
  show ?thesis
  proof (cases "\<exists>nodes head. join_nodes table_of rows_of alias schema prefix = Some nodes \<and> schedule nodes [alias] [0..<length prefix] = Some head")
    case True
    then obtain nodes head where run: "join_nodes table_of rows_of alias schema prefix = Some nodes" "schedule nodes [alias] [0..<length prefix] = Some head"
      by blast
    then have "order = head @ [length prefix..<length joins]" using assms False by (simp add: reorder_inner_joins_def Let_def)
    moreover have "mset head = mset [0..<length prefix]" "in_order nodes [alias] head" using schedule_sound [OF run(2)] by simp_all
    ultimately show ?thesis using run(1) split by auto
  next
    case False
    then have "order = [0..<length joins]" using assms by (auto simp: reorder_inner_joins_def Let_def split: option.splits)
    then show ?thesis by simp
  qed
qed

definition demo_catalog :: "bytes \<Rightarrow> table_schema option" where
  "demo_catalog n = Some (demo_schema n [n])"

definition demo_joins :: "sql_join list" where
  "demo_joins =
     [Join JInner (TableRef (str ''b'') None None None) (Some (XBinary OEq (XIdent (str ''a'')) (XIdent (str ''b'')))),
      Join JInner (TableRef (str ''c'') None None None) (Some (XBinary OEq (XIdent (str ''a'')) (XIdent (str ''c''))))]"

definition demo_estimate :: "bytes \<Rightarrow> int option" where
  "demo_estimate n = Some (if n = str ''b'' then 10 else 3)"

theorem reorder_respects_dependencies_witness:
  "mset (reorder_inner_joins demo_catalog demo_estimate (str ''a'') (demo_catalog (str ''a'')) demo_joins) = mset [0..<length demo_joins]"
  using reorder_respects_dependencies [OF refl refl, of demo_catalog demo_estimate "str ''a''" "demo_catalog (str ''a'')" demo_joins] by (rule conjunct1)

lemma demo_reorder: "reorder_inner_joins demo_catalog demo_estimate (str ''a'') (demo_catalog (str ''a'')) demo_joins = [1, 0]"
  by code_simp

text \<open>A condition on another table's column of the same name is taken for one on the indexed table.\<close>

lemma index_predicate_ignores_qualifier:
  "extract_eq demo_eval_env (demo_schema (str ''a'') [str ''x'']) (XBinary OEq (XQualified (str ''b'') (str ''x'')) (XLiteral (LInt 5))) =
   Some (str ''x'', [53])"
  by code_simp

end
