(* ===== verification/Sql_Select.thy ===== *)
theory Sql_Select
  imports Sql_Window Sql_Planner
begin

text \<open>
  The execution of a query (\<open>executor/select.rs\<close>, \<open>executor/mod.rs\<close>): resolution of tables, common table
  expressions, joins, \<open>WHERE\<close>, groups, windows, \<open>ORDER BY\<close>, \<open>LIMIT\<close> and \<open>OFFSET\<close>, projection and
  unions. The store, the virtual tables, the graph functions and the indexes are parameters. Queries nest, so
  that the executor is a recursion whose depth is a parameter.
\<close>

section \<open>Environment and results\<close>

type_synonym result_field = "bytes \<times> int"
type_synonym query_result = "result_field list \<times> row list"
type_synonym cte_context = "(bytes \<times> row list \<times> table_schema) list"

record db_env =
  de_eval :: eval_env
  de_tables :: "bytes \<Rightarrow> table_schema option"
  de_scan :: "bool \<Rightarrow> bytes \<Rightarrow> eval_error + row list"
  de_virtual :: "bytes \<Rightarrow> (eval_error + table_schema \<times> row list) option"
  de_graph :: "bytes \<Rightarrow> sql_expr list \<Rightarrow> sql_value list \<Rightarrow> eval_error + table_schema option \<times> row list"
  de_index :: "bytes \<Rightarrow> bytes \<Rightarrow> bytes \<Rightarrow> row option option"
  de_spatial :: "bytes \<Rightarrow> table_schema \<Rightarrow> sql_expr \<Rightarrow> row list option option"
  de_time :: "bytes \<Rightarrow> bytes \<Rightarrow> int \<Rightarrow> int \<Rightarrow> row list option"
  de_stats :: "bytes \<Rightarrow> int option"
  de_pairs :: pair_finder

section \<open>Fields and schemas\<close>

definition infer_column_name :: "eval_env \<Rightarrow> sql_expr \<Rightarrow> bytes" where
  "infer_column_name env e =
     (case e of XIdent name \<Rightarrow> name | XQualified _ col \<Rightarrow> col | XFunction name _ _ \<Rightarrow> ev_lower env name | _ \<Rightarrow> str ''?column?'')"

fun build_fields :: "eval_env \<Rightarrow> table_schema option \<Rightarrow> sql_expr projection list \<Rightarrow> eval_error + result_field list" where
  "build_fields env schema [] = Inr []"
| "build_fields env schema (p # ps) =
     attempt
       (case p of
          PWildcard \<Rightarrow>
            (case schema of Some s \<Rightarrow> Inr (map (\<lambda>c. (sc_name c, type_oid (sc_type c))) (sch_columns s)) | None \<Rightarrow> Inl (QueryFailed (str ''*'')))
        | PWildcardTable t \<Rightarrow> Inl (QueryFailed t)
        | PExpr e alias \<Rightarrow> Inr [(case alias of Some a \<Rightarrow> a | None \<Rightarrow> infer_column_name env e, 25)]) (\<lambda>fs.
     attempt (build_fields env schema ps) (\<lambda>rest. Inr (fs @ rest)))"

definition plain_column :: "bytes \<Rightarrow> column_type \<Rightarrow> schema_column" where
  "plain_column name t = \<lparr>sc_name = name, sc_type = t, sc_nullable = True, sc_default = None, sc_is_pk = False\<rparr>"

definition plain_schema :: "bytes \<Rightarrow> schema_column list \<Rightarrow> table_schema" where
  "plain_schema name cols =
     \<lparr>sch_name = name, sch_columns = cols, sch_pk = [], sch_unique = [], sch_foreign_keys = [], sch_json_schemas = []\<rparr>"

definition schema_from_fields :: "bytes \<Rightarrow> result_field list \<Rightarrow> table_schema" where
  "schema_from_fields name fds =
     plain_schema name
       (map (\<lambda>(n, oid). plain_column n (if oid = 20 then CInt8 else if oid = 701 then CFloat8 else if oid = 16 then CBool else CText)) fds)"

definition cte_schema :: "select_stmt cte \<Rightarrow> result_field list \<Rightarrow> table_schema" where
  "cte_schema c fds =
     (if cte_columns c \<noteq> [] then plain_schema (cte_name c) (map (\<lambda>n. plain_column n CText) (cte_columns c))
      else schema_from_fields (cte_name c) fds)"

section \<open>From rows to rows\<close>

fun keep :: "('a \<Rightarrow> eval_error + bool) \<Rightarrow> 'a list \<Rightarrow> eval_error + 'a list" where
  "keep P [] = Inr []"
| "keep P (x # xs) = attempt (P x) (\<lambda>b. attempt (keep P xs) (\<lambda>out. Inr (if b then x # out else out)))"

definition apply_where :: "eval_env \<Rightarrow> sql_expr option \<Rightarrow> row_context list \<Rightarrow> eval_error + row_context list" where
  "apply_where env cond rows =
     (case cond of Some e \<Rightarrow> keep (\<lambda>ctx. recovered False is_truthy (eval env ctx e)) rows | None \<Rightarrow> Inr rows)"

fun order_cmp :: "eval_env \<Rightarrow> sql_expr order_by list \<Rightarrow> row_context \<Rightarrow> row_context \<Rightarrow> ordering" where
  "order_cmp env [] a b = Equal"
| "order_cmp env (ob # obs) a b =
     (let c = partition_cmp env (ob_expr ob) a b
      in if c \<noteq> 0 then (if ob_asc ob = (c < 0) then Less else Greater) else order_cmp env obs a b)"

definition apply_order :: "eval_env \<Rightarrow> sql_expr order_by list \<Rightarrow> row_context list \<Rightarrow> eval_error + row_context list" where
  "apply_order env obs rows =
     (if obs = [] then Inr rows
      else if keys_panic env (map ob_expr obs) rows then Inl Panicked
      else Inr (sort_by (order_cmp env obs) rows))"

text \<open>\<open>f.max(0.0) as usize\<close>\<close>

definition f64_to_usize :: "f64 \<Rightarrow> nat" where
  "f64_to_usize f = (if is_nan f \<or> negative f then 0 else min (2 ^ 64 - 1) (case f64_fraction (f64_abs f) of (n, d) \<Rightarrow> n div d))"

definition row_count :: "nat \<Rightarrow> sql_value \<Rightarrow> nat" where
  "row_count otherwise v = (case v of VInt n \<Rightarrow> nat (max n 0) | VFloat f \<Rightarrow> f64_to_usize f | _ \<Rightarrow> otherwise)"

definition apply_limit :: "eval_env \<Rightarrow> sql_value list \<Rightarrow> sql_expr option \<Rightarrow> 'a list \<Rightarrow> eval_error + 'a list" where
  "apply_limit env params limit rows =
     (case limit of Some e \<Rightarrow> attempt (eval_expr env e params) (\<lambda>v. Inr (take (row_count (length rows) v) rows)) | None \<Rightarrow> Inr rows)"

definition apply_offset :: "eval_env \<Rightarrow> sql_value list \<Rightarrow> sql_expr option \<Rightarrow> 'a list \<Rightarrow> eval_error + 'a list" where
  "apply_offset env params offset rows =
     (case offset of
        Some e \<Rightarrow> attempt (eval_expr env e params) (\<lambda>v. Inr (if row_count 0 v < length rows then drop (row_count 0 v) rows else []))
      | None \<Rightarrow> Inr rows)"

fun project_row :: "eval_env \<Rightarrow> row_context \<Rightarrow> sql_expr projection list \<Rightarrow> eval_error + row" where
  "project_row env ctx [] = Inr []"
| "project_row env ctx (p # ps) =
     attempt
       (case p of
          PWildcard \<Rightarrow> Inr (rc_values ctx)
        | PWildcardTable _ \<Rightarrow> Inl Panicked
        | PExpr e _ \<Rightarrow> attempt (recovered None to_wire_bytes (eval env ctx e)) (\<lambda>c. Inr [c])) (\<lambda>cells.
     attempt (project_row env ctx ps) (\<lambda>rest. Inr (cells @ rest)))"

definition finish_select ::
  "eval_env \<Rightarrow> select_stmt \<Rightarrow> table_schema option \<Rightarrow> sql_value list \<Rightarrow> row_context list \<Rightarrow> eval_error + row list" where
  "finish_select env sel schema params rows =
     attempt (apply_where env (ss_where sel) rows) (\<lambda>kept.
     attempt (if is_aggregate_query env sel then execute_aggregation env sel kept schema else Inr kept) (\<lambda>grouped.
     attempt (apply_window_functions env sel grouped) (\<lambda>windowed.
     attempt (apply_order env (ss_order_by sel) windowed) (\<lambda>ordered.
     attempt (apply_limit env params (ss_limit sel) ordered) (\<lambda>limited.
     attempt (apply_offset env params (ss_offset sel) limited) (\<lambda>final.
     collect_results (map (\<lambda>ctx. project_row env ctx (ss_projections sel)) final)))))))"

fun projection_only :: "eval_env \<Rightarrow> sql_value list \<Rightarrow> sql_expr projection list \<Rightarrow> eval_error + result_field list \<times> row" where
  "projection_only env params [] = Inr ([], [])"
| "projection_only env params (p # ps) =
     (case p of
        PExpr e alias \<Rightarrow>
          attempt (eval_expr_with_db env e params) (\<lambda>v.
          attempt (projection_only env params ps) (\<lambda>(fds, cells).
          Inr ((case alias of Some a \<Rightarrow> a | None \<Rightarrow> infer_column_name env e, value_oid v) # fds, to_wire_bytes v # cells)))
      | _ \<Rightarrow> Inl (QueryFailed (str ''*'')))"

definition execute_projection_only :: "eval_env \<Rightarrow> select_stmt \<Rightarrow> sql_value list \<Rightarrow> eval_error + query_result" where
  "execute_projection_only env sel params = attempt (projection_only env params (ss_projections sel)) (\<lambda>(fds, cells). Inr (fds, [cells]))"

section \<open>Tables\<close>

type_synonym runner = "select_stmt \<Rightarrow> cte_context \<Rightarrow> outer_row list \<Rightarrow> sql_value list \<Rightarrow> bool \<Rightarrow> eval_error + query_result \<times> cte_context"
type_synonym table_rows = "table_schema option \<times> row list"

definition resolve_table_ref ::
  "runner \<Rightarrow> db_env \<Rightarrow> (sql_expr, select_stmt) table_ref \<Rightarrow> cte_context \<Rightarrow> outer_row list \<Rightarrow> sql_value list \<Rightarrow> bool
   \<Rightarrow> eval_error + table_rows \<times> cte_context" where
  "resolve_table_ref run db t ctes outer params txn =
     (case tr_subquery t of
        Some q \<Rightarrow> attempt (run q ctes outer params txn) (\<lambda>((fds, rows), ctes'). Inr ((Some (schema_from_fields (tr_name t) fds), rows), ctes'))
      | None \<Rightarrow> (case tr_func_args t of
          Some args \<Rightarrow> attempt (de_graph db (tr_name t) args params) (\<lambda>r. Inr (r, ctes))
        | None \<Rightarrow> (case map_of ctes (tr_name t) of
            Some (rows, schema) \<Rightarrow> Inr ((Some schema, rows), ctes)
          | None \<Rightarrow> (case de_virtual db (tr_name t) of
              Some r \<Rightarrow> attempt r (\<lambda>(schema, rows). Inr ((Some schema, rows), ctes))
            | None \<Rightarrow> attempt (de_scan db txn (tr_name t)) (\<lambda>rows. Inr ((de_tables db (tr_name t), rows), ctes))))))"

text \<open>An index answers an equality with at most one row; spatial and time indexes answer with several. The search for
  a spatial predicate is a parameter that tells whether there is one and, when its column has an index, the rows that
  index gives; only a condition without one is searched for a range of times.\<close>

definition index_rows :: "db_env \<Rightarrow> (sql_expr, select_stmt) table_ref \<Rightarrow> sql_expr option \<Rightarrow> cte_context \<Rightarrow> bool \<Rightarrow> table_rows option" where
  "index_rows db t cond ctes txn =
     (if txn \<or> tr_subquery t \<noteq> None \<or> map_of ctes (tr_name t) \<noteq> None then None
      else
        (case (de_tables db (tr_name t), cond) of
           (Some schema, Some e) \<Rightarrow>
             (case extract_eq (de_eval db) schema e of
                Some (col, literal) \<Rightarrow>
                  map_option (\<lambda>hit. (Some schema, case hit of Some r \<Rightarrow> [r] | None \<Rightarrow> [])) (de_index db (tr_name t) col literal)
              | None \<Rightarrow>
                  map_option (Pair (Some schema))
                    (case de_spatial db (tr_name t) schema e of
                       Some hits \<Rightarrow> hits
                     | None \<Rightarrow>
                         (case extract_time_bucket_predicate (de_eval db) schema e of
                            Some (col, t0, t1) \<Rightarrow> de_time db (tr_name t) col t0 t1
                          | None \<Rightarrow> None)))
         | _ \<Rightarrow> None))"

definition resolve_primary_table ::
  "runner \<Rightarrow> db_env \<Rightarrow> (sql_expr, select_stmt) table_ref \<Rightarrow> sql_expr option \<Rightarrow> cte_context \<Rightarrow> outer_row list \<Rightarrow> sql_value list \<Rightarrow> bool
   \<Rightarrow> eval_error + table_rows \<times> cte_context" where
  "resolve_primary_table run db t cond ctes outer params txn =
     (case index_rows db t cond ctes txn of Some r \<Rightarrow> Inr (r, ctes) | None \<Rightarrow> resolve_table_ref run db t ctes outer params txn)"

record join_state =
  js_rows :: "row list"
  js_table :: "table_schema option"
  js_scopes :: "scope list"
  js_offset :: nat
  js_ctes :: cte_context

fun join_tables ::
  "runner \<Rightarrow> db_env \<Rightarrow> outer_row list \<Rightarrow> sql_value list \<Rightarrow> bool \<Rightarrow> sql_join list \<Rightarrow> join_state \<Rightarrow> eval_error + join_state" where
  "join_tables run db outer params txn [] st = Inr st"
| "join_tables run db outer params txn (jn # jns) st =
     attempt (resolve_table_ref run db (jn_table jn) (js_ctes st) outer params txn) (\<lambda>((schema, rows), ctes).
     let alias = ref_alias (jn_table jn)
     in attempt (apply_join (de_eval db) (de_pairs db) (js_rows st) rows jn (js_table st) schema (js_scopes st) alias) (\<lambda>joined.
        join_tables run db outer params txn jns
          \<lparr>js_rows = joined, js_table = merge_schema (js_table st) schema,
           js_scopes = js_scopes st @ [(alias, js_offset st, js_offset st + width schema)], js_offset = js_offset st + width schema,
           js_ctes = ctes\<rparr>))"

definition row_contexts :: "join_state \<Rightarrow> outer_row list \<Rightarrow> sql_value list \<Rightarrow> row_context list" where
  "row_contexts st outer params =
     map (\<lambda>r. (db_context r (js_table st))\<lparr>rc_outer := outer, rc_params := params, rc_scopes := js_scopes st\<rparr>) (js_rows st)"

section \<open>Common table expressions\<close>

text \<open>The iteration of a recursive expression, bounded by a count of steps.\<close>

fun recursive_steps ::
  "(cte_context \<Rightarrow> eval_error + query_result \<times> cte_context) \<Rightarrow> bytes \<Rightarrow> table_schema \<Rightarrow> nat \<Rightarrow> row list \<Rightarrow> row list \<Rightarrow> cte_context
   \<Rightarrow> eval_error + row list \<times> cte_context" where
  "recursive_steps step name schema 0 all working ctes = Inl (QueryFailed name)"
| "recursive_steps step name schema (Suc n) all working ctes =
     attempt (step ((name, working, schema) # ctes)) (\<lambda>((_, rows), ctes').
       if rows = [] then Inr (all, ctes') else recursive_steps step name schema n (all @ rows) rows ctes')"

definition without_union :: "select_stmt \<Rightarrow> select_stmt" where
  "without_union sel =
     SelectStmt (ss_ctes sel) (ss_distinct sel) (ss_projections sel) (ss_from sel) (ss_where sel) (ss_group_by sel) (ss_having sel)
       (ss_order_by sel) (ss_limit sel) (ss_offset sel) None"

definition materialize_cte ::
  "runner \<Rightarrow> select_stmt cte \<Rightarrow> cte_context \<Rightarrow> outer_row list \<Rightarrow> sql_value list \<Rightarrow> bool \<Rightarrow> eval_error + cte_context" where
  "materialize_cte run c ctes outer params txn =
     (case (cte_recursive c, ss_union (cte_subquery c)) of
        (True, Some (_, term)) \<Rightarrow>
          attempt (run (without_union (cte_subquery c)) ctes outer params txn) (\<lambda>((fds, rows), ctes').
          let schema = cte_schema c fds
          in attempt (recursive_steps (\<lambda>cx. run term cx outer params txn) (cte_name c) schema 10001 rows rows ctes') (\<lambda>(all, ctes'').
             Inr ((cte_name c, all, schema) # ctes'')))
      | _ \<Rightarrow>
          attempt (run (cte_subquery c) ctes outer params txn) (\<lambda>((fds, rows), ctes').
          Inr ((cte_name c, rows, cte_schema c fds) # ctes')))"

fun materialize_all ::
  "runner \<Rightarrow> select_stmt cte list \<Rightarrow> cte_context \<Rightarrow> outer_row list \<Rightarrow> sql_value list \<Rightarrow> bool \<Rightarrow> eval_error + cte_context" where
  "materialize_all run [] ctes outer params txn = Inr ctes"
| "materialize_all run (c # cs) ctes outer params txn =
     attempt (materialize_cte run c ctes outer params txn) (\<lambda>ctes'. materialize_all run cs ctes' outer params txn)"

section \<open>Queries\<close>

fun first_rows :: "row list \<Rightarrow> row list \<Rightarrow> row list" where
  "first_rows seen [] = []"
| "first_rows seen (r # rs) = (if r \<in> set seen then first_rows seen rs else r # first_rows (r # seen) rs)"

definition combine_union :: "union_op \<Rightarrow> row list \<Rightarrow> row list \<Rightarrow> row list" where
  "combine_union op left right = (if op = UnionDistinct then first_rows [] (left @ right) else left @ right)"

text \<open>Subqueries of expressions run without the transaction.\<close>

definition with_subqueries :: "runner \<Rightarrow> db_env \<Rightarrow> db_env" where
  "with_subqueries run db =
     db\<lparr>de_eval := (de_eval db)\<lparr>ev_select := \<lambda>q outer params. attempt (run q [] outer params False) (\<lambda>((_, rows), _). Inr rows)\<rparr>\<rparr>"

definition run_from ::
  "runner \<Rightarrow> db_env \<Rightarrow> select_stmt \<Rightarrow> (sql_expr, select_stmt) table_with_joins \<Rightarrow> cte_context \<Rightarrow> outer_row list \<Rightarrow> sql_value list \<Rightarrow> bool
   \<Rightarrow> eval_error + query_result \<times> cte_context" where
  "run_from run db sel tbl ctes outer params txn =
     attempt (resolve_primary_table run db (tw_primary tbl) (ss_where sel) ctes outer params txn) (\<lambda>((schema, rows), ctes').
     let alias = ref_alias (tw_primary tbl);
         order = reorder_inner_joins (de_tables db) (de_stats db) alias schema (tw_joins tbl)
     in attempt (join_tables run db outer params txn (map ((!) (tw_joins tbl)) order)
          \<lparr>js_rows = rows, js_table = schema, js_scopes = [(alias, 0, width schema)], js_offset = width schema, js_ctes = ctes'\<rparr>) (\<lambda>st.
        attempt (build_fields (de_eval db) (js_table st) (ss_projections sel)) (\<lambda>fds.
        attempt (finish_select (de_eval db) sel (js_table st) params (row_contexts st outer params)) (\<lambda>out.
        Inr ((fds, out), js_ctes st)))))"

definition exec_query ::
  "runner \<Rightarrow> db_env \<Rightarrow> select_stmt \<Rightarrow> cte_context \<Rightarrow> outer_row list \<Rightarrow> sql_value list \<Rightarrow> bool \<Rightarrow> eval_error + query_result \<times> cte_context" where
  "exec_query run db sel ctes outer params txn =
     (case ss_union sel of
        Some (op, rhs) \<Rightarrow>
          attempt (run (without_union sel) ctes outer params txn) (\<lambda>((fds, left), ctes').
          attempt (run rhs ctes' outer params txn) (\<lambda>((_, right), ctes'').
          Inr ((fds, combine_union op left right), ctes'')))
      | None \<Rightarrow>
          attempt (materialize_all run (ss_ctes sel) ctes outer params txn) (\<lambda>ctes'.
          case ss_from sel of
            None \<Rightarrow> attempt (execute_projection_only (de_eval db) sel params) (\<lambda>r. Inr (r, ctes'))
          | Some tbl \<Rightarrow> run_from run db sel tbl ctes' outer params txn))"

primrec execute_select :: "nat \<Rightarrow> db_env \<Rightarrow> runner" where
  "execute_select 0 db = (\<lambda>sel ctes outer params txn. Inl (QueryFailed (str ''depth'')))"
| "execute_select (Suc n) db =
     (\<lambda>sel ctes outer params txn. exec_query (execute_select n db) (with_subqueries (execute_select n db) db) sel ctes outer params txn)"

section \<open>Sorting by keys\<close>

text \<open>A comparison that is a total preorder on the rows at hand.\<close>

definition reverse :: "ordering \<Rightarrow> ordering" where
  "reverse c = (case c of Less \<Rightarrow> Greater | Equal \<Rightarrow> Equal | Greater \<Rightarrow> Less)"

definition total_cmp :: "('a \<Rightarrow> 'a \<Rightarrow> ordering) \<Rightarrow> 'a set \<Rightarrow> bool" where
  "total_cmp c S \<longleftrightarrow>
     (\<forall>a\<in>S. \<forall>b\<in>S. c b a = reverse (c a b))
     \<and> (\<forall>a\<in>S. \<forall>b\<in>S. \<forall>d\<in>S. c a b \<noteq> Greater \<longrightarrow> c b d \<noteq> Greater \<longrightarrow> c a d \<noteq> Greater)"

lemma mset_insert_by: "mset (insert_by c x xs) = add_mset x (mset xs)"
  by (induction xs) auto

lemma mset_sort_by: "mset (sort_by c xs) = mset xs"
  unfolding sort_by_def by (induction xs) (auto simp: mset_insert_by)

lemma set_insert_by: "set (insert_by c x xs) = insert x (set xs)"
  using mset_insert_by [of c x xs] by (metis set_mset_add_mset_insert set_mset_mset)

lemma reverse_simps [simp]: "reverse c = Greater \<longleftrightarrow> c = Less" "reverse c = Less \<longleftrightarrow> c = Greater" "reverse c = Equal \<longleftrightarrow> c = Equal"
  by (cases c; simp add: reverse_def)+

lemma total_cmp_swap: "total_cmp c S \<Longrightarrow> a \<in> S \<Longrightarrow> b \<in> S \<Longrightarrow> c b a = reverse (c a b)"
  unfolding total_cmp_def by blast

lemma total_cmp_trans:
  "total_cmp c S \<Longrightarrow> a \<in> S \<Longrightarrow> b \<in> S \<Longrightarrow> d \<in> S \<Longrightarrow> c a b \<noteq> Greater \<Longrightarrow> c b d \<noteq> Greater \<Longrightarrow> c a d \<noteq> Greater"
  unfolding total_cmp_def by blast

lemma total_cmp_equal:
  assumes "total_cmp c S" "a \<in> S" "b \<in> S" "d \<in> S" "c a b \<noteq> Greater" "c b d \<noteq> Greater" "c a d = Equal"
  shows "c a b = Equal \<and> c b d = Equal"
proof -
  have "c d a = Equal" using total_cmp_swap [OF assms(1,2,4)] assms(7) by simp
  then have "c b a \<noteq> Greater" "c d b \<noteq> Greater"
    using total_cmp_trans [OF assms(1,3,4,2)] total_cmp_trans [OF assms(1,4,2,3)] assms(5,6) by simp_all
  then show ?thesis
    using total_cmp_swap [OF assms(1,2,3)] total_cmp_swap [OF assms(1,3,4)] assms(5,6) by (cases "c a b"; cases "c b d") simp_all
qed

lemma sorted_insert_by:
  assumes "total_cmp c S" "x \<in> S" "set xs \<subseteq> S" "sorted_wrt (\<lambda>a b. c a b \<noteq> Greater) xs"
  shows "sorted_wrt (\<lambda>a b. c a b \<noteq> Greater) (insert_by c x xs)"
  using assms(3,4)
proof (induction xs)
  case (Cons y ys)
  have y: "y \<in> S" using Cons by simp
  show ?case
  proof (cases "c x y = Greater")
    case True
    then have "c y x \<noteq> Greater" using total_cmp_swap [OF assms(1,2) y] by simp
    then show ?thesis using True Cons by (auto simp: set_insert_by)
  next
    case False
    then have "c x z \<noteq> Greater" if "z \<in> set ys" for z
      using that total_cmp_trans [OF assms(1,2) y] Cons.prems by auto
    then show ?thesis using False Cons by auto
  qed
qed simp

lemma sorted_sort_by: "total_cmp c (set xs) \<Longrightarrow> sorted_wrt (\<lambda>a b. c a b \<noteq> Greater) (sort_by c xs)"
proof -
  assume c: "total_cmp c (set xs)"
  have "set ys \<subseteq> set xs \<Longrightarrow> sorted_wrt (\<lambda>a b. c a b \<noteq> Greater) (foldr (insert_by c) ys []) \<and> set (foldr (insert_by c) ys []) = set ys" for ys
    using sorted_insert_by [OF c] by (induction ys) (auto simp: set_insert_by)
  then show ?thesis by (simp add: sort_by_def)
qed

lemma total_cmp_then:
  assumes "total_cmp c1 S" "total_cmp c2 S"
  shows "total_cmp (\<lambda>a b. then_with (c1 a b) (c2 a b)) S"
proof -
  have swap: "then_with (c1 b a) (c2 b a) = reverse (then_with (c1 a b) (c2 a b))" if "a \<in> S" "b \<in> S" for a b
    using total_cmp_swap [OF assms(1) that] total_cmp_swap [OF assms(2) that]
    by (cases "c1 a b") (simp_all add: then_with_def reverse_def)
  have trans: "then_with (c1 a d) (c2 a d) \<noteq> Greater"
    if S: "a \<in> S" "b \<in> S" "d \<in> S" and le: "then_with (c1 a b) (c2 a b) \<noteq> Greater" "then_with (c1 b d) (c2 b d) \<noteq> Greater" for a b d
  proof -
    have first: "c1 a b \<noteq> Greater" "c1 b d \<noteq> Greater" using le by (auto simp: then_with_def)
    have ad: "c1 a d \<noteq> Greater" using total_cmp_trans [OF assms(1) S first] .
    show ?thesis
    proof (cases "c1 a d = Equal")
      case True
      then have "c2 a b \<noteq> Greater" "c2 b d \<noteq> Greater" using total_cmp_equal [OF assms(1) S first] le by (auto simp: then_with_def)
      then show ?thesis using True total_cmp_trans [OF assms(2) S] by (simp add: then_with_def)
    next
      case False
      then show ?thesis using ad by (cases "c1 a d") (auto simp: then_with_def)
    qed
  qed
  show ?thesis unfolding total_cmp_def using swap trans by blast
qed

section \<open>ORDER BY\<close>

definition key_cmp :: "eval_env \<Rightarrow> sql_expr order_by \<Rightarrow> row_context \<Rightarrow> row_context \<Rightarrow> ordering" where
  "key_cmp env ob a b =
     (let c = partition_cmp env (ob_expr ob) a b in if c = 0 then Equal else if ob_asc ob = (c < 0) then Less else Greater)"

lemma order_cmp_then: "order_cmp env (ob # obs) a b = then_with (key_cmp env ob a b) (order_cmp env obs a b)"
  by (simp add: key_cmp_def then_with_def Let_def)

definition orderable :: "value_type \<Rightarrow> bool" where
  "orderable ty \<longleftrightarrow> ty \<in> {TyInt, TyText, TyBool}"

lemma compare_swap:
  "type_of v = type_of w \<Longrightarrow> orderable (type_of v) \<Longrightarrow> \<exists>c. value_compare v w = Inr c \<and> value_compare w v = Inr (- c)"
  by (cases v; cases w) (auto simp: orderable_def value_compare_def ordering_int_def cmp_def)

lemma compare_trans:
  assumes "type_of u = type_of v" "type_of v = type_of w" "orderable (type_of v)" "value_compare u v = Inr c" "value_compare v w = Inr d"
    "value_compare u w = Inr e"
  shows "(c \<le> 0 \<longrightarrow> d \<le> 0 \<longrightarrow> e \<le> 0) \<and> (0 \<le> c \<longrightarrow> 0 \<le> d \<longrightarrow> 0 \<le> e)"
  using assms by (cases u; cases v; cases w) (auto simp: orderable_def value_compare_def ordering_int_def cmp_def split: if_splits)

lemma total_key_cmp:
  assumes "\<And>ctx. ctx \<in> S \<Longrightarrow> type_of (eval_or_null env ctx (ob_expr ob)) = ty" "orderable ty"
  shows "total_cmp (key_cmp env ob) S"
proof -
  have swap: "\<exists>c. value_compare (eval_or_null env a (ob_expr ob)) (eval_or_null env b (ob_expr ob)) = Inr c
      \<and> value_compare (eval_or_null env b (ob_expr ob)) (eval_or_null env a (ob_expr ob)) = Inr (- c)" if "a \<in> S" "b \<in> S" for a b
    using compare_swap assms that by simp
  have flip: "partition_cmp env (ob_expr ob) b a = - partition_cmp env (ob_expr ob) a b" if "a \<in> S" "b \<in> S" for a b
    using swap [OF that] by (auto simp: partition_cmp_def)
  have step: "(partition_cmp env (ob_expr ob) a b \<le> 0 \<longrightarrow> partition_cmp env (ob_expr ob) b d \<le> 0 \<longrightarrow> partition_cmp env (ob_expr ob) a d \<le> 0)
      \<and> (0 \<le> partition_cmp env (ob_expr ob) a b \<longrightarrow> 0 \<le> partition_cmp env (ob_expr ob) b d \<longrightarrow> 0 \<le> partition_cmp env (ob_expr ob) a d)"
    if "a \<in> S" "b \<in> S" "d \<in> S" for a b d
    using swap [OF that(1,2)] swap [OF that(2,3)] swap [OF that(1,3)] assms that
      compare_trans [of "eval_or_null env a (ob_expr ob)" "eval_or_null env b (ob_expr ob)" "eval_or_null env d (ob_expr ob)"]
    by (auto simp: partition_cmp_def)
  have greater: "key_cmp env ob a b \<noteq> Greater \<longleftrightarrow>
      (if ob_asc ob then partition_cmp env (ob_expr ob) a b \<le> 0 else 0 \<le> partition_cmp env (ob_expr ob) a b)" for a b
    by (auto simp: key_cmp_def Let_def)
  have "key_cmp env ob b a = reverse (key_cmp env ob a b)" if "a \<in> S" "b \<in> S" for a b
    using flip [OF that] by (auto simp: key_cmp_def Let_def reverse_def)
  moreover have "key_cmp env ob a d \<noteq> Greater"
    if "a \<in> S" "b \<in> S" "d \<in> S" "key_cmp env ob a b \<noteq> Greater" "key_cmp env ob b d \<noteq> Greater" for a b d
    using that step [OF that(1-3)] unfolding greater by auto
  ultimately show ?thesis unfolding total_cmp_def by blast
qed

lemma total_order_cmp:
  "(\<And>ob. ob \<in> set obs \<Longrightarrow> \<exists>ty. orderable ty \<and> (\<forall>ctx\<in>S. type_of (eval_or_null env ctx (ob_expr ob)) = ty)) \<Longrightarrow>
    total_cmp (order_cmp env obs) S"
proof (induction obs)
  case Nil
  show ?case by (simp add: total_cmp_def reverse_def)
next
  case (Cons ob obs)
  then obtain ty where ty: "orderable ty" "\<forall>ctx\<in>S. type_of (eval_or_null env ctx (ob_expr ob)) = ty" by fastforce
  have "total_cmp (key_cmp env ob) S" using total_key_cmp [of S env ob ty] ty by blast
  from total_cmp_then [OF this Cons.IH] Cons.prems show ?case by (simp only: order_cmp_then) force
qed

lemma keys_do_not_panic:
  assumes "\<And>ob. ob \<in> set obs \<Longrightarrow> \<exists>ty. orderable ty \<and> (\<forall>ctx\<in>set rows. type_of (eval_or_null env ctx (ob_expr ob)) = ty)"
  shows "\<not> keys_panic env (map ob_expr obs) rows"
proof
  assume "keys_panic env (map ob_expr obs) rows"
  then obtain ctx ob where "ctx \<in> set rows" "ob \<in> set obs" "eval env ctx (ob_expr ob) = Inl Panicked"
    by (auto simp: keys_panic_def list_ex_iff)
  then show False using assms [of ob] by (auto simp: eval_or_null_def orderable_def)
qed

text \<open>What sorting means, stated on the values of the keys: a row precedes another one if in the first
  term in which their keys differ its key is the smaller one, or the greater one when the term is
  descending. Integers are ordered as numbers, texts by their bytes, and false is below true.\<close>

fun value_less :: "sql_value \<Rightarrow> sql_value \<Rightarrow> bool" where
  "value_less (VInt a) (VInt b) = (a < b)"
| "value_less (VText a) (VText b) = (a < b)"
| "value_less (VBool a) (VBool b) = (\<not> a \<and> b)"
| "value_less _ _ = False"

definition order_key :: "eval_env \<Rightarrow> row_context \<Rightarrow> sql_expr order_by \<Rightarrow> sql_value" where
  "order_key env ctx ob = (case eval env ctx (ob_expr ob) of Inr v \<Rightarrow> v | Inl _ \<Rightarrow> VNull)"

definition precedes :: "eval_env \<Rightarrow> sql_expr order_by list \<Rightarrow> row_context \<Rightarrow> row_context \<Rightarrow> bool" where
  "precedes env obs a b \<longleftrightarrow>
     (\<exists>i<length obs. (\<forall>j<i. order_key env a (obs ! j) = order_key env b (obs ! j)) \<and>
        (if ob_asc (obs ! i) then value_less (order_key env a (obs ! i)) (order_key env b (obs ! i))
         else value_less (order_key env b (obs ! i)) (order_key env a (obs ! i))))"

lemma precedes_Cons:
  "precedes env (ob # obs) a b \<longleftrightarrow>
     (if ob_asc ob then value_less (order_key env a ob) (order_key env b ob) else value_less (order_key env b ob) (order_key env a ob)) \<or>
     order_key env a ob = order_key env b ob \<and> precedes env obs a b"
  unfolding precedes_def length_Cons Ex_less_Suc2 by (auto simp: All_less_Suc2)

lemma compare_value_less:
  assumes "type_of v = type_of w" "orderable (type_of v)"
  shows "\<exists>c. value_compare v w = Inr c \<and> (c < 0 \<longleftrightarrow> value_less v w) \<and> (0 < c \<longleftrightarrow> value_less w v) \<and> (c = 0 \<longleftrightarrow> v = w)"
  using assms by (cases v; cases w) (auto simp: orderable_def value_compare_def ordering_int_def cmp_def)

lemma order_cmp_precedes:
  assumes "\<And>ob. ob \<in> set obs \<Longrightarrow> \<exists>ty. orderable ty \<and> type_of (order_key env a ob) = ty \<and> type_of (order_key env b ob) = ty"
  shows "order_cmp env obs a b = Greater \<longleftrightarrow> precedes env obs b a"
  using assms
proof (induction obs)
  case Nil
  show ?case by (simp add: precedes_def)
next
  case (Cons ob obs)
  have k: "eval_or_null env ctx (ob_expr ob) = order_key env ctx ob" for ctx
    by (simp add: eval_or_null_def order_key_def)
  obtain c where c: "value_compare (order_key env a ob) (order_key env b ob) = Inr c"
    "c < 0 \<longleftrightarrow> value_less (order_key env a ob) (order_key env b ob)" "0 < c \<longleftrightarrow> value_less (order_key env b ob) (order_key env a ob)"
    "c = 0 \<longleftrightarrow> order_key env a ob = order_key env b ob"
    using compare_value_less [of "order_key env a ob" "order_key env b ob"] Cons.prems [of ob] by auto
  have "partition_cmp env (ob_expr ob) a b = c" by (simp add: partition_cmp_def k c(1))
  then show ?case using Cons c(2-4) by (auto simp: precedes_Cons)
qed

lemma filter_insert_by:
  "(\<And>y. y \<in> set ys \<Longrightarrow> P x \<Longrightarrow> P y \<Longrightarrow> c x y \<noteq> Greater) \<Longrightarrow>
    filter P (insert_by c x ys) = (if P x then x # filter P ys else filter P ys)"
  by (induction ys) auto

text \<open>Sorting keeps the order of rows that are not told apart.\<close>

lemma filter_sort_by:
  assumes "\<And>x y. x \<in> set xs \<Longrightarrow> y \<in> set xs \<Longrightarrow> P x \<Longrightarrow> P y \<Longrightarrow> c x y \<noteq> Greater"
  shows "filter P (sort_by c xs) = filter P xs"
proof -
  have "set ys \<subseteq> set xs \<Longrightarrow> filter P (foldr (insert_by c) ys []) = filter P ys \<and> set (foldr (insert_by c) ys []) = set ys" for ys
  proof (induction ys)
    case (Cons y ys)
    then have IH: "filter P (foldr (insert_by c) ys []) = filter P ys" "set (foldr (insert_by c) ys []) = set ys" by auto
    have "filter P (insert_by c y (foldr (insert_by c) ys [])) = (if P y then y # filter P ys else filter P ys)"
      unfolding IH(1) [symmetric] by (rule filter_insert_by) (use assms Cons.prems IH(2) in auto)
    then show ?case using IH by (simp add: set_insert_by)
  qed simp
  then show ?thesis by (simp add: sort_by_def)
qed

text \<open>C23: \<open>ORDER BY\<close> over terms whose keys have, each, one type on all rows (integer, text or boolean)
  returns a permutation of the rows in which no row comes after one it precedes: the first term in which
  two rows differ decides, the smaller key first, or the greater one first where the term is descending.
  Rows with the same keys keep their order.\<close>

theorem order_by_sorts:
  assumes "\<And>ob. ob \<in> set obs \<Longrightarrow> \<exists>ty. orderable ty \<and> (\<forall>ctx\<in>set rows. type_of (order_key env ctx ob) = ty)"
  shows "\<exists>out. apply_order env obs rows = Inr out \<and> mset out = mset rows \<and> sorted_wrt (\<lambda>a b. \<not> precedes env obs b a) out
    \<and> (\<forall>ks. filter (\<lambda>ctx. map (order_key env ctx) obs = ks) out = filter (\<lambda>ctx. map (order_key env ctx) obs = ks) rows)"
proof (cases "obs = []")
  case True
  then show ?thesis by (simp add: apply_order_def precedes_def sorted_wrt_iff_nth_less)
next
  case False
  have k: "eval_or_null env ctx (ob_expr ob) = order_key env ctx ob" for ctx ob
    by (simp add: eval_or_null_def order_key_def)
  have run: "apply_order env obs rows = Inr (sort_by (order_cmp env obs) rows)"
    using keys_do_not_panic [of obs rows env, unfolded k, OF assms] False by (simp add: apply_order_def)
  have cmp: "order_cmp env obs a b = Greater \<longleftrightarrow> precedes env obs b a" if "a \<in> set rows" "b \<in> set rows" for a b
    using assms that by (intro order_cmp_precedes) blast
  have "sorted_wrt (\<lambda>a b. order_cmp env obs a b \<noteq> Greater) (sort_by (order_cmp env obs) rows)"
    by (rule sorted_sort_by [OF total_order_cmp]) (use assms in \<open>simp add: k\<close>)
  then have "sorted_wrt (\<lambda>a b. \<not> precedes env obs b a) (sort_by (order_cmp env obs) rows)"
    by (rule sorted_wrt_mono_rel [rotated]) (use cmp mset_eq_setD [OF mset_sort_by [of "order_cmp env obs" rows]] in auto)
  moreover have "\<not> precedes env obs b a" if "map (order_key env a) obs = map (order_key env b) obs" for a b
  proof -
    have "\<not> value_less v v" for v by (cases v) simp_all
    then show ?thesis using that by (auto simp: precedes_def dest: nth_mem)
  qed
  then have "filter (\<lambda>ctx. map (order_key env ctx) obs = ks) (sort_by (order_cmp env obs) rows)
      = filter (\<lambda>ctx. map (order_key env ctx) obs = ks) rows" for ks
    by (intro filter_sort_by) (use cmp in auto)
  ultimately show ?thesis using run mset_sort_by by blast
qed

text \<open>NULL compares equal to every value, so with NULLs the comparison is no order.\<close>

lemma null_breaks_order:
  "\<not> total_cmp (order_cmp env [OrderBy (XParam 1) True]) {demo_context 2, (demo_context 0)\<lparr>rc_params := [VNull]\<rparr>, demo_context 1}"
proof
  let ?c = "order_cmp env [OrderBy (XParam 1) True]" and ?n = "(demo_context 0)\<lparr>rc_params := [VNull]\<rparr>"
  have "eval_or_null env (demo_context n) (XParam 1) = VInt n" "eval_or_null env ?n (XParam 1) = VNull" for n
    by (simp_all add: eval_or_null_def eval_param_def demo_context_def)
  then have "?c (demo_context 2) ?n = Equal" "?c ?n (demo_context 1) = Equal" "?c (demo_context 2) (demo_context 1) = Greater"
    by (simp_all add: partition_cmp_def value_compare_def ordering_int_def cmp_def)
  moreover assume "total_cmp ?c {demo_context 2, ?n, demo_context 1}"
  ultimately show False using total_cmp_trans [of ?c "{demo_context 2, ?n, demo_context 1}" "demo_context 2" ?n "demo_context 1"] by simp
qed

section \<open>LIMIT and OFFSET\<close>

text \<open>The limit is applied before the offset, so that a query whose offset is not below its limit returns
  nothing, however many rows there are.\<close>

theorem limit_cuts_before_offset:
  assumes "eval_expr env limit params = Inr (VInt l)" "eval_expr env offset params = Inr (VInt k)"
  shows "attempt (apply_limit env params (Some limit) rows) (apply_offset env params (Some offset)) =
    Inr (drop (nat (max k 0)) (take (nat (max l 0)) rows)) \<and> (l \<le> k \<longrightarrow> drop (nat (max k 0)) (take (nat (max l 0)) rows) = [])"
  using assms by (auto simp: apply_limit_def apply_offset_def row_count_def)

theorem limit_cuts_before_offset_witness:
  "attempt (apply_limit demo_eval_env [] (Some (XLiteral (LInt 10))) [1..<100]) (apply_offset demo_eval_env [] (Some (XLiteral (LInt 10)))) = Inr []"
  using limit_cuts_before_offset [of demo_eval_env "XLiteral (LInt 10)" "[]" 10 "XLiteral (LInt 10)" 10 "[1..<100]"]
  by (simp add: eval_expr_def eval_literal_def)

theorem order_by_sorts_witness:
  "\<exists>out. apply_order demo_eval_env [OrderBy (XParam 1) False] [demo_context 1, demo_context 3, demo_context 2] = Inr out
     \<and> mset out = mset [demo_context 1, demo_context 3, demo_context 2]
     \<and> sorted_wrt (\<lambda>a b. \<not> precedes demo_eval_env [OrderBy (XParam 1) False] b a) out
     \<and> (\<forall>ks. filter (\<lambda>ctx. map (order_key demo_eval_env ctx) [OrderBy (XParam 1) False] = ks) out
        = filter (\<lambda>ctx. map (order_key demo_eval_env ctx) [OrderBy (XParam 1) False] = ks) [demo_context 1, demo_context 3, demo_context 2])"
proof (rule order_by_sorts)
  have "order_key demo_eval_env (demo_context n) (OrderBy (XParam 1) False) = VInt n" for n
    by (simp add: order_key_def eval_param_def demo_context_def)
  then show "\<exists>ty. orderable ty \<and> (\<forall>ctx\<in>set [demo_context 1, demo_context 3, demo_context 2]. type_of (order_key demo_eval_env ctx ob) = ty)"
    if "ob \<in> set [OrderBy (XParam 1) False]" for ob
    using that by (auto simp: orderable_def)
qed

section \<open>A query over one table\<close>

definition star_query :: "bytes \<Rightarrow> sql_expr \<Rightarrow> select_stmt" where
  "star_query t e =
     SelectStmt [] False [PWildcard] (Some (TableWithJoins (TableRef t None None None) [])) (Some e) [] None [] None None None"

lemma keep_spec: "(\<And>x. x \<in> set xs \<Longrightarrow> P x = Inr (p x)) \<Longrightarrow> keep P xs = Inr (filter p xs)"
  by (induction xs) auto

lemma collect_results_Inr: "collect_results (map (\<lambda>x. Inr (f x)) xs) = Inr (map f xs)"
  by (induction xs) simp_all

definition table_context :: "bytes \<Rightarrow> table_schema \<Rightarrow> sql_value list \<Rightarrow> row \<Rightarrow> row_context" where
  "table_context t s params r = (db_context r (Some s))\<lparr>rc_outer := [], rc_params := params, rc_scopes := [(t, 0, length (sch_columns s))]\<rparr>"

lemma finish_star:
  assumes "\<And>c. c \<in> set rows \<Longrightarrow> recovered False is_truthy (eval env c e) = Inr (p c)"
  shows "finish_select env (star_query t e) schema params rows = Inr (map rc_values (filter p rows))"
  using keep_spec [of rows "\<lambda>ctx. recovered False is_truthy (eval env ctx e)" p, OF assms] collect_results_Inr [of rc_values "filter p rows"]
  by (simp add: finish_select_def star_query_def apply_where_def is_aggregate_query_def projected_exprs_def map_filter_simps
      apply_window_functions_def window_exprs_def apply_order_def apply_limit_def apply_offset_def)

text \<open>C20: \<open>SELECT * FROM t WHERE e\<close> over a stored table without a usable index returns, in their order, exactly the rows of the
  table on which the condition evaluates to something true; rows on which it fails are left out.\<close>

theorem select_star_filters:
  assumes table: "de_tables db t = Some s" "de_virtual db t = None" "de_scan db txn t = Inr rows"
    and scan: "index_rows (with_subqueries (execute_select n db) db) (TableRef t None None None) (Some e) [] txn = None"
    and safe: "\<And>r. r \<in> set rows \<Longrightarrow> eval (de_eval (with_subqueries (execute_select n db) db)) (table_context t s params r) e \<noteq> Inl Panicked"
  shows "execute_select (Suc n) db (star_query t e) [] [] params txn =
    Inr ((map (\<lambda>c. (sc_name c, type_oid (sc_type c))) (sch_columns s),
          filter (\<lambda>r. case eval (de_eval (with_subqueries (execute_select n db) db)) (table_context t s params r) e of Inr v \<Rightarrow> is_truthy v | Inl _ \<Rightarrow> False) rows),
         [])"
proof -
  let ?db = "with_subqueries (execute_select n db) db"
  let ?p = "\<lambda>c. case eval (de_eval ?db) c e of Inr v \<Rightarrow> is_truthy v | Inl _ \<Rightarrow> False"
  have db: "de_tables ?db t = Some s" "de_virtual ?db t = None" "de_scan ?db txn t = Inr rows"
    using table by (simp_all add: with_subqueries_def)
  have "recovered False is_truthy (eval (de_eval ?db) c e) = Inr (?p c)" if "c \<in> set (map (table_context t s params) rows)" for c
    using that safe by (auto simp: recovered_def split: sum.splits)
  from finish_star [OF this]
  have "finish_select (de_eval ?db) (star_query t e) (Some s) params (map (table_context t s params) rows) =
      Inr (map rc_values (filter ?p (map (table_context t s params) rows)))" .
  moreover have "rc_values (table_context t s params r) = r" for r by (simp add: table_context_def db_context_def new_context_def)
  ultimately have fin: "finish_select (de_eval ?db) (star_query t e) (Some s) params (map (table_context t s params) rows) =
      Inr (filter (\<lambda>r. ?p (table_context t s params r)) rows)"
    by (simp add: filter_map comp_def)
  have ctxs: "row_contexts \<lparr>js_rows = rows, js_table = Some s, js_scopes = [(t, 0, length (sch_columns s))], js_offset = length (sch_columns s),
      js_ctes = []\<rparr> [] params = map (table_context t s params) rows"
    by (simp add: row_contexts_def table_context_def)
  show ?thesis
    using db scan fin
    by (simp add: exec_query_def run_from_def resolve_primary_table_def resolve_table_ref_def reorder_inner_joins_def ctxs
        ref_alias_def width_def star_query_def Let_def)
qed

section \<open>What an index and a transaction change\<close>

definition demo_database :: "row option option \<Rightarrow> db_env" where
  "demo_database hit =
     \<lparr>de_eval = demo_eval_env, de_tables = (\<lambda>_. Some (demo_schema (str ''t'') [str ''x'', str ''y''])),
      de_scan = (\<lambda>txn _. Inr (if txn then [[Some [53], Some [49]]] else [[Some [53], Some [49]], [Some [53], Some [50]]])),
      de_virtual = (\<lambda>_. None), de_graph = (\<lambda>_ _ _. Inl NoDatabase), de_index = (\<lambda>_ _ _. hit), de_spatial = (\<lambda>_ _ _. None), de_time = (\<lambda>_ _ _ _. None), de_stats = (\<lambda>_. None),
      de_pairs = (\<lambda>_ _ _. None)\<rparr>"

definition demo_cond :: sql_expr where
  "demo_cond = XBinary OEq (XIdent (str ''x'')) (XLiteral (LInt 5))"

theorem select_star_filters_witness:
  "execute_select (Suc 0) (demo_database None) (star_query (str ''t'') demo_cond) [] [] [] False =
   Inr (([(str ''x'', 20), (str ''y'', 20)], [[Some [53], Some [49]], [Some [53], Some [50]]]), [])"
proof -
  let ?db = "with_subqueries (execute_select 0 (demo_database None)) (demo_database None)"
  let ?s = "demo_schema (str ''t'') [str ''x'', str ''y'']"
  have names: "str ''x'' = [120]" "str ''y'' = [121]" "str ''t'' = [116]" by (simp_all add: str_def of_char_def)
  have cond: "eval (de_eval ?db) (table_context (str ''t'') ?s [] r) demo_cond = Inr (VBool True)" if "r \<in> {[Some [53], Some [49]], [Some [53], Some [50]]}" for r
    using that digit_cells
    by (auto simp: demo_cond_def names table_context_def db_context_def new_context_def empty_context_def resolve_column_def named_lookup_def
        column_position_def position_where_def demo_schema_def demo_column_def cell_value_def eval_literal_def eval_binop_def strict_op_def
        compares_def value_compare_def ordering_int_def cmp_def Let_def)
  have db: "de_tables (demo_database None) (str ''t'') = Some ?s" "de_virtual (demo_database None) (str ''t'') = None"
    "de_scan (demo_database None) False (str ''t'') = Inr [[Some [53], Some [49]], [Some [53], Some [50]]]"
    by (simp_all add: demo_database_def)
  have no_index: "de_index (with_subqueries run (demo_database None)) t c l = None" "de_spatial (with_subqueries run (demo_database None)) t s e = None"
    "de_time (with_subqueries run (demo_database None)) t c i j = None" for run t s c l e i j
    by (simp_all add: demo_database_def with_subqueries_def)
  have "index_rows ?db (TableRef (str ''t'') None None None) (Some demo_cond) [] False = None"
    by (simp add: index_rows_def no_index split: option.splits prod.splits)
  note run = select_star_filters [OF db this, of "[]"]
  have cols: "map (\<lambda>c. (sc_name c, type_oid (sc_type c))) (sch_columns ?s) = [(str ''x'', 20), (str ''y'', 20)]"
    by (simp add: demo_schema_def demo_column_def type_oid_def)
  show ?thesis
    using run [unfolded cols] cond [of "[Some [53], Some [49]]"] cond [of "[Some [53], Some [50]]"]
    by (force simp: is_truthy_def simp del: execute_select.simps)
qed

text \<open>With an index on the column the same query returns the one row the index holds for the value.\<close>

lemma indexed_equality_loses_rows:
  "execute_select (Suc 0) (demo_database (Some (Some [Some [53], Some [50]]))) (star_query (str ''t'') demo_cond) [] [] [] False =
   Inr (([(str ''x'', 20), (str ''y'', 20)], [[Some [53], Some [50]]]), [])"
  by code_simp

text \<open>A subquery reads the committed rows, also inside a transaction: here one that has deleted the only row with
  \<open>y = 2\<close>.\<close>

lemma subquery_misses_transaction:
  "execute_select 2 (demo_database None)
     (star_query (str ''t'') (XExists (star_query (str ''t'') (XBinary OEq (XIdent (str ''y'')) (XLiteral (LInt 2)))) False)) [] [] [] True =
   Inr (([(str ''x'', 20), (str ''y'', 20)], [[Some [53], Some [49]]]), [])"
  by code_simp

end
