(* ===== verification/Spec2Isabelle.thy ===== *)
theory Spec2Isabelle
  imports Audit_Log Compress Lsm_Compact Lsm_Recovery Lsm_Keys Database_Txns Cache Proto Telos_Soundness
    Sql_Cache Sql_Default Rbac_Sound Scram Hpack_Rfc Btree Sql_Select
begin

text \<open>
  A verification development for Pantheon, a workspace of Rust crates. Paths below are relative
  to \<open>src/crates\<close>.

  \<^bold>\<open>The program.\<close> Keystone (\<open>keystone/tpt-keystone\<close>) is a database server: SQL and gRPC
  front ends with roles and privileges over transactions, which stage writes and commit them as batches to a
  log-structured engine; the engine logs a batch, keeps it in memory, flushes memory to sorted
  tables in an object store, compacts those, and records in a manifest which tables are
  current. One node at a time may write, by a lease in the same object store; calls to the
  store pass a guard (a bound on calls in flight, a circuit breaker) and a local cache. Telos
  (\<open>telos\<close>) is a small language with contracts whose compiler lowers contracts and bodies
  to linear integer constraints and decides them with its own solver. The spine
  (\<open>tpt-pantheon-spine-audit-log\<close>) keeps a hash-chained audit log. Appfront
  (\<open>appfront\<close>) is a user-interface toolkit.

  \<^bold>\<open>Shared layers.\<close> \<open>Prelude\<close>: bytes, fixed-width integers, byte codecs.
  \<open>Rust_Std\<close>: ordered maps, orderings, formatting, searching, as far as the code uses them.

  \<^bold>\<open>Storage\<close> (\<open>keystone/tpt-keystone/src/storage\<close>).
  \<^item> \<open>Compress\<close> (\<open>compress.rs\<close>): every codec inverts its encoder.
  \<^item> \<open>Internal_Key\<close> (\<open>internal_key.rs\<close>): versioned keys and what a snapshot sees.
  \<^item> \<open>Wal\<close> (\<open>wal.rs\<close>, \<open>io_backend.rs\<close>): replay returns acknowledged batches, a torn
    batch leaves no record, and a torn tail hides what is appended after it.
  \<^item> \<open>Object_Store\<close> (\<open>objectstore.rs\<close>): the trait as a record of operations with a locale
    of laws, interpreted for the local file system.
  \<^item> \<open>SSTable\<close> (\<open>sstable.rs\<close>), \<open>Mem_Table\<close> (\<open>lsm.rs\<close>): the two sources of
    versions; the interface \<open>version_source\<close> is interpreted for both.
  \<^item> \<open>Manifest\<close> (\<open>manifest.rs\<close>), \<open>Lease\<close> (\<open>lease.rs\<close>): compare-and-swap
    objects; fencing tokens over any interleaving of nodes.
  \<^item> \<open>Lsm\<close>, \<open>Lsm_Reads\<close>, \<open>Lsm_Writes\<close>, \<open>Lsm_Compact\<close>, \<open>Lsm_Recovery\<close>,
    \<open>Lsm_Keys\<close> (\<open>lsm.rs\<close>): the engine refines a map from keys to versions; batches,
    flushes, compactions and restarts are correct against it, each under the condition that nothing it
    overlaps with is lost: a second flush before the first one is committed drops the frozen table
    (\<open>second_flush_drops_frozen\<close>), a flush that commits cuts batches acknowledged since it began from
    the log (\<open>commit_flush_cuts_log\<close>), and a merged table shadows one flushed meanwhile
    (\<open>merged_table_shadows_flushed\<close>). Recovery is proved for sessions \<open>lsm_session\<close> of operations one
    after the other, with flushes but without compactions, and for the first torn batch after them.
  \<^item> \<open>Txn\<close> (\<open>database/txn.rs\<close>, \<open>mvcc.rs\<close>), \<open>Database\<close>, \<open>Database_Txns\<close>
    (\<open>database/mod.rs\<close>, \<open>database/storage_engine.rs\<close>): commits are atomic and isolated,
    and the engine's count of open snapshots is exact along any interleaving. A commit, or an
    autocommitted write, is one step with the flush and the compaction it triggers, although the code
    gives the engine's lock back while it uploads the tables.
  \<^item> \<open>Guard\<close> (\<open>guard.rs\<close>), \<open>Cache\<close> (\<open>cache.rs\<close>): wrappers of any lawful store;
    the bound holds under any interleaving, the cache is transparent and stays in its budget.
  \<^item> \<open>Btree\<close> (\<open>btree.rs\<close>): the index file, from bytes to search and scan, is a map as long as
    it is one leaf; the first split loses an entry.

  \<^bold>\<open>SQL\<close> (\<open>keystone/tpt-keystone/src/sql\<close>).
  \<^item> \<open>Sql_Ast\<close> (\<open>ast.rs\<close>), \<open>Sql_Lexer\<close> (\<open>lexer.rs\<close>), \<open>Sql_Parser\<close> and
    \<open>Sql_Stmts\<close> (\<open>parser.rs\<close>, \<open>mod.rs\<close>): tokens, expressions and queries, and every
    statement. A parser is a function from the remaining tokens to an error or a value and
    the tokens left.
  \<^item> \<open>Sql_Total\<close>: which statements the parser returns on, by a calculus of weakest
    preconditions over its combinators, and the statement on which it does not.
  \<^item> \<open>Sql_Print\<close>: a printer that writes only the parentheses the binding powers need is a
    right inverse of the expression parser; the interface \<open>inverting\<close> is what one level of
    the recursion needs of the level below.
  \<^item> \<open>Sql_Default\<close> (\<open>executor/ddl.rs\<close>): column defaults through text, from lexer to
    parser. \<open>Sql_Cache\<close> (\<open>cache.rs\<close>): the statement cache refines the parser.

  \<^bold>\<open>Query execution\<close> (\<open>keystone/tpt-keystone/src/executor\<close>).
  \<^item> \<open>Sql_Value\<close>, \<open>Sql_Json\<close>, \<open>Sql_Eval\<close> (\<open>eval.rs\<close>): values and their cells, arithmetic,
    casts, \<open>LIKE\<close>, JSON operators, every form of expression, aggregates. Evaluation respects a static
    typing, and conditions without negation keep the rows that are true in three-valued logic.
  \<^item> \<open>Sql_Join\<close> (\<open>join.rs\<close>): joins by hash table are the nested loops that test the condition, where every
    column reference of the keys means a column of its own table.
    \<open>Sql_Planner\<close> (\<open>planner.rs\<close>): predicates an index can answer, and the order of inner joins.
  \<^item> \<open>Sql_Window\<close>, \<open>Sql_Select\<close> (\<open>select.rs\<close>, \<open>mod.rs\<close>): groups, windows and the whole query,
    with common table expressions, unions and subqueries.

  \<^bold>\<open>Access control\<close> (\<open>keystone/tpt-keystone/src\<close>).
  \<^item> \<open>Roles\<close> (\<open>wire/roles.rs\<close>, \<open>wire/role_members.rs\<close>, \<open>wire/privileges.rs\<close>), \<open>Rbac\<close>
    (\<open>executor/rbac.rs\<close>): the catalogues as encoded rows, and the check of a statement.
  \<^item> \<open>Rbac_Sound\<close>: along every sequence of role statements the memberships are acyclic and
    the check decides exactly the relation of grants and memberships for the statements on rows,
    \<open>CREATE TABLE\<close>, \<open>CREATE INDEX\<close>, \<open>DROP TABLE\<close> and role administration; what it does not see.
  \<^item> \<open>Scram\<close> (\<open>wire/scram.rs\<close>, \<open>wire/session.rs\<close>): the server side of a login is sound,
    and accepts a client that computes its messages as the RFC says, for ASCII user names without a
    comma, no authorisation identity and no extensions, and passwords that SASLprep leaves alone.

  \<^bold>\<open>Wire.\<close> \<open>Proto\<close> (\<open>wire/grpc/proto.rs\<close>): the protocol buffers reader and writer
  and all messages of the streaming service. \<open>Huffman\<close>, \<open>Hpack\<close>, \<open>Hpack_Rfc\<close>
  (\<open>wire/grpc/hpack.rs\<close>): the header decoder implements RFC 7541, and inverts the encoder.

  \<^bold>\<open>Telos\<close> (\<open>telos/crates\<close>).
  \<^item> \<open>Telos_Ir\<close> (\<open>tpt-telos-ir/src/ir.rs\<close>) and \<open>Telos_Ast\<close>
    (\<open>tpt-telos-parser/src/ast.rs\<close>): constraints and abstract syntax.
  \<^item> \<open>Telos_Solver\<close>, \<open>Telos_Sound\<close>, \<open>Telos_Model\<close>
    (\<open>tpt-telos-verifier/src/solver.rs\<close>): substitution and elimination are sound and
    complete over the rationals; counterexamples are genuine, up to premises with \<open>!=\<close>, and the search for
    them ends.
  \<^item> \<open>Telos_Verify\<close> (\<open>tpt-telos-verifier/src/verify.rs\<close>): what passes is true, as long as the solver's
    arithmetic does not wrap around.
  \<^item> \<open>Telos_Extract\<close>, \<open>Telos_Build\<close> (\<open>tpt-telos-ir/src/extract.rs\<close>): normal forms,
    bodies and problems.
  \<^item> \<open>Telos_Contracts\<close>, \<open>Telos_Bodies\<close>, \<open>Telos_Soundness\<close>: the meaning of contracts and
    of bodies, and the theorem that an accepted function keeps its contract, with the cases
    outside its hypotheses in which acceptance means less.

  \<^bold>\<open>Spine.\<close> \<open>Audit_Log\<close> (\<open>tpt-pantheon-spine-audit-log/src/lib.rs\<close>): the chain
  verifies what it accumulates and is tamper-evident up to collisions, apart from bytes moved
  between neighbouring fields.

  \<^bold>\<open>State, errors, machine integers.\<close> State is passed explicitly; what a lock makes atomic is
  one function (for commits see above), and interleavings of such functions are step relations with invariants by rule
  induction. Fallible operations return sums; panics are error values. I/O consults a schedule
  of outcomes, so that every call may fail. Arithmetic is that of the release profile: words,
  or integers with the wrap-around written out. In the Telos theories every unchecked
  operation takes the function that brings its result into range: \<open>wrap64\<close> and
  \<open>wrap128\<close> are the program, \<open>exact\<close> the same code on unbounded integers, and theorems
  ask that the two agree on the run in question. Third-party code (SHA-256, the bloom filter,
  the skip list, the serialiser) is a parameter with its documented laws as a locale, and each
  of those has an instance. Iteration orders of hash maps are parameters, and so are the case
  tables of Unicode, regular expressions and the reader and printer of JSON. A float is its bit
  pattern; its arithmetic is exact on fractions and rounds once, with one not-a-number. A sort by
  a comparison is the stable sort, as the standard library promises for consistent comparisons.

  \<^bold>\<open>Loops and fuel.\<close> Loops are structural or have a termination proof; the search for
  counterexamples, which can diverge, is a partial function, and
  \<open>counterexample_terminates\<close> says when it returns. The SQL parser recurses through nested
  expressions and queries with fuel, one more than the number of tokens; running out is the
  error \<open>Diverges\<close>, which \<open>parse_stmt_returns\<close> excludes. Its loop over table constraints
  is a \<open>while_option\<close>, and not returning is the same error. The walks over a B-tree file, which a
  damaged file can send in a circle, are partial functions. A query executes with a bound on the
  nesting of queries, and a recursive table expression with the bound of the code, 10001 rounds.

  \<^bold>\<open>Not modelled.\<close> Listing objects and the S3 client; the io_uring backend; the metrics; the
  secondary indexes other than the B-tree and the catalogue, which are an opaque part of the
  database state; the external SMT backend and the verifier cluster; of the executor the statements
  that change rows and schemas, \<open>COPY\<close> and the geospatial, vector, sequence, catalogue and
  user-defined functions, which are one parameter of the evaluator; the PostgreSQL protocol past the
  login, HTTP/2 frames, graph algorithms, agents; code generation, language server and tools of
  Telos; the Telos parser; Appfront; the identity service, which is not Rust. Of these, in the order
  of their weight for the program: the statements that change rows, the event streams, the Telos
  parser and code generation, and the reactive core of Appfront are the next candidates.
\<close>

end
